(* ===== verification/Prelude.thy ===== *)
theory Prelude
  imports Main "HOL-Library.Word" "HOL-Library.Monad_Syntax" "HOL-Library.Multiset"
begin

text \<open>
  Shared vocabulary of the development: the C integer types, addresses and the store of
  intrusive \<open>next\<close> pointers, the reading of undefined behaviour as \<open>None\<close>, and the generic
  lemmas on pointer chains, lists and words that the component theories use.

  Conventions.
  \<^item> \<open>uintN_t\<close> is an \<open>N word\<close>, so \<open>+\<close>, \<open>-\<close>, \<open>*\<close> wrap as in C.
  \<^item> \<open>int32_t\<close> is an \<open>int\<close> kept in range by \<open>i32\<close>: leaving the range is undefined behaviour.
  \<^item> A computation that dereferences a null or dangling pointer, indexes outside an allocated
    block, fails an \<open>assert\<close> or overflows a signed integer has the value \<open>None\<close>.
  \<^item> Error codes which the C code returns are ordinary values.
\<close>

section \<open>Machine integers\<close>

type_synonym u8 = "8 word"
type_synonym u16 = "16 word"
type_synonym u32 = "32 word"
type_synonym u64 = "64 word"
type_synonym byte = u8

abbreviation INT32_MAX :: int where "INT32_MAX \<equiv> 2147483647"
abbreviation INT32_MIN :: int where "INT32_MIN \<equiv> -2147483648"

definition i32 :: "int \<Rightarrow> int option" where
  "i32 x = (if INT32_MIN \<le> x \<and> x \<le> INT32_MAX then Some x else None)"

definition assert_c :: "bool \<Rightarrow> unit option" where
  "assert_c b = (if b then Some () else None)"

lemma assert_c_simps [simp]:
  "assert_c True = Some ()" "assert_c False = None" "(assert_c b = Some u) = b"
  by (auto simp: assert_c_def)

lemma i32_in_range [simp]: "INT32_MIN \<le> x \<Longrightarrow> x \<le> INT32_MAX \<Longrightarrow> i32 x = Some x"
  by (simp add: i32_def)

lemma i32_eq_Some: "i32 x = Some y \<longleftrightarrow> y = x \<and> INT32_MIN \<le> x \<and> x \<le> INT32_MAX"
  by (auto simp: i32_def)

lemma unat_less_pow: "unat (n::'a::len word) < 2 ^ LENGTH('a)"
  by (rule unsigned_less)

lemma unat_ucast_wide:
  "unat (n::'a::len word) < 2 ^ LENGTH('b) \<Longrightarrow> unat (ucast n :: 'b::len word) = unat n"
  by (simp add: unsigned_ucast_eq take_bit_nat_eq_self)

lemma unat_plus_one:
  fixes c n :: "'a::len word"
  assumes "c < n"
  shows "unat (c + 1) = Suc (unat c)"
proof -
  have "Suc (unat c) < 2 ^ LENGTH('a)"
    using assms unat_less_pow [of n] unfolding word_less_nat_alt by linarith
  then show ?thesis by (simp add: unat_word_ariths)
qed

lemma unat_div_word: "unat ((a::'a::len word) div b) = unat a div unat b"
  by (simp add: unat_div)

lemma unat_word_of_nat: "n < 2 ^ LENGTH('a) \<Longrightarrow> unat (word_of_nat n :: 'a::len word) = n"
  by (simp add: unat_of_nat)

lemma unat_sub_le: "(b::'a::len word) \<le> a \<Longrightarrow> unat (a - b) = unat a - unat b"
  by (rule unat_sub)

lemma unat_add_le:
  fixes a b c :: "'a::len word"
  assumes "unat a + unat b \<le> unat c"
  shows "unat (a + b) = unat a + unat b"
proof -
  have "unat a + unat b < 2 ^ LENGTH('a)" using assms unat_less_pow [of c] by linarith
  then show ?thesis by (simp add: unat_word_ariths)
qed

section \<open>Addresses and intrusive lists\<close>

type_synonym addr = nat
type_synonym nexts = "addr \<rightharpoonup> addr"

abbreviation (input) NULL :: addr where "NULL \<equiv> 0"

text \<open>
  \<open>chain h p xs q\<close>: following the \<open>next\<close> fields of the store \<open>h\<close> from \<open>p\<close> visits exactly the
  nodes \<open>xs\<close> and arrives at \<open>q\<close>.
\<close>

fun chain :: "nexts \<Rightarrow> addr \<Rightarrow> addr list \<Rightarrow> addr \<Rightarrow> bool" where
  "chain h p [] q = (p = q)"
| "chain h p (a # as) q =
     (p = a \<and> a \<noteq> NULL \<and> (case h a of None \<Rightarrow> False | Some r \<Rightarrow> chain h r as q))"

named_theorems rep_simps \<open>rewrite rules for representation predicates\<close>
named_theorems rep_dests \<open>consequences of representation predicates\<close>

lemma chain_append [rep_simps]:
  "chain h p (xs @ ys) q \<longleftrightarrow> (\<exists>r. chain h p xs r \<and> chain h r ys q)"
  by (induction xs arbitrary: p) (auto split: option.splits)

lemma chain_frame [simp]:
  "a \<notin> set xs \<Longrightarrow> chain (h(a := v)) p xs q = chain h p xs q"
  by (induction xs arbitrary: p) (auto split: option.splits)

lemma chain_functional:
  "chain h p xs NULL \<Longrightarrow> chain h p ys NULL \<Longrightarrow> xs = ys"
proof (induction xs arbitrary: p ys)
  case Nil
  then show ?case by (cases ys) auto
next
  case (Cons x xs)
  then show ?case by (cases ys) (auto split: option.splits)
qed

lemma chain_null_notin: "chain h p xs q \<Longrightarrow> NULL \<notin> set xs"
  by (induction xs arbitrary: p) (auto split: option.splits)

lemma chain_dom: "chain h p xs q \<Longrightarrow> a \<in> set xs \<Longrightarrow> \<exists>r. h a = Some r"
  by (induction xs arbitrary: p) (auto split: option.splits)

lemma chain_distinct: "chain h p xs NULL \<Longrightarrow> distinct xs"
proof (induction xs arbitrary: p)
  case Nil
  then show ?case by simp
next
  case (Cons x xs)
  then obtain r where r: "h x = Some r" "chain h r xs NULL"
    by (auto split: option.splits)
  have "x \<notin> set xs"
  proof
    assume "x \<in> set xs"
    then obtain us vs where xs: "xs = us @ x # vs" by (auto simp: in_set_conv_decomp)
    with r have "chain h r vs NULL" by (auto simp: chain_append split: option.splits)
    with r(2) have "xs = vs" by (rule chain_functional)
    with xs show False by simp
  qed
  moreover have "distinct xs" using Cons.IH r(2) by blast
  ultimately show ?case by simp
qed

lemma chain_Null_start [simp]: "chain h NULL xs q \<longleftrightarrow> xs = [] \<and> q = NULL"
  by (cases xs) auto

lemma chain_nonnull_start:
  "p \<noteq> NULL \<Longrightarrow> chain h p xs NULL \<Longrightarrow> \<exists>ys r. xs = p # ys \<and> h p = Some r \<and> chain h r ys NULL"
  by (cases xs) (auto split: option.splits)

lemma chain_last_next:
  "chain h p xs NULL \<Longrightarrow> xs \<noteq> [] \<Longrightarrow> h (last xs) = Some NULL"
  by (induction xs arbitrary: p) (auto split: option.splits if_splits)

text \<open>Redirecting the last node of a chain extends it.\<close>

lemma chain_redirect_last:
  assumes "chain h p xs NULL" "xs \<noteq> []"
  shows "chain (h(last xs \<mapsto> q)) p xs q"
proof -
  obtain ys z where xs: "xs = ys @ [z]" using assms(2) by (cases xs rule: rev_cases) auto
  have "z \<notin> set ys" using chain_distinct [OF assms(1)] xs by simp
  with assms(1) xs show ?thesis by (auto simp: chain_append split: option.splits)
qed

section \<open>Lists\<close>

lemma find_upt_Some:
  "List.find P [0..<n] = Some d \<longleftrightarrow> d < n \<and> P d \<and> (\<forall>e < d. \<not> P e)"
  by (auto simp: find_Some_iff)

lemma find_upt_None: "List.find P [0..<n] = None \<longleftrightarrow> (\<forall>e < n. \<not> P e)"
  by (auto simp: find_None_iff)

lemma length_filter_update:
  assumes "i < length xs"
  shows "length (filter P (xs[i := y])) + (if P (xs ! i) then 1 else 0) =
         length (filter P xs) + (if P y then 1 else 0)"
proof -
  have "filter P xs = filter P (take i xs) @ (if P (xs ! i) then [xs ! i] else []) @
      filter P (drop (Suc i) xs)"
    by (subst id_take_nth_drop [OF assms]) (simp del: append_take_drop_id)
  then show ?thesis using assms by (simp add: upd_conv_take_nth_drop)
qed

lemma length_filter_less_iff:
  "length (filter P xs) < length xs \<longleftrightarrow> (\<exists>i < length xs. \<not> P (xs ! i))"
proof
  assume "length (filter P xs) < length xs"
  then have "filter P xs \<noteq> xs" by auto
  then show "\<exists>i < length xs. \<not> P (xs ! i)" by (auto simp: filter_id_conv in_set_conv_nth)
next
  assume "\<exists>i < length xs. \<not> P (xs ! i)"
  then show "length (filter P xs) < length xs" by (metis length_filter_less nth_mem)
qed

section \<open>Sequences of queue operations\<close>

text \<open>Run \<open>push\<close> over a list of nodes; run \<open>pop\<close> a number of times collecting the results.\<close>

fun push_all :: "('s \<Rightarrow> 'n \<Rightarrow> 's option) \<Rightarrow> 's \<Rightarrow> 'n list \<Rightarrow> 's option" where
  "push_all push s [] = Some s"
| "push_all push s (n # ns) = do { s' \<leftarrow> push s n; push_all push s' ns }"

fun pop_all :: "('s \<Rightarrow> ('s \<times> 'n) option) \<Rightarrow> 's \<Rightarrow> nat \<Rightarrow> ('s \<times> 'n list) option" where
  "pop_all pop s 0 = Some (s, [])"
| "pop_all pop s (Suc k) =
     do { (s', n) \<leftarrow> pop s; (s'', ns) \<leftarrow> pop_all pop s' k; Some (s'', n # ns) }"

text \<open>
  The interface of an intrusive queue: \<open>rep s xs\<close> says that state \<open>s\<close> holds the nodes \<open>xs\<close>,
  \<open>ready s n\<close> that node \<open>n\<close> may be handed to \<open>push\<close>. The laws are what the clients of
  \<open>link_list\<close> and of the allocator's \<open>free_list\<close> rely on.
\<close>

locale intrusive_queue =
  fixes rep :: "'s \<Rightarrow> 'n list \<Rightarrow> bool"
    and ready :: "'s \<Rightarrow> 'n \<Rightarrow> bool"
    and cap :: nat
    and push :: "'s \<Rightarrow> 'n \<Rightarrow> 's option"
    and pop :: "'s \<Rightarrow> ('s \<times> 'n) option"
  assumes push_law: "rep s xs \<Longrightarrow> ready s n \<Longrightarrow> n \<notin> set xs \<Longrightarrow> length xs < cap \<Longrightarrow>
      \<exists>s'. push s n = Some s' \<and> rep s' (xs @ [n]) \<and>
           (\<forall>m. m \<noteq> n \<longrightarrow> m \<notin> set xs \<longrightarrow> ready s m \<longrightarrow> ready s' m)"
    and pop_law: "rep s (n # xs) \<Longrightarrow> \<exists>s'. pop s = Some (s', n) \<and> rep s' xs"
begin

lemma push_all_law:
  assumes "rep s xs" "distinct ns" "set ns \<inter> set xs = {}" "\<forall>n \<in> set ns. ready s n"
    "length xs + length ns \<le> cap"
  shows "\<exists>s'. push_all push s ns = Some s' \<and> rep s' (xs @ ns)"
  using assms
proof (induction ns arbitrary: s xs)
  case Nil
  then show ?case by simp
next
  case (Cons n ns)
  from Cons.prems obtain s' where s': "push s n = Some s'" "rep s' (xs @ [n])"
      "\<forall>m. m \<noteq> n \<longrightarrow> m \<notin> set xs \<longrightarrow> ready s m \<longrightarrow> ready s' m"
    using push_law [of s xs n] by auto
  have "\<forall>m \<in> set ns. ready s' m" using Cons.prems s'(3) by auto
  then obtain s'' where "push_all push s' ns = Some s''" "rep s'' ((xs @ [n]) @ ns)"
    using Cons.IH [of s' "xs @ [n]"] Cons.prems s'(2) by auto
  with s'(1) show ?case by simp
qed

lemma pop_all_law:
  assumes "rep s (ns @ xs)"
  shows "\<exists>s'. pop_all pop s (length ns) = Some (s', ns) \<and> rep s' xs"
  using assms
proof (induction ns arbitrary: s)
  case Nil
  then show ?case by simp
next
  case (Cons n ns)
  then obtain s' where "pop s = Some (s', n)" "rep s' (ns @ xs)" using pop_law by fastforce
  then show ?case using Cons.IH [of s'] by auto
qed

lemma fifo_law:
  assumes "rep s xs" "distinct ns" "set ns \<inter> set xs = {}" "\<forall>n \<in> set ns. ready s n"
    "length xs + length ns \<le> cap"
  shows "\<exists>s' s''. push_all push s ns = Some s' \<and>
           pop_all pop s' (length xs + length ns) = Some (s'', xs @ ns) \<and> rep s'' []"
proof -
  obtain s' where s': "push_all push s ns = Some s'" "rep s' ((xs @ ns) @ [])"
    using push_all_law [OF assms] by auto
  with pop_all_law [OF s'(2)] show ?thesis by auto
qed

end

section \<open>The interface of a map container\<close>

text \<open>
  What \<open>insert\<close>, \<open>remove\<close> and \<open>find\<close> of a key-value container promise: \<open>good\<close> is the invariant,
  \<open>abs\<close> the finite map the state stands for, \<open>fits\<close> what an insertion needs. Codes are those of the C
  interfaces: 0 for success, -1 for failure.
\<close>

locale map_container =
  fixes good :: "'s \<Rightarrow> bool"
    and abs :: "'s \<Rightarrow> 'k \<rightharpoonup> 'v"
    and fits :: "'s \<Rightarrow> 'k \<Rightarrow> 'v \<Rightarrow> bool"
    and ins :: "'s \<Rightarrow> 'k \<Rightarrow> 'v \<Rightarrow> ('s \<times> int) option"
    and del :: "'s \<Rightarrow> 'k \<Rightarrow> ('s \<times> int) option"
    and look :: "'s \<Rightarrow> 'k \<Rightarrow> 'v option option"
  assumes ins_law: "good s \<Longrightarrow> fits s k v \<Longrightarrow> abs s k = None \<Longrightarrow>
      \<exists>s'. ins s k v = Some (s', 0) \<and> good s' \<and> abs s' = (abs s)(k \<mapsto> v)"
    and del_law: "good s \<Longrightarrow> abs s k = Some v \<Longrightarrow>
      \<exists>s'. del s k = Some (s', 0) \<and> good s' \<and> abs s' = (abs s)(k := None)"
    and del_missing_law: "good s \<Longrightarrow> abs s k = None \<Longrightarrow> del s k = Some (s, -1)"
    and look_law: "good s \<Longrightarrow> look s k = Some (abs s k)"
begin

text \<open>Storing a fresh key, reading any key back and removing the key again.\<close>

lemma ins_look_del:
  assumes "good s" "fits s k v" "abs s k = None"
  shows "\<exists>s1 s2. ins s k v = Some (s1, 0) \<and> look s1 k = Some (Some v) \<and>
    (\<forall>k'. k' \<noteq> k \<longrightarrow> look s1 k' = look s k') \<and>
    del s1 k = Some (s2, 0) \<and> (\<forall>k'. look s2 k' = look s k') \<and> del s2 k = Some (s2, -1)"
proof -
  obtain s1 where s1: "ins s k v = Some (s1, 0)" "good s1" "abs s1 = (abs s)(k \<mapsto> v)"
    using ins_law [OF assms] by blast
  then obtain s2 where s2: "del s1 k = Some (s2, 0)" "good s2" "abs s2 = (abs s1)(k := None)"
    using del_law [of s1 k v] by auto
  have "abs s2 = abs s" using s1(3) s2(3) assms(3) by auto
  with s1 s2 assms show ?thesis using look_law del_missing_law by simp
qed

end

end
