(* ===== verification/HashMap.thy ===== *)
theory HashMap
  imports Prelude
begin

text \<open>
  The open-addressing hash table of \<open>src/src/hash_map.c\<close>: linear probing, tombstones
  (\<open>ITEM_DELETE\<close>) and doubling at three quarters full. Keys and values are the byte blocks that
  \<open>memcpy\<close> copies. The hash function, the key comparison and \<open>calloc\<close> are supplied from outside:
  the first two are fields of the table, as in the code; whether an allocation of a given number of
  bytes succeeds is the argument \<open>calloc_ok\<close>. Calls of \<open>_on_remove\<close> are reported as a list.
\<close>

type_synonym bytes = "byte list"

datatype item_flag = ITEM_EMPTY | ITEM_DELETE | ITEM_USED

record hash_item =
  hash_code :: u64
  flag :: item_flag
  hi_key :: bytes
  hi_val :: bytes

record hash_map =
  hash_function :: "bytes \<Rightarrow> u64"
  key_cmp_function :: "bytes \<Rightarrow> bytes \<Rightarrow> int"
  on_remove :: bool
  slot_size :: u32
  hm_size :: u32
  key_size :: u32
  val_size :: u32
  item_size :: u32
  expand_size :: u32
  hm_items :: "hash_item list"

text \<open>\<open>sizeof(struct hash_item)\<close> is 16: eight bytes of hash code, the flag, padding.\<close>

definition calloc_items :: "u32 \<Rightarrow> u32 \<Rightarrow> u32 \<Rightarrow> hash_item list" where
  "calloc_items n ks vs = replicate (unat n)
     \<lparr>hash_code = 0, flag = ITEM_EMPTY, hi_key = replicate (unat ks) 0, hi_val = replicate (unat vs) 0\<rparr>"

text \<open>
  \<open>GET_ITEM\<close> computes the byte offset \<open>ITEM_SIZE*SLOT\<close> in 32 bits. The result is the index of the
  item at that offset; an offset outside the block, or one that wrapped to the middle of an item,
  is \<open>None\<close>.
\<close>

definition GET_ITEM :: "nat \<Rightarrow> u32 \<Rightarrow> u32 \<Rightarrow> nat option" where
  "GET_ITEM n isz slot =
     (let off = unat (isz * slot) in
      if unat isz \<noteq> 0 \<and> off mod unat isz = 0 \<and> off div unat isz < n
      then Some (off div unat isz) else None)"

definition HASH_MAP_INDEX :: "u64 \<Rightarrow> u32 \<Rightarrow> u32 option" where
  "HASH_MAP_INDEX code n = (if n = 0 then None else Some (ucast (code mod ucast n)))"

definition hash_map_create ::
  "(nat \<Rightarrow> bool) \<Rightarrow> u32 \<Rightarrow> u32 \<Rightarrow> u32 \<Rightarrow> (bytes \<Rightarrow> u64) \<Rightarrow> (bytes \<Rightarrow> bytes \<Rightarrow> int) \<Rightarrow> bool \<Rightarrow>
   hash_map option" where
  "hash_map_create calloc_ok n ks vs hf kc onr =
     (let isz = 16 + ks + vs in
      if calloc_ok (unat n * unat isz)
      then Some \<lparr>hash_function = hf, key_cmp_function = kc, on_remove = onr, slot_size = n, hm_size = 0,
                 key_size = ks, val_size = vs, item_size = isz, expand_size = n - n div 4,
                 hm_items = calloc_items n ks vs\<rparr>
      else None)"

text \<open>The items given to \<open>_on_remove\<close> when the table is destroyed, in slot order.\<close>

definition hash_map_destroy :: "hash_map \<Rightarrow> (bytes \<times> bytes) list" where
  "hash_map_destroy h =
     (if on_remove h
      then map (\<lambda>it. (hi_key it, hi_val it)) (filter (\<lambda>it. flag it = ITEM_USED) (hm_items h))
      else [])"

text \<open>The writes to a free slot: flag, key, value and hash code.\<close>

definition hm_store :: "hash_map \<Rightarrow> nat \<Rightarrow> bytes \<Rightarrow> bytes \<Rightarrow> u64 \<Rightarrow> hash_map" where
  "hm_store h i key val code = h\<lparr>hm_items := (hm_items h)[i :=
     \<lparr>hash_code = code, flag = ITEM_USED, hi_key = take (unat (key_size h)) key,
      hi_val = take (unat (val_size h)) val\<rparr>]\<rparr>"

function hm_insert_loop ::
  "hash_map \<Rightarrow> bytes \<Rightarrow> bytes \<Rightarrow> u64 \<Rightarrow> u32 \<Rightarrow> u32 \<Rightarrow> (hash_map \<times> int) option" where
  "hm_insert_loop h key val code slot check_count =
     (if check_count < slot_size h then do {
        i \<leftarrow> GET_ITEM (length (hm_items h)) (item_size h) slot;
        let item = hm_items h ! i;
        if flag item \<noteq> ITEM_USED then Some (hm_store h i key val code, 0)
        else if code = hash_code item \<and> key_cmp_function h key (hi_key item) = 0 then Some (h, -1)
        else hm_insert_loop h key val code ((slot + 1) mod slot_size h) (check_count + 1)
      } else Some (h, -1))"
  by pat_completeness auto
termination
  by (relation "measure (\<lambda>(h, key, val, code, slot, cnt). unat (slot_size h) - unat cnt)")
    (auto simp: unat_plus_one word_less_nat_alt)

declare hm_insert_loop.simps [simp del]

definition hm_insert :: "hash_map \<Rightarrow> bytes \<Rightarrow> bytes \<Rightarrow> u64 \<Rightarrow> (hash_map \<times> int) option" where
  "hm_insert h key val code = do {
     slot \<leftarrow> HASH_MAP_INDEX code (slot_size h);
     hm_insert_loop h key val code slot 0
   }"

text \<open>The copying loop of \<open>_hash_map_expand\<close>, over the slots that remain.\<close>

fun hm_expand_loop :: "hash_map \<Rightarrow> hash_item list \<Rightarrow> nat list \<Rightarrow> hash_map option" where
  "hm_expand_loop h old [] = Some h"
| "hm_expand_loop h old (i # is) = do {
     j \<leftarrow> GET_ITEM (length old) (item_size h) (of_nat i);
     let item = old ! j;
     if flag item = ITEM_USED then do {
       (h', _) \<leftarrow> hm_insert h (hi_key item) (hi_val item) (hash_code item);
       hm_expand_loop h' old is
     } else hm_expand_loop h old is
   }"

definition hm_expand :: "(nat \<Rightarrow> bool) \<Rightarrow> hash_map \<Rightarrow> (hash_map \<times> int) option" where
  "hm_expand calloc_ok h = (let
     old_slot_size = slot_size h;
     old_items = hm_items h;
     n = push_bit 1 (slot_size h)
   in if \<not> calloc_ok (unat n * unat (item_size h))
      then Some (h\<lparr>hm_items := old_items, slot_size := drop_bit 1 n\<rparr>, -1)
      else do {
        h' \<leftarrow> hm_expand_loop
               (h\<lparr>slot_size := n, hm_items := calloc_items n (key_size h) (val_size h)\<rparr>)
               old_items [0..<unat old_slot_size];
        Some (h'\<lparr>expand_size := slot_size h' - slot_size h' div 4\<rparr>, 0)
      })"

definition hash_map_insert ::
  "(nat \<Rightarrow> bool) \<Rightarrow> hash_map \<Rightarrow> bytes \<Rightarrow> bytes \<Rightarrow> (hash_map \<times> int) option" where
  "hash_map_insert calloc_ok h key val = do {
     let code = hash_function h key;
     h1 \<leftarrow> (if slot_size h < 0x80000000 \<and> hm_size h \<ge> expand_size h
            then map_option fst (hm_expand calloc_ok h) else Some h);
     if hm_size h1 \<ge> slot_size h1 then Some (h1, -1)
     else do {
       (h2, r) \<leftarrow> hm_insert h1 key val code;
       if r = 0 then Some (h2\<lparr>hm_size := hm_size h2 + 1\<rparr>, 0) else Some (h2, -1)
     }
   }"

function hm_find_loop :: "hash_map \<Rightarrow> bytes \<Rightarrow> u64 \<Rightarrow> u32 \<Rightarrow> u32 \<Rightarrow> nat option option" where
  "hm_find_loop h key code slot check_count =
     (if check_count < slot_size h then do {
        i \<leftarrow> GET_ITEM (length (hm_items h)) (item_size h) slot;
        let item = hm_items h ! i;
        if flag item = ITEM_EMPTY then Some None
        else if hash_code item = code \<and> key_cmp_function h key (hi_key item) = 0 then
          (if flag item = ITEM_DELETE then Some None else Some (Some i))
        else hm_find_loop h key code ((slot + 1) mod slot_size h) (check_count + 1)
      } else Some None)"
  by pat_completeness auto
termination
  by (relation "measure (\<lambda>(h, key, code, slot, cnt). unat (slot_size h) - unat cnt)")
    (auto simp: unat_plus_one word_less_nat_alt)

declare hm_find_loop.simps [simp del]

text \<open>
  A found item is the index of its slot, \<open>Some None\<close> is the null pointer. An iterator is such an
  index: \<open>data1\<close> is the table itself.
\<close>

definition hm_find :: "hash_map \<Rightarrow> bytes \<Rightarrow> nat option option" where
  "hm_find h key = do {
     let code = hash_function h key;
     slot \<leftarrow> HASH_MAP_INDEX code (slot_size h);
     hm_find_loop h key code slot 0
   }"

type_synonym hash_map_iter = "nat option"

definition hash_map_find :: "hash_map \<Rightarrow> bytes \<Rightarrow> hash_map_iter option" where
  "hash_map_find h key = hm_find h key"

definition hash_map_remove ::
  "hash_map \<Rightarrow> bytes \<Rightarrow> (hash_map \<times> int \<times> (bytes \<times> bytes) list) option" where
  "hash_map_remove h key = do {
     r \<leftarrow> hm_find h key;
     (case r of
        Some i \<Rightarrow> let item = hm_items h ! i in
          Some (h\<lparr>hm_items := (hm_items h)[i := item\<lparr>flag := ITEM_DELETE\<rparr>], hm_size := hm_size h - 1\<rparr>,
                0, if on_remove h then [(hi_key item, hi_val item)] else [])
      | None \<Rightarrow> Some (h, -1, []))
   }"

definition hash_map_erase ::
  "hash_map \<Rightarrow> hash_map_iter \<Rightarrow> hash_map \<times> int \<times> (bytes \<times> bytes) list" where
  "hash_map_erase h it = (case it of
     Some i \<Rightarrow> let item = hm_items h ! i in
       (h\<lparr>hm_items := (hm_items h)[i := item\<lparr>flag := ITEM_DELETE\<rparr>], hm_size := hm_size h - 1\<rparr>,
        0, if on_remove h then [(hi_key item, hi_val item)] else [])
   | None \<Rightarrow> (h, -1, []))"

definition hash_map_is_vaild_iter :: "hash_map_iter \<Rightarrow> bool" where
  "hash_map_is_vaild_iter it \<longleftrightarrow> it \<noteq> None"

definition hash_map_iter_get_val :: "hash_map \<Rightarrow> hash_map_iter \<Rightarrow> bytes option" where
  "hash_map_iter_get_val h it = do { i \<leftarrow> it; Some (hi_val (hm_items h ! i)) }"

definition hash_map_iter_set_val :: "hash_map \<Rightarrow> hash_map_iter \<Rightarrow> bytes \<Rightarrow> hash_map option" where
  "hash_map_iter_set_val h it data = do {
     i \<leftarrow> it;
     Some (h\<lparr>hm_items := (hm_items h)[i :=
       (hm_items h ! i)\<lparr>hi_val := take (unat (val_size h)) data\<rparr>]\<rparr>)
   }"

section \<open>Invariant and abstraction\<close>

definition used_items :: "hash_map \<Rightarrow> hash_item list" where
  "used_items h = filter (\<lambda>it. flag it = ITEM_USED) (hm_items h)"

definition hm_abs :: "hash_map \<Rightarrow> bytes \<rightharpoonup> bytes" where
  "hm_abs h = map_of (map (\<lambda>it. (hi_key it, hi_val it)) (used_items h))"

text \<open>The slot at distance \<open>e\<close> from the home slot of a hash code.\<close>

definition probe :: "hash_map \<Rightarrow> u64 \<Rightarrow> nat \<Rightarrow> nat" where
  "probe h code e = (unat code mod unat (slot_size h) + e) mod unat (slot_size h)"

definition probe_item :: "hash_map \<Rightarrow> u64 \<Rightarrow> nat \<Rightarrow> hash_item" where
  "probe_item h code e = hm_items h ! probe h code e"

definition hm_shape :: "hash_map \<Rightarrow> bool" where
  "hm_shape h \<longleftrightarrow> slot_size h \<noteq> 0 \<and> length (hm_items h) = unat (slot_size h) \<and> item_size h \<noteq> 0 \<and>
     unat (item_size h) * unat (slot_size h) < 2 ^ 32"

text \<open>
  A used slot holds the hash of its key, lies on the probe path of that key, and every slot before
  it on that path is occupied by something that does not compare equal to the key.
\<close>

definition hm_placed :: "hash_map \<Rightarrow> nat \<Rightarrow> bool" where
  "hm_placed h i \<longleftrightarrow> (let it = hm_items h ! i in
     hash_code it = hash_function h (hi_key it) \<and>
     length (hi_key it) = unat (key_size h) \<and> length (hi_val it) = unat (val_size h) \<and>
     (\<exists>d < unat (slot_size h). probe h (hash_code it) d = i \<and>
        (\<forall>e < d. flag (probe_item h (hash_code it) e) \<noteq> ITEM_EMPTY \<and>
           \<not> (hash_code (probe_item h (hash_code it) e) = hash_code it \<and>
              hi_key (probe_item h (hash_code it) e) = hi_key it))))"

definition hm_core :: "hash_map \<Rightarrow> bool" where
  "hm_core h \<longleftrightarrow> hm_shape h \<and>
     (\<forall>i < unat (slot_size h). flag (hm_items h ! i) = ITEM_USED \<longrightarrow> hm_placed h i)"

definition hm_inv :: "hash_map \<Rightarrow> bool" where
  "hm_inv h \<longleftrightarrow> hm_core h \<and> hm_size h = of_nat (length (used_items h))"

text \<open>What the table requires of the comparison its client supplies.\<close>

definition key_cmp_ok :: "hash_map \<Rightarrow> bool" where
  "key_cmp_ok h \<longleftrightarrow> (\<forall>a b. key_cmp_function h a b = 0 \<longleftrightarrow> a = b)"

section \<open>Probing\<close>

lemma shape_get_item:
  assumes "hm_shape h" "unat slot < unat (slot_size h)"
  shows "GET_ITEM (length (hm_items h)) (item_size h) slot = Some (unat slot)"
proof -
  have "unat (item_size h) * unat slot \<le> unat (item_size h) * unat (slot_size h)"
    using assms(2) by simp
  then have "unat (item_size h) * unat slot < 2 ^ 32" using assms(1) unfolding hm_shape_def by linarith
  then have "unat (item_size h * slot) = unat (item_size h) * unat slot"
    by (simp add: unat_word_ariths)
  moreover have "unat (item_size h) \<noteq> 0" using assms(1) by (simp add: hm_shape_def unat_eq_0)
  ultimately show ?thesis using assms by (simp add: GET_ITEM_def hm_shape_def)
qed

lemma shape_next_slot:
  assumes "unat slot < unat (slot_size h)"
  shows "unat ((slot + 1) mod slot_size h) = (unat slot + 1) mod unat (slot_size h)"
  using assms unat_plus_one [of slot "slot_size h"] by (simp add: unat_mod word_less_nat_alt)

lemma shape_index:
  assumes "n \<noteq> 0"
  shows "\<exists>s. HASH_MAP_INDEX code n = Some s \<and> unat s = unat code mod unat n"
proof -
  have u: "unat (ucast n :: u64) = unat n" using unat_less_pow [of n] by (intro unat_ucast_wide) simp
  have "unat code mod unat n < unat n" using assms by (simp add: unat_gt_0)
  then have "unat (code mod ucast n) < 2 ^ 32" using unat_less_pow [of n] by (simp add: unat_mod u)
  then have "unat (ucast (code mod ucast n) :: u32) = unat code mod unat n"
    by (subst unat_ucast_wide) (simp_all add: unat_mod u)
  then show ?thesis using assms by (simp add: HASH_MAP_INDEX_def)
qed

lemma probe_less: "slot_size h \<noteq> 0 \<Longrightarrow> probe h code e < unat (slot_size h)"
  by (simp add: probe_def unat_gt_0)

lemma probe_Suc: "(probe h code e + 1) mod unat (slot_size h) = probe h code (Suc e)"
  by (simp add: probe_def mod_Suc_eq)

lemma probe_surj:
  assumes "i < unat (slot_size h)"
  shows "\<exists>d < unat (slot_size h). probe h code d = i"
proof -
  let ?n = "unat (slot_size h)" and ?p = "unat code mod unat (slot_size h)"
  have p: "?p < ?n" using assms by simp
  show ?thesis
  proof (cases "?p \<le> i")
    case True
    then show ?thesis using assms by (intro exI [of _ "i - ?p"]) (simp add: probe_def)
  next
    case False
    then have "(?p + (i + ?n - ?p)) mod ?n = i" using assms p by simp
    then show ?thesis using False assms p
      by (intro exI [of _ "i + ?n - ?p"]) (auto simp: probe_def)
  qed
qed

lemma probe_inj:
  assumes "d < unat (slot_size h)" "e < unat (slot_size h)" "probe h code d = probe h code e"
  shows "d = e"
proof -
  let ?n = "unat (slot_size h)" and ?p = "unat code mod unat (slot_size h)"
  have "(?p + x) mod ?n = (if ?p + x < ?n then ?p + x else ?p + x - ?n)" if "x < ?n" for x
  proof -
    have "?p < ?n" using that by simp
    with that have "?p + x - ?n < ?n" by linarith
    then show ?thesis by (simp add: le_mod_geq)
  qed
  from this [OF assms(1)] this [OF assms(2)] show ?thesis
    using assms by (auto simp: probe_def split: if_splits)
qed

text \<open>Both loops stop at the first probe position that satisfies their stop condition.\<close>

definition same_key :: "hash_item \<Rightarrow> u64 \<Rightarrow> bytes \<Rightarrow> bool" where
  "same_key it code key \<longleftrightarrow> hash_code it = code \<and> hi_key it = key"

lemma upt_unroll: "i < n \<Longrightarrow> [i..<n] = i # [Suc i..<n]"
  by (rule upt_conv_Cons)

definition insert_stop :: "hash_map \<Rightarrow> u64 \<Rightarrow> bytes \<Rightarrow> nat \<Rightarrow> bool" where
  "insert_stop h code key e \<longleftrightarrow>
     flag (probe_item h code e) \<noteq> ITEM_USED \<or> same_key (probe_item h code e) code key"

definition insert_result :: "hash_map \<Rightarrow> bytes \<Rightarrow> bytes \<Rightarrow> u64 \<Rightarrow> nat option \<Rightarrow> hash_map \<times> int" where
  "insert_result h key val code r = (case r of
     Some e \<Rightarrow> if flag (probe_item h code e) \<noteq> ITEM_USED
               then (hm_store h (probe h code e) key val code, 0) else (h, -1)
   | None \<Rightarrow> (h, -1))"

definition find_stop :: "hash_map \<Rightarrow> u64 \<Rightarrow> bytes \<Rightarrow> nat \<Rightarrow> bool" where
  "find_stop h code key e \<longleftrightarrow>
     flag (probe_item h code e) = ITEM_EMPTY \<or> same_key (probe_item h code e) code key"

definition find_result :: "hash_map \<Rightarrow> u64 \<Rightarrow> nat option \<Rightarrow> nat option" where
  "find_result h code r = (case r of
     Some e \<Rightarrow> if flag (probe_item h code e) = ITEM_USED then Some (probe h code e) else None
   | None \<Rightarrow> None)"

text \<open>The step from one probe position to the next, shared by both loops.\<close>

lemma probe_step:
  assumes "hm_shape h" "unat slot = probe h code (unat cnt)" "cnt < slot_size h"
  shows "GET_ITEM (length (hm_items h)) (item_size h) slot = Some (probe h code (unat cnt))"
    and "hm_items h ! probe h code (unat cnt) = probe_item h code (unat cnt)"
    and "unat ((slot + 1) mod slot_size h) = probe h code (unat (cnt + 1))"
    and "[unat cnt..<unat (slot_size h)] = unat cnt # [unat (cnt + 1)..<unat (slot_size h)]"
proof -
  have slot: "unat slot < unat (slot_size h)"
    using assms(1,2) probe_less by (simp add: hm_shape_def)
  show "GET_ITEM (length (hm_items h)) (item_size h) slot = Some (probe h code (unat cnt))"
    using shape_get_item [OF assms(1) slot] assms(2) by simp
  show "hm_items h ! probe h code (unat cnt) = probe_item h code (unat cnt)"
    by (simp add: probe_item_def)
  show "unat ((slot + 1) mod slot_size h) = probe h code (unat (cnt + 1))"
    using shape_next_slot [OF slot] assms(2) probe_Suc unat_plus_one [OF assms(3)] by simp
  show "[unat cnt..<unat (slot_size h)] = unat cnt # [unat (cnt + 1)..<unat (slot_size h)]"
    using assms(3) unat_plus_one [OF assms(3)]
    by (simp add: upt_unroll word_less_nat_alt)
qed

lemma insert_loop_find:
  assumes "hm_shape h" "key_cmp_ok h" "unat slot = probe h code (unat cnt)"
  shows "hm_insert_loop h key val code slot cnt =
    Some (insert_result h key val code
            (List.find (insert_stop h code key) [unat cnt..<unat (slot_size h)]))"
  using assms
proof (induction h key val code slot cnt rule: hm_insert_loop.induct)
  case (1 h key val code slot cnt)
  show ?case
  proof (cases "cnt < slot_size h")
    case False
    then show ?thesis
      by (simp add: hm_insert_loop.simps [of h] word_less_nat_alt insert_result_def)
  next
    case True
    note ps = probe_step [OF "1.prems"(1,3) True]
    show ?thesis
    proof (cases "insert_stop h code key (unat cnt)")
      case stop: True
      then show ?thesis using True ps(1,2,4) "1.prems"(2)
        by (auto simp: hm_insert_loop.simps [of h] insert_stop_def insert_result_def same_key_def
            key_cmp_ok_def)
    next
      case go: False
      then show ?thesis
        using "1.IH" [OF True ps(1) refl _ _ "1.prems"(1,2) ps(3)] True ps(1,2,4) "1.prems"(2)
        by (auto simp: hm_insert_loop.simps [of h key val code slot cnt] insert_stop_def same_key_def
            key_cmp_ok_def)
    qed
  qed
qed

lemma find_loop_find:
  assumes "hm_shape h" "key_cmp_ok h" "unat slot = probe h code (unat cnt)"
  shows "hm_find_loop h key code slot cnt =
    Some (find_result h code (List.find (find_stop h code key) [unat cnt..<unat (slot_size h)]))"
  using assms
proof (induction h key code slot cnt rule: hm_find_loop.induct)
  case (1 h key code slot cnt)
  show ?case
  proof (cases "cnt < slot_size h")
    case False
    then show ?thesis
      by (simp add: hm_find_loop.simps [of h] word_less_nat_alt find_result_def)
  next
    case True
    note ps = probe_step [OF "1.prems"(1,3) True]
    show ?thesis
    proof (cases "find_stop h code key (unat cnt)")
      case stop: True
      then show ?thesis using True ps(1,2,4) "1.prems"(2)
        by (cases "flag (probe_item h code (unat cnt))")
          (auto simp: hm_find_loop.simps [of h] find_stop_def find_result_def same_key_def
            key_cmp_ok_def Let_def)
    next
      case go: False
      then show ?thesis
        using "1.IH" [OF True ps(1) refl _ _ "1.prems"(1,2) ps(3)] True ps(1,2,4) "1.prems"(2)
        by (auto simp: hm_find_loop.simps [of h key code slot cnt] find_stop_def same_key_def
            key_cmp_ok_def)
    qed
  qed
qed

lemma hm_insert_eq:
  assumes "hm_shape h" "key_cmp_ok h"
  shows "hm_insert h key val code =
    Some (insert_result h key val code (List.find (insert_stop h code key) [0..<unat (slot_size h)]))"
proof -
  obtain s where "HASH_MAP_INDEX code (slot_size h) = Some s" "unat s = probe h code (unat (0::u32))"
    using shape_index [of "slot_size h" code] assms(1) by (auto simp: hm_shape_def probe_def)
  then show ?thesis using insert_loop_find [OF assms, of s code 0] by (simp add: hm_insert_def)
qed

lemma hm_find_eq:
  assumes "hm_shape h" "key_cmp_ok h"
  shows "hm_find h key = Some (find_result h (hash_function h key)
    (List.find (find_stop h (hash_function h key) key) [0..<unat (slot_size h)]))"
proof -
  obtain s where "HASH_MAP_INDEX (hash_function h key) (slot_size h) = Some s"
      "unat s = probe h (hash_function h key) (unat (0::u32))"
    using shape_index [of "slot_size h" "hash_function h key"] assms(1)
    by (auto simp: hm_shape_def probe_def)
  then show ?thesis using find_loop_find [OF assms, of s "hash_function h key" 0]
    by (simp add: hm_find_def Let_def)
qed

section \<open>The table as a finite map\<close>

abbreviation used_at :: "hash_map \<Rightarrow> nat \<Rightarrow> bytes \<Rightarrow> bool" where
  "used_at h i key \<equiv> i < unat (slot_size h) \<and> flag (hm_items h ! i) = ITEM_USED \<and>
     hi_key (hm_items h ! i) = key"

lemma core_path:
  assumes "hm_core h" "used_at h i key"
  obtains d where "d < unat (slot_size h)" "probe h (hash_function h key) d = i"
    "hash_code (hm_items h ! i) = hash_function h key"
    "\<And>e. e < d \<Longrightarrow> flag (probe_item h (hash_function h key) e) \<noteq> ITEM_EMPTY"
    "\<And>e. e < d \<Longrightarrow> \<not> same_key (probe_item h (hash_function h key) e) (hash_function h key) key"
  using assms unfolding hm_core_def hm_placed_def same_key_def Let_def by metis

lemma used_unique:
  assumes "hm_core h" "used_at h i key" "used_at h j key"
  shows "i = j"
proof -
  let ?c = "hash_function h key"
  obtain d where d: "probe h ?c d = i" "hash_code (hm_items h ! i) = ?c"
      "\<And>e. e < d \<Longrightarrow> \<not> same_key (probe_item h ?c e) ?c key"
    using core_path [OF assms(1,2)] by metis
  obtain e where e: "probe h ?c e = j" "hash_code (hm_items h ! j) = ?c"
      "\<And>x. x < e \<Longrightarrow> \<not> same_key (probe_item h ?c x) ?c key"
    using core_path [OF assms(1,3)] by metis
  have "same_key (probe_item h ?c d) ?c key" "same_key (probe_item h ?c e) ?c key"
    using d e assms(2,3) by (auto simp: same_key_def probe_item_def)
  with d(3) e(3) have "d = e" by (metis nat_neq_iff)
  with d(1) e(1) show ?thesis by simp
qed

lemma hm_abs_iff:
  assumes "hm_core h"
  shows "hm_abs h key = Some v \<longleftrightarrow> (\<exists>i. used_at h i key \<and> hi_val (hm_items h ! i) = v)"
proof
  have len: "length (hm_items h) = unat (slot_size h)" using assms by (simp add: hm_core_def hm_shape_def)
  show "hm_abs h key = Some v \<Longrightarrow> \<exists>i. used_at h i key \<and> hi_val (hm_items h ! i) = v"
    using len by (auto simp: hm_abs_def used_items_def in_set_conv_nth dest!: map_of_SomeD)
  assume "\<exists>i. used_at h i key \<and> hi_val (hm_items h ! i) = v"
  then obtain i where i: "used_at h i key" "hi_val (hm_items h ! i) = v" by blast
  then have "hm_items h ! i \<in> set (used_items h)" using len by (simp add: used_items_def)
  then have "key \<in> fst ` set (map (\<lambda>it. (hi_key it, hi_val it)) (used_items h))" using i by force
  then have "hm_abs h key \<noteq> None" by (simp only: hm_abs_def map_of_eq_None_iff) simp
  then obtain v' where v': "hm_abs h key = Some v'" by blast
  then obtain j where "used_at h j key" "hi_val (hm_items h ! j) = v'"
    using len by (auto simp: hm_abs_def used_items_def in_set_conv_nth dest!: map_of_SomeD)
  with used_unique [OF assms i(1), of j] i(2) v' show "hm_abs h key = Some v" by auto
qed

lemma hm_abs_None: "hm_core h \<Longrightarrow> hm_abs h key = None \<longleftrightarrow> (\<forall>i. \<not> used_at h i key)"
  using hm_abs_iff [of h key] by (metis not_Some_eq)

lemma hm_find_present:
  assumes "hm_core h" "key_cmp_ok h" "used_at h i key"
  shows "hm_find h key = Some (Some i)"
proof -
  let ?c = "hash_function h key"
  obtain d where d: "d < unat (slot_size h)" "probe h ?c d = i" "hash_code (hm_items h ! i) = ?c"
      "\<And>e. e < d \<Longrightarrow> flag (probe_item h ?c e) \<noteq> ITEM_EMPTY"
      "\<And>e. e < d \<Longrightarrow> \<not> same_key (probe_item h ?c e) ?c key"
    using core_path [OF assms(1,3)] by metis
  have "same_key (probe_item h ?c d) ?c key"
    using d assms(3) by (auto simp: same_key_def probe_item_def)
  then have "List.find (find_stop h ?c key) [0..<unat (slot_size h)] = Some d"
    using d by (auto simp: find_upt_Some find_stop_def)
  then show ?thesis using hm_find_eq [of h key] assms d(2)
    by (simp add: hm_core_def find_result_def probe_item_def)
qed

lemma hm_find_absent:
  assumes "hm_core h" "key_cmp_ok h" "\<And>i. \<not> used_at h i key"
  shows "hm_find h key = Some None"
proof -
  let ?c = "hash_function h key"
  have "flag (probe_item h ?c e) \<noteq> ITEM_USED" if "find_stop h ?c key e" for e
    using that assms(3) [of "probe h ?c e"] assms(1) probe_less [of h ?c e]
    by (auto simp: find_stop_def same_key_def probe_item_def hm_core_def hm_shape_def)
  then show ?thesis using hm_find_eq [of h key] assms
    by (auto simp: hm_core_def find_result_def find_upt_Some split: option.split)
qed

subsection \<open>Insertion into a free slot\<close>

lemma store_fields [simp]:
  "slot_size (hm_store h i k v c) = slot_size h" "hash_function (hm_store h i k v c) = hash_function h"
  "key_cmp_function (hm_store h i k v c) = key_cmp_function h" "key_size (hm_store h i k v c) = key_size h"
  "val_size (hm_store h i k v c) = val_size h" "item_size (hm_store h i k v c) = item_size h"
  "hm_size (hm_store h i k v c) = hm_size h" "expand_size (hm_store h i k v c) = expand_size h"
  "on_remove (hm_store h i k v c) = on_remove h"
  by (simp_all add: hm_store_def)

lemma store_probe [simp]: "probe (hm_store h i k v c) = probe h"
  by (intro ext) (simp add: probe_def)

lemma store_nth:
  "i < length (hm_items h) \<Longrightarrow> hm_items (hm_store h i k v c) ! j =
     (if j = i then \<lparr>hash_code = c, flag = ITEM_USED, hi_key = take (unat (key_size h)) k,
                     hi_val = take (unat (val_size h)) v\<rparr> else hm_items h ! j)"
  by (simp add: hm_store_def)

lemma store_shape: "hm_shape h \<Longrightarrow> hm_shape (hm_store h i k v c)"
  by (simp add: hm_shape_def hm_store_def)

lemma store_used_count:
  assumes "i < length (hm_items h)" "flag (hm_items h ! i) \<noteq> ITEM_USED"
  shows "length (used_items (hm_store h i k v c)) = Suc (length (used_items h))"
  using length_filter_update [OF assms(1), of "\<lambda>it. flag it = ITEM_USED"] assms(2)
  by (simp add: used_items_def hm_store_def)

lemma store_core:
  assumes core: "hm_core h" and e: "e < unat (slot_size h)"
    and key: "length key = unat (key_size h)" "length val = unat (val_size h)"
    and free: "flag (probe_item h (hash_function h key) e) \<noteq> ITEM_USED"
    and before: "\<And>x. x < e \<Longrightarrow> \<not> insert_stop h (hash_function h key) key x"
    and absent: "\<And>i. \<not> used_at h i key"
  shows "hm_core (hm_store h (probe h (hash_function h key) e) key val (hash_function h key))"
proof -
  let ?c = "hash_function h key" and ?n = "unat (slot_size h)"
  let ?i = "probe h ?c e"
  let ?h = "hm_store h ?i key val ?c"
  have sh: "hm_shape h" "length (hm_items h) = ?n" "slot_size h \<noteq> 0"
    using core by (auto simp: hm_core_def hm_shape_def)
  then have i: "?i < length (hm_items h)" using probe_less by simp
  have nth: "hm_items ?h ! j = (if j = ?i then \<lparr>hash_code = ?c, flag = ITEM_USED, hi_key = key,
      hi_val = val\<rparr> else hm_items h ! j)" for j
    using store_nth [OF i, of key val ?c j] key by simp
  have pit: "probe_item ?h cc x = (if probe h cc x = ?i then \<lparr>hash_code = ?c, flag = ITEM_USED,
      hi_key = key, hi_val = val\<rparr> else probe_item h cc x)" for cc x
    by (simp add: probe_item_def nth)
  have "hm_placed ?h j" if j: "j < ?n" "flag (hm_items ?h ! j) = ITEM_USED" for j
  proof (cases "j = ?i")
    case True
    have "probe h ?c x \<noteq> ?i" if "x < e" for x using probe_inj [of x h e ?c] that e by auto
    then show ?thesis
      using True e before key unfolding hm_placed_def Let_def nth
      by (auto simp: pit insert_stop_def same_key_def intro!: exI [of _ e])
  next
    case False
    then have old: "used_at h j (hi_key (hm_items h ! j))" using j nth by simp
    then have "hi_key (hm_items h ! j) \<noteq> key" using absent by metis
    moreover have "hm_placed h j" using core j False nth by (simp add: hm_core_def)
    ultimately show ?thesis using False unfolding hm_placed_def Let_def
      by (auto simp: pit nth)
  qed
  then show ?thesis using store_shape [OF sh(1)] by (simp add: hm_core_def)
qed

lemma store_abs:
  assumes core: "hm_core h" and core': "hm_core (hm_store h i key val c)"
    and i: "i < unat (slot_size h)" "flag (hm_items h ! i) \<noteq> ITEM_USED"
    and len: "length key = unat (key_size h)" "length val = unat (val_size h)"
  shows "hm_abs (hm_store h i key val c) = (hm_abs h)(key \<mapsto> val)"
proof -
  let ?h = "hm_store h i key val c"
  have il: "i < length (hm_items h)" using core i by (simp add: hm_core_def hm_shape_def)
  note nth = store_nth [OF il, of key val c]
  have "hm_abs ?h k = Some v \<longleftrightarrow> ((hm_abs h)(key \<mapsto> val)) k = Some v" for k v
  proof (cases "k = key")
    case True
    have new: "used_at ?h i key" using nth i len by simp
    have "hm_abs ?h key = Some val" using new nth len by (auto simp: hm_abs_iff [OF core'])
    with True show ?thesis by simp
  next
    case False
    then have "used_at ?h j k \<and> hi_val (hm_items ?h ! j) = v \<longleftrightarrow>
        used_at h j k \<and> hi_val (hm_items h ! j) = v" for j
      using nth i(2) len by auto
    then show ?thesis using False by (simp add: hm_abs_iff [OF core] hm_abs_iff [OF core'])
  qed
  then show ?thesis by (metis (no_types, opaque_lifting) not_Some_eq ext)
qed

lemma hm_insert_fresh:
  assumes core: "hm_core h" and cmp: "key_cmp_ok h" and absent: "hm_abs h key = None"
    and len: "length key = unat (key_size h)" "length val = unat (val_size h)"
    and room: "length (used_items h) < unat (slot_size h)"
  obtains i where "i < unat (slot_size h)" "flag (hm_items h ! i) \<noteq> ITEM_USED"
    "hm_insert h key val (hash_function h key) = Some (hm_store h i key val (hash_function h key), 0)"
    "hm_core (hm_store h i key val (hash_function h key))"
    "hm_abs (hm_store h i key val (hash_function h key)) = (hm_abs h)(key \<mapsto> val)"
    "length (used_items (hm_store h i key val (hash_function h key))) = Suc (length (used_items h))"
proof -
  let ?c = "hash_function h key" and ?n = "unat (slot_size h)"
  have sh: "hm_shape h" "length (hm_items h) = ?n" "slot_size h \<noteq> 0"
    using core by (auto simp: hm_core_def hm_shape_def)
  have abs: "\<not> used_at h i key" for i using absent hm_abs_None [OF core] by blast
  obtain j where "j < ?n" "flag (hm_items h ! j) \<noteq> ITEM_USED"
    using room length_filter_less_iff [of "\<lambda>it. flag it = ITEM_USED" "hm_items h"] sh(2)
    by (auto simp: used_items_def)
  then obtain x where "x < ?n" "insert_stop h ?c key x"
    using probe_surj [of j h ?c] by (auto simp: insert_stop_def probe_item_def)
  then obtain e where e: "List.find (insert_stop h ?c key) [0..<?n] = Some e"
    using find_upt_None [of "insert_stop h ?c key" ?n] by fastforce
  then have e': "e < ?n" "insert_stop h ?c key e" "\<And>x. x < e \<Longrightarrow> \<not> insert_stop h ?c key x"
    by (auto simp: find_upt_Some)
  have i: "probe h ?c e < ?n" using probe_less [OF sh(3)] .
  have free: "flag (probe_item h ?c e) \<noteq> ITEM_USED"
    using e'(2) abs [of "probe h ?c e"] i by (auto simp: insert_stop_def same_key_def probe_item_def)
  have core': "hm_core (hm_store h (probe h ?c e) key val ?c)"
    by (rule store_core [OF core e'(1) len free e'(3) abs])
  have ins: "hm_insert h key val ?c = Some (hm_store h (probe h ?c e) key val ?c, 0)"
    using hm_insert_eq [OF sh(1) cmp] e free by (simp add: insert_result_def)
  show ?thesis
    using that [of "probe h ?c e"] i free ins core' store_abs [OF core core' i _ len] sh(2)
      store_used_count [of "probe h ?c e" h] by (simp add: probe_item_def)
qed

subsection \<open>Doubling the table\<close>

abbreviation item_kv :: "hash_item \<Rightarrow> bytes \<times> bytes" where
  "item_kv it \<equiv> (hi_key it, hi_val it)"

definition same_config :: "hash_map \<Rightarrow> hash_map \<Rightarrow> bool" where
  "same_config h h' \<longleftrightarrow> slot_size h' = slot_size h \<and> hash_function h' = hash_function h \<and>
     key_cmp_function h' = key_cmp_function h \<and> key_size h' = key_size h \<and> val_size h' = val_size h \<and>
     item_size h' = item_size h \<and> hm_size h' = hm_size h \<and> on_remove h' = on_remove h"

lemma same_config_refl [simp]: "same_config h h"
  by (simp add: same_config_def)

lemma same_config_store: "same_config h (hm_store h i k v c)"
  by (simp add: same_config_def)

lemma same_config_trans: "same_config a b \<Longrightarrow> same_config b c \<Longrightarrow> same_config a c"
  by (simp add: same_config_def)

text \<open>Well-formed entries of the old table: the stored code and the lengths fit.\<close>

definition item_fits :: "hash_map \<Rightarrow> hash_item \<Rightarrow> bool" where
  "item_fits h it \<longleftrightarrow> hash_code it = hash_function h (hi_key it) \<and>
     length (hi_key it) = unat (key_size h) \<and> length (hi_val it) = unat (val_size h)"

lemma old_get_item:
  assumes "unat (isz::u32) * length old < 2 ^ 32" "isz \<noteq> 0" "i < length old"
  shows "GET_ITEM (length old) isz (of_nat i) = Some i"
proof -
  have pos: "0 < unat isz" using assms(2) by (simp add: unat_gt_0)
  have "i \<le> unat isz * i" "unat isz * i \<le> unat isz * length old" using pos assms(3) by simp_all
  with assms(1) have "unat isz * i < 2 ^ 32" "i < 2 ^ 32" by linarith+
  then have "unat (isz * of_nat i) = unat isz * i" by (simp add: unat_word_ariths unat_of_nat)
  then show ?thesis using assms(3) pos by (simp add: GET_ITEM_def)
qed

lemma expand_loop_rehash:
  assumes "hm_core h" "key_cmp_ok h" "unat (item_size h) * length old < 2 ^ 32" "item_size h \<noteq> 0"
    "\<forall>i \<in> set is. i < length old \<and> (flag (old ! i) = ITEM_USED \<longrightarrow> item_fits h (old ! i))"
    "distinct (map (\<lambda>i. hi_key (old ! i)) (filter (\<lambda>i. flag (old ! i) = ITEM_USED) is))"
    "\<forall>i \<in> set is. flag (old ! i) = ITEM_USED \<longrightarrow> hm_abs h (hi_key (old ! i)) = None"
    "length (used_items h) + length (filter (\<lambda>i. flag (old ! i) = ITEM_USED) is) < unat (slot_size h)"
  shows "\<exists>h'. hm_expand_loop h old is = Some h' \<and> hm_core h' \<and> same_config h h' \<and>
    hm_abs h' = hm_abs h ++ map_of (map (\<lambda>i. item_kv (old ! i)) (filter (\<lambda>i. flag (old ! i) = ITEM_USED) is)) \<and>
    length (used_items h') = length (used_items h) + length (filter (\<lambda>i. flag (old ! i) = ITEM_USED) is)"
  using assms
proof (induction "is" arbitrary: h)
  case Nil
  then show ?case by simp
next
  case (Cons i js)
  note gi = old_get_item [OF Cons.prems(3,4), of i]
  show ?case
  proof (cases "flag (old ! i) = ITEM_USED")
    case False
    then show ?thesis using Cons gi by auto
  next
    case True
    let ?k = "hi_key (old ! i)" and ?v = "hi_val (old ! i)"
    have fit: "item_fits h (old ! i)" "i < length old" using Cons.prems(5) True by auto
    obtain s where s: "hm_insert h ?k ?v (hash_function h ?k) = Some (hm_store h s ?k ?v (hash_function h ?k), 0)"
        "hm_core (hm_store h s ?k ?v (hash_function h ?k))"
        "hm_abs (hm_store h s ?k ?v (hash_function h ?k)) = (hm_abs h)(?k \<mapsto> ?v)"
        "length (used_items (hm_store h s ?k ?v (hash_function h ?k))) = Suc (length (used_items h))"
      using hm_insert_fresh [OF Cons.prems(1,2), of ?k ?v] Cons.prems(7,8) fit True
      by (auto simp: item_fits_def)
    let ?h = "hm_store h s ?k ?v (hash_function h ?k)"
    have ne: "hi_key (old ! j) \<noteq> ?k" if "j \<in> set js" "flag (old ! j) = ITEM_USED" for j
      using Cons.prems(6) True that by (auto simp: image_iff)
    have "\<exists>h'. hm_expand_loop ?h old js = Some h' \<and> hm_core h' \<and> same_config ?h h' \<and>
      hm_abs h' = hm_abs ?h ++ map_of (map (\<lambda>i. item_kv (old ! i)) (filter (\<lambda>i. flag (old ! i) = ITEM_USED) js)) \<and>
      length (used_items h') = length (used_items ?h) + length (filter (\<lambda>i. flag (old ! i) = ITEM_USED) js)"
      using Cons.prems True s(3,4) ne by (intro Cons.IH s(2)) (auto simp: key_cmp_ok_def item_fits_def)
    then obtain h' where h': "hm_expand_loop ?h old js = Some h'" "hm_core h'" "same_config ?h h'"
      "hm_abs h' = hm_abs ?h ++ map_of (map (\<lambda>i. item_kv (old ! i)) (filter (\<lambda>i. flag (old ! i) = ITEM_USED) js))"
      "length (used_items h') = length (used_items ?h) + length (filter (\<lambda>i. flag (old ! i) = ITEM_USED) js)"
      by blast
    have "?k \<notin> dom (map_of (map (\<lambda>i. item_kv (old ! i)) (filter (\<lambda>i. flag (old ! i) = ITEM_USED) js)))"
      by (auto dest!: map_of_SomeD) (use ne in metis)
    then have "hm_abs h' = hm_abs h ++ map_of (map (\<lambda>i. item_kv (old ! i))
        (filter (\<lambda>i. flag (old ! i) = ITEM_USED) (i # js)))"
      using h'(4) s(3) True by (simp add: map_add_upd_left)
    moreover have "hm_expand_loop h old (i # js) = Some h'"
      using True gi fit s(1) h'(1) by (simp add: item_fits_def)
    moreover have "same_config h h'" using same_config_store h'(3) by (rule same_config_trans)
    moreover have "length (used_items h') =
        length (used_items h) + length (filter (\<lambda>i. flag (old ! i) = ITEM_USED) (i # js))"
      using h'(5) s(4) True by simp
    ultimately show ?thesis using h'(2) by blast
  qed
qed

lemma core_item_fits:
  "hm_core h \<Longrightarrow> i < length (hm_items h) \<Longrightarrow> flag (hm_items h ! i) = ITEM_USED \<Longrightarrow> item_fits h (hm_items h ! i)"
  by (auto simp: hm_core_def hm_shape_def hm_placed_def item_fits_def Let_def)

lemma used_by_index:
  "map f (used_items h) = map (\<lambda>i. f (hm_items h ! i))
     (filter (\<lambda>i. flag (hm_items h ! i) = ITEM_USED) [0..<length (hm_items h)])"
proof -
  have "used_items h = filter (\<lambda>it. flag it = ITEM_USED) (map ((!) (hm_items h)) [0..<length (hm_items h)])"
    by (simp only: map_nth used_items_def)
  then show ?thesis by (simp add: filter_map comp_def)
qed

lemma core_distinct_keys:
  assumes "hm_core h"
  shows "distinct (map hi_key (used_items h))"
proof -
  have "inj_on (\<lambda>i. hi_key (hm_items h ! i))
      (set (filter (\<lambda>i. flag (hm_items h ! i) = ITEM_USED) [0..<length (hm_items h)]))"
    using used_unique [OF assms] assms by (auto simp: inj_on_def hm_core_def hm_shape_def)
  then show ?thesis by (simp add: used_by_index [of hi_key] distinct_map)
qed

lemma fresh_table:
  assumes "hm_shape (h\<lparr>slot_size := n, hm_items := calloc_items n ks vs\<rparr>)"
  shows "hm_core (h\<lparr>slot_size := n, hm_items := calloc_items n ks vs\<rparr>)"
    and "used_items (h\<lparr>slot_size := n, hm_items := calloc_items n ks vs\<rparr>) = []"
  using assms by (auto simp: hm_core_def used_items_def calloc_items_def)

lemma used_le_slots: "hm_shape h \<Longrightarrow> length (used_items h) \<le> unat (slot_size h)"
  by (metis hm_shape_def length_filter_le used_items_def)

lemma inv_size: "hm_inv h \<Longrightarrow> unat (hm_size h) = length (used_items h)"
  using used_le_slots [of h] unat_less_pow [of "slot_size h"]
  by (simp add: hm_inv_def hm_core_def unat_of_nat)

lemma hm_expand_preserves:
  assumes inv: "hm_inv h" and cmp: "key_cmp_ok h" and small: "slot_size h < 0x80000000"
    and fits: "2 * (unat (item_size h) * unat (slot_size h)) < 2 ^ 32"
    and ok: "calloc_ok (2 * unat (slot_size h) * unat (item_size h))"
  shows "\<exists>h'. hm_expand calloc_ok h = Some (h', 0) \<and> hm_inv h' \<and> key_cmp_ok h' \<and> hm_abs h' = hm_abs h \<and>
    unat (slot_size h') = 2 * unat (slot_size h) \<and> length (used_items h') = length (used_items h) \<and>
    hash_function h' = hash_function h \<and> key_size h' = key_size h \<and> val_size h' = val_size h \<and>
    item_size h' = item_size h"
proof -
  let ?n = "push_bit 1 (slot_size h)"
  let ?h = "h\<lparr>slot_size := ?n, hm_items := calloc_items ?n (key_size h) (val_size h)\<rparr>"
  have core: "hm_core h" and sh: "hm_shape h" using inv by (auto simp: hm_inv_def hm_core_def)
  have n: "unat ?n = 2 * unat (slot_size h)"
    using small by (simp add: push_bit_eq_mult unat_word_ariths word_less_nat_alt mult.commute)
  have sh': "hm_shape ?h"
    using sh n fits by (simp add: hm_shape_def calloc_items_def unat_eq_zero [symmetric] mult_ac)
  have e0: "hm_abs ?h = Map.empty" "hm_core ?h" "used_items ?h = []"
    using fresh_table [OF sh'] by (auto simp: hm_abs_def)
  let ?is = "[0..<unat (slot_size h)]"
  have flt: "map f (used_items h) = map (\<lambda>i. f (hm_items h ! i)) (filter (\<lambda>i. flag (hm_items h ! i) = ITEM_USED) ?is)" for f
    using used_by_index [of f h] sh by (simp add: hm_shape_def)
  have len: "length (filter (\<lambda>i. flag (hm_items h ! i) = ITEM_USED) ?is) = length (used_items h)"
    using arg_cong [OF flt [of id], of length] by simp
  have "0 < unat (slot_size h)" using sh by (simp add: hm_shape_def unat_gt_0)
  then have lt: "length (used_items h) < unat ?n" using used_le_slots [OF sh] n by linarith
  have "\<exists>h'. hm_expand_loop ?h (hm_items h) ?is = Some h' \<and> hm_core h' \<and> same_config ?h h' \<and>
    hm_abs h' = hm_abs ?h ++ map_of (map (\<lambda>i. item_kv (hm_items h ! i))
      (filter (\<lambda>i. flag (hm_items h ! i) = ITEM_USED) ?is)) \<and>
    length (used_items h') = length (used_items ?h) +
      length (filter (\<lambda>i. flag (hm_items h ! i) = ITEM_USED) ?is)"
    using core_item_fits [OF core] core_distinct_keys [OF core] sh cmp fits e0 len lt
    by (intro expand_loop_rehash)
      (auto simp: flt [of hi_key] hm_shape_def key_cmp_ok_def item_fits_def)
  then obtain h' where h': "hm_expand_loop ?h (hm_items h) ?is = Some h'" "hm_core h'" "same_config ?h h'"
      "hm_abs h' = hm_abs h" "length (used_items h') = length (used_items h)"
    using e0 len by (auto simp: hm_abs_def flt [of item_kv])
  let ?e = "h'\<lparr>expand_size := slot_size h' - slot_size h' div 4\<rparr>"
  have "hm_expand calloc_ok h = Some (?e, 0)" using h'(1) ok n by (simp add: hm_expand_def Let_def)
  moreover have "hm_core ?e" "hm_abs ?e = hm_abs h'" "used_items ?e = used_items h'"
    using h'(2) by (simp_all add: hm_core_def hm_shape_def hm_placed_def hm_abs_def used_items_def
        probe_def probe_item_def)
  ultimately show ?thesis using h' n inv cmp
    by (auto simp: same_config_def hm_inv_def key_cmp_ok_def)
qed

subsection \<open>The public operations\<close>

text \<open>Room for one more entry: lengths, a free slot, and a doubled table that 32-bit offsets can address.\<close>

definition hm_fits :: "hash_map \<Rightarrow> bytes \<Rightarrow> bytes \<Rightarrow> bool" where
  "hm_fits h key val \<longleftrightarrow> length key = unat (key_size h) \<and> length val = unat (val_size h) \<and>
     hm_size h < slot_size h \<and>
     (slot_size h < 0x80000000 \<longrightarrow> 2 * (unat (item_size h) * unat (slot_size h)) < 2 ^ 32)"

definition hm_good :: "hash_map \<Rightarrow> bool" where
  "hm_good h \<longleftrightarrow> hm_inv h \<and> key_cmp_ok h"

lemma shift_back: "(n::u32) < 0x80000000 \<Longrightarrow> drop_bit 1 (push_bit 1 n) = n"
proof -
  assume "n < 0x80000000"
  then have "unat n < 2 ^ 31" by (simp add: word_less_nat_alt)
  then have "unat (drop_bit 1 (push_bit 1 n)) = unat n"
    by (simp add: push_bit_eq_mult drop_bit_eq_div unat_div unat_word_ariths)
  then show ?thesis by (simp add: word_unat_eq_iff)
qed

lemma expand_failed:
  "slot_size h < 0x80000000 \<Longrightarrow> \<not> calloc_ok (2 * unat (slot_size h) * unat (item_size h)) \<Longrightarrow>
     hm_expand calloc_ok h = Some (h, -1)"
proof -
  assume a: "slot_size h < 0x80000000" "\<not> calloc_ok (2 * unat (slot_size h) * unat (item_size h))"
  then have "unat (push_bit 1 (slot_size h)) = 2 * unat (slot_size h)"
    by (simp add: push_bit_eq_mult unat_word_ariths word_less_nat_alt mult.commute)
  with a show ?thesis using shift_back [OF a(1)] by (simp add: hm_expand_def Let_def)
qed

text \<open>The optional doubling at the start of an insertion never changes the contents.\<close>

lemma grow_step:
  assumes "hm_good h" "hm_fits h key val"
  obtains h1 where
    "(if slot_size h < 0x80000000 \<and> hm_size h \<ge> expand_size h
      then map_option fst (hm_expand calloc_ok h) else Some h) = Some h1"
    "hm_good h1" "hm_abs h1 = hm_abs h" "length (used_items h1) < unat (slot_size h1)"
    "hash_function h1 = hash_function h" "key_size h1 = key_size h" "val_size h1 = val_size h"
proof (cases "slot_size h < 0x80000000 \<and> hm_size h \<ge> expand_size h \<and>
    calloc_ok (2 * unat (slot_size h) * unat (item_size h))")
  case True
  then obtain h1 where h1: "hm_expand calloc_ok h = Some (h1, 0)" "hm_inv h1" "key_cmp_ok h1"
      "hm_abs h1 = hm_abs h" "unat (slot_size h1) = 2 * unat (slot_size h)"
      "length (used_items h1) = length (used_items h)"
      "hash_function h1 = hash_function h" "key_size h1 = key_size h" "val_size h1 = val_size h"
    using hm_expand_preserves [of h calloc_ok] assms by (auto simp: hm_good_def hm_fits_def)
  have "length (used_items h) < unat (slot_size h)"
    using assms inv_size [of h] by (auto simp: hm_good_def hm_fits_def word_less_nat_alt)
  then show ?thesis using that [of h1] h1 True by (simp add: hm_good_def)
next
  case False
  have "(if slot_size h < 0x80000000 \<and> hm_size h \<ge> expand_size h
      then map_option fst (hm_expand calloc_ok h) else Some h) = Some h"
    using False expand_failed [of h calloc_ok] by auto
  moreover have "length (used_items h) < unat (slot_size h)"
    using assms inv_size [of h] by (auto simp: hm_good_def hm_fits_def word_less_nat_alt)
  ultimately show ?thesis using that [of h] assms(1) by simp
qed

lemma resized_core:
  "hm_core (h\<lparr>hm_size := z\<rparr>) = hm_core h" "hm_abs (h\<lparr>hm_size := z\<rparr>) = hm_abs h"
  "used_items (h\<lparr>hm_size := z\<rparr>) = used_items h" "key_cmp_ok (h\<lparr>hm_size := z\<rparr>) = key_cmp_ok h"
  by (simp_all add: hm_core_def hm_shape_def hm_placed_def hm_abs_def used_items_def probe_def
      probe_item_def key_cmp_ok_def)

lemma hash_map_insert_new:
  assumes good: "hm_good h" and fits: "hm_fits h key val" and absent: "hm_abs h key = None"
  shows "\<exists>h'. hash_map_insert calloc_ok h key val = Some (h', 0) \<and> hm_good h' \<and>
           hm_abs h' = (hm_abs h)(key \<mapsto> val) \<and> val_size h' = val_size h"
proof -
  obtain h1 where g: "(if slot_size h < 0x80000000 \<and> hm_size h \<ge> expand_size h
      then map_option fst (hm_expand calloc_ok h) else Some h) = Some h1"
    "hm_good h1" "hm_abs h1 = hm_abs h" "length (used_items h1) < unat (slot_size h1)"
    "hash_function h1 = hash_function h" "key_size h1 = key_size h" "val_size h1 = val_size h"
    using grow_step [OF good fits] by metis
  have core: "hm_core h1" "key_cmp_ok h1" and sz: "hm_size h1 = of_nat (length (used_items h1))"
      "unat (hm_size h1) = length (used_items h1)"
    using g(2) inv_size [of h1] by (auto simp: hm_good_def hm_inv_def)
  obtain i where i: "hm_insert h1 key val (hash_function h1 key) = Some (hm_store h1 i key val (hash_function h1 key), 0)"
      "hm_core (hm_store h1 i key val (hash_function h1 key))"
      "hm_abs (hm_store h1 i key val (hash_function h1 key)) = (hm_abs h1)(key \<mapsto> val)"
      "length (used_items (hm_store h1 i key val (hash_function h1 key))) = Suc (length (used_items h1))"
    using hm_insert_fresh [OF core, of key val] absent fits g by (auto simp: hm_fits_def)
  let ?h = "(hm_store h1 i key val (hash_function h1 key))\<lparr>hm_size := hm_size h1 + 1\<rparr>"
  have "hash_map_insert calloc_ok h key val = Some (?h, 0)"
    using g i sz(2) by (simp add: hash_map_insert_def word_le_nat_alt)
  moreover have "hm_good ?h"
    using i core sz(1) by (simp add: hm_good_def hm_inv_def resized_core key_cmp_ok_def)
  ultimately show ?thesis using i g(3,7) by (auto simp: resized_core)
qed

lemma hash_map_find_val:
  assumes "hm_good h"
  shows "\<exists>it. hash_map_find h key = Some it \<and>
    (case it of None \<Rightarrow> hm_abs h key = None | Some i \<Rightarrow> used_at h i key \<and>
       hm_abs h key = Some (hi_val (hm_items h ! i)))"
proof (cases "\<exists>i. used_at h i key")
  case True
  then obtain i where "used_at h i key" by blast
  then show ?thesis using hm_find_present [of h i key] assms hm_abs_iff [of h key]
    by (auto simp: hash_map_find_def hm_good_def hm_inv_def)
next
  case False
  then show ?thesis using hm_find_absent [of h key] assms hm_abs_None [of h key]
    by (auto simp: hash_map_find_def hm_good_def hm_inv_def)
qed

definition hm_tomb :: "hash_map \<Rightarrow> nat \<Rightarrow> hash_map" where
  "hm_tomb h i = h\<lparr>hm_items := (hm_items h)[i := (hm_items h ! i)\<lparr>flag := ITEM_DELETE\<rparr>],
                   hm_size := hm_size h - 1\<rparr>"

lemma tomb_fields [simp]:
  "slot_size (hm_tomb h i) = slot_size h" "hash_function (hm_tomb h i) = hash_function h"
  "key_size (hm_tomb h i) = key_size h" "val_size (hm_tomb h i) = val_size h"
  "key_cmp_function (hm_tomb h i) = key_cmp_function h" "hm_size (hm_tomb h i) = hm_size h - 1"
  by (simp_all add: hm_tomb_def)

lemma tomb_core:
  assumes core: "hm_core h" and i: "used_at h i key"
  shows "hm_core (hm_tomb h i)"
proof -
  let ?h = "hm_tomb h i"
  have len: "length (hm_items h) = unat (slot_size h)" using core by (simp add: hm_core_def hm_shape_def)
  have nth: "hm_items ?h ! j = (if j = i then (hm_items h ! i)\<lparr>flag := ITEM_DELETE\<rparr> else hm_items h ! j)" for j
    using i len by (simp add: hm_tomb_def)
  have pr: "probe ?h = probe h" by (intro ext) (simp add: probe_def hm_tomb_def)
  have pit: "hash_code (probe_item ?h c e) = hash_code (probe_item h c e)"
      "hi_key (probe_item ?h c e) = hi_key (probe_item h c e)"
      "flag (probe_item h c e) \<noteq> ITEM_EMPTY \<Longrightarrow> flag (probe_item ?h c e) \<noteq> ITEM_EMPTY" for c e
    by (simp_all add: probe_item_def nth pr)
  have "hm_placed ?h j" if "j < unat (slot_size h)" "flag (hm_items ?h ! j) = ITEM_USED" for j
  proof -
    from that nth have ne: "j \<noteq> i" "flag (hm_items h ! j) = ITEM_USED" by (auto split: if_splits)
    then have "hm_placed h j" using core that(1) by (simp add: hm_core_def)
    then show ?thesis using ne unfolding hm_placed_def Let_def
      by (auto simp: nth pr pit)
  qed
  then show ?thesis using core by (simp add: hm_core_def hm_shape_def hm_tomb_def)
qed

lemma tomb_abs:
  assumes core: "hm_core h" and i: "used_at h i key"
  shows "hm_abs (hm_tomb h i) = (hm_abs h)(key := None)"
proof -
  let ?h = "hm_tomb h i"
  note core' = tomb_core [OF core i]
  have len: "length (hm_items h) = unat (slot_size h)" using core by (simp add: hm_core_def hm_shape_def)
  have "used_at ?h j k \<and> hi_val (hm_items ?h ! j) = v \<longleftrightarrow>
      j \<noteq> i \<and> used_at h j k \<and> hi_val (hm_items h ! j) = v" for j k v
    using i len by (auto simp: hm_tomb_def nth_list_update)
  moreover have "used_at h j k \<Longrightarrow> (j \<noteq> i \<longleftrightarrow> k \<noteq> key)" for j k
    using used_unique [OF core i] i by blast
  ultimately have "hm_abs ?h k = Some v \<longleftrightarrow> ((hm_abs h)(key := None)) k = Some v" for k v
    using hm_abs_iff [OF core, of k v] hm_abs_iff [OF core', of k v] by auto
  then show ?thesis by (metis (no_types, opaque_lifting) not_Some_eq ext)
qed

lemma tomb_good:
  assumes "hm_good h" "used_at h i key"
  shows "hm_good (hm_tomb h i)"
proof -
  have len: "length (hm_items h) = unat (slot_size h)"
    using assms by (simp add: hm_good_def hm_inv_def hm_core_def hm_shape_def)
  have "Suc (length (used_items (hm_tomb h i))) = length (used_items h)"
    using length_filter_update [of i "hm_items h" "\<lambda>it. flag it = ITEM_USED"] assms(2) len
    by (simp add: used_items_def hm_tomb_def)
  then have "hm_size (hm_tomb h i) = of_nat (length (used_items (hm_tomb h i)))"
    using assms(1) by (auto simp: hm_good_def hm_inv_def dest!: sym [of "Suc _"])
  then show ?thesis using assms tomb_core [of h i key]
    by (auto simp: hm_good_def hm_inv_def key_cmp_ok_def)
qed

lemma hash_map_remove_present:
  assumes "hm_good h" "used_at h i key"
  shows "hash_map_remove h key = Some (hm_tomb h i, 0,
     if on_remove h then [(key, hi_val (hm_items h ! i))] else [])"
  using hm_find_present [of h i key] assms
  by (simp add: hash_map_remove_def hm_tomb_def hm_good_def hm_inv_def Let_def)

lemma hash_map_remove_absent:
  assumes "hm_good h" "hm_abs h key = None"
  shows "hash_map_remove h key = Some (h, -1, [])"
  using hm_find_absent [of h key] assms hm_abs_None [of h key]
  by (simp add: hash_map_remove_def hm_good_def hm_inv_def)

text \<open>The two public calls a reader makes, and a removal without its callback log.\<close>

definition hash_map_get :: "hash_map \<Rightarrow> bytes \<Rightarrow> bytes option option" where
  "hash_map_get h key = do {
     it \<leftarrow> hash_map_find h key;
     Some (if hash_map_is_vaild_iter it then hash_map_iter_get_val h it else None)
   }"

definition hash_map_del :: "hash_map \<Rightarrow> bytes \<Rightarrow> (hash_map \<times> int) option" where
  "hash_map_del h key = do { (h', r, _) \<leftarrow> hash_map_remove h key; Some (h', r) }"

interpretation hmc: map_container hm_good hm_abs hm_fits "hash_map_insert calloc_ok"
  hash_map_del hash_map_get for calloc_ok
proof unfold_locales
  fix s k v
  assume "hm_good s" "hm_fits s k v" "hm_abs s k = None"
  then show "\<exists>s'. hash_map_insert calloc_ok s k v = Some (s', 0) \<and> hm_good s' \<and>
      hm_abs s' = (hm_abs s)(k \<mapsto> v)" using hash_map_insert_new by blast
next
  fix s k v
  assume a: "hm_good s" "hm_abs s k = Some v"
  then obtain i where i: "used_at s i k" using hm_abs_iff [of s k v] by (auto simp: hm_good_def hm_inv_def)
  then show "\<exists>s'. hash_map_del s k = Some (s', 0) \<and> hm_good s' \<and> hm_abs s' = (hm_abs s)(k := None)"
    using hash_map_remove_present [OF a(1) i] tomb_good [OF a(1) i] tomb_abs [of s i k] a(1)
    by (simp add: hash_map_del_def hm_good_def hm_inv_def)
next
  fix s k
  assume "hm_good s" "hm_abs s k = None"
  then show "hash_map_del s k = Some (s, -1)"
    by (simp add: hash_map_del_def hash_map_remove_absent)
next
  fix s k
  assume "hm_good s"
  then show "hash_map_get s k = Some (hm_abs s k)"
    using hash_map_find_val [of s k]
    by (auto simp: hash_map_get_def hash_map_is_vaild_iter_def hash_map_iter_get_val_def
        split: option.splits)
qed

lemma hash_map_create_good:
  assumes "hash_map_create calloc_ok n ks vs hf kc onr = Some h" "n \<noteq> 0"
    "16 + unat ks + unat vs < 2 ^ 32" "(16 + unat ks + unat vs) * unat n < 2 ^ 32"
    "\<forall>a b. kc a b = 0 \<longleftrightarrow> a = b"
  shows "hm_good h" "hm_abs h = Map.empty"
proof -
  have isz: "unat (16 + ks + vs) = 16 + unat ks + unat vs"
    using assms(3) by (simp add: unat_word_ariths)
  then have "16 + ks + vs \<noteq> 0" by (metis add_is_0 unat_0 zero_neq_numeral)
  then have "hm_good h \<and> used_items h = []"
    using assms isz by (auto simp: hash_map_create_def Let_def hm_good_def hm_inv_def hm_core_def
        hm_shape_def calloc_items_def used_items_def key_cmp_ok_def split: if_splits)
  then show "hm_good h" "hm_abs h = Map.empty" by (simp_all add: hm_abs_def)
qed

lemma set_val_good:
  assumes "hm_good h" "used_at h i key" "length v = unat (val_size h)"
  shows "\<exists>h'. hash_map_iter_set_val h (Some i) v = Some h' \<and> hm_good h' \<and> hm_abs h' = (hm_abs h)(key \<mapsto> v)"
proof -
  have len: "length (hm_items h) = unat (slot_size h)" and core: "hm_core h"
    using assms by (auto simp: hm_good_def hm_inv_def hm_core_def hm_shape_def)
  define g where "g = h\<lparr>hm_items := (hm_items h)[i := (hm_items h ! i)\<lparr>hi_val := v\<rparr>]\<rparr>"
  have cfg: "slot_size g = slot_size h" "hash_function g = hash_function h" "key_size g = key_size h"
      "val_size g = val_size h" "hm_size g = hm_size h" "key_cmp_function g = key_cmp_function h"
      "item_size g = item_size h" "length (hm_items g) = length (hm_items h)"
    by (simp_all add: g_def)
  have nth: "hm_items g ! j = (if j = i then (hm_items h ! i)\<lparr>hi_val := v\<rparr> else hm_items h ! j)" for j
    using assms(2) len by (simp add: g_def)
  have pr: "probe g = probe h" by (intro ext) (simp add: probe_def cfg)
  have pit: "hash_code (probe_item g c e) = hash_code (probe_item h c e)"
      "hi_key (probe_item g c e) = hi_key (probe_item h c e)"
      "flag (probe_item g c e) = flag (probe_item h c e)" for c e
    by (simp_all add: probe_item_def nth pr)
  have flg: "flag (hm_items g ! j) = flag (hm_items h ! j)" "hi_key (hm_items g ! j) = hi_key (hm_items h ! j)"
      "hash_code (hm_items g ! j) = hash_code (hm_items h ! j)" for j by (simp_all add: nth)
  have "hm_placed g j" if "hm_placed h j" for j
    using that assms(3) unfolding hm_placed_def Let_def pr pit flg cfg by (auto simp: nth)
  then have core': "hm_core g" using core len flg by (simp add: hm_core_def hm_shape_def cfg)
  have "length (used_items g) = length (used_items h)"
    using length_filter_update [of i "hm_items h" "\<lambda>it. flag it = ITEM_USED" "(hm_items h ! i)\<lparr>hi_val := v\<rparr>"]
      assms(2) len
    by (simp add: used_items_def g_def)
  then have good: "hm_good g" using core' assms(1) by (simp add: hm_good_def hm_inv_def key_cmp_ok_def cfg)
  have "hm_abs g key = Some v" using assms(2) nth cfg by (auto simp: hm_abs_iff [OF core'])
  moreover have "hm_abs g k = Some w \<longleftrightarrow> hm_abs h k = Some w" if "k \<noteq> key" for k w
  proof -
    have "used_at g j k \<and> hi_val (hm_items g ! j) = w \<longleftrightarrow> used_at h j k \<and> hi_val (hm_items h ! j) = w" for j
      using that assms(2) nth cfg(1) by (cases "j = i") auto
    then show ?thesis by (simp only: hm_abs_iff [OF core] hm_abs_iff [OF core'])
  qed
  ultimately have "hm_abs g k = Some w \<longleftrightarrow> ((hm_abs h)(key \<mapsto> v)) k = Some w" for k w
    by (cases "k = key") auto
  then have "hm_abs g = (hm_abs h)(key \<mapsto> v)" by (metis (no_types, opaque_lifting) not_Some_eq ext)
  then show ?thesis using good assms(3) by (simp add: hash_map_iter_set_val_def g_def)
qed

section \<open>Properties\<close>

text \<open>
  Claim C6. On a well-formed table and for a key that is not in it, \<open>hash_map_insert\<close> succeeds (also
  when doubling the table fails for lack of memory), a lookup then finds the value, all other keys
  are unaffected, \<open>hash_map_remove\<close> succeeds and restores the old contents, and a second removal
  reports -1 and changes nothing.
\<close>

theorem hash_map_roundtrip:
  assumes "hm_good h" "hm_fits h key val" "hm_abs h key = None"
  shows "\<exists>h1 h2. hash_map_insert calloc_ok h key val = Some (h1, 0) \<and>
    hash_map_get h1 key = Some (Some val) \<and> (\<forall>k. k \<noteq> key \<longrightarrow> hash_map_get h1 k = hash_map_get h k) \<and>
    hash_map_del h1 key = Some (h2, 0) \<and> (\<forall>k. hash_map_get h2 k = hash_map_get h k) \<and>
    hash_map_del h2 key = Some (h2, -1)"
  by (rule hmc.ins_look_del [OF assms])

theorem hash_map_roundtrip_witness:
  "\<exists>h0 h1. hash_map_create (\<lambda>_. False) 0 1 1 (\<lambda>_. 0) (\<lambda>a b. if a = b then 0 else 1) False = None \<and>
     hash_map_create (\<lambda>_. True) 4 1 2 (\<lambda>_. 9) (\<lambda>a b. if a = b then 0 else 1) False = Some h0 \<and>
     hash_map_insert (\<lambda>_. True) h0 [7] [1, 2] = Some (h1, 0) \<and> hash_map_get h1 [7] = Some (Some [1, 2])"
proof -
  obtain h0 where h0: "hash_map_create (\<lambda>_. True) 4 1 2 (\<lambda>_. 9) (\<lambda>a b. if a = b then 0 else 1) False = Some h0"
    by (simp add: hash_map_create_def Let_def)
  note g = hash_map_create_good [OF h0]
  have "hm_fits h0 [7] [1, 2]" using h0 by (auto simp: hash_map_create_def Let_def hm_fits_def)
  with g hash_map_roundtrip [of h0 "[7]" "[1, 2]" "\<lambda>_. True"] h0 show ?thesis
    by (auto simp: hash_map_create_def Let_def)
qed

text \<open>
  Claim C10. Doubling the table rehashes every live entry: contents, number of entries and the
  well-formedness invariant are preserved, and tombstones disappear from the probe paths because the
  new table starts empty.
\<close>

theorem hash_map_expand_preserves_contents:
  assumes "hm_inv h" "key_cmp_ok h" "slot_size h < 0x80000000"
    "2 * (unat (item_size h) * unat (slot_size h)) < 2 ^ 32"
    "calloc_ok (2 * unat (slot_size h) * unat (item_size h))"
  shows "\<exists>h'. hm_expand calloc_ok h = Some (h', 0) \<and> hm_inv h' \<and> hm_abs h' = hm_abs h \<and>
    unat (slot_size h') = 2 * unat (slot_size h) \<and> length (used_items h') = length (used_items h)"
  using hm_expand_preserves [of h calloc_ok] assms by blast

theorem hash_map_expand_preserves_contents_witness:
  "\<exists>h h'. hash_map_create (\<lambda>_. True) 4 1 2 (\<lambda>_. 9) (\<lambda>a b. if a = b then 0 else 1) False = Some h \<and>
     hm_expand (\<lambda>_. True) h = Some (h', 0) \<and> unat (slot_size h') = 8"
proof -
  obtain h0 where h0: "hash_map_create (\<lambda>_. True) 4 1 2 (\<lambda>_. 9) (\<lambda>a b. if a = b then 0 else 1) False = Some h0"
    by (simp add: hash_map_create_def Let_def)
  have "hm_good h0" by (rule hash_map_create_good [OF h0]) simp_all
  then show ?thesis
    using hash_map_expand_preserves_contents [of h0 "\<lambda>_. True"] h0
    by (auto simp: hash_map_create_def Let_def hm_good_def)
qed

text \<open>
  Writing through an iterator obtained from \<open>hash_map_find\<close> replaces the value of exactly
  that key and keeps the table well-formed.
\<close>

theorem hash_map_set_val_updates:
  assumes "hm_good h" "hash_map_find h key = Some it" "hash_map_is_vaild_iter it"
    "length v = unat (val_size h)"
  shows "\<exists>h'. hash_map_iter_set_val h it v = Some h' \<and> hm_good h' \<and>
    hash_map_get h' = (hash_map_get h)(key := Some (Some v))"
proof -
  obtain i where i: "it = Some i" "used_at h i key"
    using hash_map_find_val [OF assms(1), of key] assms(2,3)
    by (auto simp: hash_map_is_vaild_iter_def split: option.splits)
  obtain h' where h': "hash_map_iter_set_val h (Some i) v = Some h'" "hm_good h'"
      "hm_abs h' = (hm_abs h)(key \<mapsto> v)"
    using set_val_good [OF assms(1) i(2) assms(4)] by blast
  then have "hash_map_get h' = (hash_map_get h)(key := Some (Some v))"
    using hmc.look_law assms(1) by (intro ext) auto
  with h' i show ?thesis by blast
qed

theorem hash_map_set_val_updates_witness:
  "\<exists>h it h'. hash_map_find h [7] = Some it \<and> hash_map_iter_set_val h it [5] = Some h' \<and>
     hash_map_get h' = (hash_map_get h)([7] := Some (Some [5]))"
proof -
  obtain h0 where h0: "hash_map_create (\<lambda>_. True) 4 1 1 (\<lambda>_. 9) (\<lambda>a b. if a = b then 0 else 1) False = Some h0"
    by (simp add: hash_map_create_def Let_def)
  note g = hash_map_create_good [OF h0]
  have f: "hm_fits h0 [7] [1]" using h0 by (auto simp: hash_map_create_def Let_def hm_fits_def)
  then obtain h1 where h1: "hash_map_insert (\<lambda>_. True) h0 [7] [1] = Some (h1, 0)" "hm_good h1"
      "hm_abs h1 = [[7] \<mapsto> [1]]"
    using hash_map_insert_new [of h0 "[7]" "[1]" "\<lambda>_. True"] g by auto
  then have vs: "val_size h1 = 1"
    using hash_map_insert_new [of h0 "[7]" "[1]" "\<lambda>_. True"] g f h0
    by (auto simp: hash_map_create_def Let_def)
  obtain it where "hash_map_find h1 [7] = Some it" "hash_map_is_vaild_iter it"
    using hash_map_find_val [OF h1(2), of "[7]"] h1(3)
    by (auto simp: hash_map_is_vaild_iter_def split: option.splits)
  with hash_map_set_val_updates [OF h1(2) this, of "[5]"] vs show ?thesis by auto
qed

text \<open>
  A full table that cannot grow refuses the insertion with -1 and is left unchanged.
\<close>

theorem hash_map_insert_full:
  assumes "slot_size h \<le> hm_size h"
    "slot_size h \<ge> 0x80000000 \<or> \<not> calloc_ok (2 * unat (slot_size h) * unat (item_size h))"
  shows "hash_map_insert calloc_ok h key val = Some (h, -1)"
  using assms expand_failed [of h calloc_ok] by (auto simp: hash_map_insert_def Let_def)

theorem hash_map_insert_full_witness:
  "\<exists>h. hash_map_create (\<lambda>_. True) 0 1 1 (\<lambda>_. 9) (\<lambda>a b. if a = b then 0 else 1) False = Some h \<and>
     hash_map_insert (\<lambda>_. False) h [7] [1] = Some (h, -1)"
proof -
  obtain h0 where h0: "hash_map_create (\<lambda>_. True) 0 1 1 (\<lambda>_. 9) (\<lambda>a b. if a = b then 0 else 1) False = Some h0"
    by (simp add: hash_map_create_def Let_def)
  then show ?thesis using hash_map_insert_full [of h0 "\<lambda>_. False" "[7]" "[1]"]
    by (auto simp: hash_map_create_def Let_def)
qed

text \<open>
  Insertion does not look past a tombstone: with two colliding keys, after the first is
  removed a second insertion of the present key 2 is accepted (code 0) into the tombstone. Removing
  key 2 once then makes it unfindable, although an entry for it is still in use and counted.
\<close>

theorem hash_map_duplicate_after_remove:
  "do { h0 \<leftarrow> hash_map_create (\<lambda>_. True) 8 1 1 (\<lambda>_. 0) (\<lambda>a b. if a = b then 0 else 1) False;
        (h1, r1) \<leftarrow> hash_map_insert (\<lambda>_. True) h0 [1] [10];
        (h2, r2) \<leftarrow> hash_map_insert (\<lambda>_. True) h1 [2] [20];
        (h3, r3) \<leftarrow> hash_map_del h2 [1];
        (h4, r4) \<leftarrow> hash_map_insert (\<lambda>_. True) h3 [2] [21];
        (h5, r5) \<leftarrow> hash_map_del h4 [2];
        g \<leftarrow> hash_map_get h5 [2];
        Some (hash_map_get h3 [2], r4, r5, g, hm_size h5, map hi_key (used_items h5)) } =
   Some (Some (Some [20]), 0, 0, None, 1, [[2]])"
  by code_simp

end
