(* ===== verification/Lookup8.thy ===== *)
theory Lookup8
  imports Prelude
begin

unbundle bit_operations_syntax

text \<open>
  Bob Jenkins' 64-bit hash of \<open>src/src/lookup8.c\<close>: the macro \<open>mix64\<close> statement by statement and
  \<open>burtle_hash\<close> with its block loop and its fall-through switch. The theorems: \<open>mix64\<close> is
  reversible, as its comment promises, and the switch computes the hash of the zero-padded last
  block, so that the function equals a short reference definition by blocks.
\<close>

definition mix64 :: "u64 \<times> u64 \<times> u64 \<Rightarrow> u64 \<times> u64 \<times> u64" where
  "mix64 s = (let (a, b, c) = s;
     a = a - b; a = a - c; a = a XOR (drop_bit 43 c);
     b = b - c; b = b - a; b = b XOR (push_bit 9 a);
     c = c - a; c = c - b; c = c XOR (drop_bit 8 b);
     a = a - b; a = a - c; a = a XOR (drop_bit 38 c);
     b = b - c; b = b - a; b = b XOR (push_bit 23 a);
     c = c - a; c = c - b; c = c XOR (drop_bit 5 b);
     a = a - b; a = a - c; a = a XOR (drop_bit 35 c);
     b = b - c; b = b - a; b = b XOR (push_bit 49 a);
     c = c - a; c = c - b; c = c XOR (drop_bit 11 b);
     a = a - b; a = a - c; a = a XOR (drop_bit 12 c);
     b = b - c; b = b - a; b = b XOR (push_bit 18 a);
     c = c - a; c = c - b; c = c XOR (drop_bit 22 b)
   in (a, b, c))"

text \<open>\<open>k[i]\<close> widened to 64 bits.\<close>

definition kbyte :: "byte list \<Rightarrow> nat \<Rightarrow> u64" where
  "kbyte k i = ucast (k ! i)"

text \<open>The eight bytes from \<open>k[i]\<close> on, as one sum of the loop body.\<close>

definition kword :: "byte list \<Rightarrow> nat \<Rightarrow> u64" where
  "kword k i = kbyte k i
     + push_bit 8 (kbyte k (i + 1)) + push_bit 16 (kbyte k (i + 2))
     + push_bit 24 (kbyte k (i + 3)) + push_bit 32 (kbyte k (i + 4))
     + push_bit 40 (kbyte k (i + 5)) + push_bit 48 (kbyte k (i + 6))
     + push_bit 56 (kbyte k (i + 7))"

function burtle_loop :: "byte list \<Rightarrow> u64 \<Rightarrow> u64 \<times> u64 \<times> u64 \<Rightarrow> byte list \<times> u64 \<times> u64 \<times> u64 \<times> u64" where
  "burtle_loop k len (a, b, c) =
     (if len \<ge> 24
      then burtle_loop (drop 24 k) (len - 24)
             (mix64 (a + kword k 0, b + kword k 8, c + kword k 16))
      else (k, len, a, b, c))"
  by pat_completeness auto
termination
proof (relation "measure (\<lambda>(k, len, s). unat len)", simp)
  fix k :: "byte list" and len :: u64 and a b c :: u64
  assume "len \<ge> 24"
  then have "unat (len - 24) < unat len" by (simp add: unat_sub word_le_nat_alt)
  then show "((drop 24 k, len - 24, mix64 (a + kword k 0, b + kword k 8, c + kword k 16)),
      (k, len, a, b, c)) \<in> measure (\<lambda>(k, len, s). unat len)" by simp
qed

text \<open>The switch on the last bytes: every case falls through to the next one.\<close>

definition burtle_switch :: "byte list \<Rightarrow> u64 \<Rightarrow> u64 \<times> u64 \<times> u64 \<Rightarrow> u64 \<times> u64 \<times> u64" where
  "burtle_switch k len s = (let (a, b, c) = s;
     c = (if len \<ge> 23 then c + push_bit 56 (kbyte k 22) else c);
     c = (if len \<ge> 22 then c + push_bit 48 (kbyte k 21) else c);
     c = (if len \<ge> 21 then c + push_bit 40 (kbyte k 20) else c);
     c = (if len \<ge> 20 then c + push_bit 32 (kbyte k 19) else c);
     c = (if len \<ge> 19 then c + push_bit 24 (kbyte k 18) else c);
     c = (if len \<ge> 18 then c + push_bit 16 (kbyte k 17) else c);
     c = (if len \<ge> 17 then c + push_bit 8 (kbyte k 16) else c);
     b = (if len \<ge> 16 then b + push_bit 56 (kbyte k 15) else b);
     b = (if len \<ge> 15 then b + push_bit 48 (kbyte k 14) else b);
     b = (if len \<ge> 14 then b + push_bit 40 (kbyte k 13) else b);
     b = (if len \<ge> 13 then b + push_bit 32 (kbyte k 12) else b);
     b = (if len \<ge> 12 then b + push_bit 24 (kbyte k 11) else b);
     b = (if len \<ge> 11 then b + push_bit 16 (kbyte k 10) else b);
     b = (if len \<ge> 10 then b + push_bit 8 (kbyte k 9) else b);
     b = (if len \<ge> 9 then b + kbyte k 8 else b);
     a = (if len \<ge> 8 then a + push_bit 56 (kbyte k 7) else a);
     a = (if len \<ge> 7 then a + push_bit 48 (kbyte k 6) else a);
     a = (if len \<ge> 6 then a + push_bit 40 (kbyte k 5) else a);
     a = (if len \<ge> 5 then a + push_bit 32 (kbyte k 4) else a);
     a = (if len \<ge> 4 then a + push_bit 24 (kbyte k 3) else a);
     a = (if len \<ge> 3 then a + push_bit 16 (kbyte k 2) else a);
     a = (if len \<ge> 2 then a + push_bit 8 (kbyte k 1) else a);
     a = (if len \<ge> 1 then a + kbyte k 0 else a)
   in (a, b, c))"

text \<open>
  \<open>k\<close> is the object the pointer points to, from the pointer on. A length beyond that object
  makes the function read outside it.
\<close>

definition burtle_hash :: "byte list \<Rightarrow> u64 \<Rightarrow> u64 \<Rightarrow> u64 option" where
  "burtle_hash k len0 level =
     (if unat len0 \<le> length k then
        (let (k', len, a, b, c) = burtle_loop k len0 (level, level, 0x9e3779b97f4a7c13);
             c = c + len0;
             (a, b, c) = mix64 (burtle_switch k' len (a, b, c))
         in Some c)
      else None)"

declare burtle_loop.simps [simp del]

section \<open>Reversibility of the mixing step\<close>

definition mix_a :: "nat \<Rightarrow> u64 \<times> u64 \<times> u64 \<Rightarrow> u64 \<times> u64 \<times> u64" where
  "mix_a n s = (case s of (a, b, c) \<Rightarrow> ((a - b - c) XOR drop_bit n c, b, c))"

definition mix_b :: "nat \<Rightarrow> u64 \<times> u64 \<times> u64 \<Rightarrow> u64 \<times> u64 \<times> u64" where
  "mix_b n s = (case s of (a, b, c) \<Rightarrow> (a, (b - c - a) XOR push_bit n a, c))"

definition mix_c :: "nat \<Rightarrow> u64 \<times> u64 \<times> u64 \<Rightarrow> u64 \<times> u64 \<times> u64" where
  "mix_c n s = (case s of (a, b, c) \<Rightarrow> (a, b, (c - a - b) XOR drop_bit n b))"

lemma xor_cancel: "((x::u64) XOR y) XOR y = x"
  by (simp add: xor.assoc)

lemma mix_a_bij: "bij (mix_a n)"
  by (rule bij_betw_byWitness [where f' = "\<lambda>(a, b, c). ((a XOR drop_bit n c) + c + b, b, c)"])
    (auto simp: mix_a_def xor_cancel split: prod.splits)

lemma mix_b_bij: "bij (mix_b n)"
  by (rule bij_betw_byWitness [where f' = "\<lambda>(a, b, c). (a, (b XOR push_bit n a) + a + c, c)"])
    (auto simp: mix_b_def xor_cancel split: prod.splits)

lemma mix_c_bij: "bij (mix_c n)"
  by (rule bij_betw_byWitness [where f' = "\<lambda>(a, b, c). (a, b, (c XOR drop_bit n b) + b + a)"])
    (auto simp: mix_c_def xor_cancel split: prod.splits)

lemma mix64_steps:
  "mix64 = mix_c 22 \<circ> mix_b 18 \<circ> mix_a 12 \<circ> mix_c 11 \<circ> mix_b 49 \<circ> mix_a 35 \<circ>
           mix_c 5 \<circ> mix_b 23 \<circ> mix_a 38 \<circ> mix_c 8 \<circ> mix_b 9 \<circ> mix_a 43"
proof (rule ext)
  fix s :: "u64 \<times> u64 \<times> u64"
  obtain a b c where s: "s = (a, b, c)" by (cases s) auto
  show "mix64 s = (mix_c 22 \<circ> mix_b 18 \<circ> mix_a 12 \<circ> mix_c 11 \<circ> mix_b 49 \<circ> mix_a 35 \<circ>
           mix_c 5 \<circ> mix_b 23 \<circ> mix_a 38 \<circ> mix_c 8 \<circ> mix_b 9 \<circ> mix_a 43) s"
    by (simp only: s mix64_def mix_a_def mix_b_def mix_c_def Let_def comp_apply prod.case)
qed

section \<open>A reference definition by padded blocks\<close>

definition le64 :: "byte list \<Rightarrow> u64" where
  "le64 bs = fold (\<lambda>b acc. push_bit 8 acc + ucast b) (rev bs) 0"

definition pad :: "nat \<Rightarrow> byte list \<Rightarrow> byte list" where
  "pad n bs = bs @ replicate (n - length bs) 0"

text \<open>
  Whole blocks of 24 bytes are added to the three words and mixed; the last, possibly empty,
  block is zero-padded, and the low byte of its third word is left to the length.
\<close>

fun ref_blocks :: "byte list \<Rightarrow> u64 \<times> u64 \<times> u64 \<Rightarrow> u64 \<Rightarrow> u64" where
  "ref_blocks bs (a, b, c) n =
     (if length bs \<ge> 24
      then ref_blocks (drop 24 bs)
             (mix64 (a + le64 (take 8 bs), b + le64 (take 8 (drop 8 bs)), c + le64 (take 8 (drop 16 bs)))) n
      else snd (snd (mix64 (a + le64 (take 8 (pad 24 bs)), b + le64 (take 8 (drop 8 (pad 24 bs))),
                            c + n + push_bit 8 (le64 (take 7 (drop 16 (pad 24 bs))))))))"

declare ref_blocks.simps [simp del]

definition ref_hash :: "byte list \<Rightarrow> u64 \<Rightarrow> u64" where
  "ref_hash bs level = ref_blocks bs (level, level, 0x9e3779b97f4a7c13) (of_nat (length bs))"

lemma le64_Cons: "le64 (b # bs) = ucast b + push_bit 8 (le64 bs)"
  by (simp add: le64_def add.commute)

lemma le64_Nil [simp]: "le64 [] = 0"
  by (simp add: le64_def)

lemma take_Cons_nth: "i < length bs \<Longrightarrow> take (Suc n) (drop i bs) = bs ! i # take n (drop (Suc i) bs)"
  by (simp add: Cons_nth_drop_Suc [symmetric])

lemma le64_block:
  assumes "i + 8 \<le> length bs"
  shows "le64 (take 8 (drop i bs)) = kword bs i"
  using assms
  by (simp add: numeral_eq_Suc take_Cons_nth le64_Cons kword_def kbyte_def push_bit_add add.assoc
      del: push_bit_Suc)

lemma le64_block7:
  assumes "i + 7 \<le> length bs"
  shows "push_bit 8 (le64 (take 7 (drop i bs))) =
    push_bit 8 (kbyte bs i) + push_bit 16 (kbyte bs (i + 1)) + push_bit 24 (kbyte bs (i + 2))
    + push_bit 32 (kbyte bs (i + 3)) + push_bit 40 (kbyte bs (i + 4)) + push_bit 48 (kbyte bs (i + 5))
    + push_bit 56 (kbyte bs (i + 6))"
  using assms
  by (simp add: numeral_eq_Suc take_Cons_nth le64_Cons kbyte_def push_bit_add add.assoc
      del: push_bit_Suc)

lemma pad_byte: "i < 24 \<Longrightarrow> length bs \<le> 24 \<Longrightarrow>
    kbyte (pad 24 bs) i = (if i < length bs then kbyte bs i else 0)"
  by (auto simp: kbyte_def pad_def nth_append)

lemma length_pad: "length bs \<le> n \<Longrightarrow> length (pad n bs) = n"
  by (simp add: pad_def)

lemma switch_guard:
  assumes "unat len < 24" "unat len \<le> length k" "i < 24" "m = i + 1"
  shows "(if (of_nat m :: u64) \<le> len then x + push_bit j (kbyte k i) else x) =
         x + push_bit j (kbyte (pad 24 (take (unat len) k)) i)"
proof -
  have "(of_nat m :: u64) \<le> len \<longleftrightarrow> i < unat len"
    using assms(3,4) by (simp add: word_le_nat_alt unat_of_nat Suc_le_eq del: of_nat_Suc)
  moreover have "kbyte (take (unat len) k) i = kbyte k i" if "i < unat len"
    using that by (simp add: kbyte_def)
  ultimately show ?thesis using assms by (simp add: pad_byte)
qed

lemma burtle_switch_padded:
  assumes "unat len < 24" "unat len \<le> length k"
  defines "P \<equiv> pad 24 (take (unat len) k)"
  shows "burtle_switch k len (a, b, c) =
    (a + le64 (take 8 P), b + le64 (take 8 (drop 8 P)), c + push_bit 8 (le64 (take 7 (drop 16 P))))"
proof -
  have P: "length P = 24" using assms(1,2) by (simp add: P_def length_pad)
  note g = switch_guard [OF assms(1,2), folded P_def]
  have gs: "(if m \<le> len then x + push_bit j (kbyte k i) else x) = x + push_bit j (kbyte P i)"
    if "i < 24" "m = of_nat (i + 1)" for m :: u64 and i j x
    using g [OF that(1) refl, of x j] that(2) by simp
  have g0: "(if m \<le> len then x + kbyte k i else x) = x + kbyte P i"
    if "i < 24" "m = of_nat (i + 1)" for m :: u64 and i x
    using gs [OF that, of x 0] by (simp only: push_bit_0_id id_apply)
  have "take 8 P = take 8 (drop 0 P)" by simp
  then show ?thesis
    using P le64_block [of 0 P] le64_block [of 8 P] le64_block7 [of 16 P]
    by (simp add: burtle_switch_def gs g0 kword_def add_ac numeral_2_eq_2)
qed

lemma burtle_loop_ref:
  assumes "unat len \<le> length k"
  shows "(let (k', len', a', b', c') = burtle_loop k len (a, b, c);
              (x, y, z) = mix64 (burtle_switch k' len' (a', b', c' + n)) in z) =
         ref_blocks (take (unat len) k) (a, b, c) n"
  using assms
proof (induction k len "(a, b, c)" arbitrary: a b c rule: burtle_loop.induct)
  case (1 k len a b c)
  show ?case
  proof (cases "len \<ge> 24")
    case False
    then have l: "unat len < 24" by (simp add: word_le_nat_alt)
    then show ?thesis
      using False "1.prems" burtle_switch_padded [OF l "1.prems"]
      by (simp add: burtle_loop.simps [of k len] ref_blocks.simps [of "take (unat len) k"]
          split_beta add_ac)
  next
    case True
    then have l: "24 \<le> unat len" "unat (len - 24) = unat len - 24"
      by (simp_all add: word_le_nat_alt unat_sub)
    let ?bs = "take (unat len) k"
    have blk: "le64 (take 8 ?bs) = kword k 0" "le64 (take 8 (drop 8 ?bs)) = kword k 8"
      "le64 (take 8 (drop 16 ?bs)) = kword k 16"
      using l(1) "1.prems" le64_block [of 0 ?bs] le64_block [of 8 ?bs] le64_block [of 16 ?bs]
      by (simp_all add: kword_def kbyte_def)
    obtain a' b' c' where m: "mix64 (a + kword k 0, b + kword k 8, c + kword k 16) = (a', b', c')"
      by (cases "mix64 (a + kword k 0, b + kword k 8, c + kword k 16)") auto
    have "take (unat (len - 24)) (drop 24 k) = drop 24 ?bs"
      using l by (simp add: drop_take)
    then show ?thesis
      using "1.hyps" [OF True m] "1.prems" l blk m True
      by (simp add: burtle_loop.simps [of k len] ref_blocks.simps [of ?bs])
  qed
qed

section \<open>Properties\<close>

text \<open>
  Claim C13. \<open>mix64\<close> is a bijection on triples of 64-bit words: no information is lost when a block
  is mixed in, which is the reversibility that the comment in \<open>lookup8.c\<close> states.
\<close>

theorem mix64_reversible: "bij mix64"
  by (simp only: mix64_steps) (intro bij_comp mix_a_bij mix_b_bij mix_c_bij)

text \<open>
  Claim C12. \<open>burtle_hash\<close> never reads outside a key of the given length, terminates, and its loop and
  fall-through switch compute the reference hash of the key by zero-padded blocks of 24 bytes; bytes
  behind the key have no influence.
\<close>

theorem burtle_hash_reference:
  assumes "unat len \<le> length k"
  shows "burtle_hash k len level = Some (ref_hash (take (unat len) k) level)"
proof -
  obtain k' len' a b c where
    r: "burtle_loop k len (level, level, 0x9e3779b97f4a7c13) = (k', len', a, b, c)"
    by (metis prod_cases5)
  have "of_nat (length (take (unat len) k)) = len" using assms by simp
  then show ?thesis
    using burtle_loop_ref [OF assms, of level level "0x9e3779b97f4a7c13" len] r assms
    by (simp add: burtle_hash_def ref_hash_def split_beta)
qed

theorem burtle_hash_reference_witness:
  "burtle_hash [1, 2, 3, 4, 99] 4 1 = Some (ref_hash [1, 2, 3, 4] 1)"
  using burtle_hash_reference [of 4 "[1, 2, 3, 4, 99]" 1] by simp

end
