(* ===== verification/LinkList.thy ===== *)
theory LinkList
  imports Prelude
begin

text \<open>
  The intrusive singly linked list of \<open>src/src/link_list.c\<close> (nodes are \<open>struct list_node\<close> of
  \<open>include/KendyNet.h\<close>) over an explicit store of \<open>next\<close> pointers, and the blocking queue
  built on it. The list is shown to implement a queue of nodes; the blocking queue is a step
  relation whose steps are the critical sections of \<open>block_queue_push\<close>, \<open>block_queue_pop\<close>,
  \<open>block_queue_force_wakeup\<close> and \<open>block_queue_clear\<close>.
\<close>

section \<open>The list\<close>

record link_list =
  ll_size :: int
  ll_head :: addr
  ll_tail :: addr

definition create_link_list :: link_list where
  "create_link_list = \<lparr>ll_size = 0, ll_head = NULL, ll_tail = NULL\<rparr>"

definition link_list_head :: "link_list \<Rightarrow> addr" where
  "link_list_head l = ll_head l"

definition link_list_swap ::
  "nexts \<Rightarrow> link_list \<Rightarrow> link_list \<Rightarrow> (nexts \<times> link_list \<times> link_list) option" where
  "link_list_swap h to from =
     (if ll_head from \<noteq> NULL \<and> ll_tail from \<noteq> NULL then do {
        (h', to') \<leftarrow>
          (if ll_tail to \<noteq> NULL then do {
             _ \<leftarrow> h (ll_tail to);
             Some (h(ll_tail to \<mapsto> ll_head from), to)
           } else Some (h, to\<lparr>ll_head := ll_head from\<rparr>));
        sz \<leftarrow> i32 (ll_size to + ll_size from);
        Some (h', to'\<lparr>ll_tail := ll_tail from, ll_size := sz\<rparr>,
              from\<lparr>ll_head := NULL, ll_tail := NULL, ll_size := 0\<rparr>)
      } else Some (h, to, from))"

definition link_list_clear :: "link_list \<Rightarrow> link_list" where
  "link_list_clear l = l\<lparr>ll_size := 0, ll_head := NULL, ll_tail := NULL\<rparr>"

definition link_list_push_back ::
  "nexts \<Rightarrow> link_list \<Rightarrow> addr \<Rightarrow> (nexts \<times> link_list) option" where
  "link_list_push_back h l n = do {
     nx \<leftarrow> h n;
     if nx \<noteq> NULL then Some (h, l)
     else do {
       let h1 = h(n \<mapsto> NULL);
       (h2, l2) \<leftarrow>
         (if ll_size l = 0 then Some (h1, l\<lparr>ll_head := n, ll_tail := n\<rparr>)
          else do {
            _ \<leftarrow> h1 (ll_tail l);
            Some (h1(ll_tail l \<mapsto> n), l\<lparr>ll_tail := n\<rparr>)
          });
       sz \<leftarrow> i32 (ll_size l2 + 1);
       Some (h2, l2\<lparr>ll_size := sz\<rparr>)
     }
   }"

definition link_list_push_front ::
  "nexts \<Rightarrow> link_list \<Rightarrow> addr \<Rightarrow> (nexts \<times> link_list) option" where
  "link_list_push_front h l n = do {
     nx \<leftarrow> h n;
     if nx \<noteq> NULL then Some (h, l)
     else do {
       let h1 = h(n \<mapsto> NULL);
       let (h2, l2) =
         (if ll_size l = 0 then (h1, l\<lparr>ll_head := n, ll_tail := n\<rparr>)
          else (h1(n \<mapsto> ll_head l), l\<lparr>ll_head := n\<rparr>));
       sz \<leftarrow> i32 (ll_size l2 + 1);
       Some (h2, l2\<lparr>ll_size := sz\<rparr>)
     }
   }"

definition link_list_pop :: "nexts \<Rightarrow> link_list \<Rightarrow> (nexts \<times> link_list \<times> addr) option" where
  "link_list_pop h l =
     (if ll_size l = 0 then Some (h, l, NULL)
      else do {
        let ret = ll_head l;
        hd' \<leftarrow> h (ll_head l);
        let l1 = l\<lparr>ll_head := hd'\<rparr>;
        let l2 = (if hd' = NULL then l1\<lparr>ll_tail := NULL\<rparr> else l1);
        sz \<leftarrow> i32 (ll_size l2 - 1);
        Some (h(ret \<mapsto> NULL), l2\<lparr>ll_size := sz\<rparr>, ret)
      })"

definition link_list_is_empty :: "link_list \<Rightarrow> bool" where
  "link_list_is_empty l \<longleftrightarrow> ll_size l = 0"

definition link_list_size :: "link_list \<Rightarrow> int" where
  "link_list_size l = ll_size l"

lemmas link_list_defs = create_link_list_def link_list_head_def link_list_clear_def
  link_list_is_empty_def link_list_size_def

section \<open>Representation\<close>

definition ll_rep :: "nexts \<Rightarrow> link_list \<Rightarrow> addr list \<Rightarrow> bool" where
  "ll_rep h l xs \<longleftrightarrow>
     chain h (ll_head l) xs NULL \<and>
     ll_tail l = (if xs = [] then NULL else last xs) \<and>
     ll_size l = int (length xs) \<and> int (length xs) \<le> INT32_MAX"

lemma ll_rep_create: "ll_rep h create_link_list []"
  by (simp add: ll_rep_def create_link_list_def)

lemma ll_rep_clear: "ll_rep h (link_list_clear l) []"
  by (simp add: ll_rep_def link_list_clear_def)

lemma ll_rep_distinct [rep_dests]: "ll_rep h l xs \<Longrightarrow> distinct xs"
  by (auto simp: ll_rep_def dest: chain_distinct)

lemma ll_rep_empty_iff: "ll_rep h l xs \<Longrightarrow> link_list_is_empty l \<longleftrightarrow> xs = []"
  by (auto simp: ll_rep_def link_list_is_empty_def)

lemma ll_rep_head: "ll_rep h l xs \<Longrightarrow> link_list_head l = (case xs of [] \<Rightarrow> NULL | x # _ \<Rightarrow> x)"
  by (cases xs) (auto simp: ll_rep_def link_list_head_def)

lemma ll_rep_unique: "ll_rep h l xs \<Longrightarrow> ll_rep h l ys \<Longrightarrow> xs = ys"
  by (auto simp: ll_rep_def dest: chain_functional)

lemma ll_rep_frame: "ll_rep h l xs \<Longrightarrow> a \<notin> set xs \<Longrightarrow> ll_rep (h(a := v)) l xs"
  by (simp add: ll_rep_def)

lemma ll_rep_notnull [rep_dests]: "ll_rep h l xs \<Longrightarrow> NULL \<notin> set xs"
  by (auto simp: ll_rep_def dest: chain_null_notin)

lemma ll_rep_members: "ll_rep h l xs \<Longrightarrow> a \<in> set xs \<Longrightarrow> \<exists>r. h a = Some r"
  by (auto simp: ll_rep_def dest: chain_dom)

lemma ll_rep_ends:
  assumes "ll_rep h l xs" "xs \<noteq> []"
  shows "ll_head l = hd xs" "ll_head l \<noteq> NULL" "ll_tail l = last xs" "ll_tail l \<noteq> NULL"
    "h (last xs) = Some NULL"
proof -
  have c: "chain h (ll_head l) xs NULL" and t: "ll_tail l = last xs"
    using assms by (auto simp: ll_rep_def)
  show "ll_head l = hd xs" "ll_head l \<noteq> NULL" using c assms(2) by (cases xs; auto)+
  show "ll_tail l = last xs" by (rule t)
  show "ll_tail l \<noteq> NULL" using chain_null_notin [OF c] last_in_set [OF assms(2)] t by metis
  show "h (last xs) = Some NULL" using chain_last_next [OF c assms(2)] .
qed

text \<open>The effect on the store: only the pushed node and the old tail change.\<close>

lemma push_back_rep_Nil:
  assumes "ll_rep h l []" "h n = Some NULL" "n \<noteq> NULL"
  shows "link_list_push_back h l n = Some (h(n \<mapsto> NULL), \<lparr>ll_size = 1, ll_head = n, ll_tail = n\<rparr>)"
  using assms by (cases l) (simp add: ll_rep_def link_list_push_back_def)

lemma push_back_rep_Cons:
  assumes "ll_rep h l xs" "xs \<noteq> []" "h n = Some NULL" "n \<notin> set xs"
    "int (length xs) < INT32_MAX"
  shows "link_list_push_back h l n =
    Some (h(n \<mapsto> NULL, last xs \<mapsto> n), l\<lparr>ll_tail := n, ll_size := int (length xs) + 1\<rparr>)"
proof -
  have "last xs \<noteq> n" using assms(2,4) last_in_set by metis
  with ll_rep_ends [OF assms(1,2)] show ?thesis
    using assms by (cases l) (auto simp: ll_rep_def link_list_push_back_def)
qed

lemma link_list_push_back_rep:
  assumes "ll_rep h l xs" "h n = Some NULL" "n \<noteq> NULL" "n \<notin> set xs"
    "int (length xs) < INT32_MAX"
  shows "\<exists>h' l'. link_list_push_back h l n = Some (h', l') \<and> ll_rep h' l' (xs @ [n]) \<and>
           (\<forall>a. a \<noteq> n \<longrightarrow> a \<notin> set xs \<longrightarrow> h' a = h a)"
proof (cases "xs = []")
  case True
  then show ?thesis using push_back_rep_Nil [of h l n] assms
    by (simp add: ll_rep_def)
next
  case False
  let ?h = "h(n \<mapsto> NULL, last xs \<mapsto> n)"
  have "last xs \<noteq> n" using False assms(4) last_in_set by metis
  moreover have "chain (h(n \<mapsto> NULL)) (ll_head l) xs NULL"
    using assms(1,4) by (simp add: ll_rep_def)
  ultimately have "chain ?h (ll_head l) (xs @ [n]) NULL"
    using chain_redirect_last [of "h(n \<mapsto> NULL)" "ll_head l" xs n] False assms(3)
    by (auto simp: chain_append intro!: exI [of _ n])
  then show ?thesis
    using push_back_rep_Cons [OF assms(1) False assms(2,4,5)] assms(1,5) False
    by (auto simp: ll_rep_def)
qed

lemma link_list_push_front_rep:
  assumes "ll_rep h l xs" "h n = Some NULL" "n \<noteq> NULL" "n \<notin> set xs"
    "int (length xs) < INT32_MAX"
  shows "\<exists>h' l'. link_list_push_front h l n = Some (h', l') \<and> ll_rep h' l' (n # xs) \<and>
           (\<forall>a. a \<noteq> n \<longrightarrow> h' a = h a)"
  using assms by (cases "xs = []") (auto simp: ll_rep_def link_list_push_front_def)

lemma link_list_pop_rep:
  assumes "ll_rep h l (x # xs)"
  shows "\<exists>h' l'. link_list_pop h l = Some (h', l', x) \<and> ll_rep h' l' xs \<and>
           h' = h(x \<mapsto> NULL)"
proof -
  obtain r where r: "h x = Some r" "chain h r xs NULL" "ll_head l = x" "x \<noteq> NULL"
    using assms by (auto simp: ll_rep_def split: option.splits)
  have "x \<notin> set xs" using ll_rep_distinct [OF assms] by simp
  moreover have "r = NULL \<longleftrightarrow> xs = []" using r(2) by (cases xs) (auto split: option.splits)
  ultimately show ?thesis
    using assms r by (auto simp: ll_rep_def link_list_pop_def)
qed

lemma link_list_pop_empty: "ll_rep h l [] \<Longrightarrow> link_list_pop h l = Some (h, l, NULL)"
  by (simp add: ll_rep_def link_list_pop_def)

lemma push_back_refused:
  "h n = Some nx \<Longrightarrow> nx \<noteq> NULL \<Longrightarrow> link_list_push_back h l n = Some (h, l)"
  by (simp add: link_list_push_back_def)

lemma swap_rep_nonempty:
  assumes "ll_rep h to xs" "ll_rep h from ys" "set xs \<inter> set ys = {}" "ys \<noteq> []" "xs \<noteq> []"
    "int (length xs) + int (length ys) \<le> INT32_MAX"
  shows "\<exists>h' to' from'. link_list_swap h to from = Some (h', to', from') \<and>
           ll_rep h' to' (xs @ ys) \<and> ll_rep h' from' []"
proof -
  note fr = ll_rep_ends [OF assms(2,4)]
  note tt = ll_rep_ends [OF assms(1,5)]
  have notin: "last xs \<notin> set ys" using assms(3) last_in_set [OF assms(5)] by blast
  let ?h = "h(last xs \<mapsto> ll_head from)"
  have "chain ?h (ll_head to) (xs @ ys) NULL"
    using assms(1,2,5) notin chain_redirect_last [of h "ll_head to" xs "ll_head from"]
    by (auto simp: chain_append ll_rep_def)
  then show ?thesis using assms fr tt by (auto simp: link_list_swap_def ll_rep_def)
qed

lemma link_list_swap_rep:
  assumes "ll_rep h to xs" "ll_rep h from ys" "set xs \<inter> set ys = {}"
    "int (length xs) + int (length ys) \<le> INT32_MAX"
  shows "\<exists>h' to' from'. link_list_swap h to from = Some (h', to', from') \<and>
           ll_rep h' to' (xs @ ys) \<and> ll_rep h' from' []"
proof (cases "ys = []")
  case True
  then show ?thesis using assms by (auto simp: link_list_swap_def ll_rep_def)
next
  case ys: False
  show ?thesis
  proof (cases "xs = []")
    case True
    with assms ys ll_rep_ends [OF assms(2) ys] show ?thesis by (auto simp: link_list_swap_def ll_rep_def)
  qed (rule swap_rep_nonempty [OF assms(1,2,3) ys _ assms(4)])
qed

section \<open>The list is a queue\<close>

definition ll_ready :: "nexts \<times> link_list \<Rightarrow> addr \<Rightarrow> bool" where
  "ll_ready s n \<longleftrightarrow> fst s n = Some NULL \<and> n \<noteq> NULL"

definition ll_push :: "nexts \<times> link_list \<Rightarrow> addr \<Rightarrow> (nexts \<times> link_list) option" where
  "ll_push s n = link_list_push_back (fst s) (snd s) n"

definition ll_pop :: "nexts \<times> link_list \<Rightarrow> ((nexts \<times> link_list) \<times> addr) option" where
  "ll_pop s = do { (h, l, n) \<leftarrow> link_list_pop (fst s) (snd s); Some ((h, l), n) }"

interpretation llq: intrusive_queue "\<lambda>s. ll_rep (fst s) (snd s)" ll_ready "nat INT32_MAX"
  ll_push ll_pop
proof unfold_locales
  fix s :: "nexts \<times> link_list" and xs n
  assume a: "ll_rep (fst s) (snd s) xs" "ll_ready s n" "n \<notin> set xs" "length xs < nat INT32_MAX"
  then obtain h' l' where "link_list_push_back (fst s) (snd s) n = Some (h', l')"
      "ll_rep h' l' (xs @ [n])" "\<forall>a. a \<noteq> n \<longrightarrow> a \<notin> set xs \<longrightarrow> h' a = fst s a"
    using link_list_push_back_rep [of "fst s" "snd s" xs n] by (auto simp: ll_ready_def)
  then show "\<exists>s'. ll_push s n = Some s' \<and> ll_rep (fst s') (snd s') (xs @ [n]) \<and>
      (\<forall>m. m \<noteq> n \<longrightarrow> m \<notin> set xs \<longrightarrow> ll_ready s m \<longrightarrow> ll_ready s' m)"
    by (auto simp: ll_push_def ll_ready_def)
next
  fix s :: "nexts \<times> link_list" and n xs
  assume "ll_rep (fst s) (snd s) (n # xs)"
  then show "\<exists>s'. ll_pop s = Some (s', n) \<and> ll_rep (fst s') (snd s') xs"
    using link_list_pop_rep [of "fst s" "snd s" n xs] by (auto simp: ll_pop_def)
qed

section \<open>The blocking queue\<close>

text \<open>
  \<open>block_queue_pop\<close> holds the mutex except while it sleeps in \<open>condition_wait\<close> or
  \<open>condition_timedwait\<close>, so a call is a sequence of critical sections: the first one from the
  entry to the end of the loop test, and one more for each return of the wait. A wait may
  return at any time (signal, time-out or spurious wake-up).
\<close>

datatype pop_code = POP_SUCCESS | POP_TIMEOUT | POP_FORCE_WAKE_UP

record block_queue =
  bq_nexts :: nexts
  bq_l :: link_list
  force_wakeup :: int

datatype pop_result = Sleeping | Returned pop_code addr

definition create_block_queue :: "nexts \<Rightarrow> block_queue" where
  "create_block_queue h = \<lparr>bq_nexts = h, bq_l = create_link_list, force_wakeup = 0\<rparr>"

text \<open>The boolean says whether the caller goes on to signal the condition variable.\<close>

definition block_queue_push :: "block_queue \<Rightarrow> addr \<Rightarrow> (block_queue \<times> bool) option" where
  "block_queue_push q n = do {
     let isEmpty = link_list_is_empty (bq_l q);
     (h, l) \<leftarrow> link_list_push_back (bq_nexts q) (bq_l q) n;
     Some (q\<lparr>bq_nexts := h, bq_l := l\<rparr>, isEmpty)
   }"

text \<open>What follows the loop: the node is taken only when the code is \<open>POP_SUCCESS\<close>.\<close>

definition block_queue_pop_finish ::
  "block_queue \<Rightarrow> pop_code \<Rightarrow> (block_queue \<times> pop_result) option" where
  "block_queue_pop_finish q code =
     (if code = POP_SUCCESS then do {
        (h, l, n) \<leftarrow> link_list_pop (bq_nexts q) (bq_l q);
        Some (q\<lparr>bq_nexts := h, bq_l := l\<rparr>, Returned POP_SUCCESS n)
      } else Some (q, Returned code NULL))"

text \<open>The loop test and the part of the body that precedes the wait.\<close>

definition block_queue_pop :: "block_queue \<Rightarrow> int \<Rightarrow> (block_queue \<times> pop_result) option" where
  "block_queue_pop q ms =
     (if link_list_is_empty (bq_l q) \<and> ms \<noteq> 0 then Some (q, Sleeping)
      else block_queue_pop_finish q POP_SUCCESS)"

text \<open>The part of the body after the wait returned, then the loop test again.\<close>

definition block_queue_pop_resume ::
  "block_queue \<Rightarrow> int \<Rightarrow> bool \<Rightarrow> (block_queue \<times> pop_result) option" where
  "block_queue_pop_resume q ms timedout =
     (if ms > 0 \<and> timedout then block_queue_pop_finish q POP_TIMEOUT
      else if force_wakeup q \<noteq> 0
      then block_queue_pop_finish (q\<lparr>force_wakeup := 0\<rparr>) POP_FORCE_WAKE_UP
      else block_queue_pop q ms)"

definition block_queue_is_empty :: "block_queue \<Rightarrow> bool" where
  "block_queue_is_empty q = link_list_is_empty (bq_l q)"

definition block_queue_force_wakeup :: "block_queue \<Rightarrow> block_queue" where
  "block_queue_force_wakeup q = q\<lparr>force_wakeup := 1\<rparr>"

definition block_queue_clear :: "block_queue \<Rightarrow> block_queue" where
  "block_queue_clear q = q\<lparr>bq_l := link_list_clear (bq_l q)\<rparr>"

text \<open>
  Any number of threads use one queue. \<open>bq_waiting t\<close> is the time-out argument of the pop in
  which thread \<open>t\<close> sleeps. \<open>bq_pushed\<close> and \<open>bq_popped\<close> record the nodes handed in and out,
  in order, since the queue was last cleared.
\<close>

record bq_sys =
  bq_q :: block_queue
  bq_waiting :: "nat \<Rightarrow> int option"
  bq_pushed :: "addr list"
  bq_popped :: "addr list"

definition bq_init :: "nexts \<Rightarrow> bq_sys" where
  "bq_init h = \<lparr>bq_q = create_block_queue h, bq_waiting = (\<lambda>_. None),
                bq_pushed = [], bq_popped = []\<rparr>"

fun bq_after :: "bq_sys \<Rightarrow> nat \<Rightarrow> int \<Rightarrow> block_queue \<Rightarrow> pop_result \<Rightarrow> bq_sys" where
  "bq_after s t ms q Sleeping = s\<lparr>bq_q := q, bq_waiting := (bq_waiting s)(t \<mapsto> ms)\<rparr>"
| "bq_after s t ms q (Returned c n) =
     s\<lparr>bq_q := q, bq_waiting := (bq_waiting s)(t := None),
       bq_popped := bq_popped s @ (if n = NULL then [] else [n])\<rparr>"

inductive bq_step :: "bq_sys \<Rightarrow> bq_sys \<Rightarrow> bool" where
  bq_push: "block_queue_push (bq_q s) n = Some (q, sig) \<Longrightarrow>
     bq_nexts (bq_q s) n = Some NULL \<Longrightarrow> n \<noteq> NULL \<Longrightarrow>
     n \<notin> set (drop (length (bq_popped s)) (bq_pushed s)) \<Longrightarrow>
     bq_step s (s\<lparr>bq_q := q, bq_pushed := bq_pushed s @ [n]\<rparr>)"
| bq_pop: "bq_waiting s t = None \<Longrightarrow> block_queue_pop (bq_q s) ms = Some (q, r) \<Longrightarrow>
     bq_step s (bq_after s t ms q r)"
| bq_resume: "bq_waiting s t = Some ms \<Longrightarrow>
     block_queue_pop_resume (bq_q s) ms timedout = Some (q, r) \<Longrightarrow>
     bq_step s (bq_after s t ms q r)"
| bq_force: "bq_step s (s\<lparr>bq_q := block_queue_force_wakeup (bq_q s)\<rparr>)"
| bq_clear: "bq_step s (s\<lparr>bq_q := block_queue_clear (bq_q s), bq_pushed := [], bq_popped := []\<rparr>)"

inductive bq_reach :: "nexts \<Rightarrow> bq_sys \<Rightarrow> bool" for h where
  bq_start: "bq_reach h (bq_init h)"
| bq_more: "bq_reach h s \<Longrightarrow> bq_step s s' \<Longrightarrow> bq_reach h s'"

definition bq_inv :: "bq_sys \<Rightarrow> bool" where
  "bq_inv s \<longleftrightarrow> (\<exists>xs. ll_rep (bq_nexts (bq_q s)) (bq_l (bq_q s)) xs \<and>
                  bq_pushed s = bq_popped s @ xs)"

lemmas bq_defs = create_block_queue_def block_queue_push_def block_queue_pop_finish_def
  block_queue_pop_def block_queue_pop_resume_def block_queue_force_wakeup_def
  block_queue_clear_def

lemma pop_finish_cases:
  assumes "ll_rep (bq_nexts q) (bq_l q) xs" "block_queue_pop_finish q c = Some (q', r)"
  shows "\<exists>n xs'. r = Returned c n \<and> ll_rep (bq_nexts q') (bq_l q') xs' \<and>
           (if n = NULL then xs' = xs else xs = n # xs')"
proof (cases "c = POP_SUCCESS")
  case False
  then show ?thesis using assms by (auto simp: block_queue_pop_finish_def)
next
  case c: True
  show ?thesis
  proof (cases xs)
    case Nil
    then show ?thesis using c assms link_list_pop_empty [of "bq_nexts q" "bq_l q"]
      by (auto simp: block_queue_pop_finish_def)
  next
    case (Cons x ys)
    then have "x \<noteq> NULL" using assms(1) by (auto dest: ll_rep_notnull)
    then show ?thesis using Cons c assms link_list_pop_rep [of "bq_nexts q" "bq_l q" x ys]
      by (auto simp: block_queue_pop_finish_def)
  qed
qed

lemma pop_cases:
  assumes "ll_rep (bq_nexts q) (bq_l q) xs"
    "block_queue_pop q ms = Some (q', r) \<or> block_queue_pop_resume q ms tmo = Some (q', r)"
  shows "(r = Sleeping \<and> q' = q) \<or>
         (\<exists>c n xs'. r = Returned c n \<and> ll_rep (bq_nexts q') (bq_l q') xs' \<and>
            (if n = NULL then xs' = xs else xs = n # xs'))"
proof -
  have "(r = Sleeping \<and> q' = q) \<or> (\<exists>q0 c. bq_nexts q0 = bq_nexts q \<and> bq_l q0 = bq_l q \<and>
      block_queue_pop_finish q0 c = Some (q', r))"
    using assms(2)
    by (auto simp: block_queue_pop_def block_queue_pop_resume_def split: if_splits)
  then show ?thesis using pop_finish_cases assms(1) by metis
qed

lemma bq_after_inv:
  assumes "bq_inv s" "block_queue_pop (bq_q s) ms = Some (q, r) \<or>
    block_queue_pop_resume (bq_q s) ms tmo = Some (q, r)"
  shows "bq_inv (bq_after s t ms q r)"
proof -
  obtain xs where xs: "ll_rep (bq_nexts (bq_q s)) (bq_l (bq_q s)) xs"
      "bq_pushed s = bq_popped s @ xs"
    using assms(1) by (auto simp: bq_inv_def)
  from pop_cases [OF xs(1) assms(2)] show ?thesis
    using xs by (auto simp: bq_inv_def split: if_splits)
qed

lemma bq_step_inv: "bq_step s s' \<Longrightarrow> bq_inv s \<Longrightarrow> bq_inv s'"
proof (induction rule: bq_step.induct)
  case (bq_push s n q sig)
  obtain xs where xs: "ll_rep (bq_nexts (bq_q s)) (bq_l (bq_q s)) xs"
      "bq_pushed s = bq_popped s @ xs"
    using bq_push.prems by (auto simp: bq_inv_def)
  obtain h l where hl: "link_list_push_back (bq_nexts (bq_q s)) (bq_l (bq_q s)) n = Some (h, l)"
      "q = (bq_q s)\<lparr>bq_nexts := h, bq_l := l\<rparr>"
    using bq_push.hyps(1) by (auto simp: block_queue_push_def bind_eq_Some_conv)
  have "int (length xs) < INT32_MAX"
    using xs(1) hl(1) bq_push.hyps(2)
    by (auto simp: ll_rep_def link_list_push_back_def bind_eq_Some_conv i32_eq_Some split: if_splits)
  then have "ll_rep h l (xs @ [n])"
    using link_list_push_back_rep [OF xs(1) bq_push.hyps(2,3)] bq_push.hyps(4) xs(2) hl(1) by auto
  then show ?case using xs(2) hl(2) by (auto simp: bq_inv_def)
next
  case (bq_force s)
  then show ?case by (simp add: bq_inv_def block_queue_force_wakeup_def)
next
  case (bq_clear s)
  then show ?case by (auto simp: bq_inv_def block_queue_clear_def ll_rep_clear)
qed (blast intro: bq_after_inv)+

lemma bq_reach_inv: "bq_reach h s \<Longrightarrow> bq_inv s"
proof (induction rule: bq_reach.induct)
  case bq_start
  then show ?case by (simp add: bq_inv_def bq_init_def create_block_queue_def ll_rep_create)
next
  case (bq_more s s')
  then show ?case by (blast intro: bq_step_inv)
qed

section \<open>Properties\<close>

text \<open>
  Claim C11. \<open>link_list_push_back\<close>, \<open>link_list_push_front\<close> and \<open>link_list_pop\<close> implement a double
  ended list of nodes: on a list that represents \<open>xs\<close>, pushing a node that is in no list (its
  \<open>next\<close> is null) yields \<open>xs @ [n]\<close> or \<open>n # xs\<close> without touching any node outside the list, and
  popping what was pushed in front returns it with its \<open>next\<close> reset, so that it may be pushed again.
\<close>

theorem link_list_push_pop_refine:
  assumes "ll_rep h l xs" "h n = Some NULL" "n \<noteq> NULL" "n \<notin> set xs" "int (length xs) < INT32_MAX"
  shows "(\<exists>h' l'. link_list_push_back h l n = Some (h', l') \<and> ll_rep h' l' (xs @ [n]) \<and>
            (\<forall>a. a \<noteq> n \<longrightarrow> a \<notin> set xs \<longrightarrow> h' a = h a)) \<and>
         (\<exists>h' l' l''. link_list_push_front h l n = Some (h', l') \<and> ll_rep h' l' (n # xs) \<and>
            link_list_pop h' l' = Some (h'(n \<mapsto> NULL), l'', n) \<and> ll_rep (h'(n \<mapsto> NULL)) l'' xs)"
proof -
  obtain h' l' where f: "link_list_push_front h l n = Some (h', l')" "ll_rep h' l' (n # xs)"
    using link_list_push_front_rep [OF assms] by blast
  with link_list_pop_rep [OF f(2)] link_list_push_back_rep [OF assms] show ?thesis by blast
qed

theorem link_list_push_pop_refine_witness:
  "ll_rep [5 \<mapsto> 7, 7 \<mapsto> 0, 9 \<mapsto> 0] \<lparr>ll_size = 2, ll_head = 5, ll_tail = 7\<rparr> [5, 7] \<and>
   (\<exists>h' l'. link_list_push_back [5 \<mapsto> 7, 7 \<mapsto> 0, 9 \<mapsto> 0]
      \<lparr>ll_size = 2, ll_head = 5, ll_tail = 7\<rparr> 9 = Some (h', l') \<and> ll_rep h' l' [5, 7, 9])"
proof -
  let ?h = "[5 \<mapsto> 7, 7 \<mapsto> 0, 9 \<mapsto> 0] :: nexts"
  let ?l = "\<lparr>ll_size = 2, ll_head = 5, ll_tail = 7\<rparr>"
  have r: "ll_rep ?h ?l [5, 7]" by (simp add: ll_rep_def)
  show ?thesis using r link_list_push_pop_refine [OF r, of 9] by auto
qed

text \<open>
  Claim C7. First in, first out: pushing any sequence of distinct free nodes onto a list
  representing \<open>xs\<close> and then popping as many times as there are nodes succeeds and returns the old
  nodes followed by the pushed ones, in order, leaving the list empty.
\<close>

theorem link_list_fifo:
  assumes "ll_rep h l xs" "distinct ns" "set ns \<inter> set xs = {}"
    "\<forall>n \<in> set ns. h n = Some NULL \<and> n \<noteq> NULL" "int (length xs + length ns) \<le> INT32_MAX"
  shows "\<exists>s' s''. push_all ll_push (h, l) ns = Some s' \<and>
           pop_all ll_pop s' (length xs + length ns) = Some (s'', xs @ ns) \<and>
           ll_rep (fst s'') (snd s'') []"
  using llq.fifo_law [of "(h, l)" xs ns] assms by (simp add: ll_ready_def)

theorem link_list_fifo_witness:
  "\<exists>s' s''. push_all ll_push ([3 \<mapsto> 0, 4 \<mapsto> 0, 8 \<mapsto> 0], create_link_list) [8, 3, 4] = Some s' \<and>
     pop_all ll_pop s' 3 = Some (s'', [8, 3, 4]) \<and> ll_rep (fst s'') (snd s'') []"
  using link_list_fifo [OF ll_rep_create, of "[8, 3, 4]" "[3 \<mapsto> 0, 4 \<mapsto> 0, 8 \<mapsto> 0]"]
  by (simp add: numeral_3_eq_3)

text \<open>
  \<open>link_list_swap\<close> moves the whole contents of \<open>from\<close> behind those of \<open>to\<close> and leaves
  \<open>from\<close> empty, for all combinations of empty and non-empty lists.
\<close>

theorem link_list_swap_appends:
  assumes "ll_rep h to xs" "ll_rep h from ys" "set xs \<inter> set ys = {}"
    "int (length xs) + int (length ys) \<le> INT32_MAX"
  shows "\<exists>h' to' from'. link_list_swap h to from = Some (h', to', from') \<and>
           ll_rep h' to' (xs @ ys) \<and> ll_rep h' from' []"
  by (rule link_list_swap_rep [OF assms])

theorem link_list_swap_appends_witness:
  "\<exists>h' to' from'. link_list_swap [5 \<mapsto> 7, 7 \<mapsto> 0, 9 \<mapsto> 0] \<lparr>ll_size = 2, ll_head = 5, ll_tail = 7\<rparr>
      \<lparr>ll_size = 1, ll_head = 9, ll_tail = 9\<rparr> = Some (h', to', from') \<and>
     ll_rep h' to' [5, 7, 9] \<and> ll_rep h' from' []"
  using link_list_swap_appends [of "[5 \<mapsto> 7, 7 \<mapsto> 0, 9 \<mapsto> 0]"
      "\<lparr>ll_size = 2, ll_head = 5, ll_tail = 7\<rparr>" "[5, 7]" "\<lparr>ll_size = 1, ll_head = 9, ll_tail = 9\<rparr>" "[9]"]
  by (simp add: ll_rep_def)

text \<open>
  Claim C8. The blocking queue under any interleaving of pushes, pops (blocking, timed and
  non-blocking, with spurious wake-ups), forced wake-ups and clears: the nodes handed out so far,
  followed by the nodes still linked in the queue, are exactly the nodes pushed, in push order.
  No node is lost, duplicated or reordered.
\<close>

theorem block_queue_conservation:
  assumes "bq_reach h s"
  shows "\<exists>xs. ll_rep (bq_nexts (bq_q s)) (bq_l (bq_q s)) xs \<and> bq_pushed s = bq_popped s @ xs"
  using bq_reach_inv [OF assms] by (simp add: bq_inv_def)

theorem block_queue_conservation_witness:
  "\<exists>s. bq_reach [4 \<mapsto> 0] s \<and> bq_waiting s 1 = Some (-1) \<and> bq_pushed s = [4] \<and>
     (\<exists>xs. ll_rep (bq_nexts (bq_q s)) (bq_l (bq_q s)) xs \<and> bq_pushed s = bq_popped s @ xs)"
proof -
  let ?h = "[4 \<mapsto> 0] :: nexts"
  let ?s1 = "bq_after (bq_init ?h) 1 (-1) (create_block_queue ?h) Sleeping"
  let ?q = "(create_block_queue ?h)\<lparr>bq_l := \<lparr>ll_size = 1, ll_head = 4, ll_tail = 4\<rparr>\<rparr>"
  let ?s2 = "?s1\<lparr>bq_q := ?q, bq_pushed := [4]\<rparr>"
  have "bq_reach ?h ?s1"
    by (rule bq_more [OF bq_start], rule bq_pop)
      (simp_all add: bq_init_def bq_defs link_list_defs)
  moreover have "bq_step ?s1 ?s2"
    using bq_push [of ?s1 4 ?q True]
    by (simp add: bq_init_def bq_defs link_list_defs link_list_push_back_def)
  ultimately have r: "bq_reach ?h ?s2" by (rule bq_more)
  from block_queue_conservation [OF r] r show ?thesis by (intro exI [of _ ?s2]) (simp add: bq_init_def)
qed

text \<open>
  What a pop reports: a zero time-out never sleeps and on an empty queue reports
  \<open>POP_SUCCESS\<close> with a null node; a non-empty queue always hands out its head at once; a
  sleeper woken by \<open>block_queue_force_wakeup\<close> consumes the flag and takes no node.
\<close>

theorem block_queue_pop_results:
  assumes "ll_rep (bq_nexts q) (bq_l q) xs"
  shows "(if xs = []
      then block_queue_pop q 0 = Some (q, Returned POP_SUCCESS NULL) \<and>
           (ms \<noteq> 0 \<longrightarrow> block_queue_pop q ms = Some (q, Sleeping))
      else \<exists>q'. block_queue_pop q ms = Some (q', Returned POP_SUCCESS (hd xs)) \<and>
           ll_rep (bq_nexts q') (bq_l q') (tl xs)) \<and>
    (ms \<le> 0 \<or> \<not> timedout \<longrightarrow>
       block_queue_pop_resume (block_queue_force_wakeup q) ms timedout =
         Some (q\<lparr>force_wakeup := 0\<rparr>, Returned POP_FORCE_WAKE_UP NULL))"
proof (intro conjI)
  show "if xs = []
      then block_queue_pop q 0 = Some (q, Returned POP_SUCCESS NULL) \<and>
           (ms \<noteq> 0 \<longrightarrow> block_queue_pop q ms = Some (q, Sleeping))
      else \<exists>q'. block_queue_pop q ms = Some (q', Returned POP_SUCCESS (hd xs)) \<and>
           ll_rep (bq_nexts q') (bq_l q') (tl xs)"
  proof (cases xs)
    case Nil
    then show ?thesis using assms ll_rep_empty_iff [OF assms]
      by (simp add: block_queue_pop_def block_queue_pop_finish_def link_list_pop_empty)
  next
    case (Cons n ns)
    then show ?thesis
      using assms ll_rep_empty_iff [OF assms] link_list_pop_rep [of "bq_nexts q" "bq_l q" n ns]
      by (auto simp: block_queue_pop_def block_queue_pop_finish_def)
  qed
  show "ms \<le> 0 \<or> \<not> timedout \<longrightarrow>
      block_queue_pop_resume (block_queue_force_wakeup q) ms timedout =
        Some (q\<lparr>force_wakeup := 0\<rparr>, Returned POP_FORCE_WAKE_UP NULL)"
    by (auto simp: block_queue_pop_resume_def block_queue_force_wakeup_def block_queue_pop_finish_def)
qed

theorem block_queue_pop_results_witness:
  "block_queue_pop (create_block_queue Map.empty) 0 =
     Some (create_block_queue Map.empty, Returned POP_SUCCESS NULL)"
  using block_queue_pop_results [of "create_block_queue Map.empty" "[]"]
  by (simp add: create_block_queue_def ll_rep_create)

end
