(* ===== verification/Buffer.thy ===== *)
theory Buffer
  imports Prelude
begin

text \<open>
  Reference counted buffers (\<open>src/refbase.c\<close>, \<open>src/buffer.c\<close>). The store maps the address of a
  live buffer to its header and bytes. \<open>calloc\<close> hands out an address never used before as long as
  the \<open>quota\<close> of the store lasts and \<open>NULL\<close> afterwards, so that running out of memory is part of
  the model. The main result is that counting is exact: under \<open>rc_inv\<close> every live buffer has as
  many references as there are owners and \<open>next\<close> fields pointing to it, and acquiring and
  releasing keep this, so a buffer is freed exactly when its last owner lets it go.
\<close>

section \<open>The store\<close>

record refbase =
  refcount :: int
  mt :: u8

record buffer = refbase +
  capacity :: u32
  bsize :: u32
  bnext :: addr
  bbuf :: "byte list"

record bstore =
  cells :: "addr \<rightharpoonup> buffer"
  fresh :: addr
  quota :: nat

text \<open>Dereferencing \<open>NULL\<close> or a freed address is undefined.\<close>

definition buf_at :: "bstore \<Rightarrow> addr \<Rightarrow> buffer option" where
  "buf_at st a = (if a = NULL then None else cells st a)"

definition set_cell :: "bstore \<Rightarrow> addr \<Rightarrow> buffer option \<Rightarrow> bstore" where
  "set_cell st a v = st\<lparr>cells := (cells st)(a := v)\<rparr>"

definition put_buf :: "bstore \<Rightarrow> addr \<Rightarrow> buffer \<Rightarrow> bstore" where
  "put_buf st a c = set_cell st a (Some c)"

definition free_buf :: "bstore \<Rightarrow> addr \<Rightarrow> bstore" where
  "free_buf st a = set_cell st a None"

definition set_next :: "bstore \<Rightarrow> addr \<Rightarrow> addr \<Rightarrow> bstore option" where
  "set_next st a b = do { c \<leftarrow> buf_at st a; Some (put_buf st a (c\<lparr>bnext := b\<rparr>)) }"

definition set_size :: "bstore \<Rightarrow> addr \<Rightarrow> u32 \<Rightarrow> bstore option" where
  "set_size st a n = do { c \<leftarrow> buf_at st a; Some (put_buf st a (c\<lparr>bsize := n\<rparr>)) }"

text \<open>\<open>memcpy\<close> into and out of the byte array of a buffer.\<close>

definition splice :: "'a list \<Rightarrow> nat \<Rightarrow> 'a list \<Rightarrow> 'a list" where
  "splice xs p ys = take p xs @ ys @ drop (p + length ys) xs"

definition memcpy_to :: "bstore \<Rightarrow> addr \<Rightarrow> u32 \<Rightarrow> byte list \<Rightarrow> bstore option" where
  "memcpy_to st a pos bs = do {
     c \<leftarrow> buf_at st a;
     assert_c (unat pos + length bs \<le> length (bbuf c));
     Some (put_buf st a (c\<lparr>bbuf := splice (bbuf c) (unat pos) bs\<rparr>)) }"

definition memcpy_from :: "bstore \<Rightarrow> addr \<Rightarrow> u32 \<Rightarrow> u32 \<Rightarrow> byte list option" where
  "memcpy_from st a pos n = do {
     c \<leftarrow> buf_at st a;
     assert_c (unat pos + unat n \<le> length (bbuf c));
     Some (take (unat n) (drop (unat pos) (bbuf c))) }"

section \<open>Reference counts\<close>

text \<open>
  With \<open>mt\<close> set the count changes by an atomic instruction, which wraps; otherwise by \<open>++\<close> and
  \<open>--\<close>, whose overflow is undefined. The second component of \<open>ref_decrease\<close> says whether the
  destroyer is called; the destroyer of a buffer is never null.
\<close>

definition ref_increase :: "'a refbase_scheme \<Rightarrow> 'a refbase_scheme option" where
  "ref_increase r =
     (if mt r \<noteq> 0 then Some (r\<lparr>refcount := signed_take_bit 31 (refcount r + 1)\<rparr>)
      else do { n \<leftarrow> i32 (refcount r + 1); Some (r\<lparr>refcount := n\<rparr>) })"

definition ref_decrease :: "'a refbase_scheme \<Rightarrow> ('a refbase_scheme \<times> bool) option" where
  "ref_decrease r =
     (if mt r \<noteq> 0 then
        let n = signed_take_bit 31 (refcount r - 1) in Some (r\<lparr>refcount := n\<rparr>, n \<le> 0)
      else do { n \<leftarrow> i32 (refcount r - 1); Some (r\<lparr>refcount := n\<rparr>, n \<le> 0) })"

text \<open>
  \<open>buffer_release\<close> and \<open>buffer_destroy\<close> call each other; the first is written with the second as
  an argument to tie the knot. The pointer that is released is set to 0 by the caller.
\<close>

definition release_with :: "(bstore \<Rightarrow> addr \<Rightarrow> bstore option) \<Rightarrow> bstore \<Rightarrow> addr \<Rightarrow> bstore option" where
  "release_with destroyer st b =
     (if b = NULL then Some st
      else do {
        c \<leftarrow> buf_at st b;
        (c', dead) \<leftarrow> ref_decrease c;
        (if dead then destroyer (put_buf st b c') b else Some (put_buf st b c')) })"

lemma release_with_mono [partial_function_mono]:
  "monotone (fun_ord option_ord) option_ord (\<lambda>f. release_with (\<lambda>st b. f (st, b)) st b)"
  unfolding release_with_def
  by (intro partial_function_mono) (auto split: prod.split intro!: partial_function_mono)

partial_function (option) buffer_destroy :: "bstore \<Rightarrow> addr \<Rightarrow> bstore option" where
  [code]: "buffer_destroy st b = do {
     c \<leftarrow> buf_at st b;
     st1 \<leftarrow> (if bnext c \<noteq> NULL
            then do { st' \<leftarrow> release_with (\<lambda>st b. buffer_destroy st b) st (bnext c); set_next st' b NULL }
            else Some st);
     Some (free_buf st1 b) }"

definition buffer_release :: "bstore \<Rightarrow> addr \<Rightarrow> bstore option" where
  "buffer_release st b = release_with buffer_destroy st b"

text \<open>The size of \<open>struct buffer\<close> on a 64-bit machine; the sum of sizes is 32 bits wide.\<close>

abbreviation SIZEOF_BUFFER :: nat where "SIZEOF_BUFFER \<equiv> 32"

definition buffer_create :: "bstore \<Rightarrow> u8 \<Rightarrow> u32 \<Rightarrow> (bstore \<times> addr) option" where
  "buffer_create st m cap =
     (if quota st = 0 then Some (st, NULL)
      else if 2 ^ 32 \<le> SIZEOF_BUFFER + unat cap then None
      else
        let c = \<lparr>refcount = 0, mt = m, capacity = cap, bsize = 0, bnext = NULL,
                 bbuf = replicate (unat cap) 0\<rparr>
        in Some (\<lparr>cells = (cells st)(fresh st \<mapsto> c), fresh = Suc (fresh st), quota = quota st - 1\<rparr>,
                 fresh st))"

definition buffer_acquire :: "bstore \<Rightarrow> addr \<Rightarrow> addr \<Rightarrow> (bstore \<times> addr) option" where
  "buffer_acquire st b1 b2 =
     (if b1 = b2 then Some (st, b1)
      else do {
        st1 \<leftarrow> (if b2 \<noteq> NULL
               then do { c \<leftarrow> buf_at st b2; c' \<leftarrow> ref_increase c; Some (put_buf st b2 c') }
               else Some st);
        st2 \<leftarrow> (if b1 \<noteq> NULL then buffer_release st1 b1 else Some st1);
        Some (st2, b2) })"

definition buffer_create_and_acquire :: "bstore \<Rightarrow> u8 \<Rightarrow> addr \<Rightarrow> u32 \<Rightarrow> (bstore \<times> addr) option" where
  "buffer_create_and_acquire st m b cap = do {
     (st1, nb) \<leftarrow> buffer_create st m cap;
     buffer_acquire st1 b nb }"

text \<open>The bytes copied so far are an accumulator; the result is the code and the bytes written.\<close>

partial_function (option) buffer_read_loop ::
    "bstore \<Rightarrow> addr \<Rightarrow> u32 \<Rightarrow> byte list \<Rightarrow> u32 \<Rightarrow> (int \<times> byte list) option" where
  [code]: "buffer_read_loop st b pos out n =
     (if n = 0 then Some (0, out)
      else if b = NULL then Some (-1, out)
      else do {
        c \<leftarrow> buf_at st b;
        let copy_size = (if bsize c - pos > n then n else bsize c - pos) in do {
          bs \<leftarrow> memcpy_from st b pos copy_size;
          (if pos + copy_size \<ge> bsize c
           then buffer_read_loop st (bnext c) 0 (out @ bs) (n - copy_size)
           else buffer_read_loop st b (pos + copy_size) (out @ bs) (n - copy_size)) } })"

definition buffer_read :: "bstore \<Rightarrow> addr \<Rightarrow> u32 \<Rightarrow> u32 \<Rightarrow> (int \<times> byte list) option" where
  "buffer_read st b pos n = buffer_read_loop st b pos [] n"


section \<open>Exact counting\<close>

definition bnexts :: "bstore \<Rightarrow> nexts" where
  "bnexts st a = map_option bnext (cells st a)"

definition preds :: "bstore \<Rightarrow> addr \<Rightarrow> addr set" where
  "preds st a = {b. bnexts st b = Some a}"

definition buf_ok :: "buffer \<Rightarrow> bool" where
  "buf_ok c \<longleftrightarrow> length (bbuf c) = unat (capacity c) \<and> bsize c \<le> capacity c \<and>
     1 \<le> refcount c \<and> refcount c \<le> INT32_MAX"

text \<open>
  \<open>R\<close> lists, with multiplicity, the references held outside the store: the \<open>buf\<close>, \<open>writebuf\<close>,
  \<open>readbuf\<close> and \<open>binbuf\<close> fields of the packets and the buffers of the connections.
\<close>

definition rc_inv :: "bstore \<Rightarrow> addr multiset \<Rightarrow> bool" where
  "rc_inv st R \<longleftrightarrow> finite (dom (cells st)) \<and> cells st NULL = None \<and> 0 < fresh st \<and>
     (\<forall>a \<ge> fresh st. cells st a = None) \<and>
     (\<forall>a \<in># R. cells st a \<noteq> None) \<and>
     (\<forall>a c. cells st a = Some c \<longrightarrow> buf_ok c \<and> (\<exists>as. chain (bnexts st) a as NULL) \<and>
        refcount c = int (count R a + card (preds st a)))"

lemma buf_at_Some: "buf_at st a = Some c \<longleftrightarrow> a \<noteq> NULL \<and> cells st a = Some c"
  by (simp add: buf_at_def)

lemma cells_put_buf [simp]: "cells (put_buf st a c) = (cells st)(a \<mapsto> c)"
  "fresh (put_buf st a c) = fresh st" "quota (put_buf st a c) = quota st"
  by (simp_all add: put_buf_def set_cell_def)

lemma cells_set_cell [simp]: "cells (set_cell st a v) = (cells st)(a := v)"
  "fresh (set_cell st a v) = fresh st" "quota (set_cell st a v) = quota st"
  by (simp_all add: set_cell_def)

lemma cells_free_buf [simp]: "cells (free_buf st a) = (cells st)(a := None)"
  "fresh (free_buf st a) = fresh st" "quota (free_buf st a) = quota st"
  by (simp_all add: free_buf_def set_cell_def)

lemma put_buf_put_buf [simp]:
  "put_buf (put_buf st a c) a d = put_buf st a d"
  "free_buf (put_buf st a c) a = free_buf st a"
  by (simp_all add: put_buf_def free_buf_def set_cell_def)

lemma set_cell_twice: "set_cell (set_cell st a v) a w = set_cell st a w"
  by (simp add: set_cell_def)

lemma set_cell_commute:
  "a \<noteq> b \<Longrightarrow> put_buf (set_cell st a v) b d = set_cell (put_buf st b d) a v"
  "a \<noteq> b \<Longrightarrow> free_buf (set_cell st a v) b = set_cell (free_buf st b) a v"
  by (simp_all add: put_buf_def free_buf_def set_cell_def fun_upd_twist)

lemma buf_at_upd [simp]:
  "buf_at (put_buf st a c) b = (if b = NULL then None else if b = a then Some c else cells st b)"
  "buf_at (free_buf st a) b = (if b = NULL \<or> b = a then None else cells st b)"
  "buf_at (set_cell st a v) b = (if b = NULL then None else if b = a then v else cells st b)"
  by (auto simp: buf_at_def)

lemma bnexts_put_buf [simp]: "bnexts (put_buf st a c) = (bnexts st)(a \<mapsto> bnext c)"
  by (auto simp: bnexts_def fun_eq_iff)

lemma bnexts_free_buf [simp]: "bnexts (free_buf st a) = (bnexts st)(a := None)"
  by (auto simp: bnexts_def fun_eq_iff)

lemma bnexts_eq_Some: "bnexts st a = Some b \<longleftrightarrow> (\<exists>c. cells st a = Some c \<and> bnext c = b)"
  by (auto simp: bnexts_def)

lemma bnexts_at: "cells st a = Some c \<Longrightarrow> bnexts st a = Some (bnext c)"
  by (simp add: bnexts_def)

lemma bnexts_put_same:
  "cells st a = Some c \<Longrightarrow> bnext c' = bnext c \<Longrightarrow> bnexts (put_buf st a c') = bnexts st"
  by (auto simp: bnexts_at fun_eq_iff)

lemma chain_bnexts_Cons [rep_simps]:
  "chain (bnexts st) p (a # as) q \<longleftrightarrow>
     p = a \<and> a \<noteq> NULL \<and> (\<exists>c. cells st a = Some c \<and> chain (bnexts st) (bnext c) as q)"
  by (auto simp: bnexts_at bnexts_eq_Some split: option.splits)

lemma chain_same [simp]: "h a = v \<Longrightarrow> chain (h(a := v)) p xs q = chain h p xs q"
  by (simp add: fun_upd_idem)

text \<open>Within the range of \<open>int32_t\<close> the two ways of counting agree.\<close>

lemma ref_decrease_range:
  assumes "1 \<le> refcount r" "refcount r \<le> INT32_MAX"
  shows "ref_decrease r = Some (r\<lparr>refcount := refcount r - 1\<rparr>, refcount r = 1)"
proof -
  have "signed_take_bit 31 (refcount r - 1) = refcount r - 1"
    using assms by (subst signed_take_bit_int_eq_self) auto
  with assms show ?thesis by (auto simp: ref_decrease_def)
qed

lemma ref_increase_range:
  assumes "0 \<le> refcount r" "refcount r < INT32_MAX"
  shows "ref_increase r = Some (r\<lparr>refcount := refcount r + 1\<rparr>)"
proof -
  have "signed_take_bit 31 (refcount r + 1) = refcount r + 1"
    using assms by (subst signed_take_bit_int_eq_self) auto
  with assms show ?thesis by (auto simp: ref_increase_def)
qed

text \<open>Destroying commutes with changes of a buffer that is not on the chain.\<close>

lemma buffer_destroy_frame:
  assumes "chain (bnexts st) b as NULL" "x \<notin> set as" "b \<noteq> NULL" "x \<noteq> NULL"
  shows "buffer_destroy (set_cell st x v) b = map_option (\<lambda>s. set_cell s x v) (buffer_destroy st b)"
  using assms
proof (induction as arbitrary: st b)
  case Nil
  then show ?case by simp
next
  case (Cons a as)
  then obtain d where d: "b = a" "a \<noteq> 0" "cells st a = Some d" "chain (bnexts st) (bnext d) as NULL"
    unfolding chain_bnexts_Cons by blast
  have xa: "x \<noteq> a" "a \<noteq> x" using Cons.prems by auto
  show ?case
  proof (cases "bnext d = NULL")
    case True
    with d xa show ?thesis
      by (subst (1 2) buffer_destroy.simps) (simp add: buf_at_def set_cell_commute)
  next
    case False
    then obtain n ns e where n: "as = n # ns" "bnext d = n" "n \<noteq> 0" "cells st n = Some e"
      using d(4) by (cases as) (auto simp add: chain_bnexts_Cons simp del: chain.simps(2))
    have na: "n \<noteq> a" "n \<noteq> x" "x \<noteq> n"
      using chain_distinct [OF Cons.prems(1)] n Cons.prems(2) by auto
    let ?st = "\<lambda>e'. put_buf st n e'"
    have IH: "buffer_destroy (set_cell (?st e') x v) n =
        map_option (\<lambda>s. set_cell s x v) (buffer_destroy (?st e') n)" if "bnext e' = bnext e" for e'
    proof (rule Cons.IH)
      show "chain (bnexts (?st e')) n as NULL"
        unfolding bnexts_put_same [OF n(4) that] using d(4) n(2) by simp
    qed (use n Cons.prems in auto)
    show ?thesis
    proof (cases "ref_decrease e")
      case None
      with d n na xa show ?thesis
        by (subst (1 2) buffer_destroy.simps) (simp add: buf_at_def release_with_def)
    next
      case (Some p)
      then obtain e' dead where e': "ref_decrease e = Some (e', dead)" by (cases p) auto
      then have be: "bnext e' = bnext e"
        by (auto simp: ref_decrease_def Let_def Option.bind_eq_Some_conv split: if_splits)
      have swap: "put_buf (set_cell st x v) n e' = set_cell (?st e') x v"
        using na by (simp add: set_cell_commute)
      show ?thesis
        using d n na xa e' IH [OF be]
        apply (subst (1 2) buffer_destroy.simps)
        apply (simp add: buf_at_def release_with_def swap)
        apply (cases "buffer_destroy (?st e') n")
         apply (auto simp: set_next_def buf_at_def set_cell_commute split: Option.bind_split)
        done
    qed
  qed
qed

lemma ref_decrease_bnext: "ref_decrease c = Some (c', d) \<Longrightarrow> bnext c' = bnext c"
  by (auto simp: ref_decrease_def Let_def Option.bind_eq_Some_conv split: if_splits)

lemma buffer_release_NULL [simp]: "buffer_release st NULL = Some st"
  by (simp add: buffer_release_def release_with_def)

lemma buffer_release_frame:
  assumes "chain (bnexts st) n ns NULL" "x \<notin> set ns" "x \<noteq> NULL"
  shows "buffer_release (set_cell st x v) n = map_option (\<lambda>s. set_cell s x v) (buffer_release st n)"
proof (cases "n = NULL")
  case True
  then show ?thesis by simp
next
  case False
  with assms(1) obtain ms c where n: "ns = n # ms" "cells st n = Some c"
    by (cases ns) (auto simp add: chain_bnexts_Cons simp del: chain.simps(2))
  have xn: "x \<noteq> n" using assms(2) n by auto
  show ?thesis
  proof (cases "ref_decrease c")
    case None
    with n False xn show ?thesis by (simp add: buffer_release_def release_with_def buf_at_def)
  next
    case (Some q)
    then obtain c' d where q: "ref_decrease c = Some (c', d)" by (cases q) auto
    have "chain (bnexts (put_buf st n c')) n ns NULL"
      using bnexts_put_same [OF n(2) ref_decrease_bnext [OF q]] assms(1) by simp
    from buffer_destroy_frame [OF this assms(2) False assms(3)] q n False xn show ?thesis
      by (simp add: buffer_release_def release_with_def buf_at_def set_cell_commute)
  qed
qed

text \<open>
  The destroyer releases the successor before it frees the buffer; on a null-terminated chain this
  is the same as freeing the buffer first.
\<close>

lemma buffer_release_law:
  assumes ch: "chain (bnexts st) b as NULL" and c: "cells st b = Some c" "b \<noteq> NULL" "buf_ok c"
  shows "buffer_release st b =
    (if refcount c = 1 then buffer_release (free_buf st b) (bnext c)
     else Some (put_buf st b (c\<lparr>refcount := refcount c - 1\<rparr>)))"
proof -
  define c' where "c' = c\<lparr>refcount := refcount c - 1\<rparr>"
  have dec: "ref_decrease c = Some (c', refcount c = 1)"
    using c(3) unfolding c'_def by (intro ref_decrease_range) (auto simp: buf_ok_def)
  obtain ns where ns: "as = b # ns" "chain (bnexts st) (bnext c) ns NULL"
    using ch c by (cases as) (auto simp add: chain_bnexts_Cons simp del: chain.simps(2))
  have bn: "b \<notin> set ns" using chain_distinct [OF ch] ns(1) by simp
  define r where "r = buffer_release (free_buf st b) (bnext c)"
  have "chain (bnexts (free_buf st b)) (bnext c) ns NULL" using ns(2) bn by simp
  note frame = buffer_release_frame [OF this bn c(2), folded r_def]
  have r1: "buffer_release (put_buf st b c') (bnext c) = map_option (\<lambda>s. set_cell s b (Some c')) r"
    using frame [of "Some c'"] by (simp add: put_buf_def free_buf_def set_cell_twice)
  have r2: "r = map_option (\<lambda>s. set_cell s b None) r"
    using frame [of None] by (simp add: free_buf_def set_cell_twice flip: r_def [unfolded free_buf_def])
  have "buffer_destroy (put_buf st b c') b = r"
  proof (cases "bnext c = NULL")
    case True
    then show ?thesis using c
      by (subst buffer_destroy.simps) (simp add: r_def c'_def put_buf_def free_buf_def set_cell_twice)
  next
    case False
    have "buffer_destroy (put_buf st b c') b = do {
        st' \<leftarrow> map_option (\<lambda>s. set_cell s b (Some c')) r; st'' \<leftarrow> set_next st' b NULL; Some (free_buf st'' b) }"
      using False c(2) r1
      by (subst buffer_destroy.simps) (simp add: buffer_release_def [symmetric] c'_def)
    also have "\<dots> = map_option (\<lambda>s. set_cell s b None) r"
      using c(2) by (cases r) (simp_all add: set_next_def put_buf_def free_buf_def set_cell_twice)
    finally show ?thesis using r2 by simp
  qed
  with dec c show ?thesis
    by (simp add: buffer_release_def [of st] release_with_def buf_at_def r_def flip: c'_def)
qed

lemma chain_pred: "chain h a as NULL \<Longrightarrow> b \<in> set as \<Longrightarrow> a \<noteq> b \<Longrightarrow> \<exists>x. h x = Some b"
proof (induction as arbitrary: a)
  case Nil
  then show ?case by simp
next
  case (Cons y ys)
  then obtain r where r: "a = y" "h y = Some r" "chain h r ys NULL" by (auto split: option.splits)
  with Cons show ?case by (cases "r = b") auto
qed

lemma rc_invD:
  assumes "rc_inv st R"
  shows "finite (dom (cells st))" "cells st NULL = None" "0 < fresh st" "cells st (fresh st) = None"
    "a \<in># R \<Longrightarrow> cells st a \<noteq> None"
    "cells st a = Some c \<Longrightarrow> buf_ok c"
    "cells st a = Some c \<Longrightarrow> \<exists>as. chain (bnexts st) a as NULL"
    "cells st a = Some c \<Longrightarrow> refcount c = int (count R a + card (preds st a))"
    "cells st a = Some c \<Longrightarrow> a \<noteq> NULL \<and> a < fresh st"
proof -
  have "a < fresh st" if "cells st a = Some c"
    using assms that unfolding rc_inv_def by (metis not_le option.distinct(1))
  moreover have "a \<noteq> NULL" if "cells st a = Some c"
    using assms that unfolding rc_inv_def by (metis option.distinct(1))
  ultimately show "cells st a = Some c \<Longrightarrow> a \<noteq> NULL \<and> a < fresh st" by simp
qed (use assms in \<open>auto simp: rc_inv_def\<close>)

lemma rc_inv_root: "rc_inv st R \<Longrightarrow> a \<in># R \<Longrightarrow> a \<noteq> NULL \<and> cells st a \<noteq> None"
  by (metis rc_invD(2,5))

lemma preds_finite: "rc_inv st R \<Longrightarrow> finite (preds st a)"
  by (rule finite_subset [OF _ rc_invD(1)]) (auto simp: preds_def bnexts_eq_Some)

lemma rc_inv_next:
  assumes "rc_inv st R" "cells st a = Some c" "bnext c \<noteq> NULL"
  shows "cells st (bnext c) \<noteq> None"
proof -
  obtain as where "chain (bnexts st) a as NULL" using rc_invD(7) [OF assms(1,2)] by blast
  with assms(2,3) rc_invD(2) [OF assms(1)] show ?thesis
    by (cases as; cases "tl as") (auto simp add: chain_bnexts_Cons simp del: chain.simps(2))
qed

lemma preds_upd:
  "preds (put_buf st x c) a = (if bnext c = a then insert x (preds st a) else preds st a - {x})"
  "preds (free_buf st x) a = preds st a - {x}"
  by (auto simp: preds_def)

lemma preds_put_same: "cells st a = Some c \<Longrightarrow> bnext c' = bnext c \<Longrightarrow> preds (put_buf st a c') = preds st"
  by (auto simp: preds_def bnexts_put_same fun_eq_iff simp del: bnexts_put_buf)

text \<open>Changing the count, size or bytes of a buffer.\<close>

lemma rc_inv_put:
  assumes inv: "rc_inv st R" and c: "cells st b = Some c" and c': "bnext c' = bnext c" "buf_ok c'"
    and R': "\<forall>x. x \<noteq> b \<longrightarrow> count R' x = count R x"
      "refcount c' = int (count R' b + card (preds st b))"
  shows "rc_inv (put_buf st b c') R'"
proof -
  have 1: "\<forall>a \<in># R'. cells (put_buf st b c') a \<noteq> None"
    using R'(1) rc_invD(5) [OF inv] by (metis cells_put_buf(1) count_inI fun_upd_apply not_in_iff option.distinct(1))
  have 2: "bnexts (put_buf st b c') = bnexts st" by (rule bnexts_put_same [OF c c'(1)])
  have "b \<noteq> NULL \<and> b < fresh st" using rc_invD(9) [OF inv c] .
  then show ?thesis
    unfolding rc_inv_def 2 preds_put_same [OF c c'(1)]
    using 1 inv R' c c'(2) by (auto simp: rc_inv_def)
qed

text \<open>Freeing a buffer with no other reference.\<close>

lemma rc_inv_free:
  assumes inv: "rc_inv st (add_mset b R)" and c: "cells st b = Some c" "refcount c = 1"
  shows "rc_inv (free_buf st b) (if bnext c = NULL then R else add_mset (bnext c) R)"
    (is "rc_inv _ ?R")
proof -
  have "count R b + card (preds st b) = 0" using rc_invD(8) [OF inv c(1)] c(2) by simp
  then have z: "count R b = 0" "preds st b = {}" using preds_finite [OF inv, of b] by auto
  then have nb: "bnext c \<noteq> b" using c(1) by (auto simp: preds_def bnexts_eq_Some)
  have mem: "\<forall>a \<in># ?R. cells (free_buf st b) a \<noteq> None"
    using z nb rc_invD(5) [OF inv] rc_inv_next [OF inv c(1)] by (auto simp: count_eq_zero_iff)
  have "buf_ok d \<and> (\<exists>as. chain (bnexts (free_buf st b)) a as NULL) \<and>
      refcount d = int (count ?R a + card (preds (free_buf st b) a))"
    if d: "cells (free_buf st b) a = Some d" for a d
  proof -
    have ab: "a \<noteq> b" "cells st a = Some d" using d by (auto split: if_splits)
    obtain as where as: "chain (bnexts st) a as NULL" using rc_invD(7) [OF inv ab(2)] by blast
    have "b \<notin> set as" using chain_pred [OF as _ ab(1)] z(2) by (auto simp: preds_def)
    then have "chain (bnexts (free_buf st b)) a as NULL" using as by simp
    moreover have "int (count ?R a + card (preds (free_buf st b) a)) =
        int (count (add_mset b R) a + card (preds st a))"
    proof (cases "bnext c = a")
      case True
      then have "b \<in> preds st a" using c(1) by (simp add: preds_def bnexts_at)
      then have "card (preds st a) = Suc (card (preds st a - {b}))"
        using preds_finite [OF inv] by (metis card_Suc_Diff1)
      with True ab rc_invD(9) [OF inv ab(2)] show ?thesis by (auto simp: preds_upd)
    next
      case False
      then have "b \<notin> preds st a" using c(1) by (simp add: preds_def bnexts_at)
      with False ab show ?thesis by (simp add: preds_upd)
    qed
    ultimately show ?thesis using rc_invD(6,8) [OF inv ab(2)] by auto
  qed
  with mem inv show ?thesis by (auto simp: rc_inv_def)
qed

definition same_bytes :: "bstore \<Rightarrow> bstore \<Rightarrow> bool" where
  "same_bytes st st' \<longleftrightarrow> (\<forall>a c'. cells st' a = Some c' \<longrightarrow>
     (\<exists>c. cells st a = Some c \<and> c' = c\<lparr>refcount := refcount c'\<rparr>))"

lemma buffer_release_inv:
  assumes "rc_inv st (add_mset b R)"
  shows "\<exists>st'. buffer_release st b = Some st' \<and> rc_inv st' R \<and> same_bytes st st' \<and>
    fresh st' = fresh st \<and> quota st' = quota st"
proof -
  obtain c where c: "cells st b = Some c" using rc_invD(5) [OF assms, of b] by auto
  obtain as where "chain (bnexts st) b as NULL" using rc_invD(7) [OF assms c] by blast
  then show ?thesis using assms
  proof (induction as arbitrary: st b)
    case Nil
    then show ?case using rc_invD(2) [OF Nil.prems(2)] rc_invD(5) [OF Nil.prems(2), of b] by simp
  next
    case (Cons a as)
    note inv = Cons.prems(2)
    obtain c where c: "cells st b = Some c" using rc_invD(5) [OF inv, of b] by auto
    have ok: "b \<noteq> NULL" "buf_ok c" using rc_invD(6,9) [OF inv c] by auto
    note law = buffer_release_law [OF Cons.prems(1) c ok]
    show ?case
    proof (cases "refcount c = 1")
      case one: True
      note free = rc_inv_free [OF inv c one]
      have sb: "same_bytes st s" if "same_bytes (free_buf st b) s" for s
        using that unfolding same_bytes_def cells_free_buf fun_upd_apply
        by (metis option.distinct(1))
      show ?thesis
      proof (cases "bnext c = NULL")
        case True
        then show ?thesis using law one free by (auto simp: same_bytes_def split: if_splits)
      next
        case False
        have "a = b" "chain (bnexts st) (bnext c) as NULL" "b \<notin> set as"
          using Cons.prems(1) c chain_distinct [OF Cons.prems(1)]
          by (auto simp add: chain_bnexts_Cons simp del: chain.simps(2))
        then have "chain (bnexts (free_buf st b)) (bnext c) as NULL" by simp
        from Cons.IH [OF this, simplified] free False law one sb show ?thesis by auto
      qed
    next
      case False
      have "rc_inv (put_buf st b (c\<lparr>refcount := refcount c - 1\<rparr>)) R"
        using ok False rc_invD(8) [OF inv c]
        by (intro rc_inv_put [OF inv c]) (auto simp: buf_ok_def)
      with law False c show ?thesis by (auto simp: same_bytes_def)
    qed
  qed
qed

text \<open>Taking a further reference, and moving a reference from one buffer to another.\<close>

lemma buffer_acquire_inv:
  assumes inv: "rc_inv st R" and c: "cells st b = Some c" "refcount c < INT32_MAX"
  shows "\<exists>st'. buffer_acquire st NULL b = Some (st', b) \<and> rc_inv st' (add_mset b R) \<and>
    st' = put_buf st b (c\<lparr>refcount := refcount c + 1\<rparr>)"
proof -
  have b: "b \<noteq> NULL" "buf_ok c" using rc_invD(6,9) [OF inv c(1)] by auto
  then have "ref_increase c = Some (c\<lparr>refcount := refcount c + 1\<rparr>)"
    using c(2) by (intro ref_increase_range) (auto simp: buf_ok_def)
  moreover have "rc_inv (put_buf st b (c\<lparr>refcount := refcount c + 1\<rparr>)) (add_mset b R)"
    using b c(2) rc_invD(8) [OF inv c(1)] by (intro rc_inv_put [OF inv c(1)]) (auto simp: buf_ok_def)
  ultimately show ?thesis using b c by (auto simp: buffer_acquire_def buf_at_def)
qed

lemma same_bytes_refl [simp]: "same_bytes st st"
  by (auto simp: same_bytes_def)

lemma same_bytes_trans: "same_bytes st1 st2 \<Longrightarrow> same_bytes st2 st3 \<Longrightarrow> same_bytes st1 st3"
  unfolding same_bytes_def
proof (intro allI impI)
  fix a c3
  assume 12: "\<forall>a c'. cells st2 a = Some c' \<longrightarrow> (\<exists>c. cells st1 a = Some c \<and> c' = c\<lparr>refcount := refcount c'\<rparr>)"
    and 23: "\<forall>a c'. cells st3 a = Some c' \<longrightarrow> (\<exists>c. cells st2 a = Some c \<and> c' = c\<lparr>refcount := refcount c'\<rparr>)"
    and c3: "cells st3 a = Some c3"
  from 23 c3 obtain c2 where c2: "cells st2 a = Some c2" "c3 = c2\<lparr>refcount := refcount c3\<rparr>" by blast
  from 12 c2(1) obtain c1 where c1: "cells st1 a = Some c1" "c2 = c1\<lparr>refcount := refcount c2\<rparr>" by blast
  have "c3 = c1\<lparr>refcount := refcount c3\<rparr>" by (subst c2(2), subst c1(2)) simp
  with c1(1) show "\<exists>c. cells st1 a = Some c \<and> c3 = c\<lparr>refcount := refcount c3\<rparr>" by blast
qed

lemma same_bytes_put: "cells st b = Some c \<Longrightarrow> same_bytes st (put_buf st b (c\<lparr>refcount := n\<rparr>))"
  by (auto simp: same_bytes_def)

lemma buffer_move_inv:
  assumes inv: "rc_inv st (add_mset b1 R)" and c: "cells st b2 = Some c" "refcount c < INT32_MAX"
  shows "\<exists>st'. buffer_acquire st b1 b2 = Some (st', b2) \<and> rc_inv st' (add_mset b2 R) \<and>
    same_bytes st st' \<and> fresh st' = fresh st \<and> quota st' = quota st"
proof (cases "b1 = b2")
  case True
  with inv show ?thesis by (simp add: buffer_acquire_def)
next
  case False
  let ?s = "put_buf st b2 (c\<lparr>refcount := refcount c + 1\<rparr>)"
  have nz: "b1 \<noteq> NULL" "b2 \<noteq> NULL"
    using rc_invD(9) [OF inv c(1)] rc_inv_root [OF inv, of b1] by simp_all
  obtain st1 where st1: "buffer_acquire st NULL b2 = Some (?s, b2)" "rc_inv ?s (add_mset b2 (add_mset b1 R))"
    using buffer_acquire_inv [OF inv c] by auto
  have "rc_inv ?s (add_mset b1 (add_mset b2 R))" using st1(2) by (simp add: add_mset_commute)
  from buffer_release_inv [OF this] obtain st2 where st2: "buffer_release ?s b1 = Some st2"
    "rc_inv st2 (add_mset b2 R)" "same_bytes ?s st2" "fresh st2 = fresh st" "quota st2 = quota st"
    by auto
  have "buffer_acquire st b1 b2 = Some (st2, b2)"
    using False nz st1(1) st2(1) by (auto simp: buffer_acquire_def split: Option.bind_splits)
  with st2 same_bytes_trans [OF same_bytes_put [OF c(1)] st2(3)] show ?thesis by blast
qed

definition new_buffer :: "u8 \<Rightarrow> u32 \<Rightarrow> buffer" where
  "new_buffer m cap = \<lparr>refcount = 1, mt = m, capacity = cap, bsize = 0, bnext = NULL,
     bbuf = replicate (unat cap) 0\<rparr>"

definition grown :: "bstore \<Rightarrow> u8 \<Rightarrow> u32 \<Rightarrow> bstore" where
  "grown st m cap = st\<lparr>cells := (cells st)(fresh st \<mapsto> new_buffer m cap),
     fresh := Suc (fresh st), quota := quota st - 1\<rparr>"

lemma buffer_create_and_acquire_eq:
  assumes "0 < fresh st"
  shows "buffer_create_and_acquire st m NULL cap =
    (if quota st = 0 then Some (st, NULL) else if 2 ^ 32 \<le> SIZEOF_BUFFER + unat cap then None
     else Some (grown st m cap, fresh st))"
  using assms
  by (simp add: buffer_create_and_acquire_def buffer_create_def buffer_acquire_def grown_def
      new_buffer_def buf_at_def ref_increase_def put_buf_def set_cell_def)

lemma grown_inv:
  assumes inv: "rc_inv st R"
  shows "rc_inv (grown st m cap) (add_mset (fresh st) R)"
proof -
  let ?f = "fresh st"
  have f: "cells st ?f = None" "?f \<noteq> NULL" using rc_invD(3,4) [OF inv] by auto
  have nx: "bnexts (grown st m cap) = (bnexts st)(?f \<mapsto> NULL)"
    by (auto simp: bnexts_def grown_def new_buffer_def fun_eq_iff)
  have np: "preds st ?f = {}"
    using f rc_inv_next [OF inv] by (fastforce simp: preds_def bnexts_eq_Some)
  have pr: "preds (grown st m cap) a = preds st a" if "a \<noteq> NULL" for a
    using that f by (auto simp: preds_def nx bnexts_eq_Some)
  have R: "count R ?f = 0" using f rc_invD(5) [OF inv, of ?f] by (auto simp: not_in_iff [symmetric])
  have "buf_ok d \<and> (\<exists>as. chain (bnexts (grown st m cap)) a as NULL) \<and>
      refcount d = int (count (add_mset ?f R) a + card (preds (grown st m cap) a))"
    if d: "cells (grown st m cap) a = Some d" for a d
  proof (cases "a = ?f")
    case True
    have "chain (bnexts (grown st m cap)) a [a] NULL" using True f nx by simp
    moreover have "d = new_buffer m cap" using d True by (simp add: grown_def)
    then have "buf_ok d \<and> refcount d = int (count (add_mset ?f R) a + card (preds (grown st m cap) a))"
      using True f pr [of a] np R by (simp add: buf_ok_def new_buffer_def)
    ultimately show ?thesis by blast
  next
    case False
    then have d': "cells st a = Some d" using d by (simp add: grown_def)
    obtain as where as: "chain (bnexts st) a as NULL" using rc_invD(7) [OF inv d'] by blast
    have "?f \<notin> set as" using chain_dom [OF as, of ?f] f by (auto simp: bnexts_eq_Some)
    then have "chain (bnexts (grown st m cap)) a as NULL" using as nx by simp
    then show ?thesis using rc_invD(6,8,9) [OF inv d'] False pr [of a] by auto
  qed
  moreover have "\<forall>a \<in># add_mset ?f R. cells (grown st m cap) a \<noteq> None"
    using rc_invD(5) [OF inv] by (auto simp: grown_def)
  moreover have "cells (grown st m cap) NULL = None" "\<forall>a \<ge> fresh (grown st m cap). cells (grown st m cap) a = None"
    using f inv by (auto simp: grown_def rc_inv_def)
  ultimately show ?thesis
    unfolding rc_inv_def using rc_invD(1) [OF inv] by (auto simp: grown_def)
qed

text \<open>Storing an owned reference in the \<open>next\<close> field of a buffer that had none.\<close>

lemma rc_inv_link:
  assumes inv: "rc_inv st (add_mset b R)" and c: "cells st a = Some c" "bnext c = NULL"
    and ab: "chain (bnexts st) b bs NULL" "a \<notin> set bs"
  shows "rc_inv (put_buf st a (c\<lparr>bnext := b\<rparr>)) R"
proof -
  let ?s = "put_buf st a (c\<lparr>bnext := b\<rparr>)"
  have a: "a \<noteq> NULL" "b \<noteq> NULL" "cells st b \<noteq> None"
    using rc_invD(9) [OF inv c(1)] rc_inv_root [OF inv, of b] by simp_all
  have nx: "bnexts ?s = (bnexts st)(a \<mapsto> b)" by simp
  have "buf_ok d \<and> (\<exists>as. chain (bnexts ?s) x as NULL) \<and>
      refcount d = int (count R x + card (preds ?s x))"
    if d: "cells ?s x = Some d" for x d
  proof -
    obtain d' where d': "cells st x = Some d'" "buf_ok d = buf_ok d'" "refcount d = refcount d'"
      using d c by (auto simp: buf_ok_def split: if_splits)
    obtain as where as: "chain (bnexts st) x as NULL" using rc_invD(7) [OF inv d'(1)] by blast
    have ch: "\<exists>as. chain (bnexts ?s) x as NULL"
    proof (cases "a \<in> set as")
      case True
      then obtain us vs where sp: "as = us @ a # vs" by (auto simp: in_set_conv_decomp)
      have "a \<notin> set us" using chain_distinct [OF as] sp by simp
      moreover have "chain (bnexts st) x us a" using as sp by (auto simp: chain_append split: option.splits)
      ultimately have "chain (bnexts ?s) x (us @ a # bs) NULL"
        using a ab by (auto simp: chain_append)
      then show ?thesis by blast
    next
      case False
      then have "chain (bnexts ?s) x as NULL" using as by simp
      then show ?thesis by blast
    qed
    have "a \<notin> preds st x" using c rc_invD(9) [OF inv d'(1)] by (simp add: preds_def bnexts_at)
    then have "count R x + card (preds ?s x) = count (add_mset b R) x + card (preds st x)"
      using preds_finite [OF inv, of x] by (simp add: preds_upd)
    then show ?thesis using rc_invD(6,8) [OF inv d'(1)] d' ch by simp
  qed
  moreover have "\<forall>x \<in># R. cells ?s x \<noteq> None" using rc_invD(5) [OF inv] by auto
  moreover have "finite (dom (cells ?s)) \<and> cells ?s NULL = None \<and> (\<forall>x \<ge> fresh ?s. cells ?s x = None)"
    using inv a(1) rc_invD(9) [OF inv c(1)] by (simp add: rc_inv_def)
  ultimately show ?thesis
    unfolding rc_inv_def using rc_invD(3) [OF inv] by simp
qed

section \<open>Reading a chain of buffers\<close>

definition bytes_of :: "buffer \<Rightarrow> byte list" where
  "bytes_of c = take (unat (bsize c)) (bbuf c)"

definition contents :: "bstore \<Rightarrow> addr list \<Rightarrow> byte list" where
  "contents st as = concat (map (\<lambda>a. case cells st a of None \<Rightarrow> [] | Some c \<Rightarrow> bytes_of c) as)"

lemma contents_simps [simp]:
  "contents st [] = []"
  "contents st (as @ bs) = contents st as @ contents st bs"
  by (simp_all add: contents_def)

lemma contents_Cons: "contents st (a # as) = (case cells st a of None \<Rightarrow> [] | Some c \<Rightarrow> bytes_of c) @ contents st as"
  by (simp add: contents_def)

lemma length_bytes_of: "buf_ok c \<Longrightarrow> length (bytes_of c) = unat (bsize c)"
  by (simp add: bytes_of_def buf_ok_def word_le_nat_alt)

text \<open>One \<open>memcpy\<close> of at most the unread part of a buffer.\<close>

lemma memcpy_from_ok:
  assumes "cells st a = Some c" "a \<noteq> NULL" "buf_ok c" "unat pos + unat n \<le> unat (bsize c)"
  shows "memcpy_from st a pos n = Some (take (unat n) (drop (unat pos) (bytes_of c)))"
proof -
  have "unat (bsize c) \<le> length (bbuf c)" using assms(3) by (simp add: buf_ok_def word_le_nat_alt)
  with assms show ?thesis
    by (simp add: memcpy_from_def buf_at_def bytes_of_def drop_take min_def)
qed

lemma buffer_read_loop_law:
  assumes "chain (bnexts st) b as NULL" "\<forall>a \<in> set as. \<forall>c. cells st a = Some c \<longrightarrow> buf_ok c"
    "as \<noteq> [] \<Longrightarrow> unat pos \<le> unat (bsize (the (cells st b)))" "as = [] \<Longrightarrow> pos = 0"
  shows "buffer_read_loop st b pos out n =
    (let rest = drop (unat pos) (contents st as)
     in Some (if unat n \<le> length rest then 0 else -1, out @ take (unat n) rest))"
  using assms
proof (induction as arbitrary: b pos out n)
  case Nil
  then show ?case by (subst buffer_read_loop.simps) (simp add: unat_eq_zero)
next
  case (Cons a as)
  obtain c where c: "b = a" "a \<noteq> NULL" "cells st a = Some c" "chain (bnexts st) (bnext c) as NULL"
    using Cons.prems(1) unfolding chain_bnexts_Cons by blast
  have ok: "buf_ok c" using Cons.prems(2) c by auto
  have pos: "unat pos \<le> unat (bsize c)" using Cons.prems(3) c by simp
  define rest where "rest = drop (unat pos) (bytes_of c)"
  have len: "length rest = unat (bsize c) - unat pos" using length_bytes_of [OF ok] by (simp add: rest_def)
  have dr: "drop (unat pos) (contents st (a # as)) = rest @ contents st as"
    using c(3) pos length_bytes_of [OF ok] by (simp add: contents_Cons rest_def)
  have sub: "unat (bsize c - pos) = length rest"
    using unat_sub_le [of pos "bsize c"] pos len by (simp add: word_le_nat_alt)
  show ?case
  proof (cases "n = 0")
    case True
    then show ?thesis by (subst buffer_read_loop.simps) (simp add: Let_def)
  next
    case n: False
    show ?thesis
    proof (cases "unat n < length rest")
      case True
      have gt: "bsize c - pos > n" using True sub by (simp add: word_less_nat_alt)
      have cp: "memcpy_from st a pos n = Some (take (unat n) rest)"
        using memcpy_from_ok [OF c(3,2) ok, of pos n] True len rest_def by simp
      have sm: "unat (pos + n) = unat pos + unat n"
        using True len by (intro unat_add_le [where c="bsize c"]) simp
      then have "\<not> pos + n \<ge> bsize c" using True len pos by (simp add: word_le_nat_alt)
      then have "buffer_read_loop st b pos out n = buffer_read_loop st a (pos + n) (out @ take (unat n) rest) 0"
        using n c gt cp by (subst buffer_read_loop.simps) (simp add: buf_at_def Let_def)
      also have "\<dots> = Some (0, out @ take (unat n) rest)" by (subst buffer_read_loop.simps) simp
      finally show ?thesis using True dr by (simp add: Let_def)
    next
      case False
      have le: "\<not> bsize c - pos > n" using False sub by (simp add: word_less_nat_alt)
      have cp: "memcpy_from st a pos (bsize c - pos) = Some rest"
        using memcpy_from_ok [OF c(3,2) ok, of pos "bsize c - pos"] sub len pos rest_def by simp
      have left: "unat (n - (bsize c - pos)) = unat n - length rest"
        using False sub unat_sub_le [of "bsize c - pos" n] by (simp add: word_le_nat_alt)
      have "buffer_read_loop st b pos out n =
          buffer_read_loop st (bnext c) 0 (out @ rest) (n - (bsize c - pos))"
        using n c le cp by (subst buffer_read_loop.simps) (simp add: buf_at_def Let_def)
      also have "\<dots> = (let r = drop (unat (0::u32)) (contents st as) in
          Some (if unat (n - (bsize c - pos)) \<le> length r then 0 else -1,
            (out @ rest) @ take (unat (n - (bsize c - pos))) r))"
        using c(4) Cons.prems(2) by (intro Cons.IH) simp_all
      finally show ?thesis using dr left False by (auto simp: Let_def)
    qed
  qed
qed

section \<open>Properties\<close>

lemma rc_inv_chain:
  assumes "rc_inv st R" "cells st b = Some c"
  shows "\<exists>as. chain (bnexts st) b as NULL \<and> (\<forall>a \<in> set as. \<forall>c. cells st a = Some c \<longrightarrow> buf_ok c)"
  using rc_invD(6,7) [OF assms(1)] assms(2) by blast

text \<open>A store without outside references is empty: a longest chain would start at a buffer nobody
  points to.\<close>

lemma rc_inv_no_roots:
  assumes "rc_inv st {#}"
  shows "cells st = Map.empty"
proof (rule ccontr)
  assume ne: "cells st \<noteq> Map.empty"
  define len where "len a = length (SOME as. chain (bnexts st) a as NULL)" for a
  have len_eq: "len a = length as" if "chain (bnexts st) a as NULL" for a as
    using someI [of "\<lambda>as. chain (bnexts st) a as NULL", OF that] chain_functional [OF _ that] that
    by (simp add: len_def)
  have fin: "finite (dom (cells st))" and nd: "dom (cells st) \<noteq> {}" using rc_invD(1) [OF assms] ne by auto
  have "Max (len ` dom (cells st)) \<in> len ` dom (cells st)" using fin nd by (intro Max_in) auto
  then obtain a where a: "a \<in> dom (cells st)" "len a = Max (len ` dom (cells st))"
    by (metis imageE)
  then obtain c where c: "cells st a = Some c" by auto
  have "preds st a \<noteq> {}"
    using rc_invD(6,8) [OF assms c] by (auto simp: buf_ok_def)
  then obtain b d where b: "cells st b = Some d" "bnext d = a" by (auto simp: preds_def bnexts_eq_Some)
  obtain as where "chain (bnexts st) a as NULL" using rc_invD(7) [OF assms c] by blast
  moreover from this have "chain (bnexts st) b (b # as) NULL"
    using b rc_invD(9) [OF assms b(1)] by (auto simp add: chain_bnexts_Cons simp del: chain.simps(2))
  ultimately have "len b = Suc (len a)"
    using len_eq [of a as] len_eq [of b "b # as"] by simp
  moreover have "len b \<le> len a" unfolding a(2) using fin b(1) by (intro Max_ge) auto
  ultimately show False by simp
qed

definition empty_store :: "nat \<Rightarrow> bstore" where
  "empty_store q = \<lparr>cells = Map.empty, fresh = 1, quota = q\<rparr>"

lemma rc_inv_empty_store: "rc_inv (empty_store q) {#}"
  by (simp add: rc_inv_def empty_store_def)

text \<open>
  Claim C5. Reference counting is exact: if every live buffer is counted once per owner and per
  \<open>next\<close> field pointing to it, then giving up one reference with \<open>buffer_release\<close> terminates
  without touching freed memory, keeps the counts exact for the remaining owners, changes no byte,
  size or link of a surviving buffer, and frees everything once the last owner is gone.
\<close>

theorem buffer_release_exact:
  assumes "rc_inv st (add_mset b R)"
  shows "\<exists>st'. buffer_release st b = Some st' \<and> rc_inv st' R \<and> same_bytes st st' \<and>
    (R = {#} \<longrightarrow> cells st' = Map.empty)"
proof -
  obtain st' where "buffer_release st b = Some st'" "rc_inv st' R" "same_bytes st st'"
    using buffer_release_inv [OF assms] by blast
  then show ?thesis using rc_inv_no_roots [of st'] by (intro exI [of _ st']) auto
qed

theorem buffer_release_exact_witness:
  "\<exists>st'. buffer_release (grown (empty_store 4) 0 8) 1 = Some st' \<and> cells st' = Map.empty"
proof -
  have "rc_inv (grown (empty_store 4) 0 8) (add_mset 1 {#})"
    using grown_inv [OF rc_inv_empty_store, of 4 0 8] by (simp add: empty_store_def)
  from buffer_release_exact [OF this] show ?thesis by auto
qed

text \<open>
  Claim C16. \<open>buffer_read\<close> crosses buffer boundaries: it delivers exactly the requested number of
  bytes of the concatenated contents from the given position on and returns 0, or everything that
  is there and returns -1 when the chain is too short.
\<close>

theorem buffer_read_correct:
  assumes "rc_inv st R" "cells st b = Some c" "pos \<le> bsize c"
  shows "\<exists>as. chain (bnexts st) b as NULL \<and>
    buffer_read st b pos n =
      Some (if unat n \<le> length (contents st as) - unat pos then 0 else -1,
            take (unat n) (drop (unat pos) (contents st as)))"
proof -
  obtain as where as: "chain (bnexts st) b as NULL" "\<forall>a \<in> set as. \<forall>c. cells st a = Some c \<longrightarrow> buf_ok c"
    using rc_inv_chain [OF assms(1,2)] by blast
  have "b \<noteq> NULL" using rc_invD(9) [OF assms(1,2)] by simp
  then have "as \<noteq> []" using as(1) by auto
  then have "buffer_read_loop st b pos [] n =
    (let rest = drop (unat pos) (contents st as)
     in Some (if unat n \<le> length rest then 0 else -1, [] @ take (unat n) rest))"
    using assms by (intro buffer_read_loop_law [OF as]) (auto simp: word_le_nat_alt)
  with as(1) show ?thesis by (auto simp: buffer_read_def Let_def)
qed

theorem buffer_read_correct_witness:
  "\<exists>as. chain (bnexts (grown (empty_store 4) 0 8)) 1 as NULL \<and>
    buffer_read (grown (empty_store 4) 0 8) 1 0 3 =
      Some (if 3 \<le> length (contents (grown (empty_store 4) 0 8) as) then 0 else -1,
        take 3 (contents (grown (empty_store 4) 0 8) as))"
  using buffer_read_correct [OF grown_inv [OF rc_inv_empty_store, of 4 0 8], of 1 "new_buffer 0 8" 0 3]
  by (auto simp: grown_def empty_store_def new_buffer_def)

end
