(* ===== verification/Wpacket.thy ===== *)
theory Wpacket
  imports Buffer
begin

text \<open>
  Packets under construction (\<open>src/wpacket.c\<close>): a chain of buffers that grows at its end by
  buffers of doubled size, preceded, unless the packet is raw, by a 32-bit length field that is
  kept up to date by every write. The packet header itself is a value; its allocation, its list
  link, its allocator and the send-finish callback are not part of it.
\<close>

section \<open>Little-endian encoding of integers\<close>

text \<open>The bytes of an integer in memory on the x86 machines the library is built for.\<close>

fun le_bytes :: "nat \<Rightarrow> nat \<Rightarrow> byte list" where
  "le_bytes 0 x = []"
| "le_bytes (Suc n) x = word_of_nat x # le_bytes n (x div 256)"

fun le_val :: "byte list \<Rightarrow> nat" where
  "le_val [] = 0"
| "le_val (b # bs) = unat b + 256 * le_val bs"

lemma length_le_bytes [simp]: "length (le_bytes n x) = n"
  by (induction n arbitrary: x) auto

lemma le_val_bytes: "le_val (le_bytes n x) = x mod 256 ^ n"
proof (induction n arbitrary: x)
  case 0
  then show ?case by simp
next
  case (Suc n)
  have "le_val (le_bytes (Suc n) x) = x mod 256 + 256 * (x div 256 mod 256 ^ n)"
    using Suc by (simp add: unat_of_nat)
  then show ?case by (simp add: mod_mult2_eq)
qed

lemma le_bytes_zero: "le_bytes n 0 = replicate n 0"
  by (induction n) auto

lemma le_val_less: "le_val bs < 256 ^ length bs"
proof (induction bs)
  case Nil
  then show ?case by simp
next
  case (Cons b bs)
  have "unat b < 256" using unat_less_pow [of b] by simp
  with Cons show ?case by simp
qed

text \<open>Reading and writing the \<open>uint32_t\<close> at the start of a buffer.\<close>

definition load32 :: "bstore \<Rightarrow> addr \<Rightarrow> u32 option" where
  "load32 st a = do { bs \<leftarrow> memcpy_from st a 0 4; Some (word_of_nat (le_val bs)) }"

definition store32 :: "bstore \<Rightarrow> addr \<Rightarrow> u32 \<Rightarrow> bstore option" where
  "store32 st a v = memcpy_to st a 0 (le_bytes 4 (unat v))"

section \<open>Sizes\<close>

definition is_pow_of_2 :: "u32 \<Rightarrow> bool" where
  "is_pow_of_2 sz \<longleftrightarrow> and sz (sz - 1) = 0"

function GetK_loop :: "u8 \<Rightarrow> u32 \<Rightarrow> u8" where
  "GetK_loop k sz = (if sz > 1 then GetK_loop (k + 1) (drop_bit 1 sz) else k)"
  by auto
termination
proof (relation "measure (\<lambda>(k, sz). unat sz)")
  fix k :: u8 and sz :: u32
  assume "sz > 1"
  then have "unat sz > 1" by (simp add: word_less_nat_alt)
  then show "((k + 1, drop_bit 1 sz), (k, sz)) \<in> measure (\<lambda>(k, sz). unat sz)"
    by (simp add: drop_bit_eq_div unat_div_word)
qed simp

declare GetK_loop.simps [simp del]

definition GetK :: "u32 \<Rightarrow> u8" where
  "GetK sz = GetK_loop 0 (if \<not> is_pow_of_2 sz then push_bit 1 sz else sz)"

definition GetSize_of_pow2 :: "u32 \<Rightarrow> u32" where
  "GetSize_of_pow2 sz =
     (if is_pow_of_2 sz then sz
      else
        let s0 = sz - 1;
            s1 = or s0 (drop_bit 1 s0);
            s2 = or s1 (drop_bit 2 s1);
            s3 = or s2 (drop_bit 4 s2);
            s4 = or s3 (drop_bit 8 s3);
            s5 = or s4 (drop_bit 16 s4)
        in s5 + 1)"

section \<open>The packet\<close>

record wpacket =
  wlen :: addr
  wbuf :: addr
  writebuf :: addr
  wpos :: u32
  factor :: u8
  wbegin_pos :: u32
  data_size :: u32
  wraw :: u8
  wmt :: u8

record write_pos =
  wp_buf :: addr
  wp_wpos :: u32

definition wpacket_create :: "bstore \<Rightarrow> u8 \<Rightarrow> u32 \<Rightarrow> u8 \<Rightarrow> (bstore \<times> wpacket) option" where
  "wpacket_create st m sz is_raw = do {
     let sz = GetSize_of_pow2 sz;
     (st1, b) \<leftarrow> buffer_create_and_acquire st m NULL sz;
     (st2, wb) \<leftarrow> buffer_acquire st1 NULL b;
     let w = \<lparr>wlen = NULL, wbuf = b, writebuf = wb, wpos = 0, factor = ucast sz,
              wbegin_pos = 0, data_size = 0, wraw = is_raw, wmt = m\<rparr>;
     (if is_raw \<noteq> 0
      then do { st3 \<leftarrow> set_size st2 b 0; Some (st3, w) }
      else do {
        st3 \<leftarrow> store32 st2 b 0;
        st4 \<leftarrow> set_size st3 b 4;
        Some (st4, w\<lparr>wpos := 4, wlen := b, data_size := 4\<rparr>) }) }"

definition wpacket_get_writepos :: "wpacket \<Rightarrow> write_pos" where
  "wpacket_get_writepos w = \<lparr>wp_buf = writebuf w, wp_wpos = wpos w\<rparr>"

definition wpacket_destroy :: "bstore \<Rightarrow> wpacket \<Rightarrow> bstore option" where
  "wpacket_destroy st w = do {
     st1 \<leftarrow> buffer_release st (wbuf w);
     buffer_release st1 (writebuf w) }"

definition wpacket_expand :: "bstore \<Rightarrow> wpacket \<Rightarrow> (bstore \<times> wpacket) option" where
  "wpacket_expand st w = do {
     let f = push_bit 1 (factor w);
     (st1, nb) \<leftarrow> buffer_create_and_acquire st (wmt w) NULL (ucast f);
     st2 \<leftarrow> set_next st1 (writebuf w) nb;
     (st3, wb) \<leftarrow> buffer_acquire st2 (writebuf w) nb;
     Some (st3, w\<lparr>factor := f, writebuf := wb, wpos := 0\<rparr>) }"

text \<open>The destination pointer of \<open>wpacket_copy\<close> is an offset into the new buffer.\<close>

partial_function (option) wpacket_copy_loop ::
    "bstore \<Rightarrow> addr \<Rightarrow> u32 \<Rightarrow> u32 \<Rightarrow> addr \<Rightarrow> bstore option" where
  [code]: "wpacket_copy_loop st buf ptr wp tmp_buf =
     (if tmp_buf = NULL then Some st
      else do {
        c \<leftarrow> buf_at st tmp_buf;
        bs \<leftarrow> memcpy_from st tmp_buf 0 (bsize c - wp);
        st1 \<leftarrow> memcpy_to st buf ptr bs;
        wpacket_copy_loop st1 buf (ptr + (bsize c - wp)) 0 (bnext c) })"

definition wpacket_copy :: "bstore \<Rightarrow> wpacket \<Rightarrow> addr \<Rightarrow> (bstore \<times> wpacket) option" where
  "wpacket_copy st w buf = do {
     st1 \<leftarrow> wpacket_copy_loop st buf 0 (wpos w) (wbuf w);
     Some (st1, if wbuf w = NULL then w else w\<lparr>wpos := 0\<rparr>) }"

text \<open>The first part of \<open>wpacket_write\<close>: a packet that shares the buffers of an \<open>rpacket\<close> gets its own.\<close>

definition wpacket_own :: "bstore \<Rightarrow> wpacket \<Rightarrow> (bstore \<times> wpacket) option" where
  "wpacket_own st w =
     (if writebuf w \<noteq> NULL then Some (st, w)
      else do {
        l \<leftarrow> load32 st (wlen w);
        let f = (ucast (GetSize_of_pow2 l) :: u8);
        (st1, tmp) \<leftarrow> buffer_create_and_acquire st (wmt w) NULL (ucast f);
        (st2, w2) \<leftarrow> wpacket_copy st1 (w\<lparr>factor := f\<rparr>) tmp;
        let w3 = w2\<lparr>wbegin_pos := 0\<rparr>;
        let w4 = (if wraw w3 = 0 then w3\<lparr>wlen := tmp, wpos := 4\<rparr> else w3);
        (st3, b) \<leftarrow> buffer_acquire st2 (wbuf w4) tmp;
        (st4, wb) \<leftarrow> buffer_acquire st3 (writebuf w4) b;
        Some (st4, w4\<lparr>wbuf := b, writebuf := wb\<rparr>) })"

text \<open>One copy of the loop: the bytes, the sizes and the length field.\<close>

definition wpacket_chunk :: "bstore \<Rightarrow> wpacket \<Rightarrow> byte list \<Rightarrow> (bstore \<times> wpacket) option" where
  "wpacket_chunk st w bs = do {
     let n = (word_of_nat (length bs) :: u32);
     st1 \<leftarrow> memcpy_to st (writebuf w) (wpos w) bs;
     c \<leftarrow> buf_at st1 (writebuf w);
     st2 \<leftarrow> set_size st1 (writebuf w) (bsize c + n);
     st3 \<leftarrow> (if wlen w \<noteq> NULL
            then do { l \<leftarrow> load32 st2 (wlen w); store32 st2 (wlen w) (l + n) }
            else Some st2);
     Some (st3, w\<lparr>wpos := wpos w + n, data_size := data_size w + n\<rparr>) }"

partial_function (option) wpacket_write_loop ::
    "bstore \<Rightarrow> wpacket \<Rightarrow> byte list \<Rightarrow> (bstore \<times> wpacket) option" where
  [code]: "wpacket_write_loop st w bs =
     (if bs = [] then Some (st, w)
      else do {
        c \<leftarrow> buf_at st (writebuf w);
        (st1, w1) \<leftarrow> (if capacity c - wpos w = 0 then wpacket_expand st w else Some (st, w));
        c1 \<leftarrow> buf_at st1 (writebuf w1);
        let n = min (unat (capacity c1 - wpos w1)) (length bs);
        (st2, w2) \<leftarrow> wpacket_chunk st1 w1 (take n bs);
        wpacket_write_loop st2 w2 (drop n bs) })"

definition wpacket_write :: "bstore \<Rightarrow> wpacket \<Rightarrow> byte list \<Rightarrow> (bstore \<times> wpacket) option" where
  "wpacket_write st w bs = do { (st1, w1) \<leftarrow> wpacket_own st w; wpacket_write_loop st1 w1 bs }"

definition wpacket_write_uint8 :: "bstore \<Rightarrow> wpacket \<Rightarrow> u8 \<Rightarrow> (bstore \<times> wpacket) option" where
  "wpacket_write_uint8 st w v = wpacket_write st w (le_bytes 1 (unat v))"

definition wpacket_write_uint16 :: "bstore \<Rightarrow> wpacket \<Rightarrow> u16 \<Rightarrow> (bstore \<times> wpacket) option" where
  "wpacket_write_uint16 st w v = wpacket_write st w (le_bytes 2 (unat v))"

definition wpacket_write_uint32 :: "bstore \<Rightarrow> wpacket \<Rightarrow> u32 \<Rightarrow> (bstore \<times> wpacket) option" where
  "wpacket_write_uint32 st w v = wpacket_write st w (le_bytes 4 (unat v))"

definition wpacket_write_uint64 :: "bstore \<Rightarrow> wpacket \<Rightarrow> u64 \<Rightarrow> (bstore \<times> wpacket) option" where
  "wpacket_write_uint64 st w v = wpacket_write st w (le_bytes 8 (unat v))"

text \<open>A \<open>double\<close> is written by its 64-bit representation.\<close>

definition wpacket_write_double :: "bstore \<Rightarrow> wpacket \<Rightarrow> u64 \<Rightarrow> (bstore \<times> wpacket) option" where
  "wpacket_write_double st w bits = wpacket_write st w (le_bytes 8 (unat bits))"

text \<open>Overwriting at a remembered position; \<open>wp->buf\<close> advances, \<open>wp->wpos\<close> does not.\<close>

partial_function (option) wpacket_rewrite_loop ::
    "bstore \<Rightarrow> addr \<Rightarrow> u32 \<Rightarrow> byte list \<Rightarrow> (bstore \<times> addr) option" where
  [code]: "wpacket_rewrite_loop st b pos bs =
     (if bs = [] then Some (st, b)
      else do {
        c \<leftarrow> buf_at st b;
        let n = min (unat (capacity c - pos)) (length bs);
        st1 \<leftarrow> memcpy_to st b pos (take n bs);
        let pos1 = pos + word_of_nat n;
        (if drop n bs \<noteq> [] \<and> pos1 \<ge> capacity c
         then do { _ \<leftarrow> assert_c (bnext c \<noteq> NULL); wpacket_rewrite_loop st1 (bnext c) 0 (drop n bs) }
         else wpacket_rewrite_loop st1 b pos1 (drop n bs)) })"

definition wpacket_rewrite :: "bstore \<Rightarrow> write_pos \<Rightarrow> byte list \<Rightarrow> (bstore \<times> write_pos) option" where
  "wpacket_rewrite st wp bs = do {
     (st1, b) \<leftarrow> wpacket_rewrite_loop st (wp_buf wp) (wp_wpos wp) bs;
     Some (st1, wp\<lparr>wp_buf := b\<rparr>) }"

definition wpacket_rewrite_uint8 :: "bstore \<Rightarrow> write_pos \<Rightarrow> u8 \<Rightarrow> (bstore \<times> write_pos) option" where
  "wpacket_rewrite_uint8 st wp v = wpacket_rewrite st wp (le_bytes 1 (unat v))"

definition wpacket_rewrite_uint16 :: "bstore \<Rightarrow> write_pos \<Rightarrow> u16 \<Rightarrow> (bstore \<times> write_pos) option" where
  "wpacket_rewrite_uint16 st wp v = wpacket_rewrite st wp (le_bytes 2 (unat v))"

definition wpacket_rewrite_uint32 :: "bstore \<Rightarrow> write_pos \<Rightarrow> u32 \<Rightarrow> (bstore \<times> write_pos) option" where
  "wpacket_rewrite_uint32 st wp v = wpacket_rewrite st wp (le_bytes 4 (unat v))"

definition wpacket_rewrite_uint64 :: "bstore \<Rightarrow> write_pos \<Rightarrow> u64 \<Rightarrow> (bstore \<times> write_pos) option" where
  "wpacket_rewrite_uint64 st wp v = wpacket_rewrite st wp (le_bytes 8 (unat v))"

definition wpacket_rewrite_double :: "bstore \<Rightarrow> write_pos \<Rightarrow> u64 \<Rightarrow> (bstore \<times> write_pos) option" where
  "wpacket_rewrite_double st wp bits = wpacket_rewrite st wp (le_bytes 8 (unat bits))"

text \<open>A null \<open>value\<close> fails the assertion. A string is given without its terminating zero.\<close>

definition wpacket_write_binary :: "bstore \<Rightarrow> wpacket \<Rightarrow> byte list option \<Rightarrow> (bstore \<times> wpacket) option" where
  "wpacket_write_binary st w value = do {
     bs \<leftarrow> value;
     (st1, w1) \<leftarrow> (if wraw w = 0 then wpacket_write_uint32 st w (word_of_nat (length bs)) else Some (st, w));
     wpacket_write st1 w1 bs }"

definition wpacket_write_string :: "bstore \<Rightarrow> wpacket \<Rightarrow> byte list \<Rightarrow> (bstore \<times> wpacket) option" where
  "wpacket_write_string st w s =
     (if wraw w \<noteq> 0 then wpacket_write_binary st w (Some s)
      else wpacket_write_binary st w (Some (s @ [0])))"

section \<open>Rounding up to a power of two\<close>

lemma floor_log2:
  assumes "0 < (n::nat)"
  obtains p where "2 ^ p \<le> n" "n < 2 ^ Suc p"
proof -
  have "\<exists>p. 2 ^ p \<le> n \<and> n < 2 ^ Suc p" using assms
  proof (induction n rule: less_induct)
    case (less n)
    show ?case
    proof (cases "n < 2")
      case True
      then show ?thesis using less.prems by (intro exI [of _ 0]) auto
    next
      case False
      then obtain p where "2 ^ p \<le> n div 2" "n div 2 < 2 ^ Suc p" using less.IH [of "n div 2"] by auto
      then show ?thesis by (intro exI [of _ "Suc p"]) auto
    qed
  qed
  then show thesis using that by blast
qed

lemma bit_unat: "bit (x::'a::len word) i \<longleftrightarrow> bit (unat x) i"
  by (simp add: bit_unsigned_iff)

lemma top_bit:
  assumes "2 ^ p \<le> unat (x::'a::len word)" "unat x < 2 ^ Suc p"
  shows "bit x p" "i > p \<Longrightarrow> \<not> bit x i"
proof -
  have "unat x div 2 ^ p = 1" using assms by (intro div_nat_eqI) auto
  then show "bit x p" unfolding bit_unat by (simp add: bit_iff_odd)
  assume "i > p"
  then have "(2::nat) ^ Suc p \<le> 2 ^ i" by (intro power_increasing) auto
  then have "unat x div 2 ^ i = 0" using assms(2) by simp
  then show "\<not> bit x i" unfolding bit_unat by (simp add: bit_iff_odd)
qed

lemma is_pow_of_2_iff: "is_pow_of_2 sz \<longleftrightarrow> sz = 0 \<or> (\<exists>k. unat sz = 2 ^ k)"
proof (cases "sz = 0")
  case True
  then show ?thesis by (simp add: is_pow_of_2_def)
next
  case False
  then have pos: "0 < unat sz" by (simp add: unat_gt_0)
  then obtain p where p: "2 ^ p \<le> unat sz" "unat sz < 2 ^ Suc p" by (rule floor_log2)
  have m1: "unat (sz - 1) = unat sz - 1" using False by (simp add: unat_minus_one)
  show ?thesis
  proof (cases "unat sz = 2 ^ p")
    case True
    have "\<not> (bit sz i \<and> bit (sz - 1) i)" for i
    proof -
      have "unat (sz - 1) < 2 ^ p" using m1 pos True by simp
      then have "\<not> bit (sz - 1) i" if "p \<le> i"
      proof -
        have "(2::nat) ^ p \<le> 2 ^ i" using that by (intro power_increasing) auto
        then have "unat (sz - 1) < 2 ^ i" using \<open>unat (sz - 1) < 2 ^ p\<close> by linarith
        then have "unat (sz - 1) div 2 ^ i = 0" by simp
        then show ?thesis unfolding bit_unat [of "sz - 1"] by (simp add: bit_iff_odd)
      qed
      moreover have "\<not> bit sz i" if "i < p"
        unfolding bit_unat True using that by (simp add: bit_exp_iff)
      ultimately show ?thesis using not_le by blast
    qed
    then have "and sz (sz - 1) = 0" by (intro bit_eqI) (simp add: bit_and_iff)
    then show ?thesis using True by (auto simp: is_pow_of_2_def)
  next
    case ne: False
    have "2 ^ p \<le> unat (sz - 1)" "unat (sz - 1) < 2 ^ Suc p" using p ne m1 by auto
    then have "bit (and sz (sz - 1)) p" using top_bit(1) [of p sz] top_bit(1) [of p "sz - 1"] p
      by (simp add: bit_and_iff)
    moreover have "unat sz \<noteq> 2 ^ k" for k
    proof
      assume k: "unat sz = 2 ^ k"
      then have "(2::nat) ^ p \<le> 2 ^ k" "(2::nat) ^ k < 2 ^ Suc p" using p by auto
      then have "p \<le> k" "k < Suc p"
        using power_le_imp_le_exp [of "2::nat" p k] power_less_imp_less_exp [of "2::nat" k "Suc p"] by auto
      with k ne show False by auto
    qed
    ultimately show ?thesis using False by (auto simp: is_pow_of_2_def)
  qed
qed

text \<open>After the step with shift \<open>m\<close> a bit is set if one of the \<open>2 m\<close> bits from there on was.\<close>

lemma smear_step:
  assumes "\<And>i. bit (x::'a::len word) i \<longleftrightarrow> (\<exists>j < m. bit s (i + j))"
  shows "bit (or x (drop_bit m x)) i \<longleftrightarrow> (\<exists>j < 2 * m. bit s (i + j))"
proof -
  have "bit (or x (drop_bit m x)) i \<longleftrightarrow> (\<exists>j < m. bit s (i + j)) \<or> (\<exists>j < m. bit s (m + i + j))"
    by (simp add: bit_or_iff bit_drop_bit_eq assms)
  also have "\<dots> \<longleftrightarrow> (\<exists>j < 2 * m. bit s (i + j))"
  proof
    assume "\<exists>j < 2 * m. bit s (i + j)"
    then obtain j where j: "j < 2 * m" "bit s (i + j)" by blast
    show "(\<exists>j < m. bit s (i + j)) \<or> (\<exists>j < m. bit s (m + i + j))"
    proof (cases "j < m")
      case True
      with j show ?thesis by blast
    next
      case False
      with j have "j - m < m" "bit s (m + i + (j - m))" by (auto simp: algebra_simps)
      then show ?thesis by blast
    qed
  next
    assume "(\<exists>j < m. bit s (i + j)) \<or> (\<exists>j < m. bit s (m + i + j))"
    then show "\<exists>j < 2 * m. bit s (i + j)"
    proof
      assume "\<exists>j < m. bit s (m + i + j)"
      then obtain j where "j < m" "bit s (i + (m + j))" by (auto simp: algebra_simps)
      then show ?thesis by (intro exI [of _ "m + j"]) auto
    next
      assume "\<exists>j < m. bit s (i + j)"
      then obtain j where "j < m" "bit s (i + j)" by blast
      then show ?thesis by (intro exI [of _ j]) auto
    qed
  qed
  finally show ?thesis .
qed

lemma GetSize_of_pow2_bits:
  assumes "\<not> is_pow_of_2 sz" "2 ^ p \<le> unat (sz - 1)" "unat (sz - 1) < 2 ^ Suc p"
  shows "GetSize_of_pow2 sz = mask (Suc p) + 1"
proof -
  define s0 s1 s2 s3 s4 s5 :: u32 where defs: "s0 = sz - 1" "s1 = or s0 (drop_bit 1 s0)"
    "s2 = or s1 (drop_bit 2 s1)" "s3 = or s2 (drop_bit 4 s2)" "s4 = or s3 (drop_bit 8 s3)"
    "s5 = or s4 (drop_bit 16 s4)"
  have "bit s0 i \<longleftrightarrow> (\<exists>j < 1. bit s0 (i + j))" for i by auto
  from smear_step [OF this] have "bit s1 i \<longleftrightarrow> (\<exists>j < 2. bit s0 (i + j))" for i by (simp add: defs(2))
  from smear_step [OF this] have "bit s2 i \<longleftrightarrow> (\<exists>j < 4. bit s0 (i + j))" for i by (simp add: defs(3))
  from smear_step [OF this] have "bit s3 i \<longleftrightarrow> (\<exists>j < 8. bit s0 (i + j))" for i by (simp add: defs(4))
  from smear_step [OF this] have "bit s4 i \<longleftrightarrow> (\<exists>j < 16. bit s0 (i + j))" for i by (simp add: defs(5))
  from smear_step [OF this] have s5: "bit s5 i \<longleftrightarrow> (\<exists>j < 32. bit s0 (i + j))" for i by (simp add: defs(6))
  have top: "bit s0 p" "\<And>i. i > p \<Longrightarrow> \<not> bit s0 i" using top_bit [of p s0] assms(2,3) defs(1) by auto
  have p32: "p < 32" using top(1) bit_imp_le_length [of s0 p] by simp
  have "s5 = mask (Suc p)"
  proof (rule bit_eqI)
    fix i
    show "bit s5 i = bit (mask (Suc p) :: u32) i"
    proof (cases "i \<le> p")
      case True
      then have "bit s0 (i + (p - i))" "p - i < 32" using top(1) p32 by auto
      then show ?thesis using s5 True p32 by (auto simp: bit_mask_iff)
    next
      case False
      then show ?thesis using s5 top(2) by (auto simp: bit_mask_iff)
    qed
  qed
  then show ?thesis using assms(1) by (simp add: GetSize_of_pow2_def Let_def defs)
qed

lemma unat_power2:
  assumes "n < LENGTH('a)"
  shows "unat (2 ^ n :: 'a::len word) = 2 ^ n"
proof -
  have "(2::nat) ^ n < 2 ^ LENGTH('a)" using assms by (intro power_strict_increasing) auto
  then have "unat (word_of_nat (2 ^ n) :: 'a word) = 2 ^ n" by (rule unat_word_of_nat)
  then show ?thesis by simp
qed

lemma GetK_loop_log2:
  assumes "2 ^ p \<le> unat sz" "unat sz < 2 ^ Suc p"
  shows "GetK_loop k sz = k + word_of_nat p"
  using assms
proof (induction p arbitrary: k sz)
  case 0
  then have "\<not> sz > 1" by (simp add: word_less_nat_alt)
  then show ?case by (subst GetK_loop.simps) simp
next
  case (Suc p)
  have h: "unat (drop_bit 1 sz) = unat sz div 2" by (simp add: drop_bit_eq_div unat_div_word)
  have "(2::nat) \<le> 2 ^ Suc p" by simp
  then have "1 < unat sz" using Suc.prems(1) by linarith
  then have "sz > 1" by (simp add: word_less_nat_alt)
  then have "GetK_loop k sz = GetK_loop (k + 1) (drop_bit 1 sz)" by (subst GetK_loop.simps) simp
  also have "\<dots> = k + 1 + word_of_nat p" using Suc.prems h by (intro Suc.IH) auto
  finally show ?case by simp
qed

lemma GetSize_of_pow2_law:
  assumes "1 \<le> sz" "sz \<le> 2 ^ 31"
  shows "unat (GetSize_of_pow2 sz) = 2 ^ unat (GetK sz) \<and> sz \<le> GetSize_of_pow2 sz \<and>
    unat (GetSize_of_pow2 sz) < 2 * unat sz"
proof -
  have n: "1 \<le> unat sz" "unat sz \<le> 2 ^ 31" using assms by (simp_all add: word_le_nat_alt)
  show ?thesis
  proof (cases "is_pow_of_2 sz")
    case True
    then obtain k where k: "unat sz = 2 ^ k" using n(1) by (auto simp: is_pow_of_2_iff)
    have "(2::nat) ^ k \<le> 2 ^ 31" using n(2) k by simp
    then have "k \<le> 31" by (rule power_le_imp_le_exp [rotated]) simp
    moreover have "GetK sz = word_of_nat k"
      using True GetK_loop_log2 [of k sz 0] k by (simp add: GetK_def)
    ultimately have "unat (GetK sz) = k" by (simp add: unat_of_nat)
    with True k n show ?thesis by (simp add: GetSize_of_pow2_def)
  next
    case False
    then have "unat sz \<noteq> 2 ^ 0" "unat sz \<noteq> 2 ^ 1" "unat sz \<noteq> 2 ^ 31" using is_pow_of_2_iff by blast+
    then have n2: "2 < unat sz" "unat sz < 2 ^ 31" using n by auto
    have m1: "unat (sz - 1) = unat sz - 1" using n2 by (intro unat_minus_one) auto
    then obtain p where p: "2 ^ p \<le> unat (sz - 1)" "unat (sz - 1) < 2 ^ Suc p"
      using floor_log2 [of "unat (sz - 1)"] n2 by auto
    have "(2::nat) ^ p < 2 ^ 31" using p(1) m1 n2(2) by linarith
    then have p31: "p < 31" by (rule power_less_imp_less_exp [rotated]) simp
    have "mask (Suc p) + 1 = (2 ^ Suc p :: u32)" by (simp add: mask_eq_exp_minus_1)
    then have r: "GetSize_of_pow2 sz = 2 ^ Suc p" using GetSize_of_pow2_bits [OF False p] by simp
    have ur: "unat (2 ^ Suc p :: u32) = 2 ^ Suc p" using p31 by (intro unat_power2) simp
    have ne: "unat sz \<noteq> 2 ^ Suc p" using False is_pow_of_2_iff by blast
    have bounds: "2 ^ p < unat sz" "unat sz < 2 ^ Suc p" using p m1 ne n2 by auto
    have "unat (push_bit 1 sz) = 2 * unat sz"
      using n2(2) by (simp add: push_bit_eq_mult unat_word_ariths)
    then have "GetK sz = word_of_nat (Suc p)"
      using GetK_loop_log2 [of "Suc p" "push_bit 1 sz" 0] bounds False by (simp add: GetK_def)
    then have "unat (GetK sz) = Suc p" using p31 unat_word_of_nat [of "Suc p", where 'a=8] by simp
    with r ur bounds show ?thesis by (simp add: word_le_nat_alt)
  qed
qed

text \<open>
  For sizes up to \<open>2 ^ 31\<close> the bit smearing of \<open>GetSize_of_pow2\<close> yields the least power
  of two that is not smaller than the argument, and this is \<open>1 << GetK\<close>, the expression the
  source keeps as a comment.
\<close>

theorem GetSize_of_pow2_least:
  assumes "1 \<le> sz" "sz \<le> 2 ^ 31"
  shows "unat (GetSize_of_pow2 sz) = 2 ^ unat (GetK sz) \<and> sz \<le> GetSize_of_pow2 sz \<and>
    unat (GetSize_of_pow2 sz) < 2 * unat sz"
  using GetSize_of_pow2_law [OF assms] .

theorem GetSize_of_pow2_least_witness:
  "unat (GetSize_of_pow2 100) = 2 ^ unat (GetK 100) \<and> 100 \<le> GetSize_of_pow2 100 \<and>
    unat (GetSize_of_pow2 100) < 2 * unat (100 :: u32)"
  by (rule GetSize_of_pow2_least) simp_all

section \<open>The invariant of a packet under construction\<close>

text \<open>
  \<open>growth f\<close> is the number of bytes that buffers appended from now on can hold: the 8-bit growth
  factor doubles with each of them until it reaches 256 and wraps to zero.
\<close>

definition fact_ok :: "u8 \<Rightarrow> bool" where
  "fact_ok f \<longleftrightarrow> f = 0 \<or> (\<exists>k < 8. f = 2 ^ k)"

definition growth :: "u8 \<Rightarrow> nat" where
  "growth f = (if f = 0 then 0 else 256 - 2 * unat f)"

definition hdr_ok :: "bstore \<Rightarrow> wpacket \<Rightarrow> addr list \<Rightarrow> bool" where
  "hdr_ok st w as \<longleftrightarrow>
     (if wraw w \<noteq> 0 then wlen w = NULL
      else wlen w = wbuf w \<and> (\<exists>c. cells st (wbuf w) = Some c \<and> 4 \<le> unat (bsize c)) \<and>
        le_val (take 4 (contents st as)) + 4 = length (contents st as))"

text \<open>All buffers but the last are full.\<close>

definition full_chain :: "bstore \<Rightarrow> addr list \<Rightarrow> bool" where
  "full_chain st as \<longleftrightarrow> (\<forall>a \<in> set (butlast as). \<forall>c. cells st a = Some c \<longrightarrow> bsize c = capacity c)"

definition wp_inv :: "bstore \<Rightarrow> addr multiset \<Rightarrow> wpacket \<Rightarrow> addr list \<Rightarrow> bool" where
  "wp_inv st R w as \<longleftrightarrow>
     rc_inv st (add_mset (wbuf w) (add_mset (writebuf w) R)) \<and>
     chain (bnexts st) (wbuf w) as NULL \<and> as \<noteq> [] \<and> last as = writebuf w \<and>
     map_option bsize (cells st (writebuf w)) = Some (wpos w) \<and>
     fact_ok (factor w) \<and> length (contents st as) = unat (data_size w) \<and>
     hdr_ok st w as \<and> full_chain st as"

definition payload :: "bstore \<Rightarrow> wpacket \<Rightarrow> addr list \<Rightarrow> byte list" where
  "payload st w as = (if wraw w = 0 then drop 4 (contents st as) else contents st as)"

lemma fact_ok_double:
  assumes "fact_ok f"
  shows "fact_ok (push_bit 1 f) \<and> growth f = unat (push_bit 1 f) + growth (push_bit 1 f)"
proof (cases "f = 0")
  case True
  then show ?thesis by (simp add: fact_ok_def growth_def)
next
  case False
  with assms obtain k where k: "k < 8" "f = 2 ^ k" by (auto simp: fact_ok_def)
  have pb: "push_bit 1 f = 2 ^ Suc k" by (simp add: k push_bit_eq_mult)
  show ?thesis
  proof (cases "k = 7")
    case True
    then show ?thesis by (simp add: k fact_ok_def growth_def push_bit_eq_mult)
  next
    case False
    then have k7: "Suc k < 8" using k by simp
    have u: "unat (2 ^ k :: u8) = 2 ^ k" "unat (2 ^ Suc k :: u8) = 2 ^ Suc k"
      using k7 by (intro unat_power2; simp)+
    have "(2::nat) ^ Suc (Suc k) \<le> 2 ^ 8" using k7 by (intro power_increasing) auto
    moreover have "(2 ^ Suc k :: u8) \<noteq> 0" "(2 ^ k :: u8) \<noteq> 0" using u by (metis power_not_zero unat_0 zero_neq_numeral)+
    moreover have "fact_ok (2 ^ Suc k)" unfolding fact_ok_def using k7 by blast
    ultimately show ?thesis unfolding pb using u k(2) by (simp add: growth_def)
  qed
qed

lemma contents_put_notin [simp]: "a \<notin> set as \<Longrightarrow> contents (put_buf st a c) as = contents st as"
  unfolding contents_def by (intro arg_cong [where f=concat] map_cong) auto

lemma splice_at: "p + length bs \<le> length xs \<Longrightarrow> take (p + length bs) (splice xs p bs) = take p xs @ bs"
  by (simp add: splice_def)

lemma length_splice [simp]: "p + length bs \<le> length xs \<Longrightarrow> length (splice xs p bs) = length xs"
  by (simp add: splice_def)

text \<open>Appending bytes at the end of a buffer.\<close>

lemma append_bytes:
  assumes ok: "buf_ok c" and fits: "unat (bsize c) + length bs \<le> unat (capacity c)"
  defines "n \<equiv> word_of_nat (length bs) :: u32"
  defines "c' \<equiv> c\<lparr>bbuf := splice (bbuf c) (unat (bsize c)) bs, bsize := bsize c + n\<rparr>"
  shows "buf_ok c'" "bytes_of c' = bytes_of c @ bs" "unat (bsize c + n) = unat (bsize c) + length bs"
proof -
  have n: "unat n = length bs"
    using fits unat_less_pow [of "capacity c"] unfolding n_def by (intro unat_word_of_nat) linarith
  then show u: "unat (bsize c + n) = unat (bsize c) + length bs"
    using fits unat_add_le [of "bsize c" n "capacity c"] by simp
  have l: "unat (bsize c) + length bs \<le> length (bbuf c)" using ok fits by (simp add: buf_ok_def)
  then show "buf_ok c'" using ok u fits by (simp add: buf_ok_def c'_def word_le_nat_alt)
  show "bytes_of c' = bytes_of c @ bs" using splice_at [OF l] u by (simp add: bytes_of_def c'_def)
qed

text \<open>Reading and overwriting the length field at the start of the chain.\<close>

lemma header_access:
  assumes inv: "rc_inv st R" and ch: "chain (bnexts st) h as NULL"
    and c: "cells st h = Some c" "4 \<le> unat (bsize c)"
  defines "c' \<equiv> (\<lambda>v. c\<lparr>bbuf := splice (bbuf c) 0 (le_bytes 4 (unat v))\<rparr>)"
  shows "load32 st h = Some (word_of_nat (le_val (take 4 (contents st as))))"
    "store32 st h v = Some (put_buf st h (c' v))" "rc_inv (put_buf st h (c' v)) R"
    "bnexts (put_buf st h (c' v)) = bnexts st"
    "contents (put_buf st h (c' v)) as = le_bytes 4 (unat v) @ drop 4 (contents st as)"
proof -
  have h: "h \<noteq> NULL" "buf_ok c" using rc_invD(6,9) [OF inv c(1)] by auto
  obtain ns where ns: "as = h # ns" using ch c h by (cases as) auto
  have hn: "h \<notin> set ns" using chain_distinct [OF ch] ns by simp
  have len: "4 \<le> length (bbuf c)" "length (bytes_of c) = unat (bsize c)"
    using h(2) c(2) length_bytes_of [OF h(2)] by (auto simp: buf_ok_def word_le_nat_alt)
  have "take 4 (contents st as) = take 4 (bytes_of c)" using c(1,2) ns len by (simp add: contents_Cons)
  then show "load32 st h = Some (word_of_nat (le_val (take 4 (contents st as))))"
    using memcpy_from_ok [OF c(1) h, of 0 4] c(2) by (simp add: load32_def)
  show "store32 st h v = Some (put_buf st h (c' v))"
    using c h len by (simp add: store32_def memcpy_to_def buf_at_def c'_def)
  have "buf_ok (c' v)" using h(2) len by (simp add: buf_ok_def c'_def)
  then show "rc_inv (put_buf st h (c' v)) R"
    using rc_invD(8) [OF inv c(1)] by (intro rc_inv_put [OF inv c(1)]) (simp_all add: c'_def)
  show "bnexts (put_buf st h (c' v)) = bnexts st" by (rule bnexts_put_same [OF c(1)]) (simp add: c'_def)
  have "bytes_of (c' v) = le_bytes 4 (unat v) @ drop 4 (bytes_of c)"
    using len c(2) by (simp add: bytes_of_def c'_def splice_def drop_take)
  then show "contents (put_buf st h (c' v)) as = le_bytes 4 (unat v) @ drop 4 (contents st as)"
    using ns hn c len by (simp add: contents_Cons)
qed

lemma wpacket_chunk_ok:
  assumes inv: "wp_inv st R w as" and c: "cells st (writebuf w) = Some c"
    and fits: "unat (wpos w) + length bs \<le> unat (capacity c)"
    and total: "length (contents st as) + length bs < 2 ^ 32"
  defines "w' \<equiv> w\<lparr>wpos := wpos w + word_of_nat (length bs), data_size := data_size w + word_of_nat (length bs)\<rparr>"
  shows "\<exists>st' c'. wpacket_chunk st w bs = Some (st', w') \<and> wp_inv st' R w' as \<and>
    payload st' w' as = payload st w as @ bs \<and> quota st' = quota st \<and> fresh st' = fresh st \<and>
    cells st' (writebuf w) = Some c' \<and> capacity c' = capacity c \<and>
    (\<forall>a. a \<notin> set as \<longrightarrow> cells st' a = cells st a) \<and>
    (\<forall>a. map_option capacity (cells st' a) = map_option capacity (cells st a))"
proof -
  let ?a = "writebuf w"
  let ?R = "add_mset (wbuf w) (add_mset (writebuf w) R)"
  let ?n = "word_of_nat (length bs) :: u32"
  note i = inv [unfolded wp_inv_def]
  have rc: "rc_inv st ?R" and ch: "chain (bnexts st) (wbuf w) as NULL" using i by auto
  have a: "?a \<noteq> NULL" "buf_ok c" "bsize c = wpos w" using rc_invD(6,9) [OF rc c] i c by auto
  obtain us where us: "as = us @ [?a]" using i by (metis append_butlast_last_id)
  have nin: "?a \<notin> set us" using chain_distinct [OF ch] us by simp
  define c1 where "c1 = c\<lparr>bbuf := splice (bbuf c) (unat (bsize c)) bs, bsize := bsize c + ?n\<rparr>"
  note ap = append_bytes [OF a(2), of bs, folded c1_def]
  have ap: "buf_ok c1" "bytes_of c1 = bytes_of c @ bs" "unat (bsize c + ?n) = unat (bsize c) + length bs"
    using ap fits a(3) by auto
  define st2 where "st2 = put_buf st ?a c1"
  have rc2: "rc_inv st2 ?R" unfolding st2_def
    using rc_invD(8) [OF rc c] ap(1) by (intro rc_inv_put [OF rc c]) (auto simp: c1_def)
  have nx2: "bnexts st2 = bnexts st" unfolding st2_def by (rule bnexts_put_same [OF c]) (simp add: c1_def)
  have ct2: "contents st2 as = contents st as @ bs" using nin ap(2) c by (simp add: us st2_def contents_Cons)
  have n: "unat ?n = length bs" using total by (intro unat_word_of_nat) simp
  have ds: "length (contents st2 as) = unat (data_size w + ?n)"
    using total i ct2 n by (simp add: unat_word_ariths)
  have step: "wpacket_chunk st w bs = (if wlen w \<noteq> NULL
      then do { l \<leftarrow> load32 st2 (wlen w); st3 \<leftarrow> store32 st2 (wlen w) (l + ?n); Some (st3, w') }
      else Some (st2, w'))"
    using c a fits by (auto simp: wpacket_chunk_def memcpy_to_def set_size_def buf_at_def st2_def c1_def
        w'_def buf_ok_def Let_def)
  have cap1: "cells st2 ?a = Some c1" "capacity c1 = capacity c" "bsize c1 = wpos w'"
    using a by (simp_all add: st2_def c1_def w'_def)
  have fr2: "a \<notin> set as \<Longrightarrow> cells st2 a = cells st a" for a using us by (simp add: st2_def)
  have cp2: "map_option capacity (cells st2 a) = map_option capacity (cells st a)" for a
    using c by (simp add: st2_def c1_def)
  have fc2: "full_chain st2 as" using i nin by (auto simp: full_chain_def us st2_def)
  show ?thesis
  proof (cases "wraw w = 0")
    case raw: False
    then have "wlen w = NULL" using i by (auto simp: hdr_ok_def)
    moreover have "wp_inv st2 R w' as"
      using i rc2 nx2 cap1 ds raw fc2 by (simp add: wp_inv_def w'_def hdr_ok_def)
    ultimately show ?thesis using step cap1 ct2 raw fr2 cp2
      by (intro exI [of _ st2] exI [of _ c1]) (simp add: payload_def w'_def st2_def)
  next
    case True
    then have hd: "wlen w = wbuf w" "le_val (take 4 (contents st as)) + 4 = length (contents st as)"
      using i by (auto simp: hdr_ok_def)
    obtain d where d: "cells st2 (wbuf w) = Some d" "4 \<le> unat (bsize d)"
      using i True ap(3) by (cases "wbuf w = ?a") (auto simp: hdr_ok_def st2_def c1_def c)
    have ch2: "chain (bnexts st2) (wbuf w) as NULL" using ch nx2 by simp
    define l where "l = (word_of_nat (le_val (take 4 (contents st2 as))) :: u32)"
    define d3 where "d3 = d\<lparr>bbuf := splice (bbuf d) 0 (le_bytes 4 (unat (l + ?n)))\<rparr>"
    define st3 where "st3 = put_buf st2 (wbuf w) d3"
    note ha = header_access(1) [OF rc2 ch2 d, folded l_def]
      header_access(2-5) [OF rc2 ch2 d, where v = "l + ?n", folded d3_def, folded st3_def]
    have ge4: "4 \<le> length (contents st as)" using hd(2) by simp
    have wz: "wbuf w \<noteq> NULL" using rc_invD(9) [OF rc2 d(1)] by simp
    have tk: "take 4 (contents st2 as) = take 4 (contents st as)" using ge4 ct2 by simp
    have l: "unat l = length (contents st as) - 4"
      unfolding l_def tk using hd(2) total by (subst unat_word_of_nat) auto
    have ln: "unat (l + ?n) = length (contents st2 as) - 4"
      using l n total ge4 ct2 by (simp add: unat_word_ariths)
    have ct3: "contents st3 as = le_bytes 4 (unat (l + ?n)) @ drop 4 (contents st2 as)" by (rule ha(5))
    have len3: "length (contents st3 as) = length (contents st2 as)" using ct3 ge4 ct2 by simp
    have hv: "le_val (take 4 (contents st3 as)) + 4 = length (contents st3 as)"
      using ct3 ln len3 ge4 ct2 unat_less_pow [of "l + ?n"] by (simp add: le_val_bytes)
    obtain c3 where c3: "cells st3 ?a = Some c3" "capacity c3 = capacity c" "bsize c3 = wpos w'"
      using cap1 d by (cases "wbuf w = ?a") (auto simp: st3_def d3_def)
    have d3: "cells st3 (wbuf w) = Some d3" "4 \<le> unat (bsize d3)" using d(2) by (auto simp: st3_def d3_def)
    have fc3: "full_chain st3 as" using fc2 d(1) by (auto simp: full_chain_def st3_def d3_def)
    have cp3: "map_option capacity (cells st3 a) = map_option capacity (cells st a)" for a
      using cp2 [of a] d(1) by (auto simp: st3_def d3_def)
    have "wp_inv st3 R w' as"
      using i ha(3,4) nx2 c3 ds len3 hv d3 hd(1) True fc3 by (simp add: wp_inv_def w'_def hdr_ok_def)
    moreover have "payload st3 w' as = payload st w as @ bs"
      using ct3 ct2 ge4 True by (simp add: payload_def w'_def)
    moreover have "wbuf w \<in> set as" using ch wz by (cases as) auto
    ultimately show ?thesis using step hd(1) wz ha(1,2) c3 fr2 cp3
      by (intro exI [of _ st3] exI [of _ c3]) (auto simp: st3_def st2_def)
  qed
qed

text \<open>Links and bytes survive a change of reference counts.\<close>

lemma same_bytes_chain:
  "same_bytes st st' \<Longrightarrow> chain (bnexts st') p as NULL \<Longrightarrow> chain (bnexts st) p as NULL"
proof (induction as arbitrary: p)
  case Nil
  then show ?case by simp
next
  case (Cons a as)
  then obtain c' where c': "p = a" "a \<noteq> NULL" "cells st' a = Some c'" "chain (bnexts st') (bnext c') as NULL"
    unfolding chain_bnexts_Cons by blast
  then obtain c where c: "cells st a = Some c" "c' = c\<lparr>refcount := refcount c'\<rparr>"
    using Cons.prems(1) by (auto simp: same_bytes_def)
  have "bnext c' = bnext c" by (subst c(2)) simp
  then show ?case unfolding chain_bnexts_Cons using c' c Cons.IH Cons.prems(1) by auto
qed

lemma same_bytes_cell:
  assumes "same_bytes st st'" "cells st' a = Some c'"
  shows "\<exists>c. cells st a = Some c \<and> bytes_of c' = bytes_of c \<and> capacity c' = capacity c \<and>
    bsize c' = bsize c \<and> bnext c' = bnext c \<and> mt c' = mt c"
proof -
  obtain c where c: "cells st a = Some c" "c' = c\<lparr>refcount := refcount c'\<rparr>"
    using assms by (auto simp: same_bytes_def)
  show ?thesis by (rule exI [of _ c], subst (1 2 3 4 5) c(2)) (simp add: c(1) bytes_of_def)
qed

lemma same_bytes_contents:
  assumes "same_bytes st st'" "chain (bnexts st') p as NULL"
  shows "contents st' as = contents st as"
proof -
  have "(case cells st' a of None \<Rightarrow> [] | Some c \<Rightarrow> bytes_of c) =
      (case cells st a of None \<Rightarrow> [] | Some c \<Rightarrow> bytes_of c)" if m: "a \<in> set as" for a
  proof -
    obtain c' where "cells st' a = Some c'" using chain_dom [OF assms(2) m] by (auto simp: bnexts_eq_Some)
    then show ?thesis using same_bytes_cell [OF assms(1)] by fastforce
  qed
  then show ?thesis unfolding contents_def by (intro arg_cong [where f=concat] map_cong) auto
qed

lemma wpacket_expand_ok:
  assumes inv: "wp_inv st R w as" and q: "0 < quota st"
    and full: "map_option capacity (cells st (writebuf w)) = Some (wpos w)"
  defines "w' \<equiv> w\<lparr>factor := push_bit 1 (factor w), writebuf := fresh st, wpos := 0\<rparr>"
  shows "\<exists>st' c'. wpacket_expand st w = Some (st', w') \<and> wp_inv st' R w' (as @ [fresh st]) \<and>
    contents st' (as @ [fresh st]) = contents st as \<and> quota st' = quota st - 1 \<and>
    cells st' (fresh st) = Some c' \<and> capacity c' = ucast (push_bit 1 (factor w)) \<and>
    map_option capacity (cells st' (wbuf w)) = map_option capacity (cells st (wbuf w)) \<and>
    card (dom (cells st')) \<le> Suc (card (dom (cells st)))"
proof -
  let ?f = "ucast (push_bit 1 (factor w)) :: u32"
  let ?n = "fresh st" and ?a = "writebuf w"
  note i = inv [unfolded wp_inv_def]
  have rc: "rc_inv st (add_mset (wbuf w) (add_mset ?a R))" and ch: "chain (bnexts st) (wbuf w) as NULL"
    using i by auto
  obtain c where c: "cells st ?a = Some c" using rc_invD(5) [OF rc, of ?a] by auto
  define st1 where "st1 = grown st (wmt w) ?f"
  have fr: "0 < ?n" "?a \<noteq> NULL" "?a \<noteq> ?n" "?n \<notin> set as"
    using rc_invD(3,4) [OF rc] rc_invD(9) [OF rc c] chain_dom [OF ch, of ?n] by (auto simp: bnexts_eq_Some)
  have f8: "unat ?f < 256" using unat_less_pow [of "push_bit 1 (factor w)"] by (subst unat_ucast_wide) auto
  have create: "buffer_create_and_acquire st (wmt w) NULL ?f = Some (st1, ?n)"
    using q f8 fr(1) by (simp add: buffer_create_and_acquire_eq st1_def)
  have rc1: "rc_inv st1 (add_mset ?n (add_mset (wbuf w) (add_mset ?a R)))"
    unfolding st1_def by (rule grown_inv [OF rc])
  have cells1: "cells st1 = (cells st)(?n \<mapsto> new_buffer (wmt w) ?f)" by (simp add: st1_def grown_def)
  have c1: "cells st1 ?a = Some c" using c fr by (simp add: cells1)
  have last: "bnext c = NULL"
    using chain_last_next [OF ch] i c by (simp add: bnexts_at)
  define st2 where "st2 = put_buf st1 ?a (c\<lparr>bnext := ?n\<rparr>)"
  have nch: "chain (bnexts st1) ?n [?n] NULL"
    using fr(1) by (simp add: chain_bnexts_Cons cells1 new_buffer_def del: chain.simps(2))
  have rc2: "rc_inv st2 (add_mset ?a (add_mset (wbuf w) R))"
    using rc_inv_link [OF rc1 c1 last nch] fr by (simp add: st2_def add_mset_commute)
  have n2: "cells st2 ?n = Some (new_buffer (wmt w) ?f)" using fr by (simp add: st2_def cells1)
  obtain st3 where st3: "buffer_acquire st2 ?a ?n = Some (st3, ?n)"
    "rc_inv st3 (add_mset ?n (add_mset (wbuf w) R))" "same_bytes st2 st3" "quota st3 = quota st2"
    using buffer_move_inv [OF rc2 n2] by (auto simp: new_buffer_def)
  have ch2: "chain (bnexts st2) (wbuf w) (as @ [?n]) NULL"
  proof -
    have b2: "bnexts st2 = (bnexts st)(?n \<mapsto> NULL, ?a \<mapsto> ?n)"
      by (auto simp: st2_def bnexts_def cells1 new_buffer_def fun_eq_iff)
    have "chain ((bnexts st)(?n \<mapsto> NULL)) (wbuf w) as NULL" using ch fr(4) by simp
    from chain_redirect_last [OF this, of ?n] i fr b2 show ?thesis by (auto simp: chain_append)
  qed
  obtain as' where "chain (bnexts st3) (wbuf w) as' NULL"
    using rc_invD(5,7) [OF st3(2), of "wbuf w"] by auto
  moreover from this same_bytes_chain [OF st3(3)] ch2 chain_functional have "as' = as @ [?n]" by blast
  ultimately have ch3: "chain (bnexts st3) (wbuf w) (as @ [?n]) NULL" by simp
  have "contents st2 as = contents st as"
  proof -
    have "(case cells st2 a of None \<Rightarrow> [] | Some c \<Rightarrow> bytes_of c) =
        (case cells st a of None \<Rightarrow> [] | Some c \<Rightarrow> bytes_of c)" if "a \<in> set as" for a
      using that fr c by (auto simp: st2_def cells1 bytes_of_def)
    then show ?thesis unfolding contents_def by (intro arg_cong [where f=concat] map_cong) auto
  qed
  then have ct: "contents st3 (as @ [?n]) = contents st as"
    using same_bytes_contents [OF st3(3) ch3] n2 by (simp add: contents_Cons new_buffer_def bytes_of_def)
  obtain c3 where c3: "cells st3 ?n = Some c3" using rc_invD(5) [OF st3(2), of ?n] by auto
  then have c3': "capacity c3 = ?f" "bsize c3 = 0"
    using same_bytes_cell [OF st3(3) c3] n2 by (auto simp: new_buffer_def)
  have hdr: "hdr_ok st3 w' (as @ [?n])"
  proof (cases "wraw w = 0")
    case True
    obtain d3 where d3: "cells st3 (wbuf w) = Some d3" using rc_invD(5) [OF st3(2), of "wbuf w"] by auto
    obtain d where d: "cells st (wbuf w) = Some d" "4 \<le> unat (bsize d)" using i True by (auto simp: hdr_ok_def)
    then have "bsize d3 = bsize d"
      using same_bytes_cell [OF st3(3) d3] fr c rc_invD(9) [OF rc d(1)]
      by (auto simp: st2_def cells1 split: if_splits)
    with d d3 i True ct show ?thesis by (simp add: hdr_ok_def w'_def)
  qed (use i in \<open>simp add: hdr_ok_def w'_def\<close>)
  have bs: "\<exists>d0. cells st a = Some d0 \<and> bsize d = bsize d0 \<and> capacity d = capacity d0"
    if "cells st3 a = Some d" "a \<noteq> ?n" for a d
    using same_bytes_cell [OF st3(3) that(1)] that(2) c by (auto simp: st2_def cells1 split: if_splits)
  have fc: "full_chain st3 (as @ [?n])"
  proof -
    have "bsize d = capacity d" if d: "a \<in> set as" "cells st3 a = Some d" for a d
    proof -
      obtain d0 where d0: "cells st a = Some d0" "bsize d = bsize d0" "capacity d = capacity d0"
        using bs [OF d(2)] d(1) fr(4) by blast
      show ?thesis
      proof (cases "a = ?a")
        case True
        then show ?thesis using d0 full i by auto
      next
        case False
        have "a \<in> set (butlast as @ [?a])" using d(1) i by (metis append_butlast_last_id)
        then have "a \<in> set (butlast as)" using False by simp
        then show ?thesis using i d0 by (auto simp: full_chain_def)
      qed
    qed
    then show ?thesis by (auto simp: full_chain_def)
  qed
  have cp: "map_option capacity (cells st3 (wbuf w)) = map_option capacity (cells st (wbuf w))"
  proof -
    have "wbuf w \<noteq> ?n" using rc_invD(4) [OF rc] rc_invD(5) [OF rc, of "wbuf w"] by auto
    moreover obtain d where "cells st3 (wbuf w) = Some d" using rc_invD(5) [OF st3(2), of "wbuf w"] by auto
    ultimately show ?thesis using bs [of "wbuf w" d] by auto
  qed
  have "dom (cells st3) \<subseteq> insert ?n (dom (cells st))"
  proof
    fix a assume "a \<in> dom (cells st3)"
    then obtain d where "cells st3 a = Some d" by auto
    then show "a \<in> insert ?n (dom (cells st))" using bs by (cases "a = ?n") auto
  qed
  then have "card (dom (cells st3)) \<le> card (insert ?n (dom (cells st)))"
    using rc_invD(1) [OF rc] by (intro card_mono) auto
  also have "\<dots> \<le> Suc (card (dom (cells st)))" by (simp add: card_insert_le_m1 card_insert_if rc_invD(1) [OF rc])
  finally have dm: "card (dom (cells st3)) \<le> Suc (card (dom (cells st)))" .
  have "wpacket_expand st w = Some (st3, w')"
    using create st3(1) c1 fr(2) by (simp add: wpacket_expand_def set_next_def buf_at_def st2_def [symmetric] w'_def)
  moreover have "wp_inv st3 R w' (as @ [?n])"
    using i st3(2) ch3 ct c3 c3' hdr fc fact_ok_double [of "factor w"]
    by (simp add: wp_inv_def w'_def add_mset_commute)
  ultimately show ?thesis
    using ct c3 c3' st3(4) cp dm by (intro exI [of _ st3] exI [of _ c3]) (simp add: st2_def st1_def grown_def)
qed

section \<open>Writing\<close>

definition room :: "bstore \<Rightarrow> wpacket \<Rightarrow> nat" where
  "room st w = (case cells st (writebuf w) of None \<Rightarrow> 0
     | Some c \<Rightarrow> unat (capacity c) - unat (wpos w) + growth (factor w))"

text \<open>What writing \<open>bs\<close> makes of the packet.\<close>

definition written :: "bstore \<Rightarrow> addr multiset \<Rightarrow> wpacket \<Rightarrow> addr list \<Rightarrow> byte list \<Rightarrow> bstore \<Rightarrow> wpacket \<Rightarrow> addr list \<Rightarrow> bool" where
  "written st R w as bs st' w' as' \<longleftrightarrow>
     wp_inv st' R w' as' \<and> payload st' w' as' = payload st w as @ bs \<and>
     room st' w' = room st w - length bs \<and>
     unat (data_size w') = unat (data_size w) + length bs \<and>
     map_option capacity (cells st' (wbuf w)) = map_option capacity (cells st (wbuf w)) \<and>
     card (dom (cells st')) + quota st' \<le> card (dom (cells st)) + quota st \<and>
     wraw w' = wraw w \<and> wbuf w' = wbuf w \<and> wbegin_pos w' = wbegin_pos w \<and> wmt w' = wmt w"

lemma wp_inv_pos:
  assumes "wp_inv st R w as"
  obtains c where "cells st (writebuf w) = Some c" "bsize c = wpos w" "wpos w \<le> capacity c"
    "writebuf w \<noteq> NULL"
proof -
  from assms obtain c where c: "cells st (writebuf w) = Some c" "bsize c = wpos w"
    and rc: "rc_inv st (add_mset (wbuf w) (add_mset (writebuf w) R))" by (auto simp: wp_inv_def)
  from rc_invD(6,9) [OF rc c(1)] c that show thesis by (auto simp: buf_ok_def)
qed

lemma wpacket_chunk_written:
  assumes inv: "wp_inv st R w as" and c: "cells st (writebuf w) = Some c"
    and n: "n = min (unat (capacity c - wpos w)) (length bs)"
    and total: "unat (data_size w) + length bs < 2 ^ 32"
  shows "\<exists>st' w'. wpacket_chunk st w (take n bs) = Some (st', w') \<and> quota st' = quota st \<and>
    factor w' = factor w \<and> written st R w as (take n bs) st' w' as"
proof -
  obtain "bsize c = wpos w" and le: "wpos w \<le> capacity c" using wp_inv_pos [OF inv] c by auto
  have cap: "unat (capacity c - wpos w) = unat (capacity c) - unat (wpos w)"
    by (rule unat_sub_le [OF le])
  have ln: "length (take n bs) = n" using n by simp
  have f1: "unat (wpos w) + length (take n bs) \<le> unat (capacity c)"
    using n cap le ln by (simp add: word_le_nat_alt)
  have ct: "length (contents st as) = unat (data_size w)" using inv by (simp add: wp_inv_def)
  have f2: "length (contents st as) + length (take n bs) < 2 ^ 32" using total ct by simp
  define w' where "w' = w\<lparr>wpos := wpos w + word_of_nat (length (take n bs)),
    data_size := data_size w + word_of_nat (length (take n bs))\<rparr>"
  obtain st' c' where st': "wpacket_chunk st w (take n bs) = Some (st', w')" "wp_inv st' R w' as"
    "payload st' w' as = payload st w as @ take n bs" "quota st' = quota st"
    "cells st' (writebuf w) = Some c'" "capacity c' = capacity c"
    "\<forall>a. map_option capacity (cells st' a) = map_option capacity (cells st a)"
    using wpacket_chunk_ok [OF inv c f1 f2] unfolding w'_def by blast
  have dm: "dom (cells st') = dom (cells st)"
    using st'(7) unfolding dom_def by (metis option.map_disc_iff)
  have nn: "unat (word_of_nat (length (take n bs)) :: u32) = n"
    unfolding ln using total n by (intro unat_word_of_nat) simp
  have "unat (wpos w') = unat (wpos w) + n"
    unfolding w'_def using unat_add_le [of "wpos w" "word_of_nat (length (take n bs))" "capacity c"] f1 nn ln
    by simp
  moreover have "unat (data_size w') = unat (data_size w) + n"
    unfolding w'_def using nn ln total n by (simp add: unat_word_ariths)
  moreover have "unat (capacity c) - (unat (wpos w) + n) + growth (factor w) =
      unat (capacity c) - unat (wpos w) + growth (factor w) - n"
  proof -
    have "n \<le> unat (capacity c) - unat (wpos w)" using n cap by simp
    then show ?thesis by linarith
  qed
  moreover have keep: "factor w' = factor w" "writebuf w' = writebuf w" "wraw w' = wraw w" "wbuf w' = wbuf w"
    "wbegin_pos w' = wbegin_pos w" "wmt w' = wmt w" by (simp_all add: w'_def)
  ultimately have "written st R w as (take n bs) st' w' as"
    using st' c ln dm by (simp add: written_def room_def)
  with st'(1,4) keep(1) show ?thesis by blast
qed

lemma written_trans:
  "written st R w as bs1 st1 w1 as1 \<Longrightarrow> written st1 R w1 as1 bs2 st2 w2 as2 \<Longrightarrow>
     written st R w as (bs1 @ bs2) st2 w2 as2"
  by (simp add: written_def)

lemma written_expand:
  assumes inv: "wp_inv st R w as" and c: "cells st (writebuf w) = Some c"
    and full: "capacity c - wpos w = 0" and q: "0 < quota st"
  shows "\<exists>st' w' as'. wpacket_expand st w = Some (st', w') \<and> quota st' < quota st \<and>
    (growth (factor w) \<noteq> 0 \<longrightarrow> q' + growth (factor w) \<le> quota st \<longrightarrow> q' + growth (factor w') \<le> quota st') \<and>
    written st R w as [] st' w' as'"
proof -
  define w' where "w' = w\<lparr>factor := push_bit 1 (factor w), writebuf := fresh st, wpos := 0\<rparr>"
  obtain st' c' where st': "wpacket_expand st w = Some (st', w')" "wp_inv st' R w' (as @ [fresh st])"
    "contents st' (as @ [fresh st]) = contents st as" "quota st' = quota st - 1"
    "cells st' (fresh st) = Some c'" "capacity c' = ucast (push_bit 1 (factor w))"
    "map_option capacity (cells st' (wbuf w)) = map_option capacity (cells st (wbuf w))"
    "card (dom (cells st')) \<le> Suc (card (dom (cells st)))"
    using wpacket_expand_ok [OF inv q] full c unfolding w'_def by auto
  have "fact_ok (factor w)" using inv by (simp add: wp_inv_def)
  note g = fact_ok_double [OF this, THEN conjunct2]
  have uc: "unat (ucast (push_bit 1 (factor w)) :: u32) = unat (push_bit 1 (factor w))"
    using unat_less_pow [of "push_bit 1 (factor w)"] by (intro unat_ucast_wide) simp
  have "capacity c = wpos w" using full by simp
  then have r: "room st' w' = room st w" using st'(5,6) c g uc by (simp add: room_def w'_def)
  have g': "q' + growth (factor w') \<le> quota st'" if "growth (factor w) \<noteq> 0" "q' + growth (factor w) \<le> quota st"
  proof -
    have "push_bit 1 (factor w) \<noteq> 0" using that(1) g by (auto simp: growth_def)
    then have "0 < unat (push_bit 1 (factor w))" by (simp add: unat_gt_0)
    then show ?thesis using that(2) g st'(4) by (simp add: w'_def)
  qed
  have "payload st' w' (as @ [fresh st]) = payload st w as" using st'(3) by (simp add: payload_def w'_def)
  with st' r g' q show ?thesis
    by (intro exI [of _ st'] exI [of _ w'] exI [of _ "as @ [fresh st]"]) (auto simp: written_def w'_def)
qed

lemma wpacket_expand_oom:
  assumes inv: "wp_inv st R w as" and q: "quota st = 0" and e: "wpacket_expand st w = Some (st', w')"
  shows "writebuf w' = NULL"
proof -
  have f: "0 < fresh st" using inv rc_invD(3) unfolding wp_inv_def by blast
  have acq: "buffer_acquire s a NULL = Some (s', b) \<Longrightarrow> b = NULL" for s a s' b
    by (auto simp: buffer_acquire_def Option.bind_eq_Some_conv split: if_splits)
  show ?thesis using e q buffer_create_and_acquire_eq [OF f] acq
    by (auto simp: wpacket_expand_def Let_def Option.bind_eq_Some_conv)
qed

text \<open>The rest of an iteration, after the buffer has been extended if it was full.\<close>

definition write_rest :: "byte list \<Rightarrow> bstore \<Rightarrow> wpacket \<Rightarrow> (bstore \<times> wpacket) option" where
  "write_rest bs st1 w1 = do {
     c1 \<leftarrow> buf_at st1 (writebuf w1);
     let n = min (unat (capacity c1 - wpos w1)) (length bs);
     (st2, w2) \<leftarrow> wpacket_chunk st1 w1 (take n bs);
     wpacket_write_loop st2 w2 (drop n bs) }"

text \<open>
  What a write function does, with \<open>q\<close> allocations to spare: it appends the bytes if there is room
  and does not return otherwise.
\<close>

definition write_law :: "nat \<Rightarrow> (bstore \<Rightarrow> wpacket \<Rightarrow> (bstore \<times> wpacket) option) \<Rightarrow> addr multiset \<Rightarrow>
    bstore \<Rightarrow> wpacket \<Rightarrow> addr list \<Rightarrow> byte list \<Rightarrow> bool" where
  "write_law q f R st w as bs \<longleftrightarrow>
     (length bs \<le> room st w \<and> q + growth (factor w) \<le> quota st \<longrightarrow>
       (\<exists>st' w' as'. f st w = Some (st', w') \<and> written st R w as bs st' w' as' \<and>
          q + growth (factor w') \<le> quota st')) \<and>
     (room st w < length bs \<longrightarrow> f st w = None)"

lemma write_rest_law:
  assumes inv: "wp_inv st R w as" "unat (data_size w) + length bs < 2 ^ 32"
    and c: "cells st (writebuf w) = Some c" "n = min (unat (capacity c - wpos w)) (length bs)"
    and IH: "\<And>st' w'. quota st' = quota st \<Longrightarrow> wp_inv st' R w' as \<Longrightarrow>
      unat (data_size w') + length (drop n bs) < 2 ^ 32 \<Longrightarrow>
      write_law q (\<lambda>st w. wpacket_write_loop st w (drop n bs)) R st' w' as (drop n bs)"
  shows "write_law q (write_rest bs) R st w as bs"
proof -
  obtain st' w' where st': "wpacket_chunk st w (take n bs) = Some (st', w')" "quota st' = quota st"
    "factor w' = factor w" "written st R w as (take n bs) st' w' as"
    using wpacket_chunk_written [OF inv(1) c inv(2)] by blast
  have nz: "writebuf w \<noteq> NULL" using wp_inv_pos [OF inv(1)] by blast
  have n: "length (take n bs) = n" "n \<le> length bs" using c(2) by auto
  have tot: "unat (data_size w') + length (drop n bs) < 2 ^ 32"
    using st'(4) inv(2) n by (simp add: written_def)
  have law: "write_law q (\<lambda>st w. wpacket_write_loop st w (drop n bs)) R st' w' as (drop n bs)"
    using IH [OF st'(2) _ tot] st'(4) by (simp add: written_def)
  have eq: "write_rest bs st w = wpacket_write_loop st' w' (drop n bs)"
    using c nz st'(1) by (simp add: write_rest_def buf_at_def Let_def flip: c(2))
  have r: "room st' w' = room st w - n" using st'(4) n by (simp add: written_def)
  have "wpos w \<le> capacity c" using wp_inv_pos [OF inv(1)] c(1) by (metis option.inject)
  then have nr: "n \<le> room st w" using c unat_sub_le [of "wpos w" "capacity c"] by (simp add: room_def)
  show ?thesis
    unfolding write_law_def
  proof (intro conjI impI)
    assume h: "length bs \<le> room st w \<and> q + growth (factor w) \<le> quota st"
    have "length (drop n bs) \<le> room st' w' \<and> q + growth (factor w') \<le> quota st'"
      using h r st'(2,3) n by (simp add: diff_le_mono)
    then obtain st2 w2 as2 where o: "wpacket_write_loop st' w' (drop n bs) = Some (st2, w2)"
      "written st' R w' as (drop n bs) st2 w2 as2" "q + growth (factor w2) \<le> quota st2"
      using law unfolding write_law_def by blast
    have "written st R w as bs st2 w2 as2" using written_trans [OF st'(4) o(2)] by simp
    with o(1,3) eq
    show "\<exists>st' w' as'. write_rest bs st w = Some (st', w') \<and> written st R w as bs st' w' as' \<and>
          q + growth (factor w') \<le> quota st'" by auto
  next
    assume "room st w < length bs"
    then show "write_rest bs st w = None" using law r eq nr by (simp add: write_law_def)
  qed
qed

lemma wpacket_write_loop_law:
  assumes "wp_inv st R w as" "unat (data_size w) + length bs < 2 ^ 32"
  shows "write_law q (\<lambda>st w. wpacket_write_loop st w bs) R st w as bs"
  using assms
proof (induction "quota st + length bs" arbitrary: st w as bs rule: less_induct)
  case less
  note inv = less.prems
  show ?case
  proof (cases "bs = []")
    case True
    then have "wpacket_write_loop st w bs = Some (st, w)" by (subst wpacket_write_loop.simps) simp
    with True inv show ?thesis by (auto simp: written_def write_law_def)
  next
    case ne: False
    obtain c where c: "cells st (writebuf w) = Some c" "wpos w \<le> capacity c" "writebuf w \<noteq> NULL"
      using wp_inv_pos [OF inv(1)] by blast
    show ?thesis
    proof (cases "capacity c - wpos w = 0")
      case False
      define n where "n = min (unat (capacity c - wpos w)) (length bs)"
      have "0 < n" using False ne by (simp add: n_def unat_gt_0)
      then have "write_law q (write_rest bs) R st w as bs"
        using ne by (intro write_rest_law [OF inv c(1) n_def] less.hyps) auto
      moreover have "wpacket_write_loop st w bs = write_rest bs st w"
        using ne c False by (subst wpacket_write_loop.simps) (simp add: buf_at_def write_rest_def)
      ultimately show ?thesis by (simp add: write_law_def)
    next
      case full: True
      have loop: "wpacket_write_loop st w bs = do { (st1, w1) \<leftarrow> wpacket_expand st w; write_rest bs st1 w1 }"
        using ne c full
        by (subst wpacket_write_loop.simps) (simp add: buf_at_def write_rest_def split_def)
      show ?thesis
      proof (cases "quota st = 0")
        case True
        then have "wpacket_write_loop st w bs = None"
          using loop wpacket_expand_oom [OF inv(1) True]
          by (auto simp: write_rest_def buf_at_def split: Option.bind_splits)
        moreover have "room st w = growth (factor w)" using full c(1) by (simp add: room_def)
        ultimately show ?thesis using ne True by (cases bs) (auto simp: write_law_def)
      next
        case False
        then obtain st1 w1 as1 where e: "wpacket_expand st w = Some (st1, w1)" "quota st1 < quota st"
          "growth (factor w) \<noteq> 0 \<longrightarrow> q + growth (factor w) \<le> quota st \<longrightarrow> q + growth (factor w1) \<le> quota st1"
          "written st R w as [] st1 w1 as1"
          using written_expand [OF inv(1) c(1) full, of q] by auto
        have rg: "room st w = growth (factor w)" using full c(1) by (simp add: room_def)
        have i1: "wp_inv st1 R w1 as1" "unat (data_size w1) + length bs < 2 ^ 32" "room st1 w1 = room st w"
          using e(4) inv(2) by (auto simp: written_def)
        obtain c1 where c1: "cells st1 (writebuf w1) = Some c1" using wp_inv_pos [OF i1(1)] by blast
        have "write_law q (write_rest bs) R st1 w1 as1 bs"
          using e(2) by (intro write_rest_law [OF i1(1,2) c1 refl] less.hyps) auto
        then show ?thesis
          using loop e(1,3) i1(3) rg ne written_trans [OF e(4), of bs]
          by (cases bs) (auto simp: write_law_def, blast)
      qed
    qed
  qed
qed

section \<open>Creation and properties\<close>

lemma ucast_pow2_fact:
  assumes "unat (sz::u32) = 2 ^ k" "k < 32"
  shows "fact_ok (ucast sz)" "growth (ucast sz) = (if k < 8 then 256 - 2 * 2 ^ k else 0)"
proof -
  have u: "unat (ucast sz :: u8) = 2 ^ k mod 2 ^ 8"
    using assms(1) by (simp add: unsigned_ucast_eq take_bit_eq_mod)
  show "fact_ok (ucast sz)" and "growth (ucast sz) = (if k < 8 then 256 - 2 * 2 ^ k else 0)"
  proof (atomize (full), cases "k < 8")
    case True
    have "(2::nat) ^ k < 2 ^ 8" using True by (intro power_strict_increasing) auto
    then have "unat (ucast sz :: u8) = unat (2 ^ k :: u8)" using u unat_power2 [of k, where 'a=8] True by simp
    then have e: "(ucast sz :: u8) = 2 ^ k" by (simp only: word_unat_eq_iff)
    moreover have "unat (2 ^ k :: u8) = 2 ^ k" using True by (intro unat_power2) simp
    moreover from this have "(2 ^ k :: u8) \<noteq> 0" by (metis power_not_zero unat_0 zero_neq_numeral)
    ultimately show "fact_ok (ucast sz) \<and> growth (ucast sz) = (if k < 8 then 256 - 2 * 2 ^ k else 0)"
      using True by (auto simp: fact_ok_def growth_def)
  next
    case False
    then have "(2::nat) ^ k = 2 ^ 8 * 2 ^ (k - 8)" by (metis le_add_diff_inverse not_less power_add)
    then have "(ucast sz :: u8) = 0" using u by (simp add: unat_eq_zero)
    then show "fact_ok (ucast sz) \<and> growth (ucast sz) = (if k < 8 then 256 - 2 * 2 ^ k else 0)"
      using False by (simp add: fact_ok_def growth_def)
  qed
qed

text \<open>The space a new packet has, for a requested size \<open>sz\<close>.\<close>

definition capacity_of_new :: "u32 \<Rightarrow> u8 \<Rightarrow> nat" where
  "capacity_of_new sz is_raw =
     (let s = unat (GetSize_of_pow2 sz); hdr = (if is_raw = 0 then 4 else 0)
      in s - hdr + (if s < 256 then 256 - 2 * s else 0))"

lemma wpacket_create_ok:
  assumes inv: "rc_inv st R" and q: "0 < quota st" and sz: "1 \<le> sz" "sz \<le> 2 ^ 31" "is_raw = 0 \<longrightarrow> 3 \<le> sz"
  shows "\<exists>st' w. wpacket_create st m sz is_raw = Some (st', w) \<and> wp_inv st' R w [fresh st] \<and>
    payload st' w [fresh st] = [] \<and> room st' w = capacity_of_new sz is_raw \<and>
    quota st' = quota st - 1 \<and> wbegin_pos w = 0 \<and> wbuf w = fresh st \<and> wraw w = is_raw \<and>
    unat (data_size w) = (if is_raw = 0 then 4 else 0) \<and> growth (factor w) \<le> 256 \<and>
    map_option capacity (cells st' (fresh st)) = Some (GetSize_of_pow2 sz) \<and>
    card (dom (cells st')) \<le> Suc (card (dom (cells st)))"
proof -
  let ?n = "fresh st" and ?s = "GetSize_of_pow2 sz"
  define k where "k = unat (GetK sz)"
  have s: "unat ?s = 2 ^ k" "sz \<le> ?s" "unat ?s < 2 * unat sz"
    using GetSize_of_pow2_law [OF sz(1,2)] by (auto simp: k_def)
  have "(2::nat) ^ k < 2 ^ 32" using s(1,3) sz(2) by (simp add: word_le_nat_alt)
  then have k: "k < 32" by (rule power_less_imp_less_exp [rotated]) simp
  have "(2::nat) ^ k \<le> 2 ^ 31" using k by (intro power_increasing) auto
  then have fit: "SIZEOF_BUFFER + unat ?s < 2 ^ 32" using s(1) by simp
  define h :: u32 where "h = (if is_raw = 0 then 4 else 0)"
  have s4: "4 \<le> unat ?s" if "is_raw = 0"
  proof -
    have "3 \<le> (2::nat) ^ k" using s(1,2) sz(3) that by (simp add: word_le_nat_alt)
    then have "2 \<le> k" by (cases "k = 0"; cases "k = 1") auto
    then have "(2::nat) ^ 2 \<le> 2 ^ k" by (intro power_increasing) auto
    then show ?thesis using s(1) by simp
  qed
  have fr: "?n \<noteq> NULL" using rc_invD(3) [OF inv] by simp
  define c2 where "c2 = (new_buffer m ?s)\<lparr>refcount := 2\<rparr>"
  define st2 where "st2 = put_buf (grown st m ?s) ?n c2"
  have create: "buffer_create_and_acquire st m NULL ?s = Some (grown st m ?s, ?n)"
    using q fit fr by (simp add: buffer_create_and_acquire_eq)
  have n1: "cells (grown st m ?s) ?n = Some (new_buffer m ?s)" by (simp add: grown_def)
  have acq: "buffer_acquire (grown st m ?s) NULL ?n = Some (st2, ?n)" "rc_inv st2 (add_mset ?n (add_mset ?n R))"
    using buffer_acquire_inv [OF grown_inv [OF inv] n1] by (auto simp: st2_def c2_def new_buffer_def)
  define c3 where "c3 = c2\<lparr>bsize := h\<rparr>"
  define st3 where "st3 = put_buf st2 ?n c3"
  have n2: "cells st2 ?n = Some c2" by (simp add: st2_def)
  have hs: "h \<le> ?s" using s4 by (simp add: h_def word_le_nat_alt)
  have rc3: "rc_inv st3 (add_mset ?n (add_mset ?n R))" unfolding st3_def
    using rc_invD(6,8) [OF acq(2) n2] hs
    by (intro rc_inv_put [OF acq(2) n2]) (auto simp: c3_def buf_ok_def c2_def new_buffer_def)
  have zero: "splice (replicate (unat ?s) 0) 0 (le_bytes 4 0) = (replicate (unat ?s) 0 :: byte list)"
    if "is_raw = 0"
  proof -
    have "replicate 4 0 @ replicate (unat ?s - 4) 0 = (replicate (unat ?s) 0 :: byte list)"
      using s4 [OF that] by (subst replicate_add [symmetric]) simp
    then show ?thesis by (simp add: splice_def le_bytes_zero)
  qed
  define w where "w = \<lparr>wlen = (if is_raw = 0 then ?n else NULL), wbuf = ?n, writebuf = ?n, wpos = h,
    factor = ucast ?s, wbegin_pos = 0, data_size = h, wraw = is_raw, wmt = m\<rparr>"
  have run: "wpacket_create st m sz is_raw = Some (st3, w)"
  proof (cases "is_raw = 0")
    case True
    have "store32 st2 ?n 0 = Some st2"
      using n2 fr s4 [OF True] zero [OF True]
      by (simp add: store32_def memcpy_to_def buf_at_def st2_def c2_def new_buffer_def)
    then show ?thesis
      using create acq(1) n2 fr True
      by (simp add: wpacket_create_def set_size_def buf_at_def w_def st3_def c3_def h_def)
  next
    case False
    then show ?thesis
      using create acq(1) n2 fr by (simp add: wpacket_create_def set_size_def buf_at_def w_def st3_def c3_def h_def)
  qed
  have ct: "contents st3 [?n] = replicate (unat h) 0"
    using hs by (simp add: contents_Cons st3_def c3_def c2_def new_buffer_def bytes_of_def word_le_nat_alt min_def)
  have ch: "chain (bnexts st3) ?n [?n] NULL"
    using fr by (simp add: st3_def c3_def c2_def new_buffer_def)
  have "le_val (replicate n 0) = 0" for n by (induction n) auto
  moreover have n3: "cells st3 ?n = Some c3" "bsize c3 = h" by (simp_all add: st3_def c3_def)
  ultimately have "wp_inv st3 R w [?n]"
    using rc3 ch ct ucast_pow2_fact(1) [OF s(1) k]
    by (simp add: wp_inv_def w_def hdr_ok_def h_def full_chain_def)
  moreover have "k < 8 \<longleftrightarrow> unat ?s < 256"
    using s(1) power_strict_increasing_iff [of "2::nat" k 8] by simp
  then have "room st3 w = capacity_of_new sz is_raw"
    using ucast_pow2_fact(2) [OF s(1) k] s(1)
    by (simp add: room_def capacity_of_new_def w_def st3_def c3_def c2_def new_buffer_def h_def Let_def)
  moreover have "payload st3 w [?n] = []" using ct by (simp add: payload_def w_def h_def)
  ultimately show ?thesis using run
    by (intro exI [of _ st3] exI [of _ w])
      (simp add: w_def st3_def st2_def c3_def c2_def new_buffer_def grown_def h_def ucast_pow2_fact(2) [OF s(1) k]
        card_insert_if rc_invD(1) [OF inv])
qed

lemma wpacket_own_self: "writebuf w \<noteq> NULL \<Longrightarrow> wpacket_own st w = Some (st, w)"
  by (simp add: wpacket_own_def)

lemma wpacket_write_law:
  assumes "wp_inv st R w as" "unat (data_size w) + length bs < 2 ^ 32"
  shows "write_law q (\<lambda>st w. wpacket_write st w bs) R st w as bs"
proof -
  have "writebuf w \<noteq> NULL" using wp_inv_pos [OF assms(1)] by blast
  then have "wpacket_write st w bs = wpacket_write_loop st w bs"
    by (simp add: wpacket_write_def wpacket_own_self)
  then show ?thesis using wpacket_write_loop_law [OF assms] by (simp add: write_law_def)
qed

text \<open>
  Claim C14. A write that fits succeeds, across as many buffer boundaries as needed: the payload is
  extended by exactly the bytes written, the length field and \<open>data_size\<close> follow, the space left
  shrinks by as much, and all reference counts stay exact.
\<close>

theorem wpacket_write_appends:
  assumes "wp_inv st R w as" "unat (data_size w) + length bs < 2 ^ 32"
    "length bs \<le> room st w" "growth (factor w) \<le> quota st"
  shows "\<exists>st' w' as'. wpacket_write st w bs = Some (st', w') \<and> written st R w as bs st' w' as'"
  using wpacket_write_law [OF assms(1,2), of 0] assms(3,4) by (auto simp: write_law_def)

lemma wpacket_create_64:
  "\<exists>st w. wpacket_create (empty_store 300) 0 64 0 = Some (st, w) \<and> wp_inv st {#} w [1] \<and>
     payload st w [1] = [] \<and> room st w = 188 \<and> growth (factor w) \<le> quota st \<and> unat (data_size w) = 4"
proof -
  have p: "is_pow_of_2 64" by (simp add: is_pow_of_2_def)
  have c: "capacity_of_new 64 0 = 188" using p by (simp add: capacity_of_new_def GetSize_of_pow2_def)
  have e: "fresh (empty_store 300) = 1" "quota (empty_store 300) = 300" by (simp_all add: empty_store_def)
  obtain st w where 1: "wpacket_create (empty_store 300) 0 64 0 = Some (st, w)" "wp_inv st {#} w [1]"
     "payload st w [1] = []" "room st w = 188" "quota st = 299"
     "unat (data_size w) = 4" "growth (factor w) \<le> 256"
    using wpacket_create_ok [OF rc_inv_empty_store, of 300 64 0 0] unfolding e c by auto
  then show ?thesis by (intro exI [of _ st] exI [of _ w]) simp
qed

theorem wpacket_write_appends_witness:
  "\<exists>st w st' w' as'. wpacket_create (empty_store 300) 0 64 0 = Some (st, w) \<and>
     wpacket_write st w (replicate 100 7) = Some (st', w') \<and>
     payload st' w' as' = replicate 100 7 \<and> room st' w' = 88"
proof -
  obtain st w where 1: "wpacket_create (empty_store 300) 0 64 0 = Some (st, w)" "wp_inv st {#} w [1]"
     "payload st w [1] = []" "room st w = 188" "growth (factor w) \<le> quota st" "unat (data_size w) = 4"
    using wpacket_create_64 by blast
  then obtain st' w' as' where "wpacket_write st w (replicate 100 7) = Some (st', w')"
      "written st {#} w [1] (replicate 100 7) st' w' as'"
    using wpacket_write_appends [OF 1(2), of "replicate 100 7"] by auto
  with 1 have "payload st' w' as' = replicate 100 7" "room st' w' = 88" by (simp_all add: written_def)
  with 1(1) \<open>wpacket_write st w (replicate 100 7) = Some (st', w')\<close> show ?thesis by blast
qed

text \<open>
  Claim C15. The growth factor is 8 bits wide, so buffers stop growing at 128 bytes and the next one
  has capacity 0: a write that exceeds the space left never completes, however much memory there
  is. The loop appends empty buffers until allocation fails and then dereferences a null pointer.
\<close>

theorem wpacket_write_overflow:
  assumes "wp_inv st R w as" "unat (data_size w) + length bs < 2 ^ 32" "room st w < length bs"
  shows "wpacket_write st w bs = None"
  using wpacket_write_law [OF assms(1,2), of 0] assms(3) unfolding write_law_def by blast

theorem wpacket_write_overflow_witness:
  "\<exists>st w. wpacket_create (empty_store 300) 0 64 0 = Some (st, w) \<and>
     wpacket_write st w (replicate 189 7) = None"
proof -
  obtain st w where 1: "wpacket_create (empty_store 300) 0 64 0 = Some (st, w)" "wp_inv st {#} w [1]"
     "payload st w [1] = []" "room st w = 188" "growth (factor w) \<le> quota st" "unat (data_size w) = 4"
    using wpacket_create_64 by blast
  have "wpacket_write st w (replicate 189 7) = None"
    using wpacket_write_overflow [OF 1(2), of "replicate 189 7"] 1(4,6) by simp
  with 1(1) show ?thesis by blast
qed

text \<open>
  Creating a packet of a size between 3 and \<open>2 ^ 31\<close> gives an empty packet with exact
  reference counts, and destroying a packet in any reachable state gives back both of its
  references: nothing is left allocated when there is no other owner.
\<close>

theorem wpacket_lifecycle:
  "(\<forall>st R sz m. rc_inv st R \<and> 0 < quota st \<and> 3 \<le> sz \<and> sz \<le> 2 ^ 31 \<longrightarrow>
     (\<exists>st' w. wpacket_create st m sz 0 = Some (st', w) \<and> wp_inv st' R w [fresh st] \<and>
        payload st' w [fresh st] = [] \<and> room st' w = capacity_of_new sz 0)) \<and>
   (\<forall>st R w as. wp_inv st R w as \<longrightarrow>
     (\<exists>st'. wpacket_destroy st w = Some st' \<and> rc_inv st' R \<and> (R = {#} \<longrightarrow> cells st' = Map.empty)))"
proof (intro conjI allI impI)
  fix st R m and sz :: u32
  assume a: "rc_inv st R \<and> 0 < quota st \<and> 3 \<le> sz \<and> sz \<le> 2 ^ 31"
  then have "1 \<le> sz" by (simp add: word_le_nat_alt)
  with a show "\<exists>st' w. wpacket_create st m sz 0 = Some (st', w) \<and> wp_inv st' R w [fresh st] \<and>
        payload st' w [fresh st] = [] \<and> room st' w = capacity_of_new sz 0"
    using wpacket_create_ok [of st R sz 0 m] by blast
next
  fix st R w as
  assume "wp_inv st R w as"
  then have "rc_inv st (add_mset (wbuf w) (add_mset (writebuf w) R))" by (simp add: wp_inv_def)
  then obtain st1 where st1: "buffer_release st (wbuf w) = Some st1" "rc_inv st1 (add_mset (writebuf w) R)"
    using buffer_release_inv by blast
  then obtain st2 where "buffer_release st1 (writebuf w) = Some st2" "rc_inv st2 R"
    using buffer_release_inv by blast
  with st1 show "\<exists>st'. wpacket_destroy st w = Some st' \<and> rc_inv st' R \<and> (R = {#} \<longrightarrow> cells st' = Map.empty)"
    using rc_inv_no_roots by (auto simp: wpacket_destroy_def)
qed

theorem wpacket_lifecycle_witness:
  "\<exists>st w st'. wpacket_create (empty_store 300) 0 64 0 = Some (st, w) \<and>
     wpacket_destroy st w = Some st' \<and> cells st' = Map.empty"
proof -
  obtain st w where "wpacket_create (empty_store 300) 0 64 0 = Some (st, w)" "wp_inv st {#} w [1]"
    using wpacket_create_64 by blast
  then show ?thesis using wpacket_lifecycle by blast
qed

end
