(* ===== verification/Rpacket.thy ===== *)
theory Rpacket
  imports Wpacket
begin

text \<open>
  Received packets (\<open>src/rpacket.c\<close>): a reading position in a chain of buffers, with a second
  buffer \<open>binbuf\<close> that collects binary data crossing a buffer boundary. The pointers handed out by
  the binary reads are pairs of a buffer and an offset. The theory also has the conversion of a
  received packet into one to be sent (\<open>wpacket_create_by_rpacket\<close> of \<open>src/wpacket.c\<close>).
\<close>

record rpacket =
  rlen :: u32
  rpos :: u32
  data_remain :: u32
  binbufpos :: u32
  rbegin_pos :: u32
  binbuf :: addr
  rbuf :: addr
  readbuf :: addr
  rraw :: u8
  rmt :: u8

type_synonym bptr = "(addr \<times> u32) option"

definition rpacket_create :: "bstore \<Rightarrow> u8 \<Rightarrow> addr \<Rightarrow> u32 \<Rightarrow> u32 \<Rightarrow> u8 \<Rightarrow> (bstore \<times> rpacket) option" where
  "rpacket_create st m b pos pk_len is_raw = do {
     (st1, rb) \<leftarrow> buffer_acquire st NULL b;
     (st2, rd) \<leftarrow> buffer_acquire st1 NULL b;
     Some (st2, \<lparr>rlen = pk_len, rpos = (if is_raw \<noteq> 0 then pos else pos + 4), data_remain = pk_len,
       binbufpos = 0, rbegin_pos = pos, binbuf = NULL, rbuf = rb, readbuf = rd,
       rraw = is_raw, rmt = m\<rparr>) }"

definition rpacket_create_by_wpacket :: "bstore \<Rightarrow> wpacket \<Rightarrow> (bstore \<times> rpacket) option" where
  "rpacket_create_by_wpacket st w = do {
     (st1, rb) \<leftarrow> buffer_acquire st NULL (wbuf w);
     (st2, rd) \<leftarrow> buffer_acquire st1 NULL (wbuf w);
     let r = \<lparr>rlen = 0, rpos = 0, data_remain = 0, binbufpos = 0, rbegin_pos = wbegin_pos w,
              binbuf = NULL, rbuf = rb, readbuf = rd, rraw = wraw w, rmt = wmt w\<rparr>;
     (st3, r1) \<leftarrow>
       (if wraw w \<noteq> 0 then Some (st2, r\<lparr>rlen := data_size w, rpos := wbegin_pos w\<rparr>)
        else do {
          let r' = r\<lparr>rlen := data_size w - 4\<rparr>;
          c \<leftarrow> buf_at st2 rd;
          (if bsize c - rbegin_pos r' > 4 then Some (st2, r'\<lparr>rpos := wbegin_pos w + 4\<rparr>)
           else do {
             (st3, nb) \<leftarrow> buffer_acquire st2 rd (bnext c);
             Some (st3, r'\<lparr>readbuf := nb, rpos := 0 + 4\<rparr>) }) });
     Some (st3, r1\<lparr>data_remain := rlen r1\<rparr>) }"

definition wpacket_create_by_rpacket :: "bstore \<Rightarrow> rpacket \<Rightarrow> (bstore \<times> wpacket) option" where
  "wpacket_create_by_rpacket st r = do {
     (st1, b) \<leftarrow> buffer_acquire st NULL (rbuf r);
     Some (st1, \<lparr>wlen = NULL, wbuf = b, writebuf = NULL, wpos = 0, factor = 0,
       wbegin_pos = rbegin_pos r,
       data_size = (if rraw r \<noteq> 0 then rlen r else rlen r + 4), wraw = rraw r, wmt = rmt r\<rparr>) }"

definition rpacket_destroy :: "bstore \<Rightarrow> rpacket \<Rightarrow> bstore option" where
  "rpacket_destroy st r = do {
     st1 \<leftarrow> buffer_release st (rbuf r);
     st2 \<leftarrow> buffer_release st1 (readbuf r);
     buffer_release st2 (binbuf r) }"

definition rpacket_len :: "rpacket \<Rightarrow> u32" where
  "rpacket_len r = rlen r"

definition rpacket_data_remain :: "rpacket \<Rightarrow> u32" where
  "rpacket_data_remain r = data_remain r"

text \<open>Leaving a buffer that is used up while data remains.\<close>

definition next_readbuf :: "bstore \<Rightarrow> rpacket \<Rightarrow> (bstore \<times> rpacket) option" where
  "next_readbuf st r = do {
     c \<leftarrow> buf_at st (readbuf r);
     (if rpos r \<ge> bsize c \<and> data_remain r \<noteq> 0
      then do { (st1, nb) \<leftarrow> buffer_acquire st (readbuf r) (bnext c); Some (st1, r\<lparr>rpos := 0, readbuf := nb\<rparr>) }
      else Some (st, r)) }"

partial_function (option) rpacket_read_loop ::
    "bstore \<Rightarrow> rpacket \<Rightarrow> byte list \<Rightarrow> u32 \<Rightarrow> (bstore \<times> rpacket \<times> byte list) option" where
  [code]: "rpacket_read_loop st r out n =
     (if \<not> n > 0 then Some (st, r, out)
      else do {
        c \<leftarrow> buf_at st (readbuf r);
        let copy_size = (if bsize c - rpos r \<ge> n then n else bsize c - rpos r);
        bs \<leftarrow> memcpy_from st (readbuf r) (rpos r) copy_size;
        let r1 = r\<lparr>rpos := rpos r + copy_size, data_remain := data_remain r - copy_size\<rparr>;
        (st2, r2) \<leftarrow> next_readbuf st r1;
        rpacket_read_loop st2 r2 (out @ bs) (n - copy_size) })"

text \<open>The code and, on success, the bytes read.\<close>

definition rpacket_read :: "bstore \<Rightarrow> rpacket \<Rightarrow> u32 \<Rightarrow> (bstore \<times> rpacket \<times> int \<times> byte list) option" where
  "rpacket_read st r n =
     (if data_remain r < n then Some (st, r, -1, [])
      else do { (st1, r1, bs) \<leftarrow> rpacket_read_loop st r [] n; Some (st1, r1, 0, bs) })"

text \<open>The value of a variable of \<open>k\<close> bytes initialised to 0 into which \<open>rpacket_read\<close> copies.\<close>

definition read_value :: "bstore \<Rightarrow> rpacket \<Rightarrow> nat \<Rightarrow> (bstore \<times> rpacket \<times> nat) option" where
  "read_value st r k = do {
     (st1, r1, code, bs) \<leftarrow> rpacket_read st r (word_of_nat k);
     Some (st1, r1, if code = 0 then le_val bs else 0) }"

definition rpacket_read_uint8 :: "bstore \<Rightarrow> rpacket \<Rightarrow> (bstore \<times> rpacket \<times> u8) option" where
  "rpacket_read_uint8 st r = do { (st1, r1, v) \<leftarrow> read_value st r 1; Some (st1, r1, word_of_nat v) }"

definition rpacket_read_uint16 :: "bstore \<Rightarrow> rpacket \<Rightarrow> (bstore \<times> rpacket \<times> u16) option" where
  "rpacket_read_uint16 st r = do { (st1, r1, v) \<leftarrow> read_value st r 2; Some (st1, r1, word_of_nat v) }"

definition rpacket_read_uint32 :: "bstore \<Rightarrow> rpacket \<Rightarrow> (bstore \<times> rpacket \<times> u32) option" where
  "rpacket_read_uint32 st r = do { (st1, r1, v) \<leftarrow> read_value st r 4; Some (st1, r1, word_of_nat v) }"

definition rpacket_read_uint64 :: "bstore \<Rightarrow> rpacket \<Rightarrow> (bstore \<times> rpacket \<times> u64) option" where
  "rpacket_read_uint64 st r = do { (st1, r1, v) \<leftarrow> read_value st r 8; Some (st1, r1, word_of_nat v) }"

text \<open>A \<open>double\<close> by its 64-bit representation.\<close>

definition rpacket_read_double :: "bstore \<Rightarrow> rpacket \<Rightarrow> (bstore \<times> rpacket \<times> u64) option" where
  "rpacket_read_double st r = do { (st1, r1, v) \<leftarrow> read_value st r 8; Some (st1, r1, word_of_nat v) }"

text \<open>The copy loop into \<open>binbuf\<close>, the same in the raw and in the framed reader.\<close>

partial_function (option) bin_copy_loop :: "bstore \<Rightarrow> rpacket \<Rightarrow> u32 \<Rightarrow> (bstore \<times> rpacket) option" where
  [code]: "bin_copy_loop st r n =
     (if n = 0 then Some (st, r)
      else do {
        c \<leftarrow> buf_at st (readbuf r);
        let copy_size = (if bsize c - rpos r \<ge> n then n else bsize c - rpos r);
        bs \<leftarrow> memcpy_from st (readbuf r) (rpos r) copy_size;
        st1 \<leftarrow> memcpy_to st (binbuf r) (binbufpos r) bs;
        let r1 = r\<lparr>rpos := rpos r + copy_size, data_remain := data_remain r - copy_size,
                   binbufpos := binbufpos r + copy_size\<rparr>;
        (st2, r2) \<leftarrow> next_readbuf st1 r1;
        bin_copy_loop st2 r2 (n - copy_size) })"

definition need_binbuf :: "bstore \<Rightarrow> rpacket \<Rightarrow> (bstore \<times> rpacket) option" where
  "need_binbuf st r =
     (if binbuf r = NULL
      then do { (st1, b) \<leftarrow> buffer_create_and_acquire st (rmt r) NULL (rlen r);
                Some (st1, r\<lparr>binbufpos := 0, binbuf := b\<rparr>) }
      else Some (st, r))"

text \<open>
  The raw reader hands out everything that remains. \<open>*len\<close> is the last component, \<open>None\<close> when the
  call leaves it unchanged. Note the order of the assignments in the first branch: \<open>data_remain\<close>
  is reset before it is added to \<open>rpos\<close>.
\<close>

definition rpacket_raw_read_binary :: "bstore \<Rightarrow> rpacket \<Rightarrow> (bstore \<times> rpacket \<times> bptr \<times> u32 option) option" where
  "rpacket_raw_read_binary st r =
     (if data_remain r = 0 then Some (st, r, None, None)
      else do {
        c \<leftarrow> buf_at st (readbuf r);
        (if bsize c - rpos r \<ge> data_remain r
         then do {
           let len = data_remain r;
           let r1 = r\<lparr>data_remain := 0\<rparr>;
           let addr = (readbuf r1, rpos r1);
           Some (st, r1\<lparr>rpos := rpos r1 + data_remain r1\<rparr>, Some addr, Some len) }
         else do {
           (st1, r1) \<leftarrow> need_binbuf st r;
           _ \<leftarrow> buf_at st1 (binbuf r1);
           let addr = (binbuf r1, binbufpos r1);
           (st2, r2) \<leftarrow> bin_copy_loop st1 r1 (data_remain r1);
           Some (st2, r2, Some addr, None) }) })"

definition rpacket_read_binary :: "bstore \<Rightarrow> rpacket \<Rightarrow> (bstore \<times> rpacket \<times> bptr \<times> u32 option) option" where
  "rpacket_read_binary st r =
     (if rraw r \<noteq> 0 then rpacket_raw_read_binary st r
      else do {
        (st1, r1, sz) \<leftarrow> rpacket_read_uint32 st r;
        (if data_remain r1 = 0 \<or> data_remain r1 < sz then Some (st1, r1, None, Some sz)
         else do {
           c \<leftarrow> buf_at st1 (readbuf r1);
           (if bsize c - rpos r1 \<ge> sz
            then do {
              let addr = (readbuf r1, rpos r1);
              (st2, r2) \<leftarrow> next_readbuf st1 (r1\<lparr>rpos := rpos r1 + sz, data_remain := data_remain r1 - sz\<rparr>);
              Some (st2, r2, Some addr, Some sz) }
            else do {
              (st2, r2) \<leftarrow> need_binbuf st1 r1;
              _ \<leftarrow> buf_at st2 (binbuf r2);
              let addr = (binbuf r2, binbufpos r2);
              (st3, r3) \<leftarrow> bin_copy_loop st2 r2 sz;
              Some (st3, r3, Some addr, Some sz) }) }) })"

definition rpacket_read_string :: "bstore \<Rightarrow> rpacket \<Rightarrow> (bstore \<times> rpacket \<times> bptr) option" where
  "rpacket_read_string st r = do {
     (st1, r1, p, _) \<leftarrow> (if rraw r \<noteq> 0 then rpacket_raw_read_binary st r else rpacket_read_binary st r);
     Some (st1, r1, p) }"

section \<open>The invariant of a packet being read\<close>

definition rroots :: "rpacket \<Rightarrow> addr multiset" where
  "rroots r = {#rbuf r, readbuf r#} + (if binbuf r = NULL then {#} else {#binbuf r#})"

text \<open>There are fewer than \<open>2 ^ 31\<close> references to buffers altogether.\<close>

definition few_refs :: "bstore \<Rightarrow> nat \<Rightarrow> bool" where
  "few_refs st n \<longleftrightarrow> int (n + card (dom (cells st))) < INT32_MAX"

text \<open>The references a reader holds or may still come to hold, counting a future \<open>binbuf\<close>.\<close>

definition rquota :: "rpacket \<Rightarrow> addr multiset \<Rightarrow> nat" where
  "rquota r R = size R + (if binbuf r = NULL then 4 else 3)"

lemma size_rroots: "size (rroots r + R) \<le> rquota r R"
  by (simp add: rroots_def rquota_def)

definition bin_ok :: "bstore \<Rightarrow> rpacket \<Rightarrow> addr list \<Rightarrow> bool" where
  "bin_ok st r as \<longleftrightarrow> binbuf r = NULL \<or>
     (\<exists>c. cells st (binbuf r) = Some c \<and> capacity c = rlen r \<and> binbuf r \<notin> set as \<and>
        unat (binbufpos r) + unat (data_remain r) \<le> unat (rlen r))"

definition rp_core :: "bstore \<Rightarrow> addr multiset \<Rightarrow> rpacket \<Rightarrow> addr list \<Rightarrow> byte list \<Rightarrow> bool" where
  "rp_core st R r as ds \<longleftrightarrow>
     rc_inv st (rroots r + R) \<and> few_refs st (rquota r R) \<and> chain (bnexts st) (readbuf r) as NULL \<and>
     (\<exists>us. chain (bnexts st) (rbuf r) (us @ as) NULL) \<and>
     (\<exists>c. cells st (readbuf r) = Some c \<and> rpos r \<le> bsize c) \<and>
     unat (data_remain r) = length ds \<and> data_remain r \<le> rlen r \<and>
     (\<exists>rest. drop (unat (rpos r)) (contents st as) = ds @ rest)"

definition rp_inv :: "bstore \<Rightarrow> addr multiset \<Rightarrow> rpacket \<Rightarrow> addr list \<Rightarrow> byte list \<Rightarrow> bool" where
  "rp_inv st R r as ds \<longleftrightarrow> rp_core st R r as ds \<and> bin_ok st r as"

lemma same_bytes_dom: "same_bytes st st' \<Longrightarrow> dom (cells st') \<subseteq> dom (cells st)"
  by (auto simp: same_bytes_def)

lemma few_refs_refcount:
  assumes "rc_inv st R" "few_refs st n" "cells st a = Some c" "size R \<le> n"
  shows "refcount c < INT32_MAX"
proof -
  have "preds st a \<subseteq> dom (cells st)" by (auto simp: preds_def bnexts_eq_Some)
  then have "card (preds st a) \<le> card (dom (cells st))" by (rule card_mono [OF rc_invD(1) [OF assms(1)]])
  moreover have "count R a \<le> size R" by (rule count_le_size)
  ultimately show ?thesis using rc_invD(8) [OF assms(1,3)] assms(2,4) by (simp add: few_refs_def)
qed

lemma few_refs_shrink:
  assumes "few_refs st n" "rc_inv st R" "same_bytes st st'"
  shows "few_refs st' n"
  using assms card_mono [OF rc_invD(1) [OF assms(2)] same_bytes_dom [OF assms(3)]]
  by (simp add: few_refs_def)

definition adv :: "rpacket \<Rightarrow> u32 \<Rightarrow> rpacket" where
  "adv r k = r\<lparr>rpos := rpos r + k, data_remain := data_remain r - k\<rparr>"

text \<open>Moving the reading position within a buffer, to the next buffer if this one is used up.\<close>

lemma rp_advance:
  assumes core: "rp_core st R r as ds" and c: "cells st (readbuf r) = Some c"
    and k: "unat k \<le> length ds" "unat (rpos r) + unat k \<le> unat (bsize c)"
  shows "memcpy_from st (readbuf r) (rpos r) k = Some (take (unat k) ds)"
    "\<exists>st2 as2 p b. next_readbuf st (adv r k) = Some (st2, (adv r k)\<lparr>rpos := p, readbuf := b\<rparr>) \<and>
       rp_core st2 R ((adv r k)\<lparr>rpos := p, readbuf := b\<rparr>) as2 (drop (unat k) ds) \<and>
       same_bytes st st2 \<and> quota st2 = quota st \<and> set as2 \<subseteq> set as \<and>
       (unat (rpos r) + unat k = unat (bsize c) \<and> unat k < length ds \<longrightarrow> length as2 < length as) \<and>
       (\<exists>c'. cells st2 (readbuf r) = Some c' \<and> bbuf c' = bbuf c)"
proof -
  note i = core [unfolded rp_core_def]
  have rc: "rc_inv st (rroots r + R)" and ch: "chain (bnexts st) (readbuf r) as NULL" using i by auto
  have a: "readbuf r \<noteq> NULL" "buf_ok c" using rc_invD(6,9) [OF rc c] by auto
  obtain as' where as': "as = readbuf r # as'" "chain (bnexts st) (bnext c) as' NULL"
    using ch a c by (cases as) (auto simp add: chain_bnexts_Cons simp del: chain.simps(2))
  obtain rest where rest: "drop (unat (rpos r)) (contents st as) = ds @ rest" using i by blast
  have ct: "contents st as = bytes_of c @ contents st as'" using as' c by (simp add: contents_Cons)
  have lb: "length (bytes_of c) = unat (bsize c)" by (rule length_bytes_of [OF a(2)])
  have pk: "unat (rpos r + k) = unat (rpos r) + unat k" by (rule unat_add_le [OF k(2)])
  have dk: "unat (data_remain r - k) = length ds - unat k"
    using i k(1) unat_sub_le [of k "data_remain r"] by (simp add: word_le_nat_alt)
  have dl: "data_remain r - k \<le> rlen r" using dk i unfolding word_le_nat_alt by linarith
  have dr: "drop (unat (rpos r) + unat k) (contents st as) = drop (unat k) ds @ rest"
    using rest k(1) by (metis (no_types) add.commute append_eq_conv_conj drop_append drop_drop drop0 diff_is_0_eq')
  have "take (unat k) (drop (unat (rpos r)) (bytes_of c)) = take (unat k) (ds @ rest)"
    using rest k(2) lb unfolding ct rest [symmetric] by simp
  then show "memcpy_from st (readbuf r) (rpos r) k = Some (take (unat k) ds)"
    using memcpy_from_ok [OF c a k(2)] k(1) by simp
  show "\<exists>st2 as2 p b. next_readbuf st (adv r k) = Some (st2, (adv r k)\<lparr>rpos := p, readbuf := b\<rparr>) \<and>
       rp_core st2 R ((adv r k)\<lparr>rpos := p, readbuf := b\<rparr>) as2 (drop (unat k) ds) \<and>
       same_bytes st st2 \<and> quota st2 = quota st \<and> set as2 \<subseteq> set as \<and>
       (unat (rpos r) + unat k = unat (bsize c) \<and> unat k < length ds \<longrightarrow> length as2 < length as) \<and>
       (\<exists>c'. cells st2 (readbuf r) = Some c' \<and> bbuf c' = bbuf c)"
  proof (cases "rpos r + k \<ge> bsize c \<and> data_remain r - k \<noteq> 0")
    case False
    have "next_readbuf st (adv r k) = Some (st, adv r k)"
      using c a False by (auto simp: next_readbuf_def adv_def buf_at_def)
    moreover have "rp_core st R (adv r k) as (drop (unat k) ds)"
      using i c k pk dk dl dr by (auto simp: rp_core_def adv_def rroots_def rquota_def word_le_nat_alt)
    moreover have "\<not> (unat (rpos r) + unat k = unat (bsize c) \<and> unat k < length ds)"
    proof
      assume "unat (rpos r) + unat k = unat (bsize c) \<and> unat k < length ds"
      then have "rpos r + k \<ge> bsize c" "data_remain r - k \<noteq> 0"
        using pk dk by (auto simp: word_le_nat_alt)
      with False show False by simp
    qed
    moreover have "(adv r k)\<lparr>rpos := rpos r + k, readbuf := readbuf r\<rparr> = adv r k" by (simp add: adv_def)
    ultimately show ?thesis using c
      by (intro exI [of _ st] exI [of _ as] exI [of _ "rpos r + k"] exI [of _ "readbuf r"]) auto
  next
    case True
    then have full: "unat (rpos r) + unat k = unat (bsize c)" using pk k(2) by (simp add: word_le_nat_alt)
    have pos: "unat k < length ds" using True dk by (metis diff_is_0_eq not_less unat_eq_zero)
    have cas: "contents st as' = drop (unat k) ds @ rest" using dr full ct lb by simp
    then have "as' \<noteq> []" using pos by auto
    then obtain n as'' where n: "as' = n # as''" by (cases as') auto
    then have bn: "bnext c = n" "n \<noteq> NULL" using as'(2) by auto
    obtain d where d: "cells st n = Some d" using as'(2) n by (auto simp add: chain_bnexts_Cons simp del: chain.simps(2))
    let ?Q = "add_mset (rbuf r) ((if binbuf r = NULL then {#} else {#binbuf r#}) + R)"
    have roots: "rroots r + R = add_mset (readbuf r) ?Q" by (simp add: rroots_def)
    have few: "few_refs st (rquota r R)" using i by simp
    have few_n: "refcount d < INT32_MAX" by (rule few_refs_refcount [OF rc few d size_rroots])
    obtain st2 where st2: "buffer_acquire st (readbuf r) n = Some (st2, n)" "rc_inv st2 (add_mset n ?Q)"
      "same_bytes st st2" "quota st2 = quota st"
      using buffer_move_inv [OF rc [unfolded roots] d few_n] by blast
    define r2 where "r2 = (adv r k)\<lparr>rpos := 0, readbuf := n\<rparr>"
    have roots2: "rroots r2 + R = add_mset n ?Q" by (simp add: rroots_def r2_def adv_def)
    obtain e where e: "cells st2 n = Some e" using rc_invD(5) [OF st2(2), of n] by auto
    obtain bs where bs: "chain (bnexts st2) n bs NULL" using rc_invD(7) [OF st2(2) e] by blast
    have ch2: "chain (bnexts st2) n as' NULL"
      using chain_functional [OF same_bytes_chain [OF st2(3) bs]] as'(2) bn bs by blast
    obtain us where us: "chain (bnexts st) (rbuf r) (us @ as) NULL" using i by blast
    obtain e0 where "cells st2 (rbuf r) = Some e0" using rc_invD(5) [OF st2(2), of "rbuf r"] by auto
    then obtain bs0 where bs0: "chain (bnexts st2) (rbuf r) bs0 NULL" using rc_invD(7) [OF st2(2)] by blast
    have us2: "chain (bnexts st2) (rbuf r) (us @ as) NULL"
      using chain_functional [OF same_bytes_chain [OF st2(3) bs0] us] bs0 by simp
    have "readbuf r \<in> set (us @ as)" using as'(1) by simp
    from chain_dom [OF us2 this] obtain c' where c': "cells st2 (readbuf r) = Some c'"
      by (auto simp: bnexts_eq_Some)
    then have bc': "bbuf c' = bbuf c"
      using st2(3) c unfolding same_bytes_def by (metis buffer.select_convs(4) buffer.surjective refbase.update_convs(1) option.inject)
    have us3: "\<exists>us. chain (bnexts st2) (rbuf r2) (us @ as') NULL"
      using us2 as'(1) by (intro exI [of _ "us @ [readbuf r]"]) (simp add: r2_def adv_def)
    have "few_refs st2 (rquota r2 R)"
      using few_refs_shrink [OF few rc st2(3)] by (simp add: rquota_def r2_def adv_def)
    moreover have "contents st2 as' = drop (unat k) ds @ rest"
      using same_bytes_contents [OF st2(3) ch2] cas by simp
    ultimately have "rp_core st2 R r2 as' (drop (unat k) ds)"
      using st2(2) ch2 e dk dl us3 by (auto simp: rp_core_def roots2 [symmetric]) (auto simp: r2_def adv_def)
    moreover have "next_readbuf st (adv r k) = Some (st2, r2)"
      using c a True bn(1) st2(1) by (simp add: next_readbuf_def adv_def buf_at_def r2_def)
    ultimately show ?thesis using st2(3,4) as'(1) c' bc' unfolding r2_def
      by (intro exI [of _ st2] exI [of _ as'] exI [of _ 0] exI [of _ n]) auto
  qed
qed

text \<open>Reading changes the position and the amount that remains, nothing else.\<close>

definition moved :: "rpacket \<Rightarrow> rpacket \<Rightarrow> bool" where
  "moved r r' \<longleftrightarrow> rlen r' = rlen r \<and> binbuf r' = binbuf r \<and> binbufpos r' = binbufpos r \<and>
     rbuf r' = rbuf r \<and> rraw r' = rraw r \<and> rmt r' = rmt r \<and> rbegin_pos r' = rbegin_pos r"

lemma moved_refl [simp]: "moved r r"
  by (simp add: moved_def)

lemma moved_adv: "moved r ((adv r k)\<lparr>rpos := p, readbuf := b\<rparr>)"
  by (simp add: moved_def adv_def)

lemma moved_trans: "moved r1 r2 \<Longrightarrow> moved r2 r3 \<Longrightarrow> moved r1 r3"
  by (simp add: moved_def)

text \<open>The size of one copy: as much as is wanted and the buffer still has.\<close>

lemma copy_size_cases:
  fixes n :: u32
  assumes "rpos r \<le> bsize c"
  defines "k \<equiv> if bsize c - rpos r \<ge> n then n else bsize c - rpos r"
  shows "unat k \<le> unat n" "unat (rpos r) + unat k \<le> unat (bsize c)"
    "unat (n - k) = unat n - unat k"
    "k = n \<or> unat (rpos r) + unat k = unat (bsize c) \<and> unat k < unat n"
proof -
  have av: "unat (bsize c - rpos r) = unat (bsize c) - unat (rpos r)" by (rule unat_sub_le [OF assms(1)])
  have le: "unat (rpos r) \<le> unat (bsize c)" using assms(1) by (simp add: word_le_nat_alt)
  show 1: "unat k \<le> unat n" unfolding k_def by (simp add: word_le_nat_alt not_le)
  show "unat (rpos r) + unat k \<le> unat (bsize c)" using av le unfolding k_def by (auto simp: word_le_nat_alt)
  show "unat (n - k) = unat n - unat k" using 1 by (intro unat_sub_le) (simp add: word_le_nat_alt)
  show "k = n \<or> unat (rpos r) + unat k = unat (bsize c) \<and> unat k < unat n"
    using av le unfolding k_def by (auto simp: word_le_nat_alt)
qed

lemma rpacket_read_loop_law:
  assumes "rp_core st R r as ds" "unat n \<le> length ds"
  shows "\<exists>st' r' as'. rpacket_read_loop st r out n = Some (st', r', out @ take (unat n) ds) \<and>
    rp_core st' R r' as' (drop (unat n) ds) \<and> moved r r' \<and> same_bytes st st' \<and> quota st' = quota st \<and>
    set as' \<subseteq> set as"
  using assms
proof (induction "length as" arbitrary: st r as ds n out rule: less_induct)
  case less
  show ?case
  proof (cases "n = 0")
    case True
    then have "rpacket_read_loop st r out n = Some (st, r, out)" by (subst rpacket_read_loop.simps) simp
    with True less.prems show ?thesis by (auto intro!: exI [of _ st] exI [of _ r] exI [of _ as])
  next
    case False
    obtain c where c: "cells st (readbuf r) = Some c" "rpos r \<le> bsize c" "readbuf r \<noteq> NULL"
      using less.prems(1) rc_invD(9) unfolding rp_core_def by blast
    define k where "k = (if bsize c - rpos r \<ge> n then n else bsize c - rpos r)"
    note ks = copy_size_cases [OF c(2), of n, folded k_def]
    have kd: "unat k \<le> length ds" using ks(1) less.prems(2) by simp
    note a = rp_advance [OF less.prems(1) c(1) kd ks(2)]
    obtain st2 as2 r2 where s2: "next_readbuf st (adv r k) = Some (st2, r2)"
      "rp_core st2 R r2 as2 (drop (unat k) ds)" "same_bytes st st2" "quota st2 = quota st" "set as2 \<subseteq> set as"
      "unat (rpos r) + unat k = unat (bsize c) \<and> unat k < length ds \<longrightarrow> length as2 < length as"
      "moved r r2"
      using a(2) moved_adv by blast
    have step: "rpacket_read_loop st r out n = rpacket_read_loop st2 r2 (out @ take (unat k) ds) (n - k)"
      using False c a(1) s2(1) unfolding k_def adv_def
      by (subst rpacket_read_loop.simps) (simp add: buf_at_def Let_def word_neq_0_conv)
    from ks(4) show ?thesis
    proof
      assume "k = n"
      moreover have "rpacket_read_loop st2 r2 (out @ take (unat k) ds) 0 = Some (st2, r2, out @ take (unat k) ds)"
        by (subst rpacket_read_loop.simps) simp
      ultimately show ?thesis using step s2 by auto
    next
      assume k: "unat (rpos r) + unat k = unat (bsize c) \<and> unat k < unat n"
      then have "length as2 < length as" using s2(6) less.prems(2) by simp
      moreover have "unat (n - k) \<le> length (drop (unat k) ds)" using ks(3) less.prems(2) by simp
      ultimately obtain st' r' as' where st': "rpacket_read_loop st2 r2 (out @ take (unat k) ds) (n - k) =
          Some (st', r', (out @ take (unat k) ds) @ take (unat (n - k)) (drop (unat k) ds))"
        "rp_core st' R r' as' (drop (unat (n - k)) (drop (unat k) ds))" "moved r2 r'" "same_bytes st2 st'"
        "quota st' = quota st2" "set as' \<subseteq> set as2"
        using less.hyps [OF _ s2(2), of "n - k" "out @ take (unat k) ds"] by blast
      have tk: "take (unat k) ds @ take (unat (n - k)) (drop (unat k) ds) = take (unat n) ds"
        using ks(1,3) by (metis le_add_diff_inverse take_add)
      have dk: "drop (unat (n - k)) (drop (unat k) ds) = drop (unat n) ds" using ks(1,3) by simp
      show ?thesis
        using step st' tk dk s2 moved_trans [OF s2(7) st'(3)] same_bytes_trans [OF s2(3) st'(4)]
        by (intro exI [of _ st'] exI [of _ r'] exI [of _ as']) auto
    qed
  qed
qed

section \<open>Collecting binary data\<close>

lemma rp_core_binbufpos [simp]: "rp_core st R (r\<lparr>binbufpos := x\<rparr>) as ds = rp_core st R r as ds"
  by (simp add: rp_core_def rroots_def rquota_def)

lemma splice_splice:
  assumes "p + length ys + length zs \<le> length xs"
  shows "splice (splice xs p ys) (p + length ys) zs = splice xs p (ys @ zs)"
  using assms by (simp add: splice_def ac_simps)

lemma rp_core_put:
  assumes core: "rp_core st R r as ds" and b: "cells st b = Some c" "b \<notin> set as"
    and c': "bnext c' = bnext c" "refcount c' = refcount c" "buf_ok c'"
  shows "rp_core (put_buf st b c') R r as ds"
proof -
  note i = core [unfolded rp_core_def]
  have rc: "rc_inv st (rroots r + R)" and ch: "chain (bnexts st) (readbuf r) as NULL" using i by auto
  have "rc_inv (put_buf st b c') (rroots r + R)"
    using rc_invD(8) [OF rc b(1)] c' by (intro rc_inv_put [OF rc b(1)]) auto
  moreover have "dom (cells (put_buf st b c')) = dom (cells st)" using b(1) by auto
  moreover have "readbuf r \<noteq> NULL" using i rc_invD(9) [OF rc] by blast
  then have "readbuf r \<in> set as" using ch by (cases as) auto
  then have "readbuf r \<noteq> b" using b(2) by blast
  ultimately show ?thesis
    using i b(2) bnexts_put_same [OF b(1) c'(1)]
    by (simp add: rp_core_def few_refs_def del: bnexts_put_buf)
qed

definition bin_moved :: "rpacket \<Rightarrow> rpacket \<Rightarrow> bool" where
  "bin_moved r r' \<longleftrightarrow> rlen r' = rlen r \<and> binbuf r' = binbuf r \<and> rbuf r' = rbuf r \<and>
     rraw r' = rraw r \<and> rmt r' = rmt r \<and> rbegin_pos r' = rbegin_pos r"

lemma bin_copy_loop_law:
  assumes "rp_inv st R r as ds" "unat n \<le> length ds" "cells st (binbuf r) = Some c" "binbuf r \<noteq> NULL"
  shows "\<exists>st' r' as' c'. bin_copy_loop st r n = Some (st', r') \<and> rp_inv st' R r' as' (drop (unat n) ds) \<and>
    cells st' (binbuf r) = Some c' \<and> bbuf c' = splice (bbuf c) (unat (binbufpos r)) (take (unat n) ds) \<and>
    bin_moved r r' \<and> quota st' = quota st"
  using assms
proof (induction "length as" arbitrary: st r as ds n c rule: less_induct)
  case less
  note core = less.prems(1) [unfolded rp_inv_def, THEN conjunct1]
  have bok: "capacity c = rlen r" "binbuf r \<notin> set as"
      "unat (binbufpos r) + unat (data_remain r) \<le> unat (rlen r)"
    using less.prems(1,3,4) by (auto simp: rp_inv_def bin_ok_def)
  have rc: "rc_inv st (rroots r + R)" using core by (simp add: rp_core_def)
  have c_ok: "buf_ok c" using rc_invD(6) [OF rc less.prems(3)] .
  have rem: "unat (data_remain r) = length ds" using core by (simp add: rp_core_def)
  have lb: "length (bbuf c) = unat (rlen r)" using c_ok bok(1) by (simp add: buf_ok_def)
  show ?case
  proof (cases "n = 0")
    case True
    then have "bin_copy_loop st r n = Some (st, r)" by (subst bin_copy_loop.simps) simp
    moreover have "splice (bbuf c) (unat (binbufpos r)) [] = bbuf c" by (simp add: splice_def)
    ultimately show ?thesis using True less.prems
      by (intro exI [of _ st] exI [of _ r] exI [of _ as] exI [of _ c]) (simp add: bin_moved_def)
  next
    case False
    obtain d where d: "cells st (readbuf r) = Some d" "rpos r \<le> bsize d" "readbuf r \<noteq> NULL"
      using core rc_invD(9) unfolding rp_core_def by blast
    define k where "k = (if bsize d - rpos r \<ge> n then n else bsize d - rpos r)"
    note ks = copy_size_cases [OF d(2), of n, folded k_def]
    have kd: "unat k \<le> length ds" using ks(1) less.prems(2) by simp
    have lk: "length (take (unat k) ds) = unat k" using kd by simp
    define c1 where "c1 = c\<lparr>bbuf := splice (bbuf c) (unat (binbufpos r)) (take (unat k) ds)\<rparr>"
    define st1 where "st1 = put_buf st (binbuf r) c1"
    have fit: "unat (binbufpos r) + unat k \<le> length (bbuf c)" using bok(3) rem kd lb by simp
    have c1_ok: "buf_ok c1" using c_ok fit lk by (simp add: buf_ok_def c1_def)
    have core1: "rp_core st1 R (r\<lparr>binbufpos := binbufpos r + k\<rparr>) as ds"
      unfolding st1_def rp_core_binbufpos
      by (rule rp_core_put [OF core less.prems(3) bok(2) _ _ c1_ok]) (simp_all add: c1_def)
    have "readbuf r \<in> set as" using core d(3) by (cases as) (auto simp: rp_core_def)
    then have d1: "cells st1 (readbuf r) = Some d" using d bok(2) by (auto simp: st1_def)
    have cpf: "memcpy_from st (readbuf r) (rpos r) k = Some (take (unat k) ds)"
      by (rule rp_advance(1) [OF core d(1) kd ks(2)])
    have cpt: "memcpy_to st (binbuf r) (binbufpos r) (take (unat k) ds) = Some st1"
      using less.prems(3,4) fit lk by (simp add: memcpy_to_def buf_at_def st1_def c1_def)
    define r1 where "r1 = r\<lparr>binbufpos := binbufpos r + k\<rparr>"
    obtain st2 as2 p b where s2: "next_readbuf st1 (adv r1 k) = Some (st2, (adv r1 k)\<lparr>rpos := p, readbuf := b\<rparr>)"
      "rp_core st2 R ((adv r1 k)\<lparr>rpos := p, readbuf := b\<rparr>) as2 (drop (unat k) ds)"
      "same_bytes st1 st2" "quota st2 = quota st1" "set as2 \<subseteq> set as"
      "unat (rpos r) + unat k = unat (bsize d) \<and> unat k < length ds \<longrightarrow> length as2 < length as"
      using rp_advance(2) [OF core1 _ kd, of d] d1 ks(2) unfolding r1_def by auto
    define r2 where "r2 = (adv r1 k)\<lparr>rpos := p, readbuf := b\<rparr>"
    have r2: "binbuf r2 = binbuf r" "rlen r2 = rlen r" "binbufpos r2 = binbufpos r + k" "bin_moved r r2"
      by (simp_all add: r2_def adv_def r1_def bin_moved_def)
    have rc2: "rc_inv st2 (rroots r2 + R)" using s2(2) by (simp add: rp_core_def r2_def)
    have "binbuf r \<in># rroots r2 + R" using less.prems(4) r2(1) by (simp add: rroots_def)
    then obtain c2 where c2: "cells st2 (binbuf r) = Some c2" using rc_invD(5) [OF rc2] by blast
    then obtain c1' where "cells st1 (binbuf r) = Some c1'" "c2 = c1'\<lparr>refcount := refcount c2\<rparr>"
      using s2(3) unfolding same_bytes_def by blast
    then have c2': "c2 = c1\<lparr>refcount := refcount c2\<rparr>" by (simp add: st1_def)
    have bb2: "bbuf c2 = bbuf c1" "capacity c2 = capacity c" by (subst c2', simp add: c1_def)+
    have posk: "unat (binbufpos r + k) = unat (binbufpos r) + unat k"
      using unat_add_le [of "binbufpos r" k "rlen r"] fit lb by simp
    have inv2: "rp_inv st2 R r2 as2 (drop (unat k) ds)"
    proof -
      have "unat (data_remain r2) = length ds - unat k" using s2(2) by (simp add: rp_core_def r2_def)
      then have "bin_ok st2 r2 as2"
        using c2 bb2 r2 bok s2(5) posk rem kd unfolding bin_ok_def by auto
      with s2(2) show ?thesis by (simp add: rp_inv_def r2_def)
    qed
    have step: "bin_copy_loop st r n = bin_copy_loop st2 r2 (n - k)"
    proof -
      have "adv r1 k = r\<lparr>rpos := rpos r + k, data_remain := data_remain r - k, binbufpos := binbufpos r + k\<rparr>"
        by (simp add: adv_def r1_def)
      then show ?thesis using False d cpf cpt s2(1) unfolding k_def r2_def
        by (subst bin_copy_loop.simps) (simp add: buf_at_def Let_def)
    qed
    have q: "quota st2 = quota st" using s2(4) by (simp add: st1_def)
    from ks(4) show ?thesis
    proof
      assume kn: "k = n"
      have "bin_copy_loop st2 r2 0 = Some (st2, r2)" by (subst bin_copy_loop.simps) simp
      with kn step inv2 c2 bb2(1) r2(4) q show ?thesis
        by (intro exI [of _ st2] exI [of _ r2] exI [of _ as2] exI [of _ c2]) (simp add: c1_def)
    next
      assume k: "unat (rpos r) + unat k = unat (bsize d) \<and> unat k < unat n"
      have m: "length as2 < length as" using k s2(6) less.prems(2) by simp
      have len: "unat (n - k) \<le> length (drop (unat k) ds)" using ks(3) less.prems(2) by simp
      obtain st' r' as' c' where st': "bin_copy_loop st2 r2 (n - k) = Some (st', r')"
        "rp_inv st' R r' as' (drop (unat (n - k)) (drop (unat k) ds))" "cells st' (binbuf r) = Some c'"
        "bbuf c' = splice (bbuf c2) (unat (binbufpos r2)) (take (unat (n - k)) (drop (unat k) ds))"
        "bin_moved r2 r'" "quota st' = quota st2"
        using less.hyps [OF m inv2 len, of c2] c2 r2(1) less.prems(4) by auto
      have tk: "take (unat k) ds @ take (unat (n - k)) (drop (unat k) ds) = take (unat n) ds"
        using ks(1,3) by (metis le_add_diff_inverse take_add)
      have "bbuf c' = splice (bbuf c) (unat (binbufpos r)) (take (unat n) ds)"
      proof -
        have "unat (binbufpos r) + length (take (unat k) ds) + length (take (unat (n - k)) (drop (unat k) ds))
            \<le> length (bbuf c)" using ks(1,3) less.prems(2) bok(3) rem lb kd by simp
        from splice_splice [OF this] show ?thesis
          using st'(4) bb2(1) r2(3) posk lk tk by (simp add: c1_def)
      qed
      moreover have "drop (unat (n - k)) (drop (unat k) ds) = drop (unat n) ds" using ks(1,3) by simp
      moreover have "bin_moved r r'" using r2(4) st'(5) by (simp add: bin_moved_def)
      ultimately show ?thesis
        using step st' q by (intro exI [of _ st'] exI [of _ r'] exI [of _ as'] exI [of _ c']) simp
    qed
  qed
qed

section \<open>Reading values\<close>

lemma read_value_law:
  assumes inv: "rp_inv st R r as ds" and k: "k < 2 ^ 32" "k \<le> length ds"
  shows "\<exists>st' r' as'. read_value st r k = Some (st', r', le_val (take k ds)) \<and>
    rp_inv st' R r' as' (drop k ds) \<and> moved r r' \<and> quota st' = quota st"
proof -
  have core: "rp_core st R r as ds" and bin: "bin_ok st r as" using inv by (auto simp: rp_inv_def)
  have u: "unat (word_of_nat k :: u32) = k" using k(1) by (intro unat_word_of_nat) simp
  obtain st' r' as' where st': "rpacket_read_loop st r [] (word_of_nat k) = Some (st', r', take k ds)"
    "rp_core st' R r' as' (drop k ds)" "moved r r'" "same_bytes st st'" "quota st' = quota st" "set as' \<subseteq> set as"
    using rpacket_read_loop_law [OF core, of "word_of_nat k" "[]"] u k(2) by auto
  have "\<not> data_remain r < word_of_nat k" using core u k(2) by (simp add: rp_core_def word_less_nat_alt)
  then have "read_value st r k = Some (st', r', le_val (take k ds))"
    using st'(1) by (simp add: read_value_def rpacket_read_def)
  moreover have "bin_ok st' r' as'"
  proof (cases "binbuf r = NULL")
    case True
    then show ?thesis using st'(3) by (simp add: bin_ok_def moved_def)
  next
    case False
    have "rc_inv st' (rroots r' + R)" using st'(2) by (simp add: rp_core_def)
    moreover have "binbuf r \<in># rroots r' + R" using False st'(3) by (simp add: rroots_def moved_def)
    ultimately obtain c' where c': "cells st' (binbuf r) = Some c'" using rc_invD(5) by blast
    obtain c where "cells st (binbuf r) = Some c" "capacity c' = capacity c"
      using same_bytes_cell [OF st'(4) c'] by blast
    moreover have "unat (data_remain r') \<le> unat (data_remain r)"
      using core st'(2) by (simp add: rp_core_def)
    ultimately show ?thesis using bin False c' st'(3,6) by (auto simp: bin_ok_def moved_def)
  qed
  ultimately show ?thesis using st' by (auto simp: rp_inv_def)
qed

text \<open>Asking for more than remains gives 0 and consumes nothing.\<close>

lemma read_value_short:
  assumes "rp_inv st R r as ds" "k < 2 ^ 32" "length ds < k"
  shows "read_value st r k = Some (st, r, 0)"
proof -
  have "unat (word_of_nat k :: u32) = k" using assms(2) by (intro unat_word_of_nat) simp
  then have "data_remain r < word_of_nat k"
    using assms by (simp add: rp_inv_def rp_core_def word_less_nat_alt)
  then show ?thesis by (simp add: read_value_def rpacket_read_def)
qed

text \<open>The bytes a pointer returned by a binary read designates.\<close>

definition ptr_bytes :: "bstore \<Rightarrow> bptr \<Rightarrow> nat \<Rightarrow> byte list option" where
  "ptr_bytes st p n = (case p of None \<Rightarrow> None | Some (a, off) \<Rightarrow> memcpy_from st a off (word_of_nat n))"

lemma need_binbuf_ok:
  assumes inv: "rp_inv st R r as ds" and q: "0 < quota st" "unat (rlen r) + SIZEOF_BUFFER < 2 ^ 32"
  shows "\<exists>st' r' c. need_binbuf st r = Some (st', r') \<and> rp_inv st' R r' as ds \<and>
    cells st' (binbuf r') = Some c \<and> binbuf r' \<noteq> NULL \<and> quota st - 1 \<le> quota st' \<and>
    rlen r' = rlen r \<and> rraw r' = rraw r \<and> rbuf r' = rbuf r \<and> data_remain r' = data_remain r \<and>
    readbuf r' = readbuf r \<and> rpos r' = rpos r"
proof (cases "binbuf r = NULL")
  case False
  moreover from False inv obtain c where "cells st (binbuf r) = Some c"
    by (auto simp: rp_inv_def bin_ok_def)
  ultimately show ?thesis using inv by (auto simp: need_binbuf_def)
next
  case True
  note i = inv [unfolded rp_inv_def rp_core_def]
  have rc: "rc_inv st (rroots r + R)" and ch: "chain (bnexts st) (readbuf r) as NULL" using i by auto
  let ?n = "fresh st"
  define st' where "st' = grown st (rmt r) (rlen r)"
  define r' where "r' = r\<lparr>binbufpos := 0, binbuf := ?n\<rparr>"
  have fr: "?n \<noteq> NULL" "?n \<notin> set as"
    using rc_invD(3,4) [OF rc] chain_dom [OF ch, of ?n] by (auto simp: bnexts_eq_Some)
  have run: "need_binbuf st r = Some (st', r')"
    using True q fr by (simp add: need_binbuf_def buffer_create_and_acquire_eq st'_def r'_def)
  have roots: "rroots r' + R = add_mset ?n (rroots r + R)" using True fr by (simp add: rroots_def r'_def)
  have rc': "rc_inv st' (rroots r' + R)" unfolding roots st'_def by (rule grown_inv [OF rc])
  have cells': "cells st' = (cells st)(?n \<mapsto> new_buffer (rmt r) (rlen r))" by (simp add: st'_def grown_def)
  have "card (dom (cells st')) \<le> Suc (card (dom (cells st)))"
    using rc_invD(1) [OF rc] by (simp add: cells' card_insert_if)
  moreover have "few_refs st (rquota r R)" using i by simp
  ultimately have few': "few_refs st' (rquota r' R)" using True fr by (simp add: few_refs_def rquota_def r'_def)
  have nx: "bnexts st' = (bnexts st)(?n \<mapsto> NULL)"
    by (auto simp: bnexts_def cells' new_buffer_def fun_eq_iff)
  then have ch': "chain (bnexts st') (readbuf r') as NULL" using ch fr by (simp add: r'_def)
  obtain us where us: "chain (bnexts st) (rbuf r) (us @ as) NULL" using i by blast
  then have "?n \<notin> set (us @ as)"
    using chain_dom [OF us, of ?n] rc_invD(4) [OF rc] by (auto simp: bnexts_eq_Some)
  then have us': "chain (bnexts st') (rbuf r') (us @ as) NULL"
    using us nx by (simp add: r'_def del: set_append)
  have "contents st' as = contents st as" unfolding contents_def cells' using fr(2)
    by (intro arg_cong [where f=concat] map_cong) auto
  moreover have "\<exists>c. cells st' (readbuf r') = Some c \<and> rpos r' \<le> bsize c"
    using i rc_invD(4) [OF rc] by (auto simp: cells' r'_def)
  ultimately have "rp_inv st' R r' as ds"
    using rc' few' ch' i fr exI [of "\<lambda>us. chain (bnexts st') (rbuf r') (us @ as) NULL", OF us']
    by (simp add: rp_inv_def rp_core_def bin_ok_def r'_def cells' new_buffer_def word_le_nat_alt)
  with run fr show ?thesis by (auto simp: r'_def cells' st'_def grown_def)
qed

lemma rp_inv_readbuf:
  assumes "rp_inv st R r as ds"
  obtains c where "cells st (readbuf r) = Some c" "rpos r \<le> bsize c" "readbuf r \<noteq> NULL" "buf_ok c"
  using assms rc_invD(6,9) unfolding rp_inv_def rp_core_def by blast

text \<open>Binary data within one buffer: the pointer goes straight into it.\<close>

lemma direct_read:
  assumes inv: "rp_inv st R r as (bs @ rest)" and c: "cells st (readbuf r) = Some c"
    and sz: "unat sz = length bs" "bsize c - rpos r \<ge> sz"
  shows "\<exists>st' r' as'. next_readbuf st (r\<lparr>rpos := rpos r + sz, data_remain := data_remain r - sz\<rparr>) = Some (st', r') \<and>
    rp_inv st' R r' as' rest \<and> moved r r' \<and> quota st' = quota st \<and>
    ptr_bytes st' (Some (readbuf r, rpos r)) (length bs) = Some bs"
proof -
  have core: "rp_core st R r as (bs @ rest)" and bin: "bin_ok st r as" using inv by (auto simp: rp_inv_def)
  obtain d where "cells st (readbuf r) = Some d" "rpos r \<le> bsize d" "readbuf r \<noteq> NULL" "buf_ok d"
    by (rule rp_inv_readbuf [OF inv])
  with c have le: "rpos r \<le> bsize c" "readbuf r \<noteq> NULL" "buf_ok c" by auto
  have k: "unat sz \<le> length (bs @ rest)" "unat (rpos r) + unat sz \<le> unat (bsize c)"
    using sz unat_sub_le [OF le(1)] le(1) by (auto simp: word_le_nat_alt)
  note a = rp_advance [OF core c k]
  obtain st2 as2 p b c' where s2: "next_readbuf st (adv r sz) = Some (st2, (adv r sz)\<lparr>rpos := p, readbuf := b\<rparr>)"
     "rp_core st2 R ((adv r sz)\<lparr>rpos := p, readbuf := b\<rparr>) as2 (drop (unat sz) (bs @ rest))"
     "same_bytes st st2" "quota st2 = quota st" "set as2 \<subseteq> set as"
     "cells st2 (readbuf r) = Some c'" "bbuf c' = bbuf c"
    using a(2) by blast
  define r2 where "r2 = (adv r sz)\<lparr>rpos := p, readbuf := b\<rparr>"
  have core2: "rp_core st2 R r2 as2 rest" using s2(2) sz(1) by (simp add: r2_def)
  have w: "word_of_nat (length bs) = sz" by (simp flip: sz(1))
  have "memcpy_from st2 (readbuf r) (rpos r) sz = memcpy_from st (readbuf r) (rpos r) sz"
    using c s2(6,7) by (simp add: memcpy_from_def buf_at_def)
  then have "ptr_bytes st2 (Some (readbuf r, rpos r)) (length bs) = Some bs"
    using a(1) sz(1) w by (simp add: ptr_bytes_def)
  moreover have "bin_ok st2 r2 as2"
  proof (cases "binbuf r = NULL")
    case True
    then show ?thesis by (simp add: bin_ok_def r2_def adv_def)
  next
    case False
    have "rc_inv st2 (rroots r2 + R)" using core2 by (simp add: rp_core_def)
    moreover have "binbuf r \<in># rroots r2 + R" using False by (simp add: rroots_def r2_def adv_def)
    ultimately obtain e' where e': "cells st2 (binbuf r) = Some e'" using rc_invD(5) by blast
    obtain e where "cells st (binbuf r) = Some e" "capacity e' = capacity e"
      using same_bytes_cell [OF s2(3) e'] by blast
    moreover have "unat (data_remain r2) \<le> unat (data_remain r)" using core core2 by (simp add: rp_core_def)
    ultimately show ?thesis using bin False e' s2(5) by (auto simp: bin_ok_def r2_def adv_def)
  qed
  ultimately show ?thesis using s2(1,4) core2 moved_adv
    by (intro exI [of _ st2] exI [of _ r2] exI [of _ as2]) (simp add: adv_def r2_def rp_inv_def moved_def)
qed

text \<open>Binary data across buffers: it is collected in \<open>binbuf\<close>.\<close>

lemma collected_read:
  assumes inv: "rp_inv st R r as (bs @ rest)" and sz: "unat sz = length bs"
    and q: "0 < quota st" "unat (rlen r) + SIZEOF_BUFFER < 2 ^ 32"
  shows "\<exists>st1 r1 c st' r' as'. need_binbuf st r = Some (st1, r1) \<and> buf_at st1 (binbuf r1) = Some c \<and>
    data_remain r1 = data_remain r \<and> bin_copy_loop st1 r1 sz = Some (st', r') \<and> rp_inv st' R r' as' rest \<and>
    rlen r' = rlen r \<and> rraw r' = rraw r \<and> quota st - 1 \<le> quota st' \<and>
    ptr_bytes st' (Some (binbuf r1, binbufpos r1)) (length bs) = Some bs"
proof -
  obtain st1 r1 c where 1: "need_binbuf st r = Some (st1, r1)" "rp_inv st1 R r1 as (bs @ rest)"
    "cells st1 (binbuf r1) = Some c" "binbuf r1 \<noteq> NULL" "quota st - 1 \<le> quota st1"
    "rlen r1 = rlen r" "rraw r1 = rraw r" "data_remain r1 = data_remain r"
    using need_binbuf_ok [OF inv q] by blast
  have "unat sz \<le> length (bs @ rest)" using sz by simp
  from bin_copy_loop_law [OF 1(2) this 1(3,4)] obtain st' r' as' c' where
    2: "bin_copy_loop st1 r1 sz = Some (st', r')" "rp_inv st' R r' as' rest"
      "cells st' (binbuf r1) = Some c'" "bbuf c' = splice (bbuf c) (unat (binbufpos r1)) bs"
      "bin_moved r1 r'" "quota st' = quota st1"
    using sz by auto
  have bo: "bin_ok st1 r1 as" "buf_ok c" "unat (data_remain r1) = length (bs @ rest)"
    using 1(2) rc_invD(6) [OF _ 1(3)] by (auto simp: rp_inv_def rp_core_def)
  then have fit: "unat (binbufpos r1) + length bs \<le> length (bbuf c)"
    using 1(3,4) by (auto simp: bin_ok_def buf_ok_def)
  have w: "word_of_nat (length bs) = sz" by (simp flip: sz)
  have "ptr_bytes st' (Some (binbuf r1, binbufpos r1)) (length bs) = Some bs"
    using fit 1(4) 2(3,4) sz w by (simp add: ptr_bytes_def memcpy_from_def buf_at_def splice_def)
  with 1 2 show ?thesis
    by (intro exI [of _ st1] exI [of _ r1] exI [of _ c] exI [of _ st'] exI [of _ r'] exI [of _ as'])
      (simp add: buf_at_def bin_moved_def)
qed

lemma read_binary_law:
  assumes inv: "rp_inv st R r as (le_bytes 4 (length bs) @ bs @ rest)" and raw: "rraw r = 0"
    and len: "length bs < 2 ^ 32" and q: "0 < quota st" "unat (rlen r) + SIZEOF_BUFFER < 2 ^ 32"
  shows "\<exists>st' r' as' p. rpacket_read_binary st r = Some (st', r', p, Some (word_of_nat (length bs))) \<and>
    rp_inv st' R r' as' rest \<and> rlen r' = rlen r \<and> rraw r' = 0 \<and> quota st - 1 \<le> quota st' \<and>
    (if bs @ rest = [] then p = None else ptr_bytes st' p (length bs) = Some bs)"
proof -
  let ?sz = "word_of_nat (length bs) :: u32"
  have usz: "unat ?sz = length bs" using len by (intro unat_word_of_nat) simp
  obtain st1 r1 as1 where 1: "read_value st r 4 = Some (st1, r1, length bs)"
    "rp_inv st1 R r1 as1 (bs @ rest)" "moved r r1" "quota st1 = quota st"
    using read_value_law [OF inv, of 4] len by (auto simp: le_val_bytes)
  have u32: "rpacket_read_uint32 st r = Some (st1, r1, ?sz)" using 1(1) by (simp add: rpacket_read_uint32_def)
  have rem: "unat (data_remain r1) = length (bs @ rest)" using 1(2) by (simp add: rp_inv_def rp_core_def)
  have rl: "rlen r1 = rlen r" "rraw r1 = 0" using 1(3) raw by (auto simp: moved_def)
  show ?thesis
  proof (cases "bs @ rest = []")
    case True
    then have "data_remain r1 = 0" using rem by (simp add: unat_eq_zero)
    then show ?thesis using u32 raw 1 rl True by (auto simp: rpacket_read_binary_def)
  next
    case False
    then have nz: "data_remain r1 \<noteq> 0" using rem by auto
    have ge: "\<not> data_remain r1 < ?sz" using rem usz by (simp add: word_less_nat_alt)
    obtain c where c: "cells st1 (readbuf r1) = Some c" "rpos r1 \<le> bsize c" "readbuf r1 \<noteq> NULL"
      by (rule rp_inv_readbuf [OF 1(2)])
    show ?thesis
    proof (cases "bsize c - rpos r1 \<ge> ?sz")
      case True
      from direct_read [OF 1(2) c(1) usz True] obtain st' r' as' where
        2: "next_readbuf st1 (r1\<lparr>rpos := rpos r1 + ?sz, data_remain := data_remain r1 - ?sz\<rparr>) = Some (st', r')"
          "rp_inv st' R r' as' rest" "moved r1 r'" "quota st' = quota st1"
          "ptr_bytes st' (Some (readbuf r1, rpos r1)) (length bs) = Some bs" by blast
      have "rpacket_read_binary st r = Some (st', r', Some (readbuf r1, rpos r1), Some ?sz)"
        using raw u32 nz ge c True 2(1) by (simp add: rpacket_read_binary_def buf_at_def)
      with 2 False rl 1(4) show ?thesis by (auto simp: moved_def)
    next
      case cross: False
      from collected_read [OF 1(2) usz] q 1(4) rl obtain st2 r2 d st' r' as' where
        2: "need_binbuf st1 r1 = Some (st2, r2)" "buf_at st2 (binbuf r2) = Some d"
          "bin_copy_loop st2 r2 ?sz = Some (st', r')" "rp_inv st' R r' as' rest"
          "rlen r' = rlen r1" "rraw r' = rraw r1" "quota st1 - 1 \<le> quota st'"
          "ptr_bytes st' (Some (binbuf r2, binbufpos r2)) (length bs) = Some bs" by auto
      have "rpacket_read_binary st r = Some (st', r', Some (binbuf r2, binbufpos r2), Some ?sz)"
        using raw u32 nz ge c cross 2(1-3) by (simp add: rpacket_read_binary_def buf_at_def)
      with 2 False rl 1(4) show ?thesis by auto
    qed
  qed
qed

section \<open>From writer to reader\<close>

lemma acquire_twice:
  assumes inv: "rc_inv st R" and c: "cells st b = Some c" "refcount c + 1 < INT32_MAX"
  shows "\<exists>st1 st2. buffer_acquire st NULL b = Some (st1, b) \<and> buffer_acquire st1 NULL b = Some (st2, b) \<and>
    rc_inv st2 (add_mset b (add_mset b R)) \<and> st2 = put_buf st b (c\<lparr>refcount := refcount c + 2\<rparr>)"
proof -
  let ?c1 = "c\<lparr>refcount := refcount c + 1\<rparr>"
  have 1: "buffer_acquire st NULL b = Some (put_buf st b ?c1, b)" "rc_inv (put_buf st b ?c1) (add_mset b R)"
    using buffer_acquire_inv [OF inv c(1)] c(2) by auto
  have "cells (put_buf st b ?c1) b = Some ?c1" by simp
  from buffer_acquire_inv [OF 1(2) this] c(2) 1(1) show ?thesis by (auto simp: add.assoc)
qed

lemma create_by_wpacket_law:
  assumes inv: "wp_inv st R w as" and b0: "wbegin_pos w = 0"
    and few: "few_refs st (size R + 6)"
    and hd: "wraw w \<noteq> 0 \<or> (\<exists>c. cells st (wbuf w) = Some c \<and> 4 < bsize c)"
  shows "\<exists>st' r. rpacket_create_by_wpacket st w = Some (st', r) \<and>
    rp_inv st' (add_mset (wbuf w) (add_mset (writebuf w) R)) r as (payload st w as) \<and>
    same_bytes st st' \<and> quota st' = quota st \<and> rraw r = wraw w \<and> unat (rlen r) = length (payload st w as)"
proof -
  let ?b = "wbuf w" and ?R = "add_mset (wbuf w) (add_mset (writebuf w) R)"
  note i = inv [unfolded wp_inv_def]
  have rc: "rc_inv st ?R" and ch: "chain (bnexts st) ?b as NULL" using i by auto
  obtain c where c: "cells st ?b = Some c" using rc_invD(5) [OF rc, of ?b] by auto
  have few': "few_refs st (size R + 4)" and rcn: "refcount c + 1 < INT32_MAX"
  proof -
    show "few_refs st (size R + 4)" using few by (simp add: few_refs_def)
    have "refcount c < INT32_MAX - 4"
    proof -
      have "card (preds st ?b) \<le> card (dom (cells st))"
        by (rule card_mono [OF rc_invD(1) [OF rc]]) (auto simp: preds_def bnexts_eq_Some)
      moreover have "count ?R ?b \<le> size ?R" by (rule count_le_size)
      ultimately have "refcount c \<le> int (size R + 2 + card (dom (cells st)))"
        using rc_invD(8) [OF rc c] by simp
      then show ?thesis using few by (simp add: few_refs_def)
    qed
    then show "refcount c + 1 < INT32_MAX" by simp
  qed
  obtain st1 st2 where acq: "buffer_acquire st NULL ?b = Some (st1, ?b)" "buffer_acquire st1 NULL ?b = Some (st2, ?b)"
    "rc_inv st2 (add_mset ?b (add_mset ?b ?R))" "st2 = put_buf st ?b (c\<lparr>refcount := refcount c + 2\<rparr>)"
    using acquire_twice [OF rc c rcn] by blast
  have sb: "same_bytes st st2" unfolding acq(4) by (rule same_bytes_put [OF c])
  have nx: "bnexts st2 = bnexts st" unfolding acq(4) by (rule bnexts_put_same [OF c]) simp
  have ch2: "chain (bnexts st2) ?b as NULL" using ch nx by simp
  have ct: "contents st2 as = contents st as" by (rule same_bytes_contents [OF sb ch2])
  have dom2: "dom (cells st2) = dom (cells st)" using c by (auto simp: acq(4))
  define hn :: u32 where "hn = (if wraw w = 0 then 4 else 0)"
  have dl: "unat (data_size w - hn) = length (payload st w as)"
  proof -
    have "unat hn \<le> unat (data_size w)" using i by (auto simp: hn_def hdr_ok_def)
    then have "unat (data_size w - hn) = unat (data_size w) - unat hn"
      by (intro unat_sub_le) (simp add: word_le_nat_alt)
    then show ?thesis using i by (auto simp: payload_def hn_def)
  qed
  define r where "r = \<lparr>rlen = data_size w - hn, rpos = hn, data_remain = data_size w - hn, binbufpos = 0,
    rbegin_pos = 0, binbuf = NULL, rbuf = ?b, readbuf = ?b, rraw = wraw w, rmt = wmt w\<rparr>"
  have hb: "wraw w = 0 \<Longrightarrow> 4 < bsize c" using hd c by auto
  have run: "rpacket_create_by_wpacket st w = Some (st2, r)"
    using acq(1,2) b0 c rc_invD(9) [OF rc c] hb
    by (auto simp: rpacket_create_by_wpacket_def r_def hn_def buf_at_def acq(4) Let_def)
  have pl: "drop (unat hn) (contents st2 as) = payload st w as" by (simp add: ct payload_def hn_def)
  have hle: "hn \<le> bsize c" using hb by (auto simp: hn_def)
  have q: "few_refs st2 (rquota r ?R)" using few dom2 by (simp add: few_refs_def rquota_def r_def)
  have "rp_core st2 ?R r as (payload st w as)"
    unfolding rp_core_def
  proof (intro conjI)
    show "rc_inv st2 (rroots r + ?R)" using acq(3) by (simp add: rroots_def r_def add_mset_commute)
    show "chain (bnexts st2) (readbuf r) as NULL" using ch2 by (simp add: r_def)
    show "\<exists>us. chain (bnexts st2) (rbuf r) (us @ as) NULL" using ch2 by (intro exI [of _ "[]"]) (simp add: r_def)
    show "\<exists>c. cells st2 (readbuf r) = Some c \<and> rpos r \<le> bsize c" using hle by (simp add: r_def acq(4))
    show "\<exists>rest. drop (unat (rpos r)) (contents st2 as) = payload st w as @ rest" using pl by (simp add: r_def)
  qed (use q dl in \<open>simp_all add: r_def\<close>)
  then have "rp_inv st2 ?R r as (payload st w as)" by (simp add: rp_inv_def bin_ok_def r_def)
  with run sb dl show ?thesis
    by (intro exI [of _ st2] exI [of _ r]) (simp add: r_def acq(4))
qed

text \<open>Values a packet can carry, how they are written and how they are read back.\<close>

datatype item = U8 u8 | U16 u16 | U32 u32 | U64 u64 | Bin "byte list"

fun item_bytes :: "item \<Rightarrow> byte list" where
  "item_bytes (U8 v) = le_bytes 1 (unat v)"
| "item_bytes (U16 v) = le_bytes 2 (unat v)"
| "item_bytes (U32 v) = le_bytes 4 (unat v)"
| "item_bytes (U64 v) = le_bytes 8 (unat v)"
| "item_bytes (Bin bs) = le_bytes 4 (length bs) @ bs"

fun write_item :: "bstore \<Rightarrow> wpacket \<Rightarrow> item \<Rightarrow> (bstore \<times> wpacket) option" where
  "write_item st w (U8 v) = wpacket_write_uint8 st w v"
| "write_item st w (U16 v) = wpacket_write_uint16 st w v"
| "write_item st w (U32 v) = wpacket_write_uint32 st w v"
| "write_item st w (U64 v) = wpacket_write_uint64 st w v"
| "write_item st w (Bin bs) = wpacket_write_binary st w (Some bs)"

fun write_items :: "bstore \<Rightarrow> wpacket \<Rightarrow> item list \<Rightarrow> (bstore \<times> wpacket) option" where
  "write_items st w [] = Some (st, w)"
| "write_items st w (x # xs) = do { (st1, w1) \<leftarrow> write_item st w x; write_items st1 w1 xs }"

text \<open>The second argument says which kind of item is expected; its value is not used.\<close>

fun read_item :: "bstore \<Rightarrow> rpacket \<Rightarrow> item \<Rightarrow> (bstore \<times> rpacket \<times> item) option" where
  "read_item st r (U8 _) = do { (st1, r1, v) \<leftarrow> rpacket_read_uint8 st r; Some (st1, r1, U8 v) }"
| "read_item st r (U16 _) = do { (st1, r1, v) \<leftarrow> rpacket_read_uint16 st r; Some (st1, r1, U16 v) }"
| "read_item st r (U32 _) = do { (st1, r1, v) \<leftarrow> rpacket_read_uint32 st r; Some (st1, r1, U32 v) }"
| "read_item st r (U64 _) = do { (st1, r1, v) \<leftarrow> rpacket_read_uint64 st r; Some (st1, r1, U64 v) }"
| "read_item st r (Bin _) = do {
     (st1, r1, p, len) \<leftarrow> rpacket_read_binary st r;
     n \<leftarrow> len;
     (case p of None \<Rightarrow> Some (st1, r1, Bin [])
      | Some _ \<Rightarrow> do { bs \<leftarrow> ptr_bytes st1 p (unat n); Some (st1, r1, Bin bs) }) }"

fun read_items :: "bstore \<Rightarrow> rpacket \<Rightarrow> item list \<Rightarrow> (bstore \<times> rpacket \<times> item list) option" where
  "read_items st r [] = Some (st, r, [])"
| "read_items st r (x # xs) = do {
     (st1, r1, y) \<leftarrow> read_item st r x;
     (st2, r2, ys) \<leftarrow> read_items st1 r1 xs;
     Some (st2, r2, y # ys) }"

lemma write_item_law:
  assumes inv: "wp_inv st R w as" and raw: "wraw w = 0"
    and fits: "unat (data_size w) + length (item_bytes x) < 2 ^ 32" "length (item_bytes x) \<le> room st w"
      "q + growth (factor w) \<le> quota st"
  shows "\<exists>st' w' as'. write_item st w x = Some (st', w') \<and> written st R w as (item_bytes x) st' w' as' \<and>
    q + growth (factor w') \<le> quota st'"
proof -
  have wr: "\<exists>st' w' as'. wpacket_write s v bs = Some (st', w') \<and> written s R v us bs st' w' as' \<and>
      q + growth (factor w') \<le> quota st'"
    if "wp_inv s R v us" "unat (data_size v) + length bs < 2 ^ 32" "length bs \<le> room s v" "q + growth (factor v) \<le> quota s"
    for s v us bs
    using wpacket_write_law [OF that(1,2), of q] that(3,4) unfolding write_law_def by blast
  show ?thesis
  proof (cases x)
    case (Bin bs)
    let ?h = "le_bytes 4 (length bs)"
    have b: "length bs < 2 ^ 32" using fits(1) Bin by simp
    then have u: "unat (word_of_nat (length bs) :: u32) = length bs" by (intro unat_word_of_nat) simp
    obtain st1 w1 as1 where 1: "wpacket_write st w ?h = Some (st1, w1)" "written st R w as ?h st1 w1 as1"
      "q + growth (factor w1) \<le> quota st1"
      using wr [OF inv, of ?h] fits Bin by auto
    then have "wp_inv st1 R w1 as1" "unat (data_size w1) + length bs < 2 ^ 32" "length bs \<le> room st1 w1"
      using fits Bin by (auto simp: written_def)
    then obtain st2 w2 as2 where 2: "wpacket_write st1 w1 bs = Some (st2, w2)" "written st1 R w1 as1 bs st2 w2 as2"
      "q + growth (factor w2) \<le> quota st2"
      using wr 1(3) by blast
    have "write_item st w x = Some (st2, w2)"
      using Bin 1(1) 2(1) raw u by (simp add: wpacket_write_binary_def wpacket_write_uint32_def)
    with Bin 2(3) written_trans [OF 1(2) 2(2)] show ?thesis by auto
  qed (use wr [OF inv fits] in \<open>simp_all add: wpacket_write_uint8_def wpacket_write_uint16_def
      wpacket_write_uint32_def wpacket_write_uint64_def\<close>)
qed

lemma write_items_law:
  assumes "wp_inv st R w as" "wraw w = 0"
    "unat (data_size w) + length (concat (map item_bytes xs)) < 2 ^ 32"
    "length (concat (map item_bytes xs)) \<le> room st w" "q + growth (factor w) \<le> quota st"
  shows "\<exists>st' w' as'. write_items st w xs = Some (st', w') \<and>
    written st R w as (concat (map item_bytes xs)) st' w' as' \<and> q \<le> quota st'"
  using assms
proof (induction xs arbitrary: st w as)
  case Nil
  then show ?case by (auto simp: written_def)
next
  case (Cons x xs)
  obtain st1 w1 as1 where 1: "write_item st w x = Some (st1, w1)" "written st R w as (item_bytes x) st1 w1 as1"
    "q + growth (factor w1) \<le> quota st1"
    using write_item_law [OF Cons.prems(1,2), of x q] Cons.prems(3-5) by auto
  have "\<exists>st' w' as'. write_items st1 w1 xs = Some (st', w') \<and>
      written st1 R w1 as1 (concat (map item_bytes xs)) st' w' as' \<and> q \<le> quota st'"
    using 1(2,3) Cons.prems by (intro Cons.IH) (auto simp: written_def)
  then show ?case using 1(1) written_trans [OF 1(2)] by fastforce
qed

lemma word_of_nat_mod: "word_of_nat (unat (v::'a::len word) mod 2 ^ LENGTH('a)) = v"
  using unat_less_pow [of v] by simp

lemma read_item_law:
  assumes inv: "rp_inv st R r as (item_bytes x @ rest)" and raw: "rraw r = 0"
    and q: "0 < quota st" "unat (rlen r) + SIZEOF_BUFFER < 2 ^ 32"
  shows "\<exists>st' r' as'. read_item st r x = Some (st', r', x) \<and> rp_inv st' R r' as' rest \<and>
    rraw r' = 0 \<and> rlen r' = rlen r \<and> quota st - 1 \<le> quota st'"
proof -
  have val: "\<exists>st' r' as'. read_value st r k = Some (st', r', v mod 256 ^ k) \<and> rp_inv st' R r' as' rest \<and>
      rraw r' = 0 \<and> rlen r' = rlen r \<and> quota st - 1 \<le> quota st'"
    if "item_bytes x = le_bytes k v" "k < 2 ^ 32" for k v
    using read_value_law [OF inv, of k] that raw by (auto simp: le_val_bytes moved_def)
  show ?thesis
  proof (cases x)
    case (U8 v)
    then show ?thesis using val [of 1 "unat v"] word_of_nat_mod [of v]
      by (auto simp: rpacket_read_uint8_def)
  next
    case (U16 v)
    then show ?thesis using val [of 2 "unat v"] word_of_nat_mod [of v]
      by (auto simp: rpacket_read_uint16_def)
  next
    case (U32 v)
    then show ?thesis using val [of 4 "unat v"] word_of_nat_mod [of v]
      by (auto simp: rpacket_read_uint32_def)
  next
    case (U64 v)
    then show ?thesis using val [of 8 "unat v"] word_of_nat_mod [of v]
      by (auto simp: rpacket_read_uint64_def)
  next
    case (Bin bs)
    have inv': "rp_inv st R r as (le_bytes 4 (length bs) @ bs @ rest)" using inv Bin by simp
    have "length bs < 2 ^ 32"
      using inv' unat_less_pow [of "data_remain r"] by (simp add: rp_inv_def rp_core_def)
    then have u: "unat (word_of_nat (length bs) :: u32) = length bs" by (intro unat_word_of_nat) simp
    obtain st' r' as' p where 1: "rpacket_read_binary st r = Some (st', r', p, Some (word_of_nat (length bs)))"
      "rp_inv st' R r' as' rest" "rlen r' = rlen r" "rraw r' = 0" "quota st - 1 \<le> quota st'"
      "if bs @ rest = [] then p = None else ptr_bytes st' p (length bs) = Some bs"
      using read_binary_law [OF inv' raw \<open>length bs < 2 ^ 32\<close> q] by blast
    have "read_item st r x = Some (st', r', x)"
      using 1(1,6) Bin u by (cases p) (auto simp: ptr_bytes_def split: if_splits)
    with 1 show ?thesis by blast
  qed
qed

lemma read_items_law:
  assumes "rp_inv st R r as (concat (map item_bytes xs) @ rest)" "rraw r = 0"
    "length xs \<le> quota st" "unat (rlen r) + SIZEOF_BUFFER < 2 ^ 32"
  shows "\<exists>st' r' as'. read_items st r xs = Some (st', r', xs) \<and> rp_inv st' R r' as' rest"
  using assms
proof (induction xs arbitrary: st r as)
  case Nil
  then show ?case by auto
next
  case (Cons x xs)
  obtain st1 r1 as1 where 1: "read_item st r x = Some (st1, r1, x)"
    "rp_inv st1 R r1 as1 (concat (map item_bytes xs) @ rest)" "rraw r1 = 0" "rlen r1 = rlen r" "quota st - 1 \<le> quota st1"
    using read_item_law [of st R r as x "concat (map item_bytes xs) @ rest"] Cons.prems by auto
  have "length xs \<le> quota st1" using 1(5) Cons.prems(3) by simp
  then show ?case using Cons.IH [OF 1(2,3)] Cons.prems(4) 1(1,4) by auto
qed

section \<open>Properties\<close>

lemma first_buffer_size:
  assumes inv: "wp_inv st R w as" and cap: "map_option capacity (cells st (wbuf w)) = Some cap" "4 < cap"
    and raw: "wraw w = 0" and ne: "payload st w as \<noteq> []"
  shows "\<exists>c. cells st (wbuf w) = Some c \<and> 4 < bsize c"
proof -
  note i = inv [unfolded wp_inv_def]
  obtain c where c: "cells st (wbuf w) = Some c" "capacity c = cap" using cap(1) by auto
  have rc: "rc_inv st (add_mset (wbuf w) (add_mset (writebuf w) R))" using i by simp
  have ok: "buf_ok c" "wbuf w \<noteq> NULL" using rc_invD(6,9) [OF rc c(1)] by auto
  obtain bs where bs: "as = wbuf w # bs" using i ok(2) by (cases as) auto
  show ?thesis
  proof (cases "bs = []")
    case True
    then have "length (contents st as) = unat (bsize c)"
      using bs c length_bytes_of [OF ok(1)] by (simp add: contents_Cons)
    moreover have "4 < length (contents st as)" using ne raw by (simp add: payload_def)
    ultimately show ?thesis using c by (simp add: word_less_nat_alt)
  next
    case False
    then have "wbuf w \<in> set (butlast as)" using bs by simp
    then show ?thesis using i c cap(2) by (auto simp: full_chain_def)
  qed
qed

text \<open>
  Claim C1. Packets carry their contents faithfully, for packets created with a size of at least 5 and at most \<open>2 ^ 20\<close> bytes:
  any sequence of integers and binary blocks that takes at least one byte and fits the new packet can be written to it, and reading the
  packet made from it with the corresponding read functions gives back the same sequence, however the values are spread over
  the buffers of the chain. To fit means that the packet never needs a growth beyond 128 bytes, the last that its growth factor, a byte, can count: with \<open>s\<close> the size rounded up to
  a power of 2, that is \<open>s - 4\<close> bytes in all when \<open>s\<close> is 256 or more and \<open>252 - s\<close> otherwise. There is memory for 257 buffers and one for each value, and
  the counts of references are so far from their range that no further reference can overflow them. With a size of 3 or 4 the statement fails: the first buffer holds the
  length field only and the reader skips 4 bytes of the payload (\<open>rpacket_skips_payload_after_header_buffer\<close>).
\<close>

theorem packet_roundtrip:
  assumes inv: "rc_inv st R" "few_refs st (size R + 6 + quota st)" and sz: "5 \<le> sz" "sz \<le> 2 ^ 20"
    and xs: "concat (map item_bytes xs) \<noteq> []" "length (concat (map item_bytes xs)) \<le> capacity_of_new sz 0"
    and q: "257 + length xs \<le> quota st"
  shows "\<exists>st1 w1 st2 w2 st3 r st4 r'. wpacket_create st m sz 0 = Some (st1, w1) \<and>
    write_items st1 w1 xs = Some (st2, w2) \<and> rpacket_create_by_wpacket st2 w2 = Some (st3, r) \<and>
    unat (rpacket_len r) = length (concat (map item_bytes xs)) \<and> read_items st3 r xs = Some (st4, r', xs)"
proof -
  let ?bs = "concat (map item_bytes xs)"
  have szn: "5 \<le> unat sz" "unat sz \<le> 2 ^ 20" using sz by (simp_all add: word_le_nat_alt)
  have sz1: "1 \<le> sz" "sz \<le> 2 ^ 31" "3 \<le> sz" using szn by (simp_all add: word_le_nat_alt)
  have pow: "sz \<le> GetSize_of_pow2 sz" "unat (GetSize_of_pow2 sz) < 2 * unat sz"
    using GetSize_of_pow2_law [OF sz1(1,2)] by auto
  obtain st1 w1 where 1: "wpacket_create st m sz 0 = Some (st1, w1)" "wp_inv st1 R w1 [fresh st]"
    "payload st1 w1 [fresh st] = []" "room st1 w1 = capacity_of_new sz 0" "quota st1 = quota st - 1"
    "wbegin_pos w1 = 0" "wbuf w1 = fresh st" "wraw w1 = 0" "unat (data_size w1) = 4" "growth (factor w1) \<le> 256"
    "map_option capacity (cells st1 (fresh st)) = Some (GetSize_of_pow2 sz)"
    "card (dom (cells st1)) \<le> Suc (card (dom (cells st)))"
    using wpacket_create_ok [OF inv(1), of sz 0 m] q sz1 by auto
  have small: "length ?bs < 2 ^ 22"
    using xs(2) pow(2) szn(2) by (simp add: capacity_of_new_def Let_def split: if_splits)
  have qs: "length xs + growth (factor w1) \<le> quota st1" using q 1(5,10) by simp
  obtain st2 w2 as2 where 2: "write_items st1 w1 xs = Some (st2, w2)" "written st1 R w1 [fresh st] ?bs st2 w2 as2"
    "length xs \<le> quota st2"
    using write_items_law [OF 1(2,8) _ _ qs, of xs] 1(4,9) xs(2) small by auto
  have w2: "wp_inv st2 R w2 as2" "payload st2 w2 as2 = ?bs" "wbegin_pos w2 = 0" "wraw w2 = 0"
    "map_option capacity (cells st2 (wbuf w2)) = Some (GetSize_of_pow2 sz)"
    using 2(2) 1 by (auto simp: written_def)
  have "card (dom (cells st2)) \<le> card (dom (cells st)) + quota st"
    using 2(2) 1(5,12) q unfolding written_def by linarith
  then have few: "few_refs st2 (size R + 6)" using inv(2) by (simp add: few_refs_def)
  have "4 < GetSize_of_pow2 sz" using pow(1) szn(1) by (simp add: word_le_nat_alt word_less_nat_alt)
  then have "\<exists>c. cells st2 (wbuf w2) = Some c \<and> 4 < bsize c"
    using first_buffer_size [OF w2(1,5) _ w2(4)] w2(2) xs(1) by simp
  then obtain st3 r where 3: "rpacket_create_by_wpacket st2 w2 = Some (st3, r)"
    "rp_inv st3 (add_mset (wbuf w2) (add_mset (writebuf w2) R)) r as2 ?bs"
    "quota st3 = quota st2" "rraw r = 0" "unat (rlen r) = length ?bs"
    using create_by_wpacket_law [OF w2(1,3) few] w2(2,4) by auto
  obtain st4 r' where "read_items st3 r xs = Some (st4, r', xs)"
    using read_items_law [of st3 _ r as2 xs "[]"] 3 2(3) small by fastforce
  with 1(1) 2(1) 3(1,5) show ?thesis by (auto simp: rpacket_len_def)
qed

theorem packet_roundtrip_witness:
  "\<exists>st1 w1 st2 w2 st3 r st4 r'. wpacket_create (empty_store 300) 0 8 0 = Some (st1, w1) \<and>
    write_items st1 w1 [U16 7, Bin (replicate 40 3), U64 5] = Some (st2, w2) \<and>
    rpacket_create_by_wpacket st2 w2 = Some (st3, r) \<and>
    read_items st3 r [U16 7, Bin (replicate 40 3), U64 5] = Some (st4, r', [U16 7, Bin (replicate 40 3), U64 5])"
proof -
  have p: "is_pow_of_2 8" by (simp add: is_pow_of_2_def)
  have c: "capacity_of_new 8 0 = 244" using p by (simp add: capacity_of_new_def GetSize_of_pow2_def)
  have f: "few_refs (empty_store 300) (size {#} + 6 + quota (empty_store 300))"
    by (simp add: few_refs_def empty_store_def)
  from packet_roundtrip [OF rc_inv_empty_store f, of 8 "[U16 7, Bin (replicate 40 3), U64 5]" 0] c
  show ?thesis by (auto simp: empty_store_def)
qed

lemma small_reader:
  "\<exists>st w st1 w1 st2 r R as. wpacket_create (empty_store 300) 0 64 1 = Some (st, w) \<and>
     wpacket_write st w [1, 2, 0, 0, 5] = Some (st1, w1) \<and>
     rpacket_create_by_wpacket st1 w1 = Some (st2, r) \<and> rp_inv st2 R r as [1, 2, 0, 0, 5] \<and>
     rbuf r = wbuf w1"
proof -
  have p: "is_pow_of_2 64" by (simp add: is_pow_of_2_def)
  have c: "capacity_of_new 64 1 = 192" using p by (simp add: capacity_of_new_def GetSize_of_pow2_def)
  have e: "fresh (empty_store 300) = 1" "quota (empty_store 300) = 300" by (simp_all add: empty_store_def)
  obtain st w where 1: "wpacket_create (empty_store 300) 0 64 1 = Some (st, w)" "wp_inv st {#} w [1]"
     "payload st w [1] = []" "room st w = 192" "quota st = 299" "wbegin_pos w = 0" "wraw w = 1"
     "unat (data_size w) = 0" "growth (factor w) \<le> 256" "card (dom (cells st)) \<le> Suc (card (dom (cells (empty_store 300))))"
    using wpacket_create_ok [OF rc_inv_empty_store, of 300 64 1 0] unfolding e c by auto
  obtain st1 w1 as where 2: "wpacket_write st w [1, 2, 0, 0, 5] = Some (st1, w1)"
     "written st {#} w [1] [1, 2, 0, 0, 5] st1 w1 as"
    using wpacket_write_law [OF 1(2), of "[1, 2, 0, 0, 5]" 0] 1(4,5,8,9) by (auto simp: write_law_def)
  have "card (dom (cells st1)) \<le> 300" using 2(2) 1(5,10) by (simp add: written_def empty_store_def)
  then have few: "few_refs st1 (size {#} + 6)" by (simp add: few_refs_def)
  have w1: "wp_inv st1 {#} w1 as" "wbegin_pos w1 = 0" "wraw w1 \<noteq> 0" "payload st1 w1 as = [1, 2, 0, 0, 5]"
    using 2(2) 1 by (auto simp: written_def)
  obtain st2 r where 3: "rpacket_create_by_wpacket st1 w1 = Some (st2, r)"
    "rp_inv st2 (add_mset (wbuf w1) (add_mset (writebuf w1) {#})) r as [1, 2, 0, 0, 5]"
    using create_by_wpacket_law [OF w1(1,2) few] w1(3,4) by auto
  have "rbuf r = wbuf w1"
    using 3(1) w1(3) by (auto simp: rpacket_create_by_wpacket_def buffer_acquire_def Let_def
        Option.bind_eq_Some_conv split: if_splits)
  with 1(1) 2(1) 3 show ?thesis by blast
qed

text \<open>
  Reading an integer when fewer bytes remain than it has returns 0 and consumes nothing;
  when enough remain it returns the little-endian value of the next bytes and consumes them.
\<close>

theorem rpacket_read_uint32_total:
  assumes "rp_inv st R r as ds"
  shows "\<exists>st' r' as'. rpacket_read_uint32 st r =
      Some (st', r', if length ds < 4 then 0 else word_of_nat (le_val (take 4 ds))) \<and>
    rp_inv st' R r' as' (if length ds < 4 then ds else drop 4 ds)"
proof (cases "length ds < 4")
  case True
  then show ?thesis using read_value_short [OF assms, of 4] assms by (auto simp: rpacket_read_uint32_def)
next
  case False
  then show ?thesis using read_value_law [OF assms, of 4] by (auto simp: rpacket_read_uint32_def)
qed

theorem rpacket_read_uint32_total_witness:
  "\<exists>st w st1 w1 st2 r st3 r'. wpacket_create (empty_store 300) 0 64 1 = Some (st, w) \<and>
     wpacket_write st w [1, 2, 0, 0, 5] = Some (st1, w1) \<and>
     rpacket_create_by_wpacket st1 w1 = Some (st2, r) \<and> rpacket_read_uint32 st2 r = Some (st3, r', 513)"
proof -
  obtain st w st1 w1 st2 r R as where 1: "wpacket_create (empty_store 300) 0 64 1 = Some (st, w)"
     "wpacket_write st w [1, 2, 0, 0, 5] = Some (st1, w1)"
     "rpacket_create_by_wpacket st1 w1 = Some (st2, r)" "rp_inv st2 R r as [1, 2, 0, 0, 5]"
    using small_reader by blast
  obtain st3 r' where "rpacket_read_uint32 st2 r = Some (st3, r', word_of_nat (le_val [1, 2, 0, 0]))"
    using rpacket_read_uint32_total [OF 1(4)] by auto
  moreover have "word_of_nat (le_val [1, 2, 0, 0]) = (513 :: u32)" by simp
  ultimately show ?thesis using 1 by metis
qed

text \<open>
  A packet made from a received one (\<open>wpacket_create_by_rpacket\<close>) cannot be written to:
  its length pointer is null until the first write, and the first write reads through it before
  it copies the buffers.
\<close>

theorem wpacket_by_rpacket_write_crashes:
  assumes "wpacket_create_by_rpacket st r = Some (st', w)"
  shows "wpacket_write st' w bs = None"
  using assms
  by (auto simp: wpacket_create_by_rpacket_def wpacket_write_def wpacket_own_def load32_def
      memcpy_from_def buf_at_def split: Option.bind_splits)

theorem wpacket_by_rpacket_write_crashes_witness:
  "\<exists>st r st' w. wpacket_create_by_rpacket st r = Some (st', w) \<and> wpacket_write st' w [1] = None"
proof -
  define r where "r = \<lparr>rlen = 0, rpos = 4, data_remain = 0, binbufpos = 0, rbegin_pos = 0, binbuf = NULL,
    rbuf = 1, readbuf = 1, rraw = 0, rmt = 0\<rparr>"
  have "cells (grown (empty_store 4) 0 8) 1 = Some (new_buffer 0 8)" by (simp add: grown_def empty_store_def)
  then obtain st' where "buffer_acquire (grown (empty_store 4) 0 8) NULL 1 = Some (st', 1)"
    using buffer_acquire_inv [OF grown_inv [OF rc_inv_empty_store], of 4 0 8 1 "new_buffer 0 8"]
    by (auto simp: new_buffer_def)
  then obtain w where w: "wpacket_create_by_rpacket (grown (empty_store 4) 0 8) r = Some (st', w)"
    by (simp add: wpacket_create_by_rpacket_def r_def)
  then show ?thesis using wpacket_by_rpacket_write_crashes [OF w, of "[1]"] by blast
qed

text \<open>
  When the first buffer of a packet holds only the length field (every packet created with
  size 3 or 4), the reader made from it starts at offset 4 of the second buffer, where the payload
  has begun at offset 0: the first 4 bytes of the payload are skipped, although the reader counts
  the whole payload as still to be read.
\<close>

theorem rpacket_skips_payload_after_header_buffer:
  assumes inv: "wp_inv st R w as" and w: "wraw w = 0" "wbegin_pos w = 0"
    and few: "few_refs st (size R + 6)" and four: "map_option bsize (cells st (wbuf w)) = Some 4"
    and ne: "payload st w as \<noteq> []"
  shows "\<exists>st' r as'. rpacket_create_by_wpacket st w = Some (st', r) \<and>
    chain (bnexts st') (readbuf r) as' NULL \<and>
    drop (unat (rpos r)) (contents st' as') = drop 4 (payload st w as) \<and>
    unat (data_remain r) = length (payload st w as)"
proof -
  let ?b = "wbuf w" and ?R = "add_mset (wbuf w) (add_mset (writebuf w) R)"
  note i = inv [unfolded wp_inv_def]
  have rc: "rc_inv st ?R" and ch: "chain (bnexts st) ?b as NULL" using i by auto
  obtain c where c: "cells st ?b = Some c" "bsize c = 4" using four by auto
  have ok: "buf_ok c" "?b \<noteq> NULL" using rc_invD(6,9) [OF rc c(1)] by auto
  have small: "refcount d + 3 < INT32_MAX" if d: "cells st a = Some d" for a d
  proof -
    have "card (preds st a) \<le> card (dom (cells st))"
      by (rule card_mono [OF rc_invD(1) [OF rc]]) (auto simp: preds_def bnexts_eq_Some)
    moreover have "count ?R a \<le> size ?R" by (rule count_le_size)
    ultimately have "refcount d \<le> int (size R + 2 + card (dom (cells st)))"
      using rc_invD(8) [OF rc d] by simp
    then show ?thesis using few by (simp add: few_refs_def)
  qed
  have rcn: "refcount c + 1 < INT32_MAX" using small [OF c(1)] by simp
  obtain st1 st2 where acq: "buffer_acquire st NULL ?b = Some (st1, ?b)" "buffer_acquire st1 NULL ?b = Some (st2, ?b)"
    "rc_inv st2 (add_mset ?b (add_mset ?b ?R))" "st2 = put_buf st ?b (c\<lparr>refcount := refcount c + 2\<rparr>)"
    using acquire_twice [OF rc c(1) rcn] by blast
  obtain bs where bs: "as = ?b # bs" "chain (bnexts st) (bnext c) bs NULL"
    using ch ok c by (cases as) (auto simp add: chain_bnexts_Cons simp del: chain.simps(2))
  have pl: "payload st w as = contents st bs"
    using bs(1) c w(1) length_bytes_of [OF ok(1)] by (simp add: payload_def contents_Cons)
  then obtain n bs' where n: "bs = n # bs'" using ne by (cases bs) auto
  have bn: "bnext c = n" "n \<noteq> ?b" using bs n chain_distinct [OF ch] by auto
  obtain d where d: "cells st n = Some d"
    using bs(2) n by (auto simp add: chain_bnexts_Cons simp del: chain.simps(2))
  have d2: "cells st2 n = Some d" using d bn by (simp add: acq(4))
  obtain st3 where st3: "buffer_acquire st2 ?b n = Some (st3, n)" "rc_inv st3 (add_mset n (add_mset ?b ?R))"
    "same_bytes st2 st3"
    using buffer_move_inv [OF acq(3) d2] small [OF d] by auto
  have sb: "same_bytes st st3" by (rule same_bytes_trans [OF _ st3(3)]) (simp add: acq(4) same_bytes_put [OF c(1)])
  obtain e where "cells st3 n = Some e" using rc_invD(5) [OF st3(2), of n] by auto
  then obtain es where es: "chain (bnexts st3) n es NULL" using rc_invD(7) [OF st3(2)] by blast
  have "es = bs" using chain_functional [OF same_bytes_chain [OF sb es]] bs(2) bn(1) by simp
  then have ch3: "chain (bnexts st3) n bs NULL" using es by simp
  have ct: "contents st3 bs = payload st w as" using same_bytes_contents [OF sb ch3] pl by simp
  have "unat (data_size w) = length (payload st w as) + 4"
    using i w(1) by (auto simp: payload_def hdr_ok_def)
  then have dl: "unat (data_size w - 4) = length (payload st w as)"
    by (subst unat_sub_le) (simp_all add: word_le_nat_alt)
  have "rpacket_create_by_wpacket st w = Some (st3, \<lparr>rlen = data_size w - 4, rpos = 4,
      data_remain = data_size w - 4, binbufpos = 0, rbegin_pos = 0, binbuf = NULL, rbuf = ?b, readbuf = n,
      rraw = 0, rmt = wmt w\<rparr>)"
    using acq(1,2) w c ok(2) bn st3(1)
    by (simp add: rpacket_create_by_wpacket_def buf_at_def acq(4) Let_def)
  with ch3 ct dl show ?thesis by auto
qed

theorem rpacket_skips_payload_after_header_buffer_witness:
  "\<exists>st w st1 w1 st2 r as as'. wpacket_create (empty_store 300) 0 4 0 = Some (st, w) \<and>
     wpacket_write st w [1, 2, 3, 4, 5, 6] = Some (st1, w1) \<and> payload st1 w1 as = [1, 2, 3, 4, 5, 6] \<and>
     rpacket_create_by_wpacket st1 w1 = Some (st2, r) \<and> unat (data_remain r) = 6 \<and>
     chain (bnexts st2) (readbuf r) as' NULL \<and> drop (unat (rpos r)) (contents st2 as') = [5, 6]"
proof -
  have p: "GetSize_of_pow2 4 = 4" by (simp add: GetSize_of_pow2_def is_pow_of_2_def)
  have c: "capacity_of_new 4 0 = 248" using p by (simp add: capacity_of_new_def)
  have e: "fresh (empty_store 300) = 1" "quota (empty_store 300) = 300" by (simp_all add: empty_store_def)
  obtain st w where 1: "wpacket_create (empty_store 300) 0 4 0 = Some (st, w)" "wp_inv st {#} w [1]"
     "payload st w [1] = []" "room st w = 248" "quota st = 299" "wbegin_pos w = 0" "wbuf w = 1" "wraw w = 0"
     "unat (data_size w) = 4" "growth (factor w) \<le> 256" "map_option capacity (cells st 1) = Some 4"
     "card (dom (cells st)) \<le> Suc (card (dom (cells (empty_store 300))))"
    using wpacket_create_ok [OF rc_inv_empty_store, of 300 4 0 0] unfolding e c p by auto
  obtain st1 w1 as where 2: "wpacket_write st w [1, 2, 3, 4, 5, 6] = Some (st1, w1)"
     "written st {#} w [1] [1, 2, 3, 4, 5, 6] st1 w1 as"
    using wpacket_write_law [OF 1(2), of "[1, 2, 3, 4, 5, 6]" 0] 1(4,5,9,10) by (auto simp: write_law_def)
  have "card (dom (cells st1)) \<le> 300" using 2(2) 1(5,12) by (simp add: written_def empty_store_def)
  then have few: "few_refs st1 (size {#} + 6)" by (simp add: few_refs_def)
  have w1: "wp_inv st1 {#} w1 as" "wbegin_pos w1 = 0" "wraw w1 = 0" "payload st1 w1 as = [1, 2, 3, 4, 5, 6]"
    "map_option capacity (cells st1 (wbuf w1)) = Some 4"
    using 2(2) 1 by (auto simp: written_def)
  then obtain d where d: "cells st1 (wbuf w1) = Some d" "capacity d = 4" "4 \<le> unat (bsize d)"
    by (auto simp: wp_inv_def hdr_ok_def)
  have "rc_inv st1 (add_mset (wbuf w1) (add_mset (writebuf w1) {#}))" using w1(1) by (simp add: wp_inv_def)
  then have "buf_ok d" by (rule rc_invD(6) [OF _ d(1)])
  then have "bsize d \<le> 4" using d(2) by (simp add: buf_ok_def)
  then have "bsize d = 4" using d(3) by (simp add: word_le_nat_alt word_unat_eq_iff)
  then have four: "map_option bsize (cells st1 (wbuf w1)) = Some 4" using d(1) by simp
  show ?thesis
    using rpacket_skips_payload_after_header_buffer [OF w1(1,3,2) few four] w1(4) 1(1) 2(1) by fastforce
qed

end
