(* ===== verification/MinHeap.thy ===== *)
theory MinHeap
  imports Prelude
begin

text \<open>
  The timer heap of the coroutine scheduler (\<open>coro/minheap.c\<close>): a 1-based array of pointers to
  elements that know their own position. Sizes and positions, non-negative \<open>int32_t\<close> in the code,
  are natural numbers; a child position beyond \<open>INT32_MAX\<close> is undefined. The array has as many
  slots as \<open>minheap_create\<close> allocates, and an access outside them is undefined. The comparison
  function is the parameter \<open>lt\<close>, as in the code.
\<close>

record minheap =
  hsize :: nat
  max_size :: nat
  hdata :: "addr list"
  hindex :: "addr \<rightharpoonup> nat"

definition minheap_create :: "nat \<Rightarrow> (addr \<rightharpoonup> nat) \<Rightarrow> minheap" where
  "minheap_create sz index = \<lparr>hsize = 0, max_size = sz, hdata = replicate sz NULL, hindex = index\<rparr>"

definition data_at :: "minheap \<Rightarrow> nat \<Rightarrow> addr option" where
  "data_at m i = (if i < length (hdata m) then Some (hdata m ! i) else None)"

definition set_data :: "minheap \<Rightarrow> nat \<Rightarrow> addr \<Rightarrow> minheap option" where
  "set_data m i e = (if i < length (hdata m) then Some (m\<lparr>hdata := (hdata m)[i := e]\<rparr>) else None)"

definition set_index :: "minheap \<Rightarrow> addr \<Rightarrow> nat \<Rightarrow> minheap option" where
  "set_index m e i =
     (if e = NULL \<or> hindex m e = None then None else Some (m\<lparr>hindex := (hindex m)(e \<mapsto> i)\<rparr>))"

definition heap_swap :: "minheap \<Rightarrow> nat \<Rightarrow> nat \<Rightarrow> minheap option" where
  "heap_swap m idx1 idx2 = do {
     ele \<leftarrow> data_at m idx1;
     e2 \<leftarrow> data_at m idx2;
     m1 \<leftarrow> set_data m idx1 e2;
     m2 \<leftarrow> set_data m1 idx2 ele;
     d1 \<leftarrow> data_at m2 idx1;
     m3 \<leftarrow> set_index m2 d1 idx1;
     d2 \<leftarrow> data_at m3 idx2;
     set_index m3 d2 idx2 }"

definition parent :: "nat \<Rightarrow> nat" where
  "parent idx = idx div 2"

definition left_child :: "nat \<Rightarrow> nat option" where
  "left_child idx = map_option nat (i32 (int idx * 2))"

definition right_child :: "nat \<Rightarrow> nat option" where
  "right_child idx = map_option nat (i32 (int idx * 2 + 1))"

function up_loop :: "(addr \<Rightarrow> addr \<Rightarrow> bool) \<Rightarrow> minheap \<Rightarrow> nat \<Rightarrow> nat \<Rightarrow> minheap option" where
  "up_loop lt m idx p =
     (if p = 0 then Some m
      else do {
        e \<leftarrow> data_at m idx;
        _ \<leftarrow> assert_c (e \<noteq> NULL);
        d \<leftarrow> data_at m p;
        _ \<leftarrow> assert_c (d \<noteq> NULL);
        (if lt e d
         then do { m' \<leftarrow> heap_swap m idx p; up_loop lt m' p (parent p) }
         else Some m) })"
  by pat_completeness auto
termination by (relation "measure (\<lambda>(lt, m, idx, p). p)") (auto simp: parent_def)

definition up :: "(addr \<Rightarrow> addr \<Rightarrow> bool) \<Rightarrow> minheap \<Rightarrow> nat \<Rightarrow> minheap option" where
  "up lt m idx = up_loop lt m idx (parent idx)"

text \<open>The smallest of an element and its children, as \<open>down\<close> determines it.\<close>

definition down_min :: "(addr \<Rightarrow> addr \<Rightarrow> bool) \<Rightarrow> minheap \<Rightarrow> nat \<Rightarrow> nat option" where
  "down_min lt m idx = do {
     l \<leftarrow> left_child idx;
     r \<leftarrow> right_child idx;
     mn \<leftarrow> (if l < hsize m
           then do {
             dl \<leftarrow> data_at m l; _ \<leftarrow> assert_c (dl \<noteq> NULL);
             di \<leftarrow> data_at m idx; _ \<leftarrow> assert_c (di \<noteq> NULL);
             Some (if lt dl di then l else idx) }
           else Some idx);
     (if r < hsize m
      then do {
        dr \<leftarrow> data_at m r; _ \<leftarrow> assert_c (dr \<noteq> NULL);
        dm \<leftarrow> data_at m mn; _ \<leftarrow> assert_c (dm \<noteq> NULL);
        Some (if lt dr dm then r else mn) }
      else Some mn) }"

lemma down_min_bound:
  assumes "down_min lt m idx = Some mn" "mn \<noteq> idx"
  shows "idx < mn \<and> mn < hsize m"
proof -
  have l: "left_child idx = Some l \<Longrightarrow> l = 2 * idx" and r: "right_child idx = Some l \<Longrightarrow> l = 2 * idx + 1" for l
    by (auto simp: left_child_def right_child_def i32_eq_Some)
  show ?thesis
    using assms unfolding down_min_def
    by (fastforce simp: Option.bind_eq_Some_conv dest: l r split: if_splits)
qed

lemma heap_swap_size: "heap_swap m i j = Some m' \<Longrightarrow> hsize m' = hsize m \<and> max_size m' = max_size m"
  by (auto simp: heap_swap_def set_data_def set_index_def Option.bind_eq_Some_conv split: if_splits)

function down :: "(addr \<Rightarrow> addr \<Rightarrow> bool) \<Rightarrow> minheap \<Rightarrow> nat \<Rightarrow> minheap option" where
  "down lt m idx = do {
     mn \<leftarrow> down_min lt m idx;
     (if mn \<noteq> idx then do { m' \<leftarrow> heap_swap m idx mn; down lt m' mn } else Some m) }"
  by pat_completeness auto
termination
  by (relation "measure (\<lambda>(lt, m, idx). hsize m - idx)")
    (auto dest!: heap_swap_size dest: down_min_bound)

declare up_loop.simps [simp del] down.simps [simp del]

definition minheap_change :: "(addr \<Rightarrow> addr \<Rightarrow> bool) \<Rightarrow> minheap \<Rightarrow> addr \<Rightarrow> minheap option" where
  "minheap_change lt m e = do {
     _ \<leftarrow> assert_c (e \<noteq> NULL);
     idx \<leftarrow> hindex m e;
     m' \<leftarrow> down lt m idx;
     up lt m' idx }"

definition minheap_insert :: "(addr \<Rightarrow> addr \<Rightarrow> bool) \<Rightarrow> minheap \<Rightarrow> addr \<Rightarrow> minheap option" where
  "minheap_insert lt m e = do {
     _ \<leftarrow> assert_c (e \<noteq> NULL);
     i \<leftarrow> hindex m e;
     (if i \<noteq> 0 then minheap_change lt m e
      else if hsize m \<ge> max_size m then Some m
      else do {
        let m1 = m\<lparr>hsize := hsize m + 1\<rparr>;
        m2 \<leftarrow> set_data m1 (hsize m1) e;
        m3 \<leftarrow> set_index m2 e (hsize m2);
        up lt m3 (hsize m3) }) }"

definition minheap_min :: "minheap \<Rightarrow> addr option" where
  "minheap_min m = (if hsize m = 0 then Some NULL else data_at m 1)"

definition minheap_popmin :: "(addr \<Rightarrow> addr \<Rightarrow> bool) \<Rightarrow> minheap \<Rightarrow> (minheap \<times> addr) option" where
  "minheap_popmin lt m =
     (if hsize m \<noteq> 0
      then do {
        e \<leftarrow> data_at m 1;
        m1 \<leftarrow> heap_swap m 1 (hsize m);
        m2 \<leftarrow> set_data m1 (hsize m1) NULL;
        let m3 = m2\<lparr>hsize := hsize m2 - 1\<rparr>;
        m4 \<leftarrow> down lt m3 1;
        m5 \<leftarrow> set_index m4 e 0;
        Some (m5, e) }
      else Some (m, NULL))"

text \<open>
  \<open>minheap_remove\<close> copies the other elements to an array of \<open>size - 1\<close> slots, from slot 1 on, and
  rebuilds the heap from there.
\<close>

fun remove_copy :: "minheap \<Rightarrow> addr \<Rightarrow> addr list \<Rightarrow> nat \<Rightarrow> nat list \<Rightarrow> (minheap \<times> addr list \<times> nat) option" where
  "remove_copy m e bk c [] = Some (m, bk, c)"
| "remove_copy m e bk c (i # is) = do {
     d \<leftarrow> data_at m i;
     m1 \<leftarrow> set_index m d 0;
     (if d \<noteq> e
      then (if c < length bk then remove_copy m1 e (bk[c := d]) (c + 1) is else None)
      else remove_copy m1 e bk c is) }"

fun insert_all :: "(addr \<Rightarrow> addr \<Rightarrow> bool) \<Rightarrow> minheap \<Rightarrow> addr list \<Rightarrow> minheap option" where
  "insert_all lt m [] = Some m"
| "insert_all lt m (e # es) = do { m1 \<leftarrow> minheap_insert lt m e; insert_all lt m1 es }"

definition minheap_remove :: "(addr \<Rightarrow> addr \<Rightarrow> bool) \<Rightarrow> minheap \<Rightarrow> addr \<Rightarrow> minheap option" where
  "minheap_remove lt m e = do {
     (m1, bk, c) \<leftarrow> remove_copy m e (replicate (hsize m - 1) NULL) 1 [1..<Suc (hsize m)];
     let m2 = m1\<lparr>hdata := replicate (max_size m1) NULL, hsize := 0\<rparr>;
     insert_all lt m2 (drop 1 (take c bk)) }"

section \<open>Invariant\<close>

text \<open>Every element in the heap knows its position, and an element with position 0 is not in it.\<close>

definition heap_wf :: "minheap \<Rightarrow> bool" where
  "heap_wf m \<longleftrightarrow> length (hdata m) = max_size m \<and> int (max_size m) \<le> INT32_MAX div 2 \<and>
     (\<forall>i. 1 \<le> i \<and> i \<le> hsize m \<longrightarrow> i < length (hdata m) \<and> hdata m ! i \<noteq> NULL \<and> hindex m (hdata m ! i) = Some i) \<and>
     (\<forall>e i. hindex m e = Some i \<and> i \<noteq> 0 \<longrightarrow> i \<le> hsize m \<and> hdata m ! i = e)"

definition elems :: "minheap \<Rightarrow> addr set" where
  "elems m = (\<lambda>i. hdata m ! i) ` {1..hsize m}"

definition ordered :: "(addr \<Rightarrow> nat) \<Rightarrow> minheap \<Rightarrow> bool" where
  "ordered key m \<longleftrightarrow> (\<forall>i. 2 \<le> i \<and> i \<le> hsize m \<longrightarrow> key (hdata m ! (i div 2)) \<le> key (hdata m ! i))"

text \<open>Ordered except that the element at \<open>k\<close> may be smaller than its parent.\<close>

definition ordered_but :: "(addr \<Rightarrow> nat) \<Rightarrow> minheap \<Rightarrow> nat \<Rightarrow> bool" where
  "ordered_but key m k \<longleftrightarrow>
     (\<forall>i. 2 \<le> i \<and> i \<le> hsize m \<and> i \<noteq> k \<longrightarrow> key (hdata m ! (i div 2)) \<le> key (hdata m ! i)) \<and>
     (\<forall>i. 2 \<le> i \<and> i \<le> hsize m \<and> i div 2 = k \<and> 2 \<le> k \<longrightarrow> key (hdata m ! (k div 2)) \<le> key (hdata m ! i))"

lemma heap_wfD:
  assumes "heap_wf m" "1 \<le> i" "i \<le> hsize m"
  shows "i < length (hdata m)" "hdata m ! i \<noteq> NULL" "hindex m (hdata m ! i) = Some i"
  using assms by (auto simp: heap_wf_def)

lemma heap_inj: "heap_wf m \<Longrightarrow> 1 \<le> i \<Longrightarrow> i \<le> hsize m \<Longrightarrow> 1 \<le> j \<Longrightarrow> j \<le> hsize m \<Longrightarrow>
    hdata m ! i = hdata m ! j \<Longrightarrow> i = j"
  using heap_wfD(3) by (metis option.inject)

lemma heap_swap_law:
  assumes wf: "heap_wf m" and ij: "1 \<le> i" "i \<le> hsize m" "1 \<le> j" "j \<le> hsize m" "i \<noteq> j"
  defines "m' \<equiv> m\<lparr>hdata := (hdata m)[i := hdata m ! j, j := hdata m ! i],
     hindex := (hindex m)(hdata m ! j \<mapsto> i, hdata m ! i \<mapsto> j)\<rparr>"
  shows "heap_swap m i j = Some m'" "heap_wf m'" "elems m' = elems m"
proof -
  note di = heap_wfD [OF wf ij(1,2)] and dj = heap_wfD [OF wf ij(3,4)]
  have ne: "hdata m ! i \<noteq> hdata m ! j" using heap_inj [OF wf ij(1-4)] ij(5) by blast
  show "heap_swap m i j = Some m'"
    using di dj ij(5) ne by (simp add: heap_swap_def data_at_def set_data_def set_index_def m'_def)
  show "heap_wf m'"
    unfolding heap_wf_def
  proof (intro conjI allI impI)
    fix k assume k: "1 \<le> k \<and> k \<le> hsize m'"
    then have k': "1 \<le> k" "k \<le> hsize m" by (auto simp: m'_def)
    note dk = heap_wfD [OF wf k']
    have inj: "hdata m ! k = hdata m ! i \<longleftrightarrow> k = i" "hdata m ! k = hdata m ! j \<longleftrightarrow> k = j"
      using heap_inj [OF wf k'] ij by blast+
    show "k < length (hdata m')" using dk by (simp add: m'_def)
    show "hdata m' ! k \<noteq> NULL" using dk di dj by (simp add: m'_def nth_list_update)
    show "hindex m' (hdata m' ! k) = Some k"
      using dk di dj ij(5) inj ne by (auto simp: m'_def nth_list_update)
  next
    fix e k assume a: "hindex m' e = Some k \<and> k \<noteq> 0"
    have old: "hindex m e = Some k \<Longrightarrow> k \<le> hsize m \<and> hdata m ! k = e" using wf a by (auto simp: heap_wf_def)
    show "k \<le> hsize m'" using a old ij by (auto simp: m'_def split: if_splits)
    show "hdata m' ! k = e" using a old di dj ij ne by (auto simp: m'_def nth_list_update split: if_splits)
  qed (use wf in \<open>simp_all add: m'_def heap_wf_def\<close>)
  show "elems m' = elems m"
  proof -
    define f where "f k = (if k = i then j else if k = j then i else k)" for k
    have f: "f ` {1..hsize m} = {1..hsize m}" using ij
      by (auto simp: f_def image_iff intro!: bexI [where x="f k" for k])
    have "hdata m' ! k = hdata m ! f k" if "k \<in> {1..hsize m}" for k
      using that di(1) dj(1) by (auto simp: m'_def f_def nth_list_update)
    then have "(\<lambda>k. hdata m' ! k) ` {1..hsize m} = (\<lambda>k. hdata m ! f k) ` {1..hsize m}"
      by (intro image_cong) auto
    also have "\<dots> = (\<lambda>k. hdata m ! k) ` (f ` {1..hsize m})" by (simp add: image_image)
    finally show ?thesis using f by (simp add: elems_def m'_def)
  qed
qed

lemma up_loop_law:
  assumes "heap_wf m" "1 \<le> k" "k \<le> hsize m" "ordered_but key m k"
  shows "\<exists>m'. up_loop (\<lambda>a b. key a < key b) m k (parent k) = Some m' \<and> heap_wf m' \<and> ordered key m' \<and>
    elems m' = elems m \<and> hsize m' = hsize m \<and> max_size m' = max_size m \<and> dom (hindex m') = dom (hindex m)"
  using assms
proof (induction k arbitrary: m rule: less_induct)
  case (less k)
  note wf = less.prems(1)
  show ?case
  proof (cases "k = 1")
    case True
    then have "up_loop (\<lambda>a b. key a < key b) m k (parent k) = Some m"
      by (subst up_loop.simps) (simp add: parent_def)
    moreover have "ordered key m" using less.prems(4) True by (auto simp: ordered_def ordered_but_def)
    ultimately show ?thesis using wf by blast
  next
    case False
    then have p: "1 \<le> k div 2" "k div 2 < k" "k div 2 \<le> hsize m" "2 \<le> k" using less.prems by auto
    note dk = heap_wfD [OF wf less.prems(2,3)] and dp = heap_wfD [OF wf p(1,3)]
    note o = less.prems(4) [unfolded ordered_but_def]
    show ?thesis
    proof (cases "key (hdata m ! k) < key (hdata m ! (k div 2))")
      case no: False
      then have "up_loop (\<lambda>a b. key a < key b) m k (parent k) = Some m"
        using dk dp p by (subst up_loop.simps) (simp add: parent_def data_at_def)
      moreover have "ordered key m"
        unfolding ordered_def using o no by (metis linorder_not_less)
      ultimately show ?thesis using wf by blast
    next
      case lt: True
      define m1 where "m1 = m\<lparr>hdata := (hdata m)[k := hdata m ! (k div 2), k div 2 := hdata m ! k],
         hindex := (hindex m)(hdata m ! (k div 2) \<mapsto> k, hdata m ! k \<mapsto> k div 2)\<rparr>"
      have kp: "k \<noteq> k div 2" using p by simp
      note sw = heap_swap_law [OF wf less.prems(2,3) p(1,3) kp, folded m1_def]
      have step: "up_loop (\<lambda>a b. key a < key b) m k (parent k) =
          up_loop (\<lambda>a b. key a < key b) m1 (k div 2) (parent (k div 2))"
        using dk dp p lt sw(1) by (subst up_loop.simps) (auto simp: parent_def data_at_def)
      have at: "hdata m1 ! i = (if i = k div 2 then hdata m ! k else if i = k then hdata m ! (k div 2) else hdata m ! i)" for i
        using dk(1) dp(1) p by (auto simp: m1_def nth_list_update)
      have h1: "hsize m1 = hsize m" by (simp add: m1_def)
      have "ordered_but key m1 (k div 2)"
        unfolding ordered_but_def h1
      proof (intro conjI allI impI)
        fix i assume i: "2 \<le> i \<and> i \<le> hsize m \<and> i \<noteq> k div 2"
        show "key (hdata m1 ! (i div 2)) \<le> key (hdata m1 ! i)"
        proof (cases "i = k")
          case True
          then show ?thesis using at lt p by simp
        next
          case ik: False
          have oi: "key (hdata m ! (i div 2)) \<le> key (hdata m ! i)" using o i ik by blast
          show ?thesis
          proof (cases "i div 2 = k")
            case True
            then have "key (hdata m ! (k div 2)) \<le> key (hdata m ! i)" using o i p by blast
            then show ?thesis using at True i ik kp by auto
          next
            case False
            then show ?thesis using at oi i ik lt by (cases "i div 2 = k div 2") auto
          qed
        qed
      next
        fix i assume i: "2 \<le> i \<and> i \<le> hsize m \<and> i div 2 = k div 2 \<and> 2 \<le> k div 2"
        have pp: "k div 2 div 2 \<noteq> k div 2" "k div 2 div 2 \<noteq> k" "k div 2 \<noteq> k" using i p by auto
        have op: "key (hdata m ! (k div 2 div 2)) \<le> key (hdata m ! (k div 2))" using o i p pp by auto
        have "i \<noteq> k div 2" using i by auto
        then show "key (hdata m1 ! (k div 2 div 2)) \<le> key (hdata m1 ! i)"
          using at op pp i o by (cases "i = k") (auto intro: order_trans)
      qed
      then obtain m' where "up_loop (\<lambda>a b. key a < key b) m1 (k div 2) (parent (k div 2)) = Some m'"
        "heap_wf m'" "ordered key m'" "elems m' = elems m1" "hsize m' = hsize m1" "max_size m' = max_size m1"
        "dom (hindex m') = dom (hindex m1)"
        using less.IH [OF p(2) sw(2) p(1)] h1 p(3) by auto
      moreover have "dom (hindex m1) = dom (hindex m)" using dk(3) dp(3) by (auto simp: m1_def)
      ultimately show ?thesis using step sw(3) by (auto simp: m1_def)
    qed
  qed
qed

lemma ordered_root_least:
  assumes "ordered key m" "1 \<le> i" "i \<le> hsize m"
  shows "key (hdata m ! 1) \<le> key (hdata m ! i)"
  using assms(2,3)
proof (induction i rule: less_induct)
  case (less i)
  show ?case
  proof (cases "i = 1")
    case False
    then have "1 \<le> i div 2" "i div 2 < i" "2 \<le> i" using less.prems by auto
    then have "key (hdata m ! 1) \<le> key (hdata m ! (i div 2))" using less by auto
    also have "\<dots> \<le> key (hdata m ! i)" using assms(1) less.prems \<open>2 \<le> i\<close> by (auto simp: ordered_def)
    finally show ?thesis .
  qed simp
qed

lemma minheap_insert_law:
  assumes wf: "heap_wf m" and ord: "ordered key m" and e: "e \<noteq> NULL" "hindex m e = Some 0"
    and room: "hsize m + 1 < max_size m"
  shows "\<exists>m'. minheap_insert (\<lambda>a b. key a < key b) m e = Some m' \<and> heap_wf m' \<and> ordered key m' \<and>
    elems m' = insert e (elems m) \<and> hsize m' = hsize m + 1 \<and> max_size m' = max_size m \<and>
    dom (hindex m') = dom (hindex m)"
proof -
  let ?n = "hsize m + 1"
  define m3 where "m3 = m\<lparr>hsize := ?n, hdata := (hdata m)[?n := e], hindex := (hindex m)(e \<mapsto> ?n)\<rparr>"
  have len: "length (hdata m) = max_size m" using wf by (simp add: heap_wf_def)
  have old: "hdata m3 ! i = hdata m ! i" if "i \<le> hsize m" for i using that by (simp add: m3_def)
  have new: "hdata m3 ! ?n = e" using len room by (simp add: m3_def)
  have en: "hdata m ! i \<noteq> e" if "1 \<le> i" "i \<le> hsize m" for i
    using heap_wfD(3) [OF wf that] e(2) that by auto
  have wf3: "heap_wf m3"
    unfolding heap_wf_def
  proof (intro conjI allI impI)
    fix i assume i: "1 \<le> i \<and> i \<le> hsize m3"
    show "i < length (hdata m3)" using i len room by (simp add: m3_def)
    show "hdata m3 ! i \<noteq> NULL" using i old new e(1) heap_wfD(2) [OF wf] by (cases "i = ?n") (auto simp: m3_def)
    show "hindex m3 (hdata m3 ! i) = Some i"
    proof (cases "i = ?n")
      case True
      then show ?thesis using new by (simp add: m3_def)
    next
      case False
      then have "1 \<le> i" "i \<le> hsize m" using i by (auto simp: m3_def)
      then show ?thesis using old en heap_wfD(3) [OF wf] by (simp add: m3_def)
    qed
  next
    fix d i assume a: "hindex m3 d = Some i \<and> i \<noteq> 0"
    then have "d = e \<and> i = ?n \<or> i \<le> hsize m \<and> hdata m ! i = d"
      using wf by (auto simp: m3_def heap_wf_def split: if_splits)
    then show "i \<le> hsize m3" "hdata m3 ! i = d" using old new by (auto simp: m3_def)
  qed (use wf in \<open>simp_all add: m3_def heap_wf_def\<close>)
  have "ordered_but key m3 ?n"
    unfolding ordered_but_def
  proof (intro conjI allI impI)
    fix i assume i: "2 \<le> i \<and> i \<le> hsize m3 \<and> i \<noteq> ?n"
    then have "i \<le> hsize m" "i div 2 \<le> hsize m" by (auto simp: m3_def)
    then show "key (hdata m3 ! (i div 2)) \<le> key (hdata m3 ! i)" using ord i old by (simp add: ordered_def)
  next
    fix i assume "2 \<le> i \<and> i \<le> hsize m3 \<and> i div 2 = ?n \<and> 2 \<le> ?n"
    then have "i div 2 = hsize m + 1" "i \<le> hsize m + 1" by (auto simp: m3_def)
    then show "key (hdata m3 ! (?n div 2)) \<le> key (hdata m3 ! i)" by linarith
  qed
  then obtain m' where m': "up_loop (\<lambda>a b. key a < key b) m3 ?n (parent ?n) = Some m'" "heap_wf m'"
    "ordered key m'" "elems m' = elems m3" "hsize m' = ?n" "max_size m' = max_size m" "dom (hindex m') = dom (hindex m3)"
    using up_loop_law [OF wf3, of ?n key] by (auto simp: m3_def)
  have "elems m3 = insert e (elems m)"
  proof -
    have "{1..?n} = insert ?n {1..hsize m}" by auto
    then have "elems m3 = insert e ((\<lambda>i. hdata m3 ! i) ` {1..hsize m})" using new by (simp add: elems_def m3_def)
    also have "(\<lambda>i. hdata m3 ! i) ` {1..hsize m} = elems m" unfolding elems_def by (intro image_cong) (auto simp: old)
    finally show ?thesis .
  qed
  moreover have "minheap_insert (\<lambda>a b. key a < key b) m e = Some m'"
    using e room len m'(1) by (simp add: minheap_insert_def set_data_def set_index_def up_def m3_def)
  moreover have "dom (hindex m3) = dom (hindex m)" using e by (auto simp: m3_def)
  ultimately show ?thesis using m' by auto
qed

section \<open>Properties\<close>

lemma heap_create_wf:
  assumes "int n \<le> INT32_MAX div 2" "\<forall>e i. index e = Some i \<longrightarrow> i = 0"
  shows "heap_wf (minheap_create n index) \<and> ordered key (minheap_create n index) \<and> elems (minheap_create n index) = {}"
  using assms by (auto simp: heap_wf_def ordered_def elems_def minheap_create_def)

text \<open>
  Claim C20. Inserting an element that is not in the heap while there is a free slot succeeds, keeps
  the heap ordered and every element's position field right, and adds exactly that element; the
  minimum reported afterwards is a least element by the comparison.
\<close>

theorem minheap_insert_ordered:
  assumes "heap_wf m" "ordered key m" "e \<noteq> NULL" "hindex m e = Some 0" "hsize m + 1 < max_size m"
  shows "\<exists>m' x. minheap_insert (\<lambda>a b. key a < key b) m e = Some m' \<and> heap_wf m' \<and> ordered key m' \<and>
    elems m' = insert e (elems m) \<and> minheap_min m' = Some x \<and> x \<in> elems m' \<and> (\<forall>y \<in> elems m'. key x \<le> key y)"
proof -
  obtain m' where m': "minheap_insert (\<lambda>a b. key a < key b) m e = Some m'" "heap_wf m'" "ordered key m'"
    "elems m' = insert e (elems m)" "hsize m' = hsize m + 1"
    using minheap_insert_law [OF assms] by blast
  have "minheap_min m' = Some (hdata m' ! 1)"
    using m'(5) heap_wfD(1) [OF m'(2), of 1] by (simp add: minheap_min_def data_at_def)
  moreover have "hdata m' ! 1 \<in> elems m'" using m'(5) by (auto simp: elems_def)
  moreover have "\<forall>y \<in> elems m'. key (hdata m' ! 1) \<le> key y"
    using ordered_root_least [OF m'(3)] by (auto simp: elems_def)
  ultimately show ?thesis using m'(1-4) by blast
qed

theorem minheap_insert_ordered_witness:
  "\<exists>m' x. minheap_insert (\<lambda>a b. (a::addr) < b) (minheap_create 8 [5 \<mapsto> 0]) 5 = Some m' \<and>
     elems m' = {5} \<and> minheap_min m' = Some x \<and> x \<in> {5}"
proof -
  have "heap_wf (minheap_create 8 [5 \<mapsto> 0])" "ordered id (minheap_create 8 [5 \<mapsto> 0])"
    "elems (minheap_create 8 [5 \<mapsto> 0]) = {}"
    using heap_create_wf [of 8 "[5 \<mapsto> 0]" id] by (auto split: if_splits)
  moreover have "hindex (minheap_create 8 [5 \<mapsto> 0]) 5 = Some 0"
    "hsize (minheap_create 8 [5 \<mapsto> 0]) + 1 < max_size (minheap_create 8 [5 \<mapsto> 0])"
    by (simp_all add: minheap_create_def)
  ultimately show ?thesis
    using minheap_insert_ordered [of "minheap_create 8 [5 \<mapsto> 0]" id 5] by auto
qed

text \<open>
  The array has one slot too few for the 1-based positions: inserting the element that
  would fill the heap to \<open>max_size\<close> writes behind the allocated block.
\<close>

theorem minheap_insert_last_out_of_bounds:
  assumes "heap_wf m" "e \<noteq> NULL" "hindex m e = Some 0" "hsize m + 1 = max_size m"
  shows "minheap_insert lt m e = None"
proof -
  have "length (hdata m) = max_size m" using assms(1) by (simp add: heap_wf_def)
  then show ?thesis using assms by (simp add: minheap_insert_def set_data_def)
qed

theorem minheap_insert_last_out_of_bounds_witness:
  "minheap_insert (\<lambda>a b. a < b) (minheap_create 1 [5 \<mapsto> 0]) 5 = None"
proof -
  have "heap_wf (minheap_create 1 [5 \<mapsto> 0])"
    using heap_create_wf [of 1 "[5 \<mapsto> 0]" id] by (auto split: if_splits)
  then show ?thesis
    by (rule minheap_insert_last_out_of_bounds) (simp_all add: minheap_create_def)
qed

text \<open>
  Elements are compared by their address here. After the insertions the minima are popped.
\<close>

fun pop_minima :: "minheap \<Rightarrow> nat \<Rightarrow> addr list option" where
  "pop_minima m 0 = Some []"
| "pop_minima m (Suc n) = do {
     (m1, e) \<leftarrow> minheap_popmin (\<lambda>a b. a < b) m; es \<leftarrow> pop_minima m1 n; Some (e # es) }"

text \<open>
  \<open>down\<close> stops one position early (\<open>l < size\<close> where the last valid position is
  \<open>size\<close>), so popping does not restore the order: from a heap with the elements 1, 2, 3 the minima
  are reported as 1, 3, 2.
\<close>

theorem minheap_popmin_wrong_order:
  "do { m \<leftarrow> insert_all (\<lambda>a b. a < b) (minheap_create 8 [1 \<mapsto> 0, 2 \<mapsto> 0, 3 \<mapsto> 0]) [1, 2, 3]; pop_minima m 3 } =
     Some [1, 3, 2]"
  by code_simp

lemma remove_copy_overflow:
  assumes "c \<le> length bk" "length bk < c + length (filter (\<lambda>i. hdata m ! i \<noteq> e) js)"
  shows "remove_copy m e bk c js = None"
  using assms
proof (induction js arbitrary: m bk c)
  case Nil
  then show ?case by simp
next
  case (Cons i js)
  show ?case
  proof (cases "data_at m i")
    case (Some d)
    then have d: "d = hdata m ! i" by (auto simp: data_at_def split: if_splits)
    show ?thesis
    proof (cases "set_index m d 0")
      case None
      with Some show ?thesis by simp
    next
      case m1: (Some m1)
      then have same: "hdata m1 = hdata m" by (auto simp: set_index_def split: if_splits)
      show ?thesis using Some m1 d Cons.prems same
        Cons.IH [of c bk m1] Cons.IH [of "c + 1" "bk[c := d]" m1] by auto
    qed
  qed simp
qed

text \<open>
  Removing an element from a heap with at least two elements writes behind the array of
  \<open>size - 1\<close> slots, which is filled from slot 1 on.
\<close>

theorem minheap_remove_out_of_bounds:
  assumes wf: "heap_wf m" and two: "2 \<le> hsize m"
  shows "minheap_remove lt m e = None"
proof -
  let ?is = "[1..<Suc (hsize m)]"
  have "length (filter (\<lambda>i. hdata m ! i = e) ?is) \<le> 1"
  proof -
    have sub: "set (filter (\<lambda>i. hdata m ! i = e) ?is) \<subseteq> {i. 1 \<le> i \<and> i \<le> hsize m \<and> hdata m ! i = e}" by auto
    have "card (set (filter (\<lambda>i. hdata m ! i = e) ?is)) \<le> 1"
    proof (rule card_le_Suc0_iff_eq [THEN iffD2, unfolded One_nat_def [symmetric]])
      show "\<forall>i \<in> set (filter (\<lambda>i. hdata m ! i = e) ?is). \<forall>j \<in> set (filter (\<lambda>i. hdata m ! i = e) ?is). i = j"
        using sub heap_inj [OF wf] by blast
    qed simp
    moreover have "distinct (filter (\<lambda>i. hdata m ! i = e) ?is)" by simp
    ultimately show ?thesis by (metis distinct_card)
  qed
  moreover have "length (filter (\<lambda>i. hdata m ! i = e) ?is) + length (filter (\<lambda>i. hdata m ! i \<noteq> e) ?is) = hsize m"
    using sum_length_filter_compl [of "\<lambda>i. hdata m ! i = e" ?is] by simp
  ultimately have "hsize m \<le> 1 + length (filter (\<lambda>i. hdata m ! i \<noteq> e) ?is)" by simp
  then have "remove_copy m e (replicate (hsize m - 1) NULL) 1 ?is = None"
    using two by (intro remove_copy_overflow) auto
  then show ?thesis by (simp add: minheap_remove_def)
qed

theorem minheap_remove_out_of_bounds_witness:
  "\<exists>m. insert_all (\<lambda>a b. a < b) (minheap_create 8 [5 \<mapsto> 0, 6 \<mapsto> 0]) [5, 6] = Some m \<and> hsize m = 2 \<and>
     minheap_remove (\<lambda>a b. a < b) m 5 = None"
proof -
  let ?m = "minheap_create 8 [5 \<mapsto> 0, 6 \<mapsto> 0]"
  have m0: "heap_wf ?m" "ordered id ?m"
    using heap_create_wf [of 8 "[5 \<mapsto> 0, 6 \<mapsto> 0]" id] by (auto split: if_splits)
  obtain m1 where m1: "minheap_insert (\<lambda>a b. id a < id b) ?m 5 = Some m1" "heap_wf m1" "ordered id m1"
    "elems m1 = insert 5 (elems ?m)" "hsize m1 = 1" "max_size m1 = 8" "dom (hindex m1) = dom (hindex ?m)"
    using minheap_insert_law [OF m0, of 5] by (auto simp: minheap_create_def)
  have e6: "hindex m1 6 = Some 0"
  proof -
    have "6 \<in> dom (hindex m1)" using m1(7) by (simp add: minheap_create_def)
    then obtain i where i: "hindex m1 6 = Some i" by auto
    have "6 \<notin> elems m1" using m1(4) by (simp add: elems_def minheap_create_def)
    have "i = 0"
    proof (rule ccontr)
      assume "i \<noteq> 0"
      then have "i \<le> hsize m1" "hdata m1 ! i = 6" using m1(2) i by (auto simp: heap_wf_def)
      then have "6 \<in> elems m1" using \<open>i \<noteq> 0\<close> by (force simp: elems_def)
      with \<open>6 \<notin> elems m1\<close> show False by simp
    qed
    with i show ?thesis by simp
  qed
  obtain m2 where m2: "minheap_insert (\<lambda>a b. id a < id b) m1 6 = Some m2" "heap_wf m2" "hsize m2 = 2"
    using minheap_insert_law [OF m1(2,3) _ e6] m1(5,6) by auto
  have "insert_all (\<lambda>a b. a < b) ?m [5, 6] = Some m2" using m1(1) m2(1) by simp
  then show ?thesis using minheap_remove_out_of_bounds [OF m2(2), of "\<lambda>a b. a < b" 5] m2(3) by auto
qed

end
