(* ===== verification/TimingWheel.thy ===== *)
theory TimingWheel
  imports Prelude
begin

text \<open>
  The timing wheel (\<open>src/timing_wheel.c\<close>): an array of slots, each the head of a doubly linked list
  of items. The clock is an argument of the operations that read it. What \<open>malloc\<close> leaves in the
  slot array is an argument of \<open>CreateTimingWheel\<close>. A callback is foreign code that may change the
  wheel: it is the parameter \<open>cb\<close>, applied to the item whose callback runs; every call is recorded
  in the trace \<open>fired\<close>. The lines of output are left out.
\<close>

record witem =
  wi_pre :: addr
  wi_next :: addr
  wi_has_callback :: bool
  wi_slot :: int

record twheel =
  precision :: u32
  slot_size :: u32
  last_update :: u32
  current :: u32
  slots :: "addr list"
  items :: "addr \<rightharpoonup> witem"
  fired :: "addr list"

definition CreateWheelItem :: "twheel \<Rightarrow> addr \<Rightarrow> bool \<Rightarrow> twheel" where
  "CreateWheelItem t a has_cb =
     t\<lparr>items := (items t)(a \<mapsto> \<lparr>wi_pre = NULL, wi_next = NULL, wi_has_callback = has_cb, wi_slot = -1\<rparr>)\<rparr>"

definition CreateTimingWheel :: "u32 \<Rightarrow> u32 \<Rightarrow> u32 \<Rightarrow> (nat \<Rightarrow> addr) \<Rightarrow> twheel option" where
  "CreateTimingWheel prec mx now garbage =
     (if prec = 0 then None
      else
        let sz = mx div prec
        in Some \<lparr>precision = prec, slot_size = sz, last_update = now, current = 0,
                 slots = map garbage [0..<unat sz], items = Map.empty, fired = []\<rparr>)"

definition item_at :: "twheel \<Rightarrow> addr \<Rightarrow> witem option" where
  "item_at t a = (if a = NULL then None else items t a)"

definition put_item :: "twheel \<Rightarrow> addr \<Rightarrow> witem \<Rightarrow> twheel" where
  "put_item t a w = t\<lparr>items := (items t)(a \<mapsto> w)\<rparr>"

definition get_slot :: "twheel \<Rightarrow> nat \<Rightarrow> addr option" where
  "get_slot t s = (if s < length (slots t) then Some (slots t ! s) else None)"

definition set_slot :: "twheel \<Rightarrow> nat \<Rightarrow> addr \<Rightarrow> twheel option" where
  "set_slot t s a = (if s < length (slots t) then Some (t\<lparr>slots := (slots t)[s := a]\<rparr>) else None)"

definition Add :: "twheel \<Rightarrow> nat \<Rightarrow> addr \<Rightarrow> twheel option" where
  "Add t s item = do {
     h \<leftarrow> get_slot t s;
     t1 \<leftarrow> (if h \<noteq> NULL
           then do {
             hw \<leftarrow> item_at t h;
             let t' = put_item t h (hw\<lparr>wi_pre := item\<rparr>);
             w \<leftarrow> item_at t' item;
             Some (put_item t' item (w\<lparr>wi_next := h\<rparr>)) }
           else do {
             w \<leftarrow> item_at t item;
             Some (put_item t item (w\<lparr>wi_next := NULL, wi_pre := NULL\<rparr>)) });
     t2 \<leftarrow> set_slot t1 s item;
     w \<leftarrow> item_at t2 item;
     Some (put_item t2 item (w\<lparr>wi_slot := int s\<rparr>)) }"

definition RegisterTimer :: "twheel \<Rightarrow> addr \<Rightarrow> u32 \<Rightarrow> u32 \<Rightarrow> (twheel \<times> int) option" where
  "RegisterTimer t item timeout now =
     (let timeout = (if timeout < precision t then precision t else timeout) in
      if precision t = 0 then None
      else
        let n = (now + timeout - last_update t - precision t) div precision t in
        if n \<ge> slot_size t then Some (t, -1)
        else do {
          t' \<leftarrow> Add t (unat ((current t + n) mod slot_size t)) item;
          Some (t', 0) })"

text \<open>The list of a slot is detached first; \<open>head\<close> is read before the callback runs.\<close>

partial_function (option) Active_loop ::
    "(addr \<Rightarrow> twheel \<Rightarrow> twheel option) \<Rightarrow> twheel \<Rightarrow> addr \<Rightarrow> twheel option" where
  "Active_loop cb t head =
     (if head = NULL then Some t
      else do {
        w \<leftarrow> item_at t head;
        let t1 = put_item t head (w\<lparr>wi_slot := 0, wi_pre := NULL, wi_next := NULL\<rparr>);
        t2 \<leftarrow> (if wi_has_callback w then cb head (t1\<lparr>fired := fired t1 @ [head]\<rparr>) else Some t1);
        Active_loop cb t2 (wi_next w) })"

definition Active :: "(addr \<Rightarrow> twheel \<Rightarrow> twheel option) \<Rightarrow> twheel \<Rightarrow> nat \<Rightarrow> twheel option" where
  "Active cb t s = do {
     head \<leftarrow> get_slot t s;
     t1 \<leftarrow> set_slot t s NULL;
     Active_loop cb t1 head }"

text \<open>\<open>k\<close> iterations of the loop of \<open>UpdateWheel\<close>, from \<open>i\<close> on.\<close>

fun Update_loop :: "(addr \<Rightarrow> twheel \<Rightarrow> twheel option) \<Rightarrow> twheel \<Rightarrow> u32 \<Rightarrow> nat \<Rightarrow> twheel option" where
  "Update_loop cb t i 0 = Some t"
| "Update_loop cb t i (Suc k) = do {
     t1 \<leftarrow> Active cb t (unat ((current t + i) mod slot_size t));
     Update_loop cb t1 (i + 1) k }"

definition UpdateWheel :: "(addr \<Rightarrow> twheel \<Rightarrow> twheel option) \<Rightarrow> twheel \<Rightarrow> u32 \<Rightarrow> (twheel \<times> int) option" where
  "UpdateWheel cb t now =
     (let interval = now - last_update t in
      if interval < precision t then Some (t, -1)
      else if precision t = 0 then None
      else do {
        let n = min (interval div precision t) (slot_size t);
        t1 \<leftarrow> Update_loop cb t 0 (unat n);
        (if slot_size t1 = 0 then None
         else Some (t1\<lparr>current := (current t1 + n) mod slot_size t1, last_update := now\<rparr>, 0)) })"

definition UnRegisterTimer :: "twheel \<Rightarrow> addr \<Rightarrow> twheel option" where
  "UnRegisterTimer t wit = do {
     w \<leftarrow> item_at t wit;
     (if wi_slot w < 0 \<or> wi_slot w \<ge> int (unat (slot_size t)) then Some t
      else do {
        let nx = wi_next w;
        let pr = wi_pre w;
        t1 \<leftarrow> (if pr \<noteq> NULL
              then do {
                p \<leftarrow> item_at t pr;
                let t' = put_item t pr (p\<lparr>wi_next := nx\<rparr>);
                (if nx \<noteq> NULL
                 then do { x \<leftarrow> item_at t' nx; Some (put_item t' nx (x\<lparr>wi_pre := pr\<rparr>)) }
                 else Some t') }
              else do {
                t' \<leftarrow> set_slot t (nat (wi_slot w)) nx;
                (if nx \<noteq> NULL
                 then do { x \<leftarrow> item_at t' nx; Some (put_item t' nx (x\<lparr>wi_pre := NULL\<rparr>)) }
                 else Some t') });
        w1 \<leftarrow> item_at t1 wit;
        Some (put_item t1 wit (w1\<lparr>wi_pre := NULL, wi_next := NULL, wi_slot := -1\<rparr>)) }) }"

section \<open>Invariant\<close>

text \<open>A doubly linked list of items that all carry the slot number \<open>s\<close>.\<close>

fun dseg :: "(addr \<rightharpoonup> witem) \<Rightarrow> int \<Rightarrow> addr \<Rightarrow> addr \<Rightarrow> addr list \<Rightarrow> bool" where
  "dseg it s pr h [] \<longleftrightarrow> h = NULL"
| "dseg it s pr h (x # xs) \<longleftrightarrow> h = x \<and> x \<noteq> NULL \<and>
     (\<exists>w. it x = Some w \<and> wi_pre w = pr \<and> wi_slot w = s \<and> dseg it s x (wi_next w) xs)"

definition wheel_inv :: "twheel \<Rightarrow> (nat \<Rightarrow> addr list) \<Rightarrow> bool" where
  "wheel_inv t L \<longleftrightarrow> precision t \<noteq> 0 \<and> current t < slot_size t \<and> unat (slot_size t) \<le> 2 ^ 31 \<and>
     length (slots t) = unat (slot_size t) \<and>
     (\<forall>s < unat (slot_size t). dseg (items t) (int s) NULL (slots t ! s) (L s) \<and> distinct (L s))"

definition pending :: "twheel \<Rightarrow> (nat \<Rightarrow> addr list) \<Rightarrow> addr set" where
  "pending t L = (\<Union>s < unat (slot_size t). set (L s))"

lemma dseg_frame: "a \<notin> set xs \<Longrightarrow> dseg (it(a := v)) s pr h xs = dseg it s pr h xs"
  by (induction xs arbitrary: pr h) auto

lemma dseg_item: "dseg it s pr h xs \<Longrightarrow> x \<in> set xs \<Longrightarrow> x \<noteq> NULL \<and> (\<exists>w. it x = Some w \<and> wi_slot w = s)"
  by (induction xs arbitrary: pr h) auto

lemma wheel_slots_disjoint:
  assumes "wheel_inv t L" "s < unat (slot_size t)" "s' < unat (slot_size t)" "x \<in> set (L s)" "x \<in> set (L s')"
  shows "s = s'"
  using assms dseg_item [of "items t" "int s" NULL "slots t ! s" "L s" x]
    dseg_item [of "items t" "int s'" NULL "slots t ! s'" "L s'" x]
  by (auto simp: wheel_inv_def)

lemma item_at_Some: "item_at t a = Some w \<longleftrightarrow> a \<noteq> NULL \<and> items t a = Some w"
  by (simp add: item_at_def)

text \<open>Which of the items of a list have a callback.\<close>

definition with_cb :: "twheel \<Rightarrow> addr list \<Rightarrow> addr list" where
  "with_cb t = filter (\<lambda>a. map_option wi_has_callback (items t a) = Some True)"

lemma Add_law:
  assumes inv: "wheel_inv t L" and s: "s < unat (slot_size t)" and w: "item_at t a = Some w" "wi_pre w = NULL"
    and new: "a \<notin> pending t L"
  shows "\<exists>t'. Add t s a = Some t' \<and> wheel_inv t' (L(s := a # L s)) \<and> fired t' = fired t \<and>
    precision t' = precision t \<and> slot_size t' = slot_size t \<and> last_update t' = last_update t \<and>
    current t' = current t \<and> map_option wi_has_callback (items t' a) = Some (wi_has_callback w) \<and> with_cb t' = with_cb t"
proof -
  let ?h = "slots t ! s"
  have len: "length (slots t) = unat (slot_size t)" using inv by (simp add: wheel_inv_def)
  have seg: "dseg (items t) (int k) NULL (slots t ! k) (L k)" "distinct (L k)" if "k < unat (slot_size t)" for k
    using inv that by (auto simp: wheel_inv_def)
  have a: "a \<noteq> NULL" "items t a = Some w" using w(1) unfolding item_at_Some by auto
  have na: "a \<notin> set (L k)" if "k < unat (slot_size t)" for k using new that by (auto simp: pending_def)
  text \<open>the item store after the call\<close>
  define it where "it = (case L s of [] \<Rightarrow> (items t)(a \<mapsto> w\<lparr>wi_next := NULL, wi_pre := NULL, wi_slot := int s\<rparr>)
    | x # xs \<Rightarrow> (items t)(x \<mapsto> (the (items t x))\<lparr>wi_pre := a\<rparr>, a \<mapsto> w\<lparr>wi_next := x, wi_slot := int s\<rparr>))"
  define t' where "t' = t\<lparr>slots := (slots t)[s := a], items := it\<rparr>"
  have run: "Add t s a = Some t'"
  proof (cases "L s")
    case Nil
    then have "?h = NULL" using seg(1) [OF s] by simp
    then show ?thesis using s len a Nil
      by (simp add: Add_def get_slot_def set_slot_def item_at_def put_item_def t'_def it_def)
  next
    case (Cons x xs)
    then obtain v where v: "?h = x" "x \<noteq> NULL" "items t x = Some v" using seg(1) [OF s] by auto
    have "x \<noteq> a" using na [OF s] Cons by auto
    then show ?thesis using s len a v Cons
      by (simp add: Add_def get_slot_def set_slot_def item_at_def put_item_def t'_def it_def fun_upd_twist)
  qed
  have "dseg it (int k) NULL ((slots t)[s := a] ! k) ((L(s := a # L s)) k)" if k: "k < unat (slot_size t)" for k
  proof (cases "k = s")
    case False
    have "x \<notin> set (L k)" if "x \<in> set (L s)" for x
      using wheel_slots_disjoint [OF inv s k that] False by blast
    then have "dseg it (int k) NULL (slots t ! k) (L k) = dseg (items t) (int k) NULL (slots t ! k) (L k)"
      using na [OF k] by (auto simp: it_def dseg_frame split: list.splits)
    then show ?thesis using seg(1) [OF k] False by simp
  next
    case True
    show ?thesis
    proof (cases "L s")
      case Nil
      then show ?thesis using True s len a by (simp add: it_def)
    next
      case (Cons x xs)
      then obtain v where v: "?h = x" "x \<noteq> NULL" "items t x = Some v" "wi_slot v = int s"
        "dseg (items t) (int s) x (wi_next v) xs" using seg(1) [OF s] by auto
      have ne: "x \<noteq> a" "a \<notin> set xs" "x \<notin> set xs" using na [OF s] seg(2) [OF s] Cons by auto
      then show ?thesis using True s len a v Cons w(2) by (simp add: it_def dseg_frame)
    qed
  qed
  moreover have "distinct ((L(s := a # L s)) k)" if "k < unat (slot_size t)" for k
    using seg(2) [OF that] na [OF that] by auto
  ultimately have "wheel_inv t' (L(s := a # L s))" using inv by (simp add: wheel_inv_def t'_def)
  moreover have "map_option wi_has_callback (items t' a) = Some (wi_has_callback w)"
    by (simp add: t'_def it_def split: list.splits)
  moreover have "map_option wi_has_callback (items t' b) = map_option wi_has_callback (items t b)" for b
    using seg(1) [OF s] a by (auto simp: t'_def it_def split: list.splits)
  then have "with_cb t' = with_cb t" by (simp add: with_cb_def)
  ultimately show ?thesis using run by (auto simp: t'_def)
qed

section \<open>Firing\<close>

lemma Active_loop_law:
  assumes "dseg (items t) s pr h xs" "distinct xs" "\<forall>a s. cb a s = Some s"
  shows "\<exists>it. Active_loop cb t h = Some (t\<lparr>items := it, fired := fired t @ with_cb t xs\<rparr>) \<and>
    (\<forall>a. a \<notin> set xs \<longrightarrow> it a = items t a) \<and>
    (\<forall>a. map_option wi_has_callback (it a) = map_option wi_has_callback (items t a)) \<and>
    (\<forall>a \<in> set xs. \<exists>w. it a = Some w \<and> wi_slot w = 0 \<and> wi_pre w = NULL \<and> wi_next w = NULL)"
  using assms
proof (induction xs arbitrary: t pr h)
  case Nil
  then show ?case by (intro exI [of _ "items t"]) (subst Active_loop.simps, simp add: with_cb_def)
next
  case (Cons x xs)
  then obtain w where w: "h = x" "x \<noteq> NULL" "items t x = Some w" "dseg (items t) s x (wi_next w) xs" by auto
  define w' where "w' = w\<lparr>wi_slot := 0, wi_pre := NULL, wi_next := NULL\<rparr>"
  define f where "f = (if wi_has_callback w then [x] else [])"
  define t1 where "t1 = t\<lparr>items := (items t)(x \<mapsto> w'), fired := fired t @ f\<rparr>"
  have x: "x \<notin> set xs" "distinct xs" using Cons.prems(2) by auto
  have step: "Active_loop cb t h = Active_loop cb t1 (wi_next w)"
    using w Cons.prems(3)
    by (subst Active_loop.simps) (simp add: item_at_def put_item_def t1_def w'_def f_def)
  have "dseg (items t1) s x (wi_next w) xs" using w(4) x(1) by (simp add: t1_def dseg_frame)
  from Cons.IH [OF this x(2) Cons.prems(3)] obtain it where
    it: "Active_loop cb t1 (wi_next w) = Some (t1\<lparr>items := it, fired := fired t1 @ with_cb t1 xs\<rparr>)"
      "\<forall>a. a \<notin> set xs \<longrightarrow> it a = items t1 a"
      "\<forall>a. map_option wi_has_callback (it a) = map_option wi_has_callback (items t1 a)"
      "\<forall>a \<in> set xs. \<exists>w. it a = Some w \<and> wi_slot w = 0 \<and> wi_pre w = NULL \<and> wi_next w = NULL" by blast
  have cb1: "map_option wi_has_callback (items t1 a) = map_option wi_has_callback (items t a)" for a
    using w(3) by (simp add: t1_def w'_def)
  then have "with_cb t1 xs = with_cb t xs" by (simp add: with_cb_def)
  moreover have "with_cb t (x # xs) = f @ with_cb t xs" using w(3) by (simp add: with_cb_def f_def)
  ultimately have "Active_loop cb t h = Some (t\<lparr>items := it, fired := fired t @ with_cb t (x # xs)\<rparr>)"
    using step it(1) by (simp add: t1_def)
  moreover have "\<forall>a. a \<notin> set (x # xs) \<longrightarrow> it a = items t a" using it(2) by (simp add: t1_def)
  moreover have "it x = Some w'" using it(2) x(1) by (simp add: t1_def)
  ultimately show ?case using it(3,4) cb1 by (intro exI [of _ it]) (auto simp: w'_def)
qed

text \<open>The wheel after a call, as far as time keeping is concerned.\<close>

definition same_wheel :: "twheel \<Rightarrow> twheel \<Rightarrow> bool" where
  "same_wheel t t' \<longleftrightarrow> precision t' = precision t \<and> slot_size t' = slot_size t \<and>
     last_update t' = last_update t \<and> current t' = current t \<and>
     (\<forall>a. map_option wi_has_callback (items t' a) = map_option wi_has_callback (items t a))"

lemma Active_law:
  assumes inv: "wheel_inv t L" and s: "s < unat (slot_size t)" and cb: "\<forall>a s. cb a s = Some s"
  shows "\<exists>t'. Active cb t s = Some t' \<and> wheel_inv t' (L(s := [])) \<and>
    fired t' = fired t @ with_cb t (L s) \<and> same_wheel t t' \<and>
    (\<forall>a \<in> set (L s). \<exists>w. items t' a = Some w \<and> wi_slot w = 0 \<and> wi_pre w = NULL \<and> wi_next w = NULL)"
proof -
  have len: "length (slots t) = unat (slot_size t)" using inv by (simp add: wheel_inv_def)
  have seg: "dseg (items t) (int k) NULL (slots t ! k) (L k)" "distinct (L k)" if "k < unat (slot_size t)" for k
    using inv that by (auto simp: wheel_inv_def)
  define t1 where "t1 = t\<lparr>slots := (slots t)[s := NULL]\<rparr>"
  have "dseg (items t1) (int s) NULL (slots t ! s) (L s)" using seg(1) [OF s] by (simp add: t1_def)
  from Active_loop_law [OF this seg(2) [OF s] cb] obtain it where
    it: "Active_loop cb t1 (slots t ! s) = Some (t1\<lparr>items := it, fired := fired t1 @ with_cb t1 (L s)\<rparr>)"
      "\<forall>a. a \<notin> set (L s) \<longrightarrow> it a = items t1 a"
      "\<forall>a. map_option wi_has_callback (it a) = map_option wi_has_callback (items t1 a)"
      "\<forall>a \<in> set (L s). \<exists>w. it a = Some w \<and> wi_slot w = 0 \<and> wi_pre w = NULL \<and> wi_next w = NULL" by blast
  define t' where "t' = t1\<lparr>items := it, fired := fired t1 @ with_cb t1 (L s)\<rparr>"
  have run: "Active cb t s = Some t'"
    using s len it(1) by (simp add: Active_def get_slot_def set_slot_def t'_def t1_def)
  have "dseg it (int k) NULL ((slots t)[s := NULL] ! k) ((L(s := [])) k)" if k: "k < unat (slot_size t)" for k
  proof (cases "k = s")
    case True
    then show ?thesis using s len by simp
  next
    case False
    have "it x = items t x" if "x \<in> set (L k)" for x
      using it(2) wheel_slots_disjoint [OF inv k s that] False by (auto simp: t1_def)
    then have "dseg it (int k) pr h xs = dseg (items t) (int k) pr h xs" if "set xs \<subseteq> set (L k)" for pr h xs
      using that by (induction xs arbitrary: pr h) auto
    then show ?thesis using seg(1) [OF k] False by simp
  qed
  then have "wheel_inv t' (L(s := []))" using inv seg(2) by (simp add: wheel_inv_def t'_def t1_def)
  moreover have "with_cb t1 (L s) = with_cb t (L s)" by (simp add: with_cb_def t1_def)
  ultimately show ?thesis using run it by (auto simp: t'_def t1_def same_wheel_def)
qed

text \<open>Slot arithmetic without wrap-around.\<close>

lemma slot_index:
  assumes "c < n" "i < n" "unat n \<le> 2 ^ 31"
  shows "unat ((c + i) mod n) = (unat c + unat i) mod unat (n::u32)"
proof -
  have "unat c < unat n" "unat i < unat n" using assms by (simp_all add: word_less_nat_alt)
  then have "unat c + unat i < 2 ^ 32" using assms(3) by simp
  then show ?thesis by (simp add: unat_mod unat_word_ariths)
qed

lemma slot_inj:
  assumes "i < n" "j < n" "(c + i) mod n = (c + j) mod n"
  shows "i = (j::nat)"
proof -
  have le: "a = b" if "a \<le> b" "b < n" "(c + a) mod n = (c + b) mod n" for a b
  proof -
    have "n dvd (c + b) - (c + a)" using that by (metis add_le_mono le_refl mod_eq_dvd_iff_nat)
    then have "n dvd b - a" by simp
    then show ?thesis using that(1,2) by (metis diff_is_0_eq' dvd_imp_le eq_iff less_imp_diff_less not_less zero_less_iff_neq_zero diff_is_0_eq)
  qed
  show ?thesis using le [of i j] le [of j i] assms by (cases "i \<le> j") auto
qed

lemma same_wheel_trans: "same_wheel t1 t2 \<Longrightarrow> same_wheel t2 t3 \<Longrightarrow> same_wheel t1 t3"
  by (simp add: same_wheel_def)

lemma with_cb_same: "same_wheel t t' \<Longrightarrow> with_cb t' = with_cb t"
  by (simp add: with_cb_def same_wheel_def fun_eq_iff)

definition clear_slots :: "(nat \<Rightarrow> addr list) \<Rightarrow> nat set \<Rightarrow> nat \<Rightarrow> addr list" where
  "clear_slots L S = (\<lambda>s. if s \<in> S then [] else L s)"

lemma Update_loop_law:
  assumes "wheel_inv t L" "\<forall>a s. cb a s = Some s" "unat i + k \<le> unat (slot_size t)"
  defines "slot \<equiv> \<lambda>j. (unat (current t) + unat i + j) mod unat (slot_size t)"
  shows "\<exists>t'. Update_loop cb t i k = Some t' \<and> wheel_inv t' (clear_slots L (slot ` {0..<k})) \<and>
    fired t' = fired t @ concat (map (\<lambda>j. with_cb t (L (slot j))) [0..<k]) \<and> same_wheel t t'"
  using assms(1,3) unfolding slot_def
proof (induction k arbitrary: t L i)
  case 0
  then show ?case by (simp add: same_wheel_def clear_slots_def)
next
  case (Suc k)
  let ?n = "unat (slot_size t)" and ?c = "unat (current t)"
  have i: "unat i < ?n" using Suc.prems(2) by simp
  have cur: "current t < slot_size t" "?n \<le> 2 ^ 31" using Suc.prems(1) by (auto simp: wheel_inv_def)
  have idx: "unat ((current t + i) mod slot_size t) = (?c + unat i) mod ?n"
    using cur i by (intro slot_index) (auto simp: word_less_nat_alt)
  let ?s = "(?c + unat i) mod ?n"
  have s: "?s < ?n" using i by simp
  obtain t1 where t1: "Active cb t ?s = Some t1" "wheel_inv t1 (L(?s := []))" "fired t1 = fired t @ with_cb t (L ?s)"
    "same_wheel t t1"
    using Active_law [OF Suc.prems(1) s assms(2)] by blast
  have i1: "unat (i + 1) = Suc (unat i)" using i by (intro unat_plus_one [where n="slot_size t"]) (simp add: word_less_nat_alt)
  have sz: "slot_size t1 = slot_size t" "current t1 = current t" using t1(4) by (auto simp: same_wheel_def)
  have "unat (i + 1) + k \<le> unat (slot_size t1)" using Suc.prems(2) i1 sz by simp
  from Suc.IH [OF t1(2) this] obtain t' where t': "Update_loop cb t1 (i + 1) k = Some t'"
    "wheel_inv t' (clear_slots (L(?s := [])) ((\<lambda>j. (?c + Suc (unat i) + j) mod ?n) ` {0..<k}))"
    "fired t' = fired t1 @ concat (map (\<lambda>j. with_cb t1 ((L(?s := [])) ((?c + Suc (unat i) + j) mod ?n))) [0..<k])"
    "same_wheel t1 t'"
    unfolding i1 sz by blast
  have ne: "(?c + Suc (unat i) + j) mod ?n \<noteq> ?s" if "j < k" for j
  proof
    assume "(?c + Suc (unat i) + j) mod ?n = ?s"
    moreover have "?c + Suc (unat i) + j = ?c + (unat i + Suc j)" by simp
    ultimately have "(?c + (unat i + Suc j)) mod ?n = (?c + unat i) mod ?n" by (simp only:)
    then have "unat i + Suc j = unat i" using slot_inj [of "unat i + Suc j" ?n "unat i" ?c] that Suc.prems(2) by linarith
    then show False by simp
  qed
  have img: "(\<lambda>j. (?c + unat i + j) mod ?n) ` {0..<Suc k} =
      insert ?s ((\<lambda>j. (?c + Suc (unat i) + j) mod ?n) ` {0..<k})"
  proof -
    have "{0..<Suc k} = insert 0 (Suc ` {0..<k})" by (auto simp: image_iff less_Suc_eq_0_disj)
    then have "(\<lambda>j. (?c + unat i + j) mod ?n) ` {0..<Suc k} =
        insert ?s ((\<lambda>j. (?c + unat i + Suc j) mod ?n) ` {0..<k})" by (simp only: image_insert image_image add_0_right)
    then show ?thesis by (simp only: add_Suc_right add_Suc)
  qed
  have "clear_slots (L(?s := [])) ((\<lambda>j. (?c + Suc (unat i) + j) mod ?n) ` {0..<k}) =
      clear_slots L ((\<lambda>j. (?c + unat i + j) mod ?n) ` {0..<Suc k})"
    unfolding img by (auto simp: clear_slots_def fun_eq_iff)
  moreover have "concat (map (\<lambda>j. with_cb t (L ((?c + unat i + j) mod ?n))) [0..<Suc k]) =
      with_cb t (L ?s) @ concat (map (\<lambda>j. with_cb t1 ((L(?s := [])) ((?c + Suc (unat i) + j) mod ?n))) [0..<k])"
  proof -
    have "[0..<Suc k] = 0 # map Suc [0..<k]" by (simp only: map_Suc_upt upt_conv_Cons zero_less_Suc One_nat_def)
    moreover have "map (\<lambda>j. with_cb t1 ((L(?s := [])) ((?c + Suc (unat i) + j) mod ?n))) [0..<k] =
        map (\<lambda>j. with_cb t (L ((?c + Suc (unat i) + j) mod ?n))) [0..<k]"
      using ne with_cb_same [OF t1(4)] by (intro map_cong) auto
    ultimately show ?thesis by (simp only: list.map map_map o_def concat.simps add_0_right add_Suc_right add_Suc)
  qed
  moreover have "Update_loop cb t i (Suc k) = Some t'" using t'(1) t1(1) idx by simp
  ultimately show ?case
    using t'(2,3) t1(3) same_wheel_trans [OF t1(4) t'(4)] by (intro exI [of _ t']) (simp only: append_assoc)
qed

section \<open>Properties\<close>

lemma Register_law:
  assumes inv: "wheel_inv t L" and w: "item_at t a = Some w" "wi_pre w = NULL" and new: "a \<notin> pending t L"
    and tm: "unat (last_update t) \<le> unat now" "unat now + unat timeout < 2 ^ 32" "precision t \<le> timeout"
  defines "n \<equiv> (unat now + unat timeout - unat (last_update t) - unat (precision t)) div unat (precision t)"
  defines "s \<equiv> (unat (current t) + n) mod unat (slot_size t)"
  assumes n: "n < unat (slot_size t)"
  shows "\<exists>t'. RegisterTimer t a timeout now = Some (t', 0) \<and> wheel_inv t' (L(s := a # L s)) \<and>
    fired t' = fired t \<and> precision t' = precision t \<and> slot_size t' = slot_size t \<and>
    last_update t' = last_update t \<and> current t' = current t \<and>
    map_option wi_has_callback (items t' a) = Some (wi_has_callback w) \<and> with_cb t' = with_cb t"
proof -
  have p: "precision t \<noteq> 0" "0 < unat (precision t)" using inv by (auto simp: wheel_inv_def unat_gt_0)
  have tp: "unat (precision t) \<le> unat timeout" using tm(3) by (simp add: word_le_nat_alt)
  have 1: "unat (now + timeout) = unat now + unat timeout" using tm(2) by (simp add: unat_word_ariths)
  have 2: "unat (now + timeout - last_update t) = unat now + unat timeout - unat (last_update t)"
    using 1 tm(1) by (subst unat_sub_le) (auto simp: word_le_nat_alt)
  have 3: "unat (now + timeout - last_update t - precision t) =
      unat now + unat timeout - unat (last_update t) - unat (precision t)"
    using 2 tm(1) tp by (subst unat_sub_le) (auto simp: word_le_nat_alt)
  define m where "m = (now + timeout - last_update t - precision t) div precision t"
  have m: "unat m = n" unfolding m_def n_def unat_div_word 3 ..
  have lt: "m < slot_size t" using m n by (simp add: word_less_nat_alt)
  have si: "unat ((current t + m) mod slot_size t) = s"
    using inv lt m unfolding s_def by (subst slot_index) (auto simp: wheel_inv_def)
  have s: "s < unat (slot_size t)" using n unfolding s_def by simp
  obtain t' where "Add t s a = Some t'" "wheel_inv t' (L(s := a # L s))" "fired t' = fired t"
    "precision t' = precision t" "slot_size t' = slot_size t" "last_update t' = last_update t"
    "current t' = current t" "map_option wi_has_callback (items t' a) = Some (wi_has_callback w)" "with_cb t' = with_cb t"
    using Add_law [OF inv s w new] by blast
  moreover have "\<not> timeout < precision t" using tm(3) by simp
  ultimately show ?thesis using p lt si by (simp add: RegisterTimer_def Let_def flip: m_def)
qed

lemma Update_law:
  assumes inv: "wheel_inv t L" and cb: "\<forall>a s. cb a s = Some s" and tm: "unat (last_update t) + unat (precision t) \<le> unat now"
  defines "k \<equiv> min ((unat now - unat (last_update t)) div unat (precision t)) (unat (slot_size t))"
  defines "slot \<equiv> \<lambda>j. (unat (current t) + j) mod unat (slot_size t)"
  shows "\<exists>t'. UpdateWheel cb t now = Some (t', 0) \<and> wheel_inv t' (clear_slots L (slot ` {0..<k})) \<and>
    fired t' = fired t @ concat (map (\<lambda>j. with_cb t (L (slot j))) [0..<k]) \<and> last_update t' = now \<and>
    slot_size t' = slot_size t"
proof -
  have p: "precision t \<noteq> 0" and cs: "current t < slot_size t" using inv by (auto simp: wheel_inv_def)
  have iv: "unat (now - last_update t) = unat now - unat (last_update t)"
    using tm by (intro unat_sub_le) (simp add: word_le_nat_alt)
  then have ge: "\<not> now - last_update t < precision t" using tm by (simp add: word_less_nat_alt)
  define n where "n = min ((now - last_update t) div precision t) (slot_size t)"
  have n: "unat n = k"
    unfolding n_def k_def by (simp add: min_def word_le_nat_alt unat_div_word iv)
  obtain t1 where t1: "Update_loop cb t 0 k = Some t1" "wheel_inv t1 (clear_slots L (slot ` {0..<k}))"
    "fired t1 = fired t @ concat (map (\<lambda>j. with_cb t (L (slot j))) [0..<k])" "same_wheel t t1"
    using Update_loop_law [OF inv cb, of 0 k] unfolding slot_def k_def by auto
  have sz: "slot_size t1 = slot_size t" "current t1 = current t" using t1(4) by (auto simp: same_wheel_def)
  have "slot_size t \<noteq> 0" using cs by auto
  moreover have "(current t + n) mod slot_size t < slot_size t"
    using \<open>slot_size t \<noteq> 0\<close> by (simp add: word_less_nat_alt unat_mod unat_gt_0)
  ultimately show ?thesis
    using t1 n p ge sz by (simp add: UpdateWheel_def Let_def wheel_inv_def flip: n_def)
qed

text \<open>The slot that a registration goes to, and the slots that an update empties, in their order.\<close>

definition due_slot :: "twheel \<Rightarrow> u32 \<Rightarrow> u32 \<Rightarrow> nat" where
  "due_slot t timeout now = (unat (current t) +
     (unat now + unat timeout - unat (last_update t) - unat (precision t)) div unat (precision t)) mod unat (slot_size t)"

definition elapsed_slots :: "twheel \<Rightarrow> u32 \<Rightarrow> nat list" where
  "elapsed_slots t now = map (\<lambda>j. (unat (current t) + j) mod unat (slot_size t))
     [0..<min ((unat now - unat (last_update t)) div unat (precision t)) (unat (slot_size t))]"

lemma distinct_concat_upt:
  assumes "\<And>j. j < k \<Longrightarrow> distinct (f j)" "\<And>i j. i < k \<Longrightarrow> j < k \<Longrightarrow> i \<noteq> j \<Longrightarrow> set (f i) \<inter> set (f j) = {}"
  shows "distinct (concat (map f [0..<k]))"
  using assms
proof (induction k)
  case (Suc k)
  have "distinct (concat (map f [0..<k]))" by (rule Suc.IH) (use Suc.prems in auto)
  moreover have "set (f j) \<inter> set (f k) = {}" if "j < k" for j using Suc.prems(2) [of j k] that by simp
  then have "set (concat (map f [0..<k])) \<inter> set (f k) = {}" by fastforce
  ultimately show ?case using Suc.prems(1) [of k] by simp
qed simp

text \<open>
  Claim C18. An update fires exactly the timers of the elapsed slots, once each: after a timer has been
  registered, with a timeout of at least the precision and within the range of the wheel, the next update fires the
  callbacks of the timers that its elapsed slots hold, slot after slot and in each slot the newest first, no timer twice
  and no other timer; it empties these slots and leaves the others as they are. The new timer is in the slot that its
  timeout asks for: it is among those fired if the update comes \<open>timeout\<close> or more after the
  registration, and it is not fired and stays in the wheel if the update comes a full precision or more too early. Conditions: the timer has a callback and
  is not yet in the wheel, the update comes at least one precision after the last one, the clock does not wrap
  around between the calls, the wheel has at most \<open>2 ^ 31\<close> slots, and the callbacks leave the wheel alone.
\<close>

theorem timer_fires_on_time:
  assumes inv: "wheel_inv t L" and cb: "\<forall>a s. cb a s = Some s"
    and w: "item_at t a = Some w" "wi_pre w = NULL" "wi_has_callback w" and new: "a \<notin> pending t L"
    and tm: "last_update t \<le> now" "unat now + unat timeout < 2 ^ 32" "precision t \<le> timeout"
      "(unat now - unat (last_update t) + unat timeout - unat (precision t)) div unat (precision t) < unat (slot_size t)"
    and later: "unat (last_update t) + unat (precision t) \<le> unat now'"
  shows "\<exists>t1 t2 fs L1 L'. RegisterTimer t a timeout now = Some (t1, 0) \<and> UpdateWheel cb t1 now' = Some (t2, 0) \<and>
    L1 = L(due_slot t timeout now := a # L (due_slot t timeout now)) \<and> wheel_inv t1 L1 \<and> fired t1 = fired t \<and>
    fs = concat (map (\<lambda>x. with_cb t (L1 x)) (elapsed_slots t now')) \<and> distinct fs \<and> fired t2 = fired t @ fs \<and>
    L' = clear_slots L1 (set (elapsed_slots t now')) \<and> wheel_inv t2 L' \<and>
    (unat now + unat timeout \<le> unat now' \<longrightarrow> a \<in> set fs \<and> a \<notin> pending t2 L') \<and>
    (unat now' + unat (precision t) \<le> unat now + unat timeout \<longrightarrow> a \<notin> set fs \<and> a \<in> pending t2 L')"
proof -
  let ?p = "unat (precision t)" and ?lu = "unat (last_update t)" and ?N = "unat (slot_size t)"
  define n where "n = (unat now + unat timeout - ?lu - ?p) div ?p"
  define s where "s = (unat (current t) + n) mod ?N"
  define slot where "slot = (\<lambda>j. (unat (current t) + j) mod ?N)"
  define k where "k = min ((unat now' - ?lu) div ?p) ?N"
  have el: "due_slot t timeout now = s" "elapsed_slots t now' = map slot [0..<k]"
    by (simp_all add: due_slot_def elapsed_slots_def s_def n_def slot_def k_def)
  have le: "?lu \<le> unat now" using tm(1) by (simp add: word_le_nat_alt)
  have p: "0 < ?p" "?p \<le> unat timeout" using inv tm(3) by (auto simp: wheel_inv_def unat_gt_0 word_le_nat_alt)
  have nN: "n < ?N" using tm(4) le by (simp add: n_def)
  obtain t1 where t1: "RegisterTimer t a timeout now = Some (t1, 0)" "wheel_inv t1 (L(s := a # L s))"
    "fired t1 = fired t" "precision t1 = precision t" "slot_size t1 = slot_size t" "last_update t1 = last_update t"
    "current t1 = current t" "map_option wi_has_callback (items t1 a) = Some True" "with_cb t1 = with_cb t"
    using Register_law [OF inv w(1,2) new le tm(2,3)] nN w(3) unfolding n_def s_def by auto
  let ?L = "L(s := a # L s)"
  define fs where "fs = concat (map (\<lambda>j. with_cb t1 (?L (slot j))) [0..<k])"
  have lt': "unat (last_update t1) + unat (precision t1) \<le> unat now'" using later t1 by simp
  obtain t2 where t2: "UpdateWheel cb t1 now' = Some (t2, 0)" "wheel_inv t2 (clear_slots ?L (slot ` {0..<k}))"
    "fired t2 = fired t1 @ fs" "slot_size t2 = slot_size t"
    using Update_law [OF t1(2) cb lt'] t1(4-7) unfolding fs_def slot_def k_def by auto
  have sn: "slot n = s" by (simp add: slot_def s_def)
  have inj: "j = n" if "slot j = s" "j < k" for j
    using slot_inj [of j ?N n "unat (current t)"] that nN by (simp add: slot_def s_def k_def)
  have only: "a \<in> set (?L x) \<longleftrightarrow> x = s" if "x < ?N" for x using new that by (auto simp: pending_def)
  have slN: "slot j < ?N" for j using nN by (simp add: slot_def)
  have hit: "s \<in> slot ` {0..<k} \<longleftrightarrow> n < k" using inj sn by force
  have fire: "a \<in> set fs \<longleftrightarrow> n < k"
  proof -
    have "a \<in> set fs \<longleftrightarrow> (\<exists>j < k. a \<in> set (?L (slot j)))"
      using t1(8) by (auto simp: fs_def with_cb_def)
    also have "\<dots> \<longleftrightarrow> (\<exists>j < k. slot j = s)" using only slN by blast
    also have "\<dots> \<longleftrightarrow> n < k" using inj sn by blast
    finally show ?thesis .
  qed
  have "a \<in> pending t2 (clear_slots ?L (slot ` {0..<k})) \<longleftrightarrow> (\<exists>x < ?N. x \<notin> slot ` {0..<k} \<and> a \<in> set (?L x))"
    unfolding pending_def t2(4) by (force simp: clear_slots_def simp del: fun_upd_apply)
  also have "\<dots> \<longleftrightarrow> \<not> n < k" using only hit slN [of n] sn by (metis (no_types, lifting))
  finally have pend: "a \<in> pending t2 (clear_slots ?L (slot ` {0..<k})) \<longleftrightarrow> \<not> n < k" .
  have "n < k \<longleftrightarrow> n < (unat now' - ?lu) div ?p" using nN by (simp add: k_def)
  moreover have "n < (unat now' - ?lu) div ?p" if "unat now + unat timeout \<le> unat now'"
  proof -
    have "?p \<le> unat now + unat timeout - ?lu" using le p by linarith
    then have "(unat now + unat timeout - ?lu) div ?p = Suc n" using p(1) by (simp add: n_def le_div_geq)
    moreover have "(unat now + unat timeout - ?lu) div ?p \<le> (unat now' - ?lu) div ?p"
      using that by (intro div_le_mono) simp
    ultimately show ?thesis by simp
  qed
  moreover have "\<not> n < (unat now' - ?lu) div ?p" if "unat now' + ?p \<le> unat now + unat timeout"
  proof -
    have "(unat now' - ?lu) div ?p \<le> n" unfolding n_def using that by (intro div_le_mono) linarith
    then show ?thesis by simp
  qed
  ultimately have due: "unat now + unat timeout \<le> unat now' \<Longrightarrow> n < k" "unat now' + ?p \<le> unat now + unat timeout \<Longrightarrow> \<not> n < k" by blast+
  have fs: "fs = concat (map (\<lambda>x. with_cb t (?L x)) (elapsed_slots t now'))" by (simp add: fs_def el(2) t1(9) comp_def)
  have "distinct fs" unfolding fs_def
  proof (rule distinct_concat_upt)
    show "distinct (with_cb t1 (?L (slot j)))" for j
      using t1(2,5) slN [of j] by (simp add: wheel_inv_def with_cb_def del: fun_upd_apply)
    show "set (with_cb t1 (?L (slot i))) \<inter> set (with_cb t1 (?L (slot j))) = {}" if "i < k" "j < k" "i \<noteq> j" for i j
    proof -
      have "slot i \<noteq> slot j" using slot_inj [of i ?N j "unat (current t)"] that by (auto simp: slot_def k_def)
      moreover have "set (with_cb t1 xs) \<subseteq> set xs" for xs by (auto simp: with_cb_def)
      ultimately show ?thesis using wheel_slots_disjoint [OF t1(2), unfolded t1(5), OF slN slN] by blast
    qed
  qed
  moreover have es: "set (elapsed_slots t now') = slot ` {0..<k}" by (simp add: el(2))
  ultimately show ?thesis using t1(1-3) t2(1-3) fire pend due fs unfolding el(1) es
    by (intro exI [of _ t1] exI [of _ t2] exI [of _ fs] exI [of _ ?L] exI [of _ "clear_slots ?L (slot ` {0..<k})"])
      (simp del: fun_upd_apply)
qed

lemma new_wheel:
  assumes "CreateTimingWheel prec mx now (\<lambda>_. NULL) = Some t" "prec \<le> mx" "unat (mx div prec) \<le> 2 ^ 31"
  shows "wheel_inv (CreateWheelItem t a b) (\<lambda>_. [])"
proof -
  have t: "prec \<noteq> 0" "t = \<lparr>precision = prec, slot_size = mx div prec, last_update = now, current = 0,
                 slots = map (\<lambda>_. NULL) [0..<unat (mx div prec)], items = Map.empty, fired = []\<rparr>"
    using assms(1) by (auto simp: CreateTimingWheel_def Let_def split: if_splits)
  have "unat prec \<le> unat mx" "0 < unat prec" using assms(2) t(1) by (auto simp: word_le_nat_alt unat_gt_0)
  then have "0 < unat (mx div prec)" by (simp add: unat_div_word div_greater_zero_iff)
  then have "0 < mx div prec" by (simp add: word_less_nat_alt)
  with t assms(3) show ?thesis by (simp add: wheel_inv_def CreateWheelItem_def)
qed

theorem timer_fires_on_time_witness:
  "\<exists>t t1 t2. CreateTimingWheel 10 1000 0 (\<lambda>_. NULL) = Some t \<and>
     RegisterTimer (CreateWheelItem t 5 True) 5 100 3 = Some (t1, 0) \<and>
     UpdateWheel (\<lambda>_. Some) t1 103 = Some (t2, 0) \<and> fired t2 = [5]"
proof -
  obtain t where t: "CreateTimingWheel 10 1000 0 (\<lambda>_. NULL) = Some t"
    "t = \<lparr>precision = 10, slot_size = 100, last_update = 0, current = 0,
       slots = map (\<lambda>_. NULL) [0..<100], items = Map.empty, fired = []\<rparr>"
    by (simp add: CreateTimingWheel_def)
  let ?t = "CreateWheelItem t 5 True"
  have inv: "wheel_inv ?t (\<lambda>_. [])" by (rule new_wheel [OF t(1)]) simp_all
  have f: "precision ?t = 10" "slot_size ?t = 100" "last_update ?t = 0" "current ?t = 0" "fired ?t = []" "with_cb ?t [5] = [5]" "with_cb ?t [] = []"
    by (simp_all add: t(2) CreateWheelItem_def with_cb_def)
  have e: "due_slot ?t 100 3 = 9" "elapsed_slots ?t 103 = [0, 1, 2, 3, 4, 5, 6, 7, 8, 9]"
    by (simp_all add: due_slot_def elapsed_slots_def f upt_rec)
  have "item_at ?t 5 = Some \<lparr>wi_pre = NULL, wi_next = NULL, wi_has_callback = True, wi_slot = -1\<rparr>"
    by (simp add: item_at_def CreateWheelItem_def)
  moreover have np: "5 \<notin> pending ?t (\<lambda>_. [])" by (simp add: pending_def)
  ultimately obtain t1 t2 fs L1 where r: "RegisterTimer ?t 5 100 3 = Some (t1, 0)" "UpdateWheel (\<lambda>_. Some) t1 103 = Some (t2, 0)"
    "L1 = (\<lambda>_. [])(due_slot ?t 100 3 := [5])" "fs = concat (map (\<lambda>x. with_cb ?t (L1 x)) (elapsed_slots ?t 103))" "fired t2 = fired ?t @ fs"
    using timer_fires_on_time [OF inv, of "\<lambda>_. Some" 5 _ 3 100 103] f(1-3) by (auto simp del: fun_upd_apply)
  have "fs = [5]" unfolding r(4) r(3) e by (simp add: f)
  then show ?thesis using t(1) r(1,2,5) f(5) by auto
qed

section \<open>Cancelling\<close>

text \<open>The same lists with an explicit end, so that they can be split.\<close>

fun dpart :: "(addr \<rightharpoonup> witem) \<Rightarrow> int \<Rightarrow> addr \<Rightarrow> addr \<Rightarrow> addr list \<Rightarrow> addr \<Rightarrow> bool" where
  "dpart it s pr h [] e \<longleftrightarrow> h = e"
| "dpart it s pr h (x # xs) e \<longleftrightarrow> h = x \<and> x \<noteq> NULL \<and>
     (\<exists>w. it x = Some w \<and> wi_pre w = pr \<and> wi_slot w = s \<and> dpart it s x (wi_next w) xs e)"

lemma dseg_dpart: "dseg it s pr h xs = dpart it s pr h xs NULL"
  by (induction xs arbitrary: pr h) auto

lemma dpart_append:
  "dpart it s pr h (us @ vs) e \<longleftrightarrow> (\<exists>m. dpart it s pr h us m \<and> dpart it s (last (pr # us)) m vs e)"
  by (induction us arbitrary: pr h) auto

lemma dpart_frame: "a \<notin> set xs \<Longrightarrow> dpart (it(a := v)) s pr h xs e = dpart it s pr h xs e"
  by (induction xs arbitrary: pr h) auto

lemma dpart_new_end:
  assumes "dpart it s pr h (us @ [u]) m" "distinct (us @ [u])" "it u = Some w"
  shows "dpart (it(u \<mapsto> w\<lparr>wi_next := m'\<rparr>)) s pr h (us @ [u]) m'"
  using assms by (auto simp: dpart_append dpart_frame)

lemma dpart_new_pre:
  assumes "dpart it s pr h (v # vs) e" "v \<notin> set vs" "it v = Some w"
  shows "dpart (it(v \<mapsto> w\<lparr>wi_pre := pr'\<rparr>)) s pr' h (v # vs) e"
  using assms by (auto simp: dpart_frame)

lemma dpart_item: "dpart it s pr h xs e \<Longrightarrow> x \<in> set xs \<Longrightarrow> x \<noteq> NULL \<and> (\<exists>w. it x = Some w)"
  by (induction xs arbitrary: pr h) auto

lemma UnRegister_law:
  assumes inv: "wheel_inv t L" and s: "s < unat (slot_size t)" and L: "L s = us @ a # vs"
  shows "\<exists>t' w'. UnRegisterTimer t a = Some t' \<and> wheel_inv t' (L(s := us @ vs)) \<and>
    items t' a = Some w' \<and> wi_slot w' = -1 \<and> wi_pre w' = NULL \<and> slot_size t' = slot_size t \<and> fired t' = fired t"
proof -
  have len: "length (slots t) = unat (slot_size t)" using inv by (simp add: wheel_inv_def)
  have seg: "dpart (items t) (int k) NULL (slots t ! k) (L k) NULL" "distinct (L k)" if "k < unat (slot_size t)" for k
    using inv that by (auto simp: wheel_inv_def dseg_dpart)
  obtain m where m: "dpart (items t) (int s) NULL (slots t ! s) us m"
    "dpart (items t) (int s) (last (NULL # us)) m (a # vs) NULL"
    using seg(1) [OF s] unfolding L dpart_append by blast
  obtain w where w: "m = a" "a \<noteq> NULL" "items t a = Some w" "wi_pre w = last (NULL # us)" "wi_slot w = int s"
    "dpart (items t) (int s) a (wi_next w) vs NULL"
    using m(2) by auto
  have ds: "distinct (us @ a # vs)" using seg(2) [OF s] L by simp
  define nx where "nx = wi_next w"
  define lu where "lu = last (NULL # us)"
  text \<open>the items after the predecessor, then the successor, then the item itself is changed\<close>
  define itA where "itA = (if us = [] then items t else (items t)(lu \<mapsto> (the (items t lu))\<lparr>wi_next := nx\<rparr>))"
  define itB where "itB = (case vs of [] \<Rightarrow> itA | v # _ \<Rightarrow> itA(v \<mapsto> (the (itA v))\<lparr>wi_pre := lu\<rparr>))"
  define w' where "w' = w\<lparr>wi_pre := NULL, wi_next := NULL, wi_slot := -1\<rparr>"
  define sl where "sl = (if us = [] then (slots t)[s := nx] else slots t)"
  define t' where "t' = t\<lparr>slots := sl, items := itB(a \<mapsto> w')\<rparr>"
  have lu: "lu \<in> set us \<and> lu \<noteq> NULL \<and> (\<exists>p. items t lu = Some p)" if "us \<noteq> []"
    using that dpart_item [OF m(1), of lu] by (simp add: lu_def)
  have lu0: "us = [] \<Longrightarrow> lu = NULL" by (simp add: lu_def)
  have va: "v \<noteq> a \<and> v \<noteq> lu \<and> v \<noteq> NULL \<and> nx = v \<and> (\<exists>x. items t v = Some x)" if "vs = v # vs'" for v vs'
    using w(6) that ds lu lu0 by (cases "us = []") (auto simp: nx_def)
  have nx0: "vs = [] \<Longrightarrow> nx = NULL" using w(6) by (simp add: nx_def)
  have alu: "a \<noteq> lu" using ds lu lu0 w(2) by (cases "us = []") auto
  have ui: "int s < uint (slot_size t)" using s by (simp only: uint_nat of_nat_less_iff)
  have run: "UnRegisterTimer t a = Some t'"
  proof (cases "us = []")
    case True
    then show ?thesis
    proof (cases vs)
      case Nil
      then show ?thesis using True w lu0 s ui len nx0
        by (simp add: UnRegisterTimer_def item_at_def put_item_def set_slot_def t'_def itB_def itA_def
            w'_def sl_def flip: nx_def)
    next
      case (Cons v vs')
      obtain x where "v \<noteq> a" "v \<noteq> NULL" "nx = v" "items t v = Some x" using va [OF Cons] by blast
      then show ?thesis using Cons True w lu0 s ui len
        by (simp add: UnRegisterTimer_def item_at_def put_item_def set_slot_def t'_def itB_def itA_def
            w'_def sl_def flip: nx_def)
    qed
  next
    case False
    then obtain p where p: "lu \<noteq> NULL" "items t lu = Some p" using lu by blast
    have pr: "wi_pre w = lu" using w(4) by (simp add: lu_def)
    show ?thesis
    proof (cases vs)
      case Nil
      then show ?thesis using False p pr w(2,3,5) ui alu nx0
        by (simp add: UnRegisterTimer_def item_at_def put_item_def t'_def itB_def itA_def
            w'_def sl_def flip: nx_def)
    next
      case (Cons v vs')
      obtain x where "v \<noteq> a" "v \<noteq> lu" "v \<noteq> NULL" "nx = v" "items t v = Some x" using va [OF Cons] by blast
      then show ?thesis using Cons False p pr w(2,3,5) ui alu
        by (simp add: UnRegisterTimer_def item_at_def put_item_def t'_def itB_def itA_def
            w'_def sl_def flip: nx_def)
    qed
  qed
  have A1: "dpart itA (int s) NULL (sl ! s) us nx"
  proof (cases us rule: rev_cases)
    case Nil
    then show ?thesis using s len by (simp add: sl_def)
  next
    case (snoc us' u)
    obtain p where "items t u = Some p" using lu snoc by (auto simp: lu_def)
    with dpart_new_end [of "items t" "int s" NULL "slots t ! s" us' u m p nx] m(1) ds snoc
    show ?thesis by (simp add: itA_def sl_def lu_def)
  qed
  have A2: "dpart itA (int s) a nx vs NULL"
  proof (cases "us = []")
    case False
    then have "lu \<notin> set vs" using lu ds by auto
    then show ?thesis using w(6) by (simp add: itA_def nx_def dpart_frame)
  qed (use w(6) in \<open>simp add: itA_def nx_def\<close>)
  have B1: "dpart itB (int s) NULL (sl ! s) us nx" using A1 ds by (auto simp: itB_def dpart_frame split: list.splits)
  have B2: "dpart itB (int s) lu nx vs NULL"
  proof (cases vs)
    case Nil
    then show ?thesis using A2 by (simp add: itB_def)
  next
    case (Cons v vs')
    obtain x where "itA v = Some x" using dpart_item [OF A2, of v] Cons by auto
    then show ?thesis using dpart_new_pre [of itA "int s" a nx v vs' NULL x lu] A2 ds Cons by (simp add: itB_def)
  qed
  have "dpart (itB(a \<mapsto> w')) (int s) NULL (sl ! s) (us @ vs) NULL"
    using B1 B2 ds unfolding dpart_append lu_def by (auto simp: dpart_frame)
  moreover have "dpart (itB(a \<mapsto> w')) (int k) NULL (sl ! k) (L k) NULL" if k: "k < unat (slot_size t)" "k \<noteq> s" for k
  proof -
    have dj: "x \<notin> set (L k)" if "x \<in> set (L s)" for x using wheel_slots_disjoint [OF inv s k(1) that] k(2) by blast
    have "dpart itA (int k) NULL (slots t ! k) (L k) NULL"
      using seg(1) [OF k(1)] lu dj L by (cases "us = []") (auto simp: itA_def dpart_frame)
    then have "dpart itB (int k) NULL (slots t ! k) (L k) NULL"
      using dj L by (auto simp: itB_def dpart_frame split: list.splits)
    then show ?thesis using dj L k by (simp add: dpart_frame sl_def)
  qed
  ultimately have "wheel_inv t' (L(s := us @ vs))"
    using inv ds seg(2) len by (auto simp: wheel_inv_def t'_def dseg_dpart sl_def)
  then show ?thesis using run by (auto simp: t'_def w'_def)
qed

text \<open>
  Claim C19. Cancelling a pending timer takes exactly that timer out of its slot and marks it as not
  registered; all other timers stay, in their order.
\<close>

theorem timer_cancel:
  assumes "wheel_inv t L" "s < unat (slot_size t)" "a \<in> set (L s)"
  shows "\<exists>t' w'. UnRegisterTimer t a = Some t' \<and> wheel_inv t' (L(s := remove1 a (L s))) \<and>
    pending t' (L(s := remove1 a (L s))) = pending t L - {a} \<and> items t' a = Some w' \<and> wi_slot w' = -1"
proof -
  obtain us vs where L: "L s = us @ a # vs" using assms(3) by (auto simp: in_set_conv_decomp)
  have ds: "distinct (L s)" using assms by (auto simp: wheel_inv_def)
  then have r: "remove1 a (L s) = us @ vs" using L by (simp add: remove1_append)
  obtain t' w' where t': "UnRegisterTimer t a = Some t'" "wheel_inv t' (L(s := us @ vs))" "items t' a = Some w'"
    "wi_slot w' = -1" "slot_size t' = slot_size t"
    using UnRegister_law [OF assms(1,2) L] by blast
  have "pending t' (L(s := us @ vs)) = pending t L - {a}"
  proof -
    have "set (us @ vs) = set (L s) - {a}" using L ds by auto
    moreover have "a \<notin> set (L k)" if "k < unat (slot_size t)" "k \<noteq> s" for k
      using wheel_slots_disjoint [OF assms(1,2) that(1) assms(3)] that(2) by blast
    ultimately show ?thesis using assms(2) t'(5) by (auto simp: pending_def split: if_splits)
  qed
  with t' r show ?thesis by auto
qed

lemma registered_example:
  "\<exists>t t1. CreateTimingWheel 10 1000 0 (\<lambda>_. NULL) = Some t \<and>
     RegisterTimer (CreateWheelItem t 5 True) 5 10 0 = Some (t1, 0) \<and> wheel_inv t1 ((\<lambda>_. [])(0 := [5])) \<and>
     slot_size t1 = 100 \<and> precision t1 = 10 \<and> last_update t1 = 0 \<and> current t1 = 0"
proof -
  obtain t where t: "CreateTimingWheel 10 1000 0 (\<lambda>_. NULL) = Some t"
    "t = \<lparr>precision = 10, slot_size = 100, last_update = 0, current = 0,
       slots = map (\<lambda>_. NULL) [0..<100], items = Map.empty, fired = []\<rparr>"
    by (simp add: CreateTimingWheel_def)
  have inv: "wheel_inv (CreateWheelItem t 5 True) (\<lambda>_. [])" by (rule new_wheel [OF t(1)]) simp_all
  have "item_at (CreateWheelItem t 5 True) 5 = Some \<lparr>wi_pre = NULL, wi_next = NULL, wi_has_callback = True, wi_slot = -1\<rparr>"
    by (simp add: item_at_def CreateWheelItem_def)
  from Register_law [OF inv this, of 0 10] t show ?thesis
    by (auto simp: pending_def CreateWheelItem_def)
qed

theorem timer_cancel_witness:
  "\<exists>t t1 t' w'. CreateTimingWheel 10 1000 0 (\<lambda>_. NULL) = Some t \<and>
     RegisterTimer (CreateWheelItem t 5 True) 5 10 0 = Some (t1, 0) \<and>
     UnRegisterTimer t1 5 = Some t' \<and> items t' 5 = Some w' \<and> wi_slot w' = -1"
proof -
  obtain t t1 where 1: "CreateTimingWheel 10 1000 0 (\<lambda>_. NULL) = Some t"
     "RegisterTimer (CreateWheelItem t 5 True) 5 10 0 = Some (t1, 0)" "wheel_inv t1 ((\<lambda>_. [])(0 := [5]))" "slot_size t1 = 100"
    using registered_example by blast
  from timer_cancel [OF 1(3), of 0 5] 1 show ?thesis by auto
qed

text \<open>
  A timer that has fired keeps slot number 0 instead of -1. Cancelling it afterwards
  overwrites the head of slot 0 with null: all timers waiting in slot 0 are lost.
\<close>

theorem cancel_after_fire_loses_timers:
  assumes inv: "wheel_inv t L" and cb: "\<forall>a s. cb a s = Some s" and s: "s < unat (slot_size t)" "a \<in> set (L s)" "s \<noteq> 0"
  shows "\<exists>t1 t2. Active cb t s = Some t1 \<and> slots t1 ! 0 = slots t ! 0 \<and> UnRegisterTimer t1 a = Some t2 \<and>
    slots t2 ! 0 = NULL"
proof -
  obtain t1 w where t1: "Active cb t s = Some t1" "wheel_inv t1 (L(s := []))" "same_wheel t t1"
    "items t1 a = Some w" "wi_slot w = 0" "wi_pre w = NULL" "wi_next w = NULL"
    using Active_law [OF inv s(1) cb] s(2) by blast
  have a: "a \<noteq> NULL" using dseg_item [of "items t" "int s" NULL "slots t ! s" "L s" a] inv s by (auto simp: wheel_inv_def)
  have len: "0 < length (slots t1)" "0 < slot_size t1"
    using t1(2,3) s(1) by (auto simp: wheel_inv_def same_wheel_def word_less_nat_alt)
  have uz: "uint (slot_size t1) \<noteq> 0" using len(2) by (auto simp: unsigned_eq_0_iff)
  have "UnRegisterTimer t1 a = Some (put_item (t1\<lparr>slots := (slots t1)[0 := NULL]\<rparr>) a
      (w\<lparr>wi_pre := NULL, wi_next := NULL, wi_slot := -1\<rparr>))"
    using t1(4-7) a len uz by (simp add: UnRegisterTimer_def item_at_def set_slot_def)
  moreover have "slots t1 ! 0 = slots t ! 0"
  proof -
    obtain it fs where "t1 = t\<lparr>slots := (slots t)[s := NULL], items := it, fired := fs\<rparr>"
    proof -
      have sg: "dseg (items (t\<lparr>slots := (slots t)[s := NULL]\<rparr>)) (int s) NULL (slots t ! s) (L s)" "distinct (L s)"
        using inv s(1) by (auto simp: wheel_inv_def)
      have "length (slots t) = unat (slot_size t)" using inv by (simp add: wheel_inv_def)
      then show thesis using Active_loop_law [OF sg cb] t1(1) s(1) that
        by (auto simp: Active_def get_slot_def set_slot_def)
    qed
    then show ?thesis using s(3) by simp
  qed
  ultimately show ?thesis using t1(1) len by (simp add: put_item_def)
qed

theorem cancel_after_fire_loses_timers_witness:
  "\<exists>t t1 t2. RegisterTimer t 5 20 0 = Some (t1, 0) \<and> Active (\<lambda>_. Some) t1 1 = Some t2 \<and>
     slots t2 ! 0 = 7 \<and> (\<exists>t3. UnRegisterTimer t2 5 = Some t3 \<and> slots t3 ! 0 = NULL)"
proof -
  define w where "w = \<lparr>wi_pre = NULL, wi_next = NULL, wi_has_callback = True, wi_slot = -1\<rparr>"
  define t where "t = \<lparr>precision = 10, slot_size = 4, last_update = 0, current = 0, slots = [7, 0, 0, 0],
    items = [5 \<mapsto> w, 7 \<mapsto> w\<lparr>wi_slot := 0\<rparr>], fired = []\<rparr>"
  have four: "k < 4 \<Longrightarrow> k = 0 \<or> k = 1 \<or> k = 2 \<or> k = 3" for k :: nat by auto
  have inv: "wheel_inv t ((\<lambda>_. [])(0 := [7]))"
    by (auto simp: wheel_inv_def t_def w_def dest!: four)
  have "item_at t 5 = Some w" by (simp add: t_def item_at_def)
  from Register_law [OF inv this, of 0 20] obtain t1 where
    t1: "RegisterTimer t 5 20 0 = Some (t1, 0)" "wheel_inv t1 ((\<lambda>_. [])(0 := [7], Suc 0 := [5]))" "slot_size t1 = 4"
    by (auto simp: pending_def t_def w_def)
  have "dseg (items t1) (int 0) NULL (slots t1 ! 0) (((\<lambda>_. [])(0 := [7], Suc 0 := [5])) 0)"
  proof -
    have "0 < unat (slot_size t1)" by (simp add: t1(3))
    then show ?thesis using t1(2) unfolding wheel_inv_def by blast
  qed
  then have h: "slots t1 ! 0 = 7" by simp
  from cancel_after_fire_loses_timers [OF t1(2), of "\<lambda>_. Some" 1 5] t1(1,3) h show ?thesis by auto
qed

end
