(* ===== verification/BlockAlloc.thy ===== *)
theory BlockAlloc
  imports Wpacket
begin

text \<open>
  The block allocator (\<open>src/block_obj_allocator.c\<close>): every thread has a cache of free lists, each
  made of the objects of one block of 1 MiB linked through the objects themselves; full lists go
  back to a central list. The \<open>link_list\<close>s of free lists (\<open>_free_list\<close>, \<open>_recover\<close> and the central
  one) appear as sequences, by the refinement of theory LinkList; the links inside the objects are
  explicit. The spin lock around the central list makes each access atomic and is left out, as is
  the failure of \<open>calloc\<close>, which the code asserts not to happen.
\<close>

record free_list =
  fl_size :: u32
  fl_init_size :: u32
  fl_head :: addr
  fl_tail :: addr
  fl_mem :: addr

record thread_allocator =
  ta_free_list :: "addr list"
  ta_recover :: "addr list"
  free_size :: u32
  collect_factor :: u32

record block_obj_allocator =
  fls :: "addr \<rightharpoonup> free_list"
  objs :: nexts
  caches :: "nat \<rightharpoonup> thread_allocator"
  central_free_list :: "addr list"
  obj_size :: u32
  mt_mode :: bool
  next_mem :: addr
  next_fl :: addr

abbreviation DEFAULT_BLOCK_SIZE :: nat where "DEFAULT_BLOCK_SIZE \<equiv> 1048576"

section \<open>Free lists\<close>

definition free_list_get :: "free_list \<times> nexts \<Rightarrow> ((free_list \<times> nexts) \<times> addr) option" where
  "free_list_get = (\<lambda>(f, h). do {
     let ptr = fl_head f;
     nx \<leftarrow> (if ptr = NULL then None else h ptr);
     let f1 = f\<lparr>fl_head := nx\<rparr>;
     let f2 = (if fl_head f1 = NULL then f1\<lparr>fl_tail := NULL\<rparr> else f1);
     Some ((f2\<lparr>fl_size := fl_size f2 - 1\<rparr>, h), ptr) })"

definition free_list_put :: "free_list \<times> nexts \<Rightarrow> addr \<Rightarrow> (free_list \<times> nexts) option" where
  "free_list_put = (\<lambda>(f, h) ptr. do {
     _ \<leftarrow> assert_c (ptr \<noteq> NULL);
     let h1 = h(ptr \<mapsto> NULL);
     (f1, h2) \<leftarrow> (if fl_tail f \<noteq> NULL
       then (if h1 (fl_tail f) = None then None
             else Some (f\<lparr>fl_tail := ptr\<rparr>, h1(fl_tail f \<mapsto> ptr)))
       else Some (f\<lparr>fl_head := ptr, fl_tail := ptr\<rparr>, h1));
     Some (f1\<lparr>fl_size := fl_size f1 + 1\<rparr>, h2) })"

text \<open>The addresses of the objects of a block.\<close>

definition block_objects :: "addr \<Rightarrow> u32 \<Rightarrow> nat \<Rightarrow> addr list" where
  "block_objects mem sz n = map (\<lambda>i. mem + i * unat sz) [0..<n]"

definition creat_new_freelist :: "addr \<Rightarrow> u32 \<Rightarrow> nexts \<Rightarrow> (free_list \<times> nexts) option" where
  "creat_new_freelist mem sz h =
     (if sz = 0 then None
      else
        let init_size = word_of_nat (DEFAULT_BLOCK_SIZE div unat sz);
            f = \<lparr>fl_size = init_size, fl_init_size = init_size, fl_head = NULL, fl_tail = NULL, fl_mem = mem\<rparr>
        in do {
          (f1, h1) \<leftarrow> push_all free_list_put (f, h) (block_objects mem sz (unat init_size));
          Some (f1\<lparr>fl_size := init_size\<rparr>, h1) })"

section \<open>Thread caches\<close>

definition central_get_freelist :: "block_obj_allocator \<Rightarrow> (block_obj_allocator \<times> addr) option" where
  "central_get_freelist b =
     (case central_free_list b of
        f # fs \<Rightarrow> Some (b\<lparr>central_free_list := fs\<rparr>, f)
      | [] \<Rightarrow> do {
          (fl, h) \<leftarrow> creat_new_freelist (next_mem b) (obj_size b) (objs b);
          Some (b\<lparr>fls := (fls b)(next_fl b \<mapsto> fl), objs := h, next_mem := next_mem b + DEFAULT_BLOCK_SIZE,
                  next_fl := Suc (next_fl b)\<rparr>, next_fl b) })"

definition give_back_to_central :: "block_obj_allocator \<Rightarrow> addr \<Rightarrow> block_obj_allocator" where
  "give_back_to_central b f = b\<lparr>central_free_list := central_free_list b @ [f]\<rparr>"

definition thread_allocator_alloc ::
    "block_obj_allocator \<Rightarrow> thread_allocator \<Rightarrow> (block_obj_allocator \<times> thread_allocator \<times> addr) option" where
  "thread_allocator_alloc b a = do {
     (b1, a1, f) \<leftarrow>
       (if free_size a = 0
        then do {
          (b', f) \<leftarrow> central_get_freelist b;
          fl \<leftarrow> fls b' f;
          Some (b', a\<lparr>ta_free_list := ta_free_list a @ [f], free_size := free_size a + fl_size fl\<rparr>, f) }
        else (case ta_free_list a of
            f # _ \<Rightarrow> Some (b, a, f)
          | [] \<Rightarrow> (case ta_recover a of
                f # fs \<Rightarrow> Some (b, a\<lparr>ta_recover := fs, ta_free_list := ta_free_list a @ [f]\<rparr>, f)
              | [] \<Rightarrow> None)));
     fl \<leftarrow> fls b1 f;
     ((fl1, h1), ptr) \<leftarrow> free_list_get (fl, objs b1);
     _ \<leftarrow> assert_c (ptr \<noteq> NULL);
     let b2 = b1\<lparr>fls := (fls b1)(f \<mapsto> fl1), objs := h1\<rparr>;
     let a2 = a1\<lparr>free_size := free_size a1 - 1\<rparr>;
     let a3 = (if fl_size fl1 = 0
               then a2\<lparr>ta_free_list := tl (ta_free_list a2), ta_recover := ta_recover a2 @ [f]\<rparr>
               else a2);
     Some (b2, a3, ptr) }"

definition thread_allocator_dealloc ::
    "block_obj_allocator \<Rightarrow> thread_allocator \<Rightarrow> addr \<Rightarrow> (block_obj_allocator \<times> thread_allocator) option" where
  "thread_allocator_dealloc b a ptr =
     (case ta_recover a of
        f # fs \<Rightarrow> do {
          fl \<leftarrow> fls b f;
          (fl1, h1) \<leftarrow> free_list_put (fl, objs b) ptr;
          let b1 = b\<lparr>fls := (fls b)(f \<mapsto> fl1), objs := h1\<rparr>;
          let a1 = a\<lparr>free_size := free_size a + 1\<rparr>;
          (if fl_size fl1 = fl_init_size fl1
           then let a2 = a1\<lparr>ta_recover := fs\<rparr> in
             (if free_size a2 \<ge> collect_factor a2
              then Some (give_back_to_central b1 f, a2\<lparr>free_size := free_size a2 - fl_size fl1\<rparr>)
              else Some (b1, a2\<lparr>ta_free_list := ta_free_list a2 @ [f]\<rparr>))
           else Some (b1, a1)) }
      | [] \<Rightarrow> (case ta_free_list a of
            f # _ \<Rightarrow> do {
              fl \<leftarrow> fls b f;
              (fl1, h1) \<leftarrow> free_list_put (fl, objs b) ptr;
              Some (b\<lparr>fls := (fls b)(f \<mapsto> fl1), objs := h1\<rparr>, a\<lparr>free_size := free_size a + 1\<rparr>) }
          | [] \<Rightarrow> None))"

definition create_thread_allocator :: "block_obj_allocator \<Rightarrow> thread_allocator option" where
  "create_thread_allocator b =
     (if obj_size b = 0 then None
      else Some \<lparr>ta_free_list = [], ta_recover = [], free_size = 0,
                 collect_factor = word_of_nat (DEFAULT_BLOCK_SIZE * 2) div obj_size b\<rparr>)"

text \<open>
  The cache of the calling thread: with \<open>mt\<close> the thread specific value, otherwise the head of the
  list of caches, which has at most one element then.
\<close>

definition cache_key :: "block_obj_allocator \<Rightarrow> nat \<Rightarrow> nat" where
  "cache_key b tid = (if mt_mode b then tid else 0)"

definition block_obj_al_alloc :: "block_obj_allocator \<Rightarrow> nat \<Rightarrow> (block_obj_allocator \<times> addr) option" where
  "block_obj_al_alloc b tid = do {
     ta \<leftarrow> (case caches b (cache_key b tid) of None \<Rightarrow> create_thread_allocator b | Some ta \<Rightarrow> Some ta);
     (b1, ta1, ptr) \<leftarrow> thread_allocator_alloc b ta;
     Some (b1\<lparr>caches := (caches b1)(cache_key b tid \<mapsto> ta1)\<rparr>, ptr) }"

definition block_obj_al_dealloc :: "block_obj_allocator \<Rightarrow> nat \<Rightarrow> addr \<Rightarrow> block_obj_allocator option" where
  "block_obj_al_dealloc b tid ptr = do {
     ta \<leftarrow> caches b (cache_key b tid);
     (b1, ta1) \<leftarrow> thread_allocator_dealloc b ta ptr;
     Some (b1\<lparr>caches := (caches b1)(cache_key b tid \<mapsto> ta1)\<rparr>) }"

text \<open>\<open>1 << k\<close> is a shift of a signed integer, undefined from 31 on.\<close>

definition create_block_obj_allocator :: "bool \<Rightarrow> u32 \<Rightarrow> block_obj_allocator option" where
  "create_block_obj_allocator m sz = do {
     let sz1 = (if sz < 8 then 8 else sz);
     let k = GetK sz1;
     _ \<leftarrow> assert_c (unat k < 31);
     Some \<lparr>fls = Map.empty, objs = Map.empty, caches = Map.empty, central_free_list = [],
           obj_size = 2 ^ unat k, mt_mode = m, next_mem = 1, next_fl = 1\<rparr> }"

section \<open>A free list is an intrusive queue\<close>

definition fl_rep :: "free_list \<times> nexts \<Rightarrow> addr list \<Rightarrow> bool" where
  "fl_rep = (\<lambda>(f, h) xs. chain h (fl_head f) xs NULL \<and> fl_tail f = (if xs = [] then NULL else last xs))"

lemma free_list_get_law:
  assumes "fl_rep (f, h) (x # xs)"
  shows "\<exists>f'. free_list_get (f, h) = Some ((f', h), x) \<and> fl_rep (f', h) xs \<and>
    fl_size f' = fl_size f - 1 \<and> fl_init_size f' = fl_init_size f \<and> fl_mem f' = fl_mem f"
proof -
  obtain r where r: "fl_head f = x" "x \<noteq> NULL" "h x = Some r" "chain h r xs NULL" "fl_tail f = last (x # xs)"
    using assms by (auto simp: fl_rep_def split: option.splits)
  show ?thesis
  proof (cases xs)
    case Nil
    then show ?thesis using r by (simp add: free_list_get_def fl_rep_def)
  next
    case (Cons y ys)
    then have "r \<noteq> NULL" using r(4) by auto
    then show ?thesis using r Cons by (simp add: free_list_get_def fl_rep_def)
  qed
qed

lemma free_list_put_law:
  assumes rep: "fl_rep (f, h) xs" and x: "x \<noteq> NULL" "x \<notin> set xs"
  shows "\<exists>f' h'. free_list_put (f, h) x = Some (f', h') \<and> fl_rep (f', h') (xs @ [x]) \<and>
    fl_size f' = fl_size f + 1 \<and> fl_init_size f' = fl_init_size f \<and> fl_mem f' = fl_mem f \<and>
    (\<forall>y. y \<notin> set (xs @ [x]) \<longrightarrow> h' y = h y)"
proof (cases "xs = []")
  case True
  then show ?thesis using rep x by (simp add: free_list_put_def fl_rep_def)
next
  case False
  let ?t = "last xs" and ?h = "h(x \<mapsto> NULL)"
  have ch: "chain ?h (fl_head f) xs NULL" and t: "fl_tail f = ?t" using rep x(2) False by (auto simp: fl_rep_def)
  have tx: "?t \<noteq> x" "?t \<noteq> NULL" using x(2) False chain_null_notin [OF ch] last_in_set [OF False] by (metis, metis)
  have tn: "?h ?t = Some NULL" by (rule chain_last_next [OF ch False])
  have ch2: "chain (?h(?t \<mapsto> x)) (fl_head f) (xs @ [x]) NULL"
    using chain_redirect_last [OF ch False, of x] x(1) tx(1) by (auto simp: chain_append)
  have "free_list_put (f, h) x = Some (f\<lparr>fl_tail := x, fl_size := fl_size f + 1\<rparr>, ?h(?t \<mapsto> x))"
    using x(1) t tx tn by (simp add: free_list_put_def)
  moreover have "fl_rep (f\<lparr>fl_tail := x, fl_size := fl_size f + 1\<rparr>, ?h(?t \<mapsto> x)) (xs @ [x])"
    using ch2 by (simp add: fl_rep_def)
  ultimately show ?thesis using last_in_set [OF False] by auto
qed

interpretation flq: intrusive_queue fl_rep "\<lambda>s x. x \<noteq> NULL" "2 ^ 32" free_list_put free_list_get
proof
  fix s xs and x :: addr
  assume "fl_rep s xs" "x \<noteq> NULL" "x \<notin> set xs"
  then show "\<exists>s'. free_list_put s x = Some s' \<and> fl_rep s' (xs @ [x]) \<and>
      (\<forall>m. m \<noteq> x \<longrightarrow> m \<notin> set xs \<longrightarrow> m \<noteq> NULL \<longrightarrow> m \<noteq> NULL)"
    using free_list_put_law [of "fst s" "snd s" xs x] by (cases s) auto
next
  fix s x xs
  assume "fl_rep s (x # xs)"
  then show "\<exists>s'. free_list_get s = Some (s', x) \<and> fl_rep s' xs"
    using free_list_get_law [of "fst s" "snd s" x xs] by (cases s) auto
qed

lemma fl_rep_frame:
  assumes "fl_rep (f, h) xs" "\<forall>y \<in> set xs. h' y = h y"
  shows "fl_rep (f, h') xs"
proof -
  have "chain h' p xs q = chain h p xs q" for p q
    using assms(2) by (induction xs arbitrary: p) (auto split: option.splits)
  then show ?thesis using assms(1) by (simp add: fl_rep_def)
qed

lemma fl_rep_size [simp]: "fl_rep (f\<lparr>fl_size := n\<rparr>, h) xs = fl_rep (f, h) xs"
  by (simp add: fl_rep_def)

text \<open>Pushing a list of objects leaves the rest of the memory and the sizes of the block alone.\<close>

lemma push_all_frame:
  assumes "push_all free_list_put (f, h) ns = Some (f', h')" "fl_rep (f, h) xs" "distinct ns"
    "set ns \<inter> set xs = {}" "NULL \<notin> set ns"
  shows "fl_init_size f' = fl_init_size f \<and> fl_mem f' = fl_mem f \<and> (\<forall>y. y \<notin> set xs \<union> set ns \<longrightarrow> h' y = h y)"
  using assms
proof (induction ns arbitrary: f h xs)
  case Nil
  then show ?case by simp
next
  case (Cons n ns)
  obtain f1 h1 where 1: "free_list_put (f, h) n = Some (f1, h1)" "fl_rep (f1, h1) (xs @ [n])"
    "fl_init_size f1 = fl_init_size f" "fl_mem f1 = fl_mem f" "\<forall>y. y \<notin> set (xs @ [n]) \<longrightarrow> h1 y = h y"
    using free_list_put_law [OF Cons.prems(2), of n] Cons.prems by auto
  have "push_all free_list_put (f1, h1) ns = Some (f', h')" using Cons.prems(1) 1(1) by simp
  from Cons.IH [OF this 1(2)] Cons.prems(3-5) 1(3-5) show ?case by auto
qed

lemma block_objects_distinct: "sz \<noteq> 0 \<Longrightarrow> distinct (block_objects mem sz n)"
proof -
  assume "sz \<noteq> 0"
  then have "0 < unat sz" by (simp add: unat_gt_0)
  then show ?thesis by (auto simp: block_objects_def distinct_map inj_on_def)
qed

lemma creat_new_freelist_law:
  assumes sz: "sz \<noteq> 0" "DEFAULT_BLOCK_SIZE div unat sz < 2 ^ 31" and mem: "mem \<noteq> NULL"
  defines "n \<equiv> DEFAULT_BLOCK_SIZE div unat sz"
  shows "\<exists>f h'. creat_new_freelist mem sz h = Some (f, h') \<and> fl_rep (f, h') (block_objects mem sz n) \<and>
    unat (fl_size f) = n \<and> unat (fl_init_size f) = n \<and>
    (\<forall>x \<in> set (block_objects mem sz n). mem \<le> x \<and> x < mem + DEFAULT_BLOCK_SIZE) \<and>
    (\<forall>y. y \<notin> set (block_objects mem sz n) \<longrightarrow> h' y = h y)"
proof -
  let ?bs = "block_objects mem sz n"
  have u: "unat (word_of_nat n :: u32) = n" using sz(2) unfolding n_def by (intro unat_word_of_nat) simp
  define f where "f = \<lparr>fl_size = word_of_nat n, fl_init_size = word_of_nat n, fl_head = NULL, fl_tail = NULL, fl_mem = mem\<rparr>"
  have rep: "fl_rep (f, h) []" by (simp add: fl_rep_def f_def)
  have nz: "NULL \<notin> set ?bs" using mem by (auto simp: block_objects_def)
  have "\<exists>s'. push_all free_list_put (f, h) ?bs = Some s' \<and> fl_rep s' ([] @ ?bs)"
    using sz(2) nz block_objects_distinct [OF sz(1)]
    by (intro flq.push_all_law [OF rep]) (auto simp: block_objects_def n_def)
  then obtain f' h' where p: "push_all free_list_put (f, h) ?bs = Some (f', h')" "fl_rep (f', h') ?bs" by auto
  have fr: "fl_init_size f' = word_of_nat n" "\<forall>y. y \<notin> set ?bs \<longrightarrow> h' y = h y"
    using push_all_frame [OF p(1) rep block_objects_distinct [OF sz(1)]] nz by (auto simp: f_def)
  have "x < mem + DEFAULT_BLOCK_SIZE" if xb: "x \<in> set ?bs" for x
  proof -
    obtain i where i: "i < n" "x = mem + i * unat sz" using xb by (auto simp: block_objects_def)
    have "i * unat sz < n * unat sz" using i(1) sz(1) by (simp add: unat_gt_0)
    also have "n * unat sz \<le> DEFAULT_BLOCK_SIZE" unfolding n_def by simp
    finally show ?thesis using i(2) by simp
  qed
  moreover have "mem \<le> x" if "x \<in> set ?bs" for x using that by (auto simp: block_objects_def)
  moreover have "creat_new_freelist mem sz h = Some (f'\<lparr>fl_size := word_of_nat n\<rparr>, h')"
    using sz(1) p(1) u by (simp add: creat_new_freelist_def Let_def f_def flip: n_def)
  ultimately show ?thesis using p(2) u fr
    by (intro exI [of _ "f'\<lparr>fl_size := word_of_nat n\<rparr>"] exI [of _ h']) simp
qed

section \<open>Invariant of a thread cache\<close>

text \<open>
  \<open>C f\<close> are the objects in free list \<open>f\<close>, \<open>out\<close> the objects handed out. Lists of \<open>_free_list\<close> are
  never empty and all but the first are full; of the lists in \<open>_recover\<close> only the first may hold
  objects, and it is not full.
\<close>

definition per_block :: "block_obj_allocator \<Rightarrow> nat" where
  "per_block b = DEFAULT_BLOCK_SIZE div unat (obj_size b)"

definition lists :: "block_obj_allocator \<Rightarrow> thread_allocator \<Rightarrow> addr list" where
  "lists b a = ta_free_list a @ ta_recover a @ central_free_list b"

definition store_ok :: "block_obj_allocator \<Rightarrow> addr list \<Rightarrow> (addr \<Rightarrow> addr list) \<Rightarrow> addr list \<Rightarrow> bool" where
  "store_ok b T C out \<longleftrightarrow>
     8 \<le> unat (obj_size b) \<and> unat (obj_size b) \<le> DEFAULT_BLOCK_SIZE \<and> distinct T \<and>
     (\<forall>f \<in> set T. f < next_fl b \<and> (\<exists>fl. fls b f = Some fl \<and> fl_rep (fl, objs b) (C f) \<and>
        unat (fl_size fl) = length (C f) \<and> unat (fl_init_size fl) = per_block b)) \<and>
     distinct (concat (map C T) @ out) \<and> 1 \<le> next_mem b \<and>
     (\<forall>x \<in> set (concat (map C T) @ out). 1 \<le> x \<and> x < next_mem b)"

definition total :: "(addr \<Rightarrow> addr list) \<Rightarrow> addr list \<Rightarrow> nat" where
  "total C fs = (\<Sum>f \<leftarrow> fs. length (C f))"

lemma total_simps [simp]:
  "total C [] = 0" "total C (f # fs) = length (C f) + total C fs" "total C (fs @ gs) = total C fs + total C gs"
  by (simp_all add: total_def)

lemma total_upd [simp]: "f \<notin> set fs \<Longrightarrow> total (C(f := xs)) fs = total C fs"
  by (induction fs) auto

lemma total_zero: "total C fs = 0 \<Longrightarrow> f \<in> set fs \<Longrightarrow> C f = []"
  by (induction fs) auto

lemma total_empty: "\<forall>f \<in> set fs. C f = [] \<Longrightarrow> total C fs = 0"
  by (induction fs) auto

lemma total_full: "\<forall>f \<in> set fs. length (C f) = n \<Longrightarrow> total C fs = n * length fs"
  by (induction fs) auto

definition cache_ok :: "nat \<Rightarrow> thread_allocator \<Rightarrow> (addr \<Rightarrow> addr list) \<Rightarrow> nat \<Rightarrow> bool" where
  "cache_ok N a C n_out \<longleftrightarrow>
     unat (free_size a) = total C (ta_free_list a @ ta_recover a) \<and>
     (\<forall>f \<in> set (ta_free_list a). C f \<noteq> [] \<and> length (C f) \<le> N) \<and>
     (\<forall>f \<in> set (tl (ta_free_list a)). length (C f) = N) \<and>
     (\<forall>f \<in> set (tl (ta_recover a)). C f = []) \<and>
     (\<forall>f fs. ta_recover a = f # fs \<longrightarrow> length (C f) < N) \<and>
     length (ta_free_list a) \<le> 2 \<and> unat (collect_factor a) = 2 * N \<and>
     n_out + unat (free_size a) = N * length (ta_free_list a @ ta_recover a)"

definition ba_inv :: "block_obj_allocator \<Rightarrow> thread_allocator \<Rightarrow> (addr \<Rightarrow> addr list) \<Rightarrow> addr list \<Rightarrow> bool" where
  "ba_inv b a C out \<longleftrightarrow> store_ok b (lists b a) C out \<and> cache_ok (per_block b) a C (length out) \<and>
     (\<forall>f \<in> set (central_free_list b). length (C f) = per_block b)"

lemma per_block_bounds: "store_ok b T C out \<Longrightarrow> 1 \<le> per_block b \<and> per_block b \<le> 131072"
proof -
  assume "store_ok b T C out"
  then have o: "8 \<le> unat (obj_size b)" "unat (obj_size b) \<le> DEFAULT_BLOCK_SIZE" by (auto simp: store_ok_def)
  have "DEFAULT_BLOCK_SIZE div unat (obj_size b) \<le> DEFAULT_BLOCK_SIZE div 8" using o(1) by (intro div_le_mono2) auto
  moreover have "0 < DEFAULT_BLOCK_SIZE div unat (obj_size b)" using o by (simp add: div_greater_zero_iff)
  ultimately show ?thesis by (simp add: per_block_def)
qed

lemma store_ok_perm:
  "store_ok b T C out \<Longrightarrow> mset T' = mset T \<Longrightarrow> store_ok b T' C out"
proof -
  assume ok: "store_ok b T C out" and m: "mset T' = mset T"
  have d: "distinct T' = distinct T" and s: "set T' = set T"
    using m by (metis distinct_count_atmost_1 set_mset_mset, metis set_mset_mset)
  have "mset (concat (map C T') @ out) = mset (concat (map C T) @ out)"
  proof -
    have "mset (map (\<lambda>f. mset (C f)) T') = mset (map (\<lambda>f. mset (C f)) T)" using m by (metis mset_map)
    then have "sum_mset (mset (map (\<lambda>f. mset (C f)) T')) = sum_mset (mset (map (\<lambda>f. mset (C f)) T))" by simp
    then show ?thesis by (simp add: mset_concat o_def flip: sum_mset_sum_list)
  qed
  then have "distinct (concat (map C T') @ out) = distinct (concat (map C T) @ out)"
    "set (concat (map C T') @ out) = set (concat (map C T) @ out)"
    by (metis distinct_count_atmost_1 set_mset_mset, metis set_mset_mset)
  with ok d s show ?thesis unfolding store_ok_def by metis
qed

text \<open>Taking the first object of a list, and adding an object to a list.\<close>

lemma store_ok_get:
  assumes ok: "store_ok b (f # T) C out" and x: "C f = x # xs"
  shows "\<exists>fl fl'. fls b f = Some fl \<and> free_list_get (fl, objs b) = Some ((fl', objs b), x) \<and> x \<noteq> NULL \<and>
    unat (fl_size fl') = length xs \<and> x \<notin> set out \<and>
    store_ok (b\<lparr>fls := (fls b)(f \<mapsto> fl')\<rparr>) (f # T) (C(f := xs)) (x # out)"
proof -
  obtain fl where fl: "fls b f = Some fl" "fl_rep (fl, objs b) (x # xs)" "unat (fl_size fl) = Suc (length xs)"
    "unat (fl_init_size fl) = per_block b" "f < next_fl b"
    using ok x by (auto simp: store_ok_def)
  obtain fl' where fl': "free_list_get (fl, objs b) = Some ((fl', objs b), x)" "fl_rep (fl', objs b) xs"
    "fl_size fl' = fl_size fl - 1" "fl_init_size fl' = fl_init_size fl"
    using free_list_get_law [OF fl(2)] by blast
  have sz: "unat (fl_size fl') = length xs"
    using fl(3) fl'(3) by (subst fl'(3), subst unat_minus_one) auto
  have fT: "f \<notin> set T" using ok by (auto simp: store_ok_def)
  have "map (C(f := xs)) T = map C T" using fT by (intro map_cong) auto
  then have cc: "concat (map (C(f := xs)) (f # T)) = xs @ concat (map C T)"
    by (simp only: list.map concat.simps fun_upd_same)
  have "distinct (concat (map C (f # T)) @ out)" "\<forall>y \<in> set (concat (map C (f # T)) @ out). 1 \<le> y \<and> y < next_mem b"
    using ok by (auto simp: store_ok_def)
  then have "x \<noteq> NULL" "x \<notin> set out" "distinct (concat (map (C(f := xs)) (f # T)) @ x # out)"
    "\<forall>y \<in> set (concat (map (C(f := xs)) (f # T)) @ x # out). 1 \<le> y \<and> y < next_mem b"
    unfolding cc using x by auto
  moreover have "per_block (b\<lparr>fls := (fls b)(f \<mapsto> fl')\<rparr>) = per_block b" by (simp add: per_block_def)
  ultimately show ?thesis using fl fl' sz ok fT
    by (intro exI [of _ fl] exI [of _ fl']) (auto simp: store_ok_def)
qed

lemma store_ok_put:
  assumes ok: "store_ok b (f # T) C out" and x: "x \<in> set out" and room: "length (C f) < per_block b"
  shows "\<exists>fl fl' h'. fls b f = Some fl \<and> free_list_put (fl, objs b) x = Some (fl', h') \<and>
    unat (fl_size fl') = Suc (length (C f)) \<and> unat (fl_init_size fl') = per_block b \<and>
    store_ok (b\<lparr>fls := (fls b)(f \<mapsto> fl'), objs := h'\<rparr>) (f # T) (C(f := C f @ [x])) (remove1 x out)"
proof -
  obtain fl where fl: "fls b f = Some fl" "fl_rep (fl, objs b) (C f)" "unat (fl_size fl) = length (C f)"
    "unat (fl_init_size fl) = per_block b" "f < next_fl b"
    using ok by (auto simp: store_ok_def)
  have d: "distinct (concat (map C (f # T)) @ out)" "\<forall>y \<in> set (concat (map C (f # T)) @ out). 1 \<le> y \<and> y < next_mem b"
    using ok by (auto simp: store_ok_def)
  have xx: "x \<noteq> NULL" "x \<notin> set (C f)" "\<forall>g \<in> set T. x \<notin> set (C g)" using d x by auto
  obtain fl' h' where p: "free_list_put (fl, objs b) x = Some (fl', h')" "fl_rep (fl', h') (C f @ [x])"
    "fl_size fl' = fl_size fl + 1" "fl_init_size fl' = fl_init_size fl" "\<forall>y. y \<notin> set (C f @ [x]) \<longrightarrow> h' y = objs b y"
    using free_list_put_law [OF fl(2) xx(1,2)] by blast
  have "per_block b \<le> 131072" using per_block_bounds [OF ok] by simp
  then have sz: "unat (fl_size fl') = Suc (length (C f))"
    using fl(3) p(3) room by (simp add: unat_word_ariths)
  have fT: "f \<notin> set T" "distinct T" using ok by (auto simp: store_ok_def)
  have other: "fl_rep (gl, h') (C g)" if g: "g \<in> set T" "fl_rep (gl, objs b) (C g)" for g gl
  proof (rule fl_rep_frame [OF g(2)])
    have "set (C f) \<inter> set (C g) = {}" using d(1) g(1) by auto
    then show "\<forall>y \<in> set (C g). h' y = objs b y" using p(5) g(1) xx(3) by auto
  qed
  have "map (C(f := C f @ [x])) T = map C T" using fT by (intro map_cong) auto
  then have cc: "concat (map (C(f := C f @ [x])) (f # T)) = (C f @ [x]) @ concat (map C T)"
    by (simp only: list.map concat.simps fun_upd_same)
  have so: "set (remove1 x out) = set out - {x}" using d(1) by (intro set_remove1_eq) simp
  have dis: "distinct (concat (map (C(f := C f @ [x])) (f # T)) @ remove1 x out)"
    unfolding cc using d(1) x xx by (auto simp: distinct_remove1 so)
  have rng: "\<forall>y \<in> set (concat (map (C(f := C f @ [x])) (f # T)) @ remove1 x out). 1 \<le> y \<and> y < next_mem b"
    unfolding cc using d(2) x by (auto simp: so)
  have "per_block (b\<lparr>fls := (fls b)(f \<mapsto> fl'), objs := h'\<rparr>) = per_block b" by (simp add: per_block_def)
  then have "store_ok (b\<lparr>fls := (fls b)(f \<mapsto> fl'), objs := h'\<rparr>) (f # T) (C(f := C f @ [x])) (remove1 x out)"
    using ok fT fl p sz dis rng other unfolding store_ok_def by auto
  with fl p sz show ?thesis by auto
qed

section \<open>Allocation\<close>

text \<open>The first part of \<open>thread_allocator_alloc\<close>: making sure that \<open>_free_list\<close> is not empty.\<close>

definition select_list :: "block_obj_allocator \<Rightarrow> thread_allocator \<Rightarrow> (block_obj_allocator \<times> thread_allocator \<times> addr) option" where
  "select_list b a =
       (if free_size a = 0
        then do {
          (b', f) \<leftarrow> central_get_freelist b;
          fl \<leftarrow> fls b' f;
          Some (b', a\<lparr>ta_free_list := ta_free_list a @ [f], free_size := free_size a + fl_size fl\<rparr>, f) }
        else (case ta_free_list a of
            f # _ \<Rightarrow> Some (b, a, f)
          | [] \<Rightarrow> (case ta_recover a of
                f # fs \<Rightarrow> Some (b, a\<lparr>ta_recover := fs, ta_free_list := ta_free_list a @ [f]\<rparr>, f)
              | [] \<Rightarrow> None)))"

lemma in_set_tl: "x \<in> set (tl xs) \<Longrightarrow> x \<in> set xs"
  by (cases xs) auto

lemma central_get_law:
  assumes inv: "ba_inv b a C out"
  shows "\<exists>b' f C'. central_get_freelist b = Some (b', f) \<and>
    store_ok b' (f # ta_free_list a @ ta_recover a @ central_free_list b') C' out \<and>
    (\<forall>g \<in> set (ta_free_list a @ ta_recover a @ central_free_list b'). C' g = C g) \<and>
    length (C' f) = per_block b \<and> per_block b' = per_block b \<and> set (central_free_list b') \<subseteq> set (central_free_list b) \<and>
    obj_size b' = obj_size b"
proof (cases "central_free_list b")
  case (Cons f fs)
  let ?b = "b\<lparr>central_free_list := fs\<rparr>"
  have "store_ok b (f # ta_free_list a @ ta_recover a @ fs) C out"
    by (rule store_ok_perm [of b "lists b a"]) (use inv Cons in \<open>auto simp: ba_inv_def lists_def\<close>)
  then have "store_ok ?b (f # ta_free_list a @ ta_recover a @ fs) C out" by (simp add: store_ok_def per_block_def)
  then show ?thesis using Cons inv
    by (intro exI [of _ ?b] exI [of _ f] exI [of _ C]) (auto simp: central_get_freelist_def ba_inv_def per_block_def)
next
  case Nil
  have ok: "store_ok b (ta_free_list a @ ta_recover a) C out" using inv Nil by (simp add: ba_inv_def lists_def)
  let ?f = "next_fl b" and ?T = "ta_free_list a @ ta_recover a"
  let ?xs = "block_objects (next_mem b) (obj_size b) (per_block b)"
  have N: "1 \<le> per_block b" "per_block b \<le> 131072" using per_block_bounds [OF ok] by auto
  have sz: "obj_size b \<noteq> 0" "1 \<le> next_mem b" using ok by (auto simp: store_ok_def)
  obtain fl h' where fl: "creat_new_freelist (next_mem b) (obj_size b) (objs b) = Some (fl, h')"
    "fl_rep (fl, h') ?xs" "unat (fl_size fl) = per_block b" "unat (fl_init_size fl) = per_block b"
    "\<forall>x \<in> set ?xs. next_mem b \<le> x \<and> x < next_mem b + DEFAULT_BLOCK_SIZE" "\<forall>y. y \<notin> set ?xs \<longrightarrow> h' y = objs b y"
    using creat_new_freelist_law [of "obj_size b" "next_mem b" "objs b"] sz N unfolding per_block_def by auto
  define b' where "b' = b\<lparr>fls := (fls b)(?f \<mapsto> fl), objs := h', next_mem := next_mem b + DEFAULT_BLOCK_SIZE,
                  next_fl := Suc ?f\<rparr>"
  have "\<forall>g \<in> set ?T. g < ?f" using ok unfolding store_ok_def by blast
  then have fT: "?f \<notin> set ?T" by blast
  have "map (C(?f := ?xs)) ?T = map C ?T" using fT by (intro map_cong) auto
  then have cc: "concat (map (C(?f := ?xs)) (?f # ?T)) = ?xs @ concat (map C ?T)"
    by (simp only: list.map concat.simps fun_upd_same)
  have old: "\<forall>x \<in> set (concat (map C ?T) @ out). 1 \<le> x \<and> x < next_mem b" "distinct (concat (map C ?T) @ out)"
    using ok by (auto simp: store_ok_def)
  have xs: "length ?xs = per_block b" "distinct ?xs"
    using block_objects_distinct [OF sz(1)] by (simp_all add: block_objects_def)
  have dj: "set ?xs \<inter> set (concat (map C ?T) @ out) = {}" using fl(5) old(1) by (metis (no_types, lifting) disjoint_iff linorder_not_less)
  have "distinct (concat (map (C(?f := ?xs)) (?f # ?T)) @ out)"
    unfolding cc using old(2) xs(2) dj by auto
  moreover have "\<forall>x \<in> set (concat (map (C(?f := ?xs)) (?f # ?T)) @ out). 1 \<le> x \<and> x < next_mem b'"
  proof
    fix x assume "x \<in> set (concat (map (C(?f := ?xs)) (?f # ?T)) @ out)"
    then have "x \<in> set ?xs \<or> x \<in> set (concat (map C ?T) @ out)" unfolding cc by auto
    then show "1 \<le> x \<and> x < next_mem b'"
    proof
      assume "x \<in> set ?xs"
      then have "next_mem b \<le> x \<and> x < next_mem b + DEFAULT_BLOCK_SIZE" using fl(5) by blast
      then show ?thesis using sz(2) by (simp add: b'_def)
    next
      assume "x \<in> set (concat (map C ?T) @ out)"
      then have "1 \<le> x \<and> x < next_mem b" using old(1) by blast
      then show ?thesis by (simp add: b'_def)
    qed
  qed
  moreover have rep_kept: "fl_rep (gl, h') (C g)" if g: "g \<in> set ?T" "fl_rep (gl, objs b) (C g)" for g gl
  proof (rule fl_rep_frame [OF g(2)])
    have "set (C g) \<subseteq> set (concat (map C ?T) @ out)" using g(1) by auto
    then show "\<forall>y \<in> set (C g). h' y = objs b y" using fl(6) dj by blast
  qed
  moreover have pb: "per_block b' = per_block b" by (simp add: per_block_def b'_def)
  moreover have known: "g < Suc ?f \<and> (\<exists>gl. fls b' g = Some gl \<and> fl_rep (gl, objs b) (C g) \<and>
        unat (fl_size gl) = length (C g) \<and> unat (fl_init_size gl) = per_block b)" if gT: "g \<in> set ?T" for g
  proof -
    obtain gl where "g < ?f" "fls b g = Some gl" "fl_rep (gl, objs b) (C g)"
        "unat (fl_size gl) = length (C g)" "unat (fl_init_size gl) = per_block b"
      using ok gT unfolding store_ok_def by blast
    moreover have "g \<noteq> ?f" using fT gT by blast
    ultimately show ?thesis by (simp add: b'_def)
  qed
  ultimately have "store_ok b' (?f # ?T) (C(?f := ?xs)) out"
    unfolding store_ok_def
  proof (intro conjI ballI)
    fix g assume g: "g \<in> set (?f # ?T)"
    show "g < next_fl b'" "\<exists>gl. fls b' g = Some gl \<and> fl_rep (gl, objs b') ((C(?f := ?xs)) g) \<and>
        unat (fl_size gl) = length ((C(?f := ?xs)) g) \<and> unat (fl_init_size gl) = per_block b'"
    proof (atomize (full), cases "g = ?f")
      case True
      then show "g < next_fl b' \<and> (\<exists>gl. fls b' g = Some gl \<and> fl_rep (gl, objs b') ((C(?f := ?xs)) g) \<and>
        unat (fl_size gl) = length ((C(?f := ?xs)) g) \<and> unat (fl_init_size gl) = per_block b')"
        using fl(2-4) xs(1) pb by (simp add: b'_def)
    next
      case False
      then have gT: "g \<in> set ?T" using g by simp
      obtain gl where gl: "g < Suc ?f" "fls b' g = Some gl" "fl_rep (gl, objs b) (C g)"
          "unat (fl_size gl) = length (C g)" "unat (fl_init_size gl) = per_block b"
        using known [OF gT] by blast
      then show "g < next_fl b' \<and> (\<exists>gl. fls b' g = Some gl \<and> fl_rep (gl, objs b') ((C(?f := ?xs)) g) \<and>
        unat (fl_size gl) = length ((C(?f := ?xs)) g) \<and> unat (fl_init_size gl) = per_block b')"
        using False rep_kept [OF gT gl(3)] pb by (simp add: b'_def)
    qed
  qed (use ok fT sz(2) in \<open>auto simp: b'_def store_ok_def\<close>)
  then show ?thesis using Nil fl(1) xs(1) pb fT
    by (intro exI [of _ b'] exI [of _ ?f] exI [of _ "C(?f := ?xs)"])
      (auto simp: central_get_freelist_def b'_def)
qed

lemma select_list_law:
  assumes inv: "ba_inv b a C out"
  shows "\<exists>b' a' f C' rest. select_list b a = Some (b', a', f) \<and> ba_inv b' a' C' out \<and> ta_free_list a' = f # rest \<and>
    obj_size b' = obj_size b"
proof (cases "free_size a = 0")
  case True
  have i: "cache_ok (per_block b) a C (length out)" using inv by (simp add: ba_inv_def)
  have z: "total C (ta_free_list a @ ta_recover a) = 0" using i True by (simp add: cache_ok_def)
  have fe: "ta_free_list a = []"
  proof (rule ccontr)
    assume "ta_free_list a \<noteq> []"
    then obtain g where "g \<in> set (ta_free_list a)" by (cases "ta_free_list a") auto
    then show False using i total_zero [OF z, of g] by (auto simp: cache_ok_def)
  qed
  have re: "C g = []" if "g \<in> set (ta_recover a)" for g using total_zero [OF z, of g] that by simp
  obtain b' f C' where c: "central_get_freelist b = Some (b', f)"
    "store_ok b' (f # ta_free_list a @ ta_recover a @ central_free_list b') C' out"
    "\<forall>g \<in> set (ta_free_list a @ ta_recover a @ central_free_list b'). C' g = C g"
    "length (C' f) = per_block b" "per_block b' = per_block b" "set (central_free_list b') \<subseteq> set (central_free_list b)"
    "obj_size b' = obj_size b"
    using central_get_law [OF inv] by blast
  obtain fl where fl: "fls b' f = Some fl" "unat (fl_size fl) = per_block b" using c(2,4) by (auto simp: store_ok_def)
  have N: "1 \<le> per_block b" using per_block_bounds [OF c(2)] c(5) by simp
  let ?a = "a\<lparr>ta_free_list := [f], free_size := fl_size fl\<rparr>"
  have ne: "C' f \<noteq> []" using c(4) N by auto
  have re': "C' g = []" if "g \<in> set (ta_recover a)" for g using re [OF that] c(3) that by auto
  then have "total C' (ta_recover a) = 0" by (intro total_empty) blast
  then have "cache_ok (per_block b) ?a C' (length out)"
    using i True c(4) fl(2) fe re' ne N
    by (auto simp: cache_ok_def dest: in_set_tl)
  moreover have "store_ok b' (lists b' ?a) C' out" using c(2) fe by (simp add: lists_def)
  moreover have "\<forall>g \<in> set (central_free_list b'). length (C' g) = per_block b'"
    using c(3,5,6) inv by (auto simp: ba_inv_def)
  ultimately have "ba_inv b' ?a C' out" using c(5) by (simp add: ba_inv_def)
  moreover have "select_list b a = Some (b', ?a, f)" using True c(1) fl(1) fe by (simp add: select_list_def)
  ultimately show ?thesis using c(7) by fastforce
next
  case False
  show ?thesis
  proof (cases "ta_free_list a")
    case (Cons f rest)
    then show ?thesis using False inv by (auto simp: select_list_def)
  next
    case Nil
    have i: "cache_ok (per_block b) a C (length out)" using inv by (simp add: ba_inv_def)
    have fs: "0 < unat (free_size a)" using False by (simp add: unat_gt_0)
    obtain f fs' where r: "ta_recover a = f # fs'" using i Nil fs by (cases "ta_recover a") (auto simp: cache_ok_def)
    have tl0: "\<forall>g \<in> set fs'. C g = []" using i r by (simp add: cache_ok_def)
    then have t0: "total C fs' = 0" by (rule total_empty)
    then have len: "unat (free_size a) = length (C f)" using i Nil r by (simp add: cache_ok_def)
    let ?a = "a\<lparr>ta_recover := fs', ta_free_list := [f]\<rparr>"
    have N: "1 \<le> per_block b" using per_block_bounds inv by (auto simp: ba_inv_def)
    have "cache_ok (per_block b) ?a C (length out)"
      using i Nil r tl0 len fs N t0
      by (auto simp: cache_ok_def dest: in_set_tl)
    moreover have "store_ok b (lists b ?a) C out"
      by (rule store_ok_perm [of b "lists b a"]) (use inv Nil r in \<open>auto simp: ba_inv_def lists_def\<close>)
    ultimately have "ba_inv b ?a C out" using inv by (simp add: ba_inv_def)
    moreover have "select_list b a = Some (b, ?a, f)" using False Nil r by (simp add: select_list_def)
    ultimately show ?thesis by fastforce
  qed
qed

lemma alloc_law:
  assumes inv0: "ba_inv b0 a0 C0 out"
  shows "\<exists>b' a' C' x. thread_allocator_alloc b0 a0 = Some (b', a', x) \<and> x \<noteq> NULL \<and> x \<notin> set out \<and>
    ba_inv b' a' C' (x # out) \<and> obj_size b' = obj_size b0"
proof -
  obtain b a f C rest where sel: "select_list b0 a0 = Some (b, a, f)" and inv: "ba_inv b a C out"
    and fr: "ta_free_list a = f # rest" and os: "obj_size b = obj_size b0"
    using select_list_law [OF inv0] by blast
  let ?T = "rest @ ta_recover a @ central_free_list b" and ?N = "per_block b"
  have ok: "store_ok b (f # ?T) C out" and ca: "cache_ok ?N a C (length out)"
    and ce: "\<forall>g \<in> set (central_free_list b). length (C g) = ?N"
    using inv fr by (auto simp: ba_inv_def lists_def)
  have "C f \<noteq> []" using ca fr by (auto simp: cache_ok_def)
  then obtain x xs where x: "C f = x # xs" by (cases "C f") auto
  obtain fl fl' where g: "fls b f = Some fl" "free_list_get (fl, objs b) = Some ((fl', objs b), x)" "x \<noteq> NULL"
    "unat (fl_size fl') = length xs" "x \<notin> set out"
    "store_ok (b\<lparr>fls := (fls b)(f \<mapsto> fl')\<rparr>) (f # ?T) (C(f := xs)) (x # out)"
    using store_ok_get [OF ok x] by blast
  define b2 where "b2 = b\<lparr>fls := (fls b)(f \<mapsto> fl')\<rparr>"
  define a2 where "a2 = a\<lparr>free_size := free_size a - 1\<rparr>"
  define a3 where "a3 = (if fl_size fl' = 0 then a2\<lparr>ta_free_list := rest, ta_recover := ta_recover a @ [f]\<rparr> else a2)"
  have z: "fl_size fl' = 0 \<longleftrightarrow> xs = []" using g(4) by (metis length_0_conv unat_eq_zero)
  have run: "thread_allocator_alloc b0 a0 = Some (b2, a3, x)"
    using sel g(1-3) fr
    by (simp add: thread_allocator_alloc_def select_list_def [symmetric] b2_def a3_def a2_def Let_def)
  have fT: "f \<notin> set ?T" using ok by (auto simp: store_ok_def)
  have same: "(C(f := xs)) h = C h" if "h \<in> set rest \<union> set (ta_recover a) \<union> set (central_free_list b)" for h
    using that fT by auto
  have N: "1 \<le> ?N" using per_block_bounds [OF ok] by simp
  have fs: "unat (free_size a) = Suc (length xs) + total C (rest @ ta_recover a)"
    using ca fr x by (simp add: cache_ok_def)
  then have fs1: "unat (free_size a - 1) = length xs + total C (rest @ ta_recover a)"
    by (subst unat_minus_one) auto
  have full: "\<forall>h \<in> set rest. length (C h) = ?N" using ca fr by (simp add: cache_ok_def)
  have "cache_ok ?N a3 (C(f := xs)) (length (x # out))"
  proof (cases "xs = []")
    case True
    have "\<forall>h \<in> set (tl (ta_recover a @ [f])). (C(f := xs)) h = []"
    proof
      fix h assume h: "h \<in> set (tl (ta_recover a @ [f]))"
      show "(C(f := xs)) h = []"
      proof (cases "h = f")
        case hf: False
        then have "h \<in> set (tl (ta_recover a))" using h by (cases "ta_recover a") auto
        then show ?thesis using ca hf by (simp add: cache_ok_def)
      qed (simp add: True)
    qed
    moreover have "\<forall>g gs. ta_recover a @ [f] = g # gs \<longrightarrow> length ((C(f := xs)) g) < ?N"
      using ca N True by (cases "ta_recover a") (auto simp: cache_ok_def)
    moreover have "\<forall>h \<in> set (tl rest). length ((C(f := xs)) h) = ?N"
      using full same in_set_tl [of _ rest] by auto
    moreover have "\<forall>h \<in> set rest. (C(f := xs)) h \<noteq> [] \<and> length ((C(f := xs)) h) \<le> ?N"
      using full same N by fastforce
    ultimately show ?thesis
      using ca fr z True fs fs1 fT x
      unfolding cache_ok_def a3_def a2_def by (simp del: fun_upd_apply add: fun_upd_same algebra_simps)
  next
    case False
    have "\<forall>h \<in> set (f # rest). (C(f := xs)) h \<noteq> [] \<and> length ((C(f := xs)) h) \<le> ?N"
    proof -
      have "length xs \<le> ?N" using ca fr x by (auto simp: cache_ok_def)
      then show ?thesis using full same N False by fastforce
    qed
    moreover have "\<forall>h \<in> set rest. length ((C(f := xs)) h) = ?N" using full same by auto
    moreover have "\<forall>h \<in> set (tl (ta_recover a)). (C(f := xs)) h = []"
      using ca same in_set_tl [of _ "ta_recover a"] by (auto simp: cache_ok_def)
    moreover have "\<forall>g gs. ta_recover a = g # gs \<longrightarrow> length ((C(f := xs)) g) < ?N"
      using ca same by (auto simp: cache_ok_def)
    ultimately show ?thesis
      using ca fr z False fs fs1 fT x
      unfolding cache_ok_def a3_def a2_def by (simp del: fun_upd_apply add: fun_upd_same algebra_simps)
  qed
  moreover have "store_ok b2 (lists b2 a3) (C(f := xs)) (x # out)"
    by (rule store_ok_perm [OF g(6) [folded b2_def]]) (simp add: lists_def a3_def a2_def b2_def fr)
  moreover have "\<forall>h \<in> set (central_free_list b2). length ((C(f := xs)) h) = per_block b2"
    using ce same by (auto simp: b2_def per_block_def)
  ultimately have "ba_inv b2 a3 (C(f := xs)) (x # out)" by (simp add: ba_inv_def per_block_def b2_def)
  then show ?thesis using run g(3,5) os by (intro exI [of _ b2]) (auto simp: b2_def)
qed

section \<open>Deallocation\<close>

lemma cache_small:
  assumes "cache_ok N a C n" "N \<le> 131072"
  shows "unat (free_size a) \<le> 3 * N"
proof -
  have "total C (ta_free_list a) \<le> N * length (ta_free_list a)"
  proof -
    have "total C fs \<le> N * length fs" if "\<forall>f \<in> set fs. length (C f) \<le> N" for fs
      using that by (induction fs) auto
    then show ?thesis using assms(1) by (simp add: cache_ok_def)
  qed
  also have "\<dots> \<le> N * 2" using assms(1) by (simp add: cache_ok_def)
  finally have 1: "total C (ta_free_list a) \<le> N * 2" .
  have "total C (ta_recover a) \<le> N"
  proof (cases "ta_recover a")
    case (Cons f fs)
    then have "total C fs = 0" "length (C f) < N" using assms(1) total_empty [of fs C] by (auto simp: cache_ok_def)
    with Cons show ?thesis by simp
  qed simp
  with 1 assms(1) show ?thesis by (simp add: cache_ok_def)
qed

lemma dealloc_law:
  assumes inv: "ba_inv b a C out" and x: "x \<in> set out"
  shows "\<exists>b' a' C'. thread_allocator_dealloc b a x = Some (b', a') \<and> ba_inv b' a' C' (remove1 x out) \<and>
    obj_size b' = obj_size b"
proof -
  let ?N = "per_block b"
  have ok: "store_ok b (lists b a) C out" and ca: "cache_ok ?N a C (length out)"
    and ce: "\<forall>g \<in> set (central_free_list b). length (C g) = ?N" using inv by (auto simp: ba_inv_def)
  have N: "1 \<le> ?N" "?N \<le> 131072" using per_block_bounds [OF ok] by auto
  have fs1: "unat (free_size a + 1) = Suc (unat (free_size a))"
    using cache_small [OF ca N(2)] N(2) by (simp add: unat_word_ariths)
  have lo: "length out = Suc (length (remove1 x out))"
    using x length_pos_if_in_set [OF x] by (simp add: length_remove1)
  show ?thesis
  proof (cases "ta_recover a")
    case (Cons f fs)
    let ?T = "ta_free_list a @ fs @ central_free_list b" and ?C = "C(f := C f @ [x])"
    have okf: "store_ok b (f # ?T) C out"
      by (rule store_ok_perm [OF ok]) (simp add: lists_def Cons)
    have room: "length (C f) < ?N" using ca Cons by (simp add: cache_ok_def)
    obtain fl fl' h' where p: "fls b f = Some fl" "free_list_put (fl, objs b) x = Some (fl', h')"
      "unat (fl_size fl') = Suc (length (C f))" "unat (fl_init_size fl') = ?N"
      "store_ok (b\<lparr>fls := (fls b)(f \<mapsto> fl'), objs := h'\<rparr>) (f # ?T) ?C (remove1 x out)"
      using store_ok_put [OF okf x room] by blast
    define b1 where "b1 = b\<lparr>fls := (fls b)(f \<mapsto> fl'), objs := h'\<rparr>"
    note ok1 = p(5) [folded b1_def]
    have pb1: "per_block b1 = ?N" "central_free_list b1 = central_free_list b" "obj_size b1 = obj_size b"
      by (simp_all add: b1_def per_block_def)
    define a1 where "a1 = a\<lparr>free_size := free_size a + 1\<rparr>"
    have fT: "f \<notin> set ?T" using okf by (auto simp: store_ok_def)
    have same: "?C h = C h" if "h \<in> set ?T" for h using that fT by auto
    have tl0: "\<forall>h \<in> set fs. C h = []" using ca Cons by (simp add: cache_ok_def)
    have t0: "total C fs = 0" by (rule total_empty [OF tl0])
    have fsz: "unat (free_size a) = total C (ta_free_list a) + length (C f)"
      using ca Cons t0 by (simp add: cache_ok_def)
    have cnt: "length out + unat (free_size a) = ?N * (length (ta_free_list a) + Suc (length fs))"
      using ca Cons by (simp add: cache_ok_def)
    have eq: "fl_size fl' = fl_init_size fl' \<longleftrightarrow> Suc (length (C f)) = ?N" using p(3,4) by (simp add: word_unat_eq_iff)
    have frl: "\<forall>h \<in> set (ta_free_list a). ?C h \<noteq> [] \<and> length (?C h) \<le> ?N"
      "\<forall>h \<in> set (tl (ta_free_list a)). length (?C h) = ?N" "length (ta_free_list a) \<le> 2"
      "unat (collect_factor a) = 2 * ?N"
      using ca same in_set_tl [of _ "ta_free_list a"] by (auto simp: cache_ok_def)
    have fsr: "\<forall>h \<in> set fs. ?C h = []" "total ?C fs = 0" "total ?C (ta_free_list a) = total C (ta_free_list a)"
      using tl0 same fT t0 by auto
    have fs_hd: "\<forall>g gs. fs = g # gs \<longrightarrow> length (?C g) < ?N" "\<forall>h \<in> set (tl fs). ?C h = []"
      using fsr(1) N(1) in_set_tl [of _ fs] by auto
    have cen: "\<forall>g \<in> set (central_free_list b). length (?C g) = ?N" using ce same by auto
    show ?thesis
    proof (cases "Suc (length (C f)) = ?N")
      case False
      have "thread_allocator_dealloc b a x = Some (b1, a1)"
        using Cons p(1,2) eq False by (simp add: thread_allocator_dealloc_def b1_def a1_def Let_def)
      moreover have "cache_ok ?N a1 ?C (length (remove1 x out))"
      proof -
        have "length (?C f) < ?N" using room False by simp
        then show ?thesis
          using Cons frl fsr fsz fs1 cnt lo unfolding cache_ok_def a1_def by (simp del: fun_upd_apply add: fun_upd_same)
      qed
      moreover have "store_ok b1 (lists b1 a1) ?C (remove1 x out)"
        by (rule store_ok_perm [OF ok1]) (simp add: lists_def a1_def Cons pb1)
      ultimately show ?thesis using cen pb1 by (intro exI [of _ b1] exI [of _ a1] exI [of _ ?C]) (simp add: ba_inv_def)
    next
      case full: True
      have lC: "length (?C f) = ?N" using full by simp
      show ?thesis
      proof (cases "free_size a + 1 \<ge> collect_factor a")
        case True
        define a2 where "a2 = a\<lparr>free_size := free_size a + 1 - fl_size fl', ta_recover := fs\<rparr>"
        have u: "unat (free_size a + 1 - fl_size fl') = total C (ta_free_list a)"
          using fs1 fsz p(3) full by (subst unat_sub_le) (auto simp: word_le_nat_alt)
        have "thread_allocator_dealloc b a x = Some (give_back_to_central b1 f, a2)"
          using Cons p(1,2) eq full True by (simp add: thread_allocator_dealloc_def b1_def a2_def Let_def)
        moreover have "cache_ok ?N a2 ?C (length (remove1 x out))"
          using frl fsr fs_hd u cnt lo fsz full unfolding cache_ok_def a2_def
          by (simp del: fun_upd_apply add: algebra_simps)
        moreover have "store_ok (give_back_to_central b1 f) (lists (give_back_to_central b1 f) a2) ?C (remove1 x out)"
        proof -
          have "store_ok b1 (lists (give_back_to_central b1 f) a2) ?C (remove1 x out)"
            by (rule store_ok_perm [OF ok1]) (simp add: lists_def a2_def give_back_to_central_def pb1)
          then show ?thesis by (simp add: store_ok_def give_back_to_central_def per_block_def)
        qed
        moreover have "per_block (give_back_to_central b1 f) = ?N" "obj_size (give_back_to_central b1 f) = obj_size b"
          using pb1 by (simp_all add: give_back_to_central_def per_block_def)
        moreover have "\<forall>g \<in> set (central_free_list (give_back_to_central b1 f)). length (?C g) = ?N"
          using cen lC pb1(2) by (auto simp: give_back_to_central_def)
        ultimately show ?thesis
          by (intro exI [of _ "give_back_to_central b1 f"] exI [of _ a2] exI [of _ ?C]) (simp add: ba_inv_def)
      next
        case False
        define a2 where "a2 = a\<lparr>free_size := free_size a + 1, ta_recover := fs, ta_free_list := ta_free_list a @ [f]\<rparr>"
        have lt: "Suc (unat (free_size a)) < 2 * ?N" using False fs1 frl(4) by (simp add: word_le_nat_alt)
        have len2: "length (ta_free_list a) \<le> 1"
        proof (rule ccontr)
          assume "\<not> ?thesis"
          then obtain g g' where gg: "ta_free_list a = [g, g']"
            using frl(3) by (cases "ta_free_list a"; cases "tl (ta_free_list a)") auto
          then have "C g \<noteq> []" "length (C g') = ?N" using ca by (auto simp: cache_ok_def)
          then have "?N < total C (ta_free_list a)" using gg by (cases "C g") auto
          then show False using lt fsz full by simp
        qed
        have "thread_allocator_dealloc b a x = Some (b1, a2)"
          using Cons p(1,2) eq full False by (simp add: thread_allocator_dealloc_def b1_def a2_def Let_def)
        moreover have "cache_ok ?N a2 ?C (length (remove1 x out))"
        proof -
          have "\<forall>h \<in> set (ta_free_list a @ [f]). ?C h \<noteq> [] \<and> length (?C h) \<le> ?N" using frl(1) lC by auto
          moreover have "\<forall>h \<in> set (tl (ta_free_list a @ [f])). length (?C h) = ?N"
            using frl(2) lC by (cases "ta_free_list a") auto
          moreover have "unat (free_size a + 1) = total ?C (ta_free_list a @ [f])"
            using fs1 fsz fsr(3) by (simp del: fun_upd_apply add: fun_upd_same)
          moreover have "total ?C (f # fs) = total ?C [f]" using fsr(2) by simp
          ultimately show ?thesis
            using frl(4) fsr fs_hd cnt lo len2 fs1 unfolding cache_ok_def a2_def
            by (simp del: fun_upd_apply total_simps add: total_simps(3) algebra_simps)
        qed
        moreover have "store_ok b1 (lists b1 a2) ?C (remove1 x out)"
          by (rule store_ok_perm [OF ok1]) (simp add: lists_def a2_def pb1)
        ultimately show ?thesis using cen pb1 by (intro exI [of _ b1] exI [of _ a2] exI [of _ ?C]) (simp add: ba_inv_def)
      qed
    qed
  next
    case Nil
    have cnt: "length out + total C (ta_free_list a) = ?N * length (ta_free_list a)"
      using ca Nil by (simp add: cache_ok_def)
    obtain f rest where fr: "ta_free_list a = f # rest" using cnt lo by (cases "ta_free_list a") auto
    let ?T = "rest @ central_free_list b" and ?C = "C(f := C f @ [x])"
    have full: "total C rest = ?N * length rest" by (rule total_full) (use ca fr in \<open>simp add: cache_ok_def\<close>)
    have room: "length (C f) < ?N" using cnt fr full lo by simp
    have okf: "store_ok b (f # ?T) C out" using ok fr Nil by (simp add: lists_def)
    obtain fl fl' h' where p: "fls b f = Some fl" "free_list_put (fl, objs b) x = Some (fl', h')"
      "store_ok (b\<lparr>fls := (fls b)(f \<mapsto> fl'), objs := h'\<rparr>) (f # ?T) ?C (remove1 x out)"
      using store_ok_put [OF okf x room] by blast
    define b1 where "b1 = b\<lparr>fls := (fls b)(f \<mapsto> fl'), objs := h'\<rparr>"
    define a1 where "a1 = a\<lparr>free_size := free_size a + 1\<rparr>"
    have fT: "f \<notin> set ?T" using okf by (auto simp: store_ok_def)
    have same: "?C h = C h" if "h \<in> set ?T" for h using that fT by auto
    have "cache_ok ?N a1 ?C (length (remove1 x out))"
    proof -
      have "\<forall>h \<in> set (f # rest). ?C h \<noteq> [] \<and> length (?C h) \<le> ?N" using ca fr same room by (auto simp: cache_ok_def)
      moreover have "\<forall>h \<in> set rest. length (?C h) = ?N" using ca fr same by (auto simp: cache_ok_def)
      moreover have "total ?C (f # rest) = Suc (total C (f # rest))" using fT by simp
      ultimately show ?thesis
        using ca fr Nil fs1 cnt lo unfolding cache_ok_def a1_def by (simp del: fun_upd_apply total_simps(2))
    qed
    moreover have "store_ok b1 (lists b1 a1) ?C (remove1 x out)"
      using p(3) fr Nil by (simp add: b1_def lists_def a1_def)
    moreover have "\<forall>g \<in> set (central_free_list b). length (?C g) = ?N" using ce same by auto
    moreover have "thread_allocator_dealloc b a x = Some (b1, a1)"
      using Nil fr p(1,2) by (simp add: thread_allocator_dealloc_def b1_def a1_def)
    ultimately show ?thesis
      by (intro exI [of _ b1] exI [of _ a1] exI [of _ ?C]) (simp add: ba_inv_def b1_def per_block_def)
  qed
qed

section \<open>Objects do not overlap\<close>

definition aligned :: "block_obj_allocator \<Rightarrow> addr \<Rightarrow> bool" where
  "aligned b x \<longleftrightarrow> x mod unat (obj_size b) = 1 mod unat (obj_size b)"

definition aligned_store :: "block_obj_allocator \<Rightarrow> bool" where
  "aligned_store b \<longleftrightarrow> (\<forall>x \<in> dom (objs b). aligned b x) \<and> aligned b (next_mem b) \<and>
     unat (obj_size b) dvd DEFAULT_BLOCK_SIZE"

lemma free_list_put_dom: "free_list_put (f, h) x = Some (f', h') \<Longrightarrow> dom h' = insert x (dom h)"
  by (auto simp: free_list_put_def Let_def assert_c_def split: if_splits option.splits)

lemma free_list_get_dom: "free_list_get (f, h) = Some ((f', h'), x) \<Longrightarrow> h' = h \<and> x \<in> dom h"
  by (auto simp: free_list_get_def Let_def bind_eq_Some_conv split: if_splits option.splits)

lemma push_all_dom: "push_all free_list_put (f, h) ns = Some (f', h') \<Longrightarrow> dom h' = dom h \<union> set ns"
proof (induction ns arbitrary: f h)
  case (Cons n ns)
  then obtain f1 h1 where 1: "free_list_put (f, h) n = Some (f1, h1)" "push_all free_list_put (f1, h1) ns = Some (f', h')"
    by (auto simp: bind_eq_Some_conv)
  then show ?case using Cons.IH [OF 1(2)] free_list_put_dom [OF 1(1)] by auto
qed simp

lemma central_get_aligned:
  assumes "central_get_freelist b = Some (b', f)" "aligned_store b"
  shows "aligned_store b' \<and> dom (objs b) \<subseteq> dom (objs b') \<and> caches b' = caches b \<and> mt_mode b' = mt_mode b \<and>
    obj_size b' = obj_size b"
proof (cases "central_free_list b")
  case Nil
  let ?bs = "block_objects (next_mem b) (obj_size b) (unat (word_of_nat (DEFAULT_BLOCK_SIZE div unat (obj_size b)) :: u32))"
  obtain fl h where c: "creat_new_freelist (next_mem b) (obj_size b) (objs b) = Some (fl, h)"
    and b': "b' = b\<lparr>fls := (fls b)(next_fl b \<mapsto> fl), objs := h, next_mem := next_mem b + DEFAULT_BLOCK_SIZE,
       next_fl := Suc (next_fl b)\<rparr>"
    using assms(1) Nil by (auto simp: central_get_freelist_def bind_eq_Some_conv)
  have d: "dom h = dom (objs b) \<union> set ?bs"
    using c by (auto simp: creat_new_freelist_def Let_def bind_eq_Some_conv split: if_splits dest!: push_all_dom)
  have al: "x mod unat (obj_size b) = 1 mod unat (obj_size b)" if x: "x \<in> set ?bs" for x
  proof -
    obtain i where "x = next_mem b + i * unat (obj_size b)" using x by (auto simp: block_objects_def)
    then show ?thesis using assms(2) by (simp add: aligned_store_def aligned_def)
  qed
  have nm: "(next_mem b + DEFAULT_BLOCK_SIZE) mod unat (obj_size b) = 1 mod unat (obj_size b)"
  proof -
    have "DEFAULT_BLOCK_SIZE mod unat (obj_size b) = 0" "next_mem b mod unat (obj_size b) = 1 mod unat (obj_size b)"
      using assms(2) unfolding aligned_store_def aligned_def by (simp_all only: mod_eq_0_iff_dvd)
    then show ?thesis by (metis mod_add_right_eq add_0_right)
  qed
  show ?thesis using assms(2) b' d al nm unfolding aligned_store_def aligned_def by auto
next
  case (Cons f fs)
  then show ?thesis using assms by (auto simp: central_get_freelist_def aligned_store_def aligned_def)
qed

lemma alloc_aligned:
  assumes "thread_allocator_alloc b a = Some (b', a', x)" "aligned_store b"
  shows "aligned_store b' \<and> dom (objs b) \<subseteq> dom (objs b') \<and> x \<in> dom (objs b') \<and> caches b' = caches b \<and>
    mt_mode b' = mt_mode b \<and> obj_size b' = obj_size b"
proof -
  obtain b1 a1 f fl fl1 h1 where s: "select_list b a = Some (b1, a1, f)" "fls b1 f = Some fl"
    "free_list_get (fl, objs b1) = Some ((fl1, h1), x)" "b' = b1\<lparr>fls := (fls b1)(f \<mapsto> fl1), objs := h1\<rparr>"
    using assms(1) unfolding thread_allocator_alloc_def by (fold select_list_def) (auto simp: bind_eq_Some_conv Let_def)
  have "aligned_store b1 \<and> dom (objs b) \<subseteq> dom (objs b1) \<and> caches b1 = caches b \<and> mt_mode b1 = mt_mode b \<and>
    obj_size b1 = obj_size b"
  proof (cases "free_size a = 0")
    case True
    then have "central_get_freelist b = Some (b1, f)"
      using s(1) by (auto simp: select_list_def bind_eq_Some_conv)
    then show ?thesis using central_get_aligned assms(2) by blast
  next
    case False
    then show ?thesis using s(1) assms(2) by (auto simp: select_list_def split: list.splits)
  qed
  then show ?thesis using s(4) free_list_get_dom [OF s(3)] by (auto simp: aligned_store_def aligned_def)
qed

lemma dealloc_aligned:
  assumes "thread_allocator_dealloc b a x = Some (b', a')" "aligned_store b" "x \<in> dom (objs b)"
  shows "aligned_store b' \<and> dom (objs b) \<subseteq> dom (objs b') \<and> caches b' = caches b \<and> mt_mode b' = mt_mode b \<and>
    obj_size b' = obj_size b"
proof -
  have "\<exists>fl fl1. free_list_put (fl, objs b) x = Some (fl1, objs b') \<and> next_mem b' = next_mem b \<and>
      caches b' = caches b \<and> mt_mode b' = mt_mode b \<and> obj_size b' = obj_size b"
  proof (cases "ta_recover a")
    case Nil
    then show ?thesis using assms(1)
      by (auto simp: thread_allocator_dealloc_def bind_eq_Some_conv split: list.splits) blast
  next
    case (Cons f fs)
    then obtain fl fl1 h1 where 1: "free_list_put (fl, objs b) x = Some (fl1, h1)"
      "b' = b\<lparr>fls := (fls b)(f \<mapsto> fl1), objs := h1\<rparr> \<or> b' = give_back_to_central (b\<lparr>fls := (fls b)(f \<mapsto> fl1), objs := h1\<rparr>) f"
      using assms(1) unfolding thread_allocator_dealloc_def Let_def
      by (auto simp: bind_eq_Some_conv simp del: block_obj_allocator.simps split: if_splits)
    from 1(2) have "objs b' = h1 \<and> next_mem b' = next_mem b \<and> caches b' = caches b \<and> mt_mode b' = mt_mode b \<and>
      obj_size b' = obj_size b" by (auto simp: give_back_to_central_def)
    then show ?thesis using 1(1) by blast
  qed
  then obtain fl fl1 where put: "free_list_put (fl, objs b) x = Some (fl1, objs b')" and
    rest: "next_mem b' = next_mem b" "caches b' = caches b" "mt_mode b' = mt_mode b" "obj_size b' = obj_size b" by blast
  have "dom (objs b') = dom (objs b)" using free_list_put_dom [OF put] assms(3) by auto
  then show ?thesis using assms(2) rest by (simp add: aligned_store_def aligned_def)
qed

section \<open>One thread using an allocator\<close>

text \<open>
  \<open>ba_run m sz tid (b, out)\<close>: thread \<open>tid\<close> has created an allocator for objects of \<open>sz\<close> bytes, has
  allocated and freed objects, and holds the objects \<open>out\<close>.
\<close>

inductive ba_run :: "bool \<Rightarrow> u32 \<Rightarrow> nat \<Rightarrow> block_obj_allocator \<times> addr list \<Rightarrow> bool" for m sz tid where
  create: "create_block_obj_allocator m sz = Some b \<Longrightarrow> ba_run m sz tid (b, [])"
| alloc: "ba_run m sz tid (b, out) \<Longrightarrow> block_obj_al_alloc b tid = Some (b', x) \<Longrightarrow> ba_run m sz tid (b', x # out)"
| free: "ba_run m sz tid (b, out) \<Longrightarrow> x \<in> set out \<Longrightarrow> block_obj_al_dealloc b tid x = Some b' \<Longrightarrow>
    ba_run m sz tid (b', remove1 x out)"

definition the_cache :: "block_obj_allocator \<Rightarrow> nat \<Rightarrow> thread_allocator option" where
  "the_cache b tid =
     (case caches b (cache_key b tid) of None \<Rightarrow> create_thread_allocator b | Some ta \<Rightarrow> Some ta)"

definition run_inv :: "nat \<Rightarrow> block_obj_allocator \<Rightarrow> addr list \<Rightarrow> bool" where
  "run_inv tid b out \<longleftrightarrow> aligned_store b \<and> set out \<subseteq> dom (objs b) \<and> (out \<noteq> [] \<longrightarrow> caches b (cache_key b tid) \<noteq> None) \<and>
     (\<exists>a C. the_cache b tid = Some a \<and> ba_inv b a C out)"

lemma inv_dom: "run_inv tid b out \<Longrightarrow> set out \<subseteq> dom (objs b)"
  by (simp add: run_inv_def)

lemma ba_inv_caches: "ba_inv (b\<lparr>caches := c\<rparr>) a C out = ba_inv b a C out"
  by (simp add: ba_inv_def store_ok_def per_block_def lists_def)

lemma run_inv_alloc:
  assumes "run_inv tid b out"
  shows "\<exists>b' x. block_obj_al_alloc b tid = Some (b', x) \<and> x \<noteq> NULL \<and> x \<notin> set out \<and> run_inv tid b' (x # out) \<and>
    obj_size b' = obj_size b"
proof -
  obtain a C where a: "the_cache b tid = Some a" "ba_inv b a C out" using assms by (auto simp: run_inv_def)
  obtain b1 a1 C1 x where 1: "thread_allocator_alloc b a = Some (b1, a1, x)" "x \<noteq> NULL" "x \<notin> set out"
    "ba_inv b1 a1 C1 (x # out)" using alloc_law [OF a(2)] by blast
  have al: "aligned_store b1" "dom (objs b) \<subseteq> dom (objs b1)" "x \<in> dom (objs b1)" "caches b1 = caches b"
    "mt_mode b1 = mt_mode b" "obj_size b1 = obj_size b"
    using alloc_aligned [OF 1(1)] assms by (auto simp: run_inv_def)
  define b2 where "b2 = b1\<lparr>caches := (caches b1)(cache_key b tid \<mapsto> a1)\<rparr>"
  have "block_obj_al_alloc b tid = Some (b2, x)"
    using a(1) 1(1) by (simp add: block_obj_al_alloc_def the_cache_def b2_def)
  moreover have "set (x # out) \<subseteq> dom (objs b2)"
    using al(2,3) inv_dom [OF assms] unfolding b2_def by auto
  moreover have "aligned_store b2" "cache_key b2 tid = cache_key b tid" "obj_size b2 = obj_size b"
    using al by (simp_all add: b2_def aligned_store_def aligned_def cache_key_def)
  moreover have "the_cache b2 tid = Some a1" "caches b2 (cache_key b tid) \<noteq> None"
    using al(5) by (simp_all add: the_cache_def b2_def cache_key_def)
  moreover have "ba_inv b2 a1 C1 (x # out)" using 1(4) by (simp add: b2_def ba_inv_caches)
  ultimately show ?thesis using 1(2,3) unfolding run_inv_def by auto
qed

lemma run_inv_free:
  assumes inv: "run_inv tid b out" and x: "x \<in> set out"
  shows "\<exists>b'. block_obj_al_dealloc b tid x = Some b' \<and> run_inv tid b' (remove1 x out) \<and> obj_size b' = obj_size b"
proof -
  obtain a C where a: "the_cache b tid = Some a" "ba_inv b a C out" using inv by (auto simp: run_inv_def)
  have ne: "caches b (cache_key b tid) = Some a" using inv x a(1) by (cases out) (auto simp: run_inv_def the_cache_def)
  obtain b1 a1 C1 where 1: "thread_allocator_dealloc b a x = Some (b1, a1)" "ba_inv b1 a1 C1 (remove1 x out)"
    using dealloc_law [OF a(2) x] by blast
  have xd: "x \<in> dom (objs b)" using inv x by (auto simp: run_inv_def)
  have al: "aligned_store b1" "dom (objs b) \<subseteq> dom (objs b1)" "caches b1 = caches b"
    "mt_mode b1 = mt_mode b" "obj_size b1 = obj_size b"
    using dealloc_aligned [OF 1(1) _ xd] inv by (auto simp: run_inv_def)
  define b2 where "b2 = b1\<lparr>caches := (caches b1)(cache_key b tid \<mapsto> a1)\<rparr>"
  have "block_obj_al_dealloc b tid x = Some b2"
    using ne 1(1) by (simp add: block_obj_al_dealloc_def b2_def)
  moreover have "set (remove1 x out) \<subseteq> dom (objs b2)"
    using al(2) inv_dom [OF inv] set_remove1_subset [of x out] unfolding b2_def by auto
  moreover have "aligned_store b2" "cache_key b2 tid = cache_key b tid" "obj_size b2 = obj_size b"
    using al by (simp_all add: b2_def aligned_store_def aligned_def cache_key_def)
  moreover have "the_cache b2 tid = Some a1" "caches b2 (cache_key b tid) \<noteq> None"
    using al(4) by (simp_all add: the_cache_def b2_def cache_key_def)
  moreover have "ba_inv b2 a1 C1 (remove1 x out)" using 1(2) by (simp add: b2_def ba_inv_caches)
  ultimately show ?thesis unfolding run_inv_def by auto
qed

lemma create_run_inv:
  assumes c: "create_block_obj_allocator m sz = Some b" and sz: "unat sz \<le> DEFAULT_BLOCK_SIZE"
  shows "run_inv tid b [] \<and> unat sz \<le> unat (obj_size b)"
proof -
  define sz1 where "sz1 = (if sz < 8 then 8 else sz)"
  define k where "k = unat (GetK sz1)"
  have s1: "8 \<le> unat sz1" "unat sz1 \<le> 2 ^ 20" "unat sz \<le> unat sz1"
    using sz by (auto simp: sz1_def word_le_nat_alt word_less_nat_alt)
  then have "1 \<le> sz1" "sz1 \<le> 2 ^ 31" by (simp_all add: word_le_nat_alt)
  from GetSize_of_pow2_law [OF this] have pow: "unat sz1 \<le> 2 ^ k" "2 ^ k < 2 * unat sz1"
    by (simp_all add: k_def word_le_nat_alt)
  have "(2::nat) ^ k < 2 ^ 21" using pow(2) s1(2) by simp
  then have "k < 21" by (rule power_less_imp_less_exp [rotated]) simp
  then have k: "k \<le> 20" by simp
  then have u: "unat (2 ^ k :: u32) = 2 ^ k" by (intro unat_power2) simp
  have b: "b = \<lparr>fls = Map.empty, objs = Map.empty, caches = Map.empty, central_free_list = [],
           obj_size = 2 ^ k, mt_mode = m, next_mem = 1, next_fl = 1\<rparr>"
    using c by (auto simp: create_block_obj_allocator_def Let_def sz1_def k_def assert_c_def bind_eq_Some_conv split: if_splits)
  have k20: "(2::nat) ^ k dvd 2 ^ 20" by (rule le_imp_power_dvd [OF k])
  have le: "(2::nat) ^ k \<le> 2 ^ 20" by (rule dvd_imp_le [OF k20]) simp
  have "unat (word_of_nat (DEFAULT_BLOCK_SIZE * 2) div 2 ^ k :: u32) = 2 * (2 ^ 20 div 2 ^ k)"
    using k20 by (simp add: unat_div_word u div_mult_swap)
  moreover have "2 ^ k \<noteq> (0 :: u32)" using u by (metis unat_0 power_not_zero zero_neq_numeral)
  ultimately show ?thesis
    using s1 pow(1) le k20 unfolding b run_inv_def the_cache_def create_thread_allocator_def
    by (auto simp: aligned_store_def aligned_def ba_inv_def store_ok_def lists_def cache_ok_def per_block_def u)
qed

lemma ba_run_inv:
  assumes "ba_run m sz tid s" "unat sz \<le> DEFAULT_BLOCK_SIZE"
  shows "run_inv tid (fst s) (snd s) \<and> unat sz \<le> unat (obj_size (fst s))"
  using assms
proof (induction rule: ba_run.induct)
  case (create b)
  then show ?case using create_run_inv by simp
next
  case (alloc b out b' x)
  then show ?case using run_inv_alloc [of tid b out] by auto
next
  case (free b out x b')
  then show ?case using run_inv_free [of tid b out x] by auto
qed

lemma aligned_apart:
  assumes "aligned b x" "aligned b y" "x < y"
  shows "x + unat (obj_size b) \<le> y"
proof -
  have "unat (obj_size b) dvd y - x" using assms by (metis aligned_def less_imp_le mod_eq_dvd_iff_nat)
  then show ?thesis using assms(3) by (auto dest!: dvd_imp_le)
qed

text \<open>
  Claim C17. One thread that creates an allocator for objects of up to 1 MiB and then allocates and
  frees in any order: every allocation succeeds and yields a non-null object that is not in use,
  every object in use can be freed, and the objects in use are at least as large as asked for and do
  not overlap.
\<close>

theorem block_alloc_safe:
  assumes "ba_run m sz tid (b, out)" "unat sz \<le> DEFAULT_BLOCK_SIZE"
  shows "(\<exists>b' x. block_obj_al_alloc b tid = Some (b', x) \<and> x \<noteq> NULL \<and> x \<notin> set out) \<and>
    (\<forall>x \<in> set out. block_obj_al_dealloc b tid x \<noteq> None) \<and>
    distinct out \<and> unat sz \<le> unat (obj_size b) \<and>
    (\<forall>x \<in> set out. \<forall>y \<in> set out. x < y \<longrightarrow> x + unat (obj_size b) \<le> y)"
proof -
  have inv: "run_inv tid b out" "unat sz \<le> unat (obj_size b)" using ba_run_inv [OF assms] by auto
  have "distinct out" using inv(1) by (auto simp: run_inv_def ba_inv_def store_ok_def)
  moreover have "\<forall>x \<in> set out. aligned b x" using inv(1) by (auto simp: run_inv_def aligned_store_def)
  moreover have "\<forall>x \<in> set out. block_obj_al_dealloc b tid x \<noteq> None" using run_inv_free [OF inv(1)] by auto
  ultimately show ?thesis using run_inv_alloc [OF inv(1)] inv(2) aligned_apart [of b] by blast
qed

lemma GetK_8: "GetK 8 = 3"
  by code_simp

definition ba_sample :: block_obj_allocator where
  "ba_sample = \<lparr>fls = Map.empty, objs = Map.empty, caches = Map.empty, central_free_list = [],
     obj_size = 8, mt_mode = True, next_mem = 1, next_fl = 1\<rparr>"

lemma ba_sample_create: "create_block_obj_allocator True 8 = Some ba_sample"
  by (simp add: create_block_obj_allocator_def GetK_8 ba_sample_def)

theorem block_alloc_safe_witness:
  "\<exists>b x b' y. block_obj_al_alloc ba_sample 7 = Some (b, x) \<and> block_obj_al_alloc b 7 = Some (b', y) \<and> y \<noteq> x \<and>
    block_obj_al_dealloc b 7 x \<noteq> None"
proof -
  note start = ba_run.create [OF ba_sample_create, of 7]
  obtain b x where 1: "block_obj_al_alloc ba_sample 7 = Some (b, x)"
    using block_alloc_safe [OF start] by auto
  from block_alloc_safe [OF ba_run.alloc [OF start 1]]
  obtain b' y where "block_obj_al_alloc b 7 = Some (b', y)" "y \<noteq> x" "block_obj_al_dealloc b 7 x \<noteq> None" by auto
  with 1 show ?thesis by blast
qed

text \<open>
  An allocator for objects of more than 1 MiB can be created, but its first allocation
  fails: a block holds no such object, so the new free list is empty and its null head is read.
\<close>

theorem block_alloc_large_objects:
  assumes "DEFAULT_BLOCK_SIZE < unat sz" "unat sz \<le> 2 ^ 30"
  shows "\<exists>b. create_block_obj_allocator m sz = Some b \<and> block_obj_al_alloc b tid = None"
proof -
  define k where "k = unat (GetK sz)"
  have "1 \<le> sz" "sz \<le> 2 ^ 31" using assms by (simp_all add: word_le_nat_alt)
  from GetSize_of_pow2_law [OF this] have pow: "unat sz \<le> 2 ^ k" "2 ^ k < 2 * unat sz"
    by (simp_all add: k_def word_le_nat_alt)
  have "(2::nat) ^ k < 2 ^ 31" using pow(2) assms(2) by simp
  then have k: "k < 31" by (rule power_less_imp_less_exp [rotated]) simp
  then have u: "unat (2 ^ k :: u32) = 2 ^ k" by (intro unat_power2) simp
  have k0: "DEFAULT_BLOCK_SIZE div 2 ^ k = 0" using pow(1) assms(1) by simp
  define b where "b = \<lparr>fls = Map.empty, objs = Map.empty, caches = Map.empty, central_free_list = [],
           obj_size = 2 ^ k, mt_mode = m, next_mem = 1, next_fl = 1\<rparr>"
  have nz: "2 ^ k \<noteq> (0 :: u32)" using u by (metis unat_0 power_not_zero zero_neq_numeral)
  have "\<not> sz < 8" using assms(1) by (simp add: word_less_nat_alt)
  then have "create_block_obj_allocator m sz = Some b"
    using k by (simp add: create_block_obj_allocator_def b_def k_def)
  moreover have "creat_new_freelist 1 (2 ^ k) Map.empty = Some (\<lparr>fl_size = 0, fl_init_size = 0, fl_head = NULL, fl_tail = NULL, fl_mem = 1\<rparr>, Map.empty)"
    using nz k0 by (simp add: creat_new_freelist_def u block_objects_def)
  then have "block_obj_al_alloc b tid = None"
    using nz by (simp add: block_obj_al_alloc_def b_def create_thread_allocator_def thread_allocator_alloc_def
        central_get_freelist_def free_list_get_def)
  ultimately show ?thesis by blast
qed

theorem block_alloc_large_objects_witness:
  "\<exists>b. create_block_obj_allocator False 2000000 = Some b \<and> block_obj_al_alloc b 1 = None"
  by (rule block_alloc_large_objects) simp_all

end
