(* ===== verification/RBtree.thy ===== *)
theory RBtree
  imports Prelude
begin

text \<open>
  The red-black tree (\<open>src/RBtree.c\<close>) and the map on top of it (\<open>src/map.c\<close>): nodes with parent
  pointers in an explicit store, one of them the sentinel \<open>nil\<close>. Keys and values are copied into the
  nodes; the comparison function is a parameter. The addresses that \<open>malloc\<close> returns and the
  uninitialised fields of the sentinel are arguments.
\<close>

datatype color = RED | BLACK

record 'e rbnode =
  rparent :: addr
  rleft :: addr
  rright :: addr
  rcolor :: color
  rdata :: 'e

record 'e rbtree =
  rnodes :: "addr \<rightharpoonup> 'e rbnode"
  rroot :: addr
  nil :: addr
  rsize :: u32

type_synonym ('k, 'v) rb = "('k \<times> 'v) rbtree"

text \<open>Writing a field through a pointer.\<close>

definition upd :: "'e rbtree \<Rightarrow> addr \<Rightarrow> ('e rbnode \<Rightarrow> 'e rbnode) \<Rightarrow> 'e rbtree option" where
  "upd t p f = (case rnodes t p of None \<Rightarrow> None | Some n \<Rightarrow> Some (t\<lparr>rnodes := (rnodes t)(p \<mapsto> f n)\<rparr>))"

definition set_parent :: "'e rbtree \<Rightarrow> addr \<Rightarrow> addr \<Rightarrow> 'e rbtree option" where
  "set_parent t p q = upd t p (\<lambda>n. n\<lparr>rparent := q\<rparr>)"

definition set_left :: "'e rbtree \<Rightarrow> addr \<Rightarrow> addr \<Rightarrow> 'e rbtree option" where
  "set_left t p q = upd t p (\<lambda>n. n\<lparr>rleft := q\<rparr>)"

definition set_right :: "'e rbtree \<Rightarrow> addr \<Rightarrow> addr \<Rightarrow> 'e rbtree option" where
  "set_right t p q = upd t p (\<lambda>n. n\<lparr>rright := q\<rparr>)"

definition set_color :: "'e rbtree \<Rightarrow> addr \<Rightarrow> color \<Rightarrow> 'e rbtree option" where
  "set_color t p c = upd t p (\<lambda>n. n\<lparr>rcolor := c\<rparr>)"

definition get_key :: "('k \<times> 'v) rbnode \<Rightarrow> 'k" where
  "get_key n = fst (rdata n)"

definition get_value :: "('k \<times> 'v) rbnode \<Rightarrow> 'v" where
  "get_value n = snd (rdata n)"

definition copy_key :: "('k, 'v) rb \<Rightarrow> addr \<Rightarrow> 'k \<Rightarrow> ('k, 'v) rb option" where
  "copy_key t p k = upd t p (\<lambda>n. n\<lparr>rdata := (k, snd (rdata n))\<rparr>)"

definition copy_value :: "('k, 'v) rb \<Rightarrow> addr \<Rightarrow> 'v \<Rightarrow> ('k, 'v) rb option" where
  "copy_value t p v = upd t p (\<lambda>n. n\<lparr>rdata := (fst (rdata n), v)\<rparr>)"

definition key_less :: "('k \<Rightarrow> 'k \<Rightarrow> int) \<Rightarrow> 'k \<Rightarrow> 'k \<Rightarrow> bool" where
  "key_less cmp l r \<longleftrightarrow> cmp l r = -1"

definition key_equal :: "('k \<Rightarrow> 'k \<Rightarrow> int) \<Rightarrow> 'k \<Rightarrow> 'k \<Rightarrow> bool" where
  "key_equal cmp l r \<longleftrightarrow> cmp l r = 0"

text \<open>
  \<open>RBtree_create\<close>: only the colour of the sentinel is set, its other fields are whatever \<open>malloc\<close>
  left there.
\<close>

definition RBtree_create :: "addr \<Rightarrow> 'e rbnode \<Rightarrow> 'e rbtree" where
  "RBtree_create z junk = \<lparr>rnodes = [z \<mapsto> junk\<lparr>rcolor := BLACK\<rparr>], rroot = z, nil = z, rsize = 0\<rparr>"

section \<open>Rotations and insertion\<close>

text \<open>The part of both rotations that lets the parent of \<open>n\<close>, or the root, point to \<open>q\<close>.\<close>

definition relink :: "'e rbtree \<Rightarrow> addr \<Rightarrow> addr \<Rightarrow> addr \<Rightarrow> 'e rbtree option" where
  "relink t n par q =
     (if n = rroot t then Some (t\<lparr>rroot := q\<rparr>)
      else do {
        pn \<leftarrow> rnodes t par;
        if n = rleft pn then set_left t par q else set_right t par q })"

definition rotate_left :: "'e rbtree \<Rightarrow> addr \<Rightarrow> 'e rbtree option" where
  "rotate_left t n = do {
     nn \<leftarrow> rnodes t n;
     let par = rparent nn;
     let right = rright nn;
     if right = nil t then Some t
     else do {
       rn \<leftarrow> rnodes t right;
       t1 \<leftarrow> set_right t n (rleft rn);
       rn1 \<leftarrow> rnodes t1 right;
       t2 \<leftarrow> set_parent t1 (rleft rn1) n;
       t3 \<leftarrow> relink t2 n par right;
       t4 \<leftarrow> set_parent t3 right par;
       t5 \<leftarrow> set_parent t4 n right;
       set_left t5 right n } }"

definition rotate_right :: "'e rbtree \<Rightarrow> addr \<Rightarrow> 'e rbtree option" where
  "rotate_right t n = do {
     nn \<leftarrow> rnodes t n;
     let par = rparent nn;
     let left = rleft nn;
     if left = nil t then Some t
     else do {
       ln \<leftarrow> rnodes t left;
       t1 \<leftarrow> set_left t n (rright ln);
       ln1 \<leftarrow> rnodes t1 left;
       t2 \<leftarrow> set_parent t1 (rright ln1) n;
       t3 \<leftarrow> relink t2 n par left;
       t4 \<leftarrow> set_parent t3 left par;
       t5 \<leftarrow> set_parent t4 n left;
       set_right t5 left n } }"

text \<open>The test of \<open>color_flip\<close> is against null pointers.\<close>

definition color_flip :: "'e rbtree \<Rightarrow> addr \<Rightarrow> 'e rbtree option" where
  "color_flip t n = do {
     nn \<leftarrow> rnodes t n;
     if rleft nn \<noteq> NULL \<and> rright nn \<noteq> NULL
     then do {
       t1 \<leftarrow> set_color t n RED;
       t2 \<leftarrow> set_color t1 (rright nn) BLACK;
       set_color t2 (rleft nn) BLACK }
     else Some t }"

text \<open>\<open>n->parent->color = BLACK; n->parent->parent->color = RED\<close>, returning \<open>n->parent->parent\<close>.\<close>

definition fix_recolor :: "'e rbtree \<Rightarrow> addr \<Rightarrow> ('e rbtree \<times> addr) option" where
  "fix_recolor t n = do {
     nn \<leftarrow> rnodes t n;
     t1 \<leftarrow> set_color t (rparent nn) BLACK;
     pn \<leftarrow> rnodes t1 (rparent nn);
     t2 \<leftarrow> set_color t1 (rparent pn) RED;
     nn2 \<leftarrow> rnodes t2 n;
     pn2 \<leftarrow> rnodes t2 (rparent nn2);
     Some (t2, rparent pn2) }"

text \<open>One iteration of the loop of \<open>insert_fix_up\<close>.\<close>

definition insert_fix_step :: "'e rbtree \<Rightarrow> addr \<Rightarrow> ('e rbtree \<times> addr) option" where
  "insert_fix_step t n = do {
     nn \<leftarrow> rnodes t n;
     let par = rparent nn;
     pn \<leftarrow> rnodes t par;
     let grand_parent = rparent pn;
     gn \<leftarrow> rnodes t grand_parent;
     if par = rleft gn
     then do {
       let ancle = rright gn;
       an \<leftarrow> rnodes t ancle;
       if rcolor an = RED
       then do { t1 \<leftarrow> color_flip t grand_parent; Some (t1, grand_parent) }
       else do {
         (t1, n1) \<leftarrow> (if n = rright pn then do { t' \<leftarrow> rotate_left t par; Some (t', par) } else Some (t, n));
         (t2, g) \<leftarrow> fix_recolor t1 n1;
         t3 \<leftarrow> rotate_right t2 g;
         Some (t3, n1) } }
     else do {
       let ancle = rleft gn;
       an \<leftarrow> rnodes t ancle;
       if rcolor an = RED
       then do { t1 \<leftarrow> color_flip t grand_parent; Some (t1, grand_parent) }
       else do {
         (t1, n1) \<leftarrow> (if n = rleft pn then do { t' \<leftarrow> rotate_right t par; Some (t', par) } else Some (t, n));
         (t2, g) \<leftarrow> fix_recolor t1 n1;
         t3 \<leftarrow> rotate_left t2 g;
         Some (t3, n1) } } }"

partial_function (option) insert_fix_loop :: "'e rbtree \<Rightarrow> addr \<Rightarrow> 'e rbtree option" where
  "insert_fix_loop t n = do {
     nn \<leftarrow> rnodes t n;
     pn \<leftarrow> rnodes t (rparent nn);
     if rcolor pn = RED
     then do { (t1, n1) \<leftarrow> insert_fix_step t n; insert_fix_loop t1 n1 }
     else Some t }"

definition insert_fix_up :: "'e rbtree \<Rightarrow> addr \<Rightarrow> 'e rbtree option" where
  "insert_fix_up t n = do { t1 \<leftarrow> insert_fix_loop t n; set_color t1 (rroot t1) BLACK }"

partial_function (option) find_loop ::
    "('k \<Rightarrow> 'k \<Rightarrow> int) \<Rightarrow> ('k, 'v) rb \<Rightarrow> 'k \<Rightarrow> addr \<Rightarrow> addr \<Rightarrow> addr option" where
  "find_loop cmp t key cur pre =
     (if cur = nil t then Some pre
      else do {
        cn \<leftarrow> rnodes t cur;
        if key_equal cmp key (get_key cn) then Some cur
        else find_loop cmp t key (if key_less cmp key (get_key cn) then rleft cn else rright cn) cur })"

definition rb_find :: "('k \<Rightarrow> 'k \<Rightarrow> int) \<Rightarrow> ('k, 'v) rb \<Rightarrow> 'k \<Rightarrow> addr option" where
  "rb_find cmp t key =
     (if rroot t = nil t then Some (nil t) else find_loop cmp t key (rroot t) (rroot t))"

text \<open>\<open>n\<close> is the result of \<open>malloc\<close>, which the code does not check.\<close>

definition create_node :: "('k, 'v) rb \<Rightarrow> addr \<Rightarrow> 'k \<Rightarrow> 'v \<Rightarrow> ('k \<times> 'v) rbnode \<Rightarrow> ('k, 'v) rb option" where
  "create_node t n key val junk =
     (if n = NULL then None else Some (t\<lparr>rnodes := (rnodes t)(n \<mapsto> junk\<lparr>rdata := (key, val)\<rparr>)\<rparr>))"

text \<open>Iterators are node addresses.\<close>

definition RBtree_end :: "'e rbtree \<Rightarrow> addr" where
  "RBtree_end t = nil t"

definition RBtree_find :: "('k \<Rightarrow> 'k \<Rightarrow> int) \<Rightarrow> ('k, 'v) rb \<Rightarrow> 'k \<Rightarrow> addr option" where
  "RBtree_find cmp t key = do {
     n \<leftarrow> rb_find cmp t key;
     if n = nil t then Some (RBtree_end t)
     else do {
       nn \<leftarrow> rnodes t n;
       Some (if \<not> key_equal cmp key (get_key nn) then RBtree_end t else n) } }"

definition RBtree_insert ::
    "('k \<Rightarrow> 'k \<Rightarrow> int) \<Rightarrow> ('k, 'v) rb \<Rightarrow> 'k \<Rightarrow> 'v \<Rightarrow> addr \<Rightarrow> ('k \<times> 'v) rbnode \<Rightarrow> (('k, 'v) rb \<times> addr) option" where
  "RBtree_insert cmp t key val n junk = do {
     x \<leftarrow> rb_find cmp t key;
     xn \<leftarrow> rnodes t x;
     if x \<noteq> nil t \<and> key_equal cmp key (get_key xn) then Some (t, RBtree_end t)
     else do {
       t1 \<leftarrow> create_node t n key val junk;
       t2 \<leftarrow> set_color t1 n RED;
       t3 \<leftarrow> set_right t2 n (nil t);
       t4 \<leftarrow> set_left t3 n (nil t);
       t5 \<leftarrow> (if x = nil t4
              then do { t' \<leftarrow> set_parent t4 n (nil t4); Some (t'\<lparr>rroot := n\<rparr>) }
              else do {
                t' \<leftarrow> set_parent t4 n x;
                xn' \<leftarrow> rnodes t' x;
                if key_less cmp key (get_key xn') then set_left t' x n else set_right t' x n });
       t6 \<leftarrow> insert_fix_up (t5\<lparr>rsize := rsize t5 + 1\<rparr>) n;
       Some (t6, n) } }"

section \<open>Iteration\<close>

partial_function (option) minimum :: "'e rbtree \<Rightarrow> addr \<Rightarrow> addr option" where
  "minimum t n = do { nn \<leftarrow> rnodes t n; if rleft nn \<noteq> nil t then minimum t (rleft nn) else Some n }"

partial_function (option) maxmum :: "'e rbtree \<Rightarrow> addr \<Rightarrow> addr option" where
  "maxmum t n = do { nn \<leftarrow> rnodes t n; if rright nn \<noteq> nil t then maxmum t (rright nn) else Some n }"

partial_function (option) succ_loop :: "'e rbtree \<Rightarrow> addr \<Rightarrow> addr \<Rightarrow> addr option" where
  "succ_loop t n y =
     (if y = nil t then Some y
      else do { yn \<leftarrow> rnodes t y; if n = rright yn then succ_loop t y (rparent yn) else Some y })"

definition successor :: "'e rbtree \<Rightarrow> addr \<Rightarrow> addr option" where
  "successor t n = do {
     nn \<leftarrow> rnodes t n;
     if rright nn \<noteq> nil t then minimum t (rright nn) else succ_loop t n (rparent nn) }"

partial_function (option) pred_loop :: "'e rbtree \<Rightarrow> addr \<Rightarrow> addr \<Rightarrow> addr option" where
  "pred_loop t n y =
     (if y = nil t then Some y
      else do { yn \<leftarrow> rnodes t y; if n = rleft yn then pred_loop t y (rparent yn) else Some y })"

definition predecessor :: "'e rbtree \<Rightarrow> addr \<Rightarrow> addr option" where
  "predecessor t n = do {
     nn \<leftarrow> rnodes t n;
     if rleft nn \<noteq> nil t then maxmum t (rleft nn) else pred_loop t n (rparent nn) }"

definition rb_iter_get_first :: "('k, 'v) rb \<Rightarrow> addr \<Rightarrow> 'k option" where
  "rb_iter_get_first t it = do { n \<leftarrow> rnodes t it; Some (get_key n) }"

definition rb_iter_get_second :: "('k, 'v) rb \<Rightarrow> addr \<Rightarrow> 'v option" where
  "rb_iter_get_second t it = do { n \<leftarrow> rnodes t it; Some (get_value n) }"

definition rb_iter_set_second :: "('k, 'v) rb \<Rightarrow> addr \<Rightarrow> 'v \<Rightarrow> ('k, 'v) rb option" where
  "rb_iter_set_second t it v = copy_value t it v"

definition RB_iter_next :: "'e rbtree \<Rightarrow> addr \<Rightarrow> addr option" where
  "RB_iter_next t it =
     (if it = nil t then Some it
      else do { q \<leftarrow> successor t it; Some (if q = NULL then nil t else q) })"

definition RBtree_begin :: "'e rbtree \<Rightarrow> addr option" where
  "RBtree_begin t = do { m \<leftarrow> minimum t (rroot t); Some (if m = NULL then nil t else m) }"

section \<open>Deletion\<close>

definition get_delete_node :: "'e rbtree \<Rightarrow> addr \<Rightarrow> addr option" where
  "get_delete_node t n = do {
     nn \<leftarrow> rnodes t n;
     if rleft nn = nil t \<and> rright nn = nil t then Some n
     else if rright nn \<noteq> nil t then minimum t (rright nn)
     else maxmum t (rleft nn) }"

text \<open>
  One iteration of the loop of \<open>delete_fix_up\<close>. Lines 372 and 404 are comparisons, not assignments:
  they read a colour and change nothing.
\<close>

definition delete_fix_left :: "'e rbtree \<Rightarrow> addr \<Rightarrow> addr \<Rightarrow> ('e rbtree \<times> addr) option" where
  "delete_fix_left t n p = do {
     pn \<leftarrow> rnodes t p;
     let w0 = rright pn;
     wn0 \<leftarrow> rnodes t w0;
     (t1, w) \<leftarrow> (if rcolor wn0 = RED
                then do {
                  t' \<leftarrow> set_color t w0 BLACK;
                  t' \<leftarrow> set_color t' p RED;
                  t' \<leftarrow> rotate_left t' p;
                  pn' \<leftarrow> rnodes t' p;
                  Some (t', rright pn') }
                else Some (t, w0));
     wn \<leftarrow> rnodes t1 w;
     wl \<leftarrow> rnodes t1 (rleft wn);
     wr \<leftarrow> rnodes t1 (rright wn);
     if rcolor wl = BLACK \<and> rcolor wr = BLACK
     then do { t2 \<leftarrow> set_color t1 w RED; Some (t2, p) }
     else do {
       (t2, w2) \<leftarrow> (if rcolor wr = BLACK
                  then do {
                    t' \<leftarrow> set_color t1 w RED;
                    t' \<leftarrow> rotate_right t' w;
                    pn' \<leftarrow> rnodes t' p;
                    Some (t', rright pn') }
                  else Some (t1, w));
       pn2 \<leftarrow> rnodes t2 p;
       t3 \<leftarrow> set_color t2 w2 (rcolor pn2);
       t4 \<leftarrow> set_color t3 p BLACK;
       wn2 \<leftarrow> rnodes t4 w2;
       t5 \<leftarrow> set_color t4 (rright wn2) BLACK;
       t6 \<leftarrow> rotate_left t5 p;
       Some (t6, rroot t6) } }"

definition delete_fix_right :: "'e rbtree \<Rightarrow> addr \<Rightarrow> addr \<Rightarrow> ('e rbtree \<times> addr) option" where
  "delete_fix_right t n p = do {
     pn \<leftarrow> rnodes t p;
     let w0 = rleft pn;
     wn0 \<leftarrow> rnodes t w0;
     (t1, w) \<leftarrow> (if rcolor wn0 = RED
                then do {
                  t' \<leftarrow> set_color t w0 BLACK;
                  t' \<leftarrow> set_color t' p RED;
                  t' \<leftarrow> rotate_right t' p;
                  pn' \<leftarrow> rnodes t' p;
                  Some (t', rleft pn') }
                else Some (t, w0));
     wn \<leftarrow> rnodes t1 w;
     wl \<leftarrow> rnodes t1 (rleft wn);
     wr \<leftarrow> rnodes t1 (rright wn);
     if rcolor wl = BLACK \<and> rcolor wr = BLACK
     then do { t2 \<leftarrow> set_color t1 w RED; Some (t2, p) }
     else do {
       (t2, w2) \<leftarrow> (if rcolor wl = BLACK
                  then do {
                    t' \<leftarrow> set_color t1 w RED;
                    t' \<leftarrow> rotate_left t' w;
                    pn' \<leftarrow> rnodes t' p;
                    Some (t', rleft pn') }
                  else Some (t1, w));
       pn2 \<leftarrow> rnodes t2 p;
       t3 \<leftarrow> set_color t2 w2 (rcolor pn2);
       t4 \<leftarrow> set_color t3 p BLACK;
       wn2 \<leftarrow> rnodes t4 w2;
       t5 \<leftarrow> set_color t4 (rleft wn2) BLACK;
       t6 \<leftarrow> rotate_right t5 p;
       Some (t6, rroot t6) } }"

partial_function (option) delete_fix_loop :: "'e rbtree \<Rightarrow> addr \<Rightarrow> ('e rbtree \<times> addr) option" where
  "delete_fix_loop t n =
     (if n = rroot t then Some (t, n)
      else do {
        nn \<leftarrow> rnodes t n;
        if rcolor nn = RED then Some (t, n)
        else do {
          pn \<leftarrow> rnodes t (rparent nn);
          (t1, n1) \<leftarrow> (if n = rleft pn then delete_fix_left t n (rparent nn) else delete_fix_right t n (rparent nn));
          delete_fix_loop t1 n1 } })"

definition delete_fix_up :: "'e rbtree \<Rightarrow> addr \<Rightarrow> 'e rbtree option" where
  "delete_fix_up t n = do { (t1, n1) \<leftarrow> delete_fix_loop t n; set_color t1 n1 BLACK }"

text \<open>The unlinking part of \<open>rb_delete\<close>: \<open>link\<close> is the field of the parent that points to \<open>x\<close>.\<close>

definition rb_unlink :: "'e rbtree \<Rightarrow> addr \<Rightarrow> ('e rbtree \<times> addr) option" where
  "rb_unlink t x = do {
     xn \<leftarrow> rnodes t x;
     let par = rparent xn;
     pn \<leftarrow> rnodes t par;
     let z = (if rleft xn \<noteq> nil t then rleft xn else if rright xn \<noteq> nil t then rright xn else nil t);
     t1 \<leftarrow> (if x = rleft pn then set_left t par z else set_right t par z);
     t2 \<leftarrow> set_parent t1 z par;
     Some (t2, z) }"

definition rb_delete :: "('k \<Rightarrow> 'k \<Rightarrow> int) \<Rightarrow> ('k, 'v) rb \<Rightarrow> 'k \<Rightarrow> bool \<Rightarrow> (('k, 'v) rb \<times> addr) option" where
  "rb_delete cmp t key want_succ = do {
     n \<leftarrow> rb_find cmp t key;
     nn \<leftarrow> rnodes t n;
     if key_equal cmp key (get_key nn)
     then do {
       x \<leftarrow> get_delete_node t n;
       xn \<leftarrow> rnodes t x;
       sc \<leftarrow> (if want_succ
              then if x = n \<or> key_less cmp (get_key xn) (get_key nn) then successor t x else Some n
              else Some NULL);
       (t1, z) \<leftarrow> rb_unlink t x;
       t2 \<leftarrow> (if n \<noteq> x
              then do {
                xn1 \<leftarrow> rnodes t1 x;
                t' \<leftarrow> copy_key t1 n (get_key xn1);
                copy_value t' n (get_value xn1) }
              else Some t1);
       xn2 \<leftarrow> rnodes t2 x;
       t3 \<leftarrow> (if x \<noteq> rroot t2 \<and> rcolor xn2 = BLACK then delete_fix_up t2 z else Some t2);
       let t4 = (if x = rroot t3 then t3\<lparr>rroot := nil t3\<rparr> else t3);
       Some (t4\<lparr>rnodes := (rnodes t4)(x := None), rsize := rsize t4 - 1\<rparr>, sc) }
     else Some (t, NULL) }"

definition RBtree_delete :: "('k \<Rightarrow> 'k \<Rightarrow> int) \<Rightarrow> ('k, 'v) rb \<Rightarrow> 'k \<Rightarrow> ('k, 'v) rb option" where
  "RBtree_delete cmp t key = do { (t1, _) \<leftarrow> rb_delete cmp t key False; Some t1 }"

definition RBtree_erase :: "('k \<Rightarrow> 'k \<Rightarrow> int) \<Rightarrow> ('k, 'v) rb \<Rightarrow> addr \<Rightarrow> (('k, 'v) rb \<times> addr) option" where
  "RBtree_erase cmp t it = do {
     n \<leftarrow> rnodes t it;
     (t1, sc) \<leftarrow> rb_delete cmp t (get_key n) True;
     Some (t1, if sc = NULL then RBtree_end t1 else sc) }"

definition RBtree_size :: "'e rbtree \<Rightarrow> u32" where
  "RBtree_size t = rsize t"

definition RBtree_empty :: "'e rbtree \<Rightarrow> bool" where
  "RBtree_empty t \<longleftrightarrow> rsize t = 0"

section \<open>Destruction and the map interface\<close>

text \<open>\<open>free\<close> of a node; the sentinel lies inside the tree structure and is not a block of its own.\<close>

definition free_node :: "'e rbtree \<Rightarrow> addr \<Rightarrow> 'e rbtree option" where
  "free_node t p = (if p = nil t \<or> rnodes t p = None then None else Some (t\<lparr>rnodes := (rnodes t)(p := None)\<rparr>))"

text \<open>The loop of \<open>RBtree_destroy\<close>; the stack is a \<open>list\<close> used from its front.\<close>

partial_function (option) destroy_loop :: "'e rbtree \<Rightarrow> addr list \<Rightarrow> 'e rbtree option" where
  "destroy_loop t stack =
     (case stack of
        [] \<Rightarrow> Some t
      | cur # _ \<Rightarrow> do {
          cn \<leftarrow> rnodes t cur;
          (t1, st1) \<leftarrow> (if rright cn \<noteq> NULL
                       then do { t' \<leftarrow> set_right t cur NULL; Some (t', rright cn # stack) }
                       else Some (t, stack));
          cn1 \<leftarrow> rnodes t1 cur;
          (t2, st2) \<leftarrow> (if rleft cn1 \<noteq> NULL
                       then do { t' \<leftarrow> set_left t1 cur NULL; Some (t', rleft cn1 # st1) }
                       else Some (t1, st1));
          cn2 \<leftarrow> rnodes t2 cur;
          if rleft cn2 = NULL \<and> rright cn2 = NULL
          then do { t3 \<leftarrow> free_node t2 cur; destroy_loop t3 (tl st2) }
          else destroy_loop t2 st2 })"

definition RBtree_destroy :: "'e rbtree \<Rightarrow> unit option" where
  "RBtree_destroy t =
     (if rsize t \<noteq> 0 then do { _ \<leftarrow> destroy_loop t [rroot t]; Some () } else Some ())"

text \<open>
  \<open>map_t\<close> with the default container; every operation calls the function of the container.
  \<open>map_destroy\<close> has an empty body.
\<close>

record ('k, 'v) kmap =
  container :: "('k, 'v) rb"
  free_container_on_destroy :: bool

definition map_create :: "addr \<Rightarrow> ('k \<times> 'v) rbnode \<Rightarrow> ('k, 'v) rb option \<Rightarrow> ('k, 'v) kmap" where
  "map_create z junk c =
     (case c of
        Some rb \<Rightarrow> \<lparr>container = rb, free_container_on_destroy = False\<rparr>
      | None \<Rightarrow> \<lparr>container = RBtree_create z junk, free_container_on_destroy = True\<rparr>)"

definition map_insert ::
    "('k \<Rightarrow> 'k \<Rightarrow> int) \<Rightarrow> ('k, 'v) kmap \<Rightarrow> 'k \<Rightarrow> 'v \<Rightarrow> addr \<Rightarrow> ('k \<times> 'v) rbnode \<Rightarrow> (('k, 'v) kmap \<times> addr) option" where
  "map_insert cmp m key val n junk = do {
     (c, it) \<leftarrow> RBtree_insert cmp (container m) key val n junk;
     Some (m\<lparr>container := c\<rparr>, it) }"

definition map_erase :: "('k \<Rightarrow> 'k \<Rightarrow> int) \<Rightarrow> ('k, 'v) kmap \<Rightarrow> addr \<Rightarrow> (('k, 'v) kmap \<times> addr) option" where
  "map_erase cmp m it = do {
     (c, it') \<leftarrow> RBtree_erase cmp (container m) it;
     Some (m\<lparr>container := c\<rparr>, it') }"

definition map_remove :: "('k \<Rightarrow> 'k \<Rightarrow> int) \<Rightarrow> ('k, 'v) kmap \<Rightarrow> 'k \<Rightarrow> ('k, 'v) kmap option" where
  "map_remove cmp m key = do { c \<leftarrow> RBtree_delete cmp (container m) key; Some (m\<lparr>container := c\<rparr>) }"

definition map_find :: "('k \<Rightarrow> 'k \<Rightarrow> int) \<Rightarrow> ('k, 'v) kmap \<Rightarrow> 'k \<Rightarrow> addr option" where
  "map_find cmp m key = RBtree_find cmp (container m) key"

definition map_begin :: "('k, 'v) kmap \<Rightarrow> addr option" where
  "map_begin m = RBtree_begin (container m)"

definition map_end :: "('k, 'v) kmap \<Rightarrow> addr" where
  "map_end m = RBtree_end (container m)"

definition map_size :: "('k, 'v) kmap \<Rightarrow> u32" where
  "map_size m = RBtree_size (container m)"

definition map_empty :: "('k, 'v) kmap \<Rightarrow> bool" where
  "map_empty m = RBtree_empty (container m)"

definition map_iter_equal :: "addr \<Rightarrow> addr \<Rightarrow> bool" where
  "map_iter_equal a b \<longleftrightarrow> a = b"

section \<open>Trees, contexts and their representation\<close>

text \<open>
  A tree of node addresses with their colours and data, and a context: the path from a subtree up
  to the root. \<open>at t C s\<close> says that the store of \<open>t\<close> holds the subtree \<open>s\<close> in the context \<open>C\<close>.
\<close>

datatype 'e rtree = Lf | Nd "'e rtree" addr color 'e "'e rtree"
datatype 'e ctx = Top | CL "'e ctx" addr color 'e "'e rtree" | CR "'e rtree" addr color 'e "'e ctx"

fun plug :: "'e ctx \<Rightarrow> 'e rtree \<Rightarrow> 'e rtree" where
  "plug Top s = s"
| "plug (CL C a c e r) s = plug C (Nd s a c e r)"
| "plug (CR l a c e C) s = plug C (Nd l a c e s)"

fun rootp :: "addr \<Rightarrow> 'e rtree \<Rightarrow> addr" where
  "rootp z Lf = z"
| "rootp z (Nd l a c e r) = a"

fun cpar :: "addr \<Rightarrow> 'e ctx \<Rightarrow> addr" where
  "cpar z Top = z"
| "cpar z (CL C a c e r) = a"
| "cpar z (CR l a c e C) = a"

fun nodes :: "'e rtree \<Rightarrow> (addr \<times> 'e) list" where
  "nodes Lf = []"
| "nodes (Nd l a c e r) = nodes l @ (a, e) # nodes r"

fun lefts :: "'e ctx \<Rightarrow> (addr \<times> 'e) list" where
  "lefts Top = []"
| "lefts (CL C a c e r) = lefts C"
| "lefts (CR l a c e C) = lefts C @ nodes l @ [(a, e)]"

fun rights :: "'e ctx \<Rightarrow> (addr \<times> 'e) list" where
  "rights Top = []"
| "rights (CL C a c e r) = (a, e) # nodes r @ rights C"
| "rights (CR l a c e C) = rights C"

lemma nodes_plug: "nodes (plug C s) = lefts C @ nodes s @ rights C"
  by (induction C arbitrary: s) auto

fun rep :: "(addr \<rightharpoonup> 'e rbnode) \<Rightarrow> addr \<Rightarrow> addr \<Rightarrow> 'e rtree \<Rightarrow> bool" where
  "rep h z p Lf = True"
| "rep h z p (Nd l a c e r) =
     (h a = Some \<lparr>rparent = p, rleft = rootp z l, rright = rootp z r, rcolor = c, rdata = e\<rparr> \<and>
      rep h z a l \<and> rep h z a r)"

fun rep_ctx :: "(addr \<rightharpoonup> 'e rbnode) \<Rightarrow> addr \<Rightarrow> addr \<Rightarrow> 'e ctx \<Rightarrow> addr \<Rightarrow> bool" where
  "rep_ctx h z rt Top q = (rt = q)"
| "rep_ctx h z rt (CL C a c e r) q =
     (h a = Some \<lparr>rparent = cpar z C, rleft = q, rright = rootp z r, rcolor = c, rdata = e\<rparr> \<and>
      rep h z a r \<and> rep_ctx h z rt C a)"
| "rep_ctx h z rt (CR l a c e C) q =
     (h a = Some \<lparr>rparent = cpar z C, rleft = rootp z l, rright = q, rcolor = c, rdata = e\<rparr> \<and>
      rep h z a l \<and> rep_ctx h z rt C a)"

definition addrs :: "'e rtree \<Rightarrow> addr list" where
  "addrs s = map fst (nodes s)"

definition caddrs :: "'e ctx \<Rightarrow> addr list" where
  "caddrs C = map fst (lefts C @ rights C)"

lemma addrs_simps [simp]:
  "addrs Lf = []" "addrs (Nd l a c e r) = addrs l @ a # addrs r"
  by (simp_all add: addrs_def)

lemma caddrs_set [simp]:
  "set (caddrs Top) = {}"
  "set (caddrs (CL C a c e r)) = insert a (set (addrs r) \<union> set (caddrs C))"
  "set (caddrs (CR l a c e C)) = insert a (set (addrs l) \<union> set (caddrs C))"
  by (auto simp: caddrs_def addrs_def)

definition at :: "'e rbtree \<Rightarrow> 'e ctx \<Rightarrow> 'e rtree \<Rightarrow> bool" where
  "at t C s \<longleftrightarrow>
     rep_ctx (rnodes t) (nil t) (rroot t) C (rootp (nil t) s) \<and> rep (rnodes t) (nil t) (cpar (nil t) C) s \<and>
     distinct (addrs (plug C s)) \<and> nil t \<notin> set (addrs (plug C s)) \<and> NULL \<notin> set (addrs (plug C s)) \<and> nil t \<noteq> NULL \<and>
     (\<exists>n. rnodes t (nil t) = Some n \<and> rcolor n = BLACK)"

lemma at_move:
  "at t (CL C a c e r) s = at t C (Nd s a c e r)"
  "at t (CR l a c e C) s = at t C (Nd l a c e s)"
  by (auto simp: at_def)

lemma at_plug: "at t C s = at t Top (plug C s)"
  by (induction C arbitrary: s) (simp_all add: at_move)

lemma set_addrs_plug [simp]: "set (addrs (plug C s)) = set (caddrs C) \<union> set (addrs s)"
  by (auto simp: addrs_def caddrs_def nodes_plug)

lemma distinct_addrs_plug:
  "distinct (addrs (plug C s)) \<longleftrightarrow> distinct (caddrs C) \<and> distinct (addrs s) \<and> set (caddrs C) \<inter> set (addrs s) = {}"
  by (auto simp: addrs_def caddrs_def nodes_plug)

lemma rep_frame: "x \<notin> set (addrs s) \<Longrightarrow> rep (h(x := v)) z p s = rep h z p s"
  by (induction s arbitrary: p) auto

lemma rep_ctx_frame: "x \<notin> set (caddrs C) \<Longrightarrow> rep_ctx (h(x := v)) z rt C q = rep_ctx h z rt C q"
  by (induction C arbitrary: q) (auto simp: rep_frame)

lemmas frame = rep_frame rep_ctx_frame

lemma at_head:
  "at t C (Nd l a c e r) \<Longrightarrow>
    rnodes t a = Some \<lparr>rparent = cpar (nil t) C, rleft = rootp (nil t) l, rright = rootp (nil t) r, rcolor = c, rdata = e\<rparr>"
  by (simp add: at_def)

lemma at_nonnil: "at t C (Nd l a c e r) \<Longrightarrow> a \<noteq> nil t \<and> a \<noteq> NULL"
  by (auto simp: at_def)

section \<open>Rotations\<close>

lemma rep_ctx_root_in: "rep_ctx h z rt C q \<Longrightarrow> C \<noteq> Top \<Longrightarrow> rt \<in> set (caddrs C)"
proof (induction C arbitrary: q)
  case (CL C a c e r)
  then show ?case by (cases "C = Top") auto
next
  case (CR l a c e C)
  then show ?case by (cases "C = Top") auto
qed simp

lemma rootp_in: "rootp z s = z \<or> rootp z s \<in> set (addrs s)"
  by (cases s) auto

lemma rootp_neq: "x \<noteq> z \<Longrightarrow> x \<notin> set (addrs s) \<Longrightarrow> rootp z s \<noteq> x"
  using rootp_in by metis

definition same_shape :: "'e rbtree \<Rightarrow> 'e rbtree \<Rightarrow> bool" where
  "same_shape t t' \<longleftrightarrow> nil t' = nil t \<and> rsize t' = rsize t \<and> dom (rnodes t') = dom (rnodes t)"

lemmas writes = upd_def set_parent_def set_left_def set_right_def set_color_def

text \<open>Redirecting the pointer to the hole of a context.\<close>

lemma relink_law:
  assumes "rep_ctx (rnodes t) (nil t) (rroot t) C n" "n \<notin> set (caddrs C)" "n \<noteq> nil t" "distinct (caddrs C)"
  shows "\<exists>t'. relink t n (cpar (nil t) C) q = Some t' \<and> same_shape t t' \<and>
    rep_ctx (rnodes t') (nil t) (rroot t') C q \<and> (\<forall>x. x \<notin> set (caddrs C) \<longrightarrow> rnodes t' x = rnodes t x)"
proof (cases C)
  case Top
  then show ?thesis using assms by (auto simp: relink_def same_shape_def)
next
  case (CL C' p c e s)
  have "rroot t \<noteq> n" using assms rep_ctx_root_in [of _ _ _ C] CL by auto
  moreover have "p \<notin> set (addrs s)" "p \<notin> set (caddrs C')" using assms(4) CL by (auto simp: caddrs_def addrs_def)
  ultimately show ?thesis using assms(1) CL
    by (simp add: relink_def writes frame same_shape_def insert_absorb domI)
next
  case (CR s p c e C')
  have "rroot t \<noteq> n" using assms rep_ctx_root_in [of _ _ _ C] CR by auto
  moreover have "rootp (nil t) s \<noteq> n" using assms rootp_neq [of n "nil t" s] CR by auto
  moreover have "p \<notin> set (addrs s)" "p \<notin> set (caddrs C')" using assms(4) CR by (auto simp: caddrs_def addrs_def)
  ultimately show ?thesis using assms(1) CR
    by (simp add: relink_def writes frame same_shape_def insert_absorb domI)
qed

lemma reparent:
  assumes "rep h z p s" "h (rootp z s) = Some bn" "distinct (addrs s)"
  shows "rep (h(rootp z s \<mapsto> bn\<lparr>rparent := q\<rparr>)) z q s"
  using assms by (cases s) (auto simp: frame)

lemma rep_cong: "rep h z p s \<Longrightarrow> \<forall>x \<in> set (addrs s). h' x = h x \<Longrightarrow> rep h' z p s"
  by (induction s arbitrary: p) auto

lemma rep_ctx_cong: "rep_ctx h z rt C q \<Longrightarrow> \<forall>x \<in> set (caddrs C). h' x = h x \<Longrightarrow> rep_ctx h' z rt C q"
  by (induction C arbitrary: q) (auto intro: rep_cong)

lemma rotate_left_law:
  assumes at: "at t C (Nd A n cn en (Nd B r cr er D))"
  shows "\<exists>t'. rotate_left t n = Some t' \<and> at t' C (Nd (Nd A n cn en B) r cr er D) \<and> same_shape t t'"
proof -
  let ?z = "nil t" and ?h = "rnodes t"
  have d: "distinct (caddrs C)" "distinct (addrs A)" "distinct (addrs B)" "distinct (addrs D)" "n \<noteq> r"
    "n \<notin> set (caddrs C)" "r \<notin> set (caddrs C)" "n \<noteq> ?z" "r \<noteq> ?z" "?z \<notin> set (caddrs C)"
    "n \<notin> set (addrs B)" "r \<notin> set (addrs B)" "?z \<notin> set (addrs B)"
    "set (addrs A) \<inter> ({n, r, ?z} \<union> set (caddrs C) \<union> set (addrs B)) = {}"
    "set (addrs D) \<inter> ({n, r, ?z} \<union> set (caddrs C) \<union> set (addrs B)) = {}" "set (addrs B) \<inter> set (caddrs C) = {}"
    using at by (auto simp: at_def distinct_addrs_plug)
  have hn: "?h n = Some \<lparr>rparent = cpar ?z C, rleft = rootp ?z A, rright = r, rcolor = cn, rdata = en\<rparr>"
    and hr: "?h r = Some \<lparr>rparent = n, rleft = rootp ?z B, rright = rootp ?z D, rcolor = cr, rdata = er\<rparr>"
    and rA: "rep ?h ?z n A" and rB: "rep ?h ?z r B" and rD: "rep ?h ?z r D"
    and rC: "rep_ctx ?h ?z (rroot t) C n" using at by (auto simp: at_def)
  obtain zn where zn: "?h ?z = Some zn" "rcolor zn = BLACK" using at by (auto simp: at_def)
  obtain bn where bn: "?h (rootp ?z B) = Some bn" using zn rB by (cases B) auto
  let ?b = "rootp ?z B"
  have b: "?b \<noteq> n" "?b \<noteq> r" "?b \<notin> set (addrs A)" "?b \<notin> set (addrs D)" "?b \<notin> set (caddrs C)"
    using d rootp_in [of ?z B] by auto
  define t2 where "t2 = t\<lparr>rnodes := ?h(n \<mapsto> \<lparr>rparent = cpar ?z C, rleft = rootp ?z A, rright = ?b, rcolor = cn, rdata = en\<rparr>,
    ?b \<mapsto> bn\<lparr>rparent := n\<rparr>)\<rparr>"
  have t2: "nil t2 = ?z" "rroot t2 = rroot t" "rsize t2 = rsize t" "dom (rnodes t2) = dom ?h"
    using hn bn by (auto simp: t2_def)
  have "rep_ctx (rnodes t2) (nil t2) (rroot t2) C n" using rC d b by (simp add: t2_def frame)
  from relink_law [OF this d(6), of r] d t2 obtain t3 where
    t3: "relink t2 n (cpar ?z C) r = Some t3" "same_shape t2 t3" "rep_ctx (rnodes t3) ?z (rroot t3) C r"
      "\<forall>x. x \<notin> set (caddrs C) \<longrightarrow> rnodes t3 x = rnodes t2 x" by auto
  have at3: "rnodes t3 n = rnodes t2 n" "rnodes t3 r = rnodes t2 r" "rnodes t3 ?z = rnodes t2 ?z" "rnodes t3 ?b = rnodes t2 ?b"
    using t3(4) d b by auto
  define t6 where "t6 = t3\<lparr>rnodes := (rnodes t3)(
     n \<mapsto> \<lparr>rparent = r, rleft = rootp ?z A, rright = ?b, rcolor = cn, rdata = en\<rparr>,
     r \<mapsto> \<lparr>rparent = cpar ?z C, rleft = n, rright = rootp ?z D, rcolor = cr, rdata = er\<rparr>)\<rparr>"
  have "rotate_left t n = Some t6"
    using hn hr d b bn t3(1) at3 unfolding rotate_left_def t6_def
    by (simp add: writes Let_def t2_def fun_upd_twist)
  moreover have "rep (rnodes t6) ?z n A" "rep (rnodes t6) ?z r D"
    by (rule rep_cong [OF rA], use d b t3(4) in \<open>auto simp: t6_def t2_def\<close>)
       (rule rep_cong [OF rD], use d b t3(4) in \<open>auto simp: t6_def t2_def\<close>)
  moreover have "rep (rnodes t6) ?z n B"
    by (rule rep_cong [OF reparent [OF rB bn d(3)]]) (use d t3(4) in \<open>auto simp: t6_def t2_def\<close>)
  moreover have "rep_ctx (rnodes t6) ?z (rroot t6) C r"
    using t3(3) d by (simp add: t6_def frame)
  moreover have "\<exists>n. rnodes t6 ?z = Some n \<and> rcolor n = BLACK"
    using at3(3) d zn bn by (auto simp: t6_def t2_def)
  moreover have "nil t6 = ?z" "same_shape t t6"
    using t3(2) t2 hn hr by (auto simp: same_shape_def t6_def)
  ultimately show ?thesis using at d by (auto simp: at_def distinct_addrs_plug t6_def)
qed

lemma rotate_right_law:
  assumes at: "at t C (Nd (Nd D r cr er B) n cn en A)"
  shows "\<exists>t'. rotate_right t n = Some t' \<and> at t' C (Nd D r cr er (Nd B n cn en A)) \<and> same_shape t t'"
proof -
  let ?z = "nil t" and ?h = "rnodes t"
  have d: "distinct (caddrs C)" "distinct (addrs A)" "distinct (addrs B)" "distinct (addrs D)" "n \<noteq> r"
    "n \<notin> set (caddrs C)" "r \<notin> set (caddrs C)" "n \<noteq> ?z" "r \<noteq> ?z" "?z \<notin> set (caddrs C)"
    "n \<notin> set (addrs B)" "r \<notin> set (addrs B)" "?z \<notin> set (addrs B)"
    "set (addrs A) \<inter> ({n, r, ?z} \<union> set (caddrs C) \<union> set (addrs B)) = {}"
    "set (addrs D) \<inter> ({n, r, ?z} \<union> set (caddrs C) \<union> set (addrs B)) = {}" "set (addrs B) \<inter> set (caddrs C) = {}"
    using at by (auto simp: at_def distinct_addrs_plug)
  have hn: "?h n = Some \<lparr>rparent = cpar ?z C, rleft = r, rright = rootp ?z A, rcolor = cn, rdata = en\<rparr>"
    and hr: "?h r = Some \<lparr>rparent = n, rleft = rootp ?z D, rright = rootp ?z B, rcolor = cr, rdata = er\<rparr>"
    and rA: "rep ?h ?z n A" and rB: "rep ?h ?z r B" and rD: "rep ?h ?z r D"
    and rC: "rep_ctx ?h ?z (rroot t) C n" using at by (auto simp: at_def)
  obtain zn where zn: "?h ?z = Some zn" "rcolor zn = BLACK" using at by (auto simp: at_def)
  obtain bn where bn: "?h (rootp ?z B) = Some bn" using zn rB by (cases B) auto
  let ?b = "rootp ?z B"
  have b: "?b \<noteq> n" "?b \<noteq> r" "?b \<notin> set (addrs A)" "?b \<notin> set (addrs D)" "?b \<notin> set (caddrs C)"
    using d rootp_in [of ?z B] by auto
  define t2 where "t2 = t\<lparr>rnodes := ?h(n \<mapsto> \<lparr>rparent = cpar ?z C, rleft = ?b, rright = rootp ?z A, rcolor = cn, rdata = en\<rparr>,
    ?b \<mapsto> bn\<lparr>rparent := n\<rparr>)\<rparr>"
  have t2: "nil t2 = ?z" "rroot t2 = rroot t" "rsize t2 = rsize t" "dom (rnodes t2) = dom ?h"
    using hn bn by (auto simp: t2_def)
  have "rep_ctx (rnodes t2) (nil t2) (rroot t2) C n" using rC d b by (simp add: t2_def frame)
  from relink_law [OF this d(6), of r] d t2 obtain t3 where
    t3: "relink t2 n (cpar ?z C) r = Some t3" "same_shape t2 t3" "rep_ctx (rnodes t3) ?z (rroot t3) C r"
      "\<forall>x. x \<notin> set (caddrs C) \<longrightarrow> rnodes t3 x = rnodes t2 x" by auto
  have at3: "rnodes t3 n = rnodes t2 n" "rnodes t3 r = rnodes t2 r" "rnodes t3 ?z = rnodes t2 ?z" "rnodes t3 ?b = rnodes t2 ?b"
    using t3(4) d b by auto
  define t6 where "t6 = t3\<lparr>rnodes := (rnodes t3)(
     n \<mapsto> \<lparr>rparent = r, rleft = ?b, rright = rootp ?z A, rcolor = cn, rdata = en\<rparr>,
     r \<mapsto> \<lparr>rparent = cpar ?z C, rleft = rootp ?z D, rright = n, rcolor = cr, rdata = er\<rparr>)\<rparr>"
  have "rotate_right t n = Some t6"
    using hn hr d b bn t3(1) at3 unfolding rotate_right_def t6_def
    by (simp add: writes Let_def t2_def fun_upd_twist)
  moreover have "rep (rnodes t6) ?z n A" "rep (rnodes t6) ?z r D"
    by (rule rep_cong [OF rA], use d b t3(4) in \<open>auto simp: t6_def t2_def\<close>)
       (rule rep_cong [OF rD], use d b t3(4) in \<open>auto simp: t6_def t2_def\<close>)
  moreover have "rep (rnodes t6) ?z n B"
    by (rule rep_cong [OF reparent [OF rB bn d(3)]]) (use d t3(4) in \<open>auto simp: t6_def t2_def\<close>)
  moreover have "rep_ctx (rnodes t6) ?z (rroot t6) C r"
    using t3(3) d by (simp add: t6_def frame)
  moreover have "\<exists>n. rnodes t6 ?z = Some n \<and> rcolor n = BLACK"
    using at3(3) d zn bn by (auto simp: t6_def t2_def)
  moreover have "nil t6 = ?z" "same_shape t t6"
    using t3(2) t2 hn hr by (auto simp: same_shape_def t6_def)
  ultimately show ?thesis using at d by (auto simp: at_def distinct_addrs_plug t6_def)
qed

section \<open>Insertion fix-up on trees and its refinement\<close>

fun rcol :: "'e rtree \<Rightarrow> color" where
  "rcol Lf = BLACK"
| "rcol (Nd l a c e r) = c"

fun ccol :: "'e ctx \<Rightarrow> color" where
  "ccol Top = BLACK"
| "ccol (CL C a c e r) = c"
| "ccol (CR l a c e C) = c"

fun paint :: "color \<Rightarrow> 'e rtree \<Rightarrow> 'e rtree" where
  "paint c' Lf = Lf"
| "paint c' (Nd l a c e r) = Nd l a c' e r"

fun ins_fix :: "'e ctx \<Rightarrow> 'e rtree \<Rightarrow> 'e rtree" where
  "ins_fix (CL (CL C g cg ge u) p RED pe s) n =
     (if rcol u = RED then ins_fix C (Nd (Nd n p BLACK pe s) g RED ge (paint BLACK u))
      else plug C (Nd n p BLACK pe (Nd s g RED ge u)))"
| "ins_fix (CR s p RED pe (CL C g cg ge u)) (Nd l n c e r) =
     (if rcol u = RED then ins_fix C (Nd (Nd s p BLACK pe (Nd l n c e r)) g RED ge (paint BLACK u))
      else plug C (Nd (Nd s p RED pe l) n BLACK e (Nd r g RED ge u)))"
| "ins_fix (CR s p RED pe (CR u g cg ge C)) n =
     (if rcol u = RED then ins_fix C (Nd (paint BLACK u) g RED ge (Nd s p BLACK pe n))
      else plug C (Nd (Nd u g RED ge s) p BLACK pe n))"
| "ins_fix (CL (CR u g cg ge C) p RED pe s) (Nd l n c e r) =
     (if rcol u = RED then ins_fix C (Nd (paint BLACK u) g RED ge (Nd (Nd l n c e r) p BLACK pe s))
      else plug C (Nd (Nd u g RED ge l) n BLACK e (Nd r p RED pe s)))"
| "ins_fix C n = plug C n"

fun clen :: "'e ctx \<Rightarrow> nat" where
  "clen Top = 0"
| "clen (CL C a c e r) = Suc (clen C)"
| "clen (CR l a c e C) = Suc (clen C)"

fun red_ok :: "'e ctx \<Rightarrow> bool" where
  "red_ok Top = True"
| "red_ok (CL C a c e r) = ((c = RED \<longrightarrow> C \<noteq> Top) \<and> red_ok C)"
| "red_ok (CR l a c e C) = ((c = RED \<longrightarrow> C \<noteq> Top) \<and> red_ok C)"

lemma ins_fix_black: "ccol C = BLACK \<Longrightarrow> ins_fix C s = plug C s"
  by (cases "(C, s)" rule: ins_fix.cases) auto

lemma set_color_law:
  assumes "at t C (Nd l a c e r)"
  shows "\<exists>t'. set_color t a c' = Some t' \<and> at t' C (Nd l a c' e r) \<and> same_shape t t'"
proof -
  have h: "rnodes t a = Some \<lparr>rparent = cpar (nil t) C, rleft = rootp (nil t) l, rright = rootp (nil t) r, rcolor = c, rdata = e\<rparr>"
    by (rule at_head [OF assms])
  have d: "a \<notin> set (addrs l)" "a \<notin> set (addrs r)" "a \<notin> set (caddrs C)" "a \<noteq> nil t"
    using assms by (auto simp: at_def distinct_addrs_plug)
  show ?thesis using assms h d
    by (auto simp: set_color_def upd_def at_def frame same_shape_def distinct_addrs_plug)
qed

lemma at_color: "at t C s \<Longrightarrow> \<exists>n. rnodes t (rootp (nil t) s) = Some n \<and> rcolor n = rcol s"
  by (cases s) (auto simp: at_def)

lemma at_parent_color: "at t C s \<Longrightarrow> \<exists>n. rnodes t (cpar (nil t) C) = Some n \<and> rcolor n = ccol C"
  by (cases C) (auto simp: at_def)

lemma same_shape_trans: "same_shape a b \<Longrightarrow> same_shape b c \<Longrightarrow> same_shape a c"
  by (simp add: same_shape_def)

lemma same_shape_nil: "same_shape a b \<Longrightarrow> nil b = nil a"
  by (simp add: same_shape_def)

text \<open>Painting the root of a subtree that sits in a child position.\<close>

lemma set_color_left:
  assumes "at t C (Nd (Nd l a c e r) b cb eb s)"
  shows "\<exists>t'. set_color t a c' = Some t' \<and> at t' C (Nd (Nd l a c' e r) b cb eb s) \<and> same_shape t t'"
  using set_color_law [of t "CL C b cb eb s"] assms by (simp add: at_move)

lemma set_color_right:
  assumes "at t C (Nd s b cb eb (Nd l a c e r))"
  shows "\<exists>t'. set_color t a c' = Some t' \<and> at t' C (Nd s b cb eb (Nd l a c' e r)) \<and> same_shape t t'"
  using set_color_law [of t "CR s b cb eb C"] assms by (simp add: at_move)

lemma color_flip_law:
  assumes at: "at t C (Nd l a c e r)" and ne: "l \<noteq> Lf" "r \<noteq> Lf"
  shows "\<exists>t'. color_flip t a = Some t' \<and> at t' C (Nd (paint BLACK l) a RED e (paint BLACK r)) \<and> same_shape t t'"
proof -
  obtain l1 x cx ex l2 r1 y cy ey r2 where lr: "l = Nd l1 x cx ex l2" "r = Nd r1 y cy ey r2"
    using ne by (cases l; cases r) auto
  note at' = at [unfolded lr]
  obtain t1 where t1: "set_color t a RED = Some t1" "at t1 C (Nd l a RED e r)" "same_shape t t1"
    using set_color_law [OF at] by blast
  obtain t2 where t2: "set_color t1 y BLACK = Some t2" "at t2 C (Nd l a RED e (Nd r1 y BLACK ey r2))" "same_shape t1 t2"
    using set_color_right [OF t1(2) [unfolded lr(2)]] by blast
  obtain t3 where t3: "set_color t2 x BLACK = Some t3"
    "at t3 C (Nd (Nd l1 x BLACK ex l2) a RED e (Nd r1 y BLACK ey r2))" "same_shape t2 t3"
    using set_color_left [OF t2(2) [unfolded lr(1)]] by blast
  have "x \<noteq> NULL" "y \<noteq> NULL" using at' by (auto simp: at_def)
  then have "color_flip t a = Some t3"
    using at_head [OF at] t1(1) t2(1) t3(1) lr by (simp add: color_flip_def)
  then show ?thesis using t3(2) lr t1(3) t2(3) t3(3) by (auto intro: same_shape_trans)
qed

fun cpaint :: "color \<Rightarrow> 'e ctx \<Rightarrow> 'e ctx" where
  "cpaint c' Top = Top"
| "cpaint c' (CL C a c e r) = CL C a c' e r"
| "cpaint c' (CR l a c e C) = CR l a c' e C"

lemma set_color_parent:
  assumes "at t C s" "C \<noteq> Top"
  shows "\<exists>t'. set_color t (cpar (nil t) C) c' = Some t' \<and> at t' (cpaint c' C) s \<and> same_shape t t'"
  using assms by (cases C) (simp_all add: at_move set_color_law)

lemma cpar_cpaint [simp]: "cpar z (cpaint c C) = cpar z C"
  by (cases C) auto

lemma fix_recolor_law:
  assumes at: "at t C (Nd l p c e r)" and C: "C \<noteq> Top"
    and n: "rnodes t n = Some nn" "rparent nn = p" "n \<noteq> p" "n \<noteq> cpar (nil t) C"
  shows "\<exists>t'. fix_recolor t n = Some (t', cpar (nil t) C) \<and> at t' (cpaint RED C) (Nd l p BLACK e r) \<and> same_shape t t'"
proof -
  obtain t1 where t1: "set_color t p BLACK = Some t1" "at t1 C (Nd l p BLACK e r)" "same_shape t t1"
    using set_color_law [OF at] by blast
  obtain t2 where t2: "set_color t1 (cpar (nil t) C) RED = Some t2" "at t2 (cpaint RED C) (Nd l p BLACK e r)" "same_shape t1 t2"
    using set_color_parent [OF t1(2) C] same_shape_nil [OF t1(3)] by metis
  have nil: "nil t1 = nil t" "nil t2 = nil t" using t1(3) t2(3) by (simp_all add: same_shape_def)
  have "rnodes t2 n = Some nn"
    using n t1(1) t2(1) by (auto simp: set_color_def upd_def split: option.splits)
  then have "fix_recolor t n = Some (t2, cpar (nil t) C)"
    using n t1(1) t2(1) at_head [OF t1(2)] at_head [OF t2(2)] nil by (simp add: fix_recolor_def)
  then show ?thesis using t2(2) t1(3) t2(3) by (blast intro: same_shape_trans)
qed

definition fix_goal :: "'e rbtree \<Rightarrow> 'e ctx \<Rightarrow> 'e rtree \<Rightarrow> ('e rbtree \<times> addr) option \<Rightarrow> bool" where
  "fix_goal t C s res \<longleftrightarrow> (\<exists>t' C' s'. res = Some (t', rootp (nil t) s') \<and> at t' C' s' \<and> s' \<noteq> Lf \<and> same_shape t t' \<and>
     clen C' < clen C \<and> ins_fix C' s' = ins_fix C s \<and> red_ok C')"

lemma fix_goalI:
  assumes "res = Some (t', rootp (nil t) s')" "at t' C' s'" "s' \<noteq> Lf" "same_shape t t'" "clen C' < clen C"
    "ins_fix C' s' = ins_fix C s" "red_ok C'"
  shows "fix_goal t C s res"
  using assms by (auto simp: fix_goal_def)

lemma insert_fix_step_LL:
  assumes at: "at t (CL (CL C g cg ge u) p RED pe s) (Nd l n c e r)" and ok: "red_ok C"
  shows "fix_goal t (CL (CL C g cg ge u) p RED pe s) (Nd l n c e r) (insert_fix_step t n)"
proof -
  let ?z = "nil t" and ?s = "Nd l n c e r"
  have atp: "at t (CL C g cg ge u) (Nd ?s p RED pe s)" and atg: "at t C (Nd (Nd ?s p RED pe s) g cg ge u)"
    and atu: "at t (CR (Nd ?s p RED pe s) g cg ge C) u"
    using at by (simp_all add: at_move)
  note h = at_head [OF at] at_head [OF atp] at_head [OF atg]
  have neq: "rootp ?z s \<noteq> n" "n \<noteq> p" "n \<noteq> g"
    using at rootp_neq [of n ?z s] by (auto simp: at_def distinct_addrs_plug)
  obtain an where an: "rnodes t (rootp ?z u) = Some an" "rcolor an = rcol u" using at_color [OF atu] by blast
  show ?thesis
  proof (cases "rcol u = RED")
    case True
    then have "u \<noteq> Lf" by auto
    then obtain t' where t': "color_flip t g = Some t'" "at t' C (Nd (Nd ?s p BLACK pe s) g RED ge (paint BLACK u))" "same_shape t t'"
      using color_flip_law [OF atg] by auto
    then have "insert_fix_step t n = Some (t', g)" using h an True by (simp add: insert_fix_step_def)
    then show ?thesis using t' True ok by (intro fix_goalI) simp_all
  next
    case False
    obtain t1 where t1: "fix_recolor t n = Some (t1, g)" "at t1 C (Nd (Nd ?s p BLACK pe s) g RED ge u)" "same_shape t t1"
      using fix_recolor_law [OF atp _ h(1)] neq by (auto simp: at_move)
    obtain t2 where t2: "rotate_right t1 g = Some t2" "at t2 C (Nd ?s p BLACK pe (Nd s g RED ge u))" "same_shape t1 t2"
      using rotate_right_law [OF t1(2)] by blast
    have "insert_fix_step t n = Some (t2, n)" using h an False neq t1(1) t2(1) by (simp add: insert_fix_step_def)
    moreover have "same_shape t t2" using t1(3) t2(3) by (rule same_shape_trans)
    ultimately show ?thesis using t2(2) False ok
      by (intro fix_goalI [where C' = "CL C p BLACK pe (Nd s g RED ge u)" and s' = ?s]) (simp_all add: at_move ins_fix_black)
  qed
qed

lemma insert_fix_step_RL:
  assumes at: "at t (CR s p RED pe (CL C g cg ge u)) (Nd l n c e r)" and ok: "red_ok C"
  shows "fix_goal t (CR s p RED pe (CL C g cg ge u)) (Nd l n c e r) (insert_fix_step t n)"
proof -
  let ?z = "nil t" and ?s = "Nd l n c e r"
  have atp: "at t (CL C g cg ge u) (Nd s p RED pe ?s)" and atg: "at t C (Nd (Nd s p RED pe ?s) g cg ge u)"
    and atu: "at t (CR (Nd s p RED pe ?s) g cg ge C) u"
    using at by (simp_all add: at_move)
  note h = at_head [OF at] at_head [OF atp] at_head [OF atg]
  have neq: "n \<noteq> p" "n \<noteq> g" "p \<noteq> g"
    using at by (auto simp: at_def distinct_addrs_plug)
  obtain an where an: "rnodes t (rootp ?z u) = Some an" "rcolor an = rcol u" using at_color [OF atu] by blast
  show ?thesis
  proof (cases "rcol u = RED")
    case True
    then have "u \<noteq> Lf" by auto
    then obtain t' where t': "color_flip t g = Some t'" "at t' C (Nd (Nd s p BLACK pe ?s) g RED ge (paint BLACK u))" "same_shape t t'"
      using color_flip_law [OF atg] by auto
    then have "insert_fix_step t n = Some (t', g)" using h an True by (simp add: insert_fix_step_def)
    then show ?thesis using t' True ok by (intro fix_goalI) simp_all
  next
    case False
    obtain t0 where t0: "rotate_left t p = Some t0" "at t0 (CL C g cg ge u) (Nd (Nd s p RED pe l) n c e r)" "same_shape t t0"
      using rotate_left_law [OF atp] by blast
    have hp: "rnodes t0 p = Some \<lparr>rparent = n, rleft = rootp ?z s, rright = rootp ?z l, rcolor = RED, rdata = pe\<rparr>"
      using at_head [of t0 "CL (CL C g cg ge u) n c e r" s p] t0(2) same_shape_nil [OF t0(3)] by (simp add: at_move)
    obtain t1 where t1: "fix_recolor t0 p = Some (t1, g)" "at t1 C (Nd (Nd (Nd s p RED pe l) n BLACK e r) g RED ge u)" "same_shape t0 t1"
      using fix_recolor_law [OF t0(2) _ hp] neq by (auto simp: at_move)
    obtain t2 where t2: "rotate_right t1 g = Some t2" "at t2 C (Nd (Nd s p RED pe l) n BLACK e (Nd r g RED ge u))" "same_shape t1 t2"
      using rotate_right_law [OF t1(2)] by blast
    have "insert_fix_step t n = Some (t2, p)" using h an False neq t0(1) t1(1) t2(1) by (simp add: insert_fix_step_def)
    moreover have "same_shape t t2" using t0(3) t1(3) t2(3) by (blast intro: same_shape_trans)
    ultimately show ?thesis using t2(2) False ok
      by (intro fix_goalI [where C' = "CL C n BLACK e (Nd r g RED ge u)" and s' = "Nd s p RED pe l"]) (simp_all add: at_move ins_fix_black)
  qed
qed

lemma insert_fix_step_RR:
  assumes at: "at t (CR s p RED pe (CR u g cg ge C)) (Nd l n c e r)" and ok: "red_ok C"
  shows "fix_goal t (CR s p RED pe (CR u g cg ge C)) (Nd l n c e r) (insert_fix_step t n)"
proof -
  let ?z = "nil t" and ?s = "Nd l n c e r"
  have atp: "at t (CR u g cg ge C) (Nd s p RED pe ?s)" and atg: "at t C (Nd u g cg ge (Nd s p RED pe ?s))"
    and atu: "at t (CL C g cg ge (Nd s p RED pe ?s)) u"
    using at by (simp_all add: at_move)
  note h = at_head [OF at] at_head [OF atp] at_head [OF atg]
  have neq: "rootp ?z s \<noteq> n" "n \<noteq> p" "n \<noteq> g" "rootp ?z u \<noteq> p"
    using at rootp_neq [of n ?z s] rootp_neq [of p ?z u] by (auto simp: at_def distinct_addrs_plug)
  obtain an where an: "rnodes t (rootp ?z u) = Some an" "rcolor an = rcol u" using at_color [OF atu] by blast
  show ?thesis
  proof (cases "rcol u = RED")
    case True
    then have "u \<noteq> Lf" by auto
    then obtain t' where t': "color_flip t g = Some t'" "at t' C (Nd (paint BLACK u) g RED ge (Nd s p BLACK pe ?s))" "same_shape t t'"
      using color_flip_law [OF atg] by auto
    then have "insert_fix_step t n = Some (t', g)" using h an True neq by (simp add: insert_fix_step_def)
    then show ?thesis using t' True ok by (intro fix_goalI) simp_all
  next
    case False
    obtain t1 where t1: "fix_recolor t n = Some (t1, g)" "at t1 C (Nd u g RED ge (Nd s p BLACK pe ?s))" "same_shape t t1"
      using fix_recolor_law [OF atp _ h(1)] neq by (auto simp: at_move)
    obtain t2 where t2: "rotate_left t1 g = Some t2" "at t2 C (Nd (Nd u g RED ge s) p BLACK pe ?s)" "same_shape t1 t2"
      using rotate_left_law [OF t1(2)] by blast
    have "insert_fix_step t n = Some (t2, n)" using h an False neq t1(1) t2(1) by (simp add: insert_fix_step_def)
    moreover have "same_shape t t2" using t1(3) t2(3) by (rule same_shape_trans)
    ultimately show ?thesis using t2(2) False ok
      by (intro fix_goalI [where C' = "CR (Nd u g RED ge s) p BLACK pe C" and s' = ?s]) (simp_all add: at_move ins_fix_black)
  qed
qed

lemma insert_fix_step_LR:
  assumes at: "at t (CL (CR u g cg ge C) p RED pe s) (Nd l n c e r)" and ok: "red_ok C"
  shows "fix_goal t (CL (CR u g cg ge C) p RED pe s) (Nd l n c e r) (insert_fix_step t n)"
proof -
  let ?z = "nil t" and ?s = "Nd l n c e r"
  have atp: "at t (CR u g cg ge C) (Nd ?s p RED pe s)" and atg: "at t C (Nd u g cg ge (Nd ?s p RED pe s))"
    and atu: "at t (CL C g cg ge (Nd ?s p RED pe s)) u"
    using at by (simp_all add: at_move)
  note h = at_head [OF at] at_head [OF atp] at_head [OF atg]
  have neq: "n \<noteq> p" "n \<noteq> g" "p \<noteq> g" "rootp ?z u \<noteq> p"
    using at rootp_neq [of p ?z u] by (auto simp: at_def distinct_addrs_plug)
  obtain an where an: "rnodes t (rootp ?z u) = Some an" "rcolor an = rcol u" using at_color [OF atu] by blast
  show ?thesis
  proof (cases "rcol u = RED")
    case True
    then have "u \<noteq> Lf" by auto
    then obtain t' where t': "color_flip t g = Some t'" "at t' C (Nd (paint BLACK u) g RED ge (Nd ?s p BLACK pe s))" "same_shape t t'"
      using color_flip_law [OF atg] by auto
    then have "insert_fix_step t n = Some (t', g)" using h an True neq by (simp add: insert_fix_step_def)
    then show ?thesis using t' True ok by (intro fix_goalI) simp_all
  next
    case False
    obtain t0 where t0: "rotate_right t p = Some t0" "at t0 (CR u g cg ge C) (Nd l n c e (Nd r p RED pe s))" "same_shape t t0"
      using rotate_right_law [OF atp] by blast
    have hp: "rnodes t0 p = Some \<lparr>rparent = n, rleft = rootp ?z r, rright = rootp ?z s, rcolor = RED, rdata = pe\<rparr>"
      using at_head [of t0 "CR l n c e (CR u g cg ge C)" r p] t0(2) same_shape_nil [OF t0(3)] by (simp add: at_move)
    obtain t1 where t1: "fix_recolor t0 p = Some (t1, g)" "at t1 C (Nd u g RED ge (Nd l n BLACK e (Nd r p RED pe s)))" "same_shape t0 t1"
      using fix_recolor_law [OF t0(2) _ hp] neq by (auto simp: at_move)
    obtain t2 where t2: "rotate_left t1 g = Some t2" "at t2 C (Nd (Nd u g RED ge l) n BLACK e (Nd r p RED pe s))" "same_shape t1 t2"
      using rotate_left_law [OF t1(2)] by blast
    have "insert_fix_step t n = Some (t2, p)" using h an False neq t0(1) t1(1) t2(1) by (simp add: insert_fix_step_def)
    moreover have "same_shape t t2" using t0(3) t1(3) t2(3) by (blast intro: same_shape_trans)
    ultimately show ?thesis using t2(2) False ok
      by (intro fix_goalI [where C' = "CR (Nd u g RED ge l) n BLACK e C" and s' = "Nd r p RED pe s"]) (simp_all add: at_move ins_fix_black)
  qed
qed

lemma insert_fix_loop_law:
  assumes "at t C s" "s \<noteq> Lf" "red_ok C"
  shows "\<exists>t'. insert_fix_loop t (rootp (nil t) s) = Some t' \<and> at t' Top (ins_fix C s) \<and> same_shape t t'"
  using assms
proof (induction "clen C" arbitrary: t C s rule: less_induct)
  case less
  obtain l n c e r where s: "s = Nd l n c e r" using less.prems(2) by (cases s) auto
  note at = less.prems(1) [unfolded s]
  obtain pn where pn: "rnodes t (cpar (nil t) C) = Some pn" "rcolor pn = ccol C" using at_parent_color [OF at] by blast
  show ?case
  proof (cases "ccol C")
    case BLACK
    then show ?thesis using less.prems(1) at_head [OF at] pn s
      by (subst insert_fix_loop.simps) (simp add: ins_fix_black at_plug [of t C] same_shape_def)
  next
    case RED
    have "fix_goal t C s (insert_fix_step t n)"
      using at less.prems(3) RED insert_fix_step_LL insert_fix_step_RL insert_fix_step_RR insert_fix_step_LR
      unfolding s by (cases C rule: ccol.cases; cases "case C of CL C' a c e r \<Rightarrow> C' | CR l a c e C' \<Rightarrow> C'") (auto simp del: ins_fix.simps)
    then obtain t' C' s' where st: "insert_fix_step t n = Some (t', rootp (nil t) s')" "at t' C' s'" "s' \<noteq> Lf" "same_shape t t'"
      "clen C' < clen C" "ins_fix C' s' = ins_fix C s" "red_ok C'" by (auto simp: fix_goal_def)
    then obtain t2 where "insert_fix_loop t' (rootp (nil t') s') = Some t2" "at t2 Top (ins_fix C s)" "same_shape t' t2"
      using less.hyps [of C' t' s'] by auto
    then show ?thesis using st(1,4) at_head [OF at] pn RED s same_shape_nil [OF st(4)] same_shape_trans [OF st(4)]
      by (subst insert_fix_loop.simps) simp
  qed
qed

lemma insert_fix_up_law:
  assumes "at t C s" "s \<noteq> Lf" "red_ok C" "ins_fix C s \<noteq> Lf"
  shows "\<exists>t'. insert_fix_up t (rootp (nil t) s) = Some t' \<and> at t' Top (paint BLACK (ins_fix C s)) \<and> same_shape t t'"
proof -
  obtain t1 where t1: "insert_fix_loop t (rootp (nil t) s) = Some t1" "at t1 Top (ins_fix C s)" "same_shape t t1"
    using insert_fix_loop_law [OF assms(1-3)] by blast
  obtain l a c e r where f: "ins_fix C s = Nd l a c e r" using assms(4) by (cases "ins_fix C s") auto
  have "rroot t1 = a" using t1(2) f by (simp add: at_def)
  moreover obtain t2 where "set_color t1 a BLACK = Some t2" "at t2 Top (Nd l a BLACK e r)" "same_shape t1 t2"
    using set_color_law [OF t1(2) [unfolded f]] by blast
  ultimately show ?thesis using t1(1,3) f by (auto simp: insert_fix_up_def intro: same_shape_trans)
qed

section \<open>Red-black invariants\<close>

fun invc :: "'e rtree \<Rightarrow> bool" where
  "invc Lf = True"
| "invc (Nd l a c e r) = (invc l \<and> invc r \<and> (c = RED \<longrightarrow> rcol l = BLACK \<and> rcol r = BLACK))"

fun bheight :: "'e rtree \<Rightarrow> nat" where
  "bheight Lf = 0"
| "bheight (Nd l a c e r) = (if c = BLACK then Suc (bheight l) else bheight l)"

fun invh :: "'e rtree \<Rightarrow> bool" where
  "invh Lf = True"
| "invh (Nd l a c e r) = (invh l \<and> invh r \<and> bheight l = bheight r)"

definition rbt :: "'e rtree \<Rightarrow> bool" where
  "rbt s \<longleftrightarrow> invc s \<and> invh s \<and> rcol s = BLACK"

fun cinvc :: "'e ctx \<Rightarrow> color \<Rightarrow> bool" where
  "cinvc Top d = (d = BLACK)"
| "cinvc (CL C a c e r) d = (invc r \<and> (c = RED \<longrightarrow> d = BLACK \<and> rcol r = BLACK) \<and> cinvc C c)"
| "cinvc (CR l a c e C) d = (invc l \<and> (c = RED \<longrightarrow> d = BLACK \<and> rcol l = BLACK) \<and> cinvc C c)"

fun cinvh :: "'e ctx \<Rightarrow> nat \<Rightarrow> bool" where
  "cinvh Top h = True"
| "cinvh (CL C a c e r) h = (invh r \<and> bheight r = h \<and> cinvh C (if c = BLACK then Suc h else h))"
| "cinvh (CR l a c e C) h = (invh l \<and> bheight l = h \<and> cinvh C (if c = BLACK then Suc h else h))"

lemma rbt_plug: "rbt (plug C s) \<longleftrightarrow> invc s \<and> cinvc C (rcol s) \<and> invh s \<and> cinvh C (bheight s)"
proof (induction C arbitrary: s)
  case Top
  show ?case by (simp add: rbt_def) blast
next
  case (CL C a c e r)
  show ?case by (cases c; cases "bheight s = bheight r") (auto simp: CL.IH)
next
  case (CR l a c e C)
  show ?case by (cases c; cases "bheight s = bheight l") (auto simp: CR.IH)
qed

lemma cinvc_red_ok: "cinvc C d \<Longrightarrow> red_ok C"
  by (induction C arbitrary: d) auto

lemma cinvc_any: "cinvc C BLACK \<Longrightarrow> ccol C = BLACK \<Longrightarrow> C \<noteq> Top \<Longrightarrow> cinvc C d"
  by (cases C) auto

lemma cinvc_weaken: "cinvc C d \<Longrightarrow> cinvc C BLACK"
  by (cases C) auto

lemma paint_simps [simp]:
  "rcol s = BLACK \<Longrightarrow> paint BLACK s = s" "invc s \<Longrightarrow> invc (paint BLACK s)" "rcol (paint BLACK s) = BLACK"
  "invh (paint c s) = invh s" "nodes (paint c s) = nodes s" "rcol s = RED \<Longrightarrow> bheight (paint BLACK s) = Suc (bheight s)"
  by (cases s; auto)+

lemma ins_fix_nodes: "nodes (ins_fix C s) = lefts C @ nodes s @ rights C"
  by (induction C s rule: ins_fix.induct) (auto simp: nodes_plug)

lemma ins_fix_rbt_black:
  assumes "invc s" "invh s" "cinvc C BLACK" "cinvh C (bheight s)" "ccol C = BLACK"
  shows "rbt (paint BLACK (ins_fix C s))"
proof (cases "C = Top")
  case True
  then show ?thesis using assms by (auto simp: rbt_def)
next
  case False
  then have "rbt (plug C s)" using assms by (simp add: rbt_plug cinvc_any)
  then show ?thesis using assms(5) by (simp add: ins_fix_black rbt_def)
qed

lemma rbt_paint: "rbt s \<Longrightarrow> rbt (paint BLACK s)"
  by (simp add: rbt_def)

lemma ins_fix_rbt:
  assumes "invc s" "invh s" "rcol s = RED" "cinvc C BLACK" "cinvh C (bheight s)"
  shows "rbt (paint BLACK (ins_fix C s))"
  using assms
proof (induction C s rule: ins_fix.induct)
  case (1 C g cg ge u p pe s n)
  then show ?case
    by (cases cg; cases "rcol u") (auto simp: rbt_plug rbt_paint)
next
  case (2 s p pe C g cg ge u l n c e r)
  then show ?case
    by (cases cg; cases "rcol u") (auto simp: rbt_plug rbt_paint)
next
  case (3 s p pe u g cg ge C n)
  then show ?case
    by (cases cg; cases "rcol u") (auto simp: rbt_plug rbt_paint)
next
  case (4 u g cg ge C p pe s l n c e r)
  then show ?case
    by (cases cg; cases "rcol u") (auto simp: rbt_plug rbt_paint)
qed (simp_all add: ins_fix_rbt_black del: ins_fix.simps)

section \<open>Search and insertion\<close>

text \<open>What \<open>map.h\<close> documents of a comparison function, on keys with a linear order.\<close>

definition compares :: "('k::linorder \<Rightarrow> 'k \<Rightarrow> int) \<Rightarrow> bool" where
  "compares cmp \<longleftrightarrow> (\<forall>a b. cmp a b = (if a = b then 0 else if a < b then -1 else 1))"

lemma key_tests [simp]:
  assumes "compares cmp"
  shows "key_equal cmp a b = (a = b)" "key_less cmp a b = (a < b)"
  using assms by (auto simp: compares_def key_equal_def key_less_def)

definition tkeys :: "(addr \<times> 'k \<times> 'v) list \<Rightarrow> 'k list" where
  "tkeys xs = map (\<lambda>(a, k, v). k) xs"

lemma tkeys_simps [simp]:
  "tkeys [] = []" "tkeys (x # xs) = fst (snd x) # tkeys xs" "tkeys (xs @ ys) = tkeys xs @ tkeys ys"
  by (auto simp: tkeys_def split: prod.splits)

lemma tkeys_in: "(a, k, v) \<in> set xs \<Longrightarrow> k \<in> set (tkeys xs)"
  by (induction xs) auto

lemma tkeys_unique:
  "(a, k, v) \<in> set xs \<Longrightarrow> sorted_wrt (<) (tkeys xs) \<Longrightarrow> (b, k, w) \<in> set xs \<Longrightarrow> b = a \<and> w = (v :: 'v)"
  for k :: "'k::linorder"
proof (induction xs)
  case (Cons x xs)
  then show ?case using tkeys_in [of a k v xs] tkeys_in [of b k w xs] by auto
qed simp

definition around :: "('k::linorder \<times> 'v) ctx \<Rightarrow> 'k \<Rightarrow> bool" where
  "around C key \<longleftrightarrow> (\<forall>k \<in> set (tkeys (lefts C)). k < key) \<and> (\<forall>k \<in> set (tkeys (rights C)). key < k)"

definition found :: "('k, 'v) rb \<Rightarrow> ('k \<times> 'v) rtree \<Rightarrow> 'k \<Rightarrow> addr \<Rightarrow> bool" where
  "found t s key a \<longleftrightarrow> (\<exists>C l c v r. plug C (Nd l a c (key, v) r) = s \<and> at t C (Nd l a c (key, v) r))"

lemma find_loop_law:
  fixes t :: "('k::linorder, 'v) rb"
  assumes cmp: "compares cmp"
  shows "\<lbrakk>at t C s; sorted_wrt (<) (tkeys (nodes s)); around C key; s = Lf \<longrightarrow> pre = cpar (nil t) C\<rbrakk> \<Longrightarrow>
    (\<exists>a. find_loop cmp t key (rootp (nil t) s) pre = Some a \<and> found t (plug C s) key a) \<or>
    (\<exists>C'. find_loop cmp t key (rootp (nil t) s) pre = Some (cpar (nil t) C') \<and> plug C' Lf = plug C s \<and> around C' key)"
proof (induction s arbitrary: C pre)
  case Lf
  then have "find_loop cmp t key (nil t) pre = Some (cpar (nil t) C)" by (subst find_loop.simps) simp
  then show ?case using Lf.prems(3) by auto
next
  case (Nd l a c e r)
  obtain k v where e: "e = (k, v)" by (cases e)
  have nn: "a \<noteq> nil t" using at_nonnil [OF Nd.prems(1)] by simp
  note h = at_head [OF Nd.prems(1)]
  show ?case
  proof (cases "key = k")
    case True
    then have "find_loop cmp t key a pre = Some a" using nn h e cmp by (subst find_loop.simps) (simp add: get_key_def)
    then show ?thesis using Nd.prems(1) e True by (auto simp: found_def)
  next
    case False
    have step: "find_loop cmp t key a pre =
        find_loop cmp t key (if key < k then rootp (nil t) l else rootp (nil t) r) a"
      using nn h e cmp False by (subst find_loop.simps) (simp add: get_key_def)
    have sl: "sorted_wrt (<) (tkeys (nodes l))" "sorted_wrt (<) (tkeys (nodes r))"
      "\<forall>x \<in> set (tkeys (nodes l)). x < k" "\<forall>x \<in> set (tkeys (nodes r)). k < x"
      using Nd.prems(2) e by (auto simp: sorted_wrt_append)
    show ?thesis
    proof (cases "key < k")
      case True
      have "around (CL C a c e r) key" using Nd.prems(3) True sl(4) e by (auto simp: around_def dest: less_trans)
      then show ?thesis using Nd.IH(1) [of "CL C a c e r" a] Nd.prems(1) sl(1) step True by (simp add: at_move)
    next
      case lt: False
      with False have gt: "k < key" by simp
      have "around (CR l a c e C) key" using Nd.prems(3) gt sl(3) e by (auto simp: around_def dest: less_trans)
      then show ?thesis using Nd.IH(2) [of "CR l a c e C" a] Nd.prems(1) sl(2) step lt by (simp add: at_move)
    qed
  qed
qed

lemma rb_find_law:
  fixes t :: "('k::linorder, 'v) rb"
  assumes "compares cmp" "at t Top s" "sorted_wrt (<) (tkeys (nodes s))"
  shows "(\<exists>a. rb_find cmp t key = Some a \<and> found t s key a) \<or>
    (\<exists>C. rb_find cmp t key = Some (cpar (nil t) C) \<and> plug C Lf = s \<and> around C key)"
proof (cases s)
  case Lf
  then show ?thesis using assms(2) by (intro disjI2 exI [of _ Top]) (auto simp: rb_find_def at_def around_def)
next
  case (Nd l a c e r)
  then have "rroot t = a" "a \<noteq> nil t" using assms(2) by (auto simp: at_def)
  then show ?thesis using find_loop_law [OF assms, of key a] Nd by (simp add: rb_find_def around_def)
qed

lemma found_key: "found t s key a \<Longrightarrow> \<exists>v. (a, key, v) \<in> set (nodes s)"
  by (auto simp: found_def nodes_plug)

lemma found_node: "found t s key a \<Longrightarrow> a \<noteq> nil t \<and> a \<noteq> NULL \<and> (\<exists>n. rnodes t a = Some n \<and> get_key n = key)"
  unfolding found_def using at_nonnil at_head by (fastforce simp: get_key_def)

lemma around_notin: "around C key \<Longrightarrow> key \<notin> set (tkeys (nodes (plug C Lf)))"
  by (auto simp: around_def nodes_plug)

definition rb_rep :: "('k::linorder, 'v) rb \<Rightarrow> ('k \<times> 'v) rtree \<Rightarrow> bool" where
  "rb_rep t s \<longleftrightarrow> at t Top s \<and> rbt s \<and> sorted_wrt (<) (tkeys (nodes s)) \<and>
     dom (rnodes t) = insert (nil t) (set (addrs s)) \<and> rsize t = word_of_nat (length (nodes s))"

lemma RBtree_create_rep: "z \<noteq> NULL \<Longrightarrow> rb_rep (RBtree_create z junk) Lf"
  by (simp add: rb_rep_def at_def RBtree_create_def rbt_def)

text \<open>Hanging a new red leaf into the hole of a context.\<close>

definition hang :: "('k, 'v) rb \<Rightarrow> addr \<Rightarrow> addr \<Rightarrow> bool \<Rightarrow> 'k \<times> 'v \<Rightarrow> ('k, 'v) rb option" where
  "hang t n x left e = do {
     let t4 = t\<lparr>rnodes := (rnodes t)(n \<mapsto> \<lparr>rparent = x, rleft = nil t, rright = nil t, rcolor = RED, rdata = e\<rparr>)\<rparr>;
     if x = nil t then Some (t4\<lparr>rroot := n\<rparr>)
     else if left then set_left t4 x n else set_right t4 x n }"

lemma rep_dom: "rep h z p s \<Longrightarrow> set (addrs s) \<subseteq> dom h"
  by (induction s arbitrary: p) (simp_all, blast)

lemma rep_ctx_dom: "rep_ctx h z rt C q \<Longrightarrow> set (caddrs C) \<subseteq> dom h"
  by (induction C arbitrary: q) (simp_all, (metis Un_subset_iff domI insert_subset rep_dom)+)

lemma at_dom: "at t C s \<Longrightarrow> set (caddrs C) \<union> set (addrs s) \<union> {nil t} \<subseteq> dom (rnodes t)"
  unfolding at_def using rep_dom rep_ctx_dom by fastforce

lemma hang_law:
  assumes at: "at t C Lf" and n: "n \<notin> dom (rnodes t)" "n \<noteq> NULL"
    and left: "\<forall>C' a c e r. C = CL C' a c e r \<longrightarrow> left" "\<forall>l a c e C'. C = CR l a c e C' \<longrightarrow> \<not> left"
  shows "\<exists>t'. hang t n (cpar (nil t) C) left e = Some t' \<and> at t' C (Nd Lf n RED e Lf) \<and> nil t' = nil t \<and>
    rsize t' = rsize t \<and> dom (rnodes t') = insert n (dom (rnodes t))"
proof -
  have dm: "n \<notin> set (caddrs C)" "n \<noteq> nil t" using at_dom [OF at] n(1) by auto
  show ?thesis
  proof (cases C)
    case Top
    then show ?thesis using at n dm by (auto simp: hang_def at_def)
  next
    case (CL C' a c e' r)
    then show ?thesis using at n dm left
      by (auto simp: hang_def at_def writes frame distinct_addrs_plug)
  next
    case (CR l a c e' C')
    then show ?thesis using at n dm left
      by (auto simp: hang_def at_def writes frame distinct_addrs_plug)
  qed
qed

lemma insert_hang:
  assumes "compares cmp" "rb_find cmp t key = Some x" "rnodes t x = Some xn" "x = nil t \<or> get_key xn \<noteq> key"
    "n \<noteq> NULL" "n \<noteq> x" "n \<notin> dom (rnodes t)"
  shows "RBtree_insert cmp t key val n junk = do {
     t5 \<leftarrow> hang t n x (key < get_key xn) (key, val);
     t6 \<leftarrow> insert_fix_up (t5\<lparr>rsize := rsize t5 + 1\<rparr>) n;
     Some (t6, n) }"
proof -
  have "(x \<noteq> nil t \<and> key = get_key xn) = False" using assms(4) by auto
  then show ?thesis using assms
    by (cases junk) (auto simp: RBtree_insert_def hang_def create_node_def writes Let_def)
qed

lemma at_size [simp]: "at (t\<lparr>rsize := m\<rparr>) C s = at t C s"
  by (simp add: at_def)

lemma around_parent:
  assumes "at t C Lf" "around C key"
  shows "\<exists>xn. rnodes t (cpar (nil t) C) = Some xn \<and> (cpar (nil t) C = nil t \<or> get_key xn \<noteq> key) \<and>
    (\<forall>C' a c e r. C = CL C' a c e r \<longrightarrow> key < get_key xn) \<and> (\<forall>l a c e C'. C = CR l a c e C' \<longrightarrow> get_key xn < key)"
  using assms by (cases C) (auto simp: at_def around_def get_key_def)

lemma insert_new_law:
  fixes t :: "('k::linorder, 'v) rb"
  assumes cmp: "compares cmp" and rep: "rb_rep t s" and n: "n \<notin> dom (rnodes t)" "n \<noteq> NULL"
    and new: "key \<notin> set (tkeys (nodes s))"
  shows "\<exists>t' s'. RBtree_insert cmp t key val n junk = Some (t', n) \<and> rb_rep t' s' \<and>
    set (nodes s') = insert (n, key, val) (set (nodes s)) \<and> nil t' = nil t"
proof -
  have at: "at t Top s" and srt: "sorted_wrt (<) (tkeys (nodes s))" and rb: "rbt s"
    and dm: "dom (rnodes t) = insert (nil t) (set (addrs s))" and sz: "rsize t = word_of_nat (length (nodes s))"
    using rep by (auto simp: rb_rep_def)
  have "\<not> found t s key a" for a using new found_key [of t s key a] by (force simp: tkeys_def)
  then obtain C where C: "rb_find cmp t key = Some (cpar (nil t) C)" "plug C Lf = s" "around C key"
    using rb_find_law [OF cmp at srt, of key] by auto
  have atC: "at t C Lf" using at C(2) at_plug [of t C Lf] by simp
  obtain xn where xn: "rnodes t (cpar (nil t) C) = Some xn" "cpar (nil t) C = nil t \<or> get_key xn \<noteq> key"
      "\<forall>C' a c e r. C = CL C' a c e r \<longrightarrow> key < get_key xn" "\<forall>l a c e C'. C = CR l a c e C' \<longrightarrow> \<not> key < get_key xn"
    using around_parent [OF atC C(3)] by (auto dest: less_not_sym)
  obtain t5 where t5: "hang t n (cpar (nil t) C) (key < get_key xn) (key, val) = Some t5"
      "at t5 C (Nd Lf n RED (key, val) Lf)" "nil t5 = nil t" "rsize t5 = rsize t" "dom (rnodes t5) = insert n (dom (rnodes t))"
    using hang_law [OF atC n xn(3,4), of "(key, val)"] by auto
  let ?s = "Nd Lf n RED (key, val) Lf"
  have inv: "cinvc C BLACK" "cinvh C 0" using rb C(2) rbt_plug [of C Lf] by auto
  have ne: "ins_fix C ?s \<noteq> Lf" using ins_fix_nodes [of C ?s] by auto
  define t5' where "t5' = t5\<lparr>rsize := rsize t5 + 1\<rparr>"
  have at5: "at t5' C ?s" using t5(2) by (simp add: t5'_def)
  obtain t6 where t6: "insert_fix_up t5' n = Some t6" "at t6 Top (paint BLACK (ins_fix C ?s))" "same_shape t5' t6"
    using insert_fix_up_law [OF at5 _ cinvc_red_ok [OF inv(1)] ne] by auto
  let ?f = "paint BLACK (ins_fix C ?s)"
  have nx: "n \<noteq> cpar (nil t) C" using xn(1) n(1) by auto
  have nodes': "nodes ?f = lefts C @ (n, key, val) # rights C" by (simp add: ins_fix_nodes)
  have nodes: "nodes s = lefts C @ rights C" using C(2) nodes_plug [of C Lf] by simp
  have "RBtree_insert cmp t key val n junk = Some (t6, n)"
    using insert_hang [OF cmp C(1) xn(1,2) n(2) nx n(1)] t5(1) t6(1) by (simp add: t5'_def)
  moreover have "rb_rep t6 ?f"
  proof -
    have "rbt ?f" by (rule ins_fix_rbt) (use inv in auto)
    moreover have "sorted_wrt (<) (tkeys (nodes ?f))"
      using srt C(3) unfolding nodes nodes' by (auto simp: sorted_wrt_append around_def)
    moreover have "rsize t6 = word_of_nat (length (nodes ?f))"
      using t6(3) t5(4) sz unfolding nodes nodes' by (simp add: same_shape_def t5'_def)
    moreover have "dom (rnodes t6) = insert (nil t6) (set (addrs ?f))"
      using t6(3) t5(3,5) dm unfolding addrs_def nodes nodes' by (auto simp: same_shape_def t5'_def)
    ultimately show ?thesis using t6(2) by (simp add: rb_rep_def)
  qed
  moreover have "set (nodes ?f) = insert (n, key, val) (set (nodes s))" unfolding nodes nodes' by auto
  moreover have "nil t6 = nil t" using t6(3) t5(3) by (simp add: same_shape_def t5'_def)
  ultimately show ?thesis by blast
qed

lemma insert_dup_law:
  fixes t :: "('k::linorder, 'v) rb"
  assumes cmp: "compares cmp" and rep: "rb_rep t s" and key: "key \<in> set (tkeys (nodes s))"
  shows "RBtree_insert cmp t key val n junk = Some (t, RBtree_end t)"
proof -
  have "\<not> (plug C Lf = s \<and> around C key)" for C using key around_notin by blast
  then obtain a where a: "rb_find cmp t key = Some a" "found t s key a"
    using rb_find_law [OF cmp, of t s key] rep by (auto simp: rb_rep_def)
  then show ?thesis using found_node [OF a(2)] cmp by (auto simp: RBtree_insert_def)
qed

lemma find_law:
  fixes t :: "('k::linorder, 'v) rb"
  assumes cmp: "compares cmp" and rep: "rb_rep t s"
  shows "(\<forall>a v. (a, key, v) \<in> set (nodes s) \<longrightarrow> RBtree_find cmp t key = Some a \<and> rb_iter_get_second t a = Some v) \<and>
    (key \<notin> set (tkeys (nodes s)) \<longrightarrow> RBtree_find cmp t key = Some (RBtree_end t))"
proof (cases "key \<in> set (tkeys (nodes s))")
  case True
  then have "\<not> (plug C Lf = s \<and> around C key)" for C using around_notin by blast
  then obtain a where a: "rb_find cmp t key = Some a" "found t s key a"
    using rb_find_law [OF cmp, of t s key] rep by (auto simp: rb_rep_def)
  have f: "RBtree_find cmp t key = Some a" using found_node [OF a(2)] a(1) cmp by (auto simp: RBtree_find_def)
  obtain C l c v r where v: "plug C (Nd l a c (key, v) r) = s" "at t C (Nd l a c (key, v) r)"
    using a(2) by (auto simp: found_def)
  have g: "rb_iter_get_second t a = Some v" using at_head [OF v(2)] by (simp add: rb_iter_get_second_def get_value_def)
  have "(a, key, v) \<in> set (nodes s)" using v(1) [symmetric] by (simp add: nodes_plug)
  moreover have "sorted_wrt (<) (tkeys (nodes s))" using rep by (simp add: rb_rep_def)
  ultimately have "(b, key, w) \<in> set (nodes s) \<Longrightarrow> b = a \<and> w = v" for b w by (rule tkeys_unique)
  then show ?thesis using True f g by auto
next
  case False
  have "\<not> found t s key a" for a using False found_key [of t s key a] by (force simp: tkeys_def)
  then obtain C where C: "rb_find cmp t key = Some (cpar (nil t) C)" "plug C Lf = s" "around C key"
    using rb_find_law [OF cmp, of t s key] rep by (auto simp: rb_rep_def)
  have atC: "at t C Lf" using rep C(2) at_plug [of t C Lf] by (simp add: rb_rep_def)
  have "RBtree_find cmp t key = Some (RBtree_end t)"
    using around_parent [OF atC C(3)] C(1) cmp by (auto simp: RBtree_find_def RBtree_end_def)
  moreover have "(a, key, v) \<notin> set (nodes s)" for a v using False by (force simp: tkeys_def)
  ultimately show ?thesis by auto
qed

text \<open>
  Claim C21. Insertion into a red-black tree: with a fresh node from \<open>malloc\<close> a new key is stored
  and the result is again a red-black search tree with exactly the old nodes and the new one, whose
  address is returned; a key that is present leaves the tree unchanged and yields the end iterator.
\<close>

theorem RBtree_insert_correct:
  fixes t :: "('k::linorder, 'v) rb"
  assumes "compares cmp" "rb_rep t s" "n \<notin> dom (rnodes t)" "n \<noteq> NULL"
  shows "if key \<in> set (tkeys (nodes s)) then RBtree_insert cmp t key val n junk = Some (t, RBtree_end t)
    else \<exists>t' s'. RBtree_insert cmp t key val n junk = Some (t', n) \<and> rb_rep t' s' \<and>
      set (nodes s') = insert (n, key, val) (set (nodes s)) \<and> nil t' = nil t"
proof (cases "key \<in> set (tkeys (nodes s))")
  case True
  then show ?thesis by (simp add: insert_dup_law [OF assms(1,2)])
next
  case False
  then show ?thesis using insert_new_law [OF assms False] by (simp only: if_False)
qed

definition int_cmp :: "int \<Rightarrow> int \<Rightarrow> int" where
  "int_cmp a b = (if a = b then 0 else if a < b then -1 else 1)"

lemma int_cmp_compares: "compares int_cmp"
  by (simp add: compares_def int_cmp_def)

definition rb_junk :: "(int \<times> nat) rbnode" where
  "rb_junk = \<lparr>rparent = 3, rleft = 4, rright = 5, rcolor = RED, rdata = (0, 0)\<rparr>"

theorem RBtree_insert_correct_witness:
  "\<exists>t1 s1 t2 s2. RBtree_insert int_cmp (RBtree_create 9 rb_junk) 5 50 10 rb_junk = Some (t1, 10) \<and>
     rb_rep t1 s1 \<and> set (nodes s1) = {(10, 5, 50)} \<and> RBtree_insert int_cmp t1 2 20 11 rb_junk = Some (t2, 11) \<and>
     rb_rep t2 s2 \<and> set (nodes s2) = {(11, 2, 20), (10, 5, 50)}"
proof -
  have 0: "rb_rep (RBtree_create 9 rb_junk) (Lf :: (int \<times> nat) rtree)" "dom (rnodes (RBtree_create 9 rb_junk)) = {9}"
    by (rule RBtree_create_rep) (simp_all add: RBtree_create_def)
  obtain t1 s1 where 1: "RBtree_insert int_cmp (RBtree_create 9 rb_junk) 5 50 10 rb_junk = Some (t1, 10)" "rb_rep t1 s1"
    "set (nodes s1) = {(10, 5, 50)}" "nil t1 = 9"
    using RBtree_insert_correct [OF int_cmp_compares 0(1), of 10 5 50 rb_junk] 0(2) by (auto simp: RBtree_create_def)
  have d: "11 \<notin> dom (rnodes t1)" using 1(2-4) by (auto simp: rb_rep_def addrs_def)
  have "2 \<notin> set (tkeys (nodes s1))" using 1(3) by (auto simp: tkeys_def)
  then obtain t2 s2 where "RBtree_insert int_cmp t1 2 20 11 rb_junk = Some (t2, 11)" "rb_rep t2 s2"
    "set (nodes s2) = {(11, 2, 20), (10, 5, 50)}"
    using RBtree_insert_correct [OF int_cmp_compares 1(2) d, of 2 20 rb_junk] 1(3) by auto
  with 1 show ?thesis by metis
qed

text \<open>
  Search: a stored key is found at its node, with its value; any other key yields the end
  iterator.
\<close>

theorem RBtree_find_correct:
  fixes t :: "('k::linorder, 'v) rb"
  assumes "compares cmp" "rb_rep t s"
  shows "((a, key, v) \<in> set (nodes s) \<longrightarrow> RBtree_find cmp t key = Some a \<and> rb_iter_get_second t a = Some v) \<and>
    (key \<notin> set (tkeys (nodes s)) \<longrightarrow> RBtree_find cmp t key = Some (RBtree_end t))"
  using find_law [OF assms] by blast

definition rb_leaf :: "(int, nat) rb" where
  "rb_leaf = \<lparr>rnodes = [9 \<mapsto> rb_junk\<lparr>rcolor := BLACK\<rparr>,
     10 \<mapsto> \<lparr>rparent = 9, rleft = 9, rright = 9, rcolor = BLACK, rdata = (5, 50)\<rparr>], rroot = 10, nil = 9, rsize = 1\<rparr>"

lemma rb_leaf_rep: "rb_rep rb_leaf (Nd Lf 10 BLACK (5, 50) Lf)"
  by (auto simp: rb_rep_def at_def rb_leaf_def rbt_def)

theorem RBtree_find_correct_witness:
  "RBtree_find int_cmp rb_leaf 5 = Some 10 \<and> rb_iter_get_second rb_leaf 10 = Some 50 \<and>
   RBtree_find int_cmp rb_leaf 7 = Some (RBtree_end rb_leaf)"
  using RBtree_find_correct [OF int_cmp_compares rb_leaf_rep, of 10 5 50]
    RBtree_find_correct [OF int_cmp_compares rb_leaf_rep, of 10 7 50] by simp

section \<open>Iteration\<close>

definition first_addr :: "addr \<Rightarrow> (addr \<times> 'e) list \<Rightarrow> addr" where
  "first_addr z xs = (case xs of [] \<Rightarrow> z | x # _ \<Rightarrow> fst x)"

lemma first_addr_simps [simp]: "first_addr z [] = z" "first_addr z (x # xs) = fst x"
  by (simp_all add: first_addr_def)

lemma minimum_law:
  "at t C s \<Longrightarrow> s \<noteq> Lf \<Longrightarrow> minimum t (rootp (nil t) s) = Some (first_addr (nil t) (nodes s))"
proof (induction s arbitrary: C)
  case (Nd l a c e r)
  note h = at_head [OF Nd.prems(1)]
  show ?case
  proof (cases l)
    case Lf
    then show ?thesis using h by (subst minimum.simps) simp
  next
    case l: (Nd l1 b d f l2)
    have at: "at t (CL C a c e r) l" using Nd.prems(1) by (simp add: at_move)
    have "b \<noteq> nil t" using at_nonnil [OF at [unfolded l]] by simp
    then have "minimum t a = minimum t (rootp (nil t) l)" using h l by (subst minimum.simps) simp
    also have "\<dots> = Some (first_addr (nil t) (nodes l))" using Nd.IH(1) [OF at] l by simp
    also have "first_addr (nil t) (nodes l) = first_addr (nil t) (nodes (Nd l a c e r))"
      using l by (cases "nodes l") auto
    finally show ?thesis by simp
  qed
qed simp

lemma succ_loop_law:
  "at t C s \<Longrightarrow> s \<noteq> Lf \<Longrightarrow> succ_loop t (rootp (nil t) s) (cpar (nil t) C) = Some (first_addr (nil t) (rights C))"
proof (induction C arbitrary: s)
  case Top
  then show ?case by (subst succ_loop.simps) simp
next
  case (CL C a c e r)
  have at: "at t C (Nd s a c e r)" using CL.prems(1) by (simp add: at_move)
  obtain l n d f q where s: "s = Nd l n d f q" using CL.prems(2) by (cases s) auto
  have "n \<noteq> rootp (nil t) r" using at rootp_neq [of n "nil t" r] s by (auto simp: at_def distinct_addrs_plug)
  then show ?case using at_head [OF at] at_nonnil [OF at] s by (subst succ_loop.simps) simp
next
  case (CR l a c e C)
  have at: "at t C (Nd l a c e s)" using CR.prems(1) by (simp add: at_move)
  then show ?case using CR.IH [OF at] at_head [OF at] at_nonnil [OF at] by (subst succ_loop.simps) simp
qed

lemma successor_law:
  assumes "at t C (Nd l a c e r)"
  shows "successor t a = Some (first_addr (nil t) (nodes r @ rights C))"
proof (cases r)
  case Lf
  then show ?thesis using succ_loop_law [OF assms] at_head [OF assms] by (simp add: successor_def)
next
  case (Nd r1 b d f r2)
  have at: "at t (CR l a c e C) r" using assms by (simp add: at_move)
  have "b \<noteq> nil t" using at_nonnil [OF at [unfolded Nd]] by simp
  moreover have "first_addr (nil t) (nodes r @ rights C) = first_addr (nil t) (nodes r)"
    using Nd by (cases "nodes r1") auto
  ultimately show ?thesis using minimum_law [OF at] at_head [OF assms] Nd by (simp add: successor_def)
qed

lemma focus_exists: "(a, e) \<in> set (nodes s) \<Longrightarrow> \<exists>C l c r. plug C (Nd l a c e r) = plug C0 s"
proof (induction s arbitrary: C0)
  case (Nd l b c f r)
  then consider "(a, e) \<in> set (nodes l)" | "a = b" "e = f" | "(a, e) \<in> set (nodes r)" by auto
  then show ?case
  proof cases
    case 1
    from Nd.IH(1) [OF this, of "CL C0 b c f r"] show ?thesis unfolding plug.simps .
  next
    case 2
    then show ?thesis by (intro exI [of _ C0] exI [of _ l] exI [of _ c] exI [of _ r]) simp
  next
    case 3
    from Nd.IH(2) [OF this, of "CR l b c f C0"] show ?thesis unfolding plug.simps .
  qed
qed simp

text \<open>The successor of a node is the next node of the in-order sequence.\<close>

lemma successor_next:
  assumes at: "at t Top s" and nd: "nodes s = xs @ (a, e) # ys"
  shows "successor t a = Some (first_addr (nil t) ys) \<and> (\<exists>n. rnodes t a = Some n \<and> rdata n = e) \<and> a \<noteq> nil t \<and> a \<noteq> NULL"
proof -
  obtain C l c r where C: "plug C (Nd l a c e r) = s"
    using focus_exists [of a e s Top] nd by auto
  have atC: "at t C (Nd l a c e r)" using at C at_plug [of t C "Nd l a c e r"] by simp
  have nd2: "nodes s = (lefts C @ nodes l) @ (a, e) # (nodes r @ rights C)" using C [symmetric] by (simp add: nodes_plug)
  have d: "distinct (map fst (nodes s))" using at by (simp add: at_def addrs_def)
  have "a \<notin> fst ` set xs" using d unfolding nd by simp
  moreover have "a \<notin> fst ` set ys" using d unfolding nd by simp
  ultimately have "(a, e) \<notin> set xs" "(a, e) \<notin> set ys" by (metis fst_conv image_eqI)+
  then have "ys = nodes r @ rights C"
    using nd nd2 append_Cons_eq_iff [of "(a, e)" xs ys "lefts C @ nodes l" "nodes r @ rights C"] by simp
  then show ?thesis using successor_law [OF atC] at_head [OF atC] at_nonnil [OF atC] by simp
qed

text \<open>The loop of a client: from \<open>it\<close> to the end iterator by \<open>next\<close>, in at most \<open>k\<close> steps.\<close>

fun rb_walk :: "'e rbtree \<Rightarrow> nat \<Rightarrow> addr \<Rightarrow> 'e list option" where
  "rb_walk t 0 it = None"
| "rb_walk t (Suc k) it =
     (if it = RBtree_end t then Some []
      else do {
        n \<leftarrow> rnodes t it;
        q \<leftarrow> RB_iter_next t it;
        xs \<leftarrow> rb_walk t k q;
        Some (rdata n # xs) })"

lemma rb_walk_law:
  assumes at: "at t Top s"
  shows "nodes s = xs @ ys \<Longrightarrow> length ys < k \<Longrightarrow> rb_walk t k (first_addr (nil t) ys) = Some (map snd ys)"
proof (induction ys arbitrary: xs k)
  case Nil
  then show ?case by (cases k) (auto simp: RBtree_end_def)
next
  case (Cons y ys)
  obtain a e where y: "y = (a, e)" by (cases y)
  obtain k' where k: "k = Suc k'" "length ys < k'" using Cons.prems(2) by (cases k) auto
  have sc: "successor t a = Some (first_addr (nil t) ys)" "\<exists>n. rnodes t a = Some n \<and> rdata n = e" "a \<noteq> nil t"
    using successor_next [OF at] Cons.prems(1) y by auto
  have "first_addr (nil t) ys \<noteq> NULL"
  proof (cases ys)
    case Nil
    then show ?thesis using at by (simp add: at_def)
  next
    case zs: (Cons z zs)
    then show ?thesis using successor_next [OF at, of "xs @ [y]" "fst z" "snd z" zs] Cons.prems(1) by simp
  qed
  moreover have "rb_walk t k' (first_addr (nil t) ys) = Some (map snd ys)"
    using Cons.IH [of "xs @ [y]" k'] Cons.prems(1) k(2) by simp
  ultimately show ?case using sc y k by (auto simp: RBtree_end_def RB_iter_next_def)
qed

text \<open>
  Claim C24. Iteration: from the begin iterator of a non-empty tree, \<open>next\<close> reaches the end iterator
  after as many steps as there are nodes and visits every entry once, in increasing order of the keys.
\<close>

theorem RBtree_iteration:
  fixes t :: "('k::linorder, 'v) rb"
  assumes "rb_rep t s" "s \<noteq> Lf" "length (nodes s) < k"
  shows "\<exists>b xs. RBtree_begin t = Some b \<and> rb_walk t k b = Some xs \<and> xs = map snd (nodes s) \<and>
    sorted_wrt (<) (map fst xs)"
proof -
  have at: "at t Top s" and srt: "sorted_wrt (<) (tkeys (nodes s))" using assms(1) by (auto simp: rb_rep_def)
  obtain x xs where x: "nodes s = x # xs" using assms(2) by (cases s; cases "nodes s") auto
  have "rroot t = rootp (nil t) s" using at by (simp add: at_def)
  then have "minimum t (rroot t) = Some (fst x)" using minimum_law [OF at assms(2)] x by simp
  moreover have "fst x \<noteq> NULL" using successor_next [OF at, of "[]" "fst x" "snd x" xs] x by simp
  ultimately have "RBtree_begin t = Some (fst x)" by (simp add: RBtree_begin_def)
  moreover have "rb_walk t k (fst x) = Some (map snd (nodes s))"
    using rb_walk_law [OF at, of "[]" "nodes s" k] assms(3) x by simp
  moreover have "tkeys (nodes s) = map fst (map snd (nodes s))" by (auto simp: tkeys_def)
  ultimately show ?thesis using srt by auto
qed

theorem RBtree_iteration_witness:
  "\<exists>b xs. RBtree_begin rb_leaf = Some b \<and> rb_walk rb_leaf 2 b = Some xs \<and> xs = [(5, 50)]"
  using RBtree_iteration [OF rb_leaf_rep, of 2] by auto

text \<open>
  The begin iterator of a new tree follows the uninitialised \<open>left\<close> pointer of the
  sentinel: the access is invalid unless \<open>malloc\<close> happened to leave the sentinel's own address there.
\<close>

theorem RBtree_begin_empty_crashes:
  assumes "rleft junk \<noteq> z"
  shows "RBtree_begin (RBtree_create z junk) = None"
proof -
  let ?t = "RBtree_create z junk"
  have "minimum ?t (rleft junk) = None"
    using assms by (subst minimum.simps) (simp add: RBtree_create_def)
  then have "minimum ?t z = None"
    using assms by (subst minimum.simps) (simp add: RBtree_create_def)
  then show ?thesis by (simp add: RBtree_begin_def RBtree_create_def)
qed

theorem RBtree_begin_empty_crashes_witness: "RBtree_begin (RBtree_create 9 rb_junk) = None"
  by (rule RBtree_begin_empty_crashes) (simp add: rb_junk_def)

section \<open>Erasing through an iterator\<close>

text \<open>
  Erasing at an iterator whose node has a left child only does not return the successor: the
  entry of the left child is moved into the node and the returned iterator is that node, so it refers
  to a smaller key than the erased one.
\<close>

theorem RBtree_erase_returns_predecessor:
  fixes t :: "('k::linorder, 'v) rb"
  assumes cmp: "compares cmp" and rep: "rb_rep t (plug C (Nd (Nd Lf x RED (kx, vx) Lf) n BLACK (k, v) Lf))"
  shows "\<exists>t'. RBtree_erase cmp t n = Some (t', n) \<and> rb_iter_get_first t' n = Some kx \<and> kx < k"
proof -
  let ?s = "Nd (Nd Lf x RED (kx, vx) Lf) n BLACK (k, v) Lf"
  have srt: "sorted_wrt (<) (tkeys (nodes (plug C ?s)))" and at: "at t C ?s"
    using rep at_plug [of t C ?s] by (auto simp: rb_rep_def)
  have at0: "at t Top (plug C ?s)" using rep by (simp add: rb_rep_def)
  have lt: "kx < k" using srt by (auto simp: nodes_plug sorted_wrt_append)
  have atx: "at t (CL C n BLACK (k, v) Lf) (Nd Lf x RED (kx, vx) Lf)" using at by (simp add: at_move)
  note hn = at_head [OF at] and hx = at_head [OF atx]
  have neq: "x \<noteq> n" "x \<noteq> nil t" "n \<noteq> nil t" "nil t \<noteq> NULL" "n \<noteq> NULL"
    using at by (auto simp: at_def distinct_addrs_plug)
  obtain zn where zn: "rnodes t (nil t) = Some zn" using at by (auto simp: at_def)
  have root: "rroot t \<noteq> x"
    using at rep_ctx_root_in [of "rnodes t" "nil t" "rroot t" C n] neq by (cases "C = Top") (auto simp: at_def distinct_addrs_plug)
  have "k \<in> set (tkeys (nodes (plug C ?s)))" by (simp add: nodes_plug)
  then have "around C' k \<Longrightarrow> plug C' Lf \<noteq> plug C ?s" for C'
    using around_notin [of C' k] by metis
  then obtain a where a: "rb_find cmp t k = Some a" "found t (plug C ?s) k a"
    using rb_find_law [OF cmp at0 srt, of k] by metis
  obtain v' where "(a, k, v') \<in> set (nodes (plug C ?s))" using found_key [OF a(2)] by blast
  moreover have "(n, k, v) \<in> set (nodes (plug C ?s))" by (simp add: nodes_plug)
  ultimately have "a = n" using tkeys_unique [OF _ srt] by metis
  have mx: "maxmum t x = Some x" using hx by (subst maxmum.simps) simp
  have sx: "successor t x = Some n" using successor_law [OF atx] by simp
  define t1 where "t1 = t\<lparr>rnodes := (rnodes t)(n \<mapsto> \<lparr>rparent = cpar (nil t) C, rleft = nil t, rright = nil t, rcolor = BLACK,
    rdata = (k, v)\<rparr>, nil t \<mapsto> zn\<lparr>rparent := n\<rparr>)\<rparr>"
  have un: "rb_unlink t x = Some (t1, nil t)"
    using hn hx zn neq by (simp add: rb_unlink_def Let_def writes t1_def)
  have x1: "rnodes t1 x = rnodes t x" "rroot t1 = rroot t" using neq by (simp_all add: t1_def)
  define t2 where "t2 = t1\<lparr>rnodes := (rnodes t1)(n \<mapsto> \<lparr>rparent = cpar (nil t) C, rleft = nil t, rright = nil t, rcolor = BLACK,
    rdata = (kx, vx)\<rparr>)\<rparr>"
  obtain t' where cp: "copy_key t1 n kx = Some t'" "copy_value t' n vx = Some t2"
    using neq by (simp add: copy_key_def copy_value_def upd_def t1_def t2_def)
  have x2: "rnodes t2 x = rnodes t x" "rroot t2 = rroot t" using neq x1 by (simp_all add: t2_def)
  define t4 where "t4 = t2\<lparr>rnodes := (rnodes t2)(x := None), rsize := rsize t2 - 1\<rparr>"
  have gd: "get_delete_node t n = Some x" using hn mx neq by (simp add: get_delete_node_def)
  have del: "rb_delete cmp t k True = Some (t4, n)"
    using a(1) \<open>a = n\<close> hn hx gd sx un cp x1 x2 neq root root [symmetric] cmp lt
    by (simp add: rb_delete_def get_key_def get_value_def t4_def Let_def)
  have "RBtree_erase cmp t n = Some (t4, n)"
    using hn del neq by (simp add: RBtree_erase_def get_key_def)
  moreover have "rb_iter_get_first t4 n = Some kx"
    using neq by (simp add: rb_iter_get_first_def get_key_def t4_def t2_def)
  ultimately show ?thesis using lt by blast
qed

definition rb_pair :: "(int, nat) rb" where
  "rb_pair = \<lparr>rnodes = [9 \<mapsto> rb_junk\<lparr>rcolor := BLACK\<rparr>,
     10 \<mapsto> \<lparr>rparent = 9, rleft = 11, rright = 9, rcolor = BLACK, rdata = (5, 50)\<rparr>,
     11 \<mapsto> \<lparr>rparent = 10, rleft = 9, rright = 9, rcolor = RED, rdata = (2, 20)\<rparr>], rroot = 10, nil = 9, rsize = 2\<rparr>"

theorem RBtree_erase_returns_predecessor_witness:
  "\<exists>t'. RBtree_erase int_cmp rb_pair 10 = Some (t', 10) \<and> rb_iter_get_first t' 10 = Some 2"
proof -
  have "rb_rep rb_pair (plug Top (Nd (Nd Lf 11 RED (2, 20) Lf) 10 BLACK (5, 50) Lf))"
    by (auto simp: rb_rep_def at_def rb_pair_def rbt_def)
  from RBtree_erase_returns_predecessor [OF int_cmp_compares this] show ?thesis by blast
qed

section \<open>Destruction\<close>

lemma destroy_spine:
  "rep (rnodes t) (nil t) p s \<Longrightarrow> rnodes t (nil t) \<noteq> None \<Longrightarrow> distinct (addrs s) \<Longrightarrow> nil t \<notin> set (addrs s) \<Longrightarrow>
   NULL \<notin> set (addrs s) \<Longrightarrow> nil t \<noteq> NULL \<Longrightarrow> destroy_loop t (rootp (nil t) s # st) = None"
proof (induction s arbitrary: t p st)
  case Lf
  then obtain zn where "rnodes t (nil t) = Some zn" by auto
  then show ?case by (subst destroy_loop.simps) (simp add: writes free_node_def)
next
  case (Nd l a c e r)
  let ?t = "t\<lparr>rnodes := (rnodes t)(a := None)\<rparr>"
  have nz: "rootp (nil t) l \<noteq> NULL" "rootp (nil t) r \<noteq> NULL"
    using Nd.prems(5,6) rootp_neq [of NULL "nil t"] by auto
  have "destroy_loop t (a # st) = destroy_loop ?t (rootp (nil t) r # a # st)"
    using Nd.prems(1,4) nz by (subst destroy_loop.simps) (simp add: writes free_node_def)
  also have "\<dots> = None"
  proof -
    have "rep (rnodes ?t) (nil ?t) a r" using Nd.prems(1,3) by (simp add: frame)
    from Nd.IH(2) [OF this, of "a # st"] show ?thesis using Nd.prems by simp
  qed
  finally show ?case by simp
qed

text \<open>
  Destroying a tree that has entries always ends in undefined behaviour: the loop pops the
  child it has just pushed instead of the freed node and follows the right spine to the sentinel, which
  it passes to \<open>free\<close>.
\<close>

theorem RBtree_destroy_crashes:
  assumes "rb_rep t s" "RBtree_size t \<noteq> 0"
  shows "RBtree_destroy t = None"
proof -
  have "at t Top s" using assms(1) by (simp add: rb_rep_def)
  then have "destroy_loop t [rroot t] = None" using destroy_spine [of t "nil t" s "[]"] by (auto simp: at_def)
  then show ?thesis using assms(2) by (simp add: RBtree_destroy_def RBtree_size_def)
qed

theorem RBtree_destroy_crashes_witness: "RBtree_destroy rb_leaf = None"
  by (rule RBtree_destroy_crashes [OF rb_leaf_rep]) (simp add: RBtree_size_def rb_leaf_def)

end
