(* ===== verification/DList.thy ===== *)
theory DList
  imports Prelude
begin

text \<open>
  The doubly linked list (\<open>src/list.c\<close>): nodes with \<open>next\<close> and \<open>pre\<close> pointers in an explicit store
  between two sentinels that are part of the list structure. Values are copied by \<open>memcpy\<close> and
  compared by \<open>memcmp\<close>, so a value is its bytes and comparison is equality. Addresses that
  \<open>calloc\<close> returns are arguments, null for a failed allocation.
\<close>

record 'v dnode =
  dnext :: addr
  dpre :: addr
  dval :: 'v

record 'v dlist =
  dnodes :: "addr \<rightharpoonup> 'v dnode"
  dhead :: addr
  dend :: addr
  dsize :: u32

text \<open>The \<open>next\<close> member of an iterator points to a field of a node: to its \<open>next\<close> or to its \<open>pre\<close>.\<close>

datatype dir = ToNext | ToPre

record list_iter =
  it_next :: "(addr \<times> dir) option"
  it_n :: addr

definition list_create :: "addr \<Rightarrow> addr \<Rightarrow> 'v \<Rightarrow> 'v dlist" where
  "list_create h en v0 =
     \<lparr>dnodes = [h \<mapsto> \<lparr>dnext = en, dpre = NULL, dval = v0\<rparr>, en \<mapsto> \<lparr>dnext = NULL, dpre = h, dval = v0\<rparr>],
      dhead = h, dend = en, dsize = 0\<rparr>"

definition dset_next :: "'v dlist \<Rightarrow> addr \<Rightarrow> addr \<Rightarrow> 'v dlist option" where
  "dset_next l p q = (case dnodes l p of None \<Rightarrow> None | Some n \<Rightarrow> Some (l\<lparr>dnodes := (dnodes l)(p \<mapsto> n\<lparr>dnext := q\<rparr>)\<rparr>))"

definition dset_pre :: "'v dlist \<Rightarrow> addr \<Rightarrow> addr \<Rightarrow> 'v dlist option" where
  "dset_pre l p q = (case dnodes l p of None \<Rightarrow> None | Some n \<Rightarrow> Some (l\<lparr>dnodes := (dnodes l)(p \<mapsto> n\<lparr>dpre := q\<rparr>)\<rparr>))"

text \<open>The sentinels are members of the list structure and cannot be freed by themselves.\<close>

definition dfree :: "'v dlist \<Rightarrow> addr \<Rightarrow> 'v dlist option" where
  "dfree l p =
     (if p = dhead l \<or> p = dend l \<or> dnodes l p = None then None else Some (l\<lparr>dnodes := (dnodes l)(p := None)\<rparr>))"

section \<open>Iterators\<close>

definition list_begin :: "'v dlist \<Rightarrow> list_iter option" where
  "list_begin l = do { h \<leftarrow> dnodes l (dhead l); Some \<lparr>it_next = Some (dnext h, ToNext), it_n = dnext h\<rparr> }"

definition list_end :: "'v dlist \<Rightarrow> list_iter" where
  "list_end l = \<lparr>it_next = None, it_n = dend l\<rparr>"

definition list_rbegin :: "'v dlist \<Rightarrow> list_iter option" where
  "list_rbegin l = do { e \<leftarrow> dnodes l (dend l); Some \<lparr>it_next = Some (dpre e, ToPre), it_n = dpre e\<rparr> }"

definition list_rend :: "'v dlist \<Rightarrow> list_iter" where
  "list_rend l = \<lparr>it_next = None, it_n = dhead l\<rparr>"

definition list_iter_next :: "'v dlist \<Rightarrow> list_iter \<Rightarrow> list_iter option" where
  "list_iter_next l it =
     (case it_next it of
        None \<Rightarrow> Some it
      | Some (p, d) \<Rightarrow> do {
          n \<leftarrow> dnodes l p;
          let q = (case d of ToNext \<Rightarrow> dnext n | ToPre \<Rightarrow> dpre n);
          if (p, d) = (it_n it, ToNext) then Some \<lparr>it_next = Some (q, ToNext), it_n = q\<rparr>
          else if (p, d) = (it_n it, ToPre) then Some \<lparr>it_next = Some (q, ToPre), it_n = q\<rparr>
          else None })"

definition list_iter_is_equal :: "list_iter \<Rightarrow> list_iter \<Rightarrow> bool" where
  "list_iter_is_equal a b \<longleftrightarrow> it_n a = it_n b"

definition list_iter_get_val :: "'v dlist \<Rightarrow> list_iter \<Rightarrow> 'v option" where
  "list_iter_get_val l it = do { n \<leftarrow> dnodes l (it_n it); Some (dval n) }"

definition list_iter_set_val :: "'v dlist \<Rightarrow> list_iter \<Rightarrow> 'v \<Rightarrow> 'v dlist option" where
  "list_iter_set_val l it v = do {
     n \<leftarrow> dnodes l (it_n it);
     Some (l\<lparr>dnodes := (dnodes l)(it_n it \<mapsto> n\<lparr>dval := v\<rparr>)\<rparr>) }"

section \<open>Insertion and removal\<close>

definition list_size :: "'v dlist \<Rightarrow> u32" where
  "list_size l = dsize l"

definition list_is_empty :: "'v dlist \<Rightarrow> bool" where
  "list_is_empty l \<longleftrightarrow> dsize l = 0"

definition list_insert_after :: "'v dlist \<Rightarrow> list_iter \<Rightarrow> 'v \<Rightarrow> addr \<Rightarrow> 'v dlist option" where
  "list_insert_after l it v new_node =
     (if new_node = NULL then Some l
      else do {
        let l0 = l\<lparr>dnodes := (dnodes l)(new_node \<mapsto> \<lparr>dnext = NULL, dpre = NULL, dval = v\<rparr>)\<rparr>;
        let n = it_n it;
        nn \<leftarrow> dnodes l0 n;
        let N = dnext nn;
        l1 \<leftarrow> dset_pre l0 N new_node;
        l2 \<leftarrow> dset_next l1 n new_node;
        l3 \<leftarrow> dset_next l2 new_node N;
        l4 \<leftarrow> dset_pre l3 new_node n;
        Some (l4\<lparr>dsize := dsize l4 + 1\<rparr>) })"

definition list_insert_before :: "'v dlist \<Rightarrow> list_iter \<Rightarrow> 'v \<Rightarrow> addr \<Rightarrow> 'v dlist option" where
  "list_insert_before l it v new_node =
     (if new_node = NULL then Some l
      else do {
        let l0 = l\<lparr>dnodes := (dnodes l)(new_node \<mapsto> \<lparr>dnext = NULL, dpre = NULL, dval = v\<rparr>)\<rparr>;
        let n = it_n it;
        nn \<leftarrow> dnodes l0 n;
        let P = dpre nn;
        l1 \<leftarrow> dset_next l0 P new_node;
        l2 \<leftarrow> dset_pre l1 n new_node;
        l3 \<leftarrow> dset_next l2 new_node n;
        l4 \<leftarrow> dset_pre l3 new_node P;
        Some (l4\<lparr>dsize := dsize l4 + 1\<rparr>) })"

definition list_push_back :: "'v dlist \<Rightarrow> 'v \<Rightarrow> addr \<Rightarrow> 'v dlist option" where
  "list_push_back l v new_node = list_insert_before l (list_end l) v new_node"

definition list_push_front :: "'v dlist \<Rightarrow> 'v \<Rightarrow> addr \<Rightarrow> 'v dlist option" where
  "list_push_front l v new_node = do { b \<leftarrow> list_begin l; list_insert_before l b v new_node }"

text \<open>The unlinking that both pops and \<open>list_erase\<close> do.\<close>

definition dunlink :: "'v dlist \<Rightarrow> addr \<Rightarrow> 'v dlist option" where
  "dunlink l p = do {
     n \<leftarrow> dnodes l p;
     l1 \<leftarrow> dset_next l (dpre n) (dnext n);
     l2 \<leftarrow> dset_pre l1 (dnext n) (dpre n);
     l3 \<leftarrow> dfree l2 p;
     Some (l3\<lparr>dsize := dsize l3 - 1\<rparr>) }"

text \<open>The value is the content written to \<open>out\<close>, if any.\<close>

definition list_pop_back :: "'v dlist \<Rightarrow> ('v dlist \<times> 'v option) option" where
  "list_pop_back l =
     (if dsize l > 0
      then do {
        e \<leftarrow> dnodes l (dend l);
        n \<leftarrow> dnodes l (dpre e);
        l1 \<leftarrow> dunlink l (dpre e);
        Some (l1, Some (dval n)) }
      else Some (l, None))"

definition list_back :: "'v dlist \<Rightarrow> 'v option option" where
  "list_back l =
     (if dsize l > 0
      then do { e \<leftarrow> dnodes l (dend l); n \<leftarrow> dnodes l (dpre e); Some (Some (dval n)) }
      else Some None)"

definition list_pop_front :: "'v dlist \<Rightarrow> ('v dlist \<times> 'v option) option" where
  "list_pop_front l =
     (if dsize l > 0
      then do {
        h \<leftarrow> dnodes l (dhead l);
        n \<leftarrow> dnodes l (dnext h);
        l1 \<leftarrow> dunlink l (dnext h);
        Some (l1, Some (dval n)) }
      else Some (l, None))"

definition list_front :: "'v dlist \<Rightarrow> 'v option option" where
  "list_front l =
     (if dsize l > 0
      then do { h \<leftarrow> dnodes l (dhead l); n \<leftarrow> dnodes l (dnext h); Some (Some (dval n)) }
      else Some None)"

partial_function (option) dfind_loop :: "'v dlist \<Rightarrow> 'v \<Rightarrow> addr \<Rightarrow> addr option" where
  "dfind_loop l v cur =
     (if cur = dend l then Some cur
      else do { n \<leftarrow> dnodes l cur; if dval n = v then Some cur else dfind_loop l v (dnext n) })"

definition list_find :: "'v dlist \<Rightarrow> 'v \<Rightarrow> list_iter option" where
  "list_find l v = do {
     h \<leftarrow> dnodes l (dhead l);
     cur \<leftarrow> dfind_loop l v (dnext h);
     Some (if cur \<noteq> dend l then \<lparr>it_next = Some (cur, ToNext), it_n = cur\<rparr> else \<lparr>it_next = None, it_n = dend l\<rparr>) }"

definition list_erase :: "'v dlist \<Rightarrow> list_iter \<Rightarrow> ('v dlist \<times> list_iter) option" where
  "list_erase l it = do {
     nx \<leftarrow> list_iter_next l it;
     l1 \<leftarrow> dunlink l (it_n it);
     Some (l1, nx) }"

definition list_remove :: "'v dlist \<Rightarrow> 'v \<Rightarrow> ('v dlist \<times> bool) option" where
  "list_remove l v = do {
     it \<leftarrow> list_find l v;
     if it_n it = NULL then Some (l, False)
     else do { (l1, _) \<leftarrow> list_erase l it; Some (l1, True) } }"

text \<open>\<open>list_destroy\<close> up to the release of the list structure itself.\<close>

partial_function (option) ddestroy_loop :: "'v dlist \<Rightarrow> addr \<Rightarrow> 'v dlist option" where
  "ddestroy_loop l cur =
     (if cur = dend l then Some l
      else do { n \<leftarrow> dnodes l cur; l1 \<leftarrow> dfree l cur; ddestroy_loop l1 (dnext n) })"

definition list_destroy :: "'v dlist \<Rightarrow> 'v dlist option" where
  "list_destroy l =
     (if dsize l > 0 then do { h \<leftarrow> dnodes l (dhead l); ddestroy_loop l (dnext h) } else Some l)"

section \<open>Representation\<close>

definition adj :: "(addr \<rightharpoonup> 'v dnode) \<Rightarrow> addr \<Rightarrow> addr \<Rightarrow> bool" where
  "adj h p q \<longleftrightarrow> (\<exists>a b. h p = Some a \<and> h q = Some b \<and> dnext a = q \<and> dpre b = p)"

definition seq :: "'v dlist \<Rightarrow> (addr \<times> 'v) list \<Rightarrow> addr list" where
  "seq l xs = dhead l # map fst xs @ [dend l]"

definition dl_rep :: "'v dlist \<Rightarrow> (addr \<times> 'v) list \<Rightarrow> bool" where
  "dl_rep l xs \<longleftrightarrow>
     successively (adj (dnodes l)) (seq l xs) \<and> distinct (seq l xs) \<and> NULL \<notin> set (seq l xs) \<and>
     dom (dnodes l) = set (seq l xs) \<and> (\<forall>(a, v) \<in> set xs. \<exists>n. dnodes l a = Some n \<and> dval n = v) \<and>
     (\<exists>n. dnodes l (dend l) = Some n \<and> dnext n = NULL) \<and> dsize l = word_of_nat (length xs)"

text \<open>A sequence of neighbours around one place, and what the updates there leave alone.\<close>

lemma successively_split:
  "successively R (us @ p # q # vs) \<longleftrightarrow> successively R (us @ [p]) \<and> R p q \<and> successively R (q # vs)"
  by (auto simp: successively_append_iff)

lemma link_left:
  assumes "successively (adj h) (us @ [p])" "\<forall>x \<in> set us. h' x = h x"
    "h p = Some n" "h' p = Some n'" "dpre n' = dpre n"
  shows "successively (adj h') (us @ [p])"
  using assms(1,2)
proof (induction us)
  case (Cons u us)
  then have IH: "successively (adj h') (us @ [p])" and u: "adj h u (hd (us @ [p]))"
    by (auto simp: successively_Cons)
  have "adj h' u (hd (us @ [p]))"
  proof (cases us)
    case Nil
    then show ?thesis using u assms(3-5) Cons.prems(2) by (auto simp: adj_def)
  next
    case (Cons w ws)
    then show ?thesis using u Cons.prems(2) by (auto simp: adj_def)
  qed
  with IH show ?case by (simp add: successively_Cons)
qed simp

lemma adj_eq: "h' x = h x \<Longrightarrow> h' y = h y \<Longrightarrow> adj h' x y = adj h x y"
  by (simp add: adj_def)

lemma link_right:
  assumes sq: "successively (adj h) (q # vs)" and same: "\<forall>x \<in> set vs. h' x = h x"
    and q: "h q = Some n" "h' q = Some n'" "dnext n' = dnext n"
  shows "successively (adj h') (q # vs)"
proof -
  have "successively (adj h') vs = successively (adj h) vs"
    by (rule successively_cong, rule adj_eq) (simp_all add: same)
  moreover have "adj h' q w" if a: "adj h q w" and w: "w \<in> set vs" for w
    using a q bspec [OF same w] by (auto simp: adj_def)
  ultimately show ?thesis using sq by (cases vs) simp_all
qed

lemma link_insert:
  assumes sq: "successively (adj h) (us @ p # q # vs)" and d: "distinct (us @ p # q # vs)" "n \<notin> set (us @ p # q # vs)"
    and h: "h p = Some pn" "h q = Some qn"
    and h': "h' = h(p \<mapsto> pn\<lparr>dnext := n\<rparr>, q \<mapsto> qn\<lparr>dpre := n\<rparr>, n \<mapsto> \<lparr>dnext = q, dpre = p, dval = v\<rparr>)"
  shows "successively (adj h') (us @ p # n # q # vs)"
proof -
  have "successively (adj h') (us @ [p])"
    by (rule link_left [of h us p h' pn "pn\<lparr>dnext := n\<rparr>"]) (use sq d h h' in \<open>auto simp: successively_split\<close>)
  moreover have "successively (adj h') (q # vs)"
    by (rule link_right [of h q vs h' qn "qn\<lparr>dpre := n\<rparr>"]) (use sq d h h' in \<open>auto simp: successively_split\<close>)
  moreover have "adj h' p n" "adj h' n q" using d h' by (auto simp: adj_def)
  ultimately show ?thesis by (simp add: successively_split)
qed

lemma link_remove:
  assumes sq: "successively (adj h) (us @ p # n # q # vs)" and d: "distinct (us @ p # n # q # vs)"
    and h: "h p = Some pn" "h q = Some qn"
    and h': "h' = h(p \<mapsto> pn\<lparr>dnext := q\<rparr>, q \<mapsto> qn\<lparr>dpre := p\<rparr>, n := None)"
  shows "successively (adj h') (us @ p # q # vs)"
proof -
  have "successively (adj h') (us @ [p])"
    by (rule link_left [of h us p h' pn "pn\<lparr>dnext := q\<rparr>"]) (use sq d h h' in \<open>auto simp: successively_split\<close>)
  moreover have "successively (adj h') (q # vs)"
    by (rule link_right [of h q vs h' qn "qn\<lparr>dpre := p\<rparr>"])
      (use sq d h h' successively_split [of "adj h" "us @ [p]" n q vs] in auto)
  moreover have "adj h' p q" using d h' by (auto simp: adj_def)
  ultimately show ?thesis by (simp add: successively_split)
qed

section \<open>Refinement\<close>

definition first_of :: "addr \<Rightarrow> (addr \<times> 'v) list \<Rightarrow> addr" where
  "first_of e xs = (case xs of [] \<Rightarrow> e | x # _ \<Rightarrow> fst x)"

definition last_of :: "addr \<Rightarrow> (addr \<times> 'v) list \<Rightarrow> addr" where
  "last_of h xs = (if xs = [] then h else fst (last xs))"

lemma seq_gap:
  "\<exists>us' vs'. seq l (us @ vs) = us' @ last_of (dhead l) us # first_of (dend l) vs # vs' \<and>
    seq l (us @ x # vs) = us' @ last_of (dhead l) us # fst x # first_of (dend l) vs # vs'"
proof -
  have 1: "\<exists>us'. dhead l # map fst us = us' @ [last_of (dhead l) us]"
    by (cases us rule: rev_cases) (auto simp: last_of_def)
  have 2: "\<exists>vs'. map fst vs @ [dend l] = first_of (dend l) vs # vs'"
    by (cases vs) (auto simp: first_of_def)
  from 1 2 obtain us' vs' where u: "dhead l # map fst us = us' @ [last_of (dhead l) us]"
    and v: "map fst vs @ [dend l] = first_of (dend l) vs # vs'" by blast
  have "seq l (us @ vs) = (dhead l # map fst us) @ (map fst vs @ [dend l])"
    "seq l (us @ x # vs) = (dhead l # map fst us) @ fst x # (map fst vs @ [dend l])"
    by (simp_all add: seq_def)
  then show ?thesis unfolding u v by auto
qed

lemma dl_rep_val: "dl_rep l xs \<Longrightarrow> (a, v) \<in> set xs \<Longrightarrow> \<exists>n. dnodes l a = Some n \<and> dval n = v"
  unfolding dl_rep_def by fast

lemma last_not_end: "dl_rep l (us @ vs) \<Longrightarrow> dend l \<noteq> last_of (dhead l) us"
  by (cases us rule: rev_cases) (auto simp: dl_rep_def seq_def last_of_def)

lemma gap_nodes:
  assumes "dl_rep l (us @ vs)"
  shows "\<exists>pn qn. dnodes l (last_of (dhead l) us) = Some pn \<and> dnodes l (first_of (dend l) vs) = Some qn \<and>
    dnext pn = first_of (dend l) vs \<and> dpre qn = last_of (dhead l) us"
  using assms seq_gap [of l us vs undefined] by (auto simp: dl_rep_def successively_split adj_def)

text \<open>The common result of both insertions: a new node in the gap between \<open>us\<close> and \<open>vs\<close>.\<close>

definition put_gap :: "'v dlist \<Rightarrow> addr \<Rightarrow> addr \<Rightarrow> 'v dnode \<Rightarrow> 'v dnode \<Rightarrow> addr \<Rightarrow> 'v \<Rightarrow> 'v dlist" where
  "put_gap l p q pn qn n v =
     l\<lparr>dnodes := (dnodes l)(p \<mapsto> pn\<lparr>dnext := n\<rparr>, q \<mapsto> qn\<lparr>dpre := n\<rparr>, n \<mapsto> \<lparr>dnext = q, dpre = p, dval = v\<rparr>),
       dsize := dsize l + 1\<rparr>"

lemma put_gap_rep:
  assumes rep: "dl_rep l (us @ vs)" and n: "n \<notin> dom (dnodes l)" "n \<noteq> NULL"
    and p: "dnodes l (last_of (dhead l) us) = Some pn" "dnodes l (first_of (dend l) vs) = Some qn"
  shows "dl_rep (put_gap l (last_of (dhead l) us) (first_of (dend l) vs) pn qn n v) (us @ (n, v) # vs)"
proof -
  let ?p = "last_of (dhead l) us" and ?q = "first_of (dend l) vs"
  let ?l = "put_gap l ?p ?q pn qn n v"
  obtain us' vs' where sq: "seq l (us @ vs) = us' @ ?p # ?q # vs'" "seq l (us @ (n, v) # vs) = us' @ ?p # n # ?q # vs'"
    using seq_gap [of l us vs "(n, v)"] by auto
  have sl: "seq ?l xs = seq l xs" for xs by (simp add: seq_def put_gap_def)
  have d: "distinct (us' @ ?p # ?q # vs')" "n \<notin> set (us' @ ?p # ?q # vs')" using rep n(1) sq(1) by (auto simp: dl_rep_def)
  have "successively (adj (dnodes ?l)) (us' @ ?p # n # ?q # vs')"
    by (rule link_insert [OF _ d p]) (use rep sq(1) in \<open>auto simp: dl_rep_def put_gap_def\<close>)
  moreover have "\<forall>(a, w) \<in> set (us @ (n, v) # vs). \<exists>nn. dnodes ?l a = Some nn \<and> dval nn = w"
  proof -
    have "\<exists>nn. dnodes ?l a = Some nn \<and> dval nn = w" if m: "(a, w) \<in> set (us @ vs)" for a w
    proof -
      obtain nn where nn: "dnodes l a = Some nn" "dval nn = w" using dl_rep_val [OF rep m] by blast
      then have "a \<noteq> n" using n(1) by auto
      then show ?thesis using nn p by (auto simp: put_gap_def)
    qed
    then show ?thesis by (auto simp: put_gap_def)
  qed
  moreover have "\<exists>nn. dnodes ?l (dend ?l) = Some nn \<and> dnext nn = NULL"
  proof -
    have e: "dend l \<noteq> n" "dend l \<noteq> ?p" using rep d n(1) sq(1)
      by (auto simp: dl_rep_def seq_def last_of_def split: if_splits)
    then show ?thesis using rep p by (auto simp: dl_rep_def put_gap_def)
  qed
  moreover have "dom (dnodes ?l) = insert n (set (us' @ ?p # ?q # vs'))"
    using rep sq(1) by (auto simp: dl_rep_def put_gap_def)
  ultimately show ?thesis using rep sq d n(2) unfolding dl_rep_def sl by (auto simp: put_gap_def)
qed

lemma gap_distinct:
  assumes "dl_rep l (us @ vs)"
  shows "last_of (dhead l) us \<noteq> first_of (dend l) vs" "last_of (dhead l) us \<in> dom (dnodes l)" "first_of (dend l) vs \<in> dom (dnodes l)"
  using assms seq_gap [of l us vs undefined] by (auto simp: dl_rep_def)

lemma insert_before_law:
  assumes rep: "dl_rep l (us @ vs)" and n: "n \<notin> dom (dnodes l)" "n \<noteq> NULL" and it: "it_n it = first_of (dend l) vs"
  shows "\<exists>l'. list_insert_before l it v n = Some l' \<and> dl_rep l' (us @ (n, v) # vs)"
proof -
  let ?p = "last_of (dhead l) us" and ?q = "first_of (dend l) vs"
  obtain pn qn where g: "dnodes l ?p = Some pn" "dnodes l ?q = Some qn" "dpre qn = ?p" using gap_nodes [OF rep] by blast
  have neq: "?p \<noteq> ?q" "n \<noteq> ?p" "n \<noteq> ?q" using gap_distinct [OF rep] n(1) by auto
  then have "list_insert_before l it v n = Some (put_gap l ?p ?q pn qn n v)"
    using it g n(2) by (simp add: list_insert_before_def Let_def dset_next_def dset_pre_def put_gap_def fun_upd_twist)
  then show ?thesis using put_gap_rep [OF rep n g(1,2)] by simp
qed

lemma insert_after_law:
  assumes rep: "dl_rep l (us @ vs)" and n: "n \<notin> dom (dnodes l)" "n \<noteq> NULL" and it: "it_n it = last_of (dhead l) us"
  shows "\<exists>l'. list_insert_after l it v n = Some l' \<and> dl_rep l' (us @ (n, v) # vs)"
proof -
  let ?p = "last_of (dhead l) us" and ?q = "first_of (dend l) vs"
  obtain pn qn where g: "dnodes l ?p = Some pn" "dnodes l ?q = Some qn" "dnext pn = ?q" using gap_nodes [OF rep] by blast
  have neq: "?p \<noteq> ?q" "n \<noteq> ?p" "n \<noteq> ?q" using gap_distinct [OF rep] n(1) by auto
  then have "list_insert_after l it v n = Some (put_gap l ?p ?q pn qn n v)"
    using it g n(2) by (simp add: list_insert_after_def Let_def dset_next_def dset_pre_def put_gap_def fun_upd_twist)
  then show ?thesis using put_gap_rep [OF rep n g(1,2)] by simp
qed

lemma dunlink_law:
  assumes rep: "dl_rep l (us @ (a, v) # vs)"
  shows "\<exists>l'. dunlink l a = Some l' \<and> dl_rep l' (us @ vs)"
proof -
  let ?p = "last_of (dhead l) us" and ?q = "first_of (dend l) vs"
  obtain us' vs' where sq: "seq l (us @ vs) = us' @ ?p # ?q # vs'" "seq l (us @ (a, v) # vs) = us' @ ?p # a # ?q # vs'"
    using seq_gap [of l us vs "(a, v)"] by auto
  have suc: "successively (adj (dnodes l)) (us' @ ?p # a # ?q # vs')" and d: "distinct (us' @ ?p # a # ?q # vs')"
    and dm: "dom (dnodes l) = set (us' @ ?p # a # ?q # vs')" using rep sq(2) by (auto simp: dl_rep_def)
  have "adj (dnodes l) ?p a" "adj (dnodes l) a ?q"
    using suc successively_split [of "adj (dnodes l)" us' ?p a "?q # vs'"] by auto
  then obtain pn an qn where h: "dnodes l ?p = Some pn" "dnodes l a = Some an" "dnodes l ?q = Some qn"
    "dnext an = ?q" "dpre an = ?p" by (auto simp: adj_def)
  have ends: "a \<noteq> dhead l" "a \<noteq> dend l" using rep by (auto simp: dl_rep_def seq_def)
  have neq: "?p \<noteq> ?q" "?p \<noteq> a" "?q \<noteq> a" using d by auto
  define l' where "l' = l\<lparr>dnodes := (dnodes l)(?p \<mapsto> pn\<lparr>dnext := ?q\<rparr>, ?q \<mapsto> qn\<lparr>dpre := ?p\<rparr>, a := None), dsize := dsize l - 1\<rparr>"
  have "dunlink l a = Some l'"
    using h neq ends by (simp add: dunlink_def dset_next_def dset_pre_def dfree_def l'_def)
  moreover have "dl_rep l' (us @ vs)"
  proof -
    have sl: "seq l' xs = seq l xs" for xs by (simp add: seq_def l'_def)
    have "successively (adj (dnodes l')) (us' @ ?p # ?q # vs')"
      by (rule link_remove [OF suc d h(1,3)]) (simp add: l'_def)
    moreover have "\<exists>nn. dnodes l' b = Some nn \<and> dval nn = w" if m: "(b, w) \<in> set (us @ vs)" for b w
    proof -
      obtain nn where nn: "dnodes l b = Some nn" "dval nn = w" using dl_rep_val [OF rep, of b w] m by auto
      have "a \<notin> fst ` set (us @ vs)" using rep by (auto simp: dl_rep_def seq_def)
      then have "b \<noteq> a" using m by (metis fst_conv imageI)
      then show ?thesis using nn h by (auto simp: l'_def)
    qed
    moreover have "\<exists>nn. dnodes l' (dend l') = Some nn \<and> dnext nn = NULL"
    proof -
      have "dend l \<noteq> ?p" by (rule last_not_end [OF rep])
      then show ?thesis using rep ends h by (auto simp: dl_rep_def l'_def)
    qed
    moreover have "dom (dnodes l') = set (us' @ ?p # ?q # vs')" using dm d by (auto simp: l'_def)
    moreover have "dsize l' = word_of_nat (length (us @ vs))" using rep by (simp add: dl_rep_def l'_def)
    moreover have "NULL \<notin> set (us' @ ?p # ?q # vs')" using rep sq(2) by (auto simp: dl_rep_def)
    ultimately show ?thesis using d unfolding dl_rep_def sl sq(1) by auto
  qed
  ultimately show ?thesis by blast
qed

lemma first_of_simps [simp]: "first_of e [] = e" "first_of e (x # xs) = fst x"
  by (simp_all add: first_of_def)

lemma last_of_simps [simp]: "last_of h [] = h" "last_of h (xs @ [x]) = fst x"
  by (simp_all add: last_of_def)

lemma dsize_pos: "dl_rep l xs \<Longrightarrow> length xs < 2 ^ 32 \<Longrightarrow> 0 < dsize l \<longleftrightarrow> xs \<noteq> []"
proof -
  assume "dl_rep l xs" "length xs < 2 ^ 32"
  then have "unat (dsize l) = length xs" by (simp add: dl_rep_def unat_word_of_nat)
  then show ?thesis by (metis length_0_conv unat_eq_zero word_neq_0_conv)
qed

lemma dfind_loop_law:
  "dl_rep l (us @ vs) \<Longrightarrow>
   dfind_loop l v (first_of (dend l) vs) = Some (first_of (dend l) (dropWhile (\<lambda>x. snd x \<noteq> v) vs))"
proof (induction vs arbitrary: us)
  case Nil
  then show ?case by (subst dfind_loop.simps) simp
next
  case (Cons x vs)
  obtain a w where x: "x = (a, w)" by (cases x)
  obtain n where n: "dnodes l a = Some n" "dval n = w" using dl_rep_val [OF Cons.prems, of a w] x by auto
  have "a \<noteq> dend l" using Cons.prems x by (auto simp: dl_rep_def seq_def)
  moreover have "dl_rep l ((us @ [x]) @ vs)" using Cons.prems by simp
  moreover have "dnext n = first_of (dend l) vs"
    using gap_nodes [of l "us @ [x]" vs] Cons.prems x n(1) by auto
  ultimately show ?case using Cons.IH [of "us @ [x]"] n x by (subst dfind_loop.simps) auto
qed

lemma list_find_law:
  assumes "dl_rep l xs"
  shows "list_find l v = Some (case dropWhile (\<lambda>x. snd x \<noteq> v) xs of
      [] \<Rightarrow> list_end l | x # _ \<Rightarrow> \<lparr>it_next = Some (fst x, ToNext), it_n = fst x\<rparr>)"
proof -
  obtain h where h: "dnodes l (dhead l) = Some h" "dnext h = first_of (dend l) xs"
    using gap_nodes [of l "[]" xs] assms by auto
  have "dend l \<notin> fst ` set xs" using assms by (simp add: dl_rep_def seq_def)
  then have "fst x \<noteq> dend l" if "x \<in> set xs" for x using that by (metis imageI)
  then have "dropWhile (\<lambda>x. snd x \<noteq> v) xs = x # ys \<Longrightarrow> fst x \<noteq> dend l" for x ys
    by (metis list.set_intros(1) set_dropWhileD)
  then show ?thesis using h dfind_loop_law [of l "[]" xs v] assms
    by (cases "dropWhile (\<lambda>x. snd x \<noteq> v) xs") (simp_all add: list_find_def list_end_def del: dropWhile_eq_Nil_conv)
qed

lemma remove_law:
  assumes "dl_rep l (us @ (a, v) # vs)" "v \<notin> snd ` set us"
  shows "\<exists>l'. list_remove l v = Some (l', True) \<and> dl_rep l' (us @ vs)"
proof -
  have "dropWhile (\<lambda>x. snd x \<noteq> v) (us @ (a, v) # vs) = (a, v) # vs"
    using assms(2) by (subst dropWhile_append2) auto
  then have f: "list_find l v = Some \<lparr>it_next = Some (a, ToNext), it_n = a\<rparr>" using list_find_law [OF assms(1), of v] by simp
  obtain l' where l': "dunlink l a = Some l'" "dl_rep l' (us @ vs)" using dunlink_law [OF assms(1)] by blast
  obtain n where "dnodes l a = Some n" using dl_rep_val [OF assms(1), of a v] by auto
  moreover have "a \<noteq> NULL" using assms(1) by (auto simp: dl_rep_def seq_def)
  ultimately show ?thesis using f l' by (simp add: list_remove_def list_erase_def list_iter_next_def Let_def)
qed

section \<open>Properties\<close>

text \<open>
  Claim C25. On a well-formed list the pushes, insertions around an iterator and pops are the list
  operations: the pointers stay consistent in both directions, the right entry goes in or out, and
  popping an empty list changes nothing.
\<close>

theorem dlist_refines_list:
  assumes rep: "dl_rep l (us @ vs)" and n: "n \<notin> dom (dnodes l)" "n \<noteq> NULL" and len: "length (us @ vs) < 2 ^ 32"
  shows "(\<exists>l'. list_push_back l v n = Some l' \<and> dl_rep l' (us @ vs @ [(n, v)])) \<and>
    (\<exists>l'. list_push_front l v n = Some l' \<and> dl_rep l' ((n, v) # us @ vs)) \<and>
    (\<exists>l'. list_insert_before l \<lparr>it_next = d, it_n = first_of (dend l) vs\<rparr> v n = Some l' \<and> dl_rep l' (us @ (n, v) # vs)) \<and>
    (\<exists>l'. list_insert_after l \<lparr>it_next = d, it_n = last_of (dhead l) us\<rparr> v n = Some l' \<and> dl_rep l' (us @ (n, v) # vs)) \<and>
    (if us @ vs = [] then list_pop_front l = Some (l, None) \<and> list_pop_back l = Some (l, None)
     else (\<exists>l'. list_pop_front l = Some (l', Some (snd (hd (us @ vs)))) \<and> dl_rep l' (tl (us @ vs))) \<and>
       (\<exists>l'. list_pop_back l = Some (l', Some (snd (last (us @ vs)))) \<and> dl_rep l' (butlast (us @ vs))))"
proof -
  define xs where "xs = us @ vs"
  have r: "dl_rep l ([] @ xs)" "dl_rep l (xs @ [])" using rep by (simp_all add: xs_def)
  have pos: "0 < dsize l \<longleftrightarrow> xs \<noteq> []" using dsize_pos [of l xs] r len by (simp add: xs_def)
  obtain h where h: "dnodes l (dhead l) = Some h" "dnext h = first_of (dend l) xs" using gap_nodes [OF r(1)] by auto
  obtain e where e: "dnodes l (dend l) = Some e" "dpre e = last_of (dhead l) xs" using gap_nodes [OF r(2)] by auto
  have "\<exists>l'. list_push_back l v n = Some l' \<and> dl_rep l' (xs @ [(n, v)])"
    using insert_before_law [OF r(2) n, of "list_end l" v] by (simp add: list_push_back_def list_end_def)
  moreover have "\<exists>l'. list_push_front l v n = Some l' \<and> dl_rep l' ((n, v) # xs)"
    using insert_before_law [OF r(1) n, of "\<lparr>it_next = Some (dnext h, ToNext), it_n = dnext h\<rparr>" v] h
    by (simp add: list_push_front_def list_begin_def)
  moreover have "xs = [] \<Longrightarrow> list_pop_front l = Some (l, None) \<and> list_pop_back l = Some (l, None)"
    using pos by (simp add: list_pop_front_def list_pop_back_def)
  moreover have "\<exists>l'. list_pop_front l = Some (l', Some (snd (hd xs))) \<and> dl_rep l' (tl xs)" if ne: "xs \<noteq> []"
  proof -
    obtain a w ys where xs: "xs = (a, w) # ys" using ne by (cases xs) auto
    obtain nn where "dnodes l a = Some nn" "dval nn = w" using dl_rep_val [of l xs a w] r xs by auto
    moreover obtain l' where "dunlink l a = Some l'" "dl_rep l' ys" using dunlink_law [of l "[]" a w ys] r xs by auto
    ultimately show ?thesis using pos h xs by (simp add: list_pop_front_def)
  qed
  moreover have "\<exists>l'. list_pop_back l = Some (l', Some (snd (last xs))) \<and> dl_rep l' (butlast xs)" if ne: "xs \<noteq> []"
  proof -
    obtain a w ys where xs: "xs = ys @ [(a, w)]" using ne by (cases xs rule: rev_cases) auto
    obtain nn where "dnodes l a = Some nn" "dval nn = w" using dl_rep_val [of l xs a w] r xs by auto
    moreover obtain l' where "dunlink l a = Some l'" "dl_rep l' ys" using dunlink_law [of l ys a w "[]"] r xs by auto
    ultimately show ?thesis using pos e xs by (simp add: list_pop_back_def)
  qed
  ultimately show ?thesis
    using insert_before_law [OF rep n, of "\<lparr>it_next = d, it_n = first_of (dend l) vs\<rparr>" v]
      insert_after_law [OF rep n, of "\<lparr>it_next = d, it_n = last_of (dhead l) us\<rparr>" v]
    by (simp add: xs_def)
qed

definition dl_sample :: "nat dlist" where
  "dl_sample = \<lparr>dnodes = [1 \<mapsto> \<lparr>dnext = 3, dpre = NULL, dval = 0\<rparr>, 2 \<mapsto> \<lparr>dnext = NULL, dpre = 3, dval = 0\<rparr>,
     3 \<mapsto> \<lparr>dnext = 2, dpre = 1, dval = 7\<rparr>], dhead = 1, dend = 2, dsize = 1\<rparr>"

lemma dl_sample_rep: "dl_rep dl_sample ([] @ [(3, 7)])"
  by (auto simp: dl_rep_def dl_sample_def seq_def adj_def)

theorem dlist_refines_list_witness:
  "(\<exists>l'. list_push_back dl_sample 8 4 = Some l' \<and> dl_rep l' [(3, 7), (4, 8)]) \<and>
   (\<exists>l'. list_pop_front dl_sample = Some (l', Some 7) \<and> dl_rep l' [])"
proof -
  have "4 \<notin> dom (dnodes dl_sample)" by (simp add: dl_sample_def)
  from dlist_refines_list [OF dl_sample_rep this, of 8 None] show ?thesis by simp
qed

text \<open>
  \<open>list_remove\<close> unlinks the first entry with the given value and reports it. When no
  entry has the value, \<open>list_find\<close> yields the end sentinel rather than a null node, and erasing the
  sentinel writes through its null \<open>next\<close> pointer.
\<close>

theorem dlist_remove_behaviour:
  assumes "dl_rep l xs"
  shows "if v \<in> snd ` set xs
    then \<exists>l'. list_remove l v = Some (l', True) \<and>
      dl_rep l' (takeWhile (\<lambda>x. snd x \<noteq> v) xs @ tl (dropWhile (\<lambda>x. snd x \<noteq> v) xs))
    else list_remove l v = None"
proof (cases "v \<in> snd ` set xs")
  case True
  let ?P = "\<lambda>x. snd x \<noteq> v"
  obtain x ys where d: "dropWhile ?P xs = x # ys" using True by (cases "dropWhile ?P xs") (auto simp: dropWhile_eq_Nil_conv)
  have x: "x = (fst x, v)" using hd_dropWhile [of ?P xs] d by (cases x) auto
  have xs: "xs = takeWhile ?P xs @ (fst x, v) # ys" using takeWhile_dropWhile_id [of ?P xs] d x by simp
  have "v \<notin> snd ` set (takeWhile ?P xs)" by (auto dest: set_takeWhileD)
  then show ?thesis using remove_law [of l "takeWhile ?P xs" "fst x" v ys] assms xs True d by simp
next
  case v: False
  then have "dropWhile (\<lambda>x. snd x \<noteq> v) xs = []" by (auto simp: dropWhile_eq_Nil_conv)
  then have f: "list_find l v = Some (list_end l)" using list_find_law [OF assms, of v] by (simp only: list.case)
  obtain n where n: "dnodes l (dend l) = Some n" "dnext n = NULL" using assms by (auto simp: dl_rep_def)
  have "NULL \<notin> dom (dnodes l)" "dend l \<in> dom (dnodes l)" using assms n(1) by (auto simp: dl_rep_def)
  then have z: "dend l \<noteq> NULL" "dnodes l NULL = None" by (metis, simp add: domIff)
  obtain p where "dnodes l (dpre n) = Some p" using gap_nodes [of l xs "[]"] assms n by auto
  moreover then have "dpre n \<noteq> NULL" using z(2) by (metis option.distinct(1))
  ultimately have "list_remove l v = None"
    using f n z by (simp add: list_remove_def list_erase_def list_iter_next_def list_end_def dunlink_def dset_next_def dset_pre_def)
  then show ?thesis using v by simp
qed

theorem dlist_remove_behaviour_witness:
  "(\<exists>l'. list_remove dl_sample 7 = Some (l', True) \<and> dl_rep l' []) \<and> list_remove dl_sample 9 = None"
proof -
  have r: "dl_rep dl_sample [(3, 7)]" using dl_sample_rep by simp
  from dlist_remove_behaviour [OF r, of 7] dlist_remove_behaviour [OF r, of 9] show ?thesis by auto
qed

end
