(* ===== verification/Spinlock.thy ===== *)
theory Spinlock
  imports Prelude
begin

text \<open>
  The recursive spin lock (\<open>src/spinlock.c\<close>) under any interleaving of its callers. A call is cut
  into its accesses to shared memory, which are atomic; \<open>spin_step\<close> performs the next access of a
  thread and \<open>sp_step\<close> lets any thread run. The pauses between two attempts only pass time.
\<close>

section \<open>State\<close>

text \<open>Thread identifiers are positive. The mutex is recursive, as \<open>mutex_create\<close> sets it up.\<close>

record spinlock =
  owner :: nat
  lock_count :: int
  mtx_owner :: nat
  mtx_count :: nat
  lock_by_mtx :: bool

definition spin_create :: spinlock where
  "spin_create = \<lparr>owner = 0, lock_count = 0, mtx_owner = 0, mtx_count = 0, lock_by_mtx = False\<rparr>"

text \<open>\<open>None\<close>: the caller sleeps.\<close>

definition mutex_lock :: "nat \<Rightarrow> spinlock \<Rightarrow> spinlock option" where
  "mutex_lock t l = (if mtx_owner l = 0 \<or> mtx_owner l = t
     then Some (l\<lparr>mtx_owner := t, mtx_count := mtx_count l + 1\<rparr>) else None)"

definition mutex_unlock :: "nat \<Rightarrow> spinlock \<Rightarrow> spinlock" where
  "mutex_unlock t l = (if mtx_owner l \<noteq> t then l
     else if mtx_count l = 1 then l\<lparr>mtx_owner := 0, mtx_count := 0\<rparr>
     else l\<lparr>mtx_count := mtx_count l - 1\<rparr>)"

section \<open>The two operations\<close>

text \<open>
  The points of \<open>spin_lock\<close> and \<open>spin_unlock\<close> between two accesses. The argument of \<open>Spin\<close> and
  \<open>Cas\<close> is the number of attempts that are left, \<open>None\<close> for the endless loop; \<open>Won\<close> says
  whether the endless loop was left.
\<close>

datatype pc = Ready | Enter int | Again | Spin "int option" | Cas "int option" | Wait | Mark
  | Won bool | Clear | LockRet | Leave | Dec | Zero | Unmark | Unmtx | Release | UnlockRet int

fun spin_lock :: "nat \<Rightarrow> pc \<Rightarrow> spinlock \<Rightarrow> (spinlock \<times> pc) option" where
  "spin_lock t (Enter n) l =
     Some (l, if owner l = t then Again else Spin (if n = 0 then None else Some n))"
| "spin_lock t Again l = do { n \<leftarrow> i32 (lock_count l + 1); Some (l\<lparr>lock_count := n\<rparr>, LockRet) }"
| "spin_lock t (Spin None) l = Some (l, if owner l = 0 then Cas None else Spin None)"
| "spin_lock t (Spin (Some n)) l =
     Some (l, if n > 0 then (if owner l = 0 then Cas (Some (n - 1)) else Spin (Some (n - 1))) else Wait)"
| "spin_lock t (Cas c) l =
     Some (if owner l = 0 then (l\<lparr>owner := t\<rparr>, Won (c = None)) else (l, Spin c))"
| "spin_lock t Wait l = do { l1 \<leftarrow> mutex_lock t l; Some (l1, Mark) }"
| "spin_lock t Mark l = Some (l\<lparr>lock_by_mtx := True\<rparr>, Won False)"
| "spin_lock t (Won forever) l = do {
     n \<leftarrow> i32 (lock_count l + 1);
     Some (l\<lparr>lock_count := n\<rparr>, if forever then Clear else LockRet) }"
| "spin_lock t Clear l = Some (l\<lparr>lock_by_mtx := False\<rparr>, LockRet)"
| "spin_lock t p l = None"

fun spin_unlock :: "nat \<Rightarrow> pc \<Rightarrow> spinlock \<Rightarrow> (spinlock \<times> pc) option" where
  "spin_unlock t Leave l = Some (l, if owner l = t then Dec else UnlockRet (-1))"
| "spin_unlock t Dec l = do { n \<leftarrow> i32 (lock_count l - 1); Some (l\<lparr>lock_count := n\<rparr>, Zero) }"
| "spin_unlock t Zero l =
     Some (l, if lock_count l = 0 then (if lock_by_mtx l then Unmark else Release) else UnlockRet 0)"
| "spin_unlock t Unmark l = Some (l\<lparr>lock_by_mtx := False\<rparr>, Unmtx)"
| "spin_unlock t Unmtx l = Some (mutex_unlock t l, UnlockRet 0)"
| "spin_unlock t Release l = Some (l\<lparr>owner := 0\<rparr>, UnlockRet 0)"
| "spin_unlock t p l = None"

section \<open>Threads\<close>

text \<open>\<open>held\<close> counts the locks that a thread has got and not yet begun to give back.\<close>

record spin_sys =
  sp :: spinlock
  pcs :: "nat \<Rightarrow> pc"
  held :: "nat \<Rightarrow> nat"

definition spin_init :: spin_sys where
  "spin_init = \<lparr>sp = spin_create, pcs = (\<lambda>_. Ready), held = (\<lambda>_. 0)\<rparr>"

abbreviation go :: "spin_sys \<Rightarrow> nat \<Rightarrow> pc \<Rightarrow> spin_sys" where
  "go s t p \<equiv> s\<lparr>pcs := (pcs s)(t := p)\<rparr>"

inductive sp_step :: "int \<Rightarrow> spin_sys \<Rightarrow> spin_sys \<Rightarrow> bool" for n where
  sp_lock: "t \<noteq> 0 \<Longrightarrow> pcs s t = Ready \<Longrightarrow> sp_step n s (go s t (Enter n))"
| sp_unlock: "pcs s t = Ready \<Longrightarrow> 0 < held s t \<Longrightarrow>
    sp_step n s ((go s t Leave)\<lparr>held := (held s)(t := held s t - 1)\<rparr>)"
| sp_in: "spin_lock t (pcs s t) (sp s) = Some (l, p) \<Longrightarrow> sp_step n s ((go s t p)\<lparr>sp := l\<rparr>)"
| sp_out: "spin_unlock t (pcs s t) (sp s) = Some (l, p) \<Longrightarrow> sp_step n s ((go s t p)\<lparr>sp := l\<rparr>)"
| sp_locked: "pcs s t = LockRet \<Longrightarrow> sp_step n s ((go s t Ready)\<lparr>held := (held s)(t := held s t + 1)\<rparr>)"
| sp_unlocked: "pcs s t = UnlockRet v \<Longrightarrow> sp_step n s (go s t Ready)"

inductive sp_reach :: "int \<Rightarrow> spin_sys \<Rightarrow> bool" for n where
  sp_start: "sp_reach n spin_init"
| sp_more: "sp_reach n s \<Longrightarrow> sp_step n s s' \<Longrightarrow> sp_reach n s'"


section \<open>Mutual exclusion of the endless spin\<close>

text \<open>The points at which a caller of the endless spin owns the lock, and those it can be at.\<close>

definition owning :: "pc \<Rightarrow> bool" where
  "owning p \<longleftrightarrow> p \<in> {Again, Won True, Clear, LockRet, Leave, Dec, Zero, Release}"

definition possible :: "pc \<Rightarrow> bool" where
  "possible p \<longleftrightarrow> owning p \<or> p \<in> {Ready, Enter 0, Spin None, Cas None, UnlockRet 0}"

text \<open>The part of \<open>lock_count\<close> that is due to the call under way.\<close>

definition extra :: "pc \<Rightarrow> int" where
  "extra p = (if p \<in> {Clear, LockRet, Leave, Dec} then 1 else 0)"

definition thread_ok :: "nat \<Rightarrow> nat \<Rightarrow> pc \<Rightarrow> nat \<Rightarrow> bool" where
  "thread_ok w t p h \<longleftrightarrow> possible p \<and> (owning p \<or> 0 < h \<longrightarrow> w = t) \<and> (p = Again \<longrightarrow> 0 < h) \<and> (p = Release \<longrightarrow> h = 0)"

definition spin_inv :: "spin_sys \<Rightarrow> bool" where
  "spin_inv s \<longleftrightarrow>
     pcs s 0 = Ready \<and> held s 0 = 0 \<and> \<not> lock_by_mtx (sp s) \<and>
     (\<forall>t. thread_ok (owner (sp s)) t (pcs s t) (held s t)) \<and>
     (owner (sp s) \<noteq> 0 \<longrightarrow> owning (pcs s (owner (sp s))) \<or> 0 < held s (owner (sp s))) \<and>
     lock_count (sp s) = (if owner (sp s) = 0 then 0 else int (held s (owner (sp s))) + extra (pcs s (owner (sp s))))"

lemma spin_inv_init: "spin_inv spin_init"
  by (simp add: spin_inv_def spin_init_def spin_create_def owning_def possible_def thread_ok_def)

lemmas spin_defs = owning_def possible_def extra_def thread_ok_def

lemma spin_invD:
  assumes "spin_inv s"
  shows "pcs s 0 = Ready" "held s 0 = 0" "\<not> lock_by_mtx (sp s)" "thread_ok (owner (sp s)) t (pcs s t) (held s t)"
    "owner (sp s) \<noteq> 0 \<longrightarrow> owning (pcs s (owner (sp s))) \<or> 0 < held s (owner (sp s))"
    "lock_count (sp s) = (if owner (sp s) = 0 then 0 else int (held s (owner (sp s))) + extra (pcs s (owner (sp s))))"
  using assms unfolding spin_inv_def by (elim conjE; simp)+

text \<open>One access of a thread changes only what concerns this thread.\<close>

lemma spin_inv_update:
  assumes inv: "spin_inv s" and t: "t \<noteq> 0"
    and own: "owner l = owner (sp s) \<or> owner (sp s) = t \<and> owner l = 0 \<or> owner (sp s) = 0 \<and> owner l = t"
    and new: "\<not> lock_by_mtx l" "thread_ok (owner l) t p h" "owner l = t \<longrightarrow> owning p \<or> 0 < h"
    and cnt: "lock_count l = (if owner l = t then int h + extra p else if owner l = 0 then 0 else lock_count (sp s))"
  shows "spin_inv ((go s t p)\<lparr>sp := l, held := (held s)(t := h)\<rparr>)"
proof -
  note d = spin_invD [OF inv]
  have u: "thread_ok (owner l) u (pcs s u) (held s u)" if "u \<noteq> t" for u
  proof (cases "owning (pcs s u) \<or> 0 < held s u")
    case True
    then have "owner (sp s) = u" using d(4) [of u] by (simp add: thread_ok_def)
    moreover have "u \<noteq> 0" using True d(1,2) by (intro notI) (simp add: owning_def)
    ultimately show ?thesis using d(4) [of u] own that by auto
  next
    case False
    then show ?thesis using d(4) [of u] by (auto simp: thread_ok_def)
  qed
  show ?thesis
  proof (cases "owner l = t")
    case True
    then show ?thesis using u new t cnt d(1,2) by (simp add: spin_inv_def)
  next
    case False
    then have "owner l = 0 \<or> owner l = owner (sp s)" using own by auto
    then show ?thesis using False u new t cnt d(1,2,5,6) by (auto simp: spin_inv_def)
  qed
qed

lemma spin_inv_thread:
  assumes inv: "spin_inv s" and st: "spin_lock t (pcs s t) (sp s) = Some (l, p) \<or> spin_unlock t (pcs s t) (sp s) = Some (l, p)"
    and upd: "t \<noteq> 0 \<Longrightarrow> (owner l = owner (sp s) \<or> owner (sp s) = t \<and> owner l = 0 \<or> owner (sp s) = 0 \<and> owner l = t) \<and>
      \<not> lock_by_mtx l \<and> thread_ok (owner l) t p (held s t) \<and> (owner l = t \<longrightarrow> owning p \<or> 0 < held s t) \<and>
      lock_count l = (if owner l = t then int (held s t) + extra p else if owner l = 0 then 0 else lock_count (sp s))"
  shows "spin_inv ((go s t p)\<lparr>sp := l\<rparr>)"
proof -
  have t: "t \<noteq> 0" using st spin_invD(1) [OF inv] by (intro notI) simp
  have "spin_inv ((go s t p)\<lparr>sp := l, held := (held s)(t := held s t)\<rparr>)"
    using upd [OF t] by (elim conjE) (rule spin_inv_update [OF inv t])
  then show ?thesis by simp
qed

text \<open>The points that occur when all callers spin endlessly.\<close>

lemma spin_points:
  assumes "possible p"
  shows "spin_lock t p l = Some r \<Longrightarrow> p \<in> {Enter 0, Again, Spin None, Cas None, Won True, Clear}"
    and "spin_unlock t p l = Some r \<Longrightarrow> p \<in> {Leave, Dec, Zero, Release}"
  using assms by (auto simp: possible_def owning_def)

lemma spin_inv_own:
  assumes "spin_inv s" "t \<noteq> 0"
  shows "owner (sp s) = t \<longleftrightarrow> owning (pcs s t) \<or> 0 < held s t" "owner (sp s) = t \<Longrightarrow> lock_count (sp s) = int (held s t) + extra (pcs s t)"
    "owner (sp s) = 0 \<Longrightarrow> lock_count (sp s) = 0"
  using spin_invD(4) [OF assms(1), of t] spin_invD(5,6) [OF assms(1)] assms(2) by (auto simp: thread_ok_def)

lemma spin_lock_inv:
  assumes inv: "spin_inv s" and st: "spin_lock t (pcs s t) (sp s) = Some (l, p)"
  shows "spin_inv ((go s t p)\<lparr>sp := l\<rparr>)"
proof (rule spin_inv_thread [OF inv disjI1 [OF st]])
  assume t: "t \<noteq> 0"
  note o = spin_inv_own [OF inv t] spin_invD(3) [OF inv]
  have k: "thread_ok (owner (sp s)) t (pcs s t) (held s t)" by (rule spin_invD(4) [OF inv])
  then have "pcs s t \<in> {Enter 0, Again, Spin None, Cas None, Won True, Clear}"
    using spin_points(1) [OF _ st] by (simp add: thread_ok_def)
  then consider "pcs s t = Enter 0" | "pcs s t = Again" | "pcs s t = Spin None" | "pcs s t = Cas None"
    | "pcs s t = Won True" | "pcs s t = Clear" by blast
  then show "(owner l = owner (sp s) \<or> owner (sp s) = t \<and> owner l = 0 \<or> owner (sp s) = 0 \<and> owner l = t) \<and>
      \<not> lock_by_mtx l \<and> thread_ok (owner l) t p (held s t) \<and> (owner l = t \<longrightarrow> owning p \<or> 0 < held s t) \<and>
      lock_count l = (if owner l = t then int (held s t) + extra p else if owner l = 0 then 0 else lock_count (sp s))"
    by cases (use st k o t in \<open>auto simp: spin_defs i32_eq_Some split: if_splits bind_splits\<close>)
qed

lemma spin_unlock_inv:
  assumes inv: "spin_inv s" and st: "spin_unlock t (pcs s t) (sp s) = Some (l, p)"
  shows "spin_inv ((go s t p)\<lparr>sp := l\<rparr>)"
proof (rule spin_inv_thread [OF inv disjI2 [OF st]])
  assume t: "t \<noteq> 0"
  note o = spin_inv_own [OF inv t] spin_invD(3) [OF inv]
  have k: "thread_ok (owner (sp s)) t (pcs s t) (held s t)" by (rule spin_invD(4) [OF inv])
  then have "pcs s t \<in> {Leave, Dec, Zero, Release}"
    using spin_points(2) [OF _ st] by (simp add: thread_ok_def)
  then consider "pcs s t = Leave" | "pcs s t = Dec" | "pcs s t = Zero" | "pcs s t = Release" by blast
  then show "(owner l = owner (sp s) \<or> owner (sp s) = t \<and> owner l = 0 \<or> owner (sp s) = 0 \<and> owner l = t) \<and>
      \<not> lock_by_mtx l \<and> thread_ok (owner l) t p (held s t) \<and> (owner l = t \<longrightarrow> owning p \<or> 0 < held s t) \<and>
      lock_count l = (if owner l = t then int (held s t) + extra p else if owner l = 0 then 0 else lock_count (sp s))"
    by cases (use st k o t in \<open>auto simp: spin_defs i32_eq_Some split: if_splits bind_splits\<close>)
qed

lemma sp_step_inv: "sp_step n s s' \<Longrightarrow> n = 0 \<Longrightarrow> spin_inv s \<Longrightarrow> spin_inv s'"
proof (induction rule: sp_step.induct)
  case (sp_lock t s)
  have "spin_inv ((go s t (Enter 0))\<lparr>sp := sp s, held := (held s)(t := held s t)\<rparr>)"
    using spin_invD(3) [OF sp_lock(4)] spin_invD(4) [OF sp_lock(4), of t] spin_inv_own [OF sp_lock(4,1)] sp_lock(1,2)
    by (intro spin_inv_update [OF sp_lock(4,1)]) (auto simp: spin_defs)
  then show ?case using sp_lock(3) by simp
next
  case (sp_unlock s t)
  have t: "t \<noteq> 0" using sp_unlock(2) spin_invD(2) [OF sp_unlock(4)] by (intro notI) simp
  have "spin_inv ((go s t Leave)\<lparr>sp := sp s, held := (held s)(t := held s t - 1)\<rparr>)"
    using spin_invD(3) [OF sp_unlock(4)] spin_invD(4) [OF sp_unlock(4), of t] spin_inv_own [OF sp_unlock(4) t] sp_unlock(1,2)
    by (intro spin_inv_update [OF sp_unlock(4) t]) (auto simp: spin_defs of_nat_diff)
  then show ?case by simp
next
  case (sp_in t s l p)
  then show ?case using spin_lock_inv by simp
next
  case (sp_out t s l p)
  then show ?case using spin_unlock_inv by simp
next
  case (sp_locked s t)
  have t: "t \<noteq> 0" using sp_locked(1) spin_invD(1) [OF sp_locked(3)] by (intro notI) simp
  have "spin_inv ((go s t Ready)\<lparr>sp := sp s, held := (held s)(t := held s t + 1)\<rparr>)"
    using spin_invD(3) [OF sp_locked(3)] spin_invD(4) [OF sp_locked(3), of t] spin_inv_own [OF sp_locked(3) t] sp_locked(1)
    by (intro spin_inv_update [OF sp_locked(3) t]) (auto simp: spin_defs)
  then show ?case by simp
next
  case (sp_unlocked s t v)
  have t: "t \<noteq> 0" using sp_unlocked(1) spin_invD(1) [OF sp_unlocked(3)] by (intro notI) simp
  have "spin_inv ((go s t Ready)\<lparr>sp := sp s, held := (held s)(t := held s t)\<rparr>)"
    using spin_invD(3) [OF sp_unlocked(3)] spin_invD(4) [OF sp_unlocked(3), of t] spin_inv_own [OF sp_unlocked(3) t] sp_unlocked(1)
    by (intro spin_inv_update [OF sp_unlocked(3) t]) (auto simp: spin_defs)
  then show ?case by simp
qed

lemma sp_reach_inv: "sp_reach 0 s \<Longrightarrow> spin_inv s"
  by (induction rule: sp_reach.induct) (auto intro: spin_inv_init sp_step_inv)

text \<open>
  Claim C9. When every caller passes \<open>count = 0\<close> the lock excludes: under any interleaving of any
  number of threads, with nested locking, at most one thread holds it, the holder is its \<open>owner\<close>,
  \<open>lock_count\<close> is the nesting depth of the owner whenever that is not inside a call, no call to
  \<open>spin_unlock\<close> fails, and the lock is free once nobody holds it or is inside a call.
\<close>

theorem spin_mutual_exclusion:
  assumes "sp_reach 0 s"
  shows "(0 < held s t \<longrightarrow> 0 < held s u \<longrightarrow> t = u) \<and> (0 < held s t \<longrightarrow> owner (sp s) = t) \<and>
    (0 < held s t \<longrightarrow> pcs s t = Ready \<longrightarrow> lock_count (sp s) = int (held s t)) \<and>
    (pcs s t = UnlockRet v \<longrightarrow> v = 0) \<and>
    ((\<forall>x. pcs s x = Ready \<and> held s x = 0) \<longrightarrow> owner (sp s) = 0 \<and> lock_count (sp s) = 0 \<and> \<not> lock_by_mtx (sp s))"
proof -
  note inv = sp_reach_inv [OF assms] note d = spin_invD [OF inv]
  have t: "t \<noteq> 0" if "0 < held s t" using d(2) that by (intro notI) simp
  have "lock_count (sp s) = int (held s t)" if "0 < held s t" "pcs s t = Ready"
    using spin_inv_own(1,2) [OF inv t] that by (simp add: extra_def)
  moreover have "owner (sp s) = 0 \<and> lock_count (sp s) = 0" if "\<forall>x. pcs s x = Ready \<and> held s x = 0"
    using d(5,6) that by (simp add: owning_def split: if_splits)
  moreover have "v = 0" if "pcs s t = UnlockRet v" using d(4) [of t] that by (simp add: thread_ok_def possible_def owning_def)
  moreover have "owner (sp s) = x" if "0 < held s x" for x using d(4) [of x] that by (simp add: thread_ok_def)
  ultimately show ?thesis using d(3) by blast
qed

section \<open>Failure of the bounded spin\<close>

text \<open>Two threads.\<close>

definition two :: "spinlock \<Rightarrow> pc \<Rightarrow> pc \<Rightarrow> nat \<Rightarrow> nat \<Rightarrow> spin_sys" where
  "two l p q a b = \<lparr>sp = l, pcs = (\<lambda>_. Ready)(1 := p, 2 := q), held = (\<lambda>_. 0)(1 := a, 2 := b)\<rparr>"

lemma two_simps [simp]:
  "sp (two l p q a b) = l" "pcs (two l p q a b) (Suc 0) = p" "pcs (two l p q a b) 2 = q" "held (two l p q a b) (Suc 0) = a" "held (two l p q a b) 2 = b"
  by (simp_all add: two_def)

lemma two_start: "sp_reach n (two spin_create Ready Ready 0 0)"
proof -
  have "two spin_create Ready Ready 0 0 = spin_init" by (auto simp: two_def spin_init_def)
  then show ?thesis using sp_start by simp
qed

lemma two_moves:
  assumes r: "sp_reach n (two l p q a b)"
  shows "p = Ready \<Longrightarrow> sp_reach n (two l (Enter n) q a b)"
    "p = Ready \<Longrightarrow> 0 < a \<Longrightarrow> sp_reach n (two l Leave q (a - 1) b)"
    "spin_lock 1 p l = Some (l', p') \<Longrightarrow> sp_reach n (two l' p' q a b)"
    "spin_unlock 1 p l = Some (l', p') \<Longrightarrow> sp_reach n (two l' p' q a b)"
    "p = LockRet \<Longrightarrow> sp_reach n (two l Ready q (a + 1) b)"
    "p = UnlockRet v \<Longrightarrow> sp_reach n (two l Ready q a b)"
    "q = Ready \<Longrightarrow> sp_reach n (two l p (Enter n) a b)"
    "q = Ready \<Longrightarrow> 0 < b \<Longrightarrow> sp_reach n (two l p Leave a (b - 1))"
    "spin_lock 2 q l = Some (l', q') \<Longrightarrow> sp_reach n (two l' p q' a b)"
    "spin_unlock 2 q l = Some (l', q') \<Longrightarrow> sp_reach n (two l' p q' a b)"
    "q = LockRet \<Longrightarrow> sp_reach n (two l p Ready a (b + 1))"
    "q = UnlockRet v \<Longrightarrow> sp_reach n (two l p Ready a b)"
  using sp_more [OF r sp_lock, of 1] sp_more [OF r sp_unlock, of 1] sp_more [OF r sp_in, of 1] sp_more [OF r sp_out, of 1]
    sp_more [OF r sp_locked, of 1] sp_more [OF r sp_unlocked, of 1] sp_more [OF r sp_lock, of 2] sp_more [OF r sp_unlock, of 2]
    sp_more [OF r sp_in, of 2] sp_more [OF r sp_out, of 2] sp_more [OF r sp_locked, of 2] sp_more [OF r sp_unlocked, of 2]
  by (simp_all add: two_def fun_upd_twist)


lemma two_spin:
  "sp_reach n (two l p (Spin (Some (int m))) a b) \<Longrightarrow> owner l \<noteq> 0 \<Longrightarrow> sp_reach n (two l p (Spin (Some 0)) a b)"
proof (induction m)
  case (Suc m)
  have "sp_reach n (two l p (Spin (Some (int m))) a b)" by (rule two_moves(9) [OF Suc.prems(1)]) (simp add: Suc.prems(2))
  then show ?case by (rule Suc.IH [OF _ Suc.prems(2)])
qed simp

text \<open>The lock after thread 1 got it by spinning and thread 2 by the mutex.\<close>

definition both_locked :: spinlock where
  "both_locked = \<lparr>owner = 1, lock_count = 2, mtx_owner = 2, mtx_count = 1, lock_by_mtx = True\<rparr>"

lemma both_lock:
  assumes "0 < n"
  shows "sp_reach n (two both_locked Ready Ready 1 1)"
proof -
  let ?l = "\<lparr>owner = 1, lock_count = 1, mtx_owner = 0, mtx_count = 0, lock_by_mtx = False\<rparr>"
  have "sp_reach n (two spin_create (Spin (Some n)) Ready 0 0)"
    using two_moves(3) [OF two_moves(1) [OF two_start refl], of n] assms by (simp add: spin_create_def)
  from two_moves(3) [OF this] have "sp_reach n (two spin_create (Cas (Some (n - 1))) Ready 0 0)" using assms by (simp add: spin_create_def)
  from two_moves(3) [OF this] have "sp_reach n (two (spin_create\<lparr>owner := 1\<rparr>) (Won False) Ready 0 0)" by (simp add: spin_create_def)
  from two_moves(3) [OF this] have "sp_reach n (two ?l LockRet Ready 0 0)" by (simp add: spin_create_def)
  from two_moves(5) [OF this] have "sp_reach n (two ?l Ready Ready 1 0)" by simp
  from two_moves(9) [OF two_moves(7) [OF this refl]] have "sp_reach n (two ?l Ready (Spin (Some n)) 1 0)" using assms by simp
  then have "sp_reach n (two ?l Ready (Spin (Some 0)) 1 0)" using two_spin [of n ?l Ready "nat n" 1 0] assms by simp
  from two_moves(9) [OF this] have "sp_reach n (two ?l Ready Wait 1 0)" by simp
  from two_moves(9) [OF this] have "sp_reach n (two (?l\<lparr>mtx_owner := 2, mtx_count := 1\<rparr>) Ready Mark 1 0)" by (simp add: mutex_lock_def)
  from two_moves(9) [OF this] have "sp_reach n (two (both_locked\<lparr>lock_count := 1\<rparr>) Ready (Won False) 1 0)" by (simp add: both_locked_def)
  from two_moves(9) [OF this] have "sp_reach n (two both_locked Ready LockRet 1 0)" by (simp add: both_locked_def)
  from two_moves(11) [OF this] show ?thesis by simp
qed

text \<open>
  With a positive \<open>count\<close>, as the allocator uses it (4000), the lock does not exclude: a
  thread whose attempts are used up locks the mutex without becoming the owner, so two threads hold the
  lock at once. Its \<open>spin_unlock\<close> then fails and the mutex stays locked, and when both have given the
  lock back its owner field still names the first thread, so nobody else can ever get it by spinning.
\<close>

theorem spin_bounded_not_exclusive:
  assumes "0 < n"
  shows "(\<exists>s. sp_reach n s \<and> 0 < held s 1 \<and> 0 < held s 2) \<and>
    (\<exists>s. sp_reach n s \<and> pcs s 2 = UnlockRet (-1) \<and> mtx_owner (sp s) = 2) \<and>
    (\<exists>s. sp_reach n s \<and> (\<forall>t. pcs s t = Ready \<and> held s t = 0) \<and> owner (sp s) = 1 \<and> mtx_owner (sp s) = 2)"
proof -
  note b = both_lock [OF assms]
  from two_moves(10) [OF two_moves(8) [OF b]] have u: "sp_reach n (two both_locked Ready (UnlockRet (-1)) 1 0)"
    by (simp add: both_locked_def)
  from two_moves(12) [OF this] have "sp_reach n (two both_locked Ready Ready 1 0)" by simp
  from two_moves(4) [OF two_moves(2) [OF this]] have "sp_reach n (two both_locked Dec Ready 0 0)" by (simp add: both_locked_def)
  from two_moves(4) [OF this] have "sp_reach n (two (both_locked\<lparr>lock_count := 1\<rparr>) Zero Ready 0 0)" by (simp add: both_locked_def)
  from two_moves(4) [OF this] have "sp_reach n (two (both_locked\<lparr>lock_count := 1\<rparr>) (UnlockRet 0) Ready 0 0)" by (simp add: both_locked_def)
  from two_moves(6) [OF this] have f: "sp_reach n (two (both_locked\<lparr>lock_count := 1\<rparr>) Ready Ready 0 0)" by simp
  show ?thesis
  proof (intro conjI)
    show "\<exists>s. sp_reach n s \<and> 0 < held s 1 \<and> 0 < held s 2" using b by (intro exI [of _ "two both_locked Ready Ready 1 1"]) simp
    show "\<exists>s. sp_reach n s \<and> pcs s 2 = UnlockRet (-1) \<and> mtx_owner (sp s) = 2"
      using u by (intro exI [of _ "two both_locked Ready (UnlockRet (-1)) 1 0"]) (simp add: both_locked_def)
    show "\<exists>s. sp_reach n s \<and> (\<forall>t. pcs s t = Ready \<and> held s t = 0) \<and> owner (sp s) = 1 \<and> mtx_owner (sp s) = 2"
      using f by (intro exI [of _ "two (both_locked\<lparr>lock_count := 1\<rparr>) Ready Ready 0 0"]) (simp add: both_locked_def two_def)
  qed
qed

theorem spin_bounded_not_exclusive_witness: "\<exists>s. sp_reach 4000 s \<and> 0 < held s 1 \<and> 0 < held s 2"
  using spin_bounded_not_exclusive [of 4000] by simp

theorem spin_mutual_exclusion_witness: "\<exists>s. sp_reach 0 s \<and> 0 < held s 1 \<and> owner (sp s) = 1 \<and> lock_count (sp s) = 1"
proof -
  let ?l = "\<lparr>owner = 1, lock_count = 1, mtx_owner = 0, mtx_count = 0, lock_by_mtx = False\<rparr>"
  have "sp_reach 0 (two spin_create (Spin None) Ready 0 0)"
    using two_moves(3) [OF two_moves(1) [OF two_start refl], of 0] by (simp add: spin_create_def)
  from two_moves(3) [OF this] have "sp_reach 0 (two spin_create (Cas None) Ready 0 0)" by (simp add: spin_create_def)
  from two_moves(3) [OF this] have "sp_reach 0 (two (spin_create\<lparr>owner := 1\<rparr>) (Won True) Ready 0 0)" by (simp add: spin_create_def)
  from two_moves(3) [OF this] have "sp_reach 0 (two ?l Clear Ready 0 0)" by (simp add: spin_create_def)
  from two_moves(3) [OF this] have "sp_reach 0 (two ?l LockRet Ready 0 0)" by simp
  from two_moves(5) [OF this] have r: "sp_reach 0 (two ?l Ready Ready 1 0)" by simp
  have "held (two ?l Ready Ready 1 0) 1 = 1" "pcs (two ?l Ready Ready 1 0) 1 = Ready" by (simp_all add: two_def)
  then show ?thesis using spin_mutual_exclusion [OF r, of 1 1] r by (intro exI [of _ "two ?l Ready Ready 1 0"]) auto
qed

end
