(* ===== verification/Net.thy ===== *)
theory Net
  imports Prelude
begin

text \<open>
  The reactor: socket and engine handles (\<open>src/HandleMgr.c\<close>, \<open>src/Engine.c\<close>), sockets with their
  queues of pending requests (\<open>src/Socket.c\<close>), the public operations (\<open>src/KendyNet.c\<close>), the
  event loop (\<open>src/epoll.c\<close>) and the socket calls (\<open>src/SocketWrapper.c\<close>).

  A socket or engine is its index in the pool, a request \<open>st_io\<close> is a number. The queues
  \<open>pending_send\<close>, \<open>pending_recv\<close> and \<open>actived\<close> are sequences, by the refinement of theory
  LinkList. The operating system is a script: every system call whose result the code uses takes it from
  a list in the state, \<open>EAGAIN\<close> when the list is empty; a call interrupted by a signal is retried
  by the code and has no entry. Completion callbacks are a parameter. The pool mutexes make the pool
  operations atomic and are left out.
\<close>

abbreviation EAGAIN :: u32 where "EAGAIN \<equiv> 11"
abbreviation MAX_ENGINE :: nat where "MAX_ENGINE \<equiv> 1"
abbreviation MAX_SOCKET :: nat where "MAX_SOCKET \<equiv> 4096"

record sock =
  sstatus :: bool
  sengine :: "nat option"
  isactived :: bool
  readable :: bool
  writeable :: bool
  sfd :: int
  pending_send :: "nat list"
  pending_recv :: "nat list"
  handler :: nat

record engine =
  estatus :: bool
  poller_fd :: int
  actived :: "nat list"

record epoll_event =
  ev_sock :: nat
  ev_in :: bool
  ev_out :: bool

record 'w net =
  socket_pool :: "sock list"
  engine_pool :: "engine list"
  io_err :: "nat \<Rightarrow> u32"
  sys_results :: "(int \<times> u32) list"
  epoll_results :: "epoll_event list option list"
  clock :: "u32 list"
  user :: 'w

definition sys :: "'w net \<Rightarrow> 'w net \<times> int \<times> u32" where
  "sys n = (case sys_results n of [] \<Rightarrow> (n, -1, EAGAIN) | (r, e) # rs \<Rightarrow> (n\<lparr>sys_results := rs\<rparr>, r, e))"

definition sock_at :: "'w net \<Rightarrow> nat \<Rightarrow> sock option" where
  "sock_at n i = (if i < length (socket_pool n) then Some (socket_pool n ! i) else None)"

definition upd_sock :: "'w net \<Rightarrow> nat \<Rightarrow> (sock \<Rightarrow> sock) \<Rightarrow> 'w net" where
  "upd_sock n i f = n\<lparr>socket_pool := (socket_pool n)[i := f (socket_pool n ! i)]\<rparr>"

definition engine_at :: "'w net \<Rightarrow> nat \<Rightarrow> engine option" where
  "engine_at n e = (if e < length (engine_pool n) then Some (engine_pool n ! e) else None)"

definition upd_engine :: "'w net \<Rightarrow> nat \<Rightarrow> (engine \<Rightarrow> engine) \<Rightarrow> 'w net" where
  "upd_engine n e f = n\<lparr>engine_pool := (engine_pool n)[e := f (engine_pool n ! e)]\<rparr>"

section \<open>Handles\<close>

definition GetSocketByHandle :: "'w net \<Rightarrow> int \<Rightarrow> nat option" where
  "GetSocketByHandle n h =
     (if 0 \<le> h \<and> nat h < length (socket_pool n) \<and> sstatus (socket_pool n ! nat h) then Some (nat h) else None)"

definition GetEngineByHandle :: "'w net \<Rightarrow> int \<Rightarrow> nat option" where
  "GetEngineByHandle n h =
     (if 0 \<le> h \<and> nat h < length (engine_pool n) \<and> estatus (engine_pool n ! nat h) then Some (nat h) else None)"

text \<open>\<open>malloc\<close> may fail; the fields that \<open>create_socket\<close> does not set are those of \<open>junk\<close>.\<close>

definition create_socket :: "sock option \<Rightarrow> sock option" where
  "create_socket junk =
     map_option (\<lambda>s. s\<lparr>pending_send := [], pending_recv := [], sstatus := False, sengine := None, isactived := False\<rparr>) junk"

definition create_engine :: "engine option \<Rightarrow> engine option" where
  "create_engine junk = map_option (\<lambda>e. e\<lparr>estatus := False, actived := []\<rparr>) junk"

definition NewSocketWrapper :: "'w net \<Rightarrow> sock option \<Rightarrow> 'w net \<times> int" where
  "NewSocketWrapper n junk =
     (case List.find (\<lambda>i. \<not> sstatus (socket_pool n ! i)) [0..<length (socket_pool n)] of
        Some i \<Rightarrow> (upd_sock n i (\<lambda>s. s\<lparr>sstatus := True\<rparr>), int i)
      | None \<Rightarrow>
          (if length (socket_pool n) < MAX_SOCKET
           then (case create_socket junk of
                   None \<Rightarrow> (n, -1)
                 | Some s \<Rightarrow> (n\<lparr>socket_pool := socket_pool n @ [s\<lparr>sstatus := True\<rparr>]\<rparr>, int (length (socket_pool n))))
           else (n, -1)))"

definition ReleaseSocketWrapper :: "'w net \<Rightarrow> int \<Rightarrow> 'w net \<times> int" where
  "ReleaseSocketWrapper n h =
     (if 0 \<le> h \<and> nat h < length (socket_pool n) \<and> sstatus (socket_pool n ! nat h)
      then (upd_sock n (nat h) (\<lambda>s. s\<lparr>sstatus := False\<rparr>), 0)
      else (n, -1))"

definition NewEngine :: "'w net \<Rightarrow> engine option \<Rightarrow> 'w net \<times> int" where
  "NewEngine n junk =
     (case List.find (\<lambda>i. \<not> estatus (engine_pool n ! i)) [0..<length (engine_pool n)] of
        Some i \<Rightarrow> (upd_engine n i (\<lambda>e. e\<lparr>estatus := True\<rparr>), int i)
      | None \<Rightarrow>
          (if length (engine_pool n) < MAX_ENGINE
           then (case create_engine junk of
                   None \<Rightarrow> (n, -1)
                 | Some e \<Rightarrow> (n\<lparr>engine_pool := engine_pool n @ [e\<lparr>estatus := True\<rparr>]\<rparr>, int (length (engine_pool n))))
           else (n, -1)))"

definition ReleaseEngine :: "'w net \<Rightarrow> int \<Rightarrow> 'w net" where
  "ReleaseEngine n h =
     (if 0 \<le> h \<and> nat h < length (engine_pool n) \<and> estatus (engine_pool n ! nat h)
      then upd_engine n (nat h) (\<lambda>e. e\<lparr>estatus := False\<rparr>) else n)"

section \<open>Sockets\<close>

text \<open>\<open>isactived = 1\<close> and appending to the list of the engine of the socket.\<close>

definition activate :: "'w net \<Rightarrow> nat \<Rightarrow> 'w net option" where
  "activate n i = do {
     s \<leftarrow> sock_at n i;
     e \<leftarrow> sengine s;
     _ \<leftarrow> engine_at n e;
     Some (upd_engine (upd_sock n i (\<lambda>s. s\<lparr>isactived := True\<rparr>)) e (\<lambda>en. en\<lparr>actived := actived en @ [i]\<rparr>)) }"

definition on_read_active :: "'w net \<Rightarrow> nat \<Rightarrow> 'w net option" where
  "on_read_active n i = do {
     s \<leftarrow> sock_at n i;
     let n1 = upd_sock n i (\<lambda>s. s\<lparr>readable := True\<rparr>);
     if \<not> isactived s \<and> pending_recv s \<noteq> [] then activate n1 i else Some n1 }"

definition on_write_active :: "'w net \<Rightarrow> nat \<Rightarrow> 'w net option" where
  "on_write_active n i = do {
     s \<leftarrow> sock_at n i;
     let n1 = upd_sock n i (\<lambda>s. s\<lparr>writeable := True\<rparr>);
     if \<not> isactived s \<and> pending_send s \<noteq> [] then activate n1 i else Some n1 }"

text \<open>The results are the state, the return value, \<open>bytes_transfer\<close> and \<open>err_code\<close>.\<close>

definition raw_recv :: "'w net \<Rightarrow> nat \<Rightarrow> nat \<Rightarrow> 'w net \<times> int \<times> int \<times> u32" where
  "raw_recv n i io =
     (let (n1, bytes, errno) = sys n in
      if bytes < 0
      then (if errno = EAGAIN
            then upd_sock n1 i (\<lambda>s. s\<lparr>readable := False, pending_recv := io # pending_recv s\<rparr>) else n1,
            -1, bytes, errno)
      else (n1, bytes, bytes, 0))"

definition raw_send :: "'w net \<Rightarrow> nat \<Rightarrow> nat \<Rightarrow> 'w net \<times> int \<times> int \<times> u32" where
  "raw_send n i io =
     (let (n1, bytes, errno) = sys n in
      if bytes < 0
      then (if errno = EAGAIN
            then upd_sock n1 i (\<lambda>s. s\<lparr>writeable := False, pending_send := io # pending_send s\<rparr>) else n1,
            -1, bytes, errno)
      else (n1, bytes, bytes, 0))"

text \<open>\<open>cb h read bytes io\<close> is the callback \<open>OnRead\<close> or \<open>OnWrite\<close> that was bound as \<open>h\<close>.\<close>

type_synonym 'w callback = "nat \<Rightarrow> bool \<Rightarrow> int \<Rightarrow> nat \<Rightarrow> 'w net \<Rightarrow> 'w net option"

definition recv_one :: "'w callback \<Rightarrow> 'w net \<Rightarrow> nat \<Rightarrow> ('w net \<times> int) option" where
  "recv_one cb n i = do {
     s \<leftarrow> sock_at n i;
     if readable s
     then (case pending_recv s of
             [] \<Rightarrow> Some (n, -1)
           | io # ios \<Rightarrow>
               let (n1, ret, bytes, err) = raw_recv (upd_sock n i (\<lambda>s. s\<lparr>pending_recv := ios\<rparr>)) i io;
                   n2 = n1\<lparr>io_err := (io_err n1)(io := err)\<rparr>
               in if ret \<ge> 0 \<or> err \<noteq> EAGAIN
                  then do { n3 \<leftarrow> cb (handler s) True bytes io n2; Some (n3, ret) }
                  else Some (n2, ret))
     else Some (n, -1) }"

definition send_one :: "'w callback \<Rightarrow> 'w net \<Rightarrow> nat \<Rightarrow> ('w net \<times> int) option" where
  "send_one cb n i = do {
     s \<leftarrow> sock_at n i;
     if writeable s
     then (case pending_send s of
             [] \<Rightarrow> Some (n, -1)
           | io # ios \<Rightarrow>
               let (n1, ret, bytes, err) = raw_send (upd_sock n i (\<lambda>s. s\<lparr>pending_send := ios\<rparr>)) i io;
                   n2 = n1\<lparr>io_err := (io_err n1)(io := err)\<rparr>
               in if ret \<ge> 0 \<or> err \<noteq> EAGAIN
                  then do { n3 \<leftarrow> cb (handler s) False bytes io n2; Some (n3, ret) }
                  else Some (n2, ret))
     else Some (n, -1) }"

definition Process :: "'w callback \<Rightarrow> 'w net \<Rightarrow> nat \<Rightarrow> ('w net \<times> bool) option" where
  "Process cb n i = do {
     (n1, re) \<leftarrow> recv_one cb n i;
     (n2, se) \<leftarrow> send_one cb n1 i;
     Some (n2, re > 0 \<and> se > 0) }"

section \<open>The event loop\<close>

definition epoll_init :: "'w net \<Rightarrow> nat \<Rightarrow> 'w net \<times> int" where
  "epoll_init n e = (let (n1, r, _) = sys n in (upd_engine n1 e (\<lambda>en. en\<lparr>poller_fd := r\<rparr>), if r \<ge> 0 then 0 else -1))"

definition epoll_register :: "'w net \<Rightarrow> nat \<Rightarrow> nat \<Rightarrow> 'w net \<times> int" where
  "epoll_register n e i = (let (n1, r, _) = sys n in (n1, r))"

text \<open>One round of the loop over \<open>actived\<close>: take the first socket, process it, append it again.\<close>

definition drain_step :: "'w callback \<Rightarrow> nat \<Rightarrow> 'w net \<Rightarrow> nat \<Rightarrow> 'w net option" where
  "drain_step cb e n i = do {
     s \<leftarrow> sock_at n i;
     let n0 = upd_engine (upd_sock n i (\<lambda>s. s\<lparr>isactived := False\<rparr>)) e (\<lambda>en. en\<lparr>actived := tl (actived en)\<rparr>);
     (n1, more) \<leftarrow> Process cb n0 i;
     s1 \<leftarrow> sock_at n1 i;
     if more \<and> \<not> isactived s1
     then Some (upd_engine (upd_sock n1 i (\<lambda>s. s\<lparr>isactived := True\<rparr>)) e (\<lambda>en. en\<lparr>actived := actived en @ [i]\<rparr>))
     else Some n1 }"

partial_function (option) drain :: "'w callback \<Rightarrow> nat \<Rightarrow> 'w net \<Rightarrow> 'w net option" where
  "drain cb e n = do {
     en \<leftarrow> engine_at n e;
     case actived en of
       [] \<Rightarrow> Some n
     | i # _ \<Rightarrow> do { n1 \<leftarrow> drain_step cb e n i; drain cb e n1 } }"

fun dispatch :: "'w net \<Rightarrow> epoll_event list \<Rightarrow> 'w net option" where
  "dispatch n [] = Some n"
| "dispatch n (ev # evs) = do {
     n1 \<leftarrow> (if ev_in ev then on_read_active n (ev_sock ev) else Some n);
     n2 \<leftarrow> (if ev_out ev then on_write_active n1 (ev_sock ev) else Some n1);
     dispatch n2 evs }"

definition GetSystemMs :: "'w net \<Rightarrow> ('w net \<times> u32) option" where
  "GetSystemMs n = (case clock n of [] \<Rightarrow> None | t # ts \<Rightarrow> Some (n\<lparr>clock := ts\<rparr>, t))"

partial_function (option) loop_rounds :: "'w callback \<Rightarrow> nat \<Rightarrow> u32 \<Rightarrow> 'w net \<Rightarrow> ('w net \<times> int) option" where
  "loop_rounds cb e timeout n = do {
     n1 \<leftarrow> drain cb e n;
     case epoll_results n1 of
       [] \<Rightarrow> None
     | None # rs \<Rightarrow> Some (n1\<lparr>epoll_results := rs\<rparr>, -1)
     | Some evs # rs \<Rightarrow> do {
         n2 \<leftarrow> dispatch (n1\<lparr>epoll_results := rs\<rparr>) evs;
         (n3, tick) \<leftarrow> GetSystemMs n2;
         if tick < timeout then loop_rounds cb e timeout n3 else Some (n3, 0) } }"

definition epoll_loop :: "'w callback \<Rightarrow> nat \<Rightarrow> u32 \<Rightarrow> 'w net \<Rightarrow> ('w net \<times> int) option" where
  "epoll_loop cb e timeout n = do { (n1, tick) \<leftarrow> GetSystemMs n; loop_rounds cb e (tick + timeout) n1 }"

section \<open>The public operations\<close>

definition EngineRun :: "'w callback \<Rightarrow> 'w net \<Rightarrow> int \<Rightarrow> u32 \<Rightarrow> ('w net \<times> int) option" where
  "EngineRun cb n h timeout =
     (case GetEngineByHandle n h of None \<Rightarrow> Some (n, -1) | Some e \<Rightarrow> epoll_loop cb e timeout n)"

definition CloseEngine :: "'w net \<Rightarrow> int \<Rightarrow> 'w net" where
  "CloseEngine n h = ReleaseEngine n h"

definition CreateEngine :: "'w net \<Rightarrow> engine option \<Rightarrow> ('w net \<times> int) option" where
  "CreateEngine n junk =
     (let (n1, h) = NewEngine n junk in
      if h \<ge> 0
      then do {
        e \<leftarrow> GetEngineByHandle n1 h;
        let (n2, r) = epoll_init n1 e;
        if r \<noteq> 0 then Some (CloseEngine n2 h, -1)
        else Some (upd_engine n2 e (\<lambda>en. en\<lparr>actived := []\<rparr>), h) }
      else Some (n1, h))"

definition Bind2Engine :: "'w net \<Rightarrow> int \<Rightarrow> int \<Rightarrow> nat \<Rightarrow> 'w net \<times> int" where
  "Bind2Engine n eh sh hdl =
     (case (GetEngineByHandle n eh, GetSocketByHandle n sh) of
        (Some e, Some i) \<Rightarrow>
          (let n1 = upd_sock n i (\<lambda>s. s\<lparr>handler := hdl\<rparr>);
               (n2, r) = epoll_register n1 e i
           in if r = 0 then (upd_sock n2 i (\<lambda>s. s\<lparr>sengine := Some e\<rparr>), 0) else (n2, -1))
      | _ \<Rightarrow> (n, -1))"

definition WSASend :: "'w net \<Rightarrow> int \<Rightarrow> nat \<Rightarrow> bool \<Rightarrow> ('w net \<times> int \<times> u32) option" where
  "WSASend n h io now =
     (case GetSocketByHandle n h of
        None \<Rightarrow> Some (n, -1, 0)
      | Some i \<Rightarrow>
          (if \<not> now
           then do {
             let n1 = upd_sock n i (\<lambda>s. s\<lparr>pending_send := pending_send s @ [io]\<rparr>);
             s \<leftarrow> sock_at n1 i;
             n2 \<leftarrow> (if sengine s \<noteq> None \<and> writeable s \<and> \<not> isactived s then activate n1 i else Some n1);
             Some (n2, -1, EAGAIN) }
           else (let (n1, ret, _, err) = raw_send n i io in Some (n1, ret, err))))"

definition WSARecv :: "'w net \<Rightarrow> int \<Rightarrow> nat \<Rightarrow> bool \<Rightarrow> ('w net \<times> int \<times> u32) option" where
  "WSARecv n h io now =
     (case GetSocketByHandle n h of
        None \<Rightarrow> Some (n, -1, 0)
      | Some i \<Rightarrow>
          (if \<not> now
           then do {
             let n1 = upd_sock n i (\<lambda>s. s\<lparr>pending_recv := pending_recv s @ [io]\<rparr>);
             s \<leftarrow> sock_at n1 i;
             n2 \<leftarrow> (if sengine s \<noteq> None \<and> readable s \<and> \<not> isactived s then activate n1 i else Some n1);
             Some (n2, -1, EAGAIN) }
           else (let (n1, ret, _, err) = raw_recv n i io in Some (n1, ret, err))))"

section \<open>Socket calls\<close>

text \<open>
  \<open>InitSocket\<close> writes \<open>node.next = 0\<close>. When the socket is still linked into \<open>actived\<close> this cuts the
  list there and strands the sockets behind it; the sequence model has no state for a cut list and
  the value is \<open>None\<close>.
\<close>

definition InitSocket :: "'w net \<Rightarrow> int \<Rightarrow> int \<Rightarrow> 'w net option" where
  "InitSocket n h fd = do {
     i \<leftarrow> GetSocketByHandle n h;
     _ \<leftarrow> assert_c (\<forall>en \<in> set (engine_pool n). i \<notin> set (actived en));
     Some (upd_sock n i (\<lambda>s. s\<lparr>sfd := fd, pending_send := [], pending_recv := [], readable := False, writeable := False,
       sengine := None, isactived := False\<rparr>)) }"

definition OpenSocket :: "'w net \<Rightarrow> sock option \<Rightarrow> ('w net \<times> int) option" where
  "OpenSocket n junk =
     (let (n1, fd, _) = sys n in
      if fd < 0 then Some (n1, -1)
      else let (n2, h) = NewSocketWrapper n1 junk in
        if h < 0 then Some (n2, -1) else do { n3 \<leftarrow> InitSocket n2 h fd; Some (n3, h) })"

definition CloseSocket :: "'w net \<Rightarrow> int \<Rightarrow> 'w net \<times> int" where
  "CloseSocket n h = (case GetSocketByHandle n h of None \<Rightarrow> (n, -1) | Some i \<Rightarrow> (let (n1, r, _) = sys n in (n1, r)))"

definition ReleaseSocket :: "'w net \<Rightarrow> int \<Rightarrow> 'w net \<times> int" where
  "ReleaseSocket n h = ReleaseSocketWrapper n h"

definition Connect :: "'w net \<Rightarrow> int \<Rightarrow> 'w net \<times> int" where
  "Connect n h =
     (case GetSocketByHandle n h of None \<Rightarrow> (n, -1)
      | Some i \<Rightarrow> (let (n1, r, _) = sys n in (n1, if r < 0 then -1 else 0)))"

definition Bind :: "'w net \<Rightarrow> int \<Rightarrow> 'w net \<times> int" where
  "Bind n h =
     (case GetSocketByHandle n h of None \<Rightarrow> (n, -1)
      | Some i \<Rightarrow> (let (n1, r, _) = sys n in (n1, if r < 0 then -1 else 0)))"

definition Listen :: "'w net \<Rightarrow> int \<Rightarrow> 'w net \<times> int" where
  "Listen n h =
     (case GetSocketByHandle n h of None \<Rightarrow> (n, -1)
      | Some i \<Rightarrow> (let (n1, r, _) = sys n in (n1, if r < 0 then -1 else 0)))"

text \<open>
  \<open>addr_ok\<close>: \<open>ip\<close> is not null (\<open>Tcp_Listen\<close>: or null) and \<open>inet_pton\<close> reports no error for it.
\<close>

partial_function (option) connect_loop :: "'w net \<Rightarrow> int \<Rightarrow> bool \<Rightarrow> ('w net \<times> bool) option" where
  "connect_loop n h retry =
     (let (n1, r) = Connect n h in
      if r = 0 then Some (n1, True) else if \<not> retry then Some (n1, False) else connect_loop n1 h retry)"

definition Tcp_Connect :: "'w net \<Rightarrow> bool \<Rightarrow> bool \<Rightarrow> sock option \<Rightarrow> ('w net \<times> int) option" where
  "Tcp_Connect n addr_ok retry junk =
     (if \<not> addr_ok then Some (n, -1)
      else do {
        (n1, h) \<leftarrow> OpenSocket n junk;
        if h \<noteq> 0
        then do {
          (n2, ok) \<leftarrow> connect_loop n1 h retry;
          if ok then Some (n2, h) else Some (fst (CloseSocket n2 h), -1) }
        else Some (n1, -1) })"

definition Tcp_Listen :: "'w net \<Rightarrow> bool \<Rightarrow> sock option \<Rightarrow> ('w net \<times> int) option" where
  "Tcp_Listen n addr_ok junk = do {
     (n1, h) \<leftarrow> OpenSocket n junk;
     if h < 0 then Some (n1, -1)
     else if \<not> addr_ok then Some (n1, -1)
     else
       let (n2, r) = Bind n1 h in
       if r < 0 then Some (fst (CloseSocket n2 h), -1)
       else let (n3, r3) = Listen n2 h in
         if r3 = 0 then Some (n3, h) else Some (fst (CloseSocket n3 h), -1) }"

text \<open>\<open>EPROTO\<close> and \<open>ECONNABORTED\<close> are retried.\<close>

function accept_loop :: "'w net \<Rightarrow> 'w net \<times> int" where
  "accept_loop n =
     (let (n1, r, e) = sys n in
      if r < 0 \<and> (e = 71 \<or> e = 103) then accept_loop n1 else (n1, r))"
  by pat_completeness auto
termination
  by (relation "measure (\<lambda>n. length (sys_results n))") (auto simp: sys_def split: list.splits)

definition Accept :: "'w net \<Rightarrow> int \<Rightarrow> sock option \<Rightarrow> ('w net \<times> int) option" where
  "Accept n h junk =
     (case GetSocketByHandle n h of
        None \<Rightarrow> Some (n, -1)
      | Some i \<Rightarrow>
          (let (n1, fd) = accept_loop n in
           if fd < 0 then Some (n1, -1)
           else let (n2, nh) = NewSocketWrapper n1 junk in
             if nh < 0 then Some (n2, -1) else do { n3 \<leftarrow> InitSocket n2 nh fd; Some (n3, nh) }))"

section \<open>Handles are unique\<close>

text \<open>
  Allocating a socket handle: a non-negative result was not in use before, is valid
  afterwards and affects no other handle; failure changes nothing and happens only when every existing
  slot is in use and the pool is full or the allocation of a slot fails.
\<close>

theorem new_socket_handle:
  assumes "NewSocketWrapper n junk = (n', h)"
  shows "(h \<ge> 0 \<and> GetSocketByHandle n h = None \<and> GetSocketByHandle n' h = Some (nat h) \<and>
      (\<forall>g. g \<noteq> h \<longrightarrow> GetSocketByHandle n' g = GetSocketByHandle n g)) \<or>
    (h = -1 \<and> n' = n \<and> (\<forall>s \<in> set (socket_pool n). sstatus s) \<and>
      (length (socket_pool n) \<ge> MAX_SOCKET \<or> junk = None))"
proof (cases "List.find (\<lambda>i. \<not> sstatus (socket_pool n ! i)) [0..<length (socket_pool n)]")
  case (Some i)
  then have "i < length (socket_pool n)" "\<not> sstatus (socket_pool n ! i)" by (simp_all add: find_upt_Some)
  then show ?thesis using assms Some
    by (auto simp: NewSocketWrapper_def GetSocketByHandle_def upd_sock_def nth_list_update split: if_splits)
next
  case None
  then have all: "\<forall>s \<in> set (socket_pool n). sstatus s" by (auto simp: find_upt_None in_set_conv_nth)
  show ?thesis
  proof (cases "length (socket_pool n) < MAX_SOCKET \<and> junk \<noteq> None")
    case True
    then obtain s where s: "create_socket junk = Some s" by (auto simp: create_socket_def)
    have "h = int (length (socket_pool n))" "n' = n\<lparr>socket_pool := socket_pool n @ [s\<lparr>sstatus := True\<rparr>]\<rparr>"
      using assms None True s by (simp_all add: NewSocketWrapper_def)
    then show ?thesis by (auto simp: GetSocketByHandle_def nth_append)
  next
    case False
    then have "n' = n \<and> h = -1" using assms None by (auto simp: NewSocketWrapper_def create_socket_def split: if_splits)
    then show ?thesis using all False by auto
  qed
qed

definition net_empty :: "unit net" where
  "net_empty = \<lparr>socket_pool = [], engine_pool = [], io_err = (\<lambda>_. 0), sys_results = [(3, 0)], epoll_results = [], clock = [], user = ()\<rparr>"

definition sock_junk :: sock where
  "sock_junk = \<lparr>sstatus = False, sengine = None, isactived = False, readable = True, writeable = True, sfd = 0,
     pending_send = [], pending_recv = [], handler = 0\<rparr>"

theorem new_socket_handle_witness:
  "GetSocketByHandle net_empty 0 = None \<and> GetSocketByHandle (fst (NewSocketWrapper net_empty (Some sock_junk))) 0 = Some 0"
proof -
  have "NewSocketWrapper net_empty (Some sock_junk) =
      (net_empty\<lparr>socket_pool := [sock_junk\<lparr>sstatus := True\<rparr>]\<rparr>, 0)"
    by (simp add: NewSocketWrapper_def net_empty_def create_socket_def sock_junk_def)
  from new_socket_handle [OF this] this show ?thesis by auto
qed

lemma connect_loop_invalid: "connect_loop n h retry = Some r \<Longrightarrow> h < 0 \<longrightarrow> \<not> retry"
  by (rule connect_loop.raw_induct [of "\<lambda>n h retry r. h < 0 \<longrightarrow> \<not> retry"])
    (clarsimp simp: Connect_def GetSocketByHandle_def, blast)

text \<open>
  The first socket of a process has handle 0, which \<open>Tcp_Connect\<close> takes for a failure: it
  returns -1 without trying to connect and leaves the handle in use. When no socket can be opened it
  goes on with handle -1, and with \<open>retry\<close> set the attempts never end.
\<close>

theorem tcp_connect_handle_tests:
  "(socket_pool n = [] \<longrightarrow> (\<forall>e \<in> set (engine_pool n). actived e = []) \<longrightarrow> sys_results n = (fd, en) # rs \<longrightarrow> 0 \<le> fd \<longrightarrow>
     (\<exists>n'. Tcp_Connect n True retry (Some s) = Some (n', -1) \<and> GetSocketByHandle n' 0 = Some 0 \<and> sys_results n' = rs)) \<and>
   (sys_results n = (-1, en) # rs \<longrightarrow> Tcp_Connect n True True (Some s) = None)"
proof (intro conjI impI)
  assume a: "socket_pool n = []" "\<forall>e \<in> set (engine_pool n). actived e = []" "sys_results n = (fd, en) # rs" "0 \<le> fd"
  show "\<exists>n'. Tcp_Connect n True retry (Some s) = Some (n', -1) \<and> GetSocketByHandle n' 0 = Some 0 \<and> sys_results n' = rs"
    using a by (simp add: Tcp_Connect_def OpenSocket_def sys_def NewSocketWrapper_def create_socket_def InitSocket_def
        GetSocketByHandle_def upd_sock_def)
next
  assume a: "sys_results n = (-1, en) # rs"
  have "connect_loop (n\<lparr>sys_results := rs\<rparr>) (-1) True = None"
    using connect_loop_invalid [of "n\<lparr>sys_results := rs\<rparr>" "-1" True] by (cases "connect_loop (n\<lparr>sys_results := rs\<rparr>) (-1) True") auto
  then show "Tcp_Connect n True True (Some s) = None"
    using a by (simp add: Tcp_Connect_def OpenSocket_def sys_def)
qed

theorem tcp_connect_handle_tests_witness:
  "(\<exists>n'. Tcp_Connect net_empty True False (Some sock_junk) = Some (n', -1) \<and> GetSocketByHandle n' 0 = Some 0 \<and>
      sys_results n' = []) \<and>
   Tcp_Connect (net_empty\<lparr>sys_results := [(-1, 24)]\<rparr>) True True (Some sock_junk) = None"
  using tcp_connect_handle_tests [of net_empty 3 0 "[]" False sock_junk]
    tcp_connect_handle_tests [of "net_empty\<lparr>sys_results := [(-1, 24)]\<rparr>" 3 24 "[]" False sock_junk]
  by (auto simp: net_empty_def)

section \<open>The list of active sockets\<close>

abbreviation queued :: "'w net \<Rightarrow> nat \<Rightarrow> nat list" where "queued n e \<equiv> actived (engine_pool n ! e)"
abbreviation the_sock :: "'w net \<Rightarrow> nat \<Rightarrow> sock" where "the_sock n i \<equiv> socket_pool n ! i"

text \<open>
  A socket is marked active exactly when it is in the list of its engine, and it is there once.
\<close>

definition act_inv :: "'w net \<Rightarrow> bool" where
  "act_inv n \<longleftrightarrow>
     (\<forall>e < length (engine_pool n). distinct (queued n e)) \<and>
     (\<forall>e < length (engine_pool n). \<forall>i \<in> set (queued n e).
        i < length (socket_pool n) \<and> sengine (the_sock n i) = Some e \<and> isactived (the_sock n i)) \<and>
     (\<forall>i < length (socket_pool n). \<forall>e. sengine (the_sock n i) = Some e \<longrightarrow> e < length (engine_pool n)) \<and>
     (\<forall>i < length (socket_pool n). isactived (the_sock n i) \<longrightarrow>
        (\<exists>e. sengine (the_sock n i) = Some e \<and> i \<in> set (queued n e)))"

lemma act_invI:
  assumes "\<And>e. e < length (engine_pool n) \<Longrightarrow> distinct (queued n e)"
    "\<And>e i. e < length (engine_pool n) \<Longrightarrow> i \<in> set (queued n e) \<Longrightarrow>
       i < length (socket_pool n) \<and> sengine (the_sock n i) = Some e \<and> isactived (the_sock n i)"
    "\<And>i e. i < length (socket_pool n) \<Longrightarrow> sengine (the_sock n i) = Some e \<Longrightarrow> e < length (engine_pool n)"
    "\<And>i. i < length (socket_pool n) \<Longrightarrow> isactived (the_sock n i) \<Longrightarrow>
       \<exists>e. sengine (the_sock n i) = Some e \<and> i \<in> set (queued n e)"
  shows "act_inv n"
  using assms unfolding act_inv_def by blast

lemma act_invD:
  assumes "act_inv n"
  shows "e < length (engine_pool n) \<Longrightarrow> distinct (queued n e)"
    "e < length (engine_pool n) \<Longrightarrow> i \<in> set (queued n e) \<Longrightarrow>
       i < length (socket_pool n) \<and> sengine (the_sock n i) = Some e \<and> isactived (the_sock n i)"
    "i < length (socket_pool n) \<Longrightarrow> sengine (the_sock n i) = Some e \<Longrightarrow> e < length (engine_pool n)"
    "i < length (socket_pool n) \<Longrightarrow> isactived (the_sock n i) \<Longrightarrow>
       \<exists>e. sengine (the_sock n i) = Some e \<and> i \<in> set (queued n e)"
  using assms unfolding act_inv_def by blast+

definition same_binding :: "'w net \<Rightarrow> 'w net \<Rightarrow> bool" where
  "same_binding n n' \<longleftrightarrow> length (engine_pool n') = length (engine_pool n) \<and>
     length (socket_pool n) \<le> length (socket_pool n') \<and>
     (\<forall>i < length (socket_pool n). sengine (the_sock n' i) = sengine (the_sock n i))"

text \<open>What the loop needs of the completion callbacks.\<close>

definition cb_ok :: "'w callback \<Rightarrow> bool" where
  "cb_ok cb \<longleftrightarrow> (\<forall>h r b io n n'. cb h r b io n = Some n' \<longrightarrow> act_inv n \<longrightarrow> act_inv n' \<and> same_binding n n')"

lemma same_binding_refl [simp]: "same_binding n n"
  by (simp add: same_binding_def)

lemma same_binding_trans: "same_binding a b \<Longrightarrow> same_binding b c \<Longrightarrow> same_binding a c"
  unfolding same_binding_def by (metis order_less_le_trans order_trans)

text \<open>Two states with the same engines, bindings and marks.\<close>

lemma act_inv_cong:
  assumes "act_inv n" "engine_pool n' = engine_pool n" "length (socket_pool n') = length (socket_pool n)"
    "\<And>i. i < length (socket_pool n) \<Longrightarrow> sengine (the_sock n' i) = sengine (the_sock n i) \<and> isactived (the_sock n' i) = isactived (the_sock n i)"
  shows "act_inv n' \<and> same_binding n n'"
proof
  show "act_inv n'"
  proof (rule act_invI, unfold assms(2,3))
    fix e i
    assume "e < length (engine_pool n)" "i \<in> set (queued n e)"
    then show "i < length (socket_pool n) \<and> sengine (the_sock n' i) = Some e \<and> isactived (the_sock n' i)"
      using act_invD(2) [OF assms(1)] assms(4) by metis
  next
    fix i
    assume "i < length (socket_pool n)" "isactived (the_sock n' i)"
    then show "\<exists>e. sengine (the_sock n' i) = Some e \<and> i \<in> set (queued n e)"
      using act_invD(4) [OF assms(1)] assms(4) by metis
  qed (use act_invD(1,3) [OF assms(1)] assms(4) in metis)+
  show "same_binding n n'" using assms(2-4) by (simp add: same_binding_def)
qed

lemma upd_sock_inv:
  assumes "act_inv n" "\<And>s. sengine (f s) = sengine s" "\<And>s. isactived (f s) = isactived s"
  shows "act_inv (upd_sock n i f) \<and> same_binding n (upd_sock n i f)"
proof (cases "i < length (socket_pool n)")
  case True
  then show ?thesis
    by (intro act_inv_cong [OF assms(1)]) (simp_all add: upd_sock_def nth_list_update assms(2,3))
next
  case False
  then show ?thesis by (intro act_inv_cong [OF assms(1)]) (simp_all add: upd_sock_def)
qed

lemma act_inv_pools:
  "socket_pool n' = socket_pool n \<Longrightarrow> engine_pool n' = engine_pool n \<Longrightarrow> act_inv n' = act_inv n"
  unfolding act_inv_def by (simp only:)

lemma same_binding_pools:
  "socket_pool n' = socket_pool n \<Longrightarrow> engine_pool n' = engine_pool n \<Longrightarrow> same_binding m n' = same_binding m n"
  unfolding same_binding_def by (simp only:)

lemma other_fields_inv [simp]:
  "act_inv (n\<lparr>sys_results := a\<rparr>) = act_inv n" "act_inv (n\<lparr>io_err := b\<rparr>) = act_inv n"
  "act_inv (n\<lparr>epoll_results := c\<rparr>) = act_inv n" "act_inv (n\<lparr>clock := d\<rparr>) = act_inv n"
  by (rule act_inv_pools; simp)+

lemma other_fields_binding [simp]:
  "same_binding n (n'\<lparr>sys_results := a\<rparr>) = same_binding n n'" "same_binding n (n'\<lparr>io_err := b\<rparr>) = same_binding n n'"
  "same_binding n (n'\<lparr>epoll_results := c\<rparr>) = same_binding n n'" "same_binding n (n'\<lparr>clock := d\<rparr>) = same_binding n n'"
  by (rule same_binding_pools; simp)+

lemma push_active_inv:
  assumes inv: "act_inv n" and i: "i < length (socket_pool n)" "\<not> isactived (the_sock n i)" "sengine (the_sock n i) = Some e"
  defines "n' \<equiv> upd_engine (upd_sock n i (\<lambda>s. s\<lparr>isactived := True\<rparr>)) e (\<lambda>en. en\<lparr>actived := actived en @ [i]\<rparr>)"
  shows "act_inv n' \<and> same_binding n n' \<and> queued n' e = queued n e @ [i]"
proof -
  have e: "e < length (engine_pool n)" using act_invD(3) [OF inv i(1,3)] .
  have q: "queued n' d = (if d = e then queued n e @ [i] else queued n d)" for d
    using e by (simp add: n'_def upd_engine_def upd_sock_def nth_list_update)
  have s: "sengine (the_sock n' j) = sengine (the_sock n j)" "isactived (the_sock n' j) = (j = i \<or> isactived (the_sock n j))" for j
    using i(1) by (simp_all add: n'_def upd_engine_def upd_sock_def nth_list_update)
  have l: "length (socket_pool n') = length (socket_pool n)" "length (engine_pool n') = length (engine_pool n)"
    by (simp_all add: n'_def upd_engine_def upd_sock_def)
  have ni: "i \<notin> set (queued n d)" if "d < length (engine_pool n)" for d using act_invD(2) [OF inv that] i(2) by blast
  have "act_inv n'"
  proof (rule act_invI, unfold l s)
    fix d
    assume "d < length (engine_pool n)"
    then show "distinct (queued n' d)" using act_invD(1) [OF inv] ni q by simp
  next
    fix d j
    assume "d < length (engine_pool n)" "j \<in> set (queued n' d)"
    then show "j < length (socket_pool n) \<and> sengine (the_sock n j) = Some d \<and> (j = i \<or> isactived (the_sock n j))"
      using act_invD(2) [OF inv, of d j] i q by (auto split: if_splits)
  next
    fix j d
    assume "j < length (socket_pool n)" "sengine (the_sock n j) = Some d"
    then show "d < length (engine_pool n)" using act_invD(3) [OF inv] by blast
  next
    fix j
    assume "j < length (socket_pool n)" "j = i \<or> isactived (the_sock n j)"
    then show "\<exists>d. sengine (the_sock n j) = Some d \<and> j \<in> set (queued n' d)"
      using act_invD(4) [OF inv, of j] i(3) q by fastforce
  qed
  then show ?thesis using l s q by (simp add: same_binding_def)
qed

lemma activate_inv:
  assumes inv: "act_inv n" and a: "activate n i = Some n'" and na: "\<not> isactived (the_sock n i)"
  shows "act_inv n' \<and> same_binding n n'"
proof -
  obtain e where e: "i < length (socket_pool n)" "sengine (the_sock n i) = Some e"
    "n' = upd_engine (upd_sock n i (\<lambda>s. s\<lparr>isactived := True\<rparr>)) e (\<lambda>en. en\<lparr>actived := actived en @ [i]\<rparr>)"
    using a by (auto simp: activate_def sock_at_def bind_eq_Some_conv split: if_splits)
  then show ?thesis using push_active_inv [OF inv e(1) na e(2)] by simp
qed

lemma pop_active_inv:
  assumes inv: "act_inv n" and e: "e < length (engine_pool n)" "queued n e = i # js"
  defines "n' \<equiv> upd_engine (upd_sock n i (\<lambda>s. s\<lparr>isactived := False\<rparr>)) e (\<lambda>en. en\<lparr>actived := tl (actived en)\<rparr>)"
  shows "act_inv n' \<and> same_binding n n' \<and> queued n' e = js \<and> i < length (socket_pool n) \<and> sengine (the_sock n i) = Some e"
proof -
  have i: "i < length (socket_pool n)" "sengine (the_sock n i) = Some e" "i \<notin> set js"
    using act_invD(1,2) [OF inv e(1)] e(2) by auto
  have q: "queued n' d = (if d = e then js else queued n d)" for d
    using e by (simp add: n'_def upd_engine_def upd_sock_def nth_list_update)
  have s: "sengine (the_sock n' j) = sengine (the_sock n j)" "isactived (the_sock n' j) = (j \<noteq> i \<and> isactived (the_sock n j))" for j
    using i(1) by (simp_all add: n'_def upd_engine_def upd_sock_def nth_list_update)
  have l: "length (socket_pool n') = length (socket_pool n)" "length (engine_pool n') = length (engine_pool n)"
    by (simp_all add: n'_def upd_engine_def upd_sock_def)
  have "act_inv n'"
  proof (rule act_invI, unfold l s)
    fix d
    assume "d < length (engine_pool n)"
    then show "distinct (queued n' d)" using act_invD(1) [OF inv, of d] e q by auto
  next
    fix d j
    assume d: "d < length (engine_pool n)" "j \<in> set (queued n' d)"
    then have "j \<in> set (queued n d)" using q e by (auto split: if_splits)
    moreover have "j \<noteq> i" using d q i act_invD(2) [OF inv d(1), of j] by (auto split: if_splits)
    ultimately show "j < length (socket_pool n) \<and> sengine (the_sock n j) = Some d \<and> j \<noteq> i \<and> isactived (the_sock n j)"
      using act_invD(2) [OF inv d(1), of j] by simp
  next
    fix j d
    assume "j < length (socket_pool n)" "sengine (the_sock n j) = Some d"
    then show "d < length (engine_pool n)" using act_invD(3) [OF inv] by blast
  next
    fix j
    assume "j < length (socket_pool n)" "j \<noteq> i \<and> isactived (the_sock n j)"
    then show "\<exists>d. sengine (the_sock n j) = Some d \<and> j \<in> set (queued n' d)"
      using act_invD(4) [OF inv, of j] q e by fastforce
  qed
  then show ?thesis using l s q i by (simp add: same_binding_def)
qed

section \<open>The loop keeps the list consistent\<close>

lemma sys_pools: "sys n = (n1, r, e) \<Longrightarrow> socket_pool n1 = socket_pool n \<and> engine_pool n1 = engine_pool n"
  by (auto simp: sys_def split: list.splits)

lemma sys_inv: "sys n = (n1, r, e) \<Longrightarrow> act_inv n \<Longrightarrow> act_inv n1 \<and> same_binding n n1"
  using act_inv_pools same_binding_pools sys_pools same_binding_refl by metis

lemma raw_recv_inv:
  assumes "raw_recv n i io = (n', r)" "act_inv n"
  shows "act_inv n' \<and> same_binding n n'"
proof -
  obtain n1 b en where s: "sys n = (n1, b, en)" by (cases "sys n")
  define f where "f = (\<lambda>s::sock. s\<lparr>readable := False, pending_recv := io # pending_recv s\<rparr>)"
  have n': "n' = (if b < 0 \<and> en = EAGAIN then upd_sock n1 i f else n1)"
    using assms(1) s by (auto simp: raw_recv_def f_def split: if_splits)
  have 1: "act_inv n1 \<and> same_binding n n1" using sys_inv [OF s assms(2)] .
  have "act_inv (upd_sock n1 i f) \<and> same_binding n1 (upd_sock n1 i f)"
    using 1 by (intro upd_sock_inv) (simp_all add: f_def)
  then show ?thesis using 1 n' same_binding_trans by auto
qed

lemma raw_send_inv:
  assumes "raw_send n i io = (n', r)" "act_inv n"
  shows "act_inv n' \<and> same_binding n n'"
proof -
  obtain n1 b en where s: "sys n = (n1, b, en)" by (cases "sys n")
  define f where "f = (\<lambda>s::sock. s\<lparr>writeable := False, pending_send := io # pending_send s\<rparr>)"
  have n': "n' = (if b < 0 \<and> en = EAGAIN then upd_sock n1 i f else n1)"
    using assms(1) s by (auto simp: raw_send_def f_def split: if_splits)
  have 1: "act_inv n1 \<and> same_binding n n1" using sys_inv [OF s assms(2)] .
  have "act_inv (upd_sock n1 i f) \<and> same_binding n1 (upd_sock n1 i f)"
    using 1 by (intro upd_sock_inv) (simp_all add: f_def)
  then show ?thesis using 1 n' same_binding_trans by auto
qed

lemma cb_okD: "cb_ok cb \<Longrightarrow> cb h r b io n = Some n' \<Longrightarrow> act_inv n \<Longrightarrow> act_inv n' \<and> same_binding n n'"
  unfolding cb_ok_def by blast

lemma recv_one_inv:
  assumes cb: "cb_ok cb" and r: "recv_one cb n i = Some (n', ret)" and inv: "act_inv n"
  shows "act_inv n' \<and> same_binding n n'"
proof -
  obtain s where s: "sock_at n i = Some s" using r by (auto simp: recv_one_def bind_eq_Some_conv)
  show ?thesis
  proof (cases "readable s \<and> pending_recv s \<noteq> []")
    case False
    then show ?thesis using r s inv by (auto simp: recv_one_def split: if_splits list.splits)
  next
    case True
    then obtain io ios where p: "readable s" "pending_recv s = io # ios" by (cases "pending_recv s") auto
    define f where "f = (\<lambda>s::sock. s\<lparr>pending_recv := ios\<rparr>)"
    obtain n1 rt b err where raw: "raw_recv (upd_sock n i f) i io = (n1, rt, b, err)" by (cases "raw_recv (upd_sock n i f) i io")
    define n2 where "n2 = n1\<lparr>io_err := (io_err n1)(io := err)\<rparr>"
    have u: "act_inv (upd_sock n i f) \<and> same_binding n (upd_sock n i f)"
      by (rule upd_sock_inv [OF inv]) (simp_all add: f_def)
    then have 2: "act_inv n2 \<and> same_binding n n2"
      using raw_recv_inv [OF raw] same_binding_trans by (auto simp: n2_def)
    have "n' = n2 \<or> cb (handler s) True b io n2 = Some n'"
      using r s p raw by (auto simp: recv_one_def f_def n2_def Let_def bind_eq_Some_conv split: if_splits)
    then show ?thesis using 2 cb_okD [OF cb] same_binding_trans by blast
  qed
qed

lemma send_one_inv:
  assumes cb: "cb_ok cb" and r: "send_one cb n i = Some (n', ret)" and inv: "act_inv n"
  shows "act_inv n' \<and> same_binding n n'"
proof -
  obtain s where s: "sock_at n i = Some s" using r by (auto simp: send_one_def bind_eq_Some_conv)
  show ?thesis
  proof (cases "writeable s \<and> pending_send s \<noteq> []")
    case False
    then show ?thesis using r s inv by (auto simp: send_one_def split: if_splits list.splits)
  next
    case True
    then obtain io ios where p: "writeable s" "pending_send s = io # ios" by (cases "pending_send s") auto
    define f where "f = (\<lambda>s::sock. s\<lparr>pending_send := ios\<rparr>)"
    obtain n1 rt b err where raw: "raw_send (upd_sock n i f) i io = (n1, rt, b, err)" by (cases "raw_send (upd_sock n i f) i io")
    define n2 where "n2 = n1\<lparr>io_err := (io_err n1)(io := err)\<rparr>"
    have u: "act_inv (upd_sock n i f) \<and> same_binding n (upd_sock n i f)"
      by (rule upd_sock_inv [OF inv]) (simp_all add: f_def)
    then have 2: "act_inv n2 \<and> same_binding n n2"
      using raw_send_inv [OF raw] same_binding_trans by (auto simp: n2_def)
    have "n' = n2 \<or> cb (handler s) False b io n2 = Some n'"
      using r s p raw by (auto simp: send_one_def f_def n2_def Let_def bind_eq_Some_conv split: if_splits)
    then show ?thesis using 2 cb_okD [OF cb] same_binding_trans by blast
  qed
qed

lemma Process_inv:
  assumes "cb_ok cb" "Process cb n i = Some (n', m)" "act_inv n"
  shows "act_inv n' \<and> same_binding n n'"
proof -
  obtain n1 re se where "recv_one cb n i = Some (n1, re)" "send_one cb n1 i = Some (n', se)"
    using assms(2) by (auto simp: Process_def bind_eq_Some_conv)
  then show ?thesis using recv_one_inv [OF assms(1)] send_one_inv [OF assms(1)] assms(3) same_binding_trans by blast
qed

lemma drain_step_inv:
  assumes cb: "cb_ok cb" and inv: "act_inv n" and e: "e < length (engine_pool n)" "queued n e = i # js"
    and d: "drain_step cb e n i = Some n'"
  shows "act_inv n' \<and> same_binding n n'"
proof -
  define n0 where "n0 = upd_engine (upd_sock n i (\<lambda>s. s\<lparr>isactived := False\<rparr>)) e (\<lambda>en. en\<lparr>actived := tl (actived en)\<rparr>)"
  have 0: "act_inv n0" "same_binding n n0" "i < length (socket_pool n)" "sengine (the_sock n i) = Some e"
    using pop_active_inv [OF inv e] by (simp_all add: n0_def)
  obtain n1 more s1 where 1: "Process cb n0 i = Some (n1, more)" "sock_at n1 i = Some s1"
    "(if more \<and> \<not> isactived s1 then Some (upd_engine (upd_sock n1 i (\<lambda>s. s\<lparr>isactived := True\<rparr>)) e
        (\<lambda>en. en\<lparr>actived := actived en @ [i]\<rparr>)) else Some n1) = Some n'"
  proof -
    assume thesis: "\<And>n1 more s1. Process cb n0 i = Some (n1, more) \<Longrightarrow> sock_at n1 i = Some s1 \<Longrightarrow>
      (if more \<and> \<not> isactived s1 then Some (upd_engine (upd_sock n1 i (\<lambda>s. s\<lparr>isactived := True\<rparr>)) e
        (\<lambda>en. en\<lparr>actived := actived en @ [i]\<rparr>)) else Some n1) = Some n' \<Longrightarrow> thesis"
    obtain n1 more where p: "Process cb n0 i = Some (n1, more)"
      using d unfolding drain_step_def Let_def n0_def [symmetric] by (auto simp: bind_eq_Some_conv)
    obtain s1 where "sock_at n1 i = Some s1"
      using d p unfolding drain_step_def Let_def n0_def [symmetric] by (auto simp: bind_eq_Some_conv)
    then show thesis using thesis [OF p] d p unfolding drain_step_def Let_def n0_def [symmetric]
      by (auto simp: bind_eq_Some_conv)
  qed
  have 2: "act_inv n1" "same_binding n n1" using Process_inv [OF cb 1(1) 0(1)] same_binding_trans [OF 0(2)] by auto
  have s1: "s1 = the_sock n1 i" "i < length (socket_pool n1)" using 1(2) by (auto simp: sock_at_def split: if_splits)
  have "sengine (the_sock n1 i) = Some e" using 2(2) 0(3,4) by (simp add: same_binding_def)
  then show ?thesis using push_active_inv [OF 2(1) s1(2)] s1(1) 1(3) 2 same_binding_trans by (auto split: if_splits)
qed

lemma drain_inv:
  assumes "cb_ok cb"
  shows "drain cb e n = Some n' \<Longrightarrow> act_inv n \<longrightarrow> act_inv n' \<and> same_binding n n' \<and> queued n' e = []"
proof (rule drain.raw_induct [of "\<lambda>c e n n'. c = cb \<longrightarrow> act_inv n \<longrightarrow> act_inv n' \<and> same_binding n n' \<and> queued n' e = []", THEN mp])
  fix rec c e n n'
  assume IH: "\<And>c e n n'. rec c e n = Some n' \<Longrightarrow> c = cb \<longrightarrow> act_inv n \<longrightarrow> act_inv n' \<and> same_binding n n' \<and> queued n' e = []"
    and r: "engine_at n e \<bind> (\<lambda>en. case actived en of [] \<Rightarrow> Some n | i # x \<Rightarrow> drain_step c e n i \<bind> rec c e) = Some n'"
  show "c = cb \<longrightarrow> act_inv n \<longrightarrow> act_inv n' \<and> same_binding n n' \<and> queued n' e = []"
  proof (intro impI)
    assume c: "c = cb" and inv: "act_inv n"
    have e: "e < length (engine_pool n)" using r by (auto simp: engine_at_def split: if_splits)
    show "act_inv n' \<and> same_binding n n' \<and> queued n' e = []"
    proof (cases "queued n e")
      case Nil
      then show ?thesis using r e inv by (simp add: engine_at_def)
    next
      case (Cons i js)
      then obtain n1 where 1: "drain_step cb e n i = Some n1" "rec cb e n1 = Some n'"
        using r e c by (auto simp: engine_at_def bind_eq_Some_conv)
      then show ?thesis using drain_step_inv [OF assms inv e Cons 1(1)] IH [OF 1(2)] same_binding_trans by blast
    qed
  qed
qed simp_all

lemma upd_sock_mark:
  assumes "\<And>s. isactived (f s) = isactived s"
  shows "isactived (the_sock (upd_sock n i f) i) = isactived (the_sock n i)"
  using assms by (cases "i < length (socket_pool n)") (simp_all add: upd_sock_def not_less list_update_beyond)

text \<open>Marking a flag or queueing a request, followed by the activation if it is due.\<close>

lemma touch_activate_inv:
  assumes inv: "act_inv n" and f: "\<And>s. sengine (f s) = sengine s" "\<And>s. isactived (f s) = isactived s"
    and r: "(if b \<and> \<not> isactived (the_sock n i) then activate (upd_sock n i f) i else Some (upd_sock n i f)) = Some n'"
  shows "act_inv n' \<and> same_binding n n'"
proof -
  have 1: "act_inv (upd_sock n i f)" "same_binding n (upd_sock n i f)" using upd_sock_inv [OF inv f] by blast+
  show ?thesis
  proof (cases "b \<and> \<not> isactived (the_sock n i)")
    case True
    then have "activate (upd_sock n i f) i = Some n'" using r by simp
    then show ?thesis using activate_inv [OF 1(1)] upd_sock_mark [of f n i] f(2) True same_binding_trans [OF 1(2)] by blast
  next
    case False
    then show ?thesis using r 1 by (simp only: if_False option.inject)
  qed
qed

lemma on_active_inv:
  assumes "act_inv n"
  shows "on_read_active n i = Some n' \<Longrightarrow> act_inv n'" "on_write_active n i = Some n' \<Longrightarrow> act_inv n'"
proof -
  assume "on_read_active n i = Some n'"
  then have "(if pending_recv (the_sock n i) \<noteq> [] \<and> \<not> isactived (the_sock n i) then activate (upd_sock n i (\<lambda>s. s\<lparr>readable := True\<rparr>)) i
      else Some (upd_sock n i (\<lambda>s. s\<lparr>readable := True\<rparr>))) = Some n'"
    by (auto simp: on_read_active_def sock_at_def Let_def split: if_splits)
  from touch_activate_inv [OF assms _ _ this] show "act_inv n'" by simp
next
  assume "on_write_active n i = Some n'"
  then have "(if pending_send (the_sock n i) \<noteq> [] \<and> \<not> isactived (the_sock n i) then activate (upd_sock n i (\<lambda>s. s\<lparr>writeable := True\<rparr>)) i
      else Some (upd_sock n i (\<lambda>s. s\<lparr>writeable := True\<rparr>))) = Some n'"
    by (auto simp: on_write_active_def sock_at_def Let_def split: if_splits)
  from touch_activate_inv [OF assms _ _ this] show "act_inv n'" by simp
qed

lemma dispatch_inv: "dispatch n evs = Some n' \<Longrightarrow> act_inv n \<Longrightarrow> act_inv n'"
proof (induction evs arbitrary: n)
  case (Cons ev evs)
  obtain n1 n2 where 1: "(if ev_in ev then on_read_active n (ev_sock ev) else Some n) = Some n1"
    "(if ev_out ev then on_write_active n1 (ev_sock ev) else Some n1) = Some n2" "dispatch n2 evs = Some n'"
    using Cons.prems(1) unfolding dispatch.simps bind_eq_Some_conv by blast
  have "act_inv n1" using 1(1) Cons.prems(2) on_active_inv(1) [of n "ev_sock ev" n1] by (cases "ev_in ev") simp_all
  then have "act_inv n2" using 1(2) on_active_inv(2) [of n1 "ev_sock ev" n2] by (cases "ev_out ev") simp_all
  then show ?case using Cons.IH 1(3) by blast
qed simp

lemma loop_rounds_inv:
  assumes "cb_ok cb"
  shows "loop_rounds cb e tm n = Some r \<Longrightarrow> act_inv n \<longrightarrow> act_inv (fst r)"
proof (rule loop_rounds.raw_induct [of "\<lambda>c e tm n r. c = cb \<longrightarrow> act_inv n \<longrightarrow> act_inv (fst r)", THEN mp])
  fix rec c e tm n r
  assume IH: "\<And>c e tm n r. rec c e tm n = Some r \<Longrightarrow> c = cb \<longrightarrow> act_inv n \<longrightarrow> act_inv (fst r)"
    and r: "drain c e n \<bind> (\<lambda>n1. case epoll_results n1 of [] \<Rightarrow> None | None # rs \<Rightarrow> Some (n1\<lparr>epoll_results := rs\<rparr>, -1)
      | Some evs # rs \<Rightarrow> dispatch (n1\<lparr>epoll_results := rs\<rparr>) evs \<bind> (\<lambda>n2. GetSystemMs n2 \<bind> (\<lambda>(n3, tick).
          if tick < tm then rec c e tm n3 else Some (n3, 0)))) = Some r"
  show "c = cb \<longrightarrow> act_inv n \<longrightarrow> act_inv (fst r)"
  proof (intro impI)
    assume c: "c = cb" and inv: "act_inv n"
    obtain n1 where n1: "drain cb e n = Some n1" using r c by (auto simp: bind_eq_Some_conv)
    have i1: "act_inv n1" using drain_inv [OF assms n1] inv by blast
    show "act_inv (fst r)"
    proof (cases "\<exists>evs rs. epoll_results n1 = Some evs # rs")
      case False
      then show ?thesis using r c n1 i1 by (auto split: list.splits option.splits)
    next
      case True
      then obtain evs rs where ep: "epoll_results n1 = Some evs # rs" by blast
      then obtain n2 n3 tick where 2: "dispatch (n1\<lparr>epoll_results := rs\<rparr>) evs = Some n2" "GetSystemMs n2 = Some (n3, tick)"
        "(if tick < tm then rec cb e tm n3 else Some (n3, 0)) = Some r"
        using r c n1 by (auto simp: bind_eq_Some_conv)
      have "act_inv n2" using dispatch_inv [OF 2(1)] i1 by simp
      then have "act_inv n3" using 2(2) by (auto simp: GetSystemMs_def split: list.splits)
      then show ?thesis using 2(3) IH [of cb e tm n3 r] by (auto split: if_splits)
    qed
  qed
qed simp_all

lemma WSA_inv:
  assumes "act_inv n"
  shows "WSARecv n h io now = Some (n', r) \<Longrightarrow> act_inv n' \<and> same_binding n n'"
    "WSASend n h io now = Some (n', r) \<Longrightarrow> act_inv n' \<and> same_binding n n'"
proof -
  assume r: "WSARecv n h io now = Some (n', r)"
  show "act_inv n' \<and> same_binding n n'"
  proof (cases "GetSocketByHandle n h")
    case None
    then show ?thesis using r assms by (simp add: WSARecv_def)
  next
    case (Some i)
    then have i: "i < length (socket_pool n)" by (auto simp: GetSocketByHandle_def split: if_splits)
    show ?thesis
    proof (cases now)
      case True
      then show ?thesis using r Some raw_recv_inv [OF _ assms] by (auto simp: WSARecv_def split: prod.splits)
    next
      case False
      define f where "f = (\<lambda>s::sock. s\<lparr>pending_recv := pending_recv s @ [io]\<rparr>)"
      have "the_sock (upd_sock n i f) i = f (the_sock n i)" "i < length (socket_pool (upd_sock n i f))"
        using i by (simp_all add: upd_sock_def)
      then have "(if (sengine (the_sock n i) \<noteq> None \<and> readable (the_sock n i)) \<and> \<not> isactived (the_sock n i)
          then activate (upd_sock n i f) i else Some (upd_sock n i f)) = Some n'"
        using r Some False unfolding WSARecv_def
        by (auto simp: sock_at_def f_def Let_def bind_eq_Some_conv split: if_splits)
      from touch_activate_inv [OF assms _ _ this] show ?thesis by (simp add: f_def)
    qed
  qed
next
  assume r: "WSASend n h io now = Some (n', r)"
  show "act_inv n' \<and> same_binding n n'"
  proof (cases "GetSocketByHandle n h")
    case None
    then show ?thesis using r assms by (simp add: WSASend_def)
  next
    case (Some i)
    then have i: "i < length (socket_pool n)" by (auto simp: GetSocketByHandle_def split: if_splits)
    show ?thesis
    proof (cases now)
      case True
      then show ?thesis using r Some raw_send_inv [OF _ assms] by (auto simp: WSASend_def split: prod.splits)
    next
      case False
      define f where "f = (\<lambda>s::sock. s\<lparr>pending_send := pending_send s @ [io]\<rparr>)"
      have "the_sock (upd_sock n i f) i = f (the_sock n i)" "i < length (socket_pool (upd_sock n i f))"
        using i by (simp_all add: upd_sock_def)
      then have "(if (sengine (the_sock n i) \<noteq> None \<and> writeable (the_sock n i)) \<and> \<not> isactived (the_sock n i)
          then activate (upd_sock n i f) i else Some (upd_sock n i f)) = Some n'"
        using r Some False unfolding WSASend_def
        by (auto simp: sock_at_def f_def Let_def bind_eq_Some_conv split: if_splits)
      from touch_activate_inv [OF assms _ _ this] show ?thesis by (simp add: f_def)
    qed
  qed
qed

text \<open>
  The callback of a server that answers a completed read by posting the next one; it is the use of
  the reactor that the callbacks of \<open>Connection.c\<close> make.
\<close>

definition repost :: "unit callback" where
  "repost h read bytes io n =
     (if read \<and> bytes > 0 then do { (n', _) \<leftarrow> WSARecv n (int h) io False; Some n' } else Some n)"

lemma repost_ok: "cb_ok repost"
  unfolding cb_ok_def repost_def
proof (intro allI impI)
  fix h and r :: bool and b :: int and io and n n' :: "unit net"
  assume a: "(if r \<and> 0 < b then do { (n', _) \<leftarrow> WSARecv n (int h) io False; Some n' } else Some n) = Some n'" "act_inv n"
  show "act_inv n' \<and> same_binding n n'"
  proof (cases "r \<and> 0 < b")
    case True
    then obtain res where "WSARecv n (int h) io False = Some (n', res)" using a(1) by (auto simp: bind_eq_Some_conv)
    then show ?thesis by (rule WSA_inv(1) [OF a(2)])
  next
    case False
    then show ?thesis using a by auto
  qed
qed

text \<open>
  Claim C22. Consistency of the reactor: if the callbacks keep the bindings and the list of active
  sockets consistent, so does the event loop, in whatever order events and results arrive; a socket is
  marked active exactly when it is queued at its engine, and it is queued at most once. Posting requests
  keeps the same invariant.
\<close>

theorem reactor_invariant:
  assumes "cb_ok cb" "act_inv n"
  shows "(EngineRun cb n eh tm = Some (n1, r1) \<longrightarrow> act_inv n1) \<and>
    (WSARecv n h io now = Some (n2, r2) \<longrightarrow> act_inv n2) \<and> (WSASend n h io now = Some (n3, r3) \<longrightarrow> act_inv n3)"
proof (intro conjI impI)
  assume r: "EngineRun cb n eh tm = Some (n1, r1)"
  show "act_inv n1"
  proof (cases "GetEngineByHandle n eh")
    case None
    then show ?thesis using r assms(2) by (simp add: EngineRun_def)
  next
    case (Some e)
    then obtain n0 tick where 0: "GetSystemMs n = Some (n0, tick)" "loop_rounds cb e (tick + tm) n0 = Some (n1, r1)"
      using r by (auto simp: EngineRun_def epoll_loop_def bind_eq_Some_conv)
    then have "act_inv n0" using assms(2) by (auto simp: GetSystemMs_def split: list.splits)
    then show ?thesis using loop_rounds_inv [OF assms(1) 0(2)] by simp
  qed
qed (use WSA_inv [OF assms(2)] in blast)+

definition net_sample :: "unit net" where
  "net_sample = \<lparr>socket_pool = [\<lparr>sstatus = True, sengine = Some 0, isactived = True, readable = True, writeable = False, sfd = 3,
       pending_send = [], pending_recv = [1, 2], handler = 0\<rparr>],
     engine_pool = [\<lparr>estatus = True, poller_fd = 4, actived = [0]\<rparr>], io_err = (\<lambda>_. 0), sys_results = [(5, 0), (7, 0)],
     epoll_results = [None], clock = [100], user = ()\<rparr>"

lemma net_sample_inv: "act_inv net_sample"
  by (auto simp: act_inv_def net_sample_def)

theorem reactor_invariant_witness:
  "\<exists>n2 r2. WSARecv net_sample 0 3 False = Some (n2, r2) \<and> act_inv n2 \<and> pending_recv (the_sock n2 0) = [1, 2, 3]"
proof -
  obtain n2 r2 where w: "WSARecv net_sample 0 3 False = Some (n2, r2)" "pending_recv (the_sock n2 0) = [1, 2, 3]"
    by (simp add: WSARecv_def GetSocketByHandle_def net_sample_def upd_sock_def sock_at_def)
  from reactor_invariant [OF repost_ok net_sample_inv] w show ?thesis by blast
qed

section \<open>Progress\<close>

text \<open>Callbacks that only look at the results and keep their own state.\<close>

definition cb_quiet :: "'w callback \<Rightarrow> bool" where
  "cb_quiet cb \<longleftrightarrow> (\<forall>h r b io n. \<exists>n'. cb h r b io n = Some n' \<and> socket_pool n' = socket_pool n \<and> engine_pool n' = engine_pool n)"

definition weight :: "sock \<Rightarrow> nat" where
  "weight s = length (pending_recv s) + length (pending_send s)"

definition pend :: "sock list \<Rightarrow> nat" where
  "pend ss = sum_list (map weight ss)"

lemma pend_upd:
  assumes "i < length ss"
  shows "pend (ss[i := s]) + weight (ss ! i) = pend ss + weight s"
proof -
  have "weight (ss ! i) \<le> sum_list (map weight ss)" using assms by (intro member_le_sum_list) auto
  then show ?thesis using assms by (simp add: pend_def map_update sum_list_update)
qed

lemma quietD:
  assumes "cb_quiet cb"
  obtains n' where "cb h r b io n = Some n'" "socket_pool n' = socket_pool n" "engine_pool n' = engine_pool n"
  using assms unfolding cb_quiet_def by blast

text \<open>One receive or send step changes only its socket, and consumes a request if it reports success.\<close>

definition step_ok :: "'w net \<Rightarrow> nat \<Rightarrow> ('w net \<times> int) option \<Rightarrow> bool" where
  "step_ok n i res \<longleftrightarrow> (\<exists>n' ret s'. res = Some (n', ret) \<and> engine_pool n' = engine_pool n \<and>
     socket_pool n' = (socket_pool n)[i := s'] \<and> sengine s' = sengine (the_sock n i) \<and> isactived s' = isactived (the_sock n i) \<and>
     weight s' \<le> weight (the_sock n i) \<and> (ret > 0 \<longrightarrow> weight s' < weight (the_sock n i)))"

lemma step_okI:
  assumes "res = Some (n', ret)" "engine_pool n' = engine_pool n" "socket_pool n' = (socket_pool n)[i := s']"
    "sengine s' = sengine (the_sock n i)" "isactived s' = isactived (the_sock n i)"
    "weight s' \<le> weight (the_sock n i)" "ret > 0 \<longrightarrow> weight s' < weight (the_sock n i)"
  shows "step_ok n i res"
  unfolding step_ok_def using assms by blast

lemma recv_one_step:
  assumes cb: "cb_quiet cb" and i: "i < length (socket_pool n)"
  shows "step_ok n i (recv_one cb n i)"
proof -
  let ?s = "the_sock n i"
  have s: "sock_at n i = Some ?s" using i by (simp add: sock_at_def)
  show ?thesis
  proof (cases "readable ?s \<and> pending_recv ?s \<noteq> []")
    case False
    then have "recv_one cb n i = Some (n, -1)" using s by (auto simp: recv_one_def split: list.splits)
    then show ?thesis by (rule step_okI [where s' = ?s]) (simp_all add: list_update_id)
  next
    case True
    then obtain io ios where p: "readable ?s" "pending_recv ?s = io # ios" by (cases "pending_recv ?s") auto
    define m where "m = upd_sock n i (\<lambda>s. s\<lparr>pending_recv := ios\<rparr>)"
    have m: "socket_pool m = (socket_pool n)[i := ?s\<lparr>pending_recv := ios\<rparr>]" "engine_pool m = engine_pool n"
      by (simp_all add: m_def upd_sock_def)
    obtain n1 b en where y: "sys m = (n1, b, en)" by (cases "sys m")
    have n1: "socket_pool n1 = socket_pool m" "engine_pool n1 = engine_pool m" using sys_pools [OF y] by auto
    show ?thesis
    proof (cases "b < 0 \<and> en = EAGAIN")
      case True
      define n2 where "n2 = upd_sock n1 i (\<lambda>s. s\<lparr>readable := False, pending_recv := io # pending_recv s\<rparr>)"
      have "recv_one cb n i = Some (n2\<lparr>io_err := (io_err n2)(io := EAGAIN)\<rparr>, -1)"
        using s p y True by (simp add: recv_one_def raw_recv_def n2_def m_def Let_def)
      then show ?thesis
        by (rule step_okI [where s' = "?s\<lparr>readable := False, pending_recv := io # ios\<rparr>"])
          (use m n1 i p in \<open>simp_all add: n2_def upd_sock_def weight_def\<close>)
    next
      case False
      define err where "err = (if b < 0 then en else 0)"
      define n2 where "n2 = n1\<lparr>io_err := (io_err n1)(io := err)\<rparr>"
      obtain n3 where n3: "cb (handler ?s) True b io n2 = Some n3" "socket_pool n3 = socket_pool n2" "engine_pool n3 = engine_pool n2"
        using quietD [OF cb] by blast
      have "recv_one cb n i = Some (n3, if b < 0 then -1 else b)"
        using s p y False n3(1) by (auto simp: recv_one_def raw_recv_def n2_def err_def m_def Let_def)
      then show ?thesis
        by (rule step_okI [where s' = "?s\<lparr>pending_recv := ios\<rparr>"])
          (use m n1 n3 p in \<open>simp_all add: n2_def weight_def\<close>)
    qed
  qed
qed

lemma send_one_step:
  assumes cb: "cb_quiet cb" and i: "i < length (socket_pool n)"
  shows "step_ok n i (send_one cb n i)"
proof -
  let ?s = "the_sock n i"
  have s: "sock_at n i = Some ?s" using i by (simp add: sock_at_def)
  show ?thesis
  proof (cases "writeable ?s \<and> pending_send ?s \<noteq> []")
    case False
    then have "send_one cb n i = Some (n, -1)" using s by (auto simp: send_one_def split: list.splits)
    then show ?thesis by (rule step_okI [where s' = ?s]) (simp_all add: list_update_id)
  next
    case True
    then obtain io ios where p: "writeable ?s" "pending_send ?s = io # ios" by (cases "pending_send ?s") auto
    define m where "m = upd_sock n i (\<lambda>s. s\<lparr>pending_send := ios\<rparr>)"
    have m: "socket_pool m = (socket_pool n)[i := ?s\<lparr>pending_send := ios\<rparr>]" "engine_pool m = engine_pool n"
      by (simp_all add: m_def upd_sock_def)
    obtain n1 b en where y: "sys m = (n1, b, en)" by (cases "sys m")
    have n1: "socket_pool n1 = socket_pool m" "engine_pool n1 = engine_pool m" using sys_pools [OF y] by auto
    show ?thesis
    proof (cases "b < 0 \<and> en = EAGAIN")
      case True
      define n2 where "n2 = upd_sock n1 i (\<lambda>s. s\<lparr>writeable := False, pending_send := io # pending_send s\<rparr>)"
      have "send_one cb n i = Some (n2\<lparr>io_err := (io_err n2)(io := EAGAIN)\<rparr>, -1)"
        using s p y True by (simp add: send_one_def raw_send_def n2_def m_def Let_def)
      then show ?thesis
        by (rule step_okI [where s' = "?s\<lparr>writeable := False, pending_send := io # ios\<rparr>"])
          (use m n1 i p in \<open>simp_all add: n2_def upd_sock_def weight_def\<close>)
    next
      case False
      define err where "err = (if b < 0 then en else 0)"
      define n2 where "n2 = n1\<lparr>io_err := (io_err n1)(io := err)\<rparr>"
      obtain n3 where n3: "cb (handler ?s) False b io n2 = Some n3" "socket_pool n3 = socket_pool n2" "engine_pool n3 = engine_pool n2"
        using quietD [OF cb] by blast
      have "send_one cb n i = Some (n3, if b < 0 then -1 else b)"
        using s p y False n3(1) by (auto simp: send_one_def raw_send_def n2_def err_def m_def Let_def)
      then show ?thesis
        by (rule step_okI [where s' = "?s\<lparr>pending_send := ios\<rparr>"])
          (use m n1 n3 p in \<open>simp_all add: n2_def weight_def\<close>)
    qed
  qed
qed

lemma Process_step:
  assumes cb: "cb_quiet cb" and i: "i < length (socket_pool n)"
  shows "\<exists>n' more s'. Process cb n i = Some (n', more) \<and> engine_pool n' = engine_pool n \<and>
    socket_pool n' = (socket_pool n)[i := s'] \<and> sengine s' = sengine (the_sock n i) \<and> isactived s' = isactived (the_sock n i) \<and>
    weight s' \<le> weight (the_sock n i) \<and> (more \<longrightarrow> weight s' < weight (the_sock n i))"
proof -
  obtain n1 re s1 where 1: "recv_one cb n i = Some (n1, re)" "engine_pool n1 = engine_pool n" "socket_pool n1 = (socket_pool n)[i := s1]"
    "sengine s1 = sengine (the_sock n i)" "isactived s1 = isactived (the_sock n i)" "weight s1 \<le> weight (the_sock n i)"
    using recv_one_step [OF cb i] unfolding step_ok_def by blast
  have i1: "i < length (socket_pool n1)" "the_sock n1 i = s1" using 1(3) i by simp_all
  obtain n2 se s2 where 2: "send_one cb n1 i = Some (n2, se)" "engine_pool n2 = engine_pool n1" "socket_pool n2 = (socket_pool n1)[i := s2]"
    "sengine s2 = sengine s1" "isactived s2 = isactived s1" "weight s2 \<le> weight s1" "se > 0 \<longrightarrow> weight s2 < weight s1"
    using send_one_step [OF cb i1(1)] unfolding step_ok_def i1(2) by blast
  have "Process cb n i = Some (n2, re > 0 \<and> se > 0)" using 1(1) 2(1) by (simp add: Process_def)
  moreover have "socket_pool n2 = (socket_pool n)[i := s2]" using 1(3) 2(3) by simp
  ultimately show ?thesis using 1 2 by (intro exI [of _ n2] exI [of _ "re > 0 \<and> se > 0"] exI [of _ s2]) auto
qed

lemma drain_step_progress:
  assumes cb: "cb_quiet cb" and i: "i < length (socket_pool n)" and e: "e < length (engine_pool n)" "queued n e = i # js"
  shows "\<exists>n'. drain_step cb e n i = Some n' \<and> length (engine_pool n') = length (engine_pool n) \<and>
    length (socket_pool n') = length (socket_pool n) \<and> set (queued n' e) \<subseteq> set (queued n e) \<and>
    pend (socket_pool n') + length (queued n' e) < pend (socket_pool n) + length (queued n e)"
proof -
  define n0 where "n0 = upd_engine (upd_sock n i (\<lambda>s. s\<lparr>isactived := False\<rparr>)) e (\<lambda>en. en\<lparr>actived := tl (actived en)\<rparr>)"
  have n0: "i < length (socket_pool n0)" "the_sock n0 i = (the_sock n i)\<lparr>isactived := False\<rparr>" "queued n0 e = js"
    "length (socket_pool n0) = length (socket_pool n)" "length (engine_pool n0) = length (engine_pool n)"
    using i e by (simp_all add: n0_def upd_engine_def upd_sock_def)
  have w0: "pend (socket_pool n0) = pend (socket_pool n)"
    using pend_upd [OF i, of "(the_sock n i)\<lparr>isactived := False\<rparr>"] by (simp add: n0_def upd_engine_def upd_sock_def weight_def)
  obtain n1 more s1 where 1: "Process cb n0 i = Some (n1, more)" "engine_pool n1 = engine_pool n0" "socket_pool n1 = (socket_pool n0)[i := s1]"
    "isactived s1 = isactived (the_sock n0 i)" "weight s1 \<le> weight (the_sock n0 i)" "more \<longrightarrow> weight s1 < weight (the_sock n0 i)"
    using Process_step [OF cb n0(1)] by blast
  have w1: "pend (socket_pool n1) + weight (the_sock n0 i) = pend (socket_pool n0) + weight s1" using pend_upd [OF n0(1)] 1(3) by simp
  have s1: "sock_at n1 i = Some s1" "\<not> isactived s1" using 1(3,4) n0(1,2) by (simp_all add: sock_at_def)
  have si: "sock_at n i = Some (the_sock n i)" using i by (simp add: sock_at_def)
  define n2 where "n2 = upd_engine (upd_sock n1 i (\<lambda>s. s\<lparr>isactived := True\<rparr>)) e (\<lambda>en. en\<lparr>actived := actived en @ [i]\<rparr>)"
  have st: "drain_step cb e n i = Some (if more then n2 else n1)"
    using si s1 1(1) unfolding drain_step_def by (simp add: n0_def [symmetric] n2_def Let_def)
  show ?thesis
  proof (cases more)
    case False
    then show ?thesis using st n0 w0 w1 1(2,3,5) e by (intro exI [of _ n1]) auto
  next
    case True
    have i1: "i < length (socket_pool n1)" "the_sock n1 i = s1" using 1(3) n0(1) by simp_all
    have q: "queued n2 e = js @ [i]" "length (engine_pool n2) = length (engine_pool n)" "length (socket_pool n2) = length (socket_pool n)"
      using e 1(2,3) n0 by (simp_all add: n2_def upd_engine_def upd_sock_def)
    have "pend (socket_pool n2) = pend (socket_pool n1)"
      using pend_upd [OF i1(1), of "(the_sock n1 i)\<lparr>isactived := True\<rparr>"] by (simp add: n2_def upd_engine_def upd_sock_def weight_def)
    then show ?thesis using True st q w0 w1 1(6) e by (intro exI [of _ n2]) auto
  qed
qed

text \<open>
  Claim C23. With callbacks that post no new requests the inner loop of the event loop ends: every
  socket in the list is processed, whatever the system calls return, and the list is empty afterwards.
\<close>

theorem drain_terminates:
  assumes "cb_quiet cb" "act_inv n" "e < length (engine_pool n)"
  shows "\<exists>n'. drain cb e n = Some n' \<and> queued n' e = []"
proof -
  have "\<exists>n'. drain cb e n = Some n' \<and> queued n' e = []"
    if "e < length (engine_pool n)" "\<forall>i \<in> set (queued n e). i < length (socket_pool n)" for n
    using that
  proof (induction "pend (socket_pool n) + length (queued n e)" arbitrary: n rule: less_induct)
    case less
    show ?case
    proof (cases "queued n e")
      case Nil
      then show ?thesis using less.prems(1) by (subst drain.simps) (simp add: engine_at_def)
    next
      case (Cons i js)
      then have i: "i < length (socket_pool n)" using less.prems(2) by simp
      obtain n1 where 1: "drain_step cb e n i = Some n1" "length (engine_pool n1) = length (engine_pool n)"
        "length (socket_pool n1) = length (socket_pool n)" "set (queued n1 e) \<subseteq> set (queued n e)"
        "pend (socket_pool n1) + length (queued n1 e) < pend (socket_pool n) + length (queued n e)"
        using drain_step_progress [OF assms(1) i less.prems(1) Cons] by blast
      have "\<exists>n'. drain cb e n1 = Some n' \<and> queued n' e = []"
        using less.hyps [OF 1(5)] less.prems 1(2-4) by fastforce
      moreover have "drain cb e n = drain cb e n1"
        using 1(1) Cons less.prems(1) by (subst drain.simps) (simp add: engine_at_def)
      ultimately show ?thesis by simp
    qed
  qed
  then show ?thesis using assms(3) act_invD(2) [OF assms(2,3)] by blast
qed

definition log_cb :: "unit callback" where
  "log_cb h r b io n = Some n"

lemma log_cb_quiet: "cb_quiet log_cb"
  by (simp add: cb_quiet_def log_cb_def)

theorem drain_terminates_witness: "\<exists>n'. drain log_cb 0 net_sample = Some n' \<and> queued n' 0 = []"
  by (rule drain_terminates [OF log_cb_quiet net_sample_inv]) (simp add: net_sample_def)

text \<open>
  A socket with two pending reads and nothing to send is dropped from the list after the
  first completed read although it is still readable: \<open>Process\<close> asks for both a receive and a send to
  have made progress. Under edge triggered events the second read waits until new data arrives.
\<close>

theorem ready_request_left_behind:
  assumes cb: "cb_quiet cb" and i: "i < length (socket_pool n)" and r: "readable (the_sock n i)"
    "pending_recv (the_sock n i) = a # b # ios" "pending_send (the_sock n i) = []" "sys_results n = (k, 0) # rs" "0 < k"
  shows "\<exists>n'. drain_step cb e n i = Some n' \<and> readable (the_sock n' i) \<and> pending_recv (the_sock n' i) = b # ios \<and>
    \<not> isactived (the_sock n' i)"
proof -
  define n0 where "n0 = upd_engine (upd_sock n i (\<lambda>s. s\<lparr>isactived := False\<rparr>)) e (\<lambda>en. en\<lparr>actived := tl (actived en)\<rparr>)"
  have s0: "sock_at n0 i = Some ((the_sock n i)\<lparr>isactived := False\<rparr>)" "sys_results n0 = (k, 0) # rs"
    using i r by (simp_all add: n0_def upd_engine_def upd_sock_def sock_at_def)
  define n2 where "n2 = (upd_sock n0 i (\<lambda>s. s\<lparr>pending_recv := b # ios\<rparr>))\<lparr>sys_results := rs, io_err := (io_err n0)(a := 0)\<rparr>"
  obtain n3 where n3: "cb (handler (the_sock n i)) True k a n2 = Some n3" "socket_pool n3 = socket_pool n2"
    using quietD [OF cb] by metis
  have re: "recv_one cb n0 i = Some (n3, k)"
    using s0 r n3(1) by (simp add: recv_one_def raw_recv_def sys_def Let_def n2_def upd_sock_def)
  define s where "s = (the_sock n i)\<lparr>isactived := False, pending_recv := b # ios\<rparr>"
  have s3: "sock_at n3 i = Some s"
    using n3(2) i by (simp add: sock_at_def n2_def n0_def upd_sock_def upd_engine_def s_def)
  have "send_one cb n3 i = Some (n3, -1)" using s3 r(3) by (simp add: send_one_def s_def)
  then have "Process cb n0 i = Some (n3, False)" using re by (simp add: Process_def)
  moreover have "sock_at n i = Some (the_sock n i)" using i by (simp add: sock_at_def)
  ultimately have "drain_step cb e n i = Some n3"
    using s3 unfolding drain_step_def by (simp add: n0_def [symmetric] Let_def)
  then show ?thesis using s3 r by (auto simp: sock_at_def s_def split: if_splits)
qed

theorem ready_request_left_behind_witness:
  "\<exists>n'. drain_step log_cb 0 net_sample 0 = Some n' \<and> readable (the_sock n' 0) \<and> pending_recv (the_sock n' 0) = [2] \<and>
    \<not> isactived (the_sock n' 0)"
  using ready_request_left_behind [OF log_cb_quiet, of 0 net_sample 1 2 "[]" 5 "[(7, 0)]" 0]
  by (simp add: net_sample_def)

end
