(* ===== verification/Connector.thy ===== *)
theory Connector
  imports Net
begin

text \<open>
  Asynchronous connecting (\<open>src/Connector.c\<close>). Requests that the system cannot finish at once wait in
  a list; \<open>connector_run\<close> polls them with \<open>select\<close> and reports each one to its callback. The state
  extends the reactor of theory Net, \<open>select\<close> takes its results from a script, the lock of the list of
  new requests makes its use atomic; \<open>connector_destroy\<close> only frees. The callback of a request gets
  the whole request, so one function stands for all of them. The callback is an interface of its own, with the callback of
  \<open>test_connector.c\<close> and an observer of all reports as instances.
\<close>

abbreviation FD_SETSIZE :: nat where "FD_SETSIZE \<equiv> 1024"

record pending_connect =
  pc_ip :: string
  pc_port :: u32
  pc_sock :: int
  real_fd :: int
  pc_timeout :: u32
  pc_ud :: nat

record 'u connector =
  fd_set :: "int set"
  pending_connects :: "pending_connect list"
  fd_seisize :: u32
  extern_connects :: "pending_connect list"
  select_results :: "(int \<times> int set) list"
  cn_app :: 'u

type_synonym 'u cnsys = "'u connector net"
type_synonym 'u on_connect = "int \<Rightarrow> pending_connect \<Rightarrow> 'u cnsys \<Rightarrow> 'u cnsys option"

definition upd_cn :: "'u cnsys \<Rightarrow> ('u connector \<Rightarrow> 'u connector) \<Rightarrow> 'u cnsys" where
  "upd_cn s f = s\<lparr>user := f (user s)\<rparr>"

definition connector_create :: "'u connector \<Rightarrow> 'u connector" where
  "connector_create c = c\<lparr>fd_seisize := 0, fd_set := {}, pending_connects := [], extern_connects := []\<rparr>"

text \<open>The results of \<open>setsockopt\<close> and of the second \<open>fcntl\<close> decide; the flags are not kept.\<close>

definition setNonblock :: "'w net \<Rightarrow> int \<Rightarrow> 'w net \<times> int" where
  "setNonblock n h =
     (case GetSocketByHandle n h of
        None \<Rightarrow> (n, -1)
      | Some i \<Rightarrow>
          (let (n1, r, _) = sys n in
           if r \<noteq> 0 then (n1, -1) else let (n2, r2, _) = sys n1 in (n2, if r2 = -1 then -1 else 0)))"

text \<open>\<open>addr_ok\<close>: \<open>inet_pton\<close> reports no error; the socket is not closed on the error paths. A
  request that is finished at once is reported with its handle, address and \<open>ud\<close>; nothing else is set.\<close>

definition connector_connect ::
    "'u on_connect \<Rightarrow> string \<Rightarrow> u32 \<Rightarrow> bool \<Rightarrow> nat \<Rightarrow> u32 \<Rightarrow> sock option \<Rightarrow> 'u cnsys \<Rightarrow> ('u cnsys \<times> int) option" where
  "connector_connect cb ip port addr_ok ud ms junk s = do {
     (s1, h) \<leftarrow> OpenSocket s junk;
     if h < 0 then Some (s1, -1)
     else if \<not> addr_ok then Some (s1, -1)
     else
       let (s2, r) = (if ms > 0 then setNonblock s1 h else (s1, 0)) in
       if r \<noteq> 0 then Some (s2, -1)
       else
         let (s3, r3) = Connect s2 h in
         if r3 = 0
         then do {
           s4 \<leftarrow> cb h \<lparr>pc_ip = ip, pc_port = port, pc_sock = h, real_fd = 0, pc_timeout = 0, pc_ud = ud\<rparr> s3;
           Some (s4, 0) }
         else do {
           (s4, now) \<leftarrow> GetSystemMs s3;
           i \<leftarrow> GetSocketByHandle s4 h;
           k \<leftarrow> sock_at s4 i;
           Some (upd_cn s4 (\<lambda>c. c\<lparr>extern_connects := extern_connects c @
             [\<lparr>pc_ip = ip, pc_port = port, pc_sock = h, real_fd = sfd k, pc_timeout = now + ms, pc_ud = ud\<rparr>]\<rparr>), 0) } }"

section \<open>Running\<close>

text \<open>\<open>FD_SET\<close> outside the set is undefined; the code only bounds the number of entries.\<close>

definition FD_SET :: "int \<Rightarrow> 'u cnsys \<Rightarrow> 'u cnsys option" where
  "FD_SET fd s = do {
     _ \<leftarrow> assert_c (0 \<le> fd \<and> fd < int FD_SETSIZE);
     Some (upd_cn s (\<lambda>c. c\<lparr>fd_set := insert fd (fd_set c)\<rparr>)) }"

fun admit :: "'u on_connect \<Rightarrow> pending_connect list \<Rightarrow> 'u cnsys \<Rightarrow> 'u cnsys option" where
  "admit cb [] s = Some s"
| "admit cb (p # l) s =
     (if unat (fd_seisize (user s)) \<ge> FD_SETSIZE
      then do { s1 \<leftarrow> cb (-1) p s; admit cb l s1 }
      else do {
        s1 \<leftarrow> FD_SET (real_fd p) s;
        admit cb l (upd_cn s1 (\<lambda>c. c\<lparr>pending_connects := pending_connects c @ [p], fd_seisize := fd_seisize c + 1\<rparr>)) })"

definition select_c :: "'u cnsys \<Rightarrow> 'u cnsys \<times> int" where
  "select_c s = (case select_results (user s) of
       [] \<Rightarrow> (upd_cn s (\<lambda>c. c\<lparr>fd_set := {}\<rparr>), 0)
     | (r, fds) # rs \<Rightarrow> (upd_cn s (\<lambda>c. c\<lparr>fd_set := fd_set c \<inter> fds, select_results := rs\<rparr>), r))"

fun ready_loop :: "'u on_connect \<Rightarrow> nat \<Rightarrow> 'u cnsys \<Rightarrow> 'u cnsys option" where
  "ready_loop cb 0 s = Some s"
| "ready_loop cb (Suc k) s =
     (case pending_connects (user s) of
        [] \<Rightarrow> ready_loop cb k s
      | p # ps \<Rightarrow>
          let s1 = upd_cn s (\<lambda>c. c\<lparr>pending_connects := ps\<rparr>) in
          if real_fd p \<in> fd_set (user s1)
          then do {
            s2 \<leftarrow> cb (pc_sock p) p s1;
            ready_loop cb k (upd_cn s2 (\<lambda>c. c\<lparr>fd_seisize := fd_seisize c - 1\<rparr>)) }
          else ready_loop cb k (upd_cn s1 (\<lambda>c. c\<lparr>pending_connects := pending_connects c @ [p]\<rparr>)))"

fun timeout_loop :: "'u on_connect \<Rightarrow> u32 \<Rightarrow> nat \<Rightarrow> 'u cnsys \<Rightarrow> 'u cnsys option" where
  "timeout_loop cb tick 0 s = Some s"
| "timeout_loop cb tick (Suc k) s =
     (case pending_connects (user s) of
        [] \<Rightarrow> None
      | p # ps \<Rightarrow>
          let s1 = upd_cn s (\<lambda>c. c\<lparr>pending_connects := ps\<rparr>) in
          if tick \<ge> pc_timeout p
          then do {
            s2 \<leftarrow> cb (-1) p s1;
            timeout_loop cb tick k (upd_cn s2 (\<lambda>c. c\<lparr>fd_seisize := fd_seisize c - 1\<rparr>)) }
          else do {
            s2 \<leftarrow> FD_SET (real_fd p) (upd_cn s1 (\<lambda>c. c\<lparr>pending_connects := pending_connects c @ [p]\<rparr>));
            timeout_loop cb tick k s2 })"

text \<open>
  The variable \<open>i\<close> is 0 in the first round only; afterwards it has the value that the loop over the
  time-outs leaves.
\<close>

partial_function (option) connector_rounds :: "'u on_connect \<Rightarrow> nat \<Rightarrow> u32 \<Rightarrow> 'u cnsys \<Rightarrow> 'u cnsys option" where
  "connector_rounds cb i timeout s =
     (if length (pending_connects (user s)) = 0 then Some s
      else do {
        let (s1, total) = select_c s;
        s2 \<leftarrow> (if total > 0 then ready_loop cb (length (pending_connects (user s)) - i) s1 else Some s1);
        (s3, tick) \<leftarrow> GetSystemMs (upd_cn s2 (\<lambda>c. c\<lparr>fd_set := {}\<rparr>));
        s4 \<leftarrow> timeout_loop cb tick (length (pending_connects (user s3))) s3;
        (s5, tick1) \<leftarrow> GetSystemMs s4;
        if tick1 < timeout then connector_rounds cb (length (pending_connects (user s3))) timeout s5 else Some s5 })"

definition connector_run :: "'u on_connect \<Rightarrow> u32 \<Rightarrow> 'u cnsys \<Rightarrow> 'u cnsys option" where
  "connector_run cb ms s = do {
     (s1, tick) \<leftarrow> GetSystemMs s;
     s2 \<leftarrow> admit cb (extern_connects (user s1)) (upd_cn s1 (\<lambda>c. c\<lparr>extern_connects := []\<rparr>));
     connector_rounds cb 0 (tick + ms) s2 }"

section \<open>The interface of the callback\<close>

definition keeps :: "'u cnsys \<Rightarrow> 'u cnsys \<Rightarrow> bool" where
  "keeps s s' \<longleftrightarrow> clock s' = clock s \<and> fd_set (user s') = fd_set (user s) \<and> pending_connects (user s') = pending_connects (user s) \<and>
     fd_seisize (user s') = fd_seisize (user s) \<and> select_results (user s') = select_results (user s)"

text \<open>The list and its counter agree, and all descriptors fit into the set.\<close>

definition cn_ok :: "'u cnsys \<Rightarrow> bool" where
  "cn_ok s \<longleftrightarrow> fd_seisize (user s) = word_of_nat (length (pending_connects (user s))) \<and>
     length (pending_connects (user s)) \<le> FD_SETSIZE \<and> (\<forall>p \<in> set (pending_connects (user s)). 0 \<le> real_fd p \<and> real_fd p < int FD_SETSIZE)"

text \<open>A clock that reaches the time-out at the end of a round, two readings per round.\<close>

fun stops :: "u32 \<Rightarrow> u32 list \<Rightarrow> bool" where
  "stops T (a # b # ts) = (T \<le> b \<or> stops T ts)"
| "stops T ts = False"

lemma upd_cn_simps [simp]: "user (upd_cn s f) = f (user s)" "clock (upd_cn s f) = clock s"
  by (simp_all add: upd_cn_def)

lemma FD_SET_ok: "0 \<le> fd \<Longrightarrow> fd < int FD_SETSIZE \<Longrightarrow> FD_SET fd s = Some (upd_cn s (\<lambda>c. c\<lparr>fd_set := insert fd (fd_set c)\<rparr>))"
  by (simp add: FD_SET_def)

lemma select_c_facts:
  assumes "select_c s = (s1, r)"
  shows "clock s1 = clock s" "pending_connects (user s1) = pending_connects (user s)" "fd_seisize (user s1) = fd_seisize (user s)"
    "cn_app (user s1) = cn_app (user s)" "extern_connects (user s1) = extern_connects (user s)" "cn_ok s1 = cn_ok s"
  using assms by (auto simp: select_c_def cn_ok_def split: list.splits)

text \<open>The requests that a round finds connected, with the value of \<open>i\<close> it starts with.\<close>

definition round_ready :: "nat \<Rightarrow> 'u cnsys \<Rightarrow> pending_connect list" where
  "round_ready i s = (let (s1, total) = select_c s; ps = pending_connects (user s) in
     if total > 0 then filter (\<lambda>p. real_fd p \<in> fd_set (user s1)) (take (length ps - i) ps) else [])"

lemma round_ready_blind: "length (pending_connects (user s)) \<le> i \<Longrightarrow> round_ready i s = []"
  by (simp add: round_ready_def Let_def split: prod.splits)

lemma mset_cases: "mset (filter P (take k xs)) + mset (drop k xs @ filter (\<lambda>x. \<not> P x) (take k xs)) = mset xs"
proof -
  have "mset (filter P (take k xs)) + mset (filter (\<lambda>x. \<not> P x) (take k xs)) = mset (take k xs)"
    using multiset_partition [of "mset (take k xs)" P] by simp
  moreover have "mset (take k xs) + mset (drop k xs) = mset xs" by (simp flip: mset_append)
  ultimately show ?thesis by (simp add: ac_simps)
qed

text \<open>
  The requests that a run lets into the descriptor set and those it refuses because the set is full, and those whose
  connection the first call of \<open>select\<close> reports: their descriptor is in the set it is given and in its result.
\<close>

definition admitted :: "'u cnsys \<Rightarrow> pending_connect list" where
  "admitted s = pending_connects (user s) @ take (FD_SETSIZE - length (pending_connects (user s))) (extern_connects (user s))"

definition refused :: "'u cnsys \<Rightarrow> pending_connect list" where
  "refused s = drop (FD_SETSIZE - length (pending_connects (user s))) (extern_connects (user s))"

definition established :: "'u cnsys \<Rightarrow> pending_connect \<Rightarrow> bool" where
  "established s p \<longleftrightarrow> (case select_results (user s) of
       [] \<Rightarrow> False
     | (x, fds) # _ \<Rightarrow> 0 < x \<and> real_fd p \<in> fds \<and>
         real_fd p \<in> fd_set (user s) \<union> real_fd ` set (take (FD_SETSIZE - length (pending_connects (user s))) (extern_connects (user s))))"

text \<open>What is required of a callback: it returns, leaves the connector alone and records its call.\<close>

locale connect_callback =
  fixes cb :: "'u on_connect" and out :: "'u \<Rightarrow> 'r list" and msg :: "int \<Rightarrow> pending_connect \<Rightarrow> 'r"
  assumes cb_total: "\<exists>s'. cb h p s = Some s' \<and> keeps s s' \<and> out (cn_app (user s')) = out (cn_app (user s)) @ [msg h p]"
begin

abbreviation outs :: "'u cnsys \<Rightarrow> 'r list" where "outs s \<equiv> out (cn_app (user s))"

lemma ready_law:
  assumes "cn_ok s" "k \<le> length (pending_connects (user s))"
  shows "\<exists>s'. ready_loop cb k s = Some s' \<and> cn_ok s' \<and> clock s' = clock s \<and>
    pending_connects (user s') = drop k (pending_connects (user s)) @ filter (\<lambda>p. real_fd p \<notin> fd_set (user s)) (take k (pending_connects (user s))) \<and>
    outs s' = outs s @ map (\<lambda>p. msg (pc_sock p) p) (filter (\<lambda>p. real_fd p \<in> fd_set (user s)) (take k (pending_connects (user s))))"
  using assms
proof (induction k arbitrary: s)
  case (Suc k)
  then obtain p ps where ps: "pending_connects (user s) = p # ps" by (cases "pending_connects (user s)") auto
  define s1 where "s1 = upd_cn s (\<lambda>c. c\<lparr>pending_connects := ps\<rparr>)"
  show ?case
  proof (cases "real_fd p \<in> fd_set (user s)")
    case True
    obtain s2 where s2: "cb (pc_sock p) p s1 = Some s2" "keeps s1 s2" "outs s2 = outs s1 @ [msg (pc_sock p) p]"
      using cb_total by blast
    define s3 where "s3 = upd_cn s2 (\<lambda>c. c\<lparr>fd_seisize := fd_seisize c - 1\<rparr>)"
    have f: "pending_connects (user s3) = ps" "clock s3 = clock s" "fd_set (user s3) = fd_set (user s)" "outs s3 = outs s @ [msg (pc_sock p) p]"
      using s2(2,3) by (simp_all add: s3_def s1_def keeps_def)
    have "cn_ok s3" using Suc.prems(1) s2(2) ps by (auto simp: cn_ok_def s3_def s1_def keeps_def)
    from Suc.IH [OF this] obtain s' where "ready_loop cb k s3 = Some s'" "cn_ok s'" "clock s' = clock s"
      "pending_connects (user s') = drop k ps @ filter (\<lambda>p. real_fd p \<notin> fd_set (user s)) (take k ps)"
      "outs s' = outs s3 @ map (\<lambda>p. msg (pc_sock p) p) (filter (\<lambda>p. real_fd p \<in> fd_set (user s)) (take k ps))"
      using Suc.prems(2) ps unfolding f(1-3) by auto
    then show ?thesis using True ps s2(1) f(4) by (simp add: s1_def s3_def Let_def)
  next
    case False
    define s3 where "s3 = upd_cn s1 (\<lambda>c. c\<lparr>pending_connects := pending_connects c @ [p]\<rparr>)"
    have f: "pending_connects (user s3) = ps @ [p]" "clock s3 = clock s" "fd_set (user s3) = fd_set (user s)" "outs s3 = outs s"
      by (simp_all add: s3_def s1_def)
    have "cn_ok s3" using Suc.prems(1) ps by (auto simp: cn_ok_def s3_def s1_def)
    from Suc.IH [OF this] obtain s' where "ready_loop cb k s3 = Some s'" "cn_ok s'" "clock s' = clock s"
      "pending_connects (user s') = drop k (ps @ [p]) @ filter (\<lambda>p. real_fd p \<notin> fd_set (user s)) (take k (ps @ [p]))"
      "outs s' = outs s3 @ map (\<lambda>p. msg (pc_sock p) p) (filter (\<lambda>p. real_fd p \<in> fd_set (user s)) (take k (ps @ [p])))"
      using Suc.prems(2) ps unfolding f(1-3) by auto
    then show ?thesis using False ps Suc.prems(2) f(4) by (simp add: s1_def s3_def Let_def)
  qed
qed simp

lemma timeout_law:
  assumes "cn_ok s" "k \<le> length (pending_connects (user s))"
  shows "\<exists>s'. timeout_loop cb tick k s = Some s' \<and> cn_ok s' \<and> clock s' = clock s \<and>
    pending_connects (user s') = drop k (pending_connects (user s)) @ filter (\<lambda>p. tick < pc_timeout p) (take k (pending_connects (user s))) \<and>
    fd_set (user s') = fd_set (user s) \<union> real_fd ` set (filter (\<lambda>p. tick < pc_timeout p) (take k (pending_connects (user s)))) \<and>
    outs s' = outs s @ map (msg (-1)) (filter (\<lambda>p. pc_timeout p \<le> tick) (take k (pending_connects (user s))))"
  using assms
proof (induction k arbitrary: s)
  case (Suc k)
  then obtain p ps where ps: "pending_connects (user s) = p # ps" by (cases "pending_connects (user s)") auto
  define s1 where "s1 = upd_cn s (\<lambda>c. c\<lparr>pending_connects := ps\<rparr>)"
  show ?case
  proof (cases "pc_timeout p \<le> tick")
    case True
    obtain s2 where s2: "cb (-1) p s1 = Some s2" "keeps s1 s2" "outs s2 = outs s1 @ [msg (-1) p]" using cb_total by blast
    define s3 where "s3 = upd_cn s2 (\<lambda>c. c\<lparr>fd_seisize := fd_seisize c - 1\<rparr>)"
    have f: "pending_connects (user s3) = ps" "clock s3 = clock s" "fd_set (user s3) = fd_set (user s)" "outs s3 = outs s @ [msg (-1) p]"
      using s2(2,3) by (simp_all add: s3_def s1_def keeps_def)
    have "cn_ok s3" using Suc.prems(1) s2(2) ps by (auto simp: cn_ok_def s3_def s1_def keeps_def)
    from Suc.IH [OF this] obtain s' where "timeout_loop cb tick k s3 = Some s'" "cn_ok s'" "clock s' = clock s"
      "pending_connects (user s') = drop k ps @ filter (\<lambda>p. tick < pc_timeout p) (take k ps)"
      "fd_set (user s') = fd_set (user s) \<union> real_fd ` set (filter (\<lambda>p. tick < pc_timeout p) (take k ps))"
      "outs s' = outs s3 @ map (msg (-1)) (filter (\<lambda>p. pc_timeout p \<le> tick) (take k ps))"
      using Suc.prems(2) ps unfolding f(1-3) by auto
    then show ?thesis using True ps s2(1) f(4) by (simp add: s1_def s3_def Let_def)
  next
    case False
    define s2 where "s2 = upd_cn s1 (\<lambda>c. c\<lparr>pending_connects := pending_connects c @ [p]\<rparr>)"
    define s3 where "s3 = upd_cn s2 (\<lambda>c. c\<lparr>fd_set := insert (real_fd p) (fd_set c)\<rparr>)"
    have fd: "FD_SET (real_fd p) s2 = Some s3" unfolding s3_def by (rule FD_SET_ok) (use Suc.prems(1) ps in \<open>auto simp: cn_ok_def\<close>)
    have f: "pending_connects (user s3) = ps @ [p]" "clock s3 = clock s" "fd_set (user s3) = insert (real_fd p) (fd_set (user s))" "outs s3 = outs s"
      by (simp_all add: s3_def s2_def s1_def)
    have "cn_ok s3" using Suc.prems(1) ps by (auto simp: cn_ok_def s3_def s2_def s1_def)
    from Suc.IH [OF this] obtain s' where "timeout_loop cb tick k s3 = Some s'" "cn_ok s'" "clock s' = clock s"
      "pending_connects (user s') = drop k (ps @ [p]) @ filter (\<lambda>p. tick < pc_timeout p) (take k (ps @ [p]))"
      "fd_set (user s') = insert (real_fd p) (fd_set (user s)) \<union> real_fd ` set (filter (\<lambda>p. tick < pc_timeout p) (take k (ps @ [p])))"
      "outs s' = outs s3 @ map (msg (-1)) (filter (\<lambda>p. pc_timeout p \<le> tick) (take k (ps @ [p])))"
      using Suc.prems(2) ps unfolding f(1-3) by auto
    then show ?thesis using False ps Suc.prems(2) f(4) fd not_le_imp_less [OF False] by (auto simp: s1_def s2_def Let_def)
  qed
qed simp

lemma round_law:
  assumes ok: "cn_ok s" and ck: "clock s = a # b # ts" and ne: "pending_connects (user s) \<noteq> []"
  shows "\<exists>s' late n. (\<forall>T. connector_rounds cb i T s = (if b < T then connector_rounds cb n T s' else Some s')) \<and>
    cn_ok s' \<and> clock s' = ts \<and> length (pending_connects (user s')) \<le> n \<and>
    outs s' = outs s @ map (\<lambda>p. msg (pc_sock p) p) (round_ready i s) @ map (msg (-1)) late \<and>
    mset (round_ready i s) + mset late + mset (pending_connects (user s')) = mset (pending_connects (user s)) \<and>
    (\<forall>p \<in> set late. pc_timeout p \<le> a)"
proof -
  let ?P = "pending_connects (user s)"
  obtain s1 total where sel: "select_c s = (s1, total)" by (cases "select_c s") simp
  note f1 = select_c_facts [OF sel]
  define k where "k = (if 0 < total then length ?P - i else 0)"
  define R where "R = (\<lambda>p :: pending_connect. real_fd p \<in> fd_set (user s1))"
  have "cn_ok s1" "k \<le> length (pending_connects (user s1))" using ok by (simp_all add: k_def f1)
  from ready_law [OF this, folded R_def, unfolded f1(1,2,4)] obtain s2 where s2: "ready_loop cb k s1 = Some s2" "cn_ok s2" "clock s2 = clock s"
    "pending_connects (user s2) = drop k ?P @ filter (\<lambda>p. \<not> R p) (take k ?P)"
    "outs s2 = outs s @ map (\<lambda>p. msg (pc_sock p) p) (filter R (take k ?P))"
    unfolding R_def by blast
  have e2: "(if 0 < total then ready_loop cb (length ?P - i) s1 else Some s1) = Some s2" using s2(1) by (simp add: k_def split: if_splits)
  define s3 where "s3 = (upd_cn s2 (\<lambda>c. c\<lparr>fd_set := {}\<rparr>))\<lparr>clock := b # ts\<rparr>"
  have e3: "GetSystemMs (upd_cn s2 (\<lambda>c. c\<lparr>fd_set := {}\<rparr>)) = Some (s3, a)" using s2(3) ck by (simp add: GetSystemMs_def s3_def)
  have f3: "cn_ok s3" "pending_connects (user s3) = pending_connects (user s2)" "outs s3 = outs s2"
    using s2(2) by (simp_all add: s3_def cn_ok_def)
  let ?Q = "pending_connects (user s2)"
  obtain s4 where s4: "timeout_loop cb a (length ?Q) s3 = Some s4" "cn_ok s4" "clock s4 = clock s3"
    "pending_connects (user s4) = drop (length ?Q) ?Q @ filter (\<lambda>p. a < pc_timeout p) (take (length ?Q) ?Q)"
    "outs s4 = outs s3 @ map (msg (-1)) (filter (\<lambda>p. pc_timeout p \<le> a) (take (length ?Q) ?Q))"
    using timeout_law [OF f3(1) order_refl, of a, unfolded f3(2)] by blast
  define s5 where "s5 = s4\<lparr>clock := ts\<rparr>"
  have e5: "GetSystemMs s4 = Some (s5, b)" using s4(3) by (simp add: GetSystemMs_def s3_def s5_def)
  have f5: "cn_ok s5" "pending_connects (user s5) = filter (\<lambda>p. a < pc_timeout p) ?Q" "outs s5 = outs s4" "clock s5 = ts"
    using s4(2,4) by (simp_all add: s5_def cn_ok_def)
  define late where "late = filter (\<lambda>p. pc_timeout p \<le> a) ?Q"
  have rdy: "round_ready i s = filter R (take k ?P)" by (simp add: round_ready_def Let_def sel k_def R_def)
  have "mset (filter R (take k ?P)) + mset ?Q = mset ?P" unfolding s2(4) using mset_cases [of R k ?P] by simp
  moreover have "mset late + mset (filter (\<lambda>p. a < pc_timeout p) ?Q) = mset ?Q"
    using multiset_partition [of "mset ?Q" "\<lambda>p. pc_timeout p \<le> a"] by (simp add: not_le late_def)
  ultimately have m: "mset (round_ready i s) + mset late + mset (pending_connects (user s5)) = mset ?P"
    unfolding f5(2) rdy by (simp only: add.assoc)
  have o: "outs s5 = outs s @ map (\<lambda>p. msg (pc_sock p) p) (round_ready i s) @ map (msg (-1)) late"
    using f5(3) s4(5) f3(3) s2(5) by (simp add: late_def rdy)
  have "connector_rounds cb i T s = (if b < T then connector_rounds cb (length ?Q) T s5 else Some s5)" for T
    using ne by (subst connector_rounds.simps) (simp add: sel e2 e3 f3(2) s4(1) e5)
  then show ?thesis using f5 o m
    by (intro exI [of _ s5] exI [of _ late] exI [of _ "length ?Q"]) (simp add: late_def)
qed

lemma rounds_law:
  assumes "cn_ok s" "stops T (clock s)"
  shows "\<exists>s' late. connector_rounds cb i T s = Some s' \<and> cn_ok s' \<and>
    outs s' = outs s @ map (\<lambda>p. msg (pc_sock p) p) (round_ready i s) @ map (msg (-1)) late \<and>
    mset (round_ready i s) + mset late + mset (pending_connects (user s')) = mset (pending_connects (user s)) \<and>
    (\<forall>p \<in> set late. \<exists>t \<in> set (clock s). pc_timeout p \<le> t)"
  using assms
proof (induction T "clock s" arbitrary: s i rule: stops.induct)
  case (1 T a b ts)
  note ok = 1(3)
  have ck: "clock s = a # b # ts" using 1(2) by simp
  show ?case
  proof (cases "pending_connects (user s) = []")
    case True
    then have "connector_rounds cb i T s = Some s" by (subst connector_rounds.simps) simp
    then show ?thesis using ok True round_ready_blind [of s i] by (intro exI [of _ s] exI [of _ "[]"]) simp
  next
    case False
    obtain s5 late n where r: "connector_rounds cb i T s = (if b < T then connector_rounds cb n T s5 else Some s5)"
      "cn_ok s5" "clock s5 = ts" "length (pending_connects (user s5)) \<le> n"
      "outs s5 = outs s @ map (\<lambda>p. msg (pc_sock p) p) (round_ready i s) @ map (msg (-1)) late"
      "mset (round_ready i s) + mset late + mset (pending_connects (user s5)) = mset (pending_connects (user s))" "\<forall>p \<in> set late. pc_timeout p \<le> a"
      using round_law [OF ok ck False, of i] by blast
    show ?thesis
    proof (cases "b < T")
      case True
      then have "stops T (clock s5)" "\<not> T \<le> b" using 1(4) ck r(3) by auto
      then obtain s' late' where s': "connector_rounds cb n T s5 = Some s'" "cn_ok s'"
        "outs s' = outs s5 @ map (\<lambda>p. msg (pc_sock p) p) (round_ready n s5) @ map (msg (-1)) late'"
        "mset (round_ready n s5) + mset late' + mset (pending_connects (user s')) = mset (pending_connects (user s5))"
        "\<forall>p \<in> set late'. \<exists>t \<in> set (clock s5). pc_timeout p \<le> t"
        using 1(1) [OF r(3) [symmetric] r(2), of n] by blast
      note blind = round_ready_blind [OF r(4)]
      have "mset (round_ready i s) + mset (late @ late') + mset (pending_connects (user s')) = mset (pending_connects (user s))"
        unfolding r(6) [symmetric] s'(4) [symmetric] by (simp add: blind add.assoc)
      moreover have "outs s' = outs s @ map (\<lambda>p. msg (pc_sock p) p) (round_ready i s) @ map (msg (-1)) (late @ late')"
        using s'(3) r(5) by (simp add: blind)
      moreover have "\<forall>p \<in> set (late @ late'). \<exists>t \<in> set (clock s). pc_timeout p \<le> t" using s'(5) r(3,7) ck by auto
      ultimately show ?thesis using r(1) True s'(1,2) by (intro exI [of _ s'] exI [of _ "late @ late'"]) simp
    next
      case False
      then show ?thesis using r(1,2,5-7) ck by (intro exI [of _ s5] exI [of _ late]) simp
    qed
  qed
qed (metis stops.simps(2,3))+

lemma admit_law:
  assumes "cn_ok s" "\<forall>p \<in> set l. 0 \<le> real_fd p \<and> real_fd p < int FD_SETSIZE"
  shows "\<exists>s'. admit cb l s = Some s' \<and> cn_ok s' \<and> clock s' = clock s \<and> select_results (user s') = select_results (user s) \<and>
    outs s' = outs s @ map (msg (-1)) (drop (FD_SETSIZE - length (pending_connects (user s))) l) \<and>
    pending_connects (user s') = pending_connects (user s) @ take (FD_SETSIZE - length (pending_connects (user s))) l \<and>
    fd_set (user s') = fd_set (user s) \<union> real_fd ` set (take (FD_SETSIZE - length (pending_connects (user s))) l)"
  using assms
proof (induction l arbitrary: s)
  case Nil
  then show ?case by (intro exI [of _ s]) simp
next
  case (Cons p l)
  have u: "unat (fd_seisize (user s)) = length (pending_connects (user s))"
    using Cons.prems(1) by (simp add: cn_ok_def unat_word_of_nat)
  show ?case
  proof (cases "FD_SETSIZE \<le> length (pending_connects (user s))")
    case True
    obtain s1 where s1: "cb (-1) p s = Some s1" "keeps s s1" "outs s1 = outs s @ [msg (-1) p]" using cb_total by blast
    have "cn_ok s1" using Cons.prems(1) s1(2) by (simp add: cn_ok_def keeps_def)
    from Cons.IH [OF this] Cons.prems(2) s1(2) True show ?thesis using u s1 by (auto simp: keeps_def)
  next
    case False
    define s1 where "s1 = upd_cn (upd_cn s (\<lambda>c. c\<lparr>fd_set := insert (real_fd p) (fd_set c)\<rparr>))
      (\<lambda>c. c\<lparr>pending_connects := pending_connects c @ [p], fd_seisize := fd_seisize c + 1\<rparr>)"
    obtain m where m: "FD_SETSIZE - length (pending_connects (user s)) = Suc m" "FD_SETSIZE - Suc (length (pending_connects (user s))) = m"
      using False by (cases "FD_SETSIZE - length (pending_connects (user s))") auto
    have "cn_ok s1" using Cons.prems False by (auto simp: cn_ok_def s1_def)
    from Cons.IH [OF this] Cons.prems(2) obtain s' where s': "admit cb l s1 = Some s'" "cn_ok s'" "clock s' = clock s1"
      "select_results (user s') = select_results (user s1)" "outs s' = outs s1 @ map (msg (-1)) (drop m l)"
      "pending_connects (user s') = pending_connects (user s1) @ take m l" "fd_set (user s') = fd_set (user s1) \<union> real_fd ` set (take m l)"
      using m(2) by (auto simp: s1_def)
    have "admit cb (p # l) s = Some s'" using False u Cons.prems(2) s'(1) by (simp add: FD_SET_ok s1_def)
    then show ?thesis using s'(2-7) m(1) by (intro exI [of _ s']) (simp add: s1_def)
  qed
qed

lemma run_law:
  assumes ok: "cn_ok s" "\<forall>p \<in> set (extern_connects (user s)). 0 \<le> real_fd p \<and> real_fd p < int FD_SETSIZE"
    and ck: "clock s = t # ts" "stops (t + ms) ts"
  shows "\<exists>s' late. connector_run cb ms s = Some s' \<and> cn_ok s' \<and>
    outs s' = outs s @ map (msg (-1)) (refused s) @ map (\<lambda>p. msg (pc_sock p) p) (filter (established s) (admitted s)) @ map (msg (-1)) late \<and>
    mset (filter (established s) (admitted s)) + mset late + mset (pending_connects (user s')) = mset (admitted s) \<and>
    (\<forall>p \<in> set late. \<exists>t \<in> set ts. pc_timeout p \<le> t)"
proof -
  define s1 where "s1 = upd_cn (s\<lparr>clock := ts\<rparr>) (\<lambda>c. c\<lparr>extern_connects := []\<rparr>)"
  let ?m = "FD_SETSIZE - length (pending_connects (user s))" let ?E = "extern_connects (user s)"
  have f1: "cn_ok s1" "clock s1 = ts" "pending_connects (user s1) = pending_connects (user s)" "outs s1 = outs s"
    "select_results (user s1) = select_results (user s)" "fd_set (user s1) = fd_set (user s)"
    using ok(1) by (simp_all add: s1_def cn_ok_def)
  obtain s2 where s2: "admit cb ?E s1 = Some s2" "cn_ok s2" "clock s2 = ts" "select_results (user s2) = select_results (user s)"
    "outs s2 = outs s @ map (msg (-1)) (refused s)" "pending_connects (user s2) = admitted s"
    "fd_set (user s2) = fd_set (user s) \<union> real_fd ` set (take ?m ?E)"
    using admit_law [OF f1(1) ok(2)] unfolding f1 refused_def admitted_def by blast
  have "stops (t + ms) (clock s2)" using ck(2) s2(3) by simp
  then obtain s' late where s': "connector_rounds cb 0 (t + ms) s2 = Some s'" "cn_ok s'"
    "outs s' = outs s2 @ map (\<lambda>p. msg (pc_sock p) p) (round_ready 0 s2) @ map (msg (-1)) late"
    "mset (round_ready 0 s2) + mset late + mset (pending_connects (user s')) = mset (admitted s)" "\<forall>p \<in> set late. \<exists>t \<in> set ts. pc_timeout p \<le> t"
    using rounds_law [OF s2(2), of "t + ms" 0] unfolding s2(3,6) by blast
  have "round_ready 0 s2 = filter (established s) (admitted s)"
    by (cases "select_results (user s)") (auto simp: round_ready_def Let_def select_c_def s2 established_def intro!: filter_cong)
  moreover have "connector_run cb ms s = Some s'" using ck(1) s2(1) s'(1) by (simp add: connector_run_def GetSystemMs_def s1_def)
  ultimately show ?thesis using s'(2-5) s2(5) by (intro exI [of _ s'] exI [of _ late]) simp
qed

end

section \<open>The callback of the test program\<close>

text \<open>\<open>test_connector.c\<close>: one printed line for every report.\<close>

definition connect_line :: "int \<Rightarrow> pending_connect \<Rightarrow> string" where
  "connect_line h p = (if h \<ge> 0 then ''connect '' @ pc_ip p @ '' success'' else ''connect error'')"

definition test_on_connect :: "string list on_connect" where
  "test_on_connect h p s = Some (upd_cn s (\<lambda>c. c\<lparr>cn_app := cn_app c @ [connect_line h p]\<rparr>))"

interpretation test: connect_callback test_on_connect "\<lambda>ls. ls" connect_line
  by unfold_locales (simp add: test_on_connect_def keeps_def)

text \<open>An observer of all reports, with the handle that was given to the callback and the request.\<close>

definition note_connect :: "(int \<times> pending_connect) list on_connect" where
  "note_connect h p s = Some (upd_cn s (\<lambda>c. c\<lparr>cn_app := cn_app c @ [(h, p)]\<rparr>))"

interpretation noted: connect_callback note_connect "\<lambda>rs. rs" Pair
  by unfold_locales (simp add: note_connect_def keeps_def)

text \<open>
  Claim C27. A run of the connector returns once its time is over, and the calls of the callback in it are these, in this order:
  a failure for each new request that finds the descriptor set full; for each other request, old or new, whose descriptor the first call
  of \<open>select\<close> reports, its own handle; a failure for requests whose time is over. The requests that are let in are exactly those reported with their handle,
  those reported late and those that still wait, each once; so no socket is reported as connected that \<open>select\<close>
  has not reported, and no request is lost or reported twice. The counter of entries and the length of the list agree
  at the end. Conditions: the counter and the list agree before and the descriptors fit into the set, which the code does not check, and the clock
  reaches the time-out.
\<close>

theorem connector_reports_once:
  assumes "cn_ok s" "\<forall>p \<in> set (extern_connects (user s)). 0 \<le> real_fd p \<and> real_fd p < int FD_SETSIZE"
    and "clock s = t # ts" "stops (t + ms) ts"
  shows "\<exists>s' late. connector_run note_connect ms s = Some s' \<and> cn_ok s' \<and>
    cn_app (user s') = cn_app (user s) @ map (Pair (-1)) (refused s) @
      map (\<lambda>p. (pc_sock p, p)) (filter (established s) (admitted s)) @ map (Pair (-1)) late \<and>
    mset (filter (established s) (admitted s)) + mset late + mset (pending_connects (user s')) = mset (admitted s) \<and>
    (\<forall>p \<in> set late. \<exists>t \<in> set ts. pc_timeout p \<le> t)"
  using noted.run_law [OF assms] by blast

text \<open>
  Only the first poll of a run can succeed: the loop variable is not reset before the ready
  sockets are looked at, so when the first \<open>select\<close> of a run finds nothing, a connection that is
  established later in the run is not reported, whatever further calls of \<open>select\<close> say. Every report
  of such a run is a failure.
\<close>

theorem connector_misses_later_polls:
  assumes "cn_ok s" "\<forall>p \<in> set (extern_connects (user s)). 0 \<le> real_fd p \<and> real_fd p < int FD_SETSIZE"
    and "clock s = t # ts" "stops (t + ms) ts" "select_results (user s) = (x, fds) # sel" "x \<le> 0"
  shows "\<exists>s' ls. connector_run test_on_connect ms s = Some s' \<and> cn_app (user s') = cn_app (user s) @ ls \<and>
    (\<forall>l \<in> set ls. l = ''connect error'')"
proof -
  have "established s p = False" for p using assms(5,6) by (simp add: established_def)
  then obtain s' late where "connector_run test_on_connect ms s = Some s'"
    "cn_app (user s') = cn_app (user s) @ map (connect_line (-1)) (refused s @ late)"
    using test.run_law [OF assms(1-4)] by auto
  then show ?thesis by (intro exI [of _ s'] exI [of _ "map (connect_line (-1)) (refused s @ late)"]) (auto simp: connect_line_def)
qed

definition cn_request :: pending_connect where
  "cn_request = \<lparr>pc_ip = ''::1'', pc_port = 80, pc_sock = 3, real_fd = 5, pc_timeout = 100, pc_ud = 0\<rparr>"

definition cn_sample :: "(int \<times> int set) list \<Rightarrow> 'r list cnsys" where
  "cn_sample sel = \<lparr>socket_pool = [], engine_pool = [], io_err = (\<lambda>_. 0), sys_results = [], epoll_results = [], clock = [0, 1, 2, 3, 20],
     user = \<lparr>fd_set = {}, pending_connects = [], fd_seisize = 0, extern_connects = [cn_request], select_results = sel, cn_app = []\<rparr>\<rparr>"

lemma cn_sample_ok:
  "cn_ok (cn_sample sel)" "\<forall>p \<in> set (extern_connects (user (cn_sample sel))). 0 \<le> real_fd p \<and> real_fd p < int FD_SETSIZE"
  "clock (cn_sample sel) = 0 # [1, 2, 3, 20]" "stops (0 + 10) [1, 2, 3, 20]" "select_results (user (cn_sample sel)) = sel"
  "cn_app (user (cn_sample sel)) = []" "extern_connects (user (cn_sample sel)) = [cn_request]" "pending_connects (user (cn_sample sel)) = []"
  by (simp_all add: cn_sample_def cn_ok_def cn_request_def)

theorem connector_reports_once_witness:
  "\<exists>s'. connector_run note_connect 10 (cn_sample [(1, {5})]) = Some s' \<and> cn_app (user s') = [(3, cn_request)] \<and> pending_connects (user s') = []"
proof -
  have e: "refused (cn_sample [(1, {5})]) = []" "admitted (cn_sample [(1, {5})]) = [cn_request]" "established (cn_sample [(1, {5})]) cn_request"
    by (simp_all add: refused_def admitted_def established_def cn_sample_def cn_request_def)
  have "pc_sock cn_request = 3" by (simp add: cn_request_def)
  then show ?thesis using connector_reports_once [OF cn_sample_ok(1-4), of "[(1, {5})]"] by (auto simp: e cn_sample_ok(6))
qed

theorem connector_misses_later_polls_witness:
  "\<exists>s' ls. connector_run test_on_connect 10 (cn_sample [(0, {}), (1, {5})]) = Some s' \<and> cn_app (user s') = ls \<and>
    (\<forall>l \<in> set ls. l = ''connect error'')"
  using connector_misses_later_polls [OF cn_sample_ok(1-5), of 0 "{}" "[(1, {5})]"] by (simp add: cn_sample_ok(6))

end
