(* ===== verification/Connection.thy ===== *)
theory Connection
  imports Rpacket Net
begin

text \<open>
  Connections (\<open>src/Connection.c\<close>): the byte stream of a socket is received into a chain of
  buffers of 64 KB, cut into packets that are handed to the application, and packets to be sent are
  queued and written out by scattered writes. The state extends the reactor of theory Net: its
  \<open>user\<close> part holds the store of buffers, the connections by address, the two directions of
  the wire and the data of the application.

  The two overlapped requests of the connection \<open>c\<close> are the numbers \<open>2 * c\<close> (receive) and
  \<open>2 * c + 1\<close> (send). A system call moves bytes between the wire and the memory that the request
  describes: \<open>readv_data\<close> and \<open>writev_data\<close>. The packets in the send queue are values, by the
  refinement of theory LinkList; next to each is its completion callback, 0 for none.
\<close>

abbreviation BUFFER_SIZE :: u32 where "BUFFER_SIZE \<equiv> 65536"
abbreviation MAX_WBAF :: nat where "MAX_WBAF \<equiv> 1024"
abbreviation RECV_IOVECS :: nat where "RECV_IOVECS \<equiv> 2"

record iovec =
  iov_base :: "addr \<times> u32"
  iov_len :: u32

text \<open>The arrays \<open>wsendbuf\<close> and \<open>wrecvbuf\<close> are the lists of their \<open>iovec_count\<close> entries in use.\<close>

record connection =
  c_socket :: int
  wsendbuf :: "iovec list"
  wrecvbuf :: "iovec list"
  send_used :: bool
  recv_used :: bool
  unpack_size :: u32
  unpack_pos :: u32
  next_recv_pos :: u32
  next_recv_buf :: addr
  unpack_buf :: addr
  send_list :: "(wpacket \<times> nat) list"
  c_mt :: u8
  c_raw :: u8
  is_close :: u16

record 'u cworld =
  bst :: bstore
  conns :: "addr \<rightharpoonup> connection"
  wire_in :: "addr \<Rightarrow> byte list"
  wire_out :: "addr \<Rightarrow> byte list"
  packet_send :: u32
  app :: 'u

type_synonym 'u csys = "'u cworld net"

record 'u handlers =
  process_packet :: "addr \<Rightarrow> rpacket \<Rightarrow> 'u csys \<Rightarrow> 'u csys option"
  on_disconnect :: "addr \<Rightarrow> int \<Rightarrow> 'u csys \<Rightarrow> 'u csys option"
  packet_send_finish :: "nat \<Rightarrow> addr \<Rightarrow> wpacket \<Rightarrow> 'u csys \<Rightarrow> 'u csys option"

definition upd_user :: "'u csys \<Rightarrow> ('u cworld \<Rightarrow> 'u cworld) \<Rightarrow> 'u csys" where
  "upd_user s f = s\<lparr>user := f (user s)\<rparr>"

definition con_at :: "'u csys \<Rightarrow> addr \<Rightarrow> connection option" where
  "con_at s c = conns (user s) c"

definition put_con :: "'u csys \<Rightarrow> addr \<Rightarrow> connection \<Rightarrow> 'u csys" where
  "put_con s c k = upd_user s (\<lambda>u. u\<lparr>conns := (conns u)(c \<mapsto> k)\<rparr>)"

definition put_bst :: "'u csys \<Rightarrow> bstore \<Rightarrow> 'u csys" where
  "put_bst s st = upd_user s (\<lambda>u. u\<lparr>bst := st\<rparr>)"

section \<open>Receiving\<close>

definition recv_next_buf :: "bstore \<Rightarrow> connection \<Rightarrow> (bstore \<times> connection) option" where
  "recv_next_buf st k = do {
     b \<leftarrow> buf_at st (next_recv_buf k);
     st1 \<leftarrow> (if bnext b = NULL
            then do {
              (st', nb) \<leftarrow> buffer_create_and_acquire st (c_mt k) NULL BUFFER_SIZE;
              set_next st' (next_recv_buf k) nb }
            else Some st);
     b1 \<leftarrow> buf_at st1 (next_recv_buf k);
     (st2, nb) \<leftarrow> buffer_acquire st1 (next_recv_buf k) (bnext b1);
     Some (st2, k\<lparr>next_recv_buf := nb, next_recv_pos := 0\<rparr>) }"

text \<open>The number of bytes is positive here, so signed and unsigned agree.\<close>

partial_function (option) update_next_recv_pos ::
    "bstore \<Rightarrow> connection \<Rightarrow> u32 \<Rightarrow> (bstore \<times> connection) option" where
  [code]: "update_next_recv_pos st k bytestransfer =
     (if bytestransfer = 0 then Some (st, k)
      else do {
        b \<leftarrow> buf_at st (next_recv_buf k);
        let size = capacity b - next_recv_pos k;
        let size = (if size > bytestransfer then bytestransfer else size);
        st1 \<leftarrow> set_size st (next_recv_buf k) (bsize b + size);
        let k1 = k\<lparr>next_recv_pos := next_recv_pos k + size\<rparr>;
        (st2, k2) \<leftarrow> (if next_recv_pos k1 \<ge> capacity b then recv_next_buf st1 k1 else Some (st1, k1));
        update_next_recv_pos st2 k2 (bytestransfer - size) })"

definition unpack_next_buf :: "bstore \<Rightarrow> connection \<Rightarrow> (bstore \<times> connection) option" where
  "unpack_next_buf st k = do {
     b \<leftarrow> buf_at st (unpack_buf k);
     if unpack_pos k \<ge> capacity b
     then do {
       _ \<leftarrow> assert_c (bnext b \<noteq> NULL);
       (st1, nb) \<leftarrow> buffer_acquire st (unpack_buf k) (bnext b);
       Some (st1, k\<lparr>unpack_pos := 0, unpack_buf := nb\<rparr>) }
     else Some (st, k) }"

partial_function (option) unpack_advance ::
    "bstore \<Rightarrow> connection \<Rightarrow> u32 \<Rightarrow> (bstore \<times> connection) option" where
  [code]: "unpack_advance st k pk_total_size =
     (if pk_total_size = 0 then Some (st, k)
      else do {
        b \<leftarrow> buf_at st (unpack_buf k);
        let size = bsize b - unpack_pos k;
        let size = (if pk_total_size > size then size else pk_total_size);
        (st1, k1) \<leftarrow> unpack_next_buf st (k\<lparr>unpack_pos := unpack_pos k + size, unpack_size := unpack_size k - size\<rparr>);
        unpack_advance st1 k1 (pk_total_size - size) })"

text \<open>
  The packet at the current position, if it is complete: the body of the loop of \<open>unpack\<close> up to the
  call of \<open>_process_packet\<close>, with the value of \<open>pk_len\<close>, which lives across the rounds. Bytes that
  \<open>buffer_read\<close> does not deliver keep their old value.
\<close>

definition unpack_one ::
    "bstore \<Rightarrow> connection \<Rightarrow> u32 \<Rightarrow> (bstore \<times> connection \<times> u32 \<times> rpacket option) option" where
  "unpack_one st k pk_len =
     (if c_raw k = 0
      then
        if unpack_size k \<le> 4 then Some (st, k, pk_len, None)
        else do {
          (_, bs) \<leftarrow> buffer_read st (unpack_buf k) (unpack_pos k) 4;
          let pk_len = word_of_nat (le_val (bs @ drop (length bs) (le_bytes 4 (unat pk_len))));
          let pk_total_size = pk_len + 4;
          if pk_total_size > unpack_size k then Some (st, k, pk_len, None)
          else do {
            (st1, r) \<leftarrow> rpacket_create st (c_mt k) (unpack_buf k) (unpack_pos k) pk_len (c_raw k);
            (st2, k2) \<leftarrow> unpack_advance st1 k pk_total_size;
            Some (st2, k2, pk_len, Some r) } }
      else do {
        b \<leftarrow> buf_at st (unpack_buf k);
        let pk_len = bsize b - unpack_pos k;
        if pk_len = 0 then Some (st, k, pk_len, None)
        else do {
          (st1, r) \<leftarrow> rpacket_create st (c_mt k) (unpack_buf k) (unpack_pos k) pk_len (c_raw k);
          (st2, k2) \<leftarrow> unpack_next_buf st1 (k\<lparr>unpack_pos := unpack_pos k + pk_len, unpack_size := unpack_size k - pk_len\<rparr>);
          Some (st2, k2, pk_len, Some r) } })"

partial_function (option) unpack_loop :: "'u handlers \<Rightarrow> addr \<Rightarrow> u32 \<Rightarrow> 'u csys \<Rightarrow> 'u csys option" where
  "unpack_loop hs c pk_len s = do {
     k \<leftarrow> con_at s c;
     (st, k1, pk_len, res) \<leftarrow> unpack_one (bst (user s)) k pk_len;
     let s1 = put_con (put_bst s st) c k1;
     case res of
       None \<Rightarrow> Some s1
     | Some r \<Rightarrow> do { s2 \<leftarrow> process_packet hs c r s1; unpack_loop hs c pk_len s2 } }"

definition unpack :: "'u handlers \<Rightarrow> addr \<Rightarrow> 'u csys \<Rightarrow> 'u csys option" where
  "unpack hs c s = unpack_loop hs c 0 s"

text \<open>
  Describing the free memory for the next receive: \<open>BUFFER_SIZE\<close> bytes from \<open>pos\<close> in \<open>buf\<close>. An entry
  beyond the end of \<open>wrecvbuf\<close> would overwrite the rest of the structure.
\<close>

partial_function (option) recv_iovecs ::
    "bstore \<Rightarrow> u8 \<Rightarrow> addr \<Rightarrow> u32 \<Rightarrow> u32 \<Rightarrow> iovec list \<Rightarrow> (bstore \<times> iovec list) option" where
  [code]: "recv_iovecs st m buf pos recv_size vs =
     (if recv_size = 0 then Some (st, vs)
      else do {
        b \<leftarrow> buf_at st buf;
        let free_size = capacity b - pos;
        let free_size = (if recv_size > free_size then free_size else recv_size);
        _ \<leftarrow> assert_c (length vs < RECV_IOVECS);
        let vs1 = vs @ [\<lparr>iov_base = (buf, pos), iov_len = free_size\<rparr>];
        let pos1 = pos + free_size;
        if recv_size - free_size \<noteq> 0 \<and> pos1 \<ge> capacity b
        then do {
          st1 \<leftarrow> (if bnext b = NULL
                 then do { (st', nb) \<leftarrow> buffer_create_and_acquire st m NULL BUFFER_SIZE; set_next st' buf nb }
                 else Some st);
          b1 \<leftarrow> buf_at st1 buf;
          recv_iovecs st1 m (bnext b1) 0 (recv_size - free_size) vs1 }
        else recv_iovecs st m buf pos1 (recv_size - free_size) vs1 })"

text \<open>What the system call does to memory: the bytes go to the described places in order.\<close>

fun scatter :: "bstore \<Rightarrow> iovec list \<Rightarrow> byte list \<Rightarrow> bstore option" where
  "scatter st vs [] = Some st"
| "scatter st [] (x # xs) = None"
| "scatter st (v # vs) (x # xs) = do {
     st1 \<leftarrow> memcpy_to st (fst (iov_base v)) (snd (iov_base v)) (take (unat (iov_len v)) (x # xs));
     scatter st1 vs (drop (unat (iov_len v)) (x # xs)) }"

definition readv_data :: "addr \<Rightarrow> int \<Rightarrow> 'u csys \<Rightarrow> 'u csys option" where
  "readv_data c bytes s = do {
     k \<leftarrow> con_at s c;
     _ \<leftarrow> assert_c (nat bytes \<le> length (wire_in (user s) c));
     st \<leftarrow> scatter (bst (user s)) (wrecvbuf k) (take (nat bytes) (wire_in (user s) c));
     Some (upd_user s (\<lambda>u. u\<lparr>bst := st, wire_in := (wire_in u)(c := drop (nat bytes) (wire_in u c))\<rparr>)) }"

definition post_recv :: "addr \<Rightarrow> 'u csys \<Rightarrow> ('u csys \<times> int \<times> u32) option" where
  "post_recv c s = do {
     k \<leftarrow> con_at s c;
     (st, vs) \<leftarrow> recv_iovecs (bst (user s)) (c_mt k) (next_recv_buf k) (next_recv_pos k) BUFFER_SIZE [];
     let s1 = put_con (put_bst s st) c (k\<lparr>recv_used := True, wrecvbuf := vs\<rparr>);
     (s2, bytes, err) \<leftarrow> WSARecv s1 (c_socket k) (2 * c) True;
     s3 \<leftarrow> readv_data c bytes s2;
     Some (s3, bytes, err) }"

partial_function (option) RecvFinish_loop :: "'u handlers \<Rightarrow> addr \<Rightarrow> int \<Rightarrow> u32 \<Rightarrow> 'u csys \<Rightarrow> 'u csys option" where
  "RecvFinish_loop hs c bytestransfer err_code s = do {
     k \<leftarrow> con_at s c;
     if bytestransfer = 0 \<or> bytestransfer < 0 \<and> err_code \<noteq> EAGAIN
     then do {
       let s1 = put_con s c (k\<lparr>recv_used := False\<rparr>);
       if \<not> send_used k
       then do { _ \<leftarrow> assert_c (is_close k \<noteq> 1); on_disconnect hs c (-1) s1 }
       else Some s1 }
     else if bytestransfer < 0 then Some s
     else do {
       (st, k1) \<leftarrow> update_next_recv_pos (bst (user s)) k (word_of_int bytestransfer);
       s1 \<leftarrow> unpack hs c (put_con (put_bst s st) c (k1\<lparr>unpack_size := unpack_size k1 + word_of_int bytestransfer\<rparr>));
       (s2, bytes, err) \<leftarrow> post_recv c s1;
       RecvFinish_loop hs c bytes err s2 } }"

text \<open>The process exits when \<open>is_close\<close> is set, here \<open>None\<close>; nothing in the library sets it.\<close>

definition RecvFinish :: "'u handlers \<Rightarrow> addr \<Rightarrow> int \<Rightarrow> 'u csys \<Rightarrow> 'u csys option" where
  "RecvFinish hs c bytestransfer s = RecvFinish_loop hs c bytestransfer (io_err s (2 * c)) s"

section \<open>Sending\<close>

text \<open>The buffers of one packet, as long as there are free entries in \<open>wsendbuf\<close>.\<close>

partial_function (option) packet_iovecs ::
    "bstore \<Rightarrow> addr \<Rightarrow> u32 \<Rightarrow> u32 \<Rightarrow> iovec list \<Rightarrow> iovec list option" where
  [code]: "packet_iovecs st b pos buffer_size vs =
     (if length vs < MAX_WBAF \<and> b \<noteq> NULL \<and> buffer_size \<noteq> 0
      then do {
        d \<leftarrow> buf_at st b;
        let size = bsize d - pos;
        let size = (if size > buffer_size then buffer_size else size);
        packet_iovecs st (bnext d) 0 (buffer_size - size) (vs @ [\<lparr>iov_base = (b, pos), iov_len = size\<rparr>]) }
      else Some vs)"

fun send_iovecs :: "bstore \<Rightarrow> (wpacket \<times> nat) list \<Rightarrow> iovec list \<Rightarrow> iovec list option" where
  "send_iovecs st [] vs = Some vs"
| "send_iovecs st ((w, _) # ws) vs =
     (if length vs < MAX_WBAF
      then do { vs1 \<leftarrow> packet_iovecs st (wbuf w) (wbegin_pos w) (data_size w) vs; send_iovecs st ws vs1 }
      else Some vs)"

text \<open>The result says whether there is a request; the fields of the old one stay when there is none.\<close>

definition prepare_send :: "bstore \<Rightarrow> connection \<Rightarrow> (connection \<times> bool) option" where
  "prepare_send st k = do {
     vs \<leftarrow> send_iovecs st (send_list k) [];
     Some (if vs \<noteq> [] then (k\<lparr>wsendbuf := vs\<rparr>, True) else (k, False)) }"

partial_function (option) wpacket_sent :: "bstore \<Rightarrow> wpacket \<Rightarrow> u32 \<Rightarrow> (bstore \<times> wpacket) option" where
  [code]: "wpacket_sent st w bytestransfer =
     (if bytestransfer = 0 then Some (st, w)
      else do {
        b \<leftarrow> buf_at st (wbuf w);
        let size = bsize b - wbegin_pos w;
        let size = (if size > bytestransfer then bytestransfer else size);
        let w1 = w\<lparr>wbegin_pos := wbegin_pos w + size, data_size := data_size w - size\<rparr>;
        if wbegin_pos w1 \<ge> bsize b
        then do {
          (st1, nb) \<leftarrow> buffer_acquire st (wbuf w) (bnext b);
          wpacket_sent st1 (w1\<lparr>wbegin_pos := 0, wbuf := nb\<rparr>) (bytestransfer - size) }
        else wpacket_sent st w1 (bytestransfer - size) })"

partial_function (option) update_send_list :: "'u handlers \<Rightarrow> addr \<Rightarrow> u32 \<Rightarrow> 'u csys \<Rightarrow> 'u csys option" where
  "update_send_list hs c bytestransfer s =
     (if bytestransfer = 0 then Some s
      else do {
        k \<leftarrow> con_at s c;
        case send_list k of
          [] \<Rightarrow> None
        | (w, f) # ws \<Rightarrow>
            if bytestransfer \<ge> data_size w
            then do {
              let s1 = put_con s c (k\<lparr>send_list := ws\<rparr>);
              s2 \<leftarrow> (if f \<noteq> 0 then packet_send_finish hs f c w s1
                    else map_option (put_bst s1) (wpacket_destroy (bst (user s1)) w));
              update_send_list hs c (bytestransfer - data_size w)
                (upd_user s2 (\<lambda>u. u\<lparr>packet_send := packet_send u + 1\<rparr>)) }
            else do {
              (st1, w1) \<leftarrow> wpacket_sent (bst (user s)) w bytestransfer;
              Some (put_con (put_bst s st1) c (k\<lparr>send_list := (w1, f) # ws\<rparr>)) } })"

text \<open>The bytes that the system call takes from the described places.\<close>

fun gather :: "bstore \<Rightarrow> iovec list \<Rightarrow> byte list option" where
  "gather st [] = Some []"
| "gather st (v # vs) = do {
     xs \<leftarrow> memcpy_from st (fst (iov_base v)) (snd (iov_base v)) (iov_len v);
     ys \<leftarrow> gather st vs;
     Some (xs @ ys) }"

definition writev_data :: "addr \<Rightarrow> int \<Rightarrow> 'u csys \<Rightarrow> 'u csys option" where
  "writev_data c bytes s = do {
     k \<leftarrow> con_at s c;
     if bytes \<le> 0 then Some s
     else do {
       xs \<leftarrow> gather (bst (user s)) (wsendbuf k);
       _ \<leftarrow> assert_c (nat bytes \<le> length xs);
       Some (upd_user s (\<lambda>u. u\<lparr>wire_out := (wire_out u)(c := wire_out u c @ take (nat bytes) xs)\<rparr>)) } }"

text \<open>\<open>WSASend\<close> asserts that it is given a request.\<close>

definition post_send :: "addr \<Rightarrow> bool \<Rightarrow> 'u csys \<Rightarrow> ('u csys \<times> int \<times> u32) option" where
  "post_send c now s = do {
     k \<leftarrow> con_at s c;
     (s1, bytes, err) \<leftarrow> WSASend s (c_socket k) (2 * c + 1) now;
     s2 \<leftarrow> writev_data c bytes s1;
     Some (s2, bytes, err) }"

definition connection_push_packet :: "addr \<Rightarrow> (wpacket \<times> nat) option \<Rightarrow> 'u csys \<Rightarrow> 'u csys option" where
  "connection_push_packet c w s = do {
     k \<leftarrow> con_at s c;
     Some (case w of None \<Rightarrow> s | Some p \<Rightarrow> put_con s c (k\<lparr>send_list := send_list k @ [p]\<rparr>)) }"

text \<open>
  When a request is under way the function ends without a \<open>return\<close>; the unspecified value is \<open>None\<close>
  in the second component.
\<close>

definition connection_send :: "addr \<Rightarrow> (wpacket \<times> nat) option \<Rightarrow> 'u csys \<Rightarrow> ('u csys \<times> int option) option" where
  "connection_send c w s = do {
     s1 \<leftarrow> connection_push_packet c w s;
     k \<leftarrow> con_at s1 c;
     if \<not> send_used k
     then do {
       (k1, some_io) \<leftarrow> prepare_send (bst (user s1)) (k\<lparr>send_used := True\<rparr>);
       _ \<leftarrow> assert_c some_io;
       (s2, bytes, _) \<leftarrow> post_send c False (put_con s1 c k1);
       Some (s2, Some bytes) }
     else Some (s1, None) }"

partial_function (option) SendFinish_loop :: "'u handlers \<Rightarrow> addr \<Rightarrow> int \<Rightarrow> u32 \<Rightarrow> 'u csys \<Rightarrow> 'u csys option" where
  "SendFinish_loop hs c bytestransfer err_code s = do {
     k \<leftarrow> con_at s c;
     if bytestransfer = 0 \<or> bytestransfer < 0 \<and> err_code \<noteq> EAGAIN
     then do {
       let s1 = put_con s c (k\<lparr>send_used := False\<rparr>);
       if \<not> recv_used k
       then do { _ \<leftarrow> assert_c (is_close k \<noteq> 1); on_disconnect hs c (-1) s1 }
       else Some s1 }
     else if bytestransfer < 0 then Some s
     else do {
       s1 \<leftarrow> update_send_list hs c (word_of_int bytestransfer) s;
       k1 \<leftarrow> con_at s1 c;
       (k2, some_io) \<leftarrow> prepare_send (bst (user s1)) k1;
       if \<not> some_io then Some (put_con s1 c (k2\<lparr>send_used := False\<rparr>))
       else do {
         (s2, bytes, err) \<leftarrow> post_send c True (put_con s1 c k2);
         SendFinish_loop hs c bytes err s2 } } }"

definition SendFinish :: "'u handlers \<Rightarrow> addr \<Rightarrow> int \<Rightarrow> 'u csys \<Rightarrow> 'u csys option" where
  "SendFinish hs c bytestransfer s = SendFinish_loop hs c bytestransfer (io_err s (2 * c + 1)) s"

section \<open>Life cycle\<close>

text \<open>\<open>c\<close> is the address that \<open>calloc\<close> returns.\<close>

definition connection_create :: "addr \<Rightarrow> int \<Rightarrow> u8 \<Rightarrow> u8 \<Rightarrow> 'u csys \<Rightarrow> 'u csys" where
  "connection_create c h is_raw m s = put_con s c
     \<lparr>c_socket = h, wsendbuf = [], wrecvbuf = [], send_used = False, recv_used = False, unpack_size = 0, unpack_pos = 0,
      next_recv_pos = 0, next_recv_buf = NULL, unpack_buf = NULL, send_list = [], c_mt = m, c_raw = is_raw, is_close = 0\<rparr>"

fun destroy_packets :: "bstore \<Rightarrow> (wpacket \<times> nat) list \<Rightarrow> bstore option" where
  "destroy_packets st [] = Some st"
| "destroy_packets st ((w, _) # ws) = do { st1 \<leftarrow> wpacket_destroy st w; destroy_packets st1 ws }"

definition connection_destroy :: "addr \<Rightarrow> 'u csys \<Rightarrow> ('u csys \<times> int) option" where
  "connection_destroy c s = do {
     k \<leftarrow> con_at s c;
     if \<not> recv_used k \<and> \<not> send_used k
     then do {
       st1 \<leftarrow> destroy_packets (bst (user s)) (send_list k);
       st2 \<leftarrow> buffer_release st1 (unpack_buf k);
       st3 \<leftarrow> buffer_release st2 (next_recv_buf k);
       Some (upd_user s (\<lambda>u. u\<lparr>bst := st3, conns := (conns u)(c := None)\<rparr>), 0) }
     else Some (s, -1) }"

definition connection_start_recv :: "addr \<Rightarrow> 'u csys \<Rightarrow> ('u csys \<times> int) option" where
  "connection_start_recv c s = do {
     k \<leftarrow> con_at s c;
     if unpack_buf k \<noteq> NULL then Some (s, -1)
     else do {
       (st1, ub) \<leftarrow> buffer_create_and_acquire (bst (user s)) (c_mt k) NULL BUFFER_SIZE;
       (st2, nb) \<leftarrow> buffer_acquire st1 NULL ub;
       _ \<leftarrow> buf_at st2 nb;
       let k1 = k\<lparr>unpack_buf := ub, next_recv_buf := nb, next_recv_pos := 0, unpack_pos := 0, unpack_size := 0,
         wrecvbuf := [\<lparr>iov_base = (nb, 0), iov_len = BUFFER_SIZE\<rparr>], recv_used := True\<rparr>;
       (s2, bytes, _) \<leftarrow> WSARecv (put_con (put_bst s st2) c k1) (c_socket k) (2 * c) False;
       Some (s2, bytes) } }"

definition connection_active_close :: "'u handlers \<Rightarrow> addr \<Rightarrow> 'u csys \<Rightarrow> 'u csys option" where
  "connection_active_close hs c s = do {
     k \<leftarrow> con_at s c;
     let (s1, _) = CloseSocket s (c_socket k);
     k1 \<leftarrow> con_at s1 c;
     on_disconnect hs c (-2) (put_con s1 c (k1\<lparr>recv_used := False, send_used := False\<rparr>)) }"

text \<open>The callback of the reactor for the requests of connections, after the system call.\<close>

definition conn_callback :: "'u handlers \<Rightarrow> 'u cworld callback" where
  "conn_callback hs h rd bytes io s =
     (if rd then do { s1 \<leftarrow> readv_data (io div 2) bytes s; RecvFinish hs (io div 2) bytes s1 }
      else do { s1 \<leftarrow> writev_data (io div 2) bytes s; SendFinish hs (io div 2) bytes s1 })"

end
