(* ===== verification/Receive.thy ===== *)
theory Receive
  imports Connection
begin

text \<open>
  The receiving side of a connection: the stream invariant \<open>rx\<close>, what each step of \<open>RecvFinish\<close> does
  to the bytes received and not yet handed on, and the reference function \<open>frames\<close> that cuts a byte
  stream into packets.
\<close>

section \<open>Growing stores\<close>

text \<open>
  A store extends another: buffers may be freed and refilled at their end, and chains may get longer;
  what a live reference could read stays readable.
\<close>

definition ext :: "bstore \<Rightarrow> bstore \<Rightarrow> bool" where
  "ext st st' \<longleftrightarrow> fresh st \<le> fresh st' \<and>
     (\<forall>a c'. a < fresh st \<longrightarrow> cells st' a = Some c' \<longrightarrow> (\<exists>c. cells st a = Some c \<and> bsize c \<le> bsize c')) \<and>
     (\<forall>a us. a < fresh st \<longrightarrow> cells st' a \<noteq> None \<longrightarrow> chain (bnexts st) a us NULL \<longrightarrow>
        (\<exists>vs x. chain (bnexts st') a (us @ vs) NULL \<and> contents st' (us @ vs) = contents st us @ x))"

lemma extD:
  assumes "ext st st'" "a < fresh st" "cells st' a = Some c'"
  shows "\<exists>c. cells st a = Some c \<and> bsize c \<le> bsize c'"
    "chain (bnexts st) a us NULL \<Longrightarrow> \<exists>vs x. chain (bnexts st') a (us @ vs) NULL \<and> contents st' (us @ vs) = contents st us @ x"
  using assms unfolding ext_def by (blast, fastforce)

lemma ext_refl [simp]: "ext st st"
  unfolding ext_def by (metis append_Nil2 order_refl)

lemma ext_trans:
  assumes 1: "ext st1 st2" and 2: "ext st2 st3"
  shows "ext st1 st3"
proof -
  have f: "fresh st1 \<le> fresh st2" "fresh st2 \<le> fresh st3" using 1 2 by (auto simp: ext_def)
  have "\<exists>c. cells st1 a = Some c \<and> bsize c \<le> bsize c3" if "a < fresh st1" "cells st3 a = Some c3" for a c3
    using extD(1) [OF 2 _ that(2)] extD(1) [OF 1 that(1)] that(1) f(1) by fastforce
  moreover have "\<exists>vs x. chain (bnexts st3) a (us @ vs) NULL \<and> contents st3 (us @ vs) = contents st1 us @ x"
    if a: "a < fresh st1" "cells st3 a \<noteq> None" and ch: "chain (bnexts st1) a us NULL" for a us
  proof -
    obtain c3 where c3: "cells st3 a = Some c3" using a(2) by blast
    have a2: "a < fresh st2" using a(1) f(1) by simp
    obtain c2 where c2: "cells st2 a = Some c2" using extD(1) [OF 2 a2 c3] by blast
    obtain vs x where v: "chain (bnexts st2) a (us @ vs) NULL" "contents st2 (us @ vs) = contents st1 us @ x"
      using extD(2) [OF 1 a(1) c2 ch] by blast
    obtain ws y where "chain (bnexts st3) a ((us @ vs) @ ws) NULL" "contents st3 ((us @ vs) @ ws) = contents st2 (us @ vs) @ y"
      using extD(2) [OF 2 a2 c3 v(1)] by blast
    with v(2) show ?thesis by (intro exI [of _ "vs @ ws"] exI [of _ "x @ y"]) simp
  qed
  ultimately show ?thesis using f unfolding ext_def by (meson order_trans)
qed

lemma same_bytes_live:
  assumes "rc_inv st' R" "same_bytes st st'" "cells st' a = Some c" "chain (bnexts st) a us NULL"
  shows "chain (bnexts st') a us NULL" "contents st' us = contents st us"
proof -
  obtain vs where vs: "chain (bnexts st') a vs NULL" using rc_invD(7) [OF assms(1,3)] by blast
  then have "vs = us" using chain_functional [OF same_bytes_chain [OF assms(2) vs] assms(4)] by simp
  with vs same_bytes_contents [OF assms(2)] show "chain (bnexts st') a us NULL" "contents st' us = contents st us" by auto
qed

lemma ext_same_bytes:
  assumes "rc_inv st' R" "same_bytes st st'" "fresh st' = fresh st"
  shows "ext st st'"
proof -
  have "\<exists>c. cells st a = Some c \<and> bsize c \<le> bsize c'" if "cells st' a = Some c'" for a c'
    using same_bytes_cell [OF assms(2) that] by fastforce
  moreover have "\<exists>vs x. chain (bnexts st') a (us @ vs) NULL \<and> contents st' (us @ vs) = contents st us @ x"
    if "cells st' a \<noteq> None" "chain (bnexts st) a us NULL" for a us
    using same_bytes_live [OF assms(1,2)] that by (intro exI [of _ "[]"]) auto
  ultimately show ?thesis using assms(3) by (simp add: ext_def)
qed

text \<open>Filling a buffer behind which there is nothing yet, or writing behind its end.\<close>

lemma ext_put:
  assumes b: "cells st a = Some b" "bnext b' = bnext b" "bsize b \<le> bsize b'"
    and x: "bytes_of b' = bytes_of b @ x" "x = [] \<or> chain (bnexts st) (bnext b) cs NULL \<and> contents st cs = []"
  shows "ext st (put_buf st a b')"
proof -
  let ?s = "put_buf st a b'"
  have nx: "bnexts ?s = bnexts st" by (rule bnexts_put_same [OF b(1,2)])
  have frame: "contents ?s us = contents st us" if "a \<notin> set us" for us
    using that by (auto simp: contents_def intro!: arg_cong [of _ _ concat])
  have "\<exists>y. contents ?s us = contents st us @ y" if ch: "chain (bnexts st) p us NULL" for p us
  proof (cases "a \<in> set us")
    case True
    then obtain xs ys where us: "us = xs @ a # ys" by (auto simp: in_set_conv_decomp)
    then have "a \<notin> set xs" "a \<notin> set ys" using chain_distinct [OF ch] by auto
    then have c: "contents ?s us = contents st xs @ bytes_of b @ x @ contents st ys"
      using frame x(1) by (simp add: us contents_Cons)
    have "chain (bnexts st) (bnext b) ys NULL"
      using ch us b(1) by (auto simp: chain_append bnexts_at)
    then have "x = [] \<or> contents st ys = []" using x(2) chain_functional by blast
    then show ?thesis using c b(1) by (auto simp: us contents_Cons)
  next
    case False
    then show ?thesis using frame by simp
  qed
  then have "\<exists>vs y. chain (bnexts ?s) p (us @ vs) NULL \<and> contents ?s (us @ vs) = contents st us @ y"
    if "chain (bnexts st) p us NULL" for p us
    using that nx by (metis append_Nil2)
  moreover have "fresh ?s = fresh st" by (simp add: put_buf_def set_cell_def)
  ultimately show ?thesis using b(1,3) unfolding ext_def by auto
qed

text \<open>Appending a new buffer to a chain.\<close>

definition linked :: "bstore \<Rightarrow> u8 \<Rightarrow> addr \<Rightarrow> buffer \<Rightarrow> bstore" where
  "linked st m a b = put_buf (grown st m BUFFER_SIZE) a (b\<lparr>bnext := fresh st\<rparr>)"

lemma linked_cells:
  "cells (linked st m a b) = (cells st)(fresh st \<mapsto> new_buffer m BUFFER_SIZE, a \<mapsto> b\<lparr>bnext := fresh st\<rparr>)"
  "fresh (linked st m a b) = Suc (fresh st)" "quota (linked st m a b) = quota st - 1"
  by (simp_all add: linked_def grown_def put_buf_def set_cell_def)

lemma linked_run:
  assumes inv: "rc_inv st R" and b: "cells st a = Some b" and q: "0 < quota st"
  shows "buffer_create_and_acquire st m NULL BUFFER_SIZE = Some (grown st m BUFFER_SIZE, fresh st)"
    "set_next (grown st m BUFFER_SIZE) a (fresh st) = Some (linked st m a b)"
proof -
  have "a \<noteq> fresh st" "a \<noteq> NULL" using rc_invD(9) [OF inv b] by auto
  then show "set_next (grown st m BUFFER_SIZE) a (fresh st) = Some (linked st m a b)"
    using b by (simp add: set_next_def buf_at_def grown_def linked_def)
  show "buffer_create_and_acquire st m NULL BUFFER_SIZE = Some (grown st m BUFFER_SIZE, fresh st)"
    using buffer_create_and_acquire_eq [OF rc_invD(3) [OF inv]] q by simp
qed

lemma linked_law:
  assumes inv: "rc_inv st R" and b: "cells st a = Some b" "bnext b = NULL"
  shows "rc_inv (linked st m a b) R" "ext st (linked st m a b)"
proof -
  let ?g = "grown st m BUFFER_SIZE" and ?s = "linked st m a b" and ?f = "fresh st"
  have a: "a \<noteq> ?f" "a \<noteq> NULL" "?f \<noteq> NULL" using rc_invD(9) [OF inv b(1)] rc_invD(3) [OF inv] by auto
  have g: "rc_inv ?g (add_mset ?f R)" by (rule grown_inv [OF inv])
  have ch: "chain (bnexts ?g) ?f [?f] NULL" using a(3) by (simp add: bnexts_def grown_def new_buffer_def)
  show rs: "rc_inv ?s R" unfolding linked_def
    by (rule rc_inv_link [OF g _ b(2) ch]) (use a b in \<open>auto simp: grown_def\<close>)
  have nx: "bnexts ?s = (bnexts st)(?f \<mapsto> NULL, a \<mapsto> ?f)"
    by (auto simp: bnexts_def linked_cells new_buffer_def fun_eq_iff)
  have fr: "?f \<notin> set us" if "chain (bnexts st) p us NULL" for p us
    using chain_dom [OF that] rc_invD(4) [OF inv] by (fastforce simp: bnexts_def)
  have ct: "contents ?s us = contents st us" if "?f \<notin> set us" for us
  proof -
    have "(case cells ?s u of None \<Rightarrow> [] | Some c \<Rightarrow> bytes_of c) = (case cells st u of None \<Rightarrow> [] | Some c \<Rightarrow> bytes_of c)"
      if "u \<in> set us" for u
      using that \<open>?f \<notin> set us\<close> b(1) by (auto simp: linked_cells bytes_of_def)
    then show ?thesis by (simp add: contents_def cong: map_cong)
  qed
  have "\<exists>vs x. chain (bnexts ?s) p (us @ vs) NULL \<and> contents ?s (us @ vs) = contents st us @ x"
    if ch: "chain (bnexts st) p us NULL" for p us
  proof (cases "a \<in> set us")
    case True
    then have "us \<noteq> []" by auto
    moreover have "last us = a"
    proof -
      obtain xs ys where us: "us = xs @ a # ys" using True by (auto simp: in_set_conv_decomp)
      then have "chain (bnexts st) NULL ys NULL" using ch b by (auto simp: chain_append bnexts_at)
      then show ?thesis using us by simp
    qed
    ultimately have "chain ((bnexts st)(a \<mapsto> ?f)) p us ?f" using chain_redirect_last [OF ch] by metis
    then have "chain (bnexts ?s) p us ?f" unfolding nx using fr [OF ch] a(1)
      by (subst fun_upd_twist) (auto simp del: fun_upd_apply)
    then have "chain (bnexts ?s) p (us @ [?f]) NULL" using a by (auto simp: chain_append nx)
    moreover have "contents ?s (us @ [?f]) = contents st us @ []"
      using ct [OF fr [OF ch]] a(1) by (simp add: contents_Cons linked_cells new_buffer_def bytes_of_def)
    ultimately show ?thesis by blast
  next
    case False
    then have "chain (bnexts ?s) p (us @ []) NULL" unfolding nx using ch fr [OF ch] by simp
    moreover have "contents ?s (us @ []) = contents st us @ []" using ct [OF fr [OF ch]] by simp
    ultimately show ?thesis by blast
  qed
  moreover have "\<exists>c. cells st x = Some c \<and> bsize c \<le> bsize c'" if "x < ?f" "cells ?s x = Some c'" for x c'
    using that b(1) by (auto simp: linked_cells split: if_splits)
  ultimately show "ext st ?s" unfolding ext_def linked_cells(2) by (simp add: le_SucI)
qed

section \<open>The stream invariant\<close>

definition block :: "bstore \<Rightarrow> addr \<Rightarrow> u32 \<Rightarrow> bool" where
  "block st a n \<longleftrightarrow> (\<exists>b. cells st a = Some b \<and> capacity b = BUFFER_SIZE \<and> bsize b = n)"

text \<open>
  The bytes \<open>p\<close> received and not yet unpacked: they start at \<open>unpack_pos\<close> in the first of the full
  blocks \<open>as\<close> (or in the one being filled) and end at \<open>next_recv_pos\<close> in \<open>next_recv_buf\<close>; at most
  one empty block \<open>cs\<close> is linked behind it.
\<close>

definition rx :: "bstore \<Rightarrow> connection \<Rightarrow> addr list \<Rightarrow> addr list \<Rightarrow> byte list \<Rightarrow> bool" where
  "rx st k as cs p \<longleftrightarrow>
     chain (bnexts st) (unpack_buf k) (as @ next_recv_buf k # cs) NULL \<and>
     (\<forall>a \<in> set as. block st a BUFFER_SIZE) \<and>
     block st (next_recv_buf k) (next_recv_pos k) \<and> next_recv_pos k < BUFFER_SIZE \<and>
     (\<forall>a \<in> set cs. block st a 0) \<and> length cs \<le> 1 \<and>
     (if as = [] then unpack_pos k \<le> next_recv_pos k else unpack_pos k < BUFFER_SIZE) \<and>
     p = drop (unat (unpack_pos k)) (contents st (as @ [next_recv_buf k]))"

definition rx_roots :: "connection \<Rightarrow> addr multiset" where
  "rx_roots k = {#unpack_buf k, next_recv_buf k#}"

lemma rxD:
  assumes "rx st k as cs p"
  shows "chain (bnexts st) (unpack_buf k) (as @ next_recv_buf k # cs) NULL"
    "a \<in> set as \<Longrightarrow> block st a BUFFER_SIZE" "block st (next_recv_buf k) (next_recv_pos k)" "next_recv_pos k < BUFFER_SIZE"
    "a \<in> set cs \<Longrightarrow> block st a 0" "length cs \<le> 1"
    "as = [] \<Longrightarrow> unpack_pos k \<le> next_recv_pos k" "as \<noteq> [] \<Longrightarrow> unpack_pos k < BUFFER_SIZE"
    "p = drop (unat (unpack_pos k)) (contents st (as @ [next_recv_buf k]))"
  using assms unfolding rx_def by (auto split: if_splits)

lemma rx_start: "rx st k as cs p \<Longrightarrow> as = [] \<Longrightarrow> unpack_buf k = next_recv_buf k"
  by (auto simp: rx_def)

lemma rx_chain_next: "rx st k as cs p \<Longrightarrow> \<exists>b. cells st (next_recv_buf k) = Some b \<and> capacity b = BUFFER_SIZE \<and>
    bsize b = next_recv_pos k \<and> chain (bnexts st) (bnext b) cs NULL \<and> next_recv_buf k \<noteq> NULL"
  unfolding rx_def block_def by (auto simp: chain_append bnexts_at)

lemma contents_empty_blocks: "\<forall>a \<in> set cs. block st a 0 \<Longrightarrow> contents st cs = []"
  by (auto simp: contents_def block_def bytes_of_def)

lemma rx_contents: "rx st k as cs p \<Longrightarrow> contents st (as @ next_recv_buf k # cs) = contents st (as @ [next_recv_buf k])"
  using contents_empty_blocks [of cs st] rxD(5) [of st k as cs p] by (simp add: contents_Cons)

lemma length_block: "rc_inv st R \<Longrightarrow> block st a n \<Longrightarrow> length (contents st [a]) = unat n"
  using rc_invD(6) length_bytes_of by (fastforce simp: block_def contents_Cons)

text \<open>The invariant survives a change of counts that leaves the first buffer alive.\<close>

lemma block_same_bytes:
  assumes "same_bytes st st'" "cells st' a \<noteq> None" "block st a n"
  shows "block st' a n"
  using assms same_bytes_cell [OF assms(1)] by (fastforce simp: block_def)

lemma rx_same_bytes:
  assumes rx: "rx st k as cs p" and inv: "rc_inv st' R" and sb: "same_bytes st st'" and a: "cells st' (unpack_buf k) \<noteq> None"
  shows "rx st' k as cs p"
proof -
  obtain c where c: "cells st' (unpack_buf k) = Some c" using a by blast
  have ch: "chain (bnexts st') (unpack_buf k) (as @ next_recv_buf k # cs) NULL"
    by (rule same_bytes_live(1) [OF inv sb c rxD(1) [OF rx]])
  have live: "cells st' x \<noteq> None" if "x \<in> set (as @ next_recv_buf k # cs)" for x
    using chain_dom [OF ch that] by (auto simp: bnexts_def)
  have bl: "block st' x n" if "x \<in> set (as @ next_recv_buf k # cs)" "block st x n" for x n
    by (rule block_same_bytes [OF sb live [OF that(1)] that(2)])
  have ct: "contents st' (as @ [next_recv_buf k]) = contents st (as @ [next_recv_buf k])"
  proof -
    have "(case cells st' u of None \<Rightarrow> [] | Some c \<Rightarrow> bytes_of c) = (case cells st u of None \<Rightarrow> [] | Some c \<Rightarrow> bytes_of c)"
      if "u \<in> set (as @ [next_recv_buf k])" for u
      using live [of u] that same_bytes_cell [OF sb, of u] by (fastforce simp: bytes_of_def)
    then show ?thesis by (auto simp: contents_def cong: map_cong)
  qed
  show ?thesis using rx ch bl ct unfolding rx_def by auto
qed

lemma length_blocks:
  "rc_inv st R \<Longrightarrow> \<forall>a \<in> set as. block st a BUFFER_SIZE \<Longrightarrow> length (contents st as) = length as * 65536"
proof (induction as)
  case Nil
  then show ?case by simp
next
  case (Cons a as)
  then show ?case using length_block [of st R a BUFFER_SIZE] contents_simps(2) [of st "[a]" as] by simp
qed

lemma rx_length:
  assumes "rx st k as cs p" "rc_inv st R"
  shows "length (contents st (as @ [next_recv_buf k])) = length as * 65536 + unat (next_recv_pos k)"
    "unat (unpack_pos k) \<le> length (contents st (as @ [next_recv_buf k]))"
proof -
  show l: "length (contents st (as @ [next_recv_buf k])) = length as * 65536 + unat (next_recv_pos k)"
    using length_blocks [OF assms(2), of as] length_block [OF assms(2) rxD(3) [OF assms(1)]] rxD(2) [OF assms(1)] by simp
  show "unat (unpack_pos k) \<le> length (contents st (as @ [next_recv_buf k]))"
  proof (cases "as = []")
    case True
    then show ?thesis using rxD(7) [OF assms(1)] l by (simp add: word_le_nat_alt)
  next
    case False
    then have "unat (unpack_pos k) < 65536" using rxD(8) [OF assms(1)] by (simp add: word_less_nat_alt)
    moreover have "65536 \<le> length as * 65536" using False by (cases as) auto
    ultimately show ?thesis using l by linarith
  qed
qed

lemma contents_frame: "a \<notin> set us \<Longrightarrow> contents (put_buf st a b) us = contents st us"
  by (auto simp: contents_def intro!: arg_cong [of _ _ concat])

text \<open>Bytes that the system call has put behind the end of the block being filled become part of it.\<close>

lemma recv_grow:
  assumes rx: "rx st k as cs p" and inv: "rc_inv st R" and b: "cells st (next_recv_buf k) = Some b"
    and n: "unat (next_recv_pos k) + unat n \<le> 65536"
  defines "d \<equiv> take (unat n) (drop (unat (next_recv_pos k)) (bbuf b))"
    and "st1 \<equiv> put_buf st (next_recv_buf k) (b\<lparr>bsize := bsize b + n\<rparr>)"
  shows "set_size st (next_recv_buf k) (bsize b + n) = Some st1" "rc_inv st1 R" "ext st st1"
    "contents st1 (as @ [next_recv_buf k]) = contents st (as @ [next_recv_buf k]) @ d"
    "unat (next_recv_pos k + n) = unat (next_recv_pos k) + unat n"
    "bsize b + n = next_recv_pos k + n" "bnexts st1 = bnexts st"
proof -
  let ?nb = "next_recv_buf k" and ?b' = "b\<lparr>bsize := bsize b + n\<rparr>"
  have bb: "capacity b = BUFFER_SIZE" "bsize b = next_recv_pos k" "?nb \<noteq> NULL" "chain (bnexts st) (bnext b) cs NULL"
    using rx_chain_next [OF rx] b by auto
  have ok: "buf_ok b" by (rule rc_invD(6) [OF inv b])
  show sum: "unat (next_recv_pos k + n) = unat (next_recv_pos k) + unat n"
    using n by (intro unat_add_le [where c=BUFFER_SIZE]) simp
  have ok': "buf_ok ?b'" using ok sum n bb by (simp add: buf_ok_def word_le_nat_alt)
  show "set_size st ?nb (bsize b + n) = Some st1" using b bb(3) by (simp add: set_size_def buf_at_def st1_def)
  show "rc_inv st1 R" unfolding st1_def using ok' rc_invD(8) [OF inv b] by (intro rc_inv_put [OF inv b]) auto
  have by': "bytes_of ?b' = bytes_of b @ d" using sum bb(2) by (simp add: bytes_of_def d_def take_add)
  have e: "contents st cs = []" using contents_empty_blocks rxD(5) [OF rx] by blast
  have le: "bsize b \<le> bsize ?b'" using sum bb(2) by (simp add: word_le_nat_alt)
  show "ext st st1" unfolding st1_def by (rule ext_put [OF b _ le by', of cs]) (use bb e in auto)
  have "?nb \<notin> set as" using chain_distinct [OF rxD(1) [OF rx]] by simp
  then show "contents st1 (as @ [?nb]) = contents st (as @ [?nb]) @ d"
    using contents_frame by' b by (simp add: st1_def contents_Cons)
  show "bsize b + n = next_recv_pos k + n" using bb by simp
  show "bnexts st1 = bnexts st" unfolding st1_def by (rule bnexts_put_same [OF b]) simp
qed

lemma block_put:
  "cells st a = Some b \<Longrightarrow> capacity b' = capacity b \<Longrightarrow> block (put_buf st a b') x n \<longleftrightarrow>
     (if x = a then capacity b = BUFFER_SIZE \<and> bsize b' = n else block st x n)"
  by (auto simp: block_def)

lemma rx_grow:
  assumes rx: "rx st k as cs p" and inv: "rc_inv st R" and b: "cells st (next_recv_buf k) = Some b"
    and n: "unat (next_recv_pos k) + unat n < 65536"
  shows "rx (put_buf st (next_recv_buf k) (b\<lparr>bsize := bsize b + n\<rparr>)) (k\<lparr>next_recv_pos := next_recv_pos k + n\<rparr>) as cs
    (p @ take (unat n) (drop (unat (next_recv_pos k)) (bbuf b)))"
proof -
  let ?nb = "next_recv_buf k"
  let ?s = "put_buf st ?nb (b\<lparr>bsize := bsize b + n\<rparr>)"
  note g = recv_grow [OF rx inv b less_imp_le [OF n]]
  have d: "?nb \<notin> set as" "?nb \<notin> set cs" using chain_distinct [OF rxD(1) [OF rx]] by auto
  have cap: "capacity b = BUFFER_SIZE" using rx_chain_next [OF rx] b by auto
  have bl: "block ?s a m \<longleftrightarrow> (if a = ?nb then next_recv_pos k + n = m else block st a m)" for a m
    using b cap g(6) by (simp add: block_put)
  have up: "unpack_pos k \<le> next_recv_pos k \<Longrightarrow> unpack_pos k \<le> next_recv_pos k + n"
    using g(5) by (simp add: word_le_nat_alt)
  have lt: "next_recv_pos k + n < BUFFER_SIZE" using g(5) n by (simp add: word_less_nat_alt)
  have pd: "p @ take (unat n) (drop (unat (next_recv_pos k)) (bbuf b)) = drop (unat (unpack_pos k)) (contents ?s (as @ [?nb]))"
    unfolding g(4) rxD(9) [OF rx] using rx_length(2) [OF rx inv] by (simp del: contents_simps)
  show ?thesis
    unfolding rx_def pd g(7) using rx d bl up lt by (auto simp: rx_def simp del: contents_simps)
qed

text \<open>
  The block behind the one being filled: a new one if there is none. \<open>spare\<close> counts the blocks that
  are or can be allocated.
\<close>

definition spare :: "bstore \<Rightarrow> addr list \<Rightarrow> nat" where
  "spare st cs = quota st + length cs"

definition buf_bytes :: "bstore \<Rightarrow> addr \<Rightarrow> byte list" where
  "buf_bytes st a = (case cells st a of None \<Rightarrow> [] | Some b \<Rightarrow> bbuf b)"

definition keeps :: "bstore \<Rightarrow> bstore \<Rightarrow> bool" where
  "keeps st st' \<longleftrightarrow> (\<forall>a c. cells st a = Some c \<longrightarrow> (\<exists>c'. cells st' a = Some c' \<and> capacity c' = capacity c \<and>
     bsize c' = bsize c \<and> bbuf c' = bbuf c))"

lemma keeps_refl [simp]: "keeps st st"
  by (simp add: keeps_def)

lemma keepsD:
  assumes "keeps st st'"
  shows "block st a n \<Longrightarrow> block st' a n" "cells st a \<noteq> None \<Longrightarrow> buf_bytes st' a = buf_bytes st a"
    "\<forall>u \<in> set us. cells st u \<noteq> None \<Longrightarrow> contents st' us = contents st us"
proof -
  show "block st a n \<Longrightarrow> block st' a n" "cells st a \<noteq> None \<Longrightarrow> buf_bytes st' a = buf_bytes st a"
    using assms by (fastforce simp: keeps_def block_def, fastforce simp: keeps_def buf_bytes_def)
  assume u: "\<forall>u \<in> set us. cells st u \<noteq> None"
  have "(case cells st' u of None \<Rightarrow> [] | Some c \<Rightarrow> bytes_of c) = (case cells st u of None \<Rightarrow> [] | Some c \<Rightarrow> bytes_of c)"
    if "u \<in> set us" for u
    using that u assms by (fastforce simp: keeps_def bytes_of_def)
  then show "contents st' us = contents st us" by (auto simp: contents_def cong: map_cong)
qed

lemma linked_keeps: "cells st a = Some b \<Longrightarrow> rc_inv st R \<Longrightarrow> keeps st (linked st m a b)"
  using rc_invD(4) by (auto simp: keeps_def linked_cells)

lemma next_ready:
  assumes inv: "rc_inv st Q" and few: "few_refs st (n + quota st)"
    and b: "cells st a = Some b" "chain (bnexts st) (bnext b) cs NULL" "\<forall>x \<in> set cs. block st x 0" "length cs \<le> 1"
    and q: "0 < spare st cs" and ub: "chain (bnexts st) u (as @ a # cs) NULL"
  shows "\<exists>st1 nb b1. (if bnext b = NULL
      then do { (st', x) \<leftarrow> buffer_create_and_acquire st m NULL BUFFER_SIZE; set_next st' a x } else Some st) = Some st1 \<and>
    rc_inv st1 Q \<and> ext st st1 \<and> keeps st st1 \<and> cells st1 a = Some b1 \<and> bnext b1 = nb \<and>
    chain (bnexts st1) u (as @ a # [nb]) NULL \<and> block st1 nb 0 \<and> (cs \<noteq> [] \<longrightarrow> cs = [nb] \<and> st1 = st) \<and>
    quota st1 + 1 = spare st cs \<and> few_refs st1 (n + quota st1)"
proof (cases cs)
  case (Cons x xs)
  then have cs: "cs = [x]" using b(4) by simp
  then have "bnext b = x" "x \<noteq> NULL" using b(2) by auto
  then show ?thesis using assms cs by (intro exI [of _ st] exI [of _ x] exI [of _ b]) (simp add: spare_def)
next
  case Nil
  then have nx: "bnext b = NULL" and q0: "0 < quota st" using b(2) q by (auto simp: spare_def)
  let ?s = "linked st m a b" and ?f = "fresh st"
  have f: "a \<noteq> ?f" "?f \<noteq> NULL" "a \<noteq> NULL" "cells st ?f = None"
    using rc_invD(9) [OF inv b(1)] rc_invD(3,4) [OF inv] by auto
  have ch: "chain (bnexts ?s) u (as @ a # [?f]) NULL"
  proof -
    have e: "ext st ?s" by (rule linked_law(2) [OF inv b(1) nx])
    obtain c where c: "cells st u = Some c" using chain_dom [OF ub, of u] ub by (cases as) (auto simp: bnexts_def)
    obtain c' where c': "cells ?s u = Some c'" using linked_keeps [OF b(1) inv, of m] c by (fastforce simp: keeps_def)
    obtain vs where vs: "chain (bnexts ?s) u ((as @ [a]) @ vs) NULL"
      using extD(2) [OF e _ c', of "as @ [a]"] ub Nil rc_invD(9) [OF inv c] by auto
    then have "chain (bnexts ?s) ?f vs NULL" by (auto simp: chain_append bnexts_at linked_cells)
    moreover have "chain (bnexts ?s) ?f [?f] NULL" using f by (simp add: bnexts_def linked_cells new_buffer_def)
    ultimately have "vs = [?f]" using chain_functional by blast
    with vs show ?thesis by simp
  qed
  have "card (dom (cells ?s)) \<le> Suc (card (dom (cells st)))"
  proof -
    have "dom (cells ?s) = insert ?f (dom (cells st))" using b(1) by (auto simp: linked_cells)
    then show ?thesis using rc_invD(1) [OF inv] by (simp add: card_insert_if)
  qed
  then have "few_refs ?s (n + quota ?s)" using few q0 by (simp add: few_refs_def linked_cells)
  moreover have "block ?s ?f 0" using f by (simp add: block_def linked_cells new_buffer_def)
  moreover have "cells ?s a = Some (b\<lparr>bnext := ?f\<rparr>)" "bnext (b\<lparr>bnext := ?f\<rparr>) = ?f" by (simp_all add: linked_cells)
  moreover have "quota ?s + 1 = spare st cs" using q0 Nil by (simp add: linked_cells spare_def)
  ultimately show ?thesis
    using linked_law [OF inv b(1) nx, of m] linked_run [OF inv b(1) q0, of m] linked_keeps [OF b(1) inv] ch Nil nx by auto
qed

lemma few_refs_less: "few_refs st n \<Longrightarrow> m \<le> n \<Longrightarrow> few_refs st m"
  by (simp add: few_refs_def)

lemma chain_move_root:
  assumes "rc_inv st' Q" "same_bytes st st'" "chain (bnexts st) u us NULL" "cells st' u \<noteq> None"
  shows "chain (bnexts st') u us NULL" "\<And>x. x \<in> set us \<Longrightarrow> cells st' x \<noteq> None"
proof -
  show ch: "chain (bnexts st') u us NULL" using same_bytes_live(1) [OF assms(1,2) _ assms(3)] assms(4) by blast
  show "cells st' x \<noteq> None" if "x \<in> set us" for x using chain_dom [OF ch that] by (auto simp: bnexts_def)
qed

lemma same_bytes_buf:
  assumes "same_bytes st st'" "cells st' a \<noteq> None"
  shows "buf_bytes st' a = buf_bytes st a"
proof -
  obtain c' where c': "cells st' a = Some c'" using assms(2) by blast
  then obtain c where c: "cells st a = Some c" "c' = c\<lparr>refcount := refcount c'\<rparr>" using assms(1) by (auto simp: same_bytes_def)
  have "bbuf c' = bbuf c" by (subst c(2)) simp
  with c c' show ?thesis by (simp add: buf_bytes_def)
qed

lemma contents_live:
  assumes "same_bytes st st'" "\<And>u. u \<in> set us \<Longrightarrow> cells st' u \<noteq> None"
  shows "contents st' us = contents st us"
proof -
  have "(case cells st' u of None \<Rightarrow> [] | Some c \<Rightarrow> bytes_of c) = (case cells st u of None \<Rightarrow> [] | Some c \<Rightarrow> bytes_of c)"
    if "u \<in> set us" for u
    using assms(2) [OF that] same_bytes_cell [OF assms(1), of u] by (fastforce simp: bytes_of_def)
  then show ?thesis by (auto simp: contents_def cong: map_cong)
qed

lemma next_block:
  assumes inv: "rc_inv st (rx_roots k + R)" and few: "few_refs st (N + quota st)" "size R + 2 \<le> N"
    and b: "cells st (next_recv_buf k) = Some b" "chain (bnexts st) (bnext b) cs NULL" "\<forall>a \<in> set cs. block st a 0"
      "length cs \<le> 1" and q: "0 < spare st cs"
    and ub: "chain (bnexts st) (unpack_buf k) (as @ next_recv_buf k # cs) NULL"
  shows "\<exists>st' nb. recv_next_buf st k = Some (st', k\<lparr>next_recv_buf := nb, next_recv_pos := 0\<rparr>) \<and>
    rc_inv st' (rx_roots (k\<lparr>next_recv_buf := nb\<rparr>) + R) \<and> ext st st' \<and>
    chain (bnexts st') (unpack_buf k) (as @ next_recv_buf k # [nb]) NULL \<and> block st' nb 0 \<and>
    (cs \<noteq> [] \<longrightarrow> cs = [nb] \<and> buf_bytes st' nb = buf_bytes st nb) \<and>
    (\<forall>a \<in> set as \<union> {next_recv_buf k}. \<forall>n. block st a n \<longrightarrow> block st' a n) \<and>
    contents st' (as @ [next_recv_buf k]) = contents st (as @ [next_recv_buf k]) \<and>
    spare st' [] + 1 = spare st cs \<and> few_refs st' (N + quota st')"
proof -
  let ?nb = "next_recv_buf k"
  obtain st1 nb b1 where s1: "(if bnext b = NULL
      then do { (st', x) \<leftarrow> buffer_create_and_acquire st (c_mt k) NULL BUFFER_SIZE; set_next st' ?nb x } else Some st) = Some st1"
    "rc_inv st1 (rx_roots k + R)" "ext st st1" "keeps st st1" "cells st1 ?nb = Some b1" "bnext b1 = nb"
    "chain (bnexts st1) (unpack_buf k) (as @ ?nb # [nb]) NULL" "block st1 nb 0" "cs \<noteq> [] \<longrightarrow> cs = [nb] \<and> st1 = st"
    "quota st1 + 1 = spare st cs" "few_refs st1 (N + quota st1)"
    using next_ready [OF inv few(1) b q ub] by blast
  have nz: "?nb \<noteq> NULL" using rc_invD(9) [OF inv b(1)] by simp
  obtain c where c: "cells st1 nb = Some c" using s1(8) by (auto simp: block_def)
  have "refcount c < INT32_MAX" using few_refs_refcount [OF s1(2,11) c] few(2) by (simp add: rx_roots_def)
  moreover have "rc_inv st1 (add_mset ?nb (add_mset (unpack_buf k) R))" using s1(2) by (simp add: rx_roots_def add_mset_commute)
  ultimately obtain st2 where s2: "buffer_acquire st1 ?nb nb = Some (st2, nb)" "rc_inv st2 (add_mset nb (add_mset (unpack_buf k) R))"
    "same_bytes st1 st2" "fresh st2 = fresh st1" "quota st2 = quota st1"
    using buffer_move_inv c by blast
  have run: "recv_next_buf st k = Some (st2, k\<lparr>next_recv_buf := nb, next_recv_pos := 0\<rparr>)"
    using s1(1,5,6) s2(1) b(1) nz unfolding recv_next_buf_def by (simp add: buf_at_def cong: if_cong)
  have ul: "cells st2 (unpack_buf k) \<noteq> None" using rc_invD(5) [OF s2(2), of "unpack_buf k"] by simp
  note mv = chain_move_root [OF s2(2,3) s1(7) ul]
  have live: "cells st x \<noteq> None" if "x \<in> set (as @ [?nb])" for x
    using chain_dom [OF ub, of x] that by (auto simp: bnexts_def)
  have "contents st2 (as @ [?nb]) = contents st1 (as @ [?nb])" using mv(2) by (intro contents_live [OF s2(3)]) auto
  moreover have "contents st1 (as @ [?nb]) = contents st (as @ [?nb])" using live by (intro keepsD(3) [OF s1(4)]) blast
  moreover have "block st2 a n" if "a \<in> set as \<union> {?nb}" "block st a n" for a n
    using that mv(2) [of a] keepsD(1) [OF s1(4) that(2)] by (intro block_same_bytes [OF s2(3)]) auto
  moreover have "block st2 nb 0" using mv(2) by (intro block_same_bytes [OF s2(3) _ s1(8)]) simp
  moreover have "cs \<noteq> [] \<longrightarrow> cs = [nb] \<and> buf_bytes st2 nb = buf_bytes st nb"
    using s1(9) same_bytes_buf [OF s2(3)] mv(2) by auto
  moreover have "few_refs st2 (N + quota st2)" using few_refs_shrink [OF s1(11,2) s2(3)] s2(5) by simp
  moreover have "ext st st2" using ext_trans [OF s1(3) ext_same_bytes [OF s2(2,3,4)]] .
  moreover have "spare st2 [] + 1 = spare st cs" using s2(5) s1(10) by (simp add: spare_def)
  ultimately show ?thesis using run s2(2) mv(1) by (intro exI [of _ st2] exI [of _ nb]) (simp add: rx_roots_def add_mset_commute)
qed

text \<open>The memory that the next receive may fill.\<close>

definition area :: "bstore \<Rightarrow> connection \<Rightarrow> addr list \<Rightarrow> byte list" where
  "area st k cs = drop (unat (next_recv_pos k)) (buf_bytes st (next_recv_buf k)) @ concat (map (buf_bytes st) cs)"

lemma length_buf_bytes: "rc_inv st R \<Longrightarrow> block st a n \<Longrightarrow> length (buf_bytes st a) = 65536"
  using rc_invD(6) by (fastforce simp: block_def buf_bytes_def buf_ok_def)

lemma recv_full:
  assumes rx: "rx st k as cs p" and inv: "rc_inv st (rx_roots k + R)" and few: "few_refs st (N + quota st)" "size R + 2 \<le> N"
    and b: "cells st (next_recv_buf k) = Some b" and n: "n = BUFFER_SIZE - next_recv_pos k"
    and ar: "area st k cs = d @ rest" "unat n \<le> length d" and q: "0 < spare st cs"
  shows "\<exists>st' nb. recv_next_buf (put_buf st (next_recv_buf k) (b\<lparr>bsize := bsize b + n\<rparr>))
      (k\<lparr>next_recv_pos := next_recv_pos k + n\<rparr>) = Some (st', k\<lparr>next_recv_buf := nb, next_recv_pos := 0\<rparr>) \<and>
    rx st' (k\<lparr>next_recv_buf := nb, next_recv_pos := 0\<rparr>) (as @ [next_recv_buf k]) [] (p @ take (unat n) d) \<and>
    rc_inv st' (rx_roots (k\<lparr>next_recv_buf := nb, next_recv_pos := 0\<rparr>) + R) \<and> ext st st' \<and>
    (drop (unat n) d \<noteq> [] \<longrightarrow> area st' (k\<lparr>next_recv_buf := nb, next_recv_pos := 0\<rparr>) [] = drop (unat n) d @ rest) \<and>
    spare st' [] + 1 = spare st cs \<and> few_refs st' (N + quota st')"
proof -
  let ?nb = "next_recv_buf k" and ?k1 = "k\<lparr>next_recv_pos := next_recv_pos k + n\<rparr>"
  let ?s1 = "put_buf st ?nb (b\<lparr>bsize := bsize b + n\<rparr>)"
  have un: "unat n = 65536 - unat (next_recv_pos k)"
    unfolding n using rxD(4) [OF rx] unat_sub_le [of "next_recv_pos k" BUFFER_SIZE] by simp
  have pos: "unat (next_recv_pos k) < 65536" using rxD(4) [OF rx] by (simp add: word_less_nat_alt)
  then have le: "unat (next_recv_pos k) + unat n \<le> 65536" using un by simp
  note g = recv_grow [OF rx inv b le]
  have dst: "?nb \<notin> set as" "?nb \<notin> set cs" using chain_distinct [OF rxD(1) [OF rx]] by auto
  have bb: "capacity b = BUFFER_SIZE" "chain (bnexts st) (bnext b) cs NULL" "length (bbuf b) = 65536"
    using rx_chain_next [OF rx] b rc_invD(6) [OF inv b] by (auto simp: buf_ok_def)
  have full: "next_recv_pos k + n = BUFFER_SIZE" using g(5) un pos by (simp add: word_unat_eq_iff)
  have bl: "block ?s1 a m \<longleftrightarrow> (if a = ?nb then m = BUFFER_SIZE else block st a m)" for a m
    using b bb(1) full g(6) by (auto simp: block_put)
  have d1: "take (unat n) (drop (unat (next_recv_pos k)) (bbuf b)) = take (unat n) d"
    "buf_bytes st ?nb = bbuf b" "drop (unat n) d @ rest = concat (map (buf_bytes st) cs)"
  proof -
    show bx: "buf_bytes st ?nb = bbuf b" using b by (simp add: buf_bytes_def)
    have "drop (unat (next_recv_pos k)) (bbuf b) @ concat (map (buf_bytes st) cs) = d @ rest"
      using ar(1) bx by (simp add: area_def)
    moreover have "length (drop (unat (next_recv_pos k)) (bbuf b)) = unat n" using bb(3) un by simp
    ultimately show "take (unat n) (drop (unat (next_recv_pos k)) (bbuf b)) = take (unat n) d"
      "drop (unat n) d @ rest = concat (map (buf_bytes st) cs)"
      using ar(2) by (metis append_eq_conv_conj take_all le_refl append_take_drop_id same_append_eq append_assoc take_append diff_is_0_eq' take0 append_Nil2)+
  qed
  have few1: "few_refs ?s1 (N + quota ?s1)"
    using few(1) b by (simp add: few_refs_def put_buf_def set_cell_def insert_absorb domI)
  have sp1: "spare ?s1 cs = spare st cs" by (simp add: spare_def put_buf_def set_cell_def)
  have "\<exists>st' nb. recv_next_buf ?s1 ?k1 = Some (st', ?k1\<lparr>next_recv_buf := nb, next_recv_pos := 0\<rparr>) \<and>
    rc_inv st' (rx_roots (?k1\<lparr>next_recv_buf := nb\<rparr>) + R) \<and> ext ?s1 st' \<and>
    chain (bnexts st') (unpack_buf ?k1) (as @ next_recv_buf ?k1 # [nb]) NULL \<and> block st' nb 0 \<and>
    (cs \<noteq> [] \<longrightarrow> cs = [nb] \<and> buf_bytes st' nb = buf_bytes ?s1 nb) \<and>
    (\<forall>a \<in> set as \<union> {next_recv_buf ?k1}. \<forall>n. block ?s1 a n \<longrightarrow> block st' a n) \<and>
    contents st' (as @ [next_recv_buf ?k1]) = contents ?s1 (as @ [next_recv_buf ?k1]) \<and>
    spare st' [] + 1 = spare ?s1 cs \<and> few_refs st' (N + quota st')"
    by (rule next_block [where b="b\<lparr>bsize := bsize b + n\<rparr>"]) (use g(2,7) few1 few(2) bb bl dst rxD(1,5,6) [OF rx] q sp1 in \<open>auto simp: rx_roots_def\<close>)
  then obtain st' nb where s2: "recv_next_buf ?s1 ?k1 = Some (st', k\<lparr>next_recv_buf := nb, next_recv_pos := 0\<rparr>)"
    "rc_inv st' (rx_roots (k\<lparr>next_recv_buf := nb\<rparr>) + R)" "ext ?s1 st'"
    "chain (bnexts st') (unpack_buf k) ((as @ [?nb]) @ nb # []) NULL" "block st' nb 0"
    "cs \<noteq> [] \<longrightarrow> cs = [nb] \<and> buf_bytes st' nb = buf_bytes ?s1 nb"
    "\<forall>a \<in> set as \<union> {?nb}. \<forall>n. block ?s1 a n \<longrightarrow> block st' a n"
    "contents st' (as @ [?nb]) = contents ?s1 (as @ [?nb])"
    "spare st' [] + 1 = spare ?s1 cs" "few_refs st' (N + quota st')"
    by (auto simp: rx_roots_def simp del: contents_simps)
  let ?k2 = "k\<lparr>next_recv_buf := nb, next_recv_pos := 0\<rparr>"
  have nb0: "contents st' [nb] = []" using contents_empty_blocks [of "[nb]" st'] s2(5) by simp
  have pd: "p @ take (unat n) d = drop (unat (unpack_pos k)) (contents st' ((as @ [?nb]) @ [nb]))"
  proof -
    have "contents st' ((as @ [?nb]) @ [nb]) = contents st (as @ [?nb]) @ take (unat n) d"
      using s2(8) g(4) nb0 d1(1) contents_simps(2) [of st' "as @ [?nb]" "[nb]"] by (simp del: contents_simps)
    then show ?thesis using rxD(9) [OF rx] rx_length(2) [OF rx inv] by (simp del: contents_simps)
  qed
  have up: "unpack_pos k < BUFFER_SIZE"
    using rxD(4,7,8) [OF rx] by (cases "as = []") auto
  have "rx st' ?k2 (as @ [?nb]) [] (p @ take (unat n) d)"
    unfolding rx_def pd using s2(4,5,7) bl up rxD(2) [OF rx] dst by (auto simp: simp del: contents_simps)
  moreover have "drop (unat n) d \<noteq> [] \<longrightarrow> area st' ?k2 [] = drop (unat n) d @ rest"
  proof
    assume ne: "drop (unat n) d \<noteq> []"
    then have cs: "cs = [nb]" "buf_bytes st' nb = buf_bytes ?s1 nb" using d1(3) s2(6) by auto
    then have "nb \<noteq> ?nb" using dst by auto
    then have "buf_bytes ?s1 nb = buf_bytes st nb" by (simp add: buf_bytes_def)
    then show "area st' ?k2 [] = drop (unat n) d @ rest" using cs d1(3) by (simp add: area_def)
  qed
  ultimately show ?thesis using s2(1,2,9,10) ext_trans [OF g(3) s2(3)] sp1 by (auto simp: rx_roots_def)
qed

lemma update_next_recv_pos_law:
  assumes "rx st k as cs p" "rc_inv st (rx_roots k + R)" "few_refs st (N + quota st)" "size R + 2 \<le> N"
    "area st k cs = d @ rest" "unat n = length d" "length d \<le> spare st cs"
  shows "\<exists>st' nb pos as' cs'. update_next_recv_pos st k n = Some (st', k\<lparr>next_recv_buf := nb, next_recv_pos := pos\<rparr>) \<and>
    rx st' (k\<lparr>next_recv_buf := nb, next_recv_pos := pos\<rparr>) as' cs' (p @ d) \<and>
    rc_inv st' (rx_roots (k\<lparr>next_recv_buf := nb, next_recv_pos := pos\<rparr>) + R) \<and> ext st st' \<and>
    few_refs st' (N + quota st') \<and> spare st cs \<le> spare st' cs' + length d"
  using assms
proof (induction "length d" arbitrary: st k as cs p d n rule: less_induct)
  case less
  let ?nb = "next_recv_buf k"
  note rx = less.prems(1) and inv = less.prems(2)
  show ?case
  proof (cases "n = 0")
    case True
    then have "d = []" using less.prems(6) by simp
    moreover have "k\<lparr>next_recv_buf := ?nb, next_recv_pos := next_recv_pos k\<rparr> = k" by simp
    ultimately show ?thesis using True less.prems
      by (intro exI [of _ st] exI [of _ ?nb] exI [of _ "next_recv_pos k"] exI [of _ as] exI [of _ cs])
        (simp add: update_next_recv_pos.simps)
  next
    case nz: False
    obtain b where b: "cells st ?nb = Some b" "capacity b = BUFFER_SIZE" "?nb \<noteq> NULL" using rx_chain_next [OF rx] by blast
    have pos: "unat (next_recv_pos k) < 65536" using rxD(4) [OF rx] by (simp add: word_less_nat_alt)
    have un: "unat (BUFFER_SIZE - next_recv_pos k) = 65536 - unat (next_recv_pos k)"
      using rxD(4) [OF rx] unat_sub_le [of "next_recv_pos k" BUFFER_SIZE] by simp
    show ?thesis
    proof (cases "BUFFER_SIZE - next_recv_pos k > n")
      case True
      then have sum: "unat (next_recv_pos k) + unat n < 65536" using un by (simp add: word_less_nat_alt)
      note g = recv_grow [OF rx inv b(1) less_imp_le [OF sum]]
      let ?s = "put_buf st ?nb (b\<lparr>bsize := bsize b + n\<rparr>)" and ?k = "k\<lparr>next_recv_pos := next_recv_pos k + n\<rparr>"
      have lb: "length (bbuf b) = 65536" using rc_invD(6) [OF inv b(1)] b(2) by (simp add: buf_ok_def)
      have d: "take (unat n) (drop (unat (next_recv_pos k)) (bbuf b)) = d"
      proof -
        have "take (length d) (drop (unat (next_recv_pos k)) (bbuf b) @ concat (map (buf_bytes st) cs)) = d"
          using less.prems(5) b(1) by (simp add: area_def buf_bytes_def)
        then show ?thesis using sum lb less.prems(6) by simp
      qed
      have "\<not> next_recv_pos k + n \<ge> BUFFER_SIZE" using g(5) sum by (simp add: word_le_nat_alt)
      then have "update_next_recv_pos st k n = update_next_recv_pos ?s ?k 0"
        using nz True b g(1) by (subst update_next_recv_pos.simps) (simp add: buf_at_def Let_def)
      then have run: "update_next_recv_pos st k n = Some (?s, k\<lparr>next_recv_buf := ?nb, next_recv_pos := next_recv_pos k + n\<rparr>)"
        by (simp add: update_next_recv_pos.simps)
      have "few_refs ?s (N + quota ?s)" "spare ?s cs = spare st cs"
        using less.prems(3) b(1) by (simp_all add: few_refs_def spare_def put_buf_def set_cell_def insert_absorb domI)
      moreover have "rx ?s (k\<lparr>next_recv_buf := ?nb, next_recv_pos := next_recv_pos k + n\<rparr>) as cs (p @ d)"
        using rx_grow [OF rx inv b(1) sum] d by simp
      ultimately show ?thesis using run g(2,3) by (fastforce simp: rx_roots_def)
    next
      case False
      define m where "m = BUFFER_SIZE - next_recv_pos k"
      have ml: "unat m \<le> length d" "0 < unat m" using False less.prems(6) un pos by (simp_all add: m_def word_less_nat_alt)
      have q: "0 < spare st cs" using ml less.prems(7) by linarith
      obtain st' nb where s': "recv_next_buf (put_buf st ?nb (b\<lparr>bsize := bsize b + m\<rparr>)) (k\<lparr>next_recv_pos := next_recv_pos k + m\<rparr>) =
          Some (st', k\<lparr>next_recv_buf := nb, next_recv_pos := 0\<rparr>)"
        "rx st' (k\<lparr>next_recv_buf := nb, next_recv_pos := 0\<rparr>) (as @ [?nb]) [] (p @ take (unat m) d)"
        "rc_inv st' (rx_roots (k\<lparr>next_recv_buf := nb, next_recv_pos := 0\<rparr>) + R)" "ext st st'"
        "drop (unat m) d \<noteq> [] \<longrightarrow> area st' (k\<lparr>next_recv_buf := nb, next_recv_pos := 0\<rparr>) [] = drop (unat m) d @ rest"
        "spare st' [] + 1 = spare st cs" "few_refs st' (N + quota st')"
        using recv_full [OF rx inv less.prems(3,4) b(1) m_def less.prems(5) ml(1) q] by blast
      let ?k = "k\<lparr>next_recv_buf := nb, next_recv_pos := 0\<rparr>"
      have le: "unat (next_recv_pos k) + unat m \<le> 65536" using un pos by (simp add: m_def)
      note g = recv_grow [OF rx inv b(1) le]
      have ge: "next_recv_pos k + m \<ge> BUFFER_SIZE" by (simp add: m_def)
      have run: "update_next_recv_pos st k n = update_next_recv_pos st' ?k (n - m)"
        using nz False b g(1) s'(1) ge unfolding m_def [symmetric]
        by (subst update_next_recv_pos.simps) (simp add: buf_at_def Let_def m_def [symmetric])
      have nm: "unat (n - m) = length (drop (unat m) d)"
        using ml less.prems(6) unat_sub_le [of m n] by (simp add: word_le_nat_alt)
      show ?thesis
      proof (cases "drop (unat m) d = []")
        case True
        then have "unat (n - m) = 0" "take (unat m) d = d" using nm by simp_all
        then have z: "n - m = 0" "take (unat m) d = d" unfolding unat_eq_zero by simp_all
        have "update_next_recv_pos st k n = Some (st', ?k)" unfolding run z(1) by (subst update_next_recv_pos.simps) simp
        moreover have "spare st cs \<le> spare st' [] + length d" using s'(6) ml by linarith
        ultimately show ?thesis using s'(2,3,4,7) unfolding z(2)
          by (intro exI [of _ st'] exI [of _ nb] exI [of _ 0] exI [of _ "as @ [?nb]"] exI [of _ "[]"]) blast
      next
        case more: False
        have "area st' ?k [] = drop (unat m) d @ rest" using s'(5) more by simp
        moreover have "length (drop (unat m) d) < length d" using ml by simp
        moreover have "length (drop (unat m) d) \<le> spare st' []" using s'(6) less.prems(7) ml by simp
        ultimately obtain st2 nb2 pos2 as2 cs2 where
          "update_next_recv_pos st' ?k (n - m) = Some (st2, ?k\<lparr>next_recv_buf := nb2, next_recv_pos := pos2\<rparr>)"
          "rx st2 (?k\<lparr>next_recv_buf := nb2, next_recv_pos := pos2\<rparr>) as2 cs2 ((p @ take (unat m) d) @ drop (unat m) d)"
          "rc_inv st2 (rx_roots (?k\<lparr>next_recv_buf := nb2, next_recv_pos := pos2\<rparr>) + R)" "ext st' st2"
          "few_refs st2 (N + quota st2)" "spare st' [] \<le> spare st2 cs2 + length (drop (unat m) d)"
          using less.hyps [OF _ s'(2,3,7) less.prems(4) _ nm] by blast
        then show ?thesis using run ext_trans [OF s'(4)] s'(6) ml
          by (intro exI [of _ st2] exI [of _ nb2] exI [of _ pos2] exI [of _ as2] exI [of _ cs2]) auto
      qed
    qed
  qed
qed

end
