(* ===== verification/Unpack.thy ===== *)
theory Unpack
  imports Receive
begin

text \<open>
  Cutting the received stream into packets: the reference function \<open>frames\<close>, the law of one round of
  \<open>unpack\<close> and the interface of the packet handlers of the application.
\<close>

section \<open>Frames\<close>

text \<open>
  A frame is a length field of four bytes and as many bytes of payload. A stream of at most four bytes
  holds no frame: \<open>unpack\<close> waits for at least one byte behind a length field, even if that is 0.
\<close>

function frames :: "byte list \<Rightarrow> byte list list \<times> byte list" where
  "frames bs =
     (if length bs \<le> 4 then ([], bs)
      else let n = le_val (take 4 bs) + 4 in
        if n > length bs then ([], bs)
        else let (fs, r) = frames (drop n bs) in (take n bs # fs, r))"
  by auto
termination
  by (relation "measure length") auto

declare frames.simps [simp del]

text \<open>No length field makes the size of a frame exceed 32 bits.\<close>

function sane :: "byte list \<Rightarrow> bool" where
  "sane bs \<longleftrightarrow> length bs \<le> 4 \<or>
     (le_val (take 4 bs) + 4 < 2 ^ 32 \<and>
      (le_val (take 4 bs) + 4 \<le> length bs \<longrightarrow> sane (drop (le_val (take 4 bs) + 4) bs)))"
  by auto
termination
  by (relation "measure length") auto

declare sane.simps [simp del]

definition frame :: "byte list \<Rightarrow> byte list" where
  "frame p = le_bytes 4 (length p) @ p"

lemma frames_short: "length bs \<le> 4 \<Longrightarrow> frames bs = ([], bs)"
  by (subst frames.simps) simp

lemma frames_wait: "length bs < le_val (take 4 bs) + 4 \<Longrightarrow> frames bs = ([], bs)"
  by (subst frames.simps) simp

lemma frames_step:
  "4 < length bs \<Longrightarrow> n = le_val (take 4 bs) + 4 \<Longrightarrow> n \<le> length bs \<Longrightarrow>
   frames bs = (take n bs # fst (frames (drop n bs)), snd (frames (drop n bs)))"
  by (subst frames.simps) (simp add: Let_def split: prod.split)

lemma sane_short: "length bs \<le> 4 \<Longrightarrow> sane bs"
  by (subst sane.simps) simp

lemma sane_step:
  "4 < length bs \<Longrightarrow> n = le_val (take 4 bs) + 4 \<Longrightarrow>
   sane bs \<longleftrightarrow> n < 2 ^ 32 \<and> (n \<le> length bs \<longrightarrow> sane (drop n bs))"
  by (subst sane.simps) simp

text \<open>Frames are cut off as the stream grows.\<close>

lemma frames_append:
  "frames (p @ d) = (fst (frames p) @ fst (frames (snd (frames p) @ d)), snd (frames (snd (frames p) @ d)))"
proof (induction p rule: frames.induct)
  case (1 bs)
  define n where "n = le_val (take 4 bs) + 4"
  show ?case
  proof (cases "4 < length bs \<and> n \<le> length bs")
    case False
    then show ?thesis by (cases "length bs \<le> 4") (simp_all add: frames_short frames_wait n_def)
  next
    case True
    then have a: "frames (bs @ d) = (take n bs # fst (frames (drop n bs @ d)), snd (frames (drop n bs @ d)))"
      using frames_step [of "bs @ d" n] by (simp add: n_def)
    have b: "frames bs = (take n bs # fst (frames (drop n bs)), snd (frames (drop n bs)))"
      using frames_step [of bs n] True by (simp add: n_def)
    show ?thesis unfolding a using 1 [of n] True by (simp add: b n_def)
  qed
qed

lemma frames_concat: "concat (fst (frames bs)) @ snd (frames bs) = bs"
proof (induction bs rule: frames.induct)
  case (1 bs)
  define n where "n = le_val (take 4 bs) + 4"
  show ?case
  proof (cases "4 < length bs \<and> n \<le> length bs")
    case False
    then show ?thesis by (cases "length bs \<le> 4") (simp_all add: frames_short frames_wait n_def)
  next
    case True
    then show ?thesis using frames_step [of bs n] 1 [of n] by (simp add: n_def)
  qed
qed

lemma sane_append: "sane (p @ d) \<Longrightarrow> sane p \<and> sane (snd (frames p) @ d)"
proof (induction p rule: frames.induct)
  case (1 bs)
  define n where "n = le_val (take 4 bs) + 4"
  show ?case
  proof (cases "length bs \<le> 4")
    case True
    then show ?thesis using "1.prems" by (simp add: frames_short sane_short)
  next
    case long: False
    then have s: "n < 2 ^ 32" "n \<le> length bs \<longrightarrow> sane (drop n bs @ d)"
      using "1.prems" sane_step [of "bs @ d" n] by (auto simp: n_def)
    show ?thesis
    proof (cases "n \<le> length bs")
      case False
      then show ?thesis using "1.prems" s long sane_step [of bs n] by (simp add: frames_wait n_def)
    next
      case True
      then have "sane (drop n bs) \<and> sane (snd (frames (drop n bs)) @ d)" using 1 long s n_def by simp
      moreover have "snd (frames bs) = snd (frames (drop n bs))" using frames_step [of bs n] long True by (simp add: n_def)
      ultimately show ?thesis using s long sane_step [of bs n] by (simp add: n_def)
    qed
  qed
qed

text \<open>A stream of whole frames with non-empty payload is cut where the sender put them together.\<close>

lemma frames_of_frames:
  assumes "\<forall>p \<in> set ps. p \<noteq> [] \<and> length p + 4 < 2 ^ 32"
  shows "frames (concat (map frame ps)) = (map frame ps, [])" "sane (concat (map frame ps))"
proof -
  have "frames (concat (map frame ps)) = (map frame ps, []) \<and> sane (concat (map frame ps))"
    using assms
  proof (induction ps)
    case Nil
    then show ?case by (simp add: frames_short sane_short)
  next
    case (Cons p ps)
    let ?bs = "concat (map frame (p # ps))"
    have lp: "p \<noteq> []" "length p + 4 < 2 ^ 32" using Cons.prems by auto
    have tk: "take 4 ?bs = le_bytes 4 (length p)" by (simp add: frame_def)
    have n: "le_val (take 4 ?bs) = length p" unfolding tk using lp(2) by (simp add: le_val_bytes)
    have lf: "length (frame p) = length p + 4" by (simp add: frame_def)
    have l: "4 < length ?bs" "length p + 4 \<le> length ?bs" using lp(1) lf by simp_all
    have dr: "drop (length p + 4) ?bs = concat (map frame ps)" "take (length p + 4) ?bs = frame p" using lf by simp_all
    have IH: "frames (concat (map frame ps)) = (map frame ps, [])" "sane (concat (map frame ps))" using Cons by auto
    have "frames ?bs = (frame p # map frame ps, [])"
      using frames_step [OF l(1) refl] n l(2) dr IH(1) by simp
    moreover have "sane ?bs" using sane_step [OF l(1) refl] n lp(2) dr IH(2) by simp
    ultimately show ?case by simp
  qed
  then show "frames (concat (map frame ps)) = (map frame ps, [])" "sane (concat (map frame ps))" by auto
qed

section \<open>One round of \<open>unpack\<close>\<close>

lemma rx_unpack_cell:
  assumes "rx st k as cs p"
  shows "\<exists>b. cells st (unpack_buf k) = Some b \<and> capacity b = BUFFER_SIZE \<and> unpack_buf k \<noteq> NULL \<and>
    bsize b = (if as = [] then next_recv_pos k else BUFFER_SIZE)"
proof (cases as)
  case Nil
  then show ?thesis using rx_start [OF assms] rx_chain_next [OF assms] by auto
next
  case (Cons a as')
  then have "unpack_buf k = a" "a \<noteq> NULL" using rxD(1) [OF assms] by auto
  then show ?thesis using rxD(2) [OF assms, of a] Cons by (auto simp: block_def)
qed

lemma rx_unpack_size: "rx st k as cs p \<Longrightarrow> rx st (k\<lparr>unpack_size := n\<rparr>) as cs p"
  by (simp add: rx_def)

text \<open>Advancing within the first block.\<close>

lemma rx_advance:
  assumes rx: "rx st k as cs p" and inv: "rc_inv st R" and t: "unat t \<le> length p"
    and b: "cells st (unpack_buf k) = Some b" "t \<le> bsize b - unpack_pos k" "unpack_pos k + t < BUFFER_SIZE"
  shows "rx st (k\<lparr>unpack_pos := unpack_pos k + t\<rparr>) as cs (drop (unat t) p)"
proof -
  have bs: "bsize b = (if as = [] then next_recv_pos k else BUFFER_SIZE)" using rx_unpack_cell [OF rx] b(1) by auto
  have up: "unpack_pos k \<le> bsize b" using rxD(7,8) [OF rx] bs by (auto split: if_splits)
  have le: "unat (unpack_pos k) + unat t \<le> unat (bsize b)"
    using b(2) unat_sub_le [OF up] up by (simp add: word_le_nat_alt)
  then have sum: "unat (unpack_pos k + t) = unat (unpack_pos k) + unat t" by (rule unat_add_le)
  have "unpack_pos k + t \<le> bsize b" using sum le by (simp add: word_le_nat_alt)
  moreover have "drop (unat t) p = drop (unat (unpack_pos k + t)) (contents st (as @ [next_recv_buf k]))"
    unfolding sum rxD(9) [OF rx] by (simp add: add.commute del: contents_simps)
  ultimately show ?thesis using rx b(3) bs unfolding rx_def by (auto simp del: contents_simps)
qed

lemma unpack_advance_law:
  assumes "rx st k as cs p" "rc_inv st (rx_roots k + R)" "few_refs st (size R + 2)" "unat t \<le> length p"
  shows "\<exists>st' ub pos as'. unpack_advance st k t =
      Some (st', k\<lparr>unpack_pos := pos, unpack_size := unpack_size k - t, unpack_buf := ub\<rparr>) \<and>
    rx st' (k\<lparr>unpack_pos := pos, unpack_size := unpack_size k - t, unpack_buf := ub\<rparr>) as' cs (drop (unat t) p) \<and>
    rc_inv st' (rx_roots (k\<lparr>unpack_buf := ub\<rparr>) + R) \<and> same_bytes st st' \<and> fresh st' = fresh st \<and> quota st' = quota st"
  using assms
proof (induction as arbitrary: st k p t)
  case Nil
  note rx = Nil.prems(1) and inv = Nil.prems(2)
  obtain b where b: "cells st (unpack_buf k) = Some b" "capacity b = BUFFER_SIZE" "unpack_buf k \<noteq> NULL" "bsize b = next_recv_pos k"
    using rx_unpack_cell [OF rx] by auto
  have le: "unpack_pos k \<le> next_recv_pos k" using rxD(7) [OF rx] by simp
  have lp: "length p = unat (next_recv_pos k) - unat (unpack_pos k)"
    using rx_length(1) [OF rx inv] rxD(9) [OF rx] by simp
  have tl: "t \<le> bsize b - unpack_pos k" using Nil.prems(4) lp unat_sub_le [OF le] b(4) by (simp add: word_le_nat_alt)
  have sum: "unat (unpack_pos k + t) = unat (unpack_pos k) + unat t"
    using Nil.prems(4) lp le by (intro unat_add_le [where c="next_recv_pos k"]) (simp add: word_le_nat_alt)
  have lt: "unpack_pos k + t < BUFFER_SIZE"
    using sum Nil.prems(4) lp le rxD(4) [OF rx] by (simp add: word_le_nat_alt word_less_nat_alt)
  let ?k = "k\<lparr>unpack_pos := unpack_pos k + t, unpack_size := unpack_size k - t, unpack_buf := unpack_buf k\<rparr>"
  have "unpack_advance st k t = Some (st, ?k)"
  proof (cases "t = 0")
    case True
    then show ?thesis by (subst unpack_advance.simps) simp
  next
    case False
    have "unpack_advance st k t = unpack_advance st ?k 0"
      using False b tl lt by (subst unpack_advance.simps) (auto simp: buf_at_def Let_def unpack_next_buf_def)
    then show ?thesis by (simp add: unpack_advance.simps)
  qed
  moreover have "rx st ?k [] cs (drop (unat t) p)"
    using rx_unpack_size [OF rx_advance [OF rx inv Nil.prems(4) b(1) tl lt]] by simp
  ultimately show ?case using inv by (intro exI [of _ st] exI [of _ "unpack_buf k"] exI [of _ "unpack_pos k + t"] exI [of _ "[]"]) simp
next
  case (Cons a as)
  note rx = Cons.prems(1) and inv = Cons.prems(2)
  obtain b where b: "cells st (unpack_buf k) = Some b" "capacity b = BUFFER_SIZE" "unpack_buf k \<noteq> NULL" "bsize b = BUFFER_SIZE"
    using rx_unpack_cell [OF rx] by auto
  have a: "unpack_buf k = a" using rxD(1) [OF rx] by simp
  have up: "unpack_pos k < BUFFER_SIZE" using rxD(8) [OF rx] by simp
  define m where "m = BUFFER_SIZE - unpack_pos k"
  have um: "unat m = 65536 - unat (unpack_pos k)" "unat (unpack_pos k) < 65536"
    using up unat_sub_le [OF less_imp_le [OF up]] by (simp_all add: m_def word_less_nat_alt)
  show ?case
  proof (cases "t < m")
    case True
    have sum: "unat (unpack_pos k + t) = unat (unpack_pos k) + unat t"
      using True um by (intro unat_add_le [where c=BUFFER_SIZE]) (simp add: word_less_nat_alt)
    then have lt: "unpack_pos k + t < BUFFER_SIZE" using True um by (simp add: word_less_nat_alt)
    have tl: "t \<le> bsize b - unpack_pos k" using True b(4) by (simp add: m_def)
    let ?k = "k\<lparr>unpack_pos := unpack_pos k + t, unpack_size := unpack_size k - t, unpack_buf := unpack_buf k\<rparr>"
    have "unpack_advance st k t = Some (st, ?k)"
    proof (cases "t = 0")
      case True
      then show ?thesis by (subst unpack_advance.simps) simp
    next
      case False
      have "unpack_advance st k t = unpack_advance st ?k 0"
        using False b tl lt by (subst unpack_advance.simps) (auto simp: buf_at_def Let_def unpack_next_buf_def)
      then show ?thesis by (simp add: unpack_advance.simps)
    qed
    moreover have "rx st ?k (a # as) cs (drop (unat t) p)"
      using rx_unpack_size [OF rx_advance [OF rx inv Cons.prems(4) b(1) tl lt]] by simp
    ultimately show ?thesis using inv
      by (intro exI [of _ st] exI [of _ "unpack_buf k"] exI [of _ "unpack_pos k + t"] exI [of _ "a # as"]) simp
  next
    case False
    define n where "n = (if as = [] then next_recv_buf k else hd as)"
    have nx: "bnext b = n" "chain (bnexts st) n (as @ next_recv_buf k # cs) NULL" "n \<noteq> NULL"
      using rxD(1) [OF rx] b(1) a by (cases as; auto simp: bnexts_at n_def)+
    obtain c where c: "cells st n = Some c" using chain_dom [OF nx(2), of n] by (cases as) (auto simp: bnexts_def n_def)
    have "refcount c < INT32_MAX" using few_refs_refcount [OF inv Cons.prems(3) c] by (simp add: rx_roots_def)
    moreover have "rc_inv st (add_mset (unpack_buf k) (add_mset (next_recv_buf k) R))" using inv by (simp add: rx_roots_def)
    ultimately obtain st1 where s1: "buffer_acquire st (unpack_buf k) n = Some (st1, n)"
      "rc_inv st1 (add_mset n (add_mset (next_recv_buf k) R))" "same_bytes st st1" "fresh st1 = fresh st" "quota st1 = quota st"
      using buffer_move_inv c by blast
    let ?k1 = "k\<lparr>unpack_size := unpack_size k - m, unpack_pos := 0, unpack_buf := n\<rparr>"
    have full: "unpack_pos k + m = BUFFER_SIZE" by (simp add: m_def)
    have nz: "t \<noteq> 0" using False um by (auto simp: word_less_nat_alt)
    have size: "m < t \<or> t = m" using False by auto
    have run: "unpack_advance st k t = unpack_advance st1 ?k1 (t - m)"
      using nz b nx(1,3) s1(1) full
      by (subst unpack_advance.simps)
        (use size in \<open>elim disjE; simp add: buf_at_def Let_def unpack_next_buf_def m_def [symmetric]\<close>)
    have "rx st ?k1 as cs (drop (unat m) p)"
    proof -
      have "contents st ((a # as) @ [next_recv_buf k]) = contents st [a] @ contents st (as @ [next_recv_buf k])"
        using contents_simps(2) [of st "[a]" "as @ [next_recv_buf k]"] by simp
      moreover have "length (contents st [a]) = 65536" using length_block [OF inv rxD(2) [OF rx, of a]] by simp
      ultimately have "drop (unat m) p = contents st (as @ [next_recv_buf k])"
        using rxD(9) [OF rx] um by (simp del: contents_simps)
      then show ?thesis using rx nx(2) unfolding rx_def by (auto simp del: contents_simps)
    qed
    moreover have live: "cells st1 (unpack_buf ?k1) \<noteq> None" using rc_invD(5) [OF s1(2), of n] by simp
    ultimately have rx1: "rx st1 ?k1 as cs (drop (unat m) p)" using rx_same_bytes [OF _ s1(2,3)] by blast
    have rc1: "rc_inv st1 (rx_roots ?k1 + R)" using s1(2) by (simp add: rx_roots_def)
    have tm: "unat (t - m) = unat t - unat m" using False by (intro unat_sub_le) simp
    have "unat (t - m) \<le> length (drop (unat m) p)" using tm Cons.prems(4) by simp
    from Cons.IH [OF rx1 rc1 few_refs_shrink [OF Cons.prems(3) inv s1(3)] this] obtain st2 ub pos as' where
      s2: "unpack_advance st1 ?k1 (t - m) = Some (st2, ?k1\<lparr>unpack_pos := pos, unpack_size := unpack_size ?k1 - (t - m), unpack_buf := ub\<rparr>)"
      "rx st2 (?k1\<lparr>unpack_pos := pos, unpack_size := unpack_size ?k1 - (t - m), unpack_buf := ub\<rparr>) as' cs (drop (unat (t - m)) (drop (unat m) p))"
      "rc_inv st2 (rx_roots (?k1\<lparr>unpack_buf := ub\<rparr>) + R)" "same_bytes st1 st2" "fresh st2 = fresh st1" "quota st2 = quota st1"
      by blast
    have "unat (t - m) + unat m = unat t" using tm False by (simp add: word_less_nat_alt)
    then show ?thesis using run s2 same_bytes_trans [OF s1(3) s2(4)] s1(4,5)
      by (intro exI [of _ st2] exI [of _ ub] exI [of _ pos] exI [of _ as']) (simp add: rx_roots_def)
  qed
qed

text \<open>What the application is given: a packet whose buffers hold the frame \<open>f\<close>.\<close>

definition pkt :: "bstore \<Rightarrow> rpacket \<Rightarrow> byte list \<Rightarrow> bool" where
  "pkt st r f \<longleftrightarrow> rraw r = 0 \<and> readbuf r = rbuf r \<and> binbuf r = NULL \<and> data_remain r = rlen r \<and>
     rpos r = rbegin_pos r + 4 \<and> unat (rlen r) + 4 = length f \<and> length f < 2 ^ 32 \<and> le_val (take 4 f) = unat (rlen r) \<and>
     (\<exists>c. cells st (rbuf r) = Some c \<and> rbegin_pos r \<le> bsize c) \<and>
     (\<exists>us rest. chain (bnexts st) (rbuf r) us NULL \<and> drop (unat (rbegin_pos r)) (contents st us) = f @ rest)"

lemma unpack_header:
  assumes rx: "rx st k as cs p" and inv: "rc_inv st R" and l: "4 \<le> length p"
  shows "buffer_read st (unpack_buf k) (unpack_pos k) 4 = Some (0, take 4 p)"
proof -
  let ?us = "as @ next_recv_buf k # cs"
  have p: "drop (unat (unpack_pos k)) (contents st ?us) = p" using rxD(9) [OF rx] rx_contents [OF rx] by simp
  obtain b where b: "cells st (unpack_buf k) = Some b" "bsize b = (if as = [] then next_recv_pos k else BUFFER_SIZE)"
    using rx_unpack_cell [OF rx] by blast
  have "unat (unpack_pos k) \<le> unat (bsize (the (cells st (unpack_buf k))))"
    using rxD(7,8) [OF rx] b by (auto simp: word_le_nat_alt word_less_nat_alt split: if_splits)
  then have "buffer_read st (unpack_buf k) (unpack_pos k) 4 =
      (let rest = drop (unat (unpack_pos k)) (contents st ?us) in Some (if unat (4::u32) \<le> length rest then 0 else -1, [] @ take (unat (4::u32)) rest))"
    unfolding buffer_read_def by (intro buffer_read_loop_law) (use rxD(1) [OF rx] rc_invD(6) [OF inv] in auto)
  then show ?thesis using l unfolding p by (simp add: Let_def)
qed

lemma unpack_one_wait:
  assumes rx: "rx st k as cs p" and inv: "rc_inv st R" and k: "c_raw k = 0" "unat (unpack_size k) = length p"
    and w: "length p \<le> 4 \<or> length p < le_val (take 4 p) + 4" and s: "sane p"
  shows "\<exists>pk'. unpack_one st k pk = Some (st, k, pk', None)"
proof (cases "length p \<le> 4")
  case True
  then have "unpack_size k \<le> 4" using k(2) by (simp add: word_le_nat_alt)
  then show ?thesis using k(1) by (simp add: unpack_one_def)
next
  case False
  let ?n = "le_val (take 4 p)"
  have long: "\<not> unpack_size k \<le> 4" using k(2) False by (simp add: word_le_nat_alt)
  have lt: "?n + 4 < 2 ^ 32" using sane_step [of p "?n + 4"] s False by simp
  then have "unat (word_of_nat ?n + 4 :: u32) = ?n + 4" by (simp add: unat_word_ariths unat_of_nat)
  then have "word_of_nat ?n + 4 > unpack_size k" using w k(2) False by (simp add: word_less_nat_alt)
  then show ?thesis using long k(1) unpack_header [OF rx inv] False by (simp add: unpack_one_def Let_def)
qed

lemma unpack_one_packet:
  assumes rx: "rx st k as cs p" and inv: "rc_inv st (rx_roots k + R)" and k: "c_raw k = 0" "unat (unpack_size k) = length p"
    and few: "few_refs st (size R + 4)" and n: "4 < length p" "n = le_val (take 4 p) + 4" "n \<le> length p"
  shows "\<exists>st' pos sz ub as' r pk'. unpack_one st k pk =
      Some (st', k\<lparr>unpack_pos := pos, unpack_size := sz, unpack_buf := ub\<rparr>, pk', Some r) \<and>
    rx st' (k\<lparr>unpack_pos := pos, unpack_size := sz, unpack_buf := ub\<rparr>) as' cs (drop n p) \<and> unat sz = length p - n \<and>
    rc_inv st' (rroots r + (rx_roots (k\<lparr>unpack_buf := ub\<rparr>) + R)) \<and> pkt st' r (take n p) \<and>
    same_bytes st st' \<and> fresh st' = fresh st \<and> quota st' = quota st"
proof -
  let ?ub = "unpack_buf k" and ?us = "as @ next_recv_buf k # cs"
  define l :: u32 where "l = word_of_nat (le_val (take 4 p))"
  have nlt: "n < 2 ^ 32" using n(3) k(2) unat_less_pow [of "unpack_size k"] by simp
  have ul: "unat l = n - 4" "unat (l + 4) = n"
    using nlt n(2) by (simp_all add: l_def unat_of_nat unat_word_ariths)
  obtain b where b: "cells st ?ub = Some b" "?ub \<noteq> NULL" "bsize b = (if as = [] then next_recv_pos k else BUFFER_SIZE)"
    using rx_unpack_cell [OF rx] by blast
  have "refcount b \<le> int (size (rx_roots k + R) + card (dom (cells st)))"
  proof -
    have "card (preds st ?ub) \<le> card (dom (cells st))"
      by (rule card_mono [OF rc_invD(1) [OF inv]]) (auto simp: preds_def bnexts_eq_Some)
    then show ?thesis using rc_invD(8) [OF inv b(1)] count_le_size [of "rx_roots k + R" ?ub] by simp
  qed
  then have rb: "refcount b + 1 < INT32_MAX" using few by (simp add: few_refs_def rx_roots_def)
  obtain st1 st2 where a: "buffer_acquire st NULL ?ub = Some (st1, ?ub)" "buffer_acquire st1 NULL ?ub = Some (st2, ?ub)"
    "rc_inv st2 (add_mset ?ub (add_mset ?ub (rx_roots k + R)))" "st2 = put_buf st ?ub (b\<lparr>refcount := refcount b + 2\<rparr>)"
    using acquire_twice [OF inv b(1) rb] by blast
  define r where "r = \<lparr>rlen = l, rpos = unpack_pos k + 4, data_remain = l, binbufpos = 0, rbegin_pos = unpack_pos k,
    binbuf = NULL, rbuf = ?ub, readbuf = ?ub, rraw = 0, rmt = c_mt k\<rparr>"
  have cr: "rpacket_create st (c_mt k) ?ub (unpack_pos k) l 0 = Some (st2, r)"
    using a(1,2) by (simp add: rpacket_create_def r_def)
  have sb: "same_bytes st st2" "fresh st2 = fresh st" "quota st2 = quota st"
    unfolding a(4) by (rule same_bytes_put [OF b(1)]) (simp_all add: put_buf_def set_cell_def)
  have rx2: "rx st2 k as cs p" by (rule rx_same_bytes [OF rx a(3) sb(1)]) (simp add: a(4))
  have rc2: "rc_inv st2 (rx_roots k + (rroots r + R))" using a(3) by (simp add: rroots_def r_def ac_simps)
  have few2: "few_refs st2 (size (rroots r + R) + 2)"
    using few_refs_shrink [OF few inv sb(1)] by (simp add: rroots_def r_def few_refs_def)
  have "unat (l + 4) \<le> length p" using ul n(3) by simp
  from unpack_advance_law [OF rx2 rc2 few2 this] obtain st3 ub pos as' where
    s3: "unpack_advance st2 k (l + 4) = Some (st3, k\<lparr>unpack_pos := pos, unpack_size := unpack_size k - (l + 4), unpack_buf := ub\<rparr>)"
    "rx st3 (k\<lparr>unpack_pos := pos, unpack_size := unpack_size k - (l + 4), unpack_buf := ub\<rparr>) as' cs (drop n p)"
    "rc_inv st3 (rx_roots (k\<lparr>unpack_buf := ub\<rparr>) + (rroots r + R))" "same_bytes st2 st3" "fresh st3 = fresh st2" "quota st3 = quota st2"
    unfolding ul(2) by blast
  have sb3: "same_bytes st st3" by (rule same_bytes_trans [OF sb(1) s3(4)])
  have sz: "unat (unpack_size k - (l + 4)) = length p - n"
    using unat_sub_le [of "l + 4" "unpack_size k"] ul k(2) n(3) by (simp add: word_le_nat_alt)
  have le: "\<not> l + 4 > unpack_size k" "\<not> unpack_size k \<le> 4" using ul k(2) n(1,3) by (simp_all add: word_less_nat_alt word_le_nat_alt)
  have run: "unpack_one st k pk = Some (st3, k\<lparr>unpack_pos := pos, unpack_size := unpack_size k - (l + 4), unpack_buf := ub\<rparr>, l, Some r)"
    using unpack_header [OF rx inv] n(1) le k(1) cr s3(1) by (simp add: unpack_one_def Let_def l_def [symmetric])
  have "pkt st3 r (take n p)"
  proof -
    obtain c where c: "cells st3 ?ub = Some c" using rc_invD(5) [OF s3(3), of ?ub] by (auto simp: rroots_def r_def)
    have us: "chain (bnexts st3) ?ub ?us NULL" "contents st3 ?us = contents st ?us"
      using same_bytes_live [OF s3(3) sb3 c rxD(1) [OF rx]] by auto
    have "\<exists>us rest. chain (bnexts st3) ?ub us NULL \<and> drop (unat (unpack_pos k)) (contents st3 us) = take n p @ rest"
    proof (intro exI conjI)
      show "chain (bnexts st3) ?ub ?us NULL" by (rule us(1))
      show "drop (unat (unpack_pos k)) (contents st3 ?us) = take n p @ drop n p"
        unfolding us(2) rx_contents [OF rx] rxD(9) [OF rx, symmetric] append_take_drop_id by (rule refl)
    qed
    moreover have "unpack_pos k \<le> bsize c"
      using same_bytes_cell [OF sb3 c] b rxD(7,8) [OF rx] by (auto split: if_splits)
    moreover have "unat l + 4 = length (take n p)" "le_val (take 4 (take n p)) = unat l"
      using ul n by simp_all
    ultimately show ?thesis using c nlt by (simp add: pkt_def r_def)
  qed
  with run s3 sb sb3 sz show ?thesis
    by (intro exI [of _ st3] exI [of _ pos] exI [of _ "unpack_size k - (l + 4)"] exI [of _ ub] exI [of _ as'] exI [of _ r] exI [of _ l])
      (simp add: ac_simps)
qed

end
