(* ===== verification/RecvMemory.thy ===== *)
theory RecvMemory
  imports Unpack
begin

text \<open>
  Posting the next receive: the memory that \<open>RecvFinish\<close> describes to the system is the free part
  of the stream, and the bytes that arrive there continue it.
\<close>

section \<open>The memory of a receive request\<close>

definition recv_vecs :: "connection \<Rightarrow> addr list \<Rightarrow> iovec list" where
  "recv_vecs k cs = \<lparr>iov_base = (next_recv_buf k, next_recv_pos k), iov_len = BUFFER_SIZE - next_recv_pos k\<rparr> #
     (if next_recv_pos k = 0 then [] else [\<lparr>iov_base = (hd cs, 0), iov_len = next_recv_pos k\<rparr>])"

lemma recv_iovecs_law:
  assumes rx: "rx st k as cs p" and inv: "rc_inv st (rx_roots k + R)" and few: "few_refs st (n + quota st)" and q: "0 < spare st cs"
  shows "\<exists>st1 cs1. recv_iovecs st m (next_recv_buf k) (next_recv_pos k) BUFFER_SIZE [] = Some (st1, recv_vecs k cs1) \<and>
    rx st1 k as cs1 p \<and> rc_inv st1 (rx_roots k + R) \<and> ext st st1 \<and> few_refs st1 (n + quota st1) \<and>
    spare st1 cs1 = spare st cs \<and> (next_recv_pos k = 0 \<or> cs1 \<noteq> [])"
proof -
  let ?nb = "next_recv_buf k" and ?pos = "next_recv_pos k"
  obtain b where b: "cells st ?nb = Some b" "capacity b = BUFFER_SIZE" "?nb \<noteq> NULL" "chain (bnexts st) (bnext b) cs NULL"
    using rx_chain_next [OF rx] by blast
  have pos: "?pos < BUFFER_SIZE" by (rule rxD(4) [OF rx])
  have step: "recv_iovecs s mm a q 0 vs = Some (s, vs)" for s mm a q vs by (subst recv_iovecs.simps) simp
  show ?thesis
  proof (cases "?pos = 0")
    case True
    have "recv_iovecs st m ?nb ?pos BUFFER_SIZE [] = Some (st, recv_vecs k cs)"
      using True b by (subst recv_iovecs.simps) (simp add: buf_at_def recv_vecs_def step)
    then show ?thesis using assms True by auto
  next
    case False
    define f where "f = BUFFER_SIZE - ?pos"
    have uf: "unat f = 65536 - unat ?pos" using unat_sub_le [OF less_imp_le [OF pos]] by (simp add: f_def)
    have "0 < unat ?pos" using False by (metis gr0I unat_eq_zero)
    then have "f < BUFFER_SIZE" using uf by (simp add: word_less_nat_alt)
    then have f: "f < BUFFER_SIZE" "f \<noteq> BUFFER_SIZE" "BUFFER_SIZE - f = ?pos" "?pos + f = BUFFER_SIZE"
      by (simp, blast, simp_all add: f_def)
    have blk: "\<forall>x \<in> set cs. block st x 0" using rxD(5) [OF rx] by blast
    obtain st1 nb b1 where s1: "(if bnext b = NULL
        then do { (st', x) \<leftarrow> buffer_create_and_acquire st m NULL BUFFER_SIZE; set_next st' ?nb x } else Some st) = Some st1"
      "rc_inv st1 (rx_roots k + R)" "ext st st1" "keeps st st1" "cells st1 ?nb = Some b1" "bnext b1 = nb"
      "chain (bnexts st1) (unpack_buf k) (as @ ?nb # [nb]) NULL" "block st1 nb 0" "cs \<noteq> [] \<longrightarrow> cs = [nb] \<and> st1 = st"
      "quota st1 + 1 = spare st cs" "few_refs st1 (n + quota st1)"
      using next_ready [OF inv few b(1,4) blk rxD(6) [OF rx] q rxD(1) [OF rx]] by blast
    obtain d where d: "cells st1 nb = Some d" "capacity d = BUFFER_SIZE" using s1(8) by (auto simp: block_def)
    have nz: "nb \<noteq> NULL" "\<not> BUFFER_SIZE < ?pos" using rc_invD(9) [OF s1(2) d(1)] pos by auto
    have "recv_iovecs st m ?nb ?pos BUFFER_SIZE [] =
        recv_iovecs st1 m nb 0 ?pos [\<lparr>iov_base = (?nb, ?pos), iov_len = f\<rparr>]"
      using b f s1(1,5,6) False unfolding f_def [symmetric]
      by (subst recv_iovecs.simps) (simp add: buf_at_def Let_def f_def [symmetric] cong: if_cong)
    also have "\<dots> = Some (st1, recv_vecs k [nb])"
      using d nz False pos by (subst recv_iovecs.simps) (simp add: buf_at_def Let_def step recv_vecs_def f_def)
    finally have run: "recv_iovecs st m ?nb ?pos BUFFER_SIZE [] = Some (st1, recv_vecs k [nb])" .
    have live: "cells st x \<noteq> None" if "x \<in> set (as @ [?nb])" for x
      using chain_dom [OF rxD(1) [OF rx], of x] that by (auto simp: bnexts_def)
    have ct: "contents st1 (as @ [?nb]) = contents st (as @ [?nb])" using live by (intro keepsD(3) [OF s1(4)]) blast
    have "rx st1 k as [nb] p"
      using rx s1(7,8) keepsD(1) [OF s1(4)] ct unfolding rx_def by (auto simp del: contents_simps)
    moreover have "spare st1 [nb] = spare st cs" using s1(10) by (simp add: spare_def)
    ultimately show ?thesis using run s1(2,3,11) by blast
  qed
qed

text \<open>Bytes written behind the end of the stream.\<close>

lemma memcpy_free:
  assumes inv: "rc_inv st R" and b: "cells st a = Some b" and n: "bsize b \<le> pos" "unat pos + length xs \<le> unat (capacity b)"
  defines "st1 \<equiv> put_buf st a (b\<lparr>bbuf := splice (bbuf b) (unat pos) xs\<rparr>)"
  shows "memcpy_to st a pos xs = Some st1" "rc_inv st1 R" "ext st st1" "bnexts st1 = bnexts st"
    "contents st1 us = contents st us" "quota st1 = quota st" "dom (cells st1) = dom (cells st)"
    "block st1 x m = block st x m" "buf_bytes st1 x = (if x = a then splice (bbuf b) (unat pos) xs else buf_bytes st x)"
proof -
  let ?b = "b\<lparr>bbuf := splice (bbuf b) (unat pos) xs\<rparr>"
  have ok: "buf_ok b" "a \<noteq> NULL" using rc_invD(6,9) [OF inv b] by auto
  have len: "length (bbuf b) = unat (capacity b)" using ok by (simp add: buf_ok_def)
  have ls: "length (splice (bbuf b) (unat pos) xs) = length (bbuf b)" using n(2) len by (simp add: splice_def)
  have by': "bytes_of ?b = bytes_of b"
    using n len by (simp add: bytes_of_def splice_def word_le_nat_alt min_def)
  show "memcpy_to st a pos xs = Some st1" using b ok n(2) len by (simp add: memcpy_to_def buf_at_def st1_def)
  have "buf_ok ?b" using ok(1) ls len by (simp add: buf_ok_def)
  then show "rc_inv st1 R" unfolding st1_def using rc_invD(8) [OF inv b] by (intro rc_inv_put [OF inv b]) auto
  show "ext st st1" unfolding st1_def by (rule ext_put [OF b, where x="[]"]) (simp_all add: by')
  show "bnexts st1 = bnexts st" unfolding st1_def by (rule bnexts_put_same [OF b]) simp
  have "(case cells st1 u of None \<Rightarrow> [] | Some c \<Rightarrow> bytes_of c) = (case cells st u of None \<Rightarrow> [] | Some c \<Rightarrow> bytes_of c)" for u
    using b by' by (simp add: st1_def)
  then show "contents st1 us = contents st us" by (simp add: contents_def)
  show "quota st1 = quota st" by (simp add: st1_def put_buf_def set_cell_def)
  show "dom (cells st1) = dom (cells st)" using b by (auto simp: st1_def)
  show "block st1 x m = block st x m" using b by (auto simp: st1_def block_def)
  show "buf_bytes st1 x = (if x = a then splice (bbuf b) (unat pos) xs else buf_bytes st x)" by (simp add: st1_def buf_bytes_def)
qed

lemma rx_memcpy:
  assumes rx: "rx st k as cs p" and "\<And>us. contents st1 us = contents st us" "bnexts st1 = bnexts st" "\<And>x m. block st1 x m = block st x m"
  shows "rx st1 k as cs p"
  using rx unfolding rx_def assms(2-4) .

lemma drop_splice: "pos \<le> length xs \<Longrightarrow> drop pos (splice xs pos ys) = ys @ drop (pos + length ys) xs"
  by (simp add: splice_def)

lemma scatter_law:
  assumes rx: "rx st k as cs p" and inv: "rc_inv st R" and l: "length xs \<le> 65536" and cs: "next_recv_pos k = 0 \<or> cs \<noteq> []"
  shows "\<exists>st2 rest. scatter st (recv_vecs k cs) xs = Some st2 \<and> rx st2 k as cs p \<and> rc_inv st2 R \<and> ext st st2 \<and>
    quota st2 = quota st \<and> dom (cells st2) = dom (cells st) \<and> area st2 k cs = xs @ rest"
proof (cases xs)
  case Nil
  then show ?thesis using assms by (intro exI [of _ st] exI [of _ "area st k cs"]) (simp add: recv_vecs_def)
next
  case (Cons x xs')
  let ?nb = "next_recv_buf k" and ?pos = "unat (next_recv_pos k)"
  define f where "f = BUFFER_SIZE - next_recv_pos k"
  obtain b where b: "cells st ?nb = Some b" "capacity b = BUFFER_SIZE" "bsize b = next_recv_pos k" using rx_chain_next [OF rx] by blast
  have pos: "?pos < 65536" using rxD(4) [OF rx] by (simp add: word_less_nat_alt)
  have uf: "unat f = 65536 - ?pos" using unat_sub_le [OF less_imp_le [OF rxD(4) [OF rx]]] by (simp add: f_def)
  have lb: "length (bbuf b) = 65536" using rc_invD(6) [OF inv b(1)] b(2) by (simp add: buf_ok_def)
  let ?ys = "take (unat f) xs" and ?zs = "drop (unat f) xs"
  define st1 where "st1 = put_buf st ?nb (b\<lparr>bbuf := splice (bbuf b) ?pos ?ys\<rparr>)"
  have le: "bsize b \<le> next_recv_pos k" "?pos + length ?ys \<le> unat (capacity b)" using b(2,3) uf pos by auto
  note m = memcpy_free [OF inv b(1) le, folded st1_def]
  have rx1: "rx st1 k as cs p" by (rule rx_memcpy [OF rx m(5,4,8)])
  have dr: "drop ?pos (buf_bytes st1 ?nb) = ?ys @ drop (?pos + length ?ys) (bbuf b)"
    using m(9) [of ?nb] drop_splice [of ?pos "bbuf b" ?ys] pos lb by simp
  have first: "scatter st (recv_vecs k cs) xs = scatter st1 (tl (recv_vecs k cs)) ?zs"
    using m(1) Cons by (simp add: recv_vecs_def f_def)
  show ?thesis
  proof (cases "?zs = []")
    case True
    then have "?ys = xs" by simp
    moreover have "scatter st (recv_vecs k cs) xs = Some st1" unfolding first True by simp
    moreover have "area st1 k cs = ?ys @ (drop (?pos + length ?ys) (bbuf b) @ concat (map (buf_bytes st1) cs))"
      using dr by (simp add: area_def)
    ultimately show ?thesis using rx1 m(2,3,6,7) by metis
  next
    case False
    then have nz: "next_recv_pos k \<noteq> 0" using l uf by auto
    then obtain c where c: "cs = [c]" using cs rxD(6) [OF rx] by (cases cs) auto
    have ys: "length ?ys = unat f" using False by simp
    obtain d where d: "cells st1 c = Some d" "capacity d = BUFFER_SIZE" "bsize d = 0" using rxD(5) [OF rx1, of c] c by (auto simp: block_def)
    have ld: "length (bbuf d) = 65536" using rc_invD(6) [OF m(2) d(1)] d(2) by (simp add: buf_ok_def)
    have zl: "length ?zs \<le> ?pos" using l uf pos by simp
    define st2 where "st2 = put_buf st1 c (d\<lparr>bbuf := splice (bbuf d) (unat (0::u32)) ?zs\<rparr>)"
    have le2: "bsize d \<le> 0" "unat (0::u32) + length ?zs \<le> unat (capacity d)" using d zl pos by auto
    note m2 = memcpy_free [OF m(2) d(1) le2, folded st2_def]
    have rx2: "rx st2 k as cs p" by (rule rx_memcpy [OF rx1 m2(5,4,8)])
    obtain z zs' where z: "?zs = z # zs'" using False by (cases ?zs) auto
    have tk: "take ?pos ?zs = ?zs" "drop ?pos ?zs = []" using zl by simp_all
    have "scatter st1 (tl (recv_vecs k cs)) ?zs = Some st2"
      using m2(1) tk nz c z by (simp add: recv_vecs_def)
    moreover have "?nb \<noteq> c" using chain_distinct [OF rxD(1) [OF rx]] c by auto
    then have "area st2 k cs = ?ys @ ?zs @ drop (length ?zs) (bbuf d)"
      using dr m2(9) ys uf lb c by (simp add: area_def splice_def)
    then have "area st2 k cs = xs @ drop (length ?zs) (bbuf d)" by (metis append_assoc append_take_drop_id)
    ultimately show ?thesis using first rx2 m2(2,6,7) ext_trans [OF m(3) m2(3)] m(6,7) by auto
  qed
qed

end
