(* ===== verification/Handler.thy ===== *)
theory Handler
  imports RecvMemory
begin

text \<open>
  The interface between the connections and the application: what the packet handler may rely on when
  it is called and what \<open>RecvFinish\<close> relies on when it returns, and from this the correctness of
  receiving: however the stream is cut into pieces by the network, the handler is given exactly its
  frames, in order.
\<close>

section \<open>The contract of packet handlers\<close>

definition same_send :: "connection \<Rightarrow> connection \<Rightarrow> bool" where
  "same_send k k' \<longleftrightarrow> send_list k' = send_list k \<and> send_used k' = send_used k \<and> wsendbuf k' = wsendbuf k \<and>
     c_socket k' = c_socket k \<and> c_raw k' = c_raw k \<and> c_mt k' = c_mt k"

definition same_recv :: "connection \<Rightarrow> connection \<Rightarrow> bool" where
  "same_recv k k' \<longleftrightarrow> (\<exists>l u v. k' = k\<lparr>send_list := l, send_used := u, wsendbuf := v\<rparr>)"

text \<open>The part of the reactor that receiving and its handlers leave as it is.\<close>

definition same_net :: "'u csys \<Rightarrow> 'u csys \<Rightarrow> bool" where
  "same_net s s' \<longleftrightarrow> (\<forall>h. GetSocketByHandle s' h = GetSocketByHandle s h) \<and> sys_results s' = sys_results s \<and>
     wire_in (user s') = wire_in (user s)"

text \<open>A step of the receiving side of the connection \<open>c\<close>.\<close>

definition recv_step :: "addr \<Rightarrow> 'u csys \<Rightarrow> 'u csys \<Rightarrow> bool" where
  "recv_step c s s' \<longleftrightarrow> (\<exists>k k'. con_at s c = Some k \<and> con_at s' c = Some k' \<and> same_send k k') \<and>
     (\<forall>d. d \<noteq> c \<longrightarrow> con_at s' d = con_at s d) \<and> app (user s') = app (user s) \<and>
     ext (bst (user s)) (bst (user s')) \<and> (act_inv s \<longrightarrow> act_inv s') \<and>
     (\<forall>h. GetSocketByHandle s' h = GetSocketByHandle s h)"

definition receiving ::
    "addr \<Rightarrow> addr multiset \<Rightarrow> 'u csys \<Rightarrow> connection \<Rightarrow> addr list \<Rightarrow> addr list \<Rightarrow> byte list \<Rightarrow> bool" where
  "receiving c R s k as cs p \<longleftrightarrow> con_at s c = Some k \<and> c_raw k = 0 \<and> rx (bst (user s)) k as cs p \<and>
     unat (unpack_size k) = length p \<and> rc_inv (bst (user s)) (rx_roots k + R)"

text \<open>The request of a connection that waits for data describes the free memory behind the stream.\<close>

definition posted :: "connection \<Rightarrow> addr list \<Rightarrow> bool" where
  "posted k cs \<longleftrightarrow> recv_used k \<and> wrecvbuf k = recv_vecs k cs \<and> (next_recv_pos k = 0 \<or> cs \<noteq> [])"

lemma put_simps [simp]:
  "con_at (put_con s c k) d = (if d = c then Some k else con_at s d)" "con_at (put_bst s st) d = con_at s d"
  "bst (user (put_bst s st)) = st" "bst (user (put_con s c k)) = bst (user s)"
  "app (user (put_bst s st)) = app (user s)" "app (user (put_con s c k)) = app (user s)"
  "wire_in (user (put_bst s st)) = wire_in (user s)" "wire_in (user (put_con s c k)) = wire_in (user s)"
  "wire_out (user (put_bst s st)) = wire_out (user s)" "wire_out (user (put_con s c k)) = wire_out (user s)"
  "sys_results (put_bst s st) = sys_results s" "sys_results (put_con s c k) = sys_results s"
  "socket_pool (put_bst s st) = socket_pool s" "socket_pool (put_con s c k) = socket_pool s"
  "engine_pool (put_bst s st) = engine_pool s" "engine_pool (put_con s c k) = engine_pool s"
  "io_err (put_bst s st) = io_err s" "io_err (put_con s c k) = io_err s"
  by (simp_all add: put_con_def put_bst_def upd_user_def con_at_def)

lemma put_net [simp]:
  "GetSocketByHandle (put_bst s st) h = GetSocketByHandle s h" "GetSocketByHandle (put_con s c k) h = GetSocketByHandle s h"
  "act_inv (put_bst s st) = act_inv s" "act_inv (put_con s c k) = act_inv s"
  by (simp_all add: GetSocketByHandle_def) (rule act_inv_pools; simp)+

lemma same_netI [intro]: "same_net s s" "same_net s (put_con s c k)" "same_net s (put_bst s st)"
  by (simp_all add: same_net_def)

lemma same_net_trans: "same_net a b \<Longrightarrow> same_net b c \<Longrightarrow> same_net a c"
  by (simp add: same_net_def)

lemma recv_step_put:
  assumes "con_at s c = Some k" "same_send k k'" "ext (bst (user s)) st"
  shows "recv_step c s (put_con (put_bst s st) c k')"
  using assms by (auto simp: recv_step_def)

lemma rx_same_recv: "same_recv k k' \<Longrightarrow> rx st k' as cs p = rx st k as cs p"
  by (auto simp: same_recv_def rx_def)

locale packet_handler =
  fixes hs :: "'u handlers" and c :: addr
    and good :: "'u csys \<Rightarrow> bool"
    and owners :: "'u csys \<Rightarrow> addr multiset"
    and seen :: "'u csys \<Rightarrow> byte list list"
    and gain :: nat
  assumes handle: "good s \<Longrightarrow> con_at s c = Some k \<Longrightarrow>
      rc_inv (bst (user s)) (rroots r + (rx_roots k + owners s)) \<Longrightarrow>
      few_refs (bst (user s)) (size (owners s) + 4 + gain) \<Longrightarrow> pkt (bst (user s)) r f \<Longrightarrow>
      \<exists>s' k'. process_packet hs c r s = Some s' \<and> good s' \<and> con_at s' c = Some k' \<and> same_recv k k' \<and>
        rc_inv (bst (user s')) (rx_roots k + owners s') \<and> same_bytes (bst (user s)) (bst (user s')) \<and>
        fresh (bst (user s')) = fresh (bst (user s)) \<and> quota (bst (user s')) = quota (bst (user s)) \<and>
        size (owners s') \<le> size (owners s) + gain \<and> same_net s s' \<and> seen s' = seen s @ [f]"
    and frame: "good s \<Longrightarrow> recv_step c s s' \<Longrightarrow> rc_inv (bst (user s)) P \<Longrightarrow> owners s \<subseteq># P \<Longrightarrow> rc_inv (bst (user s')) Q \<Longrightarrow> owners s \<subseteq># Q \<Longrightarrow>
      good s' \<and> owners s' = owners s \<and> seen s' = seen s"
begin

lemma unpack_law:
  assumes "good s" "receiving c (owners s) s k as cs p" "sane p"
    "few_refs (bst (user s)) (size (owners s) + 4 + gain * (1 + length p) + m)"
  shows "\<exists>s' k' as'. unpack_loop hs c pk s = Some s' \<and> good s' \<and> receiving c (owners s') s' k' as' cs (snd (frames p)) \<and>
    seen s' = seen s @ fst (frames p) \<and>
    few_refs (bst (user s')) (size (owners s') + 4 + gain * (1 + length (snd (frames p))) + m) \<and>
    quota (bst (user s')) = quota (bst (user s)) \<and> same_net s s' \<and> c_socket k' = c_socket k"
  using assms
proof (induction "length p" arbitrary: s k as p pk rule: less_induct)
  case less
  let ?st = "bst (user s)"
  define n where "n = le_val (take 4 p) + 4"
  have k: "con_at s c = Some k" "c_raw k = 0" "rx ?st k as cs p" "unat (unpack_size k) = length p"
    "rc_inv ?st (rx_roots k + owners s)" using less.prems(2) by (auto simp: receiving_def)
  show ?case
  proof (cases "length p \<le> 4 \<or> length p < n")
    case True
    then obtain pk' where "unpack_one ?st k pk = Some (?st, k, pk', None)"
      using unpack_one_wait [OF k(3,5,2,4) _ less.prems(3)] by (auto simp: n_def)
    moreover have same: "put_con (put_bst s ?st) c k = s"
      using k(1) by (simp add: put_con_def put_bst_def upd_user_def con_at_def fun_upd_idem)
    ultimately have run: "unpack_loop hs c pk s = Some s" using k(1) by (subst unpack_loop.simps) simp
    have "frames p = ([], p)" using True frames_short frames_wait by (auto simp: n_def)
    then show ?thesis using run less.prems same_netI(1) by (intro exI [of _ s] exI [of _ k] exI [of _ as]) simp
  next
    case False
    then have n: "4 < length p" "n \<le> length p" by auto
    have "few_refs ?st (size (owners s) + 4)" using less.prems(4) by (rule few_refs_less) simp
    then obtain st pos sz ub as' r pk' where u: "unpack_one ?st k pk =
        Some (st, k\<lparr>unpack_pos := pos, unpack_size := sz, unpack_buf := ub\<rparr>, pk', Some r)"
      "rx st (k\<lparr>unpack_pos := pos, unpack_size := sz, unpack_buf := ub\<rparr>) as' cs (drop n p)" "unat sz = length p - n"
      "rc_inv st (rroots r + (rx_roots (k\<lparr>unpack_buf := ub\<rparr>) + owners s))" "pkt st r (take n p)"
      "same_bytes ?st st" "fresh st = fresh ?st" "quota st = quota ?st"
      using unpack_one_packet [OF k(3,5,2,4) _ n(1) n_def n(2), of pk] by blast
    define k1 where "k1 = k\<lparr>unpack_pos := pos, unpack_size := sz, unpack_buf := ub\<rparr>"
    define s1 where "s1 = put_con (put_bst s st) c k1"
    have "recv_step c s s1" unfolding s1_def
      by (rule recv_step_put [OF k(1)]) (simp_all add: same_send_def k1_def ext_same_bytes [OF u(4,6,7)])
    moreover have b1: "bst (user s1) = st" by (simp add: s1_def)
    ultimately have f1: "good s1" "owners s1 = owners s" "seen s1 = seen s"
      using frame [OF less.prems(1), of s1, OF _ k(5)] u(4) by auto
    have rc1: "rc_inv (bst (user s1)) (rroots r + (rx_roots k1 + owners s1))"
      using u(4) f1(2) by (simp add: b1 k1_def rx_roots_def)
    have few1: "few_refs st (size (owners s) + 4 + gain * (1 + length p) + m)"
      by (rule few_refs_shrink [OF less.prems(4) k(5) u(6)])
    then have few2: "few_refs (bst (user s1)) (size (owners s1) + 4 + gain)"
      unfolding b1 f1(2) by (rule few_refs_less) simp
    have c1: "con_at s1 c = Some k1" by (simp add: s1_def)
    obtain s2 k2 where s2: "process_packet hs c r s1 = Some s2" "good s2" "con_at s2 c = Some k2" "same_recv k1 k2"
      "rc_inv (bst (user s2)) (rx_roots k1 + owners s2)" "same_bytes st (bst (user s2))" "fresh (bst (user s2)) = fresh st"
      "quota (bst (user s2)) = quota st" "size (owners s2) \<le> size (owners s) + gain" "same_net s1 s2"
      "seen s2 = seen s @ [take n p]"
      using handle [OF f1(1) c1 rc1 few2] u(5) unfolding b1 f1(2,3) by blast
    have ul: "cells (bst (user s2)) (unpack_buf k1) \<noteq> None" using rc_invD(5) [OF s2(5), of "unpack_buf k1"] by (simp add: rx_roots_def)
    have "rx (bst (user s2)) k1 as' cs (drop n p)" by (rule rx_same_bytes [OF u(2) [folded k1_def] s2(5,6) ul])
    then have rec2: "receiving c (owners s2) s2 k2 as' cs (drop n p)"
      using s2(3,4,5) k(2) u(3) rx_same_recv [OF s2(4)] by (auto simp: receiving_def same_recv_def k1_def rx_roots_def)
    have fr: "frames p = (take n p # fst (frames (drop n p)), snd (frames (drop n p)))" by (rule frames_step [OF n(1) n_def n(2)])
    have sn: "sane (drop n p)" using less.prems(3) sane_step [OF n(1) n_def] n(2) by simp
    have nn: "1 \<le> n" by (simp add: n_def)
    have "few_refs (bst (user s2)) (size (owners s2) + 4 + gain * (1 + length (drop n p)) + m)"
    proof (rule few_refs_less [OF few_refs_shrink [OF few1 u(4) s2(6)]])
      have "gain + gain * (1 + length (drop n p)) \<le> gain * (1 + length p)"
        using mult_le_mono2 [of "2 + length (drop n p)" "1 + length p" gain] n nn by (simp add: algebra_simps)
      then show "size (owners s2) + 4 + gain * (1 + length (drop n p)) + m \<le> size (owners s) + 4 + gain * (1 + length p) + m"
        using s2(9) by linarith
    qed
    moreover have "length (drop n p) < length p" using n nn by simp
    ultimately obtain s' k' as'' where fin: "unpack_loop hs c pk' s2 = Some s'" "good s'"
      "receiving c (owners s') s' k' as'' cs (snd (frames (drop n p)))" "seen s' = seen s2 @ fst (frames (drop n p))"
      "few_refs (bst (user s')) (size (owners s') + 4 + gain * (1 + length (snd (frames (drop n p)))) + m)"
      "quota (bst (user s')) = quota (bst (user s2))" "same_net s2 s'" "c_socket k' = c_socket k2"
      using less.hyps [OF _ s2(2) rec2 sn, of pk'] by blast
    have run: "unpack_loop hs c pk s = unpack_loop hs c pk' s2"
      using k(1) u(1) s2(1) unfolding k1_def [symmetric] s1_def [symmetric]
      by (subst unpack_loop.simps) (simp add: k1_def [symmetric] s1_def [symmetric])
    have "same_net s s1" unfolding s1_def using same_net_trans same_netI by blast
    then have "same_net s s'" using same_net_trans s2(10) fin(7) by blast
    moreover have "c_socket k' = c_socket k" using fin(8) s2(4) by (auto simp: same_recv_def k1_def)
    ultimately show ?thesis using run fin(1-6) s2(8,11) u(8) by (intro exI [of _ s'] exI [of _ k'] exI [of _ as'']) (simp add: fr)
  qed
qed

end

section \<open>Receiving a stream\<close>

lemma upd_user_simps [simp]:
  "user (upd_user s f) = f (user s)" "sys_results (upd_user s f) = sys_results s"
  "socket_pool (upd_user s f) = socket_pool s" "engine_pool (upd_user s f) = engine_pool s"
  by (simp_all add: upd_user_def)

lemma upd_user_net [simp]:
  "GetSocketByHandle (upd_user s f) h = GetSocketByHandle s h" "act_inv (upd_user s f) = act_inv s"
  by (simp_all add: GetSocketByHandle_def) (rule act_inv_pools; simp)

lemma upd_sock_lookup:
  assumes "\<And>s. sstatus (f s) = sstatus s"
  shows "GetSocketByHandle (upd_sock n i f) h = GetSocketByHandle n h"
proof -
  have "sstatus ((socket_pool n)[i := f (socket_pool n ! i)] ! j) = sstatus (socket_pool n ! j)" for j
    by (cases "i < length (socket_pool n)"; cases "j = i") (simp_all add: assms list_update_beyond)
  then show ?thesis by (simp add: GetSocketByHandle_def upd_sock_def)
qed

text \<open>The outcome of \<open>WSARecv\<close> with \<open>now\<close> set, for a call that delivers \<open>m\<close> bytes and for one that would block.\<close>

lemma WSARecv_now:
  assumes i: "GetSocketByHandle s h = Some i"
  shows "sys_results s = (int m, e) # rs \<Longrightarrow> WSARecv s h io True = Some (s\<lparr>sys_results := rs\<rparr>, int m, 0)"
    "sys_results s = [] \<Longrightarrow> \<exists>s'. WSARecv s h io True = Some (s', -1, EAGAIN) \<and> user s' = user s \<and> sys_results s' = [] \<and>
      (act_inv s \<longrightarrow> act_inv s') \<and> (\<forall>h. GetSocketByHandle s' h = GetSocketByHandle s h)"
proof -
  show "sys_results s = (int m, e) # rs \<Longrightarrow> WSARecv s h io True = Some (s\<lparr>sys_results := rs\<rparr>, int m, 0)"
    using i by (simp add: WSARecv_def raw_recv_def sys_def)
  assume "sys_results s = []"
  then have "WSARecv s h io True = Some (upd_sock s i (\<lambda>s. s\<lparr>readable := False, pending_recv := io # pending_recv s\<rparr>), -1, EAGAIN)"
    using i by (simp add: WSARecv_def raw_recv_def sys_def)
  then show "\<exists>s'. WSARecv s h io True = Some (s', -1, EAGAIN) \<and> user s' = user s \<and> sys_results s' = [] \<and>
      (act_inv s \<longrightarrow> act_inv s') \<and> (\<forall>h. GetSocketByHandle s' h = GetSocketByHandle s h)"
    using \<open>sys_results s = []\<close>
      upd_sock_inv [of s "\<lambda>s. s\<lparr>readable := False, pending_recv := io # pending_recv s\<rparr>" i]
      upd_sock_lookup [of "\<lambda>s. s\<lparr>readable := False, pending_recv := io # pending_recv s\<rparr>" s i]
    by (simp add: upd_sock_def)
qed

lemma post_recv_law:
  assumes rec: "receiving c R s k as cs p" and few: "few_refs (bst (user s)) (N + quota (bst (user s)))"
    and q: "0 < spare (bst (user s)) cs" and h: "GetSocketByHandle s (c_socket k) = Some i"
  shows "sys_results s = (int m, e) # rs \<Longrightarrow> m \<le> 65536 \<Longrightarrow> m \<le> length (wire_in (user s) c) \<Longrightarrow>
    \<exists>s' k' cs' rest. post_recv c s = Some (s', int m, 0) \<and> receiving c R s' k' as cs' p \<and>
      area (bst (user s')) k' cs' = take m (wire_in (user s) c) @ rest \<and> recv_step c s s' \<and>
      few_refs (bst (user s')) (N + quota (bst (user s'))) \<and> spare (bst (user s')) cs' = spare (bst (user s)) cs \<and>
      sys_results s' = rs \<and> wire_in (user s') c = drop m (wire_in (user s) c) \<and> c_socket k' = c_socket k"
    "sys_results s = [] \<Longrightarrow>
    \<exists>s' k' cs'. post_recv c s = Some (s', -1, EAGAIN) \<and> receiving c R s' k' as cs' p \<and> recv_step c s s' \<and>
      wire_in (user s') = wire_in (user s) \<and> posted k' cs' \<and> sys_results s' = [] \<and> c_socket k' = c_socket k"
proof -
  let ?st = "bst (user s)"
  have k: "con_at s c = Some k" "c_raw k = 0" "rx ?st k as cs p" "unat (unpack_size k) = length p"
    "rc_inv ?st (rx_roots k + R)" using rec by (auto simp: receiving_def)
  obtain st1 cs1 where v: "recv_iovecs ?st (c_mt k) (next_recv_buf k) (next_recv_pos k) BUFFER_SIZE [] = Some (st1, recv_vecs k cs1)"
    "rx st1 k as cs1 p" "rc_inv st1 (rx_roots k + R)" "ext ?st st1" "few_refs st1 (N + quota st1)"
    "spare st1 cs1 = spare ?st cs" "next_recv_pos k = 0 \<or> cs1 \<noteq> []"
    using recv_iovecs_law [OF k(3,5) few q] by blast
  define k1 where "k1 = k\<lparr>recv_used := True, wrecvbuf := recv_vecs k cs1\<rparr>"
  define s1 where "s1 = put_con (put_bst s st1) c k1"
  have rk: "rx st k1 as cs1 p = rx st k as cs1 p" "area st k1 cs1 = area st k cs1" "recv_vecs k1 = recv_vecs k" for st
    by (simp_all add: rx_def k1_def area_def recv_vecs_def fun_eq_iff)
  have step1: "same_send k k1" by (simp add: same_send_def k1_def)
  have h1: "GetSocketByHandle s1 (c_socket k) = Some i" using h by (simp add: s1_def)
  have u1: "unat (unpack_size k1) = length p" "c_raw k1 = 0" "rx_roots k1 = rx_roots k" "c_socket k1 = c_socket k"
    using k by (simp_all add: k1_def rx_roots_def)
  {
    assume a: "sys_results s = (int m, e) # rs" "m \<le> 65536" "m \<le> length (wire_in (user s) c)"
    let ?d = "take m (wire_in (user s) c)"
    have "length ?d \<le> 65536" using a(2) by simp
    then obtain st2 rest where t: "scatter st1 (recv_vecs k cs1) ?d = Some st2" "rx st2 k as cs1 p" "rc_inv st2 (rx_roots k + R)"
      "ext st1 st2" "quota st2 = quota st1" "dom (cells st2) = dom (cells st1)" "area st2 k cs1 = ?d @ rest"
      using scatter_law [OF v(2,3) _ v(7)] by blast
    define s2 where "s2 = s1\<lparr>sys_results := rs\<rparr>"
    define s3 where "s3 = upd_user s2 (\<lambda>u. u\<lparr>bst := st2, wire_in := (wire_in u)(c := drop m (wire_in u c))\<rparr>)"
    have w: "WSARecv s1 (c_socket k) (2 * c) True = Some (s2, int m, 0)"
      unfolding s2_def by (rule WSARecv_now(1) [OF h1, of _ e]) (simp add: s1_def a(1))
    have us: "user s2 = user s1" by (simp add: s2_def)
    have c2: "con_at s2 c = Some k1" "wire_in (user s2) = wire_in (user s)" "bst (user s2) = st1"
      by (simp_all add: con_at_def us) (simp_all add: s1_def con_at_def [symmetric])
    have "readv_data c (int m) s2 = Some s3"
      using c2 a(3) t(1) by (simp add: readv_data_def s3_def k1_def)
    then have run: "post_recv c s = Some (s3, int m, 0)"
      using k(1) v(1) w by (simp add: post_recv_def Let_def k1_def [symmetric] s1_def [symmetric])
    have c3: "con_at s3 d = (if d = c then Some k1 else con_at s d)" "bst (user s3) = st2" "app (user s3) = app (user s)" for d
      using us by (auto simp: s3_def con_at_def) (simp_all add: s1_def con_at_def [symmetric])
    have act: "act_inv s3 = act_inv s" "GetSocketByHandle s3 h = GetSocketByHandle s h" for h
      by (simp_all add: s3_def s2_def s1_def GetSocketByHandle_def)
    have "recv_step c s s3" using k(1) c3 step1 act ext_trans [OF v(4) t(4)] unfolding recv_step_def by auto
    moreover have "receiving c R s3 k1 as cs1 p" using c3 t(2,3) rk(1) u1 by (simp add: receiving_def)
    moreover have "few_refs st2 (N + quota st2)" using v(5) t(5,6) by (simp add: few_refs_def)
    moreover have "spare st2 cs1 = spare ?st cs" using v(6) t(5) by (simp add: spare_def)
    moreover have "sys_results s3 = rs" "wire_in (user s3) c = drop m (wire_in (user s) c)" using c2 by (simp_all add: s3_def s2_def)
    moreover have "area (bst (user s3)) k1 cs1 = ?d @ rest" using c3(2) t(7) rk(2) by simp
    ultimately show "\<exists>s' k' cs' rest. post_recv c s = Some (s', int m, 0) \<and> receiving c R s' k' as cs' p \<and>
      area (bst (user s')) k' cs' = ?d @ rest \<and> recv_step c s s' \<and>
      few_refs (bst (user s')) (N + quota (bst (user s'))) \<and> spare (bst (user s')) cs' = spare (bst (user s)) cs \<and>
      sys_results s' = rs \<and> wire_in (user s') c = drop m (wire_in (user s) c) \<and> c_socket k' = c_socket k"
      using run c3(2) u1(4) by blast
  }
  assume "sys_results s = []"
  then have "sys_results s1 = []" by (simp add: s1_def)
  from WSARecv_now(2) [OF h1 this, of "2 * c"] obtain s2 where w: "WSARecv s1 (c_socket k) (2 * c) True = Some (s2, -1, EAGAIN)"
    "user s2 = user s1" "sys_results s2 = []" "act_inv s1 \<longrightarrow> act_inv s2" "\<forall>h. GetSocketByHandle s2 h = GetSocketByHandle s1 h"
    by blast
  have c2: "con_at s2 d = (if d = c then Some k1 else con_at s d)" "wire_in (user s2) = wire_in (user s)" "bst (user s2) = st1"
    "app (user s2) = app (user s)" for d
    by (simp_all add: con_at_def w(2)) (simp_all add: s1_def con_at_def [symmetric])
  have "upd_user s2 (\<lambda>u. u\<lparr>bst := st1, wire_in := (wire_in u)(c := wire_in u c)\<rparr>) = s2"
    using c2(3) by (simp add: upd_user_def)
  then have "readv_data c (-1) s2 = Some s2" using c2 by (simp add: readv_data_def)
  then have "post_recv c s = Some (s2, -1, EAGAIN)"
    using k(1) v(1) w(1) by (simp add: post_recv_def Let_def k1_def [symmetric] s1_def [symmetric])
  moreover have "receiving c R s2 k1 as cs1 p" using c2 v(2,3) rk(1) u1 by (simp add: receiving_def)
  moreover have "recv_step c s s2" using k(1) c2 step1 v(4) w(4,5) unfolding recv_step_def s1_def by auto
  moreover have "posted k1 cs1" using v(7) unfolding posted_def rk(3) by (simp add: k1_def)
  ultimately show "\<exists>s' k' cs'. post_recv c s = Some (s', -1, EAGAIN) \<and> receiving c R s' k' as cs' p \<and> recv_step c s s' \<and>
      wire_in (user s') = wire_in (user s) \<and> posted k' cs' \<and> sys_results s' = [] \<and> c_socket k' = c_socket k"
    using c2(2) w(3) u1(4) by blast
qed

context packet_handler
begin

text \<open>One round of \<open>RecvFinish\<close>: the bytes \<open>d\<close> that arrived join the stream and its frames go to the handler.\<close>

lemma recv_round:
  assumes g: "good s" and rec: "receiving c (owners s) s k as cs p" and ar: "area (bst (user s)) k cs = d @ rest"
    and l: "length p + length d < 2 ^ 32" "length d \<le> spare (bst (user s)) cs" and sn: "sane (p @ d)"
    and few: "few_refs (bst (user s)) (size (owners s) + 4 + gain * (1 + length (p @ d)) + m + quota (bst (user s)))"
  shows "\<exists>st k1 s1 k' as' cs'. update_next_recv_pos (bst (user s)) k (word_of_nat (length d)) = Some (st, k1) \<and>
    unpack hs c (put_con (put_bst s st) c (k1\<lparr>unpack_size := unpack_size k1 + word_of_nat (length d)\<rparr>)) = Some s1 \<and>
    good s1 \<and> receiving c (owners s1) s1 k' as' cs' (snd (frames (p @ d))) \<and> seen s1 = seen s @ fst (frames (p @ d)) \<and>
    few_refs (bst (user s1)) (size (owners s1) + 4 + gain * (1 + length (snd (frames (p @ d)))) + m + quota (bst (user s1))) \<and>
    spare (bst (user s)) cs \<le> spare (bst (user s1)) cs' + length d \<and> same_net s s1 \<and> c_socket k' = c_socket k"
proof -
  let ?st = "bst (user s)" and ?R = "owners s" and ?n = "word_of_nat (length d) :: u32"
  define N where "N = size ?R + 4 + gain * (1 + length (p @ d)) + m"
  have k: "con_at s c = Some k" "c_raw k = 0" "rx ?st k as cs p" "unat (unpack_size k) = length p"
    "rc_inv ?st (rx_roots k + ?R)" using rec by (auto simp: receiving_def)
  have n: "unat ?n = length d" using l(1) by (simp add: unat_of_nat)
  have N: "few_refs ?st (N + quota ?st)" "size ?R + 2 \<le> N" using few by (simp_all add: N_def)
  obtain st nb pos as1 cs1 where u: "update_next_recv_pos ?st k ?n = Some (st, k\<lparr>next_recv_buf := nb, next_recv_pos := pos\<rparr>)"
    "rx st (k\<lparr>next_recv_buf := nb, next_recv_pos := pos\<rparr>) as1 cs1 (p @ d)"
    "rc_inv st (rx_roots (k\<lparr>next_recv_buf := nb, next_recv_pos := pos\<rparr>) + ?R)" "ext ?st st" "few_refs st (N + quota st)"
    "spare ?st cs \<le> spare st cs1 + length d"
    using update_next_recv_pos_law [OF k(3,5) N ar n l(2)] by blast
  define k1 where "k1 = k\<lparr>next_recv_buf := nb, next_recv_pos := pos\<rparr>"
  define k2 where "k2 = k1\<lparr>unpack_size := unpack_size k1 + ?n\<rparr>"
  define s0 where "s0 = put_con (put_bst s st) c k2"
  have "recv_step c s s0" unfolding s0_def
    by (rule recv_step_put [OF k(1) _ u(4)]) (simp add: same_send_def k2_def k1_def)
  moreover have b0: "bst (user s0) = st" by (simp add: s0_def)
  ultimately have f: "good s0" "owners s0 = ?R" "seen s0 = seen s" using frame [OF g, of s0, OF _ k(5)] u(3) by auto
  have sz: "unat (unpack_size k + ?n) = length (p @ d)" using l(1) k(4) n by (simp add: unat_word_ariths)
  have rec0: "receiving c (owners s0) s0 k2 as1 cs1 (p @ d)"
    unfolding receiving_def f(2) b0
    using u(2,3) k(2) sz by (simp add: s0_def k2_def k1_def rx_unpack_size rx_roots_def)
  have few0: "few_refs (bst (user s0)) (size (owners s0) + 4 + gain * (1 + length (p @ d)) + (m + quota st))"
    using u(5) unfolding b0 f(2) N_def by (simp add: add.assoc)
  obtain s1 k' as' where s1: "unpack_loop hs c 0 s0 = Some s1" "good s1" "receiving c (owners s1) s1 k' as' cs1 (snd (frames (p @ d)))"
    "seen s1 = seen s0 @ fst (frames (p @ d))"
    "few_refs (bst (user s1)) (size (owners s1) + 4 + gain * (1 + length (snd (frames (p @ d)))) + (m + quota st))"
    "quota (bst (user s1)) = quota (bst (user s0))" "same_net s0 s1" "c_socket k' = c_socket k2"
    using unpack_law [OF f(1) rec0 sn few0, of 0] by blast
  have "same_net s s0" unfolding s0_def using same_net_trans same_netI by blast
  then have "same_net s s1" using same_net_trans s1(7) by blast
  moreover have "spare ?st cs \<le> spare (bst (user s1)) cs1 + length d" using u(6) s1(6) b0 by (simp add: spare_def)
  moreover have "unpack hs c (put_con (put_bst s st) c (k1\<lparr>unpack_size := unpack_size k1 + ?n\<rparr>)) = Some s1"
    using s1(1) by (simp add: unpack_def s0_def k2_def)
  moreover have "c_socket k' = c_socket k" using s1(8) by (simp add: k2_def k1_def)
  ultimately show ?thesis using u(1) s1 f(3) b0 unfolding k1_def [symmetric]
    by (intro exI [of _ st] exI [of _ k1] exI [of _ s1] exI [of _ k'] exI [of _ as'] exI [of _ cs1]) (simp add: add.assoc)
qed

text \<open>
  \<open>RecvFinish\<close> is called with the first \<open>d\<close> bytes in place and goes on until the system has no more
  data; \<open>ns\<close> are the sizes in which the rest of the stream is delivered.
\<close>

lemma RecvFinish_law:
  assumes "good s" "receiving c (owners s) s k as cs p" "area (bst (user s)) k cs = d @ rest" "d \<noteq> []"
    "sys_results s = map (\<lambda>m. (int m, 0)) ns" "\<forall>m \<in> set ns. 0 < m \<and> m \<le> 65536" "sum_list ns \<le> length (wire_in (user s) c)"
    "GetSocketByHandle s (c_socket k) \<noteq> None"
    "length p + length d + sum_list ns < 2 ^ 32" "sane (p @ d @ take (sum_list ns) (wire_in (user s) c))"
    "length d + sum_list ns < spare (bst (user s)) cs"
    "few_refs (bst (user s)) (size (owners s) + 4 + gain * (1 + length p + length d + sum_list ns) + quota (bst (user s)))"
  shows "\<exists>s' k' as' cs'. RecvFinish_loop hs c (int (length d)) err s = Some s' \<and> good s' \<and>
    receiving c (owners s') s' k' as' cs' (snd (frames (p @ d @ take (sum_list ns) (wire_in (user s) c)))) \<and>
    seen s' = seen s @ fst (frames (p @ d @ take (sum_list ns) (wire_in (user s) c))) \<and>
    wire_in (user s') c = drop (sum_list ns) (wire_in (user s) c) \<and> posted k' cs' \<and> sys_results s' = [] \<and> c_socket k' = c_socket k"
  using assms
proof (induction ns arbitrary: s k as cs p d rest err)
  case Nil
  let ?st = "bst (user s)"
  have pos: "\<not> int (length d) = 0" "\<not> int (length d) < 0" using Nil.prems(4) by auto
  have kc: "con_at s c = Some k" using Nil.prems(2) by (simp add: receiving_def)
  have pre: "sane (p @ d)" "length p + length d < 2 ^ 32" "length d \<le> spare ?st cs"
    "few_refs ?st (size (owners s) + 4 + gain * (1 + length (p @ d)) + 0 + quota ?st)"
    using Nil.prems(9-12) by (simp_all add: add.assoc)
  obtain st k1 s1 k' as' cs' where r: "update_next_recv_pos ?st k (word_of_nat (length d)) = Some (st, k1)"
    "unpack hs c (put_con (put_bst s st) c (k1\<lparr>unpack_size := unpack_size k1 + word_of_nat (length d)\<rparr>)) = Some s1"
    "good s1" "receiving c (owners s1) s1 k' as' cs' (snd (frames (p @ d)))" "seen s1 = seen s @ fst (frames (p @ d))"
    "few_refs (bst (user s1)) (size (owners s1) + 4 + gain * (1 + length (snd (frames (p @ d)))) + 0 + quota (bst (user s1)))"
    "spare ?st cs \<le> spare (bst (user s1)) cs' + length d" "same_net s s1" "c_socket k' = c_socket k"
    using recv_round [OF Nil.prems(1-3) pre(2,3,1,4)] by blast
  obtain i where i: "GetSocketByHandle s1 (c_socket k') = Some i" using Nil.prems(8) r(8,9) by (auto simp: same_net_def)
  have sp: "0 < spare (bst (user s1)) cs'" using r(7) Nil.prems(11) by simp
  have sy: "sys_results s1 = []" using Nil.prems(5) r(8) by (simp add: same_net_def)
  obtain s2 k2 cs2 where p2: "post_recv c s1 = Some (s2, -1, EAGAIN)" "receiving c (owners s1) s2 k2 as' cs2 (snd (frames (p @ d)))"
    "recv_step c s1 s2" "wire_in (user s2) = wire_in (user s1)" "posted k2 cs2" "sys_results s2 = []" "c_socket k2 = c_socket k'"
    using post_recv_law(2) [OF r(4,6) sp i sy] by blast
  have f2: "good s2" "owners s2 = owners s1" "seen s2 = seen s1"
    using frame [OF r(3) p2(3), of "rx_roots k' + owners s1" "rx_roots k2 + owners s1"] p2(2) r(4) by (auto simp: receiving_def)
  have k2: "con_at s2 c = Some k2" using p2(2) by (simp add: receiving_def)
  have stop: "RecvFinish_loop hs c (-1) EAGAIN s2 = Some s2" using k2 by (subst RecvFinish_loop.simps) simp
  have "RecvFinish_loop hs c (int (length d)) err s = Some s2"
    using kc pos r(1,2) p2(1) stop by (subst RecvFinish_loop.simps) simp
  moreover have "wire_in (user s2) c = wire_in (user s) c" using p2(4) r(8) by (simp add: same_net_def)
  ultimately show ?case using f2 p2(2,5,6,7) r(5,9) by (intro exI [of _ s2] exI [of _ k2] exI [of _ as'] exI [of _ cs2]) simp
next
  case (Cons m ns)
  let ?st = "bst (user s)" and ?w = "wire_in (user s) c"
  have pos: "\<not> int (length d) = 0" "\<not> int (length d) < 0" using Cons.prems(4) by auto
  have kc: "con_at s c = Some k" using Cons.prems(2) by (simp add: receiving_def)
  have m: "0 < m" "m \<le> 65536" "m + sum_list ns \<le> length ?w" using Cons.prems(6,7) by auto
  define d' where "d' = take m ?w"
  have w: "take (sum_list (m # ns)) ?w = d' @ take (sum_list ns) (drop m ?w)" by (simp add: d'_def take_add)
  have ld: "length d' = m" using m by (simp add: d'_def)
  have s1: "sane (p @ d)" "sane (snd (frames (p @ d)) @ d' @ take (sum_list ns) (drop m ?w))"
    using sane_append [of "p @ d" "d' @ take (sum_list ns) (drop m ?w)"] Cons.prems(10) unfolding w by simp_all
  have pre: "length p + length d < 2 ^ 32" "length d \<le> spare ?st cs" using Cons.prems(9,11) by simp_all
  have few: "few_refs ?st (size (owners s) + 4 + gain * (1 + length (p @ d)) + gain * (m + sum_list ns) + quota ?st)"
    using Cons.prems(12) by (rule few_refs_less) (simp add: algebra_simps)
  obtain st k1 s1 k' as' cs' where r: "update_next_recv_pos ?st k (word_of_nat (length d)) = Some (st, k1)"
    "unpack hs c (put_con (put_bst s st) c (k1\<lparr>unpack_size := unpack_size k1 + word_of_nat (length d)\<rparr>)) = Some s1"
    "good s1" "receiving c (owners s1) s1 k' as' cs' (snd (frames (p @ d)))" "seen s1 = seen s @ fst (frames (p @ d))"
    "few_refs (bst (user s1)) (size (owners s1) + 4 + gain * (1 + length (snd (frames (p @ d)))) + gain * (m + sum_list ns) + quota (bst (user s1)))"
    "spare ?st cs \<le> spare (bst (user s1)) cs' + length d" "same_net s s1" "c_socket k' = c_socket k"
    using recv_round [OF Cons.prems(1-3) pre s1(1) few] by blast
  let ?q = "snd (frames (p @ d))"
  have lq: "length ?q \<le> length p + length d" using arg_cong [OF frames_concat [of "p @ d"], of length] by simp
  obtain i where i: "GetSocketByHandle s1 (c_socket k') = Some i" using Cons.prems(8) r(8,9) by (auto simp: same_net_def)
  have sp: "0 < spare (bst (user s1)) cs'" using r(7) Cons.prems(11) by simp
  have sy: "sys_results s1 = (int m, 0) # map (\<lambda>m. (int m, 0)) ns" using Cons.prems(5) r(8) by (simp add: same_net_def)
  have wi: "wire_in (user s1) = wire_in (user s)" using r(8) by (simp add: same_net_def)
  obtain s2 k2 cs2 rest2 where p2: "post_recv c s1 = Some (s2, int m, 0)" "receiving c (owners s1) s2 k2 as' cs2 ?q"
    "area (bst (user s2)) k2 cs2 = d' @ rest2" "recv_step c s1 s2"
    "few_refs (bst (user s2)) (size (owners s1) + 4 + gain * (1 + length ?q) + gain * (m + sum_list ns) + quota (bst (user s2)))"
    "spare (bst (user s2)) cs2 = spare (bst (user s1)) cs'" "sys_results s2 = map (\<lambda>m. (int m, 0)) ns"
    "wire_in (user s2) c = drop m ?w" "c_socket k2 = c_socket k'"
    using post_recv_law(1) [OF r(4,6) sp i sy m(2)] m(3) unfolding wi d'_def by auto
  have f2: "good s2" "owners s2 = owners s1" "seen s2 = seen s1"
    using frame [OF r(3) p2(4), of "rx_roots k' + owners s1" "rx_roots k2 + owners s1"] p2(2) r(4) by (auto simp: receiving_def)
  have sock: "GetSocketByHandle s2 (c_socket k2) \<noteq> None" using p2(4,9) i by (simp add: recv_step_def)
  have b: "length ?q + length d' + sum_list ns < 2 ^ 32" "length d' + sum_list ns < spare (bst (user s2)) cs2"
    using lq ld Cons.prems(9,11) r(7) p2(6) by simp_all
  have few2: "few_refs (bst (user s2)) (size (owners s2) + 4 + gain * (1 + length ?q + length d' + sum_list ns) + quota (bst (user s2)))"
    using p2(5) unfolding f2(2) ld by (rule few_refs_less) (simp add: algebra_simps)
  have ne: "d' \<noteq> []" using ld m(1) by auto
  have rec2: "receiving c (owners s2) s2 k2 as' cs2 ?q" using p2(2) f2(2) by simp
  have w2: "\<forall>m \<in> set ns. 0 < m \<and> m \<le> 65536" "sum_list ns \<le> length (wire_in (user s2) c)"
    "sane (?q @ d' @ take (sum_list ns) (wire_in (user s2) c))"
    using Cons.prems(6) m(3) s1(2) unfolding p2(8) by simp_all
  obtain s' k3 as3 cs3 where fin: "RecvFinish_loop hs c (int (length d')) 0 s2 = Some s'" "good s'"
    "receiving c (owners s') s' k3 as3 cs3 (snd (frames (?q @ d' @ take (sum_list ns) (drop m ?w))))"
    "seen s' = seen s2 @ fst (frames (?q @ d' @ take (sum_list ns) (drop m ?w)))"
    "wire_in (user s') c = drop (sum_list ns) (drop m ?w)" "posted k3 cs3" "sys_results s' = []" "c_socket k3 = c_socket k2"
    using Cons.IH [OF f2(1) rec2 p2(3) ne p2(7) w2(1,2) sock b(1) w2(3) b(2) few2, of 0] unfolding p2(8) by blast
  have run: "RecvFinish_loop hs c (int (length d)) err s = Some s'"
    using kc pos r(1,2) p2(1) fin(1) unfolding ld by (subst RecvFinish_loop.simps) simp
  have fr: "frames (p @ d @ take (sum_list (m # ns)) ?w) =
      (fst (frames (p @ d)) @ fst (frames (?q @ d' @ take (sum_list ns) (drop m ?w))), snd (frames (?q @ d' @ take (sum_list ns) (drop m ?w))))"
    unfolding w using frames_append [of "p @ d" "d' @ take (sum_list ns) (drop m ?w)"] by simp
  show ?case
    unfolding fr using run fin f2(3) r(5,9) p2(9) by (intro exI [of _ s'] exI [of _ k3] exI [of _ as3] exI [of _ cs3]) (simp add: add.commute)
qed

text \<open>The callback of the reactor for a receive of \<open>n\<close> bytes on a connection that waits.\<close>

lemma receive_law:
  assumes g: "good s" and rec: "receiving c (owners s) s k as cs p" and post: "posted k cs"
    and sys: "sys_results s = map (\<lambda>m. (int m, 0)) ns" and n: "\<forall>m \<in> set (n # ns). 0 < m \<and> m \<le> 65536"
    and w: "sum_list (n # ns) \<le> length (wire_in (user s) c)" and h: "GetSocketByHandle s (c_socket k) \<noteq> None"
    and l: "length p + sum_list (n # ns) < 2 ^ 32" and sn: "sane (p @ take (sum_list (n # ns)) (wire_in (user s) c))"
    and sp: "sum_list (n # ns) < spare (bst (user s)) cs"
    and few: "few_refs (bst (user s)) (size (owners s) + 4 + gain * (1 + length p + sum_list (n # ns)) + quota (bst (user s)))"
  shows "\<exists>s' k' as' cs'. conn_callback hs i True (int n) (2 * c) s = Some s' \<and> good s' \<and>
    receiving c (owners s') s' k' as' cs' (snd (frames (p @ take (sum_list (n # ns)) (wire_in (user s) c)))) \<and> posted k' cs' \<and>
    seen s' = seen s @ fst (frames (p @ take (sum_list (n # ns)) (wire_in (user s) c))) \<and>
    wire_in (user s') c = drop (sum_list (n # ns)) (wire_in (user s) c) \<and> sys_results s' = []"
proof -
  let ?st = "bst (user s)" and ?w = "wire_in (user s) c"
  have k: "con_at s c = Some k" "rx ?st k as cs p" "rc_inv ?st (rx_roots k + owners s)" using rec by (auto simp: receiving_def)
  define d where "d = take n ?w"
  have ld: "length d = n" "d \<noteq> []" "length d \<le> 65536" using w n by (auto simp: d_def)
  obtain st rest where t: "scatter ?st (recv_vecs k cs) d = Some st" "rx st k as cs p" "rc_inv st (rx_roots k + owners s)"
    "ext ?st st" "quota st = quota ?st" "dom (cells st) = dom (cells ?st)" "area st k cs = d @ rest"
    using scatter_law [OF k(2,3) ld(3)] post by (auto simp: posted_def)
  define s1 where "s1 = upd_user s (\<lambda>u. u\<lparr>bst := st, wire_in := (wire_in u)(c := drop n (wire_in u c))\<rparr>)"
  have rd: "readv_data c (int n) s = Some s1" using k(1) w t(1) post by (simp add: readv_data_def s1_def d_def posted_def)
  have c1: "con_at s1 x = con_at s x" "bst (user s1) = st" "wire_in (user s1) c = drop n ?w" "sys_results s1 = sys_results s"
    "GetSocketByHandle s1 hh = GetSocketByHandle s hh" for x hh by (simp_all add: s1_def con_at_def)
  have "recv_step c s s1" using k(1) t(4) c1(5) by (auto simp: recv_step_def s1_def con_at_def same_send_def)
  then have f1: "good s1" "owners s1 = owners s" "seen s1 = seen s"
    using frame [OF g, of s1 "rx_roots k + owners s" "rx_roots k + owners s"] k(3) t(3) c1(2) by auto
  have rec1: "receiving c (owners s1) s1 k as cs p" using rec t(2,3) c1 f1(2) by (simp add: receiving_def)
  have ar: "area (bst (user s1)) k cs = d @ rest" using t(7) c1(2) by simp
  have tk: "take (sum_list (n # ns)) ?w = d @ take (sum_list ns) (wire_in (user s1) c)" by (simp add: c1(3) d_def take_add)
  have few1: "few_refs (bst (user s1)) (size (owners s1) + 4 + gain * (1 + length p + length d + sum_list ns) + quota (bst (user s1)))"
    using few t(5,6) by (simp add: c1(2) f1(2) few_refs_def ld(1) add.assoc)
  have "\<exists>s' k' as' cs'. RecvFinish_loop hs c (int (length d)) (io_err s1 (2 * c)) s1 = Some s' \<and> good s' \<and>
    receiving c (owners s') s' k' as' cs' (snd (frames (p @ d @ take (sum_list ns) (wire_in (user s1) c)))) \<and>
    seen s' = seen s1 @ fst (frames (p @ d @ take (sum_list ns) (wire_in (user s1) c))) \<and>
    wire_in (user s') c = drop (sum_list ns) (wire_in (user s1) c) \<and> posted k' cs' \<and> sys_results s' = [] \<and> c_socket k' = c_socket k"
  proof (rule RecvFinish_law [OF f1(1) rec1 ar ld(2) _ _ _ _ _ _ _ few1])
    show "sys_results s1 = map (\<lambda>m. (int m, 0)) ns" "\<forall>m \<in> set ns. 0 < m \<and> m \<le> 65536" "GetSocketByHandle s1 (c_socket k) \<noteq> None"
      using sys n h by (simp_all add: c1)
    show "sum_list ns \<le> length (wire_in (user s1) c)" "length p + length d + sum_list ns < 2 ^ 32" using w l by (simp_all add: c1(3) ld(1))
    show "sane (p @ d @ take (sum_list ns) (wire_in (user s1) c))" using sn unfolding tk .
    show "length d + sum_list ns < spare (bst (user s1)) cs" using sp t(5) by (simp add: c1(2) ld(1) spare_def)
  qed
  then show ?thesis using rd f1(3) ld(1) unfolding tk by (auto simp: conn_callback_def RecvFinish_def c1(3) add.commute)
qed

end

end
