(* ===== verification/Sending.thy ===== *)
theory Sending
  imports Handler
begin

text \<open>
  The sending side of a connection: the bytes that a queued packet stands for, the memory that
  \<open>prepare_send\<close> describes to the system, and what remains queued after a partial write.
\<close>

section \<open>Queued packets\<close>

text \<open>The packet \<open>w\<close> stands for the bytes \<open>ds\<close>, which lie in the chain \<open>us\<close>.\<close>

definition holds :: "bstore \<Rightarrow> wpacket \<Rightarrow> addr list \<Rightarrow> byte list \<Rightarrow> bool" where
  "holds st w us ds \<longleftrightarrow> chain (bnexts st) (wbuf w) us NULL \<and> unat (data_size w) = length ds \<and> ds \<noteq> [] \<and>
     (\<exists>c. cells st (wbuf w) = Some c \<and> wbegin_pos w \<le> bsize c) \<and>
     (\<exists>rest. drop (unat (wbegin_pos w)) (contents st us) = ds @ rest)"

definition wroots :: "wpacket \<Rightarrow> addr multiset" where
  "wroots w = add_mset (wbuf w) (if writebuf w = NULL then {#} else {#writebuf w#})"

definition packet_bytes :: "bstore \<Rightarrow> wpacket \<Rightarrow> byte list" where
  "packet_bytes st w = (case buffer_read st (wbuf w) (wbegin_pos w) (data_size w) of None \<Rightarrow> [] | Some (_, bs) \<Rightarrow> bs)"

lemma holds_bytes:
  assumes h: "holds st w us ds" and inv: "rc_inv st R"
  shows "packet_bytes st w = ds"
proof -
  obtain c rest where c: "cells st (wbuf w) = Some c" "wbegin_pos w \<le> bsize c" "chain (bnexts st) (wbuf w) us NULL"
    "drop (unat (wbegin_pos w)) (contents st us) = ds @ rest" "unat (data_size w) = length ds"
    using h by (auto simp: holds_def)
  have "us \<noteq> []" using c(1,3) rc_invD(2) [OF inv] by auto
  then have "buffer_read st (wbuf w) (wbegin_pos w) (data_size w) = (let rest = drop (unat (wbegin_pos w)) (contents st us)
     in Some (if unat (data_size w) \<le> length rest then 0 else -1, [] @ take (unat (data_size w)) rest))"
    unfolding buffer_read_def using c rc_invD(6) [OF inv] by (intro buffer_read_loop_law) (auto simp: word_le_nat_alt)
  then show ?thesis using c(4,5) by (simp add: packet_bytes_def Let_def)
qed

lemma holds_ext:
  assumes h: "holds st w us ds" and e: "ext st st'" and inv: "rc_inv st R" and l: "cells st' (wbuf w) \<noteq> None"
  shows "\<exists>us'. holds st' w us' ds"
proof -
  obtain c rest where c: "cells st (wbuf w) = Some c" "wbegin_pos w \<le> bsize c" "chain (bnexts st) (wbuf w) us NULL"
    "drop (unat (wbegin_pos w)) (contents st us) = ds @ rest"
    using h by (auto simp: holds_def)
  obtain c' where c': "cells st' (wbuf w) = Some c'" using l by blast
  have lt: "wbuf w < fresh st" using rc_invD(9) [OF inv c(1)] by simp
  have le: "wbegin_pos w \<le> bsize c'" using extD(1) [OF e lt c'] c(1,2) by auto
  obtain vs x where v: "chain (bnexts st') (wbuf w) (us @ vs) NULL" "contents st' (us @ vs) = contents st us @ x"
    using extD(2) [OF e lt c' c(3)] by blast
  have "unat (wbegin_pos w) \<le> length (contents st us)"
  proof -
    obtain us' where us: "us = wbuf w # us'" using c(1,3) rc_invD(2) [OF inv] by (cases us) auto
    have "length (bytes_of c) = unat (bsize c)" by (rule length_bytes_of [OF rc_invD(6) [OF inv c(1)]])
    then show ?thesis using c(1,2) by (simp add: us contents_Cons word_le_nat_alt)
  qed
  then have "drop (unat (wbegin_pos w)) (contents st' (us @ vs)) = ds @ rest @ x"
    unfolding v(2) using c(4) by simp
  then show ?thesis using h v(1) c' le unfolding holds_def by blast
qed

lemma holds_same_bytes:
  assumes "holds st w us ds" "rc_inv st' R" "same_bytes st st'" "cells st' (wbuf w) \<noteq> None"
  shows "holds st' w us ds"
proof -
  obtain c' where c': "cells st' (wbuf w) = Some c'" using assms(4) by blast
  have ch: "chain (bnexts st) (wbuf w) us NULL" using assms(1) by (simp add: holds_def)
  show ?thesis
    using assms(1) same_bytes_live [OF assms(2,3) c' ch] same_bytes_cell [OF assms(3) c'] c' by (auto simp: holds_def)
qed

section \<open>The memory of a send request\<close>

lemma bytes_split: "m \<le> n \<Longrightarrow> take n xs = take m xs @ take (n - m) (drop m xs)"
  by (metis le_add_diff_inverse take_add)

lemma packet_iovecs_law:
  assumes "chain (bnexts st) b us NULL" "\<forall>a \<in> set us. \<forall>c. cells st a = Some c \<longrightarrow> buf_ok c"
    "us \<noteq> [] \<Longrightarrow> unat pos \<le> unat (bsize (the (cells st b)))" "us = [] \<Longrightarrow> pos = 0"
    "unat n \<le> length (drop (unat pos) (contents st us))"
  shows "\<exists>vs' xs. packet_iovecs st b pos n vs = Some (vs @ vs') \<and> gather st vs' = Some xs \<and>
    (\<exists>m \<le> unat n. xs = take m (drop (unat pos) (contents st us)) \<and> (length vs + length us \<le> MAX_WBAF \<longrightarrow> m = unat n)) \<and>
    length vs' \<le> length us \<and> (length vs < MAX_WBAF \<longrightarrow> n \<noteq> 0 \<longrightarrow> vs' \<noteq> [])"
  using assms
proof (induction us arbitrary: b pos n vs)
  case Nil
  then have "n = 0" by (simp add: unat_eq_zero)
  then show ?case by (subst packet_iovecs.simps) auto
next
  case (Cons a us)
  obtain c where c: "b = a" "a \<noteq> NULL" "cells st a = Some c" "chain (bnexts st) (bnext c) us NULL"
    using Cons.prems(1) unfolding chain_bnexts_Cons by blast
  have ok: "buf_ok c" using Cons.prems(2) c by auto
  have pos: "unat pos \<le> unat (bsize c)" using Cons.prems(3) c by simp
  define rest where "rest = drop (unat pos) (bytes_of c)"
  have len: "length rest = unat (bsize c) - unat pos" using length_bytes_of [OF ok] by (simp add: rest_def)
  have dr: "drop (unat pos) (contents st (a # us)) = rest @ contents st us"
    using c(3) pos length_bytes_of [OF ok] by (simp add: contents_Cons rest_def)
  have sub: "unat (bsize c - pos) = length rest"
    using unat_sub_le [of pos "bsize c"] pos len by (simp add: word_le_nat_alt)
  show ?case
  proof (cases "length vs < MAX_WBAF \<and> n \<noteq> 0")
    case False
    then have "packet_iovecs st b pos n vs = Some (vs @ [])" by (subst packet_iovecs.simps) auto
    moreover have "length vs + length (a # us) \<le> MAX_WBAF \<longrightarrow> 0 = unat n" using False by auto
    ultimately show ?thesis using False
      by (intro exI [of _ "[]"]) (auto intro!: exI [of _ 0])
  next
    case True
    define z where "z = (if bsize c - pos > n then n else bsize c - pos)"
    have z: "unat z = min (unat n) (length rest)" "z \<le> n" using sub by (auto simp: z_def word_less_nat_alt word_le_nat_alt)
    let ?v = "\<lparr>iov_base = (a, pos), iov_len = z\<rparr>"
    have cp: "memcpy_from st a pos z = Some (take (unat z) rest)"
      using memcpy_from_ok [OF c(3,2) ok, of pos z] z(1) len pos rest_def by simp
    have nz: "unat (n - z) = unat n - unat z" by (rule unat_sub_le [OF z(2)])
    have step: "packet_iovecs st b pos n vs = packet_iovecs st (bnext c) 0 (n - z) (vs @ [?v])"
      using True c by (subst packet_iovecs.simps) (auto simp: buf_at_def z_def Let_def)
    have "unat (n - z) \<le> length (drop (unat (0::u32)) (contents st us))"
      using Cons.prems(5) dr nz z(1) by simp
    from Cons.IH [OF c(4) _ _ _ this, of "vs @ [?v]"] Cons.prems(2) obtain vs' xs m where
      i: "packet_iovecs st (bnext c) 0 (n - z) (vs @ [?v]) = Some ((vs @ [?v]) @ vs')" "gather st vs' = Some xs" "m \<le> unat (n - z)"
      "xs = take m (contents st us)" "length (vs @ [?v]) + length us \<le> MAX_WBAF \<longrightarrow> m = unat (n - z)" "length vs' \<le> length us"
      by auto
    have g: "gather st (?v # vs') = Some (take (unat z) rest @ xs)" using cp i(2) by simp
    have "\<exists>m' \<le> unat n. take (unat z) rest @ xs = take m' (rest @ contents st us) \<and>
        (length vs + length (a # us) \<le> MAX_WBAF \<longrightarrow> m' = unat n)"
    proof (cases "unat z = unat n")
      case True
      then have "xs = []" using i(3,4) nz by simp
      then show ?thesis using True z(1) by (intro exI [of _ "unat n"]) simp
    next
      case False
      then have zr: "unat z = length rest" "length rest < unat n" using z(1) by auto
      show ?thesis using i(3-5) nz zr by (intro exI [of _ "length rest + m"]) auto
    qed
    then show ?thesis using step i(1,6) g unfolding dr by (intro exI [of _ "?v # vs'"] exI [of _ "take (unat z) rest @ xs"]) auto
  qed
qed

text \<open>A queue of packets without completion callbacks that holds \<open>dss\<close> in at most \<open>n\<close> buffers.\<close>

fun sendq :: "bstore \<Rightarrow> (wpacket \<times> nat) list \<Rightarrow> byte list list \<Rightarrow> nat \<Rightarrow> bool" where
  "sendq st [] dss n \<longleftrightarrow> dss = []"
| "sendq st ((w, f) # ws) dss n \<longleftrightarrow>
     (\<exists>ds dss' us. dss = ds # dss' \<and> f = 0 \<and> holds st w us ds \<and> length us \<le> n \<and> sendq st ws dss' (n - length us))"

lemma gather_append: "gather st (xs @ ys) = do { a \<leftarrow> gather st xs; b \<leftarrow> gather st ys; Some (a @ b) }"
  by (induction xs) (auto split: Option.bind_splits)

lemma holds_iovecs:
  assumes h: "holds st w us ds" and inv: "rc_inv st R"
  shows "\<exists>vs' xs. packet_iovecs st (wbuf w) (wbegin_pos w) (data_size w) vs = Some (vs @ vs') \<and> gather st vs' = Some xs \<and>
    (length vs + length us \<le> MAX_WBAF \<longrightarrow> xs = ds) \<and> length vs' \<le> length us \<and> (length vs < MAX_WBAF \<longrightarrow> vs' \<noteq> []) \<and> us \<noteq> []"
proof -
  obtain c rest where c: "cells st (wbuf w) = Some c" "wbegin_pos w \<le> bsize c" "chain (bnexts st) (wbuf w) us NULL"
    "drop (unat (wbegin_pos w)) (contents st us) = ds @ rest" "unat (data_size w) = length ds" "ds \<noteq> []"
    using h by (auto simp: holds_def)
  have ne: "us \<noteq> []" using c(1,3) rc_invD(2) [OF inv] by auto
  have nz: "data_size w \<noteq> 0" using c(5,6) by auto
  have "\<exists>vs' xs. packet_iovecs st (wbuf w) (wbegin_pos w) (data_size w) vs = Some (vs @ vs') \<and> gather st vs' = Some xs \<and>
    (\<exists>m \<le> unat (data_size w). xs = take m (drop (unat (wbegin_pos w)) (contents st us)) \<and>
       (length vs + length us \<le> MAX_WBAF \<longrightarrow> m = unat (data_size w))) \<and>
    length vs' \<le> length us \<and> (length vs < MAX_WBAF \<longrightarrow> data_size w \<noteq> 0 \<longrightarrow> vs' \<noteq> [])"
    using c ne rc_invD(6) [OF inv] by (intro packet_iovecs_law) (auto simp: word_le_nat_alt)
  then show ?thesis using c(4,5) ne nz by fastforce
qed

lemma send_iovecs_law:
  assumes "sendq st l dss n" "rc_inv st R" "length vs + n \<le> MAX_WBAF"
  shows "\<exists>vs'. send_iovecs st l vs = Some (vs @ vs') \<and> gather st vs' = Some (concat dss) \<and> (dss \<noteq> [] \<longrightarrow> vs' \<noteq> [])"
  using assms
proof (induction l arbitrary: dss n vs)
  case Nil
  then show ?case by simp
next
  case (Cons p ws)
  obtain w f where p: "p = (w, f)" by (cases p)
  obtain ds dss' us where d: "dss = ds # dss'" "holds st w us ds" "length us \<le> n" "sendq st ws dss' (n - length us)"
    using Cons.prems(1) by (auto simp: p)
  obtain vs1 xs where v: "packet_iovecs st (wbuf w) (wbegin_pos w) (data_size w) vs = Some (vs @ vs1)" "gather st vs1 = Some xs"
    "length vs + length us \<le> MAX_WBAF \<longrightarrow> xs = ds" "length vs1 \<le> length us" "length vs < MAX_WBAF \<longrightarrow> vs1 \<noteq> []" "us \<noteq> []"
    using holds_iovecs [OF d(2) Cons.prems(2)] by blast
  have l: "length vs < MAX_WBAF" "xs = ds" using v(3,6) d(3) Cons.prems(3) by (cases us, auto)+
  have "length (vs @ vs1) + (n - length us) \<le> MAX_WBAF" using v(4) d(3) Cons.prems(3) by simp
  from Cons.IH [OF d(4) Cons.prems(2) this] obtain vs2 where "send_iovecs st ws (vs @ vs1) = Some ((vs @ vs1) @ vs2)"
    "gather st vs2 = Some (concat dss')" by blast
  then show ?case using v l d(1) by (intro exI [of _ "vs1 @ vs2"]) (simp add: p gather_append)
qed

lemma send_iovecs_total:
  assumes "\<forall>(w, f) \<in> set l. \<exists>us ds. holds st w us ds" "rc_inv st R"
  shows "\<exists>vs'. send_iovecs st l vs = Some (vs @ vs') \<and> (l \<noteq> [] \<longrightarrow> length vs < MAX_WBAF \<longrightarrow> vs' \<noteq> [])"
  using assms(1)
proof (induction l arbitrary: vs)
  case Nil
  then show ?case by simp
next
  case (Cons p ws)
  obtain w f where p: "p = (w, f)" by (cases p)
  obtain us ds where "holds st w us ds" using Cons.prems p by auto
  then obtain vs1 where v: "packet_iovecs st (wbuf w) (wbegin_pos w) (data_size w) vs = Some (vs @ vs1)"
    "length vs < MAX_WBAF \<longrightarrow> vs1 \<noteq> []" using holds_iovecs [OF _ assms(2)] by blast
  obtain vs2 where "send_iovecs st ws (vs @ vs1) = Some ((vs @ vs1) @ vs2)" using Cons.IH [of "vs @ vs1"] Cons.prems by auto
  then show ?case using v by (cases "length vs < MAX_WBAF") (auto simp: p)
qed

section \<open>Partial writes\<close>

lemma wpacket_sent_law:
  assumes "holds st w us ds" "rc_inv st (add_mset (wbuf w) R)" "few_refs st (size R + 1)" "unat n < length ds"
  shows "\<exists>st' b pos us'. wpacket_sent st w n = Some (st', w\<lparr>wbegin_pos := pos, data_size := data_size w - n, wbuf := b\<rparr>) \<and>
    holds st' (w\<lparr>wbegin_pos := pos, data_size := data_size w - n, wbuf := b\<rparr>) us' (drop (unat n) ds) \<and>
    rc_inv st' (add_mset b R) \<and> same_bytes st st' \<and> length us' \<le> length us \<and> fresh st' = fresh st \<and> quota st' = quota st"
  using assms
proof (induction us arbitrary: st w ds n)
  case Nil
  then show ?case using rc_invD(2) [OF Nil.prems(2)] rc_invD(5) [OF Nil.prems(2), of "wbuf w"] by (auto simp: holds_def)
next
  case (Cons a us)
  note inv = Cons.prems(2)
  obtain c rest where c: "cells st (wbuf w) = Some c" "wbegin_pos w \<le> bsize c" "chain (bnexts st) (wbuf w) (a # us) NULL"
    "drop (unat (wbegin_pos w)) (contents st (a # us)) = ds @ rest" "unat (data_size w) = length ds"
    using Cons.prems(1) by (auto simp: holds_def)
  have a: "wbuf w = a" "a \<noteq> NULL" "chain (bnexts st) (bnext c) us NULL" using c(1,3) by (auto simp: bnexts_at)
  define z where "z = bsize c - wbegin_pos w"
  have uz: "unat z = unat (bsize c) - unat (wbegin_pos w)" unfolding z_def by (rule unat_sub_le [OF c(2)])
  have lb: "length (bytes_of c) = unat (bsize c)" by (rule length_bytes_of [OF rc_invD(6) [OF inv c(1)]])
  have dr: "drop (unat (wbegin_pos w)) (bytes_of c) @ contents st us = ds @ rest"
    using c(1,2,4) a(1) lb by (simp add: contents_Cons word_le_nat_alt)
  have dsz: "unat (data_size w - n) = length ds - unat n"
    using unat_sub_le [of n "data_size w"] c(5) Cons.prems(4) by (simp add: word_le_nat_alt)
  show ?case
  proof (cases "n < z \<or> n = 0")
    case True
    have le: "unat (wbegin_pos w) + unat n \<le> unat (bsize c)" using True uz c(2) by (auto simp: word_less_nat_alt word_le_nat_alt)
    then have sum: "unat (wbegin_pos w + n) = unat (wbegin_pos w) + unat n" by (rule unat_add_le)
    let ?w = "w\<lparr>wbegin_pos := wbegin_pos w + n, data_size := data_size w - n, wbuf := wbuf w\<rparr>"
    have "wpacket_sent st w n = Some (st, ?w)"
    proof (cases "n = 0")
      case True
      then show ?thesis by (subst wpacket_sent.simps) simp
    next
      case False
      then have "n < z" using True by simp
      moreover from this have "\<not> wbegin_pos w + n \<ge> bsize c" using sum uz by (simp add: word_less_nat_alt word_le_nat_alt)
      ultimately have "wpacket_sent st w n = wpacket_sent st ?w 0"
        using False c(1) a(2) [folded a(1)] by (subst wpacket_sent.simps) (simp add: buf_at_def Let_def z_def)
      then show ?thesis by (simp add: wpacket_sent.simps)
    qed
    moreover have "holds st ?w (a # us) (drop (unat n) ds)"
    proof -
      have "drop (unat (wbegin_pos w + n)) (contents st (a # us)) = drop (unat n) (ds @ rest)"
        unfolding sum c(4) [symmetric] by (simp add: add.commute)
      then show ?thesis using c(1,3) le sum dsz Cons.prems(4) by (auto simp: holds_def word_le_nat_alt)
    qed
    ultimately show ?thesis using inv
      by (intro exI [of _ st] exI [of _ "wbuf w"] exI [of _ "wbegin_pos w + n"] exI [of _ "a # us"]) simp
  next
    case False
    then have zn: "z \<le> n" "n \<noteq> 0" by auto
    have zl: "unat z < length ds" using zn Cons.prems(4) by (simp add: word_le_nat_alt)
    have cu: "contents st us = drop (unat z) ds @ rest"
    proof -
      have "length (drop (unat (wbegin_pos w)) (bytes_of c)) = unat z" using lb uz by simp
      then have "drop (unat z) (ds @ rest) = contents st us" unfolding dr [symmetric] by simp
      then show ?thesis using zl by simp
    qed
    then have "us \<noteq> []" using zl by auto
    then obtain b us' where us: "us = b # us'" by (cases us) auto
    have b: "bnext c = b" "b \<noteq> NULL" using a(3) us by auto
    obtain d where d: "cells st b = Some d" using chain_dom [OF a(3), of b] us by (auto simp: bnexts_def)
    have "refcount d < INT32_MAX" using few_refs_refcount [OF inv Cons.prems(3) d] by simp
    then obtain st1 where s1: "buffer_acquire st (wbuf w) b = Some (st1, b)" "rc_inv st1 (add_mset b R)" "same_bytes st st1"
      "fresh st1 = fresh st" "quota st1 = quota st" using buffer_move_inv [OF inv d] by blast
    define w1 where "w1 = w\<lparr>data_size := data_size w - z, wbegin_pos := 0, wbuf := b\<rparr>"
    have sum: "wbegin_pos w + z = bsize c" by (simp add: z_def)
    have size: "\<not> n < z" using zn(1) by auto
    have run: "wpacket_sent st w n = wpacket_sent st1 w1 (n - z)"
      using zn c(1) a(1,2) b(1) s1(1) sum
      by (subst wpacket_sent.simps) (simp add: size buf_at_def Let_def z_def [symmetric] w1_def)
    obtain e where e: "cells st1 b = Some e" using rc_invD(5) [OF s1(2), of b] by auto
    have ch: "chain (bnexts st1) b us NULL" "contents st1 us = contents st us"
      using same_bytes_live [OF s1(2,3) e] a(3) b(1) by auto
    have uw: "unat (data_size w - z) = length ds - unat z"
      using unat_sub_le [of z "data_size w"] c(5) zl by (simp add: word_le_nat_alt)
    have "holds st1 w1 us (drop (unat z) ds)" using ch cu e uw zl by (simp add: holds_def w1_def)
    moreover have "rc_inv st1 (add_mset (wbuf w1) R)" using s1(2) by (simp add: w1_def)
    moreover have "unat (n - z) < length (drop (unat z) ds)"
      using unat_sub_le [OF zn(1)] Cons.prems(4) zn(1) by (simp add: word_le_nat_alt)
    ultimately obtain st2 b2 pos2 us2 where s2: "wpacket_sent st1 w1 (n - z) =
        Some (st2, w1\<lparr>wbegin_pos := pos2, data_size := data_size w1 - (n - z), wbuf := b2\<rparr>)"
      "holds st2 (w1\<lparr>wbegin_pos := pos2, data_size := data_size w1 - (n - z), wbuf := b2\<rparr>) us2 (drop (unat (n - z)) (drop (unat z) ds))"
      "rc_inv st2 (add_mset b2 R)" "same_bytes st1 st2" "length us2 \<le> length us" "fresh st2 = fresh st1" "quota st2 = quota st1"
      using Cons.IH [of st1 w1 "drop (unat z) ds" "n - z"] few_refs_shrink [OF Cons.prems(3) inv s1(3)] by blast
    have "w1\<lparr>wbegin_pos := pos2, data_size := data_size w1 - (n - z), wbuf := b2\<rparr> =
        w\<lparr>wbegin_pos := pos2, data_size := data_size w - n, wbuf := b2\<rparr>" by (simp add: w1_def)
    moreover have "unat (n - z) + unat z = unat n" using unat_sub_le [OF zn(1)] zn(1) by (simp add: word_le_nat_alt)
    ultimately show ?thesis using run s2 same_bytes_trans [OF s1(3) s2(4)] s1(4,5)
      by (intro exI [of _ st2] exI [of _ b2] exI [of _ pos2] exI [of _ us2]) simp
  qed
qed

definition send_roots :: "(wpacket \<times> nat) list \<Rightarrow> addr multiset" where
  "send_roots l = (\<Sum>(w, f) \<leftarrow> l. wroots w)"

lemma send_roots_simps [simp]:
  "send_roots [] = {#}" "send_roots ((w, f) # l) = wroots w + send_roots l" "send_roots (l @ l') = send_roots l + send_roots l'"
  by (simp_all add: send_roots_def)

lemma wbuf_root: "(w, f) \<in> set l \<Longrightarrow> wbuf w \<in># send_roots l"
  by (induction l) (auto simp: wroots_def)

lemma sendq_same_bytes:
  assumes "sendq st l dss n" "rc_inv st' R" "same_bytes st st'" "\<forall>(w, f) \<in> set l. cells st' (wbuf w) \<noteq> None"
  shows "sendq st' l dss n"
  using assms(1,4)
proof (induction l arbitrary: dss n)
  case Nil
  then show ?case by simp
next
  case (Cons p ws)
  obtain w f where p: "p = (w, f)" by (cases p)
  then obtain ds dss' us where d: "dss = ds # dss'" "f = 0" "holds st w us ds" "length us \<le> n" "sendq st ws dss' (n - length us)"
    using Cons.prems(1) by auto
  have "holds st' w us ds" using holds_same_bytes [OF d(3) assms(2,3)] Cons.prems(2) p by simp
  moreover have "sendq st' ws dss' (n - length us)" using Cons.IH d(5) Cons.prems(2) by simp
  ultimately show ?case using d(1,2,4) p by auto
qed

lemma sendq_mono: "sendq st l dss n \<Longrightarrow> n \<le> m \<Longrightarrow> sendq st l dss m"
proof (induction l arbitrary: dss n m)
  case Nil
  then show ?case by simp
next
  case (Cons p ws)
  obtain w f where p: "p = (w, f)" by (cases p)
  then obtain ds dss' us where d: "dss = ds # dss'" "f = 0" "holds st w us ds" "length us \<le> n" "sendq st ws dss' (n - length us)"
    using Cons.prems(1) by auto
  have "sendq st ws dss' (m - length us)" using Cons.IH [OF d(5)] Cons.prems(2) by simp
  moreover have "length us \<le> m" using d(4) Cons.prems(2) by simp
  ultimately show ?case using d(1-3) p by auto
qed

lemma wpacket_destroy_law:
  assumes "rc_inv st (wroots w + R)"
  shows "\<exists>st'. wpacket_destroy st w = Some st' \<and> rc_inv st' R \<and> same_bytes st st' \<and> fresh st' = fresh st \<and> quota st' = quota st"
proof -
  let ?Q = "(if writebuf w = NULL then {#} else {#writebuf w#}) + R"
  have "rc_inv st (add_mset (wbuf w) ?Q)" using assms by (simp add: wroots_def)
  then obtain st1 where s1: "buffer_release st (wbuf w) = Some st1" "rc_inv st1 ?Q" "same_bytes st st1" "fresh st1 = fresh st" "quota st1 = quota st"
    using buffer_release_inv by blast
  show ?thesis
  proof (cases "writebuf w = NULL")
    case True
    then show ?thesis using s1 by (auto simp: wpacket_destroy_def)
  next
    case False
    then have "rc_inv st1 (add_mset (writebuf w) R)" using s1(2) by simp
    then obtain st2 where "buffer_release st1 (writebuf w) = Some st2" "rc_inv st2 R" "same_bytes st1 st2" "fresh st2 = fresh st1" "quota st2 = quota st1"
      using buffer_release_inv by blast
    then show ?thesis using s1 same_bytes_trans [OF s1(3)] by (auto simp: wpacket_destroy_def)
  qed
qed

text \<open>What sending on the connection \<open>c\<close> leaves as it is.\<close>

definition same_rest :: "addr \<Rightarrow> 'u csys \<Rightarrow> 'u csys \<Rightarrow> bool" where
  "same_rest c s s' \<longleftrightarrow> socket_pool s' = socket_pool s \<and> engine_pool s' = engine_pool s \<and> sys_results s' = sys_results s \<and>
     wire_in (user s') = wire_in (user s) \<and> wire_out (user s') = wire_out (user s) \<and> app (user s') = app (user s) \<and>
     (\<forall>d. d \<noteq> c \<longrightarrow> con_at s' d = con_at s d)"

lemma same_rest_refl [simp]: "same_rest c s s"
  by (simp add: same_rest_def)

lemma same_rest_trans: "same_rest c s1 s2 \<Longrightarrow> same_rest c s2 s3 \<Longrightarrow> same_rest c s1 s3"
  by (simp add: same_rest_def)

definition sending :: "addr \<Rightarrow> addr multiset \<Rightarrow> 'u csys \<Rightarrow> connection \<Rightarrow> byte list list \<Rightarrow> nat \<Rightarrow> bool" where
  "sending c R s k dss n \<longleftrightarrow> con_at s c = Some k \<and> sendq (bst (user s)) (send_list k) dss n \<and>
     rc_inv (bst (user s)) (send_roots (send_list k) + R) \<and>
     few_refs (bst (user s)) (size (send_roots (send_list k)) + size R)"

lemma update_send_list_law:
  assumes "sending c R s k dss n" "unat m \<le> length (concat dss)"
  shows "\<exists>s' l dss'. update_send_list hs c m s = Some s' \<and> sending c R s' (k\<lparr>send_list := l\<rparr>) dss' n \<and>
    concat dss' = drop (unat m) (concat dss) \<and> same_rest c s s'"
  using assms
proof (induction "send_list k" arbitrary: s k dss n m)
  case Nil
  then have "m = 0" "dss = []" by (auto simp: sending_def unat_eq_zero)
  moreover have "k\<lparr>send_list := send_list k\<rparr> = k" by simp
  ultimately show ?case using Nil.prems
    by (intro exI [of _ s] exI [of _ "send_list k"] exI [of _ "[]"]) (simp add: update_send_list.simps)
next
  case (Cons p ws)
  note sd = Cons.prems(1)
  let ?st = "bst (user s)"
  obtain w f where p: "p = (w, f)" by (cases p)
  have l: "send_list k = (w, f) # ws" using Cons.hyps(2) p by simp
  obtain ds dss' us where d: "dss = ds # dss'" "f = 0" "holds ?st w us ds" "length us \<le> n" "sendq ?st ws dss' (n - length us)"
    using sd by (auto simp: sending_def l)
  have k: "con_at s c = Some k" "rc_inv ?st (wroots w + (send_roots ws + R))" "few_refs ?st (size (wroots w) + size (send_roots ws) + size R)"
    using sd by (simp_all add: sending_def l add.assoc)
  have dw: "unat (data_size w) = length ds" using d(3) by (simp add: holds_def)
  show ?case
  proof (cases "m = 0")
    case True
    have "k\<lparr>send_list := send_list k\<rparr> = k" by simp
    then show ?thesis using True sd
      by (intro exI [of _ s] exI [of _ "send_list k"] exI [of _ dss]) (simp add: update_send_list.simps)
  next
    case nz: False
    show ?thesis
    proof (cases "m \<ge> data_size w")
      case True
      obtain st1 where s1: "wpacket_destroy ?st w = Some st1" "rc_inv st1 (send_roots ws + R)" "same_bytes ?st st1"
        using wpacket_destroy_law [OF k(2)] by blast
      define s2 where "s2 = upd_user (put_bst (put_con s c (k\<lparr>send_list := ws\<rparr>)) st1) (\<lambda>u. u\<lparr>packet_send := packet_send u + 1\<rparr>)"
      have live: "\<forall>(v, g) \<in> set ws. cells st1 (wbuf v) \<noteq> None"
        using rc_invD(5) [OF s1(2)] wbuf_root by fastforce
      have b2: "bst (user s2) = st1" "con_at s2 e = (if e = c then Some (k\<lparr>send_list := ws\<rparr>) else con_at s e)" for e
        by (simp_all add: s2_def con_at_def upd_user_def put_bst_def put_con_def)
      have "few_refs st1 (size (send_roots ws) + size R)"
        using few_refs_shrink [OF k(3,2) s1(3)] by (rule few_refs_less) simp
      moreover have "sendq st1 ws dss' n"
        using sendq_mono [OF sendq_same_bytes [OF d(5) s1(2,3) live]] by simp
      ultimately have sd2: "sending c R s2 (k\<lparr>send_list := ws\<rparr>) dss' n" using s1(2) by (simp add: sending_def b2)
      have run: "update_send_list hs c m s = update_send_list hs c (m - data_size w) s2"
        using nz k(1) True d(2) s1(1) by (subst update_send_list.simps) (simp add: l s2_def)
      have um: "unat (m - data_size w) = unat m - length ds" using unat_sub_le [OF True] dw by simp
      have "unat (m - data_size w) \<le> length (concat dss')" using Cons.prems(2) um d(1) by simp
      from Cons.hyps(1) [OF _ sd2 this] obtain s' l' dss2 where i: "update_send_list hs c (m - data_size w) s2 = Some s'"
        "sending c R s' (k\<lparr>send_list := l'\<rparr>) dss2 n" "concat dss2 = drop (unat (m - data_size w)) (concat dss')" "same_rest c s2 s'"
        by auto
      have "same_rest c s s2" by (simp add: same_rest_def s2_def con_at_def upd_user_def put_bst_def put_con_def)
      then have "same_rest c s s'" using i(4) same_rest_trans by blast
      moreover have "concat dss2 = drop (unat m) (concat dss)"
        using i(3) um d(1) True dw by (simp add: word_le_nat_alt)
      ultimately show ?thesis using run i(1,2) by auto
    next
      case False
      then have lt: "unat m < length ds" using dw by (simp add: word_le_nat_alt)
      let ?R = "(if writebuf w = NULL then {#} else {#writebuf w#}) + (send_roots ws + R)"
      have rc: "rc_inv ?st (add_mset (wbuf w) ?R)" using k(2) by (simp add: wroots_def)
      have few: "few_refs ?st (size ?R + 1)" using k(3) by (rule few_refs_less) (simp add: wroots_def)
      obtain st1 b pos us' where s1: "wpacket_sent ?st w m = Some (st1, w\<lparr>wbegin_pos := pos, data_size := data_size w - m, wbuf := b\<rparr>)"
        "holds st1 (w\<lparr>wbegin_pos := pos, data_size := data_size w - m, wbuf := b\<rparr>) us' (drop (unat m) ds)"
        "rc_inv st1 (add_mset b ?R)" "same_bytes ?st st1" "length us' \<le> length us"
        using wpacket_sent_law [OF d(3) rc few lt] by blast
      define w1 where "w1 = w\<lparr>wbegin_pos := pos, data_size := data_size w - m, wbuf := b\<rparr>"
      define s2 where "s2 = put_con (put_bst s st1) c (k\<lparr>send_list := (w1, f) # ws\<rparr>)"
      have run: "update_send_list hs c m s = Some s2"
        using nz k(1) False s1(1) by (subst update_send_list.simps) (simp add: l s2_def w1_def)
      have "cells st1 (wbuf v) \<noteq> None" if "(v, g) \<in> set ws" for v g
        using rc_invD(5) [OF s1(3), of "wbuf v"] wbuf_root [OF that] by simp
      then have live: "\<forall>(v, g) \<in> set ws. cells st1 (wbuf v) \<noteq> None" by blast
      have "sendq st1 ws dss' (n - length us')"
        using sendq_mono [OF sendq_same_bytes [OF d(5) s1(3,4) live]] s1(5) by simp
      then have "sendq st1 ((w1, f) # ws) (drop (unat m) ds # dss') n" using s1(2,5) d(2,4) by (auto simp: w1_def)
      moreover have "rc_inv st1 (send_roots ((w1, f) # ws) + R)" using s1(3) by (cases "writebuf w = NULL") (simp_all add: wroots_def w1_def)
      moreover have "few_refs st1 (size (send_roots ((w1, f) # ws)) + size R)"
        using few_refs_shrink [OF k(3,2) s1(4)] by (cases "writebuf w = NULL") (simp_all add: wroots_def w1_def)
      ultimately have "sending c R s2 (k\<lparr>send_list := (w1, f) # ws\<rparr>) (drop (unat m) ds # dss') n"
        by (simp add: sending_def s2_def del: sendq.simps send_roots_simps)
      moreover have "same_rest c s s2" by (simp add: same_rest_def s2_def)
      moreover have "concat (drop (unat m) ds # dss') = drop (unat m) (concat dss)" using lt d(1) by simp
      ultimately show ?thesis using run by blast
    qed
  qed
qed

section \<open>Sending a queue\<close>

lemma WSASend_now:
  assumes i: "GetSocketByHandle s h = Some i"
  shows "sys_results s = (int m, e) # rs \<Longrightarrow> WSASend s h io True = Some (s\<lparr>sys_results := rs\<rparr>, int m, 0)"
    "sys_results s = [] \<Longrightarrow> \<exists>s'. WSASend s h io True = Some (s', -1, EAGAIN) \<and> user s' = user s \<and> sys_results s' = [] \<and>
      (act_inv s \<longrightarrow> act_inv s') \<and> (\<forall>h. GetSocketByHandle s' h = GetSocketByHandle s h)"
proof -
  show "sys_results s = (int m, e) # rs \<Longrightarrow> WSASend s h io True = Some (s\<lparr>sys_results := rs\<rparr>, int m, 0)"
    using i by (simp add: WSASend_def raw_send_def sys_def)
  assume "sys_results s = []"
  then have "WSASend s h io True = Some (upd_sock s i (\<lambda>s. s\<lparr>writeable := False, pending_send := io # pending_send s\<rparr>), -1, EAGAIN)"
    using i by (simp add: WSASend_def raw_send_def sys_def)
  then show "\<exists>s'. WSASend s h io True = Some (s', -1, EAGAIN) \<and> user s' = user s \<and> sys_results s' = [] \<and>
      (act_inv s \<longrightarrow> act_inv s') \<and> (\<forall>h. GetSocketByHandle s' h = GetSocketByHandle s h)"
    using \<open>sys_results s = []\<close>
      upd_sock_inv [of s "\<lambda>s. s\<lparr>writeable := False, pending_send := io # pending_send s\<rparr>" i]
      upd_sock_lookup [of "\<lambda>s. s\<lparr>writeable := False, pending_send := io # pending_send s\<rparr>" s i]
    by (simp add: upd_sock_def)
qed

text \<open>The next request offers the whole queue; \<open>m\<close> bytes of it are written, or the call would block.\<close>

lemma sending_iovecs:
  assumes sd: "sending c R s k dss n" and n: "n \<le> MAX_WBAF"
  shows "dss = [] \<Longrightarrow> prepare_send (bst (user s)) k = Some (k, False)"
    "dss \<noteq> [] \<Longrightarrow> \<exists>vs. prepare_send (bst (user s)) k = Some (k\<lparr>wsendbuf := vs\<rparr>, True) \<and> gather (bst (user s)) vs = Some (concat dss)"
proof -
  have q: "sendq (bst (user s)) (send_list k) dss n" "rc_inv (bst (user s)) (send_roots (send_list k) + R)"
    using sd by (simp_all add: sending_def)
  have "length ([]::iovec list) + n \<le> MAX_WBAF" using n by simp
  from send_iovecs_law [OF q this] obtain vs where vs: "send_iovecs (bst (user s)) (send_list k) [] = Some vs"
    "gather (bst (user s)) vs = Some (concat dss)" "dss \<noteq> [] \<longrightarrow> vs \<noteq> []" by auto
  show "dss = [] \<Longrightarrow> prepare_send (bst (user s)) k = Some (k, False)"
    using q(1) by (cases "send_list k") (auto simp: prepare_send_def)
  show "dss \<noteq> [] \<Longrightarrow> \<exists>vs. prepare_send (bst (user s)) k = Some (k\<lparr>wsendbuf := vs\<rparr>, True) \<and> gather (bst (user s)) vs = Some (concat dss)"
    using vs by (auto simp: prepare_send_def)
qed

lemma post_send_law:
  assumes sd: "sending c R s k dss n" and v: "gather (bst (user s)) (wsendbuf k) = Some xs"
    and i: "GetSocketByHandle s (c_socket k) = Some i"
  shows "sys_results s = (int m, e) # rs \<Longrightarrow> 0 < m \<Longrightarrow> m \<le> length xs \<Longrightarrow>
    \<exists>s'. post_send c True s = Some (s', int m, 0) \<and> sending c R s' k dss n \<and> sys_results s' = rs \<and>
      wire_out (user s') c = wire_out (user s) c @ take m xs \<and> (\<forall>h. GetSocketByHandle s' h = GetSocketByHandle s h)"
    "sys_results s = [] \<Longrightarrow>
    \<exists>s'. post_send c True s = Some (s', -1, EAGAIN) \<and> sending c R s' k dss n \<and> wire_out (user s') = wire_out (user s) \<and> sys_results s' = []"
proof -
  have k: "con_at s c = Some k" using sd by (simp add: sending_def)
  {
    assume a: "sys_results s = (int m, e) # rs" "0 < m" "m \<le> length xs"
    define s1 where "s1 = s\<lparr>sys_results := rs\<rparr>"
    define s2 where "s2 = upd_user s1 (\<lambda>u. u\<lparr>wire_out := (wire_out u)(c := wire_out u c @ take m xs)\<rparr>)"
    have u1: "user s1 = user s" "con_at s1 c = Some k" using k by (simp_all add: s1_def con_at_def)
    have "WSASend s (c_socket k) (2 * c + 1) True = Some (s1, int m, 0)" unfolding s1_def by (rule WSASend_now(1) [OF i a(1)])
    moreover have "writev_data c (int m) s1 = Some s2" using u1 v a(2,3) by (simp add: writev_data_def s2_def)
    ultimately have "post_send c True s = Some (s2, int m, 0)" using k by (simp add: post_send_def)
    moreover have "sending c R s2 k dss n" using sd u1 by (simp add: sending_def s2_def con_at_def)
    moreover have "GetSocketByHandle s2 h = GetSocketByHandle s h" for h by (simp add: s2_def s1_def GetSocketByHandle_def)
    moreover have "sys_results s2 = rs" "wire_out (user s2) c = wire_out (user s) c @ take m xs" using u1(1) by (simp_all add: s2_def s1_def)
    ultimately show "\<exists>s'. post_send c True s = Some (s', int m, 0) \<and> sending c R s' k dss n \<and> sys_results s' = rs \<and>
      wire_out (user s') c = wire_out (user s) c @ take m xs \<and> (\<forall>h. GetSocketByHandle s' h = GetSocketByHandle s h)" by blast
  }
  assume "sys_results s = []"
  from WSASend_now(2) [OF i this, of "2 * c + 1"] obtain s1 where w: "WSASend s (c_socket k) (2 * c + 1) True = Some (s1, -1, EAGAIN)"
    "user s1 = user s" "sys_results s1 = []" by blast
  have "con_at s1 c = Some k" using k w(2) by (simp add: con_at_def)
  then have "post_send c True s = Some (s1, -1, EAGAIN)" using k w(1) by (simp add: post_send_def writev_data_def)
  moreover have "sending c R s1 k dss n" using sd w(2) by (simp add: sending_def con_at_def)
  ultimately show "\<exists>s'. post_send c True s = Some (s', -1, EAGAIN) \<and> sending c R s' k dss n \<and> wire_out (user s') = wire_out (user s) \<and> sys_results s' = []"
    using w(2,3) by auto
qed

lemma SendFinish_law:
  assumes "sending c R s k dss n" "n \<le> MAX_WBAF" "0 < m" "m + sum_list ns \<le> length (concat dss)" "length (concat dss) < 2 ^ 31"
    "sys_results s = map (\<lambda>m. (int m, 0)) ns" "\<forall>m \<in> set ns. 0 < m" "GetSocketByHandle s (c_socket k) \<noteq> None"
  shows "\<exists>s' k' dss'. SendFinish_loop hs c (int m) err s = Some s' \<and> sending c R s' k' dss' n \<and>
    concat dss' = drop (m + sum_list ns) (concat dss) \<and>
    wire_out (user s') c = wire_out (user s) c @ take (sum_list ns) (drop m (concat dss)) \<and>
    send_used k' = (send_used k \<and> dss' \<noteq> []) \<and> sys_results s' = []"
  using assms
proof (induction ns arbitrary: s k dss m err)
  case Nil
  have um: "unat (word_of_int (int m) :: u32) = m" using Nil.prems(3-5) by (simp add: unat_of_nat)
  then obtain s1 l dss1 where u: "update_send_list hs c (word_of_int (int m)) s = Some s1" "sending c R s1 (k\<lparr>send_list := l\<rparr>) dss1 n"
    "concat dss1 = drop m (concat dss)" "same_rest c s s1"
    using update_send_list_law [OF Nil.prems(1), of "word_of_int (int m)" hs] Nil.prems(4) by auto
  let ?k = "k\<lparr>send_list := l\<rparr>"
  have k: "con_at s c = Some k" "con_at s1 c = Some ?k" using Nil.prems(1) u(2) by (simp_all add: sending_def)
  have sy: "sys_results s1 = []" using u(4) Nil.prems(6) by (simp add: same_rest_def)
  show ?case
  proof (cases "dss1 = []")
    case True
    define s2 where "s2 = put_con s1 c (?k\<lparr>send_used := False\<rparr>)"
    have "SendFinish_loop hs c (int m) err s = Some s2"
      using k u(1) Nil.prems(3) sending_iovecs(1) [OF u(2) Nil.prems(2) True]
      by (subst SendFinish_loop.simps) (simp add: s2_def)
    moreover have "sending c R s2 (?k\<lparr>send_used := False\<rparr>) dss1 n" using u(2) by (simp add: sending_def s2_def)
    ultimately show ?thesis using u(3,4) sy True
      by (intro exI [of _ s2] exI [of _ "?k\<lparr>send_used := False\<rparr>"] exI [of _ dss1]) (simp add: s2_def same_rest_def)
  next
    case False
    then obtain vs where vs: "prepare_send (bst (user s1)) ?k = Some (?k\<lparr>wsendbuf := vs\<rparr>, True)" "gather (bst (user s1)) vs = Some (concat dss1)"
      using sending_iovecs(2) [OF u(2) Nil.prems(2)] by blast
    define s2 where "s2 = put_con s1 c (?k\<lparr>wsendbuf := vs\<rparr>)"
    have sd2: "sending c R s2 (?k\<lparr>wsendbuf := vs\<rparr>) dss1 n" using u(2) by (simp add: sending_def s2_def)
    have g2: "gather (bst (user s2)) (wsendbuf (?k\<lparr>wsendbuf := vs\<rparr>)) = Some (concat dss1)" using vs(2) by (simp add: s2_def)
    obtain i where i: "GetSocketByHandle s2 (c_socket (?k\<lparr>wsendbuf := vs\<rparr>)) = Some i"
      using Nil.prems(8) u(4) by (auto simp: s2_def same_rest_def GetSocketByHandle_def)
    have "sys_results s2 = []" using sy by (simp add: s2_def)
    then obtain s3 where s3: "post_send c True s2 = Some (s3, -1, EAGAIN)" "sending c R s3 (?k\<lparr>wsendbuf := vs\<rparr>) dss1 n"
      "wire_out (user s3) = wire_out (user s2)" "sys_results s3 = []"
      using post_send_law(2) [OF sd2 g2 i] by blast
    have "SendFinish_loop hs c (-1) EAGAIN s3 = Some s3"
      using s3(2) by (subst SendFinish_loop.simps) (simp add: sending_def)
    then have "SendFinish_loop hs c (int m) err s = Some s3"
      using k u(1) Nil.prems(3) vs(1) s3(1) by (subst SendFinish_loop.simps) (simp add: s2_def)
    then show ?thesis using s3 u(3,4) False
      by (intro exI [of _ s3] exI [of _ "?k\<lparr>wsendbuf := vs\<rparr>"] exI [of _ dss1]) (simp add: s2_def same_rest_def)
  qed
next
  case (Cons a ns)
  have um: "unat (word_of_int (int m) :: u32) = m" using Cons.prems(3-5) by (simp add: unat_of_nat)
  then obtain s1 l dss1 where u: "update_send_list hs c (word_of_int (int m)) s = Some s1" "sending c R s1 (k\<lparr>send_list := l\<rparr>) dss1 n"
    "concat dss1 = drop m (concat dss)" "same_rest c s s1"
    using update_send_list_law [OF Cons.prems(1), of "word_of_int (int m)" hs] Cons.prems(4) by auto
  let ?k = "k\<lparr>send_list := l\<rparr>"
  have k: "con_at s c = Some k" "con_at s1 c = Some ?k" using Cons.prems(1) u(2) by (simp_all add: sending_def)
  have a: "0 < a" "a + sum_list ns \<le> length (concat dss1)" using Cons.prems(4,7) u(3) by (simp_all add: add.commute)
  then have ne: "dss1 \<noteq> []" by auto
  obtain vs where vs: "prepare_send (bst (user s1)) ?k = Some (?k\<lparr>wsendbuf := vs\<rparr>, True)" "gather (bst (user s1)) vs = Some (concat dss1)"
    using sending_iovecs(2) [OF u(2) Cons.prems(2) ne] by blast
  define k2 where "k2 = ?k\<lparr>wsendbuf := vs\<rparr>"
  define s2 where "s2 = put_con s1 c k2"
  have sd2: "sending c R s2 k2 dss1 n" using u(2) by (simp add: sending_def s2_def k2_def)
  have g2: "gather (bst (user s2)) (wsendbuf k2) = Some (concat dss1)" using vs(2) by (simp add: s2_def k2_def)
  obtain i where i: "GetSocketByHandle s2 (c_socket k2) = Some i"
    using Cons.prems(8) u(4) by (auto simp: s2_def k2_def same_rest_def GetSocketByHandle_def)
  have sy: "sys_results s2 = (int a, 0) # map (\<lambda>m. (int m, 0)) ns" using u(4) Cons.prems(6) by (simp add: s2_def same_rest_def)
  obtain s3 where s3: "post_send c True s2 = Some (s3, int a, 0)" "sending c R s3 k2 dss1 n" "sys_results s3 = map (\<lambda>m. (int m, 0)) ns"
    "wire_out (user s3) c = wire_out (user s2) c @ take a (concat dss1)" "\<forall>h. GetSocketByHandle s3 h = GetSocketByHandle s2 h"
    using post_send_law(1) [OF sd2 g2 i sy a(1)] a(2) by auto
  have sz: "length (concat dss1) < 2 ^ 31" using u(3) Cons.prems(5) by simp
  have sk: "GetSocketByHandle s3 (c_socket k2) \<noteq> None" using s3(5) i by simp
  have "\<forall>m \<in> set ns. 0 < m" using Cons.prems(7) by simp
  from Cons.IH [OF s3(2) Cons.prems(2) a sz s3(3) this sk, of 0] obtain s' k' dss' where
    f: "SendFinish_loop hs c (int a) 0 s3 = Some s'" "sending c R s' k' dss' n" "concat dss' = drop (a + sum_list ns) (concat dss1)"
    "wire_out (user s') c = wire_out (user s3) c @ take (sum_list ns) (drop a (concat dss1))"
    "send_used k' = (send_used k2 \<and> dss' \<noteq> [])" "sys_results s' = []" by blast
  have "SendFinish_loop hs c (int m) err s = Some s'"
    using k u(1) Cons.prems(3) vs(1) s3(1) f(1) by (subst SendFinish_loop.simps) (simp add: s2_def k2_def)
  moreover have "wire_out (user s') c = wire_out (user s) c @ take (sum_list (a # ns)) (drop m (concat dss))"
    using f(4) s3(4) u(3,4) by (simp add: s2_def same_rest_def take_add)
  ultimately show ?case using f(2,3,5,6) u(3)
    by (intro exI [of _ s'] exI [of _ k'] exI [of _ dss']) (simp add: k2_def add.assoc add.commute)
qed

end
