(* ===== verification/Log.thy ===== *)
theory Log
  imports Sending
begin

text \<open>
  The log system (\<open>src/log.c\<close>). Callers format a line and queue it as a raw packet at a log file; a
  worker thread moves the queued packets to a private list and writes them out by scattered writes.
  Callers and worker share only the closing flag and the queues, each queue under the mutex of its log, so every step of
  the model has at most one access to them: a caller tests the flag in one step and queues its line in a later one, and
  the worker takes over one queue, or does one write, at a time.

  A log file is the list of bytes written through its descriptor; the result of a \<open>writev\<close> comes from a script, with
  everything written once the script has ended. The formatted time of a line is an argument. The
  packets are values as in theory Connection, whose loops over packets and buffers the code repeats.
\<close>

section \<open>State\<close>

record log =
  log_queue :: "wpacket list"
  pending_log :: "wpacket list"
  file_size :: u64
  log_iovecs :: "iovec list"
  log_file :: "byte list"

record log_system =
  log_st :: bstore
  log_files :: "log list"
  log_closed :: bool
  log_bytes :: int
  log_count :: u32
  stat_tick :: u32
  log_clock :: "nat \<Rightarrow> u32"
  log_now :: nat
  write_results :: "int list"

definition text_bytes :: "string \<Rightarrow> byte list" where
  "text_bytes s = map (\<lambda>c. word_of_nat (of_char c)) s"

definition put_log :: "log_system \<Rightarrow> nat \<Rightarrow> log \<Rightarrow> log_system" where
  "put_log s i l = s\<lparr>log_files := (log_files s)[i := l]\<rparr>"

definition init_log_system :: "bool \<Rightarrow> log_system \<Rightarrow> log_system \<times> int" where
  "init_log_system running s =
     (if \<not> running then (s\<lparr>log_closed := False, log_files := [], log_bytes := 0\<rparr>, 0) else (s, -1))"

section \<open>Queueing a line\<close>

text \<open>\<open>snprintf\<close> into 4096 bytes, one of which is the end of the string.\<close>

definition log_line :: "byte list \<Rightarrow> byte list \<Rightarrow> byte list" where
  "log_line stamp content = take 4095 (stamp @ content @ text_bytes [CHR 0x0A])"

definition log_packet :: "bstore \<Rightarrow> byte list \<Rightarrow> (bstore \<times> wpacket) option" where
  "log_packet st buf = do {
     (st1, w) \<leftarrow> wpacket_create st 0 (word_of_nat (length buf)) 1;
     wpacket_write_binary st1 w (Some buf) }"

text \<open>The test of the closing flag: \<open>log_write\<close> returns \<open>-1\<close> or goes on.\<close>

definition log_test :: "log_system \<Rightarrow> int option" where
  "log_test s = (if log_closed s then Some (-1) else None)"

text \<open>
  After the test: the packet is built, which only the caller sees, and goes to the end of the queue under the mutex.
\<close>

definition log_enqueue :: "nat \<Rightarrow> byte list \<Rightarrow> byte list \<Rightarrow> log_system \<Rightarrow> log_system option" where
  "log_enqueue i stamp content s = do {
     (st, w) \<leftarrow> log_packet (log_st s) (log_line stamp content);
     _ \<leftarrow> assert_c (i < length (log_files s));
     let l = log_files s ! i;
     Some (put_log (s\<lparr>log_st := st\<rparr>) i (l\<lparr>log_queue := log_queue l @ [w]\<rparr>)) }"

text \<open>The call of a thread that nobody interrupts.\<close>

definition log_write :: "nat \<Rightarrow> byte list \<Rightarrow> byte list \<Rightarrow> log_system \<Rightarrow> (log_system \<times> int) option" where
  "log_write i stamp content s = (case log_test s of
       Some r \<Rightarrow> Some (s, r)
     | None \<Rightarrow> do { s' \<leftarrow> log_enqueue i stamp content s; Some (s', 0) })"

definition create_log :: "bool \<Rightarrow> byte list \<Rightarrow> log_system \<Rightarrow> (log_system \<times> nat option) option" where
  "create_log opened stamp s =
     (if \<not> opened then Some (s, None)
      else do {
        let i = length (log_files s);
        let s1 = s\<lparr>log_files := log_files s @
          [\<lparr>log_queue = [], pending_log = [], file_size = 0, log_iovecs = [], log_file = []\<rparr>]\<rparr>;
        (s2, _) \<leftarrow> log_write i stamp (text_bytes ''open log file'') s1;
        Some (s2, Some i) })"

section \<open>Writing out\<close>

definition prepare_write :: "bstore \<Rightarrow> log \<Rightarrow> log option" where
  "prepare_write st l = do {
     vs \<leftarrow> send_iovecs st (map (\<lambda>w. (w, 0)) (pending_log l)) [];
     Some (l\<lparr>log_iovecs := vs\<rparr>) }"

fun on_write_finish :: "bstore \<Rightarrow> wpacket list \<Rightarrow> u32 \<Rightarrow> u32 \<Rightarrow> (bstore \<times> wpacket list \<times> u32) option" where
  "on_write_finish st ws bytestransfer n =
     (if bytestransfer = 0 then Some (st, ws, n)
      else case ws of
        [] \<Rightarrow> None
      | w # ws' \<Rightarrow>
          if bytestransfer \<ge> data_size w
          then do {
            st1 \<leftarrow> wpacket_destroy st w;
            on_write_finish st1 ws' (bytestransfer - data_size w) (n + 1) }
          else do {
            (st1, w1) \<leftarrow> wpacket_sent st w bytestransfer;
            Some (st1, w1 # ws', n) })"

text \<open>The statistics that are printed once a second.\<close>

definition GetSystemMs_log :: "log_system \<Rightarrow> log_system \<times> u32" where
  "GetSystemMs_log s = (s\<lparr>log_now := log_now s + 1\<rparr>, log_clock s (log_now s))"

definition log_stats :: "log_system \<Rightarrow> log_system" where
  "log_stats s =
     (let (s1, t) = GetSystemMs_log s in
      if stat_tick s1 + 1000 \<le> t
      then let (s2, t2) = GetSystemMs_log s1 in s2\<lparr>stat_tick := t2, log_count := 0\<rparr>
      else s1)"

definition writev_log :: "log_system \<Rightarrow> byte list \<Rightarrow> log_system \<times> int" where
  "writev_log s xs = (case write_results s of
       [] \<Rightarrow> (s, int (length xs))
     | r # rs \<Rightarrow> (s\<lparr>write_results := rs\<rparr>, min r (int (length xs))))"

text \<open>One round of the loop: a failed write is only reported and tried again.\<close>

definition write_round :: "nat \<Rightarrow> log_system \<Rightarrow> log_system option" where
  "write_round i s = do {
     l \<leftarrow> prepare_write (log_st s) (log_files s ! i);
     xs \<leftarrow> gather (log_st s) (log_iovecs l);
     let (s1, bytetransfer) = writev_log s xs;
     s2 \<leftarrow> (if bytetransfer > 0
           then do {
             (st, ws, n) \<leftarrow> on_write_finish (log_st s1) (pending_log l) (word_of_int bytetransfer) (log_count s1);
             b \<leftarrow> i32 (log_bytes s1 + bytetransfer);
             Some (put_log (s1\<lparr>log_st := st, log_count := n, log_bytes := b\<rparr>) i
               (l\<lparr>pending_log := ws, file_size := file_size l + word_of_int bytetransfer,
                  log_file := log_file l @ take (nat bytetransfer) xs\<rparr>)) }
           else Some (put_log s1 i l));
     Some (log_stats s2) }"

definition close_line :: "byte list \<Rightarrow> byte list" where
  "close_line stamp = log_line stamp (text_bytes ''close log sucessful'')"

text \<open>When the system is closed a last line is appended.\<close>

definition queue_close :: "bool \<Rightarrow> byte list \<Rightarrow> nat \<Rightarrow> log_system \<Rightarrow> log_system option" where
  "queue_close closing stamp i s =
     (if closing
      then do {
        (st, w) \<leftarrow> log_packet (log_st s) (close_line stamp);
        let l = log_files s ! i;
        Some (put_log (s\<lparr>log_st := st\<rparr>) i (l\<lparr>pending_log := pending_log l @ [w]\<rparr>)) }
      else Some s)"

text \<open>The queue is taken over under the mutex.\<close>

definition take_queue :: "nat \<Rightarrow> log_system \<Rightarrow> log_system" where
  "take_queue i s = (let l = log_files s ! i in put_log s i (l\<lparr>pending_log := pending_log l @ log_queue l, log_queue := []\<rparr>))"

section \<open>Callers and worker\<close>

text \<open>
  Where the worker thread is: before its test of the flag, before the take-over of the queue of a file, in the loop that
  writes out that file, at its end. The last two points are in a pass over all files, the closing one or another.
\<close>

datatype worker_pc = WTest | WSwap bool nat | WWrite bool nat | WDone

text \<open>One step of the worker (\<open>worker_routine\<close>, \<open>write_all_log_file\<close>, \<open>write_to_file\<close>); it has none after its end.\<close>

definition worker_routine :: "(nat \<Rightarrow> byte list) \<Rightarrow> worker_pc \<Rightarrow> log_system \<Rightarrow> (worker_pc \<times> log_system) option" where
  "worker_routine cs p s = (case p of
       WTest \<Rightarrow> Some (if log_closed s then (WSwap True 0, s) else (WSwap False 0, fst (GetSystemMs_log s)))
     | WSwap closing i \<Rightarrow>
         if i < length (log_files s)
         then do { s1 \<leftarrow> queue_close closing (cs i) i (take_queue i s); Some (WWrite closing i, s1) }
         else Some (if closing then (WDone, s) else (WTest, log_stats (fst (GetSystemMs_log s))))
     | WWrite closing i \<Rightarrow>
         if pending_log (log_files s ! i) = [] then Some (WSwap closing (Suc i), s)
         else do { s1 \<leftarrow> write_round i s; Some (WWrite closing i, s1) }
     | WDone \<Rightarrow> None)"

text \<open>A caller between the test of the flag and the queueing of its line.\<close>

datatype log_caller = CIdle | CTested nat "byte list" "byte list"

text \<open>
  The threads with their system. Not in the code are the lines queued at each file before and after the flag was set, the
  later ones with their thread, and where the callers were at that moment.
\<close>

record log_run =
  lsys :: log_system
  log_callers :: "nat \<Rightarrow> log_caller"
  log_worker :: worker_pc
  sent_before :: "nat \<Rightarrow> byte list list"
  sent_after :: "nat \<Rightarrow> (nat \<times> byte list) list"
  at_closing :: "nat \<Rightarrow> log_caller"

definition log_start :: "log_system \<Rightarrow> log_run" where
  "log_start s = \<lparr>lsys = s, log_callers = (\<lambda>_. CIdle), log_worker = WTest, sent_before = (\<lambda>_. []), sent_after = (\<lambda>_. []),
     at_closing = (\<lambda>_. CIdle)\<rparr>"

definition note_line :: "nat \<Rightarrow> nat \<Rightarrow> byte list \<Rightarrow> log_run \<Rightarrow> log_run" where
  "note_line t i xs r =
     (if log_closed (lsys r) then r\<lparr>sent_after := (sent_after r)(i := sent_after r i @ [(t, xs)])\<rparr>
      else r\<lparr>sent_before := (sent_before r)(i := sent_before r i @ [xs])\<rparr>)"

text \<open>
  The steps, in any order: a caller tests the flag, a caller past the test queues its line, \<open>close_log_system\<close> sets the
  flag, the worker takes a step. \<open>cs\<close> has the time in the closing line of each file.
\<close>

inductive lstep :: "(nat \<Rightarrow> byte list) \<Rightarrow> log_run \<Rightarrow> log_run \<Rightarrow> bool" for cs where
  ltest: "log_callers r t = CIdle \<Longrightarrow> i < length (log_files (lsys r)) \<Longrightarrow>
    lstep cs r (r\<lparr>log_callers := (log_callers r)(t := if log_test (lsys r) = None then CTested i stamp content else CIdle)\<rparr>)"
| lenqueue: "log_callers r t = CTested i stamp content \<Longrightarrow> log_enqueue i stamp content (lsys r) = Some s \<Longrightarrow>
    lstep cs r (note_line t i (log_line stamp content) (r\<lparr>lsys := s, log_callers := (log_callers r)(t := CIdle)\<rparr>))"
| lclose: "\<not> log_closed (lsys r) \<Longrightarrow> lstep cs r (r\<lparr>lsys := (lsys r)\<lparr>log_closed := True\<rparr>, at_closing := log_callers r\<rparr>)"
| lwork: "worker_routine cs (log_worker r) (lsys r) = Some (p, s) \<Longrightarrow> lstep cs r (r\<lparr>lsys := s, log_worker := p\<rparr>)"

text \<open>
  When the worker has ended, \<open>close_log_system\<close> destroys the logs; what is still in a queue is released without being
  written.
\<close>

fun destroy_queue :: "bstore \<Rightarrow> wpacket list \<Rightarrow> bstore option" where
  "destroy_queue st [] = Some st"
| "destroy_queue st (w # ws) = do { st1 \<leftarrow> wpacket_destroy st w; destroy_queue st1 ws }"

definition destroy_log :: "log \<Rightarrow> bstore \<Rightarrow> bstore option" where
  "destroy_log l st = destroy_queue st (log_queue l)"

fun destroy_logs :: "log list \<Rightarrow> bstore \<Rightarrow> bstore option" where
  "destroy_logs [] st = Some st"
| "destroy_logs (l # ls) st = do { st1 \<leftarrow> destroy_log l st; destroy_logs ls st1 }"

definition close_log_system :: "log_system \<Rightarrow> log_system option" where
  "close_log_system s = do { st \<leftarrow> destroy_logs (log_files s) (log_st s); Some (s\<lparr>log_st := st, log_files := []\<rparr>) }"

section \<open>A line becomes a packet of one buffer\<close>

lemma wpacket_create_frame:
  assumes "wpacket_create st m sz 1 = Some (st', w)" "rc_inv st R" "0 < quota st" "a \<noteq> fresh st"
  shows "cells st' a = cells st a \<and> fresh st' = Suc (fresh st)"
proof -
  have "0 < fresh st" by (rule rc_invD(3) [OF assms(2)])
  then show ?thesis using assms(1,3,4)
    by (auto simp: wpacket_create_def buffer_create_and_acquire_eq buffer_acquire_def set_size_def grown_def put_buf_def set_cell_def Let_def
        split: bind_splits if_splits)
qed

lemma log_packet_law:
  assumes inv: "rc_inv st R" and q: "0 < quota st" and b: "buf \<noteq> []" "length buf \<le> 4095"
  shows "\<exists>st' w. log_packet st buf = Some (st', w) \<and> holds st' w [wbuf w] buf \<and> rc_inv st' (wroots w + R) \<and>
    wbuf w = fresh st \<and> size (wroots w) = 2 \<and> (\<forall>a. a \<noteq> fresh st \<longrightarrow> cells st' a = cells st a) \<and> fresh st' = Suc (fresh st) \<and>
    quota st' = quota st - 1 \<and> card (dom (cells st')) \<le> Suc (card (dom (cells st)))"
proof -
  let ?n = "word_of_nat (length buf) :: u32" let ?f = "fresh st"
  have un: "unat ?n = length buf" using b by (intro unat_word_of_nat) simp
  have sz: "1 \<le> ?n" "?n \<le> 2 ^ 31" using b un by (auto simp: word_le_nat_alt Suc_le_eq)
  obtain st1 w where c: "wpacket_create st 0 ?n 1 = Some (st1, w)" "wp_inv st1 R w [?f]" "payload st1 w [?f] = []"
    "quota st1 = quota st - 1" "wbegin_pos w = 0" "wbuf w = ?f" "wraw w = 1" "unat (data_size w) = 0"
    "map_option capacity (cells st1 ?f) = Some (GetSize_of_pow2 ?n)" "card (dom (cells st1)) \<le> Suc (card (dom (cells st)))"
    using wpacket_create_ok [OF inv q sz, of 1 0] by auto
  note i = c(2) [unfolded wp_inv_def]
  have wb: "writebuf w = ?f" "?f \<noteq> NULL" using i by auto
  obtain d where d: "cells st1 ?f = Some d" "bsize d = wpos w" "capacity d = GetSize_of_pow2 ?n"
    using c(9) i wb(1) by auto
  have ok: "buf_ok d" using i d(1) rc_invD(6) by blast
  have "length (bytes_of d) = 0" using i c(8) d(1) by (simp add: contents_Cons)
  then have p0: "wpos w = 0" using length_bytes_of [OF ok] d(2) by (simp add: unat_eq_zero)
  have cap: "length buf \<le> unat (capacity d)" "capacity d \<noteq> 0"
    using GetSize_of_pow2_law [OF sz] d(3) un b(1) by (auto simp: word_le_nat_alt)
  have fits: "unat (wpos w) + length buf \<le> unat (capacity d)" "length (contents st1 [?f]) + length buf < 2 ^ 32"
    using cap p0 i c(8) b(2) by auto
  obtain st2 where ch: "wpacket_chunk st1 w buf = Some (st2, w\<lparr>wpos := wpos w + ?n, data_size := data_size w + ?n\<rparr>)"
    "wp_inv st2 R (w\<lparr>wpos := wpos w + ?n, data_size := data_size w + ?n\<rparr>) [?f]"
    "payload st2 (w\<lparr>wpos := wpos w + ?n, data_size := data_size w + ?n\<rparr>) [?f] = payload st1 w [?f] @ buf" "quota st2 = quota st1"
    "fresh st2 = fresh st1" "\<forall>a. a \<notin> set [?f] \<longrightarrow> cells st2 a = cells st1 a"
    "\<forall>a. map_option capacity (cells st2 a) = map_option capacity (cells st1 a)"
    using wpacket_chunk_ok [OF c(2) _ fits] d(1) wb(1) by auto
  define w' where "w' = w\<lparr>wpos := wpos w + ?n, data_size := data_size w + ?n\<rparr>"
  have "wpacket_write_loop x y [] = Some (x, y)" for x y by (simp add: wpacket_write_loop.simps)
  then have "wpacket_write_loop st1 w buf = Some (st2, w')"
    using b(1) d(1) wb p0 cap ch(1) by (simp add: wpacket_write_loop.simps [of st1 w buf] buf_at_def Let_def w'_def min_def)
  then have run: "log_packet st buf = Some (st2, w')"
    using c(1,7) wb by (simp add: log_packet_def wpacket_write_binary_def wpacket_write_def wpacket_own_self)
  note j = ch(2) [folded w'_def, unfolded wp_inv_def]
  have w': "wbuf w' = ?f" "writebuf w' = ?f" "wbegin_pos w' = 0" "data_size w' = data_size w + ?n" using c wb by (simp_all add: w'_def)
  have ct: "contents st2 [?f] = buf" using ch(3) c(3,7) by (simp add: payload_def)
  have "unat (data_size w') = length buf" using c(8) un w'(4) by (simp add: unat_eq_zero)
  moreover have "chain (bnexts st2) ?f [?f] NULL" using j unfolding w'(1) by blast
  moreover have "\<exists>e. cells st2 ?f = Some e" using ch(7) d(1) by (metis map_option_eq_Some option.simps(9))
  ultimately have "holds st2 w' [wbuf w'] buf" using ct b(1) w' by (auto simp: holds_def)
  moreover have "wroots w' = {#?f, ?f#}" using w' wb by (simp add: wroots_def)
  moreover have "fresh st1 = Suc ?f" using wpacket_create_frame [OF c(1) inv q, of "Suc ?f"] by simp
  moreover have "dom (cells st2) = dom (cells st1)" using ch(7) unfolding dom_def by (metis option.map_disc_iff)
  ultimately show ?thesis
    using run j w' c(4,10) ch(4,5,6) wpacket_create_frame [OF c(1) inv q]
    by (intro exI [of _ st2] exI [of _ w']) auto
qed

section \<open>Writing out a list of packets\<close>

text \<open>Packets of one buffer each, with their bytes and their references.\<close>

definition lq :: "bstore \<Rightarrow> wpacket list \<Rightarrow> byte list list \<Rightarrow> bool" where
  "lq st ws dss \<longleftrightarrow> list_all2 (\<lambda>w ds. holds st w [wbuf w] ds) ws dss"

definition lroots :: "wpacket list \<Rightarrow> addr multiset" where
  "lroots ws = (\<Sum>w\<leftarrow>ws. wroots w)"

lemma lroots_simps [simp]: "lroots [] = {#}" "lroots (w # ws) = wroots w + lroots ws" "lroots (xs @ ys) = lroots xs + lroots ys"
  by (simp_all add: lroots_def)

lemma lroots_mem: "w \<in> set ws \<Longrightarrow> wbuf w \<in># lroots ws"
  by (induction ws) (auto simp: wroots_def)

lemma lq_simps [simp]:
  "lq st [] dss = (dss = [])" "lq st (w # ws) dss = (\<exists>ds dss'. dss = ds # dss' \<and> holds st w [wbuf w] ds \<and> lq st ws dss')"
  by (auto simp: lq_def list_all2_Cons1)

lemma lq_append: "lq st (xs @ ys) dss \<longleftrightarrow> (\<exists>d1 d2. dss = d1 @ d2 \<and> lq st xs d1 \<and> lq st ys d2)"
proof
  assume "lq st (xs @ ys) dss"
  then show "\<exists>d1 d2. dss = d1 @ d2 \<and> lq st xs d1 \<and> lq st ys d2" unfolding lq_def list_all2_append1 by blast
next
  assume "\<exists>d1 d2. dss = d1 @ d2 \<and> lq st xs d1 \<and> lq st ys d2"
  then show "lq st (xs @ ys) dss" unfolding lq_def by (elim exE conjE) (simp add: list_all2_appendI)
qed

lemma lq_same_bytes:
  assumes "lq st ws dss" "rc_inv st' R" "same_bytes st st'" "\<forall>w \<in> set ws. cells st' (wbuf w) \<noteq> None"
  shows "lq st' ws dss"
  using assms(1,4)
proof (induction ws arbitrary: dss)
  case (Cons w ws)
  then show ?case using holds_same_bytes [OF _ assms(2,3)] by auto
qed simp

lemma lq_offered:
  assumes "lq st ws dss" "rc_inv st R" "length vs \<le> MAX_WBAF"
  shows "\<exists>vs'. send_iovecs st (map (\<lambda>w. (w, 0)) ws) vs = Some (vs @ vs') \<and>
    gather st vs' = Some (concat (take (MAX_WBAF - length vs) dss))"
  using assms
proof (induction ws arbitrary: dss vs)
  case (Cons w ws)
  obtain ds dss' where d: "dss = ds # dss'" "holds st w [wbuf w] ds" "lq st ws dss'" using Cons.prems(1) by auto
  show ?case
  proof (cases "length vs < MAX_WBAF")
    case True
    obtain vs1 xs where v: "packet_iovecs st (wbuf w) (wbegin_pos w) (data_size w) vs = Some (vs @ vs1)" "gather st vs1 = Some xs"
      "length vs + length [wbuf w] \<le> MAX_WBAF \<longrightarrow> xs = ds" "length vs1 \<le> length [wbuf w]" "length vs < MAX_WBAF \<longrightarrow> vs1 \<noteq> []"
      using holds_iovecs [OF d(2) Cons.prems(2)] by blast
    have l: "length vs1 = 1" "xs = ds" using v(3-5) True by (auto simp: le_Suc_eq)
    from Cons.IH [OF d(3) Cons.prems(2), of "vs @ vs1"] True l(1) obtain vs2 where
      "send_iovecs st (map (\<lambda>w. (w, 0)) ws) (vs @ vs1) = Some ((vs @ vs1) @ vs2)"
      "gather st vs2 = Some (concat (take (MAX_WBAF - Suc (length vs)) dss'))" by auto
    moreover have "take (MAX_WBAF - length vs) dss = ds # take (MAX_WBAF - Suc (length vs)) dss'"
      unfolding d(1) Suc_diff_Suc [OF True, symmetric] by (rule take_Suc_Cons)
    ultimately show ?thesis using v(1,2) l(2) True by (intro exI [of _ "vs1 @ vs2"]) (simp add: gather_append)
  next
    case False
    then show ?thesis using Cons.prems(3) by (intro exI [of _ "[]"]) simp
  qed
qed simp

lemma on_write_finish_law:
  assumes "lq st ws dss" "rc_inv st (lroots ws + R)" "few_refs st (size (lroots ws) + size R)" "unat n \<le> length (concat dss)"
  shows "\<exists>st' ws' dss' k. on_write_finish st ws n c = Some (st', ws', k) \<and> lq st' ws' dss' \<and> concat dss' = drop (unat n) (concat dss) \<and>
    rc_inv st' (lroots ws' + R) \<and> size (lroots ws') \<le> size (lroots ws) \<and> same_bytes st st' \<and> fresh st' = fresh st \<and> quota st' = quota st"
  using assms
proof (induction ws arbitrary: st dss n c)
  case Nil
  then have "n = 0" by (simp add: unat_eq_zero)
  then show ?case using Nil by (intro exI [of _ st] exI [of _ "[]"]) simp
next
  case (Cons w ws)
  obtain ds dss' where d: "dss = ds # dss'" "holds st w [wbuf w] ds" "lq st ws dss'" using Cons.prems(1) by auto
  have inv: "rc_inv st (wroots w + (lroots ws + R))" using Cons.prems(2) by (simp add: add.assoc)
  have dw: "unat (data_size w) = length ds" using d(2) by (simp add: holds_def)
  consider "n = 0" | "n \<noteq> 0" "data_size w \<le> n" | "n \<noteq> 0" "\<not> data_size w \<le> n" by blast
  then show ?case
  proof cases
    case 1
    then show ?thesis using Cons.prems by (intro exI [of _ st] exI [of _ "w # ws"] exI [of _ dss]) simp
  next
    case 2
    obtain st1 where s1: "wpacket_destroy st w = Some st1" "rc_inv st1 (lroots ws + R)" "same_bytes st st1" "fresh st1 = fresh st" "quota st1 = quota st"
      using wpacket_destroy_law [OF inv] by blast
    have "lq st1 ws dss'" using lroots_mem rc_invD(5) [OF s1(2)] by (intro lq_same_bytes [OF d(3) s1(2,3)]) fastforce
    moreover have "few_refs st1 (size (lroots ws) + size R)"
      using few_refs_shrink [OF Cons.prems(3,2) s1(3)] by (rule few_refs_less) simp
    moreover have un: "unat (n - data_size w) = unat n - length ds" using unat_sub_le [OF 2(2)] dw by simp
    moreover have "unat n - length ds \<le> length (concat dss')" using Cons.prems(4) d(1) by simp
    ultimately obtain st' ws' dss'' k where r: "on_write_finish st1 ws (n - data_size w) (c + 1) = Some (st', ws', k)" "lq st' ws' dss''"
      "concat dss'' = drop (unat n - length ds) (concat dss')" "rc_inv st' (lroots ws' + R)" "size (lroots ws') \<le> size (lroots ws)"
      "same_bytes st1 st'" "fresh st' = fresh st1" "quota st' = quota st1"
      using Cons.IH [OF _ s1(2), of dss' "n - data_size w" "c + 1"] by metis
    have "length ds \<le> unat n" using 2(2) dw by (simp add: word_le_nat_alt)
    then show ?thesis using r s1 2 d(1) same_bytes_trans [OF s1(3) r(6)]
      by (intro exI [of _ st'] exI [of _ ws'] exI [of _ dss''] exI [of _ k]) simp
  next
    case 3
    let ?Q = "(if writebuf w = NULL then {#} else {#writebuf w#}) + (lroots ws + R)"
    have i: "rc_inv st (add_mset (wbuf w) ?Q)" using inv by (simp add: wroots_def add.assoc)
    have f: "few_refs st (size ?Q + 1)" using Cons.prems(3) by (simp add: wroots_def split: if_splits)
    have "unat n < length ds" using 3(2) dw by (simp add: word_le_nat_alt)
    then obtain st' b pos us' where r: "wpacket_sent st w n = Some (st', w\<lparr>wbegin_pos := pos, data_size := data_size w - n, wbuf := b\<rparr>)"
      "holds st' (w\<lparr>wbegin_pos := pos, data_size := data_size w - n, wbuf := b\<rparr>) us' (drop (unat n) ds)"
      "rc_inv st' (add_mset b ?Q)" "same_bytes st st'" "length us' \<le> length [wbuf w]" "fresh st' = fresh st" "quota st' = quota st"
      using wpacket_sent_law [OF d(2) i f] by blast
    define w' where "w' = w\<lparr>wbegin_pos := pos, data_size := data_size w - n, wbuf := b\<rparr>"
    have "us' \<noteq> []" using r(2) rc_invD(2) [OF r(3)] by (auto simp: holds_def)
    then have us: "us' = [wbuf w']" using r(2,5) by (cases us') (auto simp: holds_def w'_def)
    have inv': "rc_inv st' (lroots (w' # ws) + R)" using r(3) by (cases "writebuf w = NULL") (simp_all add: wroots_def w'_def add.assoc)
    have "lq st' ws dss'" using lroots_mem rc_invD(5) [OF inv'] by (intro lq_same_bytes [OF d(3) inv' r(4)]) fastforce
    moreover have "size (lroots (w' # ws)) = size (lroots (w # ws))" by (simp add: wroots_def w'_def)
    moreover have "drop (unat n) (concat dss) = drop (unat n) ds @ concat dss'" using \<open>unat n < length ds\<close> d(1) by simp
    ultimately show ?thesis using r(1,2,4,6,7) us inv' 3
      by (intro exI [of _ st'] exI [of _ "w' # ws"] exI [of _ "drop (unat n) ds # dss'"] exI [of _ c]) (simp add: w'_def)
  qed
qed

section \<open>The whole system\<close>

definition log_packets :: "log \<Rightarrow> wpacket list" where
  "log_packets l = pending_log l @ log_queue l"

definition log_roots :: "log list \<Rightarrow> addr multiset" where
  "log_roots ls = (\<Sum>l\<leftarrow>ls. lroots (log_packets l))"

text \<open>The bytes of the private list, the lines of the queue, and what is in the file or still on its way to it.\<close>

definition pending_bytes :: "log_system \<Rightarrow> nat \<Rightarrow> byte list" where
  "pending_bytes s i = concat (map (packet_bytes (log_st s)) (pending_log (log_files s ! i)))"

definition queue_lines :: "log_system \<Rightarrow> nat \<Rightarrow> byte list list" where
  "queue_lines s i = map (packet_bytes (log_st s)) (log_queue (log_files s ! i))"

definition log_content :: "log_system \<Rightarrow> nat \<Rightarrow> byte list" where
  "log_content s i = log_file (log_files s ! i) @ pending_bytes s i @ concat (queue_lines s i)"

text \<open>Nothing happened to a file.\<close>

definition log_same :: "nat \<Rightarrow> log_system \<Rightarrow> log_system \<Rightarrow> bool" where
  "log_same j s s' \<longleftrightarrow> log_files s' ! j = log_files s ! j \<and> pending_bytes s' j = pending_bytes s j \<and> queue_lines s' j = queue_lines s j"

lemma log_sameD: "log_same j s s' \<Longrightarrow> log_content s' j = log_content s j"
  by (simp add: log_same_def log_content_def)

definition log_total :: "log_system \<Rightarrow> nat" where
  "log_total s = (\<Sum>i\<leftarrow>[0..<length (log_files s)]. length (log_content s i))"

text \<open>
  The invariant: exact reference counts, every packet is a single buffer with its bytes, and the counter
  of bytes written does not exceed the sizes of the files. Every buffer still to come may take two
  references and one place.
\<close>

definition log_ok :: "log_system \<Rightarrow> bool" where
  "log_ok s \<longleftrightarrow> rc_inv (log_st s) (log_roots (log_files s)) \<and>
     few_refs (log_st s) (size (log_roots (log_files s)) + 3 * quota (log_st s)) \<and>
     (\<forall>l \<in> set (log_files s). \<forall>w \<in> set (log_packets l). \<exists>ds. holds (log_st s) w [wbuf w] ds) \<and>
     0 \<le> log_bytes s \<and> log_bytes s \<le> int (\<Sum>l\<leftarrow>log_files s. length (log_file l))"

lemma lq_bytes: "lq st ws dss \<Longrightarrow> rc_inv st R \<Longrightarrow> dss = map (packet_bytes st) ws"
  by (induction ws arbitrary: dss) (auto simp: holds_bytes)

lemma lq_exists:
  assumes "\<forall>w \<in> set ws. \<exists>ds. holds st w [wbuf w] ds" "rc_inv st R"
  shows "lq st ws (map (packet_bytes st) ws)"
  using assms(1)
proof (induction ws)
  case (Cons w ws)
  then obtain ds where "holds st w [wbuf w] ds" by auto
  then show ?case using holds_bytes [OF _ assms(2)] Cons by auto
qed simp

lemma lq_holds: "lq st ws dss \<Longrightarrow> w \<in> set ws \<Longrightarrow> \<exists>ds. holds st w [wbuf w] ds"
  by (induction ws arbitrary: dss) auto

lemma log_roots_update:
  "i < length ls \<Longrightarrow> \<exists>R. log_roots ls = lroots (log_packets (ls ! i)) + R \<and> (\<forall>l. log_roots (ls[i := l]) = lroots (log_packets l) + R)"
proof (induction ls arbitrary: i)
  case (Cons x ls)
  show ?case
  proof (cases i)
    case 0
    then show ?thesis by (intro exI [of _ "log_roots ls"]) (simp add: log_roots_def)
  next
    case (Suc j)
    then obtain R where "log_roots ls = lroots (log_packets (ls ! j)) + R" "\<forall>l. log_roots (ls[j := l]) = lroots (log_packets l) + R"
      using Cons by auto
    then show ?thesis using Suc by (intro exI [of _ "lroots (log_packets x) + R"]) (simp add: log_roots_def ac_simps)
  qed
qed simp

lemma log_roots_mem: "l \<in> set ls \<Longrightarrow> w \<in> set (log_packets l) \<Longrightarrow> wbuf w \<in># log_roots ls"
  by (induction ls) (auto simp: log_roots_def lroots_mem)

lemma sum_update:
  fixes f :: "'a \<Rightarrow> nat"
  assumes "i < length ls"
  shows "(\<Sum>x\<leftarrow>ls[i := y]. f x) + f (ls ! i) = (\<Sum>x\<leftarrow>ls. f x) + f y"
  using assms by (induction ls arbitrary: i) (auto split: nat.splits)

lemma log_okD:
  assumes "log_ok s"
  shows "rc_inv (log_st s) (log_roots (log_files s))" "few_refs (log_st s) (size (log_roots (log_files s)) + 3 * quota (log_st s))"
    "i < length (log_files s) \<Longrightarrow> lq (log_st s) (log_packets (log_files s ! i)) (map (packet_bytes (log_st s)) (log_packets (log_files s ! i)))"
    "l \<in> set (log_files s) \<Longrightarrow> w \<in> set (log_packets l) \<Longrightarrow> \<exists>ds. holds (log_st s) w [wbuf w] ds"
    "0 \<le> log_bytes s" "log_bytes s \<le> int (\<Sum>l\<leftarrow>log_files s. length (log_file l))"
proof -
  show inv: "rc_inv (log_st s) (log_roots (log_files s))" using assms by (simp add: log_ok_def)
  show p: "\<exists>ds. holds (log_st s) w [wbuf w] ds" if "l \<in> set (log_files s)" "w \<in> set (log_packets l)" for l w
    using assms that by (auto simp: log_ok_def)
  show "lq (log_st s) (log_packets (log_files s ! i)) (map (packet_bytes (log_st s)) (log_packets (log_files s ! i)))"
    if "i < length (log_files s)" using p nth_mem [OF that] by (intro lq_exists [OF _ inv]) blast
qed (use assms in \<open>simp_all add: log_ok_def\<close>)

text \<open>Replacing one log and the store, where packets that stay keep their bytes.\<close>

lemma log_update:
  assumes ok: "log_ok s" and i: "i < length (log_files s)"
    and s': "log_files s' = (log_files s)[i := l]" "log_st s' = st"
    and inv: "rc_inv st (log_roots (log_files s'))" "few_refs st (size (log_roots (log_files s')) + 3 * quota st)"
    and keep: "\<And>w ds. holds (log_st s) w [wbuf w] ds \<Longrightarrow> wbuf w \<in># log_roots (log_files s) \<Longrightarrow> wbuf w \<in># log_roots (log_files s') \<Longrightarrow> holds st w [wbuf w] ds"
    and new: "\<forall>w \<in> set (log_packets l). \<exists>ds. holds st w [wbuf w] ds"
    and bytes: "0 \<le> log_bytes s'" "log_bytes s' \<le> int (\<Sum>l\<leftarrow>log_files s'. length (log_file l))"
  shows "log_ok s' \<and> (\<forall>j < length (log_files s). j \<noteq> i \<longrightarrow> log_same j s s')"
proof -
  have old: "holds st w [wbuf w] ds" if "j < length (log_files s)" "j \<noteq> i" "w \<in> set (log_packets (log_files s ! j))" "holds (log_st s) w [wbuf w] ds" for j w ds
  proof (rule keep [OF that(4)])
    have "log_files s' ! j = log_files s ! j" "j < length (log_files s')" using that s'(1) by simp_all
    then have "log_files s ! j \<in> set (log_files s')" using nth_mem [of j "log_files s'"] by simp
    then show "wbuf w \<in># log_roots (log_files s')" using log_roots_mem that(3) by blast
    show "wbuf w \<in># log_roots (log_files s)" using log_roots_mem [OF nth_mem [OF that(1)] that(3)] .
  qed
  have ex: "\<exists>ds. holds (log_st s) w [wbuf w] ds" if "j < length (log_files s)" "w \<in> set (log_packets (log_files s ! j))" for j w
    using log_okD(4) [OF ok] nth_mem [OF that(1)] that(2) by blast
  have "\<exists>ds. holds st w [wbuf w] ds" if k: "k \<in> set (log_files s')" and wk: "w \<in> set (log_packets k)" for k w
  proof -
    obtain j where "j < length (log_files s')" and jk: "log_files s' ! j = k" using k unfolding in_set_conv_nth by blast
    then have j: "j < length (log_files s)" "k = log_files s' ! j" using s'(1) by simp_all
    show ?thesis
    proof (cases "j = i")
      case True
      then show ?thesis using new wk j s'(1) by simp
    next
      case False
      then have w: "w \<in> set (log_packets (log_files s ! j))" using wk j False s'(1) by simp
      obtain ds where "holds (log_st s) w [wbuf w] ds" using ex [OF j(1) w] by blast
      from old [OF j(1) False w this] show ?thesis by blast
    qed
  qed
  then have "log_ok s'" using inv bytes s'(2) by (simp add: log_ok_def)
  moreover have "log_same j s s'" if j: "j < length (log_files s)" "j \<noteq> i" for j
  proof -
    have "packet_bytes st w = packet_bytes (log_st s) w" if w: "w \<in> set (log_packets (log_files s ! j))" for w
    proof -
      obtain ds where "holds (log_st s) w [wbuf w] ds" using ex [OF j(1) w] by blast
      from holds_bytes [OF old [OF j w this] inv(1)] holds_bytes [OF this log_okD(1) [OF ok]] show ?thesis by simp
    qed
    then show ?thesis using j s' by (simp add: log_same_def pending_bytes_def queue_lines_def log_packets_def cong: map_cong)
  qed
  ultimately show ?thesis by blast
qed

lemma log_files_le_total: "(\<Sum>l\<leftarrow>log_files s. length (log_file l)) \<le> log_total s"
proof -
  have "(\<Sum>l\<leftarrow>log_files s. length (log_file l)) = (\<Sum>i\<leftarrow>[0..<length (log_files s)]. length (log_file (log_files s ! i)))"
    by (subst map_nth [symmetric]) (simp only: map_map comp_def)
  also have "\<dots> \<le> log_total s" unfolding log_total_def by (rule sum_list_mono) (simp add: log_content_def)
  finally show ?thesis .
qed

lemma log_total_cong:
  assumes "length (log_files s') = length (log_files s)" "\<forall>j < length (log_files s). log_content s' j = log_content s j"
  shows "log_total s' = log_total s"
  unfolding log_total_def assms(1) using assms(2) by (intro arg_cong [of _ _ sum_list]) (simp cong: map_cong)

lemma log_view_cong:
  assumes "log_files s' = log_files s" "log_st s' = log_st s"
  shows "pending_bytes s' i = pending_bytes s i" "queue_lines s' i = queue_lines s i" "log_content s' i = log_content s i"
  using assms by (simp_all add: pending_bytes_def queue_lines_def log_content_def)

lemma log_stats_frame [simp]:
  "log_files (log_stats s) = log_files s" "log_st (log_stats s) = log_st s" "log_bytes (log_stats s) = log_bytes s"
  "log_closed (log_stats s) = log_closed s" "write_results (log_stats s) = write_results s"
  by (auto simp: log_stats_def GetSystemMs_log_def Let_def)

lemma log_stats_simps [simp]:
  "pending_bytes (log_stats s) i = pending_bytes s i" "queue_lines (log_stats s) i = queue_lines s i"
  "log_content (log_stats s) i = log_content s i" "log_ok (log_stats s) = log_ok s"
  by (simp_all add: log_view_cong [of "log_stats s" s] log_ok_def)

text \<open>What writing out one log leaves as it is.\<close>

definition log_frame :: "nat \<Rightarrow> log_system \<Rightarrow> log_system \<Rightarrow> bool" where
  "log_frame i s s' \<longleftrightarrow> length (log_files s') = length (log_files s) \<and> (\<forall>j < length (log_files s). j \<noteq> i \<longrightarrow> log_same j s s') \<and>
     log_file (log_files s' ! i) @ pending_bytes s' i = log_file (log_files s ! i) @ pending_bytes s i \<and>
     queue_lines s' i = queue_lines s i \<and> quota (log_st s') = quota (log_st s) \<and> log_closed s' = log_closed s"

lemma log_frame_content:
  assumes "log_frame i s s'" "j < length (log_files s)"
  shows "log_content s' j = log_content s j"
proof (cases "j = i")
  case True
  have "(log_file (log_files s' ! i) @ pending_bytes s' i) @ concat (queue_lines s' i) = (log_file (log_files s ! i) @ pending_bytes s i) @ concat (queue_lines s i)"
    using assms(1) by (simp add: log_frame_def del: append_assoc)
  then show ?thesis using True by (simp add: log_content_def)
qed (use assms in \<open>simp add: log_frame_def log_sameD\<close>)

lemma finish_round:
  assumes ok: "log_ok s" and i: "i < length (log_files s)" and lim: "int (log_total s) \<le> INT32_MAX"
    and b: "0 < b" "b \<le> length (pending_bytes s i)" and l: "l = (log_files s ! i)\<lparr>log_iovecs := vs\<rparr>" and n: "unat n = b"
  shows "\<exists>st ws k. on_write_finish (log_st s) (pending_log l) n c = Some (st, ws, k) \<and> i32 (log_bytes s + int b) = Some (log_bytes s + int b) \<and>
    (\<forall>s' sz. log_st s' = st \<longrightarrow> log_bytes s' = log_bytes s + int b \<longrightarrow> log_closed s' = log_closed s \<longrightarrow>
       log_files s' = (log_files s)[i := l\<lparr>pending_log := ws, file_size := sz, log_file := log_file l @ take b (pending_bytes s i)\<rparr>] \<longrightarrow>
       log_ok s' \<and> log_frame i s s' \<and> pending_bytes s' i = drop b (pending_bytes s i))"
proof -
  let ?l = "log_files s ! i" and ?st = "log_st s"
  note D = log_okD [OF ok]
  obtain R where R: "log_roots (log_files s) = lroots (log_packets ?l) + R" "\<forall>l. log_roots ((log_files s)[i := l]) = lroots (log_packets l) + R"
    using log_roots_update [OF i] by blast
  let ?Q = "lroots (log_queue ?l) + R"
  have inv: "rc_inv ?st (lroots (pending_log ?l) + ?Q)" using D(1) R(1) by (simp add: log_packets_def add.assoc)
  obtain dp dq where d: "lq ?st (pending_log ?l) dp" "lq ?st (log_queue ?l) dq" using D(3) [OF i] by (auto simp: log_packets_def lq_append)
  have dp: "concat dp = pending_bytes s i" using lq_bytes [OF d(1) D(1)] by (simp add: pending_bytes_def)
  have few: "few_refs ?st (size (lroots (pending_log ?l)) + size ?Q)"
    using D(2) by (rule few_refs_less) (simp add: R(1) log_packets_def)
  obtain st ws dss k where f: "on_write_finish ?st (pending_log ?l) n c = Some (st, ws, k)" "lq st ws dss" "concat dss = drop b (pending_bytes s i)"
    "rc_inv st (lroots ws + ?Q)" "size (lroots ws) \<le> size (lroots (pending_log ?l))" "same_bytes ?st st" "quota st = quota ?st"
    using on_write_finish_law [OF d(1) inv few, of n c] n dp b(2) by metis
  have main: "log_ok s' \<and> log_frame i s s' \<and> pending_bytes s' i = drop b (pending_bytes s i)"
    if s': "log_st s' = st" "log_bytes s' = log_bytes s + int b" "log_closed s' = log_closed s"
      "log_files s' = (log_files s)[i := l\<lparr>pending_log := ws, file_size := sz, log_file := log_file l @ take b (pending_bytes s i)\<rparr>]" for s' sz
  proof -
    define l' where "l' = l\<lparr>pending_log := ws, file_size := sz, log_file := log_file l @ take b (pending_bytes s i)\<rparr>"
    have l': "log_packets l' = ws @ log_queue ?l" "log_file l' = log_file ?l @ take b (pending_bytes s i)" "log_queue l' = log_queue ?l"
      "pending_log l' = ws" by (simp_all add: l'_def l log_packets_def)
    have rt: "log_roots (log_files s') = lroots ws + ?Q" using R(2) s'(4) l'(1) by (simp add: l'_def add.assoc)
    have inv': "rc_inv st (log_roots (log_files s'))" using f(4) rt by simp
    have keep: "holds st w [wbuf w] ds" if "holds ?st w [wbuf w] ds" "wbuf w \<in># log_roots (log_files s')" for w ds
      using holds_same_bytes [OF that(1) inv' f(6)] rc_invD(5) [OF inv' that(2)] by simp
    have lqq: "lq st (log_queue ?l) dq"
      using lroots_mem rc_invD(5) [OF f(4)] by (intro lq_same_bytes [OF d(2) f(4,6)]) fastforce
    have "(\<Sum>l\<leftarrow>log_files s'. length (log_file l)) = (\<Sum>l\<leftarrow>log_files s. length (log_file l)) + b"
      using sum_update [OF i, where y=l' and f="\<lambda>l. length (log_file l)"] s'(4) l'(2) b(2) by (simp add: l'_def [symmetric])
    then have by': "0 \<le> log_bytes s'" "log_bytes s' \<le> int (\<Sum>l\<leftarrow>log_files s'. length (log_file l))" using D(5,6) s'(2) by simp_all
    have few': "few_refs st (size (log_roots (log_files s')) + 3 * quota st)"
      using few_refs_shrink [OF D(2,1) f(6)] by (rule few_refs_less) (use rt R(1) f(5,7) in \<open>simp add: log_packets_def\<close>)
    have new: "\<forall>w \<in> set (log_packets l'). \<exists>ds. holds st w [wbuf w] ds" using lq_holds [OF f(2)] lq_holds [OF lqq] l'(1) by auto
    have u: "log_ok s' \<and> (\<forall>j < length (log_files s). j \<noteq> i \<longrightarrow> log_same j s s')"
      by (rule log_update [OF ok i s'(4) [folded l'_def] s'(1) inv' few' _ new by']) (use keep in blast)
    have at: "log_files s' ! i = l'" using s'(4) i by (simp add: l'_def)
    have pb: "pending_bytes s' i = drop b (pending_bytes s i)" using lq_bytes [OF f(2,4)] f(3) at l'(4) s'(1) by (simp add: pending_bytes_def)
    have q: "map (packet_bytes st) (log_queue ?l) = map (packet_bytes ?st) (log_queue ?l)"
      using lq_bytes [OF lqq f(4)] lq_bytes [OF d(2) D(1)] by simp
    have "log_file l' @ pending_bytes s' i = log_file ?l @ pending_bytes s i" unfolding pb l'(2) by simp
    moreover have "queue_lines s' i = queue_lines s i" using q at l'(3) s'(1) by (simp add: queue_lines_def)
    ultimately have "log_frame i s s'" using u s' f(7) at by (simp add: log_frame_def l'_def)
    then show ?thesis using u pb by blast
  qed
  define s1 where "s1 = s\<lparr>log_st := st, log_bytes := log_bytes s + int b,
    log_files := (log_files s)[i := l\<lparr>pending_log := ws, log_file := log_file l @ take b (pending_bytes s i)\<rparr>]\<rparr>"
  have "l\<lparr>pending_log := ws, file_size := file_size l, log_file := x\<rparr> = l\<lparr>pending_log := ws, log_file := x\<rparr>" for x by simp
  then have m: "log_ok s1" "log_frame i s s1" using main [of s1 "file_size l"] by (simp_all add: s1_def)
  have "log_total s1 = log_total s" using m(2) log_frame_content [OF m(2)] by (intro log_total_cong) (simp_all add: log_frame_def)
  then have "log_bytes s + int b \<le> INT32_MAX" using log_okD(6) [OF m(1)] log_files_le_total [of s1] lim by (simp add: s1_def)
  then have "i32 (log_bytes s + int b) = Some (log_bytes s + int b)" using D(5) by (intro i32_in_range) simp_all
  moreover have "on_write_finish ?st (pending_log l) n c = Some (st, ws, k)" using f(1) l by simp
  ultimately show ?thesis using main by blast
qed

lemma idle_round:
  assumes ok: "log_ok s" and i: "i < length (log_files s)"
    and s': "log_st s' = log_st s" "log_bytes s' = log_bytes s" "log_closed s' = log_closed s"
      "log_files s' = (log_files s)[i := l]" "log_packets l = log_packets (log_files s ! i)" "log_file l = log_file (log_files s ! i)"
  shows "log_ok s' \<and> (\<forall>j < length (log_files s). j \<noteq> i \<longrightarrow> log_same j s s') \<and> log_content s' i = log_content s i"
proof -
  note D = log_okD [OF ok]
  have rt: "log_roots (log_files s') = log_roots (log_files s)" using log_roots_update [OF i] s'(4,5) by auto
  have "(\<Sum>l\<leftarrow>log_files s'. length (log_file l)) = (\<Sum>l\<leftarrow>log_files s. length (log_file l))"
    using sum_update [OF i, where y=l and f="\<lambda>l. length (log_file l)"] s'(4,6) by simp
  moreover have "\<forall>w \<in> set (log_packets l). \<exists>ds. holds (log_st s) w [wbuf w] ds" using D(4) [OF nth_mem [OF i]] s'(5) by simp
  ultimately have "log_ok s' \<and> (\<forall>j < length (log_files s). j \<noteq> i \<longrightarrow> log_same j s s')"
    using D s'(2) rt by (intro log_update [OF ok i s'(4,1)]) simp_all
  moreover have "pending_bytes x i @ concat (queue_lines x i) = concat (map (packet_bytes (log_st x)) (log_packets (log_files x ! i)))" for x
    by (simp add: pending_bytes_def queue_lines_def log_packets_def)
  then have "log_content s' i = log_content s i" using i s' by (simp add: log_content_def)
  ultimately show ?thesis by blast
qed

lemma write_round_law:
  assumes ok: "log_ok s" and i: "i < length (log_files s)" and lim: "int (log_total s) \<le> INT32_MAX"
    and ne: "pending_log (log_files s ! i) \<noteq> []"
  shows "\<exists>s'. write_round i s = Some s' \<and> log_ok s' \<and> log_frame i s s' \<and>
    length (write_results s') + length (pending_bytes s' i) < length (write_results s) + length (pending_bytes s i)"
proof -
  let ?l = "log_files s ! i" let ?P = "pending_bytes s i"
  note D = log_okD [OF ok]
  obtain dp where d: "lq (log_st s) (pending_log ?l) dp" using D(3) [OF i] by (auto simp: log_packets_def lq_append)
  have dp: "concat dp = ?P" using lq_bytes [OF d D(1)] by (simp add: pending_bytes_def)
  obtain vs where v: "send_iovecs (log_st s) (map (\<lambda>w. (w, 0)) (pending_log ?l)) [] = Some vs" "gather (log_st s) vs = Some (concat (take MAX_WBAF dp))"
    using lq_offered [OF d D(1), of "[]"] by auto
  define xs where "xs = concat (take MAX_WBAF dp)"
  define l where "l = ?l\<lparr>log_iovecs := vs\<rparr>"
  have p: "prepare_write (log_st s) ?l = Some l" using v(1) by (simp add: prepare_write_def l_def)
  have pre: "?P = xs @ concat (drop MAX_WBAF dp)" unfolding dp [symmetric] xs_def by (metis append_take_drop_id concat_append)
  obtain w ws where "pending_log ?l = w # ws" using ne by (cases "pending_log ?l") auto
  then have "xs \<noteq> []" using d by (auto simp: xs_def holds_def)
  obtain s1 r where wv: "writev_log s xs = (s1, r)" by fastforce
  have s1: "log_st s1 = log_st s" "log_bytes s1 = log_bytes s" "log_closed s1 = log_closed s" "log_files s1 = log_files s"
    using wv by (auto simp: writev_log_def split: list.splits)
  show ?thesis
  proof (cases "0 < r")
    case True
    define b where "b = nat r"
    have b: "0 < b" "b \<le> length xs" "r = int b" using wv True \<open>xs \<noteq> []\<close> by (auto simp: writev_log_def b_def split: list.splits)
    have bp: "b \<le> length ?P" "take b xs = take b ?P" using b(2) pre by simp_all
    have "length ?P \<le> length (log_content s i)" by (simp add: log_content_def pending_bytes_def log_packets_def)
    also have "\<dots> \<le> log_total s" unfolding log_total_def using i by (intro member_le_sum_list) auto
    finally have "unat (word_of_int r :: u32) = b" using bp(1) lim b(3) by (simp add: unat_of_nat)
    from finish_round [OF ok i lim b(1) bp(1) l_def this, of "log_count s1"] obtain st ws k where
      f: "on_write_finish (log_st s) (pending_log l) (word_of_int r) (log_count s1) = Some (st, ws, k)"
      "i32 (log_bytes s + int b) = Some (log_bytes s + int b)"
      "\<forall>s' sz. log_st s' = st \<longrightarrow> log_bytes s' = log_bytes s + int b \<longrightarrow> log_closed s' = log_closed s \<longrightarrow>
         log_files s' = (log_files s)[i := l\<lparr>pending_log := ws, file_size := sz, log_file := log_file l @ take b ?P\<rparr>] \<longrightarrow>
         log_ok s' \<and> log_frame i s s' \<and> pending_bytes s' i = drop b ?P" by blast
    define s2 where "s2 = put_log (s1\<lparr>log_st := st, log_count := k, log_bytes := log_bytes s + int b\<rparr>) i
      (l\<lparr>pending_log := ws, file_size := file_size l + word_of_int r, log_file := log_file l @ take b ?P\<rparr>)"
    have run: "write_round i s = Some (log_stats s2)"
      using p v(2) wv True f(1,2) s1 b(3) bp(2) by (simp add: write_round_def l_def xs_def [symmetric] s2_def)
    have "log_ok s2 \<and> log_frame i s s2 \<and> pending_bytes s2 i = drop b ?P"
      using f(3) [rule_format, of s2 "file_size l + word_of_int r"] s1 by (simp add: s2_def put_log_def)
    moreover have "length (write_results s2) \<le> length (write_results s)"
      using wv by (auto simp: s2_def put_log_def writev_log_def split: list.splits)
    ultimately show ?thesis using run b(1) bp(1) by (intro exI [of _ "log_stats s2"]) (auto simp: log_frame_def log_same_def)
  next
    case False
    define s2 where "s2 = put_log s1 i l"
    have run: "write_round i s = Some (log_stats s2)"
      using p v(2) wv False by (simp add: write_round_def l_def xs_def [symmetric] s2_def)
    have ir: "log_ok s2 \<and> (\<forall>j < length (log_files s). j \<noteq> i \<longrightarrow> log_same j s s2) \<and> log_content s2 i = log_content s i"
      by (rule idle_round [OF ok i, of s2 l]) (use s1 in \<open>simp_all add: s2_def put_log_def l_def log_packets_def\<close>)
    have at: "log_files s2 ! i = l" "log_st s2 = log_st s" using i s1 by (simp_all add: s2_def put_log_def)
    have "write_results s2 = tl (write_results s)" "write_results s \<noteq> []"
      using wv False \<open>xs \<noteq> []\<close> by (auto simp: s2_def put_log_def writev_log_def split: list.splits)
    moreover have pb: "pending_bytes s2 i = ?P" "queue_lines s2 i = queue_lines s i" using at by (simp_all add: pending_bytes_def queue_lines_def l_def)
    then have "log_frame i s s2" using ir at s1 by (simp add: log_frame_def s2_def put_log_def l_def)
    ultimately show ?thesis using run ir pb(1) by (intro exI [of _ "log_stats s2"]) (auto simp: log_frame_def log_same_def)
  qed
qed

section \<open>Queueing and passing\<close>

lemma enqueue_law:
  assumes ok: "log_ok s" and i: "i < length (log_files s)" and q: "0 < quota (log_st s)" and b: "buf \<noteq> []" "length buf \<le> 4095"
  shows "\<exists>st w. log_packet (log_st s) buf = Some (st, w) \<and> quota st = quota (log_st s) - 1 \<and>
    (\<forall>s' l. log_st s' = st \<longrightarrow> log_bytes s' = log_bytes s \<longrightarrow> log_files s' = (log_files s)[i := l] \<longrightarrow>
       log_packets l = log_packets (log_files s ! i) @ [w] \<longrightarrow> log_file l = log_file (log_files s ! i) \<longrightarrow>
       log_ok s' \<and> (\<forall>j < length (log_files s). j \<noteq> i \<longrightarrow> log_same j s s') \<and> packet_bytes st w = buf \<and>
       (\<forall>v \<in> set (log_packets (log_files s ! i)). packet_bytes st v = packet_bytes (log_st s) v))"
proof -
  let ?st = "log_st s" let ?l = "log_files s ! i"
  note D = log_okD [OF ok]
  obtain st w where p: "log_packet ?st buf = Some (st, w)" "holds st w [wbuf w] buf" "rc_inv st (wroots w + log_roots (log_files s))"
    "wbuf w = fresh ?st" "size (wroots w) = 2" "\<forall>a. a \<noteq> fresh ?st \<longrightarrow> cells st a = cells ?st a" "quota st = quota ?st - 1"
    "card (dom (cells st)) \<le> Suc (card (dom (cells ?st)))"
    using log_packet_law [OF D(1) q b] by blast
  have keep: "holds st v [wbuf v] ds" if "holds ?st v [wbuf v] ds" "wbuf v \<in># log_roots (log_files s)" for v ds
  proof -
    have "wbuf v \<noteq> fresh ?st" using rc_invD(4) [OF D(1)] rc_invD(5) [OF D(1) that(2)] by auto
    then have "cells st (wbuf v) = cells ?st (wbuf v)" using p(6) by blast
    then show ?thesis using that(1) by (auto simp: holds_def bnexts_def contents_Cons)
  qed
  have "log_ok s' \<and> (\<forall>j < length (log_files s). j \<noteq> i \<longrightarrow> log_same j s s') \<and> packet_bytes st w = buf \<and>
     (\<forall>v \<in> set (log_packets ?l). packet_bytes st v = packet_bytes ?st v)"
    if s': "log_st s' = st" "log_bytes s' = log_bytes s" "log_files s' = (log_files s)[i := l]"
      "log_packets l = log_packets ?l @ [w]" "log_file l = log_file ?l" for s' l
  proof -
    obtain R where "log_roots (log_files s) = lroots (log_packets ?l) + R" "\<forall>l. log_roots ((log_files s)[i := l]) = lroots (log_packets l) + R"
      using log_roots_update [OF i] by blast
    then have rt: "log_roots (log_files s') = wroots w + log_roots (log_files s)" using s'(3,4) by (simp add: ac_simps)
    have "(\<Sum>l\<leftarrow>log_files s'. length (log_file l)) = (\<Sum>l\<leftarrow>log_files s. length (log_file l))"
      using sum_update [OF i, where y=l and f="\<lambda>l. length (log_file l)"] s'(3,5) by simp
    then have bytes: "0 \<le> log_bytes s'" "log_bytes s' \<le> int (\<Sum>l\<leftarrow>log_files s'. length (log_file l))" using D(5,6) s'(2) by simp_all
    have few: "few_refs st (size (log_roots (log_files s')) + 3 * quota st)" using D(2) q p(5,7,8) rt by (simp add: few_refs_def)
    have old: "\<exists>ds. holds ?st v [wbuf v] ds \<and> holds st v [wbuf v] ds" if v: "v \<in> set (log_packets ?l)" for v
      using D(4) [OF nth_mem [OF i] v] keep log_roots_mem [OF nth_mem [OF i] v] by blast
    have new: "\<forall>v \<in> set (log_packets l). \<exists>ds. holds st v [wbuf v] ds" using p(2) old s'(4) by auto
    have inv: "rc_inv st (log_roots (log_files s'))" using p(3) rt by simp
    have u: "log_ok s' \<and> (\<forall>j < length (log_files s). j \<noteq> i \<longrightarrow> log_same j s s')"
      by (rule log_update [OF ok i s'(3,1) inv few _ new bytes]) (rule keep)
    have "packet_bytes st v = packet_bytes ?st v" if v: "v \<in> set (log_packets ?l)" for v
      using old [OF v] holds_bytes [OF _ inv] holds_bytes [OF _ D(1)] by metis
    then show ?thesis using u holds_bytes [OF p(2) inv] by blast
  qed
  then show ?thesis using p(1,7) by blast
qed

lemma log_line_props: "log_line stamp content \<noteq> []" "length (log_line stamp content) \<le> 4095"
  by (simp_all add: log_line_def text_bytes_def)


lemma log_enqueue_law:
  assumes ok: "log_ok s" and i: "i < length (log_files s)" and q: "0 < quota (log_st s)"
  shows "\<exists>s'. log_enqueue i stamp content s = Some s' \<and> log_ok s' \<and> length (log_files s') = length (log_files s) \<and>
    log_closed s' = log_closed s \<and> quota (log_st s') = quota (log_st s) - 1 \<and> (\<forall>j < length (log_files s). j \<noteq> i \<longrightarrow> log_same j s s') \<and>
    log_file (log_files s' ! i) = log_file (log_files s ! i) \<and> pending_log (log_files s' ! i) = pending_log (log_files s ! i) \<and>
    pending_bytes s' i = pending_bytes s i \<and> queue_lines s' i = queue_lines s i @ [log_line stamp content]"
proof -
  let ?l = "log_files s ! i"
  obtain st w where p: "log_packet (log_st s) (log_line stamp content) = Some (st, w)" "quota st = quota (log_st s) - 1"
    "\<forall>s' l. log_st s' = st \<longrightarrow> log_bytes s' = log_bytes s \<longrightarrow> log_files s' = (log_files s)[i := l] \<longrightarrow>
       log_packets l = log_packets ?l @ [w] \<longrightarrow> log_file l = log_file ?l \<longrightarrow>
       log_ok s' \<and> (\<forall>j < length (log_files s). j \<noteq> i \<longrightarrow> log_same j s s') \<and> packet_bytes st w = log_line stamp content \<and>
       (\<forall>v \<in> set (log_packets ?l). packet_bytes st v = packet_bytes (log_st s) v)"
    using enqueue_law [OF ok i q log_line_props] by blast
  define s1 where "s1 = put_log (s\<lparr>log_st := st\<rparr>) i (?l\<lparr>log_queue := log_queue ?l @ [w]\<rparr>)"
  have run: "log_enqueue i stamp content s = Some s1" using p(1) i by (simp add: log_enqueue_def s1_def Let_def)
  have s1: "log_ok s1" "\<forall>j < length (log_files s). j \<noteq> i \<longrightarrow> log_same j s s1" "packet_bytes st w = log_line stamp content"
    "\<forall>v \<in> set (log_packets ?l). packet_bytes st v = packet_bytes (log_st s) v"
    using p(3) [rule_format, of s1 "?l\<lparr>log_queue := log_queue ?l @ [w]\<rparr>"] by (simp_all add: s1_def put_log_def log_packets_def)
  have at: "log_files s1 ! i = ?l\<lparr>log_queue := log_queue ?l @ [w]\<rparr>" "log_st s1 = st" using i by (simp_all add: s1_def put_log_def)
  have "pending_bytes s1 i = pending_bytes s i" "queue_lines s1 i = queue_lines s i @ [log_line stamp content]"
    using s1(3,4) at by (simp_all add: pending_bytes_def queue_lines_def log_packets_def cong: map_cong)
  then show ?thesis using run s1(1,2) at p(2) by (intro exI [of _ s1]) (simp add: s1_def put_log_def)
qed

text \<open>The take-over of a queue, in the closing pass with the closing line.\<close>

definition closing_bytes :: "bool \<Rightarrow> byte list \<Rightarrow> byte list" where
  "closing_bytes closing stamp = (if closing then close_line stamp else [])"

lemma take_over_law:
  assumes ok: "log_ok s" and i: "i < length (log_files s)" and q: "closing \<longrightarrow> 0 < quota (log_st s)"
  shows "\<exists>s'. queue_close closing stamp i (take_queue i s) = Some s' \<and> log_ok s' \<and> length (log_files s') = length (log_files s) \<and>
    log_closed s' = log_closed s \<and> quota (log_st s') = quota (log_st s) - (if closing then 1 else 0) \<and>
    (\<forall>j < length (log_files s). j \<noteq> i \<longrightarrow> log_same j s s') \<and> queue_lines s' i = [] \<and>
    log_file (log_files s' ! i) @ pending_bytes s' i = log_content s i @ closing_bytes closing stamp"
proof -
  let ?l = "log_files s ! i"
  define l1 where "l1 = ?l\<lparr>pending_log := pending_log ?l @ log_queue ?l, log_queue := []\<rparr>"
  define s1 where "s1 = put_log s i l1"
  have "log_ok s1 \<and> (\<forall>j < length (log_files s). j \<noteq> i \<longrightarrow> log_same j s s1) \<and> log_content s1 i = log_content s i"
    by (rule idle_round [OF ok i, of s1 l1]) (simp_all add: s1_def l1_def put_log_def log_packets_def)
  then have s1: "log_ok s1" "\<forall>j < length (log_files s). j \<noteq> i \<longrightarrow> log_same j s s1" "log_content s1 i = log_content s i" by blast+
  have f1: "take_queue i s = s1" "log_files s1 = (log_files s)[i := l1]" "log_st s1 = log_st s" "log_closed s1 = log_closed s"
    "i < length (log_files s1)" "log_files s1 ! i = l1" "log_queue l1 = []"
    using i by (simp_all add: take_queue_def s1_def put_log_def Let_def l1_def)
  have view: "queue_lines s1 i = []" "log_file l1 @ pending_bytes s1 i = log_content s i"
    using s1(3) f1(6,7) by (simp_all add: queue_lines_def log_content_def)
  show ?thesis
  proof (cases closing)
    case True
    then have "0 < quota (log_st s1)" using q f1(3) by simp
    then obtain st w where p: "log_packet (log_st s1) (close_line stamp) = Some (st, w)" "quota st = quota (log_st s1) - 1"
      "\<forall>s' l. log_st s' = st \<longrightarrow> log_bytes s' = log_bytes s1 \<longrightarrow> log_files s' = (log_files s1)[i := l] \<longrightarrow>
         log_packets l = log_packets (log_files s1 ! i) @ [w] \<longrightarrow> log_file l = log_file (log_files s1 ! i) \<longrightarrow>
         log_ok s' \<and> (\<forall>j < length (log_files s1). j \<noteq> i \<longrightarrow> log_same j s1 s') \<and> packet_bytes st w = close_line stamp \<and>
         (\<forall>v \<in> set (log_packets (log_files s1 ! i)). packet_bytes st v = packet_bytes (log_st s1) v)"
      using enqueue_law [OF s1(1) f1(5) _ log_line_props [of stamp "text_bytes ''close log sucessful''"], folded close_line_def] by auto
    define s2 where "s2 = put_log (s1\<lparr>log_st := st\<rparr>) i (l1\<lparr>pending_log := pending_log l1 @ [w]\<rparr>)"
    have lp: "log_packets l1 = pending_log l1" using f1(7) by (simp add: log_packets_def)
    have "log_st s2 = st" "log_bytes s2 = log_bytes s1" "log_files s2 = (log_files s1)[i := l1\<lparr>pending_log := pending_log l1 @ [w]\<rparr>]"
      "log_packets (l1\<lparr>pending_log := pending_log l1 @ [w]\<rparr>) = log_packets (log_files s1 ! i) @ [w]"
      "log_file (l1\<lparr>pending_log := pending_log l1 @ [w]\<rparr>) = log_file (log_files s1 ! i)"
      using f1(6,7) by (simp_all add: s2_def put_log_def log_packets_def)
    from p(3) [rule_format, OF this] f1(6) lp
    have s2: "log_ok s2" "\<forall>j < length (log_files s1). j \<noteq> i \<longrightarrow> log_same j s1 s2" "packet_bytes st w = close_line stamp"
      "\<forall>v \<in> set (pending_log l1). packet_bytes st v = packet_bytes (log_st s1) v" by simp_all
    have at: "log_files s2 ! i = l1\<lparr>pending_log := pending_log l1 @ [w]\<rparr>" "log_st s2 = st" using f1(5) by (simp_all add: s2_def put_log_def)
    have "pending_bytes s2 i = pending_bytes s1 i @ close_line stamp" "queue_lines s2 i = []"
      using s2(3,4) at f1(6,7) by (simp_all add: pending_bytes_def queue_lines_def cong: map_cong)
    moreover have "log_same j s s2" if "j < length (log_files s)" "j \<noteq> i" for j
      using s1(2) s2(2) that f1(2) by (simp add: log_same_def)
    moreover have "queue_close closing stamp i (take_queue i s) = Some s2" using True p(1) f1(1,6) by (simp add: queue_close_def s2_def)
    moreover have "log_file l1 @ pending_bytes s1 i @ close_line stamp = log_content s i @ close_line stamp"
      unfolding view(2) [symmetric] by simp
    moreover have "log_closed s2 = log_closed s" "length (log_files s2) = length (log_files s)" "quota (log_st s2) = quota (log_st s) - 1"
      using f1 p(2) by (simp_all add: s2_def put_log_def)
    ultimately show ?thesis using True s2(1) at(1)
      by (intro exI [of _ s2]) (simp add: closing_bytes_def)
  next
    case False
    then show ?thesis using s1(1,2) f1 view by (intro exI [of _ s1]) (simp add: closing_bytes_def queue_close_def)
  qed
qed

section \<open>The invariant of the threads\<close>

text \<open>How many files have got their closing line, and where the worker can be.\<close>

fun files_closed :: "nat \<Rightarrow> worker_pc \<Rightarrow> nat" where
  "files_closed n (WSwap closing i) = (if closing then i else 0)"
| "files_closed n (WWrite closing i) = (if closing then Suc i else 0)"
| "files_closed n WTest = 0"
| "files_closed n WDone = n"

fun pc_ok :: "nat \<Rightarrow> bool \<Rightarrow> worker_pc \<Rightarrow> bool" where
  "pc_ok n closed (WSwap closing i) = (i \<le> n \<and> (closing \<longrightarrow> closed))"
| "pc_ok n closed (WWrite closing i) = (i < n \<and> (closing \<longrightarrow> closed))"
| "pc_ok n closed WTest = True"
| "pc_ok n closed WDone = closed"

definition late_lines :: "log_run \<Rightarrow> nat \<Rightarrow> byte list list" where
  "late_lines r i = map snd (sent_after r i)"

text \<open>
  The bytes of a file: until its closing line is queued the lines sent to it are in the file or on their way; from then on
  the file ends with the closing line and the lines that came too late are in the queue.
\<close>

definition file_ok :: "(nat \<Rightarrow> byte list) \<Rightarrow> log_system \<Rightarrow> log_run \<Rightarrow> nat \<Rightarrow> bool" where
  "file_ok cs s0 r j \<longleftrightarrow>
     (if j < files_closed (length (log_files s0)) (log_worker r)
      then \<exists>early. late_lines r j = early @ queue_lines (lsys r) j \<and>
        log_file (log_files (lsys r) ! j) @ pending_bytes (lsys r) j = log_content s0 j @ concat (sent_before r j) @ concat early @ close_line (cs j)
      else log_content (lsys r) j = log_content s0 j @ concat (sent_before r j) @ concat (late_lines r j))"

definition lines_sent :: "nat \<Rightarrow> log_run \<Rightarrow> nat" where
  "lines_sent n r = (\<Sum>j<n. length (sent_before r j) + length (sent_after r j))"

definition run_ok :: "(nat \<Rightarrow> byte list) \<Rightarrow> log_system \<Rightarrow> log_run \<Rightarrow> bool" where
  "run_ok cs s0 r \<longleftrightarrow> (let n = length (log_files s0); s = lsys r; p = log_worker r in
     log_ok s \<and> length (log_files s) = n \<and> pc_ok n (log_closed s) p \<and>
     quota (log_st s) + lines_sent n r + files_closed n p = quota (log_st s0) \<and>
     (\<forall>j < n. file_ok cs s0 r j) \<and>
     (\<forall>j < files_closed n p. p \<noteq> WWrite True j \<longrightarrow> pending_log (log_files s ! j) = []) \<and>
     (\<forall>t i stamp content. log_callers r t = CTested i stamp content \<longrightarrow> i < n))"

text \<open>The bounds: memory for one buffer per line, and the range of the byte counter.\<close>

definition bytes_sent :: "(nat \<Rightarrow> byte list) \<Rightarrow> log_system \<Rightarrow> log_run \<Rightarrow> nat" where
  "bytes_sent cs s0 r = (\<Sum>j<length (log_files s0). length (log_content s0 j) + length (concat (sent_before r j)) +
     length (concat (late_lines r j)) + length (close_line (cs j)))"

definition log_limits :: "(nat \<Rightarrow> byte list) \<Rightarrow> log_system \<Rightarrow> log_run \<Rightarrow> bool" where
  "log_limits cs s0 r \<longleftrightarrow> lines_sent (length (log_files s0)) r + length (log_files s0) \<le> quota (log_st s0) \<and>
     int (bytes_sent cs s0 r) \<le> INT32_MAX"

lemma log_total_bytes_sent:
  assumes "run_ok cs s0 r"
  shows "log_total (lsys r) \<le> bytes_sent cs s0 r"
proof -
  have n: "length (log_files (lsys r)) = length (log_files s0)" using assms by (simp add: run_ok_def Let_def)
  have "length (log_content (lsys r) j) \<le> length (log_content s0 j) + length (concat (sent_before r j)) +
      length (concat (late_lines r j)) + length (close_line (cs j))" if j: "j < length (log_files s0)" for j
  proof -
    have fo: "file_ok cs s0 r j" using assms j by (simp add: run_ok_def Let_def)
    show ?thesis
  proof (cases "j < files_closed (length (log_files s0)) (log_worker r)")
    case True
    then obtain early where e: "late_lines r j = early @ queue_lines (lsys r) j"
      "log_file (log_files (lsys r) ! j) @ pending_bytes (lsys r) j = log_content s0 j @ concat (sent_before r j) @ concat early @ close_line (cs j)"
      using fo True unfolding file_ok_def if_P [OF True] by blast
    have "length (log_content (lsys r) j) = length (log_file (log_files (lsys r) ! j) @ pending_bytes (lsys r) j) + length (concat (queue_lines (lsys r) j))"
      by (simp add: log_content_def)
    then show ?thesis unfolding e by simp
  next
    case False
    then show ?thesis using fo by (simp add: file_ok_def)
  qed
  qed
  then have "(\<Sum>j<length (log_files s0). length (log_content (lsys r) j)) \<le> bytes_sent cs s0 r"
    unfolding bytes_sent_def by (intro sum_mono) simp
  then show ?thesis by (simp add: log_total_def n interv_sum_list_conv_sum_set_nat atLeast0LessThan)
qed

section \<open>The steps keep the invariant\<close>

lemma log_limitsD:
  assumes "log_limits cs s0 r"
  shows "lines_sent (length (log_files s0)) r + length (log_files s0) \<le> quota (log_st s0)" "int (bytes_sent cs s0 r) \<le> INT32_MAX"
  using assms by (simp_all add: log_limits_def)

lemma run_okD:
  assumes "run_ok cs s0 r"
  shows "log_ok (lsys r)" "length (log_files (lsys r)) = length (log_files s0)" "pc_ok (length (log_files s0)) (log_closed (lsys r)) (log_worker r)"
    "quota (log_st (lsys r)) + lines_sent (length (log_files s0)) r + files_closed (length (log_files s0)) (log_worker r) = quota (log_st s0)"
    "j < length (log_files s0) \<Longrightarrow> file_ok cs s0 r j"
    "j < files_closed (length (log_files s0)) (log_worker r) \<Longrightarrow> log_worker r \<noteq> WWrite True j \<Longrightarrow> pending_log (log_files (lsys r) ! j) = []"
    "log_callers r t = CTested i stamp content \<Longrightarrow> i < length (log_files s0)"
proof -
  show "log_callers r t = CTested i stamp content \<Longrightarrow> i < length (log_files s0)" using assms unfolding run_ok_def Let_def by blast
qed (use assms in \<open>simp_all add: run_ok_def Let_def\<close>)

lemma files_closed_le: "pc_ok n closed p \<Longrightarrow> files_closed n p \<le> n"
  by (cases p) auto

lemma files_closed_open: "pc_ok n False p \<Longrightarrow> files_closed n p = 0"
  by (cases p) auto

lemma run_ok_start: "log_ok s \<Longrightarrow> run_ok cs s (log_start s)"
  by (simp add: run_ok_def log_start_def Let_def lines_sent_def file_ok_def late_lines_def)

lemma note_line_simps [simp]:
  "lsys (note_line t i xs r) = lsys r" "log_worker (note_line t i xs r) = log_worker r" "log_callers (note_line t i xs r) = log_callers r"
  "at_closing (note_line t i xs r) = at_closing r"
  by (simp_all add: note_line_def)

lemma note_line_other: "j \<noteq> i \<Longrightarrow> sent_before (note_line t i xs r) j = sent_before r j \<and> sent_after (note_line t i xs r) j = sent_after r j"
  by (simp add: note_line_def)

lemma lines_sent_note: "i < n \<Longrightarrow> lines_sent n (note_line t i xs r) = Suc (lines_sent n r)"
proof -
  assume i: "i < n"
  have "(\<Sum>j\<in>{..<n} - {i}. length (sent_before (note_line t i xs r) j) + length (sent_after (note_line t i xs r) j)) =
    (\<Sum>j\<in>{..<n} - {i}. length (sent_before r j) + length (sent_after r j))"
    by (rule sum.cong) (simp_all add: note_line_other)
  moreover have "length (sent_before (note_line t i xs r) i) + length (sent_after (note_line t i xs r) i) = Suc (length (sent_before r i) + length (sent_after r i))"
    by (simp add: note_line_def)
  ultimately show ?thesis using i by (simp add: lines_sent_def sum.remove [of "{..<n}" i])
qed

text \<open>A step that leaves a file and its lines alone.\<close>

lemma file_ok_same:
  assumes "file_ok cs s0 r j" "log_same j (lsys r) (lsys r')" "sent_before r' j = sent_before r j" "sent_after r' j = sent_after r j"
    "j < files_closed n (log_worker r') \<longleftrightarrow> j < files_closed n (log_worker r)" "n = length (log_files s0)"
  shows "file_ok cs s0 r' j"
proof -
  have "late_lines r' j = late_lines r j" using assms(4) by (simp add: late_lines_def)
  then show ?thesis using assms log_sameD [OF assms(2)] by (simp add: file_ok_def log_same_def)
qed

text \<open>The lines queued after the flag was set are of callers that had tested it before, one of each.\<close>

definition late_ok :: "log_run \<Rightarrow> bool" where
  "late_ok r \<longleftrightarrow> (if log_closed (lsys r)
     then (\<forall>t. log_callers r t = CIdle \<or> log_callers r t = at_closing r t) \<and>
       (\<forall>i. distinct (map fst (sent_after r i)) \<and> (\<forall>t xs. (t, xs) \<in> set (sent_after r i) \<longrightarrow> log_callers r t = CIdle \<and>
         (\<exists>stamp content. at_closing r t = CTested i stamp content \<and> xs = log_line stamp content)))
     else sent_after r = (\<lambda>_. []))"

lemma log_enqueue_closed: "log_enqueue i stamp content s = Some s' \<Longrightarrow> log_closed s' = log_closed s"
  by (auto simp: log_enqueue_def put_log_def Let_def split: bind_splits)

lemma writev_log_closed: "writev_log s xs = (s', n) \<Longrightarrow> log_closed s' = log_closed s"
  by (auto simp: writev_log_def split: list.splits)

lemma write_round_closed: "write_round i s = Some s' \<Longrightarrow> log_closed s' = log_closed s"
  by (auto simp: write_round_def put_log_def Let_def dest: writev_log_closed split: bind_splits prod.splits if_splits)

lemma worker_routine_closed: "worker_routine cs p s = Some (p', s') \<Longrightarrow> log_closed s' = log_closed s"
  by (auto simp: worker_routine_def queue_close_def take_queue_def put_log_def Let_def GetSystemMs_log_def write_round_closed
      split: worker_pc.splits if_splits bind_splits)

lemma late_ok_step: "lstep cs r r' \<Longrightarrow> late_ok r \<Longrightarrow> late_ok r'"
proof (induction rule: lstep.induct)
  case (ltest r t i stamp content)
  then show ?case by (auto simp: late_ok_def log_test_def)
next
  case (lenqueue r t i stamp content s)
  have c: "log_closed s = log_closed (lsys r)" by (rule log_enqueue_closed [OF lenqueue(2)])
  show ?case
  proof (cases "log_closed s")
    case True
    then have "log_callers r t = CIdle \<or> log_callers r t = at_closing r t" using lenqueue(3) c by (simp add: late_ok_def)
    then have "at_closing r t = CTested i stamp content" using lenqueue(1) by simp
    moreover have "(t, xs) \<notin> set (sent_after r k)" for k xs using lenqueue(1,3) True c by (auto simp: late_ok_def)
    then have "t \<notin> fst ` set (sent_after r k)" for k by auto
    ultimately show ?thesis using lenqueue(3) True c by (auto simp: late_ok_def note_line_def)
  next
    case False
    then show ?thesis using lenqueue c by (simp add: late_ok_def note_line_def)
  qed
next
  case (lclose r)
  then show ?case by (simp add: late_ok_def)
next
  case (lwork r p s)
  then show ?case using worker_routine_closed [OF lwork(1)] by (simp add: late_ok_def)
qed

lemma run_ok_test:
  assumes "run_ok cs s0 r" "i < length (log_files (lsys r))"
  shows "run_ok cs s0 (r\<lparr>log_callers := (log_callers r)(t := if b then CTested i stamp content else CIdle)\<rparr>)"
proof -
  note D = run_okD [OF assms(1)]
  let ?r = "r\<lparr>log_callers := (log_callers r)(t := if b then CTested i stamp content else CIdle)\<rparr>"
  have "file_ok cs s0 ?r j" if "j < length (log_files s0)" for j
    by (rule file_ok_same [OF D(5) [OF that]]) (simp_all add: log_same_def)
  then show ?thesis using D(1-4,6) D(7) assms(2) by (auto simp: run_ok_def Let_def lines_sent_def split: if_splits)
qed

lemma run_ok_close:
  assumes "run_ok cs s0 r"
  shows "run_ok cs s0 (r\<lparr>lsys := (lsys r)\<lparr>log_closed := True\<rparr>, at_closing := c\<rparr>)"
proof -
  note D = run_okD [OF assms]
  let ?r = "r\<lparr>lsys := (lsys r)\<lparr>log_closed := True\<rparr>, at_closing := c\<rparr>"
  have "file_ok cs s0 ?r j" if "j < length (log_files s0)" for j
    by (rule file_ok_same [OF D(5) [OF that]]) (simp_all add: log_same_def log_view_cong [of "(lsys r)\<lparr>log_closed := True\<rparr>" "lsys r"])
  moreover have "pc_ok (length (log_files s0)) True (log_worker r)" using D(3) by (cases "log_worker r") auto
  moreover have "log_ok ((lsys r)\<lparr>log_closed := True\<rparr>)" using D(1) by (simp add: log_ok_def)
  ultimately show ?thesis using D(2,4,6) D(7) by (auto simp: run_ok_def Let_def lines_sent_def)
qed

lemma run_ok_enqueue:
  assumes ok: "run_ok cs s0 r" and late: "late_ok r" and t: "log_callers r t = CTested i stamp content" and q: "0 < quota (log_st (lsys r))"
  shows "\<exists>s. log_enqueue i stamp content (lsys r) = Some s \<and>
    run_ok cs s0 (note_line t i (log_line stamp content) (r\<lparr>lsys := s, log_callers := (log_callers r)(t := CIdle)\<rparr>))"
proof -
  note D = run_okD [OF ok]
  let ?n = "length (log_files s0)" let ?x = "log_line stamp content"
  have i: "i < ?n" by (rule D(7) [OF t])
  then have "i < length (log_files (lsys r))" using D(2) by simp
  then obtain s where s: "log_enqueue i stamp content (lsys r) = Some s" "log_ok s" "length (log_files s) = ?n" "log_closed s = log_closed (lsys r)"
    "quota (log_st s) = quota (log_st (lsys r)) - 1" "\<forall>j < ?n. j \<noteq> i \<longrightarrow> log_same j (lsys r) s" "log_file (log_files s ! i) = log_file (log_files (lsys r) ! i)"
    "pending_log (log_files s ! i) = pending_log (log_files (lsys r) ! i)"
    "pending_bytes s i = pending_bytes (lsys r) i" "queue_lines s i = queue_lines (lsys r) i @ [?x]"
    using log_enqueue_law [OF D(1) _ q, of i stamp content] D(2) by auto
  define r1 where "r1 = r\<lparr>lsys := s, log_callers := (log_callers r)(t := CIdle)\<rparr>"
  define r' where "r' = note_line t i ?x r1"
  have r1: "lsys r1 = s" "log_worker r1 = log_worker r" "sent_before r1 = sent_before r" "sent_after r1 = sent_after r"
    "log_callers r1 = (log_callers r)(t := CIdle)" by (simp_all add: r1_def)
  have "file_ok cs s0 r' j" if j: "j < ?n" "j \<noteq> i" for j
    by (rule file_ok_same [OF D(5) [OF j(1)]]) (use j s(6) r1 note_line_other [OF j(2), of t ?x r1] in \<open>simp_all add: r'_def\<close>)
  moreover have "file_ok cs s0 r' i"
  proof (cases "log_closed s")
    case True
    then have "late_lines r' i = late_lines r i @ [?x]" "sent_before r' i = sent_before r i"
      using r1 by (simp_all add: r'_def note_line_def late_lines_def)
    then show ?thesis using D(5) [OF i] s(7,9,10) r1 by (auto simp: file_ok_def log_content_def r'_def)
  next
    case False
    then have "late_lines r i = []" using late s(4) by (simp add: late_ok_def late_lines_def)
    moreover have "late_lines r' i = late_lines r i" "sent_before r' i = sent_before r i @ [?x]"
      using r1 False by (simp_all add: r'_def note_line_def late_lines_def)
    moreover have "files_closed ?n (log_worker r) = 0" using D(3) s(4) False files_closed_open by simp
    ultimately show ?thesis using D(5) [OF i] s(7,9,10) r1 by (simp add: file_ok_def log_content_def r'_def)
  qed
  ultimately have f: "\<forall>j < ?n. file_ok cs s0 r' j" by blast
  have "pending_log (log_files s ! j) = []" if "j < files_closed ?n (log_worker r)" "log_worker r \<noteq> WWrite True j" for j
  proof -
    have "j < ?n" using that(1) files_closed_le [OF D(3)] by simp
    then show ?thesis using D(6) [OF that] s(6,8) by (cases "j = i") (simp_all add: log_same_def)
  qed
  moreover have "lines_sent ?n r' = Suc (lines_sent ?n r)" using lines_sent_note [OF i] r1 by (simp add: r'_def lines_sent_def)
  moreover have "\<forall>u k st c. log_callers r' u = CTested k st c \<longrightarrow> k < ?n" using D(7) r1 by (auto simp: r'_def)
  ultimately have "run_ok cs s0 r'" using D(3,4) s(2-5) f q r1 by (simp add: run_ok_def Let_def r'_def)
  then show ?thesis using s(1) unfolding r'_def r1_def by blast
qed

text \<open>The steps of the worker: each is defined, keeps the invariant and, once the flag is set, gets nearer to the end.\<close>

fun worker_stage :: "worker_pc \<Rightarrow> nat" where
  "worker_stage WDone = 0"
| "worker_stage WTest = 2"
| "worker_stage (WSwap closing i) = (if closing then 1 else 3)"
| "worker_stage (WWrite closing i) = (if closing then 1 else 3)"

fun worker_file :: "worker_pc \<Rightarrow> nat" where
  "worker_file (WSwap closing i) = i"
| "worker_file (WWrite closing i) = i"
| "worker_file p = 0"

definition worker_order :: "nat \<Rightarrow> ((worker_pc \<times> log_system) \<times> worker_pc \<times> log_system) set" where
  "worker_order n = measures [\<lambda>(p, s). worker_stage p, \<lambda>(p, s). n - worker_file p, \<lambda>(p, s). case p of WSwap _ _ \<Rightarrow> 1 | _ \<Rightarrow> 0,
     \<lambda>(p, s). length (write_results s) + length (pending_bytes s (worker_file p))]"

definition worker_good :: "(nat \<Rightarrow> byte list) \<Rightarrow> log_system \<Rightarrow> log_run \<Rightarrow> bool" where
  "worker_good cs s0 r \<longleftrightarrow> (\<exists>p s. worker_routine cs (log_worker r) (lsys r) = Some (p, s) \<and> run_ok cs s0 (r\<lparr>lsys := s, log_worker := p\<rparr>) \<and>
     (log_closed s \<longrightarrow> ((p, s), log_worker r, lsys r) \<in> worker_order (length (log_files s0))))"

lemma run_ok_worker:
  assumes "run_ok cs s0 r" "log_ok s" "length (log_files s) = length (log_files s0)" "pc_ok (length (log_files s0)) (log_closed s) p"
    "quota (log_st s) + lines_sent (length (log_files s0)) r + files_closed (length (log_files s0)) p = quota (log_st s0)"
    "\<And>j. j < length (log_files s0) \<Longrightarrow> file_ok cs s0 (r\<lparr>lsys := s, log_worker := p\<rparr>) j"
    "\<And>j. j < files_closed (length (log_files s0)) p \<Longrightarrow> p \<noteq> WWrite True j \<Longrightarrow> pending_log (log_files s ! j) = []"
  shows "run_ok cs s0 (r\<lparr>lsys := s, log_worker := p\<rparr>)"
  using assms(2-) run_okD(7) [OF assms(1)] by (auto simp: run_ok_def Let_def lines_sent_def)

text \<open>Steps that move no bytes.\<close>

lemma run_ok_move:
  assumes ok: "run_ok cs s0 r" and s: "log_files s = log_files (lsys r)" "log_st s = log_st (lsys r)" "log_ok s"
    and p: "pc_ok (length (log_files s0)) (log_closed s) p" "files_closed (length (log_files s0)) p = files_closed (length (log_files s0)) (log_worker r)"
      "\<And>j. log_worker r = WWrite True j \<Longrightarrow> pending_log (log_files s ! j) = []"
  shows "run_ok cs s0 (r\<lparr>lsys := s, log_worker := p\<rparr>)"
proof (rule run_ok_worker [OF ok])
  note D = run_okD [OF ok]
  show "file_ok cs s0 (r\<lparr>lsys := s, log_worker := p\<rparr>) j" if "j < length (log_files s0)" for j
    by (rule file_ok_same [OF D(5) [OF that]]) (use p s log_view_cong [OF s(1,2)] in \<open>simp_all add: log_same_def\<close>)
  show "pending_log (log_files s ! j) = []" if "j < files_closed (length (log_files s0)) p" for j
    using D(6) [of j] that p(2,3) s(1) by (cases "log_worker r = WWrite True j") simp_all
qed (use run_okD [OF ok] s p in simp_all)

lemma GetSystemMs_log_simps [simp]:
  "log_files (fst (GetSystemMs_log s)) = log_files s" "log_st (fst (GetSystemMs_log s)) = log_st s" "log_ok (fst (GetSystemMs_log s)) = log_ok s"
  "log_closed (fst (GetSystemMs_log s)) = log_closed s"
  by (simp_all add: GetSystemMs_log_def log_ok_def)

lemma worker_test_good:
  assumes "run_ok cs s0 r" "log_worker r = WTest"
  shows "worker_good cs s0 r"
proof -
  note D = run_okD [OF assms(1)]
  define p where "p = WSwap (log_closed (lsys r)) 0"
  define s where "s = (if log_closed (lsys r) then lsys r else fst (GetSystemMs_log (lsys r)))"
  have s: "log_files s = log_files (lsys r)" "log_st s = log_st (lsys r)" "log_ok s" "log_closed s = log_closed (lsys r)"
    using D(1) by (simp_all add: s_def)
  have "run_ok cs s0 (r\<lparr>lsys := s, log_worker := p\<rparr>)" by (rule run_ok_move [OF assms(1) s(1-3)]) (use s(4) assms(2) in \<open>simp_all add: p_def\<close>)
  moreover have "worker_routine cs (log_worker r) (lsys r) = Some (p, s)" using assms(2) by (simp add: worker_routine_def p_def s_def)
  ultimately show ?thesis using assms(2) s(4) by (auto simp: worker_good_def worker_order_def p_def)
qed

lemma worker_end_good:
  assumes "run_ok cs s0 r" "log_worker r = WSwap closing i" "\<not> i < length (log_files s0)"
  shows "worker_good cs s0 r"
proof -
  note D = run_okD [OF assms(1)]
  define p where "p = (if closing then WDone else WTest)"
  define s where "s = (if closing then lsys r else log_stats (fst (GetSystemMs_log (lsys r))))"
  have s: "log_files s = log_files (lsys r)" "log_st s = log_st (lsys r)" "log_ok s" "log_closed s = log_closed (lsys r)"
    using D(1) by (simp_all add: s_def)
  have "run_ok cs s0 (r\<lparr>lsys := s, log_worker := p\<rparr>)"
    by (rule run_ok_move [OF assms(1) s(1-3)]) (use s(4) D(3) assms(2,3) in \<open>auto simp: p_def\<close>)
  moreover have "worker_routine cs (log_worker r) (lsys r) = Some (p, s)" using assms(2,3) D(2) by (simp add: worker_routine_def p_def s_def)
  ultimately show ?thesis using assms(2) by (auto simp: worker_good_def worker_order_def p_def)
qed

lemma worker_next_good:
  assumes "run_ok cs s0 r" "log_worker r = WWrite closing i" "pending_log (log_files (lsys r) ! i) = []"
  shows "worker_good cs s0 r"
proof -
  note D = run_okD [OF assms(1)]
  have "run_ok cs s0 (r\<lparr>lsys := lsys r, log_worker := WSwap closing (Suc i)\<rparr>)"
    by (rule run_ok_move [OF assms(1) refl refl D(1)]) (use D(3) assms(2,3) in auto)
  moreover have "worker_routine cs (log_worker r) (lsys r) = Some (WSwap closing (Suc i), lsys r)"
    using assms(2,3) by (simp add: worker_routine_def)
  moreover have "length (log_files s0) - Suc i < length (log_files s0) - i" using D(3) assms(2) by (simp add: diff_less_mono2)
  ultimately show ?thesis using assms(2) by (auto simp: worker_good_def worker_order_def)
qed

lemma worker_swap_good:
  assumes ok: "run_ok cs s0 r" and lim: "log_limits cs s0 r" and w: "log_worker r = WSwap closing i" "i < length (log_files s0)"
  shows "worker_good cs s0 r"
proof -
  note D = run_okD [OF ok]
  let ?n = "length (log_files s0)" let ?b = "closing_bytes closing (cs i)"
  have fc: "files_closed ?n (log_worker r) = (if closing then i else 0)" using w(1) by simp
  have i: "i < length (log_files (lsys r))" using w(2) D(2) by simp
  have q: "closing \<longrightarrow> 0 < quota (log_st (lsys r))" using D(4) w log_limitsD(1) [OF lim] by auto
  obtain s where s: "queue_close closing (cs i) i (take_queue i (lsys r)) = Some s" "log_ok s" "length (log_files s) = ?n"
    "log_closed s = log_closed (lsys r)" "quota (log_st s) = quota (log_st (lsys r)) - (if closing then 1 else 0)"
    "\<forall>j < ?n. j \<noteq> i \<longrightarrow> log_same j (lsys r) s" "queue_lines s i = []"
    "log_file (log_files s ! i) @ pending_bytes s i = log_content (lsys r) i @ ?b"
    using take_over_law [OF D(1) i q, of "cs i"] D(2) by auto
  let ?r = "r\<lparr>lsys := s, log_worker := WWrite closing i\<rparr>"
  have "file_ok cs s0 ?r j" if j: "j < ?n" for j
  proof (cases "j = i")
    case True
    have c: "log_content (lsys r) i = log_content s0 i @ concat (sent_before r i) @ concat (late_lines r i)"
      using D(5) [OF w(2)] fc by (simp add: file_ok_def)
    have "log_content s i = log_content (lsys r) i @ ?b" using s(7,8) by (simp add: log_content_def)
    then show ?thesis using True s(7,8) c by (cases closing) (simp_all add: file_ok_def late_lines_def closing_bytes_def)
  next
    case False
    then show ?thesis by (intro file_ok_same [OF D(5) [OF j]]) (use j s(6) fc in auto)
  qed
  moreover have "pending_log (log_files s ! j) = []" if "j < files_closed ?n (WWrite closing i)" "WWrite closing i \<noteq> WWrite True j" for j
  proof -
    have "j < i" "closing" using that by (auto split: if_splits)
    then show ?thesis using D(6) [of j] w s(6) by (auto simp: log_same_def)
  qed
  moreover have "quota (log_st s) + lines_sent ?n r + files_closed ?n (WWrite closing i) = quota (log_st s0)"
    using D(4) s(5) fc q by auto
  moreover have "pc_ok ?n (log_closed s) (WWrite closing i)" using D(3) s(4) w by simp
  ultimately have "run_ok cs s0 ?r" by (intro run_ok_worker [OF ok s(2,3)])
  moreover have "worker_routine cs (log_worker r) (lsys r) = Some (WWrite closing i, s)" using w(1) i s(1) by (simp add: worker_routine_def)
  ultimately show ?thesis using w(1) by (auto simp: worker_good_def worker_order_def)
qed

lemma worker_write_good:
  assumes ok: "run_ok cs s0 r" and lim: "log_limits cs s0 r" and w: "log_worker r = WWrite closing i" "pending_log (log_files (lsys r) ! i) \<noteq> []"
  shows "worker_good cs s0 r"
proof -
  note D = run_okD [OF ok]
  let ?n = "length (log_files s0)"
  have i: "i < ?n" "i < length (log_files (lsys r))" using D(2,3) w(1) by simp_all
  have "int (log_total (lsys r)) \<le> INT32_MAX" by (rule order_trans [OF of_nat_mono [OF log_total_bytes_sent [OF ok]] log_limitsD(2) [OF lim]])
  then obtain s where s: "write_round i (lsys r) = Some s" "log_ok s" "log_frame i (lsys r) s"
    "length (write_results s) + length (pending_bytes s i) < length (write_results (lsys r)) + length (pending_bytes (lsys r) i)"
    using write_round_law [OF D(1) i(2) _ w(2)] by blast
  note F = s(3) [unfolded log_frame_def D(2)]
  let ?r = "r\<lparr>lsys := s, log_worker := log_worker r\<rparr>"
  have "file_ok cs s0 ?r j" if j: "j < ?n" for j
  proof (cases "j = i")
    case True
    have "late_lines ?r i = late_lines r i" by (simp add: late_lines_def)
    then show ?thesis using True D(5) [OF j] F log_frame_content [OF s(3) i(2)] by (simp add: file_ok_def)
  next
    case False
    then show ?thesis by (intro file_ok_same [OF D(5) [OF j]]) (use j F in auto)
  qed
  moreover have "pending_log (log_files s ! j) = []" if "j < files_closed ?n (log_worker r)" "log_worker r \<noteq> WWrite True j" for j
  proof -
    have "j \<noteq> i" "j < ?n" using that w(1) i(1) by (auto split: if_splits)
    then show ?thesis using D(6) [OF that] F by (simp add: log_same_def)
  qed
  ultimately have "run_ok cs s0 ?r" using D(3,4) s(2) F by (intro run_ok_worker [OF ok]) simp_all
  moreover have "worker_routine cs (log_worker r) (lsys r) = Some (log_worker r, s)" using w s(1) by (simp add: worker_routine_def)
  ultimately show ?thesis using w(1) s(4) by (auto simp: worker_good_def worker_order_def)
qed

lemma worker_step_good:
  assumes "run_ok cs s0 r" "log_limits cs s0 r" "log_worker r \<noteq> WDone"
  shows "worker_good cs s0 r"
proof (cases "log_worker r")
  case WTest
  then show ?thesis by (rule worker_test_good [OF assms(1)])
next
  case (WSwap closing i)
  then show ?thesis using worker_swap_good [OF assms(1,2)] worker_end_good [OF assms(1)] by blast
next
  case (WWrite closing i)
  then show ?thesis using worker_write_good [OF assms(1,2)] worker_next_good [OF assms(1)] by blast
qed (use assms(3) in simp)

text \<open>All steps, as long as the bounds hold.\<close>

lemma sent_grows:
  assumes "lstep cs r r'"
  shows "\<exists>b a. sent_before r' j = sent_before r j @ b \<and> sent_after r' j = sent_after r j @ a"
  using assms by (induction rule: lstep.induct) (auto simp: note_line_def)

lemma log_limits_step:
  assumes "lstep cs r r'" "log_limits cs s0 r'"
  shows "log_limits cs s0 r"
proof -
  have len: "length (sent_before r j) \<le> length (sent_before r' j)" "length (sent_after r j) \<le> length (sent_after r' j)"
    "length (concat (sent_before r j)) \<le> length (concat (sent_before r' j))"
    "length (concat (late_lines r j)) \<le> length (concat (late_lines r' j))" for j
    using sent_grows [OF assms(1), of j] by (auto simp: late_lines_def)
  have "lines_sent (length (log_files s0)) r \<le> lines_sent (length (log_files s0)) r'"
    unfolding lines_sent_def by (intro sum_mono add_mono len)
  moreover have "bytes_sent cs s0 r \<le> bytes_sent cs s0 r'"
    unfolding bytes_sent_def by (intro sum_mono add_mono len order_refl)
  ultimately show ?thesis using assms(2) by (auto simp: log_limits_def)
qed

lemma caller_quota:
  assumes "run_ok cs s0 r" "lines_sent (length (log_files s0)) r < k" "k + length (log_files s0) \<le> quota (log_st s0)"
  shows "0 < quota (log_st (lsys r))"
  using run_okD(4) [OF assms(1)] files_closed_le [OF run_okD(3) [OF assms(1)]] assms(2,3) by linarith

lemma run_ok_step:
  assumes "lstep cs r r'" "run_ok cs s0 r" "late_ok r" "log_limits cs s0 r'"
  shows "run_ok cs s0 r'"
  using assms
proof (induction rule: lstep.induct)
  case (ltest r t i stamp content)
  then show ?case by (intro run_ok_test) auto
next
  case (lenqueue r t i stamp content s)
  let ?r = "r\<lparr>lsys := s, log_callers := (log_callers r)(t := CIdle)\<rparr>" let ?n = "length (log_files s0)"
  have "lines_sent ?n (note_line t i (log_line stamp content) ?r) = Suc (lines_sent ?n ?r)"
    by (rule lines_sent_note) (rule run_okD(7) [OF lenqueue(3,1)])
  then have "Suc (lines_sent ?n r) + ?n \<le> quota (log_st s0)" using log_limitsD(1) [OF lenqueue(5)] by (simp add: lines_sent_def)
  then have "0 < quota (log_st (lsys r))" by (rule caller_quota [OF lenqueue(3) lessI])
  then show ?case using run_ok_enqueue [OF lenqueue(3,4,1)] lenqueue(2) by auto
next
  case (lclose r)
  then show ?case by (intro run_ok_close)
next
  case (lwork r p s)
  have "log_limits cs s0 r" using lwork(4) by (simp add: log_limits_def lines_sent_def bytes_sent_def late_lines_def)
  moreover have "log_worker r \<noteq> WDone" using lwork(1) by (auto simp: worker_routine_def)
  ultimately show ?case using worker_step_good [OF lwork(2)] lwork(1) by (auto simp: worker_good_def)
qed

lemma reach_ok:
  assumes "(lstep cs)\<^sup>*\<^sup>* (log_start s0) r" "log_ok s0" "\<not> log_closed s0" "log_limits cs s0 r"
  shows "run_ok cs s0 r \<and> late_ok r"
  using assms
proof (induction rule: rtranclp_induct)
  case base
  then show ?case using run_ok_start by (simp add: late_ok_def log_start_def)
next
  case (step r r')
  then show ?case using log_limits_step [OF step.hyps(2) step.prems(3)] late_ok_step run_ok_step by blast
qed

section \<open>The end of the worker\<close>

definition worker_step :: "(nat \<Rightarrow> byte list) \<Rightarrow> worker_pc \<times> log_system \<Rightarrow> worker_pc \<times> log_system \<Rightarrow> bool" where
  "worker_step cs x y \<longleftrightarrow> worker_routine cs (fst x) (snd x) = Some y"

lemma worker_finishes:
  assumes "run_ok cs s0 r" "log_limits cs s0 r" "log_closed (lsys r)"
  shows "\<exists>s. (worker_step cs)\<^sup>*\<^sup>* (log_worker r, lsys r) (WDone, s) \<and> run_ok cs s0 (r\<lparr>lsys := s, log_worker := WDone\<rparr>) \<and> log_closed s"
proof -
  have wf: "wf (worker_order (length (log_files s0)))" by (simp add: worker_order_def)
  have "\<forall>r. x = (log_worker r, lsys r) \<longrightarrow> run_ok cs s0 r \<longrightarrow> log_limits cs s0 r \<longrightarrow> log_closed (lsys r) \<longrightarrow>
    (\<exists>s. (worker_step cs)\<^sup>*\<^sup>* x (WDone, s) \<and> run_ok cs s0 (r\<lparr>lsys := s, log_worker := WDone\<rparr>) \<and> log_closed s)" for x
  proof (induction x rule: wf_induct_rule [OF wf])
    case (1 x)
    show ?case
    proof (intro allI impI)
      fix r assume r: "x = (log_worker r, lsys r)" "run_ok cs s0 r" "log_limits cs s0 r" "log_closed (lsys r)"
      show "\<exists>s. (worker_step cs)\<^sup>*\<^sup>* x (WDone, s) \<and> run_ok cs s0 (r\<lparr>lsys := s, log_worker := WDone\<rparr>) \<and> log_closed s"
      proof (cases "log_worker r = WDone")
        case True
        have eq: "r\<lparr>lsys := lsys r, log_worker := WDone\<rparr> = r" using True by simp
        have "run_ok cs s0 (r\<lparr>lsys := lsys r, log_worker := WDone\<rparr>)" using r(2) by (simp only: eq)
        then show ?thesis using r(1,4) True by (intro exI [of _ "lsys r"]) simp
      next
        case False
        obtain p s where s: "worker_routine cs (log_worker r) (lsys r) = Some (p, s)" "run_ok cs s0 (r\<lparr>lsys := s, log_worker := p\<rparr>)"
          "log_closed s \<longrightarrow> ((p, s), x) \<in> worker_order (length (log_files s0))"
          using worker_step_good [OF r(2,3) False] r(1) by (auto simp: worker_good_def)
        have c: "log_closed s" using worker_routine_closed [OF s(1)] r(4) by simp
        let ?r = "r\<lparr>lsys := s, log_worker := p\<rparr>"
        have "log_limits cs s0 ?r" using r(3) by (simp add: log_limits_def lines_sent_def bytes_sent_def late_lines_def)
        then obtain s' where "(worker_step cs)\<^sup>*\<^sup>* (p, s) (WDone, s')" "run_ok cs s0 (?r\<lparr>lsys := s', log_worker := WDone\<rparr>)" "log_closed s'"
          using 1 [OF mp [OF s(3) c], THEN spec, of ?r] s(2) c by auto
        moreover have "worker_step cs x (p, s)" using s(1) r(1) by (simp add: worker_step_def)
        ultimately show ?thesis by (auto intro: converse_rtranclp_into_rtranclp)
      qed
    qed
  qed
  then show ?thesis using assms by blast
qed

lemma worker_steps_lstep:
  assumes "(worker_step cs)\<^sup>*\<^sup>* (p, s) (p', s')"
  shows "(lstep cs)\<^sup>*\<^sup>* (r\<lparr>lsys := s, log_worker := p\<rparr>) (r\<lparr>lsys := s', log_worker := p'\<rparr>)"
  using assms
proof (induction rule: rtranclp_induct2)
  case (step a b c d)
  have "lstep cs (r\<lparr>lsys := b, log_worker := a\<rparr>) (r\<lparr>lsys := b, log_worker := a\<rparr>\<lparr>lsys := d, log_worker := c\<rparr>)"
    by (rule lwork) (use step.hyps(2) in \<open>simp add: worker_step_def\<close>)
  then show ?case using step.IH by simp
qed simp

text \<open>The end of the logs then releases every packet that is left, so that no reference remains.\<close>

lemma destroy_queue_law: "rc_inv st (lroots ws + R) \<Longrightarrow> \<exists>st'. destroy_queue st ws = Some st' \<and> rc_inv st' R"
proof (induction ws arbitrary: st)
  case (Cons w ws)
  then have "rc_inv st (wroots w + (lroots ws + R))" by (simp add: add.assoc)
  then obtain st1 where "wpacket_destroy st w = Some st1" "rc_inv st1 (lroots ws + R)" using wpacket_destroy_law by blast
  then show ?case using Cons.IH [of st1] by auto
qed simp

lemma destroy_logs_law:
  "rc_inv st (log_roots ls + R) \<Longrightarrow> \<forall>l \<in> set ls. pending_log l = [] \<Longrightarrow> \<exists>st'. destroy_logs ls st = Some st' \<and> rc_inv st' R"
proof (induction ls arbitrary: st)
  case (Cons l ls)
  then have "rc_inv st (lroots (log_queue l) + (log_roots ls + R))" by (simp add: log_roots_def log_packets_def add.assoc)
  then obtain st1 where "destroy_log l st = Some st1" "rc_inv st1 (log_roots ls + R)" using destroy_queue_law unfolding destroy_log_def by blast
  then show ?case using Cons.IH [of st1] Cons.prems(2) by auto
qed (simp add: log_roots_def)

lemma close_log_system_law:
  assumes "run_ok cs s0 r" "log_worker r = WDone"
  shows "\<exists>s'. close_log_system (lsys r) = Some s' \<and> log_files s' = [] \<and> rc_inv (log_st s') {#}"
proof -
  note D = run_okD [OF assms(1)]
  have "\<forall>l \<in> set (log_files (lsys r)). pending_log l = []" using D(2,6) assms(2) by (auto simp: in_set_conv_nth)
  moreover have "rc_inv (log_st (lsys r)) (log_roots (log_files (lsys r)) + {#})" using log_okD(1) [OF D(1)] by simp
  ultimately obtain st' where "destroy_logs (log_files (lsys r)) (log_st (lsys r)) = Some st'" "rc_inv st' {#}"
    using destroy_logs_law by blast
  then show ?thesis by (intro exI [of _ "(lsys r)\<lparr>log_st := st', log_files := []\<rparr>"]) (simp add: close_log_system_def)
qed

text \<open>
  Claim C3. The log system loses no line that was queued before it was closed, whatever the interleaving of any number of
  callers of \<open>log_write\<close> with the worker thread and with the setting of the closing flag: a caller tests the flag in one step and
  queues its line in a later one, the worker tests the flag, takes over one queue, or does one write per step, and the
  writes may be short or fail. When the worker has ended, every file has been extended by exactly the lines queued before the flag was
  set (each cut at 4095 bytes), in order, then by a first part of the lines queued later, then by the closing line, and nothing is
  pending. The other lines queued later are still in the queue and never written, although their \<open>log_write\<close> returns 0;
  a line is queued later only by a thread that had tested the flag before it was set and not yet queued, one line each. While the flag is not set,
  the file with what is on its way has exactly the lines queued. Until its end the worker always has a defined step, a caller past the test
  has one too while there is memory, and once the flag is set the worker running on reaches its end, the script of the \<open>writev\<close>
  results having finitely many failures. Conditions: the log files exist from the start, there is memory for one
  buffer per line and file, and the bytes written are in all at most \<open>2 ^ 31 - 1\<close>, the range of the byte counter. What
  follows the end of the worker, the freeing of the logs, is not part of the run: it releases all that is left without a
  reference too many or too few.
\<close>

theorem log_files_complete:
  assumes "(lstep cs)\<^sup>*\<^sup>* (log_start s) r" "log_ok s" "\<not> log_closed s" "log_limits cs s r"
  shows "(log_worker r = WDone \<longrightarrow> (\<forall>i < length (log_files s). \<exists>early. late_lines r i = early @ queue_lines (lsys r) i \<and>
       pending_log (log_files (lsys r) ! i) = [] \<and>
       log_file (log_files (lsys r) ! i) = log_content s i @ concat (sent_before r i) @ concat early @ close_line (cs i))) \<and>
    (\<forall>i. distinct (map fst (sent_after r i)) \<and> (\<forall>t xs. (t, xs) \<in> set (sent_after r i) \<longrightarrow>
       (\<exists>stamp content. at_closing r t = CTested i stamp content \<and> xs = log_line stamp content))) \<and>
    (\<not> log_closed (lsys r) \<longrightarrow> (\<forall>i < length (log_files s). log_content (lsys r) i = log_content s i @ concat (sent_before r i))) \<and>
    (log_worker r \<noteq> WDone \<longrightarrow> worker_routine cs (log_worker r) (lsys r) \<noteq> None) \<and>
    (\<forall>t i stamp content. log_callers r t = CTested i stamp content \<longrightarrow> 0 < quota (log_st (lsys r)) \<longrightarrow> log_enqueue i stamp content (lsys r) \<noteq> None) \<and>
    (log_closed (lsys r) \<longrightarrow> (\<exists>s'. (worker_step cs)\<^sup>*\<^sup>* (log_worker r, lsys r) (WDone, s'))) \<and>
    (log_worker r = WDone \<longrightarrow> (\<exists>s'. close_log_system (lsys r) = Some s' \<and> log_files s' = [] \<and> rc_inv (log_st s') {#}))"
proof -
  have ok: "run_ok cs s r" and late: "late_ok r" using reach_ok [OF assms] by simp_all
  note D = run_okD [OF ok]
  have "\<exists>early. late_lines r i = early @ queue_lines (lsys r) i \<and> pending_log (log_files (lsys r) ! i) = [] \<and>
      log_file (log_files (lsys r) ! i) = log_content s i @ concat (sent_before r i) @ concat early @ close_line (cs i)"
    if "log_worker r = WDone" "i < length (log_files s)" for i
  proof -
    have p: "pending_log (log_files (lsys r) ! i) = []" using D(6) [of i] that by simp
    then have "pending_bytes (lsys r) i = []" by (simp add: pending_bytes_def)
    then show ?thesis using D(5) [OF that(2)] that p by (simp add: file_ok_def)
  qed
  moreover have "distinct (map fst (sent_after r i)) \<and> (\<forall>t xs. (t, xs) \<in> set (sent_after r i) \<longrightarrow>
       (\<exists>stamp content. at_closing r t = CTested i stamp content \<and> xs = log_line stamp content))" for i
    using late by (cases "log_closed (lsys r)") (auto simp: late_ok_def)
  moreover have "log_content (lsys r) i = log_content s i @ concat (sent_before r i)" if "\<not> log_closed (lsys r)" "i < length (log_files s)" for i
    using D(3) D(5) [OF that(2)] late that(1) by (simp add: file_ok_def late_ok_def late_lines_def files_closed_open)
  moreover have "worker_routine cs (log_worker r) (lsys r) \<noteq> None" if "log_worker r \<noteq> WDone"
    using worker_step_good [OF ok assms(4) that] by (auto simp: worker_good_def)
  moreover have "log_enqueue i stamp content (lsys r) \<noteq> None" if "log_callers r t = CTested i stamp content" "0 < quota (log_st (lsys r))" for t i stamp content
    using run_ok_enqueue [OF ok late that] by auto
  moreover have "\<exists>s'. (worker_step cs)\<^sup>*\<^sup>* (log_worker r, lsys r) (WDone, s')" if "log_closed (lsys r)"
    using worker_finishes [OF ok assms(4) that] by blast
  moreover have "\<exists>s'. close_log_system (lsys r) = Some s' \<and> log_files s' = [] \<and> rc_inv (log_st s') {#}" if "log_worker r = WDone"
    by (rule close_log_system_law [OF ok that])
  ultimately show ?thesis by blast
qed

definition log_sample :: log_system where
  "log_sample = \<lparr>log_st = empty_store 10, log_files = [\<lparr>log_queue = [], pending_log = [], file_size = 0, log_iovecs = [], log_file = [1]\<rparr>],
     log_closed = False, log_bytes = 0, log_count = 0, stat_tick = 0, log_clock = (\<lambda>_. 0), log_now = 0, write_results = [2, -1, 3]\<rparr>"

lemma log_sample_ok: "log_ok log_sample" "\<not> log_closed log_sample" "length (log_files log_sample) = 1" "quota (log_st log_sample) = 10"
  "log_content log_sample 0 = [1]"
  using rc_inv_empty_store [of 10]
  by (simp_all add: log_ok_def log_sample_def log_roots_def log_packets_def few_refs_def log_content_def pending_bytes_def queue_lines_def empty_store_def)

lemma close_line_size: "length (close_line [7]) = 21"
proof -
  have "close_line [7] = 7 # map (\<lambda>c. word_of_nat (of_char c)) ''close log sucessful'' @ [10]"
    by (simp add: close_line_def log_line_def text_bytes_def)
  then show ?thesis by simp
qed

lemma log_lines: "log_line [7] [8] = [7, 8, 10]" "log_line [7] [9] = [7, 9, 10]"
  by (simp_all add: log_line_def text_bytes_def)

text \<open>
  A run of the sample: a thread queues a line, another one tests the flag, the flag is set, the worker ends, and only then
  the second thread queues its line.
\<close>

lemma log_sample_run:
  "\<exists>r r'. (lstep (\<lambda>_. [7]))\<^sup>*\<^sup>* (log_start log_sample) r \<and> (lstep (\<lambda>_. [7]))\<^sup>*\<^sup>* (log_start log_sample) r' \<and>
     log_worker r = WDone \<and> log_worker r' = WDone \<and> sent_before r = (\<lambda>_. [])(0 := [[7, 8, 10]]) \<and> sent_after r = (\<lambda>_. []) \<and>
     sent_before r' = sent_before r \<and> sent_after r' = (\<lambda>_. [])(0 := [(1, [7, 9, 10])]) \<and>
     log_file (log_files (lsys r') ! 0) = log_file (log_files (lsys r) ! 0)"
proof -
  let ?cs = "\<lambda>_::nat. [7] :: byte list" let ?s = log_sample
  have base: "run_ok ?cs ?s (log_start ?s)" by (rule run_ok_start [OF log_sample_ok(1)])
  define r1 where "r1 = (log_start ?s)\<lparr>log_callers := (log_callers (log_start ?s))(0 := CTested 0 [7] [8])\<rparr>"
  have s1: "lstep ?cs (log_start ?s) r1" using ltest [of "log_start ?s" 0 0 ?cs "[7]" "[8]"] log_sample_ok
    by (simp add: r1_def log_start_def log_test_def)
  have "0 < quota (log_st (lsys r1))" using log_sample_ok(4) by (simp add: r1_def log_start_def)
  moreover have l1: "late_ok r1" using log_sample_ok(2) by (simp add: late_ok_def r1_def log_start_def)
  moreover have k1: "run_ok ?cs ?s r1" using run_ok_test [OF base, of 0 0 True "[7]" "[8]"] log_sample_ok(3) by (simp add: r1_def log_start_def)
  moreover have t1: "log_callers r1 0 = CTested 0 [7] [8]" by (simp add: r1_def)
  ultimately obtain u where u: "log_enqueue 0 [7] [8] (lsys r1) = Some u" using run_ok_enqueue [of ?cs ?s r1 0 0 "[7]" "[8]"] by blast
  define r2 where "r2 = note_line 0 0 [7, 8, 10] (r1\<lparr>lsys := u, log_callers := (log_callers r1)(0 := CIdle)\<rparr>)"
  have s2: "lstep ?cs r1 r2" using lenqueue [OF t1 u] by (simp add: r2_def log_lines)
  have ou: "\<not> log_closed u" using log_enqueue_closed [OF u] log_sample_ok(2) by (simp add: r1_def log_start_def)
  then have open2: "\<not> log_closed (lsys r2)" by (simp add: r2_def)
  have b2: "sent_before r2 = (\<lambda>_. [])(0 := [[7, 8, 10]])" "sent_after r2 = (\<lambda>_. [])" "log_callers r2 = (\<lambda>_. CIdle)"
    using ou by (auto simp: r2_def note_line_def r1_def log_start_def)
  have lim: "log_limits ?cs ?s r" if "sent_before r = (\<lambda>_. [])(0 := [[7, 8, 10]])" "sent_after r = (\<lambda>_. []) \<or> sent_after r = (\<lambda>_. [])(0 := [(1, [7, 9, 10])])" for r
    using that log_sample_ok close_line_size by (auto simp: log_limits_def lines_sent_def bytes_sent_def late_lines_def)
  have k2: "run_ok ?cs ?s r2" by (rule run_ok_step [OF s2 k1 l1 lim]) (simp_all add: b2)
  have l2: "late_ok r2" by (rule late_ok_step [OF s2 l1])
  define r3 where "r3 = r2\<lparr>log_callers := (log_callers r2)(1 := CTested 0 [7] [9])\<rparr>"
  have n2: "0 < length (log_files (lsys r2))" using run_okD(2) [OF k2] log_sample_ok(3) by simp
  have s3: "lstep ?cs r2 r3" using ltest [of r2 1 0 ?cs "[7]" "[9]"] n2 open2 by (simp add: r3_def b2 log_test_def)
  have b3: "sent_before r3 = sent_before r2" "sent_after r3 = sent_after r2" by (simp_all add: r3_def)
  have k3: "run_ok ?cs ?s r3" by (rule run_ok_step [OF s3 k2 l2 lim]) (simp_all add: b2 b3)
  define r4 where "r4 = r3\<lparr>lsys := (lsys r3)\<lparr>log_closed := True\<rparr>, at_closing := log_callers r3\<rparr>"
  have s4: "lstep ?cs r3 r4" using lclose [of r3 ?cs] open2 by (simp add: r4_def r3_def)
  have b4: "sent_before r4 = sent_before r2" "sent_after r4 = sent_after r2" "log_callers r4 1 = CTested 0 [7] [9]" "log_closed (lsys r4)"
    by (simp_all add: r4_def r3_def)
  have l3: "late_ok r3" by (rule late_ok_step [OF s3 l2])
  have k4: "run_ok ?cs ?s r4" by (rule run_ok_step [OF s4 k3 l3 lim]) (simp_all add: b2 b4)
  obtain v where v: "(worker_step ?cs)\<^sup>*\<^sup>* (log_worker r4, lsys r4) (WDone, v)" "run_ok ?cs ?s (r4\<lparr>lsys := v, log_worker := WDone\<rparr>)" "log_closed v"
    using worker_finishes [OF k4 lim b4(4)] b2 b4 by auto
  define r5 where "r5 = r4\<lparr>lsys := v, log_worker := WDone\<rparr>"
  have "r4\<lparr>lsys := lsys r4, log_worker := log_worker r4\<rparr> = r4" by simp
  then have s5: "(lstep ?cs)\<^sup>*\<^sup>* r4 r5" using worker_steps_lstep [OF v(1), of r4] by (simp add: r5_def)
  have l5: "late_ok r5" using late_ok_step [OF s4 l3] v(3) b4(4) by (simp add: late_ok_def r5_def)
  have b5: "sent_before r5 = sent_before r2" "sent_after r5 = sent_after r2" "log_callers r5 1 = CTested 0 [7] [9]" "log_closed (lsys r5)"
    using b4 v(3) by (simp_all add: r5_def)
  have "lines_sent 1 r5 < 2" by (simp add: lines_sent_def b5 b2)
  then have q5: "0 < quota (log_st (lsys r5))" using caller_quota [of ?cs ?s r5 2] v(2) log_sample_ok(3,4) by (simp add: r5_def)
  have "length (log_files (lsys r5)) = 1" using run_okD(2) [OF v(2)] log_sample_ok(3) by (simp add: r5_def)
  then obtain w where w: "log_enqueue 0 [7] [9] (lsys r5) = Some w" "log_closed w = log_closed (lsys r5)"
    "log_file (log_files w ! 0) = log_file (log_files (lsys r5) ! 0)"
    using log_enqueue_law [OF run_okD(1) [OF v(2) [folded r5_def]] _ q5, of 0 "[7]" "[9]"] by auto
  define r6 where "r6 = note_line 1 0 [7, 9, 10] (r5\<lparr>lsys := w, log_callers := (log_callers r5)(1 := CIdle)\<rparr>)"
  have s6: "lstep ?cs r5 r6" using lenqueue [OF b5(3) w(1)] by (simp add: r6_def log_lines)
  have b6: "sent_before r6 = sent_before r5" "sent_after r6 = (\<lambda>_. [])(0 := [(1, [7, 9, 10])])" "lsys r6 = w"
    using w(2) b5 b2 by (simp_all add: r6_def note_line_def)
  have path: "(lstep ?cs)\<^sup>*\<^sup>* (log_start ?s) r5" using s1 s2 s3 s4 s5 by (meson converse_rtranclp_into_rtranclp)
  then have "(lstep ?cs)\<^sup>*\<^sup>* (log_start ?s) r6" using s6 by (rule rtranclp.rtrancl_into_rtrancl)
  moreover have "log_worker r5 = WDone" "log_worker r6 = WDone" by (simp_all add: r5_def r6_def)
  ultimately show ?thesis using path b5 b6 b2 w(3) by (intro exI [of _ r5] exI [of _ r6]) simp
qed

theorem log_files_complete_witness:
  "\<exists>r. (lstep (\<lambda>_. [7]))\<^sup>*\<^sup>* (log_start log_sample) r \<and> log_worker r = WDone \<and> sent_before r 0 = [[7, 8, 10]] \<and>
     log_file (log_files (lsys r) ! 0) = [1] @ [7, 8, 10] @ close_line [7] \<and> queue_lines (lsys r) 0 = [[7, 9, 10]]"
proof -
  obtain q r where r: "(lstep (\<lambda>_. [7]))\<^sup>*\<^sup>* (log_start log_sample) q" "(lstep (\<lambda>_. [7]))\<^sup>*\<^sup>* (log_start log_sample) r" "log_worker q = WDone" "log_worker r = WDone"
    "sent_before q = (\<lambda>_. [])(0 := [[7, 8, 10]])" "sent_after q = (\<lambda>_. [])" "sent_before r = sent_before q" "sent_after r = (\<lambda>_. [])(0 := [(1, [7, 9, 10])])"
    "log_file (log_files (lsys r) ! 0) = log_file (log_files (lsys q) ! 0)"
    using log_sample_run by blast
  have lim: "log_limits (\<lambda>_. [7]) log_sample q" "log_limits (\<lambda>_. [7]) log_sample r"
    using r(5-8) log_sample_ok close_line_size by (simp_all add: log_limits_def lines_sent_def bytes_sent_def late_lines_def)
  from log_files_complete [OF r(1) log_sample_ok(1,2) lim(1)] r(3,5,6) log_sample_ok(3,5)
  have q: "log_file (log_files (lsys q) ! 0) = [1] @ [7, 8, 10] @ close_line [7]" by (simp add: late_lines_def)
  from log_files_complete [OF r(2) log_sample_ok(1,2) lim(2)] r(4,5,7,8) log_sample_ok(3,5)
  have "\<exists>early. [[7, 9, 10]] = early @ queue_lines (lsys r) 0 \<and> log_file (log_files (lsys r) ! 0) = [1] @ [7, 8, 10] @ concat early @ close_line [7]"
    by (auto simp: late_lines_def)
  then obtain early where e: "[[7, 9, 10]] = early @ queue_lines (lsys r) 0" "concat early = []" using q r(9) by auto
  then have "early = []" by (cases early) auto
  then show ?thesis using r(2,4,5,7,9) q e(1) by auto
qed

end
