(* ===== verification/Vector.thy ===== *)
theory Vector
  imports Prelude
begin

text \<open>
  The growing array of \<open>src/vector.c\<close> on an explicit heap of byte blocks. The allocator is a script:
  each request is denied or granted, a \<open>realloc\<close> is granted in place or by moving the block, which
  frees the old one. Any use of a block that is not live is undefined, here \<open>None\<close>.
\<close>

section \<open>The heap\<close>

text \<open>\<open>Grant in_place junk\<close>: the new bytes of a \<open>realloc\<close> have the contents \<open>junk\<close>.\<close>

datatype outcome = Deny | Grant bool "byte list"

record vmem =
  blocks :: "addr \<rightharpoonup> byte list"
  vnext :: addr
  outcomes :: "outcome list"

definition next_outcome :: "vmem \<Rightarrow> vmem \<times> outcome" where
  "next_outcome m = (case outcomes m of [] \<Rightarrow> (m, Grant False []) | r # rs \<Rightarrow> (m\<lparr>outcomes := rs\<rparr>, r))"

definition new_block :: "vmem \<Rightarrow> byte list \<Rightarrow> vmem \<times> addr" where
  "new_block m bs = (m\<lparr>blocks := (blocks m)(vnext m \<mapsto> bs), vnext := Suc (vnext m)\<rparr>, vnext m)"

definition calloc_v :: "vmem \<Rightarrow> u32 \<Rightarrow> vmem \<times> addr" where
  "calloc_v m n = (case next_outcome m of (m1, Deny) \<Rightarrow> (m1, NULL) | (m1, Grant _ _) \<Rightarrow> new_block m1 (replicate (unat n) 0))"

definition free_v :: "vmem \<Rightarrow> addr \<Rightarrow> vmem option" where
  "free_v m p = (if p = NULL then Some m else if blocks m p = None then None else Some (m\<lparr>blocks := (blocks m)(p := None)\<rparr>))"

definition resize :: "byte list \<Rightarrow> nat \<Rightarrow> byte list \<Rightarrow> byte list" where
  "resize bs n junk = take n (bs @ junk @ replicate n 0)"

definition realloc_v :: "vmem \<Rightarrow> addr \<Rightarrow> u32 \<Rightarrow> (vmem \<times> addr) option" where
  "realloc_v m p n = do {
     _ \<leftarrow> assert_c (n \<noteq> 0 \<and> (p = NULL \<or> blocks m p \<noteq> None));
     let bs = (if p = NULL then [] else the (blocks m p));
     case next_outcome m of
       (m1, Deny) \<Rightarrow> Some (m1, NULL)
     | (m1, Grant in_place junk) \<Rightarrow>
         if in_place \<and> p \<noteq> NULL then Some (m1\<lparr>blocks := (blocks m1)(p \<mapsto> resize bs (unat n) junk)\<rparr>, p)
         else Some (new_block (m1\<lparr>blocks := (blocks m1)(p := None)\<rparr>) (resize bs (unat n) junk)) }"

definition load :: "vmem \<Rightarrow> addr \<Rightarrow> u32 \<Rightarrow> u32 \<Rightarrow> byte list option" where
  "load m p off n = (if n = 0 then Some [] else do {
     bs \<leftarrow> blocks m p;
     _ \<leftarrow> assert_c (unat off + unat n \<le> length bs);
     Some (take (unat n) (drop (unat off) bs)) })"

definition store :: "vmem \<Rightarrow> addr \<Rightarrow> u32 \<Rightarrow> byte list \<Rightarrow> vmem option" where
  "store m p off xs = (if xs = [] then Some m else do {
     bs \<leftarrow> blocks m p;
     _ \<leftarrow> assert_c (unat off + length xs \<le> length bs);
     Some (m\<lparr>blocks := (blocks m)(p \<mapsto> take (unat off) bs @ xs @ drop (unat off + length xs) bs)\<rparr>) })"

section \<open>Operations\<close>

record vector =
  vsize :: u32
  capability :: u32
  val_size :: u32
  vbuf :: addr

text \<open>The structure itself takes one request of the allocator.\<close>

definition vector_create :: "vmem \<Rightarrow> u32 \<Rightarrow> u32 \<Rightarrow> vmem \<times> vector option" where
  "vector_create m vs reserve_size =
     (case next_outcome m of
        (m1, Deny) \<Rightarrow> (m1, None)
      | (m1, Grant _ _) \<Rightarrow>
          if reserve_size \<noteq> 0
          then let (m2, b) = calloc_v m1 (vs * reserve_size) in
            if b = NULL then (m2, None)
            else (m2, Some \<lparr>vsize = reserve_size, capability = reserve_size, val_size = vs, vbuf = b\<rparr>)
          else (m1, Some \<lparr>vsize = reserve_size, capability = reserve_size, val_size = vs, vbuf = NULL\<rparr>))"

definition vector_copy_create :: "vmem \<Rightarrow> vector \<Rightarrow> (vmem \<times> vector option) option" where
  "vector_copy_create m v =
     (if vbuf v = NULL then Some (vector_create m (val_size v) 0)
      else case next_outcome m of
        (m1, Deny) \<Rightarrow> Some (m1, None)
      | (m1, Grant _ _) \<Rightarrow>
          let (m2, b) = calloc_v m1 (capability v * val_size v) in
          if b = NULL then Some (m2, None)
          else do {
            xs \<leftarrow> load m2 (vbuf v) 0 (val_size v * vsize v);
            m3 \<leftarrow> store m2 b 0 xs;
            Some (m3, Some (v\<lparr>vbuf := b\<rparr>)) })"

definition vector_clear :: "vector \<Rightarrow> vector" where
  "vector_clear v = v\<lparr>vsize := 0\<rparr>"

text \<open>\<open>realloc\<close>, and a fresh block when that fails.\<close>

definition regrow :: "vmem \<Rightarrow> addr \<Rightarrow> u32 \<Rightarrow> (vmem \<times> addr) option" where
  "regrow m p n = do {
     (m1, b) \<leftarrow> realloc_v m p n;
     Some (if b = NULL then calloc_v m1 n else (m1, b)) }"

definition vector_copy :: "vmem \<Rightarrow> vector \<Rightarrow> vector \<Rightarrow> (vmem \<times> vector) option" where
  "vector_copy m v other =
     (if vbuf other = NULL then Some (m, v)
      else if val_size v = val_size other
      then do {
        (m1, v1, ok) \<leftarrow> (if capability v < capability other
          then do {
            (m1, b) \<leftarrow> regrow m (vbuf v) (capability other * val_size other);
            if b = NULL then Some (m1, v, False)
            else do {
              (m2, v2) \<leftarrow> (if b \<noteq> vbuf v then do { m2 \<leftarrow> free_v m1 (vbuf v); Some (m2, v\<lparr>vbuf := b\<rparr>) } else Some (m1, v));
              Some (m2, v2\<lparr>capability := capability other\<rparr>, True) } }
          else Some (m, v, True));
        if \<not> ok then Some (m1, v1)
        else do {
          xs \<leftarrow> load m1 (vbuf other) 0 (vsize other * val_size other);
          m2 \<leftarrow> store m1 (vbuf v1) 0 xs;
          Some (m2, v1\<lparr>vsize := vsize other\<rparr>) } }
      else Some (m, v))"

definition vector_destroy :: "vmem \<Rightarrow> vector \<Rightarrow> vmem option" where
  "vector_destroy m v = free_v m (vbuf v)"

text \<open>Moving to a block that \<open>regrow\<close> has returned: the old bytes are copied from the old block.\<close>

definition move_block :: "vmem \<Rightarrow> vector \<Rightarrow> addr \<Rightarrow> u32 \<Rightarrow> (vmem \<times> vector) option" where
  "move_block m v b n =
     (if b \<noteq> vbuf v
      then do {
        xs \<leftarrow> load m (vbuf v) 0 n;
        m1 \<leftarrow> store m b 0 xs;
        m2 \<leftarrow> free_v m1 (vbuf v);
        Some (m2, v\<lparr>vbuf := b\<rparr>) }
      else Some (m, v))"

definition vector_reserve :: "vmem \<Rightarrow> vector \<Rightarrow> u32 \<Rightarrow> (vmem \<times> vector) option" where
  "vector_reserve m v reserve_size =
     (if capability v > reserve_size
      then Some (m, v\<lparr>capability := reserve_size, vsize := (if vsize v > reserve_size then reserve_size else vsize v)\<rparr>)
      else do {
        (m1, b) \<leftarrow> regrow m (vbuf v) (val_size v * reserve_size);
        if b = NULL then Some (m1, v)
        else move_block m1 (v\<lparr>capability := reserve_size\<rparr>) b (val_size v * vsize v) })"

definition vector_push_back :: "vmem \<Rightarrow> vector \<Rightarrow> byte list \<Rightarrow> (vmem \<times> vector) option" where
  "vector_push_back m v val = do {
     (m1, v1, ok) \<leftarrow> (if vsize v = capability v
       then do {
         let cap = (if capability v > 0 then 2 * capability v else 32);
         (m1, b) \<leftarrow> regrow m (vbuf v) (cap * val_size v);
         if b = NULL then Some (m1, v, False)
         else do {
           (m2, v2) \<leftarrow> move_block m1 v b (val_size v * capability v);
           Some (m2, v2\<lparr>capability := cap\<rparr>, True) } }
       else Some (m, v, True));
     if \<not> ok then Some (m1, v1)
     else do {
       m2 \<leftarrow> store m1 (vbuf v1) (val_size v1 * vsize v1) val;
       Some (m2, v1\<lparr>vsize := vsize v1 + 1\<rparr>) } }"

definition vector_get :: "vmem \<Rightarrow> vector \<Rightarrow> u32 \<Rightarrow> byte list option option" where
  "vector_get m v idx =
     (if vbuf v \<noteq> NULL \<and> idx < capability v then map_option Some (load m (vbuf v) (val_size v * idx) (val_size v)) else Some None)"

definition vector_set :: "vmem \<Rightarrow> vector \<Rightarrow> u32 \<Rightarrow> byte list \<Rightarrow> vmem option" where
  "vector_set m v idx val =
     (if vbuf v \<noteq> NULL \<and> idx < capability v then store m (vbuf v) (val_size v * idx) val else Some m)"

section \<open>The sequence of values\<close>

text \<open>Value \<open>i\<close> of a block of values of \<open>n\<close> bytes.\<close>

definition val_at :: "nat \<Rightarrow> byte list \<Rightarrow> nat \<Rightarrow> byte list" where
  "val_at n bs i = take n (drop (n * i) bs)"

definition vec :: "vmem \<Rightarrow> vector \<Rightarrow> byte list list \<Rightarrow> bool" where
  "vec m v xs \<longleftrightarrow> 0 < vnext m \<and> blocks m NULL = None \<and> (\<forall>a \<ge> vnext m. blocks m a = None) \<and> 0 < val_size v \<and>
     (if vbuf v = NULL then capability v = 0 \<and> xs = [] \<and> vsize v = 0
      else \<exists>bs. blocks m (vbuf v) = Some bs \<and> unat (val_size v) * unat (capability v) \<le> length bs \<and> length bs < 2 ^ 32 \<and> vsize v \<le> capability v \<and>
        xs = map (val_at (unat (val_size v)) bs) [0..<unat (vsize v)])"

lemma val_at_store:
  assumes "length x = n" "n * k + n \<le> length bs" "n * i + n \<le> length bs"
  shows "val_at n (take (n * k) bs @ x @ drop (n * k + n) bs) i = (if i = k then x else val_at n bs i)"
proof -
  consider "i = k" | "i < k" | "k < i" by linarith
  then show ?thesis
  proof cases
    case 2
    then have "n * i + n \<le> n * k" by (metis Suc_leI mult.commute mult_Suc mult_le_mono2 add.commute)
    then show ?thesis using 2 assms by (simp add: val_at_def take_drop min_def)
  next
    case 3
    then have "n * k + n \<le> n * i" by (metis Suc_leI mult.commute mult_Suc mult_le_mono2 add.commute)
    then show ?thesis using 3 assms by (cases "n = 0") (auto simp: val_at_def min_def)
  qed (use assms in \<open>simp add: val_at_def min_def\<close>)
qed

lemma val_at_resize:
  assumes "n * i + n \<le> length bs" "n * i + n \<le> k"
  shows "val_at n (resize bs k junk) i = val_at n bs i"
  using assms by (simp add: val_at_def resize_def take_drop min_def)

lemma length_resize [simp]: "length (resize bs k junk) = k"
  by (simp add: resize_def)

lemma offset_mult:
  fixes n i :: u32
  assumes "unat n * unat i < 2 ^ 32"
  shows "unat (n * i) = unat n * unat i"
  using assms by (simp add: unat_word_ariths)

lemma index_bound:
  fixes n k :: nat
  assumes "i < c" "n * c \<le> l"
  shows "n * i + n \<le> l"
proof -
  have "n * Suc i \<le> n * c" using assms(1) by (intro mult_le_mono2) simp
  then show ?thesis using assms(2) by simp
qed

lemma store_block:
  assumes "blocks m p = Some bs" "unat off + length xs \<le> length bs" "xs \<noteq> []"
  shows "store m p off xs = Some (m\<lparr>blocks := (blocks m)(p \<mapsto> take (unat off) bs @ xs @ drop (unat off + length xs) bs)\<rparr>)"
  using assms by (simp add: store_def)

text \<open>Appending where there is room.\<close>

lemma vec_append:
  assumes v: "vec m v xs" and nn: "vbuf v \<noteq> NULL" and rm: "vsize v < capability v" and val: "length val = unat (val_size v)"
  shows "\<exists>m'. store m (vbuf v) (val_size v * vsize v) val = Some m' \<and> vec m' (v\<lparr>vsize := vsize v + 1\<rparr>) (xs @ [val])"
proof -
  let ?n = "unat (val_size v)" let ?k = "unat (vsize v)"
  obtain bs where b: "blocks m (vbuf v) = Some bs" "?n * unat (capability v) \<le> length bs" "length bs < 2 ^ 32"
    "xs = map (val_at ?n bs) [0..<?k]" "0 < val_size v" "vsize v \<le> capability v" using v nn by (auto simp: vec_def)
  have k: "?k < unat (capability v)" using rm by (simp add: word_less_nat_alt)
  note ib = index_bound [OF _ b(2)]
  have "?n * ?k + ?n \<le> length bs" by (rule ib [OF k])
  then have off: "unat (val_size v * vsize v) = ?n * ?k" using b(3) by (intro offset_mult) simp
  define bs' where "bs' = take (?n * ?k) bs @ val @ drop (?n * ?k + ?n) bs"
  have "val \<noteq> []" using val b(5) by (auto simp: word_gt_0 unat_eq_zero)
  then have st: "store m (vbuf v) (val_size v * vsize v) val = Some (m\<lparr>blocks := (blocks m)(vbuf v \<mapsto> bs')\<rparr>)"
    using store_block [OF b(1)] off val ib [OF k] by (simp add: bs'_def)
  have len: "length bs' = length bs" using ib [OF k] val by (simp add: bs'_def)
  have at: "val_at ?n bs' i = (if i = ?k then val else val_at ?n bs i)" if "i \<le> ?k" for i
    unfolding bs'_def using ib [of i] ib [OF k] val that k by (intro val_at_store) auto
  have "unat (vsize v + 1) = Suc ?k" by (rule unat_plus_one [OF rm])
  moreover have "vsize v + 1 \<le> capability v" using \<open>unat (vsize v + 1) = Suc ?k\<close> k by (simp add: word_le_nat_alt)
  moreover have "xs @ [val] = map (val_at ?n bs') [0..<Suc ?k]" using b(4) at by simp
  ultimately have "vec (m\<lparr>blocks := (blocks m)(vbuf v \<mapsto> bs')\<rparr>) (v\<lparr>vsize := vsize v + 1\<rparr>) (xs @ [val])"
    using v nn b len by (auto simp: vec_def)
  then show ?thesis using st by blast
qed

text \<open>A \<open>realloc\<close> of a full block that moves it.\<close>

definition moves :: "vmem \<Rightarrow> vector \<Rightarrow> bool" where
  "moves m v \<longleftrightarrow> vsize v = capability v \<and> vbuf v \<noteq> NULL \<and> (case snd (next_outcome m) of Grant in_place _ \<Rightarrow> \<not> in_place | Deny \<Rightarrow> False)"

definition denied :: "vmem \<Rightarrow> vector \<Rightarrow> bool" where
  "denied m v \<longleftrightarrow> vsize v = capability v \<and> (\<exists>rs. outcomes m = Deny # Deny # rs)"

lemma next_outcome_facts: "next_outcome m = (m1, r) \<Longrightarrow> blocks m1 = blocks m \<and> vnext m1 = vnext m"
  by (auto simp: next_outcome_def split: list.splits)

text \<open>A block that replaces the old one and begins with its bytes.\<close>

lemma vec_replace:
  assumes v: "vec m v xs" and m': "0 < vnext m'" "blocks m' NULL = None" "\<forall>a \<ge> vnext m'. blocks m' a = None" "b \<noteq> NULL"
    and bs': "blocks m' b = Some bs'" "length bs' = unat (val_size v) * unat cap" "length bs' < 2 ^ 32" "capability v \<le> cap"
    and same: "\<And>bs. vbuf v \<noteq> NULL \<Longrightarrow> blocks m (vbuf v) = Some bs \<Longrightarrow>
      take (unat (val_size v) * unat (capability v)) bs' = take (unat (val_size v) * unat (capability v)) bs"
  shows "vec m' (v\<lparr>vbuf := b, capability := cap\<rparr>) xs"
proof -
  let ?n = "unat (val_size v)" let ?c = "unat (capability v)"
  have "vsize v \<le> cap \<and> xs = map (val_at ?n bs') [0..<unat (vsize v)]"
  proof (cases "vbuf v = NULL")
    case True
    then show ?thesis using v by (simp add: vec_def)
  next
    case False
    then obtain bs where b: "blocks m (vbuf v) = Some bs" "?n * ?c \<le> length bs" "vsize v \<le> capability v"
      "xs = map (val_at ?n bs) [0..<unat (vsize v)]" using v by (auto simp: vec_def)
    have "val_at ?n bs' i = val_at ?n bs i" if "i < unat (vsize v)" for i
    proof -
      have "i < ?c" using that b(3) by (simp add: word_le_nat_alt)
      then have "?n * i + ?n \<le> ?n * ?c" by (rule index_bound) simp
      then have "val_at ?n zs i = take ?n (drop (?n * i) (take (?n * ?c) zs))" for zs :: "byte list"
        by (simp add: val_at_def drop_take min_def)
      then show ?thesis using same [OF False b(1)] by simp
    qed
    then show ?thesis using b(3,4) bs'(4) by simp
  qed
  then show ?thesis using v m' bs' by (simp add: vec_def)
qed

lemma grow_ok:
  assumes v: "vec m v xs" and full: "vsize v = capability v" and nm: "\<not> moves m v" and nd: "\<not> denied m v"
    and cap: "capability v \<le> cap" "unat (val_size v) * unat cap < 2 ^ 32" "0 < cap"
  shows "\<exists>m1 b m2 v2. regrow m (vbuf v) (cap * val_size v) = Some (m1, b) \<and> b \<noteq> NULL \<and>
    move_block m1 v b (val_size v * capability v) = Some (m2, v2) \<and> v2 = v\<lparr>vbuf := b\<rparr> \<and> vec m2 (v2\<lparr>capability := cap\<rparr>) xs"
proof -
  let ?n = "unat (val_size v)" let ?c = "unat (capability v)" let ?N = "cap * val_size v"
  have N: "unat ?N = ?n * unat cap" using offset_mult [of "val_size v" cap] cap(2) by (simp add: mult.commute)
  have n0: "0 < ?n" "0 < unat cap" using v cap(3) by (auto simp: vec_def word_gt_0 unat_gt_0)
  then have N0: "?N \<noteq> 0" using N by (auto simp: unat_gt_0 [symmetric])
  have cc: "?c \<le> unat cap" using cap(1) by (simp add: word_le_nat_alt)
  then have nc: "?n * ?c \<le> ?n * unat cap" by (rule mult_le_mono2)
  have M: "unat (val_size v * capability v) = ?n * ?c" by (rule offset_mult [OF le_less_trans [OF nc cap(2)]])
  have h: "0 < vnext m" "blocks m NULL = None" "\<forall>a \<ge> vnext m. blocks m a = None" using v by (auto simp: vec_def)
  obtain m1 r where o1: "next_outcome m = (m1, r)" by fastforce
  note f1 = next_outcome_facts [OF o1]
  have fresh_case: ?thesis
    if rg: "regrow m (vbuf v) ?N = Some (new_block m0 zs)" and m0: "blocks m0 = blocks m" "vnext m0 = vnext m" and zs: "length zs = unat ?N" for m0 zs
  proof -
    let ?b = "vnext m"
    define m1' where "m1' = fst (new_block m0 zs)"
    have nb: "new_block m0 zs = (m1', ?b)" "blocks m1' = (blocks m)(?b \<mapsto> zs)" "vnext m1' = Suc ?b"
      using m0 by (simp_all add: new_block_def m1'_def)
    show ?thesis
    proof (cases "vbuf v = NULL")
      case True
      then have c0: "capability v = 0" using v by (simp add: vec_def)
      have "move_block m1' v ?b (val_size v * capability v) = Some (m1', v\<lparr>vbuf := ?b\<rparr>)"
        using True h(1) c0 by (simp add: move_block_def load_def store_def free_v_def)
      moreover have "vec m1' ((v\<lparr>vbuf := ?b\<rparr>)\<lparr>capability := cap\<rparr>) xs" using True h nb zs N cap c0
        using vec_replace [OF v, of m1' ?b zs cap] by simp
      ultimately show ?thesis using rg nb(1) h(1) by auto
    next
      case False
      then obtain bs where b: "blocks m (vbuf v) = Some bs" "?n * ?c \<le> length bs" using v by (auto simp: vec_def)
      have ne: "vbuf v \<noteq> ?b" using h(3) b(1) by auto
      define ys where "ys = take (?n * ?c) bs"
      define m2 where "m2 = m1'\<lparr>blocks := (blocks m1')(?b \<mapsto> ys @ drop (?n * ?c) zs, vbuf v := None)\<rparr>"
      have l: "load m1' (vbuf v) 0 (val_size v * capability v) = Some ys"
        using b ne M nb(2) by (auto simp: load_def ys_def unat_eq_zero split: if_splits)
      have "length ys = ?n * ?c" using b(2) by (simp add: ys_def)
      then have "store m1' ?b 0 ys = Some (m1'\<lparr>blocks := (blocks m1')(?b \<mapsto> ys @ drop (?n * ?c) zs)\<rparr>)"
        using nb(2) zs N nc by (auto simp: store_def)
      then have "move_block m1' v ?b (val_size v * capability v) = Some (m2, v\<lparr>vbuf := ?b\<rparr>)"
        using l ne b(1) False nb(2) by (simp add: move_block_def free_v_def m2_def)
      moreover have "vec m2 (v\<lparr>vbuf := ?b, capability := cap\<rparr>) xs"
      proof (rule vec_replace [OF v, where bs'="ys @ drop (?n * ?c) zs"])
        show "\<forall>a \<ge> vnext m2. blocks m2 a = None" "blocks m2 NULL = None" using nb h by (auto simp: m2_def)
        show "length (ys @ drop (?n * ?c) zs) = ?n * unat cap" "length (ys @ drop (?n * ?c) zs) < 2 ^ 32"
          using \<open>length ys = ?n * ?c\<close> zs N nc cap(2) by auto
        show "take (?n * ?c) (ys @ drop (?n * ?c) zs) = take (?n * ?c) bs'" if "blocks m (vbuf v) = Some bs'" for bs'
          using that b \<open>length ys = ?n * ?c\<close> by (simp add: ys_def)
      qed (use nb h ne cap in \<open>simp_all add: m2_def\<close>)
      then have "vec m2 ((v\<lparr>vbuf := ?b\<rparr>)\<lparr>capability := cap\<rparr>) xs" by simp
      ultimately show ?thesis using rg nb(1) h(1) by (intro exI [of _ m1'] exI [of _ ?b] exI [of _ m2]) simp
    qed
  qed
  have live: "vbuf v = NULL \<or> blocks m (vbuf v) \<noteq> None" using v by (auto simp: vec_def split: if_splits)
  show ?thesis
  proof (cases r)
    case Deny
    then have "outcomes m = Deny # outcomes m1" using o1 by (auto simp: next_outcome_def split: list.splits)
    obtain m2 r2 where o2: "next_outcome m1 = (m2, r2)" by fastforce
    moreover have "r2 \<noteq> Deny"
      using nd full o2 \<open>outcomes m = Deny # outcomes m1\<close> by (auto simp: denied_def next_outcome_def split: list.splits)
    ultimately obtain p j where o2: "next_outcome m1 = (m2, Grant p j)" by (cases r2) auto
    have "regrow m (vbuf v) ?N = Some (new_block m2 (replicate (unat ?N) 0))"
      using N0 live o1 Deny o2 by (simp add: regrow_def realloc_v_def calloc_v_def)
    then show ?thesis using fresh_case f1 next_outcome_facts [OF o2] by simp
  next
    case (Grant p junk)
    show ?thesis
    proof (cases "vbuf v = NULL")
      case True
      have "(blocks m1)(NULL := None) = blocks m" using f1 h(2) by auto
      then have "regrow m (vbuf v) ?N = Some (new_block (m1\<lparr>blocks := blocks m\<rparr>) (resize [] (unat ?N) junk))"
        using N0 o1 Grant True f1 h(1) by (simp add: regrow_def realloc_v_def new_block_def)
      then show ?thesis using fresh_case f1 by simp
    next
      case False
      then obtain bs where b: "blocks m (vbuf v) = Some bs" "?n * ?c \<le> length bs" using v by (auto simp: vec_def)
      have "p" using nm full False o1 Grant by (simp add: moves_def)
      define m2 where "m2 = m1\<lparr>blocks := (blocks m1)(vbuf v \<mapsto> resize bs (unat ?N) junk)\<rparr>"
      have "regrow m (vbuf v) ?N = Some (m2, vbuf v)" using N0 o1 Grant False b(1) \<open>p\<close> by (simp add: regrow_def realloc_v_def m2_def)
      moreover have "move_block m2 v (vbuf v) (val_size v * capability v) = Some (m2, v\<lparr>vbuf := vbuf v\<rparr>)" by (simp add: move_block_def)
      moreover have "vec m2 ((v\<lparr>vbuf := vbuf v\<rparr>)\<lparr>capability := cap\<rparr>) xs"
      proof -
        have "vec m2 (v\<lparr>vbuf := vbuf v, capability := cap\<rparr>) xs"
        proof (rule vec_replace [OF v, where bs'="resize bs (unat ?N) junk"])
          have "vbuf v < vnext m" using h(3) b(1) by (metis not_le option.distinct(1))
          then show "\<forall>a \<ge> vnext m2. blocks m2 a = None" using f1 h(3) by (auto simp: m2_def)
          show "take (?n * ?c) (resize bs (unat ?N) junk) = take (?n * ?c) bs'" if "blocks m (vbuf v) = Some bs'" for bs'
            using that b nc N by (simp add: resize_def min_def)
        qed (use f1 h False N cap in \<open>simp_all add: m2_def\<close>)
        then show ?thesis by simp
      qed
      ultimately show ?thesis using False by blast
    qed
  qed
qed

definition grown_cap :: "vector \<Rightarrow> u32" where
  "grown_cap v = (if capability v > 0 then 2 * capability v else 32)"

lemma grown_cap_facts:
  assumes "0 < val_size v" "unat (val_size v) * max 32 (2 * unat (capability v)) < 2 ^ 32"
  shows "capability v < grown_cap v" "unat (val_size v) * unat (grown_cap v) < 2 ^ 32" "grown_cap v * val_size v \<noteq> 0"
proof -
  have "1 * max 32 (2 * unat (capability v)) \<le> unat (val_size v) * max 32 (2 * unat (capability v))"
    using assms(1) by (intro mult_le_mono1) (simp add: Suc_le_eq word_less_nat_alt)
  then have c: "2 * unat (capability v) < 2 ^ 32" using assms(2) by simp
  then have u: "unat (2 * capability v) = 2 * unat (capability v)" using offset_mult [of 2 "capability v"] by simp
  then show g: "capability v < grown_cap v" by (auto simp: grown_cap_def word_less_nat_alt)
  have "unat (grown_cap v) \<le> max 32 (2 * unat (capability v))" using u by (simp add: grown_cap_def)
  then show l: "unat (val_size v) * unat (grown_cap v) < 2 ^ 32" using assms(2) by (metis le_less_trans mult_le_mono2)
  have "unat (grown_cap v * val_size v) = unat (val_size v) * unat (grown_cap v)"
    using offset_mult [of "grown_cap v" "val_size v"] l by (simp add: mult.commute)
  moreover have "0 < unat (val_size v) * unat (grown_cap v)" using assms(1) g by (auto simp: word_less_nat_alt)
  ultimately show "grown_cap v * val_size v \<noteq> 0" by (metis less_irrefl unat_0)
qed

lemma push_moved:
  assumes v: "vec m v xs" and mv: "moves m v" and lim: "unat (val_size v) * max 32 (2 * unat (capability v)) < 2 ^ 32"
  shows "vector_push_back m v val = None"
proof -
  have p: "vbuf v \<noteq> NULL" "vsize v = capability v" "0 < val_size v" using v mv by (auto simp: moves_def vec_def)
  obtain bs where b: "blocks m (vbuf v) = Some bs" using v p(1) by (auto simp: vec_def)
  have h: "0 < vnext m" "vbuf v \<noteq> vnext m" using v b by (auto simp: vec_def)
  obtain m1 junk where o1: "next_outcome m = (m1, Grant False junk)"
    using mv by (cases "next_outcome m") (auto simp: moves_def split: outcome.splits)
  note f1 = next_outcome_facts [OF o1]
  note N0 = grown_cap_facts(3) [OF p(3) lim]
  define m2 where "m2 = fst (new_block (m1\<lparr>blocks := (blocks m1)(vbuf v := None)\<rparr>) (resize bs (unat (grown_cap v * val_size v)) junk))"
  have "regrow m (vbuf v) (grown_cap v * val_size v) = Some (m2, vnext m)"
    using N0 p(1) b o1 f1 h(1) by (simp add: regrow_def realloc_v_def m2_def new_block_def)
  moreover have "blocks m2 (vbuf v) = None" using f1 h(2) by (simp add: m2_def new_block_def)
  then have "move_block m2 v (vnext m) k = None" for k
    using p(1) h(2) by (auto simp: move_block_def load_def store_def free_v_def split: bind_splits)
  ultimately show ?thesis using p(2) h(1) by (simp add: vector_push_back_def grown_cap_def [symmetric] Let_def)
qed

lemma push_denied:
  assumes v: "vec m v xs" and d: "denied m v" and lim: "unat (val_size v) * max 32 (2 * unat (capability v)) < 2 ^ 32"
  shows "\<exists>m'. vector_push_back m v val = Some (m', v) \<and> vec m' v xs"
proof -
  obtain rs where o1: "outcomes m = Deny # Deny # rs" "vsize v = capability v" using d by (auto simp: denied_def)
  have p: "0 < val_size v" using v by (simp add: vec_def)
  note N0 = grown_cap_facts(3) [OF p lim]
  have live: "vbuf v = NULL \<or> blocks m (vbuf v) \<noteq> None" using v by (auto simp: vec_def split: if_splits)
  have "regrow m (vbuf v) (grown_cap v * val_size v) = Some (m\<lparr>outcomes := rs\<rparr>, NULL)"
    using N0 live o1(1) by (simp add: regrow_def realloc_v_def calloc_v_def next_outcome_def)
  then have "vector_push_back m v val = Some (m\<lparr>outcomes := rs\<rparr>, v)"
    using o1(2) by (simp add: vector_push_back_def grown_cap_def [symmetric] Let_def)
  moreover have "vec (m\<lparr>outcomes := rs\<rparr>) v xs" using v by (auto simp: vec_def split: if_splits)
  ultimately show ?thesis by blast
qed

lemma push_appends:
  assumes v: "vec m v xs" and val: "length val = unat (val_size v)" and lim: "unat (val_size v) * max 32 (2 * unat (capability v)) < 2 ^ 32"
    and n: "\<not> moves m v" "\<not> denied m v"
  shows "\<exists>m' v'. vector_push_back m v val = Some (m', v') \<and> vec m' v' (xs @ [val])"
proof (cases "vsize v = capability v")
  case True
  have p: "0 < val_size v" using v by (simp add: vec_def)
  note g = grown_cap_facts [OF p lim]
  obtain m1 b m2 where r: "regrow m (vbuf v) (grown_cap v * val_size v) = Some (m1, b)" "b \<noteq> NULL"
    "move_block m1 v b (val_size v * capability v) = Some (m2, v\<lparr>vbuf := b\<rparr>)" "vec m2 (v\<lparr>vbuf := b, capability := grown_cap v\<rparr>) xs"
    using grow_ok [OF v True n less_imp_le [OF g(1)] g(2) le_less_trans [OF word_zero_le g(1)]] by auto
  have "vsize v < grown_cap v" using True g(1) by simp
  then obtain m' where "store m2 b (val_size v * vsize v) val = Some m'"
    "vec m' (v\<lparr>vbuf := b, capability := grown_cap v, vsize := vsize v + 1\<rparr>) (xs @ [val])"
    using vec_append [OF r(4), of val] r(2) val by auto
  then show ?thesis using True r by (simp add: vector_push_back_def grown_cap_def [symmetric] Let_def)
next
  case False
  then have "vbuf v \<noteq> NULL" "vsize v < capability v" using v by (auto simp: vec_def split: if_splits)
  then show ?thesis using vec_append [OF v _ _ val] False by (auto simp: vector_push_back_def)
qed

lemma vector_get_law:
  assumes v: "vec m v xs" and i: "i < length xs"
  shows "vector_get m v (word_of_nat i) = Some (Some (xs ! i))"
proof -
  let ?n = "unat (val_size v)"
  have nn: "vbuf v \<noteq> NULL" using v i by (auto simp: vec_def split: if_splits)
  then obtain bs where b: "blocks m (vbuf v) = Some bs" "?n * unat (capability v) \<le> length bs" "length bs < 2 ^ 32"
    "vsize v \<le> capability v" "xs = map (val_at ?n bs) [0..<unat (vsize v)]" "0 < val_size v" using v by (auto simp: vec_def)
  have i': "i < unat (vsize v)" "i < unat (capability v)" using i b(4,5) by (auto simp: word_le_nat_alt)
  then have u: "unat (word_of_nat i :: u32) = i" using unat_less_pow [of "capability v"] by (intro unat_word_of_nat) simp
  have ib: "?n * i + ?n \<le> length bs" by (rule index_bound [OF i'(2) b(2)])
  then have "unat (val_size v * word_of_nat i) = ?n * i" using offset_mult [of "val_size v" "word_of_nat i"] u b(3) by simp
  then have "load m (vbuf v) (val_size v * word_of_nat i) (val_size v) = Some (xs ! i)"
    using b ib i' by (auto simp: load_def val_at_def)
  then show ?thesis using nn i'(2) u by (simp add: vector_get_def word_less_nat_alt)
qed

text \<open>
  Claim C31. Appending to a vector, in all cases of the allocator: the vector of the values \<open>xs\<close>
  becomes that of \<open>xs @ [val]\<close> when there is room, when the block is extended in place or is the first one,
  and when \<open>realloc\<close> is denied but a fresh block is granted; the value is dropped silently when
  both are denied; and when \<open>realloc\<close> succeeds by moving a block, the old block, which is freed by
  then, is read. Reading an index below the size returns the value. The new size in bytes must fit
  into 32 bits.
\<close>

theorem vector_push_back_behaviour:
  assumes v: "vec m v xs" and val: "length val = unat (val_size v)" and lim: "unat (val_size v) * max 32 (2 * unat (capability v)) < 2 ^ 32"
  shows "(moves m v \<longrightarrow> vector_push_back m v val = None) \<and>
    (denied m v \<longrightarrow> (\<exists>m'. vector_push_back m v val = Some (m', v) \<and> vec m' v xs)) \<and>
    (\<not> moves m v \<longrightarrow> \<not> denied m v \<longrightarrow> (\<exists>m' v'. vector_push_back m v val = Some (m', v') \<and> vec m' v' (xs @ [val]))) \<and>
    (\<forall>i < length xs. vector_get m v (word_of_nat i) = Some (Some (xs ! i)))"
  using push_moved [OF v _ lim] push_denied [OF v _ lim] push_appends [OF v val lim] vector_get_law [OF v] by blast

definition vec_sample :: "outcome list \<Rightarrow> vmem" where
  "vec_sample rs = \<lparr>blocks = [1 \<mapsto> [5, 6]], vnext = 2, outcomes = rs\<rparr>"

theorem vector_push_back_behaviour_witness:
  "vector_push_back (vec_sample []) \<lparr>vsize = 1, capability = 1, val_size = 2, vbuf = 1\<rparr> [7, 8] = None \<and>
   (\<exists>m' v'. vector_push_back (vec_sample [Deny]) \<lparr>vsize = 1, capability = 1, val_size = 2, vbuf = 1\<rparr> [7, 8] = Some (m', v') \<and> vec m' v' [[5, 6], [7, 8]])"
proof -
  let ?v = "\<lparr>vsize = 1, capability = 1, val_size = 2, vbuf = 1\<rparr>"
  have v: "vec (vec_sample rs) ?v [[5, 6]]" for rs by (simp add: vec_def vec_sample_def val_at_def)
  have f: "moves (vec_sample []) ?v" "\<not> moves (vec_sample [Deny]) ?v" "\<not> denied (vec_sample [Deny]) ?v"
    by (simp_all add: moves_def denied_def vec_sample_def next_outcome_def)
  have "length [7, 8 :: byte] = unat (val_size ?v)" "unat (val_size ?v) * max 32 (2 * unat (capability ?v)) < 2 ^ 32" by simp_all
  note r = vector_push_back_behaviour [OF v this]
  show ?thesis using r [of "[]"] r [of "[Deny]"] f by simp
qed

end
