(* ===== verification/KString.thy ===== *)
theory KString
  imports Prelude
begin

text \<open>
  Strings (\<open>src/kstring.c\<close>). A string owns a block of bytes with a terminating 0; a C string argument
  is the list of its bytes before the 0. Every access to a block is checked against its length. Whether
  a request of memory is granted is an argument.
\<close>

section \<open>C strings\<close>

definition nth_opt :: "'a list \<Rightarrow> nat \<Rightarrow> 'a option" where
  "nth_opt xs i = (if i < length xs then Some (xs ! i) else None)"

text \<open>The bytes before the first 0; without a 0 the block is overrun.\<close>

definition c_str :: "byte list \<Rightarrow> byte list option" where
  "c_str bs = (if 0 \<in> set bs then Some (takeWhile (\<lambda>x. x \<noteq> 0) bs) else None)"

text \<open>Writing into a block from a position on.\<close>

definition put_at :: "byte list \<Rightarrow> nat \<Rightarrow> byte list \<Rightarrow> byte list option" where
  "put_at bs p xs = do {
     _ \<leftarrow> assert_c (p + length xs \<le> length bs);
     Some (take p bs @ xs @ drop (p + length xs) bs) }"

definition strncpy :: "byte list \<Rightarrow> byte list \<Rightarrow> nat \<Rightarrow> byte list option" where
  "strncpy dst src n = put_at dst 0 (take n (src @ replicate n 0))"

definition strcat :: "byte list \<Rightarrow> byte list \<Rightarrow> byte list option" where
  "strcat dst src = do { a \<leftarrow> c_str dst; put_at dst (length a) (src @ [0]) }"

section \<open>Operations\<close>

record kstring =
  buf_size :: u32
  kstr :: "byte list option"

definition string_create :: "bool \<Rightarrow> bool \<Rightarrow> byte list option \<Rightarrow> kstring option option" where
  "string_create ok1 ok2 s =
     (if \<not> ok1 then Some None
      else case s of
        None \<Rightarrow> Some (Some \<lparr>buf_size = 0, kstr = None\<rparr>)
      | Some x \<Rightarrow>
          let n = word_of_nat (length x) + 1 in
          if \<not> ok2 then Some None
          else do {
            b \<leftarrow> strncpy (replicate (unat n) 0) x (unat n);
            Some (Some \<lparr>buf_size = n, kstr = Some b\<rparr>) })"

definition string_create_n :: "bool \<Rightarrow> bool \<Rightarrow> byte list option \<Rightarrow> u32 \<Rightarrow> kstring option option" where
  "string_create_n ok1 ok2 s n =
     (if \<not> ok1 then Some None
      else case s of
        None \<Rightarrow> Some (Some \<lparr>buf_size = 0, kstr = None\<rparr>)
      | Some x \<Rightarrow>
          if \<not> ok2 then Some None
          else do {
            b \<leftarrow> strncpy (replicate (unat (n + 1)) 0) x (unat n);
            b1 \<leftarrow> put_at b (unat n) [0];
            Some (Some \<lparr>buf_size = n + 1, kstr = Some b1\<rparr>) })"

definition string_size :: "kstring \<Rightarrow> u32 option" where
  "string_size s = (case kstr s of None \<Rightarrow> Some 0 | Some b \<Rightarrow> map_option (\<lambda>a. word_of_nat (length a)) (c_str b))"

definition string_assign_cstr :: "bool \<Rightarrow> kstring \<Rightarrow> byte list \<Rightarrow> kstring option" where
  "string_assign_cstr ok a b = do {
     len1 \<leftarrow> string_size a;
     let len2 = (word_of_nat (length b) :: u32);
     if kstr a = None \<or> len1 < len2
     then if \<not> ok then Some (a\<lparr>kstr := None\<rparr>)
       else do {
         c \<leftarrow> strncpy (replicate (unat (len2 + 1)) 0) b (unat (len2 + 1));
         Some \<lparr>buf_size = len2 + 1, kstr = Some c\<rparr> }
     else do {
       c \<leftarrow> strncpy (the (kstr a)) b (unat (len2 + 1));
       Some (a\<lparr>kstr := Some c\<rparr>) } }"

definition string_assign :: "bool \<Rightarrow> kstring \<Rightarrow> kstring \<Rightarrow> kstring option" where
  "string_assign ok a b = (case kstr b of None \<Rightarrow> Some a | Some x \<Rightarrow> do { y \<leftarrow> c_str x; string_assign_cstr ok a y })"

text \<open>\<open>ok1\<close> is for \<open>realloc\<close> and the first block, \<open>ok2\<close> for the fresh block after a failed \<open>realloc\<close>.\<close>

definition string_cat_cstr :: "bool \<Rightarrow> bool \<Rightarrow> kstring \<Rightarrow> byte list \<Rightarrow> kstring option" where
  "string_cat_cstr ok1 ok2 a b = do {
     len1 \<leftarrow> string_size a;
     let len2 = (word_of_nat (length b) :: u32);
     let len3 = len1 + len2 - 1;
     case kstr a of
       None \<Rightarrow> do {
         _ \<leftarrow> assert_c ok1;
         c \<leftarrow> strncpy (replicate (unat (len2 + 1)) 0) b (unat (len2 + 1));
         Some (a\<lparr>kstr := Some c\<rparr>) }
     | Some s \<Rightarrow>
         if buf_size a \<ge> len3
         then do { c \<leftarrow> strcat s b; Some (a\<lparr>kstr := Some c\<rparr>) }
         else if ok1
         then do {
           c \<leftarrow> strcat (take (unat len3) (s @ replicate (unat len3) 0)) b;
           Some \<lparr>buf_size = len3, kstr = Some c\<rparr> }
         else if \<not> ok2 then Some a
         else do {
           x \<leftarrow> c_str s;
           d \<leftarrow> strncpy (replicate (unat len3) 0) x (unat (len1 + 1));
           c \<leftarrow> strcat d b;
           Some \<lparr>buf_size = len3, kstr = Some c\<rparr> } }"

definition string_cat :: "bool \<Rightarrow> bool \<Rightarrow> kstring \<Rightarrow> kstring \<Rightarrow> kstring option" where
  "string_cat ok1 ok2 a b = (case kstr b of None \<Rightarrow> Some a | Some x \<Rightarrow> do { y \<leftarrow> c_str x; string_cat_cstr ok1 ok2 a y })"

text \<open>\<open>strstr\<close>: the first position at which the second string occurs.\<close>

definition strstr :: "byte list \<Rightarrow> byte list \<Rightarrow> nat option" where
  "strstr a b = List.find (\<lambda>i. take (length b) (drop i a) = b) [0..<Suc (length a)]"

definition string_find_cstr :: "kstring \<Rightarrow> byte list \<Rightarrow> nat option option" where
  "string_find_cstr a b = (case kstr a of None \<Rightarrow> Some None | Some s \<Rightarrow> map_option (\<lambda>x. strstr x b) (c_str s))"

definition string_find :: "kstring \<Rightarrow> kstring \<Rightarrow> nat option option" where
  "string_find a b = (case kstr b of None \<Rightarrow> Some None | Some s \<Rightarrow> do { y \<leftarrow> c_str s; string_find_cstr a y })"

text \<open>
  \<open>string_split\<close>: the strings as they are pushed to the vector, \<open>b\<close> the start of the piece and \<open>cur\<close>
  the position in the block \<open>s\<close>. Memory for the pieces is granted.
\<close>

definition piece :: "byte list \<Rightarrow> nat \<Rightarrow> nat \<Rightarrow> kstring option" where
  "piece s b cur = Option.bind (string_create_n True True (Some (takeWhile (\<lambda>x. x \<noteq> 0) (drop b s))) (word_of_nat (cur - b))) id"

function split_loop :: "byte list \<Rightarrow> byte list \<Rightarrow> nat \<Rightarrow> nat \<Rightarrow> kstring list \<Rightarrow> kstring list option" where
  "split_loop s delimiters b cur out =
     (case nth_opt s cur of
        None \<Rightarrow> None
      | Some c \<Rightarrow>
          if c = 0 then map_option (\<lambda>x. out @ [x]) (piece s b cur)
          else case nth_opt s (Suc cur) of
            None \<Rightarrow> None
          | Some d \<Rightarrow>
              if d \<in> set delimiters
              then case piece s b (Suc cur) of
                None \<Rightarrow> None
              | Some x \<Rightarrow> split_loop s delimiters (Suc (Suc cur)) (Suc (Suc cur)) (out @ [x])
              else split_loop s delimiters b (Suc cur) out)"
  by pat_completeness auto
termination
  by (relation "measure (\<lambda>(s, _, _, cur, _). length s - cur)") (auto simp: nth_opt_def split: if_splits)

declare split_loop.simps [simp del]

definition string_split :: "kstring \<Rightarrow> byte list \<Rightarrow> kstring list option" where
  "string_split s delimiters =
     (case kstr s of
        None \<Rightarrow> Some []
      | Some b \<Rightarrow> if delimiters = [] then Some [] else split_loop b delimiters 0 0 [])"

definition strcmp :: "byte list \<Rightarrow> byte list \<Rightarrow> int" where
  "strcmp a b = (let i = length (takeWhile (\<lambda>(x, y). x = y \<and> x \<noteq> 0) (zip (a @ [0]) (b @ [0]))) in
     uint ((a @ [0]) ! i) - uint ((b @ [0]) ! i))"

definition string_compare :: "kstring \<Rightarrow> kstring \<Rightarrow> int option" where
  "string_compare l r = do {
     a \<leftarrow> kstr l;
     b \<leftarrow> kstr r;
     x \<leftarrow> c_str a;
     y \<leftarrow> c_str b;
     Some (strcmp x y) }"

section \<open>Well-formed strings\<close>

text \<open>\<open>holds s x\<close>: the block has the recorded size and begins with the bytes \<open>x\<close> and a 0.\<close>

definition holds :: "kstring \<Rightarrow> byte list \<Rightarrow> bool" where
  "holds s x \<longleftrightarrow> 0 \<notin> set x \<and>
     (case kstr s of None \<Rightarrow> False
      | Some b \<Rightarrow> length b = unat (buf_size s) \<and> length x < length b \<and> take (Suc (length x)) b = x @ [0])"

lemma holdsE:
  assumes "holds s x"
  obtains g where "kstr s = Some (x @ 0 # g)" "unat (buf_size s) = length x + 1 + length g" "0 \<notin> set x"
proof -
  from assms obtain b where b: "kstr s = Some b" "length b = unat (buf_size s)" "take (Suc (length x)) b = x @ [0]" "0 \<notin> set x"
    by (auto simp: holds_def split: option.splits)
  have "b = x @ 0 # drop (Suc (length x)) b"
    using append_take_drop_id [of "Suc (length x)" b] b(3) by simp
  then obtain g where g: "b = x @ 0 # g" by blast
  with b show thesis by (intro that [of g]) auto
qed

lemma holdsI: "kstr s = Some (x @ 0 # g) \<Longrightarrow> unat (buf_size s) = length x + 1 + length g \<Longrightarrow> 0 \<notin> set x \<Longrightarrow> holds s x"
  by (simp add: holds_def)

lemma c_str_cons: "0 \<notin> set x \<Longrightarrow> c_str (x @ 0 # g) = Some x"
  unfolding c_str_def by (subst takeWhile_append2) auto

lemma holds_length: "holds s x \<Longrightarrow> length x + 1 < 2 ^ 32"
  using unat_less_pow [of "buf_size s"] by (elim holdsE) simp

lemma string_size_holds: "holds s x \<Longrightarrow> string_size s = Some (word_of_nat (length x))"
  by (elim holdsE) (simp add: string_size_def c_str_cons)

lemma unat_len_Suc: "length x + 1 < 2 ^ 32 \<Longrightarrow> unat (word_of_nat (length x) + 1 :: u32) = length x + 1"
  by (simp add: unat_word_ariths unat_word_of_nat)

text \<open>Writing a C string with its terminator at the end of another.\<close>

lemma put_at_app: "put_at (x @ zs) (length x) ys = (if length ys \<le> length zs then Some (x @ ys @ drop (length ys) zs) else None)"
  by (simp add: put_at_def)

lemma strcat_app:
  "0 \<notin> set x \<Longrightarrow> strcat (x @ 0 # g) y = (if length y \<le> length g then Some (x @ y @ 0 # drop (length y) g) else None)"
  by (simp add: strcat_def c_str_cons put_at_app)

lemma strncpy_whole:
  "strncpy d x (Suc (length x)) = (if length x < length d then Some (x @ 0 # drop (Suc (length x)) d) else None)"
  by (simp add: strncpy_def put_at_def)

lemma string_create_holds:
  assumes "0 \<notin> set x" "length x + 1 < 2 ^ 32"
  shows "\<exists>s. string_create True True (Some x) = Some (Some s) \<and> holds s x"
  using assms strncpy_whole [of "replicate (length x + 1) 0" x]
  by (simp add: string_create_def Let_def unat_len_Suc holds_def)

lemma string_create_n_holds:
  assumes "0 \<notin> set x" "unat n + 1 < 2 ^ 32" "unat n \<le> length x"
  shows "\<exists>s. string_create_n True True (Some x) n = Some (Some s) \<and> holds s (take (unat n) x)"
proof -
  have n1: "unat (n + 1) = unat n + 1"
    using assms(2) by (simp add: unat_word_ariths)
  have "drop (unat n) (0 # replicate (unat n) 0) = [0::byte]"
    using drop_replicate [of "unat n" "Suc (unat n)" "0::byte"] by simp
  then have a: "strncpy (replicate (unat n + 1) 0) x (unat n) = Some (take (unat n) x @ [0])"
    using assms(3) by (simp add: strncpy_def put_at_def)
  have b: "put_at (take (unat n) x @ [0]) (unat n) [0] = Some (take (unat n) x @ [0])"
    using assms(3) by (simp add: put_at_def)
  have "0 \<notin> set (take (unat n) x)" using assms(1) by (meson in_set_takeD)
  with assms(3) show ?thesis
    unfolding string_create_n_def n1 option.case a b by (simp add: a b n1 holds_def)
qed

text \<open>Assigning grows the string when it has to.\<close>

lemma string_assign_cstr_holds:
  assumes s: "holds s x \<or> kstr s = None" and y: "0 \<notin> set y" "length y + 1 < 2 ^ 32"
  shows "\<exists>s'. string_assign_cstr True s y = Some s' \<and> holds s' y"
proof -
  have ly: "unat (word_of_nat (length y) + 1 :: u32) = Suc (length y)" using unat_len_Suc [OF y(2)] by simp
  have fresh: ?thesis if "string_size s = Some n" "kstr s = None \<or> n < word_of_nat (length y)" for n
    using y that by (simp add: string_assign_cstr_def Let_def ly strncpy_whole holds_def)
  show ?thesis
  proof (cases "kstr s")
    case None
    then show ?thesis by (intro fresh [of 0]) (simp_all add: string_size_def)
  next
    case (Some b)
    with s have h: "holds s x" by simp
    note sz = string_size_holds [OF h]
    show ?thesis
    proof (cases "length x < length y")
      case True
      then have "(word_of_nat (length x) :: u32) < word_of_nat (length y)"
        using y(2) by (simp add: word_less_nat_alt unat_word_of_nat)
      then show ?thesis by (intro fresh [OF sz] disjI2)
    next
      case False
      from h obtain g where g: "kstr s = Some (x @ 0 # g)" "unat (buf_size s) = length x + 1 + length g"
        by (elim holdsE)
      have nl: "\<not> (word_of_nat (length x) :: u32) < word_of_nat (length y)"
        using False y(2) holds_length [OF h] by (simp add: word_less_nat_alt unat_word_of_nat)
      have "string_assign_cstr True s y = Some (s\<lparr>kstr := Some (y @ 0 # drop (Suc (length y)) (x @ 0 # g))\<rparr>)"
        using False by (simp add: string_assign_cstr_def sz nl g Let_def ly strncpy_whole)
      moreover have "holds (s\<lparr>kstr := Some (y @ 0 # drop (Suc (length y)) (x @ 0 # g))\<rparr>) y"
        using False g y(1) by (simp add: holds_def, arith)
      ultimately show ?thesis by blast
    qed
  qed
qed

text \<open>Appending: the room that is asked for is two bytes less than the result needs.\<close>

lemma string_cat_cstr_exact:
  assumes s: "holds s x" and y: "0 \<notin> set y" "y \<noteq> []" "length x + length y < 2 ^ 32"
  shows "length x + length y < unat (buf_size s) \<Longrightarrow> \<exists>s'. string_cat_cstr ok1 ok2 s y = Some s' \<and> holds s' (x @ y)"
    and "unat (buf_size s) \<le> length x + length y \<Longrightarrow> ok1 \<or> ok2 \<Longrightarrow> string_cat_cstr ok1 ok2 s y = None"
proof -
  from s obtain g where g: "kstr s = Some (x @ 0 # g)" "unat (buf_size s) = length x + 1 + length g" "0 \<notin> set x"
    by (elim holdsE)
  define len3 where "len3 = (word_of_nat (length x) + word_of_nat (length y) - 1 :: u32)"
  have "(1 :: u32) \<le> word_of_nat (length x + length y)"
    using y(2,3) by (simp add: word_le_nat_alt unat_word_of_nat Suc_le_eq del: of_nat_add)
  then have l3: "unat len3 = length x + length y - 1"
    using y(3) unfolding len3_def of_nat_add [symmetric] by (simp add: unat_sub unat_word_of_nat del: of_nat_add)
  have dec: "(len3 \<le> buf_size s) = (length y \<le> length g + 2)"
    using g(2) l3 y(2) by (auto simp: word_le_nat_alt)
  note unf = string_cat_cstr_def string_size_holds [OF s] Let_def g(1) len3_def [symmetric]
  {
    assume "length x + length y < unat (buf_size s)"
    then have le: "length y \<le> length g" using g(2) by simp
    then have "string_cat_cstr ok1 ok2 s y = Some (s\<lparr>kstr := Some (x @ y @ 0 # drop (length y) g)\<rparr>)"
      using g(3) dec by (simp add: unf strcat_app)
    moreover have "holds (s\<lparr>kstr := Some (x @ y @ 0 # drop (length y) g)\<rparr>) (x @ y)"
      using le g y(1) by (intro holdsI [where g = "drop (length y) g"]) auto
    ultimately show "\<exists>s'. string_cat_cstr ok1 ok2 s y = Some s' \<and> holds s' (x @ y)" by blast
  next
    assume no: "unat (buf_size s) \<le> length x + length y" and ok: "ok1 \<or> ok2"
    then have gt: "length g < length y" using g(2) by simp
    show "string_cat_cstr ok1 ok2 s y = None"
    proof (cases "len3 \<le> buf_size s")
      case True
      then show ?thesis using gt g(3) by (simp add: unf strcat_app)
    next
      case False
      then have big: "length g + 2 < length y" using dec by simp
      define h where "h = g @ replicate (length y - length g - 2) (0 :: byte)"
      have re: "take (unat len3) ((x @ 0 # g) @ replicate (unat len3) 0) = x @ 0 # h"
        using big l3 by (simp add: h_def take_Cons' min_def)
      have h: "length h < length y" using big by (simp add: h_def)
      have cp: "strncpy (replicate (unat len3) 0) x (unat (word_of_nat (length x) + 1 :: u32)) = Some (x @ 0 # drop (Suc (length x)) (replicate (unat len3) 0))"
        using unat_len_Suc [OF holds_length [OF s]] strncpy_whole [of "replicate (unat len3) 0" x] big l3 by simp
      have h2: "length (drop (Suc (length x)) (replicate (unat len3) (0 :: byte))) < length y"
        using l3 big by simp
      show ?thesis
      proof (cases ok1)
        case True
        with False h g(3) show ?thesis by (simp add: unf re [simplified] strcat_app)
      next
        case F: False
        with False ok h2 g(3) show ?thesis by (simp add: unf c_str_cons cp strcat_app)
      qed
    qed
  }
qed

section \<open>Splitting\<close>

text \<open>
  What \<open>string_split\<close> computes: the first byte of a piece is not compared with the delimiters.
\<close>

fun pieces :: "byte list \<Rightarrow> byte list \<Rightarrow> byte list \<Rightarrow> byte list list" where
  "pieces ds p [] = [p]"
| "pieces ds p [c] = [p @ [c]]"
| "pieces ds p (c # d # q) = (if d \<in> set ds then (p @ [c]) # pieces ds [] q else pieces ds (p @ [c]) (d # q))"

lemma piece_holds:
  assumes "0 \<notin> set p" "0 \<notin> set q" "length p + 1 < 2 ^ 32"
  shows "\<exists>x. piece (pre @ p @ q @ 0 # g) (length pre) (length pre + length p) = Some x \<and> holds x p"
proof -
  have "takeWhile (\<lambda>x. x \<noteq> 0) (p @ q @ 0 # g) = p @ q"
    using assms(1,2) by (simp add: takeWhile_append takeWhile_eq_all_conv; fastforce)
  moreover have "unat (word_of_nat (length p) :: u32) = length p"
    using assms(3) by (intro unat_word_of_nat) simp
  ultimately show ?thesis
    using string_create_n_holds [of "p @ q" "word_of_nat (length p)"] assms
    by (auto simp: piece_def)
qed

lemma nth_opt_app: "nth_opt (xs @ c # ys) (length xs) = Some c"
  by (simp add: nth_opt_def)

lemma split_loop_pieces:
  assumes "0 \<notin> set p" "0 \<notin> set q" "0 \<notin> set ds" "length p + length q + 1 < 2 ^ 32"
  shows "\<exists>xs. split_loop (pre @ p @ q @ 0 # g) ds (length pre) (length pre + length p) out = Some (out @ xs) \<and>
    list_all2 holds xs (pieces ds p q)"
  using assms
proof (induction ds p q arbitrary: pre out rule: pieces.induct)
  case (1 ds p)
  obtain x where x: "piece (pre @ p @ 0 # g) (length pre) (length pre + length p) = Some x" "holds x p"
    using piece_holds [of p "[]" pre g] 1 by auto
  show ?case
    using x nth_opt_app [of "pre @ p" 0 g] by (subst split_loop.simps) simp
next
  case (2 ds p c)
  obtain x where x: "piece (pre @ (p @ [c]) @ [] @ 0 # g) (length pre) (length pre + length (p @ [c])) = Some x" "holds x (p @ [c])"
    using piece_holds [of "p @ [c]" "[]" pre g] 2 by auto
  have n: "nth_opt (pre @ p @ c # 0 # g) (length pre + length p) = Some c"
    "nth_opt (pre @ p @ c # 0 # g) (Suc (length pre + length p)) = Some 0"
    using nth_opt_app [of "pre @ p" c "0 # g"] nth_opt_app [of "pre @ p @ [c]" 0 g] by simp_all
  show ?case
    using x n 2 by (subst split_loop.simps) (simp, subst split_loop.simps, simp)
next
  case (3 ds p c d q)
  have n: "nth_opt (pre @ p @ c # d # q @ 0 # g) (length pre + length p) = Some c"
    "nth_opt (pre @ p @ c # d # q @ 0 # g) (Suc (length pre + length p)) = Some d"
    using nth_opt_app [of "pre @ p" c "d # q @ 0 # g"] nth_opt_app [of "pre @ p @ [c]" d "q @ 0 # g"] by simp_all
  show ?case
  proof (cases "d \<in> set ds")
    case True
    obtain x where x: "piece (pre @ (p @ [c]) @ (d # q) @ 0 # g) (length pre) (length pre + length (p @ [c])) = Some x" "holds x (p @ [c])"
      using piece_holds [of "p @ [c]" "d # q" pre g] 3(3-) by auto
    obtain xs where xs: "split_loop ((pre @ p @ [c, d]) @ [] @ q @ 0 # g) ds (length (pre @ p @ [c, d])) (length (pre @ p @ [c, d]) + length ([] :: byte list)) (out @ [x]) = Some ((out @ [x]) @ xs)"
      "list_all2 holds xs (pieces ds [] q)"
      using 3(1) [OF True, of "pre @ p @ [c, d]" "out @ [x]"] 3(3-) by auto
    show ?thesis
      using x xs n 3(3-) True by (subst split_loop.simps) simp
  next
    case False
    obtain xs where xs: "split_loop (pre @ (p @ [c]) @ (d # q) @ 0 # g) ds (length pre) (length pre + length (p @ [c])) out = Some (out @ xs)"
      "list_all2 holds xs (pieces ds (p @ [c]) (d # q))"
      using 3(2) [OF False, of pre out] 3(3-) by auto
    show ?thesis
      using xs n 3(3-) False by (subst split_loop.simps) simp
  qed
qed

text \<open>Words joined by single delimiters.\<close>

fun join_words :: "byte list \<Rightarrow> (byte \<times> byte list) list \<Rightarrow> byte list" where
  "join_words w [] = w"
| "join_words w ((d, v) # r) = w @ d # join_words v r"

lemma pieces_word:
  assumes "set v \<inter> set ds = {}" "d \<in> set ds"
  shows "pieces ds p (c # v @ d # q) = (p @ c # v) # pieces ds [] q"
  using assms by (induction v arbitrary: p c) auto

lemma pieces_last:
  assumes "set v \<inter> set ds = {}"
  shows "pieces ds p (c # v) = [p @ c # v]"
  using assms by (induction v arbitrary: p c) auto

lemma pieces_join:
  assumes "\<forall>v\<in>set (w # map snd r). v \<noteq> [] \<and> set v \<inter> set ds = {}" "fst ` set r \<subseteq> set ds"
  shows "pieces ds [] (join_words w r) = w # map snd r"
  using assms
proof (induction r arbitrary: w)
  case Nil
  then show ?case by (cases w) (simp_all add: pieces_last)
next
  case (Cons x r)
  then show ?case by (cases w; cases x) (simp_all add: pieces_word)
qed

section \<open>Properties\<close>

text \<open>
  Claim C29. Assignment keeps strings well formed. Whatever a string held before, also when it held no
  block, assigning a well-formed string to it with memory granted runs without an access outside a
  block and gives a string whose block has the recorded size and holds exactly the assigned bytes and
  a terminator; its size is their number and it compares equal to the source.
\<close>

theorem string_assign_typed:
  assumes "holds a x \<or> kstr a = None" and "holds b y"
  shows "\<exists>a'. string_assign True a b = Some a' \<and> holds a' y \<and>
    string_size a' = Some (word_of_nat (length y)) \<and> string_compare a' b = Some 0"
proof -
  from assms(2) obtain g where g: "kstr b = Some (y @ 0 # g)" "0 \<notin> set y" by (elim holdsE)
  obtain a' where a': "string_assign_cstr True a y = Some a'" "holds a' y"
    using string_assign_cstr_holds [OF assms(1) g(2) holds_length [OF assms(2)]] by blast
  from a'(2) obtain g' where g': "kstr a' = Some (y @ 0 # g')" by (elim holdsE)
  have "string_compare a' b = Some 0"
    using g g' by (simp add: string_compare_def c_str_cons strcmp_def Let_def)
  with a' g show ?thesis
    by (simp add: string_assign_def c_str_cons string_size_holds)
qed

theorem string_assign_typed_witness:
  "\<exists>a'. string_assign True \<lparr>buf_size = 2, kstr = Some [120, 0]\<rparr> \<lparr>buf_size = 4, kstr = Some [97, 98, 0, 7]\<rparr> = Some a' \<and>
    holds a' [97, 98] \<and> string_size a' = Some 2 \<and> string_compare a' \<lparr>buf_size = 4, kstr = Some [97, 98, 0, 7]\<rparr> = Some 0"
  using string_assign_typed [of "\<lparr>buf_size = 2, kstr = Some [120, 0]\<rparr>" "[120]" "\<lparr>buf_size = 4, kstr = Some [97, 98, 0, 7]\<rparr>" "[97, 98]"]
  by (simp add: holds_def)

text \<open>
  Claim C30. Concatenation of a non-empty string to a well-formed one is right exactly when the result with its
  terminator already fits the block: then the string holds both parts. Otherwise the block that is
  reallocated (or kept) is too small, because the required size is computed as the sum of the
  lengths minus 1 instead of plus 1, and \<open>strcat\<close> writes outside it, as soon as one of the requests
  for memory is granted.
\<close>

theorem string_cat_behaviour:
  assumes "holds a x" and "holds b y" and "y \<noteq> []" and "length x + length y < 2 ^ 32"
  shows "(length x + length y < unat (buf_size a) \<longrightarrow>
       (\<exists>a'. string_cat ok1 ok2 a b = Some a' \<and> holds a' (x @ y))) \<and>
     (unat (buf_size a) \<le> length x + length y \<and> (ok1 \<or> ok2) \<longrightarrow> string_cat ok1 ok2 a b = None)"
proof -
  from assms(2) obtain g where g: "kstr b = Some (y @ 0 # g)" "0 \<notin> set y" by (elim holdsE)
  then have "string_cat ok1 ok2 a b = string_cat_cstr ok1 ok2 a y"
    by (simp add: string_cat_def c_str_cons)
  then show ?thesis
    using string_cat_cstr_exact [OF assms(1) g(2) assms(3,4), of ok1 ok2] by auto
qed

theorem string_cat_behaviour_witness:
  "(\<exists>a'. string_cat True True \<lparr>buf_size = 4, kstr = Some [120, 0, 0, 0]\<rparr> \<lparr>buf_size = 3, kstr = Some [97, 98, 0]\<rparr> = Some a' \<and> holds a' [120, 97, 98]) \<and>
   string_cat True True \<lparr>buf_size = 2, kstr = Some [120, 0]\<rparr> \<lparr>buf_size = 3, kstr = Some [97, 98, 0]\<rparr> = None"
  using string_cat_behaviour [of "\<lparr>buf_size = 4, kstr = Some [120, 0, 0, 0]\<rparr>" "[120]" "\<lparr>buf_size = 3, kstr = Some [97, 98, 0]\<rparr>" "[97, 98]" True True]
    string_cat_behaviour [of "\<lparr>buf_size = 2, kstr = Some [120, 0]\<rparr>" "[120]" "\<lparr>buf_size = 3, kstr = Some [97, 98, 0]\<rparr>" "[97, 98]" True True]
  by (simp add: holds_def)

text \<open>
  Claim C28. Splitting is the inverse of joining: a string made of non-empty words without delimiters,
  joined by single delimiters, is split into well-formed strings that hold exactly these words, in
  order, and the loop ends. (With two delimiters in a row the second would start a piece, as the first byte of a
  piece is not compared.)
\<close>

theorem string_split_words:
  assumes "holds s (join_words w r)" and "0 \<notin> set ds" and "ds \<noteq> []" and "fst ` set r \<subseteq> set ds"
    and "\<forall>v\<in>set (w # map snd r). v \<noteq> [] \<and> set v \<inter> set ds = {}"
  shows "\<exists>xs. string_split s ds = Some xs \<and> list_all2 holds xs (w # map snd r)"
proof -
  from assms(1) obtain g where g: "kstr s = Some (join_words w r @ 0 # g)" "0 \<notin> set (join_words w r)"
    by (elim holdsE)
  have "\<exists>xs. split_loop ([] @ [] @ join_words w r @ 0 # g) ds (length ([] :: byte list)) (length ([] :: byte list) + length ([] :: byte list)) [] = Some ([] @ xs) \<and>
    list_all2 holds xs (pieces ds [] (join_words w r))"
    using holds_length [OF assms(1)] by (intro split_loop_pieces) (use g assms(2) in auto)
  then show ?thesis
    using pieces_join [OF assms(5,4)] assms(3) g(1) by (simp add: string_split_def)
qed

theorem string_split_words_witness:
  "\<exists>xs. string_split \<lparr>buf_size = 6, kstr = Some [97, 98, 44, 99, 0, 0]\<rparr> [44, 59] = Some xs \<and> list_all2 holds xs [[97, 98], [99]]"
  using string_split_words [of "\<lparr>buf_size = 6, kstr = Some [97, 98, 44, 99, 0, 0]\<rparr>" "[97, 98]" "[(44, [99])]" "[44, 59]"]
  by (simp add: holds_def)

end
