(* ===== verification/Sync.thy ===== *)
theory Sync
  imports Prelude
begin

text \<open>
  The barrier of \<open>src/sync.c\<close> and the suspension of threads of \<open>src/thread.c\<close> over a mutex and a
  condition variable, under any interleaving. A call is cut at its calls of the pthread functions;
  what it does between them happens under the mutex. A wait on the condition may end without a signal.
\<close>

section \<open>A mutex with a condition variable\<close>

text \<open>\<open>holder\<close> is the thread that holds the mutex; \<open>sleepers\<close> wait for a signal.\<close>

record monitor =
  holder :: "nat option"
  sleepers :: "nat set"

definition monitor_create :: monitor where
  "monitor_create = \<lparr>holder = None, sleepers = {}\<rparr>"

text \<open>\<open>None\<close>: the caller has to wait for the mutex.\<close>

definition lock_m :: "nat \<Rightarrow> 'a monitor_scheme \<Rightarrow> 'a monitor_scheme option" where
  "lock_m t m = (if holder m = None then Some (m\<lparr>holder := Some t\<rparr>) else None)"

definition unlock_m :: "'a monitor_scheme \<Rightarrow> 'a monitor_scheme" where
  "unlock_m m = m\<lparr>holder := None\<rparr>"

definition condition_wait :: "nat \<Rightarrow> 'a monitor_scheme \<Rightarrow> 'a monitor_scheme" where
  "condition_wait t m = m\<lparr>holder := None, sleepers := insert t (sleepers m)\<rparr>"

text \<open>The second half of a wait: after the signal the mutex is taken again.\<close>

definition condition_resume :: "nat \<Rightarrow> 'a monitor_scheme \<Rightarrow> 'a monitor_scheme option" where
  "condition_resume t m = (if t \<in> sleepers m then None else lock_m t m)"

definition condition_broadcast :: "'a monitor_scheme \<Rightarrow> 'a monitor_scheme" where
  "condition_broadcast m = m\<lparr>sleepers := {}\<rparr>"

text \<open>A signal wakes one sleeper, if there is one; the system chooses (\<open>w\<close>).\<close>

definition condition_signal :: "nat \<Rightarrow> 'a monitor_scheme \<Rightarrow> 'a monitor_scheme option" where
  "condition_signal w m =
     (if sleepers m = {} then Some m else if w \<in> sleepers m then Some (m\<lparr>sleepers := sleepers m - {w}\<rparr>) else None)"

section \<open>The discipline of waiting\<close>

text \<open>
  A client that goes to sleep only while a condition holds and wakes everybody when it ends the
  condition leaves nobody asleep without the condition.
\<close>

locale wait_discipline =
  fixes start :: "'s \<Rightarrow> bool" and step :: "'s \<Rightarrow> 's \<Rightarrow> bool" and good :: "'s \<Rightarrow> bool"
    and asleep :: "'s \<Rightarrow> nat set" and must_wait :: "'s \<Rightarrow> bool"
  assumes start_ok: "start s \<Longrightarrow> good s \<and> asleep s = {}"
    and step_good: "good s \<Longrightarrow> step s s' \<Longrightarrow> good s'"
    and sleep_only: "good s \<Longrightarrow> step s s' \<Longrightarrow> \<not> asleep s' \<subseteq> asleep s \<Longrightarrow> must_wait s'"
    and wake_all: "good s \<Longrightarrow> step s s' \<Longrightarrow> must_wait s \<Longrightarrow> \<not> must_wait s' \<Longrightarrow> asleep s' = {}"
begin

lemma reach_good: "start s \<Longrightarrow> step\<^sup>*\<^sup>* s s' \<Longrightarrow> good s'"
  by (rotate_tac 1, induction rule: rtranclp_induct) (auto dest: start_ok step_good)

lemma no_lost_wakeup:
  assumes "start s" "step\<^sup>*\<^sup>* s s'" "asleep s' \<noteq> {}"
  shows "must_wait s'"
  using assms(2,3)
proof (induction rule: rtranclp_induct)
  case base
  then show ?case using start_ok [OF assms(1)] by simp
next
  case (step y z)
  have y: "good y" using reach_good [OF assms(1) step(1)] .
  show ?case
  proof (cases "asleep z \<subseteq> asleep y")
    case True
    with step have "must_wait y" by auto
    then show ?thesis using wake_all [OF y step(2)] step(4) by blast
  next
    case False
    then show ?thesis using sleep_only [OF y step(2)] by simp
  qed
qed

end

section \<open>The barrier\<close>

record barrior = monitor +
  wait_count :: int

definition barrior_create :: "int \<Rightarrow> barrior" where
  "barrior_create n = \<lparr>holder = None, sleepers = {}, wait_count = n\<rparr>"

text \<open>The points of a call of \<open>barrior_wait\<close>.\<close>

datatype bpc = BOut | BEnter | BDec | BTest | BAsleep | BLeave | BReturned

fun barrior_wait :: "nat \<Rightarrow> bpc \<Rightarrow> barrior \<Rightarrow> (barrior \<times> bpc) option" where
  "barrior_wait t BEnter b = do { b1 \<leftarrow> lock_m t b; Some (b1, BDec) }"
| "barrior_wait t BDec b = do {
     n \<leftarrow> i32 (wait_count b - 1);
     let b1 = b\<lparr>wait_count := n\<rparr>;
     Some (if n = 0 then (condition_broadcast b1, BLeave) else (b1, BTest)) }"
| "barrior_wait t BTest b = Some (if wait_count b > 0 then (condition_wait t b, BAsleep) else (b, BLeave))"
| "barrior_wait t BAsleep b = do { b1 \<leftarrow> condition_resume t b; Some (b1, BTest) }"
| "barrior_wait t BLeave b = Some (unlock_m b, BReturned)"
| "barrior_wait t p b = None"

text \<open>\<open>arrived\<close> records who has counted down; each of the \<open>N\<close> threads calls once.\<close>

record bsys =
  bar :: barrior
  bpcs :: "nat \<Rightarrow> bpc"
  arrived :: "nat set"

definition bsys_init :: "int \<Rightarrow> bsys" where
  "bsys_init n = \<lparr>bar = barrior_create n, bpcs = (\<lambda>_. BOut), arrived = {}\<rparr>"

text \<open>Steps inside the calls.\<close>

inductive bwork :: "bsys \<Rightarrow> bsys \<Rightarrow> bool" where
  "barrior_wait t (bpcs s t) (bar s) = Some (b, p) \<Longrightarrow>
     bwork s (s\<lparr>bar := b, bpcs := (bpcs s)(t := p), arrived := (if bpcs s t = BDec then insert t (arrived s) else arrived s)\<rparr>)"

inductive bstep :: "nat \<Rightarrow> bsys \<Rightarrow> bsys \<Rightarrow> bool" for N where
  bcall: "t < N \<Longrightarrow> bpcs s t = BOut \<Longrightarrow> bstep N s (s\<lparr>bpcs := (bpcs s)(t := BEnter)\<rparr>)"
| bwork: "bwork s s' \<Longrightarrow> bstep N s s'"
| bspurious: "bstep N s (s\<lparr>bar := (bar s)\<lparr>sleepers := sleepers (bar s) - {t}\<rparr>\<rparr>)"

text \<open>The invariant: who holds the mutex is inside, sleepers are asleep, and the counter tells who arrived.\<close>

definition inside :: "bpc \<Rightarrow> bool" where
  "inside p \<longleftrightarrow> p \<in> {BDec, BTest, BLeave}"

definition past :: "bpc \<Rightarrow> bool" where
  "past p \<longleftrightarrow> p \<in> {BTest, BAsleep, BLeave, BReturned}"

definition bar_inv :: "int \<Rightarrow> nat \<Rightarrow> bsys \<Rightarrow> bool" where
  "bar_inv n N s \<longleftrightarrow>
     (\<forall>t. (holder (bar s) = Some t) = inside (bpcs s t)) \<and>
     (\<forall>t \<in> sleepers (bar s). bpcs s t = BAsleep) \<and>
     (\<forall>t. (t \<in> arrived s) = past (bpcs s t)) \<and>
     (\<forall>t. bpcs s t \<noteq> BOut \<longrightarrow> t < N) \<and>
     wait_count (bar s) = n - int (card (arrived s)) \<and>
     (\<forall>t. bpcs s t \<in> {BLeave, BReturned} \<longrightarrow> wait_count (bar s) \<le> 0)"

lemma bar_inv_init: "bar_inv n N (bsys_init n)"
  by (simp add: bar_inv_def bsys_init_def barrior_create_def inside_def past_def)

lemma bar_inv_arrived:
  assumes "bar_inv n N s"
  shows "arrived s \<subseteq> {..<N}" "finite (arrived s)" "card (arrived s) \<le> N"
proof -
  show a: "arrived s \<subseteq> {..<N}" using assms by (force simp: bar_inv_def past_def)
  then show "finite (arrived s)" by (rule finite_subset) simp
  show "card (arrived s) \<le> N" using card_mono [OF _ a] by simp
qed

lemmas bar_defs = inside_def past_def lock_m_def unlock_m_def condition_wait_def condition_resume_def condition_broadcast_def

lemma bar_inv_work:
  assumes "bar_inv n N s" "bwork s s'"
  shows "bar_inv n N s'"
  using assms(2)
proof cases
  case (1 t b p)
  note inv = assms(1) [unfolded bar_inv_def, THEN conjunct1] assms(1) [unfolded bar_inv_def, THEN conjunct2]
  have mutex: "(holder (bar s') = Some x) = inside (bpcs s' x)" for x
    using 1 inv(1) [rule_format, of t] inv(1) [rule_format, of x]
    by (cases "bpcs s t") (auto simp: bar_defs i32_def Let_def split: if_splits option.splits Option.bind_splits)
  have "t \<notin> arrived s \<Longrightarrow> card (insert t (arrived s)) = card (arrived s) + 1"
    using bar_inv_arrived(2) [OF assms(1)] by simp
  then have "(\<forall>t \<in> sleepers (bar s'). bpcs s' t = BAsleep) \<and> (\<forall>t. (t \<in> arrived s') = past (bpcs s' t)) \<and>
     (\<forall>t. bpcs s' t \<noteq> BOut \<longrightarrow> t < N) \<and> wait_count (bar s') = n - int (card (arrived s')) \<and>
     (\<forall>t. bpcs s' t \<in> {BLeave, BReturned} \<longrightarrow> wait_count (bar s') \<le> 0)"
    using 1 inv(2)
    by (cases "bpcs s t") (auto simp: bar_defs i32_def Let_def split: if_splits option.splits Option.bind_splits)
  with mutex show ?thesis unfolding bar_inv_def by blast
qed

lemma bar_inv_step: "bar_inv n N s \<Longrightarrow> bstep N s s' \<Longrightarrow> bar_inv n N s'"
proof (erule bstep.cases, goal_cases)
  case 1 then show ?case by (auto simp: bar_inv_def inside_def past_def)
next
  case 2 then show ?case by (metis bar_inv_work)
next
  case 3 then show ?case by (auto simp: bar_inv_def)
qed

interpretation bw: wait_discipline "\<lambda>s. s = bsys_init n" "bstep N" "bar_inv n N" "\<lambda>s. sleepers (bar s)" "\<lambda>s. 0 < wait_count (bar s)"
proof
  show "s = bsys_init n \<Longrightarrow> bar_inv n N s \<and> sleepers (bar s) = {}" for s
    using bar_inv_init by (simp add: bsys_init_def barrior_create_def)
  show "bar_inv n N s \<Longrightarrow> bstep N s s' \<Longrightarrow> bar_inv n N s'" for s s' by (rule bar_inv_step)
  have w: "(\<not> sleepers (bar s') \<subseteq> sleepers (bar s) \<longrightarrow> 0 < wait_count (bar s')) \<and>
      (0 < wait_count (bar s) \<and> \<not> 0 < wait_count (bar s') \<longrightarrow> sleepers (bar s') = {})" if "bwork s s'" for s s'
    using that
  proof cases
    case (1 t b p)
    then show ?thesis
      by (cases "bpcs s t") (auto simp: bar_defs i32_def Let_def split: if_splits option.splits Option.bind_splits)
  qed
  show "bstep N s s' \<Longrightarrow> \<not> sleepers (bar s') \<subseteq> sleepers (bar s) \<Longrightarrow> 0 < wait_count (bar s')" for s s'
    by (erule bstep.cases) (auto dest: w)
  show "bstep N s s' \<Longrightarrow> 0 < wait_count (bar s) \<Longrightarrow> \<not> 0 < wait_count (bar s') \<Longrightarrow> sleepers (bar s') = {}" for s s'
    by (erule bstep.cases) (auto dest: w)
qed

text \<open>Every step of a call is progress; waking everybody happens only when the counter reaches 0.\<close>

definition todo :: "bsys \<Rightarrow> nat \<Rightarrow> nat" where
  "todo s t = (case bpcs s t of BEnter \<Rightarrow> 6 | BDec \<Rightarrow> 5 | BTest \<Rightarrow> 3
     | BAsleep \<Rightarrow> (if t \<in> sleepers (bar s) then 2 else 4) | BLeave \<Rightarrow> 1 | _ \<Rightarrow> 0)"

definition progress :: "nat \<Rightarrow> (bsys \<times> bsys) set" where
  "progress N = inv_image (less_than <*lex*> less_than) (\<lambda>s. (nat (wait_count (bar s)), sum (todo s) {..<N}))"

lemma wf_progress: "wf (progress N)"
  unfolding progress_def by (intro wf_inv_image wf_lex_prod wf_less_than)

lemma work_progress:
  assumes "bar_inv n N s" "bwork s s'"
  shows "(s', s) \<in> progress N"
  using assms(2)
proof cases
  case (1 t b p)
  have t: "t < N" using 1 assms(1) by (cases "bpcs s t") (auto simp: bar_inv_def)
  have others: "nat (wait_count (bar s')) < nat (wait_count (bar s)) \<or>
      nat (wait_count (bar s')) = nat (wait_count (bar s)) \<and> todo s' t < todo s t \<and> (\<forall>u. u \<noteq> t \<longrightarrow> todo s' u = todo s u)"
    using 1 by (cases "bpcs s t")
      (auto simp: bar_defs i32_def Let_def todo_def split: if_splits option.splits Option.bind_splits bpc.splits)
  have "sum (todo s') {..<N} < sum (todo s) {..<N}" if "todo s' t < todo s t" "\<forall>u. u \<noteq> t \<longrightarrow> todo s' u = todo s u"
    using that t by (intro sum_strict_mono_ex1) (auto intro: le_less_trans simp: le_less)
  with others show ?thesis by (auto simp: progress_def)
qed

text \<open>A caller that has not returned can go on unless it sleeps or another thread can.\<close>

lemma bar_not_stuck:
  assumes inv: "bar_inv n N s" and n: "0 < n" "n \<le> INT32_MAX" "N \<le> 2147483648"
    and stuck: "\<not> (\<exists>s'. bwork s s')"
  shows "bpcs s t \<in> {BOut, BReturned} \<or> t \<in> sleepers (bar s)"
proof -
  have none: "barrior_wait t (bpcs s t) (bar s) = None" for t
    using stuck bwork.intros [of t s] by (metis option.exhaust surj_pair)
  have fits: "INT32_MIN \<le> wait_count (bar s) - 1" if "bpcs s t = BDec" for t
  proof -
    have "t \<notin> arrived s" "t < N" using that inv by (auto simp: bar_inv_def past_def)
    then have "card (insert t (arrived s)) \<le> card {..<N}"
      using bar_inv_arrived [OF inv] by (intro card_mono) auto
    then have "card (arrived s) < N" using bar_inv_arrived [OF inv] \<open>t \<notin> arrived s\<close> by simp
    then show ?thesis using n inv by (simp add: bar_inv_def)
  qed
  have le: "wait_count (bar s) \<le> INT32_MAX + 1" using inv n by (simp add: bar_inv_def)
  have out: "\<not> inside (bpcs s t)" for t
    using none [of t] fits [of t] le by (auto simp: inside_def i32_def Let_def split: if_splits)
  then have free: "holder (bar s) = None" using inv by (cases "holder (bar s)") (auto simp: bar_inv_def)
  show ?thesis using none [of t] out [of t] free
    by (cases "bpcs s t") (auto simp: bar_defs split: if_splits)
qed

text \<open>
  Claim C33. The barrier for \<open>n\<close> threads. However the calls of up to \<open>2 ^ 31\<close> threads interleave, and with spurious
  wake-ups, no call returns before \<open>n\<close> threads have arrived; the work inside the calls always comes
  to an end; and when it has, and at least \<open>n\<close> threads have called, every caller has returned, so no
  wake-up is lost.
\<close>

theorem barrior_releases_all:
  assumes "0 < n" "n \<le> INT32_MAX" "N \<le> 2147483648" and reach: "(bstep N)\<^sup>*\<^sup>* (bsys_init n) s"
  shows "(bpcs s t = BReturned \<longrightarrow> n \<le> int (card (arrived s))) \<and>
    \<not> (\<exists>f. f 0 = s \<and> (\<forall>i. bwork (f i) (f (Suc i)))) \<and>
    (\<not> (\<exists>s'. bwork s s') \<and> n \<le> int (card {u. bpcs s u \<noteq> BOut}) \<longrightarrow> bpcs s t \<in> {BOut, BReturned})"
proof (intro conjI impI notI)
  have inv: "bar_inv n N s" using bw.reach_good [OF refl reach] .
  show "n \<le> int (card (arrived s))" if "bpcs s t = BReturned"
    using inv that by (auto simp: bar_inv_def)
  show False if inf: "\<exists>f. f 0 = s \<and> (\<forall>i. bwork (f i) (f (Suc i)))"
  proof -
    from inf obtain f where f: "f 0 = s" "\<And>i. bwork (f i) (f (Suc i))" by blast
    have "bar_inv n N (f i)" for i by (induction i) (use f inv in \<open>auto intro: bar_inv_work\<close>)
    then have "(f (Suc i), f i) \<in> progress N" for i using f(2) by (rule work_progress)
    then show False using wf_progress [of N] unfolding wf_iff_no_infinite_down_chain by blast
  qed
  show "bpcs s t \<in> {BOut, BReturned}" if stuck: "\<not> (\<exists>s'. bwork s s') \<and> n \<le> int (card {u. bpcs s u \<noteq> BOut})"
  proof -
    note ns = bar_not_stuck [OF inv assms(1-3) conjunct1 [OF stuck]]
    have "{u. bpcs s u \<noteq> BOut} \<subseteq> arrived s"
      using ns inv by (force simp: bar_inv_def past_def)
    then have "card {u. bpcs s u \<noteq> BOut} \<le> card (arrived s)"
      using bar_inv_arrived(2) [OF inv] by (intro card_mono)
    then have "wait_count (bar s) \<le> 0" using stuck inv by (simp add: bar_inv_def)
    then have "sleepers (bar s) = {}" using bw.no_lost_wakeup [OF refl reach] by fastforce
    then show ?thesis using ns [of t] by simp
  qed
qed

text \<open>Building a run step by step.\<close>

lemma bar_run:
  assumes "(bstep N)\<^sup>*\<^sup>* s0 s"
  shows "t < N \<Longrightarrow> bpcs s t = BOut \<Longrightarrow> (bstep N)\<^sup>*\<^sup>* s0 (s\<lparr>bpcs := (bpcs s)(t := BEnter)\<rparr>)"
    "barrior_wait t (bpcs s t) (bar s) = Some (b, p) \<Longrightarrow> (bstep N)\<^sup>*\<^sup>* s0
       (s\<lparr>bar := b, bpcs := (bpcs s)(t := p), arrived := (if bpcs s t = BDec then insert t (arrived s) else arrived s)\<rparr>)"
  by (rule rtranclp.rtrancl_into_rtrancl [OF assms], erule (1) bcall)
     (rule rtranclp.rtrancl_into_rtrancl [OF assms], rule bstep.bwork, erule bwork.intros)

definition two_met :: bsys where
  "two_met = \<lparr>bar = \<lparr>holder = None, sleepers = {}, wait_count = 0\<rparr>,
     bpcs = (\<lambda>_. BOut)(0 := BReturned, 1 := BReturned), arrived = {0, 1}\<rparr>"

lemma two_meet: "(bstep 2)\<^sup>*\<^sup>* (bsys_init 2) two_met"
proof -
  define S where "S h sl w p q ar = \<lparr>bar = \<lparr>holder = h, sleepers = sl, wait_count = w\<rparr>, bpcs = (\<lambda>_. BOut)(0 := p, 1 := q), arrived = ar\<rparr>"
    for h sl w p q ar
  have 0: "(bstep 2)\<^sup>*\<^sup>* (bsys_init 2) (S None {} 2 BOut BOut {})"
    by (simp add: S_def bsys_init_def barrior_create_def fun_upd_idem)
  have 1: "(bstep 2)\<^sup>*\<^sup>* (bsys_init 2) (S None {} 2 BEnter BOut {})"
    using bar_run(1) [OF 0, of 0] by (simp add: S_def fun_upd_twist)
  have 2: "(bstep 2)\<^sup>*\<^sup>* (bsys_init 2) (S (Some 0) {} 2 BDec BOut {})"
    using bar_run(2) [OF 1, of 0] by (simp add: S_def fun_upd_twist lock_m_def)
  have 3: "(bstep 2)\<^sup>*\<^sup>* (bsys_init 2) (S (Some 0) {} 1 BTest BOut {0})"
    using bar_run(2) [OF 2, of 0] by (simp add: S_def fun_upd_twist Let_def)
  have 4: "(bstep 2)\<^sup>*\<^sup>* (bsys_init 2) (S None {0} 1 BAsleep BOut {0})"
    using bar_run(2) [OF 3, of 0] by (simp add: S_def fun_upd_twist condition_wait_def)
  have 5: "(bstep 2)\<^sup>*\<^sup>* (bsys_init 2) (S None {0} 1 BAsleep BEnter {0})"
    using bar_run(1) [OF 4, of 1] by (simp add: S_def)
  have 6: "(bstep 2)\<^sup>*\<^sup>* (bsys_init 2) (S (Some 1) {0} 1 BAsleep BDec {0})"
    using bar_run(2) [OF 5, of 1] by (simp add: S_def lock_m_def)
  have 7: "(bstep 2)\<^sup>*\<^sup>* (bsys_init 2) (S (Some 1) {} 0 BAsleep BLeave {1, 0})"
    using bar_run(2) [OF 6, of 1] by (simp add: S_def Let_def condition_broadcast_def)
  have 8: "(bstep 2)\<^sup>*\<^sup>* (bsys_init 2) (S None {} 0 BAsleep BReturned {1, 0})"
    using bar_run(2) [OF 7, of 1] by (simp add: S_def unlock_m_def)
  have 9: "(bstep 2)\<^sup>*\<^sup>* (bsys_init 2) (S (Some 0) {} 0 BTest BReturned {1, 0})"
    using bar_run(2) [OF 8, of 0] by (simp add: S_def condition_resume_def lock_m_def fun_upd_twist)
  have 10: "(bstep 2)\<^sup>*\<^sup>* (bsys_init 2) (S (Some 0) {} 0 BLeave BReturned {1, 0})"
    using bar_run(2) [OF 9, of 0] by (simp add: S_def fun_upd_twist)
  have "(bstep 2)\<^sup>*\<^sup>* (bsys_init 2) (S None {} 0 BReturned BReturned {1, 0})"
    using bar_run(2) [OF 10, of 0] by (simp add: S_def unlock_m_def fun_upd_twist)
  then show ?thesis by (simp add: S_def two_met_def insert_commute)
qed

theorem barrior_releases_all_witness:
  "(bstep 2)\<^sup>*\<^sup>* (bsys_init 2) two_met \<and> bpcs two_met 0 = BReturned \<and> bpcs two_met 1 = BReturned \<and> 2 \<le> int (card (arrived two_met)) \<and>
    \<not> (\<exists>f. f 0 = two_met \<and> (\<forall>i. bwork (f i) (f (Suc i))))"
proof -
  have "bpcs two_met 0 = BReturned" "bpcs two_met 1 = BReturned" by (simp_all add: two_met_def)
  then show ?thesis using barrior_releases_all [OF _ _ _ two_meet, of 0] two_meet by simp
qed

section \<open>Suspending a thread\<close>

text \<open>\<open>is_suspend\<close> and the identifier of the thread that the structure belongs to.\<close>

record thread = monitor +
  is_suspend :: bool
  threadid :: nat

definition create_thread :: "nat \<Rightarrow> thread" where
  "create_thread self = \<lparr>holder = None, sleepers = {}, is_suspend = False, threadid = self\<rparr>"

text \<open>The points of the calls; \<open>STest True\<close> is the wait without a time limit.\<close>

datatype spc = Run | SEnter bool | SMark bool | STest | SAsleep bool | SAfter | REnter | RMark | SLeave

fun thread_suspend :: "nat \<Rightarrow> spc \<Rightarrow> thread \<Rightarrow> (thread \<times> spc) option" where
  "thread_suspend t (SEnter endless) h =
     (if t \<noteq> threadid h then Some (h, Run) else do { h1 \<leftarrow> lock_m t h; Some (h1, SMark endless) })"
| "thread_suspend t (SMark endless) h =
     (let h1 = h\<lparr>is_suspend := True\<rparr> in
      Some (if endless then (h1, STest) else (condition_wait t h1, SAsleep False)))"
| "thread_suspend t STest h =
     Some (if is_suspend h then (condition_wait t h, SAsleep True) else (h, SLeave))"
| "thread_suspend t (SAsleep endless) h = do { h1 \<leftarrow> condition_resume t h; Some (h1, if endless then STest else SAfter) }"
| "thread_suspend t SAfter h = Some (h\<lparr>is_suspend := False\<rparr>, SLeave)"
| "thread_suspend t SLeave h = Some (unlock_m h, Run)"
| "thread_suspend t p h = None"

fun thread_resume :: "nat \<Rightarrow> nat \<Rightarrow> spc \<Rightarrow> thread \<Rightarrow> (thread \<times> spc) option" where
  "thread_resume w t REnter h =
     (if t = threadid h then Some (h, Run) else do { h1 \<leftarrow> lock_m t h; Some (h1, RMark) })"
| "thread_resume w t RMark h =
     (if is_suspend h then do { h1 \<leftarrow> condition_signal w (h\<lparr>is_suspend := False\<rparr>); Some (h1, SLeave) }
      else Some (h, SLeave))"
| "thread_resume w t p h = None"

text \<open>Any threads may call, also the owner of the structure \<open>thread_resume\<close> and others \<open>thread_suspend\<close>.\<close>

record tsys =
  thr :: thread
  tpcs :: "nat \<Rightarrow> spc"

definition tsys_init :: "nat \<Rightarrow> tsys" where
  "tsys_init self = \<lparr>thr = create_thread self, tpcs = (\<lambda>_. Run)\<rparr>"

inductive twork :: "tsys \<Rightarrow> tsys \<Rightarrow> bool" where
  "thread_suspend t (tpcs s t) (thr s) = Some (h, p) \<Longrightarrow> twork s (s\<lparr>thr := h, tpcs := (tpcs s)(t := p)\<rparr>)"
| "thread_resume w t (tpcs s t) (thr s) = Some (h, p) \<Longrightarrow> twork s (s\<lparr>thr := h, tpcs := (tpcs s)(t := p)\<rparr>)"

inductive tstep :: "tsys \<Rightarrow> tsys \<Rightarrow> bool" where
  tsuspend: "tpcs s t = Run \<Longrightarrow> tstep s (s\<lparr>tpcs := (tpcs s)(t := SEnter b)\<rparr>)"
| tresume: "tpcs s t = Run \<Longrightarrow> tstep s (s\<lparr>tpcs := (tpcs s)(t := REnter)\<rparr>)"
| twork: "twork s s' \<Longrightarrow> tstep s s'"
| tspurious: "tstep s (s\<lparr>thr := (thr s)\<lparr>sleepers := sleepers (thr s) - {t}\<rparr>\<rparr>)"

fun locked :: "spc \<Rightarrow> bool" where
  "locked (SMark _) = True" | "locked STest = True" | "locked SAfter = True" | "locked RMark = True" | "locked SLeave = True"
| "locked _ = False"

fun suspending :: "spc \<Rightarrow> bool" where
  "suspending (SMark _) = True" | "suspending STest = True" | "suspending SAfter = True" | "suspending (SAsleep _) = True"
| "suspending _ = False"

fun dozing :: "spc \<Rightarrow> bool" where
  "dozing (SAsleep _) = True" | "dozing _ = False"

definition thr_ok :: "thread \<Rightarrow> nat \<Rightarrow> spc \<Rightarrow> bool" where
  "thr_ok h t p \<longleftrightarrow> (holder h = Some t) = locked p \<and> (suspending p \<longrightarrow> t = threadid h) \<and>
     (t \<in> sleepers h \<longrightarrow> dozing p)"

definition thr_inv :: "nat \<Rightarrow> tsys \<Rightarrow> bool" where
  "thr_inv self s \<longleftrightarrow> threadid (thr s) = self \<and> (\<forall>t. thr_ok (thr s) t (tpcs s t))"

lemmas thr_defs = thr_ok_def lock_m_def unlock_m_def condition_wait_def condition_resume_def condition_signal_def

lemma thr_inv_sleepers: "thr_inv self s \<Longrightarrow> sleepers (thr s) \<subseteq> {self}"
proof
  fix t assume "thr_inv self s" "t \<in> sleepers (thr s)"
  then have "threadid (thr s) = self" "thr_ok (thr s) t (tpcs s t)" "t \<in> sleepers (thr s)" by (simp_all add: thr_inv_def)
  then show "t \<in> {self}" by (cases "tpcs s t") (auto simp: thr_ok_def)
qed

text \<open>A step of one thread keeps what concerns it and any other.\<close>

lemma suspend_ok:
  assumes "thread_suspend t p h = Some (h', p')" "thr_ok h t p" "x \<noteq> t \<Longrightarrow> thr_ok h x q"
  shows "thr_ok h' x (if x = t then p' else q) \<and> threadid h' = threadid h"
  using assms by (cases "x = t"; cases p; cases q) (auto simp: thr_defs Let_def split: if_splits Option.bind_splits)

lemma resume_ok:
  assumes "thread_resume w t p h = Some (h', p')" "thr_ok h t p" "x \<noteq> t \<Longrightarrow> thr_ok h x q"
  shows "thr_ok h' x (if x = t then p' else q) \<and> threadid h' = threadid h"
  using assms by (cases "x = t"; cases p; cases q) (auto simp: thr_defs Let_def split: if_splits Option.bind_splits)

lemma thr_inv_work:
  assumes inv: "thr_inv self s" and st: "twork s s'"
  shows "thr_inv self s'"
  using st
proof cases
  case (1 t h p)
  have "thr_ok h x (if x = t then p else tpcs s x) \<and> threadid h = threadid (thr s)" for x
    using inv by (intro suspend_ok [OF 1(2)]) (simp_all add: thr_inv_def)
  with 1 inv show ?thesis by (auto simp: thr_inv_def)
next
  case (2 w t h p)
  have "thr_ok h x (if x = t then p else tpcs s x) \<and> threadid h = threadid (thr s)" for x
    using inv by (intro resume_ok [OF 2(2)]) (simp_all add: thr_inv_def)
  with 2 inv show ?thesis by (auto simp: thr_inv_def)
qed

lemma thr_inv_step: "thr_inv self s \<Longrightarrow> tstep s s' \<Longrightarrow> thr_inv self s'"
proof (erule tstep.cases, goal_cases)
  case (1 z t b)
  then have "thr_ok (thr z) t Run" by (metis thr_inv_def)
  with 1 show ?case by (auto simp: thr_inv_def thr_ok_def)
next
  case (2 z t)
  then have "thr_ok (thr z) t Run" by (metis thr_inv_def)
  with 2 show ?case by (auto simp: thr_inv_def thr_ok_def)
next
  case 3 then show ?case by (metis thr_inv_work)
next
  case 4 then show ?case by (auto simp: thr_inv_def thr_ok_def)
qed

text \<open>Going to sleep needs the mark, and removing the mark wakes the only thread that may sleep.\<close>

lemma work_wakes:
  assumes inv: "thr_inv self s" and st: "twork s s'"
  shows "(\<not> sleepers (thr s') \<subseteq> sleepers (thr s) \<longrightarrow> is_suspend (thr s')) \<and>
    (is_suspend (thr s) \<and> \<not> is_suspend (thr s') \<longrightarrow> sleepers (thr s') = {})"
proof -
  have sub: "x = self" if "x \<in> sleepers (thr s)" for x using thr_inv_sleepers [OF inv] that by blast
  have ok: "thr_ok (thr s) t (tpcs s t)" "threadid (thr s) = self" for t using inv by (simp_all add: thr_inv_def)
  show ?thesis using st
  proof cases
    case (1 t h p)
    moreover have "sleepers (thr s) = {}" if "t = self" "t \<notin> sleepers (thr s)" using that sub by blast
    ultimately show ?thesis using ok(1) [of t] ok(2)
      by (cases "tpcs s t") (auto dest: sub simp: thr_defs Let_def split: if_splits Option.bind_splits)
  next
    case (2 w t h p)
    moreover have "sleepers (thr s) - {w} = {}" if "w \<in> sleepers (thr s)" using sub [OF that] sub by blast
    ultimately show ?thesis
      by (cases "tpcs s t") (auto simp: thr_defs Let_def split: if_splits Option.bind_splits)
  qed
qed

interpretation tw: wait_discipline "\<lambda>s. s = tsys_init self" tstep "thr_inv self" "\<lambda>s. sleepers (thr s)" "\<lambda>s. is_suspend (thr s)"
proof
  show "s = tsys_init self \<Longrightarrow> thr_inv self s \<and> sleepers (thr s) = {}" for s
    by (simp add: tsys_init_def create_thread_def thr_inv_def thr_ok_def)
  show "thr_inv self s \<Longrightarrow> tstep s s' \<Longrightarrow> thr_inv self s'" for s s' by (rule thr_inv_step)
  show "thr_inv self s \<Longrightarrow> tstep s s' \<Longrightarrow> \<not> sleepers (thr s') \<subseteq> sleepers (thr s) \<Longrightarrow> is_suspend (thr s')" for s s'
    by (erule tstep.cases) (auto dest: work_wakes)
  show "thr_inv self s \<Longrightarrow> tstep s s' \<Longrightarrow> is_suspend (thr s) \<Longrightarrow> \<not> is_suspend (thr s') \<Longrightarrow> sleepers (thr s') = {}" for s s'
    by (erule tstep.cases) (auto dest: work_wakes)
qed

lemma thr_not_stuck:
  assumes inv: "thr_inv self s" and stuck: "\<not> (\<exists>s'. twork s s')"
  shows "tpcs s t = Run \<or> t \<in> sleepers (thr s)"
proof -
  have none: "thread_suspend t (tpcs s t) (thr s) = None" "thread_resume w t (tpcs s t) (thr s) = None" for t w
    using stuck twork.intros(1) [of t s] twork.intros(2) [of w t s] by (metis option.exhaust surj_pair)+
  have out: "\<not> locked (tpcs s t)" for t
  proof
    assume "locked (tpcs s t)"
    then show False using none(1) [of t] none(2) [of "SOME w. w \<in> sleepers (thr s)" t]
      by (cases "tpcs s t") (auto simp: condition_signal_def Let_def some_in_eq split: if_splits)
  qed
  then have free: "holder (thr s) = None" using inv by (cases "holder (thr s)") (auto simp: thr_inv_def thr_ok_def)
  show ?thesis using none(1) [of t] none(2) [of 0 t] out [of t] free
    by (cases "tpcs s t") (auto simp: lock_m_def condition_resume_def split: if_splits)
qed

text \<open>
  Claim C34. Suspending and resuming a thread, under any interleaving of any number of callers: a thread that has not been
  resumed since it suspended itself is the only one that can sleep, so once
  \<open>thread_resume\<close> has taken the mark away nobody sleeps any more; and when no call can go on, the only call under way
  is that of the owner, asleep with the mark set.
\<close>

theorem thread_resume_wakes:
  assumes reach: "tstep\<^sup>*\<^sup>* (tsys_init self) s"
  shows "(\<not> is_suspend (thr s) \<longrightarrow> sleepers (thr s) = {}) \<and>
    (\<not> (\<exists>s'. twork s s') \<and> tpcs s t \<noteq> Run \<longrightarrow> t = self \<and> t \<in> sleepers (thr s) \<and> is_suspend (thr s))"
proof -
  have inv: "thr_inv self s" using tw.reach_good [OF refl reach] .
  have mark: "sleepers (thr s) \<noteq> {} \<Longrightarrow> is_suspend (thr s)"
    using tw.no_lost_wakeup [OF refl reach] .
  show ?thesis
  proof (intro conjI impI)
    show "sleepers (thr s) = {}" if "\<not> is_suspend (thr s)" using mark that by blast
    assume a: "\<not> (\<exists>s'. twork s s') \<and> tpcs s t \<noteq> Run"
    then show sl: "t \<in> sleepers (thr s)" using thr_not_stuck [OF inv, of t] by blast
    then show "t = self" "is_suspend (thr s)" using thr_inv_sleepers [OF inv] mark by blast+
  qed
qed

definition lone_sleeper :: tsys where
  "lone_sleeper = \<lparr>thr = \<lparr>holder = None, sleepers = {1}, is_suspend = True, threadid = 1\<rparr>, tpcs = (\<lambda>_. Run)(1 := SAsleep True)\<rparr>"

lemma falls_asleep: "tstep\<^sup>*\<^sup>* (tsys_init 1) lone_sleeper"
proof -
  define S where "S h sl b p = \<lparr>thr = \<lparr>holder = h, sleepers = sl, is_suspend = b, threadid = 1\<rparr>, tpcs = (\<lambda>_. Run)(1 := p)\<rparr>"
    for h sl b p
  have work: "tstep (S h sl b p) (S h' sl' b' p')"
    if "thread_suspend 1 p (thr (S h sl b p)) = Some (thr (S h' sl' b' p'), p')" for h sl b p h' sl' b' p'
    using twork [OF twork.intros(1) [of 1 "S h sl b p"]] that by (simp add: S_def)
  have 1: "tstep (tsys_init 1) (S None {} False (SEnter True))"
    using tsuspend [of "tsys_init 1" 1 True] by (simp add: S_def tsys_init_def create_thread_def)
  have 2: "tstep (S None {} False (SEnter True)) (S (Some 1) {} False (SMark True))"
    by (rule work) (simp add: S_def lock_m_def)
  have 3: "tstep (S (Some 1) {} False (SMark True)) (S (Some 1) {} True STest)"
    by (rule work) (simp add: S_def Let_def)
  have 4: "tstep (S (Some 1) {} True STest) lone_sleeper"
    using work [of STest "Some 1" "{}" True None "{1}" True "SAsleep True"] by (simp add: S_def lone_sleeper_def condition_wait_def)
  show ?thesis
    by (rule converse_rtranclp_into_rtranclp, rule 1, rule converse_rtranclp_into_rtranclp, rule 2,
        rule converse_rtranclp_into_rtranclp, rule 3, rule r_into_rtranclp, rule 4)
qed

theorem thread_resume_wakes_witness:
  "tstep\<^sup>*\<^sup>* (tsys_init 1) lone_sleeper \<and> \<not> (\<exists>s'. twork lone_sleeper s') \<and> 1 \<in> sleepers (thr lone_sleeper) \<and> is_suspend (thr lone_sleeper)"
proof -
  have stuck: "\<not> (\<exists>s'. twork lone_sleeper s')"
    by (auto simp: twork.simps lone_sleeper_def condition_resume_def split: if_splits)
  moreover have "tpcs lone_sleeper 1 \<noteq> Run" by (simp add: lone_sleeper_def)
  ultimately show ?thesis using thread_resume_wakes [OF falls_asleep, of 1] falls_asleep by blast
qed

end
