(* ===== verification/Coro.thy ===== *)
theory Coro
  imports MinHeap
begin

text \<open>
  The coroutine scheduler (\<open>coro/co_sche.c\<close>). What the function of a coroutine does is the list of its
  calls of the scheduler; when the list is empty the function returns. \<open>uthread_switch\<close> saves the
  context of the caller, here the rest of that list, and goes on with that of the other; the
  scheduler itself is the coroutine \<open>sche_co\<close>. The active list is the list of its nodes (theory
  LinkList), the heap that of theory MinHeap, the clock an infinite sequence of readings, and memory is granted. \<open>trace\<close> records
  which coroutine gets the processor.
\<close>

section \<open>State\<close>

datatype call = Yield | Sleep u32

datatype coro_status = CORO_YIELD | CORO_SLEEP | CORO_ACTIVE | CORO_DIE

text \<open>\<open>calloc\<close> makes the status of a new coroutine 0, which is \<open>CORO_YIELD\<close>.\<close>

record coro =
  status :: coro_status
  timeout :: u32
  carg :: u32
  code :: "call list"

record sche =
  coros :: "addr \<rightharpoonup> coro"
  sche_co :: addr
  active_list :: "addr list"
  heap :: minheap
  next_check_timeout :: u32
  stop :: bool
  coro_size :: int
  ti :: u32
  clock :: "nat \<Rightarrow> u32"
  reads :: nat
  fresh :: addr
  trace :: "addr list"

definition co_clock :: "sche \<Rightarrow> sche \<times> u32" where
  "co_clock s = (s\<lparr>reads := reads s + 1\<rparr>, clock s (reads s))"

definition set_status :: "sche \<Rightarrow> addr \<Rightarrow> coro_status \<Rightarrow> sche option" where
  "set_status s c st = do { k \<leftarrow> coros s c; Some (s\<lparr>coros := (coros s)(c \<mapsto> k\<lparr>status := st\<rparr>)\<rparr>) }"

definition push_active :: "sche \<Rightarrow> addr \<Rightarrow> sche" where
  "push_active s c = s\<lparr>active_list := active_list s @ [c]\<rparr>"

text \<open>
  \<open>_less\<close> casts the element to \<open>coro_t\<close> without going back to the start of the coroutine, so what it reads as
  \<open>timeout\<close> is the next word, \<open>arg\<close>.
\<close>

definition coro_less :: "sche \<Rightarrow> addr \<Rightarrow> addr \<Rightarrow> bool" where
  "coro_less s l r = (case (coros s l, coros s r) of (Some a, Some b) \<Rightarrow> carg a < carg b | _ \<Rightarrow> False)"

section \<open>Coroutines\<close>

definition coro_create :: "sche \<Rightarrow> sche \<times> addr" where
  "coro_create s =
     (s\<lparr>coros := (coros s)(fresh s \<mapsto> \<lparr>status = CORO_YIELD, timeout = 0, carg = 0, code = []\<rparr>),
        heap := (heap s)\<lparr>hindex := (hindex (heap s))(fresh s \<mapsto> 0)\<rparr>, fresh := fresh s + 1\<rparr>, fresh s)"

definition coro_destroy :: "sche \<Rightarrow> addr \<Rightarrow> sche option" where
  "coro_destroy s c = do {
     _ \<leftarrow> coros s c;
     Some (s\<lparr>coros := (coros s)(c := None), heap := (heap s)\<lparr>hindex := (hindex (heap s))(c := None)\<rparr>\<rparr>) }"

definition sche_create :: "nat \<Rightarrow> (nat \<Rightarrow> u32) \<Rightarrow> sche" where
  "sche_create max_coro clk =
     (let s = \<lparr>coros = Map.empty, sche_co = NULL, active_list = [], heap = minheap_create max_coro Map.empty,
            next_check_timeout = 0, stop = False, coro_size = 0, ti = 0, clock = clk, reads = 0, fresh = 1, trace = []\<rparr>;
          (s1, now) = co_clock s;
          (s2, c) = coro_create (s1\<lparr>next_check_timeout := now + 200\<rparr>)
      in s2\<lparr>sche_co := c\<rparr>)"

text \<open>The new coroutine runs the first lines of \<open>coro_fun\<close> and gives the processor back.\<close>

definition coro_start :: "sche \<Rightarrow> addr \<Rightarrow> sche option" where
  "coro_start s c = set_status (push_active s c) c CORO_ACTIVE"

definition sche_spawn :: "sche \<Rightarrow> call list \<Rightarrow> u32 \<Rightarrow> (sche \<times> addr) option" where
  "sche_spawn s f a = do {
     let (s1, c) = coro_create s;
     k \<leftarrow> coros s1 c;
     n \<leftarrow> i32 (coro_size s1 + 1);
     s2 \<leftarrow> coro_start (s1\<lparr>coros := (coros s1)(c \<mapsto> k\<lparr>carg := a, code := f\<rparr>), coro_size := n\<rparr>) c;
     Some (s2, c) }"

section \<open>Scheduling\<close>

lemma down_size: "down lt m i = Some m' \<Longrightarrow> hsize m' = hsize m"
proof (induction lt m i arbitrary: m' rule: down.induct)
  case (1 lt m i)
  from 1(2) obtain mn where mn: "down_min lt m i = Some mn"
    "(if mn \<noteq> i then Option.bind (heap_swap m i mn) (\<lambda>m1. down lt m1 mn) else Some m) = Some m'"
    by (subst (asm) down.simps) (auto simp: Option.bind_eq_Some_conv)
  show ?case
  proof (cases "mn = i")
    case False
    with mn(2) obtain m1 where m1: "heap_swap m i mn = Some m1" "down lt m1 mn = Some m'"
      by (auto simp: Option.bind_eq_Some_conv)
    then show ?thesis using 1(1) [OF mn(1) False m1] heap_swap_size [OF m1(1)] by simp
  qed (use mn in simp)
qed

lemma popmin_size:
  assumes "minheap_popmin lt m = Some (m', e)" "minheap_min m = Some d" "d \<noteq> NULL"
  shows "hsize m' < hsize m"
proof -
  have nz: "hsize m \<noteq> 0" using assms(2,3) by (auto simp: minheap_min_def split: if_splits)
  with assms(1) obtain m1 m2 m4 where s: "heap_swap m 1 (hsize m) = Some m1" "set_data m1 (hsize m1) NULL = Some m2"
    "down lt (m2\<lparr>hsize := hsize m2 - 1\<rparr>) 1 = Some m4" "set_index m4 e 0 = Some m'"
    by (auto simp: minheap_popmin_def Let_def Option.bind_eq_Some_conv)
  then have "hsize m' = hsize m - 1"
    using heap_swap_size [OF s(1)] down_size [OF s(3)]
    by (auto simp: set_data_def set_index_def split: if_splits)
  with nz show ?thesis by simp
qed

text \<open>A coroutine that the check finds in the heap is woken, whatever its status but active; the test for a dead one comes too late.\<close>

function check_loop :: "sche \<Rightarrow> u32 \<Rightarrow> sche option" where
  "check_loop s now =
     (case minheap_min (heap s) of
        None \<Rightarrow> None
      | Some ele \<Rightarrow>
          if ele = NULL then Some s
          else case coros s ele of
            None \<Rightarrow> None
          | Some co \<Rightarrow>
              if timeout co < now then Some s
              else case minheap_popmin (coro_less s) (heap s) of
                None \<Rightarrow> None
              | Some (h, _) \<Rightarrow>
                  let s1 = s\<lparr>heap := h\<rparr> in
                  if status co \<noteq> CORO_ACTIVE
                  then case set_status s1 ele CORO_ACTIVE of
                    None \<Rightarrow> None
                  | Some s2 \<Rightarrow> check_loop (push_active s2 ele) now
                  else check_loop s1 now)"
  by pat_completeness auto
termination
  by (relation "measure (\<lambda>(s, _). hsize (heap s))")
    (auto simp: set_status_def push_active_def Option.bind_eq_Some_conv dest: popmin_size)

declare check_loop.simps [simp del]

definition check_time_out :: "sche \<Rightarrow> u32 \<Rightarrow> sche option" where
  "check_time_out s now = do { s1 \<leftarrow> check_loop s now; Some (s1\<lparr>next_check_timeout := now + 200\<rparr>) }"

text \<open>The check at the beginning of \<open>sche_next\<close> and of each round of \<open>sche_schedule\<close>.\<close>

definition maybe_check :: "sche \<Rightarrow> sche option" where
  "maybe_check s =
     (if ti s \<ge> 100
      then let (s1, tick) = co_clock (s\<lparr>ti := 0\<rparr>) in
        if tick \<ge> next_check_timeout s1 then check_time_out s1 tick else Some s1
      else Some s)"

text \<open>\<open>_sche_next\<close> up to the switch: the coroutine that gets the processor.\<close>

definition pick_next :: "sche \<Rightarrow> addr \<Rightarrow> (sche \<times> addr) option" where
  "pick_next s co = do {
     let (nxt, s1) = (case active_list s of [] \<Rightarrow> (sche_co s, s) | n # l \<Rightarrow> (n, s\<lparr>active_list := l\<rparr>));
     k \<leftarrow> coros s1 co;
     s2 \<leftarrow> (if status k = CORO_YIELD then do { s2 \<leftarrow> set_status s1 co CORO_ACTIVE; Some (push_active s2 co) } else Some s1);
     _ \<leftarrow> assert_c (co \<noteq> nxt);
     Some (s2\<lparr>ti := ti s2 + 1\<rparr>, nxt) }"

definition sche_next :: "sche \<Rightarrow> addr \<Rightarrow> (sche \<times> addr) option" where
  "sche_next s co = do { s1 \<leftarrow> set_status s co CORO_YIELD; s2 \<leftarrow> maybe_check s1; pick_next s2 co }"

definition sche_add_timeout :: "sche \<Rightarrow> addr \<Rightarrow> (sche \<times> addr) option" where
  "sche_add_timeout s co = do {
     s1 \<leftarrow> set_status s co CORO_SLEEP;
     h \<leftarrow> minheap_insert (coro_less s1) (heap s1) co;
     pick_next (s1\<lparr>heap := h\<rparr>) co }"

definition coro_sleep :: "sche \<Rightarrow> addr \<Rightarrow> u32 \<Rightarrow> (sche \<times> addr) option" where
  "coro_sleep s co ms = do {
     let (s1, now) = co_clock s;
     k \<leftarrow> coros s1 co;
     sche_add_timeout (s1\<lparr>coros := (coros s1)(co \<mapsto> k\<lparr>timeout := now + ms\<rparr>)\<rparr>) co }"

text \<open>A turn of a coroutine, up to its next switch.\<close>

definition coro_turn :: "sche \<Rightarrow> addr \<Rightarrow> (sche \<times> addr) option" where
  "coro_turn s co = do {
     k \<leftarrow> coros s co;
     let s1 = s\<lparr>trace := trace s @ [co]\<rparr>;
     (case code k of
        [] \<Rightarrow> do { s2 \<leftarrow> set_status s1 co CORO_DIE; Some (s2, sche_co s2) }
      | Yield # f \<Rightarrow> sche_next (s1\<lparr>coros := (coros s1)(co \<mapsto> k\<lparr>code := f\<rparr>)\<rparr>) co
      | Sleep ms # f \<Rightarrow> coro_sleep (s1\<lparr>coros := (coros s1)(co \<mapsto> k\<lparr>code := f\<rparr>)\<rparr>) co ms) }"

text \<open>
  Coroutines run one after the other until one switches to the scheduler, which learns which one it was.
  \<open>Some None\<close> is undefined behaviour or a failed \<open>assert\<close>, \<open>None\<close> a run that never ends.
\<close>

partial_function (option) switch_to :: "sche \<Rightarrow> addr \<Rightarrow> (sche \<times> addr) option option" where
  "switch_to s co =
     (case coro_turn s co of
        None \<Rightarrow> Some None
      | Some (s1, nxt) \<Rightarrow> if nxt = sche_co s1 then Some (Some (s1, co)) else switch_to s1 nxt)"

definition reap :: "sche \<Rightarrow> addr \<Rightarrow> sche option" where
  "reap s co = do {
     k \<leftarrow> coros s co;
     i \<leftarrow> hindex (heap s) co;
     (if status k = CORO_DIE \<and> i = 0
      then do {
        s1 \<leftarrow> coro_destroy s co;
        n \<leftarrow> i32 (coro_size s1 - 1);
        Some (if n = 0 then s1\<lparr>coro_size := n, stop := True\<rparr> else s1\<lparr>coro_size := n\<rparr>) }
      else Some s) }"

partial_function (option) sche_schedule :: "sche \<Rightarrow> sche option option" where
  "sche_schedule s =
     (if stop s then Some (Some s)
      else case maybe_check s of
        None \<Rightarrow> Some None
      | Some s1 \<Rightarrow>
          if active_list s1 = [] then sche_schedule (s1\<lparr>ti := ti s1 + 50\<rparr>)
          else case pick_next s1 (sche_co s1) of
            None \<Rightarrow> Some None
          | Some (s2, nxt) \<Rightarrow> Option.bind (switch_to s2 nxt) (\<lambda>r.
              case r of
                None \<Rightarrow> Some None
              | Some (s3, co) \<Rightarrow>
                  (case reap s3 co of
                     None \<Rightarrow> Some None
                   | Some s4 \<Rightarrow> sche_schedule s4)))"

text \<open>
  \<open>sche_destroy\<close>: the loop over the heap destroys \<open>co\<close>, which is null after the loop over the active
  list; its bound leaves out the last element.
\<close>

fun destroy_all :: "sche \<Rightarrow> addr list \<Rightarrow> sche option" where
  "destroy_all s [] = Some s"
| "destroy_all s (c # l) = do { s1 \<leftarrow> coro_destroy s c; destroy_all s1 l }"

definition sche_destroy :: "sche \<Rightarrow> sche option" where
  "sche_destroy s = do {
     s1 \<leftarrow> destroy_all s (active_list s);
     ds \<leftarrow> those (map (data_at (heap s1)) [1..<hsize (heap s1)]);
     _ \<leftarrow> assert_c (\<forall>d \<in> set ds. d = NULL);
     coro_destroy s1 (sche_co s1) }"

section \<open>Round robin\<close>

text \<open>The order in which a queue of coroutines, each with the number of its yields, gets the processor.\<close>

function rr :: "(addr \<times> nat) list \<Rightarrow> addr list" where
  "rr [] = []"
| "rr ((c, 0) # q) = c # rr q"
| "rr ((c, Suc k) # q) = c # rr (q @ [(c, k)])"
  by pat_completeness auto
termination by (relation "measure (\<lambda>q. sum_list (map (Suc \<circ> snd) q))") auto

text \<open>After a switch to \<open>co\<close>, up to the end of the schedule.\<close>

definition resume :: "sche \<Rightarrow> addr \<Rightarrow> sche option option" where
  "resume s co = Option.bind (switch_to s co) (\<lambda>r. case r of
     None \<Rightarrow> Some None
   | Some (s3, co) \<Rightarrow> (case reap s3 co of None \<Rightarrow> Some None | Some s4 \<Rightarrow> sche_schedule s4))"

lemma resume_turn:
  assumes "coro_turn s co = Some (s1, nxt)"
  shows "resume s co = (if nxt = sche_co s1
     then (case reap s1 co of None \<Rightarrow> Some None | Some s4 \<Rightarrow> sche_schedule s4) else resume s1 nxt)"
  using assms unfolding resume_def by (subst switch_to.simps) simp

lemma schedule_switch:
  assumes "\<not> stop s" "maybe_check s = Some s1" "active_list s1 \<noteq> []" "pick_next s1 (sche_co s1) = Some (s2, nxt)"
  shows "sche_schedule s = resume s2 nxt"
  using assms unfolding resume_def by (subst sche_schedule.simps) simp

text \<open>What a check with an empty heap and the switches leave alone.\<close>

definition same_but_time :: "sche \<Rightarrow> sche \<Rightarrow> bool" where
  "same_but_time s s' \<longleftrightarrow> coros s' = coros s \<and> sche_co s' = sche_co s \<and> active_list s' = active_list s \<and> heap s' = heap s \<and>
     coro_size s' = coro_size s \<and> stop s' = stop s \<and> trace s' = trace s"

lemma maybe_check_empty:
  assumes "hsize (heap s) = 0"
  shows "\<exists>s1. maybe_check s = Some s1 \<and> same_but_time s s1"
  using assms
  by (auto simp: maybe_check_def check_time_out_def check_loop.simps minheap_min_def same_but_time_def co_clock_def Let_def)

lemma turn_yield:
  assumes x: "coros s c = Some x" "status x = CORO_ACTIVE" "code x = Yield # f" and h: "hsize (heap s) = 0"
    and nxt: "nxt = (case active_list s of [] \<Rightarrow> sche_co s | n # l \<Rightarrow> n)" "nxt \<noteq> c"
  shows "\<exists>s1. coro_turn s c = Some (s1, nxt) \<and> coros s1 = (coros s)(c \<mapsto> x\<lparr>code := f\<rparr>) \<and>
    active_list s1 = tl (active_list s) @ [c] \<and> sche_co s1 = sche_co s \<and> heap s1 = heap s \<and>
    coro_size s1 = coro_size s \<and> stop s1 = stop s \<and> trace s1 = trace s @ [c]"
proof -
  define a where "a = s\<lparr>trace := trace s @ [c], coros := (coros s)(c \<mapsto> x\<lparr>code := f, status := CORO_YIELD\<rparr>)\<rparr>"
  obtain b where b: "maybe_check a = Some b" "same_but_time a b"
    using maybe_check_empty [of a] h by (auto simp: a_def)
  have "x\<lparr>code := f, status := CORO_ACTIVE\<rparr> = x\<lparr>code := f\<rparr>" using x(2) by simp
  moreover have "coro_turn s c = Option.bind (maybe_check a) (\<lambda>b. pick_next b c)"
    using x by (simp add: coro_turn_def sche_next_def set_status_def a_def)
  ultimately show ?thesis using b nxt x(2)
    by (auto simp: pick_next_def set_status_def push_active_def same_but_time_def a_def split: list.splits)
qed

lemma turn_die:
  assumes x: "coros s c = Some x" "code x = []"
  shows "coro_turn s c = Some (s\<lparr>trace := trace s @ [c], coros := (coros s)(c \<mapsto> x\<lparr>status := CORO_DIE\<rparr>)\<rparr>, sche_co s)"
  using x by (simp add: coro_turn_def set_status_def)

section \<open>The ring of coroutines\<close>

definition yielding :: "sche \<Rightarrow> addr \<times> nat \<Rightarrow> bool" where
  "yielding s = (\<lambda>(c, k). c \<noteq> sche_co s \<and> hindex (heap s) c = Some 0 \<and>
     (\<exists>x. coros s c = Some x \<and> status x = CORO_ACTIVE \<and> code x = replicate k Yield))"

definition crew :: "sche \<Rightarrow> coro_status \<Rightarrow> (addr \<times> nat) list \<Rightarrow> bool" where
  "crew s st q \<longleftrightarrow> (\<forall>x \<in> set q. yielding s x) \<and> distinct (map fst q) \<and> hsize (heap s) = 0 \<and>
     (\<exists>x. coros s (sche_co s) = Some x \<and> status x = st) \<and>
     coro_size s = int (length q) \<and> coro_size s \<le> INT32_MAX \<and> \<not> stop s"

text \<open>
  The active list holds the waiting coroutines; until the scheduler has been taken from it once, it is in the list
  as well, behind those that have not had a turn. The last of these must still have a yield to do.
\<close>

definition ring :: "sche \<Rightarrow> (addr \<times> nat) list \<Rightarrow> (addr \<times> nat) list \<Rightarrow> bool" where
  "ring s p q \<longleftrightarrow> active_list s = map fst q \<or>
     (\<exists>q1 q2. q = q1 @ q2 \<and> p @ q1 \<noteq> [] \<and> active_list s = map fst q1 @ sche_co s # map fst q2 \<and> 0 < snd (last (p @ q1)))"

text \<open>The final state.\<close>

definition finished :: "sche \<Rightarrow> (addr \<times> nat) list \<Rightarrow> sche \<Rightarrow> bool" where
  "finished s q s' \<longleftrightarrow> stop s' \<and> trace s' = trace s @ rr q \<and> active_list s' = [] \<and> hsize (heap s') = 0 \<and>
     sche_co s' = sche_co s \<and> coros s' (sche_co s) \<noteq> None \<and>
     (\<forall>c. c \<noteq> sche_co s \<longrightarrow> coros s' c = (if c \<in> fst ` set q then None else coros s c))"

lemma schedule_resumes:
  assumes cr: "crew s st q" and st: "st = CORO_ACTIVE \<and> ring s [] q \<or> st = CORO_YIELD \<and> active_list s = map fst q \<and> 0 < snd (last q)"
    and q: "q = (c, k) # r"
  shows "\<exists>s2. sche_schedule s = resume s2 c \<and> crew s2 CORO_ACTIVE q \<and> ring s2 [(c, k)] r \<and>
    trace s2 = trace s \<and> sche_co s2 = sche_co s \<and> (\<forall>d. d \<noteq> sche_co s \<longrightarrow> coros s2 d = coros s d)"
proof -
  obtain s1 where s1: "maybe_check s = Some s1" "same_but_time s s1"
    using maybe_check_empty [of s] cr by (auto simp: crew_def)
  obtain x where x: "coros s (sche_co s) = Some x" "status x = st" using cr by (auto simp: crew_def)
  have c: "c \<noteq> sche_co s" using cr q by (auto simp: crew_def yielding_def)
  have hd: "\<exists>l. active_list s = c # l"
    using st q by (auto simp: ring_def Cons_eq_append_conv)
  then obtain l where l: "active_list s = c # l" by blast
  note nst = cr [unfolded crew_def]
  show ?thesis
  proof (cases "st = CORO_ACTIVE")
    case True
    have "pick_next s1 (sche_co s1) = Some (s1\<lparr>active_list := l, ti := ti s1 + 1\<rparr>, c)"
      using s1(2) l x c True by (simp add: pick_next_def same_but_time_def)
    then have "sche_schedule s = resume (s1\<lparr>active_list := l, ti := ti s1 + 1\<rparr>) c"
      using s1 l nst by (intro schedule_switch) (auto simp: same_but_time_def)
    moreover have "ring (s1\<lparr>active_list := l, ti := ti s1 + 1\<rparr>) [(c, k)] r"
      using st [unfolded ring_def] True
    proof (elim disjE exE conjE)
      assume "active_list s = map fst q"
      then show ?thesis using l q by (simp add: ring_def)
    next
      fix q1 q2 assume a: "q = q1 @ q2" "[] @ q1 \<noteq> []" "active_list s = map fst q1 @ sche_co s # map fst q2" "0 < snd (last ([] @ q1))"
      then obtain q1' where "q1 = (c, k) # q1'" using q by (cases q1) auto
      then show ?thesis unfolding ring_def using a l q s1(2)
        by (intro disjI2 exI [of _ q1'] exI [of _ q2]) (simp add: same_but_time_def)
    qed (use True in simp_all)
    ultimately show ?thesis using s1(2) nst True
      by (intro exI [of _ "s1\<lparr>active_list := l, ti := ti s1 + 1\<rparr>"]) (simp add: same_but_time_def crew_def yielding_def)
  next
    case False
    then have y: "st = CORO_YIELD" "active_list s = map fst q" "0 < snd (last q)" using st by auto
    define s2 where "s2 = s1\<lparr>active_list := l @ [sche_co s], coros := (coros s1)(sche_co s \<mapsto> x\<lparr>status := CORO_ACTIVE\<rparr>), ti := ti s1 + 1\<rparr>"
    have "pick_next s1 (sche_co s1) = Some (s2, c)"
      using s1(2) l x c y(1) by (simp add: pick_next_def same_but_time_def set_status_def push_active_def s2_def)
    then have "sche_schedule s = resume s2 c"
      using s1 l nst by (intro schedule_switch) (auto simp: same_but_time_def)
    moreover have "ring s2 [(c, k)] r"
      using y l q s1(2) unfolding ring_def by (intro disjI2 exI [of _ r] exI [of _ "[]"]) (simp add: s2_def same_but_time_def)
    moreover have "crew s2 CORO_ACTIVE q"
      using nst s1(2) by (auto simp: same_but_time_def crew_def yielding_def s2_def)
    ultimately show ?thesis using s1(2)
      by (intro exI [of _ s2]) (simp add: same_but_time_def s2_def)
  qed
qed

text \<open>A turn that ends with a yield, and one that ends the coroutine.\<close>

lemma yield_turn:
  assumes cr: "crew s CORO_ACTIVE ((c, Suc k) # r)" and rg: "ring s [(c, Suc k)] r"
  shows "\<exists>s1 nxt. coro_turn s c = Some (s1, nxt) \<and> crew s1 CORO_ACTIVE (r @ [(c, k)]) \<and> trace s1 = trace s @ [c] \<and>
    sche_co s1 = sche_co s \<and> (\<forall>d. d \<noteq> c \<longrightarrow> coros s1 d = coros s d) \<and>
    (if nxt = sche_co s then ring s1 [] (r @ [(c, k)])
     else \<exists>k' r'. r = (nxt, k') # r' \<and> ring s1 [(nxt, k')] (r' @ [(c, k)]))"
proof -
  obtain x where x: "coros s c = Some x" "status x = CORO_ACTIVE" "code x = Yield # replicate k Yield"
    using cr by (auto simp: crew_def yielding_def)
  have ne: "c \<noteq> sche_co s" "c \<notin> fst ` set r" "sche_co s \<notin> fst ` set r"
    using cr by (auto simp: crew_def yielding_def)
  define nxt where "nxt = (case active_list s of [] \<Rightarrow> sche_co s | n # l \<Rightarrow> n)"
  have "set (active_list s) \<subseteq> insert (sche_co s) (fst ` set r)" using rg by (auto simp: ring_def)
  then have "nxt \<noteq> c" using ne by (auto simp: nxt_def split: list.splits)
  then obtain s1 where s1: "coro_turn s c = Some (s1, nxt)" "coros s1 = (coros s)(c \<mapsto> x\<lparr>code := replicate k Yield\<rparr>)"
    "active_list s1 = tl (active_list s) @ [c]" "sche_co s1 = sche_co s" "heap s1 = heap s"
    "coro_size s1 = coro_size s" "stop s1 = stop s" "trace s1 = trace s @ [c]"
    using turn_yield [OF x _ nxt_def] cr by (auto simp: crew_def)
  have "crew s1 CORO_ACTIVE (r @ [(c, k)])"
    using cr s1 x(1,2) ne by (force simp: crew_def yielding_def)
  moreover have "if nxt = sche_co s then ring s1 [] (r @ [(c, k)])
     else \<exists>k' r'. r = (nxt, k') # r' \<and> ring s1 [(nxt, k')] (r' @ [(c, k)])"
    using rg [unfolded ring_def]
  proof (elim disjE exE conjE)
    assume a: "active_list s = map fst r"
    show ?thesis
    proof (cases r)
      case Nil
      then show ?thesis using a s1 by (simp add: nxt_def ring_def)
    next
      case (Cons y r')
      then have "nxt = fst y" "nxt \<noteq> sche_co s" using a ne by (auto simp: nxt_def)
      then show ?thesis using Cons a s1 by (cases y) (simp add: ring_def)
    qed
  next
    fix q1 q2 assume q: "r = q1 @ q2" "active_list s = map fst q1 @ sche_co s # map fst q2" "0 < snd (last ([(c, Suc k)] @ q1))"
    show ?thesis
    proof (cases q1)
      case Nil
      then show ?thesis using q s1 by (simp add: nxt_def ring_def)
    next
      case (Cons y q1')
      then have "nxt = fst y" "nxt \<noteq> sche_co s" using q ne by (auto simp: nxt_def)
      moreover have "ring s1 [y] (q1' @ q2 @ [(c, k)])"
        unfolding ring_def using q s1 Cons by (intro disjI2 exI [of _ q1'] exI [of _ "q2 @ [(c, k)]"]) simp
      ultimately show ?thesis using Cons q(1) by (cases y) simp
    qed
  qed
  ultimately show ?thesis using s1 by (intro exI [of _ s1] exI [of _ nxt]) simp
qed

lemma die_turn:
  assumes cr: "crew s CORO_ACTIVE ((c, 0) # r)" and rg: "ring s [(c, 0)] r"
  shows "\<exists>s1 s2. coro_turn s c = Some (s1, sche_co s) \<and> reap s1 c = Some s2 \<and> sche_co s1 = sche_co s \<and> sche_co s2 = sche_co s \<and>
    trace s2 = trace s @ [c] \<and> (\<forall>d. coros s2 d = (if d = c then None else coros s d)) \<and> hsize (heap s2) = 0 \<and>
    (if r = [] then stop s2 \<and> active_list s2 = [] else crew s2 CORO_ACTIVE r \<and> ring s2 [] r)"
proof -
  obtain x where x: "coros s c = Some x" "code x = []" "hindex (heap s) c = Some 0"
    using cr by (auto simp: crew_def yielding_def)
  have ne: "c \<noteq> sche_co s" "c \<notin> fst ` set r" using cr by (auto simp: crew_def yielding_def)
  note t = turn_die [OF x(1,2)]
  define s1 where "s1 = s\<lparr>trace := trace s @ [c], coros := (coros s)(c \<mapsto> x\<lparr>status := CORO_DIE\<rparr>)\<rparr>"
  define s2 where "s2 = s1\<lparr>coros := (coros s1)(c := None), heap := (heap s)\<lparr>hindex := (hindex (heap s))(c := None)\<rparr>,
    coro_size := coro_size s - 1, stop := (r = [])\<rparr>"
  have "reap s1 c = Some s2"
    using x cr by (auto simp: reap_def coro_destroy_def s1_def s2_def crew_def)
  moreover have "if r = [] then stop s2 \<and> active_list s2 = [] else crew s2 CORO_ACTIVE r \<and> ring s2 [] r"
  proof (cases "r = []")
    case True
    then show ?thesis using rg by (auto simp: ring_def s1_def s2_def)
  next
    case False
    have "yielding s2 y" if "y \<in> set r" for y
    proof -
      have "yielding s y" "fst y \<noteq> c" using that cr ne(2) by (auto simp: crew_def)
      then show ?thesis by (simp add: yielding_def s1_def s2_def split: prod.splits)
    qed
    then have "crew s2 CORO_ACTIVE r" using cr ne False by (simp add: crew_def s1_def s2_def)
    moreover have "ring s2 [] r"
      using rg [unfolded ring_def]
    proof (elim disjE exE conjE)
      fix q1 q2 assume a: "r = q1 @ q2" "active_list s = map fst q1 @ sche_co s # map fst q2" "0 < snd (last ([(c, 0)] @ q1))"
      then have "q1 \<noteq> []" by auto
      with a show ?thesis unfolding ring_def by (intro disjI2 exI [of _ q1] exI [of _ q2]) (simp add: s1_def s2_def)
    qed (simp add: ring_def s1_def s2_def)
    ultimately show ?thesis using False by simp
  qed
  ultimately show ?thesis using t cr
    by (intro exI [of _ s1] exI [of _ s2]) (auto simp: s1_def s2_def crew_def)
qed

lemma resume_all:
  assumes "q = (c, k) # r" "crew s CORO_ACTIVE q" "ring s [(c, k)] r"
  shows "\<exists>s'. resume s c = Some (Some s') \<and> finished s q s'"
  using assms
proof (induction q arbitrary: s c k r rule: rr.induct)
  case 1
  then show ?case by simp
next
  case (2 c0 r0)
  then have eq: "c0 = c" "k = 0" "r0 = r" by auto
  obtain s1 s2 where t: "coro_turn s c = Some (s1, sche_co s)" "reap s1 c = Some s2" "sche_co s1 = sche_co s" "sche_co s2 = sche_co s"
    "trace s2 = trace s @ [c]" "\<forall>d. coros s2 d = (if d = c then None else coros s d)" "hsize (heap s2) = 0"
    "if r = [] then stop s2 \<and> active_list s2 = [] else crew s2 CORO_ACTIVE r \<and> ring s2 [] r"
    using die_turn [of s c r] 2(3,4) eq by auto
  have ne: "c \<noteq> sche_co s" "coros s (sche_co s) \<noteq> None" using 2(3) eq by (auto simp: crew_def yielding_def)
  have res: "resume s c = sche_schedule s2" using resume_turn [OF t(1)] t by simp
  show ?case
  proof (cases r)
    case Nil
    then have "sche_schedule s2 = Some (Some s2)" using t(8) by (subst sche_schedule.simps) simp
    then show ?thesis using Nil t res ne eq by (auto simp: finished_def)
  next
    case (Cons y r1)
    obtain c1 k1 where y: "y = (c1, k1)" by (cases y)
    obtain s3 where s3: "sche_schedule s2 = resume s3 c1" "crew s3 CORO_ACTIVE r" "ring s3 [(c1, k1)] r1"
      "trace s3 = trace s2" "sche_co s3 = sche_co s2" "\<forall>d. d \<noteq> sche_co s2 \<longrightarrow> coros s3 d = coros s2 d"
      using schedule_resumes [of s2 CORO_ACTIVE r c1 k1 r1] t(8) Cons y by auto
    then obtain s' where s': "resume s3 c1 = Some (Some s')" "finished s3 r s'"
      using 2(1) [of c1 k1 r1 s3] Cons y eq by auto
    then show ?thesis using res s3 t(4-6) ne eq unfolding finished_def by (intro exI [of _ s']) auto
  qed
next
  case (3 c0 k0 r0)
  then have eq: "c0 = c" "k = Suc k0" "r0 = r" by auto
  obtain s1 nxt where t: "coro_turn s c = Some (s1, nxt)" "crew s1 CORO_ACTIVE (r @ [(c, k0)])" "trace s1 = trace s @ [c]"
    "sche_co s1 = sche_co s" "\<forall>d. d \<noteq> c \<longrightarrow> coros s1 d = coros s d"
    "if nxt = sche_co s then ring s1 [] (r @ [(c, k0)])
     else \<exists>k' r'. r = (nxt, k') # r' \<and> ring s1 [(nxt, k')] (r' @ [(c, k0)])"
    using yield_turn [of s c k0 r] 3(3,4) eq by auto
  have ne: "c \<noteq> sche_co s" using 3(3) eq by (auto simp: crew_def yielding_def)
  have fin: "finished s ((c, Suc k0) # r) s'" if "finished s3 (r @ [(c, k0)]) s'" "trace s3 = trace s1" "sche_co s3 = sche_co s1"
      "\<forall>d. d \<noteq> sche_co s \<longrightarrow> coros s3 d = coros s1 d" for s3 s'
    using that t(3-5) ne unfolding finished_def by auto
  show ?case
  proof (cases "nxt = sche_co s")
    case True
    have "reap s1 c = Some s1"
      using t(2) by (auto simp: reap_def crew_def yielding_def)
    then have res: "resume s c = sche_schedule s1" using resume_turn [OF t(1)] t(4) True by simp
    obtain c1 k1 r1 where y: "r @ [(c, k0)] = (c1, k1) # r1" by (cases "r @ [(c, k0)]") auto
    obtain s3 where s3: "sche_schedule s1 = resume s3 c1" "crew s3 CORO_ACTIVE (r @ [(c, k0)])" "ring s3 [(c1, k1)] r1"
      "trace s3 = trace s1" "sche_co s3 = sche_co s1" "\<forall>d. d \<noteq> sche_co s1 \<longrightarrow> coros s3 d = coros s1 d"
      using schedule_resumes [of s1 CORO_ACTIVE "r @ [(c, k0)]" c1 k1 r1] t(2,6) True y by auto
    obtain s' where "resume s3 c1 = Some (Some s')" "finished s3 (r @ [(c, k0)]) s'"
      using 3(1) [of c1 k1 r1 s3] s3(2,3) y eq by auto
    then show ?thesis using fin s3 res t(4) eq by (intro exI [of _ s']) auto
  next
    case False
    then obtain k' r' where r: "r = (nxt, k') # r'" "ring s1 [(nxt, k')] (r' @ [(c, k0)])" using t(6) by auto
    have res: "resume s c = resume s1 nxt" using resume_turn [OF t(1)] t(4) False by simp
    obtain s' where "resume s1 nxt = Some (Some s')" "finished s1 (r @ [(c, k0)]) s'"
      using 3(1) [of nxt k' "r' @ [(c, k0)]" s1] t(2) r eq by auto
    then show ?thesis using fin res eq by (intro exI [of _ s']) auto
  qed
qed

text \<open>The order, round by round.\<close>

definition dec :: "(addr \<times> nat) list \<Rightarrow> (addr \<times> nat) list" where
  "dec q = map (\<lambda>(c, k). (c, k - 1)) (filter (\<lambda>(c, k). 0 < k) q)"

lemma rr_round: "rr (q1 @ q2) = map fst q1 @ rr (q2 @ dec q1)"
proof (induction q1 arbitrary: q2)
  case (Cons x q1)
  obtain c k where x: "x = (c, k)" by (cases x)
  show ?case using Cons [of q2] Cons [of "q2 @ [(c, k - 1)]"] by (cases k) (simp_all add: x dec_def)
qed (simp add: dec_def)

definition rounds :: "nat \<Rightarrow> (addr \<times> nat) list \<Rightarrow> addr list" where
  "rounds n q = concat (map (\<lambda>i. map fst (filter (\<lambda>x. i \<le> snd x) q)) [0..<n])"

lemma filter_dec: "map fst (filter (\<lambda>x. Suc i \<le> snd x) q) = map fst (filter (\<lambda>x. i \<le> snd x) (dec q))"
  by (induction q) (auto simp: dec_def)

lemma rr_rounds:
  assumes "\<forall>x \<in> set q. snd x < n"
  shows "rr q = rounds n q"
  using assms
proof (induction n arbitrary: q)
  case 0
  then show ?case by (cases q) (auto simp: rounds_def)
next
  case (Suc n)
  have "rr (dec q) = rounds n (dec q)" using Suc(2) by (intro Suc(1)) (force simp: dec_def)
  moreover have "rounds (Suc n) q = map fst q @ rounds n (dec q)"
  proof -
    have "[0..<Suc n] = 0 # map Suc [0..<n]" by (simp add: map_Suc_upt upt_conv_Cons del: upt_Suc)
    then show ?thesis by (simp add: rounds_def filter_dec comp_def del: upt_Suc)
  qed
  ultimately show ?case using rr_round [of q "[]"] by simp
qed

section \<open>Programs\<close>

text \<open>\<open>main\<close> of \<open>coro/testcoro.c\<close>: coroutines that yield a number of times, spawned one after the other.\<close>

fun spawn_yielders :: "sche \<Rightarrow> (nat \<times> u32) list \<Rightarrow> sche option" where
  "spawn_yielders s [] = Some s"
| "spawn_yielders s ((n, a) # l) = do { (s1, _) \<leftarrow> sche_spawn s (replicate n Yield) a; spawn_yielders s1 l }"

lemma sche_create_crew:
  "crew (sche_create mx clk) CORO_YIELD []" "active_list (sche_create mx clk) = []" "fresh (sche_create mx clk) = 2"
  "sche_co (sche_create mx clk) = 1" "trace (sche_create mx clk) = []" "\<forall>c. c \<noteq> 1 \<longrightarrow> coros (sche_create mx clk) c = None"
  by (simp_all add: sche_create_def co_clock_def coro_create_def crew_def minheap_create_def Let_def)

lemma spawn_yielders_crew:
  assumes "crew s CORO_YIELD q" "active_list s = map fst q" "\<forall>c \<in> insert (sche_co s) (fst ` set q). c < fresh s"
    "length q + length l \<le> nat INT32_MAX"
  shows "\<exists>s'. spawn_yielders s l = Some s' \<and> crew s' CORO_YIELD (q @ zip [fresh s..<fresh s + length l] (map fst l)) \<and>
    active_list s' = map fst (q @ zip [fresh s..<fresh s + length l] (map fst l)) \<and> trace s' = trace s \<and> sche_co s' = sche_co s \<and>
    (\<forall>c. c < fresh s \<or> fresh s + length l \<le> c \<longrightarrow> coros s' c = coros s c)"
  using assms
proof (induction l arbitrary: s q)
  case (Cons x l)
  obtain n a where x: "x = (n, a)" by (cases x)
  let ?c = "fresh s"
  have sz: "coro_size s = int (length q)" "coro_size s + 1 \<le> INT32_MAX" "INT32_MIN \<le> coro_size s + 1"
    using Cons(2,5) by (auto simp: crew_def)
  obtain s1 where s1: "sche_spawn s (replicate n Yield) a = Some (s1, ?c)" "fresh s1 = fresh s + 1" "trace s1 = trace s"
    "coros s1 = (coros s)(?c \<mapsto> \<lparr>status = CORO_ACTIVE, timeout = 0, carg = a, code = replicate n Yield\<rparr>)"
    "heap s1 = (heap s)\<lparr>hindex := (hindex (heap s))(?c \<mapsto> 0)\<rparr>" "coro_size s1 = coro_size s + 1"
    "active_list s1 = active_list s @ [?c]" "sche_co s1 = sche_co s" "stop s1 = stop s"
    using sz by (auto simp: sche_spawn_def coro_create_def coro_start_def push_active_def set_status_def)
  have new: "?c \<noteq> sche_co s" "?c \<notin> fst ` set q" using Cons(4) by auto
  have y: "yielding s1 y" if "y \<in> set q" for y
  proof -
    have "yielding s y" "fst y \<noteq> ?c" using that Cons(2) new by (auto simp: crew_def image_iff)
    then show ?thesis by (simp add: yielding_def s1 split: prod.splits)
  qed
  have "crew s1 CORO_YIELD (q @ [(?c, n)])"
    using Cons(2) y s1 new sz by (auto simp: crew_def yielding_def)
  then obtain s' where s': "spawn_yielders s1 l = Some s'" "crew s' CORO_YIELD ((q @ [(?c, n)]) @ zip [fresh s1..<fresh s1 + length l] (map fst l))"
    "active_list s' = map fst ((q @ [(?c, n)]) @ zip [fresh s1..<fresh s1 + length l] (map fst l))" "trace s' = trace s1" "sche_co s' = sche_co s1"
    "\<forall>c. c < fresh s1 \<or> fresh s1 + length l \<le> c \<longrightarrow> coros s' c = coros s1 c"
    using Cons(1) [of s1 "q @ [(?c, n)]"] Cons(3-5) s1 by (auto simp: less_Suc_eq)
  moreover have "q @ zip [fresh s..<fresh s + length (x # l)] (map fst (x # l)) =
      (q @ [(?c, n)]) @ zip [fresh s1..<fresh s1 + length l] (map fst l)"
  proof -
    have "[fresh s..<fresh s + length (x # l)] = fresh s # [fresh s1..<fresh s1 + length l]"
      using s1(2) by (simp add: upt_conv_Cons del: upt_Suc)
    then show ?thesis using x by simp
  qed
  moreover have "coros s' c = coros s c" if c: "c < fresh s \<or> fresh s + length (x # l) \<le> c" for c
  proof -
    have "coros s' c = coros s1 c" using s'(6) s1(2) c by auto
    moreover have "coros s1 c = coros s c" using s1(4) c by auto
    ultimately show ?thesis by simp
  qed
  moreover have "spawn_yielders s (x # l) = Some s'" using s1(1) s'(1) x by simp
  ultimately show ?case using s1(3,8) by (intro exI [of _ s']) (simp only: simp_thms, simp)
qed simp

lemma destroy_finished:
  assumes "finished s q s'"
  shows "sche_destroy s' \<noteq> None"
  using assms by (auto simp: finished_def sche_destroy_def coro_destroy_def)

text \<open>
  Claim C32. Round robin. A scheduler on which any number of coroutines has been spawned, each of which yields some
  number of times and returns, ends: every coroutine gets the processor once in every round until it has returned, in the
  order of spawning, all are destroyed, and the scheduler can be destroyed. The clock may do anything.
  The coroutine spawned last has to yield at least once: the status of the scheduler itself is 0, which is
  \<open>CORO_YIELD\<close>, so its first round puts it into the active list, and it may find itself there.
\<close>

theorem schedule_round_robin:
  assumes "ns \<noteq> []" "0 < fst (last ns)" "length ns \<le> nat INT32_MAX" "\<forall>x \<in> set ns. fst x < m"
  shows "\<exists>s s'. spawn_yielders (sche_create mx clk) ns = Some s \<and> sche_schedule s = Some (Some s') \<and>
    trace s' = rounds m (zip [2..<2 + length ns] (map fst ns)) \<and>
    (\<forall>c. c \<noteq> sche_co s' \<longrightarrow> coros s' c = None) \<and> sche_destroy s' \<noteq> None"
proof -
  define q where "q = zip [2..<2 + length ns] (map fst ns)"
  obtain s where s: "spawn_yielders (sche_create mx clk) ns = Some s" "crew s CORO_YIELD q" "active_list s = map fst q"
    "trace s = []" "sche_co s = 1" "\<forall>c. c < 2 \<or> 2 + length ns \<le> c \<longrightarrow> coros s c = coros (sche_create mx clk) c"
    using spawn_yielders_crew [of "sche_create mx clk" "[]" ns] assms(3) by (auto simp: sche_create_crew q_def)
  have fst_q: "fst ` set q = {2..<2 + length ns}"
  proof -
    have "map fst q = [2..<2 + length ns]" unfolding q_def by (rule map_fst_zip) (simp only: length_upt length_map diff_add_inverse)
    then show ?thesis by (metis list.set_map set_upt)
  qed
  have "map snd q = map fst ns" unfolding q_def by (rule map_snd_zip) (simp only: length_upt length_map diff_add_inverse)
  then have last_q: "0 < snd (last q)" and "q \<noteq> []" and lt: "\<forall>x \<in> set q. snd x < m"
    using assms(1,2,4) by (metis last_map list.map_disc_iff, metis list.map_disc_iff, metis (no_types, lifting) imageE image_eqI list.set_map)
  then obtain c k r where q: "q = (c, k) # r" by (cases q) auto
  obtain s2 where s2: "sche_schedule s = resume s2 c" "crew s2 CORO_ACTIVE q" "ring s2 [(c, k)] r" "trace s2 = trace s"
    "sche_co s2 = sche_co s" "\<forall>d. d \<noteq> sche_co s \<longrightarrow> coros s2 d = coros s d"
    using schedule_resumes [OF s(2) _ q] s(3) last_q by auto
  obtain s' where s': "resume s2 c = Some (Some s')" "finished s2 q s'"
    using resume_all [OF q s2(2,3)] by blast
  have "coros s' d = None" if "d \<noteq> sche_co s'" for d
    using that s'(2) s2 s(5,6) sche_create_crew(6) [of mx clk] fst_q by (auto simp: finished_def)
  then show ?thesis
    using s(1) s2(1) s' s2(4) s(4) rr_rounds [OF lt] destroy_finished [OF s'(2)] unfolding q_def [symmetric]
    by (intro exI [of _ s] exI [of _ s']) (simp add: finished_def)
qed

theorem schedule_round_robin_witness:
  "\<exists>s s'. spawn_yielders (sche_create 10 (\<lambda>i. word_of_nat i)) [(0 :: nat, 7 :: u32), (2, 8)] = Some s \<and> sche_schedule s = Some (Some s') \<and>
    trace s' = rounds 3 (zip [2..<2 + length [(0 :: nat, 7 :: u32), (2, 8)]] (map fst [(0, 7 :: u32), (2, 8)])) \<and>
    (\<forall>c. c \<noteq> sche_co s' \<longrightarrow> coros s' c = None) \<and> sche_destroy s' \<noteq> None"
  by (rule schedule_round_robin) auto

text \<open>
  The condition on the last coroutine is needed: the first coroutine yields, the second returns at
  once, and the scheduler, woken by it, takes itself from the active list.
\<close>

theorem scheduler_meets_itself:
  "\<exists>s. spawn_yielders (sche_create mx clk) [(1, a), (0, b)] = Some s \<and> sche_schedule s = Some None"
proof -
  define h where "h = (minheap_create mx Map.empty)\<lparr>hindex := [1 \<mapsto> 0, 2 \<mapsto> 0, 3 \<mapsto> 0]\<rparr>"
  define k where "k = (\<lambda>st a f. \<lparr>status = st, timeout = 0, carg = a, code = f\<rparr>)"
  define st where "st = (\<lambda>m l t tr. \<lparr>coros = m, sche_co = 1, active_list = l, heap = h,
    next_check_timeout = clk 0 + 200, stop = False, coro_size = 2, ti = t, clock = clk, reads = 1, fresh = 4, trace = tr\<rparr>)"
  define s where "s = st [1 \<mapsto> k CORO_YIELD 0 [], 2 \<mapsto> k CORO_ACTIVE a [Yield], 3 \<mapsto> k CORO_ACTIVE b []] [2, 3] 0 []"
  define s1 where "s1 = st [1 \<mapsto> k CORO_ACTIVE 0 [], 2 \<mapsto> k CORO_ACTIVE a [Yield], 3 \<mapsto> k CORO_ACTIVE b []] [3, 1] 1 []"
  define s2 where "s2 = st [1 \<mapsto> k CORO_ACTIVE 0 [], 2 \<mapsto> k CORO_ACTIVE a [], 3 \<mapsto> k CORO_ACTIVE b []] [1, 2] 2 [2]"
  define s3 where "s3 = st [1 \<mapsto> k CORO_ACTIVE 0 [], 2 \<mapsto> k CORO_ACTIVE a [], 3 \<mapsto> k CORO_DIE b []] [1, 2] 2 [2, 3]"
  define s4 where "s4 = s3\<lparr>coros := (coros s3)(3 := None), heap := h\<lparr>hindex := (hindex h)(3 := None)\<rparr>, coro_size := 1\<rparr>"
  have sp: "spawn_yielders (sche_create mx clk) [(1, a), (0, b)] = Some s"
    by (simp add: s_def st_def h_def k_def sche_create_def co_clock_def coro_create_def sche_spawn_def coro_start_def
        push_active_def set_status_def minheap_create_def numeral_2_eq_2 numeral_3_eq_3 numeral_eq_Suc)
  have p: "maybe_check s = Some s" "pick_next s 1 = Some (s1, 2)" "sche_co s = 1" "active_list s \<noteq> []" "\<not> stop s"
    by (simp_all add: maybe_check_def pick_next_def set_status_def push_active_def s_def s1_def st_def k_def fun_upd_twist)
  have t1: "coro_turn s1 2 = Some (s2, 3)"
    by (simp add: coro_turn_def sche_next_def maybe_check_def pick_next_def set_status_def push_active_def s1_def s2_def st_def k_def fun_upd_twist Let_def word_le_nat_alt)
  have t2: "coro_turn s2 3 = Some (s3, 1)"
    by (simp add: coro_turn_def set_status_def s2_def s3_def st_def k_def)
  have rp: "reap s3 3 = Some s4"
    by (simp add: reap_def coro_destroy_def s4_def s3_def st_def k_def h_def)
  have "pick_next s4 (sche_co s4) = None" "maybe_check s4 = Some s4" "active_list s4 \<noteq> []" "\<not> stop s4"
    by (simp_all add: maybe_check_def pick_next_def s4_def s3_def st_def k_def word_le_nat_alt)
  then have "sche_schedule s4 = Some None" by (subst sche_schedule.simps) simp
  moreover have "sche_schedule s = resume s1 2" using schedule_switch [of s s s1 2] p by simp
  moreover have "resume s1 2 = resume s2 3" using resume_turn [OF t1] by (simp add: s2_def st_def)
  moreover have "resume s2 3 = sche_schedule s4" using resume_turn [OF t2] rp by (simp add: s3_def st_def)
  ultimately show ?thesis using sp by auto
qed

section \<open>Sleeping\<close>

text \<open>
  A state in which nothing is active and the first coroutine of the heap is due before any reading of the clock that leads to a
  check: the check stops at it.
\<close>

definition forgotten :: "sche \<Rightarrow> bool" where
  "forgotten s \<longleftrightarrow> \<not> stop s \<and> active_list s = [] \<and>
     (\<exists>c k. minheap_min (heap s) = Some c \<and> c \<noteq> NULL \<and> coros s c = Some k \<and>
        (\<forall>i \<ge> reads s. next_check_timeout s \<le> clock s i \<longrightarrow> (\<forall>j \<ge> i. timeout k < clock s j)))"

lemma forgotten_check:
  assumes "forgotten s"
  shows "\<exists>s1. maybe_check s = Some s1 \<and> active_list s1 = [] \<and> (\<forall>x. forgotten (s1\<lparr>ti := x\<rparr>))"
proof -
  from assms obtain c k where c: "minheap_min (heap s) = Some c" "c \<noteq> NULL" "coros s c = Some k"
    "\<forall>i \<ge> reads s. next_check_timeout s \<le> clock s i \<longrightarrow> (\<forall>j \<ge> i. timeout k < clock s j)"
    by (auto simp: forgotten_def)
  show ?thesis
  proof (cases "ti s \<ge> 100 \<and> next_check_timeout s \<le> clock s (reads s)")
    case True
    have due: "\<forall>j \<ge> reads s. timeout k < clock s j" using c(4) True by blast
    have "check_loop (s\<lparr>ti := 0, reads := Suc (reads s)\<rparr>) (clock s (reads s)) = Some (s\<lparr>ti := 0, reads := Suc (reads s)\<rparr>)"
      using c due by (subst check_loop.simps) simp
    then show ?thesis using True assms c due
      by (auto simp: maybe_check_def check_time_out_def co_clock_def forgotten_def)
  next
    case False
    then show ?thesis using assms c
      by (auto simp: maybe_check_def co_clock_def forgotten_def dest: Suc_leD)
  qed
qed

lemma forgotten_never_ends:
  assumes "forgotten s"
  shows "sche_schedule s = None"
proof -
  have "\<not> forgotten s" if "sche_schedule s = Some y" for s y
    using that
  proof (rule sche_schedule.raw_induct [rotated])
    fix sched s y
    assume IH: "\<And>s y. sched s = Some y \<Longrightarrow> \<not> forgotten s"
      and body: "(if stop s then Some (Some s)
      else case maybe_check s of
        None \<Rightarrow> Some None
      | Some s1 \<Rightarrow>
          if active_list s1 = [] then sched (s1\<lparr>ti := ti s1 + 50\<rparr>)
          else case pick_next s1 (sche_co s1) of
            None \<Rightarrow> Some None
          | Some (s2, nxt) \<Rightarrow> Option.bind (switch_to s2 nxt) (\<lambda>r.
              case r of
                None \<Rightarrow> Some None
              | Some (s3, co) \<Rightarrow>
                  (case reap s3 co of
                     None \<Rightarrow> Some None
                   | Some s4 \<Rightarrow> sched s4))) = Some y"
    show "\<not> forgotten s"
    proof
      assume f: "forgotten s"
      obtain s1 where s1: "maybe_check s = Some s1" "active_list s1 = []" "forgotten (s1\<lparr>ti := ti s1 + 50\<rparr>)"
        using forgotten_check [OF f] by blast
      with body f have "sched (s1\<lparr>ti := ti s1 + 50\<rparr>) = Some y" by (simp add: forgotten_def)
      with IH s1(3) show False by blast
    qed
  qed
  with assms show ?thesis by (cases "sche_schedule s") auto
qed

text \<open>A coroutine that sleeps at once, with an array that has room for one element.\<close>

lemma insert_first:
  assumes "c \<noteq> NULL" "hindex m c = Some 0" "hsize m = 0" "1 < length (hdata m)" "1 \<le> max_size m"
  shows "\<exists>m'. minheap_insert lt m c = Some m' \<and> minheap_min m' = Some c \<and> hindex m' = (hindex m)(c \<mapsto> 1)"
  using assms
  by (simp add: minheap_insert_def set_data_def set_index_def up_def up_loop.simps parent_def minheap_min_def data_at_def)

text \<open>
  Sleeping. The check wakes a coroutine only while its time has not come: with a clock that
  does not go back, a coroutine that is spawned alone and sleeps for so short a time that it is due
  before the next check is never woken, and the schedule never ends.
\<close>

theorem sleeper_never_woken:
  assumes mono: "\<And>i j. i \<le> j \<Longrightarrow> clk i \<le> clk j" and short: "unat (clk 1) + unat ms < unat (clk 0) + 200"
    and nowrap: "unat (clk 0) + 200 < 2 ^ 32" and room: "2 \<le> mx"
  shows "\<exists>s c. sche_spawn (sche_create mx clk) (Sleep ms # f) a = Some (s, c) \<and> sche_schedule s = None"
proof -
  define h where "h = (minheap_create mx Map.empty)\<lparr>hindex := [1 \<mapsto> 0, 2 \<mapsto> 0]\<rparr>"
  define k where "k = \<lparr>status = CORO_ACTIVE, timeout = 0, carg = a, code = Sleep ms # f\<rparr>"
  define k0 where "k0 = \<lparr>status = CORO_YIELD, timeout = 0, carg = 0, code = []\<rparr>"
  define s where "s = \<lparr>coros = [1 \<mapsto> k0, 2 \<mapsto> k], sche_co = 1, active_list = [2], heap = h,
    next_check_timeout = clk 0 + 200, stop = False, coro_size = 1, ti = 0, clock = clk, reads = 1, fresh = 3, trace = []\<rparr>"
  have sp: "sche_spawn (sche_create mx clk) (Sleep ms # f) a = Some (s, 2)"
    by (simp add: s_def h_def k_def k0_def sche_create_def co_clock_def coro_create_def sche_spawn_def coro_start_def
        push_active_def set_status_def minheap_create_def numeral_2_eq_2)
  define s1 where "s1 = s\<lparr>coros := [1 \<mapsto> k0\<lparr>status := CORO_ACTIVE\<rparr>, 2 \<mapsto> k], active_list := [1], ti := 1\<rparr>"
  have p1: "maybe_check s = Some s" "pick_next s 1 = Some (s1, 2)"
    by (simp_all add: maybe_check_def pick_next_def set_status_def push_active_def s_def s1_def k0_def fun_upd_twist)
  let ?k = "\<lparr>status = CORO_SLEEP, timeout = clk 1 + ms, carg = a, code = f\<rparr>"
  define s2 where "s2 = s1\<lparr>coros := [1 \<mapsto> k0\<lparr>status := CORO_ACTIVE\<rparr>, 2 \<mapsto> ?k], reads := 2, trace := [2]\<rparr>"
  obtain m where m: "minheap_insert (coro_less s2) h 2 = Some m" "minheap_min m = Some 2" "hindex m = (hindex h)(2 \<mapsto> 1)"
    using insert_first [of 2 h "coro_less s2"] room by (auto simp: h_def minheap_create_def)
  define s3 where "s3 = s2\<lparr>heap := m, active_list := [], ti := 2\<rparr>"
  have "coro_turn s1 2 = Some (s3, 1)"
  proof -
    have "coro_turn s1 2 = Option.bind (minheap_insert (coro_less s2) h 2) (\<lambda>m. pick_next (s2\<lparr>heap := m\<rparr>) 2)"
      by (simp add: coro_turn_def coro_sleep_def sche_add_timeout_def set_status_def co_clock_def s1_def s2_def s_def k_def numeral_2_eq_2)
    moreover have "pick_next (s2\<lparr>heap := m\<rparr>) 2 = Some (s3, 1)"
      by (simp add: pick_next_def s3_def s2_def s1_def s_def)
    ultimately show ?thesis by (simp only: m(1) Option.bind.bind_lunit)
  qed
  moreover have "reap s3 2 = Some s3" using m(3) by (simp add: reap_def s3_def s2_def)
  ultimately have "resume s1 2 = sche_schedule s3"
    using resume_turn [of s1 2 s3 1] by (simp add: s3_def s2_def s1_def s_def)
  moreover have "sche_schedule s = resume s1 2"
  proof -
    have "sche_co s = 1" "active_list s \<noteq> []" "\<not> stop s" by (simp_all add: s_def)
    then show ?thesis using schedule_switch [of s s s1 2] p1 by simp
  qed
  moreover have "forgotten s3"
  proof -
    have "unat (clk 1 + ms) = unat (clk 1) + unat ms" "unat (clk 0 + 200) = unat (clk 0) + 200"
      using short nowrap by (simp_all add: unat_word_ariths)
    then have "clk 1 + ms < clk j" if "clk 0 + 200 \<le> clk i" "i \<le> j" for i j
      using short that(1) mono [OF that(2)] by (simp add: word_less_nat_alt word_le_nat_alt)
    then show ?thesis using m(2) by (auto simp: forgotten_def s3_def s2_def s1_def s_def)
  qed
  ultimately show ?thesis using sp forgotten_never_ends by auto
qed

theorem sleeper_never_woken_witness:
  "\<exists>s c. sche_spawn (sche_create 4 (\<lambda>i. if i = 0 then 0 else 150)) [Sleep 10] 0 = Some (s, c) \<and> sche_schedule s = None"
  by (rule sleeper_never_woken) auto

end
