(* ===== verification/Acceptor.thy ===== *)
theory Acceptor
  imports Connector
begin

text \<open>
  Accepting connections (\<open>src/Acceptor.c\<close>). The state extends the reactor of theory Net; \<open>select\<close>
  takes its results from a script. The callback of a listening socket gets the new handle and the listening socket,
  from which it has its user data, and is an interface with the callback of \<open>test_acceptor.c\<close> and an observer of all reports as instances.
  \<open>junk\<close> is the memory of a new socket, \<open>None\<close> when there is none.
\<close>

record st_listen =
  sl_sock :: int
  sl_fd :: int
  sl_ud :: nat

record 'u acceptor =
  a_set :: "int set"
  st_listens :: "st_listen list"
  a_selects :: "(int \<times> int set) list"
  a_app :: 'u

type_synonym 'u acsys = "'u acceptor net"
type_synonym 'u on_accept = "int \<Rightarrow> st_listen \<Rightarrow> 'u acsys \<Rightarrow> 'u acsys option"

record listen_arg =
  la_ip :: string
  la_port :: u32
  la_ud :: nat

definition upd_ac :: "'u acsys \<Rightarrow> ('u acceptor \<Rightarrow> 'u acceptor) \<Rightarrow> 'u acsys" where
  "upd_ac s f = s\<lparr>user := f (user s)\<rparr>"

definition set_fd :: "int \<Rightarrow> 'u acsys \<Rightarrow> 'u acsys option" where
  "set_fd fd s = do {
     _ \<leftarrow> assert_c (0 \<le> fd \<and> fd < int FD_SETSIZE);
     Some (upd_ac s (\<lambda>a. a\<lparr>a_set := insert fd (a_set a)\<rparr>)) }"

section \<open>Creating and destroying\<close>

fun listen_all :: "(string \<Rightarrow> bool) \<Rightarrow> ('u acsys \<Rightarrow> sock option) \<Rightarrow> listen_arg list \<Rightarrow> 'u acsys \<Rightarrow> 'u acsys option" where
  "listen_all addr_ok junk [] s = Some s"
| "listen_all addr_ok junk (x # xs) s = do {
     (s1, h) \<leftarrow> Tcp_Listen s (addr_ok (la_ip x)) (junk s);
     if h \<ge> 0
     then do {
       let s2 = fst (setNonblock s1 h);
       i \<leftarrow> GetSocketByHandle s2 h;
       k \<leftarrow> sock_at s2 i;
       s3 \<leftarrow> set_fd (sfd k) s2;
       listen_all addr_ok junk xs (upd_ac s3 (\<lambda>a. a\<lparr>st_listens := st_listens a @ [\<lparr>sl_sock = h, sl_fd = sfd k, sl_ud = la_ud x\<rparr>]\<rparr>)) }
     else listen_all addr_ok junk xs s1 }"

text \<open>The result says whether there is an acceptor, that is a socket that listens.\<close>

definition create_acceptor :: "(string \<Rightarrow> bool) \<Rightarrow> ('u acsys \<Rightarrow> sock option) \<Rightarrow> listen_arg list \<Rightarrow> 'u acsys \<Rightarrow> ('u acsys \<times> bool) option" where
  "create_acceptor addr_ok junk xs s = do {
     s1 \<leftarrow> listen_all addr_ok junk xs (upd_ac s (\<lambda>a. a\<lparr>a_set := {}, st_listens := []\<rparr>));
     Some (s1, st_listens (user s1) \<noteq> []) }"

fun close_all :: "st_listen list \<Rightarrow> 'u acsys \<Rightarrow> 'u acsys" where
  "close_all [] s = s"
| "close_all (l # ls) s = close_all ls (fst (CloseSocket s (sl_sock l)))"

definition destroy_acceptor :: "'u acsys \<Rightarrow> 'u acsys" where
  "destroy_acceptor s = upd_ac (close_all (st_listens (user s)) s) (\<lambda>a. a\<lparr>st_listens := []\<rparr>)"

section \<open>Running\<close>

text \<open>\<open>select(100, ...)\<close> looks at the descriptors below 100 only; an error leaves the set as it is.\<close>

definition select_a :: "'u acsys \<Rightarrow> 'u acsys \<times> int" where
  "select_a s = (case a_selects (user s) of
       [] \<Rightarrow> (upd_ac s (\<lambda>a. a\<lparr>a_set := {}\<rparr>), 0)
     | (r, fds) # rs \<Rightarrow>
         (upd_ac s (\<lambda>a. a\<lparr>a_set := (if r < 0 then a_set a else a_set a \<inter> fds \<inter> {0..<100}), a_selects := rs\<rparr>), r))"

partial_function (option) accept_all :: "'u on_accept \<Rightarrow> ('u acsys \<Rightarrow> sock option) \<Rightarrow> st_listen \<Rightarrow> 'u acsys \<Rightarrow> 'u acsys option" where
  "accept_all cb junk l s = do {
     (s1, h) \<leftarrow> Accept s (sl_sock l) (junk s);
     if h < 0 then Some s1
     else do { s2 \<leftarrow> cb h l s1; accept_all cb junk l s2 } }"

fun accept_ready :: "'u on_accept \<Rightarrow> ('u acsys \<Rightarrow> sock option) \<Rightarrow> st_listen list \<Rightarrow> 'u acsys \<Rightarrow> 'u acsys option" where
  "accept_ready cb junk [] s = Some s"
| "accept_ready cb junk (l # ls) s = do {
     s1 \<leftarrow> (if sl_fd l \<in> a_set (user s) then accept_all cb junk l s else Some s);
     accept_ready cb junk ls s1 }"

fun set_all :: "st_listen list \<Rightarrow> 'u acsys \<Rightarrow> 'u acsys option" where
  "set_all [] s = Some s"
| "set_all (l # ls) s = do { s1 \<leftarrow> set_fd (sl_fd l) s; set_all ls s1 }"

partial_function (option) acceptor_rounds :: "'u on_accept \<Rightarrow> ('u acsys \<Rightarrow> sock option) \<Rightarrow> u32 \<Rightarrow> 'u acsys \<Rightarrow> 'u acsys option" where
  "acceptor_rounds cb junk T s = do {
     let (s1, r) = select_a s;
     s2 \<leftarrow> (if r > 0 then accept_ready cb junk (st_listens (user s1)) s1 else Some s1);
     s3 \<leftarrow> set_all (st_listens (user s2)) (upd_ac s2 (\<lambda>a. a\<lparr>a_set := {}\<rparr>));
     (s4, tick) \<leftarrow> GetSystemMs s3;
     if tick < T then acceptor_rounds cb junk T s4 else Some s4 }"

definition acceptor_run :: "'u on_accept \<Rightarrow> ('u acsys \<Rightarrow> sock option) \<Rightarrow> u32 \<Rightarrow> 'u acsys \<Rightarrow> 'u acsys option" where
  "acceptor_run cb junk ms s = do { (s1, tick) \<leftarrow> GetSystemMs s; acceptor_rounds cb junk (tick + ms) s1 }"

section \<open>What accepting does to the handles\<close>

abbreviation valid :: "'w net \<Rightarrow> int \<Rightarrow> bool" where "valid s h \<equiv> GetSocketByHandle s h \<noteq> None"
abbreviation fd_of :: "'w net \<Rightarrow> int \<Rightarrow> int" where "fd_of s h \<equiv> sfd (socket_pool s ! nat h)"

text \<open>The handles \<open>H\<close> are new; no other socket and no engine has changed.\<close>

definition opened :: "'w net \<Rightarrow> 'w net \<Rightarrow> int set \<Rightarrow> bool" where
  "opened s s' H \<longleftrightarrow> (\<forall>h. valid s' h = (valid s h \<or> h \<in> H)) \<and> (\<forall>h \<in> H. \<not> valid s h) \<and>
     (\<forall>h. valid s h \<longrightarrow> socket_pool s' ! nat h = socket_pool s ! nat h) \<and> engine_pool s' = engine_pool s"

lemma opened_refl: "opened s s {}"
  by (simp add: opened_def)

lemma opened_trans: "opened s s1 A \<Longrightarrow> opened s1 s2 B \<Longrightarrow> opened s s2 (A \<union> B)"
  unfolding opened_def by auto

lemma opened_disjoint: "opened s s1 A \<Longrightarrow> opened s1 s2 B \<Longrightarrow> A \<inter> B = {}"
  unfolding opened_def by auto

text \<open>No slot that is free is still in a list of active sockets.\<close>

definition slots_ok :: "'w net \<Rightarrow> bool" where
  "slots_ok s \<longleftrightarrow> (\<forall>e \<in> set (engine_pool s). \<forall>i \<in> set (actived e). valid s (int i))"

lemma slots_ok_opened: "slots_ok s \<Longrightarrow> opened s s' H \<Longrightarrow> slots_ok s'"
  by (auto simp: slots_ok_def opened_def)

definition conns :: "(int \<times> u32) list \<Rightarrow> int list" where
  "conns rs = filter (\<lambda>r. 0 \<le> r) (map fst rs)"

lemma conns_append [simp]: "conns (xs @ ys) = conns xs @ conns ys" and conns_Nil [simp]: "conns [] = []"
  by (simp_all add: conns_def)

lemma accept_loop_law:
  "\<exists>used rest r. sys_results s = used @ rest \<and> accept_loop s = (s\<lparr>sys_results := rest\<rparr>, r) \<and>
     conns used = (if 0 \<le> r then [r] else []) \<and> (0 \<le> r \<longrightarrow> used \<noteq> [])"
proof (induction s rule: accept_loop.induct)
  case (1 s)
  show ?case
  proof (cases "sys_results s")
    case Nil
    then show ?thesis by (intro exI [of _ "[]"] exI [of _ "-1"]) (simp add: accept_loop.simps sys_def)
  next
    case (Cons x rs)
    obtain r e where x: "x = (r, e)" by (cases x)
    have sy: "sys s = (s\<lparr>sys_results := rs\<rparr>, r, e)" using Cons x by (simp add: sys_def)
    show ?thesis
    proof (cases "r < 0 \<and> (e = 71 \<or> e = 103)")
      case True
      obtain used rest q where "rs = used @ rest" "accept_loop (s\<lparr>sys_results := rs\<rparr>) = (s\<lparr>sys_results := rest\<rparr>, q)"
        "conns used = (if 0 \<le> q then [q] else [])" "0 \<le> q \<longrightarrow> used \<noteq> []"
        using 1 [OF sy [symmetric] refl refl True] by auto
      then show ?thesis using Cons x True sy
        by (intro exI [of _ "x # used"] exI [of _ rest] exI [of _ q]) (simp add: accept_loop.simps [of s] conns_def)
    next
      case False
      then show ?thesis using Cons x sy
        by (intro exI [of _ "[x]"] exI [of _ rs] exI [of _ r]) (auto simp: accept_loop.simps [of s] conns_def)
    qed
  qed
qed

lemma new_slot:
  assumes "NewSocketWrapper n j = (n', h)"
  shows "if h < 0 then n' = n \<and> (j = None \<or> MAX_SOCKET \<le> length (socket_pool n))
    else \<exists>k. n' = n\<lparr>socket_pool := socket_pool n'\<rparr> \<and> \<not> valid n h \<and> sstatus k \<and> nat h \<le> length (socket_pool n) \<and>
      socket_pool n' = (socket_pool n @ (if nat h < length (socket_pool n) then [] else [k]))[nat h := k]"
proof (cases "List.find (\<lambda>i. \<not> sstatus (socket_pool n ! i)) [0..<length (socket_pool n)]")
  case (Some i)
  then have "i < length (socket_pool n)" "\<not> sstatus (socket_pool n ! i)" by (simp_all add: find_upt_Some)
  then show ?thesis using assms Some
    by (auto simp: NewSocketWrapper_def GetSocketByHandle_def upd_sock_def intro: exI [of _ "(socket_pool n ! i)\<lparr>sstatus := True\<rparr>"])
next
  case None
  then show ?thesis using assms
    by (auto simp: NewSocketWrapper_def create_socket_def GetSocketByHandle_def split: if_splits option.splits)
qed

lemma init_new:
  assumes ok: "slots_ok n" and new: "NewSocketWrapper n j = (n', h)" "0 \<le> h"
  shows "\<exists>n2. InitSocket n' h fd = Some n2 \<and> opened n n2 {h} \<and> fd_of n2 h = fd \<and> sys_results n2 = sys_results n \<and>
    user n2 = user n \<and> clock n2 = clock n \<and> length (socket_pool n2) \<le> Suc (length (socket_pool n))"
proof -
  obtain k where k: "n' = n\<lparr>socket_pool := socket_pool n'\<rparr>" "\<not> valid n h" "sstatus k" "nat h \<le> length (socket_pool n)"
    "socket_pool n' = (socket_pool n @ (if nat h < length (socket_pool n) then [] else [k]))[nat h := k]"
    using new_slot [OF new(1)] new(2) by auto
  have len: "nat h < length (socket_pool n')" "socket_pool n' ! nat h = k" using k(4,5) by auto
  have v: "valid n' h" using len k(3) new(2) by (simp add: GetSocketByHandle_def)
  have eng: "engine_pool n' = engine_pool n" "sys_results n' = sys_results n" "user n' = user n" "clock n' = clock n"
    by (subst k(1); simp)+
  have free: "\<forall>en \<in> set (engine_pool n'). nat h \<notin> set (actived en)"
    using ok k(2) new(2) unfolding eng(1) slots_ok_def by (metis int_nat_eq)
  define n2 where "n2 = upd_sock n' (nat h) (\<lambda>s. s\<lparr>sfd := fd, pending_send := [], pending_recv := [], readable := False, writeable := False,
       sengine := None, isactived := False\<rparr>)"
  have "InitSocket n' h fd = Some n2"
    using v free new(2) by (auto simp: InitSocket_def n2_def GetSocketByHandle_def split: if_splits)
  moreover have "opened n n2 {h}"
    using k(2-5) new(2) len eng unfolding opened_def n2_def upd_sock_def
    by (auto simp: GetSocketByHandle_def nth_list_update nth_append split: if_splits)
  ultimately show ?thesis using len eng k(5) by (auto simp: n2_def upd_sock_def)
qed

text \<open>One call: a connection with a new handle, or an end, which loses a connection only without a free slot.\<close>

lemma Accept_law:
  assumes "valid s l" "slots_ok s"
  shows "\<exists>s1 h used. Accept s l j = Some (s1, h) \<and> sys_results s = used @ sys_results s1 \<and> user s1 = user s \<and> clock s1 = clock s \<and>
    (if 0 \<le> h then opened s s1 {h} \<and> conns used = [fd_of s1 h] \<and> used \<noteq> [] \<and> length (socket_pool s1) \<le> Suc (length (socket_pool s))
     else opened s s1 {} \<and> socket_pool s1 = socket_pool s \<and> (j \<noteq> None \<and> length (socket_pool s) < MAX_SOCKET \<longrightarrow> conns used = []))"
proof -
  obtain used rest r where a: "sys_results s = used @ rest" "accept_loop s = (s\<lparr>sys_results := rest\<rparr>, r)"
    "conns used = (if 0 \<le> r then [r] else [])" "0 \<le> r \<longrightarrow> used \<noteq> []"
    using accept_loop_law by blast
  let ?s = "s\<lparr>sys_results := rest\<rparr>"
  have op: "opened s s' H" if "opened ?s s' H" for s' H
    using that by (simp add: opened_def GetSocketByHandle_def)
  obtain i where i: "GetSocketByHandle s l = Some i" using assms(1) by auto
  show ?thesis
  proof (cases "r < 0")
    case True
    then show ?thesis using a i op [OF opened_refl]
      by (intro exI [of _ ?s] exI [of _ "-1"] exI [of _ used]) (simp add: Accept_def)
  next
    case False
    obtain n' h where n': "NewSocketWrapper ?s j = (n', h)" by (cases "NewSocketWrapper ?s j") simp
    show ?thesis
    proof (cases "h < 0")
      case True
      then have "n' = ?s" "j = None \<or> MAX_SOCKET \<le> length (socket_pool s)" using new_slot [OF n'] by auto
      then show ?thesis using False True a i n' op [OF opened_refl]
        by (intro exI [of _ ?s] exI [of _ "-1"] exI [of _ used]) (auto simp: Accept_def)
    next
      case nn: False
      have "slots_ok ?s" using assms(2) by (simp add: slots_ok_def GetSocketByHandle_def)
      then obtain n2 where "InitSocket n' h r = Some n2" "opened ?s n2 {h}" "fd_of n2 h = r" "sys_results n2 = rest" "user n2 = user s"
        "clock n2 = clock s" "length (socket_pool n2) \<le> Suc (length (socket_pool s))"
        using init_new [OF _ n', of r] nn by auto
      then show ?thesis using False nn a i n' op
        by (intro exI [of _ n2] exI [of _ h] exI [of _ used]) (simp add: Accept_def)
    qed
  qed
qed

section \<open>The callback\<close>

text \<open>
  The listening sockets that a run may serve: a call of \<open>select\<close> reports the descriptor, which is below the bound given
  to \<open>select\<close>.
\<close>

definition may_serve :: "'u acsys \<Rightarrow> st_listen \<Rightarrow> bool" where
  "may_serve s l \<longleftrightarrow> l \<in> set (st_listens (user s)) \<and> sl_fd l < 100 \<and> (\<exists>(x, fds) \<in> set (a_selects (user s)). 0 < x \<and> sl_fd l \<in> fds)"

lemma may_serve_mono: "may_serve s l \<Longrightarrow> st_listens (user s) = st_listens (user t) \<Longrightarrow> set (a_selects (user s)) \<subseteq> set (a_selects (user t)) \<Longrightarrow> may_serve t l"
  by (auto simp: may_serve_def)

text \<open>A callback that only reports: \<open>outs\<close> are the messages of the application.\<close>

locale accept_callback =
  fixes cb :: "'u on_accept" and out :: "'u \<Rightarrow> 'm list" and msg :: "int \<Rightarrow> st_listen \<Rightarrow> 'm"
  assumes cb_law: "\<exists>x. cb h l s = Some (upd_ac s (\<lambda>a. a\<lparr>a_app := x\<rparr>)) \<and> out x = out (a_app (user s)) @ [msg h l]"
begin

abbreviation outs :: "'u acsys \<Rightarrow> 'm list" where "outs s \<equiv> out (a_app (user s))"

text \<open>From \<open>s\<close> to \<open>s'\<close> the connections \<open>rs\<close> were taken from the system, opened and reported.\<close>

definition served :: "('u acsys \<Rightarrow> sock option) \<Rightarrow> 'u acsys \<Rightarrow> (int \<times> st_listen) list \<Rightarrow> 'u acsys \<Rightarrow> bool" where
  "served junk s rs s' \<longleftrightarrow> opened s s' (fst ` set rs) \<and> distinct (map fst rs) \<and> outs s' = outs s @ map (\<lambda>(h, l). msg h l) rs \<and>
     st_listens (user s') = st_listens (user s) \<and>
     (\<exists>used. sys_results s = used @ sys_results s' \<and>
        length (socket_pool s') + length (sys_results s') \<le> length (socket_pool s) + length (sys_results s) \<and>
        ((\<forall>z. junk z \<noteq> None) \<and> length (socket_pool s) + length (sys_results s) \<le> MAX_SOCKET \<longrightarrow>
           map (fd_of s' \<circ> fst) rs = conns used))"

lemma served_refl:
  assumes "socket_pool s' = socket_pool s" "engine_pool s' = engine_pool s" "sys_results s' = sys_results s"
    "outs s' = outs s" "st_listens (user s') = st_listens (user s)"
  shows "served junk s [] s'"
  using assms by (simp add: served_def opened_def GetSocketByHandle_def)

lemma served_trans:
  assumes a: "served junk s rs s1" and b: "served junk s1 qs s2"
  shows "served junk s (rs @ qs) s2"
proof -
  obtain u where u: "sys_results s = u @ sys_results s1" "length (socket_pool s1) + length (sys_results s1) \<le> length (socket_pool s) + length (sys_results s)"
    "(\<forall>z. junk z \<noteq> None) \<and> length (socket_pool s) + length (sys_results s) \<le> MAX_SOCKET \<longrightarrow> map (fd_of s1 \<circ> fst) rs = conns u"
    using a unfolding served_def by blast
  obtain v where v: "sys_results s1 = v @ sys_results s2" "length (socket_pool s2) + length (sys_results s2) \<le> length (socket_pool s1) + length (sys_results s1)"
    "(\<forall>z. junk z \<noteq> None) \<and> length (socket_pool s1) + length (sys_results s1) \<le> MAX_SOCKET \<longrightarrow> map (fd_of s2 \<circ> fst) qs = conns v"
    using b unfolding served_def by blast
  have op: "opened s s1 (fst ` set rs)" "opened s1 s2 (fst ` set qs)" using a b by (simp_all add: served_def)
  have same: "map (fd_of s2 \<circ> fst) rs = map (fd_of s1 \<circ> fst) rs"
    using op unfolding opened_def by (intro map_cong) auto
  have "(\<forall>z. junk z \<noteq> None) \<and> length (socket_pool s) + length (sys_results s) \<le> MAX_SOCKET \<longrightarrow>
      map (fd_of s2 \<circ> fst) (rs @ qs) = conns (u @ v)"
    unfolding map_append same using u v by auto
  moreover have "distinct (map fst (rs @ qs))"
    using a b opened_disjoint [OF op] by (simp add: served_def)
  ultimately show ?thesis
    using opened_trans [OF op] a b u v unfolding served_def
    by (auto simp: image_Un intro!: exI [of _ "u @ v"])
qed

lemma accept_all_law:
  assumes "valid s (sl_sock l)" "slots_ok s"
  shows "\<exists>s' rs. accept_all cb junk l s = Some s' \<and> served junk s rs s' \<and> a_set (user s') = a_set (user s) \<and>
    a_selects (user s') = a_selects (user s) \<and> clock s' = clock s \<and> (\<forall>r \<in> set rs. snd r = l)"
  using assms
proof (induction "length (sys_results s)" arbitrary: s rule: less_induct)
  case less
  obtain s1 h used where ac: "Accept s (sl_sock l) (junk s) = Some (s1, h)" "sys_results s = used @ sys_results s1" "user s1 = user s" "clock s1 = clock s"
    "if 0 \<le> h then opened s s1 {h} \<and> conns used = [fd_of s1 h] \<and> used \<noteq> [] \<and> length (socket_pool s1) \<le> Suc (length (socket_pool s))
     else opened s s1 {} \<and> socket_pool s1 = socket_pool s \<and> (junk s \<noteq> None \<and> length (socket_pool s) < MAX_SOCKET \<longrightarrow> conns used = [])"
    using Accept_law [OF less(2,3)] by blast
  show ?case
  proof (cases "h < 0")
    case True
    have "served junk s [] s1"
      using ac True unfolding served_def by (cases used) (auto intro!: exI [of _ used])
    then show ?thesis using True ac by (subst accept_all.simps) (auto intro!: exI [of _ s1])
  next
    case False
    obtain x where x: "cb h l s1 = Some (upd_ac s1 (\<lambda>a. a\<lparr>a_app := x\<rparr>))" "out x = outs s @ [msg h l]"
      using cb_law [of h l s1] ac(3) by auto
    let ?s = "upd_ac s1 (\<lambda>a. a\<lparr>a_app := x\<rparr>)"
    have op: "opened s ?s {h}" using ac(5) False by (simp add: opened_def upd_ac_def GetSocketByHandle_def)
    have "served junk s [(h, l)] ?s"
      using ac False op x(2) unfolding served_def by (cases used) (auto intro!: exI [of _ used] simp: upd_ac_def)
    moreover have "valid ?s (sl_sock l)" "slots_ok ?s"
      using op less(2) slots_ok_opened [OF less(3) op] by (simp_all add: opened_def)
    moreover have "length (sys_results ?s) < length (sys_results s)"
      using ac(2,5) False by (simp add: upd_ac_def)
    ultimately obtain s' rs where "accept_all cb junk l ?s = Some s'" "served junk s ((h, l) # rs) s'" "a_set (user s') = a_set (user ?s)"
      "a_selects (user s') = a_selects (user ?s)" "clock s' = clock ?s" "\<forall>r \<in> set rs. snd r = l"
      using less(1) [of ?s] served_trans [of junk s "[(h, l)]" ?s] by fastforce
    then show ?thesis using False ac x(1)
      by (subst accept_all.simps) (auto intro!: exI [of _ s'] exI [of _ "(h, l) # rs"] simp: upd_ac_def)
  qed
qed

definition listening :: "'u acsys \<Rightarrow> bool" where
  "listening s \<longleftrightarrow> slots_ok s \<and> (\<forall>l \<in> set (st_listens (user s)). valid s (sl_sock l) \<and> 0 \<le> sl_fd l \<and> sl_fd l < int FD_SETSIZE)"

lemma listening_served: "listening s \<Longrightarrow> served junk s rs s' \<Longrightarrow> listening s'"
proof -
  assume a: "listening s" "served junk s rs s'"
  then have op: "opened s s' (fst ` set rs)" and st: "st_listens (user s') = st_listens (user s)" by (simp_all add: served_def)
  have "slots_ok s'" using slots_ok_opened [OF _ op] a(1) by (simp add: listening_def)
  moreover have "valid s' h" if "valid s h" for h using op that by (simp add: opened_def)
  ultimately show "listening s'" using a(1) st by (simp add: listening_def)
qed

lemma accept_ready_law:
  assumes "\<forall>l \<in> set ls. valid s (sl_sock l)" "slots_ok s"
  shows "\<exists>s' rs. accept_ready cb junk ls s = Some s' \<and> served junk s rs s' \<and> a_set (user s') = a_set (user s) \<and>
    a_selects (user s') = a_selects (user s) \<and> clock s' = clock s \<and> (\<forall>r \<in> set rs. snd r \<in> set ls \<and> sl_fd (snd r) \<in> a_set (user s))"
  using assms
proof (induction ls arbitrary: s)
  case Nil
  then show ?case by (intro exI [of _ s] exI [of _ "[]"]) (simp add: served_refl)
next
  case (Cons l ls)
  have "\<exists>s1 rs. (if sl_fd l \<in> a_set (user s) then accept_all cb junk l s else Some s) = Some s1 \<and> served junk s rs s1 \<and>
      a_set (user s1) = a_set (user s) \<and> a_selects (user s1) = a_selects (user s) \<and> clock s1 = clock s \<and>
      (\<forall>r \<in> set rs. snd r = l \<and> sl_fd (snd r) \<in> a_set (user s))"
  proof (cases "sl_fd l \<in> a_set (user s)")
    case True
    then show ?thesis using accept_all_law [of s l junk] Cons(2,3) by fastforce
  next
    case False
    then show ?thesis by (intro exI [of _ s] exI [of _ "[]"]) (simp add: served_refl)
  qed
  then obtain s1 rs where s1: "(if sl_fd l \<in> a_set (user s) then accept_all cb junk l s else Some s) = Some s1" "served junk s rs s1"
    "a_set (user s1) = a_set (user s)" "a_selects (user s1) = a_selects (user s)" "clock s1 = clock s"
    "\<forall>r \<in> set rs. snd r = l \<and> sl_fd (snd r) \<in> a_set (user s)" by blast
  have op: "opened s s1 (fst ` set rs)" using s1(2) by (simp add: served_def)
  then have "\<forall>l \<in> set ls. valid s1 (sl_sock l)" "slots_ok s1"
    using Cons(2) slots_ok_opened [OF Cons(3) op] by (simp_all add: opened_def)
  from Cons(1) [OF this] obtain s' qs where s': "accept_ready cb junk ls s1 = Some s'" "served junk s1 qs s'"
    "a_set (user s') = a_set (user s1)" "a_selects (user s') = a_selects (user s1)" "clock s' = clock s1"
    "\<forall>r \<in> set qs. snd r \<in> set ls \<and> sl_fd (snd r) \<in> a_set (user s1)" by blast
  have "accept_ready cb junk (l # ls) s = Some s'" using s1(1) s'(1) by simp
  moreover have "served junk s (rs @ qs) s'" using served_trans [OF s1(2) s'(2)] .
  moreover have "\<forall>r \<in> set (rs @ qs). snd r \<in> set (l # ls) \<and> sl_fd (snd r) \<in> a_set (user s)" using s1(3,6) s'(6) by auto
  ultimately show ?case using s1(3-5) s'(3-5) by (intro exI [of _ s'] exI [of _ "rs @ qs"]) simp
qed

lemma set_all_law:
  assumes "\<forall>l \<in> set ls. 0 \<le> sl_fd l \<and> sl_fd l < int FD_SETSIZE"
  shows "\<exists>z. set_all ls s = Some (upd_ac s (\<lambda>a. a\<lparr>a_set := z\<rparr>))"
  using assms
proof (induction ls arbitrary: s)
  case Nil
  then show ?case by (intro exI [of _ "a_set (user s)"]) (simp add: upd_ac_def)
next
  case (Cons l ls)
  then have "set_fd (sl_fd l) s = Some (upd_ac s (\<lambda>a. a\<lparr>a_set := insert (sl_fd l) (a_set a)\<rparr>))" by (simp add: set_fd_def)
  moreover obtain z where "set_all ls (upd_ac s (\<lambda>a. a\<lparr>a_set := insert (sl_fd l) (a_set a)\<rparr>)) =
      Some (upd_ac (upd_ac s (\<lambda>a. a\<lparr>a_set := insert (sl_fd l) (a_set a)\<rparr>)) (\<lambda>a. a\<lparr>a_set := z\<rparr>))" using Cons by auto
  ultimately show ?case by (intro exI [of _ z]) (simp add: upd_ac_def)
qed

lemma rounds_law:
  assumes "listening s" "\<exists>t \<in> set (clock s). T \<le> t"
  shows "\<exists>s' rs. acceptor_rounds cb junk T s = Some s' \<and> served junk s rs s' \<and> (\<forall>r \<in> set rs. may_serve s (snd r))"
  using assms
proof (induction "clock s" arbitrary: s)
  case Nil
  then show ?case by simp
next
  case (Cons t ts)
  obtain s1 r where s1: "select_a s = (s1, r)" by (cases "select_a s") simp
  have f1: "served junk s [] s1" "clock s1 = clock s" "st_listens (user s1) = st_listens (user s)"
    "set (a_selects (user s1)) \<subseteq> set (a_selects (user s))"
    using s1 by (auto simp: select_a_def upd_ac_def split: list.splits intro!: served_refl)
  have rd: "may_serve s l" if "0 < r" "l \<in> set (st_listens (user s1))" "sl_fd l \<in> a_set (user s1)" for l
    using s1 that by (auto simp: select_a_def upd_ac_def may_serve_def split: list.splits)
  note l1 = listening_served [OF Cons(3) f1(1)]
  have "\<exists>s2 rs. (if 0 < r then accept_ready cb junk (st_listens (user s1)) s1 else Some s1) = Some s2 \<and> served junk s1 rs s2 \<and> clock s2 = clock s1 \<and>
      a_selects (user s2) = a_selects (user s1) \<and> (\<forall>r \<in> set rs. may_serve s (snd r))"
  proof (cases "0 < r")
    case True
    have "\<forall>l \<in> set (st_listens (user s1)). valid s1 (sl_sock l)" "slots_ok s1" using l1 by (simp_all add: listening_def)
    from accept_ready_law [OF this, of junk] obtain s2 rs where "accept_ready cb junk (st_listens (user s1)) s1 = Some s2" "served junk s1 rs s2"
      "a_selects (user s2) = a_selects (user s1)" "clock s2 = clock s1"
      "\<forall>r \<in> set rs. snd r \<in> set (st_listens (user s1)) \<and> sl_fd (snd r) \<in> a_set (user s1)" by blast
    then show ?thesis using True rd by (intro exI [of _ s2] exI [of _ rs]) simp
  next
    case False
    then show ?thesis by (intro exI [of _ s1] exI [of _ "[]"]) (simp add: served_refl)
  qed
  then obtain s2 rs where s2: "(if 0 < r then accept_ready cb junk (st_listens (user s1)) s1 else Some s1) = Some s2" "served junk s1 rs s2"
    "clock s2 = clock s1" "a_selects (user s2) = a_selects (user s1)" "\<forall>r \<in> set rs. may_serve s (snd r)" by blast
  note l2 = listening_served [OF l1 s2(2)]
  obtain z where z: "set_all (st_listens (user s2)) (upd_ac s2 (\<lambda>a. a\<lparr>a_set := {}\<rparr>)) =
      Some (upd_ac (upd_ac s2 (\<lambda>a. a\<lparr>a_set := {}\<rparr>)) (\<lambda>a. a\<lparr>a_set := z\<rparr>))"
    using set_all_law l2 unfolding listening_def by blast
  define s4 where "s4 = (upd_ac (upd_ac s2 (\<lambda>a. a\<lparr>a_set := {}\<rparr>)) (\<lambda>a. a\<lparr>a_set := z\<rparr>))\<lparr>clock := ts\<rparr>"
  have ck: "GetSystemMs (upd_ac (upd_ac s2 (\<lambda>a. a\<lparr>a_set := {}\<rparr>)) (\<lambda>a. a\<lparr>a_set := z\<rparr>)) = Some (s4, t)"
    using Cons(2) [symmetric] s2(3) f1(2) by (simp add: GetSystemMs_def s4_def upd_ac_def)
  have round: "acceptor_rounds cb junk T s = (if t < T then acceptor_rounds cb junk T s4 else Some s4)"
    by (subst acceptor_rounds.simps) (simp add: s1 s2(1) z ck)
  have "served junk s2 [] s4" by (rule served_refl) (simp_all add: s4_def upd_ac_def)
  then have sv: "served junk s rs s4" using served_trans [OF served_trans [OF f1(1) s2(2)]] by fastforce
  show ?case
  proof (cases "t < T")
    case True
    have "clock s4 = ts" by (simp add: s4_def)
    moreover have "\<exists>t \<in> set ts. T \<le> t" using Cons(2,4) True by (metis leD set_ConsD)
    ultimately obtain s' qs where q: "acceptor_rounds cb junk T s4 = Some s'" "served junk s4 qs s'" "\<forall>r \<in> set qs. may_serve s4 (snd r)"
      using Cons(1) [of s4] listening_served [OF Cons(3) sv] by auto
    have "st_listens (user s4) = st_listens (user s)" using sv by (simp add: served_def)
    moreover have "a_selects (user s4) = a_selects (user s1)" using s2(4) by (simp add: s4_def upd_ac_def)
    ultimately have "may_serve s l" if "may_serve s4 l" for l using may_serve_mono [OF that, of s] f1(4) by simp
    then have "\<forall>r \<in> set qs. may_serve s (snd r)" using q(3) by blast
    then show ?thesis using round True served_trans [OF sv q(2)] q(1) s2(5) by (intro exI [of _ s'] exI [of _ "rs @ qs"]) (simp add: ball_Un)
  next
    case False
    then show ?thesis using round sv s2(5) by auto
  qed
qed

lemma run_law:
  assumes "listening s" "clock s = t # ts" "\<exists>x \<in> set ts. t + ms \<le> x"
  shows "\<exists>s' rs. acceptor_run cb junk ms s = Some s' \<and> served junk s rs s' \<and> (\<forall>r \<in> set rs. may_serve s (snd r))"
proof -
  let ?s = "s\<lparr>clock := ts\<rparr>"
  have sv: "served junk s [] ?s" by (rule served_refl) simp_all
  have "\<exists>t' \<in> set (clock ?s). t + ms \<le> t'" using assms(3) by simp
  from rounds_law [OF listening_served [OF assms(1) sv] this]
  obtain s' rs where r: "acceptor_rounds cb junk (t + ms) ?s = Some s'" "served junk ?s rs s'" "\<forall>r \<in> set rs. may_serve ?s (snd r)" by blast
  have "\<forall>r \<in> set rs. may_serve s (snd r)" using r(3) by (simp add: may_serve_def)
  moreover have "acceptor_run cb junk ms s = Some s'" using r(1) assms(2) by (simp add: acceptor_run_def GetSystemMs_def)
  ultimately show ?thesis using served_trans [OF sv r(2)] by (intro exI [of _ s'] exI [of _ rs]) simp
qed

end

section \<open>The callback of the test program\<close>

text \<open>\<open>test_acceptor.c\<close> prints every handle.\<close>

definition test_on_accept :: "int list on_accept" where
  "test_on_accept h l s = Some (upd_ac s (\<lambda>a. a\<lparr>a_app := a_app a @ [h]\<rparr>))"

interpretation taccept: accept_callback test_on_accept "\<lambda>x. x" "\<lambda>h l. h"
proof
  fix h l and s :: "int list acsys"
  show "\<exists>x. test_on_accept h l s = Some (upd_ac s (\<lambda>a. a\<lparr>a_app := x\<rparr>)) \<and> x = a_app (user s) @ [h]"
    by (intro exI [of _ "a_app (user s) @ [h]"]) (simp add: test_on_accept_def upd_ac_def)
qed

text \<open>An observer of all reports, with the handle that was given to the callback and the listening socket that it belongs to.\<close>

definition note_accept :: "(int \<times> st_listen) list on_accept" where
  "note_accept h l s = Some (upd_ac s (\<lambda>a. a\<lparr>a_app := a_app a @ [(h, l)]\<rparr>))"

interpretation naccept: accept_callback note_accept "\<lambda>x. x" Pair
proof
  fix h l and s :: "(int \<times> st_listen) list acsys"
  show "\<exists>x. note_accept h l s = Some (upd_ac s (\<lambda>a. a\<lparr>a_app := x\<rparr>)) \<and> x = a_app (user s) @ [(h, l)]"
    by (intro exI [of _ "a_app (user s) @ [(h, l)]"]) (simp add: note_accept_def upd_ac_def)
qed

text \<open>
  Claim C38. A run of the acceptor returns once its time is over and serves the connections that the system hands out. Its calls of the
  callback are the \<open>rs\<close> that it adds to the record of the observer, each with the handle and the listening socket: every
  handle is new, is reported once, in the order of the connections, and is open afterwards, and no other socket
  changes; and unless there is no memory or no slot for a socket, the reported handles stand for exactly the
  connections taken from the system. A connection is accepted only for a listening socket of the acceptor whose descriptor a successful
  \<open>select\<close> has reported and is below 100, the bound that \<open>select\<close> is given: a listening socket with a descriptor of 100 or more is never served.
  Conditions: the listening sockets are open with descriptors that fit into the set, no free slot is in a list of active sockets, and the clock reaches the time-out.
\<close>

theorem acceptor_serves_connections:
  assumes "slots_ok s" and "\<forall>l \<in> set (st_listens (user s)). valid s (sl_sock l) \<and> 0 \<le> sl_fd l \<and> sl_fd l < int FD_SETSIZE"
    and "clock s = t # ts" "\<exists>x \<in> set ts. t + ms \<le> x"
  shows "\<exists>s' rs used. acceptor_run note_accept junk ms s = Some s' \<and> a_app (user s') = a_app (user s) @ rs \<and>
    opened s s' (fst ` set rs) \<and> distinct (map fst rs) \<and> sys_results s = used @ sys_results s' \<and>
    ((\<forall>z. junk z \<noteq> None) \<and> length (socket_pool s) + length (sys_results s) \<le> MAX_SOCKET \<longrightarrow>
       map (fd_of s' \<circ> fst) rs = conns used) \<and>
    (\<forall>(h, l) \<in> set rs. l \<in> set (st_listens (user s)) \<and> sl_fd l < 100 \<and>
       (\<exists>(x, fds) \<in> set (a_selects (user s)). 0 < x \<and> sl_fd l \<in> fds))"
proof -
  have "naccept.listening s" using assms(1,2) by (simp add: naccept.listening_def)
  from naccept.run_law [OF this assms(3,4), of junk] obtain s' rs where r:
    "acceptor_run note_accept junk ms s = Some s'" "naccept.served junk s rs s'" "\<forall>r \<in> set rs. may_serve s (snd r)"
    by (elim exE conjE) (rule that)
  have "\<forall>(h, l) \<in> set rs. l \<in> set (st_listens (user s)) \<and> sl_fd l < 100 \<and> (\<exists>(x, fds) \<in> set (a_selects (user s)). 0 < x \<and> sl_fd l \<in> fds)"
    using r(3) by (fastforce simp: may_serve_def)
  moreover have m: "map (\<lambda>(h, l). (h, l)) rs = rs" by (induction rs) auto
  note sv = r(2) [unfolded naccept.served_def m]
  from sv obtain used where u: "sys_results s = used @ sys_results s'"
    "(\<forall>z. junk z \<noteq> None) \<and> length (socket_pool s) + length (sys_results s) \<le> MAX_SOCKET \<longrightarrow> map (fd_of s' \<circ> fst) rs = conns used"
    by (elim exE conjE) (rule that)
  ultimately show ?thesis
    using sv u r(1) by (intro exI [of _ s'] exI [of _ rs] exI [of _ used]) simp
qed

text \<open>Two listening sockets, of which one has the descriptor 100.\<close>

definition acceptor_sample :: "(int \<times> st_listen) list acsys" where
  "acceptor_sample = \<lparr>socket_pool = [sock_junk\<lparr>sstatus := True, sfd := 5\<rparr>, sock_junk\<lparr>sstatus := True, sfd := 100\<rparr>], engine_pool = [], io_err = (\<lambda>_. 0),
     sys_results = [(7, 0), (-1, 11), (8, 0)], epoll_results = [], clock = [0, 60],
     user = \<lparr>a_set = {5, 100}, st_listens = [\<lparr>sl_sock = 0, sl_fd = 5, sl_ud = 0\<rparr>, \<lparr>sl_sock = 1, sl_fd = 100, sl_ud = 1\<rparr>],
       a_selects = [(1, {5, 100})], a_app = []\<rparr>\<rparr>"

theorem acceptor_serves_connections_witness:
  "\<exists>s' rs used. acceptor_run note_accept (\<lambda>_. Some sock_junk) 50 acceptor_sample = Some s' \<and> a_app (user s') = rs \<and>
    opened acceptor_sample s' (fst ` set rs) \<and> distinct (map fst rs) \<and> sys_results acceptor_sample = used @ sys_results s' \<and>
    map (fd_of s' \<circ> fst) rs = conns used \<and> 100 \<notin> (sl_fd \<circ> snd) ` set rs"
proof -
  have s: "slots_ok acceptor_sample" "clock acceptor_sample = 0 # [60]" "a_app (user acceptor_sample) = []"
    "length (socket_pool acceptor_sample) + length (sys_results acceptor_sample) \<le> MAX_SOCKET"
    "\<forall>l \<in> set (st_listens (user acceptor_sample)). valid acceptor_sample (sl_sock l) \<and> 0 \<le> sl_fd l \<and> sl_fd l < int FD_SETSIZE"
    by (simp_all add: acceptor_sample_def slots_ok_def GetSocketByHandle_def)
  have "\<exists>x \<in> set [60]. 0 + 50 \<le> (x :: u32)" by simp
  from acceptor_serves_connections [OF s(1,5,2) this, of "\<lambda>_. Some sock_junk"] obtain s' rs used where
    "acceptor_run note_accept (\<lambda>_. Some sock_junk) 50 acceptor_sample = Some s'" "a_app (user s') = rs"
    "opened acceptor_sample s' (fst ` set rs)" "distinct (map fst rs)" "sys_results acceptor_sample = used @ sys_results s'"
    "map (fd_of s' \<circ> fst) rs = conns used" "\<forall>(h, l) \<in> set rs. sl_fd l < 100"
    using s(3,4) by fastforce
  then show ?thesis by (intro exI [of _ s'] exI [of _ rs] exI [of _ used]) auto
qed

end
