(* ===== verification/RBdelete.thy ===== *)
theory RBdelete
  imports RBtree
begin

text \<open>
  Deletion from the red-black tree of \<open>src/RBtree.c\<close>: \<open>delete_fix_up\<close> restores the black height of a subtree
  that has lost one, on the pointer structure and on the tree it represents, and \<open>rb_delete\<close>
  unlinks a node with at most one child, moving its data into the node that held the key. The last section
  puts insertion, removal, erasure and search together: the map of \<open>src/map.c\<close> implements a finite map.
\<close>

section \<open>Composing contexts\<close>

fun capp :: "'e ctx \<Rightarrow> 'e ctx \<Rightarrow> 'e ctx" where
  "capp Top C = C"
| "capp (CL D a c e r) C = CL (capp D C) a c e r"
| "capp (CR l a c e D) C = CR l a c e (capp D C)"

lemma plug_capp [simp]: "plug (capp D C) s = plug C (plug D s)"
  by (induction D arbitrary: s) auto

lemma at_capp: "at t (capp D C) s = at t C (plug D s)"
  by (induction D arbitrary: s) (auto simp: at_move)

lemma lefts_capp [simp]: "lefts (capp D C) = lefts C @ lefts D" and rights_capp [simp]: "rights (capp D C) = rights D @ rights C"
  by (induction D) auto

lemma capp_Top: "capp D C = Top \<longleftrightarrow> D = Top \<and> C = Top"
  by (cases D) auto

section \<open>One iteration of the fix-up\<close>

text \<open>The part of an iteration after the sibling has been made black.\<close>

definition fix_left_tail :: "'e rbtree \<Rightarrow> addr \<Rightarrow> addr \<Rightarrow> ('e rbtree \<times> addr) option" where
  "fix_left_tail t1 p w = do {
     wn \<leftarrow> rnodes t1 w;
     wl \<leftarrow> rnodes t1 (rleft wn);
     wr \<leftarrow> rnodes t1 (rright wn);
     if rcolor wl = BLACK \<and> rcolor wr = BLACK
     then do { t2 \<leftarrow> set_color t1 w RED; Some (t2, p) }
     else do {
       (t2, w2) \<leftarrow> (if rcolor wr = BLACK
                  then do {
                    t' \<leftarrow> set_color t1 w RED;
                    t' \<leftarrow> rotate_right t' w;
                    pn' \<leftarrow> rnodes t' p;
                    Some (t', rright pn') }
                  else Some (t1, w));
       pn2 \<leftarrow> rnodes t2 p;
       t3 \<leftarrow> set_color t2 w2 (rcolor pn2);
       t4 \<leftarrow> set_color t3 p BLACK;
       wn2 \<leftarrow> rnodes t4 w2;
       t5 \<leftarrow> set_color t4 (rright wn2) BLACK;
       t6 \<leftarrow> rotate_left t5 p;
       Some (t6, rroot t6) } }"

definition fix_right_tail :: "'e rbtree \<Rightarrow> addr \<Rightarrow> addr \<Rightarrow> ('e rbtree \<times> addr) option" where
  "fix_right_tail t1 p w = do {
     wn \<leftarrow> rnodes t1 w;
     wl \<leftarrow> rnodes t1 (rleft wn);
     wr \<leftarrow> rnodes t1 (rright wn);
     if rcolor wl = BLACK \<and> rcolor wr = BLACK
     then do { t2 \<leftarrow> set_color t1 w RED; Some (t2, p) }
     else do {
       (t2, w2) \<leftarrow> (if rcolor wl = BLACK
                  then do {
                    t' \<leftarrow> set_color t1 w RED;
                    t' \<leftarrow> rotate_left t' w;
                    pn' \<leftarrow> rnodes t' p;
                    Some (t', rleft pn') }
                  else Some (t1, w));
       pn2 \<leftarrow> rnodes t2 p;
       t3 \<leftarrow> set_color t2 w2 (rcolor pn2);
       t4 \<leftarrow> set_color t3 p BLACK;
       wn2 \<leftarrow> rnodes t4 w2;
       t5 \<leftarrow> set_color t4 (rleft wn2) BLACK;
       t6 \<leftarrow> rotate_right t5 p;
       Some (t6, rroot t6) } }"

text \<open>
  A subtree \<open>s\<close> in a context that wants one more black level. After the iteration the same holds further up
  or below a red node, or the whole tree is right and the loop is at its root.
\<close>

definition short :: "'e ctx \<Rightarrow> 'e rtree \<Rightarrow> bool" where
  "short C s \<longleftrightarrow> invc (paint BLACK s) \<and> invh s \<and> cinvc C BLACK \<and> cinvh C (Suc (bheight s))"

definition del_goal :: "'e rbtree \<Rightarrow> 'e ctx \<Rightarrow> 'e rtree \<Rightarrow> ('e rbtree \<times> addr) option \<Rightarrow> bool" where
  "del_goal t C s res \<longleftrightarrow> (\<exists>t' C' s'. res = Some (t', rootp (nil t) s') \<and> at t' C' s' \<and> s' \<noteq> Lf \<and> same_shape t t' \<and>
     nodes (plug C' s') = nodes (plug C s) \<and>
     (short C' s' \<and> (rcol s' = RED \<or> clen C' < clen C) \<or> C' = Top \<and> rbt s'))"

lemma del_goalI:
  assumes "res = Some (t', rootp (nil t) s')" "at t' C' s'" "s' \<noteq> Lf" "same_shape t t'" "nodes (plug C' s') = nodes (plug C s)"
    "short C' s' \<and> (rcol s' = RED \<or> clen C' < clen C) \<or> C' = Top \<and> rbt s'"
  shows "del_goal t C s res"
  using assms unfolding del_goal_def by blast

lemma at_root: "at t C s \<Longrightarrow> rroot t = rootp (nil t) (plug C s)"
  using at_plug [of t C s] by (simp add: at_def)

text \<open>The tree in which the sibling's far child is red, and the one in which only the near child is.\<close>

lemma fix_left_rot:
  assumes at: "at t C (Nd s p cp ep (Nd wl w cw ew (Nd a x cx ex b)))"
  shows "\<exists>t6. do { t3 \<leftarrow> set_color t w cp; t4 \<leftarrow> set_color t3 p BLACK; wn2 \<leftarrow> rnodes t4 w;
       t5 \<leftarrow> set_color t4 (rright wn2) BLACK; t6 \<leftarrow> rotate_left t5 p; Some (t6, rroot t6) } = Some (t6, rroot t6) \<and>
     at t6 C (Nd (Nd s p BLACK ep wl) w cp ew (Nd a x BLACK ex b)) \<and> same_shape t t6"
proof -
  obtain t3 where t3: "set_color t w cp = Some t3" "at t3 C (Nd s p cp ep (Nd wl w cp ew (Nd a x cx ex b)))" "same_shape t t3"
    using set_color_right [OF at] by blast
  obtain t4 where t4: "set_color t3 p BLACK = Some t4" "at t4 C (Nd s p BLACK ep (Nd wl w cp ew (Nd a x cx ex b)))" "same_shape t3 t4"
    using set_color_law [OF t3(2)] by blast
  have "at t4 (CR s p BLACK ep C) (Nd wl w cp ew (Nd a x cx ex b))" using t4(2) by (simp add: at_move)
  note w = at_head [OF this]
  obtain t5 where t5: "set_color t4 x BLACK = Some t5" "at t5 C (Nd s p BLACK ep (Nd wl w cp ew (Nd a x BLACK ex b)))" "same_shape t4 t5"
    using set_color_right [of t4 "CR s p BLACK ep C" wl w cp ew a x cx ex b BLACK] t4(2) by (auto simp: at_move)
  obtain t6 where t6: "rotate_left t5 p = Some t6" "at t6 C (Nd (Nd s p BLACK ep wl) w cp ew (Nd a x BLACK ex b))" "same_shape t5 t6"
    using rotate_left_law [OF t5(2)] by blast
  show ?thesis using t3 t4 w t5 t6 by (intro exI [of _ t6]) (auto intro: same_shape_trans)
qed

lemma fix_right_rot:
  assumes at: "at t C (Nd (Nd (Nd a x cx ex b) w cw ew wr) p cp ep s)"
  shows "\<exists>t6. do { t3 \<leftarrow> set_color t w cp; t4 \<leftarrow> set_color t3 p BLACK; wn2 \<leftarrow> rnodes t4 w;
       t5 \<leftarrow> set_color t4 (rleft wn2) BLACK; t6 \<leftarrow> rotate_right t5 p; Some (t6, rroot t6) } = Some (t6, rroot t6) \<and>
     at t6 C (Nd (Nd a x BLACK ex b) w cp ew (Nd wr p BLACK ep s)) \<and> same_shape t t6"
proof -
  obtain t3 where t3: "set_color t w cp = Some t3" "at t3 C (Nd (Nd (Nd a x cx ex b) w cp ew wr) p cp ep s)" "same_shape t t3"
    using set_color_left [OF at] by blast
  obtain t4 where t4: "set_color t3 p BLACK = Some t4" "at t4 C (Nd (Nd (Nd a x cx ex b) w cp ew wr) p BLACK ep s)" "same_shape t3 t4"
    using set_color_law [OF t3(2)] by blast
  have "at t4 (CL C p BLACK ep s) (Nd (Nd a x cx ex b) w cp ew wr)" using t4(2) by (simp add: at_move)
  note w = at_head [OF this]
  obtain t5 where t5: "set_color t4 x BLACK = Some t5" "at t5 C (Nd (Nd (Nd a x BLACK ex b) w cp ew wr) p BLACK ep s)" "same_shape t4 t5"
    using set_color_left [of t4 "CL C p BLACK ep s" a x cx ex b w cp ew wr BLACK] t4(2) by (auto simp: at_move)
  obtain t6 where t6: "rotate_right t5 p = Some t6" "at t6 C (Nd (Nd a x BLACK ex b) w cp ew (Nd wr p BLACK ep s))" "same_shape t5 t6"
    using rotate_right_law [OF t5(2)] by blast
  show ?thesis using t3 t4 w t5 t6 by (intro exI [of _ t6]) (auto intro: same_shape_trans)
qed

lemma at_children:
  assumes "at t C (Nd l a c e r)"
  shows "\<exists>ln rn. rnodes t (rootp (nil t) l) = Some ln \<and> rcolor ln = rcol l \<and> rnodes t (rootp (nil t) r) = Some rn \<and> rcolor rn = rcol r"
  using at_color [of t "CL C a c e r" l] at_color [of t "CR l a c e C" r] assms by (auto simp: at_move)

lemma goal_done:
  assumes "res = Some (t', rroot t')" "at t' C' s'" "s' \<noteq> Lf" "same_shape t t'" "nodes (plug C' s') = nodes (plug C s)" "rbt (plug C' s')"
  shows "del_goal t C s res"
proof (rule del_goalI)
  show "res = Some (t', rootp (nil t) (plug C' s'))"
    using assms(1) at_root [OF assms(2)] same_shape_nil [OF assms(4)] by simp
  show "at t' Top (plug C' s')" using assms(2) at_plug [of t' C' s'] by simp
  have "set (nodes (plug C' s')) \<noteq> {}" using assms(3) by (cases s') (auto simp: nodes_plug)
  then show "plug C' s' \<noteq> Lf" by auto
qed (use assms(4-6) in auto)

lemma fix_left_tail_law:
  assumes at: "at t (CL C p cp ep (Nd wl w BLACK ew wr)) s" and sh: "short (CL C p cp ep (Nd wl w BLACK ew wr)) s" and bl: "rcol s = BLACK"
    and eqn: "nodes (plug C0 s0) = nodes (plug (CL C p cp ep (Nd wl w BLACK ew wr)) s)" and len: "cp = RED \<or> clen C < clen C0"
  shows "del_goal t C0 s0 (fix_left_tail t p w)"
proof -
  have atp: "at t C (Nd s p cp ep (Nd wl w BLACK ew wr))" and atw: "at t (CR s p cp ep C) (Nd wl w BLACK ew wr)"
    using at by (simp_all add: at_move)
  note hp = at_head [OF atp] and hw = at_head [OF atw]
  obtain ln rn where ch: "rnodes t (rootp (nil t) wl) = Some ln" "rcolor ln = rcol wl" "rnodes t (rootp (nil t) wr) = Some rn" "rcolor rn = rcol wr"
    using at_children [OF atw] by blast
  have inv: "invc s" "invh s" "invc wl" "invc wr" "invh wl" "invh wr" "bheight wl = bheight wr" "bheight wl = bheight s"
    "cinvc C cp" "cinvh C (if cp = BLACK then Suc (Suc (bheight s)) else Suc (bheight s))"
    using sh bl by (auto simp: short_def)
  note cw = cinvc_weaken [OF inv(9)]
  show ?thesis
  proof (cases "rcol wl = BLACK \<and> rcol wr = BLACK")
    case True
    obtain t2 where t2: "set_color t w RED = Some t2" "at t2 C (Nd s p cp ep (Nd wl w RED ew wr))" "same_shape t t2"
      using set_color_right [OF atp] by blast
    have "fix_left_tail t p w = Some (t2, p)" using hw ch True t2(1) by (simp add: fix_left_tail_def)
    then show ?thesis using t2 inv cw True len eqn
      by (intro del_goalI [where t' = t2 and C' = C and s' = "Nd s p cp ep (Nd wl w RED ew wr)"]) (auto simp: short_def nodes_plug)
  next
    case False
    show ?thesis
    proof (cases "rcol wr = BLACK")
      case True
      with False obtain a x ex b where wl: "wl = Nd a x RED ex b" by (cases wl rule: rcol.cases) (auto, metis color.exhaust)
      obtain t1 where t1: "set_color t w RED = Some t1" "at t1 (CR s p cp ep C) (Nd wl w RED ew wr)" "same_shape t t1"
        using set_color_law [OF atw] by blast
      obtain t2 where t2: "rotate_right t1 w = Some t2" "at t2 (CR s p cp ep C) (Nd a x RED ex (Nd b w RED ew wr))" "same_shape t1 t2"
        using rotate_right_law [OF t1(2) [unfolded wl]] by blast
      have at2: "at t2 C (Nd s p cp ep (Nd a x RED ex (Nd b w RED ew wr)))" using t2(2) by (simp add: at_move)
      note hp2 = at_head [OF at2]
      obtain t6 where t6: "do { t3 \<leftarrow> set_color t2 x cp; t4 \<leftarrow> set_color t3 p BLACK; wn2 \<leftarrow> rnodes t4 x;
         t5 \<leftarrow> set_color t4 (rright wn2) BLACK; t6 \<leftarrow> rotate_left t5 p; Some (t6, rroot t6) } = Some (t6, rroot t6)"
        "at t6 C (Nd (Nd s p BLACK ep a) x cp ex (Nd b w BLACK ew wr))" "same_shape t2 t6"
        using fix_left_rot [OF at2] by blast
      have "fix_left_tail t p w = Some (t6, rroot t6)"
        using hw ch False True t1(1) t2(1) hp2 t6(1) by (simp add: fix_left_tail_def)
      then show ?thesis using t1(3) t2(3) t6 inv wl True bl eqn
        by (intro goal_done [where t' = t6 and C' = C and s' = "Nd (Nd s p BLACK ep a) x cp ex (Nd b w BLACK ew wr)"])
           (auto simp: nodes_plug rbt_plug intro: same_shape_trans)
    next
      case red: False
      then obtain a x ex b where wr: "wr = Nd a x RED ex b" by (cases wr rule: rcol.cases) (auto, metis color.exhaust)
      obtain t6 where t6: "do { t3 \<leftarrow> set_color t w cp; t4 \<leftarrow> set_color t3 p BLACK; wn2 \<leftarrow> rnodes t4 w;
         t5 \<leftarrow> set_color t4 (rright wn2) BLACK; t6 \<leftarrow> rotate_left t5 p; Some (t6, rroot t6) } = Some (t6, rroot t6)"
        "at t6 C (Nd (Nd s p BLACK ep wl) w cp ew (Nd a x BLACK ex b))" "same_shape t t6"
        using fix_left_rot [OF atp [unfolded wr]] by blast
      have "fix_left_tail t p w = Some (t6, rroot t6)"
        using hw ch False red hp t6(1) by (simp add: fix_left_tail_def)
      then show ?thesis using t6 inv wr bl eqn
        by (intro goal_done [where t' = t6 and C' = C and s' = "Nd (Nd s p BLACK ep wl) w cp ew (Nd a x BLACK ex b)"])
           (auto simp: nodes_plug rbt_plug)
    qed
  qed
qed

lemma fix_right_tail_law:
  assumes at: "at t (CR (Nd wl w BLACK ew wr) p cp ep C) s" and sh: "short (CR (Nd wl w BLACK ew wr) p cp ep C) s" and bl: "rcol s = BLACK"
    and eqn: "nodes (plug C0 s0) = nodes (plug (CR (Nd wl w BLACK ew wr) p cp ep C) s)" and len: "cp = RED \<or> clen C < clen C0"
  shows "del_goal t C0 s0 (fix_right_tail t p w)"
proof -
  have atp: "at t C (Nd (Nd wl w BLACK ew wr) p cp ep s)" and atw: "at t (CL C p cp ep s) (Nd wl w BLACK ew wr)"
    using at by (simp_all add: at_move)
  note hp = at_head [OF atp] and hw = at_head [OF atw]
  obtain ln rn where ch: "rnodes t (rootp (nil t) wl) = Some ln" "rcolor ln = rcol wl" "rnodes t (rootp (nil t) wr) = Some rn" "rcolor rn = rcol wr"
    using at_children [OF atw] by blast
  have inv: "invc s" "invh s" "invc wl" "invc wr" "invh wl" "invh wr" "bheight wl = bheight wr" "bheight wl = bheight s"
    "cinvc C cp" "cinvh C (if cp = BLACK then Suc (Suc (bheight s)) else Suc (bheight s))"
    using sh bl by (auto simp: short_def)
  note cw = cinvc_weaken [OF inv(9)]
  show ?thesis
  proof (cases "rcol wl = BLACK \<and> rcol wr = BLACK")
    case True
    obtain t2 where t2: "set_color t w RED = Some t2" "at t2 C (Nd (Nd wl w RED ew wr) p cp ep s)" "same_shape t t2"
      using set_color_left [OF atp] by blast
    have "fix_right_tail t p w = Some (t2, p)" using hw ch True t2(1) by (simp add: fix_right_tail_def)
    then show ?thesis using t2 inv cw True len eqn
      by (intro del_goalI [where t' = t2 and C' = C and s' = "Nd (Nd wl w RED ew wr) p cp ep s"]) (auto simp: short_def nodes_plug)
  next
    case False
    show ?thesis
    proof (cases "rcol wl = BLACK")
      case True
      with False obtain a x ex b where wr: "wr = Nd a x RED ex b" by (cases wr rule: rcol.cases) (auto, metis color.exhaust)
      obtain t1 where t1: "set_color t w RED = Some t1" "at t1 (CL C p cp ep s) (Nd wl w RED ew wr)" "same_shape t t1"
        using set_color_law [OF atw] by blast
      obtain t2 where t2: "rotate_left t1 w = Some t2" "at t2 (CL C p cp ep s) (Nd (Nd wl w RED ew a) x RED ex b)" "same_shape t1 t2"
        using rotate_left_law [OF t1(2) [unfolded wr]] by blast
      have at2: "at t2 C (Nd (Nd (Nd wl w RED ew a) x RED ex b) p cp ep s)" using t2(2) by (simp add: at_move)
      note hp2 = at_head [OF at2]
      obtain t6 where t6: "do { t3 \<leftarrow> set_color t2 x cp; t4 \<leftarrow> set_color t3 p BLACK; wn2 \<leftarrow> rnodes t4 x;
         t5 \<leftarrow> set_color t4 (rleft wn2) BLACK; t6 \<leftarrow> rotate_right t5 p; Some (t6, rroot t6) } = Some (t6, rroot t6)"
        "at t6 C (Nd (Nd wl w BLACK ew a) x cp ex (Nd b p BLACK ep s))" "same_shape t2 t6"
        using fix_right_rot [OF at2] by blast
      have "fix_right_tail t p w = Some (t6, rroot t6)"
        using hw ch False True t1(1) t2(1) hp2 t6(1) by (simp add: fix_right_tail_def)
      then show ?thesis using t1(3) t2(3) t6 inv wr True bl eqn
        by (intro goal_done [where t' = t6 and C' = C and s' = "Nd (Nd wl w BLACK ew a) x cp ex (Nd b p BLACK ep s)"])
           (auto simp: nodes_plug rbt_plug intro: same_shape_trans)
    next
      case red: False
      then obtain a x ex b where wl: "wl = Nd a x RED ex b" by (cases wl rule: rcol.cases) (auto, metis color.exhaust)
      obtain t6 where t6: "do { t3 \<leftarrow> set_color t w cp; t4 \<leftarrow> set_color t3 p BLACK; wn2 \<leftarrow> rnodes t4 w;
         t5 \<leftarrow> set_color t4 (rleft wn2) BLACK; t6 \<leftarrow> rotate_right t5 p; Some (t6, rroot t6) } = Some (t6, rroot t6)"
        "at t6 C (Nd (Nd a x BLACK ex b) w cp ew (Nd wr p BLACK ep s))" "same_shape t t6"
        using fix_right_rot [OF atp [unfolded wl]] by blast
      have "fix_right_tail t p w = Some (t6, rroot t6)"
        using hw ch False red hp t6(1) by (simp add: fix_right_tail_def)
      then show ?thesis using t6 inv wl bl eqn
        by (intro goal_done [where t' = t6 and C' = C and s' = "Nd (Nd a x BLACK ex b) w cp ew (Nd wr p BLACK ep s)"])
           (auto simp: nodes_plug rbt_plug)
    qed
  qed
qed

text \<open>The whole iteration: a red sibling is rotated away first.\<close>

lemma del_goal_same:
  assumes g: "del_goal t1 C s res" and ss: "same_shape t t1"
  shows "del_goal t C s res"
proof -
  obtain t' C' s' where "res = Some (t', rootp (nil t1) s')" "at t' C' s'" "s' \<noteq> Lf" "same_shape t1 t'" "nodes (plug C' s') = nodes (plug C s)"
    "short C' s' \<and> (rcol s' = RED \<or> clen C' < clen C) \<or> C' = Top \<and> rbt s'"
    using g unfolding del_goal_def by (elim exE conjE) (rule that)
  then show ?thesis using same_shape_nil [OF ss] same_shape_trans [OF ss]
    by (intro del_goalI [of res t' t s' C']) simp_all
qed

lemma delete_fix_left_law:
  assumes at: "at t (CL C p cp ep wt) s" and sh: "short (CL C p cp ep wt) s" and bl: "rcol s = BLACK"
  shows "del_goal t (CL C p cp ep wt) s (delete_fix_left t n p)"
proof -
  have "bheight wt = Suc (bheight s)" using sh by (simp add: short_def)
  then obtain wl w cw ew wr where wt: "wt = Nd wl w cw ew wr" by (cases wt) auto
  have atp: "at t C (Nd s p cp ep (Nd wl w cw ew wr))" and atw: "at t (CR s p cp ep C) (Nd wl w cw ew wr)"
    using at wt by (simp_all add: at_move)
  note hp = at_head [OF atp] and hw = at_head [OF atw]
  show ?thesis
  proof (cases cw)
    case BLACK
    have "delete_fix_left t n p = fix_left_tail t p w"
      using hp hw BLACK by (simp add: delete_fix_left_def fix_left_tail_def Let_def)
    then show ?thesis using fix_left_tail_law [of t C p cp ep wl w ew wr s] at sh bl wt BLACK by simp
  next
    case RED
    obtain t1 where t1: "set_color t w BLACK = Some t1" "at t1 C (Nd s p cp ep (Nd wl w BLACK ew wr))" "same_shape t t1"
      using set_color_right [OF atp] by blast
    obtain t2 where t2: "set_color t1 p RED = Some t2" "at t2 C (Nd s p RED ep (Nd wl w BLACK ew wr))" "same_shape t1 t2"
      using set_color_law [OF t1(2)] by blast
    obtain t3 where t3: "rotate_left t2 p = Some t3" "at t3 C (Nd (Nd s p RED ep wl) w BLACK ew wr)" "same_shape t2 t3"
      using rotate_left_law [OF t2(2)] by blast
    have ss: "same_shape t t3" using t1(3) t2(3) t3(3) by (blast intro: same_shape_trans)
    have atp3: "at t3 (CL C w BLACK ew wr) (Nd s p RED ep wl)" using t3(2) by (simp add: at_move)
    note hp3 = at_head [OF atp3]
    have cp: "cp = BLACK" using sh RED wt by (cases cp) (simp_all add: short_def)
    have inv: "invc s" "invh s" "invc wl" "invc wr" "invh wl" "invh wr" "bheight wl = bheight wr" "bheight wl = Suc (bheight s)"
      "rcol wl = BLACK" "rcol wr = BLACK" "cinvc C BLACK" "cinvh C (Suc (Suc (bheight s)))"
      using sh bl unfolding short_def wt RED cp by simp_all
    then obtain vl v ev vr where wl: "wl = Nd vl v BLACK ev vr" by (cases wl) auto
    have eq: "delete_fix_left t n p = fix_left_tail t3 p v"
      using hp hw RED t1(1) t2(1) t3(1) hp3 wl by (simp add: delete_fix_left_def fix_left_tail_def Let_def)
    have g: "del_goal t3 (CL C p cp ep wt) s (fix_left_tail t3 p v)"
    proof (rule fix_left_tail_law)
      show "at t3 (CL (CL C w BLACK ew wr) p RED ep (Nd vl v BLACK ev vr)) s" using atp3 wl by (simp add: at_move)
      show "short (CL (CL C w BLACK ew wr) p RED ep (Nd vl v BLACK ev vr)) s" using inv wl bl by (simp add: short_def)
    qed (use wt wl bl in \<open>simp_all add: nodes_plug\<close>)
    show ?thesis unfolding eq by (rule del_goal_same [OF g ss])
  qed
qed

lemma delete_fix_right_law:
  assumes at: "at t (CR wt p cp ep C) s" and sh: "short (CR wt p cp ep C) s" and bl: "rcol s = BLACK"
  shows "del_goal t (CR wt p cp ep C) s (delete_fix_right t n p)"
proof -
  have "bheight wt = Suc (bheight s)" using sh by (simp add: short_def)
  then obtain wl w cw ew wr where wt: "wt = Nd wl w cw ew wr" by (cases wt) auto
  have atp: "at t C (Nd (Nd wl w cw ew wr) p cp ep s)" and atw: "at t (CL C p cp ep s) (Nd wl w cw ew wr)"
    using at wt by (simp_all add: at_move)
  note hp = at_head [OF atp] and hw = at_head [OF atw]
  show ?thesis
  proof (cases cw)
    case BLACK
    have "delete_fix_right t n p = fix_right_tail t p w"
      using hp hw BLACK by (simp add: delete_fix_right_def fix_right_tail_def Let_def)
    then show ?thesis using fix_right_tail_law [of t wl w ew wr p cp ep C s] at sh bl wt BLACK by simp
  next
    case RED
    obtain t1 where t1: "set_color t w BLACK = Some t1" "at t1 C (Nd (Nd wl w BLACK ew wr) p cp ep s)" "same_shape t t1"
      using set_color_left [OF atp] by blast
    obtain t2 where t2: "set_color t1 p RED = Some t2" "at t2 C (Nd (Nd wl w BLACK ew wr) p RED ep s)" "same_shape t1 t2"
      using set_color_law [OF t1(2)] by blast
    obtain t3 where t3: "rotate_right t2 p = Some t3" "at t3 C (Nd wl w BLACK ew (Nd wr p RED ep s))" "same_shape t2 t3"
      using rotate_right_law [OF t2(2)] by blast
    have ss: "same_shape t t3" using t1(3) t2(3) t3(3) by (blast intro: same_shape_trans)
    have atp3: "at t3 (CR wl w BLACK ew C) (Nd wr p RED ep s)" using t3(2) by (simp add: at_move)
    note hp3 = at_head [OF atp3]
    have cp: "cp = BLACK" using sh RED wt by (cases cp) (simp_all add: short_def)
    have inv: "invc s" "invh s" "invc wl" "invc wr" "invh wl" "invh wr" "bheight wl = bheight wr" "bheight wl = Suc (bheight s)"
      "rcol wl = BLACK" "rcol wr = BLACK" "cinvc C BLACK" "cinvh C (Suc (Suc (bheight s)))"
      using sh bl unfolding short_def wt RED cp by simp_all
    then obtain vl v ev vr where wr: "wr = Nd vl v BLACK ev vr" by (cases wr) auto
    have eq: "delete_fix_right t n p = fix_right_tail t3 p v"
      using hp hw RED t1(1) t2(1) t3(1) hp3 wr by (simp add: delete_fix_right_def fix_right_tail_def Let_def)
    have g: "del_goal t3 (CR wt p cp ep C) s (fix_right_tail t3 p v)"
    proof (rule fix_right_tail_law)
      show "at t3 (CR (Nd vl v BLACK ev vr) p RED ep (CR wl w BLACK ew C)) s" using atp3 wr by (simp add: at_move)
      show "short (CR (Nd vl v BLACK ev vr) p RED ep (CR wl w BLACK ew C)) s" using inv wr bl by (simp add: short_def)
    qed (use wt wr bl in \<open>simp_all add: nodes_plug\<close>)
    show ?thesis unfolding eq by (rule del_goal_same [OF g ss])
  qed
qed

section \<open>The loop\<close>

text \<open>The node of the sentinel knows the parent of the place where it stands for the subtree.\<close>

definition nil_parent :: "'e rbtree \<Rightarrow> 'e ctx \<Rightarrow> 'e rtree \<Rightarrow> bool" where
  "nil_parent t C s \<longleftrightarrow> (s = Lf \<longrightarrow> (\<exists>zn. rnodes t (nil t) = Some zn \<and> rparent zn = cpar (nil t) C))"

lemma sub_parent: "at t C s \<Longrightarrow> nil_parent t C s \<Longrightarrow>
    \<exists>n. rnodes t (rootp (nil t) s) = Some n \<and> rparent n = cpar (nil t) C \<and> rcolor n = rcol s"
  by (cases s) (auto simp: nil_parent_def at_def)

definition fixed :: "'e rbtree \<Rightarrow> 'e ctx \<Rightarrow> 'e rtree \<Rightarrow> 'e rbtree option \<Rightarrow> bool" where
  "fixed t C s res \<longleftrightarrow> (\<exists>t' s'. res = Some t' \<and> at t' Top s' \<and> rbt s' \<and> nodes s' = nodes (plug C s) \<and> same_shape t t')"

lemma paint_root:
  assumes at: "at t C s" "s \<noteq> Lf" and r: "rbt (plug C (paint BLACK s))"
  shows "fixed t C s (set_color t (rootp (nil t) s) BLACK)"
proof -
  obtain l a c e rr where s: "s = Nd l a c e rr" using at(2) by (cases s) auto
  obtain t' where t': "set_color t a BLACK = Some t'" "at t' C (Nd l a BLACK e rr)" "same_shape t t'"
    using set_color_law [OF at(1) [unfolded s]] by blast
  then show ?thesis using r s at_plug [of t' C "Nd l a BLACK e rr"] unfolding fixed_def
    by (intro exI [of _ t'] exI [of _ "plug C (Nd l a BLACK e rr)"]) (simp add: nodes_plug)
qed

lemma root_is_top: "at t C s \<Longrightarrow> C \<noteq> Top \<Longrightarrow> rroot t \<noteq> rootp (nil t) s"
proof -
  assume a: "at t C s" "C \<noteq> Top"
  then have "rroot t \<in> set (caddrs C)" using rep_ctx_root_in by (auto simp: at_def)
  then show "rroot t \<noteq> rootp (nil t) s"
    using a(1) rootp_in [of "nil t" s] by (auto simp: at_def distinct_addrs_plug)
qed

lemma fix_up_law:
  assumes "at t C s" "nil_parent t C s" "short C s" "C = Top \<longrightarrow> s \<noteq> Lf"
  shows "fixed t C s (delete_fix_up t (rootp (nil t) s))"
  using assms
proof (induction "clen C" arbitrary: t C s rule: less_induct)
  case less
  note at = less.prems(1)
  obtain n where n: "rnodes t (rootp (nil t) s) = Some n" "rparent n = cpar (nil t) C" "rcolor n = rcol s"
    using sub_parent [OF at less.prems(2)] by blast
  have good: "rbt (plug C (paint BLACK s))" if "rcol s = RED \<or> C = Top"
    using less.prems(3) that by (cases s) (auto simp: short_def rbt_plug, simp_all add: rbt_def)
  show ?case
  proof (cases "C = Top \<or> rcol s = RED")
    case True
    then have "delete_fix_loop t (rootp (nil t) s) = Some (t, rootp (nil t) s)"
      using n at by (subst delete_fix_loop.simps) (auto simp: at_def)
    moreover have "s \<noteq> Lf" using True less.prems(4) by auto
    ultimately show ?thesis using paint_root [OF at] good True by (auto simp: delete_fix_up_def)
  next
    case False
    then have bl: "rcol s = BLACK" "C \<noteq> Top" by (auto, metis color.exhaust)
    have "\<exists>pn. rnodes t (rparent n) = Some pn \<and> del_goal t C s
        (if rootp (nil t) s = rleft pn then delete_fix_left t (rootp (nil t) s) (rparent n) else delete_fix_right t (rootp (nil t) s) (rparent n))"
    proof (cases C)
      case (CL C' p cp ep wt)
      have "at t C' (Nd s p cp ep wt)" using at CL by (simp add: at_move)
      from at_head [OF this] show ?thesis
        using delete_fix_left_law [of t C' p cp ep wt s "rootp (nil t) s"] at less.prems(3) bl n(2) CL by simp
    next
      case (CR wt p cp ep C')
      have ap: "at t C' (Nd wt p cp ep s)" using at CR by (simp add: at_move)
      have "bheight wt = Suc (bheight s)" using less.prems(3) CR by (simp add: short_def)
      then have "wt \<noteq> Lf" by auto
      then have "rootp (nil t) s \<noteq> rootp (nil t) wt"
        using ap rootp_in [of "nil t" s] by (cases wt) (auto simp: at_def distinct_addrs_plug)
      with at_head [OF ap] show ?thesis
        using delete_fix_right_law [of t wt p cp ep C' s "rootp (nil t) s"] at less.prems(3) bl n(2) CR by simp
    qed (use bl in simp)
    then obtain pn t' C' s' where st: "rnodes t (rparent n) = Some pn"
      "(if rootp (nil t) s = rleft pn then delete_fix_left t (rootp (nil t) s) (rparent n) else delete_fix_right t (rootp (nil t) s) (rparent n)) =
        Some (t', rootp (nil t) s')"
      "at t' C' s'" "s' \<noteq> Lf" "same_shape t t'" "nodes (plug C' s') = nodes (plug C s)"
      "short C' s' \<and> (rcol s' = RED \<or> clen C' < clen C) \<or> C' = Top \<and> rbt s'"
      unfolding del_goal_def by blast
    have nt: "nil t' = nil t" by (rule same_shape_nil [OF st(5)])
    have go: "delete_fix_up t (rootp (nil t) s) = delete_fix_up t' (rootp (nil t') s')"
      using n(1,3) st(1,2) bl(1) root_is_top [OF at bl(2)] nt unfolding delete_fix_up_def
      by (subst delete_fix_loop.simps) auto
    have "fixed t' C' s' (delete_fix_up t' (rootp (nil t') s'))"
    proof (cases "C' = Top \<or> rcol s' = RED")
      case True
      have h: "\<exists>n. rnodes t' (rootp (nil t') s') = Some n \<and> rcolor n = rcol s'" using at_color [OF st(3)] .
      then have "delete_fix_loop t' (rootp (nil t') s') = Some (t', rootp (nil t') s')"
        using True st(3) by (subst delete_fix_loop.simps) (auto simp: at_def)
      moreover have "rbt (plug C' (paint BLACK s'))"
      proof (cases "rbt s' \<and> C' = Top")
        case True
        then show ?thesis by (simp add: rbt_paint)
      next
        case False
        then have "short C' s'" using st(7) by blast
        then show ?thesis using True st(4) by (cases s') (auto simp: short_def rbt_plug)
      qed
      ultimately show ?thesis using paint_root [OF st(3,4)] by (simp add: delete_fix_up_def)
    next
      case False
      then show ?thesis using less.hyps [of C' t' s'] st(3,4,7) by (auto simp: nil_parent_def)
    qed
    then show ?thesis unfolding go fixed_def using st(5,6) same_shape_trans by metis
  qed
qed

section \<open>Unlinking a node\<close>

definition only_child :: "'e rtree \<Rightarrow> 'e rtree \<Rightarrow> 'e rtree" where
  "only_child l r = (if l = Lf then r else l)"

lemma rb_unlink_law:
  assumes at: "at t C (Nd xl x cx ex xr)" and one: "xl = Lf \<or> xr = Lf" and ne: "C \<noteq> Top"
  shows "\<exists>t'. rb_unlink t x = Some (t', rootp (nil t) (only_child xl xr)) \<and> at t' C (only_child xl xr) \<and>
    nil_parent t' C (only_child xl xr) \<and> same_shape t t' \<and> rnodes t' x = rnodes t x"
proof -
  define zt where "zt = only_child xl xr"
  let ?z = "nil t" and ?q = "cpar (nil t) C" and ?b = "rootp (nil t) zt"
  have d: "distinct (caddrs C)" "distinct (addrs zt)" "x \<notin> set (caddrs C)" "x \<noteq> ?z" "?z \<notin> set (caddrs C)" "?z \<notin> set (addrs zt)"
    "x \<notin> set (addrs zt)" "set (addrs zt) \<inter> set (caddrs C) = {}" "NULL \<notin> set (caddrs C)" "NULL \<notin> set (addrs zt)"
    using at unfolding at_def zt_def only_child_def by (auto simp: distinct_addrs_plug)
  have rz: "rep (rnodes t) ?z x zt" and rC: "rep_ctx (rnodes t) ?z (rroot t) C x"
    using at by (auto simp: at_def zt_def only_child_def)
  obtain zn where zn: "rnodes t ?z = Some zn" "rcolor zn = BLACK" using at by (auto simp: at_def)
  obtain bn where bn: "rnodes t ?b = Some bn" using zn rz by (cases zt) auto
  have b: "?b \<noteq> x" "?b \<notin> set (caddrs C)" using d rootp_in [of ?z zt] by auto
  obtain t1 where t1: "relink t x ?q ?b = Some t1" "same_shape t t1" "rep_ctx (rnodes t1) ?z (rroot t1) C ?b"
      "\<forall>y. y \<notin> set (caddrs C) \<longrightarrow> rnodes t1 y = rnodes t y"
    using relink_law [OF rC d(3,4,1), of ?b] by blast
  have "rroot t \<noteq> x" using rep_ctx_root_in [OF rC ne] d(3) by auto
  then obtain pn where pn: "rnodes t ?q = Some pn" "(if x = rleft pn then set_left t ?q ?b else set_right t ?q ?b) = Some t1"
    using t1(1) by (auto simp: relink_def split: option.splits bind_splits)
  define t2 where "t2 = t1\<lparr>rnodes := (rnodes t1)(?b \<mapsto> bn\<lparr>rparent := ?q\<rparr>)\<rparr>"
  have z: "(if rootp ?z xl \<noteq> ?z then rootp ?z xl else if rootp ?z xr \<noteq> ?z then rootp ?z xr else ?z) = ?b"
    using one at by (cases xl; cases xr) (auto simp: zt_def only_child_def at_def)
  have w: "set_parent t1 ?b ?q = Some t2" using t1(4) bn b by (simp add: set_parent_def upd_def t2_def)
  have "rb_unlink t x = Some (t2, ?b)"
    using at_head [OF at] pn w z unfolding rb_unlink_def Let_def by (cases "x = rleft pn") (simp_all cong: if_cong)
  moreover have "at t2 C zt"
  proof -
    have "rep (rnodes t2) ?z ?q zt"
      by (rule rep_cong [OF reparent [OF rz bn d(2)]]) (use d t1(4) in \<open>auto simp: t2_def\<close>)
    moreover have "rep_ctx (rnodes t2) ?z (rroot t2) C ?b" using t1(3) b by (simp add: t2_def frame)
    moreover have "\<exists>n. rnodes t2 ?z = Some n \<and> rcolor n = BLACK"
      using t1(4) d(5) zn bn by (auto simp: t2_def)
    ultimately show ?thesis using d same_shape_nil [OF t1(2)] at by (auto simp: at_def t2_def distinct_addrs_plug)
  qed
  moreover have "nil_parent t2 C zt" using same_shape_nil [OF t1(2)] by (auto simp: nil_parent_def t2_def)
  moreover have "same_shape t t2" using t1(2) bn by (auto simp: same_shape_def t2_def)
  moreover have "rnodes t2 x = rnodes t x" using b t1(4) d(3) by (simp add: t2_def)
  ultimately show ?thesis unfolding zt_def by blast
qed

lemma copy_law:
  assumes at: "at t C (Nd l a c e r)"
  shows "\<exists>t'. do { t' \<leftarrow> copy_key t a k; copy_value t' a v } = Some t' \<and> at t' C (Nd l a c (k, v) r) \<and> same_shape t t' \<and>
    (\<forall>y. y \<noteq> a \<longrightarrow> rnodes t' y = rnodes t y)"
proof -
  have d: "a \<notin> set (addrs l)" "a \<notin> set (addrs r)" "a \<notin> set (caddrs C)" "a \<noteq> nil t"
    using at by (auto simp: at_def distinct_addrs_plug)
  show ?thesis using at at_head [OF at] d
    by (auto simp: copy_key_def copy_value_def upd_def at_def frame same_shape_def distinct_addrs_plug)
qed

lemma at_drop:
  assumes "at t C s" "x \<notin> set (addrs (plug C s))" "x \<noteq> nil t"
  shows "at (t\<lparr>rnodes := (rnodes t)(x := None), rsize := k\<rparr>) C s"
  using assms by (auto simp: at_def frame)

section \<open>After the node is unlinked\<close>

definition delete_end :: "'e rbtree \<Rightarrow> addr \<Rightarrow> addr \<Rightarrow> 'e rbtree option" where
  "delete_end t2 x z = do {
     xn2 \<leftarrow> rnodes t2 x;
     t3 \<leftarrow> (if x \<noteq> rroot t2 \<and> rcolor xn2 = BLACK then delete_fix_up t2 z else Some t2);
     let t4 = (if x = rroot t3 then t3\<lparr>rroot := nil t3\<rparr> else t3);
     Some (t4\<lparr>rnodes := (rnodes t4)(x := None), rsize := rsize t4 - 1\<rparr>) }"

definition ended :: "'e rbtree \<Rightarrow> (addr \<times> 'e) list \<Rightarrow> addr \<Rightarrow> 'e rbtree option \<Rightarrow> bool" where
  "ended t xs x res \<longleftrightarrow> (\<exists>t' s'. res = Some t' \<and> at t' Top s' \<and> rbt s' \<and> nodes s' = xs \<and> nil t' = nil t \<and>
     rsize t' = rsize t - 1 \<and> dom (rnodes t') = dom (rnodes t) - {x})"

lemma delete_end_law:
  assumes at: "at t C s" and np: "nil_parent t C s" and ne: "C \<noteq> Top"
    and x: "rnodes t x = Some xn" "x \<noteq> nil t" "x \<notin> set (addrs (plug C s))"
    and inv: "if rcolor xn = BLACK then short C s else rbt (plug C s)"
  shows "ended t (nodes (plug C s)) x (delete_end t x (rootp (nil t) s))"
proof -
  have rx: "rroot t' \<noteq> x" if "at t' Top s'" "nil t' = nil t" "nodes s' = nodes (plug C s)" for t' and s'
  proof -
    have "rroot t' = rootp (nil t') s'" using that(1) by (simp add: at_def)
    moreover have "set (addrs s') = set (addrs (plug C s))" using that(3) by (simp add: addrs_def)
    ultimately show ?thesis using rootp_in [of "nil t'" s'] that(2) x(2,3) by auto
  qed
  have tp: "at t Top (plug C s)" using at at_plug by blast
  have "fixed t C s (if rcolor xn = BLACK then delete_fix_up t (rootp (nil t) s) else Some t)"
  proof (cases "rcolor xn = BLACK")
    case True
    then show ?thesis using fix_up_law [OF at np] inv ne by simp
  next
    case False
    then show ?thesis using tp inv by (auto simp: fixed_def same_shape_def)
  qed
  then obtain t' s' where f: "(if rcolor xn = BLACK then delete_fix_up t (rootp (nil t) s) else Some t) = Some t'"
    "at t' Top s'" "rbt s'" "nodes s' = nodes (plug C s)" "same_shape t t'" unfolding fixed_def by blast
  have nt: "nil t' = nil t" by (rule same_shape_nil [OF f(5)])
  have xs': "x \<notin> set (addrs (plug Top s'))" using x(3) f(4) by (simp add: addrs_def)
  have "delete_end t x (rootp (nil t) s) = Some (t'\<lparr>rnodes := (rnodes t')(x := None), rsize := rsize t' - 1\<rparr>)"
    using x(1) rx [OF tp] rx [OF f(2) nt f(4)] f(1) by (auto simp: delete_end_def Let_def split: if_splits)
  moreover have "at (t'\<lparr>rnodes := (rnodes t')(x := None), rsize := rsize t' - 1\<rparr>) Top s'"
    by (rule at_drop [OF f(2) xs']) (use nt x(2) in simp)
  ultimately show ?thesis using f(3-5) unfolding ended_def by (auto simp: same_shape_def)
qed

lemma unlinked_inv:
  assumes r: "rbt (plug C (Nd xl x cx ex xr))" and one: "xl = Lf \<or> xr = Lf"
  shows "if cx = BLACK then short C (only_child xl xr) else rbt (plug C (only_child xl xr))"
proof -
  have inv: "invc xl" "invc xr" "invh xl" "invh xr" "bheight xl = bheight xr" "cinvc C cx" "cinvh C (if cx = BLACK then Suc (bheight xl) else bheight xl)"
    "cx = RED \<Longrightarrow> rcol xl = BLACK \<and> rcol xr = BLACK"
    using r by (auto simp: rbt_plug)
  show ?thesis
  proof (cases cx)
    case BLACK
    then show ?thesis using inv one by (auto simp: short_def only_child_def)
  next
    case RED
    then have "xl = Lf" "xr = Lf" using inv(5,8) one by (cases xl; cases xr; simp)+
    then show ?thesis using inv RED cinvc_weaken [of C RED] by (simp add: rbt_plug only_child_def)
  qed
qed

text \<open>Two contexts that differ in the data of the node \<open>n\<close> only.\<close>

definition redata :: "addr \<Rightarrow> 'e \<Rightarrow> 'e ctx \<Rightarrow> 'e ctx \<Rightarrow> bool" where
  "redata n ex C C' \<longleftrightarrow> (\<exists>D l c e B. C = capp D (CR l n c e B) \<and> C' = capp D (CR l n c ex B)) \<or>
     (\<exists>c e r B. C = CL B n c e r \<and> C' = CL B n c ex r)"

lemma capp_data:
  "cinvc (capp D (CR l n c e B)) d = cinvc (capp D (CR l n c ex B)) d" "cinvh (capp D (CR l n c e B)) h = cinvh (capp D (CR l n c ex B)) h"
  "cpar z (capp D (CR l n c e B)) = cpar z (capp D (CR l n c ex B))"
  by (induction D arbitrary: d h) auto

lemma redata_laws:
  assumes "redata n ex C C'"
  shows "rbt (plug C' s) = rbt (plug C s)" "set (caddrs C') = set (caddrs C)" "cpar z C' = cpar z C" "C \<noteq> Top" "C' \<noteq> Top"
proof -
  have *: "set (caddrs (capp D (CR l n c e B))) = set (caddrs (capp D (CR l n c e' B)))" for D l c e e' B
    by (auto simp: caddrs_def)
  consider D l c e B where "C = capp D (CR l n c e B)" "C' = capp D (CR l n c ex B)" | c e r B where "C = CL B n c e r" "C' = CL B n c ex r"
    using assms unfolding redata_def by blast
  then have "rbt (plug C' s) = rbt (plug C s) \<and> set (caddrs C') = set (caddrs C) \<and> cpar z C' = cpar z C \<and> C \<noteq> Top \<and> C' \<noteq> Top"
  proof cases
    case (1 D l c e B)
    then show ?thesis using capp_data(1) [of D l n c e B "rcol s" ex] capp_data(2) [of D l n c e B "bheight s" ex] capp_data(3) [of z D l n c e B ex] *
      unfolding rbt_plug by (simp add: capp_Top)
  next
    case 2
    then show ?thesis by (simp only: rbt_plug cinvc.simps cinvh.simps cpar.simps caddrs_set) simp
  qed
  then show "rbt (plug C' s) = rbt (plug C s)" "set (caddrs C') = set (caddrs C)" "cpar z C' = cpar z C" "C \<noteq> Top" "C' \<noteq> Top"
    by blast+
qed

lemma copy_step:
  assumes at: "at t C s" and np: "nil_parent t C s" and rd: "redata n (k, v) C C'" and x: "x \<noteq> n"
  shows "\<exists>t'. do { t' \<leftarrow> copy_key t n k; copy_value t' n v } = Some t' \<and> at t' C' s \<and> nil_parent t' C' s \<and> same_shape t t' \<and>
    rnodes t' x = rnodes t x"
proof -
  have "\<exists>t'. do { t' \<leftarrow> copy_key t n k; copy_value t' n v } = Some t' \<and> at t' C' s \<and> same_shape t t' \<and> (\<forall>y. y \<noteq> n \<longrightarrow> rnodes t' y = rnodes t y)"
    using rd unfolding redata_def
  proof (elim disjE exE conjE)
    fix D l c e B assume C: "C = capp D (CR l n c e B)" "C' = capp D (CR l n c (k, v) B)"
    show ?thesis using copy_law [of t B l n c e "plug D s" k v] at C by (simp add: at_capp at_move)
  next
    fix c e r B assume C: "C = CL B n c e r" "C' = CL B n c (k, v) r"
    show ?thesis using copy_law [of t B s n c e r k v] at C by (simp add: at_move)
  qed
  then obtain t' where t': "do { t' \<leftarrow> copy_key t n k; copy_value t' n v } = Some t'" "at t' C' s" "same_shape t t'"
    "\<forall>y. y \<noteq> n \<longrightarrow> rnodes t' y = rnodes t y" by blast
  have "n \<in> set (caddrs C)" using rd by (auto simp: redata_def caddrs_def)
  then have "nil t \<noteq> n" using at by (auto simp: at_def)
  then have "nil_parent t' C' s" using np t'(4) same_shape_nil [OF t'(3)] redata_laws(3) [OF rd] by (simp add: nil_parent_def)
  then show ?thesis using t' x by auto
qed

lemma ended_rep:
  assumes rep: "rb_rep t s" and e: "ended t zs x res" and x: "x \<noteq> nil t" "x \<notin> fst ` set zs"
    and ns: "fst ` set (nodes s) = insert x (fst ` set zs)" "length (nodes s) = Suc (length zs)" "sorted_wrt (<) (tkeys zs)"
  shows "\<exists>t' s'. res = Some t' \<and> rb_rep t' s' \<and> nodes s' = zs \<and> nil t' = nil t"
proof -
  obtain t' s' where r: "res = Some t'" "at t' Top s'" "rbt s'" "nodes s' = zs" "nil t' = nil t" "rsize t' = rsize t - 1"
    "dom (rnodes t') = dom (rnodes t) - {x}" using e unfolding ended_def by blast
  have "rb_rep t' s'" using r rep ns x by (auto simp: rb_rep_def addrs_def)
  then show ?thesis using r by blast
qed

lemma rb_delete_steps:
  assumes "compares cmp" "rb_find cmp t key = Some n" "rnodes t n = Some nn" "get_key nn = key" "get_delete_node t n = Some x"
    "rnodes t x = Some xn" "(if w then if x = n \<or> get_key xn < key then successor t x else Some n else Some NULL) = Some sc"
    "rb_unlink t x = Some (t1, z)"
    "(if n \<noteq> x then do { xn1 \<leftarrow> rnodes t1 x; t' \<leftarrow> copy_key t1 n (get_key xn1); copy_value t' n (get_value xn1) } else Some t1) = Some t2"
    "delete_end t2 x z = Some t'"
  shows "rb_delete cmp t key w = Some (t', sc)"
proof -
  obtain xn2 where x2: "rnodes t2 x = Some xn2" using assms(10) by (auto simp: delete_end_def split: bind_splits)
  show ?thesis using assms(1-9) assms(10) [unfolded delete_end_def] x2
    by (cases "if x \<noteq> rroot t2 \<and> rcolor xn2 = BLACK then delete_fix_up t2 z else Some t2")
       (cases w; auto simp: rb_delete_def Let_def split: if_splits)+
qed

text \<open>The node that is unlinked when the node of the key has a right subtree: the first of it.\<close>

lemma first_node:
  "at t C s \<Longrightarrow> s \<noteq> Lf \<Longrightarrow> \<exists>D x cx ex xr. minimum t (rootp (nil t) s) = Some x \<and> s = plug D (Nd Lf x cx ex xr) \<and> lefts D = []"
proof (induction s arbitrary: C)
  case (Nd l a c e r)
  note h = at_head [OF Nd.prems(1)]
  show ?case
  proof (cases l)
    case Lf
    then have "minimum t a = Some a" using h by (subst minimum.simps) simp
    then show ?thesis using Lf by (intro exI [of _ Top]) auto
  next
    case l: (Nd l1 b d f l2)
    have at: "at t (CL C a c e r) l" using Nd.prems(1) by (simp add: at_move)
    have "b \<noteq> nil t" using at_nonnil [OF at [unfolded l]] by simp
    then have m: "minimum t a = minimum t (rootp (nil t) l)" using h l by (subst minimum.simps) simp
    obtain D x cx ex xr where "minimum t (rootp (nil t) l) = Some x" "l = plug D (Nd Lf x cx ex xr)" "lefts D = []"
      using Nd.IH(1) [OF at] l by blast
    then show ?thesis using m by (intro exI [of _ "capp D (CL Top a c e r)"]) auto
  qed
qed simp

lemma redata_fst:
  assumes "redata n ex C C'"
  shows "map fst (lefts C') = map fst (lefts C)" "map fst (rights C') = map fst (rights C)"
  using assms by (auto simp: redata_def)

section \<open>Deletion of the node of a key\<close>

lemma delete_at:
  fixes t :: "('k::linorder, 'v) rb"
  assumes cmp: "compares cmp" and rep: "rb_rep t s"
    and f: "rb_find cmp t key = Some n" "rnodes t n = Some nn" "get_key nn = key" "get_delete_node t n = Some x"
    and at: "at t C (Nd xl x cx ex xr)" and s: "plug C (Nd xl x cx ex xr) = s" and one: "xl = Lf \<or> xr = Lf" and ne: "C \<noteq> Top"
    and C': "n = x \<and> C' = C \<or> n \<noteq> x \<and> redata n ex C C'"
    and srt: "sorted_wrt (<) (tkeys (nodes (plug C' (only_child xl xr))))"
    and sc: "(if w then if x = n \<or> fst ex < key then successor t x else Some n else Some NULL) = Some sc"
  shows "\<exists>t' s'. rb_delete cmp t key w = Some (t', sc) \<and> rb_rep t' s' \<and> nodes s' = nodes (plug C' (only_child xl xr)) \<and> nil t' = nil t"
proof -
  let ?zt = "only_child xl xr"
  note hx = at_head [OF at]
  obtain t1 where t1: "rb_unlink t x = Some (t1, rootp (nil t) ?zt)" "at t1 C ?zt" "nil_parent t1 C ?zt" "same_shape t t1"
    "rnodes t1 x = rnodes t x"
    using rb_unlink_law [OF at one ne] by blast
  have "\<exists>t2. (if n \<noteq> x then do { xn1 \<leftarrow> rnodes t1 x; t' \<leftarrow> copy_key t1 n (get_key xn1); copy_value t' n (get_value xn1) } else Some t1) = Some t2 \<and>
    at t2 C' ?zt \<and> nil_parent t2 C' ?zt \<and> same_shape t t2 \<and> rnodes t2 x = rnodes t x"
  proof (cases "n = x")
    case True
    then show ?thesis using t1 C' by auto
  next
    case False
    obtain k v where ex: "ex = (k, v)" by (cases ex)
    have "redata n (k, v) C C'" using False C' ex by blast
    from copy_step [OF t1(2,3) this, of x] False obtain t2 where
      "do { t' \<leftarrow> copy_key t1 n k; copy_value t' n v } = Some t2" "at t2 C' ?zt" "nil_parent t2 C' ?zt" "same_shape t1 t2" "rnodes t2 x = rnodes t1 x"
      by blast
    then show ?thesis using False t1(4,5) hx ex by (auto simp: get_key_def get_value_def intro: same_shape_trans)
  qed
  then obtain t2 where t2: "(if n \<noteq> x then do { xn1 \<leftarrow> rnodes t1 x; t' \<leftarrow> copy_key t1 n (get_key xn1); copy_value t' n (get_value xn1) } else Some t1) = Some t2"
    "at t2 C' ?zt" "nil_parent t2 C' ?zt" "same_shape t t2" "rnodes t2 x = rnodes t x" by blast
  have fs: "map fst (lefts C') = map fst (lefts C)" "map fst (rights C') = map fst (rights C)" using C' redata_fst by metis+
  have ne': "C' \<noteq> Top" using C' ne redata_laws(5) by metis
  have rb: "rbt (plug C' (Nd xl x cx ex xr))" using C' rep s redata_laws(1) unfolding rb_rep_def by metis
  define zs where "zs = nodes (plug C' ?zt)"
  have mz: "map fst zs = map fst (lefts C) @ addrs ?zt @ map fst (rights C)" by (simp add: zs_def nodes_plug fs addrs_def)
  have ms: "map fst (nodes s) = map fst (lefts C) @ (addrs xl @ x # addrs xr) @ map fst (rights C)"
    using s by (auto simp: nodes_plug addrs_def)
  have xz: "x \<notin> set (map fst zs)"
    using at one unfolding mz by (auto simp: at_def distinct_addrs_plug caddrs_def only_child_def)
  have nil2: "nil t2 = nil t" by (rule same_shape_nil [OF t2(4)])
  have xn: "x \<noteq> nil t" using at_nonnil [OF at] by simp
  have "ended t2 zs x (delete_end t2 x (rootp (nil t2) ?zt))" unfolding zs_def
  proof (rule delete_end_law [OF t2(2,3) ne'])
    show "rnodes t2 x = Some \<lparr>rparent = cpar (nil t) C, rleft = rootp (nil t) xl, rright = rootp (nil t) xr, rcolor = cx, rdata = ex\<rparr>"
      using t2(5) hx by simp
    show "x \<noteq> nil t2" using xn nil2 by simp
    show "x \<notin> set (addrs (plug C' ?zt))" using xz by (simp add: zs_def addrs_def)
  qed (use unlinked_inv [OF rb one] in simp)
  then have e: "ended t zs x (delete_end t2 x (rootp (nil t) ?zt))" using t2(4) by (simp add: ended_def same_shape_def)
  have "set (map fst (nodes s)) = insert x (set (map fst zs))" using one unfolding ms mz by (auto simp: only_child_def)
  moreover have "length (map fst (nodes s)) = Suc (length (map fst zs))" using one unfolding ms mz by (auto simp: only_child_def)
  ultimately obtain t' s' where r: "delete_end t2 x (rootp (nil t) ?zt) = Some t'" "rb_rep t' s'" "nodes s' = zs" "nil t' = nil t"
    using ended_rep [OF rep e xn] xz srt by (auto simp: zs_def)
  have "rb_delete cmp t key w = Some (t', sc)"
    by (rule rb_delete_steps [OF cmp f hx _ t1(1) t2(1) r(1)]) (use sc in \<open>cases w; auto simp: get_key_def split: if_splits\<close>)
  then show ?thesis using r unfolding zs_def by blast
qed

text \<open>The only node of the tree.\<close>

lemma delete_single:
  fixes t :: "('k::linorder, 'v) rb"
  assumes cmp: "compares cmp" and rep: "rb_rep t (Nd Lf n c (key, v) Lf)" and f: "rb_find cmp t key = Some n"
  shows "\<exists>t'. rb_delete cmp t key w = Some (t', if w then nil t else NULL) \<and> rb_rep t' Lf \<and> nil t' = nil t"
proof -
  have at: "at t Top (Nd Lf n c (key, v) Lf)" using rep by (simp add: rb_rep_def)
  note h = at_head [OF at]
  have d: "n \<noteq> nil t" "rroot t = n" "nil t \<noteq> NULL" using at by (auto simp: at_def)
  obtain zn where zn: "rnodes t (nil t) = Some zn" "rcolor zn = BLACK" using at by (auto simp: at_def)
  obtain t1 where t1: "rb_unlink t n = Some (t1, nil t)" "rroot t1 = n" "nil t1 = nil t" "rsize t1 = rsize t" "dom (rnodes t1) = dom (rnodes t)"
    "rnodes t1 n = rnodes t n" "\<exists>zn. rnodes t1 (nil t) = Some zn \<and> rcolor zn = BLACK"
    using h zn d by (cases "n = rleft zn") (auto simp: rb_unlink_def Let_def writes)
  let ?t' = "t1\<lparr>rroot := nil t, rnodes := (rnodes t1)(n := None), rsize := rsize t1 - 1\<rparr>"
  have de: "delete_end t1 n (nil t) = Some ?t'" using t1 h by (simp add: delete_end_def)
  have "rb_delete cmp t key w = Some (?t', if w then nil t else NULL)"
  proof (rule rb_delete_steps [OF cmp f h _ _ h _ t1(1) _ de])
    show "get_delete_node t n = Some n" using h by (simp add: get_delete_node_def)
  qed (use successor_law [OF at] h in \<open>simp_all add: get_key_def\<close>)
  moreover have "rb_rep ?t' Lf"
    using rep t1 d by (auto simp: rb_rep_def at_def rbt_def)
  ultimately show ?thesis using t1(3) by (intro exI [of _ ?t']) simp
qed

text \<open>What deletion of the node \<open>n\<close> does: the entry is gone, and the returned iterator stands where it was.\<close>

definition erased :: "('k::linorder, 'v) rb \<Rightarrow> ('k \<times> 'v) ctx \<Rightarrow> ('k \<times> 'v) rtree \<Rightarrow> ('k \<times> 'v) rtree \<Rightarrow> bool \<Rightarrow> (('k, 'v) rb \<times> addr) option \<Rightarrow> bool" where
  "erased t C l r w res \<longleftrightarrow> (\<exists>t' s' sc. res = Some (t', sc) \<and> rb_rep t' s' \<and> nil t' = nil t \<and>
     map snd (nodes s') = map snd (lefts C @ nodes l @ nodes r @ rights C) \<and>
     (w \<longrightarrow> sc = first_addr (nil t) (drop (length (lefts C @ nodes l) - (if l \<noteq> Lf \<and> r = Lf then 1 else 0)) (nodes s'))))"

lemma erasedI:
  assumes "\<exists>t' s'. res = Some (t', sc) \<and> rb_rep t' s' \<and> nodes s' = zs \<and> nil t' = nil t" "map snd zs = map snd (lefts C @ nodes l @ nodes r @ rights C)"
    "w \<longrightarrow> sc = first_addr (nil t) (drop (length (lefts C @ nodes l) - (if l \<noteq> Lf \<and> r = Lf then 1 else 0)) zs)"
  shows "erased t C l r w res"
  using assms unfolding erased_def by blast

lemma redata_capp: "redata n ex (capp D (CR l n c e B)) (capp D (CR l n c ex B))"
  and redata_CL: "redata n ex (CL B n c e r) (CL B n c ex r)"
  unfolding redata_def by blast+

lemma flat_tree: "bheight s = 0 \<Longrightarrow> invc s \<Longrightarrow> invh s \<Longrightarrow> s \<noteq> Lf \<Longrightarrow> \<exists>x ex. s = Nd Lf x RED ex Lf"
proof (cases s)
  case (Nd l a c e r)
  assume a: "bheight s = 0" "invc s" "invh s"
  have "c = RED" using a(1) Nd by (cases c) auto
  moreover have "l = Lf" using a Nd \<open>c = RED\<close> by (cases l) auto
  moreover have "r = Lf" using a Nd \<open>c = RED\<close> by (cases r) auto
  ultimately show ?thesis using Nd by blast
qed simp

lemma delete_law:
  fixes t :: "('k::linorder, 'v) rb"
  assumes cmp: "compares cmp" and rep: "rb_rep t (plug C (Nd l n c (key, v) r))" and f: "rb_find cmp t key = Some n"
  shows "erased t C l r w (rb_delete cmp t key w)"
proof -
  let ?z = "nil t"
  have at: "at t C (Nd l n c (key, v) r)" and srt: "sorted_wrt (<) (tkeys (nodes (plug C (Nd l n c (key, v) r))))"
    and rb: "rbt (plug C (Nd l n c (key, v) r))"
    using rep at_plug [of t C] by (auto simp: rb_rep_def)
  note h = at_head [OF at]
  have key: "get_key \<lparr>rparent = cpar ?z C, rleft = rootp ?z l, rright = rootp ?z r, rcolor = c, rdata = (key, v)\<rparr> = key"
    by (simp add: get_key_def)
  have nl: "l \<noteq> Lf \<Longrightarrow> rootp ?z l \<noteq> ?z" and nr: "r \<noteq> Lf \<Longrightarrow> rootp ?z r \<noteq> ?z"
    using at by (cases l; auto simp: at_def) (use at in \<open>cases r; auto simp: at_def\<close>)
  consider "r \<noteq> Lf" | "r = Lf" "l \<noteq> Lf" | "r = Lf" "l = Lf" "C \<noteq> Top" | "r = Lf" "l = Lf" "C = Top" by blast
  then show ?thesis
  proof cases
    case 1
    have atr: "at t (CR l n c (key, v) C) r" using at by (simp add: at_move)
    obtain D x cx ex xr where m: "minimum t (rootp ?z r) = Some x" "r = plug D (Nd Lf x cx ex xr)" "lefts D = []"
      using first_node [OF atr 1] by blast
    have g: "get_delete_node t n = Some x" using h nr [OF 1] m(1) by (simp add: get_delete_node_def)
    have atx: "at t (capp D (CR l n c (key, v) C)) (Nd Lf x cx ex xr)" using atr m(2) by (simp add: at_capp)
    have neq: "n \<noteq> x" using at m(2) by (auto simp: at_def distinct_addrs_plug)
    have gt: "key < fst ex" using srt m(2,3) by (auto simp: nodes_plug sorted_wrt_append)
    show ?thesis
      by (rule erasedI [OF delete_at [OF cmp rep f h key g atx _ _ _ disjI2 [OF conjI [OF neq redata_capp]], of w "if w then n else NULL"]])
         (use m neq gt srt 1 in \<open>auto simp: nodes_plug sorted_wrt_append only_child_def capp_Top\<close>)
  next
    case 2
    have "bheight l = 0" "invc l" "invh l" using rb 2(1) by (auto simp: rbt_plug)
    then obtain x ex where l: "l = Nd Lf x RED ex Lf" using flat_tree 2(2) by blast
    have atx: "at t (CL C n c (key, v) Lf) (Nd Lf x RED ex Lf)" using at 2(1) l by (simp add: at_move)
    have m: "maxmum t x = Some x" using at_head [OF atx] by (subst maxmum.simps) simp
    have g: "get_delete_node t n = Some x" using h nl [OF 2(2)] m l 2(1) by (simp add: get_delete_node_def)
    have neq: "n \<noteq> x" using at l by (auto simp: at_def distinct_addrs_plug)
    have lt: "fst ex < key" using srt l by (auto simp: nodes_plug sorted_wrt_append)
    have sc: "successor t x = Some n" using successor_law [OF atx] by simp
    show ?thesis
      by (rule erasedI [OF delete_at [OF cmp rep f h key g atx _ _ _ disjI2 [OF conjI [OF neq redata_CL]], of w "if w then n else NULL"]])
         (use l lt sc srt 2 in \<open>auto simp: nodes_plug sorted_wrt_append only_child_def\<close>)
  next
    case 3
    have g: "get_delete_node t n = Some n" using h 3 by (simp add: get_delete_node_def)
    have sc: "successor t n = Some (first_addr ?z (rights C))" using successor_law [OF at] 3 by simp
    show ?thesis
      by (rule erasedI [OF delete_at [OF cmp rep f h key g at _ _ 3(3) disjI1 [OF conjI [OF refl refl]], of w "if w then first_addr ?z (rights C) else NULL"]])
         (use sc srt 3 in \<open>auto simp: nodes_plug sorted_wrt_append only_child_def\<close>)
  next
    case 4
    obtain t' where t': "rb_delete cmp t key w = Some (t', if w then ?z else NULL)" "rb_rep t' Lf" "nil t' = ?z"
      using delete_single [OF cmp _ f, of c v w] rep 4 by auto
    have "\<exists>t' s'. rb_delete cmp t key w = Some (t', if w then ?z else NULL) \<and> rb_rep t' s' \<and> nodes s' = [] \<and> nil t' = nil t"
      using t' by (intro exI [of _ t'] exI [of _ Lf]) simp
    from erasedI [OF this] show ?thesis using 4 by simp
  qed
qed

lemma find_present:
  fixes t :: "('k::linorder, 'v) rb"
  assumes cmp: "compares cmp" and rep: "rb_rep t s" and key: "key \<in> set (tkeys (nodes s))"
  shows "\<exists>C l n c v r. rb_find cmp t key = Some n \<and> plug C (Nd l n c (key, v) r) = s"
proof -
  have "\<not> (plug C Lf = s \<and> around C key)" for C using key around_notin by blast
  then obtain a where "rb_find cmp t key = Some a" "found t s key a"
    using rb_find_law [OF cmp, of t s key] rep by (auto simp: rb_rep_def)
  then show ?thesis unfolding found_def by blast
qed

lemma delete_absent:
  fixes t :: "('k::linorder, 'v) rb"
  assumes cmp: "compares cmp" and rep: "rb_rep t s" and ne: "s \<noteq> Lf" and key: "key \<notin> set (tkeys (nodes s))"
  shows "rb_delete cmp t key w = Some (t, NULL)"
proof -
  have "\<not> found t s key a" for a using key found_key [of t s key a] by (force simp: tkeys_def)
  then obtain C where C: "rb_find cmp t key = Some (cpar (nil t) C)" "plug C Lf = s" "around C key"
    using rb_find_law [OF cmp, of t s key] rep by (auto simp: rb_rep_def)
  have atC: "at t C Lf" using rep C(2) at_plug [of t C Lf] by (simp add: rb_rep_def)
  have "cpar (nil t) C \<noteq> nil t"
    using atC C(2) ne by (cases C) (auto simp: at_def)
  then show ?thesis using around_parent [OF atC C(3)] C(1) cmp by (auto simp: rb_delete_def)
qed

lemma filter_others:
  assumes "sorted_wrt (<) (tkeys (xs @ (n, key, v) # ys))"
  shows "map snd (xs @ ys) = filter (\<lambda>(k, v). k \<noteq> (key :: 'k::linorder)) (map snd (xs @ (n, key, v) # ys))"
proof -
  have "(a, k, w) \<in> set (xs @ ys) \<Longrightarrow> k \<noteq> key" for a k w
    using assms tkeys_in [of a k w] by (fastforce simp: sorted_wrt_append)
  then have "filter (\<lambda>(k, v). k \<noteq> key) (map snd xs) = map snd xs" "filter (\<lambda>(k, v). k \<noteq> key) (map snd ys) = map snd ys"
    by (fastforce intro!: filter_True)+
  then show ?thesis by simp
qed

lemma delete_refines:
  fixes t :: "('k::linorder, 'v) rb"
  assumes cmp: "compares cmp" and rep: "rb_rep t s" and ne: "s \<noteq> Lf"
  shows "\<exists>t' s'. RBtree_delete cmp t key = Some t' \<and> rb_rep t' s' \<and> nil t' = nil t \<and>
    map snd (nodes s') = filter (\<lambda>(k, v). k \<noteq> key) (map snd (nodes s))"
proof (cases "key \<in> set (tkeys (nodes s))")
  case True
  then obtain C l n c v r where f: "rb_find cmp t key = Some n" "plug C (Nd l n c (key, v) r) = s"
    using find_present [OF cmp rep] by blast
  have "erased t C l r False (rb_delete cmp t key False)" using delete_law [OF cmp _ f(1)] rep f(2) by blast
  then obtain t' s' sc where "rb_delete cmp t key False = Some (t', sc)" "rb_rep t' s'" "nil t' = nil t"
    "map snd (nodes s') = map snd ((lefts C @ nodes l) @ (nodes r @ rights C))" unfolding erased_def by auto
  moreover have "nodes s = (lefts C @ nodes l) @ (n, key, v) # (nodes r @ rights C)" using f(2) by (auto simp: nodes_plug)
  ultimately show ?thesis using rep filter_others [of "lefts C @ nodes l" n key v "nodes r @ rights C"]
    by (intro exI [of _ t'] exI [of _ s']) (auto simp: RBtree_delete_def rb_rep_def)
next
  case False
  then have "filter (\<lambda>(k, v). k \<noteq> key) (map snd (nodes s)) = map snd (nodes s)"
    using tkeys_in by (fastforce intro!: filter_True)
  then show ?thesis using delete_absent [OF cmp rep ne False] rep by (auto simp: RBtree_delete_def)
qed

lemma focus_split:
  assumes at: "at t Top s" and nd: "nodes s = xs @ (a, e) # ys"
  shows "\<exists>C l c r. plug C (Nd l a c e r) = s \<and> xs = lefts C @ nodes l \<and> ys = nodes r @ rights C"
proof -
  obtain C l c r where C: "plug C (Nd l a c e r) = s"
    using focus_exists [of a e s Top] nd by auto
  have nd2: "nodes s = (lefts C @ nodes l) @ (a, e) # (nodes r @ rights C)" using C [symmetric] by (simp add: nodes_plug)
  have "distinct (map fst (nodes s))" using at by (simp add: at_def addrs_def)
  then have "a \<notin> fst ` set xs" "a \<notin> fst ` set ys" unfolding nd by simp_all
  then have "(a, e) \<notin> set xs" "(a, e) \<notin> set ys" by (metis fst_conv image_eqI)+
  then show ?thesis
    using nd nd2 C append_Cons_eq_iff [of "(a, e)" xs ys "lefts C @ nodes l" "nodes r @ rights C"] by auto
qed

lemma find_at:
  fixes t :: "('k::linorder, 'v) rb"
  assumes "compares cmp" "rb_rep t s" "(a, key, v) \<in> set (nodes s)"
  shows "rb_find cmp t key = Some a"
proof -
  obtain C l n c v' r where n: "rb_find cmp t key = Some n" "plug C (Nd l n c (key, v') r) = s"
    using find_present [OF assms(1,2) tkeys_in [OF assms(3)]] by blast
  have "(n, key, v') \<in> set (nodes s)" using n(2) [symmetric] by (simp add: nodes_plug)
  then show ?thesis using tkeys_unique [OF _ _ assms(3), of n v'] assms(2) n(1) by (simp add: rb_rep_def)
qed

lemma first_addr_nonnull:
  assumes "at t Top s"
  shows "first_addr (nil t) (drop k (nodes s)) \<noteq> NULL"
proof (cases "drop k (nodes s)")
  case Nil
  then show ?thesis using assms by (simp add: at_def)
next
  case (Cons x xs)
  then have "x \<in> set (nodes s)" by (metis in_set_dropD list.set_intros(1))
  then have "fst x \<in> set (addrs s)" by (simp add: addrs_def)
  moreover have "NULL \<notin> set (addrs s)" using assms by (simp add: at_def)
  ultimately have "fst x \<noteq> NULL" by metis
  then show ?thesis using Cons by simp
qed

lemma erase_law:
  fixes t :: "('k::linorder, 'v) rb"
  assumes cmp: "compares cmp" and rep: "rb_rep t s" and nd: "nodes s = xs @ (it, key, v) # ys" and n: "rnodes t it = Some n"
  shows "\<exists>t' s'. RBtree_erase cmp t it = Some (t', first_addr (nil t) (drop (length xs - (if rleft n \<noteq> nil t \<and> rright n = nil t then 1 else 0)) (nodes s'))) \<and>
    rb_rep t' s' \<and> nil t' = nil t \<and> map snd (nodes s') = map snd (xs @ ys)"
proof -
  have top: "at t Top s" using rep by (simp add: rb_rep_def)
  obtain C l c r where C: "plug C (Nd l it c (key, v) r) = s" "xs = lefts C @ nodes l" "ys = nodes r @ rights C"
    using focus_split [OF top nd] by blast
  have at: "at t C (Nd l it c (key, v) r)" using top C(1) at_plug [of t C] by metis
  have f: "rb_find cmp t key = Some it" using find_at [OF cmp rep, of it key v] nd by simp
  have nn: "n = \<lparr>rparent = cpar (nil t) C, rleft = rootp (nil t) l, rright = rootp (nil t) r, rcolor = c, rdata = (key, v)\<rparr>"
    using at_head [OF at] n by simp
  have lr: "rootp (nil t) l = nil t \<longleftrightarrow> l = Lf" "rootp (nil t) r = nil t \<longleftrightarrow> r = Lf"
    using at by (cases l; auto simp: at_def) (use at in \<open>cases r; auto simp: at_def\<close>)
  have "erased t C l r True (rb_delete cmp t key True)" using delete_law [OF cmp _ f] rep C(1) by blast
  then obtain t' s' where r: "rb_delete cmp t key True =
      Some (t', first_addr (nil t) (drop (length xs - (if l \<noteq> Lf \<and> r = Lf then 1 else 0)) (nodes s')))"
    "rb_rep t' s'" "nil t' = nil t" "map snd (nodes s') = map snd (xs @ ys)"
    unfolding erased_def C(2,3) by auto
  have "at t' Top s'" using r(2) by (simp add: rb_rep_def)
  then have "first_addr (nil t) (drop (length xs - (if l \<noteq> Lf \<and> r = Lf then 1 else 0)) (nodes s')) \<noteq> NULL"
    using first_addr_nonnull [of t' s'] r(3) by simp
  then have "RBtree_erase cmp t it = Some (t', first_addr (nil t) (drop (length xs - (if l \<noteq> Lf \<and> r = Lf then 1 else 0)) (nodes s')))"
    using n r(1) unfolding RBtree_erase_def nn by (simp only: get_key_def bind.bind_lunit rbnode.simps fst_conv prod.case if_False)
  then show ?thesis using r(2-4) lr nn by auto
qed

section \<open>The properties\<close>

text \<open>
  Claim C36. Deletion from a red-black tree with entries: after \<open>RBtree_delete\<close>, with its unlinking, the copy
  of the moved entry and the fix-up, the structure is again a red-black search tree, whose entries are
  those of before without the one of the key, in the same order. A key that is absent changes nothing.
\<close>

theorem RBtree_delete_correct:
  fixes t :: "('k::linorder, 'v) rb"
  assumes "compares cmp" "rb_rep t s" "s \<noteq> Lf"
  shows "\<exists>t' s'. RBtree_delete cmp t key = Some t' \<and> rb_rep t' s' \<and> nil t' = nil t \<and>
    map snd (nodes s') = filter (\<lambda>(k, v). k \<noteq> key) (map snd (nodes s))"
  by (rule delete_refines [OF assms])

lemma rb_pair_rep: "rb_rep rb_pair (Nd (Nd Lf 11 RED (2, 20) Lf) 10 BLACK (5, 50) Lf)"
  by (auto simp: rb_rep_def at_def rb_pair_def rbt_def)

theorem RBtree_delete_correct_witness:
  "\<exists>t1 s1 t2 s2. RBtree_delete int_cmp rb_pair 5 = Some t1 \<and> rb_rep t1 s1 \<and> map snd (nodes s1) = [(2, 20)] \<and>
     RBtree_delete int_cmp t1 2 = Some t2 \<and> rb_rep t2 s2 \<and> nodes s2 = []"
proof -
  obtain t1 s1 where 1: "RBtree_delete int_cmp rb_pair 5 = Some t1" "rb_rep t1 s1" "map snd (nodes s1) = [(2, 20)]"
    using RBtree_delete_correct [OF int_cmp_compares rb_pair_rep, of 5] by auto
  then have "s1 \<noteq> Lf" by auto
  then obtain t2 s2 where "RBtree_delete int_cmp t1 2 = Some t2" "rb_rep t2 s2" "map snd (nodes s2) = []"
    using RBtree_delete_correct [OF int_cmp_compares 1(2), of 2] 1(3) by auto
  with 1 show ?thesis by auto
qed

text \<open>
  Claim C37. Erasing at an iterator removes exactly its entry and keeps a red-black search tree. The
  returned iterator stands at the next entry, or is the end iterator after the last one, except when the node
  has a left child and no right child: then it stands at the entry before the erased one.
\<close>

theorem RBtree_erase_correct:
  fixes t :: "('k::linorder, 'v) rb"
  assumes "compares cmp" "rb_rep t s" "nodes s = xs @ (it, key, v) # ys" "rnodes t it = Some n"
  shows "\<exists>t' s'. RBtree_erase cmp t it = Some (t', first_addr (RBtree_end t)
        (drop (length xs - (if rleft n \<noteq> nil t \<and> rright n = nil t then 1 else 0)) (nodes s'))) \<and>
    rb_rep t' s' \<and> nil t' = nil t \<and> map snd (nodes s') = map snd (xs @ ys)"
  unfolding RBtree_end_def by (rule erase_law [OF assms])

theorem RBtree_erase_correct_witness:
  "\<exists>t1 s1 a. RBtree_erase int_cmp rb_pair 11 = Some (t1, a) \<and> rb_rep t1 s1 \<and> nodes s1 = [(a, 5, 50)]"
proof -
  have h: "rnodes rb_pair 11 = Some \<lparr>rparent = 10, rleft = 9, rright = 9, rcolor = RED, rdata = (2, 20)\<rparr>" "nil rb_pair = 9"
    by (simp_all add: rb_pair_def)
  have "nodes (Nd (Nd Lf 11 RED (2, 20) Lf) 10 BLACK (5, 50) Lf) = [] @ (11, 2, 20) # [(10, 5 :: int, 50 :: nat)]" by simp
  from RBtree_erase_correct [OF int_cmp_compares rb_pair_rep this h(1)]
  obtain t1 s1 where r: "RBtree_erase int_cmp rb_pair 11 = Some (t1, first_addr (RBtree_end rb_pair) (nodes s1))" "rb_rep t1 s1"
    "map snd (nodes s1) = [(5, 50)]"
    unfolding h(2) by (elim exE conjE) (rule that, simp_all)
  then show ?thesis by (auto simp: first_addr_def)
qed

section \<open>The map over its whole life\<close>

text \<open>
  The histories of a map that a client can bring about, with the finite map that it expects: a fresh node for
  every insertion, no removal from an empty map, and erasure only at an iterator of an entry.
\<close>

inductive map_reach :: "('k::linorder \<Rightarrow> 'k \<Rightarrow> int) \<Rightarrow> ('k, 'v) kmap \<Rightarrow> ('k \<rightharpoonup> 'v) \<Rightarrow> bool" for cmp where
  create: "z \<noteq> NULL \<Longrightarrow> map_reach cmp (map_create z junk None) Map.empty"
| insert: "map_reach cmp m f \<Longrightarrow> n \<notin> dom (rnodes (container m)) \<Longrightarrow> n \<noteq> NULL \<Longrightarrow> map_insert cmp m k v n junk = Some (m', it) \<Longrightarrow>
    map_reach cmp m' (if k \<in> dom f then f else f(k \<mapsto> v))"
| remove: "map_reach cmp m f \<Longrightarrow> f \<noteq> Map.empty \<Longrightarrow> map_remove cmp m k = Some m' \<Longrightarrow> map_reach cmp m' (f(k := None))"
| erase: "map_reach cmp m f \<Longrightarrow> map_find cmp m k = Some it \<Longrightarrow> it \<noteq> map_end m \<Longrightarrow> map_erase cmp m it = Some (m', it') \<Longrightarrow>
    map_reach cmp m' (f(k := None))"

definition entries :: "('k \<times> 'v) rtree \<Rightarrow> ('k \<rightharpoonup> 'v)" where
  "entries s = map_of (map snd (nodes s))"

lemma dom_entries: "dom (entries s) = set (tkeys (nodes s))"
  by (auto simp: entries_def dom_map_of_conv_image_fst tkeys_def image_image case_prod_unfold)

lemma entries_Some:
  fixes k :: "'k::linorder"
  assumes "sorted_wrt (<) (tkeys (nodes s))"
  shows "entries s k = Some v \<longleftrightarrow> (\<exists>a. (a, k, v) \<in> set (nodes s))"
proof -
  have "map fst (map snd (nodes s)) = tkeys (nodes s)" by (auto simp: tkeys_def)
  then have "distinct (map fst (map snd (nodes s)))" using assms strict_sorted_iff by metis
  then have "entries s k = Some v \<longleftrightarrow> (k, v) \<in> set (map snd (nodes s))" unfolding entries_def by (rule map_of_eq_Some_iff)
  then show ?thesis by force
qed

lemma entries_find:
  fixes m :: "('k::linorder, 'v) kmap"
  assumes cmp: "compares cmp" and rep: "rb_rep (container m) s"
  shows "map_find cmp m k = Some (map_end m) \<longleftrightarrow> entries s k = None"
    "entries s k = Some v \<Longrightarrow> \<exists>it. map_find cmp m k = Some it \<and> it \<noteq> map_end m \<and> (it, k, v) \<in> set (nodes s) \<and> rb_iter_get_second (container m) it = Some v"
proof -
  have srt: "sorted_wrt (<) (tkeys (nodes s))" and at: "at (container m) Top s" using rep by (simp_all add: rb_rep_def)
  have *: "\<exists>it. map_find cmp m k = Some it \<and> it \<noteq> map_end m \<and> (it, k, v) \<in> set (nodes s) \<and> rb_iter_get_second (container m) it = Some v"
    if e: "entries s k = Some v" for v
  proof -
    obtain a where a: "(a, k, v) \<in> set (nodes s)" using entries_Some [OF srt] e by blast
    then have "a \<in> set (addrs s)" by (force simp: addrs_def)
    moreover have "nil (container m) \<notin> set (addrs s)" using at by (simp add: at_def)
    ultimately have "a \<noteq> nil (container m)" by metis
    then show ?thesis using find_law [OF cmp rep, of k] a by (auto simp: map_find_def map_end_def RBtree_end_def)
  qed
  then show "entries s k = Some v \<Longrightarrow> \<exists>it. map_find cmp m k = Some it \<and> it \<noteq> map_end m \<and> (it, k, v) \<in> set (nodes s) \<and> rb_iter_get_second (container m) it = Some v" .
  show "map_find cmp m k = Some (map_end m) \<longleftrightarrow> entries s k = None"
  proof (cases "entries s k")
    case None
    then have "k \<notin> set (tkeys (nodes s))" unfolding dom_entries [symmetric] by auto
    then show ?thesis using find_law [OF cmp rep, of k] None by (simp add: map_find_def map_end_def)
  next
    case (Some v)
    then show ?thesis using * [OF Some] by auto
  qed
qed

lemma entries_filter:
  fixes s :: "('k::linorder \<times> 'v) rtree"
  assumes "map snd (nodes s') = filter (\<lambda>(k, v). k \<noteq> key) (map snd (nodes s))"
  shows "entries s' = (entries s)(key := None)"
proof -
  have "map_of (filter (\<lambda>(k, v). k \<noteq> key) xs) = (map_of xs)(key := None)" for xs :: "('k \<times> 'v) list"
    by (induction xs) (auto simp: fun_upd_twist)
  then show ?thesis using assms by (simp add: entries_def)
qed

lemma entries_Lf: "entries s = Map.empty \<longleftrightarrow> s = Lf"
proof (cases s)
  case Lf
  then show ?thesis by (simp add: entries_def)
next
  case (Nd l a c e r)
  then have "fst e \<in> dom (entries s)" unfolding dom_entries by simp
  then show ?thesis using Nd by auto
qed

definition map_holds :: "('k::linorder, 'v) kmap \<Rightarrow> ('k \<rightharpoonup> 'v) \<Rightarrow> bool" where
  "map_holds m f \<longleftrightarrow> (\<exists>s. rb_rep (container m) s \<and> entries s = f)"

lemma holds_insert:
  fixes m :: "('k::linorder, 'v) kmap"
  assumes cmp: "compares cmp" and m: "map_holds m f" and n: "n \<notin> dom (rnodes (container m))" "n \<noteq> NULL"
  shows "\<exists>m' it. map_insert cmp m k v n junk = Some (m', it) \<and> map_holds m' (if k \<in> dom f then f else f(k \<mapsto> v))"
proof -
  obtain s where s: "rb_rep (container m) s" "entries s = f" using m by (auto simp: map_holds_def)
  show ?thesis
  proof (cases "k \<in> dom f")
    case True
    then have "k \<in> set (tkeys (nodes s))" using s(2) dom_entries by metis
    then show ?thesis using insert_dup_law [OF cmp s(1), of k v n junk] m True by (simp add: map_insert_def)
  next
    case False
    then have "k \<notin> set (tkeys (nodes s))" using s(2) dom_entries by metis
    from insert_new_law [OF cmp s(1) n this, of v junk] obtain t' s' where
      t': "RBtree_insert cmp (container m) k v n junk = Some (t', n)" "rb_rep t' s'" "set (nodes s') = insert (n, k, v) (set (nodes s))"
      by blast
    have srt: "sorted_wrt (<) (tkeys (nodes s))" "sorted_wrt (<) (tkeys (nodes s'))" using s(1) t'(2) by (simp_all add: rb_rep_def)
    have "entries s' = f(k \<mapsto> v)"
    proof
      fix j
      have "entries s' j = Some w \<longleftrightarrow> (f(k \<mapsto> v)) j = Some w" for w
        using entries_Some [OF srt(2), of j w] entries_Some [OF srt(1), of j w] s(2) t'(3) False by auto
      then show "entries s' j = (f(k \<mapsto> v)) j" by (metis option.exhaust)
    qed
    then show ?thesis using t' False by (auto simp: map_insert_def map_holds_def)
  qed
qed

lemma holds_remove:
  fixes m :: "('k::linorder, 'v) kmap"
  assumes cmp: "compares cmp" and m: "map_holds m f" and ne: "f \<noteq> Map.empty"
  shows "\<exists>m'. map_remove cmp m k = Some m' \<and> map_holds m' (f(k := None))"
proof -
  obtain s where s: "rb_rep (container m) s" "entries s = f" using m by (auto simp: map_holds_def)
  then have "s \<noteq> Lf" using ne entries_Lf by metis
  from delete_refines [OF cmp s(1) this, of k] s(2) show ?thesis
    using entries_filter by (fastforce simp: map_remove_def map_holds_def)
qed

lemma holds_erase:
  fixes m :: "('k::linorder, 'v) kmap"
  assumes cmp: "compares cmp" and m: "map_holds m f" and it: "map_find cmp m k = Some it" "it \<noteq> map_end m"
  shows "\<exists>m' it'. map_erase cmp m it = Some (m', it') \<and> map_holds m' (f(k := None))"
proof -
  obtain s where s: "rb_rep (container m) s" "entries s = f" using m by (auto simp: map_holds_def)
  have "entries s k \<noteq> None" using entries_find(1) [OF cmp s(1), of k] it by auto
  then obtain v where "entries s k = Some v" by blast
  from entries_find(2) [OF cmp s(1) this] it have a: "(it, k, v) \<in> set (nodes s)" by auto
  then obtain xs ys where nd: "nodes s = xs @ (it, k, v) # ys" by (meson split_list)
  have at: "at (container m) Top s" and srt: "sorted_wrt (<) (tkeys (nodes s))" using s(1) by (simp_all add: rb_rep_def)
  obtain n where n: "rnodes (container m) it = Some n" using successor_next [OF at nd] by blast
  from erase_law [OF cmp s(1) nd n] obtain t' s' it' where
    t': "RBtree_erase cmp (container m) it = Some (t', it')" "rb_rep t' s'" "map snd (nodes s') = map snd (xs @ ys)" by blast
  then have "entries s' = (entries s)(k := None)"
    by (intro entries_filter) (use filter_others srt nd in metis)
  then show ?thesis using t' s(2) by (auto simp: map_erase_def map_holds_def)
qed

lemma reach_holds:
  assumes "compares cmp"
  shows "map_reach cmp m f \<Longrightarrow> map_holds m f"
proof (induction rule: map_reach.induct)
  case (create z junk)
  then show ?case using RBtree_create_rep [of z junk] by (auto simp: map_create_def map_holds_def entries_def)
next
  case (insert m f n k v junk m' it)
  then show ?case using holds_insert [OF assms insert.IH insert.hyps(2,3), of k v junk] insert.hyps(4) by (metis option.inject prod.inject)
next
  case (remove m f k m')
  then show ?case using holds_remove [OF assms remove.IH remove.hyps(2), of k] remove.hyps(3) by (metis option.inject)
next
  case (erase m f k it m' it')
  then show ?case using holds_erase [OF assms erase.IH erase.hyps(2,3)] erase.hyps(4) by (metis option.inject prod.inject)
qed

lemma reach_laws:
  fixes m :: "('k::linorder, 'v) kmap"
  assumes "compares cmp" "map_reach cmp m f"
  shows "(case f k of None \<Rightarrow> map_find cmp m k = Some (map_end m)
      | Some v \<Rightarrow> \<exists>it. map_find cmp m k = Some it \<and> it \<noteq> map_end m \<and> rb_iter_get_second (container m) it = Some v \<and>
          map_erase cmp m it \<noteq> None)"
    "map_size m = word_of_nat (card (dom f)) \<and> finite (dom f)"
    "n \<notin> dom (rnodes (container m)) \<Longrightarrow> n \<noteq> NULL \<Longrightarrow> map_insert cmp m k v n junk \<noteq> None"
    "f \<noteq> Map.empty \<Longrightarrow> map_remove cmp m k \<noteq> None" "finite (dom (rnodes (container m)))"
proof -
  have h: "map_holds m f" by (rule reach_holds [OF assms])
  then obtain s where s: "rb_rep (container m) s" "entries s = f" by (auto simp: map_holds_def)
  show "case f k of None \<Rightarrow> map_find cmp m k = Some (map_end m)
      | Some v \<Rightarrow> \<exists>it. map_find cmp m k = Some it \<and> it \<noteq> map_end m \<and> rb_iter_get_second (container m) it = Some v \<and>
          map_erase cmp m it \<noteq> None"
  proof (cases "f k")
    case None
    then show ?thesis using entries_find(1) [OF assms(1) s(1), of k] s(2) by simp
  next
    case (Some v)
    then obtain it where it: "map_find cmp m k = Some it" "it \<noteq> map_end m" "rb_iter_get_second (container m) it = Some v"
      using entries_find(2) [OF assms(1) s(1), of k v] s(2) by blast
    then show ?thesis using holds_erase [OF assms(1) h it(1,2)] Some by auto
  qed
  show "finite (dom (rnodes (container m)))" using s(1) by (auto simp: rb_rep_def)
  have "distinct (tkeys (nodes s))" using s(1) strict_sorted_iff by (auto simp: rb_rep_def)
  then have "card (dom f) = length (nodes s)"
    using distinct_card [of "tkeys (nodes s)"] s(2) dom_entries [of s] by (simp add: tkeys_def)
  then show "map_size m = word_of_nat (card (dom f)) \<and> finite (dom f)"
    using s dom_entries [of s] by (auto simp: map_size_def RBtree_size_def rb_rep_def)
  show "map_insert cmp m k v n junk \<noteq> None" if "n \<notin> dom (rnodes (container m))" "n \<noteq> NULL"
    using holds_insert [OF assms(1) h that, of k v junk] by auto
  show "map_remove cmp m k \<noteq> None" if "f \<noteq> Map.empty"
    using holds_remove [OF assms(1) h that, of k] by auto
qed

text \<open>
  Claim C35. The map implements a finite map: after every history of insertions, removals and erasures a
  search finds exactly the entries that the history leaves, with their values, the size is their number, and no
  next operation that the histories allow is undefined.
\<close>

theorem map_implements_finite_map:
  fixes m :: "('k::linorder, 'v) kmap"
  assumes "compares cmp" "map_reach cmp m f"
  shows "(case f k of None \<Rightarrow> map_find cmp m k = Some (map_end m)
      | Some v \<Rightarrow> \<exists>it. map_find cmp m k = Some it \<and> it \<noteq> map_end m \<and> rb_iter_get_second (container m) it = Some v \<and>
          map_erase cmp m it \<noteq> None) \<and>
    map_size m = word_of_nat (card (dom f)) \<and> finite (dom f) \<and>
    (n \<notin> dom (rnodes (container m)) \<and> n \<noteq> NULL \<longrightarrow> map_insert cmp m k v n junk \<noteq> None) \<and>
    (f \<noteq> Map.empty \<longrightarrow> map_remove cmp m k \<noteq> None)"
  using reach_laws(1,2,4) [OF assms] reach_laws(3) [OF assms, of n k v junk] by blast

theorem map_implements_finite_map_witness:
  "\<exists>m it. map_reach int_cmp m [5 \<mapsto> 50, 2 \<mapsto> (20 :: nat)] \<and> map_find int_cmp m 2 = Some it \<and> rb_iter_get_second (container m) it = Some 20 \<and>
     map_size m = 2 \<and> (\<exists>m'. map_remove int_cmp m 5 = Some m' \<and> map_find int_cmp m' 5 = Some (map_end m'))"
proof -
  let ?m0 = "map_create 9 rb_junk None"
  note imp = map_implements_finite_map [OF int_cmp_compares]
  have r0: "map_reach int_cmp ?m0 Map.empty" by (rule map_reach.create) simp
  have d0: "rnodes (container ?m0) = [9 \<mapsto> rb_junk\<lparr>rcolor := BLACK\<rparr>]" by (simp add: map_create_def RBtree_create_def)
  obtain m1 i1 where m1: "map_insert int_cmp ?m0 5 50 10 rb_junk = Some (m1, i1)"
    using imp [OF r0, of 5 10 50 rb_junk] d0 by auto
  have r1: "map_reach int_cmp m1 [5 \<mapsto> 50]" using map_reach.insert [OF r0 _ _ m1] d0 by simp
  have "finite (insert NULL (dom (rnodes (container m1))))" using reach_laws(5) [OF int_cmp_compares r1] by simp
  then obtain n where n: "n \<notin> dom (rnodes (container m1))" "n \<noteq> NULL"
    using ex_new_if_finite [OF infinite_UNIV_nat] by (metis insert_iff)
  obtain m2 i2 where m2: "map_insert int_cmp m1 2 20 n rb_junk = Some (m2, i2)"
    using imp [OF r1, of 2 n 20 rb_junk] n by auto
  have r2: "map_reach int_cmp m2 [5 \<mapsto> 50, 2 \<mapsto> 20]" using map_reach.insert [OF r1 n m2] by simp
  obtain m3 where m3: "map_remove int_cmp m2 5 = Some m3" using imp [OF r2, of 5 n 0 rb_junk] by auto
  have "map_reach int_cmp m3 [2 \<mapsto> 20]" using map_reach.remove [OF r2 _ m3] by (simp add: fun_upd_twist)
  from imp [OF this, of 5 n 0 rb_junk] imp [OF r2, of 2 n 0 rb_junk] r2 m3 show ?thesis by auto
qed

end
