(* ===== verification/Except.thy ===== *)
theory Except
  imports Prelude "HOL-Library.Sublist"
begin

text \<open>
  The exceptions of \<open>include/except.h\<close> and \<open>src/except.c\<close>: macros over \<open>setjmp\<close> and \<open>longjmp\<close>. The code between the
  macros is a small language of statements; its meaning follows the macro bodies. A frame is a local variable of the block that
  \<open>TRY\<close> opens, so its address is the stack pointer there and it is gone when the block is left. \<open>longjmp\<close> leaves every
  block up to the one of its frame.

  The counter of \<open>FUNCTION_TRY\<close> is an \<open>int32_t\<close> local to a function and not volatile. C leaves its value indeterminate after a
  \<open>longjmp\<close> to a \<open>setjmp\<close> of that function when it has changed in between: the value is then \<open>lj c0 c1\<close>, of its values at
  the \<open>setjmp\<close> and at the throw. The address of a frame is in the exception stack, so what \<open>exception_throw\<close> stores in it is
  taken to be there after the jump. The language has no loops; what is said of a statement is said of their unrollings.
\<close>

section \<open>State\<close>

record eframe =
  pre :: addr
  exception :: int
  eline :: "nat option"

record exst =
  exception_stack :: addr
  frames :: "addr \<rightharpoonup> eframe"
  sp :: addr
  function_except_stack_count :: int
  unsolved :: "(int \<times> nat option) list"

datatype stmt = Skip | Throw int nat | Rethrow | Return | Seq stmt stmt | Call stmt | Try stmt handlers
  and handlers = NoCatch | Catch int stmt handlers | CatchAll stmt handlers

text \<open>
  How a statement is left: at its end, by a \<open>longjmp\<close> to a frame, by \<open>RETURN\<close>, or by undefined behaviour: an access to a
  dead frame or the overflow of the counter.
\<close>

datatype outcome = Normal exst | Jump addr int exst | Ret exst | Crash

section \<open>The macros\<close>

text \<open>
  Without a frame \<open>exception_throw\<close> prints a line and returns. \<open>longjmp\<close> lets \<open>setjmp\<close> return 1 for 0. A line number is
  \<open>None\<close> in a frame that has caught nothing yet: \<open>TRY\<close> does not set it.
\<close>

definition exception_throw :: "int \<Rightarrow> nat option \<Rightarrow> exst \<Rightarrow> outcome" where
  "exception_throw code line st =
     (if exception_stack st = NULL then Normal (st\<lparr>unsolved := unsolved st @ [(code, line)]\<rparr>)
      else case frames st (exception_stack st) of
        None \<Rightarrow> Crash
      | Some f \<Rightarrow> Jump (exception_stack st) (if code = 0 then 1 else code)
          (st\<lparr>frames := (frames st)(exception_stack st \<mapsto> f\<lparr>exception := code, eline := line\<rparr>), exception_stack := pre f\<rparr>))"

text \<open>The loop of \<open>RETURN\<close>; every iteration counts down, never below 0.\<close>

function pop_frames :: "exst \<Rightarrow> outcome" where
  "pop_frames st =
     (if exception_stack st \<noteq> NULL \<and> function_except_stack_count st > 0
      then case frames st (exception_stack st) of
          None \<Rightarrow> Crash
        | Some f \<Rightarrow> pop_frames (st\<lparr>function_except_stack_count := function_except_stack_count st - 1, exception_stack := pre f\<rparr>)
      else Ret st)"
  by auto
termination by (relation "measure (\<lambda>st. nat (function_except_stack_count st))") auto

declare pop_frames.simps [simp del]

definition set_exception :: "addr \<Rightarrow> int \<Rightarrow> exst \<Rightarrow> exst" where
  "set_exception a c st = (case frames st a of None \<Rightarrow> st | Some f \<Rightarrow> st\<lparr>frames := (frames st)(a \<mapsto> f\<lparr>exception := c\<rparr>)\<rparr>)"

text \<open>The end of the block of a \<open>TRY\<close>.\<close>

definition close_frame :: "addr \<Rightarrow> exst \<Rightarrow> exst" where
  "close_frame a st = st\<lparr>frames := (frames st)(a := None), sp := a\<rparr>"

definition leave :: "addr \<Rightarrow> outcome \<Rightarrow> outcome" where
  "leave a out = (case out of
       Normal st \<Rightarrow> Normal (close_frame a st)
     | Jump b c st \<Rightarrow> Jump b c (close_frame a st)
     | Ret st \<Rightarrow> Ret (close_frame a st)
     | Crash \<Rightarrow> Crash)"

definition open_try :: "exst \<Rightarrow> exst option" where
  "open_try st = do {
     n \<leftarrow> i32 (function_except_stack_count st + 1);
     Some (st\<lparr>function_except_stack_count := n,
       frames := (frames st)(sp st \<mapsto> \<lparr>pre = exception_stack st, exception = 0, eline = None\<rparr>), exception_stack := sp st, sp := sp st + 1\<rparr>) }"

definition endtry :: "addr \<Rightarrow> exst \<Rightarrow> outcome" where
  "endtry a st0 =
     (case i32 (function_except_stack_count st0 - 1) of
        None \<Rightarrow> Crash
      | Some n \<Rightarrow>
          let st = st0\<lparr>function_except_stack_count := n\<rparr> in
          case frames st a of
            None \<Rightarrow> Crash
          | Some f \<Rightarrow>
              if exception f \<noteq> 0 then exception_throw (exception f) (eline f) st
              else if exception_stack st \<noteq> NULL
              then (case frames st (exception_stack st) of None \<Rightarrow> Crash | Some g \<Rightarrow> Normal (st\<lparr>exception_stack := pre g\<rparr>))
              else Normal st)"

text \<open>The second return of \<open>setjmp\<close>; \<open>c0\<close> is the value that the counter had at the first.\<close>

definition landed :: "(int \<Rightarrow> int \<Rightarrow> int) \<Rightarrow> int \<Rightarrow> addr \<Rightarrow> int \<Rightarrow> exst \<Rightarrow> exst" where
  "landed lj c0 a c st = (set_exception a c st)\<lparr>function_except_stack_count :=
     (if function_except_stack_count st = c0 then c0 else lj c0 (function_except_stack_count st))\<rparr>"

text \<open>\<open>cur\<close> is the address of the variable \<open>frame\<close> in scope.\<close>

fun exec :: "(int \<Rightarrow> int \<Rightarrow> int) \<Rightarrow> stmt \<Rightarrow> addr \<Rightarrow> exst \<Rightarrow> outcome"
  and exec_handlers :: "(int \<Rightarrow> int \<Rightarrow> int) \<Rightarrow> handlers \<Rightarrow> addr \<Rightarrow> exst \<Rightarrow> outcome" where
  "exec lj Skip cur st = Normal st"
| "exec lj (Throw c l) cur st = exception_throw c (Some l) st"
| "exec lj Rethrow cur st = (case frames st cur of None \<Rightarrow> Crash | Some f \<Rightarrow> exception_throw (exception f) (eline f) st)"
| "exec lj Return cur st = pop_frames st"
| "exec lj (Seq a b) cur st = (case exec lj a cur st of Normal st1 \<Rightarrow> exec lj b cur st1 | out \<Rightarrow> out)"
| "exec lj (Call s) cur st =
     (let n = function_except_stack_count st in
      case exec lj s NULL (st\<lparr>function_except_stack_count := 0\<rparr>) of
        Normal st1 \<Rightarrow> Normal (st1\<lparr>function_except_stack_count := n\<rparr>)
      | Jump a c st1 \<Rightarrow> Jump a c (st1\<lparr>function_except_stack_count := n\<rparr>)
      | Ret st1 \<Rightarrow> Normal (st1\<lparr>function_except_stack_count := n\<rparr>)
      | Crash \<Rightarrow> Crash)"
| "exec lj (Try s hs) cur st =
     (let a = sp st in
      case open_try st of
        None \<Rightarrow> Crash
      | Some st0 \<Rightarrow> leave a (case exec lj s a st0 of
          Normal st1 \<Rightarrow> endtry a st1
        | Jump b c st1 \<Rightarrow>
            if b = a
            then (case exec_handlers lj hs a (landed lj (function_except_stack_count st0) a c st1) of Normal st2 \<Rightarrow> endtry a st2 | out \<Rightarrow> out)
            else Jump b c st1
        | Ret st1 \<Rightarrow> Ret st1
        | Crash \<Rightarrow> Crash))"
| "exec_handlers lj NoCatch a st = Normal st"
| "exec_handlers lj (Catch e s hs) a st =
     (case frames st a of
        None \<Rightarrow> Crash
      | Some f \<Rightarrow> if e = exception f then exec lj s a (set_exception a 0 st) else exec_handlers lj hs a st)"
| "exec_handlers lj (CatchAll s hs) a st =
     (case frames st a of
        None \<Rightarrow> Crash
      | Some f \<Rightarrow> if exception f \<noteq> 0 then exec lj s a (set_exception a 0 st) else exec_handlers lj hs a st)"

text \<open>\<open>RETHROW\<close> needs the variable of a \<open>TRY\<close> around it in the same function.\<close>

fun scoped :: "bool \<Rightarrow> stmt \<Rightarrow> bool" and scoped_handlers :: "handlers \<Rightarrow> bool" where
  "scoped t Rethrow = t"
| "scoped t (Seq a b) = (scoped t a \<and> scoped t b)"
| "scoped t (Call s) = scoped False s"
| "scoped t (Try s hs) = (scoped True s \<and> scoped_handlers hs)"
| "scoped t _ = True"
| "scoped_handlers NoCatch = True"
| "scoped_handlers (Catch e s hs) = (scoped True s \<and> scoped_handlers hs)"
| "scoped_handlers (CatchAll s hs) = (scoped True s \<and> scoped_handlers hs)"

text \<open>
  The number of \<open>TRY\<close>s that one activation of a function can open, loops unrolled, and the condition that every activation
  in a statement stays within the range of the counter.
\<close>

fun tries :: "stmt \<Rightarrow> nat" and tries_handlers :: "handlers \<Rightarrow> nat" where
  "tries (Seq a b) = tries a + tries b"
| "tries (Try s hs) = Suc (tries s + tries_handlers hs)"
| "tries _ = 0"
| "tries_handlers NoCatch = 0"
| "tries_handlers (Catch e s hs) = tries s + tries_handlers hs"
| "tries_handlers (CatchAll s hs) = tries s + tries_handlers hs"

fun in_range :: "stmt \<Rightarrow> bool" and in_range_handlers :: "handlers \<Rightarrow> bool" where
  "in_range (Seq a b) = (in_range a \<and> in_range b)"
| "in_range (Call s) = (int (tries s) \<le> INT32_MAX \<and> in_range s)"
| "in_range (Try s hs) = (in_range s \<and> in_range_handlers hs)"
| "in_range _ = True"
| "in_range_handlers NoCatch = True"
| "in_range_handlers (Catch e s hs) = (in_range s \<and> in_range_handlers hs)"
| "in_range_handlers (CatchAll s hs) = (in_range s \<and> in_range_handlers hs)"

section \<open>The frames stay alive\<close>

text \<open>The frames on the exception stack, innermost first; the pending exception of each is 0.\<close>

fun echain :: "(addr \<rightharpoonup> eframe) \<Rightarrow> addr \<Rightarrow> addr list \<Rightarrow> bool" where
  "echain h p [] = (p = NULL)"
| "echain h p (x # xs) = (p = x \<and> x \<noteq> NULL \<and> (\<exists>f. h x = Some f \<and> exception f = 0 \<and> echain h (pre f) xs))"

lemma echain_frame: "x \<notin> set xs \<Longrightarrow> echain (h(x := v)) p xs = echain h p xs"
  by (induction xs arbitrary: p) auto

lemma echain_dom: "echain h p xs \<Longrightarrow> set xs \<subseteq> dom h"
  by (induction xs arbitrary: p) auto

lemma echain_zero: "echain h p xs \<Longrightarrow> x \<in> set xs \<Longrightarrow> h x = Some f \<Longrightarrow> exception f = 0"
  by (induction xs arbitrary: p) auto

definition frames_ok :: "exst \<Rightarrow> addr list \<Rightarrow> bool" where
  "frames_ok st xs \<longleftrightarrow> 0 < sp st \<and> dom (frames st) \<subseteq> {..<sp st} \<and> echain (frames st) (exception_stack st) xs \<and> sorted_wrt (>) xs"

text \<open>
  How a statement ends: the live frames are \<open>D\<close> again, the counter is between \<open>k\<close> and \<open>m\<close>, the stack has lost frames at most, a \<open>longjmp\<close> goes to
  a frame that was on it, and \<open>RETURN\<close> leaves only frames \<open>bs\<close> of callers.
\<close>

fun fine :: "addr set \<Rightarrow> addr \<Rightarrow> int \<Rightarrow> int \<Rightarrow> addr list \<Rightarrow> addr list \<Rightarrow> outcome \<Rightarrow> bool" where
  "fine D n k m xs bs (Normal st) = (dom (frames st) = D \<and> sp st = n \<and> k \<le> function_except_stack_count st \<and> function_except_stack_count st \<le> m \<and>
     (\<exists>vs. suffix vs xs \<and> echain (frames st) (exception_stack st) vs))"
| "fine D n k m xs bs (Jump a c st) = (dom (frames st) = D \<and> sp st = n \<and> k \<le> function_except_stack_count st \<and> function_except_stack_count st \<le> m \<and>
     c \<noteq> 0 \<and> (\<exists>vs. suffix (a # vs) xs \<and> echain (frames st) (exception_stack st) vs))"
| "fine D n k m xs bs (Ret st) = (dom (frames st) = D \<and> sp st = n \<and> (\<exists>vs. suffix vs bs \<and> echain (frames st) (exception_stack st) vs))"
| "fine D n k m xs bs Crash = False"

lemma suffix_sorted: "suffix vs xs \<Longrightarrow> sorted_wrt R xs \<Longrightarrow> sorted_wrt R vs"
  by (auto simp: suffix_def sorted_wrt_append)

lemma suffix_split:
  assumes "suffix vs (us @ bs)"
  shows "\<exists>us' bs'. vs = us' @ bs' \<and> length us' \<le> length us \<and> suffix bs' bs"
proof (cases "length vs \<le> length bs")
  case True
  then have "suffix vs bs" using assms by (metis suffix_order.refl suffixI suffix_length_suffix)
  then show ?thesis by (intro exI [of _ "[]"] exI [of _ vs]) simp
next
  case False
  then have "suffix bs vs" using assms by (metis nat_le_linear suffixI suffix_length_suffix)
  then obtain us' where "vs = us' @ bs" by (auto simp: suffix_def)
  moreover have "length us' \<le> length us" using suffix_length_le [OF assms] \<open>vs = us' @ bs\<close> by simp
  ultimately show ?thesis by auto
qed

lemma fine_mono:
  assumes "fine D n k' m' vs bs' out" "k \<le> k'" "m' \<le> m" "suffix vs xs" "suffix bs' bs"
  shows "fine D n k m xs bs out"
proof (cases out)
  case (Normal st)
  then show ?thesis using assms by auto (meson suffix_order.trans)
next
  case (Jump a c st)
  then show ?thesis using assms by auto (meson suffix_order.trans)
next
  case (Ret st)
  then show ?thesis using assms by auto (meson suffix_order.trans)
qed (use assms in simp)

lemma throw_fine:
  assumes "frames_ok st xs"
  shows "fine (dom (frames st)) (sp st) (function_except_stack_count st) (function_except_stack_count st) xs bs (exception_throw c l st)"
proof (cases xs)
  case Nil
  then show ?thesis using assms by (auto simp: frames_ok_def exception_throw_def)
next
  case (Cons x ws)
  then obtain f where f: "exception_stack st = x" "x \<noteq> NULL" "frames st x = Some f" "echain (frames st) (pre f) ws"
    using assms by (auto simp: frames_ok_def)
  have "x \<notin> set ws" using assms Cons by (auto simp: frames_ok_def)
  then show ?thesis using f Cons by (auto simp: exception_throw_def echain_frame intro!: exI [of _ ws])
qed

lemma pop_fine:
  "frames_ok st (us @ bs) \<Longrightarrow> int (length us) \<le> function_except_stack_count st \<Longrightarrow>
   fine (dom (frames st)) (sp st) k m xs bs (pop_frames st)"
proof (induction st arbitrary: us bs rule: pop_frames.induct)
  case (1 st)
  show ?case
  proof (cases "exception_stack st \<noteq> NULL \<and> function_except_stack_count st > 0")
    case True
    then obtain x ws where x: "us @ bs = x # ws" using 1(2) by (cases "us @ bs") (auto simp: frames_ok_def)
    then obtain f where f: "exception_stack st = x" "frames st x = Some f" "echain (frames st) (pre f) ws"
      using 1(2) by (auto simp: frames_ok_def)
    define st' where "st' = st\<lparr>function_except_stack_count := function_except_stack_count st - 1, exception_stack := pre f\<rparr>"
    have ok: "frames_ok st' ws" using 1(2) f x by (auto simp: frames_ok_def st'_def)
    have "suffix ws (tl us @ (if us = [] then tl bs else bs))" using x by (cases us) auto
    obtain us' bs' where ws: "ws = us' @ bs'" "int (length us') \<le> function_except_stack_count st'" "suffix bs' bs"
    proof (cases us)
      case Nil
      then have "suffix ws bs" using x by (auto simp: suffix_Cons)
      then show ?thesis using that [of "[]" ws] True by (simp add: st'_def)
    next
      case (Cons u us2)
      then show ?thesis using that [of us2 bs] x 1(3) by (simp add: st'_def)
    qed
    have "fine (dom (frames st')) (sp st') k m xs bs' (pop_frames st')"
      using 1(1) [OF True, of f us' bs'] f ok ws unfolding st'_def by simp
    then have "fine (dom (frames st)) (sp st) k m xs bs (pop_frames st')"
      using fine_mono [of _ _ k m xs bs' "pop_frames st'" k m xs bs] ws(3) by (simp add: st'_def)
    then show ?thesis using True f by (subst pop_frames.simps) (simp add: st'_def)
  next
    case False
    then have "exception_stack st = NULL \<or> us = []" using 1(3) by (cases us) auto
    then show ?thesis using False 1(2) by (subst pop_frames.simps) (cases us; auto simp: frames_ok_def)
  qed
qed

lemma frames_okI:
  assumes "frames_ok st xs" "dom (frames st') = dom (frames st)" "sp st' = sp st" "suffix vs xs" "echain (frames st') (exception_stack st') vs"
  shows "frames_ok st' vs"
  using assms suffix_sorted [OF assms(4)] by (simp add: frames_ok_def)

text \<open>The end of a \<open>TRY\<close> whose frame is \<open>a\<close>, on top of the frames \<open>xs\<close>.\<close>

lemma endtry_fine:
  assumes ok: "frames_ok st vs" and vs: "suffix vs (a # xs)" and a: "a \<in> dom (frames st)" "a \<notin> set xs"
    and k: "k + 1 \<le> function_except_stack_count st" "function_except_stack_count st \<le> m + 1" "0 \<le> k" "m < INT32_MAX"
  shows "fine (dom (frames st)) (sp st) k m xs bs (endtry a st)"
proof -
  define st1 where "st1 = st\<lparr>function_except_stack_count := function_except_stack_count st - 1\<rparr>"
  have n: "i32 (function_except_stack_count st - 1) = Some (function_except_stack_count st - 1)" by (rule i32_in_range) (use k in simp_all)
  obtain f where f: "frames st a = Some f" using a(1) by auto
  have ok1: "frames_ok st1 vs" using ok by (simp add: frames_ok_def st1_def)
  show ?thesis
  proof (cases "exception f = 0")
    case False
    then have "a \<notin> set vs" using echain_zero [of "frames st" "exception_stack st" vs a] ok f by (auto simp: frames_ok_def)
    then have sx: "suffix vs xs" using vs by (auto simp: suffix_Cons)
    have "fine (dom (frames st)) (sp st) k m xs bs (exception_throw (exception f) (eline f) st1)"
      using fine_mono [OF throw_fine [OF ok1] _ _ sx suffix_order.refl] k by (simp add: st1_def)
    then show ?thesis using False f by (simp add: endtry_def st1_def n)
  next
    case True
    show ?thesis
    proof (cases vs)
      case Nil
      then show ?thesis using True f ok k by (auto simp: endtry_def n frames_ok_def intro!: exI [of _ "[]"])
    next
      case (Cons x ws)
      have "suffix ws xs" using vs Cons by (auto simp: suffix_Cons) (metis suffix_ConsD)
      then show ?thesis using True f ok k Cons by (auto simp: endtry_def n frames_ok_def)
    qed
  qed
qed

lemma leave_fine:
  assumes f: "fine (insert a D) n k m xs bs out" and a: "a \<notin> D" "a \<notin> set xs" "set bs \<subseteq> set xs"
  shows "fine D a k m xs bs (leave a out)"
proof -
  have n: "a \<notin> set vs" if "suffix vs ys" "set ys \<subseteq> set xs" for vs ys using set_mono_suffix [OF that(1)] that(2) a(2) by blast
  have e: "suffix vs ys \<Longrightarrow> set ys \<subseteq> set xs \<Longrightarrow> echain (h(a := None)) p vs = echain h p vs" for vs ys h p
    by (rule echain_frame) (rule n)
  have j: "suffix (b # vs) xs \<Longrightarrow> echain (h(a := None)) p vs = echain h p vs" for b vs h p
    using n [of "b # vs" xs] by (intro echain_frame) auto
  show ?thesis
  proof (cases out)
    case (Normal st)
    then obtain vs where "suffix vs xs" "echain (frames st) (exception_stack st) vs" using f by auto
    then show ?thesis using Normal f a e [of vs xs] by (auto simp: leave_def close_frame_def intro!: exI [of _ vs])
  next
    case (Jump b c st)
    then obtain vs where "suffix (b # vs) xs" "echain (frames st) (exception_stack st) vs" using f by auto
    then show ?thesis using Jump f a j [of b vs] by (auto simp: leave_def close_frame_def intro!: exI [of _ vs])
  next
    case (Ret st)
    then obtain vs where "suffix vs bs" "echain (frames st) (exception_stack st) vs" using f by auto
    then show ?thesis using Ret f a e [of vs bs] by (auto simp: leave_def close_frame_def intro!: exI [of _ vs])
  qed (use f in simp)
qed

lemma open_try_ok:
  assumes "frames_ok st xs" "0 \<le> function_except_stack_count st" "function_except_stack_count st < INT32_MAX"
  shows "\<exists>st0. open_try st = Some st0 \<and> frames_ok st0 (sp st # xs) \<and> dom (frames st0) = insert (sp st) (dom (frames st)) \<and> sp st0 = sp st + 1 \<and>
    function_except_stack_count st0 = function_except_stack_count st + 1" and "sp st \<notin> dom (frames st)" "sp st \<notin> set xs"
proof -
  have "set xs \<subseteq> dom (frames st)" using assms(1) echain_dom unfolding frames_ok_def by blast
  then show n: "sp st \<notin> dom (frames st)" "sp st \<notin> set xs" using assms(1) by (auto simp: frames_ok_def)
  have "\<forall>x \<in> set xs. x < sp st" using \<open>set xs \<subseteq> dom (frames st)\<close> assms(1) by (auto simp: frames_ok_def)
  then show "\<exists>st0. open_try st = Some st0 \<and> frames_ok st0 (sp st # xs) \<and> dom (frames st0) = insert (sp st) (dom (frames st)) \<and> sp st0 = sp st + 1 \<and>
    function_except_stack_count st0 = function_except_stack_count st + 1"
    using assms n by (auto simp: frames_ok_def open_try_def echain_frame)
qed

lemma set_exception_ok:
  assumes "frames_ok st xs" "a \<in> dom (frames st)" "a \<notin> set xs"
  shows "frames_ok (set_exception a c st) xs" "dom (frames (set_exception a c st)) = dom (frames st)" "sp (set_exception a c st) = sp st"
    "function_except_stack_count (set_exception a c st) = function_except_stack_count st"
  using assms by (auto simp: set_exception_def frames_ok_def echain_frame split: option.splits)

lemma landed_ok:
  assumes "frames_ok st xs" "a \<in> dom (frames st)" "a \<notin> set xs" "c0 \<le> function_except_stack_count st"
    and lj: "\<forall>c0 c1. c0 \<le> c1 \<longrightarrow> c0 \<le> lj c0 c1 \<and> lj c0 c1 \<le> c1"
  shows "frames_ok (landed lj c0 a c st) xs" "dom (frames (landed lj c0 a c st)) = dom (frames st)" "sp (landed lj c0 a c st) = sp st"
    "c0 \<le> function_except_stack_count (landed lj c0 a c st)" "function_except_stack_count (landed lj c0 a c st) \<le> function_except_stack_count st"
  using set_exception_ok [OF assms(1-3), of c] assms(4) lj by (simp_all add: landed_def frames_ok_def)

lemma exec_fine:
  assumes lj: "\<forall>c0 c1. c0 \<le> c1 \<longrightarrow> c0 \<le> lj c0 c1 \<and> lj c0 c1 \<le> c1"
  shows "\<lbrakk>scoped t s; in_range s; frames_ok st (us @ bs); int (length us) \<le> function_except_stack_count st;
      function_except_stack_count st + int (tries s) \<le> INT32_MAX; t \<longrightarrow> cur \<in> dom (frames st)\<rbrakk> \<Longrightarrow>
    fine (dom (frames st)) (sp st) (function_except_stack_count st) (function_except_stack_count st + int (tries s)) (us @ bs) bs (exec lj s cur st)"
  and "\<lbrakk>scoped_handlers hs; in_range_handlers hs; frames_ok st (us @ bs); int (length us) \<le> function_except_stack_count st;
      function_except_stack_count st + int (tries_handlers hs) \<le> INT32_MAX; a \<in> dom (frames st); a \<notin> set (us @ bs)\<rbrakk> \<Longrightarrow>
    fine (dom (frames st)) (sp st) (function_except_stack_count st) (function_except_stack_count st + int (tries_handlers hs)) (us @ bs) bs
      (exec_handlers lj hs a st)"
proof (induction s and hs arbitrary: t us bs cur st and us bs a st rule: stmt.induct handlers.induct)
  case Skip
  then show ?case by (auto simp: frames_ok_def)
next
  case (Throw c l)
  then show ?case using throw_fine by simp
next
  case Rethrow
  then obtain f where "frames st cur = Some f" by auto
  then show ?case using Rethrow throw_fine by simp
next
  case Return
  then show ?case using pop_fine by simp
next
  case (Seq p q)
  let ?D = "dom (frames st)" and ?k = "function_except_stack_count st"
  have p: "fine ?D (sp st) ?k (?k + int (tries p)) (us @ bs) bs (exec lj p cur st)"
    by (rule Seq.IH(1) [of t]) (use Seq.prems in auto)
  show ?case
  proof (cases "exec lj p cur st")
    case (Normal st1)
    then obtain vs where vs: "suffix vs (us @ bs)" "echain (frames st1) (exception_stack st1) vs" "dom (frames st1) = ?D" "sp st1 = sp st"
      "?k \<le> function_except_stack_count st1" "function_except_stack_count st1 \<le> ?k + int (tries p)" using p by auto
    obtain us' bs' where sp: "vs = us' @ bs'" "length us' \<le> length us" "suffix bs' bs" using suffix_split [OF vs(1)] by blast
    have ok1: "frames_ok st1 (us' @ bs')" using frames_okI [OF Seq.prems(3) vs(3,4,1,2)] sp(1) by simp
    have q: "fine (dom (frames st1)) (sp st1) (function_except_stack_count st1) (function_except_stack_count st1 + int (tries q)) (us' @ bs') bs' (exec lj q cur st1)"
      by (rule Seq.IH(2) [of t]) (use Seq.prems ok1 sp(2) vs(3,5,6) in auto)
    have "function_except_stack_count st1 + int (tries q) \<le> ?k + int (tries (Seq p q))" using vs(6) by simp
    from fine_mono [OF q vs(5) this vs(1) [unfolded sp(1)] sp(3)] show ?thesis using vs(3,4) Normal by simp
  qed (use p in auto)
next
  case (Call s)
  define st1 where "st1 = st\<lparr>function_except_stack_count := 0\<rparr>"
  have "fine (dom (frames st1)) (sp st1) (function_except_stack_count st1) (function_except_stack_count st1 + int (tries s)) ([] @ us @ bs) (us @ bs) (exec lj s NULL st1)"
    by (rule Call.IH [of False]) (use Call.prems in \<open>simp_all add: st1_def frames_ok_def\<close>)
  then have "fine (dom (frames st)) (sp st) 0 (int (tries s)) (us @ bs) (us @ bs) (exec lj s NULL st1)" by (simp add: st1_def)
  then show ?case by (cases "exec lj s NULL st1") (auto simp: st1_def)
next
  case (Try s hs)
  let ?a = "sp st" and ?k = "function_except_stack_count st" and ?D = "insert (sp st) (dom (frames st))"
  let ?t = "int (tries s)" and ?h = "int (tries_handlers hs)"
  have r: "0 \<le> ?k" "?k < INT32_MAX" "?k + 1 + ?t + ?h \<le> INT32_MAX" using Try.prems(4,5) by simp_all
  obtain st0 where st0: "open_try st = Some st0" "frames_ok st0 (?a # us @ bs)" "dom (frames st0) = ?D" "sp st0 = ?a + 1" "function_except_stack_count st0 = ?k + 1"
    using open_try_ok(1) [OF Try.prems(3) r(1,2)] by blast
  note new = open_try_ok(2,3) [OF Try.prems(3) r(1,2)]
  have "fine (dom (frames st0)) (sp st0) (function_except_stack_count st0) (function_except_stack_count st0 + ?t) ((?a # us) @ bs) bs (exec lj s ?a st0)"
    by (rule Try.IH(1) [of True]) (use Try.prems st0 r in auto)
  then have b: "fine ?D (?a + 1) (?k + 1) (?k + 1 + ?t) (?a # us @ bs) bs (exec lj s ?a st0)" using st0 by simp
  have ends: "fine ?D (?a + 1) ?k (?k + 1 + ?t + ?h) (us @ bs) bs (endtry ?a st1)"
    if st1: "dom (frames st1) = ?D" "sp st1 = ?a + 1" "?k + 1 \<le> function_except_stack_count st1" "function_except_stack_count st1 \<le> ?k + 1 + ?t + ?h"
      "suffix vs (?a # us @ bs)" "echain (frames st1) (exception_stack st1) vs" for st1 vs
  proof -
    have ok1: "frames_ok st1 vs" using frames_okI [OF st0(2) _ _ st1(5,6)] st1(1,2) st0(3,4) by simp
    have "?a \<in> dom (frames st1)" using st1(1) by simp
    from endtry_fine [OF ok1 st1(5) this new(2) st1(3) _ r(1), of "?k + ?t + ?h"]
    have "fine ?D (?a + 1) ?k (?k + ?t + ?h) (us @ bs) bs (endtry ?a st1)" using st1(1,2,4) r(3) by simp
    from fine_mono [OF this order_refl _ suffix_order.refl suffix_order.refl] show ?thesis by simp
  qed
  have "fine ?D (?a + 1) ?k (?k + 1 + ?t + ?h) (us @ bs) bs (case exec lj s ?a st0 of Normal st1 \<Rightarrow> endtry ?a st1
    | Jump b c st1 \<Rightarrow> if b = ?a then (case exec_handlers lj hs ?a (landed lj (function_except_stack_count st0) ?a c st1) of Normal st2 \<Rightarrow> endtry ?a st2 | out \<Rightarrow> out)
        else Jump b c st1
    | Ret st1 \<Rightarrow> Ret st1 | Crash \<Rightarrow> Crash)"
  proof (cases "exec lj s ?a st0")
    case (Normal st1)
    then obtain vs where "suffix vs (?a # us @ bs)" "echain (frames st1) (exception_stack st1) vs" using b by auto
    with ends [of st1 vs] show ?thesis using b Normal by simp
  next
    case (Jump b' c st1)
    then obtain vs where vs: "suffix (b' # vs) (?a # us @ bs)" "echain (frames st1) (exception_stack st1) vs" using b by auto
    have c1: "?k + 1 \<le> function_except_stack_count st1" "function_except_stack_count st1 \<le> ?k + 1 + ?t" "dom (frames st1) = ?D" "sp st1 = ?a + 1" "c \<noteq> 0"
      using b Jump by auto
    show ?thesis
    proof (cases "b' = ?a")
      case True
      then have vs': "vs = us @ bs" using vs(1) new(2) set_mono_suffix by (fastforce simp: suffix_Cons)
      have ok1: "frames_ok st1 (us @ bs)" using frames_okI [OF st0(2) _ _ _ vs(2)] vs' c1(3,4) st0(3,4) by (simp add: suffix_Cons)
      define st2 where "st2 = landed lj (function_except_stack_count st0) ?a c st1"
      have a1: "?a \<in> dom (frames st1)" "function_except_stack_count st0 \<le> function_except_stack_count st1" using c1(1,3) st0(5) by simp_all
      note la = landed_ok [OF ok1 a1(1) new(2) a1(2) lj, of c, folded st2_def]
      have le: "?k + 1 \<le> function_except_stack_count st2" "function_except_stack_count st2 + ?h \<le> ?k + 1 + ?t + ?h" using la(4,5) st0(5) c1(2) by simp_all
      have "fine (dom (frames st2)) (sp st2) (function_except_stack_count st2) (function_except_stack_count st2 + ?h) (us @ bs) bs (exec_handlers lj hs ?a st2)"
        by (rule Try.IH(2)) (use Try.prems(1,2,4) la(1,2) le r a1(1) new(2) in auto)
      from fine_mono [OF this le suffix_order.refl suffix_order.refl]
      have h: "fine ?D (?a + 1) (?k + 1) (?k + 1 + ?t + ?h) (us @ bs) bs (exec_handlers lj hs ?a st2)" using la(2,3) c1(3,4) by simp
      have "fine ?D (?a + 1) ?k (?k + 1 + ?t + ?h) (us @ bs) bs (case exec_handlers lj hs ?a st2 of Normal st3 \<Rightarrow> endtry ?a st3 | out \<Rightarrow> out)"
      proof (cases "exec_handlers lj hs ?a st2")
        case (Normal st3)
        then obtain ws where "suffix ws (us @ bs)" "echain (frames st3) (exception_stack st3) ws" using h by auto
        with ends [of st3 ws] show ?thesis using h Normal by (simp add: suffix_Cons)
      next
        case (Jump d e st3)
        then show ?thesis using h by simp
      qed (use h in simp_all)
      then show ?thesis using Jump True by (simp add: st2_def)
    next
      case False
      then have "suffix (b' # vs) (us @ bs)" using vs(1) by (auto simp: suffix_Cons)
      then show ?thesis using Jump False c1 vs(2) by auto
    qed
  next
    case (Ret st1)
    then show ?thesis using b by simp
  qed (use b in simp)
  from leave_fine [OF this new] show ?case using st0(1) by (simp add: Let_def add.assoc [symmetric])
next
  case NoCatch
  then show ?case by (auto simp: frames_ok_def)
next
  case (Catch e s hs)
  then obtain f where f: "frames st a = Some f" by auto
  let ?k = "function_except_stack_count st"
  have le: "?k + int (tries s) \<le> ?k + int (tries_handlers (Catch e s hs))" "?k + int (tries_handlers hs) \<le> ?k + int (tries_handlers (Catch e s hs))" by simp_all
  note se = set_exception_ok [OF Catch.prems(3,6,7), of 0]
  show ?case
  proof (cases "e = exception f")
    case True
    have "fine (dom (frames st)) (sp st) ?k (?k + int (tries s)) (us @ bs) bs (exec lj s a (set_exception a 0 st))"
      using Catch.IH(1) [of True "set_exception a 0 st" us bs a] Catch.prems se by simp
    from fine_mono [OF this order_refl le(1) suffix_order.refl suffix_order.refl] show ?thesis using True f by simp
  next
    case False
    have "fine (dom (frames st)) (sp st) ?k (?k + int (tries_handlers hs)) (us @ bs) bs (exec_handlers lj hs a st)"
      using Catch.IH(2) [of st us bs a] Catch.prems by simp
    from fine_mono [OF this order_refl le(2) suffix_order.refl suffix_order.refl] show ?thesis using False f by simp
  qed
next
  case (CatchAll s hs)
  then obtain f where f: "frames st a = Some f" by auto
  let ?k = "function_except_stack_count st"
  have le: "?k + int (tries s) \<le> ?k + int (tries_handlers (CatchAll s hs))" "?k + int (tries_handlers hs) \<le> ?k + int (tries_handlers (CatchAll s hs))" by simp_all
  note se = set_exception_ok [OF CatchAll.prems(3,6,7), of 0]
  show ?case
  proof (cases "exception f \<noteq> 0")
    case True
    have "fine (dom (frames st)) (sp st) ?k (?k + int (tries s)) (us @ bs) bs (exec lj s a (set_exception a 0 st))"
      using CatchAll.IH(1) [of True "set_exception a 0 st" us bs a] CatchAll.prems se by simp
    from fine_mono [OF this order_refl le(1) suffix_order.refl suffix_order.refl] show ?thesis using True f by simp
  next
    case False
    have "fine (dom (frames st)) (sp st) ?k (?k + int (tries_handlers hs)) (us @ bs) bs (exec_handlers lj hs a st)"
      using CatchAll.IH(2) [of st us bs a] CatchAll.prems by simp
    from fine_mono [OF this order_refl le(2) suffix_order.refl suffix_order.refl] show ?thesis using False f by simp
  qed
qed

section \<open>The properties\<close>

text \<open>
  Claim C39. No use of the exception macros touches a dead frame, whatever is thrown, caught, thrown again or left by
  \<open>RETURN\<close> and in whatever nesting of functions: a call returns with the frames of its callers alive and some of them, the outermost ones, on
  the exception stack, or it is left by a \<open>longjmp\<close> to one of them, with a code that is not 0. Conditions: no activation of a
  function executes more than \<open>2 ^ 31 - 1\<close> \<open>TRY\<close>s, loops unrolled, which keeps the counter, an \<open>int32_t\<close>, in its range
  (it is not enough that fewer are open at a time: the counter can stay higher after a \<open>TRY\<close> than before); when the counter has changed between \<open>setjmp\<close> and
  \<open>longjmp\<close>, where C leaves its value indeterminate, it has a value from the one at the \<open>setjmp\<close> to the one at the throw; and \<open>RETHROW\<close> stands in a
  \<open>TRY\<close> of its function.
\<close>

theorem exceptions_keep_frames_alive:
  assumes "scoped False s" "frames_ok st xs" "in_range (Call s)" and lj: "\<forall>c0 c1. c0 \<le> c1 \<longrightarrow> c0 \<le> lj c0 c1 \<and> lj c0 c1 \<le> c1"
  shows "(\<exists>st' vs. exec lj (Call s) cur st = Normal st' \<and> suffix vs xs \<and> frames_ok st' vs \<and> dom (frames st') = dom (frames st) \<and> sp st' = sp st) \<or>
    (\<exists>a c st' vs. exec lj (Call s) cur st = Jump a c st' \<and> c \<noteq> 0 \<and> suffix (a # vs) xs \<and> frames_ok st' vs \<and> dom (frames st') = dom (frames st) \<and> sp st' = sp st)"
proof -
  let ?st = "st\<lparr>function_except_stack_count := 0\<rparr>" let ?k = "function_except_stack_count st"
  have ok: "frames_ok ?st ([] @ xs)" using assms(2) by (simp add: frames_ok_def)
  have "fine (dom (frames st)) (sp st) 0 (int (tries s)) xs xs (exec lj s NULL ?st)"
    using exec_fine(1) [OF lj assms(1) _ ok, of NULL] assms(3) by simp
  then have f: "fine (dom (frames st)) (sp st) ?k ?k xs xs (exec lj (Call s) cur st)"
    by (cases "exec lj s NULL ?st") auto
  have nr: "exec lj (Call s) cur st \<noteq> Ret st'" for st' by (auto simp: Let_def split: outcome.splits)
  show ?thesis
  proof (cases "exec lj (Call s) cur st")
    case (Normal st')
    then obtain vs where "suffix vs xs" "echain (frames st') (exception_stack st') vs" using f by auto
    then show ?thesis using frames_okI [OF assms(2), of st' vs] Normal f by auto
  next
    case (Jump a c st')
    then obtain vs where "suffix (a # vs) xs" "echain (frames st') (exception_stack st') vs" using f by auto
    then show ?thesis using frames_okI [OF assms(2), of st' vs] suffix_ConsD [of a vs xs] Jump f by auto
  qed (use f nr in auto)
qed

definition ex_start :: exst where
  "ex_start = \<lparr>exception_stack = NULL, frames = Map.empty, sp = 1, function_except_stack_count = 0, unsolved = []\<rparr>"

lemmas exec_defs = open_try_def exception_throw_def set_exception_def landed_def endtry_def leave_def close_frame_def Let_def

theorem exceptions_keep_frames_alive_witness:
  "\<exists>st'. exec (\<lambda>c0 c1. c1) (Call (Try (Call (Try (Throw 3 20) (Catch 4 Skip NoCatch))) (Catch 3 Return NoCatch))) NULL ex_start = Normal st' \<and>
     exception_stack st' = NULL \<and> frames st' = Map.empty \<and> unsolved st' = []"
proof -
  let ?s = "Try (Call (Try (Throw 3 20) (Catch 4 Skip NoCatch))) (Catch 3 Return NoCatch)" let ?lj = "\<lambda>c0 c1. c1"
  have "frames_ok ex_start []" by (simp add: frames_ok_def ex_start_def)
  from exceptions_keep_frames_alive [OF _ this, of ?s ?lj NULL]
  obtain st' where "exec ?lj (Call ?s) NULL ex_start = Normal st'" "frames_ok st' []" "frames st' = Map.empty" by (auto simp: ex_start_def)
  moreover have "\<exists>st'. exec ?lj (Call ?s) NULL ex_start = Normal st' \<and> unsolved st' = []"
    by (simp add: ex_start_def exec_defs pop_frames.simps)
  ultimately show ?thesis by (auto simp: frames_ok_def)
qed

text \<open>
  Claim C40. A caught exception takes the enclosing \<open>TRY\<close> with it: \<open>exception_throw\<close> has popped the frame when the handler runs and
  \<open>ENDTRY\<close> pops once more. What the rest of the enclosing block throws skips its handlers \<open>hs\<close>, whatever they are: it goes
  to the frame further out, and without one it is reported as unsolved and the program runs on. The counter is at
  least 2 below the end of its range, so that the two \<open>TRY\<close>s can count up.
\<close>

theorem caught_exception_drops_outer_try:
  assumes "frames_ok st xs" "0 \<le> function_except_stack_count st" "function_except_stack_count st + 2 \<le> INT32_MAX"
  shows "\<exists>st'. exec lj (Try (Seq (Try (Throw c l) (CatchAll Skip NoCatch)) (Throw d l')) hs) cur st =
      (case xs of [] \<Rightarrow> Normal st' | x # _ \<Rightarrow> Jump x (if d = 0 then 1 else d) st') \<and>
    unsolved st' = unsolved st @ (case xs of [] \<Rightarrow> [(d, Some l')] | _ \<Rightarrow> [])"
proof (cases xs)
  case Nil
  then have "exception_stack st = NULL" "0 < sp st" using assms by (simp_all add: frames_ok_def)
  then show ?thesis using Nil assms(2,3) by (simp add: exec_defs)
next
  case (Cons x ws)
  then obtain f where f: "exception_stack st = x" "0 < x" "frames st x = Some f" "0 < sp st" "x < sp st"
    using assms by (auto simp: frames_ok_def)
  then show ?thesis using Cons assms(2,3) by (simp add: exec_defs)
qed

theorem caught_exception_drops_outer_try_witness:
  "\<exists>st'. exec (\<lambda>c0 c1. c1) (Try (Seq (Try (Throw 3 20) (CatchAll Skip NoCatch)) (Throw 5 21)) (CatchAll Skip NoCatch)) NULL ex_start = Normal st' \<and>
     unsolved st' = [(5, Some 21)]"
proof -
  have "frames_ok ex_start []" by (simp add: frames_ok_def ex_start_def)
  from caught_exception_drops_outer_try [OF this, of "\<lambda>c0 c1. c1" 3 20 5 21 "CatchAll Skip NoCatch" NULL] show ?thesis by (simp add: ex_start_def)
qed

text \<open>
  \<open>RETHROW\<close> in a handler loses the code: \<open>CATCH\<close> has set it to 0, and \<open>setjmp\<close> turns the 0 into 1.
\<close>

theorem rethrow_loses_code:
  assumes "frames_ok st (x # xs)" "0 \<le> function_except_stack_count st" "function_except_stack_count st + 1 \<le> INT32_MAX"
  shows "\<exists>st'. exec lj (Try (Throw c l) (CatchAll Rethrow NoCatch)) cur st = Jump x 1 st'"
proof -
  obtain f where f: "exception_stack st = x" "0 < x" "frames st x = Some f" "0 < sp st" "x < sp st"
    using assms by (auto simp: frames_ok_def)
  then show ?thesis using assms(2,3) by (simp add: exec_defs)
qed

text \<open>
  A throw out of a handler leaves its \<open>TRY\<close> without its \<open>ENDTRY\<close>. When the counter keeps its value over the
  \<open>longjmp\<close>, a balanced use that catches everything leaves it 1 higher; a function that does so in a loop
  overflows it after fewer than \<open>2 ^ 31\<close> rounds.
\<close>

definition leaky :: "int \<Rightarrow> nat \<Rightarrow> int \<Rightarrow> nat \<Rightarrow> stmt" where
  "leaky c l d l' = Try (Try (Throw c l) (CatchAll (Throw d l') NoCatch)) (CatchAll Skip NoCatch)"

fun repeated :: "nat \<Rightarrow> stmt \<Rightarrow> stmt" where
  "repeated 0 s = Skip"
| "repeated (Suc n) s = Seq s (repeated n s)"

lemma leaky_round:
  assumes "frames_ok st []" "0 \<le> function_except_stack_count st" "function_except_stack_count st + 2 \<le> INT32_MAX"
  shows "exec (\<lambda>c0 c1. c1) (leaky c l d l') cur st = Normal (st\<lparr>function_except_stack_count := function_except_stack_count st + 1\<rparr>)"
proof -
  have e: "exception_stack st = NULL" "0 < sp st" "dom (frames st) \<subseteq> {..<sp st}" using assms(1) by (simp_all add: frames_ok_def)
  have "sp st \<notin> dom (frames st)" "Suc (sp st) \<notin> dom (frames st)" using e(3) by auto
  then have "frames st (sp st) = None" "frames st (Suc (sp st)) = None" by auto
  then have f: "(frames st)(sp st := None, Suc (sp st) := None) = frames st" "(frames st)(Suc (sp st) := None, sp st := None) = frames st"
    "(frames st)(sp st := None) = frames st" by auto
  show ?thesis using assms(2,3) e(1,2) f by (simp add: leaky_def exec_defs fun_upd_twist)
qed

theorem nested_throw_overflows_counter:
  assumes "frames_ok st []" "0 \<le> function_except_stack_count st" "INT32_MAX \<le> function_except_stack_count st + int n"
    "function_except_stack_count st < INT32_MAX"
  shows "exec (\<lambda>c0 c1. c1) (repeated n (leaky c l d l')) cur st = Crash"
  using assms
proof (induction n arbitrary: st)
  case (Suc n)
  let ?k = "function_except_stack_count st"
  show ?case
  proof (cases "?k + 2 \<le> INT32_MAX")
    case True
    let ?st = "st\<lparr>function_except_stack_count := ?k + 1\<rparr>"
    have "exec (\<lambda>c0 c1. c1) (repeated n (leaky c l d l')) cur ?st = Crash"
      by (rule Suc.IH) (use Suc.prems True in \<open>simp_all add: frames_ok_def\<close>)
    then show ?thesis using leaky_round [OF Suc.prems(1,2) True] by simp
  next
    case False
    then have "?k = INT32_MAX - 1" using Suc.prems(4) by simp
    then have "exec (\<lambda>c0 c1. c1) (leaky c l d l') cur st = Crash" by (simp add: leaky_def exec_defs i32_def)
    then show ?thesis by simp
  qed
qed simp

theorem nested_throw_overflows_counter_witness:
  "exec (\<lambda>c0 c1. c1) (repeated 2147483647 (leaky 1 10 2 11)) NULL ex_start = Crash"
  by (rule nested_throw_overflows_counter) (simp_all add: frames_ok_def ex_start_def)

end
