(* ===== verification/Tls.thy ===== *)
theory Tls
  imports HashMap Lookup8
begin

text \<open>
  Thread data (\<open>src/tls.c\<close>): a table from 32-bit keys to pointers for every thread, kept in a thread
  specific value of the threads library. \<open>COMPARE_AND_SWAP\<close> (\<open>include/atomic.h\<close>) returns the old value. Pointers are 8 bytes; \<open>mem\<close>
  is the memory that a pointer leads to. Using a key that was not created, and locking the null mutex, is undefined.
\<close>

record tls =
  is_init :: int
  thread_key :: bool
  tls_mtx :: bool
  tls_list :: "hash_map list"
  specific :: "nat \<Rightarrow> hash_map option"
  lost :: "hash_map list"

definition COMPARE_AND_SWAP :: "int \<Rightarrow> int \<Rightarrow> tls \<Rightarrow> int \<times> tls" where
  "COMPARE_AND_SWAP old new s = (is_init s, if is_init s = old then s\<lparr>is_init := new\<rparr> else s)"

text \<open>The part of \<open>init_tls\<close> after its first test, at which another thread may come in.\<close>

definition init_swap :: "tls \<Rightarrow> tls" where
  "init_swap s =
     (let (old, s1) = COMPARE_AND_SWAP 0 1 s in
      if old \<noteq> 0 then s1\<lparr>thread_key := True, specific := (\<lambda>_. None), tls_mtx := True, tls_list := []\<rparr> else s1)"

definition init_tls :: "tls \<Rightarrow> tls" where
  "init_tls s = (if is_init s = 0 then init_swap s else s)"

definition clear_tls :: "tls \<Rightarrow> tls option" where
  "clear_tls s =
     (if is_init s \<noteq> 0
      then let (old, s1) = COMPARE_AND_SWAP 1 0 s in
        if old = 1
        then do {
          _ \<leftarrow> assert_c (thread_key s1);
          _ \<leftarrow> assert_c (tls_mtx s1);
          Some (s1\<lparr>thread_key := False, tls_mtx := False, tls_list := []\<rparr>) }
        else Some s1
      else Some s)"

definition tls_hash_key_eq :: "bytes \<Rightarrow> bytes \<Rightarrow> int" where
  "tls_hash_key_eq a b = (if take 4 a = take 4 b then 1 else 0)"

definition tls_hash_func :: "bytes \<Rightarrow> u64" where
  "tls_hash_func key = (case burtle_hash key 4 1 of Some c \<Rightarrow> c | None \<Rightarrow> 0)"

definition tls_map_create :: "(nat \<Rightarrow> bool) \<Rightarrow> hash_map option" where
  "tls_map_create calloc_ok = hash_map_create calloc_ok 128 4 8 tls_hash_func tls_hash_key_eq False"

text \<open>The null pointer.\<close>

definition null_data :: bytes where
  "null_data = replicate 8 0"

definition get_tls_data :: "(nat \<Rightarrow> bool) \<Rightarrow> nat \<Rightarrow> tls \<Rightarrow> bytes \<Rightarrow> (tls \<times> bytes) option" where
  "get_tls_data calloc_ok thr s key = do {
     _ \<leftarrow> assert_c (thread_key s);
     (case specific s thr of
        None \<Rightarrow> Some (s\<lparr>lost := (case tls_map_create calloc_ok of None \<Rightarrow> lost s | Some h \<Rightarrow> h # lost s)\<rparr>, null_data)
      | Some h \<Rightarrow> do {
          it \<leftarrow> hash_map_find h key;
          if \<not> hash_map_is_vaild_iter it then do { v \<leftarrow> hash_map_iter_get_val h it; Some (s, v) }
          else Some (s, null_data) }) }"

definition set_tls_data :: "(nat \<Rightarrow> bool) \<Rightarrow> (bytes \<Rightarrow> bytes) \<Rightarrow> nat \<Rightarrow> tls \<Rightarrow> bytes \<Rightarrow> bytes \<Rightarrow> tls option" where
  "set_tls_data calloc_ok mem thr s key data = do {
     _ \<leftarrow> assert_c (thread_key s);
     h \<leftarrow> (case specific s thr of None \<Rightarrow> tls_map_create calloc_ok | Some h \<Rightarrow> Some h);
     it \<leftarrow> hash_map_find h key;
     h' \<leftarrow> (if \<not> hash_map_is_vaild_iter it then map_option fst (hash_map_insert calloc_ok h key data)
           else hash_map_iter_set_val h it (mem data));
     Some (case specific s thr of
         None \<Rightarrow> s\<lparr>lost := h' # lost s\<rparr>
       | Some _ \<Rightarrow> s\<lparr>specific := (specific s)(thr := Some h')\<rparr>) }"

section \<open>What callers see\<close>

definition tls_start :: tls where
  "tls_start = \<lparr>is_init = 0, thread_key = False, tls_mtx = False, tls_list = [], specific = (\<lambda>_. None), lost = []\<rparr>"

text \<open>
  The initialisation creates nothing: the test of the swap succeeds for a thread that lost the race only. Every use of
  thread data and the clean-up that follow are undefined.
\<close>

theorem tls_init_creates_nothing:
  "(init_tls ^^ n) tls_start = (if n = 0 then tls_start else tls_start\<lparr>is_init := 1\<rparr>) \<and>
   get_tls_data calloc_ok thr ((init_tls ^^ n) tls_start) key = None \<and>
   set_tls_data calloc_ok mem thr ((init_tls ^^ n) tls_start) key data = None \<and>
   (n > 0 \<longrightarrow> clear_tls ((init_tls ^^ n) tls_start) = None)"
proof -
  have "(init_tls ^^ n) tls_start = (if n = 0 then tls_start else tls_start\<lparr>is_init := 1\<rparr>)"
  proof (induction n)
    case (Suc n)
    have "init_tls tls_start = tls_start\<lparr>is_init := 1\<rparr>" "init_tls (tls_start\<lparr>is_init := 1\<rparr>) = tls_start\<lparr>is_init := 1\<rparr>"
      by (simp_all add: init_tls_def init_swap_def COMPARE_AND_SWAP_def tls_start_def)
    then show ?case using Suc by (cases n) simp_all
  qed simp
  moreover have "get_tls_data calloc_ok thr s key = None" "set_tls_data calloc_ok mem thr s key data = None" if "\<not> thread_key s" for s
    using that by (simp_all add: get_tls_data_def set_tls_data_def)
  moreover have "clear_tls (tls_start\<lparr>is_init := 1\<rparr>) = None" "\<not> thread_key (tls_start\<lparr>is_init := 1\<rparr>)" "\<not> thread_key tls_start"
    by (simp_all add: clear_tls_def tls_start_def COMPARE_AND_SWAP_def)
  ultimately show ?thesis by simp
qed

text \<open>
  When two threads race through the initialisation the key is created, but no thread ever gets a table of its own: whatever
  was set before, a read yields the null pointer, and every call loses the table that it made.
\<close>

fun tls_calls :: "(nat \<Rightarrow> bool) \<Rightarrow> (bytes \<Rightarrow> bytes) \<Rightarrow> (nat \<times> bytes \<times> bytes) list \<Rightarrow> tls \<Rightarrow> tls option" where
  "tls_calls calloc_ok mem [] s = Some s"
| "tls_calls calloc_ok mem ((thr, key, data) # xs) s = do { s1 \<leftarrow> set_tls_data calloc_ok mem thr s key data; tls_calls calloc_ok mem xs s1 }"

text \<open>In a new table the first slot that is tried is empty.\<close>

lemma new_table:
  assumes "calloc_ok 3584"
  shows "\<exists>h h'. tls_map_create calloc_ok = Some h \<and> hash_map_find h key = Some None \<and> hash_map_insert calloc_ok h key data = Some (h', 0)"
proof -
  define h where "h = \<lparr>hash_function = tls_hash_func, key_cmp_function = tls_hash_key_eq, on_remove = False, slot_size = 128, hm_size = 0,
     key_size = 4, val_size = 8, item_size = 28, expand_size = 96, hm_items = calloc_items 128 4 8\<rparr>"
  have c: "tls_map_create calloc_ok = Some h"
    using assms by (simp add: tls_map_create_def hash_map_create_def h_def)
  have sh: "hm_shape h" by (simp add: hm_shape_def h_def calloc_items_def)
  obtain t where t: "HASH_MAP_INDEX (tls_hash_func key) 128 = Some t" "unat t < 128"
    using shape_index [of 128 "tls_hash_func key"] by auto
  have g: "GET_ITEM (length (hm_items h)) (item_size h) t = Some (unat t)"
    using shape_get_item [OF sh, of t] t(2) by (simp add: h_def)
  have f: "flag (hm_items h ! unat t) = ITEM_EMPTY" using t(2) by (simp add: h_def calloc_items_def)
  have p: "hash_function h = tls_hash_func" "slot_size h = 128" "hm_size h = 0" "expand_size h = 96" by (simp_all add: h_def)
  have "hm_find_loop h key (tls_hash_func key) t 0 = Some None"
    using g f p by (subst hm_find_loop.simps) simp
  then have 1: "hash_map_find h key = Some None" using t(1) p by (simp add: hash_map_find_def hm_find_def)
  have "hm_insert_loop h key data (tls_hash_func key) t 0 = Some (hm_store h (unat t) key data (tls_hash_func key), 0)"
    using g f p by (subst hm_insert_loop.simps) simp
  then have "hash_map_insert calloc_ok h key data =
      Some ((hm_store h (unat t) key data (tls_hash_func key))\<lparr>hm_size := hm_size (hm_store h (unat t) key data (tls_hash_func key)) + 1\<rparr>, 0)"
    using t(1) p by (simp add: hash_map_insert_def hm_insert_def)
  with c 1 show ?thesis by blast
qed

theorem tls_data_never_found:
  assumes "calloc_ok 3584"
  shows "\<exists>s s'. tls_calls calloc_ok mem xs (init_swap (init_swap tls_start)) = Some s \<and>
     get_tls_data calloc_ok thr s key = Some (s', null_data) \<and> length (lost s') = Suc (length xs)"
proof -
  have calls: "\<exists>s'. tls_calls calloc_ok mem xs s = Some s' \<and> thread_key s' \<and> specific s' = (\<lambda>_. None) \<and> length (lost s') = length (lost s) + length xs"
    if "thread_key s" "specific s = (\<lambda>_. None)" for s
    using that
  proof (induction xs arbitrary: s)
    case (Cons x xs)
    obtain thr k d where x: "x = (thr, k, d)" by (cases x)
    obtain h h' where "tls_map_create calloc_ok = Some h" "hash_map_find h k = Some None" "hash_map_insert calloc_ok h k d = Some (h', 0)"
      using new_table [of calloc_ok k d] assms by blast
    then have s1: "set_tls_data calloc_ok mem thr s k d = Some (s\<lparr>lost := h' # lost s\<rparr>)"
      using Cons.prems by (simp add: set_tls_data_def hash_map_is_vaild_iter_def)
    show ?case using Cons.IH [of "s\<lparr>lost := h' # lost s\<rparr>"] Cons.prems s1 x by simp
  qed simp
  let ?s = "init_swap (init_swap tls_start)"
  have "thread_key ?s" "specific ?s = (\<lambda>_. None)" "lost ?s = []"
    by (simp_all add: init_swap_def COMPARE_AND_SWAP_def tls_start_def)
  then obtain s where s: "tls_calls calloc_ok mem xs ?s = Some s" "thread_key s" "specific s = (\<lambda>_. None)" "length (lost s) = length xs"
    using calls [of ?s] by auto
  obtain h where "tls_map_create calloc_ok = Some h" using new_table [of calloc_ok] assms by blast
  then show ?thesis using s by (simp add: get_tls_data_def)
qed

end
