(* ===== verification/Timer.thy ===== *)
theory Timer
  imports Prelude "HOL-Library.Signed_Division"
begin

text \<open>
  Timers on descriptors (\<open>src/timer.c\<close>): the results of \<open>epoll_wait\<close> are a script of return values with the timers
  of the events, used up from its front; at its end \<open>epoll_wait\<close> fails. The callbacks of the timers are one function of the timer, its argument and
  the state. What a system call yields is an argument. \<open>junk\<close> is the uninitialised field of a block from \<open>malloc\<close>.
\<close>

record timer =
  timer_fd :: int
  timer_arg :: nat
  timer_callback :: bool

record 'u timermgr =
  epollfd :: int
  terminated :: bool
  timers :: "addr \<rightharpoonup> timer"
  watched :: "addr set"
  timer_user :: 'u

type_synonym 'u timer_cb = "addr \<Rightarrow> nat \<Rightarrow> 'u timermgr \<Rightarrow> 'u timermgr option"

definition CreateTimerMgr :: "int \<Rightarrow> bool \<Rightarrow> (addr \<rightharpoonup> timer) \<Rightarrow> 'u \<Rightarrow> 'u timermgr option" where
  "CreateTimerMgr efd junk ts u =
     (if efd \<ge> 0 then Some \<lparr>epollfd = efd, terminated = junk, timers = ts, watched = {}, timer_user = u\<rparr> else None)"

text \<open>The descriptor that \<open>DestroyTimerMgr\<close> closes before it frees the manager.\<close>

definition DestroyTimerMgr :: "'u timermgr \<Rightarrow> int" where
  "DestroyTimerMgr t = epollfd t"

definition TerminateTimerMgr :: "'u timermgr \<Rightarrow> 'u timermgr" where
  "TerminateTimerMgr t = t\<lparr>terminated := True\<rparr>"

text \<open>The loop over the events: the descriptor of the timer is read, then its callback is called.\<close>

fun timer_events :: "'u timer_cb \<Rightarrow> addr list \<Rightarrow> 'u timermgr \<Rightarrow> 'u timermgr option" where
  "timer_events cb [] t = Some t"
| "timer_events cb (p # ps) t = do {
     x \<leftarrow> timers t p;
     t1 \<leftarrow> (if timer_callback x then cb p (timer_arg x) t else Some t);
     timer_events cb ps t1 }"

fun timer_loop :: "'u timer_cb \<Rightarrow> bool \<Rightarrow> (int \<times> addr list) list \<Rightarrow> 'u timermgr \<Rightarrow> 'u timermgr option" where
  "timer_loop cb once [] t = Some (t\<lparr>terminated := True\<rparr>)"
| "timer_loop cb once ((nfds, evs) # polls) t =
     (if \<not> terminated t \<and> \<not> once
      then if nfds < 0 then Some (t\<lparr>terminated := True\<rparr>)
        else do { t1 \<leftarrow> timer_events cb (take (nat nfds) evs) t; timer_loop cb once polls t1 }
      else Some t)"

definition RunTimerMgr :: "'u timer_cb \<Rightarrow> bool \<Rightarrow> (int \<times> addr list) list \<Rightarrow> 'u timermgr \<Rightarrow> 'u timermgr option" where
  "RunTimerMgr cb once polls t = do {
     t1 \<leftarrow> timer_loop cb once polls (t\<lparr>terminated := False\<rparr>);
     Some (t1\<lparr>terminated := True\<rparr>) }"

definition AddTimer :: "int \<Rightarrow> addr \<Rightarrow> 'u timermgr \<Rightarrow> ('u timermgr \<times> int) option" where
  "AddTimer r p t = do {
     _ \<leftarrow> timers t p;
     Some (if r \<noteq> 0 then (t, -1) else (t\<lparr>watched := insert p (watched t)\<rparr>, 0)) }"

definition RemoveTimer :: "int \<Rightarrow> addr \<Rightarrow> 'u timermgr \<Rightarrow> ('u timermgr \<times> int) option" where
  "RemoveTimer r p t = do {
     _ \<leftarrow> timers t p;
     Some (if r \<noteq> 0 then (t, -1) else (t\<lparr>watched := watched t - {p}\<rparr>, 0)) }"

definition CreateTimer :: "int \<Rightarrow> addr \<Rightarrow> bool \<Rightarrow> nat \<Rightarrow> 'u timermgr \<Rightarrow> 'u timermgr \<times> addr" where
  "CreateTimer tfd p cb x t =
     (if tfd < 0 then (t, NULL)
      else if p = NULL then (t, NULL)
      else (t\<lparr>timers := (timers t)(p \<mapsto> \<lparr>timer_fd = tfd, timer_arg = x, timer_callback = cb\<rparr>)\<rparr>, p))"

definition DestroyTimer :: "addr \<Rightarrow> 'u timermgr \<Rightarrow> 'u timermgr" where
  "DestroyTimer p t = t\<lparr>timers := (timers t)(p := None)\<rparr>"

section \<open>The default times\<close>

record itimerspec =
  value_sec :: int
  value_nsec :: int
  interval_sec :: int
  interval_nsec :: int

text \<open>
  \<open>DefaultInit\<close>: the sum is computed in 64 bits, \<open>ms * 1000 * 1000\<close> in 32 bits; leaving either range is
  undefined. Division and remainder are those of C, which round to 0.
\<close>

definition i64 :: "int \<Rightarrow> int option" where
  "i64 x = (if - (2 ^ 63) \<le> x \<and> x < 2 ^ 63 then Some x else None)"

definition DefaultInit :: "int \<Rightarrow> int \<Rightarrow> int \<Rightarrow> itimerspec option" where
  "DefaultInit now_sec now_nsec interval = do {
     let sec = interval sdiv 1000;
     let ms = interval smod 1000;
     m \<leftarrow> i32 (ms * 1000 * 1000);
     s \<leftarrow> i64 ((now_sec + sec) * 1000 * 1000 * 1000);
     nosec \<leftarrow> i64 (s + now_nsec + m);
     Some \<lparr>value_sec = nosec sdiv (1000 * 1000 * 1000), value_nsec = nosec smod (1000 * 1000 * 1000), interval_sec = sec, interval_nsec = m\<rparr> }"

lemma c_division: "0 \<le> a \<Longrightarrow> 0 < b \<Longrightarrow> a sdiv b = a div b" "0 \<le> a \<Longrightarrow> 0 < b \<Longrightarrow> a smod b = a mod b" for a b :: int
  by (simp_all add: signed_divide_int_def signed_modulo_int_def sgn_if minus_div_mult_eq_mod)

section \<open>What a run does\<close>

text \<open>A callback that notes the timer and ends the run after the timer \<open>stop\<close>.\<close>

definition note_cb :: "addr \<Rightarrow> addr list timer_cb" where
  "note_cb stop p x t = Some (t\<lparr>timer_user := timer_user t @ [p], terminated := (terminated t \<or> stop = p)\<rparr>)"

text \<open>The batches that are handled: up to the first with the timer \<open>stop\<close> or with an error.\<close>

fun handled :: "addr \<Rightarrow> (int \<times> addr list) list \<Rightarrow> addr list" where
  "handled stop [] = []"
| "handled stop ((n, evs) # polls) =
     (if n < 0 then [] else let b = take (nat n) evs in b @ (if stop \<in> set b then [] else handled stop polls))"

lemma timer_events_law:
  "\<forall>p \<in> set ps. \<exists>x. timers t p = Some x \<and> timer_callback x \<Longrightarrow>
    timer_events (note_cb stop) ps t = Some (t\<lparr>timer_user := timer_user t @ ps, terminated := (terminated t \<or> stop \<in> set ps)\<rparr>)"
  by (induction ps arbitrary: t) (auto simp: note_cb_def)

lemma timer_loop_law:
  "\<forall>(n, ps) \<in> set polls. \<forall>p \<in> set ps. \<exists>x. timers t p = Some x \<and> timer_callback x \<Longrightarrow> \<not> terminated t \<Longrightarrow>
    \<exists>t'. timer_loop (note_cb stop) False polls t = Some t' \<and> timer_user t' = timer_user t @ handled stop polls"
proof (induction polls arbitrary: t)
  case (Cons b polls)
  obtain n ps where b: "b = (n, ps)" by (cases b)
  show ?case
  proof (cases "n < 0")
    case True
    then show ?thesis using b Cons.prems by simp
  next
    case False
    let ?t = "t\<lparr>timer_user := timer_user t @ take (nat n) ps, terminated := (stop \<in> set (take (nat n) ps))\<rparr>"
    have "\<forall>p \<in> set (take (nat n) ps). \<exists>x. timers t p = Some x \<and> timer_callback x"
      using Cons.prems(1) b in_set_takeD by fastforce
    from timer_events_law [OF this, of stop] have e: "timer_events (note_cb stop) (take (nat n) ps) t = Some ?t"
      using Cons.prems(2) by simp
    show ?thesis
    proof (cases "stop \<in> set (take (nat n) ps)")
      case True
      have "timer_loop (note_cb stop) False polls ?t = Some (if polls = [] then ?t\<lparr>terminated := True\<rparr> else ?t)"
        using True by (cases polls) auto
      then show ?thesis using b False e True Cons.prems(2) by (auto simp: Let_def)
    next
      case ns: False
      then show ?thesis using Cons.IH [of ?t] Cons.prems b False e by (auto simp: Let_def)
    qed
  qed
qed simp

text \<open>
  A run calls back the timers of the events in order, batch by batch, finishes the batch in which it is terminated and then returns; with
  \<open>once\<close> it returns at once and calls back none, whatever has expired.
\<close>

theorem timer_run_in_order:
  assumes "\<forall>(n, ps) \<in> set polls. \<forall>p \<in> set ps. \<exists>x. timers t p = Some x \<and> timer_callback x"
  shows "\<exists>t'. RunTimerMgr (note_cb stop) once polls t = Some t' \<and> terminated t' \<and>
    timer_user t' = timer_user t @ (if once then [] else handled stop polls)"
proof (cases once)
  case True
  then show ?thesis by (cases polls) (auto simp: RunTimerMgr_def)
next
  case False
  have "\<exists>t'. timer_loop (note_cb stop) False polls (t\<lparr>terminated := False\<rparr>) = Some t' \<and>
      timer_user t' = timer_user (t\<lparr>terminated := False\<rparr>) @ handled stop polls"
    by (rule timer_loop_law) (use assms in auto)
  then show ?thesis using False by (auto simp: RunTimerMgr_def)
qed

text \<open>
  The first expiry lies the interval after now and all fields are normalised; there is no overflow for the times of the next 290 years.
\<close>

theorem default_times:
  assumes "0 \<le> s" "s < 9000000000" "0 \<le> n" "n < 1000000000" "0 \<le> interval" "interval \<le> INT32_MAX"
  shows "\<exists>t. DefaultInit s n interval = Some t \<and>
    value_sec t * 1000000000 + value_nsec t = s * 1000000000 + n + interval * 1000000 \<and>
    interval_sec t * 1000000000 + interval_nsec t = interval * 1000000 \<and>
    0 \<le> value_nsec t \<and> value_nsec t < 1000000000 \<and> 0 \<le> interval_nsec t \<and> interval_nsec t < 1000000000"
proof -
  define d r where dr: "d = interval div 1000" "r = interval mod 1000"
  define T where "T = (s + d) * 1000 * 1000 * 1000 + n + r * 1000 * 1000"
  have r: "0 \<le> r" "r < 1000" unfolding dr by simp_all
  have eq: "d * 1000 + r = interval" unfolding dr by simp
  have d: "0 \<le> d" "d \<le> 2147483" using eq r assms(5,6) by linarith+
  have i: "i32 (r * 1000 * 1000) = Some (r * 1000 * 1000)" using r by (intro i32_in_range) linarith+
  have j: "i64 ((s + d) * 1000 * 1000 * 1000) = Some ((s + d) * 1000 * 1000 * 1000)" "i64 T = Some T"
    unfolding i64_def T_def using assms(1-4) d r by simp_all
  have "0 \<le> T" unfolding T_def using assms(1,3) d r by simp
  note cd = c_division [OF assms(5), of 1000] c_division [OF this, of "1000 * 1000 * 1000"]
  have "DefaultInit s n interval = Some \<lparr>value_sec = T div (1000 * 1000 * 1000), value_nsec = T mod (1000 * 1000 * 1000),
      interval_sec = d, interval_nsec = r * 1000 * 1000\<rparr>"
    using cd unfolding DefaultInit_def Let_def by (simp only: dr [symmetric] i j bind.bind_lunit T_def [symmetric])
  moreover have "T = s * 1000000000 + n + interval * 1000000" "d * 1000000000 + r * 1000 * 1000 = interval * 1000000"
    unfolding T_def eq [symmetric] by (simp_all add: distrib_right)
  moreover have "T div (1000 * 1000 * 1000) * 1000000000 + T mod (1000 * 1000 * 1000) = T" by simp
  moreover have "0 \<le> T mod (1000 * 1000 * 1000)" "T mod (1000 * 1000 * 1000) < 1000000000" by simp_all
  moreover have "0 \<le> r * 1000 * 1000" "r * 1000 * 1000 < 1000000000" using r by linarith+
  ultimately show ?thesis by (intro exI conjI) (assumption, simp_all only: itimerspec.simps)
qed

end
