(* ===== verification/LocalPool.thy ===== *)
theory LocalPool
  imports Prelude
begin

text \<open>
  The pool of \<open>src/local_pool.c\<close>: blocks are cut from the front of one buffer and never given back. Addresses are natural
  numbers. \<open>junk\<close> is what the variable \<open>alloc_size\<close> of \<open>local_pool_alloc\<close> holds before it is assigned.
\<close>

record local_pool =
  lp_free_size :: u32
  free_buf_in_destroy :: bool
  buf_ptr :: addr
  free_ptr :: addr

text \<open>\<open>buf\<close> is the buffer of the caller, or null; \<open>fresh\<close> what \<open>ALLOC\<close> yields for the buffer otherwise.\<close>

definition local_pool_create :: "bool \<Rightarrow> addr \<Rightarrow> addr \<Rightarrow> int \<Rightarrow> local_pool option" where
  "local_pool_create have_lp buf fresh sz =
     (if \<not> have_lp then None
      else if buf \<noteq> NULL then Some \<lparr>lp_free_size = word_of_int sz, free_buf_in_destroy = True, buf_ptr = buf, free_ptr = buf\<rparr>
      else if fresh = NULL then None
      else Some \<lparr>lp_free_size = word_of_int sz, free_buf_in_destroy = False, buf_ptr = fresh, free_ptr = fresh\<rparr>)"

text \<open>What is freed besides the pool itself.\<close>

definition local_pool_destroy :: "local_pool \<Rightarrow> addr list" where
  "local_pool_destroy lp = (if \<not> free_buf_in_destroy lp then [buf_ptr lp] else [])"

definition alignsize :: "u32 \<Rightarrow> u32" where
  "alignsize obj_size = (if obj_size mod 4 > 0 then (obj_size div 4) * 4 + 4 else obj_size)"

definition local_pool_alloc :: "local_pool \<Rightarrow> int \<Rightarrow> u32 \<Rightarrow> local_pool \<times> addr" where
  "local_pool_alloc lp sz junk =
     (let alloc_size = alignsize (if sz \<le> 0 then 1 else junk) in
      if lp_free_size lp < alloc_size then (lp, NULL)
      else (lp\<lparr>lp_free_size := lp_free_size lp - alloc_size, free_ptr := free_ptr lp + unat alloc_size\<rparr>, free_ptr lp))"

definition local_pool_dealloc :: "local_pool \<Rightarrow> addr \<Rightarrow> local_pool" where
  "local_pool_dealloc lp ptr = lp"

section \<open>Alignment\<close>

lemma alignsize_law:
  assumes "unat n \<le> 2 ^ 32 - 4"
  shows "unat (alignsize n) = 4 * ((unat n + 3) div 4)"
proof -
  have m: "(n mod 4 > 0) = (unat n mod 4 > 0)" by (simp add: word_less_nat_alt unat_mod)
  have "unat (n div 4 * 4) = unat n div 4 * 4"
    using assms by (subst unat_word_ariths) (simp add: unat_div_word)
  moreover have "unat n div 4 * 4 + 4 < 2 ^ 32 \<or> unat n mod 4 = 0" using assms by presburger
  ultimately have "unat n mod 4 \<noteq> 0 \<Longrightarrow> unat (n div 4 * 4 + 4) = unat n div 4 * 4 + 4"
    by (subst unat_word_ariths) simp
  moreover have "unat n mod 4 \<noteq> 0 \<Longrightarrow> unat n div 4 * 4 + 4 = 4 * ((unat n + 3) div 4)" "unat n mod 4 = 0 \<Longrightarrow> unat n = 4 * ((unat n + 3) div 4)"
    by presburger+
  ultimately show ?thesis using m by (auto simp: alignsize_def)
qed

text \<open>Close to \<open>2 ^ 32\<close> the aligned size wraps to 0.\<close>

lemma alignsize_wraps: "alignsize 0xFFFFFFFD = 0"
  by (simp add: alignsize_def)

section \<open>The blocks of a pool\<close>

fun lp_allocs :: "local_pool \<Rightarrow> (int \<times> u32) list \<Rightarrow> local_pool \<times> (addr \<times> nat) list" where
  "lp_allocs lp [] = (lp, [])"
| "lp_allocs lp ((sz, junk) # xs) =
     (let (lp1, p) = local_pool_alloc lp sz junk;
          (lp2, ps) = lp_allocs lp1 xs
      in (lp2, if p = NULL then ps else (p, unat (alignsize (if sz \<le> 0 then 1 else junk))) # ps))"

text \<open>The blocks of a list lie one behind another between \<open>lo\<close> and \<open>hi\<close>.\<close>

fun laid_out :: "addr \<Rightarrow> (addr \<times> nat) list \<Rightarrow> addr \<Rightarrow> bool" where
  "laid_out lo [] hi = (lo \<le> hi)"
| "laid_out lo ((p, n) # ps) hi = (lo \<le> p \<and> laid_out (p + n) ps hi)"

lemma laid_out_hi: "laid_out lo ps hi \<Longrightarrow> hi \<le> hi' \<Longrightarrow> laid_out lo ps hi'"
  by (induction ps arbitrary: lo) auto

lemma laid_out_lo: "laid_out lo ps hi \<Longrightarrow> lo' \<le> lo \<Longrightarrow> laid_out lo' ps hi"
  by (cases ps) auto

lemma allocs_law:
  "free_ptr lp \<noteq> NULL \<Longrightarrow> lp_allocs lp xs = (lp', ps) \<Longrightarrow>
    laid_out (free_ptr lp) ps (free_ptr lp') \<and> free_ptr lp' + unat (lp_free_size lp') = free_ptr lp + unat (lp_free_size lp) \<and> buf_ptr lp' = buf_ptr lp"
proof (induction xs arbitrary: lp ps)
  case (Cons x xs)
  obtain sz junk where x: "x = (sz, junk)" by (cases x)
  define n where "n = alignsize (if sz \<le> 0 then 1 else junk)"
  obtain lp1 p where a: "local_pool_alloc lp sz junk = (lp1, p)" by fastforce
  obtain qs where q: "lp_allocs lp1 xs = (lp', qs)" "ps = (if p = NULL then qs else (p, unat n) # qs)"
    using Cons.prems(2) x a by (auto simp: n_def Let_def split: prod.splits)
  show ?case
  proof (cases "lp_free_size lp < n")
    case True
    then have "lp1 = lp" "p = NULL" using a by (auto simp: local_pool_alloc_def n_def Let_def)
    then show ?thesis using Cons.IH [of lp qs] Cons.prems(1) q by simp
  next
    case False
    then have lp1: "lp1 = lp\<lparr>lp_free_size := lp_free_size lp - n, free_ptr := free_ptr lp + unat n\<rparr>" "p = free_ptr lp"
      using a by (auto simp: local_pool_alloc_def n_def Let_def)
    have "unat (lp_free_size lp - n) = unat (lp_free_size lp) - unat n" "unat n \<le> unat (lp_free_size lp)"
      using False by (simp_all add: unat_sub_if_size word_less_nat_alt word_size)
    then show ?thesis using Cons.IH [of lp1 qs] Cons.prems(1) q lp1 by simp
  qed
qed simp

text \<open>
  Whatever the sizes asked for and whatever the uninitialised variable holds, the blocks of a pool are disjoint and inside its
  buffer. Their sizes are another matter: for a positive size the pool reserves what the uninitialised variable says.
\<close>

theorem local_pool_blocks_disjoint:
  assumes "local_pool_create True buf fresh sz = Some lp" "0 \<le> sz" "sz \<le> INT32_MAX"
  shows "case lp_allocs lp xs of (lp', ps) \<Rightarrow> laid_out (buf_ptr lp) ps (buf_ptr lp + nat sz)"
proof -
  have lp: "free_ptr lp = buf_ptr lp" "free_ptr lp \<noteq> NULL" "lp_free_size lp = word_of_int sz"
    using assms(1) by (auto simp: local_pool_create_def split: if_splits)
  obtain lp' ps where r: "lp_allocs lp xs = (lp', ps)" by fastforce
  have l: "laid_out (free_ptr lp) ps (free_ptr lp')" "free_ptr lp' + unat (lp_free_size lp') = free_ptr lp + unat (lp_free_size lp)"
    using allocs_law [OF lp(2) r] by auto
  have "unat (word_of_int sz :: u32) = nat sz"
    using assms(2,3) by (simp add: unat_eq_nat_uint uint_word_of_int take_bit_int_eq_self)
  then have "free_ptr lp' \<le> buf_ptr lp + nat sz" using l(2) lp by simp
  then show ?thesis using laid_out_hi [OF l(1)] lp(1) r by simp
qed

end
