(* ===== verification/Server.thy ===== *)
theory Server
  imports Sending
begin

text \<open>
  The broadcasting server \<open>testserver.c\<close>: every packet received from a client is queued for all
  clients. Its packet handler is an instance of the interface of theory Handler, so the whole path from
  the bytes of one socket to the send queues of the others is covered. The theory ends with the
  properties of connections.
\<close>

abbreviation MAX_CLIENT :: nat where "MAX_CLIENT \<equiv> 1000"

text \<open>The array \<open>clients\<close> (0 for a free slot) and two of the counters that \<open>main\<close> prints.\<close>

record server =
  clients :: "addr list"
  packet_recv :: u32
  send_request :: u32

type_synonym ssys = "server csys"

definition upd_app :: "ssys \<Rightarrow> (server \<Rightarrow> server) \<Rightarrow> ssys" where
  "upd_app s f = upd_user s (\<lambda>u. u\<lparr>app := f (app u)\<rparr>)"

definition init_clients :: "ssys \<Rightarrow> ssys" where
  "init_clients s = upd_app s (\<lambda>a. a\<lparr>clients := replicate MAX_CLIENT NULL\<rparr>)"

text \<open>When all slots are taken the client is not recorded.\<close>

definition add_client :: "addr \<Rightarrow> ssys \<Rightarrow> ssys" where
  "add_client c s = upd_app s (\<lambda>a.
     case List.find (\<lambda>i. clients a ! i = NULL) [0..<MAX_CLIENT] of
       None \<Rightarrow> a | Some i \<Rightarrow> a\<lparr>clients := (clients a)[i := c]\<rparr>)"

fun send2_loop :: "rpacket \<Rightarrow> nat list \<Rightarrow> ssys \<Rightarrow> ssys option" where
  "send2_loop r [] s = Some s"
| "send2_loop r (i # is) s =
     (let d = clients (app (user s)) ! i in
      if d \<noteq> NULL
      then do {
        (st, w) \<leftarrow> wpacket_create_by_rpacket (bst (user s)) r;
        (s1, _) \<leftarrow> connection_send d (Some (w, 0)) (upd_app (put_bst s st) (\<lambda>a. a\<lparr>send_request := send_request a + 1\<rparr>));
        send2_loop r is s1 }
      else send2_loop r is s)"

definition send2_all_client :: "rpacket \<Rightarrow> ssys \<Rightarrow> ssys option" where
  "send2_all_client r s = send2_loop r [0..<MAX_CLIENT] s"

definition on_process_packet :: "addr \<Rightarrow> rpacket \<Rightarrow> ssys \<Rightarrow> ssys option" where
  "on_process_packet c r s = do {
     s1 \<leftarrow> send2_all_client r s;
     st \<leftarrow> rpacket_destroy (bst (user s1)) r;
     Some (upd_app (put_bst s1 st) (\<lambda>a. a\<lparr>send_request := send_request a + 1, packet_recv := packet_recv a + 1\<rparr>)) }"

definition remove_client :: "addr \<Rightarrow> int \<Rightarrow> ssys \<Rightarrow> ssys option" where
  "remove_client c reason s = do {
     let s1 = upd_app s (\<lambda>a.
       case List.find (\<lambda>i. clients a ! i = c) [0..<MAX_CLIENT] of
         None \<Rightarrow> a | Some i \<Rightarrow> a\<lparr>clients := (clients a)[i := NULL]\<rparr>);
     k \<leftarrow> con_at s1 c;
     (s2, ret) \<leftarrow> connection_destroy c s1;
     Some (if ret = 0 then fst (ReleaseSocketWrapper s2 (c_socket k)) else s2) }"

definition server_handlers :: "server handlers" where
  "server_handlers = \<lparr>process_packet = on_process_packet, on_disconnect = remove_client, packet_send_finish = (\<lambda>_ _ _ _. None)\<rparr>"

text \<open>\<open>c\<close> is the address of the new connection; \<open>setNonblock\<close> only changes the descriptor.\<close>

definition accept_callback :: "int \<Rightarrow> nat \<Rightarrow> addr \<Rightarrow> int \<Rightarrow> ssys \<Rightarrow> ssys option" where
  "accept_callback eh hdl c h s = do {
     (s1, _) \<leftarrow> connection_start_recv c (add_client c (connection_create c h 0 0 s));
     Some (fst (Bind2Engine s1 eh h hdl)) }"

section \<open>Queueing a packet\<close>

text \<open>A connection whose queued packets are all well-formed.\<close>

definition queue_ok :: "bstore \<Rightarrow> connection \<Rightarrow> bool" where
  "queue_ok st k \<longleftrightarrow> (\<forall>(w, f) \<in> set (send_list k). \<exists>us ds. holds st w us ds)"

lemma WSASend_later:
  assumes act: "act_inv s"
  shows "\<exists>s' e. WSASend s h io False = Some (s', -1, e) \<and> user s' = user s \<and> sys_results s' = sys_results s \<and>
    act_inv s' \<and> (\<forall>h. GetSocketByHandle s' h = GetSocketByHandle s h)"
proof (cases "GetSocketByHandle s h")
  case None
  then show ?thesis using act by (simp add: WSASend_def)
next
  case (Some i)
  then have i: "i < length (socket_pool s)" by (auto simp: GetSocketByHandle_def split: if_splits)
  define f where "f = (\<lambda>s :: sock. s\<lparr>pending_send := pending_send s @ [io]\<rparr>)"
  define s1 where "s1 = upd_sock s i f"
  have l1: "GetSocketByHandle s1 h = GetSocketByHandle s h" for h unfolding s1_def by (rule upd_sock_lookup) (simp add: f_def)
  have a1: "act_inv s1" using upd_sock_inv [OF act, of f i] by (simp add: s1_def f_def)
  have i1: "i < length (socket_pool s1)" "sock_at s1 i = Some (the_sock s1 i)" using i by (simp_all add: s1_def upd_sock_def sock_at_def)
  have u1: "user s1 = user s" "sys_results s1 = sys_results s" by (simp_all add: s1_def upd_sock_def)
  show ?thesis
  proof (cases "sengine (the_sock s1 i) \<noteq> None \<and> writeable (the_sock s1 i) \<and> \<not> isactived (the_sock s1 i)")
    case True
    then obtain e where e: "sengine (the_sock s1 i) = Some e" by blast
    have "e < length (engine_pool s1)" by (rule act_invD(3) [OF a1 i1(1) e])
    then obtain s2 where s2: "activate s1 i = Some s2"
      "s2 = upd_engine (upd_sock s1 i (\<lambda>s. s\<lparr>isactived := True\<rparr>)) e (\<lambda>en. en\<lparr>actived := actived en @ [i]\<rparr>)"
      using i1 e by (auto simp: activate_def engine_at_def)
    have "GetSocketByHandle s2 h = GetSocketByHandle s1 h" for h
      using upd_sock_lookup [of "\<lambda>s. s\<lparr>isactived := True\<rparr>" s1 i h] unfolding s2(2) by (simp add: GetSocketByHandle_def upd_engine_def)
    moreover have "act_inv s2" using activate_inv [OF a1 s2(1)] True by simp
    moreover have "user s2 = user s" "sys_results s2 = sys_results s" using u1 by (simp_all add: s2(2) upd_engine_def upd_sock_def)
    moreover have "WSASend s h io False = Some (s2, -1, EAGAIN)"
      using Some True i1(2) s2(1) by (simp add: WSASend_def s1_def [unfolded f_def, symmetric])
    ultimately show ?thesis using l1 by auto
  next
    case False
    then have "WSASend s h io False = Some (s1, -1, EAGAIN)"
      using Some i1(2) by (auto simp add: WSASend_def s1_def [unfolded f_def, symmetric])
    then show ?thesis using a1 l1 u1 by auto
  qed
qed

lemma connection_send_law:
  assumes k: "con_at s d = Some k" and inv: "rc_inv (bst (user s)) R" and act: "act_inv s"
    and q: "queue_ok (bst (user s)) k" "holds (bst (user s)) w us ds"
  shows "\<exists>s' ret k'. connection_send d (Some (w, f)) s = Some (s', ret) \<and> con_at s' d = Some k' \<and>
    send_list k' = send_list k @ [(w, f)] \<and> same_recv k k' \<and> act_inv s' \<and> same_net s s' \<and>
    bst (user s') = bst (user s) \<and> app (user s') = app (user s) \<and> (\<forall>e. e \<noteq> d \<longrightarrow> con_at s' e = con_at s e)"
proof -
  let ?st = "bst (user s)"
  define k1 where "k1 = k\<lparr>send_list := send_list k @ [(w, f)]\<rparr>"
  define s1 where "s1 = put_con s d k1"
  have p: "connection_push_packet d (Some (w, f)) s = Some s1" using k by (simp add: connection_push_packet_def s1_def k1_def)
  have sr: "same_recv k (k\<lparr>send_list := l, send_used := u, wsendbuf := v\<rparr>)" for l u v by (auto simp: same_recv_def)
  show ?thesis
  proof (cases "send_used k")
    case True
    then have "connection_send d (Some (w, f)) s = Some (s1, None)" using p by (simp add: connection_send_def s1_def k1_def)
    moreover have "k1 = k\<lparr>send_list := send_list k @ [(w, f)], send_used := send_used k, wsendbuf := wsendbuf k\<rparr>" by (simp add: k1_def)
    then have "same_recv k k1" using sr by metis
    moreover have "same_net s s1" by (simp add: s1_def same_netI)
    ultimately show ?thesis using act by (intro exI [of _ s1] exI [of _ None] exI [of _ k1]) (simp add: s1_def k1_def)
  next
    case False
    have "\<forall>(w, f) \<in> set (send_list k1). \<exists>us ds. holds ?st w us ds" using q by (auto simp: queue_ok_def k1_def)
    from send_iovecs_total [OF this inv, of "[]"] obtain vs where vs: "send_iovecs ?st (send_list k1) [] = Some vs" "vs \<noteq> []"
      by (auto simp: k1_def)
    have c1: "con_at s1 d = Some k1" "bst (user s1) = ?st" "\<not> send_used k1" using False by (simp_all add: s1_def k1_def)
    define k2 where "k2 = k1\<lparr>send_used := True, wsendbuf := vs\<rparr>"
    define s2 where "s2 = put_con s1 d k2"
    have pr: "prepare_send ?st (k1\<lparr>send_used := True\<rparr>) = Some (k2, True)" using vs by (simp add: prepare_send_def k2_def)
    have "act_inv s2" using act by (simp add: s2_def s1_def)
    from WSASend_later [OF this, of "c_socket k2" "2 * d + 1"] obtain s3 e where
      w3: "WSASend s2 (c_socket k2) (2 * d + 1) False = Some (s3, -1, e)" "user s3 = user s2" "sys_results s3 = sys_results s2" "act_inv s3"
      "\<forall>h. GetSocketByHandle s3 h = GetSocketByHandle s2 h" by blast
    have c3: "con_at s3 x = (if x = d then Some k2 else con_at s x)" for x
      using w3(2) by (simp add: con_at_def) (simp add: s2_def s1_def con_at_def [symmetric])
    have u3: "bst (user s3) = ?st" "app (user s3) = app (user s)" "wire_in (user s3) = wire_in (user s)"
      using w3(2) by (simp_all add: s2_def s1_def)
    have "post_send d False s2 = Some (s3, -1, e)"
      using w3(1) c3 by (simp add: post_send_def writev_data_def s2_def)
    then have run: "connection_send d (Some (w, f)) s = Some (s3, Some (-1))"
      using p False pr c1 unfolding s2_def by (simp add: connection_send_def)
    moreover have "same_recv k k2" using sr by (simp add: k2_def k1_def)
    moreover have "same_net s s3" using w3(3,5) u3(3) by (simp add: same_net_def s2_def s1_def)
    ultimately show ?thesis using c3 u3 w3(4) by (intro exI [of _ s3] exI [of _ "Some (-1)"] exI [of _ k2]) (simp add: k2_def k1_def)
  qed
qed

section \<open>The packet handler meets its contract\<close>

lemma pkt_same_bytes:
  assumes "pkt st r f" "rc_inv st' R" "same_bytes st st'" "cells st' (rbuf r) \<noteq> None"
  shows "pkt st' r f"
proof -
  obtain c' where c': "cells st' (rbuf r) = Some c'" using assms(4) by blast
  obtain us rest where us: "chain (bnexts st) (rbuf r) us NULL" "drop (unat (rbegin_pos r)) (contents st us) = f @ rest"
    using assms(1) by (auto simp: pkt_def)
  have "chain (bnexts st') (rbuf r) us NULL" "contents st' us = contents st us"
    using same_bytes_live [OF assms(2,3) c' us(1)] by auto
  then show ?thesis using assms(1) us(2) c' same_bytes_cell [OF assms(3) c'] unfolding pkt_def by fastforce
qed

lemma create_by_rpacket_law:
  assumes p: "pkt st r f" and inv: "rc_inv st R" and few: "few_refs st n" "size R \<le> n"
  shows "\<exists>st' w us. wpacket_create_by_rpacket st r = Some (st', w) \<and> rc_inv st' (add_mset (rbuf r) R) \<and> same_bytes st st' \<and>
    fresh st' = fresh st \<and> quota st' = quota st \<and> dom (cells st') = dom (cells st) \<and> holds st' w us f \<and> wroots w = {#rbuf r#} \<and> pkt st' r f"
proof -
  obtain c us rest where c: "cells st (rbuf r) = Some c" "rbegin_pos r \<le> bsize c" "chain (bnexts st) (rbuf r) us NULL"
    "drop (unat (rbegin_pos r)) (contents st us) = f @ rest" using p by (auto simp: pkt_def)
  have r: "rraw r = 0" "unat (rlen r) + 4 = length f" "length f < 2 ^ 32" using p by (auto simp: pkt_def)
  have "refcount c < INT32_MAX" by (rule few_refs_refcount [OF inv few(1) c(1) few(2)])
  then obtain st' where s': "buffer_acquire st NULL (rbuf r) = Some (st', rbuf r)" "rc_inv st' (add_mset (rbuf r) R)"
    "st' = put_buf st (rbuf r) (c\<lparr>refcount := refcount c + 1\<rparr>)" using buffer_acquire_inv [OF inv c(1)] by blast
  define w where "w = \<lparr>wlen = NULL, wbuf = rbuf r, writebuf = NULL, wpos = 0, factor = 0, wbegin_pos = rbegin_pos r,
    data_size = rlen r + 4, wraw = rraw r, wmt = rmt r\<rparr>"
  have run: "wpacket_create_by_rpacket st r = Some (st', w)" using s'(1) r(1) by (simp add: wpacket_create_by_rpacket_def w_def)
  have sb: "same_bytes st st'" unfolding s'(3) by (rule same_bytes_put [OF c(1)])
  have c': "cells st' (rbuf r) = Some (c\<lparr>refcount := refcount c + 1\<rparr>)" by (simp add: s'(3))
  have ch: "chain (bnexts st') (rbuf r) us NULL" "contents st' us = contents st us" using same_bytes_live [OF s'(2) sb c' c(3)] by auto
  have ds: "unat (rlen r + 4) = length f" using r(2,3) by (simp add: unat_word_ariths)
  have "f \<noteq> []" using r(2) by auto
  then have "holds st' w us f" using ch c(2,4) c' ds by (simp add: holds_def w_def)
  moreover have "wroots w = {#rbuf r#}" by (simp add: wroots_def w_def)
  moreover have "pkt st' r f" by (rule pkt_same_bytes [OF p s'(2) sb]) (simp add: c')
  moreover have "dom (cells st') = dom (cells st)" "fresh st' = fresh st" "quota st' = quota st"
    using c(1) by (auto simp: s'(3) put_buf_def set_cell_def)
  ultimately show ?thesis using run s'(2) sb by blast
qed

lemma rpacket_destroy_law:
  assumes "rc_inv st (rroots r + R)"
  shows "\<exists>st'. rpacket_destroy st r = Some st' \<and> rc_inv st' R \<and> same_bytes st st' \<and> fresh st' = fresh st \<and> quota st' = quota st"
proof -
  let ?B = "if binbuf r = NULL then {#} else {#binbuf r#}"
  have "rc_inv st (add_mset (rbuf r) (add_mset (readbuf r) (?B + R)))" using assms by (simp add: rroots_def)
  then obtain st1 where s1: "buffer_release st (rbuf r) = Some st1" "rc_inv st1 (add_mset (readbuf r) (?B + R))"
    "same_bytes st st1" "fresh st1 = fresh st" "quota st1 = quota st" using buffer_release_inv by blast
  obtain st2 where s2: "buffer_release st1 (readbuf r) = Some st2" "rc_inv st2 (?B + R)" "same_bytes st1 st2"
    "fresh st2 = fresh st1" "quota st2 = quota st1" using buffer_release_inv [OF s1(2)] by blast
  have sb: "same_bytes st st2" by (rule same_bytes_trans [OF s1(3) s2(3)])
  show ?thesis
  proof (cases "binbuf r = NULL")
    case True
    then show ?thesis using s1 s2 sb by (simp add: rpacket_destroy_def)
  next
    case False
    then have "rc_inv st2 (add_mset (binbuf r) R)" using s2(2) by simp
    then obtain st3 where "buffer_release st2 (binbuf r) = Some st3" "rc_inv st3 R" "same_bytes st2 st3" "fresh st3 = fresh st2"
      "quota st3 = quota st2" using buffer_release_inv by blast
    then show ?thesis using s1 s2 same_bytes_trans [OF sb] by (simp add: rpacket_destroy_def)
  qed
qed

text \<open>
  \<open>cl\<close> lists the connections of the process, \<open>c\<close> is the one that receives, \<open>d\<close> a client whose queue is
  observed.
\<close>

definition live_roots :: "connection \<Rightarrow> addr multiset" where
  "live_roots k = filter_mset (\<lambda>a. a \<noteq> NULL) (rx_roots k)"

definition the_con :: "'u csys \<Rightarrow> addr \<Rightarrow> connection" where
  "the_con s d = the (con_at s d)"

definition server_owners :: "addr list \<Rightarrow> addr \<Rightarrow> 'u csys \<Rightarrow> addr multiset" where
  "server_owners cl c s = (\<Sum>d\<leftarrow>cl. send_roots (send_list (the_con s d)) + (if d = c then {#} else live_roots (the_con s d)))"

definition queue_frames :: "'u csys \<Rightarrow> addr \<Rightarrow> byte list list" where
  "queue_frames s d = map (\<lambda>(w, f). packet_bytes (bst (user s)) w) (send_list (the_con s d))"

definition server_good :: "addr list \<Rightarrow> addr \<Rightarrow> addr \<Rightarrow> ssys \<Rightarrow> bool" where
  "server_good cl c d s \<longleftrightarrow> act_inv s \<and> distinct cl \<and> c \<in> set cl \<and> d \<in> set cl \<and> NULL \<notin> set cl \<and>
     length (clients (app (user s))) = MAX_CLIENT \<and> set (clients (app (user s))) \<subseteq> insert NULL (set cl) \<and>
     count_list (clients (app (user s))) d = 1 \<and>
     (\<forall>x \<in> set cl. con_at s x \<noteq> None \<and> queue_ok (bst (user s)) (the_con s x))"

lemma sum_list_update:
  fixes f g :: "'a \<Rightarrow> 'b multiset"
  assumes "distinct xs" "d \<in> set xs" "g d = f d + e" "\<And>x. x \<in> set xs \<Longrightarrow> x \<noteq> d \<Longrightarrow> g x = f x"
  shows "(\<Sum>x\<leftarrow>xs. g x) = (\<Sum>x\<leftarrow>xs. f x) + e"
proof -
  obtain ys zs where xs: "xs = ys @ d # zs" "d \<notin> set ys" "d \<notin> set zs"
    using assms(1,2) by (metis distinct.simps(2) distinct_append in_set_conv_decomp not_distinct_conv_prefix split_list)
  then have m: "map g ys = map f ys" "map g zs = map f zs" using assms(4) by auto
  show ?thesis unfolding xs(1) map_append list.map sum_list_append sum_list.Cons m assms(3) by (simp add: ac_simps)
qed

lemma server_goodD:
  assumes "server_good cl c d s"
  shows "act_inv s" "distinct cl" "c \<in> set cl" "d \<in> set cl" "NULL \<notin> set cl" "length (clients (app (user s))) = MAX_CLIENT"
    "set (clients (app (user s))) \<subseteq> insert NULL (set cl)" "count_list (clients (app (user s))) d = 1"
    "x \<in> set cl \<Longrightarrow> con_at s x = Some (the_con s x)" "x \<in> set cl \<Longrightarrow> queue_ok (bst (user s)) (the_con s x)"
  using assms by (auto simp: server_good_def the_con_def)

lemma owner_of_queue:
  assumes "x \<in> set cl" "(w, f) \<in> set (send_list (the_con s x))"
  shows "wbuf w \<in># server_owners cl c s"
proof -
  obtain ys zs where "cl = ys @ x # zs" using assms(1) by (meson split_list)
  then show ?thesis using wbuf_root [OF assms(2)] by (simp add: server_owners_def)
qed

text \<open>Queues survive every change that keeps what they hold readable.\<close>

lemma queues_ext:
  assumes g: "\<And>x. x \<in> set cl \<Longrightarrow> queue_ok st (the_con s x)" and e: "ext st st'" and inv: "rc_inv st P" "rc_inv st' Q"
    and o: "server_owners cl c s \<subseteq># Q" and x: "x \<in> set cl"
  shows "queue_ok st' (the_con s x)"
    "map (\<lambda>(w, f). packet_bytes st' w) (send_list (the_con s x)) = map (\<lambda>(w, f). packet_bytes st w) (send_list (the_con s x))"
proof -
  have "\<exists>us us' ds. holds st w us ds \<and> holds st' w us' ds" if w: "(w, f) \<in> set (send_list (the_con s x))" for w f
  proof -
    obtain us ds where h: "holds st w us ds" using g [OF x] w by (auto simp: queue_ok_def)
    have "cells st' (wbuf w) \<noteq> None"
      using rc_invD(5) [OF inv(2)] mset_subset_eqD [OF o owner_of_queue [OF x w]] by blast
    then show ?thesis using holds_ext [OF h e inv(1)] h by blast
  qed
  then show "queue_ok st' (the_con s x)"
    "map (\<lambda>(w, f). packet_bytes st' w) (send_list (the_con s x)) = map (\<lambda>(w, f). packet_bytes st w) (send_list (the_con s x))"
    using holds_bytes [OF _ inv(1)] holds_bytes [OF _ inv(2)] by (fastforce simp: queue_ok_def, fastforce)
qed

lemma server_frame:
  assumes g: "server_good cl c d s" and step: "recv_step c s s'" and inv: "rc_inv (bst (user s)) P" "rc_inv (bst (user s')) Q"
    and o: "server_owners cl c s \<subseteq># Q"
  shows "server_good cl c d s' \<and> server_owners cl c s' = server_owners cl c s \<and> queue_frames s' d = queue_frames s d"
proof -
  note g' = server_goodD [OF g]
  obtain k k' where k: "con_at s c = Some k" "con_at s' c = Some k'" "same_send k k'" using step by (auto simp: recv_step_def)
  have sl: "send_list (the_con s' x) = send_list (the_con s x)" for x
    using k step by (cases "x = c") (auto simp: the_con_def recv_step_def same_send_def)
  have ot: "x \<noteq> c \<Longrightarrow> con_at s' x = con_at s x" for x using step by (auto simp: recv_step_def)
  have ow: "server_owners cl c s' = server_owners cl c s"
    unfolding server_owners_def sl using ot by (intro arg_cong [of _ _ sum_list] map_cong) (auto simp: the_con_def)
  have e: "ext (bst (user s)) (bst (user s'))" using step by (simp add: recv_step_def)
  have q: "queue_ok (bst (user s')) (the_con s x)"
    "map (\<lambda>(w, f). packet_bytes (bst (user s')) w) (send_list (the_con s x)) = map (\<lambda>(w, f). packet_bytes (bst (user s)) w) (send_list (the_con s x))"
    if "x \<in> set cl" for x
    using queues_ext [OF g'(10) e inv o that] by auto
  have "queue_ok (bst (user s')) (the_con s' x)" "con_at s' x \<noteq> None" if "x \<in> set cl" for x
    using q(1) [OF that] sl g'(9) [OF that] ot k(2) by (auto simp: queue_ok_def, cases "x = c", auto)
  then have "server_good cl c d s'" using g' step by (auto simp: server_good_def recv_step_def)
  then show ?thesis using ow q(2) [OF g'(4)] sl by (simp add: queue_frames_def)
qed

lemma same_recv_simps: "same_recv k k' \<Longrightarrow> rx_roots k' = rx_roots k" "same_recv k k' \<Longrightarrow> live_roots k' = live_roots k" "same_recv k k"
  by (auto simp: same_recv_def rx_roots_def live_roots_def intro!: exI [of _ "send_list k"] exI [of _ "send_used k"] exI [of _ "wsendbuf k"])

lemma same_recv_trans: "same_recv a b \<Longrightarrow> same_recv b c \<Longrightarrow> same_recv a c"
  by (auto simp: same_recv_def) blast

lemma upd_app_simps [simp]:
  "con_at (upd_app s f) x = con_at s x" "bst (user (upd_app s f)) = bst (user s)" "app (user (upd_app s f)) = f (app (user s))"
  "act_inv (upd_app s f) = act_inv s" "same_net s' (upd_app s f) = same_net s' s"
  by (simp_all add: upd_app_def con_at_def same_net_def)

definition handling :: "addr list \<Rightarrow> addr \<Rightarrow> addr \<Rightarrow> rpacket \<Rightarrow> byte list \<Rightarrow> connection \<Rightarrow> nat \<Rightarrow> ssys \<Rightarrow> bool" where
  "handling cl c d r f k n s \<longleftrightarrow> server_good cl c d s \<and> same_recv k (the_con s c) \<and>
     rc_inv (bst (user s)) (rroots r + (rx_roots k + server_owners cl c s)) \<and> pkt (bst (user s)) r f \<and>
     few_refs (bst (user s)) (size (server_owners cl c s) + 4 + n)"

lemma broadcast_step:
  assumes h: "handling cl c d r f k (Suc n) s" and x: "x \<in> set cl"
  shows "\<exists>st w s' ret. wpacket_create_by_rpacket (bst (user s)) r = Some (st, w) \<and>
    connection_send x (Some (w, 0)) (upd_app (put_bst s st) (\<lambda>a. a\<lparr>send_request := send_request a + 1\<rparr>)) = Some (s', ret) \<and>
    handling cl c d r f k n s' \<and> same_bytes (bst (user s)) (bst (user s')) \<and> fresh (bst (user s')) = fresh (bst (user s)) \<and>
    quota (bst (user s')) = quota (bst (user s)) \<and> size (server_owners cl c s') = Suc (size (server_owners cl c s)) \<and>
    same_net s s' \<and> clients (app (user s')) = clients (app (user s)) \<and>
    queue_frames s' d = queue_frames s d @ (if x = d then [f] else [])"
proof -
  let ?st = "bst (user s)" and ?O = "server_owners cl c s"
  have g: "server_good cl c d s" and sr: "same_recv k (the_con s c)" and inv: "rc_inv ?st (rroots r + (rx_roots k + ?O))"
    and p: "pkt ?st r f" and few: "few_refs ?st (size ?O + 4 + Suc n)" using h by (auto simp: handling_def)
  note g' = server_goodD [OF g]
  have sz: "size (rroots r + (rx_roots k + ?O)) \<le> size ?O + 4 + Suc n" using p by (simp add: rroots_def rx_roots_def pkt_def)
  obtain st w us where c: "wpacket_create_by_rpacket ?st r = Some (st, w)" "rc_inv st (add_mset (rbuf r) (rroots r + (rx_roots k + ?O)))"
    "same_bytes ?st st" "fresh st = fresh ?st" "quota st = quota ?st" "dom (cells st) = dom (cells ?st)" "holds st w us f" "wroots w = {#rbuf r#}"
    "pkt st r f" using create_by_rpacket_law [OF p inv few sz] by blast
  define s1 where "s1 = upd_app (put_bst s st) (\<lambda>a. a\<lparr>send_request := send_request a + 1\<rparr>)"
  have s1: "con_at s1 y = con_at s y" "the_con s1 y = the_con s y" "bst (user s1) = st" "act_inv s1"
    "clients (app (user s1)) = clients (app (user s))" "same_net s s1" for y
    using g'(1) same_netI by (simp_all add: s1_def the_con_def)
  have ob: "?O \<subseteq># add_mset (rbuf r) (rroots r + (rx_roots k + ?O))" by (simp add: subset_mset.le_iff_add)
  have q: "queue_ok st (the_con s y)"
    "map (\<lambda>(w, f). packet_bytes st w) (send_list (the_con s y)) = map (\<lambda>(w, f). packet_bytes ?st w) (send_list (the_con s y))"
    if "y \<in> set cl" for y
    using queues_ext [OF g'(10) ext_same_bytes [OF c(2-4)] inv c(2) ob that] by blast+
  obtain s' ret k' where s': "connection_send x (Some (w, 0)) s1 = Some (s', ret)" "con_at s' x = Some k'"
    "send_list k' = send_list (the_con s x) @ [(w, 0)]" "same_recv (the_con s x) k'" "act_inv s'" "same_net s1 s'"
    "bst (user s') = st" "app (user s') = app (user s1)" "\<forall>e. e \<noteq> x \<longrightarrow> con_at s' e = con_at s1 e"
    using connection_send_law [of s1 x "the_con s x", OF _ _ s1(4), unfolded s1(1,3), OF g'(9) [OF x] c(2) q(1) [OF x] c(7), of 0]
    unfolding s1(1) by blast
  have tc: "the_con s' y = (if y = x then k' else the_con s y)" for y using s'(2,9) s1(1) by (simp add: the_con_def)
  have O': "server_owners cl c s' = ?O + {#rbuf r#}"
    unfolding server_owners_def
    by (rule sum_list_update [OF g'(2) x]) (use s'(3,4) c(8) same_recv_simps(2) in \<open>auto simp: tc ac_simps\<close>)
  have qk: "queue_ok st (the_con s' y) \<and> con_at s' y \<noteq> None" if "y \<in> set cl" for y
  proof (cases "y = x")
    case True
    then show ?thesis using q(1) [OF x] s'(2,3) c(7) by (auto simp: queue_ok_def tc)
  next
    case False
    then show ?thesis using q(1) [OF that] g'(9) [OF that] s'(9) s1(1) by (auto simp: tc)
  qed
  have gd: "server_good cl c d s'" unfolding server_good_def s'(7,8) s1(5) using g' s'(5) qk by auto
  have "same_recv k (the_con s' c)" using sr same_recv_trans s'(4) by (cases "c = x") (auto simp: tc)
  moreover have "rc_inv st (rroots r + (rx_roots k + server_owners cl c s'))" using c(2) by (simp add: O' ac_simps)
  moreover have "few_refs st (size (server_owners cl c s') + 4 + n)" using few c(6) by (simp add: O' few_refs_def)
  ultimately have hd': "handling cl c d r f k n s'" using gd c(9) s'(7) by (simp add: handling_def)
  have "queue_frames s' d = queue_frames s d @ (if x = d then [f] else [])"
    using q(2) [OF g'(4)] holds_bytes [OF c(7,2)] s'(3,7) by (auto simp: queue_frames_def tc)
  then show ?thesis
    using c(1,3-5) s'(1) [unfolded s1_def] s'(7,8) hd' O' s1(5) same_net_trans [OF s1(6) s'(6)]
    by (intro exI [of _ st] exI [of _ w] exI [of _ s'] exI [of _ ret]) simp
qed

lemma send2_loop_law:
  assumes "handling cl c d r f k (length is) s" "set is \<subseteq> {..<MAX_CLIENT}"
  shows "\<exists>s'. send2_loop r is s = Some s' \<and> handling cl c d r f k 0 s' \<and> same_bytes (bst (user s)) (bst (user s')) \<and>
    fresh (bst (user s')) = fresh (bst (user s)) \<and> quota (bst (user s')) = quota (bst (user s)) \<and>
    size (server_owners cl c s') \<le> size (server_owners cl c s) + length is \<and> same_net s s' \<and>
    queue_frames s' d = queue_frames s d @ replicate (length (filter (\<lambda>i. clients (app (user s)) ! i = d) is)) f"
  using assms
proof (induction "is" arbitrary: s)
  case Nil
  then show ?case by (simp add: same_netI)
next
  case (Cons i js)
  let ?x = "clients (app (user s)) ! i"
  have g: "server_good cl c d s" using Cons.prems(1) by (simp add: handling_def)
  note g' = server_goodD [OF g]
  have "?x \<in> set (clients (app (user s)))" using g'(6) Cons.prems(2) by (intro nth_mem) simp
  then have i: "?x \<in> insert NULL (set cl)" using g'(7) by blast
  show ?case
  proof (cases "?x = NULL")
    case True
    have "handling cl c d r f k (length js) s"
      using Cons.prems(1) few_refs_less [of "bst (user s)" "size (server_owners cl c s) + 4 + length (i # js)" "size (server_owners cl c s) + 4 + length js"]
      by (simp add: handling_def)
    from Cons.IH [OF this] Cons.prems(2) obtain s' where s': "send2_loop r js s = Some s'" "handling cl c d r f k 0 s'"
      "same_bytes (bst (user s)) (bst (user s'))" "fresh (bst (user s')) = fresh (bst (user s))" "quota (bst (user s')) = quota (bst (user s))"
      "size (server_owners cl c s') \<le> size (server_owners cl c s) + length js" "same_net s s'"
      "queue_frames s' d = queue_frames s d @ replicate (length (filter (\<lambda>i. clients (app (user s)) ! i = d) js)) f" by auto
    have "d \<noteq> NULL" using g'(4,5) by metis
    then show ?thesis using s' True by auto
  next
    case False
    then have x: "?x \<in> set cl" using i by simp
    from Cons.prems(1) have "handling cl c d r f k (Suc (length js)) s" by simp
    from broadcast_step [OF this x] obtain st w s1 ret where s1: "wpacket_create_by_rpacket (bst (user s)) r = Some (st, w)"
      "connection_send ?x (Some (w, 0)) (upd_app (put_bst s st) (\<lambda>a. a\<lparr>send_request := send_request a + 1\<rparr>)) = Some (s1, ret)"
      "handling cl c d r f k (length js) s1" "same_bytes (bst (user s)) (bst (user s1))" "fresh (bst (user s1)) = fresh (bst (user s))"
      "quota (bst (user s1)) = quota (bst (user s))" "size (server_owners cl c s1) = Suc (size (server_owners cl c s))"
      "same_net s s1" "clients (app (user s1)) = clients (app (user s))"
      "queue_frames s1 d = queue_frames s d @ (if ?x = d then [f] else [])" by blast
    from Cons.IH [OF s1(3)] Cons.prems(2) obtain s' where s': "send2_loop r js s1 = Some s'" "handling cl c d r f k 0 s'"
      "same_bytes (bst (user s1)) (bst (user s'))" "fresh (bst (user s')) = fresh (bst (user s1))" "quota (bst (user s')) = quota (bst (user s1))"
      "size (server_owners cl c s') \<le> size (server_owners cl c s1) + length js" "same_net s1 s'"
      "queue_frames s' d = queue_frames s1 d @ replicate (length (filter (\<lambda>i. clients (app (user s1)) ! i = d) js)) f" by auto
    have "send2_loop r (i # js) s = Some s'" using False s1(1,2) s'(1) by (simp add: Let_def)
    moreover have "queue_frames s' d = queue_frames s d @ replicate (length (filter (\<lambda>i. clients (app (user s)) ! i = d) (i # js))) f"
      using s'(8) s1(9,10) by auto
    ultimately show ?thesis
      using s'(2,4,5,6) s1(5-7) same_bytes_trans [OF s1(4) s'(3)] same_net_trans [OF s1(8) s'(7)] by (intro exI [of _ s']) simp
  qed
qed

lemma count_client_slots: "length xs = n \<Longrightarrow> length (filter (\<lambda>i. xs ! i = d) [0..<n]) = count_list xs d"
proof (induction n arbitrary: xs)
  case 0
  then show ?case by simp
next
  case (Suc n)
  then obtain ys y where xs: "xs = ys @ [y]" "length ys = n" by (metis length_Suc_conv_rev)
  have "filter (\<lambda>i. (ys @ [y]) ! i = d) [0..<n] = filter (\<lambda>i. ys ! i = d) [0..<n]"
    using xs(2) by (intro filter_cong) (auto simp: nth_append)
  then show ?case using Suc.IH [OF xs(2)] xs by (simp add: nth_append)
qed

lemma server_handle:
  assumes g: "server_good cl c d s" and k: "con_at s c = Some k"
    and inv: "rc_inv (bst (user s)) (rroots r + (rx_roots k + server_owners cl c s))"
    and few: "few_refs (bst (user s)) (size (server_owners cl c s) + 4 + MAX_CLIENT)" and p: "pkt (bst (user s)) r f"
  shows "\<exists>s' k'. process_packet server_handlers c r s = Some s' \<and> server_good cl c d s' \<and> con_at s' c = Some k' \<and> same_recv k k' \<and>
    rc_inv (bst (user s')) (rx_roots k + server_owners cl c s') \<and> same_bytes (bst (user s)) (bst (user s')) \<and>
    fresh (bst (user s')) = fresh (bst (user s)) \<and> quota (bst (user s')) = quota (bst (user s)) \<and>
    size (server_owners cl c s') \<le> size (server_owners cl c s) + MAX_CLIENT \<and> same_net s s' \<and>
    queue_frames s' d = queue_frames s d @ [f]"
proof -
  have "handling cl c d r f k (length [0..<MAX_CLIENT]) s"
    using g k inv few p same_recv_simps(3) by (simp add: handling_def the_con_def)
  moreover have "set [0..<MAX_CLIENT] \<subseteq> {..<MAX_CLIENT}" unfolding set_upt by fastforce
  ultimately obtain s1 where s1: "send2_loop r [0..<MAX_CLIENT] s = Some s1" "handling cl c d r f k 0 s1"
    "same_bytes (bst (user s)) (bst (user s1))" "fresh (bst (user s1)) = fresh (bst (user s))" "quota (bst (user s1)) = quota (bst (user s))"
    "size (server_owners cl c s1) \<le> size (server_owners cl c s) + MAX_CLIENT" "same_net s s1"
    "queue_frames s1 d = queue_frames s d @ replicate (length (filter (\<lambda>i. clients (app (user s)) ! i = d) [0..<MAX_CLIENT])) f"
    using send2_loop_law [of cl c d r f k "[0..<MAX_CLIENT]" s] unfolding length_upt by auto
  have fr: "queue_frames s1 d = queue_frames s d @ [f]"
    using s1(8) count_client_slots [OF server_goodD(6) [OF g], of d] server_goodD(8) [OF g] by simp
  have h1: "server_good cl c d s1" "same_recv k (the_con s1 c)" "rc_inv (bst (user s1)) (rroots r + (rx_roots k + server_owners cl c s1))"
    using s1(2) by (auto simp: handling_def)
  obtain st where st: "rpacket_destroy (bst (user s1)) r = Some st" "rc_inv st (rx_roots k + server_owners cl c s1)"
    "same_bytes (bst (user s1)) st" "fresh st = fresh (bst (user s1))" "quota st = quota (bst (user s1))"
    using rpacket_destroy_law [OF h1(3)] by blast
  define s2 where "s2 = upd_app (put_bst s1 st) (\<lambda>a. a\<lparr>send_request := send_request a + 1, packet_recv := packet_recv a + 1\<rparr>)"
  have run: "process_packet server_handlers c r s = Some s2"
    using s1(1) st(1) by (simp add: server_handlers_def on_process_packet_def send2_all_client_def s2_def)
  have s2: "con_at s2 x = con_at s1 x" "the_con s2 x = the_con s1 x" "bst (user s2) = st" "clients (app (user s2)) = clients (app (user s1))"
    "act_inv s2 = act_inv s1" "same_net s1 s2" for x
    using same_netI by (simp_all add: s2_def the_con_def)
  have ob: "server_owners cl c s1 \<subseteq># rx_roots k + server_owners cl c s1" by simp
  note g1 = server_goodD [OF h1(1)]
  have q: "queue_ok st (the_con s1 y)"
    "map (\<lambda>(w, f). packet_bytes st w) (send_list (the_con s1 y)) = map (\<lambda>(w, f). packet_bytes (bst (user s1)) w) (send_list (the_con s1 y))"
    if "y \<in> set cl" for y
    using queues_ext [OF g1(10) ext_same_bytes [OF st(2-4)] h1(3) st(2) ob that] by blast+
  have O2: "server_owners cl c s2 = server_owners cl c s1" unfolding server_owners_def s2(2) by (rule refl)
  have "server_good cl c d s2" using h1(1) q(1) by (simp add: server_good_def s2)
  moreover have "queue_frames s2 d = queue_frames s d @ [f]" using fr q(2) [OF g1(4)] by (simp add: queue_frames_def s2)
  moreover have "con_at s2 c = Some (the_con s1 c)" using s2(1) g1(9) [OF g1(3)] by simp
  ultimately show ?thesis
    using run h1(2) st(2-5) s1(3-7) s2(3) O2 same_bytes_trans [OF s1(3) st(3)] same_net_trans [OF s1(7) s2(6)]
    by (intro exI [of _ s2] exI [of _ "the_con s1 c"]) simp
qed

interpretation srv: packet_handler server_handlers c "server_good cl c d" "server_owners cl c" "\<lambda>s. queue_frames s d" MAX_CLIENT
  for cl c d
proof unfold_locales
  show "\<exists>s' k'. process_packet server_handlers c r s = Some s' \<and> server_good cl c d s' \<and> con_at s' c = Some k' \<and> same_recv k k' \<and>
      rc_inv (bst (user s')) (rx_roots k + server_owners cl c s') \<and> same_bytes (bst (user s)) (bst (user s')) \<and>
      fresh (bst (user s')) = fresh (bst (user s)) \<and> quota (bst (user s')) = quota (bst (user s)) \<and>
      size (server_owners cl c s') \<le> size (server_owners cl c s) + MAX_CLIENT \<and> same_net s s' \<and> queue_frames s' d = queue_frames s d @ [f]"
    if "server_good cl c d s" "con_at s c = Some k" "rc_inv (bst (user s)) (rroots r + (rx_roots k + server_owners cl c s))"
      "few_refs (bst (user s)) (size (server_owners cl c s) + 4 + MAX_CLIENT)" "pkt (bst (user s)) r f" for s k r f
    by (rule server_handle [OF that])
  show "server_good cl c d s' \<and> server_owners cl c s' = server_owners cl c s \<and> queue_frames s' d = queue_frames s d"
    if "server_good cl c d s" "recv_step c s s'" "rc_inv (bst (user s)) P" "server_owners cl c s \<subseteq># P"
      "rc_inv (bst (user s')) Q" "server_owners cl c s \<subseteq># Q" for s s' P Q
    by (rule server_frame [OF that(1-3,5,6)])
qed

end
