(* ===== verification/ConnectionProps.thy ===== *)
theory ConnectionProps
  imports Server
begin

text \<open>
  The properties of connections: receiving and broadcasting a stream, sending a queue, the bounds of a
  receive request, and three ways in which the code goes wrong.
\<close>

section \<open>Receiving\<close>

text \<open>
  Claim C2. The server distributes exactly the packets of the stream. A connection waits with the bytes
  \<open>p\<close> of an incomplete packet; the socket delivers further bytes in pieces of any size up to the 64 KB
  that a request describes. Then the callback returns, the send queue of every client has grown by
  exactly the complete frames of the stream, byte for byte and in order, and the connection waits again
  with the rest; reference counts stay exact. In particular a stream of packets with non-empty
  payload arrives as these packets, however it was cut. The stream must not contain a length field of
  \<open>2 ^ 32 - 4\<close> or more and there must be memory for the blocks.
\<close>

theorem server_broadcasts_frames:
  assumes "server_good cl c d s" "receiving c (server_owners cl c s) s k as cs p" "posted k cs"
    and "sys_results s = map (\<lambda>m. (int m, 0)) ns" "\<forall>m \<in> set (n # ns). 0 < m \<and> m \<le> 65536"
    and "sum_list (n # ns) \<le> length (wire_in (user s) c)" "GetSocketByHandle s (c_socket k) \<noteq> None"
    and "length p + sum_list (n # ns) < 2 ^ 32" "sane (p @ take (sum_list (n # ns)) (wire_in (user s) c))"
    and "sum_list (n # ns) < spare (bst (user s)) cs"
    and "few_refs (bst (user s)) (size (server_owners cl c s) + 4 + MAX_CLIENT * (1 + length p + sum_list (n # ns)) + quota (bst (user s)))"
  shows "\<exists>s' k' as' cs'. conn_callback server_handlers i True (int n) (2 * c) s = Some s' \<and> server_good cl c d s' \<and>
    receiving c (server_owners cl c s') s' k' as' cs' (snd (frames (p @ take (sum_list (n # ns)) (wire_in (user s) c)))) \<and>
    posted k' cs' \<and> wire_in (user s') c = drop (sum_list (n # ns)) (wire_in (user s) c) \<and>
    queue_frames s' d = queue_frames s d @ fst (frames (p @ take (sum_list (n # ns)) (wire_in (user s) c))) \<and>
    (\<forall>ps. p @ take (sum_list (n # ns)) (wire_in (user s) c) = concat (map frame ps) \<longrightarrow> (\<forall>q \<in> set ps. q \<noteq> [] \<and> length q + 4 < 2 ^ 32) \<longrightarrow>
       queue_frames s' d = queue_frames s d @ map frame ps \<and> unpack_size k' = 0)"
proof -
  from srv.receive_law [OF assms, of i] obtain s' k' as' cs' where
    r: "conn_callback server_handlers i True (int n) (2 * c) s = Some s'" "server_good cl c d s'"
    "receiving c (server_owners cl c s') s' k' as' cs' (snd (frames (p @ take (sum_list (n # ns)) (wire_in (user s) c))))"
    "posted k' cs'" "queue_frames s' d = queue_frames s d @ fst (frames (p @ take (sum_list (n # ns)) (wire_in (user s) c)))"
    "wire_in (user s') c = drop (sum_list (n # ns)) (wire_in (user s) c)" by blast
  have "unat (unpack_size k') = length (snd (frames (p @ take (sum_list (n # ns)) (wire_in (user s) c))))"
    using r(3) by (simp add: receiving_def)
  then have "queue_frames s' d = queue_frames s d @ map frame ps \<and> unpack_size k' = 0"
    if "p @ take (sum_list (n # ns)) (wire_in (user s) c) = concat (map frame ps)" "\<forall>q \<in> set ps. q \<noteq> [] \<and> length q + 4 < 2 ^ 32" for ps
    using r(5) frames_of_frames(1) [OF that(2)] unfolding that(1) by (simp add: unat_eq_zero)
  then show ?thesis using r by blast
qed

definition conn_store :: bstore where
  "conn_store = put_buf (grown (empty_store 100) 0 BUFFER_SIZE) 1 ((new_buffer 0 BUFFER_SIZE)\<lparr>refcount := 2\<rparr>)"

definition conn_sample :: connection where
  "conn_sample = \<lparr>c_socket = 0, wsendbuf = [], wrecvbuf = [\<lparr>iov_base = (1, 0), iov_len = BUFFER_SIZE\<rparr>], send_used = False,
     recv_used = True, unpack_size = 0, unpack_pos = 0, next_recv_pos = 0, next_recv_buf = 1, unpack_buf = 1, send_list = [],
     c_mt = 0, c_raw = 0, is_close = 0\<rparr>"

definition server_sample :: ssys where
  "server_sample = \<lparr>socket_pool = [sock_junk\<lparr>sstatus := True\<rparr>], engine_pool = [], io_err = (\<lambda>_. 0), sys_results = [], epoll_results = [],
     clock = [], user = \<lparr>bst = conn_store, conns = [2 \<mapsto> conn_sample], wire_in = (\<lambda>_. [1, 0, 0, 0, 7]), wire_out = (\<lambda>_. []),
       packet_send = 0, app = \<lparr>clients = 2 # replicate 999 0, packet_recv = 0, send_request = 0\<rparr>\<rparr>\<rparr>"

lemma conn_store_inv: "rc_inv conn_store {#1, 1#}"
proof -
  let ?g = "grown (empty_store 100) 0 BUFFER_SIZE"
  have f: "fresh (empty_store 100) = 1" by (simp add: empty_store_def)
  have "rc_inv ?g {#1#}" using grown_inv [OF rc_inv_empty_store, of 100 0 BUFFER_SIZE] f by simp
  moreover have "cells ?g 1 = Some (new_buffer 0 BUFFER_SIZE)" by (simp add: grown_def f)
  ultimately show ?thesis
    using buffer_acquire_inv [of ?g "{#1#}" 1 "new_buffer 0 BUFFER_SIZE"] by (auto simp: conn_store_def new_buffer_def)
qed

lemma conn_store_facts:
  "cells conn_store = [1 \<mapsto> (new_buffer 0 BUFFER_SIZE)\<lparr>refcount := 2\<rparr>]" "quota conn_store = 99"
  by (auto simp: conn_store_def grown_def empty_store_def put_buf_def set_cell_def)

lemma server_sample_ok:
  "server_good [2] 2 2 server_sample" "receiving 2 (server_owners [2] 2 server_sample) server_sample conn_sample [] [] []"
  "posted conn_sample []" "server_owners [2] 2 server_sample = {#}"
proof -
  have c: "con_at server_sample 2 = Some conn_sample" "the_con server_sample 2 = conn_sample"
    by (simp_all add: con_at_def server_sample_def the_con_def)
  show o: "server_owners [2] 2 server_sample = {#}" by (simp add: server_owners_def c conn_sample_def)
  have "rx conn_store conn_sample [] [] []"
    by (simp add: rx_def conn_sample_def block_def conn_store_facts new_buffer_def bnexts_def contents_Cons bytes_of_def)
  then show "receiving 2 (server_owners [2] 2 server_sample) server_sample conn_sample [] [] []"
    unfolding receiving_def o using c conn_store_inv by (simp add: conn_sample_def rx_roots_def server_sample_def)
  show "posted conn_sample []" by (simp add: posted_def conn_sample_def recv_vecs_def)
  have "act_inv server_sample" by (simp add: act_inv_def server_sample_def sock_junk_def)
  moreover have "count_list (2 # replicate 999 (0::nat)) 2 = 1" by (simp add: count_list_0_iff)
  ultimately show "server_good [2] 2 2 server_sample"
    unfolding server_good_def using c by (simp add: server_sample_def queue_ok_def conn_sample_def)
qed

lemma sample_frame: "sane [1, 0, 0, 0, 7]" "frame [7] = [1, 0, 0, 0, 7]"
proof -
  show "sane [1, 0, 0, 0, 7]" using sane_step [of "[1, 0, 0, 0, 7]" 5] by (simp add: sane_short)
  show "frame [7] = [1, 0, 0, 0, 7]" by code_simp
qed

theorem server_broadcasts_frames_witness:
  "\<exists>s'. conn_callback server_handlers 0 True 5 4 server_sample = Some s' \<and> queue_frames s' 2 = [[1, 0, 0, 0, 7]] \<and> wire_in (user s') 2 = []"
proof -
  have w: "wire_in (user server_sample) 2 = frame [7]" "bst (user server_sample) = conn_store" "sys_results server_sample = []"
    "queue_frames server_sample 2 = []"
    by (simp_all add: server_sample_def sample_frame(2) queue_frames_def the_con_def con_at_def conn_sample_def)
  have "\<exists>s' k' as' cs'. conn_callback server_handlers 0 True (int 5) (2 * 2) server_sample = Some s' \<and> server_good [2] 2 2 s' \<and>
    receiving 2 (server_owners [2] 2 s') s' k' as' cs' (snd (frames ([] @ take (sum_list [5]) (wire_in (user server_sample) 2)))) \<and>
    posted k' cs' \<and> wire_in (user s') 2 = drop (sum_list [5]) (wire_in (user server_sample) 2) \<and>
    queue_frames s' 2 = queue_frames server_sample 2 @ fst (frames ([] @ take (sum_list [5]) (wire_in (user server_sample) 2))) \<and>
    (\<forall>ps. [] @ take (sum_list [5]) (wire_in (user server_sample) 2) = concat (map frame ps) \<longrightarrow>
       (\<forall>q \<in> set ps. q \<noteq> [] \<and> length q + 4 < 2 ^ 32) \<longrightarrow>
       queue_frames s' 2 = queue_frames server_sample 2 @ map frame ps \<and> unpack_size k' = 0)"
  proof (rule server_broadcasts_frames [OF server_sample_ok(1,2,3)])
    show "few_refs (bst (user server_sample)) (size (server_owners [2] 2 server_sample) + 4 +
        MAX_CLIENT * (1 + length ([]::byte list) + sum_list [5]) + quota (bst (user server_sample)))"
      unfolding w server_sample_ok(4) by (simp add: few_refs_def conn_store_facts)
    show "GetSocketByHandle server_sample (c_socket conn_sample) \<noteq> None"
      by (simp add: GetSocketByHandle_def server_sample_def conn_sample_def)
  qed (simp_all add: w sample_frame spare_def conn_store_facts)
  then obtain s' where s': "conn_callback server_handlers 0 True 5 4 server_sample = Some s'" "wire_in (user s') 2 = []"
    "\<forall>ps. [] @ take (sum_list [5]) (frame [7]) = concat (map frame ps) \<longrightarrow> (\<forall>q \<in> set ps. q \<noteq> [] \<and> length q + 4 < 2 ^ 32) \<longrightarrow>
       queue_frames s' 2 = [] @ map frame ps"
    unfolding w by (auto simp: sample_frame)
  have "queue_frames s' 2 = [[1, 0, 0, 0, 7]]" using s'(3) [rule_format, of "[[7]]"] by (simp add: sample_frame(2))
  then show ?thesis using s' by blast
qed

text \<open>
  Claim C26. A receive request stays within its bounds: the loop of \<open>RecvFinish\<close> fills at most the two
  entries of \<open>wrecvbuf\<close>, they describe exactly 64 KB, every entry lies in free memory of a live buffer,
  behind the bytes it holds and within its capacity, and the stream itself is left as it is.
\<close>

theorem recv_request_bounds:
  assumes "receiving c R s k as cs p" "few_refs (bst (user s)) (n + quota (bst (user s)))" "0 < spare (bst (user s)) cs"
  shows "\<exists>st vs cs'. recv_iovecs (bst (user s)) (c_mt k) (next_recv_buf k) (next_recv_pos k) BUFFER_SIZE [] = Some (st, vs) \<and>
    length vs \<le> RECV_IOVECS \<and> (\<Sum>v\<leftarrow>vs. unat (iov_len v)) = 65536 \<and> rx st k as cs' p \<and> rc_inv st (rx_roots k + R) \<and>
    (\<forall>v \<in> set vs. \<exists>b. cells st (fst (iov_base v)) = Some b \<and> bsize b \<le> snd (iov_base v) \<and>
       unat (snd (iov_base v)) + unat (iov_len v) \<le> unat (capacity b))"
proof -
  have r: "rx (bst (user s)) k as cs p" "rc_inv (bst (user s)) (rx_roots k + R)" using assms(1) by (auto simp: receiving_def)
  obtain st cs1 where v: "recv_iovecs (bst (user s)) (c_mt k) (next_recv_buf k) (next_recv_pos k) BUFFER_SIZE [] = Some (st, recv_vecs k cs1)"
    "rx st k as cs1 p" "rc_inv st (rx_roots k + R)" "next_recv_pos k = 0 \<or> cs1 \<noteq> []"
    using recv_iovecs_law [OF r assms(2,3)] by blast
  have lt: "next_recv_pos k < BUFFER_SIZE" by (rule rxD(4) [OF r(1)])
  have u: "unat (BUFFER_SIZE - next_recv_pos k) = 65536 - unat (next_recv_pos k)" "unat (next_recv_pos k) < 65536"
    using unat_sub_le [OF less_imp_le [OF lt]] lt by (simp_all add: word_less_nat_alt)
  obtain b where b: "cells st (next_recv_buf k) = Some b" "capacity b = BUFFER_SIZE" "bsize b = next_recv_pos k"
    using rx_chain_next [OF v(2)] by blast
  have "\<exists>e. cells st (hd cs1) = Some e \<and> bsize e = 0 \<and> capacity e = BUFFER_SIZE" if "next_recv_pos k \<noteq> 0"
    using rxD(5) [OF v(2), of "hd cs1"] v(4) that by (auto simp: block_def)
  then have "\<forall>v \<in> set (recv_vecs k cs1). \<exists>b. cells st (fst (iov_base v)) = Some b \<and> bsize b \<le> snd (iov_base v) \<and>
      unat (snd (iov_base v)) + unat (iov_len v) \<le> unat (capacity b)"
    using b u by (auto simp: recv_vecs_def)
  moreover have "length (recv_vecs k cs1) \<le> RECV_IOVECS" by (simp add: recv_vecs_def)
  moreover have "(\<Sum>v\<leftarrow>recv_vecs k cs1. unat (iov_len v)) = 65536" using u by (simp add: recv_vecs_def)
  ultimately show ?thesis using v(1-3) by blast
qed

theorem recv_request_bounds_witness:
  "\<exists>st vs. recv_iovecs conn_store 0 1 0 BUFFER_SIZE [] = Some (st, vs) \<and> length vs \<le> 2 \<and> (\<Sum>v\<leftarrow>vs. unat (iov_len v)) = 65536"
proof -
  have "bst (user server_sample) = conn_store" "c_mt conn_sample = 0" "next_recv_buf conn_sample = 1" "next_recv_pos conn_sample = 0"
    by (simp_all add: server_sample_def conn_sample_def)
  moreover have "few_refs conn_store (0 + quota conn_store)" "0 < spare conn_store []" by (simp_all add: few_refs_def conn_store_facts spare_def)
  ultimately show ?thesis using recv_request_bounds [OF server_sample_ok(2), of 0] by auto
qed

section \<open>Sending\<close>

text \<open>
  Claim C4. Sending loses and reorders nothing: when a write of \<open>m\<close> bytes has completed, \<open>SendFinish\<close>
  offers what is left of the queue again and again, and whatever the sizes of the writes are, the bytes
  on the wire are the queue from its beginning, the queue is left with exactly the rest, finished packets
  are released, and the connection stops asking to write exactly when nothing is left. The
  pending request describes the beginning of the queue, and the packets span at most 1024 buffers.
\<close>

theorem connection_sends_queue:
  assumes sd: "sending c R s k dss n" "n \<le> MAX_WBAF" and v: "gather (bst (user s)) (wsendbuf k) = Some xs" "concat dss = xs @ ys"
    and m: "0 < m" "m \<le> length xs" and ns: "m + sum_list ns \<le> length (concat dss)" "length (concat dss) < 2 ^ 31"
    and sys: "sys_results s = map (\<lambda>m. (int m, 0)) ns" "\<forall>m \<in> set ns. 0 < m" and h: "GetSocketByHandle s (c_socket k) \<noteq> None"
  shows "\<exists>s' k' dss'. conn_callback hs i False (int m) (2 * c + 1) s = Some s' \<and> sending c R s' k' dss' n \<and>
    concat dss' = drop (m + sum_list ns) (concat dss) \<and>
    wire_out (user s') c = wire_out (user s) c @ take (m + sum_list ns) (concat dss) \<and> send_used k' = (send_used k \<and> dss' \<noteq> [])"
proof -
  have k: "con_at s c = Some k" using sd(1) by (simp add: sending_def)
  define s1 where "s1 = upd_user s (\<lambda>u. u\<lparr>wire_out := (wire_out u)(c := wire_out u c @ take m xs)\<rparr>)"
  have w: "writev_data c (int m) s = Some s1" using k v(1) m by (simp add: writev_data_def s1_def)
  have sd1: "sending c R s1 k dss n" using sd(1) by (simp add: sending_def s1_def con_at_def)
  have h1: "GetSocketByHandle s1 (c_socket k) \<noteq> None" "sys_results s1 = map (\<lambda>m. (int m, 0)) ns" using h sys(1) by (simp_all add: s1_def)
  obtain s' k' dss' where f: "SendFinish_loop hs c (int m) (io_err s1 (2 * c + 1)) s1 = Some s'" "sending c R s' k' dss' n"
    "concat dss' = drop (m + sum_list ns) (concat dss)"
    "wire_out (user s') c = wire_out (user s1) c @ take (sum_list ns) (drop m (concat dss))" "send_used k' = (send_used k \<and> dss' \<noteq> [])"
    using SendFinish_law [OF sd1 sd(2) m(1) ns h1(2) sys(2) h1(1), of hs "io_err s1 (2 * c + 1)"] by blast
  have "take m xs = take m (concat dss)" using v(2) m(2) by simp
  then have "wire_out (user s') c = wire_out (user s) c @ take (m + sum_list ns) (concat dss)"
    using f(4) by (simp add: s1_def take_add)
  then show ?thesis using w f by (auto simp: conn_callback_def SendFinish_def)
qed

definition send_store :: bstore where
  "send_store = \<lparr>cells = [1 \<mapsto> \<lparr>refcount = 1, mt = 0, capacity = 4, bsize = 4, bnext = 0, bbuf = [1, 2, 3, 4]\<rparr>], fresh = 2, quota = 0\<rparr>"

definition send_packet :: wpacket where
  "send_packet = \<lparr>wlen = 0, wbuf = 1, writebuf = 0, wpos = 0, factor = 0, wbegin_pos = 1, data_size = 3, wraw = 0, wmt = 0\<rparr>"

definition send_sample :: ssys where
  "send_sample = server_sample\<lparr>sys_results := [(2, 0)], user := (user server_sample)\<lparr>bst := send_store,
     conns := [2 \<mapsto> conn_sample\<lparr>send_used := True, send_list := [(send_packet, 0)], wsendbuf := [\<lparr>iov_base = (1, 1), iov_len = 3\<rparr>]\<rparr>]\<rparr>\<rparr>"

lemma send_store_inv: "rc_inv send_store {#1#}"
proof -
  have "preds send_store (Suc 0) = {}" "\<exists>as. chain (bnexts send_store) (Suc 0) as 0"
    by (auto simp: preds_def bnexts_def send_store_def intro!: exI [of _ "[1]"])
  then show ?thesis unfolding rc_inv_def by (auto simp: send_store_def buf_ok_def)
qed

theorem connection_sends_queue_witness:
  "\<exists>s'. conn_callback server_handlers 0 False 1 5 send_sample = Some s' \<and> wire_out (user s') 2 = [2, 3, 4]"
proof -
  let ?k = "conn_sample\<lparr>send_used := True, send_list := [(send_packet, 0)], wsendbuf := [\<lparr>iov_base = (1, 1), iov_len = 3\<rparr>]\<rparr>"
  have h: "holds send_store send_packet [1] [2, 3, 4]"
    by (simp add: holds_def send_packet_def send_store_def bnexts_def contents_Cons bytes_of_def)
  have sd: "sending 2 {#} send_sample ?k [[2, 3, 4]] 1"
    unfolding sending_def using h send_store_inv
    by (auto simp: con_at_def send_sample_def wroots_def send_packet_def few_refs_def send_store_def)
  have "\<exists>s' k' dss'. conn_callback server_handlers 0 False (int 1) (2 * 2 + 1) send_sample = Some s' \<and> sending 2 {#} s' k' dss' 1 \<and>
    concat dss' = drop (1 + sum_list [2]) (concat [[2, 3, 4]]) \<and>
    wire_out (user s') 2 = wire_out (user send_sample) 2 @ take (1 + sum_list [2]) (concat [[2, 3, 4]]) \<and>
    send_used k' = (send_used ?k \<and> dss' \<noteq> [])"
    by (rule connection_sends_queue [OF sd, where xs="[2, 3, 4]" and ys="[]"])
      (simp_all add: send_sample_def send_store_def memcpy_from_def buf_at_def GetSocketByHandle_def server_sample_def conn_sample_def)
  moreover have "wire_out (user send_sample) 2 = []" by (simp add: send_sample_def server_sample_def)
  ultimately show ?thesis by auto
qed

end
