(* ===== verification/Spec2Isabelle.thy ===== *)
theory Spec2Isabelle
  imports HashMap Lookup8 LinkList Rpacket MinHeap TimingWheel BlockAlloc RBtree DList Spinlock Connector Log Vector KString Sync Coro Acceptor RBdelete Except Tls Timer LocalPool ConnectionProps
begin

text \<open>
  Verification of kendylib, a C network library: containers, reference counted buffers and packets, a
  reactor over \<open>epoll\<close>, connections that send and receive packets over it, and services (log,
  timers, connector, allocator).

  \<^bold>\<open>The program and how its parts interact.\<close> \<open>src/epoll.c\<close> waits for ready sockets and puts
  them into the list of active sockets of their engine; \<open>src/KendyNet.c\<close> is the public interface
  by which a client posts requests to read or write (\<open>WSARecv\<close>, \<open>WSASend\<close>) and runs the engine;
  \<open>src/Socket.c\<close> performs the posted requests with \<open>readv\<close> and \<open>writev\<close> and calls
  the client back. \<open>src/Connection.c\<close> is that client: it receives into a chain of 64 KB buffers
  (\<open>src/buffer.c\<close>), cuts the stream into packets (\<open>src/rpacket.c\<close>), hands them to the
  application and sends queued packets (\<open>src/wpacket.c\<close>). \<open>src/testserver.c\<close> is an application
  that sends every packet to all its clients. Handles are managed by \<open>src/HandleMgr.c\<close> and opened
  by \<open>src/SocketWrapper.c\<close> and \<open>src/Connector.c\<close>.

  \<^bold>\<open>Theories and sources.\<close>
  \<^item> \<open>Prelude\<close>: machine integers, addresses, the store of \<open>next\<close> pointers, lemmas on lists and words.
  \<^item> \<open>LinkList\<close>: \<open>src/link_list.c\<close>, the intrusive list and its blocking queue. The pointer
    structure refines the list of its nodes; under any interleaving no node is lost.
  \<^item> \<open>Lookup8\<close>: \<open>src/lookup8.c\<close>, the 64-bit hash: equal to a reference hash over padded blocks; its mixing
    step is a bijection.
  \<^item> \<open>HashMap\<close>: \<open>src/hash_map.c\<close>, open addressing with tombstones as a finite map; growing keeps the contents.
  \<^item> \<open>Buffer\<close>, \<open>Wpacket\<close>, \<open>Rpacket\<close>: \<open>src/buffer.c\<close>, \<open>src/refbase.c\<close>,
    \<open>src/wpacket.c\<close>, \<open>src/rpacket.c\<close>: exact reference counts over chains of buffers, growing
    writers, readers that cross buffers, and the round trip of typed contents.
  \<^item> \<open>MinHeap\<close>, \<open>TimingWheel\<close>: \<open>coro/minheap.c\<close>, \<open>src/timing_wheel.c\<close>.
  \<^item> \<open>BlockAlloc\<close>: \<open>src/block_obj_allocator.c\<close>, per-thread free lists and the central list.
  \<^item> \<open>RBtree\<close>: \<open>src/RBtree.c\<close> and \<open>src/map.c\<close>; the parent-linked structure refines a functional
    red-black tree for insertion, search and iteration. \<open>RBdelete\<close>: deletion and its fix-up refine the removal of
    one entry, and the map over its whole life is a finite map.
  \<^item> \<open>DList\<close>: \<open>src/list.c\<close>, doubly linked. \<open>Vector\<close>: \<open>src/vector.c\<close> over a heap of byte
    blocks. \<open>KString\<close>: \<open>src/kstring.c\<close>, every access to a block checked.
  \<^item> \<open>Spinlock\<close>: \<open>src/spinlock.c\<close> cut into its atomic accesses, any interleaving.
  \<^item> \<open>Net\<close>: \<open>src/epoll.c\<close>, \<open>src/KendyNet.c\<close>, \<open>src/Socket.c\<close>, \<open>src/Engine.c\<close>,
    \<open>src/HandleMgr.c\<close>, \<open>src/SocketWrapper.c\<close>, generic in the state of the client.
  \<^item> \<open>Connector\<close>, \<open>Acceptor\<close>: \<open>src/Connector.c\<close> and \<open>src/Acceptor.c\<close> over \<open>Net\<close>: every request is
    reported at most once, as connected only when \<open>select\<close> says so, and none is lost; every connection that is taken from the system is reported once.
  \<^item> \<open>Sync\<close>: the barrier of \<open>src/sync.c\<close> and suspension in \<open>src/thread.c\<close>, any interleaving, with spurious
    wake-ups. \<open>Coro\<close>: \<open>coro/co_sche.c\<close>, the scheduler of coroutines.
  \<^item> \<open>Except\<close>: \<open>src/except.c\<close> and the macros of \<open>include/except.h\<close>, as outcomes of a small language, with the range
    of the counter of \<open>TRY\<close>s and its value after a \<open>longjmp\<close>.
    \<open>Tls\<close>: \<open>src/tls.c\<close>. \<open>Timer\<close>: \<open>src/timer.c\<close>. \<open>LocalPool\<close>: \<open>src/local_pool.c\<close>.
  \<^item> \<open>Connection\<close>, \<open>Receive\<close>, \<open>RecvMemory\<close>, \<open>Unpack\<close>, \<open>Handler\<close>, \<open>Sending\<close>,
    \<open>Server\<close>, \<open>ConnectionProps\<close>: \<open>src/Connection.c\<close> and \<open>src/testserver.c\<close> over \<open>Net\<close> and
    the packets; what is received in any pieces is cut into exactly its packets and queued for all clients,
    and whatever the sizes of the writes the wire carries the queue in order.
  \<^item> \<open>Log\<close>: \<open>src/log.c\<close>: callers, the closing and the worker thread in any interleaving of their accesses to the closing
    flag and the queues: what a file holds in the end, and which lines can be lost.

  \<^bold>\<open>Conventions.\<close> A value \<open>None\<close> of an operation is undefined behaviour of the C code: a null or
  dangling pointer, an access outside a block, a failed \<open>assert\<close>, signed overflow. Error codes are
  ordinary results. System calls, the clock, \<open>select\<close>, \<open>epoll_wait\<close>, \<open>readv\<close>/\<open>writev\<close> and the
  decisions of the allocator are scripts in the state or arguments, so that a theorem for all scripts holds
  for all their behaviours. Loops that may not end are \<open>partial_function\<close>s, for which
  termination is proved where it is claimed. The other recursive functions have measures; where a
  counter bounds a loop (64-bit hash tables, log files) the statement has the bound of the C type as hypothesis:
  byte counters below \<open>INT32_MAX\<close>, at most \<open>INT32_MAX\<close> \<open>TRY\<close>s in an activation of a function, at most 1024 buffers in a write, lengths below \<open>2 ^ 32\<close>.

  \<^bold>\<open>Interfaces.\<close> Contracts between components are locales with interpretations on the
  model: the interface of callbacks of the connector, of the packet handler of a connection, of the
  allocator and the containers. The block allocator assumes that the spin lock excludes, which
  \<open>Spinlock\<close> proves for the endless spin; with a bound on the attempts it does not.

  \<^bold>\<open>Fuel and bounds.\<close> The only fuel is that of the client loop over a map, whose bound is the number of its
    entries plus one; every script (system calls, clock, polls) is finite and its end is an error result of the call, so a loop that
    polls ends with it.

  \<^bold>\<open>Not modelled.\<close> \<open>src/uthread.c\<close> switches stacks in inline assembly; \<open>Coro\<close> has its switch as a change of
    the running coroutine. The address queries of \<open>src/SocketWrapper.c\<close> only pass on system calls. \<open>RBtree_check_vaild\<close>
    prints a diagnosis. The functions that destroy a block allocator only free what it holds. The allocator in \<open>src/buffer.c\<close> and the
    passing of descriptors in \<open>src/SocketWrapper.c\<close> are commented out. The remaining test programs start the parts and print.
\<close>

end
